(* ===== verification/Prelude.thy ===== *)
theory Prelude
  imports Main "HOL-Library.Word"
begin

text \<open>
  The shared vocabulary of the development: the C++ integer types as words, byte vectors,
  the collections of simplification rules that the component theories feed, and the facts on
  words and lists that more than one component uses.
\<close>

unbundle bit_operations_syntax

section \<open>Types\<close>

type_synonym u8 = "8 word"
type_synonym u16 = "16 word"
type_synonym u32 = "32 word"
type_synonym u64 = "64 word"

text \<open>
  \<open>std::vector<unsigned char>\<close>, \<open>valtype\<close>, \<open>CScript\<close> and the \<open>base_blob\<close> classes are byte
  lists. \<open>uint256\<close> and \<open>uint160\<close> are byte lists of length 32 and 20.
\<close>

type_synonym bytes = "u8 list"
type_synonym uint256 = bytes
type_synonym uint160 = bytes

text \<open>\<open>CAmount\<close> is \<open>int64_t\<close>; the model keeps it as \<^typ>\<open>int\<close> and states its range.\<close>

type_synonym CAmount = int

definition int64_range :: "int \<Rightarrow> bool" where
  "int64_range x \<longleftrightarrow> - (2 ^ 63) \<le> x \<and> x < 2 ^ 63"

definition int32_range :: "int \<Rightarrow> bool" where
  "int32_range x \<longleftrightarrow> - (2 ^ 31) \<le> x \<and> x < 2 ^ 31"

section \<open>Rule collections\<close>

named_theorems limb_simps \<open>values of limb arrays\<close>

section \<open>Words\<close>

lemma unat_ucast_u32_u64 [simp]: "unat (ucast (x :: u32) :: u64) = unat x"
proof -
  have "unat x < 2 ^ 64" using unsigned_less [of x, where 'a = nat] by simp
  then show ?thesis by (simp add: unsigned_ucast_eq take_bit_nat_eq_self_iff)
qed

lemma u32_bound: "unat (x :: u32) < 2 ^ 32"
  using unsigned_less [of x, where 'a = nat] by simp

lemma u8_bound: "unat (x :: u8) < 256"
  using unsigned_less [of x, where 'a = nat] by simp

text \<open>Splitting a 64-bit intermediate result into the stored limb and the carry.\<close>

lemma unat_low_u64: "unat (ucast ((n :: u64) AND 0xffffffff) :: u32) = unat n mod 2 ^ 32"
proof -
  have m: "(0xffffffff :: u64) = mask 32" by (simp add: mask_eq_exp_minus_1)
  have "unat (ucast (n AND mask 32) :: u32) = take_bit 32 (unat (take_bit 32 n))"
    by (simp add: unsigned_ucast_eq take_bit_eq_mask)
  also have "\<dots> = take_bit 32 (unat n)"
    by (simp add: unsigned_take_bit_eq)
  also have "\<dots> = unat n mod 2 ^ 32"
    by (rule take_bit_eq_mod)
  finally show ?thesis by (simp only: m)
qed

lemma unat_high_u64: "unat (drop_bit 32 (n :: u64)) = unat n div 2 ^ 32"
  by (simp only: unat_drop_bit_eq drop_bit_eq_div [of 32 "unat n"])

lemma u64_split:
  "unat (ucast ((n :: u64) AND 0xffffffff) :: u32) + 2 ^ 32 * unat (drop_bit 32 n) = unat n"
  by (simp only: unat_low_u64 unat_high_u64 mod_mult_div_eq)

text \<open>Joining disjoint bit fields with \<open>OR\<close> adds their values.\<close>

lemma or_push_bit_nat: "(a :: nat) < 2 ^ n \<Longrightarrow> a OR push_bit n b = a + 2 ^ n * b"
proof -
  assume a: "a < 2 ^ n"
  then have t: "take_bit n a = a" by (simp add: take_bit_nat_eq_self_iff)
  have "a AND push_bit n b = 0"
    by (rule bit_eqI) (metis t bit_and_iff bit_push_bit_iff bit_take_bit_iff bit_0_eq bot_apply bot_bool_def linorder_not_less)
  then have "a + push_bit n b = a OR push_bit n b" by (rule disjunctive_add_eq_or)
  then show ?thesis by (simp add: push_bit_eq_mult mult.commute)
qed

lemma unat_ucast_u64_u32: "unat (ucast (x :: u64) :: u32) = unat x mod 2 ^ 32"
  by (simp only: unsigned_ucast_eq take_bit_eq_mod [of _ "unat x"]) simp

end
