(* ===== verification/Arith_Uint256.thy ===== *)
theory Arith_Uint256
  imports Prelude
begin

text \<open>
  \<^verbatim>\<open>src/src/arith_uint256.h\<close> and \<^verbatim>\<open>src/src/arith_uint256.cpp\<close>: unsigned integers held as an array
  of 32-bit limbs, least significant limb first, and the compact encoding of targets.
\<close>

section \<open>The limb array\<close>

text \<open>
  \<open>base_uint<BITS>\<close> is its array \<open>pn\<close>; \<open>WIDTH\<close> is the length of the list. \<open>arith_uint256\<close> is
  the instance of width 8.
\<close>

type_synonym base_uint = "u32 list"

definition WIDTH256 :: nat where
  "WIDTH256 = 8"

definition base_uint_zero :: "nat \<Rightarrow> base_uint" where
  "base_uint_zero W = replicate W 0"

text \<open>Construction and assignment from \<open>uint64_t\<close> (the class requires \<open>WIDTH \<ge> 2\<close> there).\<close>

definition base_uint_of_u64 :: "nat \<Rightarrow> u64 \<Rightarrow> base_uint" where
  "base_uint_of_u64 W b = ucast b # ucast (drop_bit 32 b) # replicate (W - 2) 0"

definition base_uint_is_zero :: "base_uint \<Rightarrow> bool" where
  "base_uint_is_zero pn = list_all (\<lambda>x. x = 0) pn"

definition base_uint_not :: "base_uint \<Rightarrow> base_uint" where
  "base_uint_not pn = map (\<lambda>x. NOT x) pn"

definition base_uint_xor :: "base_uint \<Rightarrow> base_uint \<Rightarrow> base_uint" where
  "base_uint_xor a b = map2 (\<lambda>x y. x XOR y) a b"

definition base_uint_and :: "base_uint \<Rightarrow> base_uint \<Rightarrow> base_uint" where
  "base_uint_and a b = map2 (\<lambda>x y. x AND y) a b"

definition base_uint_or :: "base_uint \<Rightarrow> base_uint \<Rightarrow> base_uint" where
  "base_uint_or a b = map2 (\<lambda>x y. x OR y) a b"

text \<open>\<open>operator++\<close> and \<open>operator--\<close>: the carry stops at the first limb that does not wrap.\<close>

fun base_uint_inc :: "base_uint \<Rightarrow> base_uint" where
  "base_uint_inc [] = []"
| "base_uint_inc (x # xs) = (x + 1) # (if x + 1 = 0 then base_uint_inc xs else xs)"

fun base_uint_dec :: "base_uint \<Rightarrow> base_uint" where
  "base_uint_dec [] = []"
| "base_uint_dec (x # xs) = (x - 1) # (if x - 1 = - 1 then base_uint_dec xs else xs)"

definition base_uint_neg :: "base_uint \<Rightarrow> base_uint" where
  "base_uint_neg pn = base_uint_inc (map (\<lambda>x. NOT x) pn)"

text \<open>\<open>operator+=\<close>: the loop over the limbs with the 64-bit carry.\<close>

fun base_uint_add_loop :: "u64 \<Rightarrow> base_uint \<Rightarrow> base_uint \<Rightarrow> base_uint" where
  "base_uint_add_loop carry (x # xs) (y # ys) =
     (let n = carry + ucast x + ucast y
      in ucast (n AND 0xffffffff) # base_uint_add_loop (drop_bit 32 n) xs ys)"
| "base_uint_add_loop carry xs ys = []"

definition base_uint_add :: "base_uint \<Rightarrow> base_uint \<Rightarrow> base_uint" where
  "base_uint_add a b = base_uint_add_loop 0 a b"

definition base_uint_sub :: "base_uint \<Rightarrow> base_uint \<Rightarrow> base_uint" where
  "base_uint_sub a b = base_uint_add a (base_uint_neg b)"

definition base_uint_add_u64 :: "base_uint \<Rightarrow> u64 \<Rightarrow> base_uint" where
  "base_uint_add_u64 a b = base_uint_add a (base_uint_of_u64 (length a) b)"

definition base_uint_sub_u64 :: "base_uint \<Rightarrow> u64 \<Rightarrow> base_uint" where
  "base_uint_sub_u64 a b = base_uint_add a (base_uint_neg (base_uint_of_u64 (length a) b))"

text \<open>\<open>operator*=(uint32_t)\<close>.\<close>

fun base_uint_mul32_loop :: "u64 \<Rightarrow> u32 \<Rightarrow> base_uint \<Rightarrow> base_uint" where
  "base_uint_mul32_loop carry b [] = []"
| "base_uint_mul32_loop carry b (x # xs) =
     (let n = carry + ucast b * ucast x
      in ucast (n AND 0xffffffff) # base_uint_mul32_loop (drop_bit 32 n) b xs)"

definition base_uint_mul32 :: "base_uint \<Rightarrow> u32 \<Rightarrow> base_uint" where
  "base_uint_mul32 pn b = base_uint_mul32_loop 0 b pn"

text \<open>
  \<open>operator*=(const base_uint&)\<close>. The operand is a reference, so it may be the object itself:
  \<open>self\<close> says that it is, and then \<open>b.pn[i]\<close> reads the array that the loop is writing, after it
  has been set to zero.
\<close>

function base_uint_mul_inner :: "bool \<Rightarrow> base_uint \<Rightarrow> u32 \<Rightarrow> nat \<Rightarrow> nat \<Rightarrow> u64 \<Rightarrow> base_uint \<Rightarrow> base_uint" where
  "base_uint_mul_inner self b aj j i carry pn =
     (if i + j < length pn then
        (let bi = (if self then pn ! i else b ! i);
             n = carry + ucast (pn ! (i + j)) + ucast aj * ucast bi
         in base_uint_mul_inner self b aj j (i + 1) (drop_bit 32 n)
              (pn[i + j := ucast (n AND 0xffffffff)]))
      else pn)"
  by pat_completeness auto
termination
  by (relation "measure (\<lambda>(self, b, aj, j, i, carry, pn). length pn - (i + j))") (auto simp: Let_def)

declare base_uint_mul_inner.simps [simp del]

definition base_uint_mul_assign :: "bool \<Rightarrow> base_uint \<Rightarrow> base_uint \<Rightarrow> base_uint" where
  "base_uint_mul_assign self this b =
     fold (\<lambda>j pn. base_uint_mul_inner self b (this ! j) j 0 0 pn) [0..<length this]
       (base_uint_zero (length this))"

text \<open>\<open>operator*\<close> multiplies a copy in place, so the operand is never the object itself.\<close>

definition base_uint_mul :: "base_uint \<Rightarrow> base_uint \<Rightarrow> base_uint" where
  "base_uint_mul a b = base_uint_mul_assign False a b"

text \<open>\<open>operator<<=\<close> and \<open>operator>>=\<close>: one pass over the limbs of the copy \<open>a\<close>.\<close>

definition base_uint_shl_step :: "base_uint \<Rightarrow> nat \<Rightarrow> nat \<Rightarrow> nat \<Rightarrow> base_uint \<Rightarrow> base_uint" where
  "base_uint_shl_step a k s i pn =
     (let pn1 = (if i + k + 1 < length a \<and> s \<noteq> 0
                 then pn[i + k + 1 := pn ! (i + k + 1) OR drop_bit (32 - s) (a ! i)] else pn)
      in if i + k < length a then pn1[i + k := pn1 ! (i + k) OR push_bit s (a ! i)] else pn1)"

definition base_uint_shl :: "base_uint \<Rightarrow> nat \<Rightarrow> base_uint" where
  "base_uint_shl a shift =
     fold (base_uint_shl_step a (shift div 32) (shift mod 32)) [0..<length a]
       (base_uint_zero (length a))"

definition base_uint_shr_step :: "base_uint \<Rightarrow> nat \<Rightarrow> nat \<Rightarrow> nat \<Rightarrow> base_uint \<Rightarrow> base_uint" where
  "base_uint_shr_step a k s i pn =
     (let pn1 = (if int i - int k - 1 \<ge> 0 \<and> s \<noteq> 0
                 then pn[i - k - 1 := pn ! (i - k - 1) OR push_bit (32 - s) (a ! i)] else pn)
      in if int i - int k \<ge> 0 then pn1[i - k := pn1 ! (i - k) OR drop_bit s (a ! i)] else pn1)"

definition base_uint_shr :: "base_uint \<Rightarrow> nat \<Rightarrow> base_uint" where
  "base_uint_shr a shift =
     fold (base_uint_shr_step a (shift div 32) (shift mod 32)) [0..<length a]
       (base_uint_zero (length a))"

text \<open>\<open>CompareTo\<close> walks from the most significant limb down.\<close>

fun base_uint_cmp_loop :: "base_uint \<Rightarrow> base_uint \<Rightarrow> int" where
  "base_uint_cmp_loop (x # xs) (y # ys) =
     (if x < y then - 1 else if x > y then 1 else base_uint_cmp_loop xs ys)"
| "base_uint_cmp_loop xs ys = 0"

definition CompareTo :: "base_uint \<Rightarrow> base_uint \<Rightarrow> int" where
  "CompareTo a b = base_uint_cmp_loop (rev a) (rev b)"

definition EqualTo :: "base_uint \<Rightarrow> u64 \<Rightarrow> bool" where
  "EqualTo pn b \<longleftrightarrow>
     list_all (\<lambda>x. x = 0) (drop 2 pn) \<and>
     ucast (pn ! 1) = drop_bit 32 b \<and> ucast (pn ! 0) = b AND 0xffffffff"

definition GetLow64 :: "base_uint \<Rightarrow> u64" where
  "GetLow64 pn = ucast (pn ! 0) OR push_bit 32 (ucast (pn ! 1))"

text \<open>\<open>bits\<close>: the highest non-zero limb, then its highest set bit above bit 0.\<close>

fun limb_top_bit :: "u32 \<Rightarrow> nat \<Rightarrow> nat" where
  "limb_top_bit x 0 = 0"
| "limb_top_bit x (Suc n) = (if x AND push_bit (Suc n) 1 \<noteq> 0 then Suc n else limb_top_bit x n)"

fun base_uint_bits_loop :: "base_uint \<Rightarrow> nat" where
  "base_uint_bits_loop [] = 0"
| "base_uint_bits_loop (x # xs) =
     (if x \<noteq> 0 then 32 * length xs + limb_top_bit x 31 + 1 else base_uint_bits_loop xs)"

definition base_uint_bits :: "base_uint \<Rightarrow> nat" where
  "base_uint_bits pn = base_uint_bits_loop (rev pn)"

text \<open>
  \<open>operator/=\<close>: shift and subtract. The loop runs with \<open>shift = n, \<dots>, 0\<close>; the argument is
  \<open>shift + 1\<close>, so that 0 is the loop's exit \<open>shift = -1\<close>.
\<close>

datatype uint_error = DivisionByZero

fun base_uint_div_loop :: "nat \<Rightarrow> base_uint \<Rightarrow> base_uint \<Rightarrow> base_uint \<Rightarrow> base_uint \<times> base_uint" where
  "base_uint_div_loop 0 num dv pn = (pn, num)"
| "base_uint_div_loop (Suc shift) num dv pn =
     (if CompareTo num dv \<ge> 0
      then base_uint_div_loop shift (base_uint_sub num dv) (base_uint_shr dv 1)
             (pn[shift div 32 := pn ! (shift div 32) OR push_bit (shift mod 32) 1])
      else base_uint_div_loop shift num (base_uint_shr dv 1) pn)"

definition base_uint_div :: "base_uint \<Rightarrow> base_uint \<Rightarrow> uint_error + base_uint" where
  "base_uint_div a b =
     (let num_bits = base_uint_bits a; div_bits = base_uint_bits b
      in if div_bits = 0 then Inl DivisionByZero
         else if div_bits > num_bits then Inr (base_uint_zero (length a))
         else let shift = num_bits - div_bits
              in Inr (fst (base_uint_div_loop (shift + 1) a (base_uint_shl b shift)
                       (base_uint_zero (length a)))))"

section \<open>Values of limb arrays\<close>

definition LB :: nat where
  "LB = 2 ^ 32"

lemma LB_pos [simp]: "0 < LB" "LB \<noteq> 0"
  by (simp_all add: LB_def)

lemma LB_power: "LB ^ n = 2 ^ (32 * n)"
  by (simp only: LB_def power_mult)

lemma unat_minus_one_u32: "unat (- 1 :: u32) = LB - 1"
  by (simp add: unsigned_minus_1_eq_mask mask_eq_exp_minus_1 LB_def)

lemma u32_LB: "unat (x :: u32) < LB"
  using u32_bound by (simp add: LB_def)

fun limbs_val :: "base_uint \<Rightarrow> nat" where
  "limbs_val [] = 0"
| "limbs_val (x # xs) = unat x + LB * limbs_val xs"

lemma limbs_val_bound: "limbs_val xs < LB ^ length xs"
proof (induction xs)
  case (Cons x xs)
  have "LB * (limbs_val xs + 1) \<le> LB * LB ^ length xs"
    using Cons.IH by (intro mult_le_mono2) simp
  with u32_LB [of x] show ?case by simp
qed simp

lemma limbs_val_zero [simp]: "limbs_val (replicate n 0) = 0"
  by (induction n) auto

lemma limbs_val_append: "limbs_val (xs @ ys) = limbs_val xs + LB ^ length xs * limbs_val ys"
  by (induction xs) (simp_all add: algebra_simps)

lemma limbs_val_inj:
  "length xs = length ys \<Longrightarrow> limbs_val xs = limbs_val ys \<Longrightarrow> xs = ys"
proof (induction xs ys rule: list_induct2)
  case (Cons x xs y ys)
  have "unat x = limbs_val (x # xs) mod LB" "unat y = limbs_val (y # ys) mod LB"
    using u32_LB [of x] u32_LB [of y] by simp_all
  moreover have "limbs_val xs = limbs_val (x # xs) div LB" "limbs_val ys = limbs_val (y # ys) div LB"
    using u32_LB [of x] u32_LB [of y] by simp_all
  ultimately show ?case using Cons by (metis word_unat_eq_iff)
qed simp

lemma limbs_val_update:
  "k < length pn \<Longrightarrow>
   int (limbs_val (pn[k := v])) = int (limbs_val pn) + (int (unat v) - int (unat (pn ! k))) * int (LB ^ k)"
proof (induction pn arbitrary: k)
  case (Cons x xs)
  show ?case
  proof (cases k)
    case (Suc m)
    with Cons have "int (limbs_val (xs[m := v])) =
       int (limbs_val xs) + (int (unat v) - int (unat (xs ! m))) * int (LB ^ m)" by simp
    then have "int LB * int (limbs_val (xs[m := v])) =
       int LB * (int (limbs_val xs) + (int (unat v) - int (unat (xs ! m))) * int (LB ^ m))"
      by (rule arg_cong)
    with Suc show ?thesis by (simp add: algebra_simps)
  qed simp
qed simp

lemma u64_LB_split:
  "unat (ucast ((n :: u64) AND 0xffffffff) :: u32) = unat n mod LB"
  "unat (drop_bit 32 n) = unat n div LB"
  by (simp_all only: LB_def unat_low_u64 unat_high_u64)

lemma carry_step:
  "n mod LB + LB * ((S + n div LB) mod LB ^ k) = (n + LB * S) mod LB ^ Suc k"
proof -
  have "(n + LB * S) mod (LB * LB ^ k) = LB * ((n + LB * S) div LB mod LB ^ k) + (n + LB * S) mod LB"
    by (rule mod_mult2_eq)
  then show ?thesis by (simp add: add.commute)
qed

subsection \<open>Addition\<close>

lemma base_uint_add_loop_length: "length xs = length ys \<Longrightarrow> length (base_uint_add_loop c xs ys) = length xs"
  by (induction c xs ys rule: base_uint_add_loop.induct) (auto simp: Let_def)

lemma add_limb_no_overflow:
  assumes "unat (c :: u64) \<le> 1"
  shows "unat (c + ucast (x :: u32) + ucast (y :: u32)) = unat c + unat x + unat y"
proof -
  have "unat c + unat x + unat y < 2 ^ 64"
    using assms u32_bound [of x] u32_bound [of y] by simp
  then show ?thesis by (simp add: unat_word_ariths)
qed

lemma base_uint_add_loop_val:
  assumes "length xs = length ys" and "unat c \<le> 1"
  shows "limbs_val (base_uint_add_loop c xs ys) =
     (limbs_val xs + limbs_val ys + unat c) mod LB ^ length xs"
  using assms
proof (induction c xs ys rule: base_uint_add_loop.induct)
  case (1 c x xs y ys)
  define n where "n = c + ucast x + ucast y"
  have n: "unat n = unat c + unat x + unat y"
    using "1.prems" by (simp add: n_def add_limb_no_overflow)
  have "unat n < 2 * LB"
    using n "1.prems"(2) u32_LB [of x] u32_LB [of y] by linarith
  then have hi: "unat (drop_bit 32 n) \<le> 1"
    by (simp add: u64_LB_split less_Suc_eq_le [symmetric] div_less_iff_less_mult)
  have IH: "limbs_val (base_uint_add_loop (drop_bit 32 n) xs ys) =
     (limbs_val xs + limbs_val ys + unat (drop_bit 32 n)) mod LB ^ length xs"
    using "1.IH" [OF n_def] "1.prems" hi by simp
  have "limbs_val (base_uint_add_loop c (x # xs) (y # ys)) =
     unat n mod LB + LB * ((limbs_val xs + limbs_val ys + unat n div LB) mod LB ^ length xs)"
    by (simp only: base_uint_add_loop.simps Let_def n_def [symmetric] limbs_val.simps IH
        u64_LB_split)
  also have "\<dots> = (unat n + LB * (limbs_val xs + limbs_val ys)) mod LB ^ length (x # xs)"
    by (simp only: carry_step list.size add_Suc_right add_0_right)
  finally show ?case by (simp add: n algebra_simps)
qed simp_all

lemma base_uint_inc_length [simp]: "length (base_uint_inc xs) = length xs"
  by (induction xs) auto

lemma base_uint_inc_val: "limbs_val (base_uint_inc xs) = (limbs_val xs + 1) mod LB ^ length xs"
proof (induction xs)
  case (Cons x xs)
  show ?case
  proof (cases "x + 1 = 0")
    case True
    then have "x = - 1" by (simp add: eq_neg_iff_add_eq_0)
    then have x: "unat x + 1 = LB" by (simp add: unat_minus_one_u32)
    have "limbs_val (base_uint_inc (x # xs)) = LB * ((limbs_val xs + 1) mod LB ^ length xs)"
      using True Cons.IH by simp
    also have "\<dots> = (LB * (limbs_val xs + 1)) mod LB ^ length (x # xs)"
      by (simp add: mult_mod_right)
    also have "LB * (limbs_val xs + 1) = limbs_val (x # xs) + 1"
      using x by (simp add: add_mult_distrib2)
    finally show ?thesis .
  next
    case False
    then have x: "unat (x + 1) = unat x + 1"
      using unatSuc [of x] by (simp add: add.commute)
    then have "unat x + 1 < LB" using u32_LB [of "x + 1"] by simp
    then have "limbs_val ((x + 1) # xs) = limbs_val (x # xs) + 1" using x by simp
    with limbs_val_bound [of "(x + 1) # xs"] False show ?thesis by simp
  qed
qed simp

lemma base_uint_not_val: "limbs_val (map (\<lambda>x. NOT x) xs) + limbs_val xs + 1 = LB ^ length xs"
proof (induction xs)
  case (Cons x xs)
  have "unat (NOT x) + unat x + 1 = LB"
  proof -
    have "NOT x = - 1 - x" by (simp add: not_eq_complement)
    then have "unat (NOT x) = LB - 1 - unat x"
      using u32_LB [of x] by (simp add: unat_sub_if' LB_def word_le_nat_alt unat_minus_one_u32)
    then show ?thesis using u32_LB [of x] by simp
  qed
  moreover have "LB * (limbs_val (map (\<lambda>x. NOT x) xs) + limbs_val xs + 1) = LB * LB ^ length xs"
    by (simp only: Cons.IH)
  ultimately show ?case by (simp add: algebra_simps)
qed simp


lemma base_uint_neg_val: "limbs_val (base_uint_neg b) = (LB ^ length b - limbs_val b) mod LB ^ length b"
proof -
  have "limbs_val (map (\<lambda>x. NOT x) b) + 1 = LB ^ length b - limbs_val b"
    using base_uint_not_val [of b] by linarith
  then show ?thesis by (simp add: base_uint_neg_def base_uint_inc_val)
qed

lemma base_uint_neg_length [simp]: "length (base_uint_neg b) = length b"
  by (simp add: base_uint_neg_def)

lemma base_uint_add_val: "length a = length b \<Longrightarrow> limbs_val (base_uint_add a b) = (limbs_val a + limbs_val b) mod LB ^ length a"
  by (simp add: base_uint_add_def base_uint_add_loop_val)

lemma base_uint_add_length [simp]: "length a = length b \<Longrightarrow> length (base_uint_add a b) = length a"
  by (simp add: base_uint_add_def base_uint_add_loop_length)

lemma base_uint_sub_length [simp]: "length a = length b \<Longrightarrow> length (base_uint_sub a b) = length a"
  by (simp add: base_uint_sub_def)

lemma base_uint_sub_val: 
  "length a = length b \<Longrightarrow> limbs_val (base_uint_sub a b) = (limbs_val a + (LB ^ length a - limbs_val b)) mod LB ^ length a"
  by (simp add: base_uint_sub_def base_uint_add_val base_uint_neg_val mod_add_right_eq)

lemma base_uint_sub_val_le:
  assumes "length a = length b" and "limbs_val b \<le> limbs_val a"
  shows "limbs_val (base_uint_sub a b) = limbs_val a - limbs_val b"
proof -
  have "limbs_val a + (LB ^ length a - limbs_val b) = (limbs_val a - limbs_val b) + LB ^ length a"
    using assms limbs_val_bound [of b] by simp
  then show ?thesis
    using assms limbs_val_bound [of a] by (simp only: base_uint_sub_val mod_add_self2) simp
qed

lemma base_uint_of_u64_length: "2 \<le> W \<Longrightarrow> length (base_uint_of_u64 W b) = W"
  by (simp add: base_uint_of_u64_def)

lemma base_uint_of_u64_val: "limbs_val (base_uint_of_u64 W b) = unat b"
proof -
  have a: "unat (ucast b :: u32) = unat b mod LB"
    by (simp only: unsigned_ucast_eq LB_def take_bit_eq_mod) simp
  have "unat (drop_bit 32 b) < LB"
    by (simp only: unat_high_u64 LB_def) (use unsigned_less [of b, where 'a = nat] in simp)
  then have "unat (ucast (drop_bit 32 b) :: u32) = unat b div LB"
    by (simp only: unsigned_ucast_eq u64_LB_split(2) take_bit_eq_mod) (simp add: LB_def)
  with a show ?thesis by (simp add: base_uint_of_u64_def)
qed

subsection \<open>Multiplication\<close>

lemma mul_limb_no_overflow:
  assumes "unat (c :: u64) < LB" and "unat (p :: u64) < LB"
  shows "unat (c + p + ucast (a :: u32) * ucast (b :: u32)) = unat c + unat p + unat a * unat b"
    and "unat c + unat p + unat a * unat b < LB * LB"
proof -
  obtain A where A: "LB = Suc A" using LB_pos(1) gr0_conv_Suc by blast
  have "unat a * unat b \<le> A * A"
    using u32_LB [of a] u32_LB [of b] A by (intro mult_le_mono) simp_all
  moreover have "LB * LB = A * A + 2 * A + 1" unfolding A by simp
  ultimately show 1: "unat c + unat p + unat a * unat b < LB * LB" using assms A by linarith
  then have 2: "unat c + unat p + unat a * unat b < 2 ^ 64" by (simp add: LB_def)
  then show "unat (c + p + ucast a * ucast b) = unat c + unat p + unat a * unat b"
    by (simp add: unat_word_ariths)
qed

lemma base_uint_mul32_loop_val:
  assumes "unat c < LB"
  shows "limbs_val (base_uint_mul32_loop c b xs) = (unat c + unat b * limbs_val xs) mod LB ^ length xs"
  using assms
proof (induction c b xs rule: base_uint_mul32_loop.induct)
  case (2 c b x xs)
  define n where "n = c + ucast b * ucast x"
  have n: "unat n = unat c + unat b * unat x" "unat n < LB * LB"
    using mul_limb_no_overflow [of c 0 b x] "2.prems" by (simp_all add: n_def)
  have IH: "limbs_val (base_uint_mul32_loop (drop_bit 32 n) b xs) =
     (unat (drop_bit 32 n) + unat b * limbs_val xs) mod LB ^ length xs"
    using "2.IH" [OF n_def] n(2) by (simp add: u64_LB_split div_less_iff_less_mult)
  have "limbs_val (base_uint_mul32_loop c b (x # xs)) =
     unat n mod LB + LB * ((unat b * limbs_val xs + unat n div LB) mod LB ^ length xs)"
    by (simp only: base_uint_mul32_loop.simps Let_def n_def [symmetric] limbs_val.simps IH
        u64_LB_split add.commute)
  also have "\<dots> = (unat n + LB * (unat b * limbs_val xs)) mod LB ^ length (x # xs)"
    by (simp only: carry_step list.size add_Suc_right add_0_right)
  finally show ?case by (simp add: n algebra_simps)
qed simp

lemma base_uint_mul32_length: "length (base_uint_mul32_loop c b xs) = length xs"
  by (induction c b xs rule: base_uint_mul32_loop.induct) (auto simp: Let_def)

lemma base_uint_mul32_val: "limbs_val (base_uint_mul32 xs b) = (limbs_val xs * unat b) mod LB ^ length xs"
  by (simp add: base_uint_mul32_def base_uint_mul32_loop_val mult.commute)

lemma base_uint_mul_inner_length [simp]: "length (base_uint_mul_inner self b aj j i carry pn) = length pn"
  by (induction self b aj j i carry pn rule: base_uint_mul_inner.induct)
     (subst base_uint_mul_inner.simps, simp add: Let_def)

lemma limbs_val_drop:
  "i < length b \<Longrightarrow> limbs_val (drop i b) = unat (b ! i) + LB * limbs_val (drop (Suc i) b)"
  by (simp add: Cons_nth_drop_Suc [symmetric])

lemma base_uint_mul_step_algebra:
  assumes "(c :: int) + p + a * x = m + L * d"
  shows "v + (m - p) * P + (d + a * y) * (L * P) = v + (c + a * (x + L * y)) * P"
  using arg_cong [OF assms, of "\<lambda>z. z * P"] by (simp add: algebra_simps)

lemma base_uint_mul_inner_val:
  assumes "length b = length pn" and "unat carry < LB" and "i + j \<le> length pn"
  shows "int (limbs_val (base_uint_mul_inner False b aj j i carry pn)) mod int (LB ^ length pn) =
     (int (limbs_val pn) + (int (unat carry) + int (unat aj) * int (limbs_val (drop i b))) * int (LB ^ (i + j)))
        mod int (LB ^ length pn)"
  using assms
proof (induction False b aj j i carry pn rule: base_uint_mul_inner.induct)
  case (1 b aj j i carry pn)
  let ?M = "int (LB ^ length pn)"
  show ?case
  proof (cases "i + j < length pn")
    case False
    then have ij: "i + j = length pn" using "1.prems"(3) by simp
    then show ?thesis
      by (subst base_uint_mul_inner.simps) simp
  next
    case True
    define n where "n = carry + ucast (pn ! (i + j)) + ucast aj * ucast (b ! i)"
    define pn' where "pn' = pn[i + j := ucast (n AND 0xffffffff)]"
    have n: "unat n = unat carry + unat (pn ! (i + j)) + unat aj * unat (b ! i)" "unat n < LB * LB"
      using mul_limb_no_overflow [of carry "ucast (pn ! (i + j))" aj "b ! i"] "1.prems"(2) u32_LB
      by (simp_all add: n_def)
    have carry': "unat (drop_bit 32 n) < LB"
      using n(2) by (simp add: u64_LB_split div_less_iff_less_mult)
    have ib: "i < length b" using True "1.prems"(1) by simp
    have IH: "int (limbs_val (base_uint_mul_inner False b aj j (i + 1) (drop_bit 32 n) pn')) mod ?M =
       (int (limbs_val pn') + (int (unat (drop_bit 32 n)) + int (unat aj) * int (limbs_val (drop (i + 1) b)))
          * int (LB ^ (i + 1 + j))) mod ?M"
      using "1.hyps" [OF True _ _ , of "b ! i" n] "1.prems" True carry'
      by (simp add: n_def pn'_def)
    have pn': "int (limbs_val pn') =
       int (limbs_val pn) + (int (unat n mod LB) - int (unat (pn ! (i + j)))) * int (LB ^ (i + j))"
      unfolding pn'_def using True by (simp only: limbs_val_update u64_LB_split)
    have "int (unat carry) + int (unat (pn ! (i + j))) + int (unat aj) * int (unat (b ! i)) =
        int (unat n mod LB) + int LB * int (unat n div LB)"
      by (simp only: n(1) [symmetric] of_nat_mult [symmetric] of_nat_add [symmetric] mod_mult_div_eq)
    from base_uint_mul_step_algebra [OF this]
    have eq: "int (limbs_val pn') + (int (unat (drop_bit 32 n)) + int (unat aj) * int (limbs_val (drop (i + 1) b)))
          * int (LB ^ (i + 1 + j)) =
       int (limbs_val pn) + (int (unat carry) + int (unat aj) * int (limbs_val (drop i b))) * int (LB ^ (i + j))"
      unfolding pn' limbs_val_drop [OF ib] by (simp only: u64_LB_split of_nat_mult of_nat_add) simp
    have "base_uint_mul_inner False b aj j i carry pn =
      base_uint_mul_inner False b aj j (i + 1) (drop_bit 32 n) pn'"
      using True by (subst base_uint_mul_inner.simps) (simp add: Let_def n_def pn'_def)
    then show ?thesis using IH eq by simp
  qed
qed

lemma base_uint_zero_length [simp]: "length (base_uint_zero W) = W"
  by (simp add: base_uint_zero_def)

lemma base_uint_zero_val [simp]: "limbs_val (base_uint_zero W) = 0"
  by (simp add: base_uint_zero_def)

lemma base_uint_mul_fold_val:
  assumes "length b = length this" and "m \<le> length this"
  defines "r \<equiv> fold (\<lambda>j pn. base_uint_mul_inner False b (this ! j) j 0 0 pn) [0..<m] (base_uint_zero (length this))"
  shows "length r = length this \<and>
    int (limbs_val r) mod int (LB ^ length this) =
      (int (limbs_val (take m this)) * int (limbs_val b)) mod int (LB ^ length this)"
  using assms(2) unfolding r_def
proof (induction m)
  case (Suc m)
  define pn where "pn = fold (\<lambda>j pn. base_uint_mul_inner False b (this ! j) j 0 0 pn) [0..<m] (base_uint_zero (length this))"
  let ?M = "int (LB ^ length this)"
  have IH: "length pn = length this"
    "int (limbs_val pn) mod ?M = (int (limbs_val (take m this)) * int (limbs_val b)) mod ?M"
    using Suc unfolding pn_def by simp_all
  have t: "int (limbs_val (take (Suc m) this)) = int (limbs_val (take m this)) + int (LB ^ m) * int (unat (this ! m))"
    using Suc.prems by (simp add: take_Suc_conv_app_nth limbs_val_append)
  have "int (limbs_val (base_uint_mul_inner False b (this ! m) m 0 0 pn)) mod ?M =
     (int (limbs_val pn) + (int (unat (this ! m)) * int (limbs_val b)) * int (LB ^ m)) mod ?M"
    using base_uint_mul_inner_val [of b pn 0 0 m "this ! m"] IH(1) assms(1) Suc.prems by simp
  also have "\<dots> = (int (limbs_val (take m this)) * int (limbs_val b) + (int (unat (this ! m)) * int (limbs_val b)) * int (LB ^ m)) mod ?M"
    using IH(2) by (metis mod_add_left_eq)
  finally show ?case
    using IH(1) by (simp add: pn_def [symmetric] t algebra_simps)
qed simp

lemma base_uint_mul_length [simp]: "length b = length a \<Longrightarrow> length (base_uint_mul a b) = length a"
  using base_uint_mul_fold_val [of b a "length a"] by (simp add: base_uint_mul_def base_uint_mul_assign_def)

lemma base_uint_mul_val:
  assumes "length b = length a"
  shows "limbs_val (base_uint_mul a b) = (limbs_val a * limbs_val b) mod LB ^ length a"
proof -
  have "int (limbs_val (base_uint_mul a b)) mod int (LB ^ length a) =
      int (limbs_val a) * int (limbs_val b) mod int (LB ^ length a)"
    using base_uint_mul_fold_val [OF assms, of "length a"]
    by (simp add: base_uint_mul_def base_uint_mul_assign_def)
  then have "limbs_val (base_uint_mul a b) mod LB ^ length a = limbs_val a * limbs_val b mod LB ^ length a"
    by (simp only: of_nat_mult [symmetric] of_nat_mod [symmetric] of_nat_eq_iff)
  then show ?thesis using limbs_val_bound [of "base_uint_mul a b"] assms by simp
qed

lemma base_uint_mul_inner_self:
  assumes "\<forall>k < length pn. pn ! k = 0" and "carry = 0"
  shows "base_uint_mul_inner True b aj j i carry pn = pn"
  using assms
proof (induction True b aj j i carry pn rule: base_uint_mul_inner.induct)
  case (1 b aj j i carry pn)
  show ?case
  proof (cases "i + j < length pn")
    case True
    then have z: "pn ! (i + j) = 0" "pn ! i = 0" using 1 by auto
    then have u: "pn[i + j := 0] = pn" by (metis list_update_id)
    have "base_uint_mul_inner True b aj j i carry pn = base_uint_mul_inner True b aj j (i + 1) 0 pn"
      using True z u "1.prems" by (subst base_uint_mul_inner.simps) (simp add: Let_def)
    moreover have "base_uint_mul_inner True b aj j (i + 1) 0 pn = pn"
      using "1.hyps" [OF True refl refl] z u "1.prems" by simp
    ultimately show ?thesis by simp
  qed (subst base_uint_mul_inner.simps, simp)
qed

lemma base_uint_mul_assign_self: "base_uint_mul_assign True a b = base_uint_zero (length a)"
proof -
  have "fold (\<lambda>j pn. base_uint_mul_inner True b (a ! j) j 0 0 pn) js (base_uint_zero (length a)) = base_uint_zero (length a)" for js
    by (induction js) (simp_all add: base_uint_mul_inner_self base_uint_zero_def)
  then show ?thesis by (simp add: base_uint_mul_assign_def)
qed

subsection \<open>Bits\<close>

lemma LB_exp: "LB = 2 ^ 32" by (simp add: LB_def)

lemma limbs_val_take_bit: "take_bit 32 (limbs_val (x # xs)) = unat x"
  using u32_LB [of x] by (simp only: take_bit_eq_mod limbs_val.simps LB_exp [symmetric]) simp

lemma limbs_val_drop_bit: "drop_bit 32 (limbs_val (x # xs)) = limbs_val xs"
  using u32_LB [of x] by (simp only: drop_bit_eq_div limbs_val.simps LB_exp [symmetric]) simp

lemma bit_limbs_val:
  "bit (limbs_val xs) j \<longleftrightarrow> j div 32 < length xs \<and> bit (xs ! (j div 32)) (j mod 32)"
proof (induction xs arbitrary: j)
  case (Cons x xs)
  show ?case
  proof (cases "j < 32")
    case True
    then have "bit (limbs_val (x # xs)) j = bit (take_bit 32 (limbs_val (x # xs))) j"
      by (simp only: bit_take_bit_iff) simp
    also have "\<dots> = bit (unat x) j" by (simp only: limbs_val_take_bit)
    finally show ?thesis using True by (simp add: bit_unsigned_iff bit_imp_le_length)
  next
    case False
    then have "bit (limbs_val (x # xs)) j = bit (drop_bit 32 (limbs_val (x # xs))) (j - 32)"
      by (simp only: bit_drop_bit_eq o_def) simp
    also have "\<dots> = bit (limbs_val xs) (j - 32)" by (simp only: limbs_val_drop_bit)
    also have "\<dots> \<longleftrightarrow> (j - 32) div 32 < length xs \<and> bit (xs ! ((j - 32) div 32)) ((j - 32) mod 32)"
      by (rule Cons.IH)
    finally show ?thesis
      using False by (simp add: le_div_geq le_mod_geq)
  qed
qed simp

lemma base_uint_shl_fold_nth:
  fixes k s :: nat
  assumes "m \<le> length a"
  defines "r \<equiv> fold (base_uint_shl_step a k s) [0..<m] (base_uint_zero (length a))"
  shows "length r = length a \<and> (\<forall>q < length a. r ! q =
     (if k \<le> q \<and> q - k < m then push_bit s (a ! (q - k)) else 0) OR
     (if k + 1 \<le> q \<and> q - k - 1 < m \<and> s \<noteq> 0 then drop_bit (32 - s) (a ! (q - k - 1)) else 0))"
  using assms(1) unfolding r_def
proof (induction m)
  case 0
  then show ?case by (simp add: base_uint_zero_def)
next
  case (Suc m)
  define pn where "pn = fold (base_uint_shl_step a k s) [0..<m] (base_uint_zero (length a))"
  have IH: "length pn = length a" "\<forall>q < length a. pn ! q =
     (if k \<le> q \<and> q - k < m then push_bit s (a ! (q - k)) else 0) OR
     (if k + 1 \<le> q \<and> q - k - 1 < m \<and> s \<noteq> 0 then drop_bit (32 - s) (a ! (q - k - 1)) else 0)"
    using Suc unfolding pn_def by simp_all
  have "(base_uint_shl_step a k s m pn) ! q =
     (if k \<le> q \<and> q - k < Suc m then push_bit s (a ! (q - k)) else 0) OR
     (if k + 1 \<le> q \<and> q - k - 1 < Suc m \<and> s \<noteq> 0 then drop_bit (32 - s) (a ! (q - k - 1)) else 0)"
    if q: "q < length a" for q
  proof -
    consider "q = m + k" | "q = m + k + 1" | "q \<noteq> m + k" "q \<noteq> m + k + 1" by blast
    then show ?thesis
    proof cases
      case 1
      then show ?thesis using q IH by (auto simp: base_uint_shl_step_def Let_def or.commute)
    next
      case 2
      then show ?thesis using q IH by (auto simp: base_uint_shl_step_def Let_def)
    next
      case 3
      then have "(base_uint_shl_step a k s m pn) ! q = pn ! q"
        by (simp add: base_uint_shl_step_def Let_def)
      moreover have "(k \<le> q \<and> q - k < Suc m) = (k \<le> q \<and> q - k < m)"
        "(k + 1 \<le> q \<and> q - k - 1 < Suc m \<and> s \<noteq> 0) = (k + 1 \<le> q \<and> q - k - 1 < m \<and> s \<noteq> 0)"
        using 3 by auto
      ultimately show ?thesis using IH(2) [rule_format, OF q] by (simp only:)
    qed
  qed
  moreover have "length (base_uint_shl_step a k s m pn) = length a"
    using IH(1) by (simp add: base_uint_shl_step_def Let_def)
  ultimately show ?case by (simp add: pn_def [symmetric])
qed


lemma base_uint_shl_length [simp]: "length (base_uint_shl a n) = length a"
  using base_uint_shl_fold_nth [of "length a" a "n div 32" "n mod 32"] by (simp add: base_uint_shl_def)

lemma base_uint_shl_nth:
  assumes "q < length a"
  shows "base_uint_shl a n ! q =
     (if n div 32 \<le> q then push_bit (n mod 32) (a ! (q - n div 32)) else 0) OR
     (if n div 32 + 1 \<le> q \<and> n mod 32 \<noteq> 0 then drop_bit (32 - n mod 32) (a ! (q - n div 32 - 1)) else 0)"
proof -
  have "q - n div 32 < length a" "q - n div 32 - 1 < length a" using assms by auto
  then show ?thesis
    using base_uint_shl_fold_nth [of "length a" a "n div 32" "n mod 32"] assms by (simp add: base_uint_shl_def)
qed

lemma bit_or_if_words:
  fixes x y :: u32
  shows "bit ((if P then push_bit s x else 0) OR (if Q then drop_bit t y else 0)) r \<longleftrightarrow>
     (P \<and> s \<le> r \<and> r < 32 \<and> bit x (r - s)) \<or> (Q \<and> bit y (t + r))"
  by (simp add: bit_or_iff bit_push_bit_iff bit_drop_bit_eq)

text \<open>A bit position \<open>32 q + r\<close> minus or plus a shift \<open>32 k + s\<close>, by limb and offset.\<close>

lemma div_mod_32: "r < 32 \<Longrightarrow> (32 * q + r) div 32 = q" "r < 32 \<Longrightarrow> (32 * q + r) mod 32 = (r :: nat)"
  by simp_all

lemma pos_minus_shift:
  fixes j n :: nat
  assumes "n \<le> j"
  shows "n mod 32 \<le> j mod 32 \<Longrightarrow> n div 32 \<le> j div 32 \<and> 
       (j - n) div 32 = j div 32 - n div 32 \<and> (j - n) mod 32 = j mod 32 - n mod 32"
    and "j mod 32 < n mod 32 \<Longrightarrow> n div 32 + 1 \<le> j div 32 \<and>
       (j - n) div 32 = j div 32 - n div 32 - 1 \<and> (j - n) mod 32 = 32 - n mod 32 + j mod 32"
proof -
  define q r k s where d: "q = j div 32" "r = j mod 32" "k = n div 32" "s = n mod 32"
  have e: "j = 32 * q + r" "n = 32 * k + s" "r < 32" "s < 32" by (simp_all add: d)
  {
    assume "n mod 32 \<le> j mod 32"
    then have "s \<le> r" by (simp add: d)
    then have "k \<le> q" "j - n = 32 * (q - k) + (r - s)" using assms e by linarith+
    then show "n div 32 \<le> j div 32 \<and>
       (j - n) div 32 = j div 32 - n div 32 \<and> (j - n) mod 32 = j mod 32 - n mod 32"
      using e(3) unfolding d [symmetric] by (simp only: div_mod_32 less_imp_diff_less) 
  }
  {
    assume "j mod 32 < n mod 32"
    then have "r < s" by (simp add: d)
    then have "k + 1 \<le> q" "j - n = 32 * (q - k - 1) + (32 - s + r)" "32 - s + r < 32" using assms e by linarith+
    then show "n div 32 + 1 \<le> j div 32 \<and>
       (j - n) div 32 = j div 32 - n div 32 - 1 \<and> (j - n) mod 32 = 32 - n mod 32 + j mod 32"
      unfolding d [symmetric] by (simp only: div_mod_32)
  }
qed

lemma u32_bit_bound: "bit (x :: u32) n \<Longrightarrow> n < 32"
  by (auto dest: bit_imp_le_length)

lemma limb_index: "j < 32 * W \<longleftrightarrow> j div 32 < (W :: nat)"
  by (simp add: div_less_iff_less_mult mult.commute)

lemma base_uint_shl_bit:
  "bit (limbs_val (base_uint_shl a n)) j \<longleftrightarrow>
     j < 32 * length a \<and> n \<le> j \<and> bit (limbs_val a) (j - n)"
proof (cases "j div 32 < length a")
  case False
  then show ?thesis by (simp only: bit_limbs_val base_uint_shl_length limb_index) simp
next
  case q: True
  let ?q = "j div 32" and ?r = "j mod 32" and ?k = "n div 32" and ?s = "n mod 32"
  have L: "bit (limbs_val (base_uint_shl a n)) j \<longleftrightarrow>
     (?k \<le> ?q \<and> ?s \<le> ?r \<and> bit (a ! (?q - ?k)) (?r - ?s)) \<or>
     (?k + 1 \<le> ?q \<and> ?s \<noteq> 0 \<and> bit (a ! (?q - ?k - 1)) (32 - ?s + ?r))"
    using q by (simp only: bit_limbs_val base_uint_shl_length base_uint_shl_nth bit_or_if_words mod_less_divisor) simp
  have len: "?q - ?k < length a" "?q - ?k - 1 < length a" using q by linarith+
  consider "j < n" | "n \<le> j" "?s \<le> ?r" | "n \<le> j" "?r < ?s" by linarith
  then show ?thesis
  proof cases
    case 1
    then have "?q \<le> ?k" "?k \<le> ?q \<Longrightarrow> ?r < ?s"
      by (simp_all add: div_le_mono) (metis div_mult_mod_eq dual_order.antisym div_le_mono less_imp_le_nat nat_add_left_cancel_less)
    with L 1 show ?thesis by auto
  next
    case 2
    have "\<not> bit (a ! (?q - ?k - 1)) (32 - ?s + ?r)"
      using 2 by (auto dest!: u32_bit_bound)
    then show ?thesis
      using L 2 pos_minus_shift(1) [OF 2] len q by (simp only: bit_limbs_val limb_index) simp
  next
    case 3
    then have "?s \<noteq> 0" "\<not> ?s \<le> ?r" by linarith+
    then show ?thesis
      using L 3 pos_minus_shift(2) [OF 3] len q by (simp only: bit_limbs_val limb_index) simp
  qed
qed

lemma base_uint_shl_val: "limbs_val (base_uint_shl a n) = (limbs_val a * 2 ^ n) mod LB ^ length a"
proof -
  have "limbs_val (base_uint_shl a n) = take_bit (32 * length a) (push_bit n (limbs_val a))"
    by (rule bit_eqI) (auto simp: base_uint_shl_bit bit_take_bit_iff bit_push_bit_iff)
  then show ?thesis
    by (simp only: take_bit_eq_mod push_bit_eq_mult LB_power)
qed

lemma base_uint_shr_fold_nth:
  fixes k s :: nat
  assumes "m \<le> length a"
  defines "r \<equiv> fold (base_uint_shr_step a k s) [0..<m] (base_uint_zero (length a))"
  shows "length r = length a \<and> (\<forall>q < length a. r ! q =
     (if q + k < m then drop_bit s (a ! (q + k)) else 0) OR
     (if q + k + 1 < m \<and> s \<noteq> 0 then push_bit (32 - s) (a ! (q + k + 1)) else 0))"
  using assms(1) unfolding r_def
proof (induction m)
  case 0
  then show ?case by (simp add: base_uint_zero_def)
next
  case (Suc m)
  define pn where "pn = fold (base_uint_shr_step a k s) [0..<m] (base_uint_zero (length a))"
  have IH: "length pn = length a" "\<forall>q < length a. pn ! q =
     (if q + k < m then drop_bit s (a ! (q + k)) else 0) OR
     (if q + k + 1 < m \<and> s \<noteq> 0 then push_bit (32 - s) (a ! (q + k + 1)) else 0)"
    using Suc unfolding pn_def by simp_all
  have "(base_uint_shr_step a k s m pn) ! q =
     (if q + k < Suc m then drop_bit s (a ! (q + k)) else 0) OR
     (if q + k + 1 < Suc m \<and> s \<noteq> 0 then push_bit (32 - s) (a ! (q + k + 1)) else 0)"
    if q: "q < length a" for q
  proof -
    consider "m = q + k" | "m = q + k + 1" | "m \<noteq> q + k" "m \<noteq> q + k + 1" by blast
    then show ?thesis
    proof cases
      case 1
      then show ?thesis using q IH by (auto simp: base_uint_shr_step_def Let_def or.commute nth_list_update)
    next
      case 2
      then show ?thesis using q IH by (auto simp: base_uint_shr_step_def Let_def)
    next
      case 3
      then have "(base_uint_shr_step a k s m pn) ! q = pn ! q"
        by (auto simp: base_uint_shr_step_def Let_def nth_list_update)
      moreover have "(q + k < Suc m) = (q + k < m)"
        "(q + k + 1 < Suc m \<and> s \<noteq> 0) = (q + k + 1 < m \<and> s \<noteq> 0)"
        using 3 by auto
      ultimately show ?thesis using IH(2) [rule_format, OF q] by (simp only:)
    qed
  qed
  moreover have "length (base_uint_shr_step a k s m pn) = length a"
    using IH(1) by (simp add: base_uint_shr_step_def Let_def)
  ultimately show ?case by (simp add: pn_def [symmetric])
qed

lemma base_uint_shr_length [simp]: "length (base_uint_shr a n) = length a"
  using base_uint_shr_fold_nth [of "length a" a "n div 32" "n mod 32"] by (simp add: base_uint_shr_def)

lemma base_uint_shr_nth:
  assumes "q < length a"
  shows "base_uint_shr a n ! q =
     (if q + n div 32 + 1 < length a \<and> n mod 32 \<noteq> 0 then push_bit (32 - n mod 32) (a ! (q + n div 32 + 1)) else 0) OR
     (if q + n div 32 < length a then drop_bit (n mod 32) (a ! (q + n div 32)) else 0)"
  using base_uint_shr_fold_nth [of "length a" a "n div 32" "n mod 32"] assms
  by (simp only: base_uint_shr_def or.commute)

lemma pos_plus_shift:
  fixes j n :: nat
  shows "n mod 32 + j mod 32 < 32 \<Longrightarrow>
      (n + j) div 32 = j div 32 + n div 32 \<and> (n + j) mod 32 = n mod 32 + j mod 32"
    and "32 \<le> n mod 32 + j mod 32 \<Longrightarrow>
      (n + j) div 32 = j div 32 + n div 32 + 1 \<and> (n + j) mod 32 = j mod 32 - (32 - n mod 32)"
proof -
  define x where "x = n mod 32 + j mod 32"
  have d: "(n + j) div 32 = n div 32 + j div 32 + x div 32" unfolding x_def by (rule div_add1_eq)
  have m: "(n + j) mod 32 = x mod 32" unfolding x_def by (rule mod_add_eq [symmetric])
  have x: "x < 64" unfolding x_def using mod_less_divisor [of 32 n] mod_less_divisor [of 32 j] by linarith
  show "(n + j) div 32 = j div 32 + n div 32 \<and> (n + j) mod 32 = n mod 32 + j mod 32"
    if "n mod 32 + j mod 32 < 32"
    using that d m unfolding x_def [symmetric] by simp
  show "(n + j) div 32 = j div 32 + n div 32 + 1 \<and> (n + j) mod 32 = j mod 32 - (32 - n mod 32)"
    if "32 \<le> n mod 32 + j mod 32"
  proof -
    have "x div 32 = 1" "x mod 32 = x - 32"
      using that x unfolding x_def [symmetric] by (simp_all add: le_div_geq le_mod_geq)
    moreover have "x - 32 = j mod 32 - (32 - n mod 32)" 
      unfolding x_def using mod_less_divisor [of 32 n] by linarith
    ultimately show ?thesis using d m by linarith
  qed
qed

lemma base_uint_shr_bit:
  "bit (limbs_val (base_uint_shr a n)) j \<longleftrightarrow> bit (limbs_val a) (n + j)"
proof (cases "j div 32 < length a")
  case False
  have "j div 32 \<le> (n + j) div 32" by (simp add: div_le_mono)
  with False show ?thesis by (simp only: bit_limbs_val base_uint_shr_length) simp
next
  case q: True
  let ?q = "j div 32" and ?r = "j mod 32" and ?k = "n div 32" and ?s = "n mod 32"
  have L: "bit (limbs_val (base_uint_shr a n)) j \<longleftrightarrow>
     (?q + ?k + 1 < length a \<and> ?s \<noteq> 0 \<and> 32 - ?s \<le> ?r \<and> bit (a ! (?q + ?k + 1)) (?r - (32 - ?s))) \<or>
     (?q + ?k < length a \<and> bit (a ! (?q + ?k)) (?s + ?r))"
    using q by (simp only: bit_limbs_val base_uint_shr_length base_uint_shr_nth bit_or_if_words mod_less_divisor) simp
  show ?thesis
  proof (cases "?s + ?r < 32")
    case True
    then have "\<not> (?s \<noteq> 0 \<and> 32 - ?s \<le> ?r)" by linarith
    then show ?thesis using L pos_plus_shift(1) [OF True] by (simp only: bit_limbs_val) blast
  next
    case False
    then have rs: "32 \<le> ?s + ?r" by linarith
    moreover have "?r < 32" by simp
    ultimately have "?s \<noteq> 0" "32 - ?s \<le> ?r" by linarith+
    moreover have "\<not> bit (a ! (?q + ?k)) (?s + ?r)" using False by (auto dest!: u32_bit_bound)
    ultimately show ?thesis using L pos_plus_shift(2) [OF rs] by (simp only: bit_limbs_val) blast
  qed
qed

lemma base_uint_shr_val: "limbs_val (base_uint_shr a n) = limbs_val a div 2 ^ n"
proof -
  have "limbs_val (base_uint_shr a n) = drop_bit n (limbs_val a)"
    by (rule bit_eqI) (simp only: base_uint_shr_bit bit_drop_bit_eq o_def)
  then show ?thesis by (simp only: drop_bit_eq_div)
qed


subsection \<open>Comparison\<close>

lemma u32_less_iff: "(x :: u32) < y \<longleftrightarrow> unat x < unat y"
  by (simp add: word_less_nat_alt)

lemma limbs_val_snoc_less:
  assumes "length a = length b" and "unat x < unat y"
  shows "limbs_val (a @ [x]) < limbs_val (b @ [y])"
proof -
  have "limbs_val (a @ [x]) < LB ^ length a * (unat x + 1)"
    using limbs_val_bound [of a] by (simp add: limbs_val_append algebra_simps)
  also have "\<dots> \<le> LB ^ length a * unat y" using assms(2) by (intro mult_le_mono2) simp
  also have "\<dots> \<le> limbs_val (b @ [y])" using assms(1) by (simp add: limbs_val_append)
  finally show ?thesis .
qed

lemma base_uint_cmp_loop_val:
  assumes "length a = length b"
  shows "base_uint_cmp_loop a b = 
    (if limbs_val (rev a) < limbs_val (rev b) then - 1 else if limbs_val (rev a) > limbs_val (rev b) then 1 else 0)"
  using assms
proof (induction a b rule: base_uint_cmp_loop.induct)
  case (1 x xs y ys)
  then have len: "length (rev xs) = length (rev ys)" by simp
  consider "unat x < unat y" | "unat y < unat x" | "x = y" 
    by (metis linorder_neqE_nat word_unat_eq_iff)
  then show ?case
  proof cases
    case 1
    then show ?thesis using limbs_val_snoc_less [OF len 1] by (simp add: u32_less_iff)
  next
    case 2
    then show ?thesis using limbs_val_snoc_less [OF len [symmetric] 2] by (simp add: u32_less_iff)
  next
    case 3
    then show ?thesis using "1.IH" "1.prems" by (simp add: limbs_val_append)
  qed
qed simp_all

lemma CompareTo_val:
  "length a = length b \<Longrightarrow> CompareTo a b = 
    (if limbs_val a < limbs_val b then - 1 else if limbs_val a > limbs_val b then 1 else 0)"
  by (simp add: CompareTo_def base_uint_cmp_loop_val)

lemma limb_top_bit_bounds:
  assumes "x \<noteq> 0" and "unat x < 2 ^ Suc n" and "n < 32"
  shows "2 ^ limb_top_bit x n \<le> unat x \<and> unat x < 2 ^ Suc (limb_top_bit x n) \<and> limb_top_bit x n \<le> n"
  using assms
proof (induction n)
  case 0
  then have "unat x \<noteq> 0" by (simp add: unat_eq_zero)
  then show ?case using 0 by simp
next
  case (Suc n)
  have b: "x AND push_bit (Suc n) 1 \<noteq> 0 \<longleftrightarrow> bit x (Suc n)"
    using Suc.prems(3) by (simp only: and_exp_eq_0_iff_not_bit push_bit_of_1 not_not)
  have o: "bit x (Suc n) \<longleftrightarrow> odd (unat x div 2 ^ Suc n)"
    by (simp only: bit_iff_odd [of "unat x", symmetric] bit_unsigned_iff) simp
  show ?case
  proof (cases "bit x (Suc n)")
    case True
    then have "unat x div 2 ^ Suc n \<noteq> 0" using o by (metis even_zero)
    then have "2 ^ Suc n \<le> unat x" by (metis div_less linorder_not_less)
    then show ?thesis using True b Suc.prems(2) by (simp only: limb_top_bit.simps if_True) simp
  next
    case False
    have "unat x div 2 ^ Suc n < 2" using Suc.prems(2) by (simp add: div_less_iff_less_mult mult.commute)
    with False o have "unat x div 2 ^ Suc n = 0" by (cases "unat x div 2 ^ Suc n = 1") simp_all
    then have "unat x < 2 ^ Suc n" by (metis div_eq_0_iff power_not_zero zero_neq_numeral)
    then show ?thesis using False b Suc by (simp only: limb_top_bit.simps if_False) simp
  qed
qed

lemma base_uint_bits_loop_val:
  "base_uint_bits_loop xs = 0 \<and> limbs_val (rev xs) = 0 \<or>
   0 < base_uint_bits_loop xs \<and> 2 ^ (base_uint_bits_loop xs - 1) \<le> limbs_val (rev xs) \<and>
     limbs_val (rev xs) < 2 ^ base_uint_bits_loop xs"
proof (induction xs)
  case (Cons x xs)
  show ?case
  proof (cases "x = 0")
    case True
    then show ?thesis using Cons by (simp add: limbs_val_append)
  next
    case False
    let ?t = "limb_top_bit x 31" and ?B = "2 ^ (32 * length xs) :: nat"
    have t: "2 ^ ?t \<le> unat x" "unat x + 1 \<le> 2 ^ Suc ?t"
      using limb_top_bit_bounds [OF False, of 31] u32_bound [of x] by (simp_all add: Suc_le_eq)
    have v: "limbs_val (rev (x # xs)) = limbs_val (rev xs) + ?B * unat x"
      by (simp add: limbs_val_append LB_power)
    have "2 ^ (32 * length xs + ?t) \<le> limbs_val (rev (x # xs))"
      unfolding v power_add using mult_le_mono2 [OF t(1), of ?B] by linarith
    moreover have "limbs_val (rev (x # xs)) < 2 ^ (32 * length xs + ?t + 1)"
      unfolding v using limbs_val_bound [of "rev xs"] mult_le_mono2 [OF t(2), of ?B]
      by (simp add: LB_power power_add algebra_simps)
    ultimately show ?thesis using False by simp
  qed
qed simp

lemma base_uint_bits_zero_iff: "base_uint_bits a = 0 \<longleftrightarrow> limbs_val a = 0"
  using base_uint_bits_loop_val [of "rev a"] 
  by (auto simp: base_uint_bits_def)

lemma base_uint_bits_upper: "limbs_val a < 2 ^ base_uint_bits a"
  using base_uint_bits_loop_val [of "rev a"] by (auto simp: base_uint_bits_def)

lemma base_uint_bits_lower: "limbs_val a \<noteq> 0 \<Longrightarrow> 2 ^ (base_uint_bits a - 1) \<le> limbs_val a"
  using base_uint_bits_loop_val [of "rev a"] by (auto simp: base_uint_bits_def)

lemma base_uint_bits_le: "base_uint_bits a \<le> n \<longleftrightarrow> limbs_val a < 2 ^ n"
proof
  assume "base_uint_bits a \<le> n"
  then have "(2 :: nat) ^ base_uint_bits a \<le> 2 ^ n" by (rule power_increasing) simp
  then show "limbs_val a < 2 ^ n" using base_uint_bits_upper [of a] by linarith
next
  assume l: "limbs_val a < 2 ^ n"
  show "base_uint_bits a \<le> n"
  proof (cases "limbs_val a = 0")
    case False
    then have "(2 :: nat) ^ (base_uint_bits a - 1) < 2 ^ n" using base_uint_bits_lower [of a] l by linarith
    then show ?thesis by simp
  qed (use base_uint_bits_zero_iff [of a] in simp)
qed

lemma set_limb_bit:
  assumes "shift < 32 * length pn" and "2 ^ Suc shift dvd limbs_val pn"
  shows "limbs_val (pn[shift div 32 := pn ! (shift div 32) OR push_bit (shift mod 32) 1]) = limbs_val pn + 2 ^ shift"
proof -
  have i: "shift div 32 < length pn" using assms(1) by (simp only: limb_index)
  have "limbs_val (pn[shift div 32 := pn ! (shift div 32) OR push_bit (shift mod 32) 1]) = Bit_Operations.set_bit shift (limbs_val pn)"
  proof (rule bit_eqI)
    fix j
    show "bit (limbs_val (pn[shift div 32 := pn ! (shift div 32) OR push_bit (shift mod 32) 1])) j =
      bit (Bit_Operations.set_bit shift (limbs_val pn)) j"
    proof (cases "j div 32 = shift div 32")
      case True
      then have "j mod 32 = shift mod 32 \<longleftrightarrow> j = shift" by (metis div_mult_mod_eq)
      then show ?thesis using True i
        by (simp only: bit_limbs_val bit_set_bit_iff length_list_update nth_list_update_eq bit_or_iff bit_push_bit_iff bit_1_iff) auto
    next
      case False
      then have "j \<noteq> shift" by blast
      then show ?thesis using False
        by (simp add: bit_limbs_val bit_set_bit_iff)
    qed
  qed
  moreover have "\<not> bit (limbs_val pn) shift"
    using assms(2) by (auto simp: bit_iff_odd elim!: dvdE)
  ultimately show ?thesis by (simp add: set_bit_eq)
qed

lemma base_uint_div_loop_val:
  assumes "length dv = length num" and "length pn = length num" and "0 < D"
    and "n = 0 \<or> limbs_val dv = D * 2 ^ (n - 1)" and "limbs_val num < D * 2 ^ n"
    and "2 ^ n dvd limbs_val pn" and "n \<le> 32 * length num"
  shows "limbs_val (fst (base_uint_div_loop n num dv pn)) = limbs_val pn + limbs_val num div D \<and>
    limbs_val (snd (base_uint_div_loop n num dv pn)) = limbs_val num mod D \<and>
    length (fst (base_uint_div_loop n num dv pn)) = length num"
  using assms
proof (induction n num dv pn rule: base_uint_div_loop.induct)
  case (1 num dv pn)
  then show ?case by simp
next
  case (2 shift num dv pn)
  let ?dv = "base_uint_shr dv 1"
  have dv: "limbs_val dv = D * 2 ^ shift" using "2.prems"(4) by simp
  have dv': "shift = 0 \<or> limbs_val ?dv = D * 2 ^ (shift - 1)"
    by (cases shift) (simp_all add: base_uint_shr_val dv)
  have dvd: "2 ^ shift dvd limbs_val pn"
    using "2.prems"(6) by (metis dvd_trans le_imp_power_dvd lessI less_imp_le)
  show ?case
  proof (cases "CompareTo num dv \<ge> 0")
    case True
    let ?pn = "pn[shift div 32 := pn ! (shift div 32) OR push_bit (shift mod 32) 1]"
    let ?num = "base_uint_sub num dv"
    have le: "limbs_val dv \<le> limbs_val num"
      using True "2.prems"(1) by (simp add: CompareTo_val split: if_splits)
    have num: "limbs_val ?num = limbs_val num - D * 2 ^ shift"
      using le "2.prems"(1) by (simp add: base_uint_sub_val_le dv)
    have pn: "limbs_val ?pn = limbs_val pn + 2 ^ shift"
      using set_limb_bit [of shift pn] "2.prems"(2,6,7) by simp
    have "limbs_val num = limbs_val ?num + D * 2 ^ shift" using le by (simp add: num dv)
    then have dm: "limbs_val num div D = limbs_val ?num div D + 2 ^ shift" "limbs_val num mod D = limbs_val ?num mod D"
      using "2.prems"(3) by (simp_all add: mult.commute [of D])
    have "limbs_val ?num < D * 2 ^ shift" using "2.prems"(5) le by (simp add: num dv)
    then show ?thesis
      using "2.IH"(1) [OF True] "2.prems" dv' dvd True by (simp add: pn [simplified] dm)
  next
    case False
    then have "limbs_val num < D * 2 ^ shift"
      using "2.prems"(1) by (simp add: CompareTo_val dv split: if_splits)
    then show ?thesis using "2.IH"(2) [OF False] "2.prems" dv' dvd False by simp
  qed
qed

lemma base_uint_div_val:
  assumes "length b = length a"
  shows "case base_uint_div a b of
      Inl e \<Rightarrow> limbs_val b = 0
    | Inr q \<Rightarrow> limbs_val b \<noteq> 0 \<and> limbs_val q = limbs_val a div limbs_val b \<and> length q = length a"
proof -
  let ?m = "base_uint_bits a" and ?d = "base_uint_bits b"
  let ?A = "limbs_val a" and ?B = "limbs_val b"
  consider "?d = 0" | "?d \<noteq> 0" "?d > ?m" | "?d \<noteq> 0" "?d \<le> ?m" by linarith
  then show ?thesis
  proof cases
    case 1
    then show ?thesis by (simp add: base_uint_div_def Let_def base_uint_bits_zero_iff)
  next
    case 2
    then have "?A < ?B" using base_uint_bits_le [of b ?m] base_uint_bits_upper [of a] by linarith
    then show ?thesis using 2 by (simp add: base_uint_div_def Let_def)
  next
    case 3
    let ?s = "?m - ?d"
    have b0: "?B \<noteq> 0" using 3(1) by (simp add: base_uint_bits_zero_iff)
    have m: "?m \<le> 32 * length a" using base_uint_bits_le [of a "32 * length a"] limbs_val_bound [of a] by (simp add: LB_power)
    have "?B * 2 ^ ?s < 2 ^ ?d * 2 ^ ?s" using base_uint_bits_upper [of b] by simp
    also have "\<dots> = 2 ^ ?m" using 3(2) by (simp flip: power_add)
    also have "\<dots> \<le> LB ^ length b" using m assms by (simp add: LB_power)
    finally have shl: "limbs_val (base_uint_shl b ?s) = ?B * 2 ^ ?s" by (simp add: base_uint_shl_val)
    have "?A < 2 ^ ?m" by (rule base_uint_bits_upper)
    also have "\<dots> = 2 ^ (?d - 1) * 2 ^ Suc ?s" using 3 by (simp flip: power_add power_Suc)
    also have "\<dots> \<le> ?B * 2 ^ Suc ?s" using base_uint_bits_lower [OF b0] by (rule mult_le_mono1)
    finally have A: "?A < ?B * 2 ^ Suc ?s" .
    have "Suc ?s \<le> 32 * length a" using 3(1) m 3(2) by linarith
    then show ?thesis
      using base_uint_div_loop_val [of "base_uint_shl b ?s" a "base_uint_zero (length a)" ?B "Suc ?s"] 3 b0 shl A assms
      by (simp add: base_uint_div_def Let_def)
  qed
qed

text \<open>
  Addition, subtraction, multiplication and the two shifts of \<open>base_uint\<close> compute on the
  numbers that the limb arrays denote, modulo two to the number of bits.
\<close>
theorem base_uint_ring:
  assumes "length b = length a"
  shows "limbs_val (base_uint_add a b) = (limbs_val a + limbs_val b) mod 2 ^ (32 * length a) \<and>
     limbs_val (base_uint_sub a b) = (limbs_val a + (2 ^ (32 * length a) - limbs_val b)) mod 2 ^ (32 * length a) \<and>
     limbs_val (base_uint_mul a b) = (limbs_val a * limbs_val b) mod 2 ^ (32 * length a) \<and>
     limbs_val (base_uint_shl a n) = (limbs_val a * 2 ^ n) mod 2 ^ (32 * length a) \<and>
     limbs_val (base_uint_shr a n) = limbs_val a div 2 ^ n"
  using assms base_uint_add_val [of a b] base_uint_sub_val [of a b] base_uint_mul_val [of b a]
    base_uint_shl_val [of a n] base_uint_shr_val [of a n] by (simp add: LB_power)

theorem base_uint_ring_witness:
  "limbs_val (base_uint_mul [5, 7] [3, 0xffffffff]) = (limbs_val [5, 7] * limbs_val [3, 0xffffffff]) mod 2 ^ 64"
  using base_uint_ring [of "[3, 0xffffffff]" "[5, 7]"] by simp

text \<open>
  C3: Division raises the error exactly when the divisor is zero, and otherwise returns the
  quotient of the two numbers.
\<close>
theorem base_uint_div_correct:
  assumes "length b = length a"
  shows "(base_uint_div a b = Inl DivisionByZero \<longleftrightarrow> limbs_val b = 0) \<and>
     (\<forall>q. base_uint_div a b = Inr q \<longrightarrow> length q = length a \<and> limbs_val q = limbs_val a div limbs_val b)"
  using base_uint_div_val [OF assms] uint_error.exhaust by (auto split: sum.splits)

theorem base_uint_div_correct_witness:
  "base_uint_div [7, 1] [0, 0] = Inl DivisionByZero \<and> base_uint_div [7, 1] [2, 0] \<noteq> Inl DivisionByZero"
  using base_uint_div_correct [of "[0, 0]" "[7, 1]"] base_uint_div_correct [of "[2, 0]" "[7, 1]"] by simp

end
