(* ===== verification/Compact.thy ===== *)
theory Compact
  imports Arith_Uint256
begin

text \<open>
  The compact form of targets: \<^verbatim>\<open>arith_uint256::SetCompact\<close> and \<^verbatim>\<open>arith_uint256::GetCompact\<close> of
  \<^verbatim>\<open>src/src/arith_uint256.cpp\<close>, what a compact number denotes, and the round trip.
\<close>

section \<open>The compact encoding\<close>

text \<open>
  \<open>SetCompact\<close> returns the number, \<open>*pfNegative\<close> and \<open>*pfOverflow\<close>. The overflow test reads
  \<open>nWord\<close> after the shift of the short case.
\<close>

definition SetCompact :: "u32 \<Rightarrow> base_uint \<times> bool \<times> bool" where
  "SetCompact nCompact =
     (let nSize = unat (drop_bit 24 nCompact);
          nWord = (if nSize \<le> 3 then drop_bit (8 * (3 - nSize)) (nCompact AND 0x007fffff)
                   else nCompact AND 0x007fffff);
          this = (if nSize \<le> 3 then base_uint_of_u64 WIDTH256 (ucast nWord)
                  else base_uint_shl (base_uint_of_u64 WIDTH256 (ucast nWord)) (8 * (nSize - 3)));
          fNegative = (nWord \<noteq> 0 \<and> nCompact AND 0x00800000 \<noteq> 0);
          fOverflow = (nWord \<noteq> 0 \<and> (nSize > 34 \<or> (nWord > 0xff \<and> nSize > 33) \<or>
                                      (nWord > 0xffff \<and> nSize > 32)))
      in (this, fNegative, fOverflow))"

text \<open>\<open>GetCompact\<close>: \<open>None\<close> is a failed assertion.\<close>

definition GetCompact :: "base_uint \<Rightarrow> bool \<Rightarrow> u32 option" where
  "GetCompact pn fNegative =
     (let nSize = (base_uint_bits pn + 7) div 8;
          nCompact = (if nSize \<le> 3 then ucast (push_bit (8 * (3 - nSize)) (GetLow64 pn))
                      else ucast (GetLow64 (base_uint_shr pn (8 * (nSize - 3)))) :: u32);
          (nCompact, nSize) = (if nCompact AND 0x00800000 \<noteq> 0
                               then (drop_bit 8 nCompact, nSize + 1) else (nCompact, nSize))
      in if nCompact AND NOT 0x007fffff \<noteq> 0 \<or> nSize \<ge> 256 then None
         else let nCompact = nCompact OR push_bit 24 (of_nat nSize)
              in Some (nCompact OR (if fNegative \<and> nCompact AND 0x007fffff \<noteq> 0
                                    then 0x00800000 else 0)))"


section \<open>What a compact number denotes\<close>

lemma mask23: "unat ((n :: u32) AND 0x007fffff) = unat n mod 2 ^ 23"
proof -
  have m: "(0x007fffff :: u32) = mask 23" by (simp add: mask_eq_exp_minus_1)
  have "unat (take_bit 23 n) = unat n mod 2 ^ 23"
    by (simp only: unsigned_take_bit_eq take_bit_eq_mod [of 23 "unat n"])
  then show ?thesis by (simp only: m take_bit_eq_mask)
qed

lemma bit23: "(n :: u32) AND 0x00800000 \<noteq> 0 \<longleftrightarrow> bit n 23"
proof -
  have m: "(0x00800000 :: u32) = 2 ^ 23" by simp
  show ?thesis by (simp only: m and_exp_eq_0_iff_not_bit not_not)
qed

definition compact_mantissa :: "u32 \<Rightarrow> nat" where
  "compact_mantissa c = unat c mod 2 ^ 23"

definition compact_size :: "u32 \<Rightarrow> nat" where
  "compact_size c = unat c div 2 ^ 24"

text \<open>The integer a compact number denotes, without a width.\<close>

definition compact_value :: "u32 \<Rightarrow> nat" where
  "compact_value c =
     (if compact_size c \<le> 3 then compact_mantissa c div 256 ^ (3 - compact_size c)
      else compact_mantissa c * 256 ^ (compact_size c - 3))"

lemma pow256: "(256 :: nat) ^ k = 2 ^ (8 * k)"
  by (simp add: power_mult)

lemma compact_mantissa_bound: "compact_mantissa c < 2 ^ 23"
  unfolding compact_mantissa_def by (rule mod_less_divisor) simp

lemma nSize_val: "unat (drop_bit 24 (c :: u32)) = compact_size c"
  by (simp only: unat_drop_bit_eq drop_bit_eq_div [of 24 "unat c"] compact_size_def)

lemma nWord_val: "unat (drop_bit (8 * k) (c AND 0x007fffff)) = compact_mantissa c div 256 ^ k"
  by (simp only: unat_drop_bit_eq mask23 compact_mantissa_def pow256 drop_bit_eq_div [of "8 * k" "unat c mod 2 ^ 23"])

lemma SetCompact_val:
  "limbs_val (fst (SetCompact c)) = compact_value c mod 2 ^ 256"
proof (cases "compact_size c \<le> 3")
  case True
  have "compact_mantissa c div 256 ^ (3 - compact_size c) \<le> compact_mantissa c" by (rule div_le_dividend)
  moreover have "(2 :: nat) ^ 23 \<le> 2 ^ 256" by (rule power_increasing) simp_all
  ultimately have "compact_mantissa c div 256 ^ (3 - compact_size c) < 2 ^ 256"
    using compact_mantissa_bound [of c] by linarith
  then show ?thesis
    using True by (simp only: SetCompact_def Let_def nSize_val fst_conv if_True base_uint_of_u64_val
        unat_ucast_u32_u64 nWord_val compact_value_def mod_less)
next
  case False
  have w: "length (base_uint_of_u64 WIDTH256 x) = 8" for x
    by (simp add: base_uint_of_u64_length WIDTH256_def)
  have L: "LB ^ 8 = 2 ^ 256" by (simp only: LB_power) simp
  show ?thesis
    using False by (simp only: SetCompact_def Let_def nSize_val fst_conv if_False base_uint_of_u64_val base_uint_shl_val w L
        unat_ucast_u32_u64 mask23 compact_mantissa_def [symmetric] compact_value_def pow256)
qed

lemma SetCompact_length [simp]: "length (fst (SetCompact c)) = WIDTH256"
  by (simp add: SetCompact_def Let_def base_uint_of_u64_length WIDTH256_def)

lemma compact_value_overflow:
  "2 ^ 256 \<le> compact_value c \<longleftrightarrow> compact_mantissa c \<noteq> 0 \<and> 3 < compact_size c \<and>
     (compact_size c > 34 \<or> (compact_mantissa c > 0xff \<and> compact_size c > 33) \<or>
       (compact_mantissa c > 0xffff \<and> compact_size c > 32))"
proof -
  let ?m = "compact_mantissa c" and ?s = "compact_size c"
  have m: "?m < 2 ^ 23" by (rule compact_mantissa_bound)
  have E: "(2 :: nat) ^ 256 = 256 ^ 32" by (simp add: pow256)
  consider "?s \<le> 3" | "3 < ?s" "?s \<le> 32" | "?s = 33" | "?s = 34" | "35 \<le> ?s" by linarith
  then show ?thesis
  proof cases
    case 1
    have "?m div 256 ^ (3 - ?s) \<le> ?m" by (rule div_le_dividend)
    moreover have "(2 :: nat) ^ 23 \<le> 2 ^ 256" by (rule power_increasing) simp_all
    ultimately have "?m div 256 ^ (3 - ?s) < 2 ^ 256" using m by linarith
    then show ?thesis using 1 by (simp only: compact_value_def if_True linorder_not_le [symmetric]) simp
  next
    case 2
    have "?m * 256 ^ (?s - 3) < 256 ^ 3 * 256 ^ (?s - 3)" using m by simp
    also have "\<dots> = 256 ^ (3 + (?s - 3))" by (simp only: power_add)
    also have "\<dots> \<le> 256 ^ 32" using 2 by (intro power_increasing) simp_all
    finally show ?thesis using 2 unfolding E by (simp add: compact_value_def)
  next
    case 3
    have "(256 :: nat) ^ 32 = 256 ^ 2 * 256 ^ 30" by (simp flip: power_add)
    then have "(256 :: nat) ^ 32 \<le> ?m * 256 ^ 30 \<longleftrightarrow> 256 ^ 2 \<le> ?m" by simp
    then show ?thesis using 3 unfolding E by (auto simp: compact_value_def)
  next
    case 4
    have "(256 :: nat) ^ 32 = 256 * 256 ^ 31" by (simp flip: power_Suc)
    then have "(256 :: nat) ^ 32 \<le> ?m * 256 ^ 31 \<longleftrightarrow> 256 \<le> ?m" by simp
    then show ?thesis using 4 unfolding E by (auto simp: compact_value_def)
  next
    case 5
    have "(256 :: nat) ^ 32 \<le> 256 ^ (?s - 3)" using 5 by (intro power_increasing) simp_all
    then have "(256 :: nat) ^ 32 \<le> ?m * 256 ^ (?s - 3) \<longleftrightarrow> ?m \<noteq> 0"
      by (cases ?m) auto
    then show ?thesis using 5 unfolding E by (simp add: compact_value_def)
  qed
qed

lemma nWord_zero: "(w :: u32) \<noteq> 0 \<longleftrightarrow> unat w \<noteq> 0" "(w :: u32) > 0xff \<longleftrightarrow> unat w > 0xff" "(w :: u32) > 0xffff \<longleftrightarrow> unat w > 0xffff"
  by (simp_all add: unat_eq_zero u32_less_iff)

lemma SetCompact_overflow:
  "snd (snd (SetCompact c)) \<longleftrightarrow> 2 ^ 256 \<le> compact_value c"
proof (cases "compact_size c \<le> 3")
  case True
  then show ?thesis unfolding compact_value_overflow by (simp add: SetCompact_def Let_def nSize_val)
next
  case False
  then show ?thesis unfolding compact_value_overflow
    by (simp only: SetCompact_def Let_def nSize_val snd_conv if_False nWord_zero mask23 compact_mantissa_def) auto
qed

lemma SetCompact_negative:
  "fst (snd (SetCompact c)) \<longleftrightarrow> bit c 23 \<and> compact_value c \<noteq> 0"
  using bit23 [of c]
  by (simp only: SetCompact_def Let_def nSize_val snd_conv fst_conv nWord_zero if_distrib [of unat]
     nWord_val mask23 compact_mantissa_def [symmetric] compact_value_def) auto


subsection \<open>Encoding\<close>

lemma GetLow64_val:
  assumes "2 \<le> length pn" and "limbs_val pn < 2 ^ 64"
  shows "unat (GetLow64 pn) = limbs_val pn"
proof -
  obtain x y zs where pn: "pn = x # y # zs"
    using assms(1) by (metis One_nat_def Suc_le_length_iff numeral_2_eq_2)
  have L: "LB * LB = 2 ^ 64" by (simp add: LB_def)
  have v: "limbs_val pn = unat x + LB * unat y + LB * LB * limbs_val zs" by (simp add: pn algebra_simps)
  have "limbs_val zs = 0"
    using assms(2) unfolding v L by (cases "limbs_val zs") simp_all
  moreover have "unat (push_bit 32 (ucast y :: u64)) = push_bit 32 (unat y)"
  proof -
    have "push_bit 32 (unat y) < 2 ^ 64" using u32_bound [of y] by (simp add: push_bit_eq_mult)
    then show ?thesis by (simp only: unsigned_push_bit_eq unat_ucast_u32_u64) (simp add: take_bit_nat_eq_self_iff)
  qed
  ultimately show ?thesis
    using or_push_bit_nat [OF u32_bound, of x "unat y"]
    by (simp only: v GetLow64_def unsigned_or_eq unat_ucast_u32_u64 pn nth_Cons_0 nth_Cons_Suc One_nat_def) (simp add: LB_def)
qed

definition enc_size :: "nat \<Rightarrow> nat \<Rightarrow> nat" where
  "enc_size bits v = (let n = (bits + 7) div 8
     in if (if n \<le> 3 then v * 256 ^ (3 - n) else v div 256 ^ (n - 3)) < 2 ^ 23 then n else n + 1)"

definition enc_mantissa :: "nat \<Rightarrow> nat \<Rightarrow> nat" where
  "enc_mantissa s v = (if s \<le> 3 then v * 256 ^ (3 - s) else v div 256 ^ (s - 3))"

lemma enc_mantissa_bound:
  assumes "v < 2 ^ bits"
  shows "enc_mantissa ((bits + 7) div 8) v < 2 ^ 24"
proof -
  let ?n = "(bits + 7) div 8"
  have "bits \<le> 8 * ?n" by simp
  then have "(2 :: nat) ^ bits \<le> 2 ^ (8 * ?n)" by (rule power_increasing) simp
  then have v: "v < 256 ^ ?n" unfolding pow256 using assms by (rule less_le_trans [rotated])
  show ?thesis
  proof (cases "?n \<le> 3")
    case True
    have "v * 256 ^ (3 - ?n) < 256 ^ ?n * 256 ^ (3 - ?n)" using v by simp
    also have "\<dots> = 256 ^ 3" using True by (simp flip: power_add)
    finally show ?thesis using True by (simp add: enc_mantissa_def)
  next
    case False
    have "(256 :: nat) ^ ?n = 256 ^ (3 + (?n - 3))" using False by simp
    then have "(256 :: nat) ^ ?n = 256 ^ 3 * 256 ^ (?n - 3)" by (simp only: power_add)
    then have "v div 256 ^ (?n - 3) < 256 ^ 3" using v by (simp add: div_less_iff_less_mult)
    then show ?thesis using False by (simp add: enc_mantissa_def)
  qed
qed

lemma enc_mantissa_Suc: "enc_mantissa n v div 256 = enc_mantissa (n + 1) v"
proof (cases "n < 3")
  case True
  then have "(256 :: nat) ^ (3 - n) = 256 ^ (3 - (n + 1)) * 256"
    by (metis Suc_diff_Suc Suc_eq_plus1 mult.commute power_Suc)
  then show ?thesis using True by (simp add: enc_mantissa_def)
next
  case False
  then obtain k where "n = 3 + k" by (metis le_iff_add linorder_not_less)
  then show ?thesis
    by (cases k) (simp_all add: enc_mantissa_def div_mult2_eq [symmetric] mult.commute)
qed

lemma enc_mantissa_final: 
  assumes "v < 2 ^ bits" 
  shows "enc_mantissa (enc_size bits v) v < 2 ^ 23"
proof (cases "enc_mantissa ((bits + 7) div 8) v < 2 ^ 23")
  case True
  then show ?thesis by (simp add: enc_size_def enc_mantissa_def)
next
  case False
  then have s: "enc_size bits v = (bits + 7) div 8 + 1" by (simp add: enc_size_def enc_mantissa_def)
  show ?thesis using enc_mantissa_bound [OF assms]
    unfolding s enc_mantissa_Suc [symmetric] by simp
qed


lemma enc_size_le: "bits \<le> 256 \<Longrightarrow> enc_size bits v \<le> 33"
  by (auto simp: enc_size_def Let_def)

lemma GetCompact_word:
  assumes "length pn = WIDTH256"
  defines "n \<equiv> (base_uint_bits pn + 7) div 8"
  shows "unat (if n \<le> 3 then ucast (push_bit (8 * (3 - n)) (GetLow64 pn))
               else ucast (GetLow64 (base_uint_shr pn (8 * (n - 3)))) :: u32) = enc_mantissa n (limbs_val pn)"
proof -
  have m: "enc_mantissa n (limbs_val pn) < 2 ^ 24"
    unfolding n_def by (rule enc_mantissa_bound [OF base_uint_bits_upper])
  show ?thesis
  proof (cases "n \<le> 3")
    case True
    have "limbs_val pn \<le> limbs_val pn * 256 ^ (3 - n)" by simp
    moreover have "limbs_val pn * 256 ^ (3 - n) < 2 ^ 24" using m True by (simp only: enc_mantissa_def if_True)
    ultimately have "limbs_val pn < 2 ^ 24" by (rule le_less_trans)
    then have "limbs_val pn < 2 ^ 64" by simp
    then have g: "unat (GetLow64 pn) = limbs_val pn" using assms(1) by (simp add: GetLow64_val WIDTH256_def)
    have e: "push_bit (8 * (3 - n)) (limbs_val pn) = enc_mantissa n (limbs_val pn)"
      using True by (simp only: enc_mantissa_def push_bit_eq_mult pow256 if_True)
    have "unat (push_bit (8 * (3 - n)) (GetLow64 pn)) = enc_mantissa n (limbs_val pn)"
      using m by (simp only: unsigned_push_bit_eq g e) (simp add: take_bit_nat_eq_self_iff)
    then show ?thesis using True m by (simp add: unat_ucast_u64_u32)
  next
    case False
    have e: "limbs_val (base_uint_shr pn (8 * (n - 3))) = enc_mantissa n (limbs_val pn)"
      using False by (simp only: base_uint_shr_val enc_mantissa_def pow256 if_False)
    then have "unat (GetLow64 (base_uint_shr pn (8 * (n - 3)))) = enc_mantissa n (limbs_val pn)"
      using m assms(1) by (subst GetLow64_val) (simp_all add: WIDTH256_def)
    then show ?thesis using False m by (simp add: unat_ucast_u64_u32)
  qed
qed

lemma u32_bit23: "unat (c :: u32) < 2 ^ 24 \<Longrightarrow> bit c 23 \<longleftrightarrow> 2 ^ 23 \<le> unat c"
proof -
  assume c: "unat c < 2 ^ 24"
  have "bit c 23 \<longleftrightarrow> odd (unat c div 2 ^ 23)"
    by (simp only: bit_iff_odd [of "unat c", symmetric] bit_unsigned_iff) simp
  moreover have "unat c div 2 ^ 23 < 2" using c by (simp add: div_less_iff_less_mult)
  ultimately have "bit c 23 \<longleftrightarrow> unat c div 2 ^ 23 = 1" 
    by (metis dvd_0_right less_2_cases odd_one One_nat_def)
  also have "\<dots> \<longleftrightarrow> 2 ^ 23 \<le> unat c" using \<open>unat c div 2 ^ 23 < 2\<close>
    by (metis div_greater_zero_iff less_2_cases less_one not_less_zero One_nat_def zero_less_numeral zero_less_power)
  finally show ?thesis .
qed

lemma and_not_mask23: "unat (c :: u32) < 2 ^ 23 \<Longrightarrow> c AND NOT 0x007fffff = 0" "unat (c :: u32) < 2 ^ 23 \<Longrightarrow> c AND 0x007fffff = c"
proof -
  assume "unat c < 2 ^ 23"
  then have "unat (c AND 0x007fffff) = unat c" by (simp only: mask23 mod_less)
  then show "c AND 0x007fffff = c" by (simp only: word_unat_eq_iff)
  then show "c AND NOT 0x007fffff = 0"
    by (metis bit.conj_cancel_right and.assoc and.right_neutral and_zero_eq word_bw_same(1))
qed

lemma unat_compact_pack:
  assumes "unat (m :: u32) < 2 ^ 23" and "s < 256"
  shows "unat (m OR push_bit 24 (of_nat s)) = unat m + 2 ^ 24 * s"
proof -
  have "unat (push_bit 24 (of_nat s :: u32)) = push_bit 24 s"
  proof -
    have "unat (of_nat s :: u32) = s" using assms(2) by (simp add: unat_of_nat)
    moreover have "push_bit 24 s < 2 ^ 32" using assms(2) by (simp add: push_bit_eq_mult)
    ultimately show ?thesis by (simp only: unsigned_push_bit_eq) (simp add: take_bit_nat_eq_self_iff)
  qed
  then show ?thesis using or_push_bit_nat [of "unat m" 24 s] assms(1) by (simp add: unsigned_or_eq)
qed

lemma GetCompact_pos:
  assumes "length pn = WIDTH256"
  defines "s \<equiv> enc_size (base_uint_bits pn) (limbs_val pn)"
  shows "\<exists>c. GetCompact pn False = Some c \<and> unat c = enc_mantissa s (limbs_val pn) + 2 ^ 24 * s"
proof -
  define n where "n = (base_uint_bits pn + 7) div 8"
  define w where "w = (if n \<le> 3 then ucast (push_bit (8 * (3 - n)) (GetLow64 pn))
               else ucast (GetLow64 (base_uint_shr pn (8 * (n - 3)))) :: u32)"
  define w' where "w' = (if w AND 0x00800000 \<noteq> 0 then drop_bit 8 w else w)"
  have w: "unat w = enc_mantissa n (limbs_val pn)"
    unfolding w_def n_def by (rule GetCompact_word [OF assms(1)])
  have wb: "unat w < 2 ^ 24" unfolding w n_def by (rule enc_mantissa_bound [OF base_uint_bits_upper])
  have s: "s = (if w AND 0x00800000 \<noteq> 0 then n + 1 else n)"
    unfolding bit23 u32_bit23 [OF wb] w 
    by (simp add: s_def enc_size_def n_def [symmetric] enc_mantissa_def Let_def)
  have w': "unat w' = enc_mantissa s (limbs_val pn)"
    unfolding w'_def s using enc_mantissa_Suc [of n "limbs_val pn"] w drop_bit_eq_div [of 8 "unat w"]
    by (simp add: unat_drop_bit_eq)
  have w'b: "unat w' < 2 ^ 23" unfolding w' s_def by (rule enc_mantissa_final [OF base_uint_bits_upper])
  have "base_uint_bits pn \<le> 256"
    using limbs_val_bound [of pn] assms(1) by (simp add: base_uint_bits_le LB_power WIDTH256_def)
  then have sb: "s < 256" unfolding s_def using enc_size_le by (metis le_less_trans less_numeral_simps(2) numeral_less_iff semiring_norm(76,78,80,81))
  have "GetCompact pn False = Some (w' OR push_bit 24 (of_nat s))"
    using sb and_not_mask23(1) [OF w'b]
    unfolding GetCompact_def Let_def n_def [symmetric] w_def [symmetric] s w'_def
    by (auto split: if_splits)
  then show ?thesis using unat_compact_pack [OF w'b sb] w' by auto
qed


lemma bit23_pack: "m < 2 ^ 23 \<Longrightarrow> unat c = m + 2 ^ 24 * s \<Longrightarrow> \<not> bit (c :: u32) 23"
proof -
  assume m: "m < 2 ^ 23" and c: "unat c = m + 2 ^ 24 * s"
  have "bit c 23 \<longleftrightarrow> odd (unat c div 2 ^ 23)"
    by (simp only: bit_iff_odd [of "unat c", symmetric] bit_unsigned_iff) simp
  moreover have "unat c = m + 2 ^ 23 * (2 * s)" using c by simp
  then have "unat c div 2 ^ 23 = 2 * s" using m by simp
  ultimately show ?thesis by simp
qed

lemma compact_pack_decode:
  assumes "m < 2 ^ 23" and "unat c = m + 2 ^ 24 * s"
  shows "compact_mantissa c = m" and "compact_size c = s"
proof -
  have "unat c = m + 2 ^ 23 * (2 * s)" using assms by simp
  then show "compact_mantissa c = m" using assms(1) by (simp only: compact_mantissa_def mod_mult_self2) simp
  show "compact_size c = s" unfolding compact_size_def assms(2) using assms(1) by simp
qed

lemma compact_roundtrip:
  assumes "length pn = WIDTH256"
  defines "s \<equiv> enc_size (base_uint_bits pn) (limbs_val pn)"
  shows "\<exists>c. GetCompact pn False = Some c \<and> \<not> bit c 23 \<and>
     compact_value c = limbs_val pn div 256 ^ (s - 3) * 256 ^ (s - 3)"
proof -
  have m: "enc_mantissa s (limbs_val pn) < 2 ^ 23"
    unfolding s_def by (rule enc_mantissa_final [OF base_uint_bits_upper])
  obtain c where c: "GetCompact pn False = Some c" "unat c = enc_mantissa s (limbs_val pn) + 2 ^ 24 * s"
    using GetCompact_pos [OF assms(1)] unfolding s_def by blast
  have "compact_value c = limbs_val pn div 256 ^ (s - 3) * 256 ^ (s - 3)"
    using compact_pack_decode [OF m c(2)] by (simp add: compact_value_def enc_mantissa_def)
  then show ?thesis using c bit23_pack [OF m c(2)] by blast
qed

text \<open>The canonical size of a number already given in compact form is not larger.\<close>

lemma compact_value_lossless:
  assumes "length pn = WIDTH256" and "limbs_val pn = compact_value c0" 
  defines "s \<equiv> enc_size (base_uint_bits pn) (limbs_val pn)"
  shows "256 ^ (s - 3) dvd limbs_val pn"
proof (cases "compact_size c0 \<le> 3 \<or> limbs_val pn = 0")
  case True
  show ?thesis
  proof (cases "limbs_val pn = 0")
    case False
    then have "compact_value c0 \<le> compact_mantissa c0" using True assms(2) by (auto simp: compact_value_def)
    then have v: "limbs_val pn < 2 ^ 23" using assms(2) compact_mantissa_bound [of c0] by simp
    then have "base_uint_bits pn \<le> 23" by (simp only: base_uint_bits_le)
    then have n: "(base_uint_bits pn + 7) div 8 \<le> 3" by simp
    show ?thesis
    proof (cases "(base_uint_bits pn + 7) div 8 = 3")
      case True
      then have "s = 3" using v by (simp add: s_def enc_size_def)
      then show ?thesis by simp
    next
      case False
      then have "s \<le> 3" using n by (auto simp: s_def enc_size_def Let_def)
      then show ?thesis by simp
    qed
  qed simp
next
  case False
  let ?m = "compact_mantissa c0" and ?k = "compact_size c0 - 3"
  have v: "limbs_val pn = ?m * 256 ^ ?k" using False assms(2) by (simp add: compact_value_def)
  have "?m * 256 ^ ?k < 2 ^ 23 * 256 ^ ?k" using compact_mantissa_bound [of c0] by simp
  also have "\<dots> = 2 ^ (23 + 8 * ?k)" by (simp only: power_add pow256)
  finally have "base_uint_bits pn \<le> 23 + 8 * ?k" by (simp only: base_uint_bits_le v)
  then have n: "(base_uint_bits pn + 7) div 8 \<le> ?k + 3" by simp
  have "s \<le> ?k + 3"
  proof (cases "(base_uint_bits pn + 7) div 8 = ?k + 3")
    case True
    have "limbs_val pn div 256 ^ ?k = ?m" using v by simp
    then show ?thesis using True compact_mantissa_bound [of c0] v
      by (auto simp: s_def enc_size_def Let_def)
  next
    case False
    then show ?thesis using n by (auto simp: s_def enc_size_def Let_def)
  qed
  then have "256 ^ (s - 3) dvd (256 :: nat) ^ ?k" by (intro le_imp_power_dvd) simp
  then show ?thesis unfolding v by simp
qed

section \<open>Properties\<close>

text \<open>
  \<open>SetCompact\<close> stores the number that the compact form denotes, reduced to 256 bits; it
  reports an overflow exactly when that number does not fit 256 bits, and a negative sign exactly
  when the sign bit is set and the number is not zero.
\<close>
theorem SetCompact_correct:
  "limbs_val (fst (SetCompact c)) = compact_value c mod 2 ^ 256 \<and>
   (snd (snd (SetCompact c)) \<longleftrightarrow> 2 ^ 256 \<le> compact_value c) \<and>
   (fst (snd (SetCompact c)) \<longleftrightarrow> bit c 23 \<and> compact_value c \<noteq> 0)"
  by (simp only: SetCompact_val SetCompact_overflow SetCompact_negative simp_thms)

text \<open>
  A target that came from a compact form without sign and overflow survives
  \<open>GetCompact\<close>: no assertion fails, and decoding the result gives the same target, again without
  sign and overflow.
\<close>
theorem compact_reencode:
  assumes "SetCompact c = (target, False, False)"
  shows "\<exists>c'. GetCompact target False = Some c' \<and> SetCompact c' = (target, False, False)"
proof -
  have len: "length target = WIDTH256" using SetCompact_length [of c] assms by simp
  have fit: "compact_value c < 2 ^ 256" using SetCompact_overflow [of c] assms by simp
  then have val: "limbs_val target = compact_value c" using SetCompact_val [of c] assms by simp
  define s where "s = enc_size (base_uint_bits target) (limbs_val target)"
  obtain c' where c': "GetCompact target False = Some c'" "\<not> bit c' 23"
    "compact_value c' = limbs_val target div 256 ^ (s - 3) * 256 ^ (s - 3)"
    using compact_roundtrip [OF len] unfolding s_def by blast
  have v: "compact_value c' = limbs_val target"
    using c'(3) compact_value_lossless [OF len val] unfolding s_def by simp
  have "fst (SetCompact c') = target"
    by (rule limbs_val_inj) (use len v val fit in \<open>simp_all add: SetCompact_val\<close>)
  moreover have "\<not> fst (snd (SetCompact c'))" using c'(2) by (simp only: SetCompact_negative simp_thms)
  moreover have "\<not> snd (snd (SetCompact c'))" using v val fit by (simp only: SetCompact_overflow linorder_not_le)
  ultimately show ?thesis using c'(1) by (metis prod.collapse)
qed

theorem compact_reencode_witness:
  "SetCompact 0x1d00ffff = ([0, 0, 0, 0, 0, 0, 0xffff0000, 0], False, False) \<and>
   (\<exists>c'. GetCompact [0, 0, 0, 0, 0, 0, 0xffff0000, 0] False = Some c' \<and>
      SetCompact c' = ([0, 0, 0, 0, 0, 0, 0xffff0000, 0], False, False))"
proof -
  have "SetCompact 0x1d00ffff = ([0, 0, 0, 0, 0, 0, 0xffff0000, 0], False, False)"
    by code_simp
  then show ?thesis using compact_reencode [of "0x1d00ffff"] by blast
qed

lemma GetCompact_floor:
  assumes "length target = WIDTH256"
  shows "\<exists>c k. GetCompact target False = Some c \<and> \<not> bit c 23 \<and>
     compact_value c \<le> limbs_val target \<and> limbs_val target < compact_value c + 256 ^ k \<and> 256 ^ k dvd compact_value c \<and>
     k \<le> 30"
proof -
  define s where "s = enc_size (base_uint_bits target) (limbs_val target)"
  obtain c where c: "GetCompact target False = Some c" "\<not> bit c 23"
    "compact_value c = limbs_val target div 256 ^ (s - 3) * 256 ^ (s - 3)"
    using compact_roundtrip [OF assms] unfolding s_def by blast
  have "base_uint_bits target \<le> 256"
    using limbs_val_bound [of target] assms by (simp add: base_uint_bits_le LB_power WIDTH256_def)
  then have k: "s - 3 \<le> 30" unfolding s_def using enc_size_le [of "base_uint_bits target" "limbs_val target"] by simp
  have m: "limbs_val target = compact_value c + limbs_val target mod 256 ^ (s - 3)"
    unfolding c(3) by (simp only: div_mult_mod_eq)
  have "limbs_val target mod 256 ^ (s - 3) < 256 ^ (s - 3)" by simp
  then have "compact_value c \<le> limbs_val target" "limbs_val target < compact_value c + 256 ^ (s - 3)"
    using m by linarith+
  moreover have "256 ^ (s - 3) dvd compact_value c" unfolding c(3) by simp
  ultimately show ?thesis using c(1,2) k by blast
qed

text \<open>
  \<open>GetCompact\<close> of any 256-bit number returns, and the number it encodes is the given one with
  the bytes below the mantissa cleared: it is not larger, and the difference is smaller than the
  weight of the lowest mantissa byte.
\<close>
theorem GetCompact_truncates:
  assumes "length target = WIDTH256"
  shows "\<exists>c k. GetCompact target False = Some c \<and> \<not> bit c 23 \<and>
     compact_value c \<le> limbs_val target \<and> limbs_val target < compact_value c + 256 ^ k \<and> 256 ^ k dvd compact_value c \<and>
     k \<le> 30"
  using assms by (rule GetCompact_floor)

theorem GetCompact_truncates_witness:
  "length [1, 2, 3, 4, 5, 6, 7, 8 :: u32] = WIDTH256 \<and>
   (\<exists>c k. GetCompact [1, 2, 3, 4, 5, 6, 7, 8] False = Some c \<and> \<not> bit c 23 \<and>
     compact_value c \<le> limbs_val [1, 2, 3, 4, 5, 6, 7, 8] \<and> limbs_val [1, 2, 3, 4, 5, 6, 7, 8] < compact_value c + 256 ^ k \<and>
     256 ^ k dvd compact_value c \<and> k \<le> 30)"
  using GetCompact_truncates [of "[1, 2, 3, 4, 5, 6, 7, 8]"] by (simp only: WIDTH256_def) simp

end
