(* ===== verification/Bytes.thy ===== *)
theory Bytes
  imports Arith_Uint256
begin

text \<open>
  Byte order: the readers and writers of \<^verbatim>\<open>src/src/crypto/common.h\<close>, the accessors of the blob
  classes of \<^verbatim>\<open>src/src/uintBIG.h\<close>, and the conversions between \<open>uint256\<close> and
  \<open>arith_uint256\<close> of \<^verbatim>\<open>src/src/arith_uint256.cpp\<close>. A pointer argument is the byte list that
  starts where it points; the readers look at its first bytes.
\<close>

section \<open>Little-endian digit strings\<close>

fun le_nat :: "bytes \<Rightarrow> nat" where
  "le_nat [] = 0"
| "le_nat (b # bs) = unat b + 256 * le_nat bs"

fun le_bytes :: "nat \<Rightarrow> nat \<Rightarrow> bytes" where
  "le_bytes 0 v = []"
| "le_bytes (Suc n) v = of_nat (v mod 256) # le_bytes n (v div 256)"

lemma le_bytes_length [simp]: "length (le_bytes n v) = n"
  by (induction n arbitrary: v) simp_all

lemma unat_of_nat_u8: "unat (of_nat v :: u8) = v mod 256"
  by (simp add: unat_of_nat)

lemma le_nat_bytes: "le_nat (le_bytes n v) = v mod 256 ^ n"
proof (induction n arbitrary: v)
  case (Suc n)
  show ?case
    by (simp only: le_bytes.simps le_nat.simps Suc unat_of_nat_u8 mod_mod_trivial power_Suc mod_mult2_eq
        add.commute)
qed simp

lemma le_bytes_nat: "le_bytes (length bs) (le_nat bs) = bs"
proof (induction bs)
  case (Cons b bs)
  have "(unat b + 256 * le_nat bs) mod 256 = unat b" "(unat b + 256 * le_nat bs) div 256 = le_nat bs"
    using u8_bound [of b] by simp_all
  then show ?case using Cons by simp
qed simp

lemma le_nat_bound: "le_nat bs < 256 ^ length bs"
proof (induction bs)
  case (Cons b bs)
  then have "le_nat bs + 1 \<le> 256 ^ length bs" by simp
  then have "256 * (le_nat bs + 1) \<le> 256 * 256 ^ length bs" by (rule mult_le_mono2)
  then show ?case using u8_bound [of b] by simp
qed simp

lemma le_nat_append: "le_nat (xs @ ys) = le_nat xs + 256 ^ length xs * le_nat ys"
  by (induction xs) (simp_all add: algebra_simps)

lemma le_nat_inj: "length xs = length ys \<Longrightarrow> le_nat xs = le_nat ys \<Longrightarrow> xs = ys"
  by (metis le_bytes_nat)

section \<open>Readers and writers\<close>

definition ReadLE16 :: "bytes \<Rightarrow> u16" where
  "ReadLE16 ptr = of_nat (le_nat (take 2 ptr))"

definition ReadLE32 :: "bytes \<Rightarrow> u32" where
  "ReadLE32 ptr = of_nat (le_nat (take 4 ptr))"

definition ReadLE64 :: "bytes \<Rightarrow> u64" where
  "ReadLE64 ptr = of_nat (le_nat (take 8 ptr))"

definition WriteLE16 :: "u16 \<Rightarrow> bytes" where
  "WriteLE16 x = le_bytes 2 (unat x)"

definition WriteLE32 :: "u32 \<Rightarrow> bytes" where
  "WriteLE32 x = le_bytes 4 (unat x)"

definition WriteLE64 :: "u64 \<Rightarrow> bytes" where
  "WriteLE64 x = le_bytes 8 (unat x)"

definition ReadBE32 :: "bytes \<Rightarrow> u32" where
  "ReadBE32 ptr = of_nat (le_nat (rev (take 4 ptr)))"

definition ReadBE64 :: "bytes \<Rightarrow> u64" where
  "ReadBE64 ptr = of_nat (le_nat (rev (take 8 ptr)))"

definition WriteBE32 :: "u32 \<Rightarrow> bytes" where
  "WriteBE32 x = rev (le_bytes 4 (unat x))"

definition WriteBE64 :: "u64 \<Rightarrow> bytes" where
  "WriteBE64 x = rev (le_bytes 8 (unat x))"

text \<open>\<open>CountBits\<close>, the portable loop; the argument counts the shifts that can still be made.\<close>

fun CountBits_loop :: "nat \<Rightarrow> u64 \<Rightarrow> nat" where
  "CountBits_loop 0 x = 0"
| "CountBits_loop (Suc n) x = (if x = 0 then 0 else 1 + CountBits_loop n (drop_bit 1 x))"

definition CountBits :: "u64 \<Rightarrow> nat" where
  "CountBits x = CountBits_loop 64 x"

lemmas read_write_defs = ReadLE16_def ReadLE32_def ReadLE64_def WriteLE16_def WriteLE32_def WriteLE64_def
  ReadBE32_def ReadBE64_def WriteBE32_def WriteBE64_def

lemma write_length [simp]:
  "length (WriteLE16 x) = 2" "length (WriteLE32 y) = 4" "length (WriteLE64 z) = 8"
  "length (WriteBE32 y) = 4" "length (WriteBE64 z) = 8"
  by (simp_all add: read_write_defs)

lemma u16_bound: "unat (x :: u16) < 256 ^ 2"
  using unsigned_less [of x, where 'a = nat] by simp

lemma u32_bound_bytes: "unat (x :: u32) < 256 ^ 4"
  using unsigned_less [of x, where 'a = nat] by simp

lemma u64_bound_bytes: "unat (x :: u64) < 256 ^ 8"
  using unsigned_less [of x, where 'a = nat] by simp

lemma read_write [simp]:
  "ReadLE16 (WriteLE16 x @ r) = x" "ReadLE32 (WriteLE32 y @ r) = y" "ReadLE64 (WriteLE64 z @ r) = z"
  "ReadBE32 (WriteBE32 y @ r) = y" "ReadBE64 (WriteBE64 z @ r) = z"
  using u16_bound [of x] u32_bound_bytes [of y] u64_bound_bytes [of z]
  by (simp_all add: read_write_defs le_nat_bytes)

lemma unat_of_le_nat_32: "length bs = 4 \<Longrightarrow> unat (of_nat (le_nat bs) :: u32) = le_nat bs"
  using le_nat_bound [of bs] by (simp add: unat_of_nat)

lemma unat_of_le_nat_64: "length bs = 8 \<Longrightarrow> unat (of_nat (le_nat bs) :: u64) = le_nat bs"
  using le_nat_bound [of bs] by (simp add: unat_of_nat)

lemma write_read:
  "length p = 4 \<Longrightarrow> WriteLE32 (ReadLE32 p) = p" "length q = 8 \<Longrightarrow> WriteLE64 (ReadLE64 q) = q"
  using le_bytes_nat [of p] le_bytes_nat [of q]
  by (simp_all add: read_write_defs unat_of_le_nat_32 unat_of_le_nat_64)

section \<open>Blobs\<close>

definition uint256_null :: uint256 where
  "uint256_null = replicate 32 0"

definition IsNull_blob :: "bytes \<Rightarrow> bool" where
  "IsNull_blob data = list_all (\<lambda>b. b = 0) data"

text \<open>\<open>memcmp\<close> on equally long blobs; only the sign of the result is used.\<close>

fun blob_compare :: "bytes \<Rightarrow> bytes \<Rightarrow> int" where
  "blob_compare (x # xs) (y # ys) = (if x < y then - 1 else if x > y then 1 else blob_compare xs ys)"
| "blob_compare xs ys = 0"

definition GetUint64 :: "bytes \<Rightarrow> nat \<Rightarrow> u64" where
  "GetUint64 data pos =
     (let ptr = drop (pos * 8) data
      in ucast (ptr ! 0) OR push_bit 8 (ucast (ptr ! 1)) OR push_bit 16 (ucast (ptr ! 2)) OR
         push_bit 24 (ucast (ptr ! 3)) OR push_bit 32 (ucast (ptr ! 4)) OR push_bit 40 (ucast (ptr ! 5)) OR
         push_bit 48 (ucast (ptr ! 6)) OR push_bit 56 (ucast (ptr ! 7)))"

definition GetCheapHash :: "uint256 \<Rightarrow> u64" where
  "GetCheapHash data = ReadLE64 data"

lemma uint256_null_IsNull: "length h = 32 \<Longrightarrow> IsNull_blob h \<longleftrightarrow> h = uint256_null"
  by (auto simp: IsNull_blob_def uint256_null_def list_all_iff intro!: nth_equalityI)

lemma blob_compare_eq: "length a = length b \<Longrightarrow> blob_compare a b = 0 \<longleftrightarrow> a = b"
  by (induction a b rule: blob_compare.induct) auto

lemma le_nat_Cons_or: "le_nat (b # bs) = unat b OR push_bit 8 (le_nat bs)"
  using or_push_bit_nat [of "unat b" 8 "le_nat bs"] u8_bound [of b] by simp

lemma GetUint64_ReadLE64:
  assumes "pos * 8 + 8 \<le> length data"
  shows "GetUint64 data pos = ReadLE64 (drop (pos * 8) data)"
proof -
  let ?p = "drop (pos * 8) data"
  have "take 8 ?p = [?p ! 0, ?p ! 1, ?p ! 2, ?p ! 3, ?p ! 4, ?p ! 5, ?p ! 6, ?p ! 7]"
    using assms by (intro nth_equalityI) (auto simp: less_Suc_eq numeral_eq_Suc)
  moreover have "of_nat (unat b) = (ucast b :: u64)" for b :: u8
    by simp
  ultimately show ?thesis
    by (simp only: GetUint64_def ReadLE64_def Let_def le_nat_Cons_or le_nat.simps(1) of_nat_or_eq of_nat_push_bit
        push_bit_or push_bit_push_bit) simp
qed

section \<open>\<open>uint256\<close> and \<open>arith_uint256\<close>\<close>

definition ArithToUint256 :: "base_uint \<Rightarrow> uint256" where
  "ArithToUint256 a = concat (map WriteLE32 a)"

definition UintToArith256 :: "uint256 \<Rightarrow> base_uint" where
  "UintToArith256 a = map (\<lambda>x. ReadLE32 (drop (x * 4) a)) [0..<WIDTH256]"

lemma ArithToUint256_length: "length a = WIDTH256 \<Longrightarrow> length (ArithToUint256 a) = 32"
  by (simp add: ArithToUint256_def length_concat comp_def sum_list_triv WIDTH256_def)

lemma ArithToUint256_val: "le_nat (ArithToUint256 a) = limbs_val a"
proof (induction a)
  case (Cons x xs)
  have "le_nat (WriteLE32 x) = unat x"
    using u32_bound_bytes [of x] by (simp add: WriteLE32_def le_nat_bytes)
  then show ?case using Cons by (simp add: ArithToUint256_def le_nat_append LB_def)
qed (simp add: ArithToUint256_def)

lemma limbs_of_chunks:
  "limbs_val (map (\<lambda>x. ReadLE32 (drop (x * 4) a)) [0..<n]) = le_nat (take (4 * n) a)"
  if "4 * n \<le> length a"
  using that
proof (induction n)
  case (Suc n)
  have t: "take (4 * Suc n) a = take (4 * n) a @ take 4 (drop (4 * n) a)"
    by (metis add.commute mult_Suc_right take_add)
  have "length (take 4 (drop (4 * n) a)) = 4" using Suc.prems by simp
  then have "unat (ReadLE32 (drop (n * 4) a)) = le_nat (take 4 (drop (4 * n) a))"
    by (simp only: ReadLE32_def mult.commute unat_of_le_nat_32)
  moreover have "(256 :: nat) ^ (4 * n) = LB ^ n" by (simp add: LB_def power_mult)
  ultimately show ?case
    using Suc by (simp only: t le_nat_append upt_Suc_append map_append limbs_val_append) (simp add: min_def)
qed simp

lemma UintToArith256_val: "length a = 32 \<Longrightarrow> limbs_val (UintToArith256 a) = le_nat a"
  using limbs_of_chunks [of WIDTH256 a] by (simp add: UintToArith256_def WIDTH256_def)

lemma UintToArith256_length [simp]: "length (UintToArith256 a) = WIDTH256"
  by (simp add: UintToArith256_def)

lemma Uint_Arith_roundtrip:
  "length a = 32 \<Longrightarrow> ArithToUint256 (UintToArith256 a) = a"
  by (rule le_nat_inj) (simp_all add: ArithToUint256_length ArithToUint256_val UintToArith256_val)

lemma Arith_Uint_roundtrip:
  "length a = WIDTH256 \<Longrightarrow> UintToArith256 (ArithToUint256 a) = a"
  by (rule limbs_val_inj) (simp_all add: ArithToUint256_length ArithToUint256_val UintToArith256_val)

end
