(* ===== verification/Sha256.thy ===== *)
theory Sha256
  imports Bytes
begin

text \<open>
  \<^verbatim>\<open>src/src/crypto/sha256.cpp\<close>: the unrolled compression function, the buffered hasher
  \<open>CSHA256\<close>, and the double hash \<open>CHash256\<close> of \<^verbatim>\<open>src/src/hash.h\<close>. The reference is the
  hash of FIPS 180-4 on whole messages: 64 rounds over a message schedule \<open>W\<close>, and padding.
  The unrolled code agrees with it, and feeding a message in pieces gives the hash of the whole.
\<close>

section \<open>The compression function\<close>

definition Ch :: "u32 \<Rightarrow> u32 \<Rightarrow> u32 \<Rightarrow> u32" where
  "Ch x y z = z XOR (x AND (y XOR z))"

definition Maj :: "u32 \<Rightarrow> u32 \<Rightarrow> u32 \<Rightarrow> u32" where
  "Maj x y z = (x AND y) OR (z AND (x OR y))"

definition Sigma0 :: "u32 \<Rightarrow> u32" where
  "Sigma0 x = (drop_bit 2 x OR push_bit 30 x) XOR (drop_bit 13 x OR push_bit 19 x) XOR (drop_bit 22 x OR push_bit 10 x)"

definition Sigma1 :: "u32 \<Rightarrow> u32" where
  "Sigma1 x = (drop_bit 6 x OR push_bit 26 x) XOR (drop_bit 11 x OR push_bit 21 x) XOR (drop_bit 25 x OR push_bit 7 x)"

definition sigma0 :: "u32 \<Rightarrow> u32" where
  "sigma0 x = (drop_bit 7 x OR push_bit 25 x) XOR (drop_bit 18 x OR push_bit 14 x) XOR drop_bit 3 x"

definition sigma1 :: "u32 \<Rightarrow> u32" where
  "sigma1 x = (drop_bit 17 x OR push_bit 15 x) XOR (drop_bit 19 x OR push_bit 13 x) XOR drop_bit 10 x"

text \<open>\<open>Round\<close> updates \<open>d\<close> and \<open>h\<close> through references; the result is the new \<open>(d, h)\<close>.\<close>

definition Round :: "u32 \<Rightarrow> u32 \<Rightarrow> u32 \<Rightarrow> u32 \<Rightarrow> u32 \<Rightarrow> u32 \<Rightarrow> u32 \<Rightarrow> u32 \<Rightarrow> u32 \<Rightarrow> u32 \<Rightarrow> u32 \<times> u32" where
  "Round a b c d e f g h k w =
     (let t1 = h + Sigma1 e + Ch e f g + k + w;
          t2 = Sigma0 a + Maj a b c
      in (d + t1, t1 + t2))"

definition sha256_Initialize :: "u32 list" where
  "sha256_Initialize = [0x6a09e667, 0xbb67ae85, 0x3c6ef372, 0xa54ff53a, 0x510e527f, 0x9b05688c, 0x1f83d9ab, 0x5be0cd19]"

type_synonym sha_regs = "u32 \<times> u32 \<times> u32 \<times> u32 \<times> u32 \<times> u32 \<times> u32 \<times> u32"

text \<open>
  Eight consecutive calls of \<open>Round\<close>, each with the register names rotated by one; after eight
  calls the names are back where they started.
\<close>

definition Rounds8 :: "sha_regs \<Rightarrow> u32 \<Rightarrow> u32 \<Rightarrow> u32 \<Rightarrow> u32 \<Rightarrow> u32 \<Rightarrow> u32 \<Rightarrow> u32 \<Rightarrow> u32 \<Rightarrow> u32 \<Rightarrow> u32 \<Rightarrow> u32 \<Rightarrow> u32 \<Rightarrow> u32 \<Rightarrow> u32 \<Rightarrow> u32 \<Rightarrow> u32 \<Rightarrow> sha_regs" where
  "Rounds8 r k0 w0 k1 w1 k2 w2 k3 w3 k4 w4 k5 w5 k6 w6 k7 w7 =
     (let (a, b, c, d, e, f, g, h) = r;
          (d, h) = Round a b c d e f g h k0 w0;
          (c, g) = Round h a b c d e f g k1 w1;
          (b, f) = Round g h a b c d e f k2 w2;
          (a, e) = Round f g h a b c d e k3 w3;
          (h, d) = Round e f g h a b c d k4 w4;
          (g, c) = Round d e f g h a b c k5 w5;
          (f, b) = Round c d e f g h a b k6 w6;
          (e, a) = Round b c d e f g h a k7 w7
      in (a, b, c, d, e, f, g, h))"

text \<open>
  The in-place schedule updates \<open>w0 += sigma1(w14) + w9 + sigma0(w1)\<close> to
  \<open>w15 += sigma1(w13) + w8 + sigma0(w0)\<close> that are the last arguments of sixteen \<open>Round\<close> calls.
\<close>

definition Expand16 :: "u32 list \<Rightarrow> u32 list" where
  "Expand16 w =
     (let w0 = w ! 0 + (sigma1 (w ! 14) + w ! 9 + sigma0 (w ! 1));
          w1 = w ! 1 + (sigma1 (w ! 15) + w ! 10 + sigma0 (w ! 2));
          w2 = w ! 2 + (sigma1 w0 + w ! 11 + sigma0 (w ! 3));
          w3 = w ! 3 + (sigma1 w1 + w ! 12 + sigma0 (w ! 4));
          w4 = w ! 4 + (sigma1 w2 + w ! 13 + sigma0 (w ! 5));
          w5 = w ! 5 + (sigma1 w3 + w ! 14 + sigma0 (w ! 6));
          w6 = w ! 6 + (sigma1 w4 + w ! 15 + sigma0 (w ! 7));
          w7 = w ! 7 + (sigma1 w5 + w0 + sigma0 (w ! 8));
          w8 = w ! 8 + (sigma1 w6 + w1 + sigma0 (w ! 9));
          w9 = w ! 9 + (sigma1 w7 + w2 + sigma0 (w ! 10));
          w10 = w ! 10 + (sigma1 w8 + w3 + sigma0 (w ! 11));
          w11 = w ! 11 + (sigma1 w9 + w4 + sigma0 (w ! 12));
          w12 = w ! 12 + (sigma1 w10 + w5 + sigma0 (w ! 13));
          w13 = w ! 13 + (sigma1 w11 + w6 + sigma0 (w ! 14));
          w14 = w ! 14 + (sigma1 w12 + w7 + sigma0 (w ! 15));
          w15 = w ! 15 + (sigma1 w13 + w8 + sigma0 w0)
      in [w0, w1, w2, w3, w4, w5, w6, w7, w8, w9, w10, w11, w12, w13, w14, w15])"

text \<open>One iteration of the loop of \<open>Transform\<close>, and the loop.\<close>

definition Transform_block :: "u32 list \<Rightarrow> bytes \<Rightarrow> u32 list" where
  "Transform_block s chunk =
     (let r = (s ! 0, s ! 1, s ! 2, s ! 3, s ! 4, s ! 5, s ! 6, s ! 7);
          w = map (\<lambda>i. ReadBE32 (drop (4 * i) chunk)) [0..<16];
          r = Rounds8 r 0x428a2f98 (w ! 0) 0x71374491 (w ! 1) 0xb5c0fbcf (w ! 2) 0xe9b5dba5 (w ! 3)
                        0x3956c25b (w ! 4) 0x59f111f1 (w ! 5) 0x923f82a4 (w ! 6) 0xab1c5ed5 (w ! 7);
          r = Rounds8 r 0xd807aa98 (w ! 8) 0x12835b01 (w ! 9) 0x243185be (w ! 10) 0x550c7dc3 (w ! 11)
                        0x72be5d74 (w ! 12) 0x80deb1fe (w ! 13) 0x9bdc06a7 (w ! 14) 0xc19bf174 (w ! 15);
          w = Expand16 w;
          r = Rounds8 r 0xe49b69c1 (w ! 0) 0xefbe4786 (w ! 1) 0x0fc19dc6 (w ! 2) 0x240ca1cc (w ! 3)
                        0x2de92c6f (w ! 4) 0x4a7484aa (w ! 5) 0x5cb0a9dc (w ! 6) 0x76f988da (w ! 7);
          r = Rounds8 r 0x983e5152 (w ! 8) 0xa831c66d (w ! 9) 0xb00327c8 (w ! 10) 0xbf597fc7 (w ! 11)
                        0xc6e00bf3 (w ! 12) 0xd5a79147 (w ! 13) 0x06ca6351 (w ! 14) 0x14292967 (w ! 15);
          w = Expand16 w;
          r = Rounds8 r 0x27b70a85 (w ! 0) 0x2e1b2138 (w ! 1) 0x4d2c6dfc (w ! 2) 0x53380d13 (w ! 3)
                        0x650a7354 (w ! 4) 0x766a0abb (w ! 5) 0x81c2c92e (w ! 6) 0x92722c85 (w ! 7);
          r = Rounds8 r 0xa2bfe8a1 (w ! 8) 0xa81a664b (w ! 9) 0xc24b8b70 (w ! 10) 0xc76c51a3 (w ! 11)
                        0xd192e819 (w ! 12) 0xd6990624 (w ! 13) 0xf40e3585 (w ! 14) 0x106aa070 (w ! 15);
          w = Expand16 w;
          r = Rounds8 r 0x19a4c116 (w ! 0) 0x1e376c08 (w ! 1) 0x2748774c (w ! 2) 0x34b0bcb5 (w ! 3)
                        0x391c0cb3 (w ! 4) 0x4ed8aa4a (w ! 5) 0x5b9cca4f (w ! 6) 0x682e6ff3 (w ! 7);
          r = Rounds8 r 0x748f82ee (w ! 8) 0x78a5636f (w ! 9) 0x84c87814 (w ! 10) 0x8cc70208 (w ! 11)
                        0x90befffa (w ! 12) 0xa4506ceb (w ! 13) 0xbef9a3f7 (w ! 14) 0xc67178f2 (w ! 15);
          (a, b, c, d, e, f, g, h) = r
      in [s ! 0 + a, s ! 1 + b, s ! 2 + c, s ! 3 + d, s ! 4 + e, s ! 5 + f, s ! 6 + g, s ! 7 + h])"

fun sha256_Transform :: "u32 list \<Rightarrow> bytes \<Rightarrow> nat \<Rightarrow> u32 list" where
  "sha256_Transform s chunk 0 = s"
| "sha256_Transform s chunk (Suc blocks) = sha256_Transform (Transform_block s chunk) (drop 64 chunk) blocks"

section \<open>The hasher\<close>

text \<open>
  The constructor leaves \<open>buf\<close> uninitialised; its content is an argument here, and the results
  below do not depend on it.
\<close>

record CSHA256 =
  sha_s :: "u32 list"
  sha_buf :: bytes
  sha_bytes :: u64

definition CSHA256_ctor :: "bytes \<Rightarrow> CSHA256" where
  "CSHA256_ctor garbage = \<lparr>sha_s = sha256_Initialize, sha_buf = garbage, sha_bytes = 0\<rparr>"

text \<open>\<open>memcpy(buf + off, data, len)\<close>.\<close>

definition memcpy_at :: "bytes \<Rightarrow> nat \<Rightarrow> bytes \<Rightarrow> bytes" where
  "memcpy_at buf off data = take off buf @ data @ drop (off + length data) buf"

text \<open>The three steps of \<open>CSHA256::Write\<close>: complete the buffer, hash whole blocks, keep the rest.\<close>

definition CSHA256_Write_fill :: "CSHA256 \<Rightarrow> bytes \<Rightarrow> CSHA256 \<times> bytes \<times> nat" where
  "CSHA256_Write_fill st data =
     (let bufsize = unat (sha_bytes st) mod 64
      in if bufsize \<noteq> 0 \<and> bufsize + length data \<ge> 64
         then (let buf = memcpy_at (sha_buf st) bufsize (take (64 - bufsize) data)
               in (st\<lparr>sha_buf := buf, sha_bytes := sha_bytes st + of_nat (64 - bufsize),
                      sha_s := sha256_Transform (sha_s st) buf 1\<rparr>, drop (64 - bufsize) data, 0))
         else (st, data, bufsize))"

definition CSHA256_Write_blocks :: "CSHA256 \<Rightarrow> bytes \<Rightarrow> CSHA256 \<times> bytes" where
  "CSHA256_Write_blocks st data =
     (if length data \<ge> 64
      then (let blocks = length data div 64
            in (st\<lparr>sha_s := sha256_Transform (sha_s st) data blocks,
                   sha_bytes := sha_bytes st + of_nat (64 * blocks)\<rparr>, drop (64 * blocks) data))
      else (st, data))"

definition CSHA256_Write :: "CSHA256 \<Rightarrow> bytes \<Rightarrow> CSHA256" where
  "CSHA256_Write st data =
     (let (st, data, bufsize) = CSHA256_Write_fill st data;
          (st, data) = CSHA256_Write_blocks st data
      in if data \<noteq> []
         then st\<lparr>sha_buf := memcpy_at (sha_buf st) bufsize data, sha_bytes := sha_bytes st + of_nat (length data)\<rparr>
         else st)"

definition CSHA256_Finalize :: "CSHA256 \<Rightarrow> CSHA256 \<times> bytes" where
  "CSHA256_Finalize st =
     (let pad = 0x80 # replicate 63 0;
          sizedesc = WriteBE64 (push_bit 3 (sha_bytes st));
          st1 = CSHA256_Write st (take (1 + (119 - unat (sha_bytes st) mod 64) mod 64) pad);
          st2 = CSHA256_Write st1 sizedesc
      in (st2, concat (map WriteBE32 (sha_s st2))))"

definition CSHA256_Reset :: "CSHA256 \<Rightarrow> CSHA256" where
  "CSHA256_Reset st = st\<lparr>sha_bytes := 0, sha_s := sha256_Initialize\<rparr>"

section \<open>Double SHA-256\<close>

definition CHash256_Finalize :: "CSHA256 \<Rightarrow> bytes" where
  "CHash256_Finalize sha =
     (let (sha1, buf) = CSHA256_Finalize sha
      in snd (CSHA256_Finalize (CSHA256_Write (CSHA256_Reset sha1) buf)))"

definition Hash1 :: "bytes \<Rightarrow> bytes \<Rightarrow> uint256" where
  "Hash1 garbage p = CHash256_Finalize (CSHA256_Write (CSHA256_ctor garbage) p)"

definition Hash2 :: "bytes \<Rightarrow> bytes \<Rightarrow> bytes \<Rightarrow> uint256" where
  "Hash2 garbage p1 p2 =
     CHash256_Finalize (CSHA256_Write (CSHA256_Write (CSHA256_ctor garbage) p1) p2)"

definition Hash3 :: "bytes \<Rightarrow> bytes \<Rightarrow> bytes \<Rightarrow> bytes \<Rightarrow> uint256" where
  "Hash3 garbage p1 p2 p3 =
     CHash256_Finalize (CSHA256_Write (CSHA256_Write (CSHA256_Write (CSHA256_ctor garbage) p1) p2) p3)"

section \<open>FIPS 180-4\<close>

text \<open>
  The constants of the standard are fractional parts of roots of primes: the first 32 bits of the
  fractional parts of the cube roots of the first 64 primes for the rounds, and of the square
  roots of the first eight for the initial value. \<open>iroot_bits e b n acc\<close> finds the integer
  part of the \<open>e\<close>-th root of \<open>n\<close> bit by bit.
\<close>

fun iroot_bits :: "nat \<Rightarrow> nat \<Rightarrow> nat \<Rightarrow> nat \<Rightarrow> nat" where
  "iroot_bits e 0 n acc = acc"
| "iroot_bits e (Suc b) n acc =
     (if (acc + 2 ^ b) ^ e \<le> n then iroot_bits e b n (acc + 2 ^ b) else iroot_bits e b n acc)"

definition root_fraction :: "nat \<Rightarrow> nat \<Rightarrow> u32" where
  "root_fraction e p = of_nat (iroot_bits e 41 (p * 2 ^ (32 * e)) 0)"

definition first_primes :: "nat list" where
  "first_primes = [2, 3, 5, 7, 11, 13, 17, 19, 23, 29, 31, 37, 41, 43, 47, 53,
      59, 61, 67, 71, 73, 79, 83, 89, 97, 101, 103, 107, 109, 113, 127, 131,
      137, 139, 149, 151, 157, 163, 167, 173, 179, 181, 191, 193, 197, 199, 211, 223,
      227, 229, 233, 239, 241, 251, 257, 263, 269, 271, 277, 281, 283, 293, 307, 311]"

definition fips_K :: "u32 list" where
  "fips_K = map (root_fraction 3) first_primes"

definition fips_H0 :: "u32 list" where
  "fips_H0 = map (root_fraction 2) (take 8 first_primes)"

text \<open>The functions of the standard, with its rotations.\<close>

definition fips_Ch :: "u32 \<Rightarrow> u32 \<Rightarrow> u32 \<Rightarrow> u32" where
  "fips_Ch x y z = (x AND y) XOR (NOT x AND z)"

definition fips_Maj :: "u32 \<Rightarrow> u32 \<Rightarrow> u32 \<Rightarrow> u32" where
  "fips_Maj x y z = (x AND y) XOR (x AND z) XOR (y AND z)"

definition fips_Sigma :: "nat \<Rightarrow> nat \<Rightarrow> nat \<Rightarrow> u32 \<Rightarrow> u32" where
  "fips_Sigma i j k x = word_rotr i x XOR word_rotr j x XOR word_rotr k x"

definition fips_sigma :: "nat \<Rightarrow> nat \<Rightarrow> nat \<Rightarrow> u32 \<Rightarrow> u32" where
  "fips_sigma i j k x = word_rotr i x XOR word_rotr j x XOR drop_bit k x"

fun fips_W :: "bytes \<Rightarrow> nat \<Rightarrow> u32" where
  "fips_W M t =
     (if t < 16 then ReadBE32 (drop (4 * t) M)
      else fips_sigma 17 19 10 (fips_W M (t - 2)) + fips_W M (t - 7) + fips_sigma 7 18 3 (fips_W M (t - 15)) + fips_W M (t - 16))"

declare fips_W.simps [simp del]

fun fips_round :: "u32 \<Rightarrow> u32 \<Rightarrow> sha_regs \<Rightarrow> sha_regs" where
  "fips_round k w (a, b, c, d, e, f, g, h) =
     (let T1 = h + fips_Sigma 6 11 25 e + fips_Ch e f g + k + w; T2 = fips_Sigma 2 13 22 a + fips_Maj a b c
      in (T1 + T2, a, b, c, d + T1, e, f, g))"

definition fips_compress :: "u32 list \<Rightarrow> bytes \<Rightarrow> u32 list" where
  "fips_compress H M =
     (let (a, b, c, d, e, f, g, h) =
        fold (\<lambda>(k, t) r. fips_round k (fips_W M t) r) (zip fips_K [0..<64])
          (H ! 0, H ! 1, H ! 2, H ! 3, H ! 4, H ! 5, H ! 6, H ! 7)
      in [H ! 0 + a, H ! 1 + b, H ! 2 + c, H ! 3 + d, H ! 4 + e, H ! 5 + f, H ! 6 + g, H ! 7 + h])"

fun fips_blocks :: "u32 list \<Rightarrow> bytes \<Rightarrow> nat \<Rightarrow> u32 list" where
  "fips_blocks H M 0 = H"
| "fips_blocks H M (Suc n) = fips_blocks (fips_compress H (take 64 M)) (drop 64 M) n"

definition fips_pad :: "bytes \<Rightarrow> bytes" where
  "fips_pad M = M @ [0x80] @ replicate ((119 - length M mod 64) mod 64) 0 @ rev (le_bytes 8 (8 * length M))"

definition fips_sha256 :: "bytes \<Rightarrow> bytes" where
  "fips_sha256 M =
     concat (map WriteBE32 (fips_blocks fips_H0 (fips_pad M) (length (fips_pad M) div 64)))"

section \<open>The constants\<close>

lemma iroot_bits_bounds:
  "acc ^ e \<le> n \<Longrightarrow> n < (acc + 2 ^ b) ^ e \<Longrightarrow>
     iroot_bits e b n acc ^ e \<le> n \<and> n < (iroot_bits e b n acc + 1) ^ e"
proof (induction b arbitrary: acc)
  case (Suc b)
  have "acc + 2 ^ b + 2 ^ b = acc + 2 ^ Suc b" by simp
  then show ?case using Suc.IH [of acc] Suc.IH [of "acc + 2 ^ b"] Suc.prems by (simp only: iroot_bits.simps split: if_split) auto
qed simp

lemma root_fraction_eq:
  assumes "0 < e" and "p < 512" and "k ^ e \<le> p * 2 ^ (32 * e)" and "p * 2 ^ (32 * e) < (k + 1) ^ e"
  shows "root_fraction e p = of_nat k"
proof -
  let ?n = "p * 2 ^ (32 * e)" and ?r = "iroot_bits e 41 (p * 2 ^ (32 * e)) 0"
  have "(512 :: nat) ^ 1 \<le> 512 ^ e" using assms(1) by (intro power_increasing) simp_all
  then have "p < (512 :: nat) ^ e" using assms(2) by simp
  then have "?n < 512 ^ e * 2 ^ (32 * e)" by simp
  also have "\<dots> = (0 + 2 ^ 41) ^ e" by (simp add: power_mult power_mult_distrib [symmetric])
  finally have n: "?n < (0 + 2 ^ 41) ^ e" .
  have "0 ^ e \<le> ?n" using assms(1) by (simp add: zero_power)
  then have "?r ^ e \<le> ?n \<and> ?n < (?r + 1) ^ e" using n by (rule iroot_bits_bounds)
  then have "?r ^ e < (k + 1) ^ e" "k ^ e < (?r + 1) ^ e" using assms(3,4) by linarith+
  then have "?r < k + 1" "k < ?r + 1" by (meson power_less_imp_less_base zero_le)+
  then have "?r = k" by simp
  then show ?thesis by (simp only: root_fraction_def)
qed

lemma fips_H0_eq: "fips_H0 = sha256_Initialize"
  by (simp add: fips_H0_def first_primes_def sha256_Initialize_def
      root_fraction_eq [of 2 2 6074000999]
      root_fraction_eq [of 2 3 7439101573]
      root_fraction_eq [of 2 5 9603838834]
      root_fraction_eq [of 2 7 11363415354]
      root_fraction_eq [of 2 11 14244795007]
      root_fraction_eq [of 2 13 15485724812]
      root_fraction_eq [of 2 17 17708603819]
      root_fraction_eq [of 2 19 18721328409])

lemma fips_round_constants:
  "map (root_fraction 3) [2, 3, 5, 7, 11, 13, 17, 19] =
     [0x428a2f98, 0x71374491, 0xb5c0fbcf, 0xe9b5dba5, 0x3956c25b, 0x59f111f1, 0x923f82a4, 0xab1c5ed5]"
  "map (root_fraction 3) [23, 29, 31, 37, 41, 43, 47, 53] =
     [0xd807aa98, 0x12835b01, 0x243185be, 0x550c7dc3, 0x72be5d74, 0x80deb1fe, 0x9bdc06a7, 0xc19bf174]"
  "map (root_fraction 3) [59, 61, 67, 71, 73, 79, 83, 89] =
     [0xe49b69c1, 0xefbe4786, 0x0fc19dc6, 0x240ca1cc, 0x2de92c6f, 0x4a7484aa, 0x5cb0a9dc, 0x76f988da]"
  "map (root_fraction 3) [97, 101, 103, 107, 109, 113, 127, 131] =
     [0x983e5152, 0xa831c66d, 0xb00327c8, 0xbf597fc7, 0xc6e00bf3, 0xd5a79147, 0x06ca6351, 0x14292967]"
  "map (root_fraction 3) [137, 139, 149, 151, 157, 163, 167, 173] =
     [0x27b70a85, 0x2e1b2138, 0x4d2c6dfc, 0x53380d13, 0x650a7354, 0x766a0abb, 0x81c2c92e, 0x92722c85]"
  "map (root_fraction 3) [179, 181, 191, 193, 197, 199, 211, 223] =
     [0xa2bfe8a1, 0xa81a664b, 0xc24b8b70, 0xc76c51a3, 0xd192e819, 0xd6990624, 0xf40e3585, 0x106aa070]"
  "map (root_fraction 3) [227, 229, 233, 239, 241, 251, 257, 263] =
     [0x19a4c116, 0x1e376c08, 0x2748774c, 0x34b0bcb5, 0x391c0cb3, 0x4ed8aa4a, 0x5b9cca4f, 0x682e6ff3]"
  "map (root_fraction 3) [269, 271, 277, 281, 283, 293, 307, 311] =
     [0x748f82ee, 0x78a5636f, 0x84c87814, 0x8cc70208, 0x90befffa, 0xa4506ceb, 0xbef9a3f7, 0xc67178f2]"
  by (simp_all add:
      root_fraction_eq [of 3 2 5411319704]
      root_fraction_eq [of 3 3 6194414737]
      root_fraction_eq [of 3 5 7344290767]
      root_fraction_eq [of 3 7 8215976869]
      root_fraction_eq [of 3 11 9551921755]
      root_fraction_eq [of 3 13 10098905585]
      root_fraction_eq [of 3 17 11043570340]
      root_fraction_eq [of 3 19 11460697813]
      root_fraction_eq [of 3 23 12214315672]
      root_fraction_eq [of 3 29 13195500289]
      root_fraction_eq [of 3 31 13492127166]
      root_fraction_eq [of 3 37 14311783875]
      root_fraction_eq [of 3 41 14809980276]
      root_fraction_eq [of 3 43 15046980094]
      root_fraction_eq [of 3 47 15499789991]
      root_fraction_eq [of 3 53 16133124468]
      root_fraction_eq [of 3 59 16720292289]
      root_fraction_eq [of 3 61 16907126662]
      root_fraction_eq [of 3 67 17444216262]
      root_fraction_eq [of 3 71 17784676812]
      root_fraction_eq [of 3 73 17950125167]
      root_fraction_eq [of 3 79 18429019306]
      root_fraction_eq [of 3 83 18734950876]
      root_fraction_eq [of 3 89 19175934170]
      root_fraction_eq [of 3 97 19734090066]
      root_fraction_eq [of 3 101 20001703533]
      root_fraction_eq [of 3 103 20132865992]
      root_fraction_eq [of 3 107 20390182855]
      root_fraction_eq [of 3 109 20516441075]
      root_fraction_eq [of 3 113 20764397895]
      root_fraction_eq [of 3 127 21588763473]
      root_fraction_eq [of 3 131 21813078375]
      root_fraction_eq [of 3 137 22141143685]
      root_fraction_eq [of 3 139 22248366392]
      root_fraction_eq [of 3 149 22769593852]
      root_fraction_eq [of 3 151 22871018771]
      root_fraction_eq [of 3 157 23170020180]
      root_fraction_eq [of 3 163 23461497531]
      root_fraction_eq [of 3 167 23651862830]
      root_fraction_eq [of 3 173 23931792517]
      root_fraction_eq [of 3 179 24205322401]
      root_fraction_eq [of 3 181 24295138891]
      root_fraction_eq [of 3 191 24734567280]
      root_fraction_eq [of 3 193 24820601251]
      root_fraction_eq [of 3 197 24990902297]
      root_fraction_eq [of 3 199 25075189284]
      root_fraction_eq [of 3 211 25569408389]
      root_fraction_eq [of 3 223 26045227120]
      root_fraction_eq [of 3 227 26200031510]
      root_fraction_eq [of 3 229 26276752392]
      root_fraction_eq [of 3 233 26428864332]
      root_fraction_eq [of 3 239 26653801653]
      root_fraction_eq [of 3 241 26727943347]
      root_fraction_eq [of 3 251 27092625994]
      root_fraction_eq [of 3 257 27306805839]
      root_fraction_eq [of 3 263 27517677555]
      root_fraction_eq [of 3 269 27725365998]
      root_fraction_eq [of 3 271 27793908591]
      root_fraction_eq [of 3 277 27997534228]
      root_fraction_eq [of 3 281 28131656200]
      root_fraction_eq [of 3 283 28198240250]
      root_fraction_eq [of 3 293 28526537963]
      root_fraction_eq [of 3 307 28973835255]
      root_fraction_eq [of 3 311 29099129074])

lemma rotr_shifts: "n < 32 \<Longrightarrow> m = 32 - n \<Longrightarrow> word_rotr n (x :: u32) = drop_bit n x OR push_bit m x"
proof (rule bit_word_eqI)
  fix i assume "n < 32" "m = 32 - n" "i < LENGTH(32)"
  moreover from this have "(i + n) mod 32 = (if i + n < 32 then i + n else i + n - 32)" by (simp add: le_mod_geq)
  ultimately show "bit (word_rotr n x) i = bit (drop_bit n x OR push_bit m x) i"
    by (auto simp: bit_word_rotr_iff bit_simps ac_simps dest: bit_imp_le_length)
qed

lemma fips_functions:
  "fips_Ch = Ch" "fips_Maj = Maj" "fips_Sigma 2 13 22 = Sigma0" "fips_Sigma 6 11 25 = Sigma1"
  "fips_sigma 7 18 3 = sigma0" "fips_sigma 17 19 10 = sigma1"
proof -
  show "fips_Ch = Ch" by (intro ext bit_word_eqI) (auto simp: fips_Ch_def Ch_def bit_simps)
  show "fips_Maj = Maj" by (intro ext bit_word_eqI) (auto simp: fips_Maj_def Maj_def bit_simps)
qed (simp_all add: fun_eq_iff fips_Sigma_def fips_sigma_def Sigma0_def Sigma1_def sigma0_def sigma1_def rotr_shifts)

lemmas fips_W_code = fips_W.simps [unfolded fips_functions]

lemma fips_round_Round:
  "fips_round k w (a, b, c, d, e, f, g, h) =
     (let (d', h') = Round a b c d e f g h k w in (h', a, b, c, d', e, f, g))"
  by (simp add: Round_def Let_def fips_functions)

lemma Rounds8_fips:
  "Rounds8 r k0 w0 k1 w1 k2 w2 k3 w3 k4 w4 k5 w5 k6 w6 k7 w7 =
     fips_round k7 w7 (fips_round k6 w6 (fips_round k5 w5 (fips_round k4 w4
       (fips_round k3 w3 (fips_round k2 w2 (fips_round k1 w1 (fips_round k0 w0 r)))))))"
proof -
  obtain a b c d e f g h where r: "r = (a, b, c, d, e, f, g, h)" by (metis surj_pair)
  show ?thesis
    unfolding r Rounds8_def Let_def
    by (simp only: prod.case fips_round_Round Let_def split: prod.split) simp
qed

lemma fips_W_rec:
  "fips_W M (n + 16) = fips_W M n + (sigma1 (fips_W M (n + 14)) + fips_W M (n + 9) + sigma0 (fips_W M (n + 1)))"
  by (subst fips_W_code) (simp add: ac_simps)

lemma Expand16_W:
  "Expand16 (map (fips_W M) [n..<n + 16]) = map (fips_W M) [n + 16..<n + 32]"
proof -
  let ?w = "map (fips_W M) [n..<n + 16]"
  have e: "fips_W M (n + i) + (sigma1 (fips_W M (n + (i + 14))) + fips_W M (n + (i + 9)) + sigma0 (fips_W M (n + (i + 1))))
      = fips_W M (n + (i + 16))" for i
    using fips_W_rec [of M "n + i"] by (simp only: add.assoc)
  have es:
    "fips_W M n + (sigma1 (fips_W M (n + 14)) + fips_W M (n + 9) + sigma0 (fips_W M (n + 1))) = fips_W M (n + 16)"
    "fips_W M (n + 1) + (sigma1 (fips_W M (n + 15)) + fips_W M (n + 10) + sigma0 (fips_W M (n + 2))) = fips_W M (n + 17)"
    "fips_W M (n + 2) + (sigma1 (fips_W M (n + 16)) + fips_W M (n + 11) + sigma0 (fips_W M (n + 3))) = fips_W M (n + 18)"
    "fips_W M (n + 3) + (sigma1 (fips_W M (n + 17)) + fips_W M (n + 12) + sigma0 (fips_W M (n + 4))) = fips_W M (n + 19)"
    "fips_W M (n + 4) + (sigma1 (fips_W M (n + 18)) + fips_W M (n + 13) + sigma0 (fips_W M (n + 5))) = fips_W M (n + 20)"
    "fips_W M (n + 5) + (sigma1 (fips_W M (n + 19)) + fips_W M (n + 14) + sigma0 (fips_W M (n + 6))) = fips_W M (n + 21)"
    "fips_W M (n + 6) + (sigma1 (fips_W M (n + 20)) + fips_W M (n + 15) + sigma0 (fips_W M (n + 7))) = fips_W M (n + 22)"
    "fips_W M (n + 7) + (sigma1 (fips_W M (n + 21)) + fips_W M (n + 16) + sigma0 (fips_W M (n + 8))) = fips_W M (n + 23)"
    "fips_W M (n + 8) + (sigma1 (fips_W M (n + 22)) + fips_W M (n + 17) + sigma0 (fips_W M (n + 9))) = fips_W M (n + 24)"
    "fips_W M (n + 9) + (sigma1 (fips_W M (n + 23)) + fips_W M (n + 18) + sigma0 (fips_W M (n + 10))) = fips_W M (n + 25)"
    "fips_W M (n + 10) + (sigma1 (fips_W M (n + 24)) + fips_W M (n + 19) + sigma0 (fips_W M (n + 11))) = fips_W M (n + 26)"
    "fips_W M (n + 11) + (sigma1 (fips_W M (n + 25)) + fips_W M (n + 20) + sigma0 (fips_W M (n + 12))) = fips_W M (n + 27)"
    "fips_W M (n + 12) + (sigma1 (fips_W M (n + 26)) + fips_W M (n + 21) + sigma0 (fips_W M (n + 13))) = fips_W M (n + 28)"
    "fips_W M (n + 13) + (sigma1 (fips_W M (n + 27)) + fips_W M (n + 22) + sigma0 (fips_W M (n + 14))) = fips_W M (n + 29)"
    "fips_W M (n + 14) + (sigma1 (fips_W M (n + 28)) + fips_W M (n + 23) + sigma0 (fips_W M (n + 15))) = fips_W M (n + 30)"
    "fips_W M (n + 15) + (sigma1 (fips_W M (n + 29)) + fips_W M (n + 24) + sigma0 (fips_W M (n + 16))) = fips_W M (n + 31)"
    using e [of 0] e [of 1] e [of 2] e [of 3] e [of 4] e [of 5] e [of 6] e [of 7] e [of 8]
      e [of 9] e [of 10] e [of 11] e [of 12] e [of 13] e [of 14] e [of 15] by simp_all
  have ns:
    "?w ! 0 = fips_W M n"
    "?w ! 1 = fips_W M (n + 1)"
    "?w ! 2 = fips_W M (n + 2)"
    "?w ! 3 = fips_W M (n + 3)"
    "?w ! 4 = fips_W M (n + 4)"
    "?w ! 5 = fips_W M (n + 5)"
    "?w ! 6 = fips_W M (n + 6)"
    "?w ! 7 = fips_W M (n + 7)"
    "?w ! 8 = fips_W M (n + 8)"
    "?w ! 9 = fips_W M (n + 9)"
    "?w ! 10 = fips_W M (n + 10)"
    "?w ! 11 = fips_W M (n + 11)"
    "?w ! 12 = fips_W M (n + 12)"
    "?w ! 13 = fips_W M (n + 13)"
    "?w ! 14 = fips_W M (n + 14)"
    "?w ! 15 = fips_W M (n + 15)"
    by simp_all
  have "[n + 16..<n + 32] = [n+16, n+17, n+18, n+19, n+20, n+21, n+22, n+23, n+24, n+25, n+26, n+27, n+28, n+29, n+30, n+31]"
    by (simp add: upt_rec)
  then show ?thesis
    unfolding Expand16_def Let_def by (simp only: ns es list.map)
qed

lemma fips_K_split:
  "fips_K = map (root_fraction 3) [2, 3, 5, 7, 11, 13, 17, 19] @ map (root_fraction 3) [23, 29, 31, 37, 41, 43, 47, 53] @ map (root_fraction 3) [59, 61, 67, 71, 73, 79, 83, 89] @ map (root_fraction 3) [97, 101, 103, 107, 109, 113, 127, 131] @ map (root_fraction 3) [137, 139, 149, 151, 157, 163, 167, 173] @ map (root_fraction 3) [179, 181, 191, 193, 197, 199, 211, 223] @ map (root_fraction 3) [227, 229, 233, 239, 241, 251, 257, 263] @ map (root_fraction 3) [269, 271, 277, 281, 283, 293, 307, 311]"
  by (simp only: fips_round_constants [symmetric] map_append [symmetric] fips_K_def first_primes_def append.simps)

lemma upt_64:
  "[0..<64] = [0, 1, 2, 3, 4, 5, 6, 7, 8, 9, 10, 11, 12, 13, 14, 15, 16, 17, 18, 19, 20, 21, 22, 23, 24, 25, 26, 27,
    28, 29, 30, 31, 32, 33, 34, 35, 36, 37, 38, 39, 40, 41, 42, 43, 44, 45, 46, 47, 48, 49, 50, 51, 52, 53, 54, 55, 56,
    57, 58, 59, 60, 61, 62, 63 :: nat]"
  by (simp add: upt_rec)

lemma Transform_block_fips:
  assumes "64 \<le> length chunk"
  shows "Transform_block s chunk = fips_compress s (take 64 chunk)"
proof -
  let ?M = "take 64 chunk"
  have w: "map (\<lambda>i. ReadBE32 (drop (4 * i) chunk)) [0..<16] = map (fips_W ?M) [0..<16]"
    using assms by (auto simp: fips_W_code ReadBE32_def drop_take min_def)
  have E: "Expand16 (map (fips_W ?M) [0..<16]) = map (fips_W ?M) [16..<32]"
    "Expand16 (map (fips_W ?M) [16..<32]) = map (fips_W ?M) [32..<48]"
    "Expand16 (map (fips_W ?M) [32..<48]) = map (fips_W ?M) [48..<64]"
    using Expand16_W [of ?M 0] Expand16_W [of ?M 16] Expand16_W [of ?M 32] by simp_all
  show ?thesis
    unfolding Transform_block_def fips_compress_def w Let_def E fips_K_split fips_round_constants upt_64 Rounds8_fips
    by (simp only: append.simps zip_Cons_Cons zip_Nil fold.simps o_def id_def prod.case)
       (simp add: nth_map_upt numeral_2_eq_2 del: fips_round.simps)
qed

lemma Transform_fips:
  "64 * n \<le> length chunk \<Longrightarrow> sha256_Transform s chunk n = fips_blocks s chunk n"
  by (induction n arbitrary: s chunk) (simp_all add: Transform_block_fips)

lemma fips_blocks_append:
  "64 * n = length a \<Longrightarrow> fips_blocks s (a @ b) (n + m) = fips_blocks (fips_blocks s a n) b m"
  by (induction n arbitrary: s a) simp_all

lemma fips_blocks_take:
  "64 * n \<le> length a \<Longrightarrow> fips_blocks s (take (64 * n) a) n = fips_blocks s a n"
proof (induction n arbitrary: s a)
  case (Suc n)
  have "drop 64 (take (64 * Suc n) a) = take (64 * n) (drop 64 a)" by (simp add: drop_take)
  then show ?case using Suc by (simp add: min_def)
qed simp

section \<open>Streaming\<close>

text \<open>The state reached after the message \<open>m\<close>, however it was cut.\<close>

definition sha_repr :: "CSHA256 \<Rightarrow> bytes \<Rightarrow> bool" where
  "sha_repr st m \<longleftrightarrow>
     sha_s st = fips_blocks sha256_Initialize m (length m div 64) \<and>
     length (sha_buf st) = 64 \<and>
     take (length m mod 64) (sha_buf st) = drop (64 * (length m div 64)) m \<and>
     sha_bytes st = of_nat (length m)"

lemma bytes_mod: "unat (of_nat n :: u64) mod 64 = n mod 64"
proof -
  have "64 dvd (2 :: nat) ^ 64" by simp
  then show ?thesis using mod_mod_cancel [of 64 "2 ^ 64" n] by (simp add: unat_of_nat)
qed

lemma repr_ctor: "length g = 64 \<Longrightarrow> sha_repr (CSHA256_ctor g) []"
  by (simp add: sha_repr_def CSHA256_ctor_def)

lemma repr_Reset: "sha_repr st m \<Longrightarrow> sha_repr (CSHA256_Reset st) []"
  by (simp add: sha_repr_def CSHA256_Reset_def)

text \<open>Appending \<open>k\<close> whole blocks when the buffer is empty.\<close>

lemma repr_blocks:
  assumes "sha_repr st m" and "length m mod 64 = 0" and "64 * k = length d"
  shows "sha_repr (st\<lparr>sha_s := sha256_Transform (sha_s st) d k, sha_bytes := sha_bytes st + of_nat (64 * k)\<rparr>) (m @ d)"
proof -
  have l: "64 * (length m div 64) = length m" using assms(2) by auto
  have "length (m @ d) div 64 = length m div 64 + k" "length (m @ d) mod 64 = 0"
    using assms(2,3) by (simp_all flip: assms(3))
  then show ?thesis
    using assms l fips_blocks_append [OF l, of sha256_Initialize d k]
    by (simp add: sha_repr_def Transform_fips mult.commute)
qed

lemma repr_rest:
  assumes "sha_repr st m" and "length m mod 64 + length d < 64"
  shows "sha_repr (st\<lparr>sha_buf := memcpy_at (sha_buf st) (length m mod 64) d, sha_bytes := sha_bytes st + of_nat (length d)\<rparr>) (m @ d)"
proof -
  define q r where "q = length m div 64" and "r = length m mod 64"
  have lm: "length m = 64 * q + r" "r < 64" by (simp_all add: q_def r_def)
  then have ld: "length (m @ d) div 64 = q" "length (m @ d) mod 64 = r + length d"
    using assms(2) unfolding r_def [symmetric] by (simp_all add: add.assoc)
  have "fips_blocks sha256_Initialize (m @ d) q = fips_blocks sha256_Initialize m q"
    using fips_blocks_take [of q "m @ d" sha256_Initialize] fips_blocks_take [of q m sha256_Initialize] lm by simp
  moreover have "take (r + length d) (memcpy_at (sha_buf st) r d) = take r (sha_buf st) @ d"
    using assms(1) lm by (simp add: memcpy_at_def sha_repr_def)
  moreover have "length (memcpy_at (sha_buf st) r d) = 64"
    using assms lm by (simp add: memcpy_at_def sha_repr_def r_def [symmetric])
  ultimately show ?thesis
    using assms(1) lm ld unfolding sha_repr_def by (simp add: q_def [symmetric] r_def [symmetric])
qed

text \<open>Completing a partly filled buffer.\<close>

lemma repr_fill:
  assumes "sha_repr st m" and "length m mod 64 \<noteq> 0" and "length m mod 64 + length d = 64"
  shows "sha_repr (st\<lparr>sha_buf := memcpy_at (sha_buf st) (length m mod 64) d,
     sha_bytes := sha_bytes st + of_nat (64 - length m mod 64),
     sha_s := sha256_Transform (sha_s st) (memcpy_at (sha_buf st) (length m mod 64) d) 1\<rparr>) (m @ d)"
proof -
  define q r where "q = length m div 64" and "r = length m mod 64"
  have lm: "length m = 64 * q + r" "r < 64" by (simp_all add: q_def r_def)
  let ?buf = "memcpy_at (sha_buf st) r d"
  have b: "?buf = drop (64 * q) m @ d"
    using assms(1,3) lm by (simp add: memcpy_at_def sha_repr_def r_def [symmetric] q_def [symmetric])
  then have lb: "length ?buf = 64" using lm assms(3) [folded r_def] by simp
  have md: "m @ d = take (64 * q) m @ ?buf" unfolding b by (simp flip: append_assoc)
  have "length (m @ d) div 64 = q + 1" "length (m @ d) mod 64 = 0"
    using lm assms(3) [folded r_def] by (simp_all add: add.assoc)
  moreover have "fips_blocks sha256_Initialize (m @ d) (q + 1) = sha256_Transform (sha_s st) ?buf 1"
    using assms(1) lm lb fips_blocks_append [of q "take (64 * q) m" sha256_Initialize ?buf 1]
    by (simp add: md Transform_fips fips_blocks_take sha_repr_def q_def [symmetric] del: sha256_Transform.simps)
  moreover have "64 - r = length d" using assms(3) by (simp add: r_def)
  ultimately show ?thesis
    using assms(1) lb lm unfolding sha_repr_def r_def [symmetric] by simp
qed

lemma Write_repr:
  assumes "sha_repr st m"
  shows "sha_repr (CSHA256_Write st d) (m @ d)"
proof -
  define r where "r = length m mod 64"
  have bs: "unat (sha_bytes st) mod 64 = r"
    using assms by (simp add: sha_repr_def bytes_mod r_def)
  obtain st1 d1 b1 where f: "CSHA256_Write_fill st d = (st1, d1, b1)" by (metis prod_cases3)
  obtain m1 where m1: "sha_repr st1 m1" "m @ d = m1 @ d1" "b1 = length m1 mod 64" "b1 = 0 \<or> b1 + length d1 < 64"
  proof (cases "r \<noteq> 0 \<and> 64 \<le> r + length d")
    case True
    have r64: "r < 64" by (simp add: r_def)
    let ?d = "take (64 - r) d"
    have l: "length m mod 64 + length ?d = 64" using True r64 by (auto simp: r_def [symmetric] min_def)
    have "sha_repr st1 (m @ ?d)" "d1 = drop (64 - r) d" "b1 = 0"
      using repr_fill [OF assms _ l] True f
      by (simp_all add: CSHA256_Write_fill_def Let_def bs r_def [symmetric])
    moreover have "length (m @ ?d) mod 64 = 0"
      using l by (metis length_append mod_add_left_eq mod_self)
    ultimately show ?thesis using that [of "m @ ?d"] by simp
  next
    case False
    then have "st1 = st" "d1 = d" "b1 = r" using f by (auto simp: CSHA256_Write_fill_def Let_def bs)
    then show ?thesis using that [of m] assms False by (auto simp: r_def)
  qed
  obtain st2 d2 where g: "CSHA256_Write_blocks st1 d1 = (st2, d2)" by force
  obtain m2 where m2: "sha_repr st2 m2" "m @ d = m2 @ d2" "b1 = length m2 mod 64" "b1 + length d2 < 64"
  proof (cases "64 \<le> length d1")
    case True
    let ?k = "length d1 div 64"
    have b0: "length m1 mod 64 = 0" using True m1 by auto
    have "sha_repr st2 (m1 @ take (64 * ?k) d1)" "d2 = drop (64 * ?k) d1"
      using repr_blocks [OF m1(1) b0, of ?k "take (64 * ?k) d1"] True g
      by (simp_all add: CSHA256_Write_blocks_def Let_def Transform_fips fips_blocks_take)
    moreover have "length (m1 @ take (64 * ?k) d1) mod 64 = 0"
      using b0 by (simp add: mod_add_left_eq)
    moreover have "length (drop (64 * ?k) d1) < 64" by (simp add: minus_mult_div_eq_mod)
    ultimately show ?thesis using that [of "m1 @ take (64 * ?k) d1"] m1 b0 by simp
  next
    case False
    then have "st2 = st1" "d2 = d1" using g by (auto simp: CSHA256_Write_blocks_def)
    then show ?thesis using that [of m1] m1 False by auto
  qed
  show ?thesis
    using repr_rest [OF m2(1), of d2] m2
    by (cases "d2 = []") (simp_all add: CSHA256_Write_def f g)
qed

lemma concat_BE32_length: "length (concat (map WriteBE32 s)) = 4 * length s"
  by (induction s) simp_all

lemma fips_blocks_length: "length s = 8 \<Longrightarrow> length (fips_blocks s M n) = 8"
proof (induction n arbitrary: s M)
  case (Suc n)
  have "length (fips_compress s (take 64 M)) = 8"
    by (simp add: fips_compress_def Let_def split: prod.split)
  then show ?case using Suc.IH by simp
qed simp

lemma fips_sha256_length: "length (fips_sha256 M) = 32"
  by (simp add: fips_sha256_def concat_BE32_length fips_blocks_length fips_H0_eq sha256_Initialize_def)

lemma Finalize_repr:
  assumes "sha_repr st m"
  shows "snd (CSHA256_Finalize st) = fips_sha256 m \<and> sha_repr (fst (CSHA256_Finalize st)) (fips_pad m)"
proof -
  define r where "r = length m mod 64"
  have bs: "unat (sha_bytes st) mod 64 = r" and nb: "sha_bytes st = of_nat (length m)"
    using assms by (simp_all add: sha_repr_def bytes_mod r_def)
  let ?k = "(119 - r) mod 64"
  have "?k \<le> 63" using mod_less_divisor [of 64 "119 - r"] by linarith
  then have pad: "take (1 + ?k) (0x80 # replicate 63 0) = 0x80 # replicate ?k (0 :: u8)"
    by (simp add: min_def)
  have sz: "WriteBE64 (push_bit 3 (of_nat (length m))) = rev (le_bytes 8 (8 * length m))"
  proof -
    have "push_bit 3 (of_nat (length m) :: u64) = of_nat (8 * length m)" by (simp add: push_bit_eq_mult)
    moreover have "le_bytes 8 (unat (of_nat (8 * length m) :: u64)) = le_bytes 8 (8 * length m)"
      using unat_of_nat [where 'a = 64, of "8 * length m"]
      by (intro le_nat_inj) (simp_all only: le_nat_bytes le_bytes_length, simp)
    ultimately show ?thesis by (simp only: WriteBE64_def)
  qed
  let ?st2 = "CSHA256_Write (CSHA256_Write st (0x80 # replicate ?k 0)) (rev (le_bytes 8 (8 * length m)))"
  have R: "sha_repr ?st2 (fips_pad m)"
    using Write_repr [OF Write_repr [OF assms], of "0x80 # replicate ?k 0" "rev (le_bytes 8 (8 * length m))"]
    by (simp add: fips_pad_def r_def)
  moreover have "CSHA256_Finalize st = (?st2, concat (map WriteBE32 (sha_s ?st2)))"
    unfolding CSHA256_Finalize_def Let_def bs pad unfolding nb sz ..
  ultimately show ?thesis by (simp add: sha_repr_def fips_sha256_def fips_H0_eq)
qed

lemma CHash256_repr: "sha_repr st m \<Longrightarrow> CHash256_Finalize st = fips_sha256 (fips_sha256 m)"
  using Finalize_repr [of st m] Finalize_repr [OF Write_repr [OF repr_Reset], of "fst (CSHA256_Finalize st)" "fips_pad m" "fips_sha256 m"]
  by (simp add: CHash256_Finalize_def case_prod_beta)

lemma Hash1_fips: "length g = 64 \<Longrightarrow> Hash1 g p = fips_sha256 (fips_sha256 p)"
  using CHash256_repr [OF Write_repr [OF repr_ctor], of g p] by (simp add: Hash1_def)

lemma Hash2_fips: "length g = 64 \<Longrightarrow> Hash2 g p q = fips_sha256 (fips_sha256 (p @ q))"
  using CHash256_repr [OF Write_repr [OF Write_repr [OF repr_ctor]], of g p q] by (simp add: Hash2_def)

lemma Hash3_fips: "length g = 64 \<Longrightarrow> Hash3 g p q r = fips_sha256 (fips_sha256 (p @ q @ r))"
  using CHash256_repr [OF Write_repr [OF Write_repr [OF Write_repr [OF repr_ctor]]], of g p q r] by (simp add: Hash3_def)

section \<open>Properties\<close>

text \<open>
  C4: Whatever the buffer held before, and however a message is cut into pieces, writing the
  pieces to a \<open>CSHA256\<close> and finalising gives the FIPS 180-4 hash of the whole message.
\<close>
theorem CSHA256_stream:
  assumes "length garbage = 64"
  shows "snd (CSHA256_Finalize (fold (\<lambda>d st. CSHA256_Write st d) pieces (CSHA256_ctor garbage))) =
     fips_sha256 (concat pieces)"
proof -
  have "sha_repr (fold (\<lambda>d st. CSHA256_Write st d) pieces st) (m @ concat pieces)" if "sha_repr st m" for st m
    using that
  proof (induction pieces arbitrary: st m)
    case (Cons d pieces)
    from Cons.IH [OF Write_repr [OF Cons.prems, of d]] show ?case by simp
  qed simp
  from this [OF repr_ctor [OF assms]] show ?thesis using Finalize_repr by fastforce
qed

theorem CSHA256_stream_witness:
  "length (replicate 64 (7 :: u8)) = 64 \<and>
   snd (CSHA256_Finalize (fold (\<lambda>d st. CSHA256_Write st d) [[1], [], [2, 3]] (CSHA256_ctor (replicate 64 7)))) =
     fips_sha256 [1, 2, 3]"
  using CSHA256_stream [of "replicate 64 7" "[[1], [], [2, 3]]"] by simp

text \<open>
  The unrolled compression of one 64-byte block, with rotated register names and the message
  schedule kept in sixteen variables, is the FIPS 180-4 compression with its 64 schedule words.
\<close>
theorem Transform_block_correct:
  assumes "length chunk = 64"
  shows "Transform_block s chunk = fips_compress s chunk"
  using Transform_block_fips [of chunk s] assms by simp

theorem Transform_block_correct_witness:
  "Transform_block sha256_Initialize (replicate 64 1) = fips_compress sha256_Initialize (replicate 64 1)"
  using Transform_block_correct [of "replicate 64 1" sha256_Initialize] by simp

text \<open>\<open>Hash\<close> of one, two or three ranges is SHA-256 applied twice to their concatenation.\<close>
theorem Hash_correct:
  assumes "length garbage = 64"
  shows "Hash1 garbage p = fips_sha256 (fips_sha256 p) \<and> Hash2 garbage p q = fips_sha256 (fips_sha256 (p @ q)) \<and>
     Hash3 garbage p q r = fips_sha256 (fips_sha256 (p @ q @ r))"
  using Hash1_fips [OF assms] Hash2_fips [OF assms] Hash3_fips [OF assms] by simp

theorem Hash_correct_witness:
  "length (replicate 64 (0 :: u8)) = 64 \<and> Hash2 (replicate 64 0) [1] [2] = fips_sha256 (fips_sha256 [1, 2])"
  using Hash_correct [of "replicate 64 0" "[1]" "[2]"] by simp

end
