(* ===== verification/SipHash.thy ===== *)
theory SipHash
  imports Bytes
begin

text \<open>
  The keyed and the unkeyed table hashes of \<^verbatim>\<open>src/src/hash.cpp\<close>: SipHash-2-4 as the
  incremental class \<open>CSipHasher\<close>, its two specialisations for transaction ids, and
  \<open>MurmurHash3\<close>. The specialisations agree with the class, as \<^verbatim>\<open>src/src/hash.h\<close> says, and the
  two writers of the class agree on 64-bit words.
\<close>

section \<open>SipHash\<close>

definition ROTL :: "u64 \<Rightarrow> nat \<Rightarrow> u64" where
  "ROTL x b = push_bit b x OR drop_bit (64 - b) x"

type_synonym sip_regs = "u64 \<times> u64 \<times> u64 \<times> u64"

definition SIPROUND :: "sip_regs \<Rightarrow> sip_regs" where
  "SIPROUND r =
     (let (v0, v1, v2, v3) = r;
          v0 = v0 + v1; v1 = ROTL v1 13; v1 = v1 XOR v0;
          v0 = ROTL v0 32;
          v2 = v2 + v3; v3 = ROTL v3 16; v3 = v3 XOR v2;
          v0 = v0 + v3; v3 = ROTL v3 21; v3 = v3 XOR v0;
          v2 = v2 + v1; v1 = ROTL v1 17; v1 = v1 XOR v2;
          v2 = ROTL v2 32
      in (v0, v1, v2, v3))"

text \<open>\<open>v0 ^= d\<close>, \<open>v2 ^= d\<close> and \<open>v3 ^= d\<close>.\<close>

fun xor_v0 :: "u64 \<Rightarrow> sip_regs \<Rightarrow> sip_regs" where
  "xor_v0 d (v0, v1, v2, v3) = (v0 XOR d, v1, v2, v3)"

fun xor_v2 :: "u64 \<Rightarrow> sip_regs \<Rightarrow> sip_regs" where
  "xor_v2 d (v0, v1, v2, v3) = (v0, v1, v2 XOR d, v3)"

fun xor_v3 :: "u64 \<Rightarrow> sip_regs \<Rightarrow> sip_regs" where
  "xor_v3 d (v0, v1, v2, v3) = (v0, v1, v2, v3 XOR d)"

fun xor_all :: "sip_regs \<Rightarrow> u64" where
  "xor_all (v0, v1, v2, v3) = v0 XOR v1 XOR v2 XOR v3"

text \<open>\<open>count\<close> is an \<open>int\<close>; hashing \<open>2\<^sup>3\<^sup>1\<close> bytes or more overflows it, which C++ leaves undefined.\<close>

record CSipHasher =
  sip_v :: sip_regs
  sip_tmp :: u64
  sip_count :: nat

definition CSipHasher_ctor :: "u64 \<Rightarrow> u64 \<Rightarrow> CSipHasher" where
  "CSipHasher_ctor k0 k1 =
     \<lparr>sip_v = (0x736f6d6570736575 XOR k0, 0x646f72616e646f6d XOR k1,
               0x6c7967656e657261 XOR k0, 0x7465646279746573 XOR k1),
      sip_tmp = 0, sip_count = 0\<rparr>"

text \<open>\<open>Write(uint64_t)\<close>: \<open>None\<close> is the failed assertion \<open>count % 8 == 0\<close>.\<close>

definition CSipHasher_Write64 :: "CSipHasher \<Rightarrow> u64 \<Rightarrow> CSipHasher option" where
  "CSipHasher_Write64 h data =
     (if sip_count h mod 8 \<noteq> 0 then None
      else let v = xor_v3 data (sip_v h); v = SIPROUND v; v = SIPROUND v; v = xor_v0 data v
           in Some (h\<lparr>sip_v := v, sip_count := sip_count h + 8\<rparr>))"

fun CSipHasher_Write :: "CSipHasher \<Rightarrow> bytes \<Rightarrow> CSipHasher" where
  "CSipHasher_Write h [] = h"
| "CSipHasher_Write h (b # data) =
     (let t = sip_tmp h OR push_bit (8 * (sip_count h mod 8)) (ucast b);
          c = sip_count h + 1
      in if c mod 8 = 0
         then let v = xor_v3 t (sip_v h); v = SIPROUND v; v = SIPROUND v; v = xor_v0 t v
              in CSipHasher_Write \<lparr>sip_v = v, sip_tmp = 0, sip_count = c\<rparr> data
         else CSipHasher_Write (h\<lparr>sip_tmp := t, sip_count := c\<rparr>) data)"

definition CSipHasher_Finalize :: "CSipHasher \<Rightarrow> u64" where
  "CSipHasher_Finalize h =
     (let t = sip_tmp h OR push_bit 56 (of_nat (sip_count h));
          v = xor_v3 t (sip_v h); v = SIPROUND v; v = SIPROUND v; v = xor_v0 t v;
          v = xor_v2 0xFF v;
          v = SIPROUND v; v = SIPROUND v; v = SIPROUND v; v = SIPROUND v
      in xor_all v)"

definition SipHashUint256 :: "u64 \<Rightarrow> u64 \<Rightarrow> uint256 \<Rightarrow> u64" where
  "SipHashUint256 k0 k1 val =
     (let d = GetUint64 val 0;
          v = (0x736f6d6570736575 XOR k0, 0x646f72616e646f6d XOR k1,
               0x6c7967656e657261 XOR k0, 0x7465646279746573 XOR k1 XOR d);
          v = SIPROUND v; v = SIPROUND v; v = xor_v0 d v;
          d = GetUint64 val 1; v = xor_v3 d v; v = SIPROUND v; v = SIPROUND v; v = xor_v0 d v;
          d = GetUint64 val 2; v = xor_v3 d v; v = SIPROUND v; v = SIPROUND v; v = xor_v0 d v;
          d = GetUint64 val 3; v = xor_v3 d v; v = SIPROUND v; v = SIPROUND v; v = xor_v0 d v;
          v = xor_v3 (push_bit 59 4) v; v = SIPROUND v; v = SIPROUND v; v = xor_v0 (push_bit 59 4) v;
          v = xor_v2 0xFF v;
          v = SIPROUND v; v = SIPROUND v; v = SIPROUND v; v = SIPROUND v
      in xor_all v)"

definition SipHashUint256Extra :: "u64 \<Rightarrow> u64 \<Rightarrow> uint256 \<Rightarrow> u32 \<Rightarrow> u64" where
  "SipHashUint256Extra k0 k1 val extra =
     (let d = GetUint64 val 0;
          v = (0x736f6d6570736575 XOR k0, 0x646f72616e646f6d XOR k1,
               0x6c7967656e657261 XOR k0, 0x7465646279746573 XOR k1 XOR d);
          v = SIPROUND v; v = SIPROUND v; v = xor_v0 d v;
          d = GetUint64 val 1; v = xor_v3 d v; v = SIPROUND v; v = SIPROUND v; v = xor_v0 d v;
          d = GetUint64 val 2; v = xor_v3 d v; v = SIPROUND v; v = SIPROUND v; v = xor_v0 d v;
          d = GetUint64 val 3; v = xor_v3 d v; v = SIPROUND v; v = SIPROUND v; v = xor_v0 d v;
          d = push_bit 56 36 OR ucast extra; v = xor_v3 d v; v = SIPROUND v; v = SIPROUND v; v = xor_v0 d v;
          v = xor_v2 0xFF v;
          v = SIPROUND v; v = SIPROUND v; v = SIPROUND v; v = SIPROUND v
      in xor_all v)"

section \<open>MurmurHash3\<close>

definition ROTL32 :: "u32 \<Rightarrow> nat \<Rightarrow> u32" where
  "ROTL32 x r = push_bit r x OR drop_bit (32 - r) x"

definition murmur_scramble :: "u32 \<Rightarrow> u32" where
  "murmur_scramble k1 = ROTL32 (k1 * 0xcc9e2d51) 15 * 0x1b873593"

fun murmur_body :: "nat \<Rightarrow> u32 \<Rightarrow> bytes \<Rightarrow> u32" where
  "murmur_body 0 h1 blocks = h1"
| "murmur_body (Suc n) h1 blocks =
     murmur_body n (ROTL32 (h1 XOR murmur_scramble (ReadLE32 blocks)) 13 * 5 + 0xe6546b64) (drop 4 blocks)"

text \<open>The \<open>switch\<close> on the number of trailing bytes falls through from 3 to 1.\<close>

definition murmur_tail :: "u32 \<Rightarrow> bytes \<Rightarrow> u32" where
  "murmur_tail h1 tail =
     (let n = length tail;
          k1 = (if n = 3 then push_bit 16 (ucast (tail ! 2)) else 0);
          k1 = (if n = 3 \<or> n = 2 then k1 XOR push_bit 8 (ucast (tail ! 1)) else k1)
      in if n = 3 \<or> n = 2 \<or> n = 1 then h1 XOR murmur_scramble (k1 XOR ucast (tail ! 0)) else h1)"

definition MurmurHash3 :: "u32 \<Rightarrow> bytes \<Rightarrow> u32" where
  "MurmurHash3 nHashSeed vDataToHash =
     (let nblocks = length vDataToHash div 4;
          h1 = murmur_body nblocks nHashSeed vDataToHash;
          h1 = murmur_tail h1 (drop (nblocks * 4) vDataToHash);
          h1 = h1 XOR of_nat (length vDataToHash);
          h1 = h1 XOR drop_bit 16 h1;
          h1 = h1 * 0x85ebca6b;
          h1 = h1 XOR drop_bit 13 h1;
          h1 = h1 * 0xc2b2ae35;
          h1 = h1 XOR drop_bit 16 h1
      in h1)"

definition sip_compress :: "u64 \<Rightarrow> sip_regs \<Rightarrow> sip_regs" where
  "sip_compress d v = xor_v0 d (SIPROUND (SIPROUND (xor_v3 d v)))"

lemma Write64_compress:
  "sip_count h mod 8 = 0 \<Longrightarrow>
     CSipHasher_Write64 h d = Some (h\<lparr>sip_v := sip_compress d (sip_v h), sip_count := sip_count h + 8\<rparr>)"
  by (simp add: CSipHasher_Write64_def sip_compress_def Let_def)

text \<open>One byte of \<open>Write\<close>, by its place in the 64-bit word.\<close>

lemma Write_byte:
  assumes "sip_count h = 8 * q + i" and "i < 7"
  shows "CSipHasher_Write h (b # data) =
    CSipHasher_Write (h\<lparr>sip_tmp := sip_tmp h OR push_bit (8 * i) (ucast b), sip_count := 8 * q + (i + 1)\<rparr>) data"
proof -
  have "(8 * q + i) mod 8 = i" "(8 * q + i + 1) mod 8 \<noteq> 0"
    using assms(2) by (simp_all add: add.assoc)
  then show ?thesis using assms(1) by (simp add: Let_def)
qed

lemma Write_last_byte:
  assumes "sip_count h = 8 * q + 7"
  shows "CSipHasher_Write h (b # data) =
    CSipHasher_Write (\<lparr>sip_v = sip_compress (sip_tmp h OR push_bit 56 (ucast b)) (sip_v h), sip_tmp = 0,
      sip_count = 8 * q + 8\<rparr>) data"
proof -
  have "(8 * q + 7) mod 8 = 7" "(8 * q + 7 + 1) mod 8 = 0" by simp_all
  then show ?thesis using assms by (simp add: Let_def sip_compress_def add.commute)
qed

lemma list8: "length bs = 8 \<Longrightarrow> \<exists>b0 b1 b2 b3 b4 b5 b6 b7. bs = [b0, b1, b2, b3, b4, b5, b6, b7]"
  by (auto simp: numeral_eq_Suc length_Suc_conv)

lemma list4: "length bs = 4 \<Longrightarrow> \<exists>b0 b1 b2 b3. bs = [b0, b1, b2, b3]"
  by (auto simp: numeral_eq_Suc length_Suc_conv)

lemma Write_word:
  assumes "sip_count h = 8 * q" and "sip_tmp h = 0" and "length bs = 8"
  shows "CSipHasher_Write h (bs @ data) =
    CSipHasher_Write (h\<lparr>sip_v := sip_compress (ReadLE64 bs) (sip_v h), sip_count := sip_count h + 8\<rparr>) data"
proof -
  obtain b0 b1 b2 b3 b4 b5 b6 b7 where bs: "bs = [b0, b1, b2, b3, b4, b5, b6, b7]"
    using list8 [OF assms(3)] by blast
  have "ReadLE64 bs = GetUint64 bs 0" using GetUint64_ReadLE64 [of 0 bs] assms(3) by simp
  also have "\<dots> = ucast b0 OR push_bit 8 (ucast b1) OR push_bit 16 (ucast b2) OR
         push_bit 24 (ucast b3) OR push_bit 32 (ucast b4) OR push_bit 40 (ucast b5) OR
         push_bit 48 (ucast b6) OR push_bit 56 (ucast b7)"
    by (simp add: GetUint64_def bs)
  finally have R: "ReadLE64 bs = \<dots>" .
  show ?thesis
    unfolding R unfolding bs
    using assms(1,2) by (cases h) (simp add: Write_byte [of _ q 0] Write_byte [of _ q 1] Write_byte [of _ q 2] Write_byte [of _ q 3]
      Write_byte [of _ q 4] Write_byte [of _ q 5] Write_byte [of _ q 6] Write_last_byte [of _ q] or.assoc
      del: CSipHasher_Write.simps(2))
qed

lemma Write_append: "CSipHasher_Write h (xs @ ys) = CSipHasher_Write (CSipHasher_Write h xs) ys"
  by (induction h xs rule: CSipHasher_Write.induct) (simp_all add: Let_def)

lemma Write_half_word:
  assumes "sip_count h = 8 * q" and "sip_tmp h = 0"
  shows "CSipHasher_Write h (WriteLE32 x) = h\<lparr>sip_tmp := ucast x, sip_count := sip_count h + 4\<rparr>"
proof -
  obtain b0 b1 b2 b3 where bs: "WriteLE32 x = [b0, b1, b2, b3]" using list4 [of "WriteLE32 x"] by auto
  have c: "of_nat (unat b) = (ucast b :: u64)" for b :: u8 by simp
  have "unat x = le_nat (WriteLE32 x)"
    using u32_bound_bytes [of x] by (simp add: WriteLE32_def le_nat_bytes)
  moreover have "ucast x = (of_nat (unat x) :: u64)" by simp
  ultimately have "ucast x = (of_nat (le_nat [b0, b1, b2, b3]) :: u64)" by (simp only: bs)
  also have "\<dots> = ucast b0 OR push_bit 8 (ucast b1) OR push_bit 16 (ucast b2) OR push_bit 24 (ucast b3)"
    by (simp only: le_nat_Cons_or le_nat.simps(1) of_nat_or_eq of_nat_push_bit c push_bit_or push_bit_push_bit) simp
  finally have R: "ucast x = ucast b0 OR push_bit 8 (ucast b1) OR push_bit 16 (ucast b2) OR push_bit 24 (ucast b3 :: u64)" .
  show ?thesis
    unfolding R unfolding bs
    using assms by (simp add: Write_byte [of _ q 0] Write_byte [of _ q 1] Write_byte [of _ q 2] Write_byte [of _ q 3]
      or.assoc del: CSipHasher_Write.simps(2))
qed

definition sip_write4 :: "u64 \<Rightarrow> u64 \<Rightarrow> uint256 \<Rightarrow> CSipHasher option" where
  "sip_write4 k0 k1 val =
     Option.bind (CSipHasher_Write64 (CSipHasher_ctor k0 k1) (GetUint64 val 0)) (\<lambda>h.
     Option.bind (CSipHasher_Write64 h (GetUint64 val 1)) (\<lambda>h.
     Option.bind (CSipHasher_Write64 h (GetUint64 val 2)) (\<lambda>h.
     CSipHasher_Write64 h (GetUint64 val 3))))"

lemma xor_assoc_v3: "xor_v3 d (a, b, c, e) = (a, b, c, e XOR d)" by simp

lemma sip_write4_val:
  "sip_write4 k0 k1 val = Some ((CSipHasher_ctor k0 k1)
      \<lparr>sip_v := sip_compress (GetUint64 val 3) (sip_compress (GetUint64 val 2)
        (sip_compress (GetUint64 val 1) (sip_compress (GetUint64 val 0) (sip_v (CSipHasher_ctor k0 k1))))),
       sip_count := 32\<rparr>)"
  by (simp add: sip_write4_def Write64_compress CSipHasher_ctor_def)

text \<open>
  The specialised \<open>SipHashUint256\<close> returns what \<open>CSipHasher\<close> returns after the four
  64-bit words of the value, as the comment in \<^verbatim>\<open>src/src/hash.h\<close> says.
\<close>
theorem SipHashUint256_composed:
  "map_option CSipHasher_Finalize (sip_write4 k0 k1 val) = Some (SipHashUint256 k0 k1 val)"
proof -
  have "push_bit 59 4 = (push_bit 56 32 :: u64)" by simp
  then show ?thesis
    unfolding sip_write4_val
    by (simp add: CSipHasher_Finalize_def SipHashUint256_def Let_def sip_compress_def CSipHasher_ctor_def xor.assoc)
qed

text \<open>
  \<open>SipHashUint256Extra\<close> returns what \<open>CSipHasher\<close> returns after the four words of the value
  and the four little-endian bytes of the extra integer.
\<close>
theorem SipHashUint256Extra_composed:
  "map_option (\<lambda>h. CSipHasher_Finalize (CSipHasher_Write h (WriteLE32 extra))) (sip_write4 k0 k1 val) =
     Some (SipHashUint256Extra k0 k1 val extra)"
  unfolding sip_write4_val
  by (simp add: Write_half_word [of _ 4] CSipHasher_Finalize_def SipHashUint256Extra_def Let_def
      sip_compress_def CSipHasher_ctor_def xor.assoc or.commute)

end
