(* ===== verification/Merkle.thy ===== *)
theory Merkle
  imports Sha256
begin

text \<open>
  \<^verbatim>\<open>src/src/consensus/merkle.cpp\<close>: the constant-space calculation of Merkle roots and branches.
  The combination of two hashes is a parameter \<open>H\<close> of the loops; the functions that the rest
  of the program calls use double SHA-256. The reference is the level-by-level tree in which an
  odd last entry is paired with itself.
\<close>

section \<open>The calculation\<close>

text \<open>
  Both loops that combine a stored subtree with the current one record a branch entry first:
  the stored hash when the current one depends on the matching leaf, and the current one when the
  stored one does. The result is the new \<open>matchh\<close> and \<open>pbranch\<close>.
\<close>

definition branch_step :: "bool \<Rightarrow> int \<Rightarrow> nat \<Rightarrow> 'h \<Rightarrow> 'h \<Rightarrow> bool \<Rightarrow> 'h list \<Rightarrow> bool \<times> 'h list" where
  "branch_step pbranch matchlevel level stored h matchh branch =
     (if pbranch then
        if matchh then (matchh, branch @ [stored])
        else if matchlevel = int level then (True, branch @ [h])
        else (matchh, branch)
      else (matchh, branch))"

text \<open>
  The inner loop over the low zero bits of \<open>count\<close>. A shift by 32 is undefined in C++, and then
  the result is \<open>None\<close>. The result holds \<open>level\<close>, \<open>h\<close>, \<open>matchh\<close>, \<open>mutated\<close> and the branch.
\<close>

function leaf_loop :: "('h \<Rightarrow> 'h \<Rightarrow> 'h) \<Rightarrow> bool \<Rightarrow> int \<Rightarrow> 'h list \<Rightarrow> nat \<Rightarrow> nat \<Rightarrow> 'h \<Rightarrow> bool \<Rightarrow> bool \<Rightarrow> 'h list \<Rightarrow>
    (nat \<times> 'h \<times> bool \<times> bool \<times> 'h list) option" where
  "leaf_loop H pbranch matchlevel inner count level h matchh mutated branch =
     (if level \<ge> 32 then None
      else if bit count level then Some (level, h, matchh, mutated, branch)
      else let (matchh, branch) = branch_step pbranch matchlevel level (inner ! level) h matchh branch
           in leaf_loop H pbranch matchlevel inner count (level + 1) (H (inner ! level) h) matchh
                (mutated \<or> inner ! level = h) branch)"
  by pat_completeness auto
termination
  by (relation "measure (\<lambda>(H, pb, ml, inner, count, level, h, mh, mu, br). 32 - level)") auto

declare leaf_loop.simps [simp del]

text \<open>
  The loop over the leaves: \<open>count\<close> counts the leaves processed and wraps at 32 bits. The state
  is \<open>inner\<close>, \<open>matchlevel\<close>, \<open>mutated\<close> and the branch.
\<close>

fun leaves_loop :: "('h \<Rightarrow> 'h \<Rightarrow> 'h) \<Rightarrow> bool \<Rightarrow> nat \<Rightarrow> 'h list \<Rightarrow> nat \<Rightarrow> 'h list \<Rightarrow> int \<Rightarrow> bool \<Rightarrow> 'h list \<Rightarrow>
    (nat \<times> 'h list \<times> int \<times> bool \<times> 'h list) option" where
  "leaves_loop H pbranch branchpos [] count inner matchlevel mutated branch =
     Some (count, inner, matchlevel, mutated, branch)"
| "leaves_loop H pbranch branchpos (leaf # leaves) count inner matchlevel mutated branch =
     (case leaf_loop H pbranch matchlevel inner ((count + 1) mod 2 ^ 32) 0 leaf (count = branchpos) mutated branch of
        None \<Rightarrow> None
      | Some (level, h, matchh, mutated, branch) \<Rightarrow>
          leaves_loop H pbranch branchpos leaves ((count + 1) mod 2 ^ 32) (inner[level := h])
            (if matchh then int level else matchlevel) mutated branch)"

text \<open>The lowest set bit of \<open>count\<close>.\<close>

function skip_level :: "nat \<Rightarrow> nat \<Rightarrow> nat option" where
  "skip_level count level =
     (if level \<ge> 32 then None else if bit count level then Some level else skip_level count (level + 1))"
  by pat_completeness auto
termination
  by (relation "measure (\<lambda>(count, level). 32 - level)") auto

declare skip_level.simps [simp del]

function propagate_loop :: "('h \<Rightarrow> 'h \<Rightarrow> 'h) \<Rightarrow> bool \<Rightarrow> int \<Rightarrow> 'h list \<Rightarrow> nat \<Rightarrow> nat \<Rightarrow> 'h \<Rightarrow> bool \<Rightarrow> 'h list \<Rightarrow>
    (nat \<times> 'h \<times> bool \<times> 'h list) option" where
  "propagate_loop H pbranch matchlevel inner count level h matchh branch =
     (if level \<ge> 32 then None
      else if bit count level then Some (level, h, matchh, branch)
      else let (matchh, branch) = branch_step pbranch matchlevel level (inner ! level) h matchh branch
           in propagate_loop H pbranch matchlevel inner count (level + 1) (H (inner ! level) h) matchh branch)"
  by pat_completeness auto
termination
  by (relation "measure (\<lambda>(H, pb, ml, inner, count, level, h, mh, br). 32 - level)") auto

declare propagate_loop.simps [simp del]

text \<open>The final sweep. Every iteration raises \<open>level\<close>, so 32 of them are enough fuel.\<close>

fun sweep_loop :: "nat \<Rightarrow> ('h \<Rightarrow> 'h \<Rightarrow> 'h) \<Rightarrow> bool \<Rightarrow> int \<Rightarrow> 'h list \<Rightarrow> nat \<Rightarrow> nat \<Rightarrow> 'h \<Rightarrow> bool \<Rightarrow> 'h list \<Rightarrow>
    ('h \<times> 'h list) option" where
  "sweep_loop 0 H pbranch matchlevel inner count level h matchh branch = None"
| "sweep_loop (Suc fuel) H pbranch matchlevel inner count level h matchh branch =
     (if count = 2 ^ level then Some (h, branch)
      else let branch = (if pbranch \<and> matchh then branch @ [h] else branch);
               count = (count + 2 ^ level) mod 2 ^ 32
           in case propagate_loop H pbranch matchlevel inner count (level + 1) (H h h) matchh branch of
                None \<Rightarrow> None
              | Some (level, h, matchh, branch) \<Rightarrow>
                  sweep_loop fuel H pbranch matchlevel inner count level h matchh branch)"

text \<open>
  \<open>MerkleComputation\<close> returns \<open>*proot\<close>, \<open>*pmutated\<close> and \<open>*pbranch\<close>; \<open>null\<close> is the value of a
  default-constructed hash, which also fills \<open>inner\<close> at first.
\<close>

definition MerkleComputation :: "('h \<Rightarrow> 'h \<Rightarrow> 'h) \<Rightarrow> 'h \<Rightarrow> 'h list \<Rightarrow> nat \<Rightarrow> bool \<Rightarrow> ('h \<times> bool \<times> 'h list) option" where
  "MerkleComputation H null leaves branchpos pbranch =
     (if leaves = [] then Some (null, False, [])
      else case leaves_loop H pbranch branchpos leaves 0 (replicate 32 null) (- 1) False [] of
        None \<Rightarrow> None
      | Some (count, inner, matchlevel, mutated, branch) \<Rightarrow>
          (case skip_level count 0 of
             None \<Rightarrow> None
           | Some level \<Rightarrow>
               (case sweep_loop 33 H pbranch matchlevel inner count level (inner ! level)
                       (matchlevel = int level) branch of
                  None \<Rightarrow> None
                | Some (h, branch) \<Rightarrow> Some (h, mutated, branch))))"

definition ComputeMerkleRoot :: "('h \<Rightarrow> 'h \<Rightarrow> 'h) \<Rightarrow> 'h \<Rightarrow> 'h list \<Rightarrow> ('h \<times> bool) option" where
  "ComputeMerkleRoot H null leaves =
     map_option (\<lambda>(root, mutated, branch). (root, mutated)) (MerkleComputation H null leaves (2 ^ 32 - 1) False)"

definition ComputeMerkleBranch :: "('h \<Rightarrow> 'h \<Rightarrow> 'h) \<Rightarrow> 'h \<Rightarrow> 'h list \<Rightarrow> nat \<Rightarrow> 'h list option" where
  "ComputeMerkleBranch H null leaves position =
     map_option (\<lambda>(root, mutated, branch). branch) (MerkleComputation H null leaves position True)"

fun ComputeMerkleRootFromBranch :: "('h \<Rightarrow> 'h \<Rightarrow> 'h) \<Rightarrow> 'h \<Rightarrow> 'h list \<Rightarrow> nat \<Rightarrow> 'h" where
  "ComputeMerkleRootFromBranch H hash [] nIndex = hash"
| "ComputeMerkleRootFromBranch H hash (s # branch) nIndex =
     ComputeMerkleRootFromBranch H (if odd nIndex then H s hash else H hash s) branch (nIndex div 2)"

text \<open>The hash of two blobs that the callers use.\<close>

definition merkle_hash :: "uint256 \<Rightarrow> uint256 \<Rightarrow> uint256" where
  "merkle_hash a b = Hash2 (replicate 64 0) a b"

section \<open>The tree\<close>

fun merkle_level :: "('h \<Rightarrow> 'h \<Rightarrow> 'h) \<Rightarrow> 'h list \<Rightarrow> 'h list" where
  "merkle_level H (x # y # xs) = H x y # merkle_level H xs"
| "merkle_level H [x] = [H x x]"
| "merkle_level H [] = []"

lemma merkle_level_length: "length (merkle_level H xs) = (length xs + 1) div 2"
  by (induction H xs rule: merkle_level.induct) simp_all

function merkle_root :: "('h \<Rightarrow> 'h \<Rightarrow> 'h) \<Rightarrow> 'h \<Rightarrow> 'h list \<Rightarrow> 'h" where
  "merkle_root H null [] = null"
| "merkle_root H null [x] = x"
| "merkle_root H null (x # y # xs) = merkle_root H null (merkle_level H (x # y # xs))"
  by pat_completeness auto
termination
  by (relation "measure (\<lambda>(H, null, xs). length xs)") (auto simp: merkle_level_length)

text \<open>
  The pairs of equal siblings that \<open>mutated\<close> reports: those of complete subtrees, which have a
  power of two leaves each.
\<close>

fun full_level :: "('h \<Rightarrow> 'h \<Rightarrow> 'h) \<Rightarrow> 'h list \<Rightarrow> 'h list" where
  "full_level H (x # y # xs) = H x y # full_level H xs"
| "full_level H xs = []"

fun equal_pair :: "'h list \<Rightarrow> bool" where
  "equal_pair (x # y # xs) = (x = y \<or> equal_pair xs)"
| "equal_pair xs = False"

lemma full_level_length: "length (full_level H xs) = length xs div 2"
  by (induction H xs rule: full_level.induct) simp_all

function merkle_mutated :: "('h \<Rightarrow> 'h \<Rightarrow> 'h) \<Rightarrow> 'h list \<Rightarrow> bool" where
  "merkle_mutated H [] = False"
| "merkle_mutated H (x # xs) = (equal_pair (x # xs) \<or> merkle_mutated H (full_level H (x # xs)))"
  by pat_completeness auto
termination
  by (relation "measure (\<lambda>(H, xs). length xs)") (auto simp: full_level_length)

section \<open>Nodes by level and index\<close>

fun full_node :: "('h \<Rightarrow> 'h \<Rightarrow> 'h) \<Rightarrow> 'h list \<Rightarrow> nat \<Rightarrow> nat \<Rightarrow> 'h" where
  "full_node H xs 0 i = xs ! i"
| "full_node H xs (Suc L) i = H (full_node H xs L (2 * i)) (full_node H xs L (2 * i + 1))"

fun level_size :: "nat \<Rightarrow> nat \<Rightarrow> nat" where
  "level_size n 0 = n"
| "level_size n (Suc L) = (level_size n L + 1) div 2"

fun tree_node :: "('h \<Rightarrow> 'h \<Rightarrow> 'h) \<Rightarrow> 'h list \<Rightarrow> nat \<Rightarrow> nat \<Rightarrow> 'h" where
  "tree_node H xs 0 i = xs ! i"
| "tree_node H xs (Suc L) i = H (tree_node H xs L (2 * i))
     (tree_node H xs L (if 2 * i + 1 < level_size (length xs) L then 2 * i + 1 else 2 * i))"

lemma merkle_level_nth:
  "i < (length xs + 1) div 2 \<Longrightarrow>
     merkle_level H xs ! i = H (xs ! (2 * i)) (xs ! (if 2 * i + 1 < length xs then 2 * i + 1 else 2 * i))"
proof (induction H xs arbitrary: i rule: merkle_level.induct)
  case (1 H x y xs)
  then show ?case by (cases i) auto
qed auto

lemma level_iterate:
  "(merkle_level H ^^ L) xs = map (tree_node H xs L) [0..<level_size (length xs) L]"
proof (induction L)
  case 0
  then show ?case by (simp add: map_nth)
next
  case (Suc L)
  let ?ys = "(merkle_level H ^^ L) xs"
  have l: "length ?ys = level_size (length xs) L" by (simp add: Suc)
  show ?case
  proof (rule nth_equalityI)
    fix i
    assume "i < length ((merkle_level H ^^ Suc L) xs)"
    then have i: "i < (level_size (length xs) L + 1) div 2" by (simp add: merkle_level_length l)
    then have "2 * i < level_size (length xs) L" by linarith
    moreover have "merkle_level H ?ys ! i =
       H (?ys ! (2 * i)) (?ys ! (if 2 * i + 1 < level_size (length xs) L then 2 * i + 1 else 2 * i))"
      using merkle_level_nth [of i ?ys H] i l by simp
    ultimately show "(merkle_level H ^^ Suc L) xs ! i = map (tree_node H xs (Suc L)) [0..<level_size (length xs) (Suc L)] ! i"
      using i by (simp add: Suc)
  qed (simp add: merkle_level_length l)
qed

lemma merkle_root_levels:
  "\<forall>k < L. 2 \<le> level_size (length xs) k \<Longrightarrow> merkle_root H null ((merkle_level H ^^ L) xs) = merkle_root H null xs"
proof (induction L)
  case (Suc L)
  let ?ys = "(merkle_level H ^^ L) xs"
  have "2 \<le> length ?ys" using Suc.prems by (simp add: level_iterate)
  then obtain x y zs where ys: "?ys = x # y # zs" by (metis One_nat_def Suc_le_length_iff numeral_2_eq_2)
  have "merkle_root H null ?ys = merkle_root H null (merkle_level H ?ys)"
    by (simp add: ys)
  then show ?case using Suc by simp
qed simp

lemma level_size_mono: "level_size n (L + k) \<le> level_size n L"
  by (induction k) simp_all

lemma level_size_pos: "0 < n \<Longrightarrow> 0 < level_size n L"
  by (induction L) simp_all

lemma merkle_root_node:
  assumes "level_size (length xs) L = 1" and "\<forall>k < L. 2 \<le> level_size (length xs) k"
  shows "merkle_root H null xs = tree_node H xs L 0"
  using merkle_root_levels [OF assms(2), of H null] assms(1)
  by (simp add: level_iterate)

lemma tree_node_full: "(i + 1) * 2 ^ L \<le> length xs \<Longrightarrow> tree_node H xs L i = full_node H xs L i"
proof (induction L arbitrary: i)
  case (Suc L)
  have sz: "length xs \<le> level_size (length xs) L * 2 ^ L" for L
  proof (induction L)
    case (Suc L)
    have "level_size (length xs) L \<le> 2 * level_size (length xs) (Suc L)" by simp
    then have "level_size (length xs) L * 2 ^ L \<le> 2 * level_size (length xs) (Suc L) * 2 ^ L" by (rule mult_le_mono1)
    with Suc have "length xs \<le> 2 * level_size (length xs) (Suc L) * 2 ^ L" by (rule le_trans)
    then show ?case by (simp only: power_Suc ac_simps)
  qed simp
  have le: "(2 * i + 1 + 1) * 2 ^ L \<le> length xs" using Suc.prems by (simp add: algebra_simps)
  then have "(2 * i + 1 + 1) * 2 ^ L \<le> level_size (length xs) L * 2 ^ L" using sz [of L] by (rule le_trans)
  then have "2 * i + 1 + 1 \<le> level_size (length xs) L" by (simp only: mult_le_cancel2) simp
  then have "2 * i + 1 < level_size (length xs) L" by simp
  moreover have "(2 * i + 1) * 2 ^ L \<le> length xs" using le by (simp add: algebra_simps)
  ultimately show ?case using Suc.IH [OF le] Suc.IH [of "2 * i"] by simp
qed simp

section \<open>Counters\<close>

lemma pred_div: "Suc n = 2 ^ l * m \<Longrightarrow> 0 < m \<Longrightarrow> n div 2 ^ l = m - 1"
proof (rule div_nat_eqI)
  assume e: "Suc n = 2 ^ l * m" and m: "0 < m"
  have "2 ^ l * m = 2 ^ l * (m - 1) + 2 ^ l" using m by (cases m) simp_all
  moreover have "0 < (2 :: nat) ^ l" by simp
  ultimately show "2 ^ l * (m - 1) \<le> n" using e by linarith
  show "n < 2 ^ l * Suc (m - 1)" using e m by (simp flip: e)
qed

lemma count_carry:
  assumes "2 ^ l dvd Suc n" and "\<not> bit (Suc n) l"
  shows "2 ^ Suc l dvd Suc n" and "bit n l" and "n div 2 ^ l = Suc n div 2 ^ l - 1" and "2 \<le> Suc n div 2 ^ l"
    and "Suc n div 2 ^ Suc l = Suc n div 2 ^ l div 2" and "even (Suc n div 2 ^ l)"
proof -
  obtain m where m: "Suc n = 2 ^ l * m" using assms(1) by (auto elim: dvdE)
  then have m0: "0 < m" by (cases m) auto
  have q: "Suc n div 2 ^ l = m" using m by simp
  have ev: "even m" using assms(2) q by (simp add: bit_iff_odd)
  then show "even (Suc n div 2 ^ l)" by (simp only: q)
  show "2 \<le> Suc n div 2 ^ l" using ev m0 q by (auto elim!: evenE)
  have nd: "n div 2 ^ l = m - 1" using m m0 by (rule pred_div)
  then show "n div 2 ^ l = Suc n div 2 ^ l - 1" by (simp only: q)
  show "bit n l" using ev m0 by (simp add: bit_iff_odd nd)
  show "2 ^ Suc l dvd Suc n" using ev m by (auto elim!: evenE)
  show "Suc n div 2 ^ Suc l = Suc n div 2 ^ l div 2" by (simp add: div_mult2_eq [symmetric] mult.commute)
qed

lemma dvd_no_bit:
  assumes "2 ^ k dvd (N :: nat)" and "b < k"
  shows "\<not> bit N b"
proof -
  obtain d where d: "k = Suc (b + d)" using less_imp_Suc_add [OF assms(2)] by auto
  obtain m where "N = 2 ^ k * m" using assms(1) by (auto elim: dvdE)
  then have "N = 2 ^ b * (2 * (2 ^ d * m))" using d by (simp add: power_add algebra_simps)
  then have "N div 2 ^ b = 2 * (2 ^ d * m)" by simp
  then show ?thesis by (simp add: bit_iff_odd)
qed

lemma count_stop:
  assumes "2 ^ l dvd Suc n" and "bit (Suc n) l"
  shows "l < b \<Longrightarrow> Suc n div 2 ^ b = n div 2 ^ b" and "b < l \<Longrightarrow> \<not> bit (Suc n) b"
proof -
  obtain m where m: "Suc n = 2 ^ l * m" using assms(1) by (auto elim: dvdE)
  have odd: "odd m" using assms(2) m by (simp add: bit_iff_odd)
  have "0 < m" using odd by (cases m) auto
  with m have nd: "n div 2 ^ l = m - 1" by (rule pred_div)
  have half: "m div 2 = (m - 1) div 2" using odd by (auto elim!: oddE)
  show "Suc n div 2 ^ b = n div 2 ^ b" if lb: "l < b"
  proof -
    obtain d where b: "b = Suc (l + d)" using less_imp_Suc_add [OF lb] by auto
    have "(2 :: nat) ^ b = 2 ^ l * 2 * 2 ^ d" by (simp add: b power_add)
    then have "x div 2 ^ b = x div 2 ^ l div 2 div 2 ^ d" for x :: nat by (simp only: div_mult2_eq)
    then show ?thesis using m nd half by (metis nonzero_mult_div_cancel_left power_not_zero zero_neq_numeral)
  qed
  show "\<not> bit (Suc n) b" if "b < l" using dvd_no_bit [OF assms(1) that] .
qed

section \<open>The loop over the leaves\<close>

definition inner_ok :: "('h \<Rightarrow> 'h \<Rightarrow> 'h) \<Rightarrow> 'h list \<Rightarrow> nat \<Rightarrow> 'h list \<Rightarrow> bool" where
  "inner_ok H xs n inner \<longleftrightarrow> length inner = 32 \<and>
     (\<forall>b < 32. bit n b \<longrightarrow> inner ! b = full_node H xs b (n div 2 ^ b - 1))"

text \<open>Equal siblings among the complete subtrees of the first \<open>n\<close> leaves.\<close>

definition equal_siblings :: "('h \<Rightarrow> 'h \<Rightarrow> 'h) \<Rightarrow> 'h list \<Rightarrow> nat \<Rightarrow> bool" where
  "equal_siblings H xs n \<longleftrightarrow>
     (\<exists>k i. (2 * i + 2) * 2 ^ k \<le> n \<and> full_node H xs k (2 * i) = full_node H xs k (2 * i + 1))"

text \<open>
  What the branch holds once the matching leaf \<open>p\<close> is below the node \<open>i\<close> of level \<open>l\<close>, whose
  hash is \<open>h\<close>.
\<close>

definition branch_ok :: "('h \<Rightarrow> 'h \<Rightarrow> 'h) \<Rightarrow> 'h list \<Rightarrow> nat \<Rightarrow> nat \<Rightarrow> nat \<Rightarrow> 'h \<Rightarrow> 'h list \<Rightarrow> bool" where
  "branch_ok H xs p l i h branch \<longleftrightarrow>
     p div 2 ^ l = i \<and> length branch = l \<and> ComputeMerkleRootFromBranch H (xs ! p) branch p = h"

lemma RootFromBranch_snoc:
  "ComputeMerkleRootFromBranch H x (branch @ [s]) p =
     (let r = ComputeMerkleRootFromBranch H x branch p
      in if bit p (length branch) then H s r else H r s)"
  by (induction H x branch p rule: ComputeMerkleRootFromBranch.induct) (simp_all add: bit_Suc Let_def bit_0)

lemma branch_ok_right:
  assumes "branch_ok H xs p l (2 * m + 1) h branch"
  shows "branch_ok H xs p (Suc l) m (H s h) (branch @ [s])"
proof -
  have "p div 2 ^ Suc l = m" "bit p l"
    using assms by (simp_all add: branch_ok_def bit_iff_odd div_mult2_eq power_Suc2 del: power_Suc)
  then show ?thesis using assms by (simp add: branch_ok_def RootFromBranch_snoc Let_def)
qed

lemma branch_ok_left:
  assumes "branch_ok H xs p l (2 * m) h branch"
  shows "branch_ok H xs p (Suc l) m (H h s) (branch @ [s])"
proof -
  have "p div 2 ^ Suc l = m" "\<not> bit p l"
    using assms by (simp_all add: branch_ok_def bit_iff_odd div_mult2_eq power_Suc2 del: power_Suc)
  then show ?thesis using assms by (simp add: branch_ok_def RootFromBranch_snoc Let_def)
qed

definition match_ok :: "('h \<Rightarrow> 'h \<Rightarrow> 'h) \<Rightarrow> 'h list \<Rightarrow> nat \<Rightarrow> nat \<Rightarrow> nat \<Rightarrow> int \<Rightarrow> 'h list \<Rightarrow> bool" where
  "match_ok H xs p l n ml br \<longleftrightarrow>
     (if p < n then \<exists>b. l \<le> b \<and> b < 32 \<and> ml = int b \<and> bit n b \<and>
          branch_ok H xs p b (n div 2 ^ b - 1) (full_node H xs b (n div 2 ^ b - 1)) br
      else ml = - 1 \<and> br = [])"

definition match_step :: "('h \<Rightarrow> 'h \<Rightarrow> 'h) \<Rightarrow> 'h list \<Rightarrow> nat \<Rightarrow> nat \<Rightarrow> nat \<Rightarrow> int \<Rightarrow> bool \<Rightarrow> 'h list \<Rightarrow> bool" where
  "match_step H xs p l n ml mh br \<longleftrightarrow>
     (if mh then branch_ok H xs p l (Suc n div 2 ^ l - 1) (full_node H xs l (Suc n div 2 ^ l - 1)) br
      else p \<noteq> n \<and> match_ok H xs p l n ml br)"

lemma match_step_next:
  assumes "match_step H xs p l n ml mh br" and "Suc n div 2 ^ l = 2 * m + 2" and "n div 2 ^ l = 2 * m + 1"
    and "Suc n div 2 ^ Suc l = m + 1"
    and "branch_step True ml l (full_node H xs l (2 * m)) (full_node H xs l (2 * m + 1)) mh br = (mh1, br1)"
  shows "match_step H xs p (Suc l) n ml mh1 br1"
proof (cases mh)
  case True
  then have "branch_ok H xs p l (2 * m + 1) (full_node H xs l (2 * m + 1)) br"
    using assms(1,2) by (simp add: match_step_def)
  from branch_ok_right [OF this, of "full_node H xs l (2 * m)"] show ?thesis
    using assms(4,5) True by (simp add: match_step_def branch_step_def)
next
  case False
  then have M: "match_ok H xs p l n ml br" "p \<noteq> n" using assms(1) by (simp_all add: match_step_def)
  show ?thesis
  proof (cases "ml = int l")
    case True
    then have "p < n" using M by (auto simp: match_ok_def split: if_splits)
    then have "branch_ok H xs p l (2 * m) (full_node H xs l (2 * m)) br"
      using M True assms(3) by (auto simp: match_ok_def)
    from branch_ok_left [OF this, of "full_node H xs l (2 * m + 1)"] show ?thesis
      using assms(4,5) True False by (auto simp: match_step_def branch_step_def)
  next
    case ml: False
    then have "match_ok H xs p (Suc l) n ml br"
      using M by (auto simp: match_ok_def le_eq_less_or_eq split: if_splits)
    then show ?thesis using assms(5) False ml M by (auto simp: match_step_def branch_step_def)
  qed
qed

definition carried_equal :: "('h \<Rightarrow> 'h \<Rightarrow> 'h) \<Rightarrow> 'h list \<Rightarrow> nat \<Rightarrow> nat \<Rightarrow> nat \<Rightarrow> bool" where
  "carried_equal H xs c l l' \<longleftrightarrow>
     (\<exists>k. l \<le> k \<and> k < l' \<and> full_node H xs k (c div 2 ^ k - 2) = full_node H xs k (c div 2 ^ k - 1))"

lemma carried_equal_next:
  "Suc l \<le> l' \<Longrightarrow> carried_equal H xs c l l' \<longleftrightarrow>
     full_node H xs l (c div 2 ^ l - 2) = full_node H xs l (c div 2 ^ l - 1) \<or> carried_equal H xs c (Suc l) l'"
proof -
  assume "Suc l \<le> l'"
  then have *: "l \<le> k \<and> k < l' \<longleftrightarrow> k = l \<or> Suc l \<le> k \<and> k < l'" for k by auto
  show ?thesis unfolding carried_equal_def conj_assoc [symmetric] * by blast
qed

lemma leaf_loop_ok:
  assumes "inner_ok H xs n inner" and "Suc n < 2 ^ 32" and "2 ^ l dvd Suc n" and "l < 32"
    and "h = full_node H xs l (Suc n div 2 ^ l - 1)" and "pb \<Longrightarrow> match_step H xs p l n ml mh br"
  shows "\<exists>l' mh' br'. leaf_loop H pb ml inner (Suc n) l h mh mu br =
     Some (l', full_node H xs l' (Suc n div 2 ^ l' - 1), mh', mu \<or> carried_equal H xs (Suc n) l l', br') \<and>
     l \<le> l' \<and> l' < 32 \<and> bit (Suc n) l' \<and> 2 ^ l' dvd Suc n \<and> (pb \<longrightarrow> match_step H xs p l' n ml mh' br')"
  using assms
proof (induction "32 - l" arbitrary: l h mh mu br)
  case (Suc d)
  show ?case
  proof (cases "bit (Suc n) l")
    case True
    then show ?thesis using Suc.prems by (subst leaf_loop.simps) (auto simp: carried_equal_def)
  next
    case False
    note c = count_carry [OF Suc.prems(3) False]
    have "l \<noteq> 31"
      using c(1) Suc.prems(2) by (auto dest: dvd_imp_le)
    then have l: "Suc l < 32" "d = 32 - Suc l" using Suc.prems(4) Suc.hyps(2) by simp_all
    define m where "m = Suc n div 2 ^ Suc l - 1"
    have q: "Suc n div 2 ^ l = 2 * m + 2" "Suc n div 2 ^ Suc l = m + 1"
      using c(4,5,6) unfolding m_def by (auto elim!: evenE)
    have nq: "n div 2 ^ l = 2 * m + 1" using c(3) q by simp
    have inner: "inner ! l = full_node H xs l (2 * m)"
      using Suc.prems(1,4) c(2) nq by (simp add: inner_ok_def)
    have h: "h = full_node H xs l (2 * m + 1)" using Suc.prems(5) q by simp
    obtain mh1 br1 where b: "branch_step pb ml l (inner ! l) h mh br = (mh1, br1)" by force
    have h1: "H (inner ! l) h = full_node H xs (Suc l) (Suc n div 2 ^ Suc l - 1)"
      unfolding q(2) by (simp add: inner h)
    have M: "pb \<Longrightarrow> match_step H xs p (Suc l) n ml mh1 br1"
      using match_step_next [OF Suc.prems(6) q(1) nq q(2)] b inner h by simp
    obtain l' mh' br' where IH: "leaf_loop H pb ml inner (Suc n) (Suc l) (H (inner ! l) h) mh1 (mu \<or> inner ! l = h) br1 =
       Some (l', full_node H xs l' (Suc n div 2 ^ l' - 1), mh', (mu \<or> inner ! l = h) \<or> carried_equal H xs (Suc n) (Suc l) l', br')"
      "Suc l \<le> l'" "l' < 32" "bit (Suc n) l'" "2 ^ l' dvd Suc n" "pb \<longrightarrow> match_step H xs p l' n ml mh' br'"
      using Suc.hyps(1) [OF l(2) Suc.prems(1,2) c(1) l(1) h1 M] by blast
    have "inner ! l = h \<longleftrightarrow> full_node H xs l (Suc n div 2 ^ l - 2) = full_node H xs l (Suc n div 2 ^ l - 1)"
      by (simp add: q(1) inner h)
    moreover have "leaf_loop H pb ml inner (Suc n) l h mh mu br =
        leaf_loop H pb ml inner (Suc n) (Suc l) (H (inner ! l) h) mh1 (mu \<or> inner ! l = h) br1"
      using False Suc.prems(4) b by (subst leaf_loop.simps) simp
    ultimately show ?thesis
      using IH carried_equal_next [OF IH(2), of H xs "Suc n"] by auto
  qed
qed simp

lemma inner_ok_store:
  assumes "inner_ok H xs n inner" and "2 ^ l dvd Suc n" and "bit (Suc n) l" and "l < 32"
  shows "inner_ok H xs (Suc n) (inner[l := full_node H xs l (Suc n div 2 ^ l - 1)])"
  unfolding inner_ok_def
proof (intro conjI allI impI)
  fix b assume b: "b < 32" "bit (Suc n) b"
  consider "b < l" | "b = l" | "l < b" by linarith
  then show "inner[l := full_node H xs l (Suc n div 2 ^ l - 1)] ! b = full_node H xs b (Suc n div 2 ^ b - 1)"
  proof cases
    case 1
    then show ?thesis using count_stop(2) [OF assms(2,3)] b by blast
  next
    case 2
    then show ?thesis using assms(1) b by (simp add: inner_ok_def)
  next
    case 3
    have "Suc n div 2 ^ b = n div 2 ^ b" by (rule count_stop(1) [OF assms(2,3) 3])
    then show ?thesis using assms(1) b 3 by (simp add: inner_ok_def bit_iff_odd)
  qed
qed (use assms(1) in \<open>simp add: inner_ok_def\<close>)

lemma match_ok_store:
  assumes "match_step H xs p l n ml mh br" and "2 ^ l dvd Suc n" and "bit (Suc n) l" and "l < 32"
  shows "match_ok H xs p 0 (Suc n) (if mh then int l else ml) br"
proof (cases mh)
  case True
  then have B: "branch_ok H xs p l (Suc n div 2 ^ l - 1) (full_node H xs l (Suc n div 2 ^ l - 1)) br"
    using assms(1) by (simp add: match_step_def)
  have "p < Suc n"
  proof (rule ccontr)
    assume "\<not> p < Suc n"
    then have "Suc n div 2 ^ l \<le> p div 2 ^ l" by (simp add: div_le_mono)
    moreover have "Suc n div 2 ^ l \<noteq> 0" using assms(3) by (auto simp: bit_iff_odd intro: ccontr)
    ultimately show False using B by (simp add: branch_ok_def)
  qed
  then show ?thesis using True B assms(3,4) by (auto simp: match_ok_def)
next
  case False
  then have M: "p \<noteq> n" "match_ok H xs p l n ml br" using assms(1) by (simp_all add: match_step_def)
  show ?thesis
  proof (cases "p < n")
    case True
    then obtain b where b: "l \<le> b" "b < 32" "ml = int b" "bit n b"
      "branch_ok H xs p b (n div 2 ^ b - 1) (full_node H xs b (n div 2 ^ b - 1)) br"
      using M by (auto simp: match_ok_def)
    have "b \<noteq> l"
    proof
      assume "b = l"
      moreover obtain k where k: "Suc n = 2 ^ l * k" using assms(2) by (auto elim: dvdE)
      then have "0 < k" by (cases k) auto
      with k have "n div 2 ^ l = k - 1" by (rule pred_div)
      moreover have "odd k" using assms(3) k by (simp add: bit_iff_odd)
      ultimately show False using b(4) by (simp add: bit_iff_odd)
    qed
    then have "Suc n div 2 ^ b = n div 2 ^ b" using b(1) count_stop(1) [OF assms(2,3), of b] by simp
    then show ?thesis using b True False by (auto simp: match_ok_def bit_iff_odd)
  next
    case pn: False
    then show ?thesis using M False by (auto simp: match_ok_def)
  qed
qed

lemma equal_siblings_Suc:
  assumes "2 ^ l dvd Suc n" and "bit (Suc n) l"
  shows "equal_siblings H xs (Suc n) \<longleftrightarrow> equal_siblings H xs n \<or> carried_equal H xs (Suc n) 0 l"
proof -
  have e: "(2 * i + 2) * 2 ^ k = Suc n \<longleftrightarrow> k < l \<and> Suc n div 2 ^ k = 2 * i + 2" for i k
  proof
    assume e: "(2 * i + 2) * 2 ^ k = Suc n"
    then have "Suc n div 2 ^ k = 2 * i + 2" by (simp flip: e)
    moreover from this have "\<not> bit (Suc n) k" by (simp add: bit_iff_odd)
    moreover have "2 ^ k dvd Suc n" using e by (metis dvd_triv_right)
    then have "\<not> l < k" using dvd_no_bit assms(2) by blast
    ultimately show "k < l \<and> Suc n div 2 ^ k = 2 * i + 2" using assms(2) by (metis linorder_neqE_nat)
  next
    assume k: "k < l \<and> Suc n div 2 ^ k = 2 * i + 2"
    then have "2 ^ k dvd Suc n" using assms(1) by (meson dvd_trans le_imp_power_dvd less_imp_le)
    then show "(2 * i + 2) * 2 ^ k = Suc n" using k by (metis dvd_div_mult_self)
  qed
  have ev: "\<exists>i. Suc n div 2 ^ k = 2 * i + 2" if k: "k < l" for k
  proof -
    have "2 ^ k dvd Suc n" using assms(1) k by (meson dvd_trans le_imp_power_dvd less_imp_le)
    then have "even (Suc n div 2 ^ k)" "2 \<le> Suc n div 2 ^ k"
      using count_carry [of k n] dvd_no_bit [OF assms(1) k] by blast+
    then obtain j where "Suc n div 2 ^ k = 2 * j" "1 \<le> j" by (auto elim!: evenE)
    then show ?thesis by (intro exI [of _ "j - 1"]) simp
  qed
  have "carried_equal H xs (Suc n) 0 l \<longleftrightarrow>
     (\<exists>k i. (2 * i + 2) * 2 ^ k = Suc n \<and> full_node H xs k (2 * i) = full_node H xs k (2 * i + 1))"
    unfolding carried_equal_def e
  proof
    assume "\<exists>k\<ge>0. k < l \<and> full_node H xs k (Suc n div 2 ^ k - 2) = full_node H xs k (Suc n div 2 ^ k - 1)"
    then show "\<exists>k i. (k < l \<and> Suc n div 2 ^ k = 2 * i + 2) \<and> full_node H xs k (2 * i) = full_node H xs k (2 * i + 1)"
      using ev by force
  qed force
  then show ?thesis unfolding equal_siblings_def le_Suc_eq by blast
qed

lemma leaves_loop_ok:
  assumes "inner_ok H xs n inner" and "length xs < 2 ^ 32" and "n \<le> length xs" and "mu \<longleftrightarrow> equal_siblings H xs n"
    and "pb \<Longrightarrow> match_ok H xs p 0 n ml br"
  shows "\<exists>inner' ml' br'. leaves_loop H pb p (drop n xs) n inner ml mu br =
      Some (length xs, inner', ml', equal_siblings H xs (length xs), br') \<and>
    inner_ok H xs (length xs) inner' \<and> (pb \<longrightarrow> match_ok H xs p 0 (length xs) ml' br')"
  using assms
proof (induction "length xs - n" arbitrary: n inner ml mu br)
  case 0
  then show ?case by simp
next
  case (Suc d)
  then have n: "n < length xs" by simp
  then have dr: "drop n xs = xs ! n # drop (Suc n) xs" by (simp add: Cons_nth_drop_Suc)
  have c: "Suc n mod 2 ^ 32 = Suc n" and c': "Suc n < 2 ^ 32" using n Suc.prems(2) by simp_all
  have M: "pb \<Longrightarrow> match_step H xs p 0 n ml (n = p) br"
    using Suc.prems(5) by (auto simp: match_step_def match_ok_def branch_ok_def)
  obtain l mh br1 where L: "leaf_loop H pb ml inner (Suc n) 0 (xs ! n) (n = p) mu br =
      Some (l, full_node H xs l (Suc n div 2 ^ l - 1), mh, mu \<or> carried_equal H xs (Suc n) 0 l, br1)"
    "l < 32" "bit (Suc n) l" "2 ^ l dvd Suc n" "pb \<longrightarrow> match_step H xs p l n ml mh br1"
    using leaf_loop_ok [of H xs n inner 0 "xs ! n" pb p ml "n = p" br mu] Suc.prems(1) c' M by auto
  have mu: "(mu \<or> carried_equal H xs (Suc n) 0 l) \<longleftrightarrow> equal_siblings H xs (Suc n)"
    using equal_siblings_Suc [OF L(4,3), of H xs] Suc.prems(4) by simp
  have "leaves_loop H pb p (drop n xs) n inner ml mu br =
    leaves_loop H pb p (drop (Suc n) xs) (Suc n) (inner[l := full_node H xs l (Suc n div 2 ^ l - 1)])
      (if mh then int l else ml) (mu \<or> carried_equal H xs (Suc n) 0 l) br1"
    unfolding dr by (simp only: leaves_loop.simps Suc_eq_plus1 [symmetric] c L(1) option.case prod.case)
  then show ?case
    using Suc.hyps(1) [of "Suc n", OF _ inner_ok_store [OF Suc.prems(1) L(4,3,2)] Suc.prems(2) _ mu]
      match_ok_store [of H xs p l n ml mh br1] L Suc.hyps(2) n by simp
qed

section \<open>The final sweep\<close>

lemma level_size_ceil: "level_size n L = (n + 2 ^ L - 1) div 2 ^ L"
proof (induction L)
  case (Suc L)
  have "n + 2 ^ Suc L - 1 = n + 2 ^ L - 1 + 2 ^ L" by simp
  moreover have "(n + 2 ^ L - 1 + 2 ^ L) div 2 ^ L = (n + 2 ^ L - 1) div 2 ^ L + 1" by (rule div_add_self2) simp
  ultimately have "(n + 2 ^ Suc L - 1) div 2 ^ L = (n + 2 ^ L - 1) div 2 ^ L + 1" by (simp only:)
  then show ?case by (simp only: level_size.simps Suc power_Suc2 div_mult2_eq)
qed simp

lemma skip_level_ok:
  "0 < n \<Longrightarrow> n < 2 ^ 32 \<Longrightarrow> 2 ^ l dvd n \<Longrightarrow> l < 32 \<Longrightarrow>
    \<exists>l'. skip_level n l = Some l' \<and> l' < 32 \<and> bit n l' \<and> 2 ^ l' dvd n"
proof (induction "32 - l" arbitrary: l)
  case (Suc d)
  show ?case
  proof (cases "bit n l")
    case True
    then show ?thesis using Suc.prems by (subst skip_level.simps) auto
  next
    case False
    obtain n' where n: "n = Suc n'" using Suc.prems(1) by (cases n) auto
    have dvd: "2 ^ Suc l dvd n" using count_carry(1) [of l n'] False Suc.prems(3) n by simp
    have "l \<noteq> 31" using dvd Suc.prems(1,2) by (auto dest: dvd_imp_le)
    then have "Suc l < 32" "d = 32 - Suc l" using Suc.prems(4) Suc.hyps(2) by simp_all
    then show ?thesis using Suc.hyps(1) [OF _ Suc.prems(1,2) dvd] False Suc.prems(4)
      by (subst skip_level.simps) simp
  qed
qed simp

lemma level_size_dvd: "2 ^ l dvd N \<Longrightarrow> level_size N l = N div 2 ^ l"
proof -
  assume "2 ^ l dvd N"
  then obtain q where N: "N = 2 ^ l * q" by (auto elim: dvdE)
  have "N + 2 ^ l - 1 = 2 ^ l * q + (2 ^ l - 1)" by (simp add: N)
  moreover have "(2 ^ l * q + (2 ^ l - 1)) div 2 ^ l = q"
  proof (rule div_nat_eqI)
    have "0 < (2 :: nat) ^ l" by simp
    then show "2 ^ l * q + (2 ^ l - 1) < 2 ^ l * Suc q" unfolding mult_Suc_right by linarith
  qed (rule le_add1)
  ultimately show ?thesis by (simp only: level_size_ceil) (simp add: N)
qed

lemma level_size_ndvd: "\<not> 2 ^ l dvd N \<Longrightarrow> level_size N l = N div 2 ^ l + 1"
proof -
  assume nd: "\<not> 2 ^ l dvd N"
  define q r where "q = N div 2 ^ l" and "r = N mod 2 ^ l"
  have N: "N = 2 ^ l * q + r" "r < 2 ^ l" by (simp_all add: q_def r_def)
  have "0 < r" using nd by (simp add: r_def mod_greater_zero_iff_not_dvd)
  then have "N + 2 ^ l - 1 = 2 ^ l * (q + 1) + (r - 1)" using N by simp
  moreover have "(2 ^ l * (q + 1) + (r - 1)) div 2 ^ l = q + 1"
    using N(2) by (intro div_nat_eqI) simp_all
  ultimately show ?thesis by (simp only: level_size_ceil q_def)
qed

lemma level_size_ge2: "2 \<le> level_size N k \<longleftrightarrow> 2 ^ k < N"
proof (cases "2 ^ k dvd N")
  case True
  then obtain q where N: "N = 2 ^ k * q" by (auto elim: dvdE)
  then have "level_size N k = q" using level_size_dvd [OF True] by simp
  moreover have "2 ^ k < N \<longleftrightarrow> 1 < q" unfolding N by simp
  ultimately show ?thesis by linarith
next
  case False
  have "2 \<le> level_size N k \<longleftrightarrow> 2 ^ k \<le> N"
    using level_size_ndvd [OF False] by (simp add: Suc_le_eq div_greater_zero_iff)
  moreover have "N \<noteq> 2 ^ k" using False by auto
  ultimately show ?thesis by linarith
qed

text \<open>
  The state of the sweep at level \<open>l\<close>: \<open>h\<close> is the last node of the level, and the branch has
  either passed the matching leaf or still waits at a stored subtree above.
\<close>

definition sweep_match :: "('h \<Rightarrow> 'h \<Rightarrow> 'h) \<Rightarrow> 'h list \<Rightarrow> nat \<Rightarrow> nat \<Rightarrow> int \<Rightarrow> bool \<Rightarrow> 'h list \<Rightarrow> bool" where
  "sweep_match H xs p l ml mh br \<longleftrightarrow>
     (if mh then branch_ok H xs p l (level_size (length xs) l - 1) (tree_node H xs l (level_size (length xs) l - 1)) br
      else match_ok H xs p l (length xs) ml br)"

lemma full_last:
  assumes "N = length xs" and "\<not> 2 ^ l dvd N" and "level_size N l = 2 * m + 2"
  shows "bit N l" and "N div 2 ^ l = 2 * m + 1" and "full_node H xs l (2 * m) = tree_node H xs l (2 * m)"
proof -
  show q: "N div 2 ^ l = 2 * m + 1" using level_size_ndvd [OF assms(2)] assms(3) by simp
  then show "bit N l" by (simp add: bit_iff_odd)
  have "(2 * m + 1) * 2 ^ l \<le> N" using q by (metis div_times_less_eq_dividend)
  then show "full_node H xs l (2 * m) = tree_node H xs l (2 * m)"
    using tree_node_full [of "2 * m" l xs H] assms(1) by simp
qed

lemma sweep_match_next:
  assumes "sweep_match H xs p l ml mh br" and "p < length xs" and "\<not> 2 ^ l dvd length xs"
    and "level_size (length xs) l = 2 * m + 2"
    and "branch_step True ml l (tree_node H xs l (2 * m)) (tree_node H xs l (2 * m + 1)) mh br = (mh1, br1)"
  shows "sweep_match H xs p (Suc l) ml mh1 br1"
proof -
  have sz: "level_size (length xs) (Suc l) = m + 1" using assms(4) by simp
  have node: "tree_node H xs (Suc l) m = H (tree_node H xs l (2 * m)) (tree_node H xs l (2 * m + 1))"
    using assms(4) by simp
  note F = full_last [OF refl assms(3,4)]
  show ?thesis
  proof (cases mh)
    case True
    then have "branch_ok H xs p l (2 * m + 1) (tree_node H xs l (2 * m + 1)) br"
      using assms(1,4) by (simp add: sweep_match_def)
    from branch_ok_right [OF this, of "tree_node H xs l (2 * m)"] show ?thesis
      using assms(5) True by (simp add: sweep_match_def sz node branch_step_def del: tree_node.simps(2) level_size.simps(2))
  next
    case False
    then have M: "match_ok H xs p l (length xs) ml br" using assms(1) by (simp add: sweep_match_def)
    show ?thesis
    proof (cases "ml = int l")
      case True
      then have "branch_ok H xs p l (2 * m) (tree_node H xs l (2 * m)) br"
        using M assms(2) F by (auto simp: match_ok_def)
      from branch_ok_left [OF this, of "tree_node H xs l (2 * m + 1)"] show ?thesis
        using assms(5) True False by (auto simp: sweep_match_def sz node branch_step_def simp del: tree_node.simps(2) level_size.simps(2))
    next
      case ml: False
      then have "match_ok H xs p (Suc l) (length xs) ml br"
        using M assms(2) by (auto simp: match_ok_def le_eq_less_or_eq)
      then show ?thesis using assms(5) False ml by (auto simp: sweep_match_def branch_step_def)
    qed
  qed
qed

lemma propagate_loop_ok:
  assumes "inner_ok H xs (length xs) inner" and "count = level_size (length xs) l * 2 ^ l" and "0 < count" and "count < 2 ^ 32"
    and "l < 32" and "\<not> 2 ^ l dvd length xs" and "\<forall>k < l. 2 \<le> level_size (length xs) k"
    and "h = tree_node H xs l (level_size (length xs) l - 1)" and "pb \<Longrightarrow> p < length xs \<and> sweep_match H xs p l ml mh br"
  shows "\<exists>l' mh' br'. propagate_loop H pb ml inner count l h mh br =
      Some (l', tree_node H xs l' (level_size (length xs) l' - 1), mh', br') \<and>
    l \<le> l' \<and> l' < 32 \<and> odd (level_size (length xs) l') \<and> count = level_size (length xs) l' * 2 ^ l' \<and>
    (\<forall>k < l'. 2 \<le> level_size (length xs) k) \<and>
    (pb \<longrightarrow> sweep_match H xs p l' ml mh' br' \<and> (\<not> mh' \<longrightarrow> ml \<noteq> int l'))"
  using assms
proof (induction "32 - l" arbitrary: l h mh br)
  case (Suc d)
  have bit: "bit count l \<longleftrightarrow> odd (level_size (length xs) l)"
    using Suc.prems(2) by (simp add: bit_iff_odd)
  show ?case
  proof (cases "bit count l")
    case True
    then have "\<not> bit (length xs) l"
      using bit level_size_ndvd [OF Suc.prems(6)] by (simp add: bit_iff_odd)
    then have "pb \<Longrightarrow> \<not> mh \<Longrightarrow> ml \<noteq> int l"
      using Suc.prems(9) by (auto simp: sweep_match_def match_ok_def)
    then show ?thesis using True Suc.prems bit by (subst propagate_loop.simps) auto
  next
    case False
    then obtain m where m: "level_size (length xs) l = 2 * m + 2"
    proof -
      have "0 < level_size (length xs) l" using Suc.prems(2,3) by simp
      moreover have "even (level_size (length xs) l)" using False bit by simp
      ultimately obtain j where "level_size (length xs) l = 2 * j" "0 < j" by (auto elim!: evenE)
      then show thesis by (intro that [of "j - 1"]) simp
    qed
    have sz: "level_size (length xs) (Suc l) = m + 1" using m by simp
    have c: "count = level_size (length xs) (Suc l) * 2 ^ Suc l"
      using Suc.prems(2) unfolding m sz by (simp add: algebra_simps)
    have "l \<noteq> 31" using c Suc.prems(4) sz by auto
    then have l: "Suc l < 32" "d = 32 - Suc l" using Suc.prems(5) Suc.hyps(2) by simp_all
    note F = full_last [OF refl Suc.prems(6) m]
    have inner: "inner ! l = tree_node H xs l (2 * m)"
      using Suc.prems(1,5) F by (simp add: inner_ok_def)
    have h: "h = tree_node H xs l (2 * m + 1)" using Suc.prems(8) m by simp
    have h1: "H (inner ! l) h = tree_node H xs (Suc l) (level_size (length xs) (Suc l) - 1)"
      unfolding sz using m by (simp add: inner h)
    obtain mh1 br1 where b: "branch_step pb ml l (inner ! l) h mh br = (mh1, br1)" by force
    have M: "pb \<Longrightarrow> p < length xs \<and> sweep_match H xs p (Suc l) ml mh1 br1"
      using sweep_match_next [of H xs p l ml mh br m mh1 br1] Suc.prems(6,9) m b inner h by simp
    have nd: "\<not> 2 ^ Suc l dvd length xs" using Suc.prems(6) by (meson dvd_trans le_imp_power_dvd lessI less_imp_le)
    have ge: "\<forall>k < Suc l. 2 \<le> level_size (length xs) k" using Suc.prems(7) m by (auto simp: less_Suc_eq)
    have "propagate_loop H pb ml inner count l h mh br = propagate_loop H pb ml inner count (Suc l) (H (inner ! l) h) mh1 br1"
      using False Suc.prems(5) b by (subst propagate_loop.simps) simp
    then show ?thesis
      using Suc.hyps(1) [OF l(2) Suc.prems(1) c Suc.prems(3,4) l(1) nd ge h1 M] by (metis Suc_leD)
  qed
qed simp

lemma level_size_round:
  assumes "l \<le> n" and "N \<le> 2 ^ n" and "0 < N"
  shows "level_size N l * 2 ^ l \<le> 2 ^ n"
proof -
  have e: "(2 :: nat) ^ n = 2 ^ (n - l) * 2 ^ l" using assms(1) by (simp flip: power_add)
  have "N + 2 ^ l - 1 < (2 ^ (n - l) + 1) * 2 ^ l"
    using assms(2,3) unfolding e by (simp add: algebra_simps)
  then have "level_size N l < 2 ^ (n - l) + 1"
    unfolding level_size_ceil by (rule less_mult_imp_div_less)
  then show ?thesis unfolding e by (intro mult_le_mono1) simp
qed

lemma sweep_loop_ok:
  assumes "inner_ok H xs (length xs) inner" and "0 < length xs" and "length xs \<le> 2 ^ 31"
    and "count = level_size (length xs) l * 2 ^ l" and "odd (level_size (length xs) l)" and "l < 32" and "33 \<le> fuel + l"
    and "\<forall>k < l. 2 \<le> level_size (length xs) k"
    and "h = tree_node H xs l (level_size (length xs) l - 1)"
    and "pb \<Longrightarrow> p < length xs \<and> sweep_match H xs p l ml mh br \<and> (\<not> mh \<longrightarrow> ml \<noteq> int l)"
  shows "\<exists>br'. sweep_loop fuel H pb ml inner count l h mh br = Some (merkle_root H null xs, br') \<and>
     (pb \<longrightarrow> ComputeMerkleRootFromBranch H (xs ! p) br' p = merkle_root H null xs)"
  using assms
proof (induction fuel arbitrary: count l h mh br)
  case (Suc fuel)
  let ?sz = "level_size (length xs)"
  show ?case
  proof (cases "?sz l = 1")
    case True
    have R: "merkle_root H null xs = h" using merkle_root_node [OF True Suc.prems(8)] Suc.prems(9) True by simp
    have N: "length xs \<le> 2 ^ l" using True level_size_ge2 [of "length xs" l] by simp
    have "ComputeMerkleRootFromBranch H (xs ! p) br p = h" if pbt: pb
    proof (cases mh)
      case True
      then show ?thesis using Suc.prems(9,10) pbt by (simp add: sweep_match_def branch_ok_def)
    next
      case False
      then obtain b where b: "l < b" "bit (length xs) b"
        using Suc.prems(10) pbt by (auto simp: sweep_match_def match_ok_def le_eq_less_or_eq)
      have "2 ^ b \<le> length xs" using b(2) by (auto simp: bit_iff_odd intro: ccontr)
      moreover have "(2 :: nat) ^ l < 2 ^ b" using b(1) by simp
      ultimately show ?thesis using N by linarith
    qed
    then show ?thesis using R True Suc.prems(4) by simp
  next
    case False
    have nd: "\<not> 2 ^ Suc l dvd length xs"
    proof
      assume d: "2 ^ Suc l dvd length xs"
      then have "2 ^ l dvd length xs" by (meson dvd_trans le_imp_power_dvd lessI less_imp_le)
      then show False
        using level_size_dvd [of l "length xs"] Suc.prems(5) d by (auto elim!: dvdE)
    qed
    obtain m where m: "?sz l = 2 * m + 1" "0 < m" using Suc.prems(5) False by (auto elim!: oddE)
    have sz: "?sz (Suc l) = m + 1" using m by simp
    have big: "2 ^ Suc l < length xs" using level_size_ge2 [of "length xs" "Suc l"] sz m by simp
    have l: "Suc l < 32"
    proof (rule ccontr)
      assume "\<not> Suc l < 32"
      then have "(2 :: nat) ^ 31 \<le> 2 ^ l" by (intro power_increasing) simp_all
      then show False using big Suc.prems(3) by simp
    qed
    let ?c = "count + 2 ^ l"
    have c: "?c = ?sz (Suc l) * 2 ^ Suc l"
      using Suc.prems(4) unfolding m(1) sz by (simp add: algebra_simps)
    have "?sz (Suc l) * 2 ^ Suc l \<le> 2 ^ 31"
      using l Suc.prems(2,3) by (intro level_size_round) simp_all
    then have c32: "?c < 2 ^ 32" "?c mod 2 ^ 32 = ?c" using c by simp_all
    have h1: "H h h = tree_node H xs (Suc l) (?sz (Suc l) - 1)"
      unfolding sz using m Suc.prems(9) by simp
    define br1 where "br1 = (if pb \<and> mh then br @ [h] else br)"
    have M: "pb \<Longrightarrow> p < length xs \<and> sweep_match H xs p (Suc l) ml mh br1"
      using Suc.prems(9,10) m(1) h1 branch_ok_left [of H xs p l m h br h] unfolding sweep_match_def br1_def sz
      by (auto simp: match_ok_def le_eq_less_or_eq)
    have ge: "\<forall>k < Suc l. 2 \<le> ?sz k" using Suc.prems(8) m by (auto simp: less_Suc_eq)
    have "0 < ?c" by simp
    obtain l' mh' br' where P: "propagate_loop H pb ml inner ?c (Suc l) (H h h) mh br1 =
        Some (l', tree_node H xs l' (?sz l' - 1), mh', br')" "Suc l \<le> l'" "l' < 32" "odd (?sz l')"
        "?c = ?sz l' * 2 ^ l'" "\<forall>k < l'. 2 \<le> ?sz k" "pb \<longrightarrow> sweep_match H xs p l' ml mh' br' \<and> (\<not> mh' \<longrightarrow> ml \<noteq> int l')"
      using propagate_loop_ok [OF Suc.prems(1) c \<open>0 < ?c\<close> c32(1) l nd ge h1 M] by blast
    have "count \<noteq> 2 ^ l" using Suc.prems(4) False by simp
    then have "sweep_loop (Suc fuel) H pb ml inner count l h mh br =
      sweep_loop fuel H pb ml inner ?c l' (tree_node H xs l' (?sz l' - 1)) mh' br'"
      using P(1) c32(2) by (simp add: Let_def br1_def)
    moreover have "33 \<le> fuel + l'" using Suc.prems(7) P(2) by simp
    ultimately show ?thesis
      using Suc.IH [OF Suc.prems(1,2,3) P(5,4,3) _ P(6) refl, of mh' br'] P(7) M by auto
  qed
qed simp

lemma MerkleComputation_ok:
  assumes "length xs \<le> 2 ^ 31" and "pb \<Longrightarrow> p < length xs"
  shows "\<exists>br. MerkleComputation H null xs p pb = Some (merkle_root H null xs, equal_siblings H xs (length xs), br) \<and>
     (pb \<longrightarrow> ComputeMerkleRootFromBranch H (xs ! p) br p = merkle_root H null xs)"
proof (cases "xs = []")
  case True
  then show ?thesis using assms
    by (auto simp: MerkleComputation_def equal_siblings_def)
next
  case False
  then have N: "0 < length xs" "length xs < 2 ^ 32" using assms(1) by simp_all
  have "inner_ok H xs 0 (replicate 32 null)" by (simp add: inner_ok_def)
  moreover have "match_ok H xs p 0 0 (- 1) []" by (simp add: match_ok_def)
  moreover have "False \<longleftrightarrow> equal_siblings H xs 0" by (simp add: equal_siblings_def)
  ultimately obtain inner ml br where L: "leaves_loop H pb p xs 0 (replicate 32 null) (- 1) False [] =
      Some (length xs, inner, ml, equal_siblings H xs (length xs), br)" "inner_ok H xs (length xs) inner"
      "pb \<longrightarrow> match_ok H xs p 0 (length xs) ml br"
    using leaves_loop_ok [of H xs 0 "replicate 32 null" False pb p "- 1" "[]"] N by auto
  obtain l where S: "skip_level (length xs) 0 = Some l" "l < 32" "bit (length xs) l" "2 ^ l dvd length xs"
    using skip_level_ok [of "length xs" 0] N by auto
  let ?sz = "level_size (length xs)"
  have sz: "?sz l = length xs div 2 ^ l" by (rule level_size_dvd [OF S(4)])
  have c: "length xs = ?sz l * 2 ^ l" using sz S(4) by simp
  have odd: "odd (?sz l)" using S(3) sz by (simp add: bit_iff_odd)
  have "0 < ?sz l" by (rule level_size_pos [OF N(1)])
  then have full: "full_node H xs l (?sz l - 1) = tree_node H xs l (?sz l - 1)"
    using tree_node_full [of "?sz l - 1" l xs H] c by simp
  have h: "inner ! l = tree_node H xs l (?sz l - 1)"
    using L(2) S(2,3) full by (simp add: inner_ok_def sz)
  have ge: "\<forall>k < l. 2 \<le> ?sz k"
  proof (intro allI impI)
    fix k assume "k < l"
    then have "(2 :: nat) ^ k < 2 ^ l" by simp
    also have "\<dots> \<le> length xs" using S(4) N(1) by (rule dvd_imp_le)
    finally show "2 \<le> ?sz k" by (simp only: level_size_ge2)
  qed
  have "pb \<Longrightarrow> p < length xs \<and> sweep_match H xs p l ml (ml = int l) br \<and> (\<not> (ml = int l) \<longrightarrow> ml \<noteq> int l)"
    using L(3) assms(2) dvd_no_bit [OF S(4)] full
    by (auto simp: sweep_match_def match_ok_def sz) (metis linorder_not_less)
  from sweep_loop_ok [where fuel = 33 and null = null, OF L(2) N(1) assms(1) c odd S(2) _ ge h this]
  obtain br' where "sweep_loop 33 H pb ml inner (length xs) l (inner ! l) (ml = int l) br = Some (merkle_root H null xs, br')"
    "pb \<longrightarrow> ComputeMerkleRootFromBranch H (xs ! p) br' p = merkle_root H null xs" by auto
  then show ?thesis using False L(1) S(1) by (simp add: MerkleComputation_def)
qed

lemma full_level_nth: "i < length xs div 2 \<Longrightarrow> full_level H xs ! i = H (xs ! (2 * i)) (xs ! (2 * i + 1))"
proof (induction H xs arbitrary: i rule: full_level.induct)
  case (1 H x y xs)
  then show ?case by (cases i) auto
qed auto

lemma full_node_level:
  "(i + 1) * 2 ^ Suc k \<le> length xs \<Longrightarrow> full_node H (full_level H xs) k i = full_node H xs (Suc k) i"
proof (induction k arbitrary: i)
  case 0
  then show ?case by (simp add: full_level_nth)
next
  case (Suc k)
  have "(2 * i + 1) * 2 ^ Suc k \<le> length xs" "(2 * i + 1 + 1) * 2 ^ Suc k \<le> length xs"
    using Suc.prems by (simp_all add: algebra_simps)
  from Suc.IH [OF this(1)] Suc.IH [OF this(2)] show ?case
    by (simp only: full_node.simps)
qed

lemma equal_pair_iff: "equal_pair xs \<longleftrightarrow> (\<exists>i. 2 * i + 2 \<le> length xs \<and> xs ! (2 * i) = xs ! (2 * i + 1))"
proof (induction xs rule: equal_pair.induct)
  case (1 x y xs)
  have "(\<exists>i. P i) \<longleftrightarrow> P 0 \<or> (\<exists>i. P (Suc i))" for P by (metis nat.exhaust)
  from this [of "\<lambda>i. 2 * i + 2 \<le> length (x # y # xs) \<and> (x # y # xs) ! (2 * i) = (x # y # xs) ! (2 * i + 1)"]
  show ?case using 1 by simp
qed auto

lemma merkle_mutated_iff: "merkle_mutated H xs \<longleftrightarrow> equal_siblings H xs (length xs)"
proof (induction H xs rule: merkle_mutated.induct)
  case (1 H)
  show ?case by (simp add: equal_siblings_def)
next
  case (2 H x xs')
  define xs where "xs = x # xs'"
  have split: "(\<exists>k i. Q k i) \<longleftrightarrow> (\<exists>i. Q 0 i) \<or> (\<exists>k i. Q (Suc k) i)" for Q by (metis nat.exhaust)
  have le: "(2 * i + 2) * 2 ^ k \<le> length xs div 2 \<longleftrightarrow> (2 * i + 2) * 2 ^ Suc k \<le> length xs" for i k
    by (simp add: less_eq_div_iff_mult_less_eq algebra_simps)
  have node: "full_node H (full_level H xs) k (2 * i) = full_node H xs (Suc k) (2 * i)"
    "full_node H (full_level H xs) k (2 * i + 1) = full_node H xs (Suc k) (2 * i + 1)"
    if "(2 * i + 2) * 2 ^ Suc k \<le> length xs" for i k
    using that full_node_level [of "2 * i" k xs H] full_node_level [of "2 * i + 1" k xs H]
    by (simp_all add: algebra_simps)
  have "equal_siblings H xs (length xs) \<longleftrightarrow> equal_pair xs \<or> equal_siblings H (full_level H xs) (length (full_level H xs))"
    unfolding equal_siblings_def full_level_length le equal_pair_iff
    by (subst split) (use node in \<open>auto simp del: full_node.simps(2) power_Suc; metis\<close>)
  then show ?case using 2 by (simp add: xs_def)
qed

section \<open>What the root binds\<close>

text \<open>The root of a list of at most \<open>2\<^sup>L\<close> leaves, split at the powers of two.\<close>

fun split_root :: "('h \<Rightarrow> 'h \<Rightarrow> 'h) \<Rightarrow> nat \<Rightarrow> 'h list \<Rightarrow> 'h" where
  "split_root H 0 xs = hd xs"
| "split_root H (Suc L) xs =
     (if length xs \<le> 2 ^ L then H (split_root H L xs) (split_root H L xs)
      else H (split_root H L (take (2 ^ L) xs)) (split_root H L (drop (2 ^ L) xs)))"

declare split_root.simps(2) [simp del]

lemma split_root_small: "length xs \<le> 2 ^ L \<Longrightarrow> split_root H (Suc L) xs = H (split_root H L xs) (split_root H L xs)"
  by (simp add: split_root.simps)

lemma split_root_big:
  "2 ^ L < length xs \<Longrightarrow>
     split_root H (Suc L) xs = H (split_root H L (take (2 ^ L) xs)) (split_root H L (drop (2 ^ L) xs))"
  by (simp add: split_root.simps)

lemma merkle_level_take: "merkle_level H (take (2 * n) xs) = take n (merkle_level H xs)"
proof (induction n arbitrary: xs)
  case (Suc n)
  show ?case
    using Suc.IH by (cases "(H, xs)" rule: merkle_level.cases) auto
qed simp

lemma merkle_level_drop: "merkle_level H (drop (2 * n) xs) = drop n (merkle_level H xs)"
proof (induction n arbitrary: xs)
  case (Suc n)
  show ?case
    using Suc.IH by (cases "(H, xs)" rule: merkle_level.cases) auto
qed simp

lemma split_root_level:
  "xs \<noteq> [] \<Longrightarrow> length xs \<le> 2 ^ Suc L \<Longrightarrow> split_root H (Suc L) xs = split_root H L (merkle_level H xs)"
proof (induction L arbitrary: xs)
  case 0
  then show ?case by (cases "(H, xs)" rule: merkle_level.cases) (auto simp: split_root.simps)
next
  case (Suc L)
  show ?case
  proof (cases "length xs \<le> 2 ^ Suc L")
    case True
    then have "length (merkle_level H xs) \<le> 2 ^ L" by (simp add: merkle_level_length)
    then show ?thesis by (simp only: split_root_small True Suc.IH [OF Suc.prems(1) True])
  next
    case False
    then have big: "2 ^ Suc L < length xs" by simp
    let ?a = "take (2 ^ Suc L) xs" and ?b = "drop (2 ^ Suc L) xs"
    have ne: "?a \<noteq> []" "length ?a \<le> 2 ^ Suc L" "?b \<noteq> []" "length ?b \<le> 2 ^ Suc L"
      using big Suc.prems by auto
    have "merkle_level H ?a = take (2 ^ L) (merkle_level H xs)" "merkle_level H ?b = drop (2 ^ L) (merkle_level H xs)"
      by (simp_all only: power_Suc merkle_level_take merkle_level_drop)
    moreover have "2 ^ L < length (merkle_level H xs)" using big by (simp add: merkle_level_length)
    ultimately show ?thesis
      by (simp only: split_root_big [OF big] split_root_big Suc.IH [OF ne(1,2)] Suc.IH [OF ne(3,4)])
  qed
qed

lemma merkle_root_split:
  "xs \<noteq> [] \<Longrightarrow> \<exists>L. merkle_root H null xs = split_root H L xs \<and> length xs \<le> 2 ^ L"
proof (induction "length xs" arbitrary: xs rule: less_induct)
  case less
  show ?case
  proof (cases "length xs = 1")
    case True
    then obtain x where "xs = [x]" by (cases xs) auto
    then show ?thesis by (intro exI [of _ 0]) simp
  next
    case False
    then obtain x y zs where xs: "xs = x # y # zs" using less.prems by (metis One_nat_def length_Cons list.exhaust list.size(3))
    let ?ys = "merkle_level H xs"
    have "length ?ys < length xs" "?ys \<noteq> []" using xs by (simp_all add: merkle_level_length)
    from less.hyps [OF this] obtain L where L: "merkle_root H null ?ys = split_root H L ?ys" "length ?ys \<le> 2 ^ L" by blast
    then have l: "length xs \<le> 2 ^ Suc L" by (simp add: merkle_level_length)
    have "merkle_root H null xs = merkle_root H null ?ys" by (simp add: xs)
    then show ?thesis using L(1) l split_root_level [OF less.prems l, of H] by (intro exI [of _ "Suc L"]) simp
  qed
qed

lemma full_node_take: "(i + 1) * 2 ^ k \<le> n \<Longrightarrow> full_node H (take n xs) k i = full_node H xs k i"
proof (induction k arbitrary: i)
  case (Suc k)
  have "(2 * i + 1) * 2 ^ k \<le> n" "(2 * i + 1 + 1) * 2 ^ k \<le> n" using Suc.prems by (simp_all add: algebra_simps)
  then show ?case using Suc.IH by simp
qed simp

lemma full_node_drop: "full_node H (drop (m * 2 ^ k) xs) k i = full_node H xs k (m + i)" if "m * 2 ^ k \<le> length xs"
  using that
proof (induction k arbitrary: m i)
  case (Suc k)
  have "2 * m * 2 ^ k \<le> length xs" "drop (m * 2 ^ Suc k) xs = drop (2 * m * 2 ^ k) xs" using Suc.prems by (simp_all add: algebra_simps)
  then show ?case using Suc.IH [of "2 * m" "2 * i"] Suc.IH [of "2 * m" "2 * i + 1"] Suc.prems by (simp add: algebra_simps)
qed (simp add: nth_append)

lemma split_root_full: "length xs = 2 ^ L \<Longrightarrow> split_root H L xs = full_node H xs L 0"
proof (induction L arbitrary: xs)
  case 0
  then show ?case by (cases xs) simp_all
next
  case (Suc L)
  have "split_root H L (take (2 ^ L) xs) = full_node H xs L 0"
    using Suc by (simp add: full_node_take)
  moreover have "split_root H L (drop (2 ^ L) xs) = full_node H xs L 1"
    using Suc full_node_drop [of 1 L xs H 0] by simp
  ultimately show ?case using Suc.prems by (simp add: split_root_big)
qed

lemma equal_siblings_take:
  assumes "equal_siblings H (take n xs) (length (take n xs))" shows "equal_siblings H xs (length xs)"
proof -
  obtain k i where "(2 * i + 2) * 2 ^ k \<le> min (length xs) n" "full_node H (take n xs) k (2 * i) = full_node H (take n xs) k (2 * i + 1)"
    using assms by (auto simp: equal_siblings_def)
  moreover from this have "full_node H (take n xs) k (2 * i) = full_node H xs k (2 * i)" "full_node H (take n xs) k (2 * i + 1) = full_node H xs k (2 * i + 1)"
    by (simp_all add: full_node_take algebra_simps)
  ultimately show ?thesis by (auto simp: equal_siblings_def)
qed

lemma equal_siblings_drop:
  assumes "equal_siblings H (drop (2 ^ L) xs) (length (drop (2 ^ L) xs))" and "length xs \<le> 2 ^ Suc L"
  shows "equal_siblings H xs (length xs)"
proof -
  obtain k i where k: "(2 * i + 2) * 2 ^ k \<le> length xs - 2 ^ L" "full_node H (drop (2 ^ L) xs) k (2 * i) = full_node H (drop (2 ^ L) xs) k (2 * i + 1)"
    using assms by (auto simp: equal_siblings_def)
  have "2 ^ Suc k \<le> (2 * i + 2) * 2 ^ k" by simp
  also have "\<dots> \<le> 2 ^ L" using k(1) assms(2) by simp
  finally have "Suc k \<le> L" by (rule power_le_imp_le_exp [rotated]) simp
  then have "k < L" by simp
  then obtain d where d: "L = Suc (k + d)" using less_imp_Suc_add by blast
  then have e: "(2 :: nat) ^ L = 2 * 2 ^ d * 2 ^ k" by (simp add: power_add)
  have "0 < (2 * i + 2) * 2 ^ k" by simp
  then have ge: "2 ^ L \<le> length xs" using k(1) by linarith
  have "full_node H (drop (2 ^ L) xs) k j = full_node H xs k (2 * 2 ^ d + j)" for j
    using full_node_drop [of "2 * 2 ^ d" k xs H j] ge unfolding e by simp
  then have "full_node H xs k (2 * (2 ^ d + i)) = full_node H xs k (2 * (2 ^ d + i) + 1)"
    using k(2) by (simp add: algebra_simps)
  moreover have "(2 * (2 ^ d + i) + 2) * 2 ^ k \<le> length xs" using k(1) ge unfolding e by (simp add: algebra_simps)
  ultimately show ?thesis unfolding equal_siblings_def by blast
qed

text \<open>The pairs of hashes that are combined level by level for the root.\<close>

fun level_pairs :: "'h list \<Rightarrow> ('h \<times> 'h) list" where
  "level_pairs (x # y # xs) = (x, y) # level_pairs xs"
| "level_pairs [x] = [(x, x)]"
| "level_pairs [] = []"

function merkle_pairs :: "('h \<Rightarrow> 'h \<Rightarrow> 'h) \<Rightarrow> 'h list \<Rightarrow> ('h \<times> 'h) list" where
  "merkle_pairs H [] = []"
| "merkle_pairs H [x] = []"
| "merkle_pairs H (x # y # xs) = level_pairs (x # y # xs) @ merkle_pairs H (merkle_level H (x # y # xs))"
  by pat_completeness auto
termination
  by (relation "measure (\<lambda>(H, xs). length xs)") (auto simp: merkle_level_length)

lemma merkle_pairs_step: "2 \<le> length xs \<Longrightarrow> merkle_pairs H xs = level_pairs xs @ merkle_pairs H (merkle_level H xs)"
  by (cases "(H, xs)" rule: merkle_pairs.cases) auto

lemma level_pairs_nth:
  "2 * i < length xs \<Longrightarrow> (xs ! (2 * i), xs ! (if 2 * i + 1 < length xs then 2 * i + 1 else 2 * i)) \<in> set (level_pairs xs)"
proof (induction xs arbitrary: i rule: level_pairs.induct)
  case (1 x y xs)
  then show ?case using 1(1) [of "i - 1"] by (cases i) auto
qed auto

text \<open>The pairs that are combined in \<open>split_root\<close>.\<close>

fun split_pairs :: "('h \<Rightarrow> 'h \<Rightarrow> 'h) \<Rightarrow> nat \<Rightarrow> 'h list \<Rightarrow> ('h \<times> 'h) set" where
  "split_pairs H 0 xs = {}"
| "split_pairs H (Suc L) xs =
     (if length xs \<le> 2 ^ L then insert (split_root H L xs, split_root H L xs) (split_pairs H L xs)
      else insert (split_root H L (take (2 ^ L) xs), split_root H L (drop (2 ^ L) xs))
             (split_pairs H L (take (2 ^ L) xs) \<union> split_pairs H L (drop (2 ^ L) xs)))"

declare split_pairs.simps(2) [simp del]

lemma level_pairs_take: "level_pairs (take (2 * n) xs) = take n (level_pairs xs)"
proof (induction n arbitrary: xs)
  case (Suc n)
  show ?case using Suc.IH by (cases xs rule: level_pairs.cases) auto
qed simp

lemma level_pairs_drop: "level_pairs (drop (2 * n) xs) = drop n (level_pairs xs)"
proof (induction n arbitrary: xs)
  case (Suc n)
  show ?case using Suc.IH by (cases xs rule: level_pairs.cases) auto
qed simp

lemma split_pairs_level:
  "xs \<noteq> [] \<Longrightarrow> length xs \<le> 2 ^ Suc L \<Longrightarrow>
     split_pairs H (Suc L) xs = set (level_pairs xs) \<union> split_pairs H L (merkle_level H xs)"
proof (induction L arbitrary: xs)
  case 0
  then show ?case by (cases xs rule: level_pairs.cases) (auto simp: split_pairs.simps)
next
  case (Suc L)
  show ?case
  proof (cases "length xs \<le> 2 ^ Suc L")
    case True
    then have l: "length (merkle_level H xs) \<le> 2 ^ L" by (simp add: merkle_level_length)
    have "split_pairs H (Suc (Suc L)) xs = insert (split_root H (Suc L) xs, split_root H (Suc L) xs) (split_pairs H (Suc L) xs)"
      using True by (subst split_pairs.simps) simp
    then show ?thesis
      using l by (simp add: Suc.IH [OF Suc.prems(1) True] split_root_level [OF Suc.prems(1) True] split_pairs.simps(2) [of H L "merkle_level H xs"])
  next
    case False
    then have big: "2 ^ Suc L < length xs" by simp
    let ?a = "take (2 ^ Suc L) xs" and ?b = "drop (2 ^ Suc L) xs"
    have ne: "?a \<noteq> []" "length ?a \<le> 2 ^ Suc L" "?b \<noteq> []" "length ?b \<le> 2 ^ Suc L"
      using big Suc.prems by auto
    have m: "merkle_level H ?a = take (2 ^ L) (merkle_level H xs)" "merkle_level H ?b = drop (2 ^ L) (merkle_level H xs)"
      by (simp_all only: power_Suc merkle_level_take merkle_level_drop)
    have p: "level_pairs ?a = take (2 ^ L) (level_pairs xs)" "level_pairs ?b = drop (2 ^ L) (level_pairs xs)"
      by (simp_all only: power_Suc level_pairs_take level_pairs_drop)
    have g: "\<not> length (merkle_level H xs) \<le> 2 ^ L" using big by (simp add: merkle_level_length)
    have "set (level_pairs ?a) \<union> set (level_pairs ?b) = set (level_pairs xs)"
      unfolding p by (metis append_take_drop_id set_append)
    then show ?thesis
      using big g unfolding split_pairs.simps(2) [of H "Suc L" xs] split_pairs.simps(2) [of H L "merkle_level H xs"]
        Suc.IH [OF ne(1,2)] Suc.IH [OF ne(3,4)] split_root_level [OF ne(1,2)] split_root_level [OF ne(3,4)] m
      by auto
  qed
qed

lemma merkle_root_split_pairs:
  "xs \<noteq> [] \<Longrightarrow> \<exists>L. merkle_root H null xs = split_root H L xs \<and> length xs \<le> 2 ^ L \<and> split_pairs H L xs = set (merkle_pairs H xs)"
proof (induction "length xs" arbitrary: xs rule: less_induct)
  case less
  show ?case
  proof (cases "length xs = 1")
    case True
    then obtain x where "xs = [x]" by (cases xs) auto
    then show ?thesis by (intro exI [of _ 0]) simp
  next
    case False
    then obtain x y zs where xs: "xs = x # y # zs" using less.prems by (metis One_nat_def length_Cons list.exhaust list.size(3))
    let ?ys = "merkle_level H xs"
    have "length ?ys < length xs" "?ys \<noteq> []" using xs by (simp_all add: merkle_level_length)
    from less.hyps [OF this] obtain L where L: "merkle_root H null ?ys = split_root H L ?ys" "length ?ys \<le> 2 ^ L"
      "split_pairs H L ?ys = set (merkle_pairs H ?ys)" by blast
    then have l: "length xs \<le> 2 ^ Suc L" by (simp add: merkle_level_length)
    have "merkle_root H null xs = merkle_root H null ?ys" by (simp add: xs)
    moreover have "merkle_pairs H xs = level_pairs xs @ merkle_pairs H ?ys" by (rule merkle_pairs_step) (simp add: xs)
    ultimately show ?thesis
      using L l split_root_level [OF less.prems l, of H] split_pairs_level [OF less.prems l, of H] by (intro exI [of _ "Suc L"]) simp
  qed
qed

text \<open>
  Two different pairs of a list with the same hash, and the absence of such pairs in a set.
\<close>

definition hash_pair :: "('h \<Rightarrow> 'h \<Rightarrow> 'h) \<Rightarrow> 'h \<times> 'h \<Rightarrow> 'h" where
  "hash_pair H p = H (fst p) (snd p)"

definition collision :: "('h \<Rightarrow> 'h \<Rightarrow> 'h) \<Rightarrow> ('h \<times> 'h) list \<Rightarrow> bool" where
  "collision H ps \<longleftrightarrow> (\<exists>p \<in> set ps. \<exists>q \<in> set ps. p \<noteq> q \<and> hash_pair H p = hash_pair H q)"

definition no_collision :: "('h \<Rightarrow> 'h \<Rightarrow> 'h) \<Rightarrow> ('h \<times> 'h) set \<Rightarrow> bool" where
  "no_collision H P \<longleftrightarrow> inj_on (hash_pair H) P"

lemma collision_iff: "collision H ps \<longleftrightarrow> \<not> no_collision H (set ps)"
  unfolding collision_def no_collision_def inj_on_def by blast

lemma hash_pairI: "(a, b) \<in> P \<Longrightarrow> H a b \<in> hash_pair H ` P"
  by (force simp: hash_pair_def)

lemma no_collisionD: "no_collision H P \<Longrightarrow> H a b = H c d \<Longrightarrow> (a, b) \<in> P \<Longrightarrow> (c, d) \<in> P \<Longrightarrow> a = c \<and> b = d"
  unfolding no_collision_def by (drule inj_onD [where x = "(a, b)" and y = "(c, d)"]) (auto simp: hash_pair_def)

lemma no_collision_subset: "no_collision H P \<Longrightarrow> Q \<subseteq> P \<Longrightarrow> no_collision H Q"
  unfolding no_collision_def by (rule inj_on_subset)

lemma split_pairs_small:
  "length xs \<le> 2 ^ L \<Longrightarrow> split_pairs H (Suc L) xs = insert (split_root H L xs, split_root H L xs) (split_pairs H L xs)"
  by (simp add: split_pairs.simps)

lemma split_pairs_big:
  "2 ^ L < length xs \<Longrightarrow> split_pairs H (Suc L) xs =
     insert (split_root H L (take (2 ^ L) xs), split_root H L (drop (2 ^ L) xs))
       (split_pairs H L (take (2 ^ L) xs) \<union> split_pairs H L (drop (2 ^ L) xs))"
  by (simp add: split_pairs.simps)

lemma split_root_inj:
  assumes free: "no_collision H P"
  shows "xs \<noteq> [] \<Longrightarrow> ys \<noteq> [] \<Longrightarrow> length xs \<le> 2 ^ L \<Longrightarrow> length ys \<le> 2 ^ L \<Longrightarrow>
    \<not> equal_siblings H xs (length xs) \<Longrightarrow> \<not> equal_siblings H ys (length ys) \<Longrightarrow>
    split_pairs H L xs \<subseteq> P \<Longrightarrow> split_pairs H L ys \<subseteq> P \<Longrightarrow> split_root H L xs = split_root H L ys \<Longrightarrow> xs = ys"
proof (induction L arbitrary: xs ys)
  case 0
  then show ?case by (cases xs; cases ys) auto
next
  case (Suc L)
  have mixed: False
    if l: "length xs \<le> 2 ^ L" "\<not> length ys \<le> 2 ^ L" "xs \<noteq> []" "ys \<noteq> []" "length ys \<le> 2 ^ Suc L"
      and m: "\<not> equal_siblings H xs (length xs)" "\<not> equal_siblings H ys (length ys)"
      and p: "split_pairs H (Suc L) xs \<subseteq> P" "split_pairs H (Suc L) ys \<subseteq> P"
      and e: "split_root H (Suc L) xs = split_root H (Suc L) ys" for xs ys
  proof -
    let ?a = "take (2 ^ L) ys" and ?b = "drop (2 ^ L) ys"
    have big: "2 ^ L < length ys" using l(2) by simp
    note px = p(1) [unfolded split_pairs_small [OF l(1)]] and py = p(2) [unfolded split_pairs_big [OF big]]
    have s: "split_root H L xs = split_root H L ?a" "split_root H L xs = split_root H L ?b"
      using no_collisionD [OF free e [unfolded split_root_small [OF l(1)] split_root_big [OF big]]] px py by auto
    have ne: "?a \<noteq> []" "?b \<noteq> []" "length ?a \<le> 2 ^ L" "length ?b \<le> 2 ^ L" using l by auto
    have mu: "\<not> equal_siblings H ?a (length ?a)" "\<not> equal_siblings H ?b (length ?b)"
      using equal_siblings_take equal_siblings_drop m(2) l(5) by blast+
    have ab: "xs = ?a" "xs = ?b"
      using Suc.IH [OF l(3) ne(1) l(1) ne(3) m(1) mu(1) _ _ s(1)] Suc.IH [OF l(3) ne(2) l(1) ne(4) m(1) mu(2) _ _ s(2)] px py by auto
    have la: "length ?a = 2 ^ L" using l(2) by simp
    then have lb: "length ?b = 2 ^ L" using ab by simp
    then have "full_node H ys L 0 = full_node H ys L 1"
      using ab full_node_take [of 0 L "2 ^ L" H ys] full_node_drop [of 1 L ys H 0] l(2) by simp
    then have "equal_siblings H ys (length ys)"
      unfolding equal_siblings_def by (intro exI [of _ L] exI [of _ 0]) (use lb l(2) in simp)
    then show False using m(2) by simp
  qed
  consider "length xs \<le> 2 ^ L" "length ys \<le> 2 ^ L" | "2 ^ L < length xs" "2 ^ L < length ys"
    using mixed [of xs ys] mixed [of ys xs] Suc.prems by (metis linorder_not_le)
  then show ?case
  proof cases
    case 1
    note p = Suc.prems(7,8) [unfolded split_pairs_small [OF 1(1)] split_pairs_small [OF 1(2)]]
    have "split_root H L xs = split_root H L ys"
      using no_collisionD [OF free Suc.prems(9) [unfolded split_root_small [OF 1(1)] split_root_small [OF 1(2)]]] p by simp
    then show ?thesis using Suc.IH [of xs ys] Suc.prems 1 p by simp
  next
    case 2
    let ?a = "take (2 ^ L) xs" and ?b = "drop (2 ^ L) xs" and ?c = "take (2 ^ L) ys" and ?d = "drop (2 ^ L) ys"
    note p = Suc.prems(7,8) [unfolded split_pairs_big [OF 2(1)] split_pairs_big [OF 2(2)]]
    have "split_root H L ?a = split_root H L ?c" "split_root H L ?b = split_root H L ?d"
      using no_collisionD [OF free Suc.prems(9) [unfolded split_root_big [OF 2(1)] split_root_big [OF 2(2)]]] p by simp_all
    moreover have "\<not> equal_siblings H ?a (length ?a)" "\<not> equal_siblings H ?b (length ?b)"
      "\<not> equal_siblings H ?c (length ?c)" "\<not> equal_siblings H ?d (length ?d)"
      using equal_siblings_take equal_siblings_drop Suc.prems(3,4,5,6) by blast+
    ultimately have "?a = ?c" "?b = ?d"
      using Suc.IH [of ?a ?c] Suc.IH [of ?b ?d] Suc.prems 2 p by auto
    then show ?thesis by (metis append_take_drop_id)
  qed
qed

lemma split_root_head:
  "xs \<noteq> [] \<Longrightarrow> \<exists>ys r. ys \<noteq> [] \<and> set ys \<subseteq> set xs \<and> split_root H (Suc L) xs = H (split_root H L ys) r \<and>
     (split_root H L ys, r) \<in> split_pairs H (Suc L) xs \<and> split_pairs H L ys \<subseteq> split_pairs H (Suc L) xs"
proof (cases "length xs \<le> 2 ^ L")
  case True
  then show "xs \<noteq> [] \<Longrightarrow> ?thesis"
    by (intro exI [of _ xs] exI) (auto simp: split_root_small split_pairs_small)
next
  case False
  then show "xs \<noteq> [] \<Longrightarrow> ?thesis"
    by (intro exI [of _ "take (2 ^ L) xs"] exI) (auto simp: split_root_big split_pairs_big dest: in_set_takeD)
qed

lemma split_root_depth:
  assumes free: "no_collision H (P \<union> Q)"
  shows "xs \<noteq> [] \<Longrightarrow> ys \<noteq> [] \<Longrightarrow> set ys \<inter> hash_pair H ` P = {} \<Longrightarrow> set xs \<inter> hash_pair H ` Q = {} \<Longrightarrow>
    split_pairs H L xs \<subseteq> P \<Longrightarrow> split_pairs H M ys \<subseteq> Q \<Longrightarrow> split_root H L xs = split_root H M ys \<Longrightarrow> L = M"
proof (induction L arbitrary: M xs ys)
  case 0
  show ?case
  proof (cases M)
    case (Suc M')
    obtain ys' r where y: "split_root H M ys = H (split_root H M' ys') r" "(split_root H M' ys', r) \<in> Q"
      using split_root_head [OF "0.prems"(2), of H M'] 0 Suc by blast
    then have "hd xs \<in> hash_pair H ` Q" using "0.prems"(7) hash_pairI [OF y(2), of H] by simp
    then show ?thesis using hd_in_set [OF "0.prems"(1)] "0.prems"(4) by blast
  qed simp
next
  case (Suc L)
  obtain xs' r where x: "xs' \<noteq> []" "set xs' \<subseteq> set xs" "split_root H (Suc L) xs = H (split_root H L xs') r"
      "(split_root H L xs', r) \<in> P" "split_pairs H L xs' \<subseteq> P"
    using split_root_head [OF Suc.prems(1), of H L] Suc.prems(5) by blast
  show ?case
  proof (cases M)
    case 0
    then have "hd ys = H (split_root H L xs') r" using Suc.prems(7) x(3) by simp
    then have "hd ys \<in> hash_pair H ` P" using hash_pairI [OF x(4), of H] by simp
    then show ?thesis using hd_in_set [OF Suc.prems(2)] Suc.prems(3) by blast
  next
    case M: (Suc M')
    obtain ys' r' where y: "ys' \<noteq> []" "set ys' \<subseteq> set ys" "split_root H (Suc M') ys = H (split_root H M' ys') r'"
        "(split_root H M' ys', r') \<in> Q" "split_pairs H M' ys' \<subseteq> Q"
      using split_root_head [OF Suc.prems(2), of H M'] Suc.prems(6) M by blast
    have "H (split_root H L xs') r = H (split_root H M' ys') r'" using Suc.prems(7) x(3) y(3) M by simp
    then have "split_root H L xs' = split_root H M' ys'" using no_collisionD [OF free] x(4) y(4) by blast
    moreover have "set ys' \<inter> hash_pair H ` P = {}" "set xs' \<inter> hash_pair H ` Q = {}"
      using x(2) y(2) Suc.prems(3,4) by blast+
    ultimately show ?thesis using Suc.IH [OF x(1) y(1) _ _ x(5) y(5)] M by blast
  qed
qed

lemma merkle_root_inj:
  assumes free: "no_collision H (set (merkle_pairs H xs) \<union> set (merkle_pairs H ys))"
    and "xs \<noteq> []" and "ys \<noteq> []"
    and leaf: "set ys \<inter> hash_pair H ` set (merkle_pairs H xs) = {}" "set xs \<inter> hash_pair H ` set (merkle_pairs H ys) = {}"
    and "\<not> merkle_mutated H xs" and "\<not> merkle_mutated H ys"
    and root: "merkle_root H null xs = merkle_root H null ys"
  shows "xs = ys"
proof -
  obtain L where L: "merkle_root H null xs = split_root H L xs" "length xs \<le> 2 ^ L" "split_pairs H L xs = set (merkle_pairs H xs)"
    using merkle_root_split_pairs [OF assms(2)] by blast
  obtain M where M: "merkle_root H null ys = split_root H M ys" "length ys \<le> 2 ^ M" "split_pairs H M ys = set (merkle_pairs H ys)"
    using merkle_root_split_pairs [OF assms(3)] by blast
  have "L = M" using split_root_depth [OF free assms(2,3) leaf] root L(1,3) M(1,3) by simp
  then show ?thesis
    using split_root_inj [OF free assms(2,3) L(2)] M root L(1,3) assms(6,7) by (simp add: merkle_mutated_iff)
qed

lemma ComputeMerkleRoot_one: "ComputeMerkleRoot H null [a] = Some (a, False)"
  using MerkleComputation_ok [of "[a]" False "2 ^ 32 - 1" H null, folded merkle_mutated_iff] by (auto simp: ComputeMerkleRoot_def equal_pair.simps)

lemma ComputeMerkleRoot_two: "ComputeMerkleRoot H null [a, b] = Some (H a b, a = b)"
  using MerkleComputation_ok [of "[a, b]" False "2 ^ 32 - 1" H null, folded merkle_mutated_iff] by (auto simp: ComputeMerkleRoot_def equal_pair.simps)

lemma merkle_pairs_two: "merkle_pairs H [a, b] = [(a, b)]" "merkle_pairs H [a] = []"
  by (simp_all add: merkle_pairs.simps)

section \<open>Properties\<close>

text \<open>
  C1: For at most \<open>2\<^sup>3\<^sup>1\<close> leaves the constant-space calculation ends without an undefined shift,
  and returns the root of the level-by-level tree together with whether two sibling subtrees of a
  power of two leaves each have the same hash.
\<close>
theorem ComputeMerkleRoot_correct:
  assumes "length leaves \<le> 2 ^ 31"
  shows "ComputeMerkleRoot H null leaves = Some (merkle_root H null leaves, merkle_mutated H leaves)"
  using MerkleComputation_ok [of leaves False "2 ^ 32 - 1" H null] assms
  by (auto simp: ComputeMerkleRoot_def merkle_mutated_iff)

theorem ComputeMerkleRoot_correct_witness:
  "length [[1], [2], [3 :: nat]] \<le> 2 ^ 31 \<and>
   ComputeMerkleRoot (\<lambda>a b. a @ b) [] [[1], [2], [3 :: nat]] = Some ([1, 2, 3, 3], False)"
proof -
  have "merkle_root (\<lambda>a b. a @ b) [] [[1], [2], [3 :: nat]] = [1, 2, 3, 3]"
    "\<not> merkle_mutated (\<lambda>a b. a @ b) [[1], [2], [3 :: nat]]"
    by code_simp+
  then show ?thesis
    using ComputeMerkleRoot_correct [of "[[1], [2], [3 :: nat]]" "\<lambda>a b. a @ b" "[]"] by simp
qed

text \<open>
  For every position of at most \<open>2\<^sup>3\<^sup>1\<close> leaves, \<open>ComputeMerkleBranch\<close> returns a branch from
  which \<open>ComputeMerkleRootFromBranch\<close> recomputes the Merkle root from that leaf.
\<close>
theorem ComputeMerkleBranch_correct:
  assumes "length leaves \<le> 2 ^ 31" and "position < length leaves"
  shows "\<exists>branch. ComputeMerkleBranch H null leaves position = Some branch \<and>
     ComputeMerkleRootFromBranch H (leaves ! position) branch position = merkle_root H null leaves"
  using MerkleComputation_ok [of leaves True position H null] assms
  by (auto simp: ComputeMerkleBranch_def)

theorem ComputeMerkleBranch_correct_witness:
  "2 < length [[1], [2], [3 :: nat]] \<and>
   (\<exists>branch. ComputeMerkleBranch (\<lambda>a b. a @ b) [] [[1], [2], [3 :: nat]] 2 = Some branch \<and>
      ComputeMerkleRootFromBranch (\<lambda>a b. a @ b) [3] branch 2 = [1, 2, 3, 3])"
proof -
  have "merkle_root (\<lambda>a b. a @ b) [] [[1], [2], [3 :: nat]] = [1, 2, 3, 3]"
    by code_simp
  then show ?thesis
    using ComputeMerkleBranch_correct [of "[[1], [2], [3 :: nat]]" 2 "\<lambda>a b. a @ b" "[]"] by simp
qed



end
