(* ===== verification/Script.thy ===== *)
theory Script
  imports Bytes
begin

text \<open>
  \<^verbatim>\<open>src/src/script/script.h\<close> and \<^verbatim>\<open>src/src/script/script.cpp\<close>: opcodes, script numbers, reading and
  building scripts, and the tests on scripts. A script is its byte list and an iterator is the
  rest of the script that it points at.
\<close>

section \<open>Limits and opcodes\<close>

definition MAX_SCRIPT_ELEMENT_SIZE :: nat where "MAX_SCRIPT_ELEMENT_SIZE = 520"
definition MAX_OPS_PER_SCRIPT :: nat where "MAX_OPS_PER_SCRIPT = 201"
definition MAX_PUBKEYS_PER_MULTISIG :: nat where "MAX_PUBKEYS_PER_MULTISIG = 20"
definition MAX_SCRIPT_SIZE :: nat where "MAX_SCRIPT_SIZE = 10000"
definition MAX_STACK_SIZE :: nat where "MAX_STACK_SIZE = 1000"
definition LOCKTIME_THRESHOLD :: int where "LOCKTIME_THRESHOLD = 500000000"

abbreviation (input) OP_0 :: nat where "OP_0 \<equiv> 0x00"
abbreviation (input) OP_FALSE :: nat where "OP_FALSE \<equiv> 0x00"
abbreviation (input) OP_PUSHDATA1 :: nat where "OP_PUSHDATA1 \<equiv> 0x4c"
abbreviation (input) OP_PUSHDATA2 :: nat where "OP_PUSHDATA2 \<equiv> 0x4d"
abbreviation (input) OP_PUSHDATA4 :: nat where "OP_PUSHDATA4 \<equiv> 0x4e"
abbreviation (input) OP_1NEGATE :: nat where "OP_1NEGATE \<equiv> 0x4f"
abbreviation (input) OP_RESERVED :: nat where "OP_RESERVED \<equiv> 0x50"
abbreviation (input) OP_1 :: nat where "OP_1 \<equiv> 0x51"
abbreviation (input) OP_TRUE :: nat where "OP_TRUE \<equiv> 0x51"
abbreviation (input) OP_2 :: nat where "OP_2 \<equiv> 0x52"
abbreviation (input) OP_3 :: nat where "OP_3 \<equiv> 0x53"
abbreviation (input) OP_4 :: nat where "OP_4 \<equiv> 0x54"
abbreviation (input) OP_5 :: nat where "OP_5 \<equiv> 0x55"
abbreviation (input) OP_6 :: nat where "OP_6 \<equiv> 0x56"
abbreviation (input) OP_7 :: nat where "OP_7 \<equiv> 0x57"
abbreviation (input) OP_8 :: nat where "OP_8 \<equiv> 0x58"
abbreviation (input) OP_9 :: nat where "OP_9 \<equiv> 0x59"
abbreviation (input) OP_10 :: nat where "OP_10 \<equiv> 0x5a"
abbreviation (input) OP_11 :: nat where "OP_11 \<equiv> 0x5b"
abbreviation (input) OP_12 :: nat where "OP_12 \<equiv> 0x5c"
abbreviation (input) OP_13 :: nat where "OP_13 \<equiv> 0x5d"
abbreviation (input) OP_14 :: nat where "OP_14 \<equiv> 0x5e"
abbreviation (input) OP_15 :: nat where "OP_15 \<equiv> 0x5f"
abbreviation (input) OP_16 :: nat where "OP_16 \<equiv> 0x60"
abbreviation (input) OP_NOP :: nat where "OP_NOP \<equiv> 0x61"
abbreviation (input) OP_VER :: nat where "OP_VER \<equiv> 0x62"
abbreviation (input) OP_IF :: nat where "OP_IF \<equiv> 0x63"
abbreviation (input) OP_NOTIF :: nat where "OP_NOTIF \<equiv> 0x64"
abbreviation (input) OP_VERIF :: nat where "OP_VERIF \<equiv> 0x65"
abbreviation (input) OP_VERNOTIF :: nat where "OP_VERNOTIF \<equiv> 0x66"
abbreviation (input) OP_ELSE :: nat where "OP_ELSE \<equiv> 0x67"
abbreviation (input) OP_ENDIF :: nat where "OP_ENDIF \<equiv> 0x68"
abbreviation (input) OP_VERIFY :: nat where "OP_VERIFY \<equiv> 0x69"
abbreviation (input) OP_RETURN :: nat where "OP_RETURN \<equiv> 0x6a"
abbreviation (input) OP_TOALTSTACK :: nat where "OP_TOALTSTACK \<equiv> 0x6b"
abbreviation (input) OP_FROMALTSTACK :: nat where "OP_FROMALTSTACK \<equiv> 0x6c"
abbreviation (input) OP_2DROP :: nat where "OP_2DROP \<equiv> 0x6d"
abbreviation (input) OP_2DUP :: nat where "OP_2DUP \<equiv> 0x6e"
abbreviation (input) OP_3DUP :: nat where "OP_3DUP \<equiv> 0x6f"
abbreviation (input) OP_2OVER :: nat where "OP_2OVER \<equiv> 0x70"
abbreviation (input) OP_2ROT :: nat where "OP_2ROT \<equiv> 0x71"
abbreviation (input) OP_2SWAP :: nat where "OP_2SWAP \<equiv> 0x72"
abbreviation (input) OP_IFDUP :: nat where "OP_IFDUP \<equiv> 0x73"
abbreviation (input) OP_DEPTH :: nat where "OP_DEPTH \<equiv> 0x74"
abbreviation (input) OP_DROP :: nat where "OP_DROP \<equiv> 0x75"
abbreviation (input) OP_DUP :: nat where "OP_DUP \<equiv> 0x76"
abbreviation (input) OP_NIP :: nat where "OP_NIP \<equiv> 0x77"
abbreviation (input) OP_OVER :: nat where "OP_OVER \<equiv> 0x78"
abbreviation (input) OP_PICK :: nat where "OP_PICK \<equiv> 0x79"
abbreviation (input) OP_ROLL :: nat where "OP_ROLL \<equiv> 0x7a"
abbreviation (input) OP_ROT :: nat where "OP_ROT \<equiv> 0x7b"
abbreviation (input) OP_SWAP :: nat where "OP_SWAP \<equiv> 0x7c"
abbreviation (input) OP_TUCK :: nat where "OP_TUCK \<equiv> 0x7d"
abbreviation (input) OP_CAT :: nat where "OP_CAT \<equiv> 0x7e"
abbreviation (input) OP_SUBSTR :: nat where "OP_SUBSTR \<equiv> 0x7f"
abbreviation (input) OP_LEFT :: nat where "OP_LEFT \<equiv> 0x80"
abbreviation (input) OP_RIGHT :: nat where "OP_RIGHT \<equiv> 0x81"
abbreviation (input) OP_SIZE :: nat where "OP_SIZE \<equiv> 0x82"
abbreviation (input) OP_INVERT :: nat where "OP_INVERT \<equiv> 0x83"
abbreviation (input) OP_AND :: nat where "OP_AND \<equiv> 0x84"
abbreviation (input) OP_OR :: nat where "OP_OR \<equiv> 0x85"
abbreviation (input) OP_XOR :: nat where "OP_XOR \<equiv> 0x86"
abbreviation (input) OP_EQUAL :: nat where "OP_EQUAL \<equiv> 0x87"
abbreviation (input) OP_EQUALVERIFY :: nat where "OP_EQUALVERIFY \<equiv> 0x88"
abbreviation (input) OP_RESERVED1 :: nat where "OP_RESERVED1 \<equiv> 0x89"
abbreviation (input) OP_RESERVED2 :: nat where "OP_RESERVED2 \<equiv> 0x8a"
abbreviation (input) OP_1ADD :: nat where "OP_1ADD \<equiv> 0x8b"
abbreviation (input) OP_1SUB :: nat where "OP_1SUB \<equiv> 0x8c"
abbreviation (input) OP_2MUL :: nat where "OP_2MUL \<equiv> 0x8d"
abbreviation (input) OP_2DIV :: nat where "OP_2DIV \<equiv> 0x8e"
abbreviation (input) OP_NEGATE :: nat where "OP_NEGATE \<equiv> 0x8f"
abbreviation (input) OP_ABS :: nat where "OP_ABS \<equiv> 0x90"
abbreviation (input) OP_NOT :: nat where "OP_NOT \<equiv> 0x91"
abbreviation (input) OP_0NOTEQUAL :: nat where "OP_0NOTEQUAL \<equiv> 0x92"
abbreviation (input) OP_ADD :: nat where "OP_ADD \<equiv> 0x93"
abbreviation (input) OP_SUB :: nat where "OP_SUB \<equiv> 0x94"
abbreviation (input) OP_MUL :: nat where "OP_MUL \<equiv> 0x95"
abbreviation (input) OP_DIV :: nat where "OP_DIV \<equiv> 0x96"
abbreviation (input) OP_MOD :: nat where "OP_MOD \<equiv> 0x97"
abbreviation (input) OP_LSHIFT :: nat where "OP_LSHIFT \<equiv> 0x98"
abbreviation (input) OP_RSHIFT :: nat where "OP_RSHIFT \<equiv> 0x99"
abbreviation (input) OP_BOOLAND :: nat where "OP_BOOLAND \<equiv> 0x9a"
abbreviation (input) OP_BOOLOR :: nat where "OP_BOOLOR \<equiv> 0x9b"
abbreviation (input) OP_NUMEQUAL :: nat where "OP_NUMEQUAL \<equiv> 0x9c"
abbreviation (input) OP_NUMEQUALVERIFY :: nat where "OP_NUMEQUALVERIFY \<equiv> 0x9d"
abbreviation (input) OP_NUMNOTEQUAL :: nat where "OP_NUMNOTEQUAL \<equiv> 0x9e"
abbreviation (input) OP_LESSTHAN :: nat where "OP_LESSTHAN \<equiv> 0x9f"
abbreviation (input) OP_GREATERTHAN :: nat where "OP_GREATERTHAN \<equiv> 0xa0"
abbreviation (input) OP_LESSTHANOREQUAL :: nat where "OP_LESSTHANOREQUAL \<equiv> 0xa1"
abbreviation (input) OP_GREATERTHANOREQUAL :: nat where "OP_GREATERTHANOREQUAL \<equiv> 0xa2"
abbreviation (input) OP_MIN :: nat where "OP_MIN \<equiv> 0xa3"
abbreviation (input) OP_MAX :: nat where "OP_MAX \<equiv> 0xa4"
abbreviation (input) OP_WITHIN :: nat where "OP_WITHIN \<equiv> 0xa5"
abbreviation (input) OP_RIPEMD160 :: nat where "OP_RIPEMD160 \<equiv> 0xa6"
abbreviation (input) OP_SHA1 :: nat where "OP_SHA1 \<equiv> 0xa7"
abbreviation (input) OP_SHA256 :: nat where "OP_SHA256 \<equiv> 0xa8"
abbreviation (input) OP_HASH160 :: nat where "OP_HASH160 \<equiv> 0xa9"
abbreviation (input) OP_HASH256 :: nat where "OP_HASH256 \<equiv> 0xaa"
abbreviation (input) OP_CODESEPARATOR :: nat where "OP_CODESEPARATOR \<equiv> 0xab"
abbreviation (input) OP_CHECKSIG :: nat where "OP_CHECKSIG \<equiv> 0xac"
abbreviation (input) OP_CHECKSIGVERIFY :: nat where "OP_CHECKSIGVERIFY \<equiv> 0xad"
abbreviation (input) OP_CHECKMULTISIG :: nat where "OP_CHECKMULTISIG \<equiv> 0xae"
abbreviation (input) OP_CHECKMULTISIGVERIFY :: nat where "OP_CHECKMULTISIGVERIFY \<equiv> 0xaf"
abbreviation (input) OP_NOP1 :: nat where "OP_NOP1 \<equiv> 0xb0"
abbreviation (input) OP_CHECKLOCKTIMEVERIFY :: nat where "OP_CHECKLOCKTIMEVERIFY \<equiv> 0xb1"
abbreviation (input) OP_NOP2 :: nat where "OP_NOP2 \<equiv> 0xb1"
abbreviation (input) OP_CHECKSEQUENCEVERIFY :: nat where "OP_CHECKSEQUENCEVERIFY \<equiv> 0xb2"
abbreviation (input) OP_NOP3 :: nat where "OP_NOP3 \<equiv> 0xb2"
abbreviation (input) OP_NOP4 :: nat where "OP_NOP4 \<equiv> 0xb3"
abbreviation (input) OP_NOP5 :: nat where "OP_NOP5 \<equiv> 0xb4"
abbreviation (input) OP_NOP6 :: nat where "OP_NOP6 \<equiv> 0xb5"
abbreviation (input) OP_NOP7 :: nat where "OP_NOP7 \<equiv> 0xb6"
abbreviation (input) OP_NOP8 :: nat where "OP_NOP8 \<equiv> 0xb7"
abbreviation (input) OP_NOP9 :: nat where "OP_NOP9 \<equiv> 0xb8"
abbreviation (input) OP_NOP10 :: nat where "OP_NOP10 \<equiv> 0xb9"
abbreviation (input) OP_SMALLINTEGER :: nat where "OP_SMALLINTEGER \<equiv> 0xfa"
abbreviation (input) OP_PUBKEYS :: nat where "OP_PUBKEYS \<equiv> 0xfb"
abbreviation (input) OP_PUBKEYHASH :: nat where "OP_PUBKEYHASH \<equiv> 0xfd"
abbreviation (input) OP_PUBKEY :: nat where "OP_PUBKEY \<equiv> 0xfe"
abbreviation (input) OP_INVALIDOPCODE :: nat where "OP_INVALIDOPCODE \<equiv> 0xff"

text \<open>All enumerators in the order of the source, the aliases included.\<close>

definition opcodetype :: "(string \<times> nat) list" where
  "opcodetype =
    [(''OP_0'', OP_0), (''OP_FALSE'', OP_FALSE), (''OP_PUSHDATA1'', OP_PUSHDATA1),
     (''OP_PUSHDATA2'', OP_PUSHDATA2), (''OP_PUSHDATA4'', OP_PUSHDATA4), (''OP_1NEGATE'', OP_1NEGATE),
     (''OP_RESERVED'', OP_RESERVED), (''OP_1'', OP_1), (''OP_TRUE'', OP_TRUE), (''OP_2'', OP_2),
     (''OP_3'', OP_3), (''OP_4'', OP_4), (''OP_5'', OP_5), (''OP_6'', OP_6), (''OP_7'', OP_7),
     (''OP_8'', OP_8), (''OP_9'', OP_9), (''OP_10'', OP_10), (''OP_11'', OP_11), (''OP_12'', OP_12),
     (''OP_13'', OP_13), (''OP_14'', OP_14), (''OP_15'', OP_15), (''OP_16'', OP_16), (''OP_NOP'', OP_NOP),
     (''OP_VER'', OP_VER), (''OP_IF'', OP_IF), (''OP_NOTIF'', OP_NOTIF), (''OP_VERIF'', OP_VERIF),
     (''OP_VERNOTIF'', OP_VERNOTIF), (''OP_ELSE'', OP_ELSE), (''OP_ENDIF'', OP_ENDIF),
     (''OP_VERIFY'', OP_VERIFY), (''OP_RETURN'', OP_RETURN), (''OP_TOALTSTACK'', OP_TOALTSTACK),
     (''OP_FROMALTSTACK'', OP_FROMALTSTACK), (''OP_2DROP'', OP_2DROP), (''OP_2DUP'', OP_2DUP),
     (''OP_3DUP'', OP_3DUP), (''OP_2OVER'', OP_2OVER), (''OP_2ROT'', OP_2ROT), (''OP_2SWAP'', OP_2SWAP),
     (''OP_IFDUP'', OP_IFDUP), (''OP_DEPTH'', OP_DEPTH), (''OP_DROP'', OP_DROP), (''OP_DUP'', OP_DUP),
     (''OP_NIP'', OP_NIP), (''OP_OVER'', OP_OVER), (''OP_PICK'', OP_PICK), (''OP_ROLL'', OP_ROLL),
     (''OP_ROT'', OP_ROT), (''OP_SWAP'', OP_SWAP), (''OP_TUCK'', OP_TUCK), (''OP_CAT'', OP_CAT),
     (''OP_SUBSTR'', OP_SUBSTR), (''OP_LEFT'', OP_LEFT), (''OP_RIGHT'', OP_RIGHT), (''OP_SIZE'', OP_SIZE),
     (''OP_INVERT'', OP_INVERT), (''OP_AND'', OP_AND), (''OP_OR'', OP_OR), (''OP_XOR'', OP_XOR),
     (''OP_EQUAL'', OP_EQUAL), (''OP_EQUALVERIFY'', OP_EQUALVERIFY), (''OP_RESERVED1'', OP_RESERVED1),
     (''OP_RESERVED2'', OP_RESERVED2), (''OP_1ADD'', OP_1ADD), (''OP_1SUB'', OP_1SUB), (''OP_2MUL'', OP_2MUL),
     (''OP_2DIV'', OP_2DIV), (''OP_NEGATE'', OP_NEGATE), (''OP_ABS'', OP_ABS), (''OP_NOT'', OP_NOT),
     (''OP_0NOTEQUAL'', OP_0NOTEQUAL), (''OP_ADD'', OP_ADD), (''OP_SUB'', OP_SUB), (''OP_MUL'', OP_MUL),
     (''OP_DIV'', OP_DIV), (''OP_MOD'', OP_MOD), (''OP_LSHIFT'', OP_LSHIFT), (''OP_RSHIFT'', OP_RSHIFT),
     (''OP_BOOLAND'', OP_BOOLAND), (''OP_BOOLOR'', OP_BOOLOR), (''OP_NUMEQUAL'', OP_NUMEQUAL),
     (''OP_NUMEQUALVERIFY'', OP_NUMEQUALVERIFY), (''OP_NUMNOTEQUAL'', OP_NUMNOTEQUAL),
     (''OP_LESSTHAN'', OP_LESSTHAN), (''OP_GREATERTHAN'', OP_GREATERTHAN),
     (''OP_LESSTHANOREQUAL'', OP_LESSTHANOREQUAL), (''OP_GREATERTHANOREQUAL'', OP_GREATERTHANOREQUAL),
     (''OP_MIN'', OP_MIN), (''OP_MAX'', OP_MAX), (''OP_WITHIN'', OP_WITHIN), (''OP_RIPEMD160'', OP_RIPEMD160),
     (''OP_SHA1'', OP_SHA1), (''OP_SHA256'', OP_SHA256), (''OP_HASH160'', OP_HASH160),
     (''OP_HASH256'', OP_HASH256), (''OP_CODESEPARATOR'', OP_CODESEPARATOR), (''OP_CHECKSIG'', OP_CHECKSIG),
     (''OP_CHECKSIGVERIFY'', OP_CHECKSIGVERIFY), (''OP_CHECKMULTISIG'', OP_CHECKMULTISIG),
     (''OP_CHECKMULTISIGVERIFY'', OP_CHECKMULTISIGVERIFY), (''OP_NOP1'', OP_NOP1),
     (''OP_CHECKLOCKTIMEVERIFY'', OP_CHECKLOCKTIMEVERIFY), (''OP_NOP2'', OP_NOP2),
     (''OP_CHECKSEQUENCEVERIFY'', OP_CHECKSEQUENCEVERIFY), (''OP_NOP3'', OP_NOP3), (''OP_NOP4'', OP_NOP4),
     (''OP_NOP5'', OP_NOP5), (''OP_NOP6'', OP_NOP6), (''OP_NOP7'', OP_NOP7), (''OP_NOP8'', OP_NOP8),
     (''OP_NOP9'', OP_NOP9), (''OP_NOP10'', OP_NOP10), (''OP_SMALLINTEGER'', OP_SMALLINTEGER),
     (''OP_PUBKEYS'', OP_PUBKEYS), (''OP_PUBKEYHASH'', OP_PUBKEYHASH), (''OP_PUBKEY'', OP_PUBKEY),
     (''OP_INVALIDOPCODE'', OP_INVALIDOPCODE)]"

definition MAX_OPCODE :: nat where "MAX_OPCODE = OP_NOP10"

definition op_names :: "(nat \<times> string) list" where
  "op_names =
    [(OP_0, ''0''), (OP_PUSHDATA1, ''OP_PUSHDATA1''), (OP_PUSHDATA2, ''OP_PUSHDATA2''), (OP_PUSHDATA4, ''OP_PUSHDATA4''),
     (OP_1NEGATE, ''-1''), (OP_RESERVED, ''OP_RESERVED''), (OP_1, ''1''), (OP_2, ''2''),
     (OP_3, ''3''), (OP_4, ''4''), (OP_5, ''5''), (OP_6, ''6''),
     (OP_7, ''7''), (OP_8, ''8''), (OP_9, ''9''), (OP_10, ''10''),
     (OP_11, ''11''), (OP_12, ''12''), (OP_13, ''13''), (OP_14, ''14''),
     (OP_15, ''15''), (OP_16, ''16''), (OP_NOP, ''OP_NOP''), (OP_VER, ''OP_VER''),
     (OP_IF, ''OP_IF''), (OP_NOTIF, ''OP_NOTIF''), (OP_VERIF, ''OP_VERIF''), (OP_VERNOTIF, ''OP_VERNOTIF''),
     (OP_ELSE, ''OP_ELSE''), (OP_ENDIF, ''OP_ENDIF''), (OP_VERIFY, ''OP_VERIFY''), (OP_RETURN, ''OP_RETURN''),
     (OP_TOALTSTACK, ''OP_TOALTSTACK''), (OP_FROMALTSTACK, ''OP_FROMALTSTACK''), (OP_2DROP, ''OP_2DROP''), (OP_2DUP, ''OP_2DUP''),
     (OP_3DUP, ''OP_3DUP''), (OP_2OVER, ''OP_2OVER''), (OP_2ROT, ''OP_2ROT''), (OP_2SWAP, ''OP_2SWAP''),
     (OP_IFDUP, ''OP_IFDUP''), (OP_DEPTH, ''OP_DEPTH''), (OP_DROP, ''OP_DROP''), (OP_DUP, ''OP_DUP''),
     (OP_NIP, ''OP_NIP''), (OP_OVER, ''OP_OVER''), (OP_PICK, ''OP_PICK''), (OP_ROLL, ''OP_ROLL''),
     (OP_ROT, ''OP_ROT''), (OP_SWAP, ''OP_SWAP''), (OP_TUCK, ''OP_TUCK''), (OP_CAT, ''OP_CAT''),
     (OP_SUBSTR, ''OP_SUBSTR''), (OP_LEFT, ''OP_LEFT''), (OP_RIGHT, ''OP_RIGHT''), (OP_SIZE, ''OP_SIZE''),
     (OP_INVERT, ''OP_INVERT''), (OP_AND, ''OP_AND''), (OP_OR, ''OP_OR''), (OP_XOR, ''OP_XOR''),
     (OP_EQUAL, ''OP_EQUAL''), (OP_EQUALVERIFY, ''OP_EQUALVERIFY''), (OP_RESERVED1, ''OP_RESERVED1''), (OP_RESERVED2, ''OP_RESERVED2''),
     (OP_1ADD, ''OP_1ADD''), (OP_1SUB, ''OP_1SUB''), (OP_2MUL, ''OP_2MUL''), (OP_2DIV, ''OP_2DIV''),
     (OP_NEGATE, ''OP_NEGATE''), (OP_ABS, ''OP_ABS''), (OP_NOT, ''OP_NOT''), (OP_0NOTEQUAL, ''OP_0NOTEQUAL''),
     (OP_ADD, ''OP_ADD''), (OP_SUB, ''OP_SUB''), (OP_MUL, ''OP_MUL''), (OP_DIV, ''OP_DIV''),
     (OP_MOD, ''OP_MOD''), (OP_LSHIFT, ''OP_LSHIFT''), (OP_RSHIFT, ''OP_RSHIFT''), (OP_BOOLAND, ''OP_BOOLAND''),
     (OP_BOOLOR, ''OP_BOOLOR''), (OP_NUMEQUAL, ''OP_NUMEQUAL''), (OP_NUMEQUALVERIFY, ''OP_NUMEQUALVERIFY''), (OP_NUMNOTEQUAL, ''OP_NUMNOTEQUAL''),
     (OP_LESSTHAN, ''OP_LESSTHAN''), (OP_GREATERTHAN, ''OP_GREATERTHAN''), (OP_LESSTHANOREQUAL, ''OP_LESSTHANOREQUAL''), (OP_GREATERTHANOREQUAL, ''OP_GREATERTHANOREQUAL''),
     (OP_MIN, ''OP_MIN''), (OP_MAX, ''OP_MAX''), (OP_WITHIN, ''OP_WITHIN''), (OP_RIPEMD160, ''OP_RIPEMD160''),
     (OP_SHA1, ''OP_SHA1''), (OP_SHA256, ''OP_SHA256''), (OP_HASH160, ''OP_HASH160''), (OP_HASH256, ''OP_HASH256''),
     (OP_CODESEPARATOR, ''OP_CODESEPARATOR''), (OP_CHECKSIG, ''OP_CHECKSIG''), (OP_CHECKSIGVERIFY, ''OP_CHECKSIGVERIFY''), (OP_CHECKMULTISIG, ''OP_CHECKMULTISIG''),
     (OP_CHECKMULTISIGVERIFY, ''OP_CHECKMULTISIGVERIFY''), (OP_NOP1, ''OP_NOP1''), (OP_CHECKLOCKTIMEVERIFY, ''OP_CHECKLOCKTIMEVERIFY''), (OP_CHECKSEQUENCEVERIFY, ''OP_CHECKSEQUENCEVERIFY''),
     (OP_NOP4, ''OP_NOP4''), (OP_NOP5, ''OP_NOP5''), (OP_NOP6, ''OP_NOP6''), (OP_NOP7, ''OP_NOP7''),
     (OP_NOP8, ''OP_NOP8''), (OP_NOP9, ''OP_NOP9''), (OP_NOP10, ''OP_NOP10''), (OP_INVALIDOPCODE, ''OP_INVALIDOPCODE'')]"

definition GetOpName :: "nat \<Rightarrow> string" where
  "GetOpName opcode = (case map_of op_names opcode of Some name \<Rightarrow> name | None \<Rightarrow> ''OP_UNKNOWN'')"

section \<open>Script numbers\<close>

text \<open>\<open>m_value\<close> is an \<open>int64_t\<close>; \<open>None\<close> is a \<open>scriptnum_error\<close>.\<close>

fun le_digits :: "nat \<Rightarrow> nat \<Rightarrow> bytes" where
  "le_digits 0 absvalue = []"
| "le_digits (Suc n) absvalue =
     (if absvalue = 0 then [] else of_nat (absvalue mod 256) # le_digits n (absvalue div 256))"

text \<open>The loop of \<open>serialize\<close> runs at most eight times on a \<open>uint64_t\<close>.\<close>

definition serialize :: "int \<Rightarrow> bytes" where
  "serialize value =
     (if value = 0 then []
      else let neg = value < 0;
               result = le_digits 8 (nat \<bar>value\<bar>)
           in if last result AND 0x80 \<noteq> 0 then result @ [if neg then 0x80 else 0]
              else if neg then butlast result @ [last result OR 0x80]
              else result)"

definition set_vch :: "bytes \<Rightarrow> int" where
  "set_vch vch =
     (if vch = [] then 0
      else let result = le_nat vch
           in if last vch AND 0x80 \<noteq> 0 then - int (Bit_Operations.unset_bit (8 * length vch - 1) result)
              else int result)"

definition CScriptNum :: "bytes \<Rightarrow> bool \<Rightarrow> nat \<Rightarrow> int option" where
  "CScriptNum vch fRequireMinimal nMaxNumSize =
     (if length vch > nMaxNumSize then None
      else if fRequireMinimal \<and> length vch > 0 \<and> last vch AND 0x7f = 0 \<and>
              (length vch \<le> 1 \<or> vch ! (length vch - 2) AND 0x80 = 0) then None
      else Some (set_vch vch))"

definition nDefaultMaxNumSize :: nat where "nDefaultMaxNumSize = 4"

definition getint :: "int \<Rightarrow> int" where
  "getint m_value =
     (if m_value > 2 ^ 31 - 1 then 2 ^ 31 - 1 else if m_value < - (2 ^ 31) then - (2 ^ 31) else m_value)"

text \<open>Operators that assert: \<open>None\<close> is the failed assertion.\<close>

definition scriptnum_negate :: "int \<Rightarrow> int option" where
  "scriptnum_negate m_value = (if m_value \<noteq> - (2 ^ 63) then Some (- m_value) else None)"

definition scriptnum_add_assign :: "int \<Rightarrow> int \<Rightarrow> int option" where
  "scriptnum_add_assign m_value rhs =
     (if rhs = 0 \<or> (rhs > 0 \<and> m_value \<le> 2 ^ 63 - 1 - rhs) \<or> (rhs < 0 \<and> m_value \<ge> - (2 ^ 63) - rhs)
      then Some (m_value + rhs) else None)"

definition scriptnum_sub_assign :: "int \<Rightarrow> int \<Rightarrow> int option" where
  "scriptnum_sub_assign m_value rhs =
     (if rhs = 0 \<or> (rhs > 0 \<and> m_value \<ge> - (2 ^ 63) + rhs) \<or> (rhs < 0 \<and> m_value \<le> 2 ^ 63 - 1 + rhs)
      then Some (m_value - rhs) else None)"

section \<open>Building scripts\<close>

definition push_opcode :: "bytes \<Rightarrow> nat \<Rightarrow> bytes" where
  "push_opcode script opcode = script @ [of_nat opcode]"

definition push_data :: "bytes \<Rightarrow> bytes \<Rightarrow> bytes" where
  "push_data script b =
     script @
     (if length b < OP_PUSHDATA1 then [of_nat (length b)]
      else if length b \<le> 0xff then [of_nat OP_PUSHDATA1, of_nat (length b)]
      else if length b \<le> 0xffff then of_nat OP_PUSHDATA2 # WriteLE16 (of_nat (length b))
      else of_nat OP_PUSHDATA4 # WriteLE32 (of_nat (length b))) @ b"

definition push_int64 :: "bytes \<Rightarrow> int \<Rightarrow> bytes" where
  "push_int64 script n =
     (if n = - 1 \<or> (n \<ge> 1 \<and> n \<le> 16) then script @ [of_int (n + (int OP_1 - 1))]
      else if n = 0 then script @ [of_nat OP_0]
      else push_data script (serialize n))"

section \<open>Reading scripts\<close>

text \<open>
  The length of the immediate operand of a push opcode and the iterator behind it; the result is
  \<open>Inl\<close> of the iterator when the length bytes are not there.
\<close>

definition GetOp_size :: "nat \<Rightarrow> bytes \<Rightarrow> bytes + nat \<times> bytes" where
  "GetOp_size opcode pc =
     (if opcode < OP_PUSHDATA1 then Inr (opcode, pc)
      else if opcode = OP_PUSHDATA1 then
        (if length pc < 1 then Inl pc else Inr (unat (pc ! 0), drop 1 pc))
      else if opcode = OP_PUSHDATA2 then
        (if length pc < 2 then Inl pc else Inr (unat (ReadLE16 pc), drop 2 pc))
      else (if length pc < 4 then Inl pc else Inr (unat (ReadLE32 pc), drop 4 pc)))"

text \<open>
  \<open>GetOp2\<close> returns its result, \<open>opcodeRet\<close>, \<open>*pvchRet\<close> and the new \<open>pc\<close>. A failing call leaves
  \<open>pc\<close> behind the bytes it has read.
\<close>

definition GetOp :: "bytes \<Rightarrow> bool \<times> nat \<times> bytes \<times> bytes" where
  "GetOp pc =
     (case pc of
        [] \<Rightarrow> (False, OP_INVALIDOPCODE, [], [])
      | b # pc \<Rightarrow>
          let opcode = unat b
          in if opcode \<le> OP_PUSHDATA4 then
               (case GetOp_size opcode pc of
                  Inl pc \<Rightarrow> (False, OP_INVALIDOPCODE, [], pc)
                | Inr (nSize, pc) \<Rightarrow>
                    if length pc < nSize then (False, OP_INVALIDOPCODE, [], pc)
                    else (True, opcode, take nSize pc, drop nSize pc))
             else (True, opcode, [], pc))"

lemma GetOp_size_length: "GetOp_size opcode pc = Inr (n, pc') \<Longrightarrow> length pc' \<le> length pc"
  "GetOp_size opcode pc = Inl pc' \<Longrightarrow> length pc' \<le> length pc"
  by (auto simp: GetOp_size_def split: if_splits)

lemma GetOp_length:
  assumes "GetOp pc = (ok, opcode, vch, pc')" and "pc \<noteq> []"
  shows "length pc' < length pc"
proof -
  obtain b p where pc: "pc = b # p" using assms(2) by (cases pc) auto
  show ?thesis
    using assms(1) unfolding pc GetOp_def
    by (auto simp: Let_def split: if_splits sum.splits prod.splits dest!: GetOp_size_length)
qed

lemma GetOp_Nil [simp]: "GetOp [] = (False, OP_INVALIDOPCODE, [], [])"
  by (simp add: GetOp_def)

definition DecodeOP_N :: "nat \<Rightarrow> nat option" where
  "DecodeOP_N opcode =
     (if opcode = OP_0 then Some 0
      else if opcode \<ge> OP_1 \<and> opcode \<le> OP_16 then Some (opcode - (OP_1 - 1)) else None)"

definition EncodeOP_N :: "int \<Rightarrow> nat option" where
  "EncodeOP_N n =
     (if n \<ge> 0 \<and> n \<le> 16 then (if n = 0 then Some OP_0 else Some (nat (int OP_1 + n - 1))) else None)"

section \<open>Searching scripts\<close>

text \<open>The inner loop of \<open>FindAndDelete\<close> skips copies of \<open>b\<close> and counts them.\<close>

function skip_matches :: "bytes \<Rightarrow> bytes \<Rightarrow> nat \<Rightarrow> bytes \<times> nat" where
  "skip_matches b pc nFound =
     (if b \<noteq> [] \<and> length pc \<ge> length b \<and> take (length b) pc = b
      then skip_matches b (drop (length b) pc) (nFound + 1) else (pc, nFound))"
  by pat_completeness auto
termination
proof (relation "measure (\<lambda>(b, pc, n). length pc)", goal_cases)
  case (2 b pc nFound)
  then have "0 < length b" "length b \<le> length pc" by auto
  then have "length pc - length b < length pc" by linarith
  then show ?case by simp
qed simp

declare skip_matches.simps [simp del]

lemma skip_matches_length: "length (fst (skip_matches b pc n)) \<le> length pc"
proof (induction b pc n rule: skip_matches.induct)
  case (1 b pc n)
  then show ?case by (subst skip_matches.simps) (auto split: if_splits)
qed

text \<open>
  The \<open>do\<close> loop: \<open>pc2\<close> and \<open>pc\<close> delimit the bytes to copy. The result is \<open>result\<close>, \<open>pc2\<close> and
  \<open>nFound\<close> when \<open>GetOp\<close> fails.
\<close>

function FindAndDelete_loop :: "bytes \<Rightarrow> bytes \<Rightarrow> bytes \<Rightarrow> bytes \<Rightarrow> nat \<Rightarrow> bytes \<times> bytes \<times> nat" where
  "FindAndDelete_loop b pc pc2 result nFound =
     (let result = result @ take (length pc2 - length pc) pc2;
          (pc, nFound) = skip_matches b pc nFound;
          pc2 = pc;
          (ok, opcode, vch, pc') = GetOp pc
      in if ok then FindAndDelete_loop b pc' pc2 result nFound else (result, pc2, nFound))"
  by pat_completeness auto
termination
proof (relation "measure (\<lambda>(b, pc, pc2, result, n). length pc)", goal_cases)
  case (2 b pc pc2 result nFound r x pc1 n1 p2 y ok yb opcode yc vch pc')
  then have "length pc1 \<le> length pc" using skip_matches_length [of b pc nFound] by (metis fst_conv)
  moreover have "GetOp pc1 = (ok, opcode, vch, pc')" using 2 by simp
  then have "length pc' < length pc1" using 2 GetOp_length by (cases "pc1 = []") auto
  ultimately show ?case by simp
qed simp

declare FindAndDelete_loop.simps [simp del]

definition FindAndDelete :: "bytes \<Rightarrow> bytes \<Rightarrow> bytes \<times> nat" where
  "FindAndDelete script b =
     (if b = [] then (script, 0)
      else let (result, pc2, nFound) = FindAndDelete_loop b script script [] 0
           in if nFound > 0 then (result @ pc2, nFound) else (script, nFound))"

function Find_op :: "bytes \<Rightarrow> nat \<Rightarrow> nat \<Rightarrow> nat" where
  "Find_op pc op nFound =
     (if pc = [] then nFound
      else let (ok, opcode, vch, pc') = GetOp pc
           in if ok then Find_op pc' op (if opcode = op then nFound + 1 else nFound) else nFound)"
  by pat_completeness auto
termination
  by (relation "measure (\<lambda>(pc, op, n). length pc)") (auto dest: GetOp_length [OF sym])

declare Find_op.simps [simp del]

section \<open>Tests on scripts\<close>

text \<open>\<open>GetSigOpCount(bool)\<close>; \<open>DecodeOP_N\<close> is called on \<open>OP_1\<close> to \<open>OP_16\<close> only.\<close>

function GetSigOpCount_loop :: "bool \<Rightarrow> bytes \<Rightarrow> nat \<Rightarrow> nat \<Rightarrow> nat" where
  "GetSigOpCount_loop fAccurate pc lastOpcode n =
     (if pc = [] then n
      else let (ok, opcode, vch, pc') = GetOp pc
           in if \<not> ok then n
              else GetSigOpCount_loop fAccurate pc' opcode
                (if opcode = OP_CHECKSIG \<or> opcode = OP_CHECKSIGVERIFY then n + 1
                 else if opcode = OP_CHECKMULTISIG \<or> opcode = OP_CHECKMULTISIGVERIFY then
                   (if fAccurate \<and> lastOpcode \<ge> OP_1 \<and> lastOpcode \<le> OP_16
                    then n + the (DecodeOP_N lastOpcode) else n + MAX_PUBKEYS_PER_MULTISIG)
                 else n))"
  by pat_completeness auto
termination
  by (relation "measure (\<lambda>(f, pc, l, n). length pc)") (auto dest: GetOp_length [OF sym])

declare GetSigOpCount_loop.simps [simp del]

definition GetSigOpCount :: "bytes \<Rightarrow> bool \<Rightarrow> nat" where
  "GetSigOpCount script fAccurate = GetSigOpCount_loop fAccurate script OP_INVALIDOPCODE 0"

definition IsPayToPublicKeyHash :: "bytes \<Rightarrow> bool" where
  "IsPayToPublicKeyHash script \<longleftrightarrow>
     length script = 25 \<and> unat (script ! 0) = OP_DUP \<and> unat (script ! 1) = OP_HASH160 \<and> script ! 2 = 0x14 \<and>
     unat (script ! 23) = OP_EQUALVERIFY \<and> unat (script ! 24) = OP_CHECKSIG"

definition IsPayToScriptHash :: "bytes \<Rightarrow> bool" where
  "IsPayToScriptHash script \<longleftrightarrow>
     length script = 23 \<and> unat (script ! 0) = OP_HASH160 \<and> script ! 1 = 0x14 \<and> unat (script ! 22) = OP_EQUAL"

definition IsPayToWitnessScriptHash :: "bytes \<Rightarrow> bool" where
  "IsPayToWitnessScriptHash script \<longleftrightarrow>
     length script = 34 \<and> unat (script ! 0) = OP_0 \<and> script ! 1 = 0x20"

text \<open>The last item that a push-only \<open>scriptSig\<close> pushes; \<open>None\<close> when it is not push-only.\<close>

function last_push :: "bytes \<Rightarrow> bytes \<Rightarrow> bytes option" where
  "last_push pc vData =
     (if pc = [] then Some vData
      else let (ok, opcode, vch, pc') = GetOp pc
           in if \<not> ok \<or> opcode > OP_16 then None else last_push pc' vch)"
  by pat_completeness auto
termination
  by (relation "measure (\<lambda>(pc, v). length pc)") (auto dest: GetOp_length [OF sym])

declare last_push.simps [simp del]

definition GetSigOpCount_P2SH :: "bytes \<Rightarrow> bytes \<Rightarrow> nat" where
  "GetSigOpCount_P2SH script scriptSig =
     (if \<not> IsPayToScriptHash script then GetSigOpCount script True
      else case last_push scriptSig [] of None \<Rightarrow> 0 | Some subscript \<Rightarrow> GetSigOpCount subscript True)"

text \<open>The witness version and program, when the script is a witness program.\<close>

definition IsWitnessProgram :: "bytes \<Rightarrow> (nat \<times> bytes) option" where
  "IsWitnessProgram script =
     (if length script < 4 \<or> length script > 42 then None
      else if unat (script ! 0) \<noteq> OP_0 \<and> (unat (script ! 0) < OP_1 \<or> unat (script ! 0) > OP_16) then None
      else if unat (script ! 1) + 2 = length script
           then map_option (\<lambda>version. (version, drop 2 script)) (DecodeOP_N (unat (script ! 0)))
           else None)"

function IsPushOnly :: "bytes \<Rightarrow> bool" where
  "IsPushOnly pc =
     (if pc = [] then True
      else let (ok, opcode, vch, pc') = GetOp pc
           in if \<not> ok \<or> opcode > OP_16 then False else IsPushOnly pc')"
  by pat_completeness auto
termination
  by (relation "measure length") (auto dest: GetOp_length [OF sym])

declare IsPushOnly.simps [simp del]

function HasValidOps :: "bytes \<Rightarrow> bool" where
  "HasValidOps pc =
     (if pc = [] then True
      else let (ok, opcode, item, pc') = GetOp pc
           in if \<not> ok \<or> opcode > MAX_OPCODE \<or> length item > MAX_SCRIPT_ELEMENT_SIZE then False else HasValidOps pc')"
  by pat_completeness auto
termination
  by (relation "measure length") (auto dest: GetOp_length [OF sym])

declare HasValidOps.simps [simp del]

definition IsUnspendable :: "bytes \<Rightarrow> bool" where
  "IsUnspendable script \<longleftrightarrow>
     (length script > 0 \<and> unat (script ! 0) = OP_RETURN) \<or> length script > MAX_SCRIPT_SIZE"

lemma u8_top_bit: "(b AND 0x80 \<noteq> (0 :: u8)) = (128 \<le> unat b)"
proof -
  have eq: "bit (unat b) 7 = bit b 7" by (simp only: bit_unsigned_iff) (simp add: possible_bit_def)
  have "(b AND 0x80 \<noteq> 0) = bit b 7" using and_exp_eq_0_iff_not_bit [of b 7] by simp
  also have "\<dots> = odd (unat b div 2 ^ 7)" 
    by (simp only: eq [symmetric] bit_iff_odd [of "unat b"])
  also have "\<dots> = (128 \<le> unat b)"
  proof -
    have "unat b div 2 ^ 7 < 2" using u8_bound [of b] by (simp add: less_mult_imp_div_less)
    then have "unat b div 2 ^ 7 = 0 \<or> unat b div 2 ^ 7 = 1" by arith
    then show ?thesis by (auto simp: div_eq_0_iff)
  qed
  finally show ?thesis .
qed

lemma u8_or_top: "unat b < 128 \<Longrightarrow> unat (b OR 0x80 :: u8) = unat b + 128"
  using or_push_bit_nat [of "unat b" 7 1] by (simp add: unsigned_or_eq)

lemma u8_low_bits: "(b AND 0x7f = (0 :: u8)) = (unat b mod 128 = 0)"
proof -
  have "b AND 0x7f = take_bit 7 b" by (simp add: take_bit_eq_mask mask_eq_exp_minus_1)
  moreover have "unat (take_bit 7 b) = unat b mod 128"
    by (simp only: unsigned_take_bit_eq take_bit_eq_mod [of 7 "unat b"]) simp
  ultimately show ?thesis by (metis unat_eq_zero)
qed

lemma set_vch_neg:
  assumes l: "128 \<le> unat l" and m: "le_nat xs + 256 ^ length xs * (unat l - 128) = m"
  shows "set_vch (xs @ [l]) = - int m"
proof -
  define n where "n = length xs"
  obtain j where j: "unat l = 128 + j" using l le_Suc_ex by blast
  have lv: "le_nat (xs @ [l]) = m + 128 * 256 ^ n"
    using m by (simp add: le_nat_append n_def j algebra_simps)
  have k: "8 * length (xs @ [l]) - 1 = 8 * n + 7" by (simp add: n_def)
  have p: "(256 :: nat) ^ n = 2 ^ (8 * n)" by (simp add: power_mult)
  have "m < 128 * 256 ^ n"
  proof -
    have "j \<le> 127" using j u8_bound [of l] by simp
    then have "256 ^ n * j \<le> 256 ^ n * 127" by (rule mult_le_mono2)
    moreover have "m = le_nat xs + 256 ^ n * j" using m by (simp add: j n_def)
    ultimately show ?thesis using le_nat_bound [of xs] unfolding n_def by linarith
  qed
  then have "(m + 128 * 256 ^ n) div (128 * 256 ^ n) = 1" by (intro div_nat_eqI) simp_all
  moreover have "(2 :: nat) ^ (8 * n + 7) = 128 * 256 ^ n" by (simp only: p power_add) simp
  ultimately have bit: "bit (m + 128 * 256 ^ n) (8 * n + 7)" by (simp only: bit_iff_odd) simp
  have pw: "(2 :: int) ^ (8 * n + 7) = 128 * 256 ^ n" by (simp add: power_add power_mult)
  have "int (Bit_Operations.unset_bit (8 * n + 7) (m + 128 * 256 ^ n)) = int (m + 128 * 256 ^ n) - 128 * 256 ^ n"
    using bit by (simp only: of_nat_unset_bit_eq unset_bit_eq pw bit_of_nat_iff_bit) simp
  then show ?thesis
    unfolding set_vch_def lv k Let_def using l u8_top_bit [of l] by simp
qed

lemma set_vch_pos:
  assumes "unat l < 128" and "le_nat xs + 256 ^ length xs * unat l = m"
  shows "set_vch (xs @ [l]) = int m"
  using assms by (auto simp: set_vch_def u8_top_bit le_nat_append)

lemma le_digits_val: "v < 256 ^ n \<Longrightarrow> le_nat (le_digits n v) = v"
proof (induction n v rule: le_digits.induct)
  case (2 n v)
  then have "v div 256 < 256 ^ n" by (simp add: less_mult_imp_div_less mult.commute)
  then show ?case using 2 by (auto simp: unat_of_nat)
qed simp

lemma le_digits_last: "v < 256 ^ n \<Longrightarrow> v \<noteq> 0 \<Longrightarrow> le_digits n v \<noteq> [] \<and> last (le_digits n v) \<noteq> 0"
proof (induction n v rule: le_digits.induct)
  case (2 n v)
  then have d: "v div 256 < 256 ^ n" by (simp add: less_mult_imp_div_less mult.commute)
  show ?case
  proof (cases "v div 256 = 0")
    case True
    then have "v < 256" by (simp add: div_eq_0_iff)
    then have "unat (of_nat v :: u8) = v" by (simp add: unat_of_nat)
    then have "(of_nat v :: u8) \<noteq> 0" using 2 by (metis unat_0)
    then show ?thesis using 2 True by (cases n) auto
  next
    case False
    then show ?thesis using 2 d by auto
  qed
qed simp

lemma le_nat_lower: "bs \<noteq> [] \<Longrightarrow> last bs \<noteq> 0 \<Longrightarrow> 256 ^ (length bs - 1) \<le> le_nat bs"
proof (induction bs rule: rev_induct)
  case (snoc l xs)
  then have "1 \<le> unat l" by (simp add: Suc_le_eq unat_gt_0)
  then have "256 ^ length xs * 1 \<le> 256 ^ length xs * unat l" by (rule mult_le_mono2)
  then have "256 ^ length xs \<le> le_nat xs + 256 ^ length xs * unat l" by linarith
  then show ?case by (simp add: le_nat_append)
qed simp

lemma le_digits_nat: "bs = [] \<or> last bs \<noteq> 0 \<Longrightarrow> length bs \<le> n \<Longrightarrow> le_digits n (le_nat bs) = bs"
proof (induction bs arbitrary: n)
  case Nil
  then show ?case by (cases n) auto
next
  case (Cons b bs)
  then obtain m where m: "n = Suc m" "length bs \<le> m" by (cases n) auto
  have d: "(unat b + 256 * le_nat bs) mod 256 = unat b" "(unat b + 256 * le_nat bs) div 256 = le_nat bs"
    using u8_bound [of b] by simp_all
  have nz: "le_nat bs \<noteq> 0" if "bs \<noteq> []"
    using le_nat_lower [of bs] Cons.prems that 
    by (cases "le_nat bs = 0") auto
  have "unat b + 256 * le_nat bs \<noteq> 0" using Cons.prems nz by (cases "bs = []") (auto simp: unat_eq_zero)
  then show ?case using Cons.IH [of m] Cons.prems m d by (auto split: if_splits)
qed

text \<open>The two forms of a serialized non-zero number: a separate sign byte, or the sign in the last digit.\<close>

lemma serialize_cases:
  assumes v: "v \<noteq> 0" "nat \<bar>v\<bar> < 256 ^ 8"
  obtains
    (sign_byte) xs where "xs \<noteq> []" "128 \<le> unat (last xs)" "le_nat xs = nat \<bar>v\<bar>"
      "serialize v = xs @ [if v < 0 then 0x80 else 0]"
  | (in_digit) xs l where "0 < unat l" "unat l < 128" "le_nat xs + 256 ^ length xs * unat l = nat \<bar>v\<bar>"
      "serialize v = xs @ [if v < 0 then l OR 0x80 else l]"
proof -
  define d where "d = le_digits 8 (nat \<bar>v\<bar>)"
  have d: "le_nat d = nat \<bar>v\<bar>" "d \<noteq> []" "last d \<noteq> 0"
    using le_digits_val [of "nat \<bar>v\<bar>" 8] le_digits_last [of "nat \<bar>v\<bar>" 8] v unfolding d_def by simp_all
  have s: "serialize v = (if last d AND 0x80 \<noteq> 0 then d @ [if v < 0 then 0x80 else 0]
      else if v < 0 then butlast d @ [last d OR 0x80] else d)"
    using v by (simp add: serialize_def d_def Let_def)
  show thesis
  proof (cases "128 \<le> unat (last d)")
    case True
    then show ?thesis using sign_byte [of d] d s by (simp add: u8_top_bit)
  next
    case False
    have bl: "d = butlast d @ [last d]" using d by simp
    have "le_nat (butlast d) + 256 ^ length (butlast d) * unat (last d) = nat \<bar>v\<bar>"
      using arg_cong [OF bl, of le_nat] d(1) by (simp only: le_nat_append) simp
    moreover have "serialize v = butlast d @ [if v < 0 then last d OR 0x80 else last d]"
      using s False bl by (simp add: u8_top_bit)
    ultimately show ?thesis using in_digit [of "last d" "butlast d"] d False by (simp add: unat_gt_0)
  qed
qed

lemma int_power_8: "v < 2 ^ 63 \<Longrightarrow> - (2 ^ 63) < v \<Longrightarrow> nat \<bar>v :: int\<bar> < 256 ^ 8"
  by simp

lemma set_vch_serialize:
  assumes "\<bar>v\<bar> < 2 ^ 63"
  shows "set_vch (serialize v) = v"
proof (cases "v = 0")
  case True
  then show ?thesis by (simp add: serialize_def set_vch_def)
next
  case False
  have b: "nat \<bar>v\<bar> < 256 ^ 8" using assms by simp
  show ?thesis using False b
  proof (cases rule: serialize_cases)
    case (sign_byte xs)
    then show ?thesis using set_vch_neg [of "0x80" xs "nat \<bar>v\<bar>"] set_vch_pos [of 0 xs "nat \<bar>v\<bar>"] by auto
  next
    case (in_digit xs l)
    then show ?thesis
      using set_vch_neg [of "l OR 0x80" xs "nat \<bar>v\<bar>"] set_vch_pos [of l xs "nat \<bar>v\<bar>"] u8_or_top [of l]
      by auto
  qed
qed

definition minimal_vch :: "bytes \<Rightarrow> bool" where
  "minimal_vch vch \<longleftrightarrow>
     \<not> (length vch > 0 \<and> last vch AND 0x7f = 0 \<and> (length vch \<le> 1 \<or> vch ! (length vch - 2) AND 0x80 = 0))"

lemma minimal_vch_snoc:
  "minimal_vch (xs @ [l]) = (unat l mod 128 \<noteq> 0 \<or> xs \<noteq> [] \<and> 128 \<le> unat (last xs))"
  using u8_top_bit [of "last xs"]
  by (auto simp: minimal_vch_def u8_low_bits nth_append last_conv_nth)

lemma minimal_vch_serialize: "\<bar>v\<bar> < 2 ^ 63 \<Longrightarrow> minimal_vch (serialize v)"
proof (cases "v = 0")
  case False
  assume "\<bar>v\<bar> < 2 ^ 63"
  then have b: "nat \<bar>v\<bar> < 256 ^ 8" by simp
  show ?thesis using False b
    by (cases rule: serialize_cases) (auto simp: minimal_vch_snoc u8_or_top)
qed (simp add: serialize_def minimal_vch_def)

lemma serialize_set_vch:
  assumes min: "minimal_vch vch" and len: "length vch \<le> 8"
  shows "serialize (set_vch vch) = vch"
proof (cases vch rule: rev_cases)
  case Nil
  then show ?thesis by (simp add: set_vch_def serialize_def)
next
  case (snoc xs l)
  show ?thesis
  proof (cases "unat l mod 128 = 0")
    case True
    then have xs: "xs \<noteq> []" "128 \<le> unat (last xs)" using min snoc by (auto simp: minimal_vch_snoc)
    have l: "unat l = 0 \<or> unat l = 128" using True u8_bound [of l] by presburger
    have "last xs \<noteq> 0" using xs by auto
    then have p: "0 < le_nat xs" and d: "le_digits 8 (le_nat xs) = xs"
      using le_nat_lower [of xs] le_digits_nat [of xs 8] xs len snoc by (auto intro: Suc_leI gr0I)
    from l show ?thesis
    proof
      assume "unat l = 0"
      then have l0: "l = 0" by (simp add: unat_eq_zero)
      have "set_vch vch = int (le_nat xs)" using l0 snoc set_vch_pos [of l xs "le_nat xs"] by simp
      then show ?thesis using p d xs by (simp add: snoc l0 serialize_def u8_top_bit)
    next
      assume l: "unat l = 128"
      then have l8: "l = 0x80" by (simp add: word_unat_eq_iff)
      have "set_vch vch = - int (le_nat xs)" using l snoc set_vch_neg [of l xs "le_nat xs"] by simp
      then show ?thesis using p d xs by (simp add: snoc l8 serialize_def u8_top_bit)
    qed
  next
    case False
    define l0 :: u8 where "l0 = of_nat (unat l mod 128)"
    have l0: "unat l0 = unat l mod 128" unfolding l0_def by (simp add: unat_of_nat)
    have nz: "l0 \<noteq> 0" using l0 False by auto
    have d: "le_digits 8 (le_nat (xs @ [l0])) = xs @ [l0]" and p: "0 < le_nat (xs @ [l0])"
      using le_nat_lower [of "xs @ [l0]"] le_digits_nat [of "xs @ [l0]" 8] nz len snoc by (auto intro: Suc_leI gr0I)
    show ?thesis
    proof (cases "128 \<le> unat l")
      case True
      then have "unat l = unat l0 + 128" using l0 u8_bound [of l] by (simp add: le_mod_geq)
      then have l: "l = l0 OR 0x80" "unat l - 128 = unat l0"
        using u8_or_top [of l0] l0 by (simp_all add: word_unat_eq_iff)
      have "set_vch vch = - int (le_nat (xs @ [l0]))"
        unfolding snoc by (rule set_vch_neg [OF True]) (simp add: l(2) le_nat_append)
      moreover have "unat l0 < 128" using l0 by simp
      ultimately show ?thesis using p d l(1) snoc by (simp add: serialize_def u8_top_bit Let_def)
    next
      case False
      then have l: "l = l0" using l0 by (simp add: word_unat_eq_iff)
      have "set_vch vch = int (le_nat (xs @ [l0]))"
        unfolding snoc using False l by (intro set_vch_pos) (simp_all add: le_nat_append)
      moreover have "unat l0 < 128" using False l by simp
      ultimately show ?thesis using p d l snoc by (simp add: serialize_def u8_top_bit Let_def)
    qed
  qed
qed

lemma scale_bound: "a < (256 :: nat) ^ n \<Longrightarrow> j \<le> 127 \<Longrightarrow> a + 256 ^ n * j < 2 ^ (8 * n + 7)"
proof -
  assume a: "a < 256 ^ n" and j: "j \<le> 127"
  have p: "(2 :: nat) ^ (8 * n + 7) = 128 * 256 ^ n" by (simp only: power_add power_mult) simp
  have "256 ^ n * j \<le> 256 ^ n * 127" using j by (rule mult_le_mono2)
  then show ?thesis unfolding p using a by linarith
qed

lemma set_vch_bound: "\<bar>set_vch vch\<bar> < 2 ^ (8 * length vch - 1)"
proof (cases vch rule: rev_cases)
  case Nil
  then show ?thesis by (simp add: set_vch_def)
next
  case (snoc xs l)
  have k: "8 * length vch - 1 = 8 * length xs + 7" by (simp add: snoc)
  show ?thesis
  proof (cases "128 \<le> unat l")
    case True
    then have "unat l - 128 \<le> 127" using u8_bound [of l] by simp
    from scale_bound [OF le_nat_bound this]
    have "int (le_nat xs + 256 ^ length xs * (unat l - 128)) < 2 ^ (8 * length xs + 7)"
      by (metis of_nat_less_iff of_nat_numeral of_nat_power)
    then show ?thesis unfolding k unfolding snoc using set_vch_neg [OF True refl, of xs] by linarith
  next
    case False
    then have "unat l \<le> 127" by simp
    from scale_bound [OF le_nat_bound this]
    have "int (le_nat xs + 256 ^ length xs * unat l) < 2 ^ (8 * length xs + 7)"
      by (metis of_nat_less_iff of_nat_numeral of_nat_power)
    then show ?thesis unfolding k unfolding snoc using set_vch_pos [OF _ refl, of l xs] False by linarith
  qed
qed

lemma power_256: "(256 :: nat) ^ n = 2 ^ (8 * n)"
  by (simp only: power_mult) simp

lemma serialize_length:
  assumes v: "\<bar>v\<bar> < 2 ^ (8 * n - 1)" and n: "n \<le> 8"
  shows "length (serialize v) \<le> n"
proof (cases "v = 0")
  case True
  then show ?thesis by (simp add: serialize_def)
next
  case False
  then have n0: "0 < n" using v by (cases n) auto
  have nv: "nat \<bar>v\<bar> < 2 ^ (8 * n - 1)" using v by (simp add: nat_less_iff)
  have "(2 :: nat) ^ (8 * n - 1) \<le> 256 ^ 8" unfolding power_256 using n by (intro power_increasing) auto
  then have b: "nat \<bar>v\<bar> < 256 ^ 8" using nv by linarith
  show ?thesis using False b
  proof (cases rule: serialize_cases)
    case (sign_byte xs)
    then have "last xs \<noteq> 0" by auto
    have "le_nat xs \<ge> 256 ^ (length xs - 1) * 128"
    proof -
      have "le_nat xs = le_nat (butlast xs) + 256 ^ (length xs - 1) * unat (last xs)"
        using le_nat_append [of "butlast xs" "[last xs]"] sign_byte by simp
      moreover have "256 ^ (length xs - 1) * 128 \<le> 256 ^ (length xs - 1) * unat (last xs)"
        using sign_byte by (intro mult_le_mono2)
      ultimately show ?thesis by linarith
    qed
    moreover have "256 ^ (length xs - 1) * 128 = (2 :: nat) ^ (8 * (length xs - 1) + 7)"
      by (simp only: power_256 power_add) simp
    ultimately have "(2 :: nat) ^ (8 * (length xs - 1) + 7) < 2 ^ (8 * n - 1)"
      using nv sign_byte(3) by linarith
    then have "8 * (length xs - 1) + 7 < 8 * n - 1" by (rule power_less_imp_less_exp [rotated]) simp
    then show ?thesis using sign_byte by simp
  next
    case (in_digit xs l)
    then have "256 ^ length xs * 1 \<le> 256 ^ length xs * unat l" by (intro mult_le_mono2) simp
    then have "256 ^ length xs \<le> nat \<bar>v\<bar>" using in_digit by linarith
    then have "(2 :: nat) ^ (8 * length xs) < 2 ^ (8 * n - 1)" using nv unfolding power_256 by linarith
    then have "8 * length xs < 8 * n - 1" by (rule power_less_imp_less_exp [rotated]) simp
    then show ?thesis using in_digit by simp
  qed
qed

text \<open>
  C9: A minimally encoded script number is exactly the serialization of its value. For operands of
  at most eight bytes, decoding with \<open>fRequireMinimal\<close> succeeds on precisely one byte string for
  every value of the range of the operand size, and on nothing else.\<close>

theorem CScriptNum_canonical:
  assumes "n \<le> 8"
  shows "(CScriptNum vch True n = Some v) = (vch = serialize v \<and> \<bar>v\<bar> < 2 ^ (8 * n - 1))"
proof
  assume "CScriptNum vch True n = Some v"
  then have len: "length vch \<le> n" and min: "minimal_vch vch" and v: "v = set_vch vch"
    by (auto simp: CScriptNum_def minimal_vch_def split: if_splits)
  have "\<bar>v\<bar> < 2 ^ (8 * length vch - 1)" using set_vch_bound v by simp
  also have "\<dots> \<le> (2 :: int) ^ (8 * n - 1)" using len by (intro power_increasing) auto
  finally show "vch = serialize v \<and> \<bar>v\<bar> < 2 ^ (8 * n - 1)"
    using serialize_set_vch [OF min] len assms v by simp
next
  assume v: "vch = serialize v \<and> \<bar>v\<bar> < 2 ^ (8 * n - 1)"
  have "(2 :: int) ^ (8 * n - 1) \<le> 2 ^ 63" using assms by (intro power_increasing) auto
  then have b: "\<bar>v\<bar> < 2 ^ 63" using v by linarith
  show "CScriptNum vch True n = Some v"
    using serialize_length [of v n] minimal_vch_serialize [OF b] set_vch_serialize [OF b] v assms
    by (auto simp: CScriptNum_def minimal_vch_def)
qed

theorem CScriptNum_canonical_witness: "CScriptNum [0x80, 0x80] True nDefaultMaxNumSize = Some (- 128)"
proof -
  have "serialize (- 128) = [0x80, 0x80]" by code_simp
  then show ?thesis using CScriptNum_canonical [of 4 "[0x80, 0x80]" "- 128"] by (simp add: nDefaultMaxNumSize_def)
qed

lemma push_data_append: "push_data script b = script @ push_data [] b"
  by (simp add: push_data_def)

definition push_opcode_for :: "bytes \<Rightarrow> nat" where
  "push_opcode_for b =
     (if length b < OP_PUSHDATA1 then length b
      else if length b \<le> 0xff then OP_PUSHDATA1
      else if length b \<le> 0xffff then OP_PUSHDATA2 else OP_PUSHDATA4)"

lemma GetOp_push_data:
  assumes "length b < 2 ^ 32"
  shows "GetOp (push_data [] b @ rest) = (True, push_opcode_for b, b, rest)"
proof -
  consider "length b < 0x4c" | "0x4c \<le> length b" "length b \<le> 0xff"
    | "0xff < length b" "length b \<le> 0xffff" | "0xffff < length b" by linarith
  then show ?thesis
  proof cases
    case 3
    then have "unat (of_nat (length b) :: u16) = length b" by (simp add: unat_of_nat)
    then show ?thesis using 3
      by (simp add: push_data_def push_opcode_for_def GetOp_def GetOp_size_def WriteLE16_def ReadLE16_def le_nat_bytes)
  next
    case 4
    then have "unat (of_nat (length b) :: u32) = length b" using assms by (simp add: unat_of_nat)
    then show ?thesis using 4 assms
      by (simp add: push_data_def push_opcode_for_def GetOp_def GetOp_size_def WriteLE32_def ReadLE32_def le_nat_bytes)
  qed (auto simp: push_data_def push_opcode_for_def GetOp_def GetOp_size_def unat_of_nat)
qed

lemma push_opcode_for_le: "push_opcode_for b \<le> OP_PUSHDATA4"
  by (auto simp: push_opcode_for_def)

lemma push_data_nonempty: "push_data [] b \<noteq> []"
  by (auto simp: push_data_def)

lemma IsPushOnly_push_data: "length b < 2 ^ 32 \<Longrightarrow> IsPushOnly (push_data [] b @ rest) = IsPushOnly rest"
  using push_opcode_for_le [of b] push_data_nonempty [of b]
  by (subst IsPushOnly.simps) (simp add: GetOp_push_data)

lemma last_push_push_data: "length b < 2 ^ 32 \<Longrightarrow> last_push (push_data [] b @ rest) v = last_push rest b"
  using push_opcode_for_le [of b] push_data_nonempty [of b]
  by (subst last_push.simps) (simp add: GetOp_push_data)

lemma foldl_push_data: "foldl push_data s bs = s @ concat (map (push_data []) bs)"
proof (induction bs arbitrary: s)
  case (Cons b bs)
  then show ?case by (simp add: push_data_append [of s b])
qed simp

text \<open>
  A script built by pushing a list of byte strings is push-only, and its last item, which
  pay-to-script-hash uses as the redeem script, is the last of the strings.\<close>

theorem pushes_roundtrip:
  assumes "\<forall>b \<in> set bs. length b < 2 ^ 32"
  shows "IsPushOnly (foldl push_data [] bs) \<and>
         last_push (foldl push_data [] bs) [] = Some (if bs = [] then [] else last bs)"
proof -
  have "IsPushOnly (concat (map (push_data []) bs))"
    using assms by (induction bs) (simp_all add: IsPushOnly_push_data IsPushOnly.simps [of "[]"])
  moreover have "last_push (concat (map (push_data []) bs)) v = Some (if bs = [] then v else last bs)" for v
    using assms by (induction bs arbitrary: v) (auto simp: last_push_push_data last_push.simps [of "[]"])
  ultimately show ?thesis by (simp add: foldl_push_data)
qed

theorem pushes_roundtrip_witness: "last_push (foldl push_data [] [[1, 2], [0x51]]) [] = Some [0x51]"
  using pushes_roundtrip [of "[[1, 2], [0x51]]"] by simp

section \<open>Signature operations\<close>

lemma GetOp_ok_shorter: "GetOp pc = (True, opcode, vch, pc') \<Longrightarrow> length pc' < length pc"
  by (cases "pc = []") (auto dest: GetOp_length)

lemma DecodeOP_N_bound: "opcode \<ge> OP_1 \<Longrightarrow> opcode \<le> OP_16 \<Longrightarrow> the (DecodeOP_N opcode) \<le> 16"
  by (simp add: DecodeOP_N_def)

lemma GetSigOpCount_loop_mono:
  "n \<le> m \<Longrightarrow> GetSigOpCount_loop True pc l n \<le> GetSigOpCount_loop False pc l m"
proof (induction "length pc" arbitrary: pc l n m rule: less_induct)
  case less
  obtain ok opcode vch pc' where g: "GetOp pc = (ok, opcode, vch, pc')" by (metis prod_cases4)
  show ?case
    using less.prems GetOp_ok_shorter [of pc opcode vch pc'] g DecodeOP_N_bound [of l]
    by (subst (1 2) GetSigOpCount_loop.simps)
      (auto simp: MAX_PUBKEYS_PER_MULTISIG_def intro!: less.hyps split: if_splits)
qed

lemma GetSigOpCount_loop_bound:
  "GetSigOpCount_loop f pc l n \<le> n + 20 * length pc"
proof (induction "length pc" arbitrary: pc l n rule: less_induct)
  case less
  obtain ok opcode vch pc' where g: "GetOp pc = (ok, opcode, vch, pc')" by (metis prod_cases4)
  show ?case
  proof (cases "ok \<and> pc \<noteq> []")
    case True
    then have sh: "length pc' < length pc" using GetOp_ok_shorter g by simp
    have step: "GetSigOpCount_loop f pc l n = GetSigOpCount_loop f pc' opcode k \<Longrightarrow> k \<le> n + 20 \<Longrightarrow> ?thesis" for k
      using less.hyps [OF sh, of opcode k] sh by linarith
    show ?thesis
      by (rule step, subst GetSigOpCount_loop.simps)
        (use g True DecodeOP_N_bound [of l] in \<open>auto simp: MAX_PUBKEYS_PER_MULTISIG_def\<close>)
  next
    case False
    then show ?thesis using g by (subst GetSigOpCount_loop.simps) auto
  qed
qed

text \<open>
  The accurate count of signature operations never exceeds the inaccurate one, and the
  inaccurate one is at most twenty for every byte of the script.\<close>

theorem GetSigOpCount_bounds:
  "GetSigOpCount script True \<le> GetSigOpCount script False \<and> GetSigOpCount script False \<le> 20 * length script"
  using GetSigOpCount_loop_mono [of 0 0 script] GetSigOpCount_loop_bound [of False script OP_INVALIDOPCODE 0]
  by (simp add: GetSigOpCount_def)

section \<open>Deleting from scripts\<close>

text \<open>\<open>removal b xs ys n\<close>: \<open>ys\<close> is \<open>xs\<close> without \<open>n\<close> of its disjoint copies of \<open>b\<close>.\<close>

inductive removal :: "bytes \<Rightarrow> bytes \<Rightarrow> bytes \<Rightarrow> nat \<Rightarrow> bool" for b where
  removal_nil: "removal b [] [] 0"
| removal_keep: "removal b xs ys n \<Longrightarrow> removal b (x # xs) (x # ys) n"
| removal_del: "removal b xs ys n \<Longrightarrow> removal b (b @ xs) ys (Suc n)"

lemma removal_refl: "removal b xs xs 0"
  by (induction xs) (auto intro: removal.intros)

lemma removal_append:
  "removal b xs ys n \<Longrightarrow> removal b us vs m \<Longrightarrow> removal b (xs @ us) (ys @ vs) (n + m)"
  by (induction rule: removal.induct) (auto intro: removal.intros)

lemma removal_length: "removal b xs ys n \<Longrightarrow> length xs = length ys + n * length b"
  by (induction rule: removal.induct) auto

lemma skip_matches_split:
  "\<exists>k copies. snd (skip_matches b pc n) = n + k \<and> pc = copies @ fst (skip_matches b pc n) \<and> removal b copies [] k"
proof (induction b pc n rule: skip_matches.induct)
  case (1 b pc n)
  show ?case
  proof (cases "b \<noteq> [] \<and> length b \<le> length pc \<and> take (length b) pc = b")
    case True
    then obtain k c where ih: "snd (skip_matches b (drop (length b) pc) (n + 1)) = n + 1 + k"
        "drop (length b) pc = c @ fst (skip_matches b (drop (length b) pc) (n + 1))" "removal b c [] k"
      using 1 by blast
    have "pc = (b @ c) @ fst (skip_matches b (drop (length b) pc) (n + 1))"
      using True ih(2) by (metis append_take_drop_id append_assoc)
    moreover have "removal b (b @ c) [] (Suc k)" using ih(3) by (rule removal_del)
    moreover have "skip_matches b pc n = skip_matches b (drop (length b) pc) (n + 1)"
      using True by (subst skip_matches.simps) simp
    ultimately show ?thesis using ih(1) by (metis add_Suc_right add.assoc plus_1_eq_Suc add.commute)
  next
    case False
    then have "skip_matches b pc n = (pc, n)" by (subst skip_matches.simps) auto
    then show ?thesis by (auto intro: removal_nil)
  qed
qed

lemma GetOp_suffix: "GetOp pc = (ok, opcode, vch, pc') \<Longrightarrow> \<exists>us. pc = us @ pc'"
proof (cases pc)
  case (Cons c cs)
  assume g: "GetOp pc = (ok, opcode, vch, pc')"
  have "\<exists>k. pc' = drop k cs"
    using g unfolding Cons GetOp_def
    by (auto simp: Let_def GetOp_size_def drop_drop intro: exI [of _ 0] split: if_splits)
  then show ?thesis using Cons by (metis append_take_drop_id append_Cons)
qed auto

lemma FindAndDelete_loop_removal:
  assumes "removal b dn result nFound" and "script = dn @ mid @ pc" and "pc2 = mid @ pc"
    and "FindAndDelete_loop b pc pc2 result nFound = (r, rest, n)"
  shows "\<exists>d. script = d @ rest \<and> removal b d r n"
  using assms
proof (induction b pc pc2 result nFound arbitrary: dn mid rule: FindAndDelete_loop.induct)
  case (1 b pc pc2 result nFound)
  obtain pc1 k c where sk: "skip_matches b pc nFound = (pc1, nFound + k)" "pc = c @ pc1" "removal b c [] k"
    using skip_matches_split [of b pc nFound] by (metis prod.collapse)
  obtain ok opcode vch pc' where g: "GetOp pc1 = (ok, opcode, vch, pc')" by (metis prod_cases4)
  obtain us where us: "pc1 = us @ pc'" using GetOp_suffix g by blast
  have t: "take (length pc2 - length pc) pc2 = mid" using 1(4) by simp
  have rm: "removal b (dn @ mid @ c) (result @ mid) (nFound + k)"
    using removal_append [OF 1(2) removal_append [OF removal_refl [of b mid] sk(3)]] by simp
  have sc: "script = (dn @ mid @ c) @ us @ pc'" using 1(3) sk us by simp
  show ?case
  proof (cases ok)
    case True
    then have "FindAndDelete_loop b pc' pc1 (result @ mid) (nFound + k) = (r, rest, n)"
      using 1(5) g sk(1) by (subst (asm) FindAndDelete_loop.simps) (simp add: t)
    then show ?thesis
      by (rule 1(1) [OF refl refl sk(1) [symmetric] refl refl g [symmetric] refl refl True, unfolded t, OF rm sc us])
  next
    case False
    then have "r = result @ mid" "rest = pc1" "n = nFound + k"
      using 1(5) g sk(1) by (subst (asm) FindAndDelete_loop.simps, simp add: t)+
    then show ?thesis using rm 1(3) sk by (metis append_assoc)
  qed
qed

text \<open>
  \<open>FindAndDelete\<close> returns the script with exactly \<open>nFound\<close> disjoint copies of a non-empty \<open>b\<close>
  cut out and every other byte kept in order; the script is unchanged when nothing is found.\<close>

theorem FindAndDelete_removal:
  assumes "b \<noteq> []" and "FindAndDelete script b = (result, nFound)"
  shows "removal b script result nFound \<and> length script = length result + nFound * length b \<and>
         (nFound = 0 \<longrightarrow> result = script)"
proof -
  obtain r rest n where l: "FindAndDelete_loop b script script [] 0 = (r, rest, n)" by (metis prod_cases3)
  obtain d where d: "script = d @ rest" "removal b d r n"
    using FindAndDelete_loop_removal [OF removal_nil _ _ l, of script "[]"] by auto
  have "removal b script (r @ rest) n"
    using removal_append [OF d(2) removal_refl [of b rest]] d(1) by simp
  then have "removal b script result nFound"
    using assms l removal_refl [of b script] by (auto simp: FindAndDelete_def split: if_splits)
  then show ?thesis using assms l by (auto simp: FindAndDelete_def dest: removal_length split: if_splits)
qed

theorem FindAndDelete_removal_witness:
  "removal [0x51] [0x51, 0x02, 0x51, 0x51, 0x51] [0x02, 0x51, 0x51] 2"
proof -
  have "FindAndDelete [0x51, 0x02, 0x51, 0x51, 0x51] [0x51] = ([0x02, 0x51, 0x51], 2)" by code_simp
  then show ?thesis using FindAndDelete_removal [of "[0x51]"] by auto
qed

section \<open>Witness programs\<close>

text \<open>
  A script is recognised as the witness program of version \<open>v\<close> exactly when it is one version
  opcode, \<open>OP_0\<close> or \<open>OP_1\<close> to \<open>OP_16\<close>, followed by one direct push of 2 to 40 bytes.\<close>

theorem IsWitnessProgram_iff:
  "(IsWitnessProgram script = Some (v, program)) =
     (v \<le> 16 \<and> 2 \<le> length program \<and> length program \<le> 40 \<and>
      script = of_nat (if v = 0 then OP_0 else OP_1 + v - 1) # push_data [] program)"
proof -
  have p: "push_data [] program = of_nat (length program) # program" if "length program \<le> 40"
    using that by (simp add: push_data_def)
  have w: "(unat b = n) = (b = of_nat n)" if "n < 256" for b :: u8 and n
    using that by (auto simp: unat_of_nat)
  show ?thesis
  proof
    assume r: "IsWitnessProgram script = Some (v, program)"
    then obtain a b where s: "script = a # b # program"
      by (cases script; cases "tl script") (auto simp: IsWitnessProgram_def split: if_splits)
    show "v \<le> 16 \<and> 2 \<le> length program \<and> length program \<le> 40 \<and>
      script = of_nat (if v = 0 then OP_0 else OP_1 + v - 1) # push_data [] program"
      using r p by (auto simp: s IsWitnessProgram_def DecodeOP_N_def w split: if_splits)
  next
    assume "v \<le> 16 \<and> 2 \<le> length program \<and> length program \<le> 40 \<and>
      script = of_nat (if v = 0 then OP_0 else OP_1 + v - 1) # push_data [] program"
    then show "IsWitnessProgram script = Some (v, program)"
      by (auto simp: p IsWitnessProgram_def DecodeOP_N_def unat_of_nat)
  qed
qed

end
