(* ===== verification/Interpreter.thy ===== *)
theory Interpreter
  imports Script Sha256
begin

text \<open>
  \<^verbatim>\<open>src/src/script/interpreter.cpp\<close>: the encoding checks, the stack machine \<open>EvalScript\<close>, and
  \<open>VerifyScript\<close> with pay-to-script-hash and witness programs. A stack is a list with its top at the
  head, so \<open>stacktop(-i)\<close> is element \<open>i - 1\<close>. The result of an evaluation is \<open>Inr\<close> of the state or
  \<open>Inl\<close> of the error; an exception inside \<open>EvalScript\<close> is \<open>SCRIPT_ERR_UNKNOWN_ERROR\<close>, as in its
  \<open>catch\<close>, and a failed assertion is \<open>Abort\<close>. The signature checker, RIPEMD-160, SHA-1 and
  \<open>CPubKey::CheckLowS\<close> are parameters.
\<close>

section \<open>Errors, flags and the environment\<close>

datatype ScriptError =
    SCRIPT_ERR_OK | SCRIPT_ERR_UNKNOWN_ERROR | SCRIPT_ERR_EVAL_FALSE | SCRIPT_ERR_OP_RETURN
  | SCRIPT_ERR_SCRIPT_SIZE | SCRIPT_ERR_PUSH_SIZE | SCRIPT_ERR_OP_COUNT | SCRIPT_ERR_STACK_SIZE
  | SCRIPT_ERR_SIG_COUNT | SCRIPT_ERR_PUBKEY_COUNT
  | SCRIPT_ERR_VERIFY | SCRIPT_ERR_EQUALVERIFY | SCRIPT_ERR_CHECKMULTISIGVERIFY
  | SCRIPT_ERR_CHECKSIGVERIFY | SCRIPT_ERR_NUMEQUALVERIFY
  | SCRIPT_ERR_BAD_OPCODE | SCRIPT_ERR_DISABLED_OPCODE | SCRIPT_ERR_INVALID_STACK_OPERATION
  | SCRIPT_ERR_INVALID_ALTSTACK_OPERATION | SCRIPT_ERR_UNBALANCED_CONDITIONAL
  | SCRIPT_ERR_NEGATIVE_LOCKTIME | SCRIPT_ERR_UNSATISFIED_LOCKTIME
  | SCRIPT_ERR_SIG_HASHTYPE | SCRIPT_ERR_SIG_DER | SCRIPT_ERR_MINIMALDATA | SCRIPT_ERR_SIG_PUSHONLY
  | SCRIPT_ERR_SIG_HIGH_S | SCRIPT_ERR_SIG_NULLDUMMY | SCRIPT_ERR_PUBKEYTYPE | SCRIPT_ERR_CLEANSTACK
  | SCRIPT_ERR_MINIMALIF | SCRIPT_ERR_SIG_NULLFAIL
  | SCRIPT_ERR_DISCOURAGE_UPGRADABLE_NOPS | SCRIPT_ERR_DISCOURAGE_UPGRADABLE_WITNESS_PROGRAM
  | SCRIPT_ERR_WITNESS_PROGRAM_WRONG_LENGTH | SCRIPT_ERR_WITNESS_PROGRAM_WITNESS_EMPTY
  | SCRIPT_ERR_WITNESS_PROGRAM_MISMATCH | SCRIPT_ERR_WITNESS_MALLEATED
  | SCRIPT_ERR_WITNESS_MALLEATED_P2SH | SCRIPT_ERR_WITNESS_UNEXPECTED | SCRIPT_ERR_WITNESS_PUBKEYTYPE

datatype exec_error = ScriptErr ScriptError | Abort

type_synonym 'a exec = "exec_error + 'a"

abbreviation set_error :: "ScriptError \<Rightarrow> 'a exec" where "set_error e \<equiv> Inl (ScriptErr e)"

datatype SigVersion = SIGVERSION_BASE | SIGVERSION_WITNESS_V0

definition SIGHASH_ALL :: u8 where "SIGHASH_ALL = 1"
definition SIGHASH_NONE :: u8 where "SIGHASH_NONE = 2"
definition SIGHASH_SINGLE :: u8 where "SIGHASH_SINGLE = 3"
definition SIGHASH_ANYONECANPAY :: u8 where "SIGHASH_ANYONECANPAY = 0x80"

definition SCRIPT_VERIFY_P2SH :: u32 where "SCRIPT_VERIFY_P2SH = 2 ^ 0"
definition SCRIPT_VERIFY_STRICTENC :: u32 where "SCRIPT_VERIFY_STRICTENC = 2 ^ 1"
definition SCRIPT_VERIFY_DERSIG :: u32 where "SCRIPT_VERIFY_DERSIG = 2 ^ 2"
definition SCRIPT_VERIFY_LOW_S :: u32 where "SCRIPT_VERIFY_LOW_S = 2 ^ 3"
definition SCRIPT_VERIFY_NULLDUMMY :: u32 where "SCRIPT_VERIFY_NULLDUMMY = 2 ^ 4"
definition SCRIPT_VERIFY_SIGPUSHONLY :: u32 where "SCRIPT_VERIFY_SIGPUSHONLY = 2 ^ 5"
definition SCRIPT_VERIFY_MINIMALDATA :: u32 where "SCRIPT_VERIFY_MINIMALDATA = 2 ^ 6"
definition SCRIPT_VERIFY_DISCOURAGE_UPGRADABLE_NOPS :: u32 where
  "SCRIPT_VERIFY_DISCOURAGE_UPGRADABLE_NOPS = 2 ^ 7"
definition SCRIPT_VERIFY_CLEANSTACK :: u32 where "SCRIPT_VERIFY_CLEANSTACK = 2 ^ 8"
definition SCRIPT_VERIFY_CHECKLOCKTIMEVERIFY :: u32 where "SCRIPT_VERIFY_CHECKLOCKTIMEVERIFY = 2 ^ 9"
definition SCRIPT_VERIFY_CHECKSEQUENCEVERIFY :: u32 where "SCRIPT_VERIFY_CHECKSEQUENCEVERIFY = 2 ^ 10"
definition SCRIPT_VERIFY_WITNESS :: u32 where "SCRIPT_VERIFY_WITNESS = 2 ^ 11"
definition SCRIPT_VERIFY_DISCOURAGE_UPGRADABLE_WITNESS_PROGRAM :: u32 where
  "SCRIPT_VERIFY_DISCOURAGE_UPGRADABLE_WITNESS_PROGRAM = 2 ^ 12"
definition SCRIPT_VERIFY_MINIMALIF :: u32 where "SCRIPT_VERIFY_MINIMALIF = 2 ^ 13"
definition SCRIPT_VERIFY_NULLFAIL :: u32 where "SCRIPT_VERIFY_NULLFAIL = 2 ^ 14"
definition SCRIPT_VERIFY_WITNESS_PUBKEYTYPE :: u32 where "SCRIPT_VERIFY_WITNESS_PUBKEYTYPE = 2 ^ 15"

text \<open>The enumerations of hash types and verification flags.\<close>

definition sighash_types :: "u8 list" where
  "sighash_types = [SIGHASH_ALL, SIGHASH_NONE, SIGHASH_SINGLE, SIGHASH_ANYONECANPAY]"

definition script_verify_flags :: "u32 list" where
  "script_verify_flags =
     [SCRIPT_VERIFY_P2SH,
      SCRIPT_VERIFY_STRICTENC,
      SCRIPT_VERIFY_DERSIG,
      SCRIPT_VERIFY_LOW_S,
      SCRIPT_VERIFY_NULLDUMMY,
      SCRIPT_VERIFY_SIGPUSHONLY,
      SCRIPT_VERIFY_MINIMALDATA,
      SCRIPT_VERIFY_DISCOURAGE_UPGRADABLE_NOPS,
      SCRIPT_VERIFY_CLEANSTACK,
      SCRIPT_VERIFY_CHECKLOCKTIMEVERIFY,
      SCRIPT_VERIFY_CHECKSEQUENCEVERIFY,
      SCRIPT_VERIFY_WITNESS,
      SCRIPT_VERIFY_DISCOURAGE_UPGRADABLE_WITNESS_PROGRAM,
      SCRIPT_VERIFY_MINIMALIF,
      SCRIPT_VERIFY_NULLFAIL,
      SCRIPT_VERIFY_WITNESS_PUBKEYTYPE]"

text \<open>\<open>BaseSignatureChecker\<close>; the arguments of \<open>CheckSig\<close> are signature, key, script code and version.\<close>

record BaseSignatureChecker =
  CheckSig :: "bytes \<Rightarrow> bytes \<Rightarrow> bytes \<Rightarrow> SigVersion \<Rightarrow> bool"
  CheckLockTime :: "int \<Rightarrow> bool"
  CheckSequence :: "int \<Rightarrow> bool"

record crypto =
  CRIPEMD160 :: "bytes \<Rightarrow> bytes"
  CSHA1 :: "bytes \<Rightarrow> bytes"
  CheckLowS :: "bytes \<Rightarrow> bool"

record script_env =
  env_flags :: u32
  env_sigversion :: SigVersion
  env_checker :: BaseSignatureChecker
  env_crypto :: crypto

record eval_state =
  st_stack :: "bytes list"
  st_altstack :: "bytes list"
  st_vfExec :: "bool list"
  st_nOpCount :: nat
  st_pbegincodehash :: bytes

text \<open>\<open>flags & F\<close> as a condition.\<close>

definition has_flag :: "u32 \<Rightarrow> u32 \<Rightarrow> bool" where
  "has_flag flags F \<longleftrightarrow> flags AND F \<noteq> 0"

abbreviation env_flag :: "script_env \<Rightarrow> u32 \<Rightarrow> bool" where
  "env_flag env F \<equiv> has_flag (env_flags env) F"

definition sha256_of :: "bytes \<Rightarrow> bytes" where
  "sha256_of v = snd (CSHA256_Finalize (CSHA256_Write (CSHA256_ctor (replicate 64 0)) v))"

definition CHash160 :: "crypto \<Rightarrow> bytes \<Rightarrow> uint160" where
  "CHash160 cr v = CRIPEMD160 cr (sha256_of v)"

section \<open>Encodings\<close>

fun CastToBool :: "bytes \<Rightarrow> bool" where
  "CastToBool [] = False"
| "CastToBool (b # vch) = (if b \<noteq> 0 then \<not> (vch = [] \<and> b = 0x80) else CastToBool vch)"

definition IsCompressedOrUncompressedPubKey :: "bytes \<Rightarrow> bool" where
  "IsCompressedOrUncompressedPubKey vchPubKey =
     (if length vchPubKey < 33 then False
      else if vchPubKey ! 0 = 0x04 then length vchPubKey = 65
      else if vchPubKey ! 0 = 0x02 \<or> vchPubKey ! 0 = 0x03 then length vchPubKey = 33
      else False)"

definition IsCompressedPubKey :: "bytes \<Rightarrow> bool" where
  "IsCompressedPubKey vchPubKey =
     (if length vchPubKey \<noteq> 33 then False
      else if vchPubKey ! 0 \<noteq> 0x02 \<and> vchPubKey ! 0 \<noteq> 0x03 then False else True)"

definition IsValidSignatureEncoding :: "bytes \<Rightarrow> bool" where
  "IsValidSignatureEncoding sig =
     (if length sig < 9 then False
      else if length sig > 73 then False
      else if sig ! 0 \<noteq> 0x30 then False
      else if unat (sig ! 1) \<noteq> length sig - 3 then False
      else let lenR = unat (sig ! 3)
      in if 5 + lenR \<ge> length sig then False
      else let lenS = unat (sig ! (5 + lenR))
      in if lenR + lenS + 7 \<noteq> length sig then False
      else if sig ! 2 \<noteq> 0x02 then False
      else if lenR = 0 then False
      else if sig ! 4 AND 0x80 \<noteq> 0 then False
      else if lenR > 1 \<and> sig ! 4 = 0 \<and> \<not> sig ! 5 AND 0x80 \<noteq> 0 then False
      else if sig ! (lenR + 4) \<noteq> 0x02 then False
      else if lenS = 0 then False
      else if sig ! (lenR + 6) AND 0x80 \<noteq> 0 then False
      else if lenS > 1 \<and> sig ! (lenR + 6) = 0 \<and> \<not> sig ! (lenR + 7) AND 0x80 \<noteq> 0 then False
      else True)"

definition IsLowDERSignature :: "crypto \<Rightarrow> bytes \<Rightarrow> unit exec" where
  "IsLowDERSignature cr vchSig =
     (if \<not> IsValidSignatureEncoding vchSig then set_error SCRIPT_ERR_SIG_DER
      else if \<not> CheckLowS cr (butlast vchSig) then set_error SCRIPT_ERR_SIG_HIGH_S
      else Inr ())"

definition IsDefinedHashtypeSignature :: "bytes \<Rightarrow> bool" where
  "IsDefinedHashtypeSignature vchSig =
     (if length vchSig = 0 then False
      else let nHashType = last vchSig AND NOT SIGHASH_ANYONECANPAY
           in if nHashType < SIGHASH_ALL \<or> nHashType > SIGHASH_SINGLE then False else True)"

definition CheckSignatureEncoding :: "crypto \<Rightarrow> u32 \<Rightarrow> bytes \<Rightarrow> unit exec" where
  "CheckSignatureEncoding cr flags vchSig =
     (if length vchSig = 0 then Inr ()
      else if has_flag flags (SCRIPT_VERIFY_DERSIG OR SCRIPT_VERIFY_LOW_S OR SCRIPT_VERIFY_STRICTENC) \<and>
              \<not> IsValidSignatureEncoding vchSig then set_error SCRIPT_ERR_SIG_DER
      else if has_flag flags SCRIPT_VERIFY_LOW_S \<and> IsLowDERSignature cr vchSig \<noteq> Inr () then
        IsLowDERSignature cr vchSig
      else if has_flag flags SCRIPT_VERIFY_STRICTENC \<and> \<not> IsDefinedHashtypeSignature vchSig then
        set_error SCRIPT_ERR_SIG_HASHTYPE
      else Inr ())"

definition CheckPubKeyEncoding :: "u32 \<Rightarrow> SigVersion \<Rightarrow> bytes \<Rightarrow> unit exec" where
  "CheckPubKeyEncoding flags sigversion vchPubKey =
     (if has_flag flags SCRIPT_VERIFY_STRICTENC \<and> \<not> IsCompressedOrUncompressedPubKey vchPubKey then
        set_error SCRIPT_ERR_PUBKEYTYPE
      else if has_flag flags SCRIPT_VERIFY_WITNESS_PUBKEYTYPE \<and> sigversion = SIGVERSION_WITNESS_V0 \<and>
              \<not> IsCompressedPubKey vchPubKey then set_error SCRIPT_ERR_WITNESS_PUBKEYTYPE
      else Inr ())"

definition CheckMinimalPush :: "bytes \<Rightarrow> nat \<Rightarrow> bool" where
  "CheckMinimalPush data opcode =
     (if length data = 0 then opcode = OP_0
      else if length data = 1 \<and> data ! 0 \<ge> 1 \<and> data ! 0 \<le> 16 then opcode = OP_1 + (unat (data ! 0) - 1)
      else if length data = 1 \<and> data ! 0 = 0x81 then opcode = OP_1NEGATE
      else if length data \<le> 75 then opcode = length data
      else if length data \<le> 255 then opcode = OP_PUSHDATA1
      else if length data \<le> 65535 then opcode = OP_PUSHDATA2
      else True)"

text \<open>Both checks in front of every \<open>CheckSig\<close>.\<close>

definition check_encodings :: "script_env \<Rightarrow> bytes \<Rightarrow> bytes \<Rightarrow> unit exec" where
  "check_encodings env vchSig vchPubKey =
     (case CheckSignatureEncoding (env_crypto env) (env_flags env) vchSig of
        Inl e \<Rightarrow> Inl e
      | Inr _ \<Rightarrow> CheckPubKeyEncoding (env_flags env) (env_sigversion env) vchPubKey)"

section \<open>Instructions\<close>

definition vchFalse :: bytes where "vchFalse = []"
definition vchTrue :: bytes where "vchTrue = [1]"

definition bool_vch :: "bool \<Rightarrow> bytes" where
  "bool_vch f = (if f then vchTrue else vchFalse)"

definition push :: "bytes \<Rightarrow> eval_state \<Rightarrow> eval_state" where
  "push v st = st\<lparr>st_stack := v # st_stack st\<rparr>"

definition swap_at :: "'a list \<Rightarrow> nat \<Rightarrow> nat \<Rightarrow> 'a list" where
  "swap_at s i j = s[i := s ! j, j := s ! i]"

text \<open>\<open>stack.size() < n\<close> is an error, otherwise the instruction replaces the stack.\<close>

definition need :: "nat \<Rightarrow> eval_state \<Rightarrow> (bytes list \<Rightarrow> bytes list) \<Rightarrow> eval_state exec" where
  "need n st f =
     (if length (st_stack st) < n then set_error SCRIPT_ERR_INVALID_STACK_OPERATION
      else Inr (st\<lparr>st_stack := f (st_stack st)\<rparr>))"

definition fRequireMinimal :: "script_env \<Rightarrow> bool" where
  "fRequireMinimal env \<longleftrightarrow> env_flag env SCRIPT_VERIFY_MINIMALDATA"

text \<open>\<open>CScriptNum(vch, fRequireMinimal)\<close> with the exception as an error.\<close>

definition script_num :: "script_env \<Rightarrow> bytes \<Rightarrow> nat \<Rightarrow> int exec" where
  "script_num env vch nMaxNumSize =
     (case CScriptNum vch (fRequireMinimal env) nMaxNumSize of
        None \<Rightarrow> set_error SCRIPT_ERR_UNKNOWN_ERROR | Some n \<Rightarrow> Inr n)"

definition exec_push_num :: "nat \<Rightarrow> eval_state \<Rightarrow> eval_state exec" where
  "exec_push_num opcode st = Inr (push (serialize (int opcode - (int OP_1 - 1))) st)"

definition exec_checklocktimeverify :: "script_env \<Rightarrow> eval_state \<Rightarrow> eval_state exec" where
  "exec_checklocktimeverify env st =
     (if \<not> env_flag env SCRIPT_VERIFY_CHECKLOCKTIMEVERIFY then Inr st
      else if length (st_stack st) < 1 then set_error SCRIPT_ERR_INVALID_STACK_OPERATION
      else case script_num env (st_stack st ! 0) 5 of
        Inl e \<Rightarrow> Inl e
      | Inr nLockTime \<Rightarrow>
          if nLockTime < 0 then set_error SCRIPT_ERR_NEGATIVE_LOCKTIME
          else if \<not> CheckLockTime (env_checker env) nLockTime then set_error SCRIPT_ERR_UNSATISFIED_LOCKTIME
          else Inr st)"

definition SEQUENCE_DISABLE_FLAG_int :: int where "SEQUENCE_DISABLE_FLAG_int = 2 ^ 31"

definition exec_checksequenceverify :: "script_env \<Rightarrow> eval_state \<Rightarrow> eval_state exec" where
  "exec_checksequenceverify env st =
     (if \<not> env_flag env SCRIPT_VERIFY_CHECKSEQUENCEVERIFY then Inr st
      else if length (st_stack st) < 1 then set_error SCRIPT_ERR_INVALID_STACK_OPERATION
      else case script_num env (st_stack st ! 0) 5 of
        Inl e \<Rightarrow> Inl e
      | Inr nSequence \<Rightarrow>
          if nSequence < 0 then set_error SCRIPT_ERR_NEGATIVE_LOCKTIME
          else if nSequence AND SEQUENCE_DISABLE_FLAG_int \<noteq> 0 then Inr st
          else if \<not> CheckSequence (env_checker env) nSequence then set_error SCRIPT_ERR_UNSATISFIED_LOCKTIME
          else Inr st)"

definition exec_upgradable_nop :: "script_env \<Rightarrow> eval_state \<Rightarrow> eval_state exec" where
  "exec_upgradable_nop env st =
     (if env_flag env SCRIPT_VERIFY_DISCOURAGE_UPGRADABLE_NOPS
      then set_error SCRIPT_ERR_DISCOURAGE_UPGRADABLE_NOPS else Inr st)"

definition push_exec :: "bool \<Rightarrow> eval_state \<Rightarrow> eval_state" where
  "push_exec f st = st\<lparr>st_vfExec := f # st_vfExec st\<rparr>"

definition exec_if :: "script_env \<Rightarrow> nat \<Rightarrow> bool \<Rightarrow> eval_state \<Rightarrow> eval_state exec" where
  "exec_if env opcode fExec st =
     (if \<not> fExec then Inr (push_exec False st)
      else if length (st_stack st) < 1 then set_error SCRIPT_ERR_UNBALANCED_CONDITIONAL
      else let vch = st_stack st ! 0
      in if env_sigversion env = SIGVERSION_WITNESS_V0 \<and> env_flag env SCRIPT_VERIFY_MINIMALIF \<and>
            (length vch > 1 \<or> (length vch = 1 \<and> vch ! 0 \<noteq> 1)) then set_error SCRIPT_ERR_MINIMALIF
         else let fValue = (if opcode = OP_NOTIF then \<not> CastToBool vch else CastToBool vch)
              in Inr (push_exec fValue (st\<lparr>st_stack := tl (st_stack st)\<rparr>)))"

definition exec_else :: "eval_state \<Rightarrow> eval_state exec" where
  "exec_else st =
     (case st_vfExec st of
        [] \<Rightarrow> set_error SCRIPT_ERR_UNBALANCED_CONDITIONAL
      | f # fs \<Rightarrow> Inr (st\<lparr>st_vfExec := (\<not> f) # fs\<rparr>))"

definition exec_endif :: "eval_state \<Rightarrow> eval_state exec" where
  "exec_endif st =
     (case st_vfExec st of
        [] \<Rightarrow> set_error SCRIPT_ERR_UNBALANCED_CONDITIONAL
      | f # fs \<Rightarrow> Inr (st\<lparr>st_vfExec := fs\<rparr>))"

definition exec_verify :: "eval_state \<Rightarrow> eval_state exec" where
  "exec_verify st =
     (if length (st_stack st) < 1 then set_error SCRIPT_ERR_INVALID_STACK_OPERATION
      else if CastToBool (st_stack st ! 0) then Inr (st\<lparr>st_stack := tl (st_stack st)\<rparr>)
      else set_error SCRIPT_ERR_VERIFY)"

definition exec_toaltstack :: "eval_state \<Rightarrow> eval_state exec" where
  "exec_toaltstack st =
     (if length (st_stack st) < 1 then set_error SCRIPT_ERR_INVALID_STACK_OPERATION
      else Inr (st\<lparr>st_altstack := st_stack st ! 0 # st_altstack st, st_stack := tl (st_stack st)\<rparr>))"

definition exec_fromaltstack :: "eval_state \<Rightarrow> eval_state exec" where
  "exec_fromaltstack st =
     (if length (st_altstack st) < 1 then set_error SCRIPT_ERR_INVALID_ALTSTACK_OPERATION
      else Inr (st\<lparr>st_stack := st_altstack st ! 0 # st_stack st, st_altstack := tl (st_altstack st)\<rparr>))"

definition exec_stack_many :: "nat \<Rightarrow> eval_state \<Rightarrow> eval_state exec" where
  "exec_stack_many opcode st =
     (if opcode = OP_2DROP then need 2 st (\<lambda>s. drop 2 s)
      else if opcode = OP_2DUP then need 2 st (\<lambda>s. s ! 0 # s ! 1 # s)
      else if opcode = OP_3DUP then need 3 st (\<lambda>s. s ! 0 # s ! 1 # s ! 2 # s)
      else if opcode = OP_2OVER then need 4 st (\<lambda>s. s ! 2 # s ! 3 # s)
      else if opcode = OP_2ROT then need 6 st (\<lambda>s. s ! 4 # s ! 5 # take 4 s @ drop 6 s)
      else if opcode = OP_2SWAP then need 4 st (\<lambda>s. swap_at (swap_at s 3 1) 2 0)
      else if opcode = OP_IFDUP then need 1 st (\<lambda>s. if CastToBool (s ! 0) then s ! 0 # s else s)
      else need 0 st (\<lambda>s. serialize (int (length s)) # s))"

definition exec_stack_one :: "nat \<Rightarrow> eval_state \<Rightarrow> eval_state exec" where
  "exec_stack_one opcode st =
     (if opcode = OP_DROP then need 1 st tl
      else if opcode = OP_DUP then need 1 st (\<lambda>s. s ! 0 # s)
      else if opcode = OP_NIP then need 2 st (\<lambda>s. take 1 s @ drop 2 s)
      else need 2 st (\<lambda>s. s ! 1 # s))"

definition exec_stack_perm :: "nat \<Rightarrow> eval_state \<Rightarrow> eval_state exec" where
  "exec_stack_perm opcode st =
     (if opcode = OP_ROT then need 3 st (\<lambda>s. swap_at (swap_at s 2 1) 1 0)
      else if opcode = OP_SWAP then need 2 st (\<lambda>s. swap_at s 1 0)
      else if opcode = OP_TUCK then need 2 st (\<lambda>s. take 2 s @ s ! 0 # drop 2 s)
      else need 1 st (\<lambda>s. serialize (int (length (s ! 0))) # s))"

definition exec_pick_roll :: "script_env \<Rightarrow> nat \<Rightarrow> eval_state \<Rightarrow> eval_state exec" where
  "exec_pick_roll env opcode st =
     (if length (st_stack st) < 2 then set_error SCRIPT_ERR_INVALID_STACK_OPERATION
      else case script_num env (st_stack st ! 0) nDefaultMaxNumSize of
        Inl e \<Rightarrow> Inl e
      | Inr bn \<Rightarrow>
          let n = getint bn; s = tl (st_stack st)
          in if n < 0 \<or> n \<ge> int (length s) then set_error SCRIPT_ERR_INVALID_STACK_OPERATION
             else let vch = s ! nat n;
                      s = (if opcode = OP_ROLL then take (nat n) s @ drop (nat n + 1) s else s)
                  in Inr (st\<lparr>st_stack := vch # s\<rparr>))"

definition exec_equal :: "nat \<Rightarrow> eval_state \<Rightarrow> eval_state exec" where
  "exec_equal opcode st =
     (if length (st_stack st) < 2 then set_error SCRIPT_ERR_INVALID_STACK_OPERATION
      else let fEqual = (st_stack st ! 1 = st_stack st ! 0);
               s = drop 2 (st_stack st)
           in if opcode = OP_EQUALVERIFY
              then (if fEqual then Inr (st\<lparr>st_stack := s\<rparr>) else set_error SCRIPT_ERR_EQUALVERIFY)
              else Inr (st\<lparr>st_stack := bool_vch fEqual # s\<rparr>))"

definition bool_num :: "bool \<Rightarrow> int" where "bool_num b = (if b then 1 else 0)"

text \<open>\<open>None\<close> is a failed assertion of the number class or of the \<open>default\<close> branch.\<close>

definition unary_num :: "nat \<Rightarrow> int \<Rightarrow> int option" where
  "unary_num opcode bn =
     (if opcode = OP_1ADD then scriptnum_add_assign bn 1
      else if opcode = OP_1SUB then scriptnum_sub_assign bn 1
      else if opcode = OP_NEGATE then scriptnum_negate bn
      else if opcode = OP_ABS then (if bn < 0 then scriptnum_negate bn else Some bn)
      else if opcode = OP_NOT then Some (bool_num (bn = 0))
      else if opcode = OP_0NOTEQUAL then Some (bool_num (bn \<noteq> 0))
      else None)"

definition exec_unary :: "script_env \<Rightarrow> nat \<Rightarrow> eval_state \<Rightarrow> eval_state exec" where
  "exec_unary env opcode st =
     (if length (st_stack st) < 1 then set_error SCRIPT_ERR_INVALID_STACK_OPERATION
      else case script_num env (st_stack st ! 0) nDefaultMaxNumSize of
        Inl e \<Rightarrow> Inl e
      | Inr bn \<Rightarrow>
          (case unary_num opcode bn of
             None \<Rightarrow> Inl Abort
           | Some bn \<Rightarrow> Inr (st\<lparr>st_stack := serialize bn # tl (st_stack st)\<rparr>)))"

text \<open>The binary \<open>operator+\<close> and \<open>operator-\<close> of script numbers do not assert.\<close>

definition binary_num :: "nat \<Rightarrow> int \<Rightarrow> int \<Rightarrow> int option" where
  "binary_num opcode bn1 bn2 =
     (if opcode = OP_ADD then Some (bn1 + bn2)
      else if opcode = OP_SUB then Some (bn1 - bn2)
      else if opcode = OP_BOOLAND then Some (bool_num (bn1 \<noteq> 0 \<and> bn2 \<noteq> 0))
      else if opcode = OP_BOOLOR then Some (bool_num (bn1 \<noteq> 0 \<or> bn2 \<noteq> 0))
      else if opcode = OP_NUMEQUAL then Some (bool_num (bn1 = bn2))
      else if opcode = OP_NUMEQUALVERIFY then Some (bool_num (bn1 = bn2))
      else if opcode = OP_NUMNOTEQUAL then Some (bool_num (bn1 \<noteq> bn2))
      else if opcode = OP_LESSTHAN then Some (bool_num (bn1 < bn2))
      else if opcode = OP_GREATERTHAN then Some (bool_num (bn1 > bn2))
      else if opcode = OP_LESSTHANOREQUAL then Some (bool_num (bn1 \<le> bn2))
      else if opcode = OP_GREATERTHANOREQUAL then Some (bool_num (bn1 \<ge> bn2))
      else if opcode = OP_MIN then Some (if bn1 < bn2 then bn1 else bn2)
      else if opcode = OP_MAX then Some (if bn1 > bn2 then bn1 else bn2)
      else None)"

definition exec_binary :: "script_env \<Rightarrow> nat \<Rightarrow> eval_state \<Rightarrow> eval_state exec" where
  "exec_binary env opcode st =
     (if length (st_stack st) < 2 then set_error SCRIPT_ERR_INVALID_STACK_OPERATION
      else case script_num env (st_stack st ! 1) nDefaultMaxNumSize of
        Inl e \<Rightarrow> Inl e
      | Inr bn1 \<Rightarrow>
      (case script_num env (st_stack st ! 0) nDefaultMaxNumSize of
        Inl e \<Rightarrow> Inl e
      | Inr bn2 \<Rightarrow>
      (case binary_num opcode bn1 bn2 of
        None \<Rightarrow> Inl Abort
      | Some bn \<Rightarrow>
          let s = drop 2 (st_stack st)
          in if opcode = OP_NUMEQUALVERIFY
             then (if CastToBool (serialize bn) then Inr (st\<lparr>st_stack := s\<rparr>)
                   else set_error SCRIPT_ERR_NUMEQUALVERIFY)
             else Inr (st\<lparr>st_stack := serialize bn # s\<rparr>))))"

definition exec_within :: "script_env \<Rightarrow> eval_state \<Rightarrow> eval_state exec" where
  "exec_within env st =
     (if length (st_stack st) < 3 then set_error SCRIPT_ERR_INVALID_STACK_OPERATION
      else case script_num env (st_stack st ! 2) nDefaultMaxNumSize of
        Inl e \<Rightarrow> Inl e
      | Inr bn1 \<Rightarrow>
      (case script_num env (st_stack st ! 1) nDefaultMaxNumSize of
        Inl e \<Rightarrow> Inl e
      | Inr bn2 \<Rightarrow>
      (case script_num env (st_stack st ! 0) nDefaultMaxNumSize of
        Inl e \<Rightarrow> Inl e
      | Inr bn3 \<Rightarrow> Inr (st\<lparr>st_stack := bool_vch (bn2 \<le> bn1 \<and> bn1 < bn3) # drop 3 (st_stack st)\<rparr>))))"

definition exec_hash :: "script_env \<Rightarrow> nat \<Rightarrow> eval_state \<Rightarrow> eval_state exec" where
  "exec_hash env opcode st =
     (if length (st_stack st) < 1 then set_error SCRIPT_ERR_INVALID_STACK_OPERATION
      else let vch = st_stack st ! 0;
               vchHash =
                 (if opcode = OP_RIPEMD160 then CRIPEMD160 (env_crypto env) vch
                  else if opcode = OP_SHA1 then CSHA1 (env_crypto env) vch
                  else if opcode = OP_SHA256 then sha256_of vch
                  else if opcode = OP_HASH160 then CHash160 (env_crypto env) vch
                  else Hash1 (replicate 64 0) vch)
           in Inr (st\<lparr>st_stack := vchHash # tl (st_stack st)\<rparr>))"

text \<open>The script code without the signatures, which only scripts before segregated witness drop.\<close>

definition drop_sig :: "script_env \<Rightarrow> bytes \<Rightarrow> bytes \<Rightarrow> bytes" where
  "drop_sig env vchSig scriptCode =
     (if env_sigversion env = SIGVERSION_BASE then fst (FindAndDelete scriptCode (push_data [] vchSig))
      else scriptCode)"

definition exec_checksig :: "script_env \<Rightarrow> nat \<Rightarrow> eval_state \<Rightarrow> eval_state exec" where
  "exec_checksig env opcode st =
     (if length (st_stack st) < 2 then set_error SCRIPT_ERR_INVALID_STACK_OPERATION
      else let vchSig = st_stack st ! 1;
               vchPubKey = st_stack st ! 0;
               scriptCode = drop_sig env vchSig (st_pbegincodehash st)
      in case check_encodings env vchSig vchPubKey of
        Inl e \<Rightarrow> Inl e
      | Inr _ \<Rightarrow>
          let fSuccess = CheckSig (env_checker env) vchSig vchPubKey scriptCode (env_sigversion env);
              s = drop 2 (st_stack st)
          in if \<not> fSuccess \<and> env_flag env SCRIPT_VERIFY_NULLFAIL \<and> length vchSig \<noteq> 0
             then set_error SCRIPT_ERR_SIG_NULLFAIL
             else if opcode = OP_CHECKSIGVERIFY
             then (if fSuccess then Inr (st\<lparr>st_stack := s\<rparr>) else set_error SCRIPT_ERR_CHECKSIGVERIFY)
             else Inr (st\<lparr>st_stack := bool_vch fSuccess # s\<rparr>))"

text \<open>
  The matching loop of \<open>OP_CHECKMULTISIG\<close> on the stack positions \<open>isig\<close> and \<open>ikey\<close>, counted from 1;
  the result is \<open>fSuccess\<close>. After a key is used, \<open>nSigsCount > nKeysCount - 1\<close> ends the loop.
\<close>

function multisig_loop ::
  "script_env \<Rightarrow> bytes \<Rightarrow> bytes list \<Rightarrow> nat \<Rightarrow> nat \<Rightarrow> nat \<Rightarrow> nat \<Rightarrow> bool exec" where
  "multisig_loop env scriptCode s isig ikey nSigsCount nKeysCount =
     (if nSigsCount = 0 then Inr True
      else let vchSig = s ! (isig - 1); vchPubKey = s ! (ikey - 1)
      in case check_encodings env vchSig vchPubKey of
        Inl e \<Rightarrow> Inl e
      | Inr _ \<Rightarrow>
          let fOk = CheckSig (env_checker env) vchSig vchPubKey scriptCode (env_sigversion env);
              isig = (if fOk then isig + 1 else isig);
              nSigsCount = (if fOk then nSigsCount - 1 else nSigsCount)
          in if nSigsCount \<ge> nKeysCount then Inr False
             else multisig_loop env scriptCode s isig (ikey + 1) nSigsCount (nKeysCount - 1))"
  by pat_completeness auto
termination
  by (relation "measure (\<lambda>(env, c, s, isig, ikey, n, k). k)") auto

declare multisig_loop.simps [simp del]

text \<open>The clean-up loop pops \<open>i\<close> items and checks those below position \<open>ikey2\<close>.\<close>

fun multisig_cleanup :: "bool \<Rightarrow> nat \<Rightarrow> nat \<Rightarrow> bytes list \<Rightarrow> bytes list exec" where
  "multisig_cleanup fNullFail 0 ikey2 s = Inr s"
| "multisig_cleanup fNullFail (Suc i) ikey2 s =
     (case s of
        [] \<Rightarrow> set_error SCRIPT_ERR_UNKNOWN_ERROR
      | v # s \<Rightarrow>
          if fNullFail \<and> ikey2 = 0 \<and> length v \<noteq> 0 then set_error SCRIPT_ERR_SIG_NULLFAIL
          else multisig_cleanup fNullFail i (if ikey2 > 0 then ikey2 - 1 else ikey2) s)"

definition multisig_finish :: "script_env \<Rightarrow> nat \<Rightarrow> bool \<Rightarrow> eval_state \<Rightarrow> eval_state exec" where
  "multisig_finish env opcode fSuccess st =
     (if length (st_stack st) < 1 then set_error SCRIPT_ERR_INVALID_STACK_OPERATION
      else if env_flag env SCRIPT_VERIFY_NULLDUMMY \<and> length (st_stack st ! 0) \<noteq> 0
      then set_error SCRIPT_ERR_SIG_NULLDUMMY
      else let s = tl (st_stack st)
           in if opcode = OP_CHECKMULTISIGVERIFY
              then (if fSuccess then Inr (st\<lparr>st_stack := s\<rparr>) else set_error SCRIPT_ERR_CHECKMULTISIGVERIFY)
              else Inr (st\<lparr>st_stack := bool_vch fSuccess # s\<rparr>))"

definition multisig_run :: "script_env \<Rightarrow> nat \<Rightarrow> nat \<Rightarrow> nat \<Rightarrow> eval_state \<Rightarrow> eval_state exec" where
  "multisig_run env opcode nKeysCount nSigsCount st =
     (let s = st_stack st;
          isig = nKeysCount + 3;
          scriptCode = fold (drop_sig env) (map (\<lambda>k. s ! (isig + k - 1)) [0..<nSigsCount]) (st_pbegincodehash st)
      in case multisig_loop env scriptCode s isig 2 nSigsCount nKeysCount of
        Inl e \<Rightarrow> Inl e
      | Inr fSuccess \<Rightarrow>
          (case multisig_cleanup (\<not> fSuccess \<and> env_flag env SCRIPT_VERIFY_NULLFAIL)
                  (isig + nSigsCount - 1) (nKeysCount + 2) s of
             Inl e \<Rightarrow> Inl e
           | Inr s \<Rightarrow> multisig_finish env opcode fSuccess (st\<lparr>st_stack := s\<rparr>)))"

definition exec_checkmultisig :: "script_env \<Rightarrow> nat \<Rightarrow> eval_state \<Rightarrow> eval_state exec" where
  "exec_checkmultisig env opcode st =
     (if length (st_stack st) < 1 then set_error SCRIPT_ERR_INVALID_STACK_OPERATION
      else case script_num env (st_stack st ! 0) nDefaultMaxNumSize of
        Inl e \<Rightarrow> Inl e
      | Inr bnKeys \<Rightarrow>
      let nKeysCount = getint bnKeys
      in if nKeysCount < 0 \<or> nKeysCount > int MAX_PUBKEYS_PER_MULTISIG then set_error SCRIPT_ERR_PUBKEY_COUNT
      else let st = st\<lparr>st_nOpCount := st_nOpCount st + nat nKeysCount\<rparr>
      in if st_nOpCount st > MAX_OPS_PER_SCRIPT then set_error SCRIPT_ERR_OP_COUNT
      else if length (st_stack st) < nat nKeysCount + 2 then set_error SCRIPT_ERR_INVALID_STACK_OPERATION
      else (case script_num env (st_stack st ! (nat nKeysCount + 1)) nDefaultMaxNumSize of
        Inl e \<Rightarrow> Inl e
      | Inr bnSigs \<Rightarrow>
      let nSigsCount = getint bnSigs
      in if nSigsCount < 0 \<or> nSigsCount > nKeysCount then set_error SCRIPT_ERR_SIG_COUNT
      else if length (st_stack st) < nat nKeysCount + 3 + nat nSigsCount
      then set_error SCRIPT_ERR_INVALID_STACK_OPERATION
      else multisig_run env opcode (nat nKeysCount) (nat nSigsCount) st))"

section \<open>The machine\<close>

definition upgradable_nops :: "nat list" where
  "upgradable_nops = [OP_NOP1, OP_NOP4, OP_NOP5, OP_NOP6, OP_NOP7, OP_NOP8, OP_NOP9, OP_NOP10]"

definition many_ops :: "nat list" where
  "many_ops = [OP_2DROP, OP_2DUP, OP_3DUP, OP_2OVER, OP_2ROT, OP_2SWAP, OP_IFDUP, OP_DEPTH]"

definition one_ops :: "nat list" where
  "one_ops = [OP_DROP, OP_DUP, OP_NIP, OP_OVER]"

definition perm_ops :: "nat list" where
  "perm_ops = [OP_ROT, OP_SWAP, OP_TUCK, OP_SIZE]"

definition unary_ops :: "nat list" where
  "unary_ops = [OP_1ADD, OP_1SUB, OP_NEGATE, OP_ABS, OP_NOT, OP_0NOTEQUAL]"

definition binary_ops :: "nat list" where
  "binary_ops =
     [OP_ADD, OP_SUB, OP_BOOLAND, OP_BOOLOR, OP_NUMEQUAL, OP_NUMEQUALVERIFY, OP_NUMNOTEQUAL, OP_LESSTHAN,
      OP_GREATERTHAN, OP_LESSTHANOREQUAL, OP_GREATERTHANOREQUAL, OP_MIN, OP_MAX]"

definition hash_ops :: "nat list" where
  "hash_ops = [OP_RIPEMD160, OP_SHA1, OP_SHA256, OP_HASH160, OP_HASH256]"

definition disabled_ops :: "nat list" where
  "disabled_ops =
     [OP_CAT, OP_SUBSTR, OP_LEFT, OP_RIGHT, OP_INVERT, OP_AND, OP_OR, OP_XOR, OP_2MUL, OP_2DIV, OP_MUL, OP_DIV,
      OP_MOD, OP_LSHIFT, OP_RSHIFT]"

text \<open>The \<open>switch\<close>; \<open>pc\<close> is the iterator behind the instruction.\<close>

definition exec_opcode :: "script_env \<Rightarrow> nat \<Rightarrow> bool \<Rightarrow> bytes \<Rightarrow> eval_state \<Rightarrow> eval_state exec" where
  "exec_opcode env opcode fExec pc st =
     (if opcode = OP_1NEGATE \<or> (OP_1 \<le> opcode \<and> opcode \<le> OP_16) then exec_push_num opcode st
      else if opcode = OP_NOP then Inr st
      else if opcode = OP_CHECKLOCKTIMEVERIFY then exec_checklocktimeverify env st
      else if opcode = OP_CHECKSEQUENCEVERIFY then exec_checksequenceverify env st
      else if opcode \<in> set upgradable_nops then exec_upgradable_nop env st
      else if opcode = OP_IF \<or> opcode = OP_NOTIF then exec_if env opcode fExec st
      else if opcode = OP_ELSE then exec_else st
      else if opcode = OP_ENDIF then exec_endif st
      else if opcode = OP_VERIFY then exec_verify st
      else if opcode = OP_RETURN then set_error SCRIPT_ERR_OP_RETURN
      else if opcode = OP_TOALTSTACK then exec_toaltstack st
      else if opcode = OP_FROMALTSTACK then exec_fromaltstack st
      else if opcode \<in> set many_ops then exec_stack_many opcode st
      else if opcode \<in> set one_ops then exec_stack_one opcode st
      else if opcode = OP_PICK \<or> opcode = OP_ROLL then exec_pick_roll env opcode st
      else if opcode \<in> set perm_ops then exec_stack_perm opcode st
      else if opcode = OP_EQUAL \<or> opcode = OP_EQUALVERIFY then exec_equal opcode st
      else if opcode \<in> set unary_ops then exec_unary env opcode st
      else if opcode \<in> set binary_ops then exec_binary env opcode st
      else if opcode = OP_WITHIN then exec_within env st
      else if opcode \<in> set hash_ops then exec_hash env opcode st
      else if opcode = OP_CODESEPARATOR then Inr (st\<lparr>st_pbegincodehash := pc\<rparr>)
      else if opcode = OP_CHECKSIG \<or> opcode = OP_CHECKSIGVERIFY then exec_checksig env opcode st
      else if opcode = OP_CHECKMULTISIG \<or> opcode = OP_CHECKMULTISIGVERIFY then exec_checkmultisig env opcode st
      else set_error SCRIPT_ERR_BAD_OPCODE)"

text \<open>What happens to an instruction that has been read and counted.\<close>

definition exec_instr :: "script_env \<Rightarrow> nat \<Rightarrow> bytes \<Rightarrow> bytes \<Rightarrow> eval_state \<Rightarrow> eval_state exec" where
  "exec_instr env opcode vchPushValue pc st =
     (let fExec = (\<forall>f \<in> set (st_vfExec st). f)
      in if fExec \<and> opcode \<le> OP_PUSHDATA4 then
           (if fRequireMinimal env \<and> \<not> CheckMinimalPush vchPushValue opcode
            then set_error SCRIPT_ERR_MINIMALDATA else Inr (push vchPushValue st))
         else if fExec \<or> (OP_IF \<le> opcode \<and> opcode \<le> OP_ENDIF) then exec_opcode env opcode fExec pc st
         else Inr st)"

definition count_op :: "nat \<Rightarrow> eval_state \<Rightarrow> eval_state" where
  "count_op opcode st = (if opcode > OP_16 then st\<lparr>st_nOpCount := st_nOpCount st + 1\<rparr> else st)"

definition check_stack_size :: "eval_state \<Rightarrow> eval_state exec" where
  "check_stack_size st =
     (if length (st_stack st) + length (st_altstack st) > MAX_STACK_SIZE then set_error SCRIPT_ERR_STACK_SIZE
      else Inr st)"

text \<open>One turn of the loop, on the result of \<open>GetOp\<close>.\<close>

definition eval_step :: "script_env \<Rightarrow> bool \<times> nat \<times> bytes \<times> bytes \<Rightarrow> eval_state \<Rightarrow> eval_state exec" where
  "eval_step env instr st =
     (case instr of (ok, opcode, vchPushValue, pc) \<Rightarrow>
        if \<not> ok then set_error SCRIPT_ERR_BAD_OPCODE
        else if length vchPushValue > MAX_SCRIPT_ELEMENT_SIZE then set_error SCRIPT_ERR_PUSH_SIZE
        else if opcode > OP_16 \<and> st_nOpCount st + 1 > MAX_OPS_PER_SCRIPT then set_error SCRIPT_ERR_OP_COUNT
        else if opcode \<in> set disabled_ops then set_error SCRIPT_ERR_DISABLED_OPCODE
        else (case exec_instr env opcode vchPushValue pc (count_op opcode st) of
                Inl e \<Rightarrow> Inl e | Inr st \<Rightarrow> check_stack_size st))"

function eval_loop :: "script_env \<Rightarrow> bytes \<Rightarrow> eval_state \<Rightarrow> eval_state exec" where
  "eval_loop env pc st =
     (if pc = [] then Inr st
      else case eval_step env (GetOp pc) st of
        Inl e \<Rightarrow> Inl e | Inr st \<Rightarrow> eval_loop env (snd (snd (snd (GetOp pc)))) st)"
  by pat_completeness auto
termination
proof (relation "measure (\<lambda>(env, pc, st). length pc)", goal_cases)
  case (2 env pc st st')
  then show ?case using GetOp_length [of pc] by (cases "GetOp pc") auto
qed simp

declare eval_loop.simps [simp del]

definition EvalScript :: "script_env \<Rightarrow> bytes list \<Rightarrow> bytes \<Rightarrow> bytes list exec" where
  "EvalScript env stack script =
     (if length script > MAX_SCRIPT_SIZE then set_error SCRIPT_ERR_SCRIPT_SIZE
      else case eval_loop env script
             \<lparr>st_stack = stack, st_altstack = [], st_vfExec = [], st_nOpCount = 0, st_pbegincodehash = script\<rparr> of
        Inl e \<Rightarrow> Inl e
      | Inr st \<Rightarrow> if st_vfExec st \<noteq> [] then set_error SCRIPT_ERR_UNBALANCED_CONDITIONAL else Inr (st_stack st))"

section \<open>Verification of an input\<close>

abbreviation (input) mk_env :: "crypto \<Rightarrow> BaseSignatureChecker \<Rightarrow> u32 \<Rightarrow> SigVersion \<Rightarrow> script_env" where
  "mk_env cr checker flags v \<equiv>
     \<lparr>env_flags = flags, env_sigversion = v, env_checker = checker, env_crypto = cr\<rparr>"

text \<open>A top that is missing or false is \<open>SCRIPT_ERR_EVAL_FALSE\<close>.\<close>

definition top_true :: "bytes list \<Rightarrow> bool" where
  "top_true stack \<longleftrightarrow> stack \<noteq> [] \<and> CastToBool (hd stack)"

text \<open>The script and the initial stack of a version 0 program. A witness lists its items bottom first.\<close>

definition witness_v0 :: "bytes list \<Rightarrow> bytes \<Rightarrow> (bytes \<times> bytes list) exec" where
  "witness_v0 witness program =
     (if length program = 32 then
        (if length witness = 0 then set_error SCRIPT_ERR_WITNESS_PROGRAM_WITNESS_EMPTY
         else if sha256_of (last witness) \<noteq> program then set_error SCRIPT_ERR_WITNESS_PROGRAM_MISMATCH
         else Inr (last witness, rev (butlast witness)))
      else if length program = 20 then
        (if length witness \<noteq> 2 then set_error SCRIPT_ERR_WITNESS_PROGRAM_MISMATCH
         else Inr (push_opcode (push_opcode (push_data (push_opcode (push_opcode [] OP_DUP) OP_HASH160) program)
                     OP_EQUALVERIFY) OP_CHECKSIG, rev witness))
      else set_error SCRIPT_ERR_WITNESS_PROGRAM_WRONG_LENGTH)"

definition VerifyWitnessProgram ::
  "crypto \<Rightarrow> BaseSignatureChecker \<Rightarrow> u32 \<Rightarrow> bytes list \<Rightarrow> nat \<Rightarrow> bytes \<Rightarrow> unit exec" where
  "VerifyWitnessProgram cr checker flags witness witversion program =
     (if witversion = 0 then
        (case witness_v0 witness program of
           Inl e \<Rightarrow> Inl e
         | Inr (scriptPubKey, stack) \<Rightarrow>
             if \<exists>v \<in> set stack. length v > MAX_SCRIPT_ELEMENT_SIZE then set_error SCRIPT_ERR_PUSH_SIZE
             else (case EvalScript (mk_env cr checker flags SIGVERSION_WITNESS_V0) stack scriptPubKey of
                     Inl e \<Rightarrow> Inl e
                   | Inr stack \<Rightarrow>
                       if length stack \<noteq> 1 then set_error SCRIPT_ERR_EVAL_FALSE
                       else if \<not> CastToBool (hd stack) then set_error SCRIPT_ERR_EVAL_FALSE else Inr ()))
      else if has_flag flags SCRIPT_VERIFY_DISCOURAGE_UPGRADABLE_WITNESS_PROGRAM
      then set_error SCRIPT_ERR_DISCOURAGE_UPGRADABLE_WITNESS_PROGRAM
      else Inr ())"

text \<open>
  The witness part of both branches of \<open>VerifyScript\<close>: when the script is a witness program,
  \<open>scriptSig\<close> must be \<open>expectedSig\<close>. The result is the stack and \<open>hadWitness\<close>; \<open>stack.resize(1)\<close>
  keeps the bottom item.
\<close>

definition verify_witness ::
  "crypto \<Rightarrow> BaseSignatureChecker \<Rightarrow> u32 \<Rightarrow> bytes list \<Rightarrow> bytes \<Rightarrow> bytes \<Rightarrow> bytes \<Rightarrow> ScriptError \<Rightarrow>
   bytes list \<Rightarrow> bool \<Rightarrow> (bytes list \<times> bool) exec" where
  "verify_witness cr checker flags witness scriptSig script expectedSig malleated stack hadWitness =
     (if has_flag flags SCRIPT_VERIFY_WITNESS then
        (case IsWitnessProgram script of
           None \<Rightarrow> Inr (stack, hadWitness)
         | Some (witnessversion, witnessprogram) \<Rightarrow>
             if scriptSig \<noteq> expectedSig then set_error malleated
             else (case VerifyWitnessProgram cr checker flags witness witnessversion witnessprogram of
                     Inl e \<Rightarrow> Inl e
                   | Inr _ \<Rightarrow> Inr ([last stack], True)))
      else Inr (stack, hadWitness))"

text \<open>The pay-to-script-hash part; \<open>stackCopy\<close> is the stack that \<open>scriptSig\<close> left.\<close>

definition verify_p2sh ::
  "crypto \<Rightarrow> BaseSignatureChecker \<Rightarrow> u32 \<Rightarrow> bytes list \<Rightarrow> bytes \<Rightarrow> bytes list \<Rightarrow> bool \<Rightarrow> (bytes list \<times> bool) exec" where
  "verify_p2sh cr checker flags witness scriptSig stackCopy hadWitness =
     (if \<not> IsPushOnly scriptSig then set_error SCRIPT_ERR_SIG_PUSHONLY
      else case stackCopy of
        [] \<Rightarrow> Inl Abort
      | pubKeySerialized # stack \<Rightarrow>
          (case EvalScript (mk_env cr checker flags SIGVERSION_BASE) stack pubKeySerialized of
             Inl e \<Rightarrow> Inl e
           | Inr stack \<Rightarrow>
               if \<not> top_true stack then set_error SCRIPT_ERR_EVAL_FALSE
               else verify_witness cr checker flags witness scriptSig pubKeySerialized
                      (push_data [] pubKeySerialized) SCRIPT_ERR_WITNESS_MALLEATED_P2SH stack hadWitness))"

text \<open>The checks at the end of \<open>VerifyScript\<close>, with their assertions.\<close>

definition verify_clean :: "u32 \<Rightarrow> bytes list \<Rightarrow> bytes list \<Rightarrow> bool \<Rightarrow> unit exec" where
  "verify_clean flags witness stack hadWitness =
     (if has_flag flags SCRIPT_VERIFY_CLEANSTACK \<and>
         (\<not> has_flag flags SCRIPT_VERIFY_P2SH \<or> \<not> has_flag flags SCRIPT_VERIFY_WITNESS) then Inl Abort
      else if has_flag flags SCRIPT_VERIFY_CLEANSTACK \<and> length stack \<noteq> 1 then set_error SCRIPT_ERR_CLEANSTACK
      else if has_flag flags SCRIPT_VERIFY_WITNESS then
        (if \<not> has_flag flags SCRIPT_VERIFY_P2SH then Inl Abort
         else if \<not> hadWitness \<and> witness \<noteq> [] then set_error SCRIPT_ERR_WITNESS_UNEXPECTED
         else Inr ())
      else Inr ())"

definition VerifyScript ::
  "crypto \<Rightarrow> BaseSignatureChecker \<Rightarrow> u32 \<Rightarrow> bytes \<Rightarrow> bytes \<Rightarrow> bytes list \<Rightarrow> unit exec" where
  "VerifyScript cr checker flags scriptSig scriptPubKey witness =
     (if has_flag flags SCRIPT_VERIFY_SIGPUSHONLY \<and> \<not> IsPushOnly scriptSig then set_error SCRIPT_ERR_SIG_PUSHONLY
      else case EvalScript (mk_env cr checker flags SIGVERSION_BASE) [] scriptSig of
        Inl e \<Rightarrow> Inl e
      | Inr stackCopy \<Rightarrow>
      (case EvalScript (mk_env cr checker flags SIGVERSION_BASE) stackCopy scriptPubKey of
        Inl e \<Rightarrow> Inl e
      | Inr stack \<Rightarrow>
      if \<not> top_true stack then set_error SCRIPT_ERR_EVAL_FALSE
      else (case verify_witness cr checker flags witness scriptSig scriptPubKey [] SCRIPT_ERR_WITNESS_MALLEATED
                  stack False of
        Inl e \<Rightarrow> Inl e
      | Inr (stack, hadWitness) \<Rightarrow>
      (case (if has_flag flags SCRIPT_VERIFY_P2SH \<and> IsPayToScriptHash scriptPubKey
             then verify_p2sh cr checker flags witness scriptSig stackCopy hadWitness
             else Inr (stack, hadWitness)) of
        Inl e \<Rightarrow> Inl e
      | Inr (stack, hadWitness) \<Rightarrow> verify_clean flags witness stack hadWitness))))"

section \<open>Signature operations in witnesses\<close>

definition WitnessSigOps :: "nat \<Rightarrow> bytes \<Rightarrow> bytes list \<Rightarrow> nat" where
  "WitnessSigOps witversion witprogram witness =
     (if witversion = 0 then
        (if length witprogram = 20 then 1
         else if length witprogram = 32 \<and> length witness > 0 then GetSigOpCount (last witness) True
         else 0)
      else 0)"

text \<open>\<open>None\<close> is the failed assertion that \<open>SCRIPT_VERIFY_WITNESS\<close> needs \<open>SCRIPT_VERIFY_P2SH\<close>.\<close>

definition CountWitnessSigOps :: "bytes \<Rightarrow> bytes \<Rightarrow> bytes list \<Rightarrow> u32 \<Rightarrow> nat option" where
  "CountWitnessSigOps scriptSig scriptPubKey witness flags =
     (if \<not> has_flag flags SCRIPT_VERIFY_WITNESS then Some 0
      else if \<not> has_flag flags SCRIPT_VERIFY_P2SH then None
      else case IsWitnessProgram scriptPubKey of
        Some (witnessversion, witnessprogram) \<Rightarrow> Some (WitnessSigOps witnessversion witnessprogram witness)
      | None \<Rightarrow>
          if IsPayToScriptHash scriptPubKey \<and> IsPushOnly scriptSig then
            (case IsWitnessProgram (the (last_push scriptSig [])) of
               Some (witnessversion, witnessprogram) \<Rightarrow> Some (WitnessSigOps witnessversion witnessprogram witness)
             | None \<Rightarrow> Some 0)
          else Some 0)"

end
