(* ===== verification/Script_Flags.thy ===== *)
theory Script_Flags
  imports Interpreter
begin

text \<open>
  Verification flags as soft forks: what succeeds under some flags succeeds under fewer, from the
  single instruction up to \<open>VerifyScript\<close>, and the flag sets of \<^verbatim>\<open>src/src/policy/policy.h\<close>.
\<close>

section \<open>Unfolding the loops\<close>

lemma multisig_loop_0 [simp]: "multisig_loop env c s isig ikey 0 k = Inr True"
  by (subst multisig_loop.simps) simp

lemma multisig_loop_step:
  assumes "n \<noteq> 0"
  shows "multisig_loop env c s isig ikey n k =
    (case check_encodings env (s ! (isig - 1)) (s ! (ikey - 1)) of
       Inl e \<Rightarrow> Inl e
     | Inr _ \<Rightarrow>
         let ok = CheckSig (env_checker env) (s ! (isig - 1)) (s ! (ikey - 1)) c (env_sigversion env);
             n = (if ok then n - 1 else n)
         in if n \<ge> k then Inr False
            else multisig_loop env c s (if ok then isig + 1 else isig) (ikey + 1) n (k - 1))"
  using assms by (subst multisig_loop.simps) (auto simp: Let_def split: sum.split)

lemma if_Inr_mono:
  "(a = Inr r \<longrightarrow> a' = Inr r) \<Longrightarrow> (b = Inr r \<longrightarrow> b' = Inr r) \<Longrightarrow>
   (if c then a else b) = Inr r \<longrightarrow> (if c then a' else b') = Inr r"
  by simp

lemma if_Inr_mono_guarded:
  "(c \<Longrightarrow> a = Inr r \<longrightarrow> a' = Inr r) \<Longrightarrow> (\<not> c \<Longrightarrow> b = Inr r \<longrightarrow> b' = Inr r) \<Longrightarrow>
   (if c then a else b) = Inr r \<longrightarrow> (if c then a' else b') = Inr r"
  by simp

lemma case_Inr_mono:
  "(\<And>x. a = Inr x \<Longrightarrow> a' = Inr x) \<Longrightarrow> (\<And>x. a = Inr x \<Longrightarrow> f x = Inr r \<longrightarrow> f' x = Inr r) \<Longrightarrow>
   (case a of Inl e \<Rightarrow> Inl e | Inr x \<Rightarrow> f x) = Inr r \<longrightarrow> (case a' of Inl e \<Rightarrow> Inl e | Inr x \<Rightarrow> f' x) = Inr r"
  by (cases a) auto

section \<open>Fewer flags accept more\<close>

text \<open>\<open>subflags A B\<close>: every flag of \<open>A\<close> is in \<open>B\<close>.\<close>

definition subflags :: "u32 \<Rightarrow> u32 \<Rightarrow> bool" where
  "subflags A B \<longleftrightarrow> A AND B = A"

lemma subflags_has: "subflags A B \<Longrightarrow> has_flag A F \<Longrightarrow> has_flag B F"
proof -
  assume s: "subflags A B" and h: "has_flag A F"
  have "A AND F = A AND (B AND F)" using s by (metis subflags_def and.assoc)
  then show ?thesis using h by (auto simp: has_flag_def)
qed

definition with_flags :: "u32 \<Rightarrow> script_env \<Rightarrow> script_env" where
  "with_flags flags env = env\<lparr>env_flags := flags\<rparr>"

text \<open>
  The contract of a soft fork: checks under the flags \<open>B\<close> are at least as strict as under \<open>A\<close>. The
  lemmas say that each operation that succeeds under \<open>B\<close> gives the same result under \<open>A\<close>.
\<close>

locale flag_relaxation =
  fixes A B :: u32
  assumes sub: "subflags A B"
begin

lemma flag: "has_flag A F \<Longrightarrow> has_flag B F"
  using sub by (rule subflags_has)

abbreviation relax :: "script_env \<Rightarrow> script_env" where
  "relax env \<equiv> with_flags A env"

lemma relax_simps [simp]:
  "env_flags (relax env) = A" "env_sigversion (relax env) = env_sigversion env"
  "env_checker (relax env) = env_checker env" "env_crypto (relax env) = env_crypto env"
  by (simp_all add: with_flags_def)

lemma CScriptNum_relax: "CScriptNum v True n = Some r \<Longrightarrow> CScriptNum v False n = Some r"
  by (auto simp: CScriptNum_def split: if_splits)

lemma script_num_relax:
  "env_flags env = B \<Longrightarrow> script_num env v n = Inr r \<Longrightarrow> script_num (relax env) v n = Inr r"
  using flag [of SCRIPT_VERIFY_MINIMALDATA] CScriptNum_relax [of v n]
  by (cases "has_flag A SCRIPT_VERIFY_MINIMALDATA"; cases "has_flag B SCRIPT_VERIFY_MINIMALDATA")
    (auto simp: script_num_def fRequireMinimal_def split: option.splits)

lemma CheckSignatureEncoding_relax:
  assumes "CheckSignatureEncoding cr B v = Inr ()"
  shows "CheckSignatureEncoding cr A v = Inr ()"
  using assms flag [of "SCRIPT_VERIFY_DERSIG OR SCRIPT_VERIFY_LOW_S OR SCRIPT_VERIFY_STRICTENC"]
    flag [of SCRIPT_VERIFY_LOW_S] flag [of SCRIPT_VERIFY_STRICTENC]
  by (auto simp: CheckSignatureEncoding_def split: if_splits)

lemma CheckPubKeyEncoding_relax:
  assumes "CheckPubKeyEncoding B sv v = Inr ()"
  shows "CheckPubKeyEncoding A sv v = Inr ()"
  using assms flag [of SCRIPT_VERIFY_STRICTENC] flag [of SCRIPT_VERIFY_WITNESS_PUBKEYTYPE]
  by (auto simp: CheckPubKeyEncoding_def split: if_splits)

lemma check_encodings_relax:
  "env_flags env = B \<Longrightarrow> check_encodings env s k = Inr () \<Longrightarrow> check_encodings (relax env) s k = Inr ()"
  by (auto simp: check_encodings_def CheckSignatureEncoding_relax CheckPubKeyEncoding_relax split: sum.splits)

lemma drop_sig_relax [simp]: "drop_sig (relax env) = drop_sig env"
  by (simp add: drop_sig_def fun_eq_iff)

lemma simple_relax:
  assumes "env_flags env = B"
  shows "exec_checklocktimeverify env st = Inr st' \<Longrightarrow> exec_checklocktimeverify (relax env) st = Inr st'"
    and "exec_checksequenceverify env st = Inr st' \<Longrightarrow> exec_checksequenceverify (relax env) st = Inr st'"
    and "exec_upgradable_nop env st = Inr st' \<Longrightarrow> exec_upgradable_nop (relax env) st = Inr st'"
    and "exec_if env opcode f st = Inr st' \<Longrightarrow> exec_if (relax env) opcode f st = Inr st'"
  using assms flag script_num_relax [OF assms, of "st_stack st ! 0" 5]
  by (auto simp: exec_checklocktimeverify_def exec_checksequenceverify_def exec_upgradable_nop_def exec_if_def Let_def
      split: if_splits sum.splits)

lemma exec_hash_relax [simp]: "exec_hash (relax env) = exec_hash env"
  by (simp add: exec_hash_def fun_eq_iff Let_def)

lemma numeric_relax:
  assumes "env_flags env = B"
  shows "exec_pick_roll env opcode st = Inr st' \<Longrightarrow> exec_pick_roll (relax env) opcode st = Inr st'"
    and "exec_unary env opcode st = Inr st' \<Longrightarrow> exec_unary (relax env) opcode st = Inr st'"
    and "exec_binary env opcode st = Inr st' \<Longrightarrow> exec_binary (relax env) opcode st = Inr st'"
    and "exec_within env st = Inr st' \<Longrightarrow> exec_within (relax env) st = Inr st'"
  using script_num_relax [OF assms, of "st_stack st ! 0" nDefaultMaxNumSize]
    script_num_relax [OF assms, of "st_stack st ! 1" nDefaultMaxNumSize]
    script_num_relax [OF assms, of "st_stack st ! 2" nDefaultMaxNumSize]
  by (auto simp: exec_pick_roll_def exec_unary_def exec_binary_def exec_within_def
      split: if_splits sum.splits option.splits)

lemma exec_checksig_relax:
  assumes "env_flags env = B" and "exec_checksig env opcode st = Inr st'"
  shows "exec_checksig (relax env) opcode st = Inr st'"
  using assms(2) check_encodings_relax [OF assms(1), of "st_stack st ! 1" "st_stack st ! 0"]
    flag [of SCRIPT_VERIFY_NULLFAIL] assms(1)
  by (auto simp: exec_checksig_def Let_def split: if_splits sum.splits)

lemma multisig_loop_relax:
  assumes "env_flags env = B"
  shows "multisig_loop env c s isig ikey n k = Inr r \<longrightarrow> multisig_loop (relax env) c s isig ikey n k = Inr r"
proof (induction k arbitrary: isig ikey n rule: less_induct)
  case (less k)
  show ?case
  proof (cases "n = 0")
    case False
    show ?thesis
      unfolding multisig_loop_step [OF False] Let_def relax_simps
    proof (intro case_Inr_mono if_Inr_mono_guarded, goal_cases)
      case (1 x)
      then show ?case using check_encodings_relax [OF assms] by simp
    next
      case (3 x)
      then show ?case using less [of "k - 1"] by simp
    qed simp
  qed simp
qed

lemma multisig_cleanup_relax:
  "(f \<longrightarrow> g) \<Longrightarrow> multisig_cleanup g i k s = Inr r \<Longrightarrow> multisig_cleanup f i k s = Inr r"
  by (induction g i k s rule: multisig_cleanup.induct) (auto split: list.splits if_splits)

lemma multisig_finish_relax:
  "env_flags env = B \<Longrightarrow> multisig_finish env opcode f st = Inr r \<Longrightarrow> multisig_finish (relax env) opcode f st = Inr r"
  using flag [of SCRIPT_VERIFY_NULLDUMMY] by (auto simp: multisig_finish_def split: if_splits)

lemma multisig_run_relax:
  assumes "env_flags env = B"
  shows "multisig_run env opcode k n st = Inr r \<longrightarrow> multisig_run (relax env) opcode k n st = Inr r"
proof -
  have imp: "\<not> f \<and> has_flag A SCRIPT_VERIFY_NULLFAIL \<longrightarrow> \<not> f \<and> has_flag B SCRIPT_VERIFY_NULLFAIL" for f
    using flag by blast
  show ?thesis
    unfolding multisig_run_def Let_def relax_simps assms drop_sig_relax
    by (intro case_Inr_mono)
      (use multisig_loop_relax [OF assms] multisig_cleanup_relax [OF imp] multisig_finish_relax [OF assms] in blast)+
qed

lemma exec_checkmultisig_relax:
  assumes "env_flags env = B"
  shows "exec_checkmultisig env opcode st = Inr st' \<longrightarrow> exec_checkmultisig (relax env) opcode st = Inr st'"
  unfolding exec_checkmultisig_def Let_def
  by (intro if_Inr_mono case_Inr_mono script_num_relax [OF assms] multisig_run_relax [OF assms]) simp_all

lemma exec_opcode_relax:
  assumes "env_flags env = B"
  shows "exec_opcode env opcode f pc st = Inr st' \<longrightarrow> exec_opcode (relax env) opcode f pc st = Inr st'"
  unfolding exec_opcode_def exec_hash_relax
  by (intro if_Inr_mono exec_checkmultisig_relax [OF assms])
    (simp_all add: simple_relax [OF assms] numeric_relax [OF assms] exec_checksig_relax [OF assms])

lemma exec_instr_relax:
  assumes "env_flags env = B"
  shows "exec_instr env opcode v pc st = Inr st' \<longrightarrow> exec_instr (relax env) opcode v pc st = Inr st'"
  unfolding exec_instr_def Let_def
  by (intro if_Inr_mono exec_opcode_relax [OF assms])
    (use flag [of SCRIPT_VERIFY_MINIMALDATA] assms in \<open>auto simp: fRequireMinimal_def\<close>)

lemma eval_step_relax:
  assumes "env_flags env = B"
  shows "eval_step env i st = Inr st' \<longrightarrow> eval_step (relax env) i st = Inr st'"
proof (cases i)
  case (fields ok opcode v pc)
  show ?thesis unfolding fields eval_step_def prod.case
    by (intro if_Inr_mono case_Inr_mono) (use exec_instr_relax [OF assms] in auto)
qed

lemma eval_loop_relax:
  assumes "env_flags env = B"
  shows "eval_loop env pc st = Inr st' \<longrightarrow> eval_loop (relax env) pc st = Inr st'"
proof (induction "length pc" arbitrary: pc st rule: less_induct)
  case less
  show ?case
  proof (cases "pc = []")
    case False
    have "length (snd (snd (snd (GetOp pc)))) < length pc"
      using GetOp_length [of pc] False by (cases "GetOp pc") auto
    then have ih: "eval_loop env (snd (snd (snd (GetOp pc)))) st1 = Inr st' \<longrightarrow>
        eval_loop (relax env) (snd (snd (snd (GetOp pc)))) st1 = Inr st'" for st1
      using less.hyps by blast
    have un: "eval_loop e pc st = (case eval_step e (GetOp pc) st of
        Inl e \<Rightarrow> Inl e | Inr st \<Rightarrow> eval_loop e (snd (snd (snd (GetOp pc)))) st)" for e
      using False by (subst eval_loop.simps) simp
    show ?thesis unfolding un by (intro case_Inr_mono ih) (use eval_step_relax [OF assms] in blast)
  qed (simp add: eval_loop.simps)
qed

lemma EvalScript_relax:
  assumes "env_flags env = B"
  shows "EvalScript env s script = Inr s' \<longrightarrow> EvalScript (relax env) s script = Inr s'"
  unfolding EvalScript_def
  by (intro if_Inr_mono case_Inr_mono) (use eval_loop_relax [OF assms] in auto)

lemma mk_env_relax: "mk_env cr checker A v = relax (mk_env cr checker B v)"
  by (simp add: with_flags_def)

lemma EvalScript_mk_env:
  "EvalScript (mk_env cr checker B v) s script = Inr s' \<Longrightarrow> EvalScript (mk_env cr checker A v) s script = Inr s'"
  using EvalScript_relax [of "mk_env cr checker B v"] by (simp add: with_flags_def)

lemma VerifyWitnessProgram_relax:
  "VerifyWitnessProgram cr checker B w ver prog = Inr () \<Longrightarrow> VerifyWitnessProgram cr checker A w ver prog = Inr ()"
  using flag [of SCRIPT_VERIFY_DISCOURAGE_UPGRADABLE_WITNESS_PROGRAM]
  by (auto simp: VerifyWitnessProgram_def dest: EvalScript_mk_env split: if_splits sum.splits prod.splits)

lemma verify_witness_relax:
  assumes "verify_witness cr checker B w sig script ex mal s h = Inr r"
  shows "verify_witness cr checker A w sig script ex mal s h = Inr (if has_flag A SCRIPT_VERIFY_WITNESS then r else (s, h))"
  using assms flag [of SCRIPT_VERIFY_WITNESS]
  by (auto simp: verify_witness_def VerifyWitnessProgram_relax split: if_splits sum.splits option.splits)

end

text \<open>
  Combinations of flags that \<open>VerifyScript\<close> accepts without failing an assertion.\<close>

definition consistent_flags :: "u32 \<Rightarrow> bool" where
  "consistent_flags flags \<longleftrightarrow>
     (has_flag flags SCRIPT_VERIFY_CLEANSTACK \<longrightarrow>
        has_flag flags SCRIPT_VERIFY_P2SH \<and> has_flag flags SCRIPT_VERIFY_WITNESS) \<and>
     (has_flag flags SCRIPT_VERIFY_WITNESS \<longrightarrow> has_flag flags SCRIPT_VERIFY_P2SH)"

context flag_relaxation
begin

lemma verify_witness_any:
  "verify_witness cr checker F w sig script ex mal s h = Inr r \<Longrightarrow>
   \<exists>r'. verify_witness cr checker F w sig script ex mal s h' = Inr r'"
  by (auto simp: verify_witness_def split: if_splits sum.splits option.splits)

lemma verify_p2sh_relax:
  assumes "verify_p2sh cr checker B w sig st h = Inr r"
  shows "\<exists>r'. verify_p2sh cr checker A w sig st h' = Inr r' \<and>
           (has_flag A SCRIPT_VERIFY_WITNESS \<and> h' = h \<longrightarrow> r' = r)"
proof -
  obtain k s s' where st: "st = k # s" "IsPushOnly sig"
      "EvalScript (mk_env cr checker B SIGVERSION_BASE) s k = Inr s'" "top_true s'"
      "verify_witness cr checker B w sig k (push_data [] k) SCRIPT_ERR_WITNESS_MALLEATED_P2SH s' h = Inr r"
    using assms by (auto simp: verify_p2sh_def split: if_splits list.splits sum.splits)
  show ?thesis
    using st EvalScript_mk_env [OF st(3)] verify_witness_relax [OF st(5)]
      verify_witness_any [OF verify_witness_relax [OF st(5)], of h']
    by (cases "h' = h") (auto simp: verify_p2sh_def)
qed

lemma verify_clean_relax:
  assumes "consistent_flags A" and "verify_clean B w s h = Inr ()"
    and "has_flag A SCRIPT_VERIFY_WITNESS \<longrightarrow> (s', h') = (s, h)"
  shows "verify_clean A w s' h' = Inr ()"
  using assms flag [of SCRIPT_VERIFY_CLEANSTACK] flag [of SCRIPT_VERIFY_WITNESS] flag [of SCRIPT_VERIFY_P2SH]
  by (auto simp: verify_clean_def consistent_flags_def split: if_splits)

lemma VerifyScript_relax:
  assumes A: "consistent_flags A" and ok: "VerifyScript cr checker B scriptSig scriptPubKey w = Inr ()"
  shows "VerifyScript cr checker A scriptSig scriptPubKey w = Inr ()"
proof -
  let ?p2sh = "\<lambda>F. has_flag F SCRIPT_VERIFY_P2SH \<and> IsPayToScriptHash scriptPubKey"
  obtain s1 s2 s3 h3 s4 h4 where B:
      "\<not> (has_flag B SCRIPT_VERIFY_SIGPUSHONLY \<and> \<not> IsPushOnly scriptSig)"
      "EvalScript (mk_env cr checker B SIGVERSION_BASE) [] scriptSig = Inr s1"
      "EvalScript (mk_env cr checker B SIGVERSION_BASE) s1 scriptPubKey = Inr s2" "top_true s2"
      "verify_witness cr checker B w scriptSig scriptPubKey [] SCRIPT_ERR_WITNESS_MALLEATED s2 False = Inr (s3, h3)"
      "(if ?p2sh B then verify_p2sh cr checker B w scriptSig s1 h3 else Inr (s3, h3)) = Inr (s4, h4)"
      "verify_clean B w s4 h4 = Inr ()"
    using ok unfolding VerifyScript_def by (auto split: if_split_asm sum.splits prod.splits)
  obtain s3' h3' where w3: "verify_witness cr checker A w scriptSig scriptPubKey [] SCRIPT_ERR_WITNESS_MALLEATED s2 False
      = Inr (s3', h3')" "has_flag A SCRIPT_VERIFY_WITNESS \<longrightarrow> (s3', h3') = (s3, h3)"
    using verify_witness_relax [OF B(5)] by (cases "has_flag A SCRIPT_VERIFY_WITNESS") auto
  obtain s4' h4' where w4: "(if ?p2sh A then verify_p2sh cr checker A w scriptSig s1 h3' else Inr (s3', h3')) =
      Inr (s4', h4')" "has_flag A SCRIPT_VERIFY_WITNESS \<longrightarrow> (s4', h4') = (s4, h4)"
    using B(6) verify_p2sh_relax [of cr checker w scriptSig s1 h3 "(s4, h4)" h3'] w3(2) A
      flag [of SCRIPT_VERIFY_P2SH]
    by (cases "has_flag A SCRIPT_VERIFY_P2SH"; cases "IsPayToScriptHash scriptPubKey")
      (auto simp: consistent_flags_def)
  have "verify_clean A w s4' h4' = Inr ()" using verify_clean_relax [OF A B(7)] w4(2) by blast
  then show ?thesis
    using B flag [of SCRIPT_VERIFY_SIGPUSHONLY] EvalScript_mk_env [OF B(2)] EvalScript_mk_env [OF B(3)] w3(1) w4(1)
    by (auto simp: VerifyScript_def)
qed
end

section \<open>Standard and mandatory flags\<close>

definition MANDATORY_SCRIPT_VERIFY_FLAGS :: u32 where
  "MANDATORY_SCRIPT_VERIFY_FLAGS = SCRIPT_VERIFY_P2SH"

definition STANDARD_SCRIPT_VERIFY_FLAGS :: u32 where
  "STANDARD_SCRIPT_VERIFY_FLAGS =
     MANDATORY_SCRIPT_VERIFY_FLAGS OR SCRIPT_VERIFY_DERSIG OR SCRIPT_VERIFY_STRICTENC OR
     SCRIPT_VERIFY_MINIMALDATA OR SCRIPT_VERIFY_NULLDUMMY OR SCRIPT_VERIFY_DISCOURAGE_UPGRADABLE_NOPS OR
     SCRIPT_VERIFY_CLEANSTACK OR SCRIPT_VERIFY_MINIMALIF OR SCRIPT_VERIFY_NULLFAIL OR
     SCRIPT_VERIFY_CHECKLOCKTIMEVERIFY OR SCRIPT_VERIFY_CHECKSEQUENCEVERIFY OR SCRIPT_VERIFY_LOW_S OR
     SCRIPT_VERIFY_WITNESS OR SCRIPT_VERIFY_DISCOURAGE_UPGRADABLE_WITNESS_PROGRAM OR
     SCRIPT_VERIFY_WITNESS_PUBKEYTYPE"

lemmas flag_defs =
  SCRIPT_VERIFY_P2SH_def SCRIPT_VERIFY_STRICTENC_def SCRIPT_VERIFY_DERSIG_def SCRIPT_VERIFY_LOW_S_def
  SCRIPT_VERIFY_NULLDUMMY_def SCRIPT_VERIFY_SIGPUSHONLY_def SCRIPT_VERIFY_MINIMALDATA_def
  SCRIPT_VERIFY_DISCOURAGE_UPGRADABLE_NOPS_def SCRIPT_VERIFY_CLEANSTACK_def
  SCRIPT_VERIFY_CHECKLOCKTIMEVERIFY_def SCRIPT_VERIFY_CHECKSEQUENCEVERIFY_def SCRIPT_VERIFY_WITNESS_def
  SCRIPT_VERIFY_DISCOURAGE_UPGRADABLE_WITNESS_PROGRAM_def SCRIPT_VERIFY_MINIMALIF_def
  SCRIPT_VERIFY_NULLFAIL_def SCRIPT_VERIFY_WITNESS_PUBKEYTYPE_def
  MANDATORY_SCRIPT_VERIFY_FLAGS_def STANDARD_SCRIPT_VERIFY_FLAGS_def

interpretation std: flag_relaxation MANDATORY_SCRIPT_VERIFY_FLAGS STANDARD_SCRIPT_VERIFY_FLAGS
  by unfold_locales (simp add: subflags_def flag_defs)

lemma consistent_mandatory: "consistent_flags MANDATORY_SCRIPT_VERIFY_FLAGS"
  by (simp add: consistent_flags_def has_flag_def flag_defs)

lemma consistent_standard: "consistent_flags STANDARD_SCRIPT_VERIFY_FLAGS"
  by (simp add: consistent_flags_def has_flag_def flag_defs)

text \<open>
  C5: Every verification flag is a soft fork. A spend that \<open>VerifyScript\<close> accepts under some flags is
  accepted under every subset of them that fails no assertion, whatever the signature checker and the
  hash functions are.\<close>

theorem VerifyScript_softfork:
  assumes "subflags A B" and "consistent_flags A"
    and "VerifyScript cr checker B scriptSig scriptPubKey witness = Inr ()"
  shows "VerifyScript cr checker A scriptSig scriptPubKey witness = Inr ()"
  using flag_relaxation.VerifyScript_relax [OF flag_relaxation.intro] assms by blast

abbreviation (input) demo_crypto :: crypto where
  "demo_crypto \<equiv> \<lparr>CRIPEMD160 = \<lambda>v. take 20 (v @ replicate 20 0), CSHA1 = \<lambda>v. replicate 20 0, CheckLowS = \<lambda>_. True\<rparr>"

abbreviation (input) demo_checker :: BaseSignatureChecker where
  "demo_checker \<equiv> \<lparr>CheckSig = \<lambda>s k c v. s = k, CheckLockTime = \<lambda>_. True, CheckSequence = \<lambda>_. True\<rparr>"

theorem VerifyScript_softfork_witness:
  "VerifyScript demo_crypto demo_checker MANDATORY_SCRIPT_VERIFY_FLAGS [0x52, 0x53] [0x93, 0x55, 0x87] [] = Inr ()"
proof (rule VerifyScript_softfork)
  show "subflags MANDATORY_SCRIPT_VERIFY_FLAGS STANDARD_SCRIPT_VERIFY_FLAGS"
    by (simp add: subflags_def flag_defs)
  show "consistent_flags MANDATORY_SCRIPT_VERIFY_FLAGS" by (rule consistent_mandatory)
  show "VerifyScript demo_crypto demo_checker STANDARD_SCRIPT_VERIFY_FLAGS [0x52, 0x53] [0x93, 0x55, 0x87] [] = Inr ()"
    by code_simp
qed

end
