(* ===== verification/Script_Limits.thy ===== *)
theory Script_Limits
  imports Script_Flags
begin

text \<open>
  The limits of the script machine as loop invariants, and the absence of failed assertions.
\<close>

section \<open>Resource limits and assertions\<close>

definition small_items :: "bytes list \<Rightarrow> bool" where
  "small_items s \<longleftrightarrow> (\<forall>v \<in> set s. length v \<le> MAX_SCRIPT_ELEMENT_SIZE)"

text \<open>What the machine relies on of the two hash functions that are parameters.\<close>

definition short_hashes :: "script_env \<Rightarrow> bool" where
  "short_hashes env \<longleftrightarrow>
     (\<forall>v. length (CRIPEMD160 (env_crypto env) v) = 20 \<and> length (CSHA1 (env_crypto env) v) = 20)"

text \<open>What every instruction keeps: short stack items and the bound on counted operations.\<close>

definition keeps :: "script_env \<Rightarrow> eval_state \<Rightarrow> eval_state \<Rightarrow> bool" where
  "keeps env st st' \<longleftrightarrow>
     (short_hashes env \<and> small_items (st_stack st) \<and> small_items (st_altstack st) \<longrightarrow>
        small_items (st_stack st') \<and> small_items (st_altstack st')) \<and>
     st_nOpCount st \<le> st_nOpCount st' \<and>
     (st_nOpCount st \<le> MAX_OPS_PER_SCRIPT \<longrightarrow> st_nOpCount st' \<le> MAX_OPS_PER_SCRIPT)"

definition safe_result :: "script_env \<Rightarrow> eval_state \<Rightarrow> eval_state exec \<Rightarrow> bool" where
  "safe_result env st r \<longleftrightarrow> (case r of Inl e \<Rightarrow> e \<noteq> Abort | Inr st' \<Rightarrow> keeps env st st')"

lemma keeps_refl: "keeps env st st"
  by (simp add: keeps_def)

lemma keeps_trans: "keeps env st st1 \<Longrightarrow> keeps env st1 st2 \<Longrightarrow> keeps env st st2"
  by (auto simp: keeps_def)

lemma keeps_stack:
  "(short_hashes env \<Longrightarrow> small_items (st_stack st) \<Longrightarrow> small_items s) \<Longrightarrow> keeps env st (st\<lparr>st_stack := s\<rparr>)"
  by (auto simp: keeps_def)

lemma safe_error: "safe_result env st (set_error e)"
  by (simp add: safe_result_def)

lemma safe_Inr: "keeps env st st' \<Longrightarrow> safe_result env st (Inr st')"
  by (simp add: safe_result_def)

lemma safe_if:
  "(c \<Longrightarrow> safe_result env st a) \<Longrightarrow> (\<not> c \<Longrightarrow> safe_result env st b) \<Longrightarrow> safe_result env st (if c then a else b)"
  by simp

lemma safe_bind:
  "a \<noteq> Inl Abort \<Longrightarrow> (\<And>x. a = Inr x \<Longrightarrow> safe_result env st (f x)) \<Longrightarrow>
   safe_result env st (case a of Inl e \<Rightarrow> Inl e | Inr x \<Rightarrow> f x)"
  by (cases a) (auto simp: safe_result_def)

lemmas safe_intros = safe_error safe_if safe_bind

lemma script_num_safe: "script_num env v n \<noteq> Inl Abort"
  by (simp add: script_num_def split: option.split)

lemma script_num_range: "script_num env v 4 = Inr r \<Longrightarrow> \<bar>r\<bar> < 2 ^ 31"
proof -
  assume "script_num env v 4 = Inr r"
  then have "length v \<le> 4" "r = set_vch v"
    by (auto simp: script_num_def CScriptNum_def split: option.splits if_splits)
  moreover have "(2 :: int) ^ (8 * length v - 1) \<le> 2 ^ 31" using \<open>length v \<le> 4\<close> by (intro power_increasing) auto
  ultimately show ?thesis using set_vch_bound [of v] by linarith
qed

lemma check_encodings_safe: "check_encodings env s k \<noteq> Inl Abort"
  by (auto simp: check_encodings_def CheckSignatureEncoding_def CheckPubKeyEncoding_def IsLowDERSignature_def
      split: sum.splits if_splits)

lemma le_digits_length: "length (le_digits n v) \<le> n"
  by (induction n v rule: le_digits.induct) auto

lemma serialize_short: "length (serialize v) \<le> MAX_SCRIPT_ELEMENT_SIZE"
  using le_digits_length [of 8 "nat \<bar>v\<bar>"]
  by (auto simp: serialize_def Let_def MAX_SCRIPT_ELEMENT_SIZE_def)

lemma bool_vch_short: "length (bool_vch b) \<le> MAX_SCRIPT_ELEMENT_SIZE"
  by (simp add: bool_vch_def vchTrue_def vchFalse_def MAX_SCRIPT_ELEMENT_SIZE_def)

lemma small_Cons [simp]: "small_items (v # s) \<longleftrightarrow> length v \<le> MAX_SCRIPT_ELEMENT_SIZE \<and> small_items s"
  by (simp add: small_items_def)

lemma small_append [simp]: "small_items (s @ t) \<longleftrightarrow> small_items s \<and> small_items t"
  by (auto simp: small_items_def)

lemma small_nth: "small_items s \<Longrightarrow> i < length s \<Longrightarrow> length (s ! i) \<le> MAX_SCRIPT_ELEMENT_SIZE"
  by (simp add: small_items_def)

lemma small_sub: "small_items s \<Longrightarrow> small_items (take n s) \<and> small_items (drop n s) \<and> small_items (tl s)"
  unfolding small_items_def by (metis in_set_takeD in_set_dropD list.set_sel(2) tl_Nil)

lemma small_swap: "small_items s \<Longrightarrow> i < length s \<Longrightarrow> j < length s \<Longrightarrow> small_items (swap_at s i j)"
  unfolding small_items_def swap_at_def
  by (metis insert_iff nth_mem set_update_subset_insert subset_iff)

lemma swap_at_length [simp]: "length (swap_at s i j) = length s"
  by (simp add: swap_at_def)

lemmas small_simps = small_nth small_sub small_swap serialize_short bool_vch_short

lemma need_safe:
  "(\<And>s. n \<le> length s \<Longrightarrow> n = 0 \<or> s \<noteq> [] \<Longrightarrow> small_items s \<Longrightarrow> small_items (f s)) \<Longrightarrow>
   safe_result env st (need n st f)"
  unfolding need_def by (intro safe_intros safe_Inr keeps_stack) (cases "st_stack st = []", auto)

lemma exec_stack_many_safe: "safe_result env st (exec_stack_many opcode st)"
  unfolding exec_stack_many_def by (intro safe_if need_safe) (simp_all add: small_simps)

lemma exec_stack_one_safe: "safe_result env st (exec_stack_one opcode st)"
  unfolding exec_stack_one_def by (intro safe_if need_safe) (simp_all add: small_simps)

lemma exec_stack_perm_safe: "safe_result env st (exec_stack_perm opcode st)"
  unfolding exec_stack_perm_def by (intro safe_if need_safe) (simp_all add: small_simps)

lemma simple_safe:
  "safe_result env st (exec_push_num opcode st)" "safe_result env st (exec_upgradable_nop env st)"
  "safe_result env st (exec_else st)" "safe_result env st (exec_endif st)"
  "safe_result env st (exec_verify st)" "safe_result env st (exec_toaltstack st)"
  "safe_result env st (exec_fromaltstack st)" "safe_result env st (exec_equal opcode st)"
  "safe_result env st (exec_if env opcode f st)"
  by (auto simp: exec_push_num_def push_def exec_upgradable_nop_def exec_else_def exec_endif_def exec_verify_def
      exec_toaltstack_def exec_fromaltstack_def exec_equal_def exec_if_def push_exec_def Let_def
      safe_result_def keeps_def small_simps split: list.splits)

lemma locktime_safe:
  "safe_result env st (exec_checklocktimeverify env st)" "safe_result env st (exec_checksequenceverify env st)"
  unfolding exec_checklocktimeverify_def exec_checksequenceverify_def
  by (intro safe_intros safe_Inr keeps_refl script_num_safe)+

lemma exec_pick_roll_safe: "safe_result env st (exec_pick_roll env opcode st)"
  unfolding exec_pick_roll_def Let_def
  by (intro safe_intros safe_Inr keeps_stack script_num_safe) (auto simp: small_simps nat_less_iff)

lemma unary_num_total: "opcode \<in> set unary_ops \<Longrightarrow> \<bar>bn\<bar> < 2 ^ 31 \<Longrightarrow> unary_num opcode bn \<noteq> None"
  by (auto simp: unary_ops_def unary_num_def scriptnum_add_assign_def scriptnum_sub_assign_def scriptnum_negate_def)

lemma binary_num_total: "opcode \<in> set binary_ops \<Longrightarrow> binary_num opcode bn1 bn2 \<noteq> None"
  by (auto simp: binary_ops_def binary_num_def)

lemma exec_unary_safe: "opcode \<in> set unary_ops \<Longrightarrow> safe_result env st (exec_unary env opcode st)"
  unfolding exec_unary_def
proof (intro safe_intros script_num_safe)
  fix bn assume "opcode \<in> set unary_ops" "script_num env (st_stack st ! 0) nDefaultMaxNumSize = Inr bn"
  then obtain r where "unary_num opcode bn = Some r"
    using unary_num_total script_num_range by (fastforce simp: nDefaultMaxNumSize_def)
  then show "safe_result env st (case unary_num opcode bn of None \<Rightarrow> Inl Abort
      | Some bn \<Rightarrow> Inr (st\<lparr>st_stack := serialize bn # tl (st_stack st)\<rparr>))"
    by (auto intro!: safe_Inr keeps_stack simp: small_simps)
qed

lemma exec_binary_safe: "opcode \<in> set binary_ops \<Longrightarrow> safe_result env st (exec_binary env opcode st)"
  unfolding exec_binary_def
proof (intro safe_intros script_num_safe)
  fix bn1 bn2 assume "opcode \<in> set binary_ops"
  then obtain r where "binary_num opcode bn1 bn2 = Some r" using binary_num_total by blast
  then show "safe_result env st (case binary_num opcode bn1 bn2 of None \<Rightarrow> Inl Abort
      | Some bn \<Rightarrow> let s = drop 2 (st_stack st)
          in if opcode = OP_NUMEQUALVERIFY
             then (if CastToBool (serialize bn) then Inr (st\<lparr>st_stack := s\<rparr>)
                   else set_error SCRIPT_ERR_NUMEQUALVERIFY)
             else Inr (st\<lparr>st_stack := serialize bn # s\<rparr>))"
    by (auto intro!: safe_Inr keeps_stack safe_error simp: Let_def small_simps)
qed

lemma exec_within_safe: "safe_result env st (exec_within env st)"
  unfolding exec_within_def
  by (intro safe_intros safe_Inr keeps_stack script_num_safe) (auto simp: small_simps)

lemma sha256_of_fips: "sha256_of v = fips_sha256 v"
  using Finalize_repr [OF Write_repr [OF repr_ctor], of "replicate 64 0" v] by (simp add: sha256_of_def)

lemma sha256_of_length: "length (sha256_of v) = 32"
  by (simp add: sha256_of_fips fips_sha256_length)

lemma exec_hash_safe: "safe_result env st (exec_hash env opcode st)"
  unfolding exec_hash_def Let_def
  by (intro safe_intros safe_Inr keeps_stack)
    (auto simp: small_simps short_hashes_def sha256_of_length CHash160_def Hash1_fips fips_sha256_length
      MAX_SCRIPT_ELEMENT_SIZE_def)

lemma exec_checksig_safe: "safe_result env st (exec_checksig env opcode st)"
  unfolding exec_checksig_def Let_def
  by (intro safe_intros safe_Inr keeps_stack check_encodings_safe) (auto simp: small_simps)

lemma multisig_loop_safe: "multisig_loop env c s isig ikey n k \<noteq> Inl Abort"
proof (induction k arbitrary: isig ikey n rule: less_induct)
  case (less k)
  show ?case
  proof (cases "n = 0")
    case False
    have ih: "multisig_loop env c s i j m (k - 1) \<noteq> Inl Abort" if "m < k" for i j m
      using less [of "k - 1"] that by simp
    show ?thesis
      unfolding multisig_loop_step [OF False]
      using check_encodings_safe [of env "s ! (isig - 1)" "s ! (ikey - 1)"] ih
      by (auto simp: Let_def split: sum.splits)
  qed simp
qed

lemma multisig_cleanup_safe: "multisig_cleanup f i k s \<noteq> Inl Abort"
  by (induction f i k s rule: multisig_cleanup.induct) (auto split: list.splits)

lemma multisig_cleanup_drop: "multisig_cleanup f i k s = Inr r \<Longrightarrow> r = drop i s"
  by (induction f i k s rule: multisig_cleanup.induct) (auto split: list.splits if_splits)

lemma multisig_finish_safe:
  assumes "small_items (st_stack st) \<Longrightarrow> small_items s"
  shows "safe_result env st (multisig_finish env opcode f (st\<lparr>st_stack := s\<rparr>))"
proof -
  have "safe_result env st (multisig_finish env opcode f (st\<lparr>st_stack := s\<rparr>)) =
        safe_result env st (if length s < 1 then set_error SCRIPT_ERR_INVALID_STACK_OPERATION
          else if env_flag env SCRIPT_VERIFY_NULLDUMMY \<and> length (s ! 0) \<noteq> 0 then set_error SCRIPT_ERR_SIG_NULLDUMMY
          else if opcode = OP_CHECKMULTISIGVERIFY
            then (if f then Inr (st\<lparr>st_stack := tl s\<rparr>) else set_error SCRIPT_ERR_CHECKMULTISIGVERIFY)
            else Inr (st\<lparr>st_stack := bool_vch f # tl s\<rparr>))"
    by (simp add: multisig_finish_def Let_def)
  also have "\<dots>"
    by (intro safe_intros safe_Inr keeps_stack) (use assms in \<open>auto simp: small_simps\<close>)
  finally show ?thesis .
qed

lemma multisig_run_safe: "safe_result env st (multisig_run env opcode k n st)"
  unfolding multisig_run_def Let_def
  by (intro safe_bind multisig_loop_safe multisig_cleanup_safe multisig_finish_safe)
    (metis multisig_cleanup_drop small_sub)

lemma safe_count:
  assumes "safe_result env (st\<lparr>st_nOpCount := st_nOpCount st + m\<rparr>) r" and "st_nOpCount st + m \<le> MAX_OPS_PER_SCRIPT"
  shows "safe_result env st r"
  using assms by (auto simp: safe_result_def keeps_def split: sum.splits)

lemma exec_checkmultisig_safe: "safe_result env st (exec_checkmultisig env opcode st)"
  unfolding exec_checkmultisig_def Let_def
  by (intro safe_intros script_num_safe safe_count [OF multisig_run_safe]) simp_all

lemma exec_opcode_safe: "safe_result env st (exec_opcode env opcode f pc st)"
  unfolding exec_opcode_def
  by (intro safe_if safe_error simple_safe locktime_safe exec_stack_many_safe exec_stack_one_safe exec_stack_perm_safe exec_pick_roll_safe
      exec_unary_safe exec_binary_safe exec_within_safe exec_hash_safe exec_checksig_safe exec_checkmultisig_safe
      safe_Inr) (simp_all add: keeps_def)

lemma exec_instr_safe:
  "length v \<le> MAX_SCRIPT_ELEMENT_SIZE \<Longrightarrow> safe_result env st (exec_instr env opcode v pc st)"
  unfolding exec_instr_def Let_def push_def
  by (intro safe_if safe_error safe_Inr keeps_stack exec_opcode_safe) (simp_all add: keeps_refl)

lemma count_op_keeps:
  "\<not> (opcode > OP_16 \<and> st_nOpCount st + 1 > MAX_OPS_PER_SCRIPT) \<Longrightarrow> keeps env st (count_op opcode st)"
  by (auto simp: count_op_def keeps_def)

lemma safe_result_trans: "keeps env st st1 \<Longrightarrow> safe_result env st1 r \<Longrightarrow> safe_result env st r"
  by (auto simp: safe_result_def dest: keeps_trans split: sum.splits)

lemma check_stack_size_Inr: "check_stack_size st = Inr st' \<Longrightarrow>
    st' = st \<and> length (st_stack st') + length (st_altstack st') \<le> MAX_STACK_SIZE"
  by (auto simp: check_stack_size_def split: if_splits)

lemma eval_step_safe: "safe_result env st (eval_step env i st)"
proof (cases i)
  case (fields ok opcode v pc)
  have "safe_result env st (case exec_instr env opcode v pc (count_op opcode st) of
      Inl e \<Rightarrow> Inl e | Inr st \<Rightarrow> check_stack_size st)"
    if "length v \<le> MAX_SCRIPT_ELEMENT_SIZE" "\<not> (opcode > OP_16 \<and> st_nOpCount st + 1 > MAX_OPS_PER_SCRIPT)"
    using safe_result_trans [OF count_op_keeps [OF that(2)] exec_instr_safe [OF that(1), of env "count_op opcode st" opcode pc]]
    by (auto simp: safe_result_def check_stack_size_def split: sum.splits)
  then show ?thesis
    unfolding fields eval_step_def prod.case by (intro safe_if safe_error) simp_all
qed

text \<open>The loop on a script that is not empty.\<close>

lemma eval_loop_Cons:
  "pc \<noteq> [] \<Longrightarrow> GetOp pc = (ok, opcode, v, pc') \<Longrightarrow>
   eval_loop env pc st = (case eval_step env (ok, opcode, v, pc') st of Inl e \<Rightarrow> Inl e | Inr st \<Rightarrow> eval_loop env pc' st)"
  by (subst eval_loop.simps) (simp split: sum.split)

lemma eval_loop_Nil [simp]: "eval_loop env [] st = Inr st"
  by (subst eval_loop.simps) simp


text \<open>An invariant of one turn is an invariant of the loop.\<close>

locale eval_invariant =
  fixes P :: "script_env \<Rightarrow> eval_state \<Rightarrow> bool"
  assumes step: "P env st \<Longrightarrow> eval_step env i st = Inr st' \<Longrightarrow> P env st'"
begin

lemma loop: "P env st \<Longrightarrow> eval_loop env pc st = Inr st' \<Longrightarrow> P env st'"
proof (induction "length pc" arbitrary: pc st rule: less_induct)
  case less
  show ?case
  proof (cases "pc = []")
    case False
    obtain ok opcode v pc' where g: "GetOp pc = (ok, opcode, v, pc')" by (metis prod_cases4)
    then obtain st1 where "eval_step env (ok, opcode, v, pc') st = Inr st1" "eval_loop env pc' st1 = Inr st'"
      using less.prems(2) False by (auto simp: eval_loop_Cons split: sum.splits)
    then show ?thesis using less.hyps [of pc' st1] less.prems(1) step GetOp_length [OF g False] by blast
  qed (use less.prems in simp)
qed

end

interpretation items: eval_invariant
  "\<lambda>env st. short_hashes env \<longrightarrow> small_items (st_stack st) \<and> small_items (st_altstack st)"
proof
  fix env st i st'
  assume "short_hashes env \<longrightarrow> small_items (st_stack st) \<and> small_items (st_altstack st)"
    and "eval_step env i st = Inr st'"
  then show "short_hashes env \<longrightarrow> small_items (st_stack st') \<and> small_items (st_altstack st')"
    using eval_step_safe [of env st i] by (auto simp: safe_result_def keeps_def)
qed

interpretation op_count: eval_invariant "\<lambda>env st. st_nOpCount st \<le> MAX_OPS_PER_SCRIPT"
proof
  fix env st i st'
  assume "st_nOpCount st \<le> MAX_OPS_PER_SCRIPT" and "eval_step env i st = Inr st'"
  then show "st_nOpCount st' \<le> MAX_OPS_PER_SCRIPT"
    using eval_step_safe [of env st i] by (auto simp: safe_result_def keeps_def)
qed

lemma eval_step_depth:
  "eval_step env i st = Inr st' \<Longrightarrow> length (st_stack st') + length (st_altstack st') \<le> MAX_STACK_SIZE"
  by (auto simp: eval_step_def split: prod.splits if_splits sum.splits dest!: check_stack_size_Inr)

interpretation depth: eval_invariant
  "\<lambda>env st. length (st_stack st) + length (st_altstack st) \<le> MAX_STACK_SIZE"
  by unfold_locales (rule eval_step_depth)

text \<open>How many operations other than pushes a script has, executed or not.\<close>

function nonpush_ops :: "bytes \<Rightarrow> nat" where
  "nonpush_ops pc =
     (if pc = [] then 0
      else case GetOp pc of (ok, opcode, v, pc') \<Rightarrow>
        if ok then (if opcode > OP_16 then 1 else 0) + nonpush_ops pc' else 0)"
  by pat_completeness auto
termination
  by (relation "measure length") (auto dest: GetOp_length [OF sym])

declare nonpush_ops.simps [simp del]

lemma eval_step_count:
  assumes "eval_step env (ok, opcode, v, pc') st = Inr st'"
  shows "ok \<and> st_nOpCount st + (if opcode > OP_16 then 1 else 0) \<le> st_nOpCount st'"
proof -
  obtain st1 where e: "ok" "length v \<le> MAX_SCRIPT_ELEMENT_SIZE" "exec_instr env opcode v pc' (count_op opcode st) = Inr st1" "st' = st1"
    using assms by (auto simp: eval_step_def split: if_splits sum.splits dest!: check_stack_size_Inr)
  then have "st_nOpCount (count_op opcode st) \<le> st_nOpCount st'"
    using exec_instr_safe [OF e(2), of env "count_op opcode st" opcode pc'] by (simp add: safe_result_def keeps_def)
  then show ?thesis using e(1) by (auto simp: count_op_def split: if_splits)
qed

lemma eval_loop_count: "eval_loop env pc st = Inr st' \<Longrightarrow> st_nOpCount st + nonpush_ops pc \<le> st_nOpCount st'"
proof (induction "length pc" arbitrary: pc st rule: less_induct)
  case less
  show ?case
  proof (cases "pc = []")
    case False
    obtain ok opcode v pc' where g: "GetOp pc = (ok, opcode, v, pc')" by (metis prod_cases4)
    then obtain st1 where st1: "eval_step env (ok, opcode, v, pc') st = Inr st1" "eval_loop env pc' st1 = Inr st'"
      using less.prems False by (auto simp: eval_loop_Cons split: sum.splits)
    have "st_nOpCount st1 + nonpush_ops pc' \<le> st_nOpCount st'"
      using less.hyps [of pc' st1] st1 GetOp_length [OF g False] by blast
    then show ?thesis
      using eval_step_count [OF st1(1)] g False by (subst nonpush_ops.simps) auto
  qed (use less.prems in \<open>simp add: nonpush_ops.simps\<close>)
qed

lemma eval_loop_safe: "eval_loop env pc st \<noteq> Inl Abort"
proof (induction "length pc" arbitrary: pc st rule: less_induct)
  case less
  show ?case
  proof (cases "pc = []")
    case False
    obtain ok opcode v pc' where g: "GetOp pc = (ok, opcode, v, pc')" by (metis prod_cases4)
    then show ?thesis
      using eval_step_safe [of env st "(ok, opcode, v, pc')"] less.hyps [of pc'] GetOp_length [OF g False] False
      by (auto simp: eval_loop_Cons safe_result_def split: sum.splits)
  qed simp
qed

lemma EvalScript_safe: "EvalScript env stack script \<noteq> Inl Abort"
  using eval_loop_safe by (auto simp: EvalScript_def split: sum.splits)

lemma EvalScript_depth:
  assumes "script \<noteq> []" and "EvalScript env stack script = Inr stack'"
  shows "length stack' \<le> MAX_STACK_SIZE"
proof -
  obtain ok opcode v pc where g: "GetOp script = (ok, opcode, v, pc)" by (metis prod_cases4)
  let ?st = "\<lparr>st_stack = stack, st_altstack = [], st_vfExec = [], st_nOpCount = 0, st_pbegincodehash = script\<rparr>"
  obtain st1 st where st: "eval_step env (ok, opcode, v, pc) ?st = Inr st1" "eval_loop env pc st1 = Inr st"
      "stack' = st_stack st"
    using assms g by (auto simp: EvalScript_def eval_loop_Cons split: if_splits sum.splits)
  then show ?thesis using depth.loop [OF eval_step_depth [OF st(1)] st(2)] by simp
qed

text \<open>
  C6: The limits that bound the work of a script hold whenever it succeeds: the script has at most
  10000 bytes and 201 operations other than pushes, the stack it leaves has at most 1000 items, and no
  item is longer than 520 bytes when the initial ones are not.\<close>

theorem EvalScript_limits:
  assumes "short_hashes env" and "small_items stack" and "script \<noteq> []"
    and "EvalScript env stack script = Inr stack'"
  shows "length script \<le> 10000 \<and> nonpush_ops script \<le> 201 \<and> length stack' \<le> 1000 \<and>
         (\<forall>v \<in> set stack'. length v \<le> 520)"
proof -
  let ?st = "\<lparr>st_stack = stack, st_altstack = [], st_vfExec = [], st_nOpCount = 0, st_pbegincodehash = script\<rparr>"
  obtain st where st: "eval_loop env script ?st = Inr st" "stack' = st_stack st" "length script \<le> MAX_SCRIPT_SIZE"
    using assms(4) by (auto simp: EvalScript_def split: if_splits sum.splits)
  have "small_items stack'" using items.loop [OF _ st(1)] assms st(2) by (simp add: small_items_def)
  moreover have "nonpush_ops script \<le> 201"
    using eval_loop_count [OF st(1)] op_count.loop [OF _ st(1)] by (simp add: MAX_OPS_PER_SCRIPT_def)
  ultimately show ?thesis
    using st EvalScript_depth [OF assms(3,4)]
    by (simp add: small_items_def MAX_SCRIPT_ELEMENT_SIZE_def MAX_STACK_SIZE_def MAX_SCRIPT_SIZE_def)
qed

theorem EvalScript_limits_witness:
  "nonpush_ops [0x52, 0x53, 0x93] \<le> 201 \<and> length [[5 :: u8]] \<le> 1000"
proof -
  let ?env = "mk_env demo_crypto demo_checker 0 SIGVERSION_BASE"
  have "EvalScript ?env [] [0x52, 0x53, 0x93] = Inr [[5]]" by code_simp
  moreover have "short_hashes ?env" by (auto simp: short_hashes_def min_def)
  ultimately show ?thesis using EvalScript_limits [of ?env "[]" "[0x52, 0x53, 0x93]" "[[5]]"]
    by (simp add: small_items_def)
qed

lemma EvalScript_p2sh_empty:
  assumes "IsPayToScriptHash script"
  shows "EvalScript env [] script = set_error SCRIPT_ERR_INVALID_STACK_OPERATION"
proof -
  obtain b rest where s: "script = b # rest" using assms by (cases script) (auto simp: IsPayToScriptHash_def)
  then have b: "unat b = OP_HASH160" and len: "length script = 23" using assms by (auto simp: IsPayToScriptHash_def)
  have g: "GetOp script = (True, OP_HASH160, [], rest)" by (simp add: s GetOp_def b Let_def)
  have "eval_step env (True, OP_HASH160, [], rest) \<lparr>st_stack = [], st_altstack = [], st_vfExec = [], st_nOpCount = 0,
      st_pbegincodehash = script\<rparr> = set_error SCRIPT_ERR_INVALID_STACK_OPERATION"
    by (simp add: eval_step_def MAX_OPS_PER_SCRIPT_def disabled_ops_def exec_instr_def exec_opcode_def count_op_def
        upgradable_nops_def many_ops_def one_ops_def perm_ops_def unary_ops_def binary_ops_def hash_ops_def exec_hash_def)
  then show ?thesis using len g s by (simp add: EvalScript_def MAX_SCRIPT_SIZE_def eval_loop_Cons)
qed

lemma VerifyWitnessProgram_safe: "VerifyWitnessProgram cr checker flags w ver prog \<noteq> Inl Abort"
  using EvalScript_safe
  by (auto simp: VerifyWitnessProgram_def witness_v0_def split: sum.splits if_splits prod.splits)

lemma verify_witness_safe: "verify_witness cr checker flags w sig script ex mal s h \<noteq> Inl Abort"
  using VerifyWitnessProgram_safe [of cr checker flags w]
  by (auto simp: verify_witness_def split: sum.splits option.splits)

lemma verify_p2sh_safe: "stackCopy \<noteq> [] \<Longrightarrow> verify_p2sh cr checker flags w sig stackCopy h \<noteq> Inl Abort"
  using EvalScript_safe verify_witness_safe by (auto simp: verify_p2sh_def split: sum.splits list.splits)

lemma verify_clean_safe: "consistent_flags flags \<Longrightarrow> verify_clean flags w s h \<noteq> Inl Abort"
  by (auto simp: verify_clean_def consistent_flags_def)

text \<open>
  C7: \<open>VerifyScript\<close> fails none of its assertions, and none of those of the interpreter and the script
  numbers, when \<open>SCRIPT_VERIFY_CLEANSTACK\<close> comes with \<open>SCRIPT_VERIFY_P2SH\<close> and
  \<open>SCRIPT_VERIFY_WITNESS\<close>, and \<open>SCRIPT_VERIFY_WITNESS\<close> with \<open>SCRIPT_VERIFY_P2SH\<close>. In particular the
  stack is never empty where a redeem script is taken from it.\<close>

theorem VerifyScript_no_abort:
  assumes "consistent_flags flags"
  shows "VerifyScript cr checker flags scriptSig scriptPubKey witness \<noteq> Inl Abort"
proof -
  have p2sh: "stackCopy \<noteq> []" if "IsPayToScriptHash scriptPubKey"
      "EvalScript (mk_env cr checker flags SIGVERSION_BASE) stackCopy scriptPubKey = Inr s" for stackCopy s
    using EvalScript_p2sh_empty [OF that(1)] that(2) by (metis sum.distinct(1))
  show ?thesis
    using EvalScript_safe verify_witness_safe verify_p2sh_safe verify_clean_safe [OF assms] p2sh
    by (auto simp: VerifyScript_def split: sum.splits prod.splits if_splits)
qed

theorem VerifyScript_no_abort_witness:
  "VerifyScript demo_crypto demo_checker STANDARD_SCRIPT_VERIFY_FLAGS [] [0x51] [] \<noteq> Inl Abort"
  by (rule VerifyScript_no_abort [OF consistent_standard])

end
