(* ===== verification/Script_Templates.thy ===== *)
theory Script_Templates
  imports Script_Limits
begin

text \<open>
  The behaviour of pay-to-public-key-hash scripts and of their witness form.
\<close>

section \<open>Pay to public key hash\<close>

text \<open>The standard template, as the code of version 0 witness programs builds it.\<close>

definition p2pkh_script :: "bytes \<Rightarrow> bytes" where
  "p2pkh_script h =
     push_opcode (push_opcode (push_data (push_opcode (push_opcode [] OP_DUP) OP_HASH160) h) OP_EQUALVERIFY) OP_CHECKSIG"

lemma p2pkh_script_bytes:
  "length h = 20 \<Longrightarrow> p2pkh_script h = [0x76, 0xa9] @ (0x14 # h @ [0x88, 0xac])"
  by (simp add: p2pkh_script_def push_opcode_def push_data_def)

lemma IsPayToPublicKeyHash_p2pkh: "length h = 20 \<Longrightarrow> IsPayToPublicKeyHash (p2pkh_script h)"
  by (simp add: p2pkh_script_bytes IsPayToPublicKeyHash_def nth_append)

lemma GetOp_opcode: "unat b > OP_PUSHDATA4 \<Longrightarrow> GetOp (b # pc) = (True, unat b, [], pc)"
  by (simp add: GetOp_def Let_def)

lemma GetOp_direct: "unat b < OP_PUSHDATA1 \<Longrightarrow> length v = unat b \<Longrightarrow> GetOp (b # v @ pc) = (True, unat b, v, pc)"
  by (simp add: GetOp_def GetOp_size_def Let_def)

lemma eval_loop_op:
  assumes "unat b > OP_16" and "unat b \<notin> set disabled_ops" and "st_vfExec st = []"
    and "st_nOpCount st + 1 \<le> MAX_OPS_PER_SCRIPT"
  shows "eval_loop env (b # pc) st =
    (case exec_opcode env (unat b) True pc (st\<lparr>st_nOpCount := st_nOpCount st + 1\<rparr>) of
       Inl e \<Rightarrow> Inl e
     | Inr st \<Rightarrow> (case check_stack_size st of Inl e \<Rightarrow> Inl e | Inr st \<Rightarrow> eval_loop env pc st))"
  using assms
  by (simp add: eval_loop_Cons [OF _ GetOp_opcode] eval_step_def MAX_SCRIPT_ELEMENT_SIZE_def exec_instr_def count_op_def
      split: sum.split)

lemma eval_loop_push:
  assumes "unat b < OP_PUSHDATA1" and "length v = unat b" and "length v \<ge> 2" and "st_vfExec st = []"
  shows "eval_loop env (b # v @ pc) st =
    (case check_stack_size (push v st) of Inl e \<Rightarrow> Inl e | Inr st \<Rightarrow> eval_loop env pc st)"
  using assms
  by (simp add: eval_loop_Cons [OF _ GetOp_direct] eval_step_def MAX_SCRIPT_ELEMENT_SIZE_def exec_instr_def count_op_def
      CheckMinimalPush_def disabled_ops_def)

lemmas opcode_tables = disabled_ops_def upgradable_nops_def many_ops_def one_ops_def perm_ops_def unary_ops_def binary_ops_def hash_ops_def

lemma exec_opcode_p2pkh:
  "exec_opcode env 0x76 f pc st = exec_stack_one OP_DUP st"
  "exec_opcode env 0xa9 f pc st = exec_hash env OP_HASH160 st"
  "exec_opcode env 0x88 f pc st = exec_equal OP_EQUALVERIFY st"
  "exec_opcode env 0xac f pc st = exec_checksig env OP_CHECKSIG st"
  by (simp_all add: exec_opcode_def opcode_tables)

lemma EvalScript_p2pkh_eq:
  assumes "length h = 20" and "length rest \<le> 996"
  shows "EvalScript env (vchPubKey # vchSig # rest) (p2pkh_script h) =
    (if CHash160 (env_crypto env) vchPubKey \<noteq> h then set_error SCRIPT_ERR_EQUALVERIFY
     else case check_encodings env vchSig vchPubKey of
       Inl e \<Rightarrow> Inl e
     | Inr _ \<Rightarrow>
         let fSuccess = CheckSig (env_checker env) vchSig vchPubKey (drop_sig env vchSig (p2pkh_script h)) (env_sigversion env)
         in if \<not> fSuccess \<and> env_flag env SCRIPT_VERIFY_NULLFAIL \<and> vchSig \<noteq> [] then set_error SCRIPT_ERR_SIG_NULLFAIL
            else Inr (bool_vch fSuccess # rest))"
proof -
  note [simp] = MAX_STACK_SIZE_def MAX_OPS_PER_SCRIPT_def MAX_SCRIPT_SIZE_def
  have s: "p2pkh_script h = 0x76 # 0xa9 # 0x14 # h @ [0x88, 0xac]" using p2pkh_script_bytes [OF assms(1)] by simp
  show ?thesis
    using assms
    by (simp add: EvalScript_def s eval_loop_op eval_loop_push exec_opcode_p2pkh opcode_tables
        exec_stack_one_def need_def check_stack_size_def exec_hash_def push_def exec_equal_def exec_checksig_def
        Let_def split: sum.split)
qed

text \<open>
  A pay-to-public-key-hash script on a stack that holds a signature and a public key: it fails
  when the key does not hash to the script's hash or an encoding rule is broken, and otherwise replaces
  both items by the result of the signature check over the script without the signature; a failed check
  of a signature that is not empty is an error under \<open>SCRIPT_VERIFY_NULLFAIL\<close>.\<close>

theorem EvalScript_p2pkh:
  assumes "length h = 20" and "length rest \<le> 996"
  shows "EvalScript env (vchPubKey # vchSig # rest) (p2pkh_script h) =
    (if CHash160 (env_crypto env) vchPubKey \<noteq> h then set_error SCRIPT_ERR_EQUALVERIFY
     else case check_encodings env vchSig vchPubKey of
       Inl e \<Rightarrow> Inl e
     | Inr _ \<Rightarrow>
         let fSuccess = CheckSig (env_checker env) vchSig vchPubKey (drop_sig env vchSig (p2pkh_script h)) (env_sigversion env)
         in if \<not> fSuccess \<and> env_flag env SCRIPT_VERIFY_NULLFAIL \<and> vchSig \<noteq> [] then set_error SCRIPT_ERR_SIG_NULLFAIL
            else Inr (bool_vch fSuccess # rest))"
  using assms by (rule EvalScript_p2pkh_eq)

abbreviation (input) const_crypto :: crypto where
  "const_crypto \<equiv> \<lparr>CRIPEMD160 = \<lambda>v. replicate 20 7, CSHA1 = \<lambda>v. replicate 20 0, CheckLowS = \<lambda>_. True\<rparr>"

theorem EvalScript_p2pkh_witness:
  "EvalScript (mk_env const_crypto demo_checker 0 SIGVERSION_BASE) [[1], [1], []] (p2pkh_script (replicate 20 7)) =
   Inr [[1], []]"
proof -
  let ?env = "mk_env const_crypto demo_checker 0 SIGVERSION_BASE"
  have "check_encodings ?env [1] [1] = Inr ()"
    by (simp add: check_encodings_def CheckSignatureEncoding_def CheckPubKeyEncoding_def has_flag_def)
  then show ?thesis
    using EvalScript_p2pkh [of "replicate 20 7" "[[]]" ?env "[1]" "[1]"]
    by (simp add: CHash160_def bool_vch_def vchTrue_def)
qed

text \<open>
  C8: A version 0 witness program of 20 bytes accepts exactly the witnesses of two items, each at most
  520 bytes long, a signature and a key that hashes to the program, that pass the encoding rules and
  the signature check over the equivalent pay-to-public-key-hash script.\<close>

theorem VerifyWitnessProgram_p2wpkh:
  assumes "length program = 20"
  shows "(VerifyWitnessProgram cr checker flags witness 0 program = Inr ()) =
    (\<exists>vchSig vchPubKey. witness = [vchSig, vchPubKey] \<and> length vchSig \<le> 520 \<and> length vchPubKey \<le> 520 \<and>
       CHash160 cr vchPubKey = program \<and>
       check_encodings (mk_env cr checker flags SIGVERSION_WITNESS_V0) vchSig vchPubKey = Inr () \<and>
       CheckSig checker vchSig vchPubKey (p2pkh_script program) SIGVERSION_WITNESS_V0)"
proof (cases "length witness = 2")
  case False
  then show ?thesis using assms by (auto simp: VerifyWitnessProgram_def witness_v0_def)
next
  case True
  then obtain s k where w: "witness = [s, k]" by (auto simp: length_Suc_conv numeral_2_eq_2)
  let ?env = "mk_env cr checker flags SIGVERSION_WITNESS_V0"
  have v: "witness_v0 witness program = Inr (p2pkh_script program, [k, s])"
    using assms w by (simp add: witness_v0_def p2pkh_script_def)
  have e: "EvalScript ?env [k, s] (p2pkh_script program) =
    (if CHash160 cr k \<noteq> program then set_error SCRIPT_ERR_EQUALVERIFY
     else case check_encodings ?env s k of
       Inl e \<Rightarrow> Inl e
     | Inr _ \<Rightarrow>
         let f = CheckSig checker s k (p2pkh_script program) SIGVERSION_WITNESS_V0
         in if \<not> f \<and> has_flag flags SCRIPT_VERIFY_NULLFAIL \<and> s \<noteq> [] then set_error SCRIPT_ERR_SIG_NULLFAIL
            else Inr (bool_vch f # []))"
    by (subst EvalScript_p2pkh_eq [OF assms]) (auto simp: drop_sig_def Let_def split: sum.split)
  show ?thesis
    unfolding VerifyWitnessProgram_def v sum.case prod.case e
    by (auto simp: w Let_def MAX_SCRIPT_ELEMENT_SIZE_def bool_vch_def vchTrue_def vchFalse_def split: sum.split)
qed

theorem VerifyWitnessProgram_p2wpkh_witness:
  "VerifyWitnessProgram const_crypto demo_checker 0 [[1], [1]] 0 (replicate 20 7) = Inr ()"
proof -
  have "check_encodings (mk_env const_crypto demo_checker 0 SIGVERSION_WITNESS_V0) [1] [1] = Inr ()"
    by (simp add: check_encodings_def CheckSignatureEncoding_def CheckPubKeyEncoding_def has_flag_def)
  then show ?thesis
    using VerifyWitnessProgram_p2wpkh [of "replicate 20 7" const_crypto demo_checker 0 "[[1], [1]]"]
    by (simp add: CHash160_def)
qed

end
