(* ===== verification/Chain.thy ===== *)
theory Chain
  imports Compact Bytes "HOL-Library.Sublist"
begin

text \<open>
  \<^verbatim>\<open>src/src/chain.h\<close> and \<^verbatim>\<open>src/src/chain.cpp\<close>: block index entries in a store from addresses to
  objects, the skip list, the active chain and the work of a block. A pointer is an address or \<open>None\<close>
  for \<open>nullptr\<close>. Walking functions return \<open>None\<close> where the code would fail an assertion or
  dereference an address that holds no entry.
\<close>

section \<open>Block index entries\<close>

type_synonym ptr = nat

record CBlockIndex =
  phashBlock :: "uint256 option"
  pprev :: "ptr option"
  pskip :: "ptr option"
  nHeight :: int
  nFile :: int
  nDataPos :: u32
  nUndoPos :: u32
  ChainTrust :: "u32 list"
  nTx :: u32
  nChainTx :: u32
  nStatus :: u32
  bi_nVersion :: int
  bi_hashMerkleRoot :: uint256
  bi_nTime :: u32
  bi_nBits :: u32
  bi_nNonce :: u32
  nSequenceId :: int
  nTimeMax :: u32

type_synonym block_store = "ptr \<Rightarrow> CBlockIndex option"

definition CBlockIndex_null :: CBlockIndex where
  "CBlockIndex_null =
     \<lparr>phashBlock = None, pprev = None, pskip = None, nHeight = 0, nFile = 0, nDataPos = 0, nUndoPos = 0,
      ChainTrust = base_uint_zero 8, nTx = 0, nChainTx = 0, nStatus = 0, bi_nVersion = 0,
      bi_hashMerkleRoot = uint256_null, bi_nTime = 0, bi_nBits = 0, bi_nNonce = 0, nSequenceId = 0, nTimeMax = 0\<rparr>"

definition BLOCK_VALID_HEADER :: u32 where "BLOCK_VALID_HEADER = 1"
definition BLOCK_VALID_TREE :: u32 where "BLOCK_VALID_TREE = 2"
definition BLOCK_VALID_TRANSACTIONS :: u32 where "BLOCK_VALID_TRANSACTIONS = 3"
definition BLOCK_VALID_CHAIN :: u32 where "BLOCK_VALID_CHAIN = 4"
definition BLOCK_VALID_SCRIPTS :: u32 where "BLOCK_VALID_SCRIPTS = 5"
definition BLOCK_VALID_MASK :: u32 where
  "BLOCK_VALID_MASK =
     BLOCK_VALID_HEADER OR BLOCK_VALID_TREE OR BLOCK_VALID_TRANSACTIONS OR BLOCK_VALID_CHAIN OR BLOCK_VALID_SCRIPTS"
definition BLOCK_HAVE_DATA :: u32 where "BLOCK_HAVE_DATA = 8"
definition BLOCK_HAVE_UNDO :: u32 where "BLOCK_HAVE_UNDO = 16"
definition BLOCK_FAILED_VALID :: u32 where "BLOCK_FAILED_VALID = 32"
definition BLOCK_FAILED_CHILD :: u32 where "BLOCK_FAILED_CHILD = 64"
definition BLOCK_FAILED_MASK :: u32 where "BLOCK_FAILED_MASK = BLOCK_FAILED_VALID OR BLOCK_FAILED_CHILD"
definition BLOCK_OPT_WITNESS :: u32 where "BLOCK_OPT_WITNESS = 128"

text \<open>The enumeration of the status bits.\<close>

definition BlockStatus :: "u32 list" where
  "BlockStatus = [BLOCK_VALID_HEADER, BLOCK_VALID_TREE, BLOCK_VALID_TRANSACTIONS, BLOCK_VALID_CHAIN, BLOCK_VALID_SCRIPTS, BLOCK_VALID_MASK,
     BLOCK_HAVE_DATA, BLOCK_HAVE_UNDO, BLOCK_FAILED_VALID, BLOCK_FAILED_CHILD, BLOCK_FAILED_MASK, BLOCK_OPT_WITNESS]"

record CDiskBlockPos =
  pos_nFile :: int
  pos_nPos :: u32

definition CDiskBlockPos_null :: CDiskBlockPos where "CDiskBlockPos_null = \<lparr>pos_nFile = - 1, pos_nPos = 0\<rparr>"

definition CDiskBlockPos_IsNull :: "CDiskBlockPos \<Rightarrow> bool" where
  "CDiskBlockPos_IsNull pos \<longleftrightarrow> pos_nFile pos = - 1"

definition GetBlockPos :: "CBlockIndex \<Rightarrow> CDiskBlockPos" where
  "GetBlockPos bi =
     (if nStatus bi AND BLOCK_HAVE_DATA \<noteq> 0 then \<lparr>pos_nFile = nFile bi, pos_nPos = nDataPos bi\<rparr>
      else CDiskBlockPos_null)"

definition GetUndoPos :: "CBlockIndex \<Rightarrow> CDiskBlockPos" where
  "GetUndoPos bi =
     (if nStatus bi AND BLOCK_HAVE_UNDO \<noteq> 0 then \<lparr>pos_nFile = nFile bi, pos_nPos = nUndoPos bi\<rparr>
      else CDiskBlockPos_null)"

text \<open>\<open>IsValid\<close> and \<open>RaiseValidity\<close>; \<open>None\<close> is the failed assertion on the level.\<close>

definition IsValid :: "CBlockIndex \<Rightarrow> u32 \<Rightarrow> bool option" where
  "IsValid bi nUpTo =
     (if nUpTo AND NOT BLOCK_VALID_MASK \<noteq> 0 then None
      else if nStatus bi AND BLOCK_FAILED_MASK \<noteq> 0 then Some False
      else Some (nStatus bi AND BLOCK_VALID_MASK \<ge> nUpTo))"

definition RaiseValidity :: "CBlockIndex \<Rightarrow> u32 \<Rightarrow> (CBlockIndex \<times> bool) option" where
  "RaiseValidity bi nUpTo =
     (if nUpTo AND NOT BLOCK_VALID_MASK \<noteq> 0 then None
      else if nStatus bi AND BLOCK_FAILED_MASK \<noteq> 0 then Some (bi, False)
      else if nStatus bi AND BLOCK_VALID_MASK < nUpTo
        then Some (bi\<lparr>nStatus := (nStatus bi AND NOT BLOCK_VALID_MASK) OR nUpTo\<rparr>, True)
      else Some (bi, False))"

record CBlockFileInfo =
  nBlocks :: u32
  nSize :: u32
  nUndoSize :: u32
  nHeightFirst :: u32
  nHeightLast :: u32
  nTimeFirst :: u64
  nTimeLast :: u64

definition CBlockFileInfo_null :: CBlockFileInfo where
  "CBlockFileInfo_null =
     \<lparr>nBlocks = 0, nSize = 0, nUndoSize = 0, nHeightFirst = 0, nHeightLast = 0, nTimeFirst = 0, nTimeLast = 0\<rparr>"

definition AddBlock :: "CBlockFileInfo \<Rightarrow> u32 \<Rightarrow> u64 \<Rightarrow> CBlockFileInfo" where
  "AddBlock info nHeightIn nTimeIn =
     \<lparr>nBlocks = nBlocks info + 1, nSize = nSize info, nUndoSize = nUndoSize info,
      nHeightFirst = (if nBlocks info = 0 \<or> nHeightFirst info > nHeightIn then nHeightIn else nHeightFirst info),
      nHeightLast = (if nHeightIn > nHeightLast info then nHeightIn else nHeightLast info),
      nTimeFirst = (if nBlocks info = 0 \<or> nTimeFirst info > nTimeIn then nTimeIn else nTimeFirst info),
      nTimeLast = (if nTimeIn > nTimeLast info then nTimeIn else nTimeLast info)\<rparr>"

section \<open>The skip list\<close>

definition InvertLowestOne :: "int \<Rightarrow> int" where
  "InvertLowestOne n = n AND (n - 1)"

definition GetSkipHeight :: "int \<Rightarrow> int" where
  "GetSkipHeight height =
     (if height < 2 then 0
      else if height AND 1 \<noteq> 0 then InvertLowestOne (InvertLowestOne (height - 1)) + 1
      else InvertLowestOne height)"

lemma InvertLowestOne_bounds: "0 < n \<Longrightarrow> 0 \<le> InvertLowestOne n \<and> InvertLowestOne n \<le> n - 1"
  by (simp add: InvertLowestOne_def AND_upper2)

lemma GetSkipHeight_bounds:
  assumes "1 \<le> height"
  shows "0 \<le> GetSkipHeight height \<and> GetSkipHeight height < height"
proof (cases "height < 2")
  case False
  have "InvertLowestOne (InvertLowestOne (height - 1)) \<le> height - 2 \<and> 0 \<le> InvertLowestOne (InvertLowestOne (height - 1))"
  proof (cases "InvertLowestOne (height - 1) = 0")
    case True
    then show ?thesis using False by (simp add: InvertLowestOne_def)
  next
    case nz: False
    then show ?thesis
      using InvertLowestOne_bounds [of "height - 1"] InvertLowestOne_bounds [of "InvertLowestOne (height - 1)"] False
      by auto
  qed
  then show ?thesis using InvertLowestOne_bounds [of height] False by (auto simp: GetSkipHeight_def)
qed (use assms in \<open>auto simp: GetSkipHeight_def\<close>)

text \<open>
  The loop of \<open>GetAncestor\<close> at the entry \<open>p\<close>, whose height the code keeps in \<open>heightWalk\<close>. Its callers
  pass a \<open>height\<close> that is not negative, so that the second part of the guard adds nothing.
\<close>

function ancestor_walk :: "block_store \<Rightarrow> int \<Rightarrow> ptr \<Rightarrow> int \<Rightarrow> ptr option" where
  "ancestor_walk m height p heightWalk =
     (if heightWalk > height \<and> heightWalk > 0 then
        (case m p of
           None \<Rightarrow> None
         | Some bi \<Rightarrow>
             let heightSkip = GetSkipHeight heightWalk;
                 heightSkipPrev = GetSkipHeight (heightWalk - 1)
             in if pskip bi \<noteq> None \<and>
                   (heightSkip = height \<or>
                    (heightSkip > height \<and> \<not> (heightSkipPrev < heightSkip - 2 \<and> heightSkipPrev \<ge> height)))
                then ancestor_walk m height (the (pskip bi)) heightSkip
                else (case pprev bi of None \<Rightarrow> None | Some q \<Rightarrow> ancestor_walk m height q (heightWalk - 1)))
      else Some p)"
  by pat_completeness auto
termination
  by (relation "measure (\<lambda>(m, h, p, hw). nat hw)") (use GetSkipHeight_bounds in \<open>auto simp: nat_less_iff\<close>)

declare ancestor_walk.simps [simp del]

text \<open>The outer \<open>option\<close> is the outcome of the run, the inner one the pointer that is returned.\<close>

definition GetAncestor :: "block_store \<Rightarrow> ptr \<Rightarrow> int \<Rightarrow> ptr option option" where
  "GetAncestor m this height =
     (case m this of
        None \<Rightarrow> None
      | Some bi \<Rightarrow>
          if height > nHeight bi \<or> height < 0 then Some None
          else map_option Some (ancestor_walk m height this (nHeight bi)))"

definition BuildSkip :: "block_store \<Rightarrow> CBlockIndex \<Rightarrow> CBlockIndex option" where
  "BuildSkip m bi =
     (case pprev bi of
        None \<Rightarrow> Some bi
      | Some q \<Rightarrow> map_option (\<lambda>r. bi\<lparr>pskip := r\<rparr>) (GetAncestor m q (GetSkipHeight (nHeight bi))))"

section \<open>Median time\<close>

definition nMedianTimeSpan :: nat where "nMedianTimeSpan = 11"

fun median_times :: "block_store \<Rightarrow> nat \<Rightarrow> ptr option \<Rightarrow> int list option" where
  "median_times m 0 p = Some []"
| "median_times m (Suc i) None = Some []"
| "median_times m (Suc i) (Some p) =
     (case m p of
        None \<Rightarrow> None
      | Some bi \<Rightarrow> map_option (\<lambda>ts. int (unat (bi_nTime bi)) # ts) (median_times m i (pprev bi)))"

definition GetMedianTimePast :: "block_store \<Rightarrow> ptr \<Rightarrow> int option" where
  "GetMedianTimePast m this =
     map_option (\<lambda>ts. sort ts ! (length ts div 2)) (median_times m nMedianTimeSpan (Some this))"

section \<open>Work\<close>

text \<open>\<open>None\<close> is the exception of a division by zero.\<close>

definition GetBlockProof :: "CBlockIndex \<Rightarrow> base_uint option" where
  "GetBlockProof block =
     (case SetCompact (bi_nBits block) of (bnTarget, fNegative, fOverflow) \<Rightarrow>
        if fNegative \<or> fOverflow \<or> EqualTo bnTarget 0 then Some (base_uint_of_u64 WIDTH256 0)
        else (case base_uint_div (base_uint_not bnTarget) (base_uint_add_u64 bnTarget 1) of
                Inl e \<Rightarrow> None
              | Inr q \<Rightarrow> Some (base_uint_add_u64 q 1)))"

definition GetBlockProofEquivalentTime ::
  "CBlockIndex \<Rightarrow> CBlockIndex \<Rightarrow> CBlockIndex \<Rightarrow> int \<Rightarrow> int option" where
  "GetBlockProofEquivalentTime to from tip nPowTargetSpacing =
     (let forward = CompareTo (ChainTrust to) (ChainTrust from) > 0;
          r = (if forward then base_uint_sub (ChainTrust to) (ChainTrust from)
               else base_uint_sub (ChainTrust from) (ChainTrust to));
          sign = (if forward then 1 else - 1)
      in case GetBlockProof tip of
           None \<Rightarrow> None
         | Some proof \<Rightarrow>
             (case base_uint_div (base_uint_mul r (base_uint_of_u64 WIDTH256 (of_int nPowTargetSpacing))) proof of
                Inl e \<Rightarrow> None
              | Inr r \<Rightarrow>
                  if base_uint_bits r > 63 then Some (sign * (2 ^ 63 - 1))
                  else Some (sint ((of_int sign :: u64) * GetLow64 r))))"

section \<open>The active chain\<close>

type_synonym CChain = "ptr option list"

definition chain_at :: "CChain \<Rightarrow> int \<Rightarrow> ptr option" where
  "chain_at vChain h = (if h < 0 \<or> h \<ge> int (length vChain) then None else vChain ! nat h)"

definition Genesis :: "CChain \<Rightarrow> ptr option" where
  "Genesis vChain = (if length vChain > 0 then vChain ! 0 else None)"

definition Tip :: "CChain \<Rightarrow> ptr option" where
  "Tip vChain = (if length vChain > 0 then vChain ! (length vChain - 1) else None)"

definition Height :: "CChain \<Rightarrow> int" where
  "Height vChain = int (length vChain) - 1"

definition Contains :: "CChain \<Rightarrow> CBlockIndex \<Rightarrow> ptr \<Rightarrow> bool" where
  "Contains vChain bi pindex \<longleftrightarrow> chain_at vChain (nHeight bi) = Some pindex"

definition Next :: "CChain \<Rightarrow> CBlockIndex \<Rightarrow> ptr \<Rightarrow> ptr option" where
  "Next vChain bi pindex = (if Contains vChain bi pindex then chain_at vChain (nHeight bi + 1) else None)"

definition resize :: "'a list \<Rightarrow> nat \<Rightarrow> 'a \<Rightarrow> 'a list" where
  "resize xs n v = take n xs @ replicate (n - length xs) v"

partial_function (option) SetTip_loop :: "block_store \<Rightarrow> CChain \<Rightarrow> ptr option \<Rightarrow> CChain option" where
  [code]: "SetTip_loop m vChain pindex =
     (case pindex of
        None \<Rightarrow> Some vChain
      | Some p \<Rightarrow>
          (case m p of
             None \<Rightarrow> None
           | Some bi \<Rightarrow>
               if vChain ! nat (nHeight bi) \<noteq> Some p
               then SetTip_loop m (vChain[nat (nHeight bi) := Some p]) (pprev bi) else Some vChain))"

definition SetTip :: "block_store \<Rightarrow> CChain \<Rightarrow> ptr option \<Rightarrow> CChain option" where
  "SetTip m vChain pindex =
     (case pindex of
        None \<Rightarrow> Some []
      | Some p \<Rightarrow>
          (case m p of
             None \<Rightarrow> None
           | Some bi \<Rightarrow> SetTip_loop m (resize vChain (nat (nHeight bi + 1)) None) pindex))"

partial_function (option) GetLocator_loop ::
  "block_store \<Rightarrow> CChain \<Rightarrow> int \<Rightarrow> uint256 list \<Rightarrow> ptr option \<Rightarrow> uint256 list option" where
  [code]: "GetLocator_loop m vChain nStep vHave pindex =
     (case pindex of
        None \<Rightarrow> Some vHave
      | Some p \<Rightarrow>
          (case m p of
             None \<Rightarrow> None
           | Some bi \<Rightarrow>
               (case phashBlock bi of
                  None \<Rightarrow> None
                | Some hash \<Rightarrow>
                    let vHave = vHave @ [hash]
                    in if nHeight bi = 0 then Some vHave
                       else let h = max (nHeight bi - nStep) 0
                            in (case (if Contains vChain bi p then Some (chain_at vChain h) else GetAncestor m p h) of
                                  None \<Rightarrow> None
                                | Some q \<Rightarrow>
                                    GetLocator_loop m vChain (if length vHave > 10 then nStep * 2 else nStep) vHave q))))"

definition GetLocator :: "block_store \<Rightarrow> CChain \<Rightarrow> ptr option \<Rightarrow> uint256 list option" where
  "GetLocator m vChain pindex =
     GetLocator_loop m vChain 1 [] (if pindex = None then Tip vChain else pindex)"

partial_function (option) FindFork_loop :: "block_store \<Rightarrow> CChain \<Rightarrow> ptr option \<Rightarrow> ptr option option" where
  [code]: "FindFork_loop m vChain pindex =
     (case pindex of
        None \<Rightarrow> Some None
      | Some p \<Rightarrow>
          (case m p of
             None \<Rightarrow> None
           | Some bi \<Rightarrow> if \<not> Contains vChain bi p then FindFork_loop m vChain (pprev bi) else Some (Some p)))"

definition FindFork :: "block_store \<Rightarrow> CChain \<Rightarrow> ptr option \<Rightarrow> ptr option option" where
  "FindFork m vChain pindex =
     (case pindex of
        None \<Rightarrow> Some None
      | Some p \<Rightarrow>
          (case m p of
             None \<Rightarrow> None
           | Some bi \<Rightarrow>
               (case (if nHeight bi > Height vChain then GetAncestor m p (Height vChain) else Some (Some p)) of
                  None \<Rightarrow> None
                | Some q \<Rightarrow> FindFork_loop m vChain q)))"

text \<open>\<open>std::lower_bound\<close>: binary search in the positions from \<open>first\<close> on, \<open>n\<close> of them.\<close>

function lower_bound :: "(nat \<Rightarrow> bool) \<Rightarrow> nat \<Rightarrow> nat \<Rightarrow> nat" where
  "lower_bound before first n =
     (if n > 0 then
        (let half = n div 2; mid = first + half
         in if before mid then lower_bound before (mid + 1) (n - half - 1) else lower_bound before first half)
      else first)"
  by pat_completeness auto
termination
  by (relation "measure (\<lambda>(b, f, n). n)") auto

declare lower_bound.simps [simp del]

definition FindEarliestAtLeast :: "block_store \<Rightarrow> CChain \<Rightarrow> int \<Rightarrow> ptr option" where
  "FindEarliestAtLeast m vChain nTime =
     (let lower = lower_bound (\<lambda>i. int (unat (nTimeMax (the (m (the (vChain ! i)))))) < nTime) 0 (length vChain)
      in if lower = length vChain then None else vChain ! lower)"

partial_function (option) LastCommonAncestor_loop ::
  "block_store \<Rightarrow> ptr option \<Rightarrow> ptr option \<Rightarrow> (ptr option \<times> ptr option) option" where
  [code]: "LastCommonAncestor_loop m pa pb =
     (case (pa, pb) of
        (Some a, Some b) \<Rightarrow>
          if a \<noteq> b then
            (case (m a, m b) of
               (Some ba, Some bb) \<Rightarrow> LastCommonAncestor_loop m (pprev ba) (pprev bb)
             | _ \<Rightarrow> None)
          else Some (pa, pb)
      | _ \<Rightarrow> Some (pa, pb))"

definition LastCommonAncestor :: "block_store \<Rightarrow> ptr \<Rightarrow> ptr \<Rightarrow> ptr option option" where
  "LastCommonAncestor m pa pb =
     (case (m pa, m pb) of
        (Some ba, Some bb) \<Rightarrow>
          (case (if nHeight ba > nHeight bb then GetAncestor m pa (nHeight bb) else Some (Some pa)) of
             None \<Rightarrow> None
           | Some qa \<Rightarrow>
          (case (if \<not> nHeight ba > nHeight bb \<and> nHeight bb > nHeight ba then GetAncestor m pb (nHeight ba)
                 else Some (Some pb)) of
             None \<Rightarrow> None
           | Some qb \<Rightarrow>
          (case LastCommonAncestor_loop m qa qb of
             None \<Rightarrow> None
           | Some (ra, rb) \<Rightarrow> if ra = rb then Some ra else None)))
      | _ \<Rightarrow> None)"

end
