(* ===== verification/Chain_Tree.thy ===== *)
theory Chain_Tree
  imports Chain
begin

text \<open>
  The block tree of \<^verbatim>\<open>chain.h\<close> and \<^verbatim>\<open>chain.cpp\<close>: when a store of block
  index entries is well formed, what \<open>GetAncestor\<close> returns, that \<open>BuildSkip\<close> keeps the store well
  formed, what \<open>SetTip\<close> makes of a chain, and the fork points \<open>FindFork\<close> and \<open>LastCommonAncestor\<close>
  find.
\<close>

section \<open>Well-formed block trees\<close>

text \<open>The entry \<open>n\<close> predecessors before \<open>p\<close>, following \<open>pprev\<close> only.\<close>

fun nth_prev :: "block_store \<Rightarrow> nat \<Rightarrow> ptr \<Rightarrow> ptr option" where
  "nth_prev m 0 p = Some p"
| "nth_prev m (Suc n) p =
     (case m p of None \<Rightarrow> None | Some bi \<Rightarrow> (case pprev bi of None \<Rightarrow> None | Some q \<Rightarrow> nth_prev m n q))"

definition wf_entry :: "block_store \<Rightarrow> CBlockIndex \<Rightarrow> bool" where
  "wf_entry m bi \<longleftrightarrow>
     (case pprev bi of
        None \<Rightarrow> nHeight bi = 0 \<and> pskip bi = None
      | Some q \<Rightarrow>
          (\<exists>b. m q = Some b \<and> nHeight bi = nHeight b + 1) \<and> nHeight bi > 0 \<and>
          (\<forall>s. pskip bi = Some s \<longrightarrow> nth_prev m (nat (nHeight bi - 1 - GetSkipHeight (nHeight bi))) q = Some s))"

definition wf_store :: "block_store \<Rightarrow> bool" where
  "wf_store m \<longleftrightarrow> (\<forall>p bi. m p = Some bi \<longrightarrow> wf_entry m bi)"

lemma wf_storeD: "wf_store m \<Longrightarrow> m p = Some bi \<Longrightarrow> wf_entry m bi"
  by (auto simp: wf_store_def)

lemma wf_height: "wf_entry m bi \<Longrightarrow> 0 \<le> nHeight bi"
  by (auto simp: wf_entry_def split: option.splits)

lemma nth_prev_exists:
  assumes "wf_store m"
  shows "m p = Some bi \<Longrightarrow> int n \<le> nHeight bi \<Longrightarrow>
    \<exists>q b. nth_prev m n p = Some q \<and> m q = Some b \<and> nHeight b = nHeight bi - int n"
proof (induction n arbitrary: p bi)
  case (Suc n)
  have e: "wf_entry m bi" using assms Suc.prems(1) by (rule wf_storeD)
  then obtain q b where q: "pprev bi = Some q" "m q = Some b" "nHeight bi = nHeight b + 1"
    using Suc.prems(2) by (auto simp: wf_entry_def split: option.splits)
  then show ?case using Suc.IH [of q b] Suc.prems by auto
qed simp

lemma nth_prev_add: "nth_prev m (a + b) p = (case nth_prev m a p of None \<Rightarrow> None | Some q \<Rightarrow> nth_prev m b q)"
  by (induction a arbitrary: p) (auto split: option.splits)

lemma ancestor_walk_nth_prev:
  assumes wf: "wf_store m" and h: "0 \<le> height"
  shows "m p = Some bi \<Longrightarrow> nHeight bi = hw \<Longrightarrow> height \<le> hw \<Longrightarrow>
    ancestor_walk m height p hw = nth_prev m (nat (hw - height)) p"
proof (induction "nat hw" arbitrary: p bi hw rule: less_induct)
  case less
  show ?case
  proof (cases "hw > height")
    case False
    then show ?thesis using less.prems by (subst ancestor_walk.simps) simp
  next
    case True
    have pos: "hw > 0" using True h by simp
    note sk = GetSkipHeight_bounds [of hw]
    obtain q b where q: "pprev bi = Some q" "m q = Some b" "nHeight b = hw - 1"
        "\<And>s. pskip bi = Some s \<Longrightarrow> nth_prev m (nat (hw - 1 - GetSkipHeight hw)) q = Some s"
      using wf_storeD [OF wf less.prems(1)] less.prems(2) pos by (auto simp: wf_entry_def split: option.splits)
    have n: "nat (hw - height) = Suc (nat (hw - 1 - height))" using True by simp
    have prev: "ancestor_walk m height q (hw - 1) = nth_prev m (nat (hw - height)) p"
      using less.hyps [of "hw - 1" q b] q less.prems True pos by (simp add: n)
    show ?thesis
    proof (cases "pskip bi \<noteq> None \<and> height \<le> GetSkipHeight hw")
      case False
      then show ?thesis using True pos less.prems(1) prev q(1)
        by (subst ancestor_walk.simps) (auto simp: Let_def)
    next
      case skip: True
      then obtain s where s: "pskip bi = Some s" by auto
      have bs: "nth_prev m (nat (hw - 1 - GetSkipHeight hw)) q = Some s" using q(4) s by simp
      obtain b' where b': "m s = Some b'" "nHeight b' = GetSkipHeight hw"
        using nth_prev_exists [OF wf q(2), of "nat (hw - 1 - GetSkipHeight hw)"] q(3) bs sk pos by auto
      have idx: "nat (hw - 1 - GetSkipHeight hw) + nat (GetSkipHeight hw - height) = nat (hw - 1 - height)"
        using skip sk pos by linarith
      have "nth_prev m (nat (GetSkipHeight hw - height)) s = nth_prev m (nat (hw - 1 - height)) q"
        using nth_prev_add [of m "nat (hw - 1 - GetSkipHeight hw)" "nat (GetSkipHeight hw - height)" q] bs
        unfolding idx by simp
      then have jump: "ancestor_walk m height s (GetSkipHeight hw) = nth_prev m (nat (hw - height)) p"
        using less.hyps [of "GetSkipHeight hw" s b'] b' skip sk pos less.prems(1) q(1) by (simp add: n nat_less_iff)
      show ?thesis using True pos less.prems(1) prev jump q(1) s
        by (subst ancestor_walk.simps) (simp add: Let_def)
    qed
  qed
qed

lemma GetAncestor_nth_prev:
  assumes "wf_store m" and "m p = Some bi"
  shows "GetAncestor m p h = Some (if 0 \<le> h \<and> h \<le> nHeight bi then nth_prev m (nat (nHeight bi - h)) p else None)"
proof (cases "0 \<le> h \<and> h \<le> nHeight bi")
  case True
  then obtain q where "nth_prev m (nat (nHeight bi - h)) p = Some q"
    using nth_prev_exists [OF assms, of "nat (nHeight bi - h)"] by auto
  then show ?thesis using True ancestor_walk_nth_prev [OF assms(1) _ assms(2) refl] assms(2) by (simp add: GetAncestor_def)
qed (use assms in \<open>auto simp: GetAncestor_def\<close>)

text \<open>
  C10: On a well-formed block tree \<open>GetAncestor\<close> terminates without failing its assertion, returns a null
  pointer exactly for heights outside the chain, and otherwise returns the entry of that height that
  following \<open>pprev\<close> reaches: the skip list gives the same answer as the plain walk.\<close>

theorem GetAncestor_correct:
  assumes "wf_store m" and "m p = Some bi"
  shows "GetAncestor m p h = Some (if 0 \<le> h \<and> h \<le> nHeight bi then nth_prev m (nat (nHeight bi - h)) p else None) \<and>
    (0 \<le> h \<and> h \<le> nHeight bi \<longrightarrow>
       (\<exists>q b. nth_prev m (nat (nHeight bi - h)) p = Some q \<and> m q = Some b \<and> nHeight b = h))"
  using GetAncestor_nth_prev [OF assms, of h] nth_prev_exists [OF assms, of "nat (nHeight bi - h)"] by auto

text \<open>Adding an entry at a fresh address.\<close>

lemma nth_prev_upd:
  "m a = None \<Longrightarrow> nth_prev m n q = Some r \<Longrightarrow> nth_prev (m(a \<mapsto> x)) n q = Some r"
proof (induction n arbitrary: q)
  case (Suc n)
  then obtain bi q' where "m q = Some bi" "pprev bi = Some q'" "nth_prev m n q' = Some r"
    by (auto split: option.splits)
  then show ?case using Suc by auto
qed simp

lemma wf_entry_upd: "m a = None \<Longrightarrow> wf_entry m bi \<Longrightarrow> wf_entry (m(a \<mapsto> x)) bi"
  by (fastforce simp: wf_entry_def intro: nth_prev_upd split: option.splits)

lemma wf_store_insert:
  "wf_store m \<Longrightarrow> m a = None \<Longrightarrow> wf_entry m bi \<Longrightarrow> wf_store (m(a \<mapsto> bi))"
  by (auto simp: wf_store_def wf_entry_upd)

lemma BuildSkip_wf:
  assumes "wf_store m" and "m q = Some b" and "pprev bi = Some q" and "nHeight bi = nHeight b + 1"
  shows "\<exists>s. BuildSkip m bi = Some (bi\<lparr>pskip := Some s\<rparr>) \<and> wf_entry m (bi\<lparr>pskip := Some s\<rparr>)"
proof -
  have h: "0 \<le> nHeight b" using wf_height wf_storeD assms by blast
  note sk = GetSkipHeight_bounds [of "nHeight bi"]
  obtain s where s: "nth_prev m (nat (nHeight b - GetSkipHeight (nHeight bi))) q = Some s"
    using nth_prev_exists [OF assms(1,2), of "nat (nHeight b - GetSkipHeight (nHeight bi))"] sk assms(4) h by auto
  then have "GetAncestor m q (GetSkipHeight (nHeight bi)) = Some (Some s)"
    using GetAncestor_nth_prev [OF assms(1,2)] sk assms(4) h by simp
  then show ?thesis using s assms h by (simp add: BuildSkip_def wf_entry_def)
qed

section \<open>The chain ending in a block\<close>

text \<open>The pointers from the genesis block up to \<open>p\<close> at height \<open>n\<close>.\<close>

definition chain_path :: "block_store \<Rightarrow> nat \<Rightarrow> ptr \<Rightarrow> CChain" where
  "chain_path m n p = map (\<lambda>h. nth_prev m (n - h) p) [0..<Suc n]"

text \<open>What \<open>SetTip\<close> maintains: the vector is empty or the whole chain of its tip.\<close>

definition chain_ok :: "block_store \<Rightarrow> CChain \<Rightarrow> bool" where
  "chain_ok m c \<longleftrightarrow> c = [] \<or> (\<exists>t bt. m t = Some bt \<and> c = chain_path m (nat (nHeight bt)) t)"

lemma chain_path_length [simp]: "length (chain_path m n p) = Suc n"
  by (simp add: chain_path_def)

lemma chain_path_nth: "h \<le> n \<Longrightarrow> chain_path m n p ! h = nth_prev m (n - h) p"
  by (simp add: chain_path_def del: upt_Suc)

lemma chain_path_snoc:
  assumes "m p = Some bi" and "pprev bi = Some q"
  shows "chain_path m (Suc n) p = chain_path m n q @ [Some p]"
  using assms by (simp add: chain_path_def Suc_diff_le)

lemma chain_path_take:
  assumes "nth_prev m k p = Some q" and "k \<le> n"
  shows "take (Suc (n - k)) (chain_path m n p) = chain_path m (n - k) q"
proof (rule nth_equalityI)
  show "length (take (Suc (n - k)) (chain_path m n p)) = length (chain_path m (n - k) q)" by simp
next
  fix i assume "i < length (take (Suc (n - k)) (chain_path m n p))"
  then have i: "i \<le> n - k" by simp
  then have "n - i = k + (n - k - i)" using assms(2) by simp
  then have "nth_prev m (n - i) p = nth_prev m (n - k - i) q" using assms(1) by (simp add: nth_prev_add)
  then show "take (Suc (n - k)) (chain_path m n p) ! i = chain_path m (n - k) q ! i"
    using i by (simp add: chain_path_nth)
qed

lemma SetTip_loop_None [simp]: "SetTip_loop m v None = Some v"
  by (subst SetTip_loop.simps) simp

lemma SetTip_loop_Some:
  "m p = Some bi \<Longrightarrow> SetTip_loop m v (Some p) =
     (if v ! nat (nHeight bi) \<noteq> Some p then SetTip_loop m (v[nat (nHeight bi) := Some p]) (pprev bi) else Some v)"
  by (subst SetTip_loop.simps) simp

text \<open>Below an entry that is already in place, the vector is right.\<close>

lemma SetTip_loop_path:
  assumes wf: "wf_store m"
  shows "m p = Some bi \<Longrightarrow> nHeight bi = int n \<Longrightarrow> length v > n \<Longrightarrow>
    (\<forall>h q. h \<le> n \<and> v ! h = Some q \<and> (\<exists>b. m q = Some b \<and> nHeight b = int h) \<longrightarrow> take (Suc h) v = chain_path m h q) \<Longrightarrow>
    SetTip_loop m v (Some p) = Some (chain_path m n p @ drop (Suc n) v)"
proof (induction n arbitrary: p bi v)
  case 0
  have "pprev bi = None" using wf_storeD [OF wf 0(1)] 0(2) by (auto simp: wf_entry_def split: option.splits)
  then show ?case using 0 by (cases v) (auto simp: chain_path_def SetTip_loop_Some)
next
  case (Suc n)
  obtain q b where q: "pprev bi = Some q" "m q = Some b" "nHeight b = int n"
    using wf_storeD [OF wf Suc.prems(1)] Suc.prems(2) by (auto simp: wf_entry_def split: option.splits)
  have nh: "nat (nHeight bi) = Suc n" using Suc.prems(2) by simp
  show ?case
  proof (cases "v ! Suc n = Some p")
    case True
    then have "take (Suc (Suc n)) v = chain_path m (Suc n) p" using Suc.prems by blast
    then have "chain_path m (Suc n) p @ drop (Suc (Suc n)) v = v" by (metis append_take_drop_id)
    then show ?thesis using True Suc.prems(1) by (simp add: SetTip_loop_Some nh)
  next
    case False
    let ?v = "v[Suc n := Some p]"
    have "SetTip_loop m ?v (Some q) = Some (chain_path m n q @ drop (Suc n) ?v)"
      using Suc.prems by (intro Suc.IH [OF q(2,3)]) (auto simp: take_update_swap list_update_beyond nth_list_update)
    moreover have "drop (Suc n) ?v = Some p # drop (Suc (Suc n)) v"
      using Suc.prems(3) by (simp add: Cons_nth_drop_Suc [symmetric] drop_update_swap)
    ultimately show ?thesis
      using False q(1) Suc.prems(1) by (simp add: SetTip_loop_Some nh chain_path_snoc)
  qed
qed


lemma chain_ok_entry:
  assumes wf: "wf_store m" and "chain_ok m c" and "h < length c"
  shows "\<exists>q b. c ! h = Some q \<and> m q = Some b \<and> nHeight b = int h \<and> take (Suc h) c = chain_path m h q"
proof -
  obtain t bt where t: "m t = Some bt" "c = chain_path m (nat (nHeight bt)) t"
    using assms by (auto simp: chain_ok_def)
  define n where "n = nat (nHeight bt)"
  have n: "nHeight bt = int n" using wf_height [OF wf_storeD [OF wf t(1)]] by (simp add: n_def)
  have h: "h \<le> n" using assms(3) t(2) n_def by simp
  obtain q b where q: "nth_prev m (n - h) t = Some q" "m q = Some b" "nHeight b = int h"
    using nth_prev_exists [OF wf t(1), of "n - h"] h n by auto
  then show ?thesis using chain_path_take [OF q(1), of n] h t(2) n by (auto simp: chain_path_nth)
qed

lemma SetTip_path:
  assumes wf: "wf_store m" and "chain_ok m c" and p: "m p = Some bi"
  shows "SetTip m c (Some p) = Some (chain_path m (nat (nHeight bi)) p)"
proof -
  define n where "n = nat (nHeight bi)"
  have n: "nHeight bi = int n" using wf_height [OF wf_storeD [OF wf p]] by (simp add: n_def)
  define v where "v = resize c (Suc n) None"
  have len: "length v = Suc n" by (simp add: v_def resize_def)
  have "take (Suc h) v = chain_path m h q" if "h \<le> n" "v ! h = Some q" for h q
  proof -
    have "h < length c" using that by (auto simp: v_def resize_def nth_append split: if_splits)
    moreover from this have "take (Suc h) v = take (Suc h) c" "v ! h = c ! h" using that(1)
      by (simp_all add: v_def resize_def nth_append min_def)
    ultimately show ?thesis using chain_ok_entry [OF wf assms(2)] that(2) by fastforce
  qed
  then have "SetTip_loop m v (Some p) = Some (chain_path m n p @ drop (Suc n) v)"
    using len by (intro SetTip_loop_path [OF wf p n]) auto
  then show ?thesis using p len n by (simp add: SetTip_def v_def nat_add_distrib)
qed

text \<open>
  On a well-formed block tree, \<open>SetTip\<close> turns an active chain, empty or complete, into the complete
  chain of the new tip, whatever the fork between them, although it only rewrites the entries down to
  the fork. Its loop always ends.\<close>

theorem SetTip_correct:
  assumes "wf_store m" and "chain_ok m c" and "m p = Some bi"
  shows "SetTip m c (Some p) = Some (chain_path m (nat (nHeight bi)) p) \<and>
    chain_ok m (chain_path m (nat (nHeight bi)) p) \<and>
    Tip (chain_path m (nat (nHeight bi)) p) = Some p \<and> Height (chain_path m (nat (nHeight bi)) p) = nHeight bi"
  using SetTip_path [OF assms] assms(3) wf_height [OF wf_storeD [OF assms(1,3)]]
  by (auto simp: chain_ok_def Tip_def Height_def chain_path_nth)

section \<open>Forks\<close>

definition chain_of :: "block_store \<Rightarrow> ptr \<Rightarrow> CChain" where
  "chain_of m p = (case m p of None \<Rightarrow> [] | Some bi \<Rightarrow> chain_path m (nat (nHeight bi)) p)"

text \<open>\<open>r\<close> is where the two chains part: their common blocks are those up to \<open>r\<close>.\<close>

definition fork_point :: "block_store \<Rightarrow> CChain \<Rightarrow> CChain \<Rightarrow> ptr option \<Rightarrow> bool" where
  "fork_point m c d r \<longleftrightarrow> set c \<inter> set d = (case r of None \<Rightarrow> {} | Some f \<Rightarrow> set (chain_of m f))"

lemma chain_of_height: "m p = Some bi \<Longrightarrow> nHeight bi = int n \<Longrightarrow> chain_of m p = chain_path m n p"
  by (simp add: chain_of_def)

lemma chain_ok_chain_of: "chain_ok m (chain_of m p)"
  by (auto simp: chain_ok_def chain_of_def split: option.splits)

text \<open>A block is in a chain only at its own height.\<close>

lemma chain_ok_mem:
  assumes "wf_store m" and "chain_ok m c" and "x \<in> set c"
  obtains q b h where "x = Some q" "m q = Some b" "nHeight b = int h" "h < length c" "c ! h = Some q"
proof -
  obtain h where h: "h < length c" "c ! h = x" using assms(3) by (auto simp: in_set_conv_nth)
  then show thesis using chain_ok_entry [OF assms(1,2) h(1)] that by auto
qed

lemma chain_ok_mem_iff:
  assumes "wf_store m" and "chain_ok m c" and "m p = Some bi"
  shows "Some p \<in> set c \<longleftrightarrow> Contains c bi p"
proof
  assume "Some p \<in> set c"
  with assms obtain q b h where "Some p = Some q" "m q = Some b" "nHeight b = int h" "h < length c" "c ! h = Some q"
    by (blast elim: chain_ok_mem)
  then show "Contains c bi p" using assms(3) by (simp add: Contains_def chain_at_def)
next
  assume "Contains c bi p"
  then show "Some p \<in> set c" by (auto simp: Contains_def chain_at_def split: if_splits) (metis nat_less_iff not_le nth_mem)
qed

lemma Contains_prefix:
  assumes wf: "wf_store m" and "chain_ok m c" and "m p = Some bi" and "Contains c bi p"
  shows "set (chain_of m p) \<subseteq> set c"
proof -
  have h: "nHeight bi \<ge> 0" "nat (nHeight bi) < length c" "c ! nat (nHeight bi) = Some p"
    using assms(4) wf_height [OF wf_storeD [OF wf assms(3)]] by (auto simp: Contains_def chain_at_def split: if_splits)
  then have "take (Suc (nat (nHeight bi))) c = chain_of m p"
    using chain_ok_entry [OF wf assms(2) h(2)] assms(3) by (auto simp: chain_of_def)
  then show ?thesis by (metis set_take_subset)
qed

lemma chain_of_prev:
  assumes wf: "wf_store m" and p: "m p = Some bi"
  shows "chain_of m p = (case pprev bi of None \<Rightarrow> [] | Some q \<Rightarrow> chain_of m q) @ [Some p]"
proof (cases "pprev bi")
  case None
  then have "nHeight bi = 0" using wf_storeD [OF wf p] by (simp add: wf_entry_def)
  then show ?thesis using None p by (simp add: chain_of_def chain_path_def)
next
  case (Some q)
  then obtain b where b: "m q = Some b" "nHeight bi = nHeight b + 1"
    using wf_storeD [OF wf p] by (auto simp: wf_entry_def)
  have "nat (nHeight bi) = Suc (nat (nHeight b))"
    using b wf_height [OF wf_storeD [OF wf b(1)]] by simp
  then show ?thesis using Some p b by (simp add: chain_of_def chain_path_snoc)
qed

lemma FindFork_loop_None [simp]: "FindFork_loop m c None = Some None"
  by (subst FindFork_loop.simps) simp

lemma FindFork_loop_Some:
  "m p = Some bi \<Longrightarrow> FindFork_loop m c (Some p) =
     (if \<not> Contains c bi p then FindFork_loop m c (pprev bi) else Some (Some p))"
  by (subst FindFork_loop.simps) simp

lemma FindFork_loop_fork:
  assumes wf: "wf_store m" and ok: "chain_ok m c"
  shows "m p = Some bi \<Longrightarrow> nHeight bi = int n \<Longrightarrow>
    \<exists>r. FindFork_loop m c (Some p) = Some r \<and> fork_point m c (chain_of m p) r"
proof (induction n arbitrary: p bi)
  case n: 0
  have "pprev bi = None" using wf_storeD [OF wf n(1)] n(2) by (auto simp: wf_entry_def split: option.splits)
  then show ?case
    using n chain_ok_mem_iff [OF wf ok n(1)] Contains_prefix [OF wf ok n(1)] chain_of_prev [OF wf n(1)]
    by (cases "Contains c bi p") (auto simp: FindFork_loop_Some fork_point_def)
next
  case (Suc n)
  obtain q b where q: "pprev bi = Some q" "m q = Some b" "nHeight b = int n"
    using wf_storeD [OF wf Suc.prems(1)] Suc.prems(2) by (auto simp: wf_entry_def split: option.splits)
  show ?case
  proof (cases "Contains c bi p")
    case True
    then show ?thesis
      using Suc.prems(1) Contains_prefix [OF wf ok Suc.prems(1)] by (auto simp: FindFork_loop_Some fork_point_def)
  next
    case False
    then show ?thesis
      using Suc.IH [OF q(2,3)] Suc.prems(1) q chain_ok_mem_iff [OF wf ok Suc.prems(1)] chain_of_prev [OF wf Suc.prems(1)]
      by (auto simp: FindFork_loop_Some fork_point_def)
  qed
qed

text \<open>Cutting a chain at a height above all blocks of the other one changes nothing.\<close>

lemma chain_of_cut:
  assumes wf: "wf_store m" and ok: "chain_ok m c" and p: "m p = Some bi" and q: "nth_prev m k p = Some q"
    and k: "int k \<le> nHeight bi" and h: "int (length c) \<le> nHeight bi - int k + 1"
  shows "set c \<inter> set (chain_of m p) = set c \<inter> set (chain_of m q)"
proof -
  obtain n where n: "nHeight bi = int n" using wf_height [OF wf_storeD [OF wf p]] by (metis nonneg_int_cases)
  obtain bq where bq: "m q = Some bq" "nHeight bq = int (n - k)"
    using nth_prev_exists [OF wf p k] q n k by auto
  have cq: "chain_of m q = take (Suc (n - k)) (chain_of m p)"
    using chain_path_take [OF q, of n] k n by (simp only: chain_of_height [of m, OF bq] chain_of_height [of m, OF p n])
  have "x \<in> set (chain_of m q)" if x: "x \<in> set c" "x \<in> set (chain_of m p)" for x
  proof -
    from x(1) obtain y b i where y: "x = Some y" "m y = Some b" "nHeight b = int i" "i < length c"
      by (blast elim: chain_ok_mem [OF wf ok])
    from x(2) obtain y' b' j where y': "x = Some y'" "m y' = Some b'" "nHeight b' = int j" "j < length (chain_of m p)"
        "chain_of m p ! j = Some y'" by (blast elim: chain_ok_mem [OF wf chain_ok_chain_of])
    have "j = i" using y y' by simp
    then have "j < Suc (n - k)" using y(4) h n k by simp
    then show ?thesis unfolding cq using y' by (metis length_take min_less_iff_conj nth_mem nth_take)
  qed
  moreover have "set (chain_of m q) \<subseteq> set (chain_of m p)" unfolding cq by (rule set_take_subset)
  ultimately show ?thesis by blast
qed

lemma FindFork_fork:
  assumes "wf_store m" and "chain_ok m c" and "m p = Some bi"
  shows "\<exists>r. FindFork m c (Some p) = Some r \<and> fork_point m c (chain_of m p) r"
proof (cases "nHeight bi > Height c")
  case False
  obtain n where "nHeight bi = int n" using wf_height [OF wf_storeD [OF assms(1,3)]] by (metis nonneg_int_cases)
  then show ?thesis using FindFork_loop_fork [OF assms] False assms(3) by (simp add: FindFork_def)
next
  case True
  show ?thesis
  proof (cases "c = []")
    case empty: True
    then have "GetAncestor m p (Height c) = Some None"
      using assms(3) by (simp add: GetAncestor_def Height_def)
    then show ?thesis using True empty assms(3) by (simp add: FindFork_def fork_point_def)
  next
    case False
    then have H: "Height c = int (length c - 1)" by (cases c) (auto simp: Height_def)
    define k where "k = nat (nHeight bi - Height c)"
    have k: "int k \<le> nHeight bi" "nHeight bi - int k = int (length c - 1)" using True H by (auto simp: k_def)
    obtain q b where q: "nth_prev m k p = Some q" "m q = Some b" "nHeight b = int (length c - 1)"
      using nth_prev_exists [OF assms(1,3) k(1)] k(2) by auto
    have "GetAncestor m p (Height c) = Some (Some q)"
      using GetAncestor_nth_prev [OF assms(1,3)] True q(1) H by (simp add: k_def)
    moreover have "set c \<inter> set (chain_of m p) = set c \<inter> set (chain_of m q)"
      using chain_of_cut [OF assms q(1) k(1)] k(2) False by (cases c) auto
    ultimately show ?thesis
      using FindFork_loop_fork [OF assms(1,2) q(2,3)] True assms(3) by (auto simp: FindFork_def fork_point_def)
  qed
qed

text \<open>
  C11: \<open>FindFork\<close> returns, on every well-formed tree and complete active chain, the block up to which the
  chain of the given block and the active chain agree, and a null pointer when they have no block in
  common.\<close>

theorem FindFork_correct:
  assumes "wf_store m" and "chain_ok m c" and "m p = Some bi"
  shows "\<exists>r. FindFork m c (Some p) = Some r \<and> fork_point m c (chain_of m p) r"
  by (rule FindFork_fork [OF assms])

lemma LCA_loop_step:
  "m a = Some ba \<Longrightarrow> m b = Some bb \<Longrightarrow> LastCommonAncestor_loop m (Some a) (Some b) =
     (if a \<noteq> b then LastCommonAncestor_loop m (pprev ba) (pprev bb) else Some (Some a, Some b))"
  by (subst LastCommonAncestor_loop.simps) simp

lemma LCA_loop_None [simp]: "LastCommonAncestor_loop m None None = Some (None, None)"
  by (subst LastCommonAncestor_loop.simps) simp

lemma LCA_loop_fork:
  assumes wf: "wf_store m"
  shows "m a = Some ba \<Longrightarrow> m b = Some bb \<Longrightarrow> nHeight ba = int n \<Longrightarrow> nHeight bb = int n \<Longrightarrow>
    \<exists>r. LastCommonAncestor_loop m (Some a) (Some b) = Some (r, r) \<and> fork_point m (chain_of m a) (chain_of m b) r"
proof (induction n arbitrary: a b ba bb)
  case n: 0
  have "pprev ba = None" "pprev bb = None"
    using wf_storeD [OF wf n(1)] wf_storeD [OF wf n(2)] n(3,4) by (auto simp: wf_entry_def split: option.splits)
  then show ?case
    using n chain_of_prev [OF wf n(1)] chain_of_prev [OF wf n(2)]
    by (cases "a = b") (auto simp: LCA_loop_step fork_point_def)
next
  case (Suc n)
  obtain pa qa where a: "pprev ba = Some pa" "m pa = Some qa" "nHeight qa = int n"
    using wf_storeD [OF wf Suc.prems(1)] Suc.prems(3) by (auto simp: wf_entry_def split: option.splits)
  obtain pb qb where b: "pprev bb = Some pb" "m pb = Some qb" "nHeight qb = int n"
    using wf_storeD [OF wf Suc.prems(2)] Suc.prems(4) by (auto simp: wf_entry_def split: option.splits)
  show ?case
  proof (cases "a = b")
    case True
    then show ?thesis using Suc.prems(1) by (auto simp: LCA_loop_step fork_point_def)
  next
    case False
    have "Some a \<notin> set (chain_of m pb)" "Some b \<notin> set (chain_of m pa)"
      using chain_ok_mem_iff [OF wf chain_ok_chain_of Suc.prems(1), of pb]
        chain_ok_mem_iff [OF wf chain_ok_chain_of Suc.prems(2), of pa] Suc.prems(3,4) a b
      by (auto simp: Contains_def chain_at_def chain_of_height [of m])
    then show ?thesis
      using Suc.IH [OF a(2) b(2) a(3) b(3)] False Suc.prems(1,2) a b
        chain_of_prev [OF wf Suc.prems(1)] chain_of_prev [OF wf Suc.prems(2)]
      by (auto simp: LCA_loop_step fork_point_def)
  qed
qed

lemma chain_of_length: "wf_store m \<Longrightarrow> m p = Some bi \<Longrightarrow> int (length (chain_of m p)) = nHeight bi + 1"
  using wf_height [OF wf_storeD, of m p bi] by (simp add: chain_of_def)

text \<open>Going to the height of the other block, as both functions do first.\<close>

lemma GetAncestor_cut:
  assumes wf: "wf_store m" and a: "m a = Some ba" and b: "m b = Some bb" and "nHeight bb \<le> nHeight ba"
  shows "\<exists>q bq. GetAncestor m a (nHeight bb) = Some (Some q) \<and> m q = Some bq \<and> nHeight bq = nHeight bb \<and>
    set (chain_of m b) \<inter> set (chain_of m a) = set (chain_of m b) \<inter> set (chain_of m q)"
proof -
  have h: "0 \<le> nHeight bb" using wf_height [OF wf_storeD [OF wf b]] .
  define k where "k = nat (nHeight ba - nHeight bb)"
  have k: "int k \<le> nHeight ba" "nHeight ba - int k = nHeight bb" using assms(4) h by (auto simp: k_def)
  obtain q bq where q: "nth_prev m k a = Some q" "m q = Some bq" "nHeight bq = nHeight bb"
    using nth_prev_exists [OF wf a k(1)] k(2) by auto
  have "GetAncestor m a (nHeight bb) = Some (Some q)"
    using GetAncestor_nth_prev [OF wf a] assms(4) h q(1) by (simp add: k_def)
  then show ?thesis
    using q chain_of_cut [OF wf chain_ok_chain_of a q(1) k(1), of b] k(2) chain_of_length [OF wf b] by auto
qed

text \<open>
  \<open>LastCommonAncestor\<close> never fails its assertion on a well-formed block tree: it returns the last block
  that the chains of its two arguments share, and a null pointer when they start from different
  genesis blocks.\<close>

theorem LastCommonAncestor_correct:
  assumes wf: "wf_store m" and a: "m pa = Some ba" and b: "m pb = Some bb"
  shows "\<exists>r. LastCommonAncestor m pa pb = Some r \<and> fork_point m (chain_of m pa) (chain_of m pb) r"
proof -
  obtain i j where ij: "nHeight ba = int i" "nHeight bb = int j"
    using wf_height [OF wf_storeD [OF wf a]] wf_height [OF wf_storeD [OF wf b]] by (metis nonneg_int_cases)
  consider "i = j" | "j < i" | "i < j" by linarith
  then show ?thesis
  proof cases
    case 1
    then show ?thesis using LCA_loop_fork [OF wf a b] ij a b by (auto simp: LastCommonAncestor_def)
  next
    case 2
    then obtain q bq where q: "GetAncestor m pa (nHeight bb) = Some (Some q)" "m q = Some bq" "nHeight bq = int j"
        "set (chain_of m pb) \<inter> set (chain_of m pa) = set (chain_of m pb) \<inter> set (chain_of m q)"
      using GetAncestor_cut [OF wf a b] ij by auto
    then show ?thesis
      using LCA_loop_fork [OF wf q(2) b q(3) ij(2)] 2 ij a b
      by (auto simp: LastCommonAncestor_def fork_point_def Int_commute)
  next
    case 3
    then obtain q bq where q: "GetAncestor m pb (nHeight ba) = Some (Some q)" "m q = Some bq" "nHeight bq = int i"
        "set (chain_of m pa) \<inter> set (chain_of m pb) = set (chain_of m pa) \<inter> set (chain_of m q)"
      using GetAncestor_cut [OF wf b a] ij by auto
    then show ?thesis
      using LCA_loop_fork [OF wf a q(2) ij(1) q(3)] 3 ij a b
      by (auto simp: LastCommonAncestor_def fork_point_def)
  qed
qed

section \<open>A small tree\<close>

text \<open>Block 0 with the children 1 and 3, and block 2 on top of block 1.\<close>

definition demo_entry :: "ptr option \<Rightarrow> ptr option \<Rightarrow> int \<Rightarrow> u32 \<Rightarrow> CBlockIndex" where
  "demo_entry prev skip h t = CBlockIndex_null\<lparr>pprev := prev, pskip := skip, nHeight := h, bi_nTime := t\<rparr>"

definition demo_store :: block_store where
  "demo_store =
     [0 \<mapsto> demo_entry None None 0 10, 1 \<mapsto> demo_entry (Some 0) (Some 0) 1 20,
      2 \<mapsto> demo_entry (Some 1) (Some 0) 2 30, 3 \<mapsto> demo_entry (Some 0) (Some 0) 1 25]"

lemma demo_store_simps:
  "demo_store 0 = Some (demo_entry None None 0 10)" "demo_store (Suc 0) = Some (demo_entry (Some 0) (Some 0) 1 20)"
  "demo_store 2 = Some (demo_entry (Some 1) (Some 0) 2 30)" "demo_store 3 = Some (demo_entry (Some 0) (Some 0) 1 25)"
  by (simp_all add: demo_store_def)

lemma demo_entry_simps [simp]:
  "pprev (demo_entry p s h t) = p" "pskip (demo_entry p s h t) = s" "nHeight (demo_entry p s h t) = h"
  "bi_nTime (demo_entry p s h t) = t"
  by (simp_all add: demo_entry_def)

lemma demo_skip: "GetSkipHeight 1 = 0" "GetSkipHeight 2 = 0"
  by code_simp+

lemma demo_store_wf: "wf_store demo_store"
  unfolding wf_store_def
proof (intro allI impI)
  fix p bi assume "demo_store p = Some bi"
  then consider "bi = demo_entry None None 0 10" | "bi = demo_entry (Some 0) (Some 0) 1 20"
    | "bi = demo_entry (Some 1) (Some 0) 2 30" | "bi = demo_entry (Some 0) (Some 0) 1 25"
    by (auto simp: demo_store_def split: if_splits)
  then show "wf_entry demo_store bi"
    by cases (simp_all add: wf_entry_def demo_store_simps demo_skip)
qed

theorem GetAncestor_correct_witness: "GetAncestor demo_store 2 1 = Some (Some 1)"
  using GetAncestor_correct [OF demo_store_wf, of 2 "demo_entry (Some 1) (Some 0) 2 30" 1]
  by (simp add: demo_store_simps)

lemma demo_prev: "nth_prev demo_store 2 2 = Some 0" "nth_prev demo_store (Suc 0) 2 = Some 1"
  using nth_prev.simps(2) [of demo_store "Suc 0" 2] by (simp_all add: demo_store_simps numeral_2_eq_2 [symmetric])

lemma demo_path:
  "chain_path demo_store 2 2 = [Some 0, Some 1, Some 2]" "chain_path demo_store (Suc 0) 3 = [Some 0, Some 3]"
  by (simp_all add: chain_path_def demo_store_simps upt_rec demo_prev)

lemma demo_chain_ok: "chain_ok demo_store [Some 0, Some 1, Some 2]"
  unfolding chain_ok_def
  by (intro disjI2 exI [of _ 2] exI [of _ "demo_entry (Some 1) (Some 0) 2 30"]) (simp add: demo_store_simps demo_path)

theorem SetTip_correct_witness: "SetTip demo_store [Some 0, Some 1, Some 2] (Some 3) = Some [Some 0, Some 3]"
  using SetTip_correct [OF demo_store_wf demo_chain_ok, of 3 "demo_entry (Some 0) (Some 0) 1 25"]
  by (simp add: demo_store_simps demo_path)

theorem FindFork_correct_witness: "\<exists>r. FindFork demo_store [Some 0, Some 1, Some 2] (Some 3) = Some r"
  using FindFork_correct [OF demo_store_wf demo_chain_ok, of 3 "demo_entry (Some 0) (Some 0) 1 25"]
  by (auto simp: demo_store_simps)

theorem LastCommonAncestor_correct_witness: "\<exists>r. LastCommonAncestor demo_store 2 3 = Some r"
  using LastCommonAncestor_correct [OF demo_store_wf, of 2 "demo_entry (Some 1) (Some 0) 2 30"
      3 "demo_entry (Some 0) (Some 0) 1 25"]
  by (auto simp: demo_store_simps)

end
