(* ===== verification/Chain_Views.thy ===== *)
theory Chain_Views
  imports Chain_Tree
begin

text \<open>
  What the clients of \<^verbatim>\<open>chain.cpp\<close> read off a chain: the median time past, the work of a
  block, the earliest block of a given time and the locator of a block.
\<close>

section \<open>Median time\<close>

lemma median_times_length: "median_times m n p = Some ts \<Longrightarrow> length ts \<le> n"
  by (induction m n p arbitrary: ts rule: median_times.induct) (auto split: option.splits)

lemma median_times_take:
  "median_times m (Suc n) p = Some ts \<Longrightarrow> median_times m n p = Some (take n ts)"
proof (induction n arbitrary: p ts)
  case (Suc n)
  show ?case
  proof (cases p)
    case (Some q)
    then obtain bi us where "m q = Some bi" "median_times m (Suc n) (pprev bi) = Some us"
        "ts = int (unat (bi_nTime bi)) # us"
      using Suc.prems by (auto split: option.splits)
    then show ?thesis using Suc.IH Some by simp
  qed (use Suc.prems in simp)
qed simp

text \<open>At least \<open>k\<close> of the entries of a sorted list are at least its element \<open>length - k\<close>.\<close>

lemma sorted_count_ge:
  assumes "sorted xs" and "i < length xs"
  shows "length xs - i \<le> length (filter (\<lambda>y. y \<ge> xs ! i) (xs :: int list))"
proof -
  have "filter (\<lambda>y. y \<ge> xs ! i) (drop i xs) = drop i xs"
    using assms by (intro filter_True) (auto simp: in_set_conv_nth sorted_nth_mono)
  then have "length (filter (\<lambda>y. y \<ge> xs ! i) xs) \<ge> length (drop i xs)"
    by (metis append_take_drop_id filter_append le_add2 length_append)
  then show ?thesis by simp
qed

lemma count_ge_sorted:
  assumes "sorted xs" and "i < length xs" and "length xs - i \<le> length (filter (\<lambda>y. y \<ge> v) (xs :: int list))"
  shows "v \<le> xs ! i"
proof (rule ccontr)
  assume "\<not> v \<le> xs ! i"
  then have "filter (\<lambda>y. y \<ge> v) (take (Suc i) xs) = []"
    using assms(1,2) by (auto simp: filter_empty_conv in_set_conv_nth less_Suc_eq_le) (metis order_trans sorted_nth_mono)
  then have "filter (\<lambda>y. y \<ge> v) xs = filter (\<lambda>y. y \<ge> v) (drop (Suc i) xs)"
    by (metis append_self_conv2 append_take_drop_id filter_append)
  then have "length (filter (\<lambda>y. y \<ge> v) xs) \<le> length xs - Suc i" by (metis length_drop length_filter_le)
  then show False using assms(2,3) by simp
qed

lemma length_filter_sort: "length (filter P (sort xs)) = length (filter P (xs :: int list))"
  by (metis filter_sort length_sort)

text \<open>Dropping the oldest of \<open>k\<close> times and adding one above the median does not lower the median.\<close>

lemma median_step:
  fixes ts :: "int list"
  assumes "ts \<noteq> []" and "t > sort ts ! (length ts div 2)" and "n = length ts \<or> Suc n = length ts" and "n = length ts \<or> n \<ge> 1"
  shows "sort ts ! (length ts div 2) \<le> sort (t # take n ts) ! (length (t # take n ts) div 2)"
proof (rule count_ge_sorted)
  let ?v = "sort ts ! (length ts div 2)"
  let ?c = "\<lambda>xs. length (filter (\<lambda>y. y \<ge> ?v) xs)"
  have "length ts - length ts div 2 \<le> ?c (sort ts)"
    using sorted_count_ge [of "sort ts" "length ts div 2"] assms(1) by simp
  then have c: "length ts - length ts div 2 \<le> ?c ts" by (simp add: length_filter_sort)
  have "?c ts = ?c (take n ts) + ?c (drop n ts)" by (metis append_take_drop_id filter_append length_append)
  moreover have "?c (drop n ts) \<le> length ts - n" by (metis length_drop length_filter_le)
  ultimately have "length ts - length ts div 2 - (length ts - n) \<le> ?c (take n ts)" using c by linarith
  then have "length ts - length ts div 2 - (length ts - n) + 1 \<le> ?c (t # take n ts)" using assms(2) by simp
  then show "length (sort (t # take n ts)) - length (t # take n ts) div 2 \<le> ?c (sort (t # take n ts))"
    unfolding length_filter_sort using assms(3) by (auto simp: min_def)
  show "length (t # take n ts) div 2 < length (sort (t # take n ts))" by simp
qed (rule sorted_sort)

lemma GetMedianTimePast_step:
  assumes "m p = Some bi" and "pprev bi = Some q" and "GetMedianTimePast m q = Some mtp"
    and "int (unat (bi_nTime bi)) > mtp"
  shows "\<exists>mtp'. GetMedianTimePast m p = Some mtp' \<and> mtp \<le> mtp'"
proof -
  obtain ts where ts: "median_times m 11 (Some q) = Some ts" "mtp = sort ts ! (length ts div 2)"
    using assms(3) by (auto simp: GetMedianTimePast_def nMedianTimeSpan_def)
  have ne: "ts \<noteq> []" using ts(1) by (auto simp: eval_nat_numeral split: option.splits)
  have len: "length ts \<le> 11" using median_times_length [OF ts(1)] .
  have "median_times m 10 (Some q) = Some (take 10 ts)"
    using median_times_take [of m 10 "Some q" ts] ts(1) by simp
  then have "median_times m 11 (Some p) = Some (int (unat (bi_nTime bi)) # take 10 ts)"
    using assms(1,2) by (simp add: eval_nat_numeral)
  moreover have "take 10 ts = take (if length ts = 11 then 10 else length ts) ts" using len by auto
  ultimately show ?thesis
    using median_step [OF ne, of "int (unat (bi_nTime bi))" "if length ts = 11 then 10 else length ts"] assms(4) ts(2)
    by (auto simp: GetMedianTimePast_def nMedianTimeSpan_def split: if_splits)
qed

text \<open>
  C12: The median time past never falls along a chain whose blocks obey the timestamp rule: a block whose
  time is above the median time past of its parent has a median time past at least that of the parent.\<close>

theorem GetMedianTimePast_mono:
  assumes "m p = Some bi" and "pprev bi = Some q" and "GetMedianTimePast m q = Some mtp"
    and "int (unat (bi_nTime bi)) > mtp"
  shows "\<exists>mtp'. GetMedianTimePast m p = Some mtp' \<and> mtp \<le> mtp'"
  using assms by (rule GetMedianTimePast_step)

lemma demo_median: "GetMedianTimePast demo_store 1 = Some 20"
proof -
  have 0: "median_times demo_store (Suc (Suc n)) (Some 0) = Some [10]" for n by (simp add: demo_store_simps)
  have "median_times demo_store (Suc (Suc (Suc n))) (Some 1) = Some [20, 10]" for n
    using 0 [of n] by (simp add: demo_store_simps)
  moreover have "nMedianTimeSpan = Suc (Suc (Suc 8))" by (simp add: nMedianTimeSpan_def)
  ultimately have "median_times demo_store nMedianTimeSpan (Some 1) = Some [20, 10]" by metis
  then show ?thesis by (simp add: GetMedianTimePast_def)
qed

theorem GetMedianTimePast_mono_witness: "\<exists>t. GetMedianTimePast demo_store 2 = Some t \<and> 20 \<le> t"
  by (rule GetMedianTimePast_mono [OF _ _ demo_median, where bi = "demo_entry (Some 1) (Some 0) 2 30"])
    (simp_all add: demo_store_simps)

section \<open>Work\<close>

lemma EqualTo_zero: "2 \<le> length pn \<Longrightarrow> EqualTo pn 0 \<longleftrightarrow> limbs_val pn = 0"
proof -
  assume l: "2 \<le> length pn"
  then obtain a b ps where pn: "pn = a # b # ps" by (metis Suc_le_length_iff numeral_2_eq_2)
  have "limbs_val ps = 0 \<longleftrightarrow> list_all (\<lambda>x. x = 0) ps"
    using limbs_val_inj [of ps "replicate (length ps) 0"]
    by (auto simp: list_all_iff) (metis in_set_replicate, metis limbs_val_zero replicate_eqI)
  moreover have "ucast x = (0 :: u64) \<longleftrightarrow> x = 0" for x :: u32 by (metis ucast_0 unat_0 unat_eq_zero unat_ucast_u32_u64)
  ultimately show ?thesis by (auto simp: pn EqualTo_def LB_def unat_eq_zero)
qed

lemma compact_value_not_max: "compact_value c < 2 ^ 256 \<Longrightarrow> compact_value c + 1 < 2 ^ 256"
proof (cases "compact_size c \<le> 3")
  case True
  have "compact_mantissa c div 256 ^ (3 - compact_size c) \<le> compact_mantissa c" by (rule div_le_dividend)
  moreover have "(2 :: nat) ^ 23 < 2 ^ 256" by (rule power_strict_increasing) simp_all
  ultimately show ?thesis using compact_mantissa_bound [of c] True unfolding compact_value_def if_P [OF True] by linarith
next
  case False
  assume lt: "compact_value c < 2 ^ 256"
  obtain k where "compact_size c - 3 = Suc k" using False by (metis Suc_diff_Suc not_le)
  then have "even (compact_value c)" using False by (simp add: compact_value_def)
  moreover have "even ((2 :: nat) ^ 256)" by simp
  ultimately have "compact_value c + 1 \<noteq> 2 ^ 256" by (metis even_plus_one_iff)
  then show ?thesis using lt by linarith
qed

lemma LB_WIDTH256: "LB ^ WIDTH256 = 2 ^ 256"
  by (simp only: LB_power WIDTH256_def) simp

lemma add_one_val:
  assumes "length a = WIDTH256" and "limbs_val a + 1 < 2 ^ 256"
  shows "length (base_uint_add_u64 a 1) = WIDTH256 \<and> limbs_val (base_uint_add_u64 a 1) = limbs_val a + 1"
proof -
  let ?o = "base_uint_of_u64 WIDTH256 1"
  have o: "length ?o = WIDTH256" "limbs_val ?o = 1"
    by (simp_all add: base_uint_of_u64_length base_uint_of_u64_val WIDTH256_def)
  have "limbs_val (base_uint_add a ?o) = (limbs_val a + 1) mod 2 ^ 256"
    using base_uint_add_val [of a ?o] assms(1) o by (simp only: LB_WIDTH256)
  then show ?thesis using assms o mod_less [OF assms(2)] by (simp only: base_uint_add_u64_def base_uint_add_length)
qed

lemma GetBlockProof_val:
  "\<exists>w. GetBlockProof b = Some w \<and> length w = WIDTH256 \<and>
     limbs_val w = (let t = compact_value (bi_nBits b)
       in if bit (bi_nBits b) 23 \<or> t = 0 \<or> 2 ^ 256 \<le> t then 0 else 2 ^ 256 div (t + 1))"
proof -
  define c where "c = bi_nBits b"
  obtain T neg ov where sc: "SetCompact c = (T, neg, ov)" by (metis prod_cases3)
  have ov: "ov \<longleftrightarrow> 2 ^ 256 \<le> compact_value c" using SetCompact_overflow [of c] sc by simp
  have neg: "neg \<longleftrightarrow> bit c 23 \<and> compact_value c \<noteq> 0" using SetCompact_negative [of c] sc by simp
  have T: "limbs_val T = compact_value c mod 2 ^ 256" "length T = WIDTH256"
    using SetCompact_val [of c] SetCompact_length [of c] sc by simp_all
  have z: "EqualTo T 0 \<longleftrightarrow> limbs_val T = 0" using EqualTo_zero [of T] T by (simp add: WIDTH256_def)
  show ?thesis
  proof (cases "bit c 23 \<or> compact_value c = 0 \<or> 2 ^ 256 \<le> compact_value c")
    case True
    then have "neg \<or> ov \<or> EqualTo T 0" using neg ov z T(1) by auto
    then have "GetBlockProof b = Some (base_uint_of_u64 WIDTH256 0)"
      by (simp add: GetBlockProof_def c_def [symmetric] sc)
    then show ?thesis using True
      by (simp add: base_uint_of_u64_length base_uint_of_u64_val WIDTH256_def c_def [symmetric] Let_def)
  next
    case False
    define t where "t = compact_value c"
    have t: "t + 1 < 2 ^ 256" "limbs_val T = t" using False compact_value_not_max [of c] T by (auto simp: t_def)
    let ?s = "base_uint_add_u64 T 1"
    have s: "length ?s = WIDTH256" "limbs_val ?s = t + 1"
      using add_one_val [OF T(2)] t by simp_all
    have n: "limbs_val (base_uint_not T) = 2 ^ 256 - (t + 1)" "length (base_uint_not T) = WIDTH256"
      using base_uint_not_val [of T] T(2) LB_WIDTH256 t by (simp_all add: base_uint_not_def)
    obtain q where q: "base_uint_div (base_uint_not T) ?s = Inr q" "limbs_val q = (2 ^ 256 - (t + 1)) div (t + 1)"
        "length q = WIDTH256"
      using base_uint_div_val [of ?s "base_uint_not T"] s n by (auto split: sum.splits)
    have d: "2 ^ 256 div (t + 1) = (2 ^ 256 - (t + 1)) div (t + 1) + 1"
      using le_div_geq [OF _ less_imp_le [OF t(1)]] by (simp only: Suc_eq_plus1 zero_less_Suc)
    have lt: "2 ^ 256 div (t + 1) < 2 ^ 256"
      using False by (intro div_less_dividend) (simp_all add: t_def)
    have w: "length (base_uint_add_u64 q 1) = WIDTH256" "limbs_val (base_uint_add_u64 q 1) = 2 ^ 256 div (t + 1)"
      using add_one_val [OF q(3)] q(2) d lt by (simp_all only:)
    have "GetBlockProof b = Some (base_uint_add_u64 q 1)"
      using False neg ov z T(1) q(1) t(2) by (simp add: GetBlockProof_def c_def [symmetric] sc t_def)
    then show ?thesis using w False by (simp add: c_def [symmetric] t_def Let_def)
  qed
qed

text \<open>
  \<open>GetBlockProof\<close> never divides by zero and computes the expected number of hashes, \<open>2^256\<close> divided by
  the target plus one, although \<open>2^256\<close> does not fit the type; it is zero for a negative, zero or
  overflowing target.\<close>

theorem GetBlockProof_correct:
  "map_option limbs_val (GetBlockProof b) =
     Some (let t = compact_value (bi_nBits b)
           in if bit (bi_nBits b) 23 \<or> t = 0 \<or> 2 ^ 256 \<le> t then 0 else 2 ^ 256 div (t + 1))"
  using GetBlockProof_val [of b] by auto

section \<open>Searching the active chain\<close>

lemma lower_bound_0 [simp]: "lower_bound before first 0 = first"
  by (subst lower_bound.simps) simp

lemma lower_bound_step:
  "0 < n \<Longrightarrow> lower_bound before first n =
     (if before (first + n div 2) then lower_bound before (first + n div 2 + 1) (n - n div 2 - 1)
      else lower_bound before first (n div 2))"
  by (subst lower_bound.simps) (simp add: Let_def)

lemma lower_bound_range: "first \<le> lower_bound before first n \<and> lower_bound before first n \<le> first + n"
proof (induction n arbitrary: first rule: less_induct)
  case (less n)
  have r: "0 < n \<Longrightarrow> first + n div 2 + 1 + (n - n div 2 - 1) = first + n" by linarith
  show ?case
    using less [of "n - n div 2 - 1" "first + n div 2 + 1"] less [of "n div 2" first] r
    by (cases "n = 0") (auto simp: lower_bound_step)
qed

text \<open>On a partitioned range the result is the partition point.\<close>

lemma lower_bound_split:
  assumes part: "\<And>i j. i < j \<Longrightarrow> j < N \<Longrightarrow> before j \<Longrightarrow> before i"
  shows "first + n \<le> N \<Longrightarrow> first \<le> i \<Longrightarrow> i < first + n \<Longrightarrow> before i \<longleftrightarrow> i < lower_bound before first n"
proof (induction n arbitrary: first rule: less_induct)
  case (less n)
  define h where "h = n div 2"
  have n: "0 < n" "h < n" using less.prems by (auto simp: h_def)
  show ?case
  proof (cases "before (first + h)")
    case True
    have r: "lower_bound before first n = lower_bound before (first + h + 1) (n - h - 1)"
      using n True by (simp add: lower_bound_step h_def)
    show ?thesis
    proof (cases "i \<le> first + h")
      case le: True
      then have "before i" using part [of i "first + h"] True less.prems n by (cases "i = first + h") auto
      then show ?thesis using le lower_bound_range [of "first + h + 1" before "n - h - 1"] unfolding r by linarith
    next
      case False
      then show ?thesis using less.IH [of "n - h - 1" "first + h + 1"] less.prems n unfolding r by linarith
    qed
  next
    case False
    have r: "lower_bound before first n = lower_bound before first h"
      using n False by (simp add: lower_bound_step h_def)
    show ?thesis
    proof (cases "i < first + h")
      case True
      then show ?thesis using less.IH [of h first] less.prems n unfolding r by linarith
    next
      case ge: False
      then have "\<not> before i" using part [of "first + h" i] False less.prems by (cases "i = first + h") auto
      then show ?thesis using ge lower_bound_range [of first before h] unfolding r by linarith
    qed
  qed
qed

definition time_max_at :: "block_store \<Rightarrow> CChain \<Rightarrow> nat \<Rightarrow> int" where
  "time_max_at m c i = int (unat (nTimeMax (the (m (the (c ! i))))))"

text \<open>
  On a chain whose \<open>nTimeMax\<close> does not decrease, \<open>FindEarliestAtLeast\<close> returns the first block whose
  \<open>nTimeMax\<close> reaches the given time, and a null pointer exactly when there is none.\<close>

theorem FindEarliestAtLeast_correct:
  assumes "\<forall>i j. i < j \<and> j < length c \<longrightarrow> time_max_at m c i \<le> time_max_at m c j"
  shows "(FindEarliestAtLeast m c t = None \<and> (\<forall>i < length c. time_max_at m c i < t)) \<or>
    (\<exists>k < length c. FindEarliestAtLeast m c t = c ! k \<and> time_max_at m c k \<ge> t \<and> (\<forall>i < k. time_max_at m c i < t))"
proof -
  let ?b = "\<lambda>i. time_max_at m c i < t"
  define k where "k = lower_bound ?b 0 (length c)"
  have f: "FindEarliestAtLeast m c t = (if k = length c then None else c ! k)"
    by (simp add: FindEarliestAtLeast_def k_def time_max_at_def Let_def)
  have b: "?b i \<longleftrightarrow> i < k" if "i < length c" for i
    unfolding k_def using that assms by (intro lower_bound_split [where N = "length c"]) (auto intro: order.strict_trans1)
  have k: "k \<le> length c" using lower_bound_range [of 0 ?b "length c"] by (simp add: k_def)
  show ?thesis
  proof (cases "k = length c")
    case True
    then show ?thesis using b f by auto
  next
    case False
    then have "k < length c" "\<not> ?b k" "\<forall>i < k. ?b i" using k b by auto
    then show ?thesis using f False by (auto simp: not_less intro!: exI [of _ k])
  qed
qed

section \<open>Locators\<close>

text \<open>The heights a locator lists, from the given block down to the genesis block.\<close>

function locator_heights :: "nat \<Rightarrow> nat \<Rightarrow> nat \<Rightarrow> nat list" where
  "locator_heights step k h =
     (if h = 0 \<or> step = 0 then [h]
      else h # locator_heights (if k + 1 > 10 then step * 2 else step) (k + 1) (h - step))"
  by pat_completeness auto
termination
  by (relation "measure (\<lambda>(s, k, h). h)") auto

declare locator_heights.simps [simp del]

lemma locator_heights_0 [simp]: "locator_heights s k 0 = [0]"
  by (subst locator_heights.simps) simp

lemma locator_heights_bounds:
  "0 < step \<Longrightarrow> hd (locator_heights step k h) = h \<and> last (locator_heights step k h) = 0 \<and>
     sorted_wrt (>) (locator_heights step k h) \<and> (\<forall>x \<in> set (locator_heights step k h). x \<le> h)"
proof (induction h arbitrary: step k rule: less_induct)
  case (less h)
  show ?case
  proof (cases "h = 0")
    case False
    define s where "s = (if k + 1 > 10 then step * 2 else step)"
    define t where "t = locator_heights s (k + 1) (h - step)"
    have u: "locator_heights step k h = h # t"
      using False less.prems by (subst locator_heights.simps) (simp add: t_def s_def)
    have "t \<noteq> []" unfolding t_def by (subst locator_heights.simps) simp
    moreover have "hd t = h - step \<and> last t = 0 \<and> sorted_wrt (>) t \<and> (\<forall>x \<in> set t. x \<le> h - step)"
      unfolding t_def using False less.prems by (intro less.IH) (auto simp: s_def)
    ultimately show ?thesis unfolding u using less.prems False by fastforce
  qed simp
qed

definition block_hash :: "block_store \<Rightarrow> ptr option \<Rightarrow> uint256" where
  "block_hash m p = the (phashBlock (the (m (the p))))"

lemma GetLocator_loop_Some:
  "m p = Some bi \<Longrightarrow> phashBlock bi = Some hash \<Longrightarrow> GetLocator_loop m c nStep vHave (Some p) =
     (if nHeight bi = 0 then Some (vHave @ [hash])
      else (case (if Contains c bi p then Some (chain_at c (max (nHeight bi - nStep) 0))
                  else GetAncestor m p (max (nHeight bi - nStep) 0)) of
              None \<Rightarrow> None
            | Some q \<Rightarrow> GetLocator_loop m c (if length vHave + 1 > 10 then nStep * 2 else nStep) (vHave @ [hash]) q))"
  by (subst GetLocator_loop.simps) (simp add: Let_def)

text \<open>Both ways of stepping back, through the vector and through the skip list, reach the same block.\<close>

lemma locator_next:
  assumes wf: "wf_store m" and ok: "chain_ok m c" and p: "m p = Some bi" and n: "nHeight bi = int n" and h: "h \<le> n"
  shows "(if Contains c bi p then Some (chain_at c (int h)) else GetAncestor m p (int h)) = Some (nth_prev m (n - h) p)"
proof (cases "Contains c bi p")
  case True
  then have l: "n < length c" "c ! n = Some p" using n by (auto simp: Contains_def chain_at_def split: if_splits)
  have "take (Suc n) c = chain_path m n p" using chain_ok_entry [OF wf ok l(1)] l(2) by auto
  then have "c ! h = chain_path m n p ! h" using h by (metis le_imp_less_Suc nth_take)
  then show ?thesis using True h l(1) by (simp add: chain_at_def chain_path_nth)
next
  case False
  then show ?thesis using GetAncestor_nth_prev [OF wf p, of "int h"] n h by (simp add: nat_diff_distrib)
qed

lemma GetLocator_loop_heights:
  assumes wf: "wf_store m" and ok: "chain_ok m c" and hash: "\<And>q b. m q = Some b \<Longrightarrow> phashBlock b \<noteq> None"
  shows "m p = Some bi \<Longrightarrow> nHeight bi = int n \<Longrightarrow> 0 < step \<Longrightarrow>
    GetLocator_loop m c (int step) vHave (Some p) =
      Some (vHave @ map (\<lambda>h. block_hash m (nth_prev m (n - h) p)) (locator_heights step (length vHave) n))"
proof (induction n arbitrary: p bi step vHave rule: less_induct)
  case (less n)
  obtain hs where hs: "phashBlock bi = Some hs" using hash [OF less.prems(1)] by auto
  have h0: "block_hash m (nth_prev m 0 p) = hs" using less.prems(1) hs by (simp add: block_hash_def)
  show ?case
  proof (cases "n = 0")
    case True
    then show ?thesis using less.prems hs h0 by (simp add: GetLocator_loop_Some)
  next
    case False
    let ?s = "if length vHave + 1 > 10 then step * 2 else step"
    have mx: "max (nHeight bi - int step) 0 = int (n - step)" using less.prems(2) by simp
    obtain q b where q: "nth_prev m (n - (n - step)) p = Some q" "m q = Some b" "nHeight b = int (n - step)"
      using nth_prev_exists [OF wf less.prems(1), of "n - (n - step)"] less.prems(2) by auto
    have eq: "nth_prev m (n - h) p = nth_prev m (n - step - h) q" if "h \<le> n - step" for h
    proof -
      have "n - (n - step) + (n - step - h) = n - h" using that by linarith
      then show ?thesis using nth_prev_add [of m "n - (n - step)" "n - step - h" p] q(1) by simp
    qed
    have nx: "(if Contains c bi p then Some (chain_at c (int (n - step))) else GetAncestor m p (int (n - step))) =
        Some (Some q)"
      using locator_next [OF wf ok less.prems(1,2), of "n - step"] q(1) by simp
    have "GetLocator_loop m c (int step) vHave (Some p) =
        GetLocator_loop m c (int ?s) (vHave @ [hs]) (Some q)"
      unfolding GetLocator_loop_Some [of m, OF less.prems(1) hs] mx nx using less.prems(2) False by simp
    also have "\<dots> = Some ((vHave @ [hs]) @
        map (\<lambda>h. block_hash m (nth_prev m (n - step - h) q)) (locator_heights ?s (length (vHave @ [hs])) (n - step)))"
      using less.IH [of "n - step" q b ?s "vHave @ [hs]"] q less.prems(3) False by simp
    also have "map (\<lambda>h. block_hash m (nth_prev m (n - step - h) q)) (locator_heights ?s (length (vHave @ [hs])) (n - step)) =
        map (\<lambda>h. block_hash m (nth_prev m (n - h) p)) (locator_heights ?s (length (vHave @ [hs])) (n - step))"
      using locator_heights_bounds [of ?s "length (vHave @ [hs])" "n - step"] less.prems(3) eq by simp
    finally show ?thesis
      using False less.prems(3) h0 by (subst locator_heights.simps) simp
  qed
qed

text \<open>
  The locator of a block lists the hashes of its ancestors at heights that fall from the block to the
  genesis block in steps that double after the tenth entry, whether or not the block is on the active
  chain; the loop always ends.\<close>

theorem GetLocator_correct:
  assumes "wf_store m" and "chain_ok m c" and "\<And>q b. m q = Some b \<Longrightarrow> phashBlock b \<noteq> None"
    and "m p = Some bi" and "nHeight bi = int n"
  shows "GetLocator m c (Some p) = Some (map (\<lambda>h. block_hash m (nth_prev m (n - h) p)) (locator_heights 1 0 n)) \<and>
    hd (locator_heights 1 0 n) = n \<and> last (locator_heights 1 0 n) = 0 \<and> sorted_wrt (>) (locator_heights 1 0 n)"
  using GetLocator_loop_heights [OF assms(1,2) _ assms(4,5), of 1 "[]"] assms(3) locator_heights_bounds [of 1 0 n] by (simp add: GetLocator_def)

end
