(* ===== verification/Hex.thy ===== *)
theory Hex
  imports Bytes
begin

text \<open>
  Hexadecimal text: the digit table, the tests and the conversions of
  \<^verbatim>\<open>utilstrencodings.cpp\<close> and \<^verbatim>\<open>utilstrencodings.h\<close>, and the text form of the blob
  classes of \<^verbatim>\<open>uint256.cpp\<close>. A C string is a list of characters; reading its end gives the
  character NUL, which is no hexadecimal digit.
\<close>

section \<open>Digits\<close>

definition p_util_hexdigit :: "int list" where
  "p_util_hexdigit =
     replicate 48 (- 1) @ [0, 1, 2, 3, 4, 5, 6, 7, 8, 9] @ replicate 7 (- 1) @ [0xa, 0xb, 0xc, 0xd, 0xe, 0xf] @
     replicate 26 (- 1) @ [0xa, 0xb, 0xc, 0xd, 0xe, 0xf] @ replicate 153 (- 1)"

definition HexDigit :: "char \<Rightarrow> int" where
  "HexDigit c = p_util_hexdigit ! of_char c"

definition IsHex :: "string \<Rightarrow> bool" where
  "IsHex str \<longleftrightarrow> list_all (\<lambda>c. \<not> HexDigit c < 0) str \<and> length str > 0 \<and> length str mod 2 = 0"

definition IsHexNumber :: "string \<Rightarrow> bool" where
  "IsHexNumber str =
     (let starting_location = (if length str > 2 \<and> str ! 0 = CHR ''0'' \<and> str ! 1 = CHR ''x'' then 2 else 0)
      in list_all (\<lambda>c. \<not> HexDigit c < 0) (drop starting_location str) \<and> length str > starting_location)"

text \<open>\<open>isspace\<close> of the C locale.\<close>

definition isspace :: "char \<Rightarrow> bool" where
  "isspace c \<longleftrightarrow> c = CHR '' '' \<or> (9 \<le> (of_char c :: nat) \<and> (of_char c :: nat) \<le> 13)"

lemma dropWhile_Cons2: "c # d # r = dropWhile P xs \<Longrightarrow> length r < length xs"
  using length_dropWhile_le [of P xs] by (metis length_Cons lessI less_SucI less_le_trans)

function ParseHex :: "string \<Rightarrow> bytes" where
  "ParseHex psz =
     (case dropWhile isspace psz of
        c # d # psz' \<Rightarrow>
          if HexDigit c = - 1 then [] else if HexDigit d = - 1 then []
          else (push_bit 4 (word_of_int (HexDigit c)) OR word_of_int (HexDigit d)) # ParseHex psz'
      | _ \<Rightarrow> [])"
  by auto
termination
  by (relation "measure length") (auto dest: dropWhile_Cons2 [OF sym])

declare ParseHex.simps [simp del]

text \<open>\<open>HexStr\<close> without spaces between the bytes, the way the blob classes call it.\<close>

definition hexmap :: string where
  "hexmap = ''0123456789abcdef''"

definition HexStr :: "bytes \<Rightarrow> string" where
  "HexStr vch = concat (map (\<lambda>val. [hexmap ! unat (drop_bit 4 val), hexmap ! unat (val AND 15)]) vch)"

section \<open>Blobs as text\<close>

definition GetHex :: "bytes \<Rightarrow> string" where
  "GetHex data = HexStr (rev data)"

text \<open>The digits are read from the last one; \<open>n\<close> bytes are still to be written.\<close>

fun SetHex_fill :: "nat \<Rightarrow> string \<Rightarrow> bytes" where
  "SetHex_fill 0 ds = []"
| "SetHex_fill (Suc n) [] = replicate (Suc n) 0"
| "SetHex_fill (Suc n) [d] = word_of_int (HexDigit d) # replicate n 0"
| "SetHex_fill (Suc n) (d # e # ds) =
     (word_of_int (HexDigit d) OR push_bit 4 (word_of_int (HexDigit e))) # SetHex_fill n ds"

definition skip_0x :: "string \<Rightarrow> string" where
  "skip_0x psz = (case psz of c # d # psz' \<Rightarrow> if c = CHR ''0'' \<and> (d = CHR ''x'' \<or> d = CHR ''X'') then psz' else psz
                  | _ \<Rightarrow> psz)"

definition SetHex :: "nat \<Rightarrow> string \<Rightarrow> bytes" where
  "SetHex WIDTH psz =
     (let psz = skip_0x (dropWhile isspace psz)
      in SetHex_fill WIDTH (rev (takeWhile (\<lambda>c. HexDigit c \<noteq> - 1) psz)))"

definition uint256S :: "string \<Rightarrow> uint256" where
  "uint256S str = SetHex 32 str"

section \<open>Round trips\<close>

lemma hexmap_digit: "list_all (\<lambda>i. HexDigit (hexmap ! i) = int i \<and> \<not> isspace (hexmap ! i) \<and> hexmap ! i \<noteq> CHR ''x'' \<and>
    hexmap ! i \<noteq> CHR ''X'') [0..<16]"
  by code_simp

lemma HexDigit_hexmap [simp]:
  "i < 16 \<Longrightarrow> HexDigit (hexmap ! i) = int i" "i < 16 \<Longrightarrow> \<not> isspace (hexmap ! i)"
  "i < 16 \<Longrightarrow> hexmap ! i \<noteq> CHR ''x''" "i < 16 \<Longrightarrow> hexmap ! i \<noteq> CHR ''X''"
  using hexmap_digit by (auto simp: list_all_iff)

lemma nibble_bounds [simp]: "unat (drop_bit 4 (v :: u8)) < 16" "unat ((v :: u8) AND 15) < 16"
proof -
  show "unat (drop_bit 4 v) < 16" using u8_bound [of v] unat_drop_bit_eq [of 4 v] by (simp only: drop_bit_eq_div [of 4 "unat v"]) simp
  have "(15 :: u8) = mask 4" by (simp add: mask_eq_exp_minus_1)
  then have "unat (v AND 15) = unat v mod 16"
    by (simp only: take_bit_eq_mask [symmetric] unsigned_take_bit_eq) (simp add: take_bit_eq_mod)
  then show "unat (v AND 15) < 16" by simp
qed

lemma nibbles_join: "push_bit 4 (drop_bit 4 (v :: u8)) OR (v AND 15) = v"
proof (rule bit_word_eqI)
  fix n assume "n < LENGTH(8)"
  have "bit (15 :: u8) n \<longleftrightarrow> n < 4" if "n < 8"
  proof -
    have "(15 :: u8) = mask 4" by (simp add: mask_eq_exp_minus_1)
    then show ?thesis using that by (simp only: bit_mask_iff) simp
  qed
  then show "bit (push_bit 4 (drop_bit 4 v) OR (v AND 15)) n = bit v n"
    using \<open>n < LENGTH(8)\<close>
    by (auto simp: bit_or_iff bit_and_iff bit_push_bit_iff bit_drop_bit_eq)
qed

lemma uint_not_minus_one [simp]: "uint (w :: u8) \<noteq> - 1"
  using uint_nonnegative [of w] by linarith

lemma HexStr_simps [simp]:
  "HexStr [] = []" "HexStr (v # vs) = hexmap ! unat (drop_bit 4 v) # hexmap ! unat (v AND 15) # HexStr vs"
  by (simp_all add: HexStr_def)

lemma HexStr_append: "HexStr (vs @ ws) = HexStr vs @ HexStr ws"
  by (simp add: HexStr_def)

lemma ParseHex_HexStr: "ParseHex (HexStr vch) = vch"
  by (induction vch) (simp_all add: ParseHex.simps [of "_ # _"] ParseHex.simps [of "[]"] nibbles_join)

lemma HexStr_digits: "list_all (\<lambda>c. HexDigit c \<noteq> - 1) (HexStr vch)"
  by (induction vch) simp_all

lemma SetHex_fill_HexStr: "SetHex_fill (length vch) (rev (HexStr (rev vch))) = vch"
  by (induction vch) (simp_all add: HexStr_append or.commute [of _ "push_bit _ _"] nibbles_join)

lemma skip_0x_HexStr: "skip_0x (dropWhile isspace (HexStr vch)) = HexStr vch"
  by (cases vch) (simp_all add: skip_0x_def)

lemma SetHex_GetHex: "SetHex (length data) (GetHex data) = data"
proof -
  have "takeWhile (\<lambda>c. HexDigit c \<noteq> - 1) (HexStr (rev data)) = HexStr (rev data)"
    using HexStr_digits [of "rev data"] by (simp only: takeWhile_eq_all_conv list_all_iff)
  then show ?thesis unfolding SetHex_def GetHex_def Let_def skip_0x_HexStr by (simp only: SetHex_fill_HexStr)
qed

lemma uint256S_length [simp]: "length (uint256S str) = 32"
proof -
  have "length (SetHex_fill n ds) = n" for n ds by (induction n ds rule: SetHex_fill.induct) simp_all
  then show ?thesis by (simp add: uint256S_def SetHex_def Let_def)
qed

end
