(* ===== verification/Params.thy ===== *)
theory Params
  imports Hex
begin

text \<open>
  The consensus parameters: the structures of \<^verbatim>\<open>consensus/params.h\<close>, the limits of
  \<^verbatim>\<open>foodchain/consensus.h\<close> and \<^verbatim>\<open>foodchain/foodchain.h\<close>, and the values the three
  networks of \<^verbatim>\<open>foodchain/params.cpp\<close> set.
\<close>

section \<open>Limits\<close>

definition MAX_BLOCK_SERIALIZED_SIZE :: nat where "MAX_BLOCK_SERIALIZED_SIZE = 4000000"
definition MAX_BLOCK_WEIGHT :: nat where "MAX_BLOCK_WEIGHT = 4000000"
definition MAX_BLOCK_SIGOPS_COST :: int where "MAX_BLOCK_SIGOPS_COST = 80000"
definition COINBASE_MATURITY :: int where "COINBASE_MATURITY = 100"
definition WITNESS_SCALE_FACTOR :: nat where "WITNESS_SCALE_FACTOR = 4"
definition MIN_TRANSACTION_WEIGHT :: nat where "MIN_TRANSACTION_WEIGHT = WITNESS_SCALE_FACTOR * 60"
definition LOCKTIME_VERIFY_SEQUENCE :: u32 where "LOCKTIME_VERIFY_SEQUENCE = 1"
definition LOCKTIME_MEDIAN_TIME_PAST :: u32 where "LOCKTIME_MEDIAN_TIME_PAST = 2"

definition COIN :: CAmount where "COIN = 100000000"
definition MAX_MONEY :: CAmount where "MAX_MONEY = 21000000 * COIN"

definition MoneyRange :: "CAmount \<Rightarrow> bool" where
  "MoneyRange nValue \<longleftrightarrow> nValue \<ge> 0 \<and> nValue \<le> MAX_MONEY"

section \<open>Parameters\<close>

datatype DeploymentPos = DEPLOYMENT_TESTDUMMY | DEPLOYMENT_CSV | DEPLOYMENT_SEGWIT

record BIP9Deployment =
  dep_bit :: nat
  nStartTime :: int
  nTimeout :: int

definition NO_TIMEOUT :: int where "NO_TIMEOUT = 2 ^ 63 - 1"
definition ALWAYS_ACTIVE :: int where "ALWAYS_ACTIVE = - 1"

record Params =
  nSubsidyHalvingInterval :: int
  BIP16Height :: int
  BIP34Height :: int
  BIP34Hash :: uint256
  BIP65Height :: int
  BIP66Height :: int
  nRuleChangeActivationThreshold :: int
  nMinerConfirmationWindow :: int
  vDeployments :: "DeploymentPos \<Rightarrow> BIP9Deployment"
  powLimit :: uint256
  fPowAllowMinDifficultyBlocks :: bool
  fPowNoRetargeting :: bool
  nPowTargetSpacing :: int
  nPowTargetTimespan :: int
  nMinimumChainWork :: uint256
  defaultAssumeValid :: uint256

text \<open>Both operands are positive, where the C++ division is \<open>div\<close>.\<close>

definition DifficultyAdjustmentInterval :: "Params \<Rightarrow> int" where
  "DifficultyAdjustmentInterval params = nPowTargetTimespan params div nPowTargetSpacing params"

definition main_deployments :: "DeploymentPos \<Rightarrow> BIP9Deployment" where
  "main_deployments d =
     (case d of
        DEPLOYMENT_TESTDUMMY \<Rightarrow> \<lparr>dep_bit = 28, nStartTime = 1199145601, nTimeout = 1230767999\<rparr>
      | DEPLOYMENT_CSV \<Rightarrow> \<lparr>dep_bit = 0, nStartTime = 1462060800, nTimeout = 1493596800\<rparr>
      | DEPLOYMENT_SEGWIT \<Rightarrow> \<lparr>dep_bit = 1, nStartTime = 1479168000, nTimeout = 1510704000\<rparr>)"

definition main_params :: Params where
  "main_params = \<lparr>
     nSubsidyHalvingInterval = 210000,
     BIP16Height = 173805,
     BIP34Height = 227931,
     BIP34Hash = uint256S ''0x000000000000024b89b42a942fe0d9fea3bb44ab7bd1b19115dd6a759c0808b8'',
     BIP65Height = 388381,
     BIP66Height = 363725,
     nRuleChangeActivationThreshold = 1916,
     nMinerConfirmationWindow = 2016,
     vDeployments = main_deployments,
     powLimit = uint256S ''00000000ffffffffffffffffffffffffffffffffffffffffffffffffffffffff'',
     fPowAllowMinDifficultyBlocks = False,
     fPowNoRetargeting = False,
     nPowTargetSpacing = 10 * 60,
     nPowTargetTimespan = 14 * 24 * 60 * 60,
     nMinimumChainWork = uint256S ''0x000000000000000000000000000000000000000000723d3581fe1bd55373540a'',
     defaultAssumeValid = uint256S ''0x0000000000000000003b9ce759c2a087d52abc4266f8f4ebd6d768b89defa50a''\<rparr>"

definition testnet_deployments :: "DeploymentPos \<Rightarrow> BIP9Deployment" where
  "testnet_deployments d =
     (case d of
        DEPLOYMENT_TESTDUMMY \<Rightarrow> \<lparr>dep_bit = 28, nStartTime = 1199145601, nTimeout = 1230767999\<rparr>
      | DEPLOYMENT_CSV \<Rightarrow> \<lparr>dep_bit = 0, nStartTime = 1456790400, nTimeout = 1493596800\<rparr>
      | DEPLOYMENT_SEGWIT \<Rightarrow> \<lparr>dep_bit = 1, nStartTime = 1462060800, nTimeout = 1493596800\<rparr>)"

definition testnet_params :: Params where
  "testnet_params = \<lparr>
     nSubsidyHalvingInterval = 210000,
     BIP16Height = 514,
     BIP34Height = 21111,
     BIP34Hash = uint256S ''0x0000000023b3a96d3484e5abb3755c413e7d41500f8e2a5c3f0dd01299cd8ef8'',
     BIP65Height = 581885,
     BIP66Height = 330776,
     nRuleChangeActivationThreshold = 1512,
     nMinerConfirmationWindow = 2016,
     vDeployments = testnet_deployments,
     powLimit = uint256S ''00000000ffffffffffffffffffffffffffffffffffffffffffffffffffffffff'',
     fPowAllowMinDifficultyBlocks = True,
     fPowNoRetargeting = False,
     nPowTargetSpacing = 10 * 60,
     nPowTargetTimespan = 14 * 24 * 60 * 60,
     nMinimumChainWork = uint256S ''0x00000000000000000000000000000000000000000000002830dab7f76dbb7d63'',
     defaultAssumeValid = uint256S ''0x0000000002e9e7b00e1f6dc5123a04aad68dd0f0968d8c7aa45f6640795c37b1''\<rparr>"

definition regtest_deployments :: "DeploymentPos \<Rightarrow> BIP9Deployment" where
  "regtest_deployments d =
     (case d of
        DEPLOYMENT_TESTDUMMY \<Rightarrow> \<lparr>dep_bit = 28, nStartTime = 0, nTimeout = NO_TIMEOUT\<rparr>
      | DEPLOYMENT_CSV \<Rightarrow> \<lparr>dep_bit = 0, nStartTime = 0, nTimeout = NO_TIMEOUT\<rparr>
      | DEPLOYMENT_SEGWIT \<Rightarrow> \<lparr>dep_bit = 1, nStartTime = ALWAYS_ACTIVE, nTimeout = NO_TIMEOUT\<rparr>)"

definition regtest_params :: Params where
  "regtest_params = \<lparr>
     nSubsidyHalvingInterval = 150,
     BIP16Height = 0,
     BIP34Height = 100000000,
     BIP34Hash = uint256_null,
     BIP65Height = 1351,
     BIP66Height = 1251,
     nRuleChangeActivationThreshold = 108,
     nMinerConfirmationWindow = 144,
     vDeployments = regtest_deployments,
     powLimit = uint256S ''7fffffffffffffffffffffffffffffffffffffffffffffffffffffffffffffff'',
     fPowAllowMinDifficultyBlocks = True,
     fPowNoRetargeting = True,
     nPowTargetSpacing = 10 * 60,
     nPowTargetTimespan = 14 * 24 * 60 * 60,
     nMinimumChainWork = uint256S ''0x00'',
     defaultAssumeValid = uint256S ''0x00''\<rparr>"

definition UpdateVersionBitsParameters :: "Params \<Rightarrow> DeploymentPos \<Rightarrow> int \<Rightarrow> int \<Rightarrow> Params" where
  "UpdateVersionBitsParameters consensus d start timeout =
     consensus\<lparr>vDeployments := (vDeployments consensus)
       (d := (vDeployments consensus d)\<lparr>nStartTime := start, nTimeout := timeout\<rparr>)\<rparr>"

end
