(* ===== verification/Serialize.thy ===== *)
theory Serialize
  imports Bytes
begin

text \<open>
  The wire format of \<^verbatim>\<open>serialize.h\<close>, read from a memory stream as \<open>CDataStream::read\<close> of
  \<^verbatim>\<open>streams.h\<close> does. A writer is the list of bytes it appends; a reader takes the bytes that are
  left and returns the value and the rest, or the failure it throws. The contract of a format, that
  every valid value is read back and that nothing else is accepted, is the locale \<open>codec\<close>.
\<close>

section \<open>Streams\<close>

datatype ser_error = EndOfData | NonCanonical | SizeTooLarge | UnknownOptional

type_synonym 'a reader = "bytes \<Rightarrow> ser_error + 'a \<times> bytes"

definition read_bytes :: "nat \<Rightarrow> bytes reader" where
  "read_bytes nSize s = (if nSize > length s then Inl EndOfData else Inr (take nSize s, drop nSize s))"

text \<open>Reading one value and then, depending on it, the next.\<close>

definition rbind :: "'a reader \<Rightarrow> ('a \<Rightarrow> 'b reader) \<Rightarrow> 'b reader" where
  "rbind r f s = (case r s of Inl e \<Rightarrow> Inl e | Inr (x, s') \<Rightarrow> f x s')"

definition rreturn :: "'a \<Rightarrow> 'a reader" where
  "rreturn x s = Inr (x, s)"

definition rfail :: "ser_error \<Rightarrow> 'a reader" where
  "rfail e s = Inl e"

lemma rreturn_simps [simp]: "rreturn x s = Inr (x, s)" "rfail e s = Inl e"
  by (simp_all add: rreturn_def rfail_def)

lemma rbind_Inr [simp]: "r s = Inr (x, s') \<Longrightarrow> rbind r f s = f x s'"
  by (simp add: rbind_def)

lemma rbind_InrE:
  assumes "rbind r f s = Inr y"
  obtains x s' where "r s = Inr (x, s')" "f x s' = Inr y"
  using assms by (auto simp: rbind_def split: sum.splits)

section \<open>Integers\<close>

definition ser_writedata8 :: "u8 \<Rightarrow> bytes" where "ser_writedata8 obj = [obj]"
definition ser_writedata16 :: "u16 \<Rightarrow> bytes" where "ser_writedata16 obj = WriteLE16 obj"
definition ser_writedata32 :: "u32 \<Rightarrow> bytes" where "ser_writedata32 obj = WriteLE32 obj"
definition ser_writedata64 :: "u64 \<Rightarrow> bytes" where "ser_writedata64 obj = WriteLE64 obj"

definition ser_readdata8 :: "u8 reader" where
  "ser_readdata8 = rbind (read_bytes 1) (\<lambda>p. rreturn (p ! 0))"

definition ser_readdata16 :: "u16 reader" where
  "ser_readdata16 = rbind (read_bytes 2) (\<lambda>p. rreturn (ReadLE16 p))"

definition ser_readdata32 :: "u32 reader" where
  "ser_readdata32 = rbind (read_bytes 4) (\<lambda>p. rreturn (ReadLE32 p))"

definition ser_readdata64 :: "u64 reader" where
  "ser_readdata64 = rbind (read_bytes 8) (\<lambda>p. rreturn (ReadLE64 p))"

text \<open>\<open>int32_t\<close> and \<open>int64_t\<close> go through the unsigned type of the same width.\<close>

definition ser_int32 :: "int \<Rightarrow> bytes" where "ser_int32 a = ser_writedata32 (word_of_int a)"
definition ser_int64 :: "int \<Rightarrow> bytes" where "ser_int64 a = ser_writedata64 (word_of_int a)"
definition unser_int32 :: "int reader" where "unser_int32 = rbind ser_readdata32 (\<lambda>w. rreturn (sint w))"
definition unser_int64 :: "int reader" where "unser_int64 = rbind ser_readdata64 (\<lambda>w. rreturn (sint w))"

section \<open>Sizes\<close>

definition MAX_SIZE :: nat where "MAX_SIZE = 0x02000000"

definition GetSizeOfCompactSize :: "u64 \<Rightarrow> nat" where
  "GetSizeOfCompactSize nSize =
     (if nSize < 253 then 1 else if nSize \<le> 0xffff then 1 + 2 else if nSize \<le> 0xffffffff then 1 + 4 else 1 + 8)"

definition WriteCompactSize :: "u64 \<Rightarrow> bytes" where
  "WriteCompactSize nSize =
     (if nSize < 253 then ser_writedata8 (ucast nSize)
      else if nSize \<le> 0xffff then ser_writedata8 253 @ ser_writedata16 (ucast nSize)
      else if nSize \<le> 0xffffffff then ser_writedata8 254 @ ser_writedata32 (ucast nSize)
      else ser_writedata8 255 @ ser_writedata64 nSize)"

definition compact_limit :: "u64 \<Rightarrow> u64 reader" where
  "compact_limit nSizeRet = (if unat nSizeRet > MAX_SIZE then rfail SizeTooLarge else rreturn nSizeRet)"

definition ReadCompactSize :: "u64 reader" where
  "ReadCompactSize = rbind ser_readdata8 (\<lambda>chSize.
     if chSize < 253 then compact_limit (ucast chSize)
     else if chSize = 253 then rbind ser_readdata16 (\<lambda>n.
       if (ucast n :: u64) < 253 then rfail NonCanonical else compact_limit (ucast n))
     else if chSize = 254 then rbind ser_readdata32 (\<lambda>n.
       if (ucast n :: u64) < 0x10000 then rfail NonCanonical else compact_limit (ucast n))
     else rbind ser_readdata64 (\<lambda>n.
       if n < 0x100000000 then rfail NonCanonical else compact_limit n))"

text \<open>
  \<open>WriteVarInt\<close>: the array \<open>tmp\<close> is filled from the last digit and written from its end; the first
  argument tells whether the digit is the last of the output. \<open>ReadVarInt\<close> for the unsigned type
  with the given largest value.
\<close>

function WriteVarInt_digits :: "bool \<Rightarrow> nat \<Rightarrow> bytes" where
  "WriteVarInt_digits fin n =
     (of_nat (n mod 128) OR (if fin then 0 else 0x80)) #
     (if n \<le> 0x7F then [] else WriteVarInt_digits False (n div 128 - 1))"
  by auto
termination
  by (relation "measure snd") (auto simp: div_less_dividend le_less_trans [OF diff_le_self])

declare WriteVarInt_digits.simps [simp del]

definition WriteVarInt :: "nat \<Rightarrow> bytes" where
  "WriteVarInt n = rev (WriteVarInt_digits True n)"

function ReadVarInt_loop :: "nat \<Rightarrow> nat \<Rightarrow> nat reader" where
  "ReadVarInt_loop mx n s =
     (case s of
        [] \<Rightarrow> Inl EndOfData
      | chData # s' \<Rightarrow>
          if n > mx div 128 then Inl SizeTooLarge
          else let n = n * 128 + unat (chData AND 0x7F)
               in if chData AND 0x80 \<noteq> 0
                  then if n = mx then Inl SizeTooLarge else ReadVarInt_loop mx (n + 1) s'
                  else Inr (n, s'))"
  by auto
termination
  by (relation "measure (\<lambda>(mx, n, s). length s)") auto

declare ReadVarInt_loop.simps [simp del]

definition ReadVarInt :: "nat \<Rightarrow> nat reader" where
  "ReadVarInt mx = ReadVarInt_loop mx 0"

section \<open>Vectors\<close>

definition ser_bytes :: "bytes \<Rightarrow> bytes" where
  "ser_bytes v = WriteCompactSize (of_nat (length v)) @ v"

definition ser_vector :: "('a \<Rightarrow> bytes) \<Rightarrow> 'a list \<Rightarrow> bytes" where
  "ser_vector ser v = WriteCompactSize (of_nat (length v)) @ concat (map ser v)"

text \<open>
  The data of a byte vector is read in blocks of at most 5000000 bytes, so that a bogus size does
  not allocate memory; \<open>n\<close> bytes are still to be read.
\<close>

function read_blocks :: "nat \<Rightarrow> bytes reader" where
  "read_blocks n s =
     (if n = 0 then Inr ([], s)
      else let blk = min n (1 + 4999999)
           in rbind (read_bytes blk) (\<lambda>b. rbind (read_blocks (n - blk)) (\<lambda>bs. rreturn (b @ bs))) s)"
  by auto
termination
  by (relation "measure fst") auto

declare read_blocks.simps [simp del]

definition unser_bytes :: "bytes reader" where
  "unser_bytes = rbind ReadCompactSize (\<lambda>nSize. read_blocks (unat nSize))"

fun read_elems :: "'a reader \<Rightarrow> nat \<Rightarrow> 'a list reader" where
  "read_elems unser 0 = rreturn []"
| "read_elems unser (Suc n) = rbind unser (\<lambda>x. rbind (read_elems unser n) (\<lambda>xs. rreturn (x # xs)))"

definition unser_vector :: "'a reader \<Rightarrow> 'a list reader" where
  "unser_vector unser = rbind ReadCompactSize (\<lambda>nSize. read_elems unser (unat nSize))"

end
