(* ===== verification/Serialize_Codec.thy ===== *)
theory Serialize_Codec
  imports Serialize
begin

text \<open>
  The contract of a wire format as the locale \<open>codec\<close>, and that the integers, sizes, byte vectors,
  vectors and variable-length integers of \<^verbatim>\<open>serialize.h\<close> satisfy it.
\<close>

section \<open>The contract of a format\<close>

text \<open>Every valid value is read back; in a \<open>codec\<close> nothing else is accepted either.\<close>

locale readback =
  fixes ser :: "'a \<Rightarrow> bytes" and unser :: "'a reader" and valid :: "'a \<Rightarrow> bool"
  assumes round: "valid x \<Longrightarrow> unser (ser x @ s) = Inr (x, s)"
begin

lemma prefix_free: "valid x \<Longrightarrow> valid y \<Longrightarrow> ser x @ s = ser y @ s' \<Longrightarrow> x = y \<and> s = s'"
  by (metis round Inr_inject prod.inject)

lemma ser_inj: "valid x \<Longrightarrow> valid y \<Longrightarrow> ser x = ser y \<Longrightarrow> x = y"
  by (metis prefix_free)

lemma read_elems_round:
  "list_all valid v \<Longrightarrow> read_elems unser (length v) (concat (map ser v) @ s) = Inr (v, s)"
  by (induction v arbitrary: s) (simp_all add: round)

end

locale codec = readback +
  assumes canonical: "unser s = Inr (x, s') \<Longrightarrow> valid x \<and> s = ser x @ s'"
begin

lemma unser_iff: "unser s = Inr (x, s') \<longleftrightarrow> valid x \<and> s = ser x @ s'"
  using round canonical by blast

end

text \<open>Reading a fixed number of bytes, and a value through a bijection.\<close>

lemma codec_read_bytes: "codec id (read_bytes n) (\<lambda>b. length b = n)"
proof
  show "read_bytes n (id x @ s) = Inr (x, s)" if "length x = n" for x s using that by (simp add: read_bytes_def)
  show "length x = n \<and> s = id x @ s'" if "read_bytes n s = Inr (x, s')" for x s s'
  proof -
    have "\<not> n > length s" "x = take n s" "s' = drop n s" using that by (simp_all add: read_bytes_def split: if_split_asm)
    then show ?thesis by simp
  qed
qed

lemma codec_map:
  assumes "codec ser unser valid" and "\<And>y. valid' y \<Longrightarrow> valid (f y) \<and> g (f y) = y"
    and "\<And>x. valid x \<Longrightarrow> valid' (g x) \<and> f (g x) = x" and "\<And>y. ser' y = ser (f y)"
  shows "codec ser' (rbind unser (\<lambda>x. rreturn (g x))) valid'"
proof -
  have c: "unser s = Inr (x, s') \<longleftrightarrow> valid x \<and> s = ser x @ s'" for x s s'
    using assms(1) by (rule codec.unser_iff)
  show ?thesis
  proof unfold_locales
    fix y s assume "valid' y"
    then have "unser (ser (f y) @ s) = Inr (f y, s)" using assms(2) [of y] by (simp add: c)
    then show "rbind unser (\<lambda>x. rreturn (g x)) (ser' y @ s) = Inr (y, s)"
      using assms(2) [OF \<open>valid' y\<close>] by (simp add: assms(4))
  next
    fix s y s' assume "rbind unser (\<lambda>x. rreturn (g x)) s = Inr (y, s')"
    then obtain x where "unser s = Inr (x, s')" "y = g x" by (auto elim!: rbind_InrE)
    then show "valid' y \<and> s = ser' y @ s'" using assms(3) [of x] by (simp add: c assms(4))
  qed
qed

lemma sint_word_of_int_range:
  fixes k :: int
  assumes "- (2 ^ (LENGTH('a :: len) - 1)) \<le> k" and "k < 2 ^ (LENGTH('a) - 1)"
  shows "sint (word_of_int k :: 'a word) = k"
  using signed_take_bit_int_eq_self [OF assms] by (simp only: signed_of_int One_nat_def of_int_eq_id id_apply)

lemma sint_word_of_int32: "int32_range a \<Longrightarrow> sint (word_of_int a :: u32) = a"
  by (rule sint_word_of_int_range) (simp_all add: int32_range_def)

lemma sint_word_of_int64: "int64_range a \<Longrightarrow> sint (word_of_int a :: u64) = a"
  by (rule sint_word_of_int_range) (simp_all add: int64_range_def)

lemma sint_range32: "int32_range (sint (v :: u32))"
  using sint_greater_eq [of v] sint_less [of v] by (simp add: int32_range_def)

lemma sint_range64: "int64_range (sint (v :: u64))"
  using sint_greater_eq [of v] sint_less [of v] by (simp add: int64_range_def)

lemmas int_word_range = sint_word_of_int32 sint_word_of_int64 sint_range32 sint_range64

lemma write_read16: "length p = 2 \<Longrightarrow> WriteLE16 (ReadLE16 p) = p"
  using le_bytes_nat [of p] le_nat_bound [of p] by (simp add: read_write_defs unat_of_nat)

interpretation u8: codec ser_writedata8 ser_readdata8 "\<lambda>_. True"
  unfolding ser_readdata8_def
  by (rule codec_map [OF codec_read_bytes, where f = ser_writedata8])
    (auto simp: ser_writedata8_def length_Suc_conv)

interpretation u16: codec ser_writedata16 ser_readdata16 "\<lambda>_. True"
  unfolding ser_readdata16_def
  by (rule codec_map [OF codec_read_bytes, where f = ser_writedata16])
    (use read_write(1) [of _ "[]"] in \<open>auto simp: ser_writedata16_def write_read16\<close>)

interpretation u32: codec ser_writedata32 ser_readdata32 "\<lambda>_. True"
  unfolding ser_readdata32_def
  by (rule codec_map [OF codec_read_bytes, where f = ser_writedata32])
    (use read_write(2) [of _ "[]"] in \<open>auto simp: ser_writedata32_def write_read\<close>)

interpretation u64: codec ser_writedata64 ser_readdata64 "\<lambda>_. True"
  unfolding ser_readdata64_def
  by (rule codec_map [OF codec_read_bytes, where f = ser_writedata64])
    (use read_write(3) [of _ "[]"] in \<open>auto simp: ser_writedata64_def write_read\<close>)

interpretation i32: codec ser_int32 unser_int32 int32_range
  unfolding unser_int32_def
  by (rule codec_map [OF u32.codec_axioms, where f = word_of_int]) (auto simp: ser_int32_def int_word_range)

interpretation i64: codec ser_int64 unser_int64 int64_range
  unfolding unser_int64_def
  by (rule codec_map [OF u64.codec_axioms, where f = word_of_int]) (auto simp: ser_int64_def int_word_range)

section \<open>Sizes and vectors\<close>

lemma u64_less_iff: "(x :: u64) < y \<longleftrightarrow> unat x < unat y" "(x :: u64) \<le> y \<longleftrightarrow> unat x \<le> unat y"
  by (simp_all add: word_less_nat_alt word_le_nat_alt)

lemma unat_ucast_small:
  "unat (ucast (n :: u64) :: u8) = unat n mod 2 ^ 8" "unat (ucast n :: u16) = unat n mod 2 ^ 16"
  "unat (ucast n :: u32) = unat n mod 2 ^ 32"
  by (simp_all only: unsigned_ucast_eq take_bit_eq_mod) simp_all

lemma unat_ucast_up:
  "unat (ucast (a :: u8) :: u64) = unat a" "unat (ucast (b :: u16) :: u64) = unat b"
proof -
  have "unat a < 2 ^ 64" "unat b < 2 ^ 64" using u8_bound [of a] u16_bound [of b] by simp_all
  then show "unat (ucast a :: u64) = unat a" "unat (ucast b :: u64) = unat b"
    by (simp_all add: unsigned_ucast_eq take_bit_nat_eq_self_iff)
qed

lemma ucast_down_up:
  "unat (n :: u64) < 2 ^ 8 \<Longrightarrow> (ucast (ucast n :: u8) :: u64) = n"
  "unat n < 2 ^ 16 \<Longrightarrow> (ucast (ucast n :: u16) :: u64) = n"
  "unat n < 2 ^ 32 \<Longrightarrow> (ucast (ucast n :: u32) :: u64) = n"
  by (simp_all only: word_unat_eq_iff unat_ucast_up unat_ucast_u32_u64 unat_ucast_small mod_less)

lemma ucast_up_down:
  "(ucast (ucast (a :: u8) :: u64) :: u8) = a" "(ucast (ucast (b :: u16) :: u64) :: u16) = b"
  "(ucast (ucast (c :: u32) :: u64) :: u32) = c"
  using u8_bound [of a] u16_bound [of b] u32_bound [of c]
  by (simp_all add: word_unat_eq_iff unat_ucast_small unat_ucast_up)

definition compact_ok :: "u64 \<Rightarrow> bool" where
  "compact_ok n \<longleftrightarrow> unat n \<le> MAX_SIZE"

lemma compact_limit_iff: "compact_limit n s = Inr (m, s') \<longleftrightarrow> m = n \<and> s' = s \<and> compact_ok n"
  by (auto simp: compact_limit_def compact_ok_def)

interpretation compact: codec WriteCompactSize ReadCompactSize compact_ok
proof
  fix n s assume ok: "compact_ok n"
  consider (a)  "unat n < 253" | (b) "253 \<le> unat n" "unat n < 2 ^ 16" | (c) "2 ^ 16 \<le> unat n" "unat n < 2 ^ 32"
  proof -
    have "unat n < 2 ^ 32" using ok by (simp add: compact_ok_def MAX_SIZE_def)
    then show thesis using a b c by (meson not_less)
  qed
  then show "ReadCompactSize (WriteCompactSize n @ s) = Inr (n, s)"
  proof cases
    case a
    then have "(ucast n :: u8) < 253" by (simp add: word_less_nat_alt unat_ucast_small)
    then show ?thesis using a ok
      by (simp add: ReadCompactSize_def WriteCompactSize_def u64_less_iff u8.round compact_limit_iff ucast_down_up)
  next
    case b
    then show ?thesis using ok
      by (simp add: ReadCompactSize_def WriteCompactSize_def u64_less_iff u8.round u16.round compact_limit_iff ucast_down_up)
  next
    case c
    then show ?thesis using ok
      by (simp add: ReadCompactSize_def WriteCompactSize_def u64_less_iff u8.round u32.round compact_limit_iff ucast_down_up
        unat_ucast_small)
  qed
next
  fix s n s' assume "ReadCompactSize s = Inr (n, s')"
  then obtain c s1 where c: "s = ser_writedata8 c @ s1" "(if c < 253 then compact_limit (ucast c)
     else if c = 253 then rbind ser_readdata16 (\<lambda>n.
       if (ucast n :: u64) < 253 then rfail NonCanonical else compact_limit (ucast n))
     else if c = 254 then rbind ser_readdata32 (\<lambda>n.
       if (ucast n :: u64) < 0x10000 then rfail NonCanonical else compact_limit (ucast n))
     else rbind ser_readdata64 (\<lambda>n.
       if n < 0x100000000 then rfail NonCanonical else compact_limit n)) s1 = Inr (n, s')"
    unfolding ReadCompactSize_def by (auto simp only: u8.unser_iff elim!: rbind_InrE)
  consider (a) "c < 253" | (b) "c = 253" | (c) "c = 254" | (d) "\<not> c < 253" "c \<noteq> 253" "c \<noteq> 254" by blast
  then show "compact_ok n \<and> s = WriteCompactSize n @ s'"
  proof cases
    case a
    then have "unat c < 253" by (simp add: word_less_nat_alt)
    then show ?thesis using a c
      by (simp add: compact_limit_iff WriteCompactSize_def u64_less_iff unat_ucast_up ucast_up_down)
  next
    case b
    then obtain m where m: "s1 = ser_writedata16 m @ s'" "n = ucast m" "253 \<le> unat m" "compact_ok n"
      using c(2) by (auto simp: compact_limit_iff u16.unser_iff u64_less_iff unat_ucast_up elim!: rbind_InrE split: if_splits)
    have "unat m \<le> 65535" using u16_bound [of m] by simp
    then show ?thesis using b c(1) m by (simp add: WriteCompactSize_def u64_less_iff unat_ucast_up ucast_up_down)
  next
    case c': c
    then obtain m where m: "s1 = ser_writedata32 m @ s'" "n = ucast m" "65536 \<le> unat m" "compact_ok n"
      using c(2) by (auto simp: compact_limit_iff u32.unser_iff u64_less_iff elim!: rbind_InrE split: if_splits)
    have "unat m \<le> 4294967295" using u32_bound [of m] by simp
    then show ?thesis using c' c(1) m by (simp add: WriteCompactSize_def u64_less_iff ucast_up_down)
  next
    case d
    then show ?thesis
      using c(2) by (auto simp: compact_limit_iff u64.unser_iff u64_less_iff compact_ok_def MAX_SIZE_def elim!: rbind_InrE split: if_splits)
  qed
qed

lemma compact_ok_length: "length v \<le> MAX_SIZE \<Longrightarrow> compact_ok (of_nat (length v)) \<and> unat (of_nat (length v) :: u64) = length v"
  by (simp add: compact_ok_def MAX_SIZE_def unat_of_nat)

lemma GetSizeOfCompactSize_length: "length (WriteCompactSize n) = GetSizeOfCompactSize n"
  by (simp add: WriteCompactSize_def GetSizeOfCompactSize_def ser_writedata8_def ser_writedata16_def ser_writedata32_def
      ser_writedata64_def)

lemma read_blocks_read_bytes: "read_blocks n s = read_bytes n s"
proof (induction n s rule: read_blocks.induct)
  case (1 n s)
  show ?case
  proof (cases "n = 0")
    case False
    define blk where "blk = min n (1 + 4999999)"
    have blk: "blk \<le> n" "0 < blk" using False by (simp_all add: blk_def)
    have IH: "read_blocks (n - blk) s' = read_bytes (n - blk) s'" for s' using 1 [OF False blk_def] by simp
    have "read_blocks n s = rbind (read_bytes blk) (\<lambda>b. rbind (read_blocks (n - blk)) (\<lambda>bs. rreturn (b @ bs))) s"
      using False by (subst read_blocks.simps) (simp only: Let_def if_False blk_def)
    also have "\<dots> = read_bytes n s"
      using blk by (auto simp: rbind_def IH read_bytes_def take_add [symmetric])
    finally show ?thesis .
  qed (simp add: read_blocks.simps read_bytes_def)
qed

definition vec_ok :: "('a \<Rightarrow> bool) \<Rightarrow> 'a list \<Rightarrow> bool" where
  "vec_ok valid v \<longleftrightarrow> list_all valid v \<and> length v \<le> MAX_SIZE"

interpretation blob: codec ser_bytes unser_bytes "vec_ok (\<lambda>_. True)"
proof
  fix v :: bytes and s assume "vec_ok (\<lambda>_. True) v"
  then have v: "compact_ok (of_nat (length v))" "unat (of_nat (length v) :: u64) = length v"
    using compact_ok_length [of v] by (auto simp: vec_ok_def)
  show "unser_bytes (ser_bytes v @ s) = Inr (v, s)"
    unfolding unser_bytes_def ser_bytes_def append_assoc
    by (subst rbind_Inr [of ReadCompactSize, OF compact.round [OF v(1)]]) (simp add: v(2) read_blocks_read_bytes read_bytes_def)
next
  fix s v s' assume "unser_bytes s = Inr (v, s')"
  then obtain n where n: "compact_ok n" "s = WriteCompactSize n @ v @ s'" "length v = unat n"
    by (auto simp: unser_bytes_def compact.unser_iff read_blocks_read_bytes read_bytes_def split: if_splits elim!: rbind_InrE)
  have "of_nat (length v) = n" unfolding n(3) by simp
  then show "vec_ok (\<lambda>_. True) v \<and> s = ser_bytes v @ s'"
    using n by (simp add: vec_ok_def ser_bytes_def compact_ok_def list_all_iff)
qed

lemma read_elems_iff:
  assumes "codec ser unser valid"
  shows "read_elems unser n s = Inr (v, s') \<longleftrightarrow> length v = n \<and> list_all valid v \<and> s = concat (map ser v) @ s'"
proof (induction n arbitrary: s v)
  case (Suc n)
  show ?case
  proof
    assume "read_elems unser (Suc n) s = Inr (v, s')"
    then show "length v = Suc n \<and> list_all valid v \<and> s = concat (map ser v) @ s'"
      by (auto simp: codec.unser_iff [OF assms] Suc.IH elim!: rbind_InrE)
  next
    assume v: "length v = Suc n \<and> list_all valid v \<and> s = concat (map ser v) @ s'"
    then obtain x xs where "v = x # xs" by (cases v) auto
    then have "unser s = Inr (x, concat (map ser xs) @ s')" "read_elems unser n (concat (map ser xs) @ s') = Inr (xs, s')"
      using v by (simp_all add: codec.unser_iff [OF assms] Suc.IH)
    then show "read_elems unser (Suc n) s = Inr (v, s')" by (simp add: \<open>v = x # xs\<close>)
  qed
qed auto

lemma readback_vector:
  assumes "readback ser unser valid"
  shows "readback (ser_vector ser) (unser_vector unser) (vec_ok valid)"
proof
  fix v s assume "vec_ok valid v"
  then have v: "compact_ok (of_nat (length v))" "unat (of_nat (length v) :: u64) = length v" "list_all valid v"
    using compact_ok_length [of v] by (auto simp: vec_ok_def)
  show "unser_vector unser (ser_vector ser v @ s) = Inr (v, s)"
    unfolding unser_vector_def ser_vector_def append_assoc
    by (subst rbind_Inr [of ReadCompactSize, OF compact.round [OF v(1)]])
      (simp add: v readback.read_elems_round [OF assms])
qed

lemma codec_vector:
  assumes "codec ser unser valid"
  shows "codec (ser_vector ser) (unser_vector unser) (vec_ok valid)"
proof (intro codec.intro readback_vector codec_axioms.intro)
  show "readback ser unser valid" using assms by (simp add: codec_def)
next
  fix s v s' assume "unser_vector unser s = Inr (v, s')"
  then obtain n where n: "compact_ok n" "s = WriteCompactSize n @ concat (map ser v) @ s'" "length v = unat n" "list_all valid v"
    by (auto simp: unser_vector_def compact.unser_iff read_elems_iff [OF assms] elim!: rbind_InrE)
  have "of_nat (length v) = n" unfolding n(3) by simp
  then show "vec_ok valid v \<and> s = ser_vector ser v @ s'"
    using n by (simp add: vec_ok_def ser_vector_def compact_ok_def)
qed

section \<open>Variable-length integers\<close>

lemma bit_80: "bit (0x80 :: u8) n \<longleftrightarrow> n = 7" and bit_7F: "bit (0x7F :: u8) n \<longleftrightarrow> n < 7"
proof -
  have 1: "(0x80 :: u8) = push_bit 7 1" and 2: "(0x7F :: u8) = mask 7" by (simp_all add: mask_eq_exp_minus_1)
  show "bit (0x80 :: u8) n \<longleftrightarrow> n = 7" unfolding 1 bit_push_bit_iff by (auto simp: bit_1_iff)
  show "bit (0x7F :: u8) n \<longleftrightarrow> n < 7" unfolding 2 by (simp only: bit_mask_iff) auto
qed

lemma bit_80_int: "bit (0x80 :: int) n \<longleftrightarrow> n = 7" and bit_7F_int: "bit (0x7F :: int) n \<longleftrightarrow> n < 7"
proof -
  have 1: "(0x80 :: int) = push_bit 7 1" and 2: "(0x7F :: int) = mask 7" by (simp_all add: mask_eq_exp_minus_1)
  show "bit (0x80 :: int) n \<longleftrightarrow> n = 7" unfolding 1 bit_push_bit_iff by (auto simp: bit_1_iff)
  show "bit (0x7F :: int) n \<longleftrightarrow> n < 7" unfolding 2 by (simp only: bit_mask_iff) auto
qed

lemma less_8_cases: "n < 8 \<Longrightarrow> n < 7 \<or> n = (7 :: nat)" by linarith

lemmas vbits = bit_or_iff bit_and_iff bit_80 bit_7F bit_80_int bit_7F_int

text \<open>The byte of a digit, and the digit and the mark of a byte.\<close>

definition vbyte :: "bool \<Rightarrow> nat \<Rightarrow> u8" where
  "vbyte fin d = of_nat d OR (if fin then 0 else 0x80)"

lemma vbyte_of: "vbyte (ch AND 0x80 = 0) (unat (ch AND 0x7F)) = ch"
proof (rule bit_word_eqI)
  fix n assume "n < LENGTH(8)"
  then have n: "n < 8" by simp
  have top: "ch AND 0x80 = 0 \<longleftrightarrow> \<not> bit ch 7"
  proof
    assume "ch AND 0x80 = 0"
    then have "\<not> bit (ch AND 0x80) 7" by simp
    then show "\<not> bit ch 7" by (simp add: vbits)
  next
    assume "\<not> bit ch 7"
    then show "ch AND 0x80 = 0" by (intro bit_word_eqI) (auto simp: vbits)
  qed
  have "vbyte (ch AND 0x80 = 0) (unat (ch AND 0x7F)) = (ch AND 0x7F) OR (if bit ch 7 then 0x80 else 0)"
    by (simp add: vbyte_def top)
  then show "bit (vbyte (ch AND 0x80 = 0) (unat (ch AND 0x7F))) n = bit ch n"
    using less_8_cases [OF n] by (auto simp: vbits)
qed

lemma vbyte_digit:
  assumes "d < 128"
  shows "unat (vbyte fin d AND 0x7F) = d" "vbyte fin d AND 0x80 = 0 \<longleftrightarrow> fin"
proof -
  have u: "unat (of_nat d :: u8) = d" using assms by (simp add: unat_of_nat)
  have b: "bit (of_nat d :: u8) n \<longleftrightarrow> bit d n" if "n < 8" for n using that by (simp add: bit_of_nat_iff)
  have "d < 2 ^ 7" using assms by simp
  then have "take_bit 7 d = d" by (simp only: take_bit_nat_eq_self_iff)
  then have hi: "\<not> bit d n" if "7 \<le> n" for n using that by (metis bit_take_bit_iff leD)
  have "vbyte fin d AND 0x7F = of_nat d"
    by (rule bit_word_eqI) (use hi b in \<open>auto simp: vbyte_def vbits dest: less_8_cases\<close>)
  then show "unat (vbyte fin d AND 0x7F) = d" using u by simp
  have "bit (vbyte fin d AND 0x80) 7 \<longleftrightarrow> \<not> fin" using hi [of 7] b [of 7] by (simp add: vbyte_def vbits)
  moreover have "vbyte True d AND 0x80 = 0"
    by (rule bit_word_eqI) (use hi b in \<open>auto simp: vbyte_def vbits\<close>)
  ultimately show "vbyte fin d AND 0x80 = 0 \<longleftrightarrow> fin" by (cases fin) auto
qed

text \<open>The digits before the last one of a number whose higher part is \<open>a\<close>.\<close>

definition vpre :: "nat \<Rightarrow> bytes" where
  "vpre a = (if a = 0 then [] else rev (WriteVarInt_digits False (a - 1)))"

lemma digits_rev: "rev (WriteVarInt_digits fin n) = vpre (n div 128) @ [vbyte fin (n mod 128)]"
proof -
  have "n \<le> 0x7F \<longleftrightarrow> n div 128 = 0" by auto
  then show ?thesis by (subst WriteVarInt_digits.simps) (simp add: vpre_def vbyte_def)
qed

lemma read_step:
  assumes "d < 128" and "a \<le> mx div 128"
  shows "ReadVarInt_loop mx a (vbyte fin d # s) =
    (if fin then Inr (a * 128 + d, s)
     else if a * 128 + d = mx then Inl SizeTooLarge else ReadVarInt_loop mx (a * 128 + d + 1) s)"
  using assms by (subst ReadVarInt_loop.simps) (simp add: vbyte_digit Let_def)

lemma read_vpre: "a \<le> mx \<Longrightarrow> ReadVarInt_loop mx 0 (vpre a @ s) = ReadVarInt_loop mx a s"
proof (induction a arbitrary: s rule: less_induct)
  case (less a)
  show ?case
  proof (cases "a = 0")
    case False
    let ?k = "a - 1"
    have k: "?k div 128 < a" "?k div 128 \<le> mx" "?k < mx" using False less.prems by auto
    have hi: "?k div 128 \<le> mx div 128" using k(3) by (intro div_le_mono) simp
    have dm: "?k div 128 * 128 + ?k mod 128 = ?k" by simp
    have "vpre a = vpre (?k div 128) @ [vbyte False (?k mod 128)]" using False by (simp add: vpre_def digits_rev)
    then have "ReadVarInt_loop mx 0 (vpre a @ s) = ReadVarInt_loop mx (?k div 128) (vbyte False (?k mod 128) # s)"
      using less.IH [OF k(1,2)] by simp
    also have "\<dots> = ReadVarInt_loop mx a s"
      using read_step [OF _ hi, of "?k mod 128" False s] k(3) False by (simp only: dm) simp
    finally show ?thesis .
  qed (simp add: vpre_def)
qed

lemma read_canonical:
  "mx mod 128 = 127 \<Longrightarrow> ReadVarInt_loop mx a s = Inr (n, s') \<Longrightarrow> n \<le> mx \<and> vpre a @ s = WriteVarInt n @ s'"
proof (induction mx a s rule: ReadVarInt_loop.induct)
  case (1 mx a s)
  obtain ch r where s: "s = ch # r" using "1.prems"(2) by (subst (asm) ReadVarInt_loop.simps) (auto split: list.splits)
  let ?d = "unat (ch AND 0x7F)" and ?f = "ch AND 0x80 = 0"
  have d: "?d < 128" using word_and_le1 [of ch "0x7F"] by (simp add: word_le_nat_alt)
  have a: "a \<le> mx div 128" using "1.prems"(2) by (subst (asm) ReadVarInt_loop.simps) (auto simp: s split: if_splits)
  have "a * 128 + 127 \<le> mx div 128 * 128 + mx mod 128" using a "1.prems"(1) by simp
  then have bound: "a * 128 + ?d \<le> mx" using d by (simp only: div_mult_mod_eq)
  have dm: "(a * 128 + ?d) div 128 = a" "(a * 128 + ?d) mod 128 = ?d" using d by simp_all
  have step: "ReadVarInt_loop mx a s = (if ?f then Inr (a * 128 + ?d, r)
     else if a * 128 + ?d = mx then Inl SizeTooLarge else ReadVarInt_loop mx (a * 128 + ?d + 1) r)"
    using read_step [OF d a, of ?f r] unfolding vbyte_of s .
  show ?case
  proof (cases ?f)
    case True
    then have n: "n = a * 128 + ?d" "s' = r" using step "1.prems"(2) by simp_all
    have "WriteVarInt n = vpre a @ [ch]"
      unfolding WriteVarInt_def digits_rev n(1) dm using vbyte_of [of ch] True by simp
    then show ?thesis using n s bound by simp
  next
    case False
    then have neq: "a * 128 + ?d \<noteq> mx" and rec: "ReadVarInt_loop mx (a * 128 + ?d + 1) r = Inr (n, s')"
      using step "1.prems"(2) by (auto split: if_splits)
    have "vpre (a * 128 + ?d + 1) = vpre a @ [ch]"
    proof -
      have "vpre (a * 128 + ?d + 1) = rev (WriteVarInt_digits False (a * 128 + ?d))" by (simp add: vpre_def)
      then show ?thesis unfolding digits_rev dm using vbyte_of [of ch] False by simp
    qed
    then show ?thesis using "1.IH" [OF s _ refl False neq "1.prems"(1) rec] a s by simp
  qed
qed

lemma codec_varint: "mx mod 128 = 127 \<Longrightarrow> codec WriteVarInt (ReadVarInt mx) (\<lambda>n. n \<le> mx)"
proof -
  assume "mx mod 128 = 127"
  show ?thesis
  proof
    fix n s assume "n \<le> mx"
    then have hi: "n div 128 \<le> mx div 128" "n div 128 \<le> mx" by (auto intro: div_le_mono le_trans [OF div_le_dividend])
    have "ReadVarInt mx (WriteVarInt n @ s) = ReadVarInt_loop mx (n div 128) (vbyte True (n mod 128) # s)"
      using read_vpre [OF hi(2), of "vbyte True (n mod 128) # s"] by (simp add: ReadVarInt_def WriteVarInt_def digits_rev)
    then show "ReadVarInt mx (WriteVarInt n @ s) = Inr (n, s)"
      using read_step [OF _ hi(1), of "n mod 128" True s] by simp
  next
    fix s n s' assume "ReadVarInt mx s = Inr (n, s')"
    then show "n \<le> mx \<and> s = WriteVarInt n @ s'"
      using read_canonical [of mx 0 s n s'] \<open>mx mod 128 = 127\<close> by (simp add: ReadVarInt_def vpre_def)
  qed
qed

interpretation varint32: codec WriteVarInt "ReadVarInt (2 ^ 32 - 1)" "\<lambda>n. n \<le> 2 ^ 32 - 1"
  by (rule codec_varint) simp

interpretation varint64: codec WriteVarInt "ReadVarInt (2 ^ 64 - 1)" "\<lambda>n. n \<le> 2 ^ 64 - 1"
  by (rule codec_varint) simp

section \<open>Properties\<close>

text \<open>
  \<open>ReadCompactSize\<close> accepts exactly the output of \<open>WriteCompactSize\<close>, for the sizes up to
  \<open>MAX_SIZE\<close>: a size has one encoding, every encoding is read back, and a longer form than needed, a
  size above the limit and a truncated size are refused.
\<close>
theorem ReadCompactSize_iff:
  "ReadCompactSize s = Inr (n, s') \<longleftrightarrow> unat n \<le> MAX_SIZE \<and> s = WriteCompactSize n @ s'"
  by (simp add: compact.unser_iff compact_ok_def)

text \<open>
  \<open>ReadVarInt\<close> of a 64-bit integer accepts exactly the output of \<open>WriteVarInt\<close>: every integer has
  exactly one encoding, as the comment in \<^verbatim>\<open>serialize.h\<close> says, and no overflow is accepted.
\<close>
theorem ReadVarInt_iff:
  "ReadVarInt (2 ^ 64 - 1) s = Inr (n, s') \<longleftrightarrow> n \<le> 2 ^ 64 - 1 \<and> s = WriteVarInt n @ s'"
  by (rule varint64.unser_iff)

end
