(* ===== verification/Transaction.thy ===== *)
theory Transaction
  imports Serialize_Codec Sha256 Params
begin

text \<open>
  Transactions, \<^verbatim>\<open>primitives/transaction.h\<close> and \<^verbatim>\<open>primitives/transaction.cpp\<close>:
  the data, the base and the extended serialisation, the hashes and the sizes. \<open>CTransaction\<close> is
  \<open>SegwitTx\<close> in this build, a subclass of \<open>Transaction\<close> without virtual methods: a method that
  \<open>Transaction\<close> defines serialises with the base format also for a \<open>SegwitTx\<close>. The cached hash of a
  transaction is the value its constructor computes, here a function of the other fields.
\<close>

section \<open>Data\<close>

record COutPoint =
  op_hash :: uint256
  op_n :: u32

definition COutPoint_null :: COutPoint where
  "COutPoint_null = \<lparr>op_hash = uint256_null, op_n = - 1\<rparr>"

definition COutPoint_IsNull :: "COutPoint \<Rightarrow> bool" where
  "COutPoint_IsNull p \<longleftrightarrow> IsNull_blob (op_hash p) \<and> op_n p = - 1"

definition COutPoint_less :: "COutPoint \<Rightarrow> COutPoint \<Rightarrow> bool" where
  "COutPoint_less a b =
     (let cmp = blob_compare (op_hash a) (op_hash b) in cmp < 0 \<or> (cmp = 0 \<and> op_n a < op_n b))"

record TxIn =
  prevout :: COutPoint
  scriptSig :: bytes
  nSequence :: u32
  scriptWitness :: "bytes list"

definition SEQUENCE_FINAL :: u32 where "SEQUENCE_FINAL = 0xffffffff"
definition SEQUENCE_LOCKTIME_DISABLE_FLAG :: u32 where "SEQUENCE_LOCKTIME_DISABLE_FLAG = push_bit 31 1"
definition SEQUENCE_LOCKTIME_TYPE_FLAG :: u32 where "SEQUENCE_LOCKTIME_TYPE_FLAG = push_bit 22 1"
definition SEQUENCE_LOCKTIME_MASK :: u32 where "SEQUENCE_LOCKTIME_MASK = 0x0000ffff"
definition SEQUENCE_LOCKTIME_GRANULARITY :: nat where "SEQUENCE_LOCKTIME_GRANULARITY = 9"

record TxOut =
  nValue :: CAmount
  scriptPubKey :: bytes

definition TxOut_null :: TxOut where
  "TxOut_null = \<lparr>nValue = - 1, scriptPubKey = []\<rparr>"

definition TxOut_IsNull :: "TxOut \<Rightarrow> bool" where
  "TxOut_IsNull out \<longleftrightarrow> nValue out = - 1"

record Transaction =
  vin :: "TxIn list"
  vout :: "TxOut list"
  nLockTime :: u32
  tx_nVersion :: int

definition tx_IsNull :: "Transaction \<Rightarrow> bool" where
  "tx_IsNull tx \<longleftrightarrow> vin tx = [] \<and> vout tx = []"

definition IsCoinBase :: "Transaction \<Rightarrow> bool" where
  "IsCoinBase tx \<longleftrightarrow> length (vin tx) = 1 \<and> COutPoint_IsNull (prevout (vin tx ! 0))"

definition HasWitness :: "Transaction \<Rightarrow> bool" where
  "HasWitness tx = list_ex (\<lambda>txin. scriptWitness txin \<noteq> []) (vin tx)"

section \<open>Serialisation\<close>

definition ser_outpoint :: "COutPoint \<Rightarrow> bytes" where
  "ser_outpoint p = op_hash p @ ser_writedata32 (op_n p)"

definition unser_outpoint :: "COutPoint reader" where
  "unser_outpoint = rbind (read_bytes 32) (\<lambda>h. rbind ser_readdata32 (\<lambda>n. rreturn \<lparr>op_hash = h, op_n = n\<rparr>))"

definition ser_txin :: "TxIn \<Rightarrow> bytes" where
  "ser_txin txin = ser_outpoint (prevout txin) @ ser_bytes (scriptSig txin) @ ser_writedata32 (nSequence txin)"

definition unser_txin :: "TxIn reader" where
  "unser_txin = rbind unser_outpoint (\<lambda>p. rbind unser_bytes (\<lambda>sig. rbind ser_readdata32 (\<lambda>q.
     rreturn \<lparr>prevout = p, scriptSig = sig, nSequence = q, scriptWitness = []\<rparr>)))"

definition ser_txout :: "TxOut \<Rightarrow> bytes" where
  "ser_txout out = ser_int64 (nValue out) @ ser_bytes (scriptPubKey out)"

definition unser_txout :: "TxOut reader" where
  "unser_txout = rbind unser_int64 (\<lambda>v. rbind unser_bytes (\<lambda>s. rreturn \<lparr>nValue = v, scriptPubKey = s\<rparr>))"

definition SerializeTransaction :: "Transaction \<Rightarrow> bytes" where
  "SerializeTransaction tx =
     ser_int32 (tx_nVersion tx) @ ser_vector ser_txin (vin tx) @ ser_vector ser_txout (vout tx) @
     ser_writedata32 (nLockTime tx)"

definition UnserializeTransaction :: "Transaction reader" where
  "UnserializeTransaction =
     rbind unser_int32 (\<lambda>version. rbind (unser_vector unser_txin) (\<lambda>ins. rbind (unser_vector unser_txout) (\<lambda>outs.
     rbind ser_readdata32 (\<lambda>lock. rreturn \<lparr>vin = ins, vout = outs, nLockTime = lock, tx_nVersion = version\<rparr>))))"

text \<open>The version of a stream carries the flag that leaves the witnesses out.\<close>

definition SERIALIZE_TRANSACTION_NO_WITNESS :: u32 where "SERIALIZE_TRANSACTION_NO_WITNESS = 0x40000000"
definition PROTOCOL_VERSION :: u32 where "PROTOCOL_VERSION = 70012"

definition fAllowWitness :: "u32 \<Rightarrow> bool" where
  "fAllowWitness version \<longleftrightarrow> version AND SERIALIZE_TRANSACTION_NO_WITNESS = 0"

definition SerializeSegwitTx :: "u32 \<Rightarrow> Transaction \<Rightarrow> bytes" where
  "SerializeSegwitTx version tx =
     (let flags = (if fAllowWitness version \<and> HasWitness tx then 1 else 0 :: u8)
      in ser_int32 (tx_nVersion tx) @
         (if flags \<noteq> 0 then ser_vector ser_txin [] @ ser_writedata8 flags else []) @
         ser_vector ser_txin (vin tx) @ ser_vector ser_txout (vout tx) @
         (if flags AND 1 \<noteq> 0 then concat (map (\<lambda>txin. ser_vector ser_bytes (scriptWitness txin)) (vin tx)) else []) @
         ser_writedata32 (nLockTime tx))"

fun read_witnesses :: "TxIn list \<Rightarrow> TxIn list reader" where
  "read_witnesses [] = rreturn []"
| "read_witnesses (txin # ins) =
     rbind (unser_vector unser_bytes) (\<lambda>stack. rbind (read_witnesses ins) (\<lambda>ins'.
       rreturn (txin\<lparr>scriptWitness := stack\<rparr> # ins')))"

text \<open>The inputs and outputs, with the flags that are left.\<close>

definition read_vin_vout :: "bool \<Rightarrow> (TxIn list \<times> TxOut list \<times> u8) reader" where
  "read_vin_vout allow =
     rbind (unser_vector unser_txin) (\<lambda>ins.
       if ins = [] \<and> allow
       then rbind ser_readdata8 (\<lambda>flags.
              if flags \<noteq> 0
              then rbind (unser_vector unser_txin) (\<lambda>ins. rbind (unser_vector unser_txout) (\<lambda>outs. rreturn (ins, outs, flags)))
              else rreturn ([], [], flags))
       else rbind (unser_vector unser_txout) (\<lambda>outs. rreturn (ins, outs, 0)))"

definition UnserializeSegwitTx :: "u32 \<Rightarrow> Transaction reader" where
  "UnserializeSegwitTx version =
     rbind unser_int32 (\<lambda>v. rbind (read_vin_vout (fAllowWitness version)) (\<lambda>(ins, outs, flags).
       rbind (if flags AND 1 \<noteq> 0 \<and> fAllowWitness version
              then rbind (read_witnesses ins) (\<lambda>ins'. rreturn (ins', flags XOR 1))
              else rreturn (ins, flags)) (\<lambda>(ins, flags).
       if flags \<noteq> 0 then rfail UnknownOptional
       else rbind ser_readdata32 (\<lambda>lock.
              rreturn \<lparr>vin = ins, vout = outs, nLockTime = lock, tx_nVersion = v\<rparr>))))"

section \<open>Hashes, sizes and values\<close>

text \<open>\<open>CHashWriter\<close>: every write goes to the inner hash; \<open>garbage\<close> is the uninitialised buffer.\<close>

definition CHashWriter_write :: "CSHA256 \<Rightarrow> bytes \<Rightarrow> CSHA256" where
  "CHashWriter_write ctx pch = CSHA256_Write ctx pch"

definition CHashWriter_GetHash :: "CSHA256 \<Rightarrow> uint256" where
  "CHashWriter_GetHash ctx = CHash256_Finalize ctx"

definition SerializeHash :: "bytes \<Rightarrow> uint256" where
  "SerializeHash obj = CHashWriter_GetHash (CHashWriter_write (CSHA256_ctor (replicate 64 0)) obj)"

definition ComputeHash :: "Transaction \<Rightarrow> uint256" where
  "ComputeHash tx = SerializeHash (SerializeTransaction tx)"

definition GetWitnessHash :: "Transaction \<Rightarrow> uint256" where
  "GetWitnessHash tx =
     (if \<not> HasWitness tx then ComputeHash tx else SerializeHash (SerializeSegwitTx 0 tx))"

definition GetTotalSize :: "Transaction \<Rightarrow> nat" where
  "GetTotalSize tx = length (SerializeTransaction tx)"

definition GetTransactionWeight :: "Transaction \<Rightarrow> nat" where
  "GetTransactionWeight tx =
     length (SerializeSegwitTx (PROTOCOL_VERSION OR SERIALIZE_TRANSACTION_NO_WITNESS) tx) * (WITNESS_SCALE_FACTOR - 1) +
     length (SerializeSegwitTx PROTOCOL_VERSION tx)"

text \<open>\<open>GetValueOut\<close> throws on a value out of range.\<close>

fun GetValueOut_loop :: "CAmount \<Rightarrow> TxOut list \<Rightarrow> CAmount option" where
  "GetValueOut_loop nValueOut [] = Some nValueOut"
| "GetValueOut_loop nValueOut (tx_out # outs) =
     (let nValueOut = nValueOut + nValue tx_out
      in if \<not> MoneyRange (nValue tx_out) \<or> \<not> MoneyRange nValueOut then None else GetValueOut_loop nValueOut outs)"

definition GetValueOut :: "Transaction \<Rightarrow> CAmount option" where
  "GetValueOut tx = GetValueOut_loop 0 (vout tx)"

end
