(* ===== verification/Transaction_Codec.thy ===== *)
theory Transaction_Codec
  imports Transaction
begin

text \<open>
  The formats of outpoints, inputs, outputs and base transactions satisfy the contract \<open>codec\<close>, the
  extended format with witnesses is read back, and what the hash and the size of a transaction
  depend on.
\<close>

section \<open>The formats are codecs\<close>

definition outpoint_ok :: "COutPoint \<Rightarrow> bool" where
  "outpoint_ok p \<longleftrightarrow> length (op_hash p) = 32"

definition txin_ok :: "TxIn \<Rightarrow> bool" where
  "txin_ok txin \<longleftrightarrow> outpoint_ok (prevout txin) \<and> vec_ok (\<lambda>_. True) (scriptSig txin)"

definition txin_base :: "TxIn \<Rightarrow> bool" where
  "txin_base txin \<longleftrightarrow> txin_ok txin \<and> scriptWitness txin = []"

definition txout_ok :: "TxOut \<Rightarrow> bool" where
  "txout_ok out \<longleftrightarrow> int64_range (nValue out) \<and> vec_ok (\<lambda>_. True) (scriptPubKey out)"

interpretation raw: codec id "read_bytes n" "\<lambda>b. length b = n" for n
  by (rule codec_read_bytes)

interpretation outpoint: codec ser_outpoint unser_outpoint outpoint_ok
proof
  fix p s assume "outpoint_ok p"
  then show "unser_outpoint (ser_outpoint p @ s) = Inr (p, s)"
    by (simp add: unser_outpoint_def ser_outpoint_def outpoint_ok_def raw.round [unfolded id_apply] u32.round)
next
  fix s p s' assume "unser_outpoint s = Inr (p, s')"
  then show "outpoint_ok p \<and> s = ser_outpoint p @ s'"
    by (auto simp: unser_outpoint_def ser_outpoint_def outpoint_ok_def raw.unser_iff u32.unser_iff elim!: rbind_InrE)
qed

interpretation txin: codec ser_txin unser_txin txin_base
proof
  fix t s assume "txin_base t"
  then show "unser_txin (ser_txin t @ s) = Inr (t, s)"
    by (simp add: unser_txin_def ser_txin_def txin_base_def txin_ok_def outpoint.round blob.round u32.round)
next
  fix s t s' assume "unser_txin s = Inr (t, s')"
  then show "txin_base t \<and> s = ser_txin t @ s'"
    by (auto simp: unser_txin_def ser_txin_def txin_base_def txin_ok_def outpoint.unser_iff blob.unser_iff u32.unser_iff
        elim!: rbind_InrE)
qed

interpretation txout: codec ser_txout unser_txout txout_ok
proof
  fix t s assume "txout_ok t"
  then show "unser_txout (ser_txout t @ s) = Inr (t, s)"
    by (simp add: unser_txout_def ser_txout_def txout_ok_def i64.round blob.round)
next
  fix s t s' assume "unser_txout s = Inr (t, s')"
  then show "txout_ok t \<and> s = ser_txout t @ s'"
    by (auto simp: unser_txout_def ser_txout_def txout_ok_def i64.unser_iff blob.unser_iff elim!: rbind_InrE)
qed

interpretation vins: codec "ser_vector ser_txin" "unser_vector unser_txin" "vec_ok txin_base"
  by (rule codec_vector [OF txin.codec_axioms])

interpretation vouts: codec "ser_vector ser_txout" "unser_vector unser_txout" "vec_ok txout_ok"
  by (rule codec_vector [OF txout.codec_axioms])

interpretation witness: codec "ser_vector ser_bytes" "unser_vector unser_bytes" "vec_ok (vec_ok (\<lambda>_. True))"
  by (rule codec_vector [OF blob.codec_axioms])

definition tx_base :: "Transaction \<Rightarrow> bool" where
  "tx_base tx \<longleftrightarrow> int32_range (tx_nVersion tx) \<and> vec_ok txin_base (vin tx) \<and> vec_ok txout_ok (vout tx)"

interpretation base_tx: codec SerializeTransaction UnserializeTransaction tx_base
proof
  fix t s assume "tx_base t"
  then show "UnserializeTransaction (SerializeTransaction t @ s) = Inr (t, s)"
    by (simp add: UnserializeTransaction_def SerializeTransaction_def tx_base_def i32.round vins.round vouts.round u32.round)
next
  fix s t s' assume "UnserializeTransaction s = Inr (t, s')"
  then show "tx_base t \<and> s = SerializeTransaction t @ s'"
    by (auto simp: UnserializeTransaction_def SerializeTransaction_def tx_base_def i32.unser_iff vins.unser_iff
        vouts.unser_iff u32.unser_iff elim!: rbind_InrE)
qed

section \<open>The extended format\<close>

definition strip :: "TxIn \<Rightarrow> TxIn" where
  "strip txin = txin\<lparr>scriptWitness := []\<rparr>"

definition tx_ok :: "Transaction \<Rightarrow> bool" where
  "tx_ok tx \<longleftrightarrow> int32_range (tx_nVersion tx) \<and> vec_ok txin_ok (vin tx) \<and> vec_ok txout_ok (vout tx) \<and>
     list_all (\<lambda>txin. vec_ok (vec_ok (\<lambda>_. True)) (scriptWitness txin)) (vin tx)"

lemma ser_txin_strip: "ser_txin (strip txin) = ser_txin txin"
  by (simp add: ser_txin_def strip_def)

lemma ser_vins_strip: "ser_vector ser_txin (map strip ins) = ser_vector ser_txin ins"
  by (simp add: ser_vector_def ser_txin_strip comp_def)

lemma vec_ok_strip: "vec_ok txin_ok ins \<Longrightarrow> vec_ok txin_base (map strip ins)"
  by (simp add: vec_ok_def list.pred_map comp_def txin_base_def strip_def txin_ok_def cong: list.pred_cong)

lemma read_witnesses_round:
  "list_all (\<lambda>txin. vec_ok (vec_ok (\<lambda>_. True)) (scriptWitness txin)) ins \<Longrightarrow>
   read_witnesses (map strip ins) (concat (map (\<lambda>txin. ser_vector ser_bytes (scriptWitness txin)) ins) @ s) = Inr (ins, s)"
  by (induction ins) (simp_all add: witness.round strip_def)

lemma no_witness_strip: "\<not> HasWitness tx \<Longrightarrow> map strip (vin tx) = vin tx"
  by (induction "vin tx" arbitrary: tx) (auto simp: HasWitness_def list_ex_iff strip_def intro!: map_idI)

lemma vec_ok_nil [simp]: "vec_ok P []"
  by (simp add: vec_ok_def)

lemma read_vin_vout_plain:
  assumes "vec_ok txin_base ins" and "vec_ok txout_ok outs" and "ins \<noteq> [] \<or> \<not> allow"
  shows "read_vin_vout allow (ser_vector ser_txin ins @ ser_vector ser_txout outs @ s) = Inr ((ins, outs, 0), s)"
  using assms by (auto simp: read_vin_vout_def vins.round vouts.round)

lemma read_vin_vout_empty:
  assumes "allow"
  shows "read_vin_vout allow (ser_vector ser_txin [] @ ser_vector ser_txout [] @ s) = Inr (([], [], 0), s)"
proof -
  have "ser_vector ser_txout [] = ser_writedata8 0"
    by (simp add: ser_vector_def WriteCompactSize_def)
  then show ?thesis using assms by (simp add: read_vin_vout_def vins.round u8.round)
qed

lemma read_vin_vout_extended:
  assumes "vec_ok txin_base ins" and "vec_ok txout_ok outs" and "allow" and "flags \<noteq> 0"
  shows "read_vin_vout allow (ser_vector ser_txin [] @ ser_writedata8 flags @ ser_vector ser_txin ins @
     ser_vector ser_txout outs @ s) = Inr ((ins, outs, flags), s)"
  using assms by (simp add: read_vin_vout_def vins.round vouts.round u8.round)

lemma tx_okD:
  assumes "tx_ok tx"
  shows "int32_range (tx_nVersion tx)" "vec_ok txin_base (map strip (vin tx))" "vec_ok txout_ok (vout tx)"
    "list_all (\<lambda>txin. vec_ok (vec_ok (\<lambda>_. True)) (scriptWitness txin)) (vin tx)"
  using assms vec_ok_strip by (auto simp: tx_ok_def)

lemma SegwitTx_round_base:
  assumes ok: "tx_ok tx" and no: "\<not> (fAllowWitness v \<and> HasWitness tx)"
    and ne: "vin tx \<noteq> [] \<or> \<not> fAllowWitness v \<or> vout tx = []"
  shows "UnserializeSegwitTx v (SerializeSegwitTx v tx @ s) = Inr (tx\<lparr>vin := map strip (vin tx)\<rparr>, s)"
proof -
  note d = tx_okD [OF ok]
  have rd: "read_vin_vout (fAllowWitness v) (ser_vector ser_txin (vin tx) @ ser_vector ser_txout (vout tx) @ r) =
      Inr ((map strip (vin tx), vout tx, 0), r)" for r
  proof (cases "vin tx = [] \<and> fAllowWitness v")
    case True
    then show ?thesis using ne read_vin_vout_empty by simp
  next
    case False
    then show ?thesis using read_vin_vout_plain [OF d(2,3), of "fAllowWitness v" r] by (auto simp: ser_vins_strip)
  qed
  have "SerializeSegwitTx v tx = ser_int32 (tx_nVersion tx) @ ser_vector ser_txin (vin tx) @
      ser_vector ser_txout (vout tx) @ ser_writedata32 (nLockTime tx)"
    using no by (auto simp: SerializeSegwitTx_def)
  then show ?thesis by (simp add: UnserializeSegwitTx_def i32.round d(1) rd u32.round)
qed

lemma SegwitTx_round_extended:
  assumes ok: "tx_ok tx" and yes: "fAllowWitness v" "HasWitness tx"
  shows "UnserializeSegwitTx v (SerializeSegwitTx v tx @ s) = Inr (tx, s)"
proof -
  note d = tx_okD [OF ok]
  have rd: "read_vin_vout True (ser_vector ser_txin [] @ ser_writedata8 1 @ ser_vector ser_txin (vin tx) @
      ser_vector ser_txout (vout tx) @ r) = Inr ((map strip (vin tx), vout tx, 1), r)" for r
    using read_vin_vout_extended [OF d(2,3) TrueI, of 1 r] by (simp add: ser_vins_strip)
  have "SerializeSegwitTx v tx = ser_int32 (tx_nVersion tx) @ ser_vector ser_txin [] @ ser_writedata8 1 @
      ser_vector ser_txin (vin tx) @ ser_vector ser_txout (vout tx) @
      concat (map (\<lambda>txin. ser_vector ser_bytes (scriptWitness txin)) (vin tx)) @ ser_writedata32 (nLockTime tx)"
    using yes by (simp add: SerializeSegwitTx_def)
  then show ?thesis
    by (simp add: UnserializeSegwitTx_def i32.round d(1) rd yes read_witnesses_round [OF d(4)] u32.round)
qed

lemma SegwitTx_round:
  assumes "tx_ok tx" and "vin tx \<noteq> [] \<or> \<not> fAllowWitness v \<or> vout tx = []"
  shows "UnserializeSegwitTx v (SerializeSegwitTx v tx @ s) =
    Inr (if fAllowWitness v then tx else tx\<lparr>vin := map strip (vin tx)\<rparr>, s)"
proof (cases "fAllowWitness v \<and> HasWitness tx")
  case True
  then show ?thesis using SegwitTx_round_extended [OF assms(1)] by simp
next
  case False
  then show ?thesis using SegwitTx_round_base [OF assms(1) False assms(2)] no_witness_strip [of tx] by auto
qed

section \<open>Properties\<close>

text \<open>
  C13: A transaction survives the network format: a stream that carries witnesses gives the same
  transaction back, with whatever follows it left in the stream, and a stream without witnesses
  gives the transaction with the witnesses removed. The one exception is a transaction with outputs
  and no inputs, whose encoding a reader of witnesses takes for the extended format.
\<close>
theorem SegwitTx_roundtrip:
  assumes "tx_ok tx" and "vin tx \<noteq> [] \<or> \<not> fAllowWitness v \<or> vout tx = []"
  shows "UnserializeSegwitTx v (SerializeSegwitTx v tx @ s) =
    Inr (if fAllowWitness v then tx else tx\<lparr>vin := map strip (vin tx)\<rparr>, s)"
  using assms by (rule SegwitTx_round)

definition demo_tx :: Transaction where
  "demo_tx = \<lparr>vin = [\<lparr>prevout = \<lparr>op_hash = replicate 32 7, op_n = 1\<rparr>, scriptSig = [0x51], nSequence = 0,
       scriptWitness = [[1, 2], []]\<rparr>],
     vout = [\<lparr>nValue = 5, scriptPubKey = [0x51]\<rparr>], nLockTime = 9, tx_nVersion = 2\<rparr>"

lemma demo_tx_ok: "tx_ok demo_tx"
  by (simp add: demo_tx_def tx_ok_def txin_ok_def outpoint_ok_def txout_ok_def vec_ok_def MAX_SIZE_def int32_range_def
      int64_range_def)

theorem SegwitTx_roundtrip_witness:
  "UnserializeSegwitTx PROTOCOL_VERSION (SerializeSegwitTx PROTOCOL_VERSION demo_tx @ [9, 9]) = Inr (demo_tx, [9, 9])"
proof -
  have "fAllowWitness PROTOCOL_VERSION" by code_simp
  moreover have "vin demo_tx \<noteq> []" by (simp add: demo_tx_def)
  ultimately show ?thesis using SegwitTx_roundtrip [OF demo_tx_ok, of PROTOCOL_VERSION "[9, 9]"] by simp
qed

lemma SerializeTransaction_strip: "SerializeTransaction (tx\<lparr>vin := map strip (vin tx)\<rparr>) = SerializeTransaction tx"
  by (simp add: SerializeTransaction_def ser_vins_strip)

lemma ComputeHash_strip: "ComputeHash (tx\<lparr>vin := map strip (vin tx)\<rparr>) = ComputeHash tx"
  by (simp add: ComputeHash_def SerializeTransaction_strip)

lemma SerializeSegwitTx_no_witness:
  "\<not> fAllowWitness v \<Longrightarrow> SerializeSegwitTx v tx = SerializeTransaction tx"
  by (simp add: SerializeSegwitTx_def SerializeTransaction_def)

lemma SerializeSegwitTx_length:
  "length (SerializeSegwitTx v tx) = length (SerializeTransaction tx) +
     (if fAllowWitness v \<and> HasWitness tx
      then 2 + length (concat (map (\<lambda>txin. ser_vector ser_bytes (scriptWitness txin)) (vin tx))) else 0)"
  by (simp add: SerializeSegwitTx_def SerializeTransaction_def ser_vector_def WriteCompactSize_def ser_writedata8_def)

text \<open>
  \<open>GetTotalSize\<close> leaves the witness out: it is smaller than the serialised size of every
  transaction that has a witness, and equal to it for the others.
\<close>
theorem GetTotalSize_base:
  "GetTotalSize tx = length (SerializeSegwitTx PROTOCOL_VERSION tx) \<longleftrightarrow> \<not> HasWitness tx"
proof -
  have "fAllowWitness PROTOCOL_VERSION" by code_simp
  then show ?thesis by (auto simp: GetTotalSize_def SerializeSegwitTx_length)
qed

lemma CHashWriter_pieces:
  "CHashWriter_GetHash (fold (\<lambda>p ctx. CHashWriter_write ctx p) ps (CSHA256_ctor (replicate 64 0))) = SerializeHash (concat ps)"
proof -
  have "sha_repr (fold (\<lambda>p ctx. CSHA256_Write ctx p) ps st) (m @ concat ps)" if "sha_repr st m" for st m
    using that by (induction ps arbitrary: st m) (auto dest: Write_repr simp flip: append_assoc)
  from this [OF repr_ctor, of "replicate 64 0"] show ?thesis
    using CHash256_repr Hash1_fips [of "replicate 64 0" "concat ps"]
    by (simp add: CHashWriter_GetHash_def CHashWriter_write_def SerializeHash_def Hash1_def)
qed

end
