(* ===== verification/Block.thy ===== *)
theory Block
  imports Transaction_Codec Merkle Script
begin

text \<open>
  Blocks, \<^verbatim>\<open>primitives/block.h\<close> and \<^verbatim>\<open>primitives/block.cpp\<close>: the header and its
  hash, the block with its transactions, the Merkle roots over them of \<^verbatim>\<open>consensus/merkle.cpp\<close>,
  the weight of \<^verbatim>\<open>consensus/validation.h\<close> and the genesis block of
  \<^verbatim>\<open>foodchain/params.cpp\<close>.
\<close>

section \<open>Headers\<close>

record BlockHeader =
  bh_nVersion :: int
  hashPrevBlock :: uint256
  hashMerkleRoot :: uint256
  bh_nTime :: u32
  bh_nBits :: u32
  bh_nNonce :: u32

definition BlockHeader_null :: BlockHeader where
  "BlockHeader_null = \<lparr>bh_nVersion = 0, hashPrevBlock = uint256_null, hashMerkleRoot = uint256_null,
     bh_nTime = 0, bh_nBits = 0, bh_nNonce = 0\<rparr>"

definition BlockHeader_IsNull :: "BlockHeader \<Rightarrow> bool" where
  "BlockHeader_IsNull h \<longleftrightarrow> bh_nBits h = 0"

definition ser_header :: "BlockHeader \<Rightarrow> bytes" where
  "ser_header h =
     ser_int32 (bh_nVersion h) @ hashPrevBlock h @ hashMerkleRoot h @ ser_writedata32 (bh_nTime h) @
     ser_writedata32 (bh_nBits h) @ ser_writedata32 (bh_nNonce h)"

definition unser_header :: "BlockHeader reader" where
  "unser_header =
     rbind unser_int32 (\<lambda>v. rbind (read_bytes 32) (\<lambda>prev. rbind (read_bytes 32) (\<lambda>root.
     rbind ser_readdata32 (\<lambda>t. rbind ser_readdata32 (\<lambda>b. rbind ser_readdata32 (\<lambda>n.
       rreturn \<lparr>bh_nVersion = v, hashPrevBlock = prev, hashMerkleRoot = root, bh_nTime = t, bh_nBits = b, bh_nNonce = n\<rparr>))))))"

definition BlockHeader_GetHash :: "BlockHeader \<Rightarrow> uint256" where
  "BlockHeader_GetHash h = SerializeHash (ser_header h)"

definition GetPoWHash :: "BlockHeader \<Rightarrow> uint256" where
  "GetPoWHash h = BlockHeader_GetHash h"

definition GetBlockTime :: "BlockHeader \<Rightarrow> int" where
  "GetBlockTime h = int (unat (bh_nTime h))"

section \<open>Blocks\<close>

record Block =
  header :: BlockHeader
  vtx :: "Transaction list"
  fChecked :: bool

definition Block_of_header :: "BlockHeader \<Rightarrow> Block" where
  "Block_of_header h = \<lparr>header = h, vtx = [], fChecked = False\<rparr>"

definition ser_block :: "u32 \<Rightarrow> Block \<Rightarrow> bytes" where
  "ser_block version b = ser_header (header b) @ ser_vector (SerializeSegwitTx version) (vtx b)"

definition unser_block :: "u32 \<Rightarrow> Block reader" where
  "unser_block version =
     rbind unser_header (\<lambda>h. rbind (unser_vector (UnserializeSegwitTx version)) (\<lambda>txs.
       rreturn \<lparr>header = h, vtx = txs, fChecked = False\<rparr>))"

definition GetBlockWeight :: "Block \<Rightarrow> nat" where
  "GetBlockWeight block =
     length (ser_block (PROTOCOL_VERSION OR SERIALIZE_TRANSACTION_NO_WITNESS) block) * (WITNESS_SCALE_FACTOR - 1) +
     length (ser_block PROTOCOL_VERSION block)"

definition BlockMerkleRoot :: "Block \<Rightarrow> (uint256 \<times> bool) option" where
  "BlockMerkleRoot block = ComputeMerkleRoot merkle_hash uint256_null (map ComputeHash (vtx block))"

text \<open>\<open>None\<close> without transactions, where the code writes to the first leaf of an empty vector.\<close>

definition BlockWitnessMerkleRoot :: "Block \<Rightarrow> (uint256 \<times> bool) option" where
  "BlockWitnessMerkleRoot block =
     (case vtx block of
        [] \<Rightarrow> None
      | coinbase # txs \<Rightarrow> ComputeMerkleRoot merkle_hash uint256_null (uint256_null # map GetWitnessHash txs))"

definition BlockMerkleBranch :: "Block \<Rightarrow> nat \<Rightarrow> uint256 list option" where
  "BlockMerkleBranch block position = ComputeMerkleBranch merkle_hash uint256_null (map ComputeHash (vtx block)) position"

section \<open>The genesis block\<close>

definition genesis_coinbase :: "string \<Rightarrow> bytes \<Rightarrow> CAmount \<Rightarrow> Transaction" where
  "genesis_coinbase pszTimestamp genesisOutputScript genesisReward =
     \<lparr>vin = [\<lparr>prevout = COutPoint_null,
        scriptSig = push_data (push_data (push_int64 [] 486604799) (serialize 4)) (map of_char pszTimestamp),
        nSequence = SEQUENCE_FINAL, scriptWitness = []\<rparr>],
      vout = [\<lparr>nValue = genesisReward, scriptPubKey = genesisOutputScript\<rparr>], nLockTime = 0, tx_nVersion = 1\<rparr>"

definition CreateGenesisBlock ::
  "string \<Rightarrow> bytes \<Rightarrow> u32 \<Rightarrow> u32 \<Rightarrow> u32 \<Rightarrow> int \<Rightarrow> CAmount \<Rightarrow> Block option" where
  "CreateGenesisBlock pszTimestamp genesisOutputScript time nonce bits version genesisReward =
     (let txs = [genesis_coinbase pszTimestamp genesisOutputScript genesisReward]
      in map_option (\<lambda>(root, mutated).
           \<lparr>header = \<lparr>bh_nVersion = version, hashPrevBlock = uint256_null, hashMerkleRoot = root,
              bh_nTime = time, bh_nBits = bits, bh_nNonce = nonce\<rparr>, vtx = txs, fChecked = False\<rparr>)
           (BlockMerkleRoot \<lparr>header = BlockHeader_null, vtx = txs, fChecked = False\<rparr>))"

definition CreateGenesisBlock_default :: "u32 \<Rightarrow> u32 \<Rightarrow> u32 \<Rightarrow> int \<Rightarrow> CAmount \<Rightarrow> Block option" where
  "CreateGenesisBlock_default time nonce bits version genesisReward =
     (let pszTimestamp = ''On December 5, 2022, a team from DOE'' @ [CHR 0x27] @
            ''s Lawrence Livermore Lab made history by achieving fusion ignition'';
          genesisOutputScript = push_opcode (push_data [] (ParseHex (
            ''04678afdb0fe5548271967f1a67130b7105cd6a828e03909a67962e0ea1f61deb649f6bc3f4cef38c4f35504e51ec112de5c384df7ba0b8d578a4c702b6bf11d5f'')))
            OP_CHECKSIG
      in CreateGenesisBlock pszTimestamp genesisOutputScript time nonce bits version genesisReward)"

section \<open>Round trips\<close>

definition header_ok :: "BlockHeader \<Rightarrow> bool" where
  "header_ok h \<longleftrightarrow> int32_range (bh_nVersion h) \<and> length (hashPrevBlock h) = 32 \<and> length (hashMerkleRoot h) = 32"

interpretation hdr: codec ser_header unser_header header_ok
proof
  fix h s assume "header_ok h"
  then show "unser_header (ser_header h @ s) = Inr (h, s)"
    by (simp add: unser_header_def ser_header_def header_ok_def i32.round raw.round [unfolded id_apply] u32.round)
next
  fix s h s' assume "unser_header s = Inr (h, s')"
  then show "header_ok h \<and> s = ser_header h @ s'"
    by (auto simp: unser_header_def ser_header_def header_ok_def i32.unser_iff raw.unser_iff u32.unser_iff elim!: rbind_InrE)
qed

lemma ser_header_length: "header_ok h \<Longrightarrow> length (ser_header h) = 80"
  by (simp add: ser_header_def header_ok_def ser_int32_def ser_writedata32_def)

definition tx_net_ok :: "u32 \<Rightarrow> Transaction \<Rightarrow> bool" where
  "tx_net_ok version tx \<longleftrightarrow> tx_ok tx \<and> fAllowWitness version \<and> (vin tx \<noteq> [] \<or> vout tx = [])"

interpretation net_tx: readback "SerializeSegwitTx version" "UnserializeSegwitTx version" "tx_net_ok version" for version
  by unfold_locales (auto simp: tx_net_ok_def SegwitTx_round)

interpretation net_txs: readback "ser_vector (SerializeSegwitTx version)" "unser_vector (UnserializeSegwitTx version)"
    "vec_ok (tx_net_ok version)" for version
  by (rule readback_vector [OF net_tx.readback_axioms])

text \<open>
  A block whose transactions are well formed and have inputs survives the network format, with
  whatever follows it left in the stream.
\<close>
theorem Block_roundtrip:
  assumes "header_ok (header b)" and "vec_ok (tx_net_ok version) (vtx b)"
  shows "unser_block version (ser_block version b @ s) = Inr (b\<lparr>fChecked := False\<rparr>, s)"
  using assms by (simp add: unser_block_def ser_block_def hdr.round net_txs.round)

definition demo_block :: Block where
  "demo_block = \<lparr>header = BlockHeader_null, vtx = [demo_tx, demo_tx], fChecked = False\<rparr>"

theorem Block_roundtrip_witness:
  "unser_block PROTOCOL_VERSION (ser_block PROTOCOL_VERSION demo_block @ [1]) = Inr (demo_block, [1])"
proof -
  have "fAllowWitness PROTOCOL_VERSION" by code_simp
  then have "vec_ok (tx_net_ok PROTOCOL_VERSION) (vtx demo_block)"
    using demo_tx_ok by (simp add: demo_block_def vec_ok_def tx_net_ok_def MAX_SIZE_def) (simp add: demo_tx_def)
  moreover have "header_ok (header demo_block)"
    by (simp add: demo_block_def header_ok_def BlockHeader_null_def int32_range_def uint256_null_def)
  ultimately show ?thesis using Block_roundtrip [of demo_block PROTOCOL_VERSION "[1]"] by (simp add: demo_block_def)
qed

end
