(* ===== verification/Coins.thy ===== *)
theory Coins
  imports Transaction Script "HOL-Library.AList"
begin

text \<open>
  The set of unspent outputs, \<^verbatim>\<open>coins.h\<close> and \<^verbatim>\<open>coins.cpp\<close>, and its database view of
  \<^verbatim>\<open>txdb.cpp\<close>. A view is a state with the operations \<open>GetCoin\<close> and \<open>BatchWrite\<close>;
  \<open>CCoinsViewCache\<close> keeps a map of entries over a view of any kind, so its operations take the
  operations of that view. Reading through a cache fills it, so every reader returns the new state.
  The map is an association list without repeated keys, whose order stands for the order in which
  the hash table is walked. \<open>cachedCoinsUsage\<close>, an estimate of allocated memory that decides when to
  flush, is left out.
\<close>

section \<open>Coins and entries\<close>

record Coin =
  out :: TxOut
  fCoinBase :: bool
  coin_nHeight :: nat

definition Coin_null :: Coin where
  "Coin_null = \<lparr>out = TxOut_null, fCoinBase = False, coin_nHeight = 0\<rparr>"

definition Coin_Clear :: "Coin \<Rightarrow> Coin" where
  "Coin_Clear c = c\<lparr>out := TxOut_null, fCoinBase := False, coin_nHeight := 0\<rparr>"

definition IsSpent :: "Coin \<Rightarrow> bool" where
  "IsSpent c = TxOut_IsNull (out c)"

record CCoinsCacheEntry =
  coin :: Coin
  DIRTY :: bool
  FRESH :: bool

type_synonym CCoinsMap = "(COutPoint \<times> CCoinsCacheEntry) list"

record 's CCoinsViewCache =
  base :: 's
  hashBlock :: uint256
  cacheCoins :: CCoinsMap

text \<open>\<open>GetCoin\<close> of a view: the unspent coin, if there is one, and the view after looking.\<close>

type_synonym 's get_coin = "'s \<Rightarrow> COutPoint \<Rightarrow> Coin option \<times> 's"

text \<open>\<open>BatchWrite\<close> of a view; \<open>None\<close> is an exception or a failed assertion.\<close>

type_synonym 's batch_write = "'s \<Rightarrow> CCoinsMap \<Rightarrow> uint256 \<Rightarrow> 's option"

section \<open>The cache\<close>

definition CCoinsViewCache_ctor :: "'s \<Rightarrow> 's CCoinsViewCache" where
  "CCoinsViewCache_ctor baseIn = \<lparr>base = baseIn, hashBlock = uint256_null, cacheCoins = []\<rparr>"

definition FetchCoin :: "'s get_coin \<Rightarrow> 's CCoinsViewCache \<Rightarrow> COutPoint \<Rightarrow> CCoinsCacheEntry option \<times> 's CCoinsViewCache" where
  "FetchCoin get c outpoint =
     (case map_of (cacheCoins c) outpoint of
        Some e \<Rightarrow> (Some e, c)
      | None \<Rightarrow>
          (case get (base c) outpoint of
             (None, b) \<Rightarrow> (None, c\<lparr>base := b\<rparr>)
           | (Some tmp, b) \<Rightarrow>
               let ret = \<lparr>coin = tmp, DIRTY = False, FRESH = IsSpent tmp\<rparr>
               in (Some ret, c\<lparr>base := b, cacheCoins := AList.update outpoint ret (cacheCoins c)\<rparr>)))"

definition GetCoin :: "'s get_coin \<Rightarrow> 's CCoinsViewCache get_coin" where
  "GetCoin get c outpoint =
     (case FetchCoin get c outpoint of
        (Some it, c') \<Rightarrow> (if IsSpent (coin it) then None else Some (coin it), c')
      | (None, c') \<Rightarrow> (None, c'))"

definition AccessCoin :: "'s get_coin \<Rightarrow> 's CCoinsViewCache \<Rightarrow> COutPoint \<Rightarrow> Coin \<times> 's CCoinsViewCache" where
  "AccessCoin get c outpoint =
     (case FetchCoin get c outpoint of (Some it, c') \<Rightarrow> (coin it, c') | (None, c') \<Rightarrow> (Coin_null, c'))"

definition HaveCoin :: "'s get_coin \<Rightarrow> 's CCoinsViewCache \<Rightarrow> COutPoint \<Rightarrow> bool \<times> 's CCoinsViewCache" where
  "HaveCoin get c outpoint =
     (case FetchCoin get c outpoint of (Some it, c') \<Rightarrow> (\<not> IsSpent (coin it), c') | (None, c') \<Rightarrow> (False, c'))"

definition HaveCoinInCache :: "'s CCoinsViewCache \<Rightarrow> COutPoint \<Rightarrow> bool" where
  "HaveCoinInCache c outpoint = (case map_of (cacheCoins c) outpoint of Some it \<Rightarrow> \<not> IsSpent (coin it) | None \<Rightarrow> False)"

definition SetBestBlock :: "'s CCoinsViewCache \<Rightarrow> uint256 \<Rightarrow> 's CCoinsViewCache" where
  "SetBestBlock c hashBlockIn = c\<lparr>hashBlock := hashBlockIn\<rparr>"

definition GetBestBlock :: "('s \<Rightarrow> uint256) \<Rightarrow> 's CCoinsViewCache \<Rightarrow> uint256 \<times> 's CCoinsViewCache" where
  "GetBestBlock best c =
     (let c = (if IsNull_blob (hashBlock c) then c\<lparr>hashBlock := best (base c)\<rparr> else c) in (hashBlock c, c))"

definition AddCoin :: "'s CCoinsViewCache \<Rightarrow> COutPoint \<Rightarrow> Coin \<Rightarrow> bool \<Rightarrow> 's CCoinsViewCache option" where
  "AddCoin c outpoint new possible_overwrite =
     (if IsSpent new then None
      else if IsUnspendable (scriptPubKey (out new)) then Some c
      else
        let it = (case map_of (cacheCoins c) outpoint of
                    Some e \<Rightarrow> e | None \<Rightarrow> \<lparr>coin = Coin_null, DIRTY = False, FRESH = False\<rparr>)
        in if \<not> possible_overwrite \<and> \<not> IsSpent (coin it) then None
           else
             let fresh = (\<not> possible_overwrite \<and> \<not> DIRTY it)
             in Some (c\<lparr>cacheCoins := AList.update outpoint
                  (it\<lparr>coin := new, DIRTY := True, FRESH := FRESH it \<or> fresh\<rparr>) (cacheCoins c)\<rparr>))"

fun AddCoins_loop ::
  "'s get_coin \<Rightarrow> bool \<Rightarrow> bool \<Rightarrow> uint256 \<Rightarrow> nat \<Rightarrow> nat \<Rightarrow> TxOut list \<Rightarrow> 's CCoinsViewCache \<Rightarrow> 's CCoinsViewCache option" where
  "AddCoins_loop get chk fCoinbase txid height i [] cache = Some cache"
| "AddCoins_loop get chk fCoinbase txid height i (txout # outs) cache =
     (let outpoint = \<lparr>op_hash = txid, op_n = of_nat i\<rparr>;
          (overwrite, cache) = (if chk then HaveCoin get cache outpoint else (fCoinbase, cache))
      in (case AddCoin cache outpoint \<lparr>out = txout, fCoinBase = fCoinbase, coin_nHeight = height\<rparr> overwrite of
            None \<Rightarrow> None
          | Some cache \<Rightarrow> AddCoins_loop get chk fCoinbase txid height (i + 1) outs cache))"

definition AddCoins :: "'s get_coin \<Rightarrow> 's CCoinsViewCache \<Rightarrow> Transaction \<Rightarrow> nat \<Rightarrow> bool \<Rightarrow> 's CCoinsViewCache option" where
  "AddCoins get cache tx height chk = AddCoins_loop get chk (IsCoinBase tx) (ComputeHash tx) height 0 (vout tx) cache"

text \<open>The result holds what \<open>moveout\<close> gets, or \<open>None\<close> when the call returns false.\<close>

definition SpendCoin :: "'s get_coin \<Rightarrow> 's CCoinsViewCache \<Rightarrow> COutPoint \<Rightarrow> Coin option \<times> 's CCoinsViewCache" where
  "SpendCoin get c outpoint =
     (case FetchCoin get c outpoint of
        (None, c') \<Rightarrow> (None, c')
      | (Some it, c') \<Rightarrow>
          (Some (coin it),
           if FRESH it then c'\<lparr>cacheCoins := AList.delete outpoint (cacheCoins c')\<rparr>
           else c'\<lparr>cacheCoins := AList.update outpoint (it\<lparr>DIRTY := True, coin := Coin_Clear (coin it)\<rparr>) (cacheCoins c')\<rparr>))"

text \<open>One entry of the child in \<open>BatchWrite\<close>; \<open>us\<close> is the map of the parent.\<close>

definition batch_entry :: "CCoinsMap \<Rightarrow> COutPoint \<times> CCoinsCacheEntry \<Rightarrow> CCoinsMap option" where
  "batch_entry us it =
     (if \<not> DIRTY (snd it) then Some us
      else
        (case map_of us (fst it) of
           None \<Rightarrow>
             if FRESH (snd it) \<and> IsSpent (coin (snd it)) then Some us
             else Some (AList.update (fst it) \<lparr>coin = coin (snd it), DIRTY = True, FRESH = FRESH (snd it)\<rparr> us)
         | Some itUs \<Rightarrow>
             if FRESH (snd it) \<and> \<not> IsSpent (coin itUs) then None
             else if FRESH itUs \<and> IsSpent (coin (snd it)) then Some (AList.delete (fst it) us)
             else Some (AList.update (fst it) (itUs\<lparr>coin := coin (snd it), DIRTY := True\<rparr>) us)))"

fun batch_loop :: "CCoinsMap \<Rightarrow> CCoinsMap \<Rightarrow> CCoinsMap option" where
  "batch_loop us [] = Some us"
| "batch_loop us (it # its) = (case batch_entry us it of None \<Rightarrow> None | Some us \<Rightarrow> batch_loop us its)"

definition BatchWrite :: "'s CCoinsViewCache batch_write" where
  "BatchWrite c mapCoins hashBlockIn =
     map_option (\<lambda>us. c\<lparr>cacheCoins := us, hashBlock := hashBlockIn\<rparr>) (batch_loop (cacheCoins c) mapCoins)"

definition Flush :: "'s batch_write \<Rightarrow> 's CCoinsViewCache \<Rightarrow> 's CCoinsViewCache option" where
  "Flush batch c =
     map_option (\<lambda>b. c\<lparr>base := b, cacheCoins := []\<rparr>) (batch (base c) (cacheCoins c) (hashBlock c))"

definition Uncache :: "'s CCoinsViewCache \<Rightarrow> COutPoint \<Rightarrow> 's CCoinsViewCache" where
  "Uncache c outpoint =
     (case map_of (cacheCoins c) outpoint of
        Some it \<Rightarrow> if \<not> DIRTY it \<and> \<not> FRESH it then c\<lparr>cacheCoins := AList.delete outpoint (cacheCoins c)\<rparr> else c
      | None \<Rightarrow> c)"

definition GetCacheSize :: "'s CCoinsViewCache \<Rightarrow> nat" where
  "GetCacheSize c = length (cacheCoins c)"

section \<open>Transactions\<close>

fun GetValueIn_loop :: "'s get_coin \<Rightarrow> CAmount \<Rightarrow> TxIn list \<Rightarrow> 's CCoinsViewCache \<Rightarrow> CAmount \<times> 's CCoinsViewCache" where
  "GetValueIn_loop get nResult [] c = (nResult, c)"
| "GetValueIn_loop get nResult (txin # ins) c =
     (case AccessCoin get c (prevout txin) of (cn, c') \<Rightarrow> GetValueIn_loop get (nResult + nValue (out cn)) ins c')"

definition GetValueIn :: "'s get_coin \<Rightarrow> 's CCoinsViewCache \<Rightarrow> Transaction \<Rightarrow> CAmount \<times> 's CCoinsViewCache" where
  "GetValueIn get c tx = (if IsCoinBase tx then (0, c) else GetValueIn_loop get 0 (vin tx) c)"

fun HaveInputs_loop :: "'s get_coin \<Rightarrow> TxIn list \<Rightarrow> 's CCoinsViewCache \<Rightarrow> bool \<times> 's CCoinsViewCache" where
  "HaveInputs_loop get [] c = (True, c)"
| "HaveInputs_loop get (txin # ins) c =
     (case HaveCoin get c (prevout txin) of (have, c') \<Rightarrow> if \<not> have then (False, c') else HaveInputs_loop get ins c')"

definition HaveInputs :: "'s get_coin \<Rightarrow> 's CCoinsViewCache \<Rightarrow> Transaction \<Rightarrow> bool \<times> 's CCoinsViewCache" where
  "HaveInputs get c tx = (if \<not> IsCoinBase tx then HaveInputs_loop get (vin tx) c else (True, c))"

definition MIN_TRANSACTION_OUTPUT_WEIGHT :: nat where
  "MIN_TRANSACTION_OUTPUT_WEIGHT = WITNESS_SCALE_FACTOR * length (ser_txout TxOut_null)"

definition MAX_OUTPUTS_PER_BLOCK :: nat where
  "MAX_OUTPUTS_PER_BLOCK = MAX_BLOCK_WEIGHT div MIN_TRANSACTION_OUTPUT_WEIGHT"

text \<open>\<open>n\<close> outpoints are still to be tried.\<close>

fun AccessByTxid_loop :: "'s get_coin \<Rightarrow> uint256 \<Rightarrow> nat \<Rightarrow> nat \<Rightarrow> 's CCoinsViewCache \<Rightarrow> Coin \<times> 's CCoinsViewCache" where
  "AccessByTxid_loop get txid i 0 view = (Coin_null, view)"
| "AccessByTxid_loop get txid i (Suc n) view =
     (case AccessCoin get view \<lparr>op_hash = txid, op_n = of_nat i\<rparr> of
        (alternate, view') \<Rightarrow>
          if \<not> IsSpent alternate then (alternate, view') else AccessByTxid_loop get txid (i + 1) n view')"

definition AccessByTxid :: "'s get_coin \<Rightarrow> 's CCoinsViewCache \<Rightarrow> uint256 \<Rightarrow> Coin \<times> 's CCoinsViewCache" where
  "AccessByTxid get view txid = AccessByTxid_loop get txid 0 MAX_OUTPUTS_PER_BLOCK view"

end
