(* ===== verification/Coins_View.thy ===== *)
theory Coins_View
  imports Coins
begin

text \<open>
  The contract of a view of unspent outputs as the locale \<open>coins_view\<close>: reading gives the output of
  an abstract set, and a batch of entries replaces outputs of that set. A cache over any view
  satisfies the contract again, which is what the flags \<open>DIRTY\<close> and \<open>FRESH\<close> are for, and so does the
  database view over a key-value store (\<open>kv_store\<close>).
\<close>

section \<open>What a view promises\<close>

text \<open>The unspent coin of an entry, and a map of entries laid over a set of unspent outputs.\<close>

definition coin_opt :: "CCoinsCacheEntry \<Rightarrow> Coin option" where
  "coin_opt e = (if IsSpent (coin e) then None else Some (coin e))"

type_synonym utxo_set = "COutPoint \<Rightarrow> Coin option"

definition overlay :: "utxo_set \<Rightarrow> CCoinsMap \<Rightarrow> utxo_set" where
  "overlay u m p = (case map_of m p of None \<Rightarrow> u p | Some e \<Rightarrow> coin_opt e)"

text \<open>
  What the flags of the entries of a child say about the outputs \<open>u\<close> of its parent: without
  \<open>FRESH\<close> nothing, with it that the parent has no coin; without \<open>DIRTY\<close> that the coin is the same.
\<close>

definition entry_ok :: "Coin option \<Rightarrow> CCoinsCacheEntry \<Rightarrow> bool" where
  "entry_ok c e \<longleftrightarrow> (FRESH e \<longrightarrow> c = None) \<and> (\<not> DIRTY e \<longrightarrow> coin_opt e = c)"

definition child_ok :: "utxo_set \<Rightarrow> CCoinsMap \<Rightarrow> bool" where
  "child_ok u m \<longleftrightarrow> distinct (map fst m) \<and> (\<forall>p e. map_of m p = Some e \<longrightarrow> entry_ok (u p) e)"

locale coins_view =
  fixes get :: "'s get_coin" and batch :: "'s batch_write" and vinv :: "'s \<Rightarrow> bool" and utxo :: "'s \<Rightarrow> utxo_set"
  assumes get_law: "vinv s \<Longrightarrow> get s p = (r, s') \<Longrightarrow> r = utxo s p \<and> vinv s' \<and> utxo s' = utxo s"
    and unspent_law: "vinv s \<Longrightarrow> utxo s p = Some c \<Longrightarrow> \<not> IsSpent c"
    and batch_law: "vinv s \<Longrightarrow> child_ok (utxo s) m \<Longrightarrow> \<not> IsNull_blob h \<Longrightarrow>
      \<exists>s'. batch s m h = Some s' \<and> vinv s' \<and> utxo s' = overlay (utxo s) m"

text \<open>The invariant and the outputs of a cache over a view.\<close>

definition cache_inv :: "('s \<Rightarrow> bool) \<Rightarrow> ('s \<Rightarrow> utxo_set) \<Rightarrow> 's CCoinsViewCache \<Rightarrow> bool" where
  "cache_inv vinv utxo c \<longleftrightarrow> vinv (base c) \<and> child_ok (utxo (base c)) (cacheCoins c)"

definition cache_utxo :: "('s \<Rightarrow> utxo_set) \<Rightarrow> 's CCoinsViewCache \<Rightarrow> utxo_set" where
  "cache_utxo utxo c = overlay (utxo (base c)) (cacheCoins c)"

text \<open>Two caches that stand for the same outputs and keep the promises of their flags.\<close>

definition same_outputs :: "('s \<Rightarrow> bool) \<Rightarrow> ('s \<Rightarrow> utxo_set) \<Rightarrow> 's CCoinsViewCache \<Rightarrow> 's CCoinsViewCache \<Rightarrow> bool" where
  "same_outputs vinv utxo c c' \<longleftrightarrow> cache_inv vinv utxo c' \<and> cache_utxo utxo c' = cache_utxo utxo c"

section \<open>Maps of entries\<close>

lemma IsSpent_null [simp]: "IsSpent Coin_null" "IsSpent (Coin_Clear c)"
  by (simp_all add: IsSpent_def Coin_null_def Coin_Clear_def TxOut_IsNull_def TxOut_null_def)

lemma child_ok_nil [simp]: "child_ok u []"
  by (simp add: child_ok_def)

lemma overlay_nil [simp]: "overlay u [] = u"
  by (simp add: overlay_def fun_eq_iff)

lemma overlay_update: "overlay u (AList.update p e m) = (overlay u m)(p := coin_opt e)"
  by (auto simp: overlay_def update_conv' fun_eq_iff)

lemma overlay_delete: "overlay u (AList.delete p m) = (overlay u m)(p := u p)"
  by (auto simp: overlay_def delete_conv' fun_eq_iff)

lemma child_ok_update: "child_ok u m \<Longrightarrow> entry_ok (u p) e \<Longrightarrow> child_ok u (AList.update p e m)"
  by (auto simp: child_ok_def update_conv' distinct_update)

lemma child_ok_delete: "child_ok u m \<Longrightarrow> child_ok u (AList.delete p m)"
  by (auto simp: child_ok_def delete_conv' distinct_delete)

lemma child_okD: "child_ok u m \<Longrightarrow> map_of m p = Some e \<Longrightarrow> entry_ok (u p) e"
  by (simp add: child_ok_def)

lemma fresh_entry: "child_ok u m \<Longrightarrow> map_of m p = Some e \<Longrightarrow> FRESH e \<Longrightarrow> u p = None"
  by (auto dest: child_okD simp: entry_ok_def)

section \<open>One entry of \<open>BatchWrite\<close>\<close>

lemma batch_entry_ok:
  assumes us: "child_ok u us" and e: "entry_ok (overlay u us p) e"
  shows "\<exists>us'. batch_entry us (p, e) = Some us' \<and> child_ok u us' \<and> overlay u us' = (overlay u us)(p := coin_opt e)"
proof (cases "DIRTY e")
  case False
  then show ?thesis using e us by (auto simp: batch_entry_def entry_ok_def)
next
  case dirty: True
  show ?thesis
  proof (cases "map_of us p")
    case None
    then have up: "overlay u us p = u p" by (simp add: overlay_def)
    show ?thesis
    proof (cases "FRESH e \<and> IsSpent (coin e)")
      case True
      then have "overlay u us p = None" "coin_opt e = None" using e by (auto simp: entry_ok_def coin_opt_def)
      then show ?thesis using True dirty None us by (auto simp: batch_entry_def fun_upd_idem)
    next
      case False
      let ?n = "\<lparr>coin = coin e, DIRTY = True, FRESH = FRESH e\<rparr>"
      have "entry_ok (u p) ?n" "coin_opt ?n = coin_opt e" using e up by (auto simp: entry_ok_def coin_opt_def)
      then show ?thesis using False dirty None child_ok_update [OF us] by (auto simp: batch_entry_def overlay_update)
    qed
  next
    case (Some i)
    have i: "entry_ok (u p) i" "overlay u us p = coin_opt i" using us Some by (auto dest: child_okD simp: overlay_def)
    have nothrow: "\<not> (FRESH e \<and> \<not> IsSpent (coin i))" using e i(2) by (auto simp: entry_ok_def coin_opt_def split: if_splits)
    show ?thesis
    proof (cases "FRESH i \<and> IsSpent (coin e)")
      case True
      then have "u p = None" "coin_opt e = None" using i(1) by (auto simp: entry_ok_def coin_opt_def)
      then show ?thesis using True dirty Some nothrow child_ok_delete [OF us] by (auto simp: batch_entry_def overlay_delete)
    next
      case False
      let ?n = "i\<lparr>coin := coin e, DIRTY := True\<rparr>"
      have "entry_ok (u p) ?n" "coin_opt ?n = coin_opt e" using i(1) by (auto simp: entry_ok_def coin_opt_def)
      then show ?thesis using False dirty Some nothrow child_ok_update [OF us] by (auto simp: batch_entry_def overlay_update)
    qed
  qed
qed

lemma batch_loop_ok:
  "child_ok u us \<Longrightarrow> child_ok (overlay u us) m \<Longrightarrow>
   \<exists>us'. batch_loop us m = Some us' \<and> child_ok u us' \<and> overlay u us' = overlay (overlay u us) m"
proof (induction m arbitrary: us)
  case (Cons it m)
  obtain p e where it: "it = (p, e)" by force
  have "entry_ok (overlay u us p) e" using Cons.prems(2) by (auto simp: child_ok_def it)
  from batch_entry_ok [OF Cons.prems(1) this] obtain us1 where
    us1: "batch_entry us (p, e) = Some us1" "child_ok u us1" "overlay u us1 = (overlay u us)(p := coin_opt e)" by blast
  have p: "p \<notin> fst ` set m" "map_of m p = None" using Cons.prems(2) by (auto simp: child_ok_def it map_of_eq_None_iff)
  have "child_ok (overlay u us1) m"
    using Cons.prems(2) p unfolding child_ok_def us1(3) by (auto simp: it split: if_splits)
  from Cons.IH [OF us1(2) this] obtain us' where
    us': "batch_loop us1 m = Some us'" "child_ok u us'" "overlay u us' = overlay (overlay u us1) m" by blast
  have "overlay (overlay u us1) m = overlay (overlay u us) (it # m)"
    using p by (auto simp: overlay_def us1(3) it fun_eq_iff split: option.splits)
  then show ?case using us' us1(1) by (auto simp: it)
qed simp

section \<open>A cache over a view\<close>

context coins_view
begin

abbreviation cinv :: "'s CCoinsViewCache \<Rightarrow> bool" where "cinv \<equiv> cache_inv vinv utxo"
abbreviation cutxo :: "'s CCoinsViewCache \<Rightarrow> utxo_set" where "cutxo \<equiv> cache_utxo utxo"

lemma cutxo_unspent: "cinv c \<Longrightarrow> cutxo c p = Some x \<Longrightarrow> \<not> IsSpent x"
  by (auto simp: cache_inv_def cache_utxo_def overlay_def coin_opt_def split: option.splits if_splits dest: unspent_law)

lemma FetchCoin_law:
  assumes "cinv c" and "FetchCoin get c p = (r, c')"
  shows "cinv c' \<and> cutxo c' = cutxo c \<and> utxo (base c') = utxo (base c) \<and> map_of (cacheCoins c') p = r \<and>
    (case r of None \<Rightarrow> cutxo c p = None | Some e \<Rightarrow> coin_opt e = cutxo c p)"
proof (cases "map_of (cacheCoins c) p")
  case (Some e)
  then have "r = Some e" "c' = c" using assms(2) by (simp_all add: FetchCoin_def)
  then show ?thesis using assms(1) Some by (simp add: cache_utxo_def overlay_def)
next
  case None
  obtain x b where xb: "get (base c) p = (x, b)" by force
  have b: "x = utxo (base c) p" "vinv b" "utxo b = utxo (base c)"
    using get_law [OF _ xb] assms(1) by (auto simp: cache_inv_def)
  have cp: "cutxo c p = utxo (base c) p" using None by (simp add: cache_utxo_def overlay_def)
  show ?thesis
  proof (cases x)
    case n: None
    then show ?thesis using assms None xb b cp by (auto simp: FetchCoin_def cache_utxo_def cache_inv_def)
  next
    case (Some t)
    then have t: "\<not> IsSpent t" using b(1) assms(1) by (auto simp: cache_inv_def dest: unspent_law)
    let ?e = "\<lparr>coin = t, DIRTY = False, FRESH = False\<rparr>"
    have e: "entry_ok (utxo (base c) p) ?e" "coin_opt ?e = utxo (base c) p"
      using b(1) t Some by (simp_all add: entry_ok_def coin_opt_def)
    have r: "r = Some ?e" "c' = c\<lparr>base := b, cacheCoins := AList.update p ?e (cacheCoins c)\<rparr>"
      using assms(2) None xb Some t by (simp_all add: FetchCoin_def Let_def)
    have "cutxo c' = cutxo c"
      using e(2) cp by (simp add: r(2) cache_utxo_def overlay_update b(3) fun_upd_idem_iff)
    then show ?thesis using e cp b assms(1) child_ok_update [of _ "cacheCoins c"]
      by (auto simp: r cache_inv_def update_conv')
  qed
qed

lemma GetCoin_law:
  assumes "cinv c" and "GetCoin get c p = (r, c')"
  shows "r = cutxo c p \<and> cinv c' \<and> cutxo c' = cutxo c"
proof -
  obtain e c1 where f: "FetchCoin get c p = (e, c1)" by force
  show ?thesis using FetchCoin_law [OF assms(1) f] assms(2) f by (cases e) (auto simp: GetCoin_def coin_opt_def)
qed

lemma HaveCoin_law:
  assumes "cinv c" and "HaveCoin get c p = (r, c')"
  shows "(r \<longleftrightarrow> cutxo c p \<noteq> None) \<and> cinv c' \<and> cutxo c' = cutxo c"
proof -
  obtain e c1 where f: "FetchCoin get c p = (e, c1)" by force
  show ?thesis using FetchCoin_law [OF assms(1) f] assms(2) f
    by (cases e) (auto simp: HaveCoin_def coin_opt_def dest: sym split: if_splits)
qed

lemma AccessCoin_law:
  assumes "cinv c" and "AccessCoin get c p = (x, c')"
  shows "(if IsSpent x then None else Some x) = cutxo c p \<and> cinv c' \<and> cutxo c' = cutxo c"
proof -
  obtain e c1 where f: "FetchCoin get c p = (e, c1)" by force
  show ?thesis using FetchCoin_law [OF assms(1) f] assms(2) f by (cases e) (auto simp: AccessCoin_def coin_opt_def)
qed

lemma AddCoin_law:
  assumes c: "cinv c" and new: "\<not> IsSpent new" and ov: "\<not> overwrite \<Longrightarrow> cutxo c p = None"
  shows "\<exists>c'. AddCoin c p new overwrite = Some c' \<and> cinv c' \<and>
    cutxo c' = (if IsUnspendable (scriptPubKey (out new)) then cutxo c else (cutxo c)(p \<mapsto> new))"
proof (cases "IsUnspendable (scriptPubKey (out new))")
  case True
  then show ?thesis using c new by (simp add: AddCoin_def)
next
  case False
  define it where "it = (case map_of (cacheCoins c) p of
    Some e \<Rightarrow> e | None \<Rightarrow> \<lparr>coin = Coin_null, DIRTY = False, FRESH = False\<rparr>)"
  define e where "e = it\<lparr>coin := new, DIRTY := True, FRESH := FRESH it \<or> (\<not> overwrite \<and> \<not> DIRTY it)\<rparr>"
  have ch: "child_ok (utxo (base c)) (cacheCoins c)" using c by (simp add: cache_inv_def)
  have spent: "\<not> overwrite \<Longrightarrow> IsSpent (coin it)"
    using ov by (auto simp: it_def cache_utxo_def overlay_def coin_opt_def split: option.splits if_splits)
  have "entry_ok (utxo (base c) p) e"
  proof (cases "map_of (cacheCoins c) p")
    case None
    then show ?thesis using ov by (auto simp: e_def it_def entry_ok_def cache_utxo_def overlay_def)
  next
    case (Some i)
    then show ?thesis using child_okD [OF ch Some] ov spent
      by (auto simp: e_def it_def entry_ok_def coin_opt_def)
  qed
  then have "cinv (c\<lparr>cacheCoins := AList.update p e (cacheCoins c)\<rparr>)"
    using c ch child_ok_update by (auto simp: cache_inv_def)
  moreover have "AddCoin c p new overwrite = Some (c\<lparr>cacheCoins := AList.update p e (cacheCoins c)\<rparr>)"
    using False new spent by (auto simp: AddCoin_def Let_def it_def [symmetric] e_def)
  moreover have "coin_opt e = Some new" using new by (simp add: e_def coin_opt_def)
  ultimately show ?thesis using False by (auto simp: cache_utxo_def overlay_update)
qed

text \<open>
  \<open>SpendCoin\<close> removes the coin. It also returns true for an entry that is already spent and not
  \<open>FRESH\<close>, with the spent coin.
\<close>

lemma SpendCoin_law:
  assumes "cinv c" and "SpendCoin get c p = (r, c')"
  shows "cinv c' \<and> cutxo c' = (cutxo c)(p := None) \<and>
    (case r of None \<Rightarrow> cutxo c p = None | Some x \<Rightarrow> (if IsSpent x then None else Some x) = cutxo c p)"
proof -
  obtain e c1 where f: "FetchCoin get c p = (e, c1)" by force
  note l = FetchCoin_law [OF assms(1) f]
  show ?thesis
  proof (cases e)
    case None
    then show ?thesis using l assms(2) f by (auto simp: SpendCoin_def fun_upd_idem)
  next
    case (Some i)
    have ch: "child_ok (utxo (base c1)) (cacheCoins c1)" using conjunct1 [OF l] by (simp add: cache_inv_def)
    have i: "entry_ok (utxo (base c1) p) i" using child_okD [OF ch] l Some by simp
    show ?thesis
    proof (cases "FRESH i")
      case True
      then have "utxo (base c1) p = None" using i by (simp add: entry_ok_def)
      then show ?thesis using True Some l assms(2) f child_ok_delete [OF ch]
        by (auto simp: SpendCoin_def cache_inv_def cache_utxo_def overlay_delete coin_opt_def)
    next
      case False
      let ?n = "i\<lparr>DIRTY := True, coin := Coin_Clear (coin i)\<rparr>"
      have "entry_ok (utxo (base c1) p) ?n" "coin_opt ?n = None"
        using False by (auto simp: entry_ok_def coin_opt_def)
      then show ?thesis using False Some l assms(2) f child_ok_update [OF ch]
        by (auto simp: SpendCoin_def cache_inv_def cache_utxo_def overlay_update coin_opt_def)
    qed
  qed
qed

lemma SpendCoin_result:
  assumes "cinv c" and "SpendCoin get c p = (r, c')"
  shows "r = (if cutxo c p \<noteq> None then cutxo c p else map_option coin (map_of (cacheCoins c) p))"
proof (cases "map_of (cacheCoins c) p")
  case None
  obtain x b where xb: "get (base c) p = (x, b)" by force
  have "x = utxo (base c) p" using get_law [OF _ xb] assms(1) by (auto simp: cache_inv_def)
  moreover have "cutxo c p = utxo (base c) p" using None by (simp add: cache_utxo_def overlay_def)
  ultimately show ?thesis
    using assms(2) None xb by (cases x) (auto simp: SpendCoin_def FetchCoin_def Let_def)
next
  case (Some e)
  then show ?thesis
    using assms by (auto simp: SpendCoin_def FetchCoin_def cache_utxo_def overlay_def coin_opt_def split: if_splits)
qed

lemma AddCoin_refused:
  assumes "IsSpent new \<or> \<not> IsUnspendable (scriptPubKey (out new)) \<and> \<not> overwrite \<and> HaveCoinInCache c p"
  shows "AddCoin c p new overwrite = None"
  using assms by (auto simp: AddCoin_def HaveCoinInCache_def Let_def split: option.splits)

lemma Uncache_law:
  assumes "cinv c"
  shows "cinv (Uncache c p) \<and> cutxo (Uncache c p) = cutxo c"
proof (cases "map_of (cacheCoins c) p")
  case (Some i)
  have ch: "child_ok (utxo (base c)) (cacheCoins c)" using assms by (simp add: cache_inv_def)
  have "\<not> DIRTY i \<Longrightarrow> cutxo c p = utxo (base c) p"
    using child_okD [OF ch Some] Some by (simp add: entry_ok_def cache_utxo_def overlay_def)
  then show ?thesis using Some assms child_ok_delete [OF ch]
    by (auto simp: Uncache_def cache_inv_def cache_utxo_def overlay_delete fun_upd_idem_iff)
qed (use assms in \<open>simp add: Uncache_def\<close>)

lemma BatchWrite_law:
  assumes "cinv c" and "child_ok (cutxo c) m"
  shows "\<exists>c'. BatchWrite c m h = Some c' \<and> cinv c' \<and> cutxo c' = overlay (cutxo c) m"
  using batch_loop_ok [of "utxo (base c)" "cacheCoins c" m] assms
  by (auto simp: BatchWrite_def cache_inv_def cache_utxo_def)

lemma Flush_law:
  assumes "cinv c" and "\<not> IsNull_blob (hashBlock c)"
  shows "\<exists>c'. Flush batch c = Some c' \<and> cinv c' \<and> cutxo c' = cutxo c \<and> utxo (base c') = cutxo c \<and> cacheCoins c' = []"
  using batch_law [of "base c" "cacheCoins c" "hashBlock c"] assms
  by (auto simp: Flush_def cache_inv_def cache_utxo_def)

lemma cache_is_view: "coins_view (GetCoin get) BatchWrite cinv cutxo"
  by unfold_locales (use GetCoin_law cutxo_unspent BatchWrite_law in blast)+

end

section \<open>The database view\<close>

text \<open>
  The key-value store below \<open>CDBWrapper\<close> is a library: a state with a reader and an atomic writer of
  batches, which lists the keys with their new values, \<open>None\<close> to erase.
\<close>

datatype db_key = KeyCoin COutPoint | KeyBestBlock | KeyHeadBlocks

datatype db_value = ValCoin Coin | ValHash uint256 | ValHashes "uint256 list"

type_synonym db_batch = "(db_key \<times> db_value option) list"

type_synonym 'd db_read = "'d \<Rightarrow> db_key \<Rightarrow> db_value option"

type_synonym 'd db_write = "'d \<Rightarrow> db_batch \<Rightarrow> 'd"

definition CCoinsViewDB_GetCoin :: "'d db_read \<Rightarrow> 'd get_coin" where
  "CCoinsViewDB_GetCoin read db outpoint =
     (case read db (KeyCoin outpoint) of Some (ValCoin c) \<Rightarrow> (Some c, db) | _ \<Rightarrow> (None, db))"

definition CCoinsViewDB_GetBestBlock :: "'d db_read \<Rightarrow> 'd \<Rightarrow> uint256" where
  "CCoinsViewDB_GetBestBlock read db = (case read db KeyBestBlock of Some (ValHash h) \<Rightarrow> h | _ \<Rightarrow> uint256_null)"

definition CCoinsViewDB_GetHeadBlocks :: "'d db_read \<Rightarrow> 'd \<Rightarrow> uint256 list" where
  "CCoinsViewDB_GetHeadBlocks read db = (case read db KeyHeadBlocks of Some (ValHashes hs) \<Rightarrow> hs | _ \<Rightarrow> [])"

text \<open>\<open>full\<close> tells whether the size estimate of a batch exceeds the configured size.\<close>

fun db_batch_loop :: "'d db_write \<Rightarrow> (db_batch \<Rightarrow> bool) \<Rightarrow> 'd \<Rightarrow> db_batch \<Rightarrow> CCoinsMap \<Rightarrow> 'd \<times> db_batch" where
  "db_batch_loop write full db batch [] = (db, batch)"
| "db_batch_loop write full db batch ((p, e) # its) =
     (let batch = (if DIRTY e then batch @ [(KeyCoin p, if IsSpent (coin e) then None else Some (ValCoin (coin e)))] else batch)
      in if full batch then db_batch_loop write full (write db batch) [] its
         else db_batch_loop write full db batch its)"

definition CCoinsViewDB_BatchWrite :: "'d db_read \<Rightarrow> 'd db_write \<Rightarrow> (db_batch \<Rightarrow> bool) \<Rightarrow> 'd batch_write" where
  "CCoinsViewDB_BatchWrite read write full db mapCoins hashBlockIn =
     (if IsNull_blob hashBlockIn then None
      else
        let best = CCoinsViewDB_GetBestBlock read db; old_heads = CCoinsViewDB_GetHeadBlocks read db;
            replay = (IsNull_blob best \<and> length old_heads = 2)
        in if replay \<and> old_heads ! 0 \<noteq> hashBlockIn then None
           else
             let old_tip = (if replay then old_heads ! 1 else best);
                 (db, batch) = db_batch_loop write full db
                   [(KeyBestBlock, None), (KeyHeadBlocks, Some (ValHashes [hashBlockIn, old_tip]))] mapCoins
             in Some (write db (batch @ [(KeyHeadBlocks, None), (KeyBestBlock, Some (ValHash hashBlockIn))])))"

text \<open>What the code relies on: a batch is applied in order, and reading sees the last change.\<close>

locale kv_store =
  fixes read :: "'d db_read" and "write" :: "'d db_write"
  assumes read_write: "read (write d b) k = (case map_of (rev b) k of Some v \<Rightarrow> v | None \<Rightarrow> read d k)"

text \<open>A consistent database: coins are unspent and no replay is pending.\<close>

definition db_utxo :: "'d db_read \<Rightarrow> 'd \<Rightarrow> utxo_set" where
  "db_utxo read db p = (case read db (KeyCoin p) of Some (ValCoin c) \<Rightarrow> Some c | _ \<Rightarrow> None)"

definition db_inv :: "'d db_read \<Rightarrow> 'd \<Rightarrow> bool" where
  "db_inv read db \<longleftrightarrow> (\<forall>p c. db_utxo read db p = Some c \<longrightarrow> \<not> IsSpent c) \<and> read db KeyHeadBlocks = None"

text \<open>The coin part of the pending changes laid over the store.\<close>

definition pending :: "'d db_read \<Rightarrow> 'd \<Rightarrow> db_batch \<Rightarrow> utxo_set" where
  "pending read db b p =
     (case (case map_of (rev b) (KeyCoin p) of Some v \<Rightarrow> v | None \<Rightarrow> read db (KeyCoin p)) of
        Some (ValCoin c) \<Rightarrow> Some c | _ \<Rightarrow> None)"

context kv_store
begin

lemma pending_write: "pending read (write db b) [] = pending read db b"
  by (simp add: pending_def fun_eq_iff read_write)

lemma pending_snoc:
  "pending read db (b @ [(KeyCoin p, if IsSpent (coin e) then None else Some (ValCoin (coin e)))]) =
   (pending read db b)(p := coin_opt e)"
  by (auto simp: pending_def fun_eq_iff coin_opt_def)

lemma pending_skip: "\<not> DIRTY e \<Longrightarrow> entry_ok (pending read db b p) e \<Longrightarrow> (pending read db b)(p := coin_opt e) = pending read db b"
  by (simp add: entry_ok_def fun_upd_idem_iff)

lemma db_batch_loop_ok:
  "child_ok (pending read db b) m \<Longrightarrow> db_batch_loop write full db b m = (db', b') \<Longrightarrow>
   pending read db' b' = overlay (pending read db b) m"
proof (induction m arbitrary: db b)
  case (Cons it its)
  obtain p e where it: "it = (p, e)" by force
  define b1 where "b1 = (if DIRTY e then b @ [(KeyCoin p, if IsSpent (coin e) then None else Some (ValCoin (coin e)))] else b)"
  define d2 b2 where "d2 = (if full b1 then write db b1 else db)" and "b2 = (if full b1 then [] else b1)"
  have e: "entry_ok (pending read db b p) e" using Cons.prems(1) by (auto simp: child_ok_def it)
  have p2: "pending read d2 b2 = (pending read db b)(p := coin_opt e)"
    using e by (auto simp: d2_def b2_def b1_def pending_write pending_snoc pending_skip)
  have fr: "p \<notin> fst ` set its" "map_of its p = None" using Cons.prems(1) by (auto simp: child_ok_def it map_of_eq_None_iff)
  have "child_ok (pending read d2 b2) its"
    using Cons.prems(1) fr unfolding child_ok_def p2 by (auto simp: it split: if_splits)
  moreover have "db_batch_loop write full d2 b2 its = (db', b')"
    using Cons.prems(2) by (simp add: it Let_def b1_def d2_def b2_def split: if_splits)
  ultimately have "pending read db' b' = overlay (pending read d2 b2) its" by (rule Cons.IH)
  also have "\<dots> = overlay (pending read db b) (it # its)"
    using fr by (auto simp: overlay_def p2 it fun_eq_iff split: option.splits)
  finally show ?case .
qed simp

lemma pending_utxo: "pending read db [] = db_utxo read db"
  by (simp add: pending_def db_utxo_def fun_eq_iff)

lemma pending_other: "list_all (\<lambda>(k, v). \<forall>p. k \<noteq> KeyCoin p) b' \<Longrightarrow> pending read db (b @ b') = pending read db b"
proof -
  assume "list_all (\<lambda>(k, v). \<forall>p. k \<noteq> KeyCoin p) b'"
  then have "map_of (rev b') (KeyCoin p) = None" for p
    by (fastforce simp: map_of_eq_None_iff list_all_iff)
  then show ?thesis by (simp add: pending_def fun_eq_iff map_add_def)
qed

lemma db_is_view: "coins_view (CCoinsViewDB_GetCoin read) (CCoinsViewDB_BatchWrite read write full) (db_inv read) (db_utxo read)"
proof
  fix s p r s' assume "CCoinsViewDB_GetCoin read s p = (r, s')" "db_inv read s"
  then show "r = db_utxo read s p \<and> db_inv read s' \<and> db_utxo read s' = db_utxo read s"
    by (auto simp: CCoinsViewDB_GetCoin_def db_utxo_def split: option.splits db_value.splits)
next
  fix s p c assume "db_inv read s" "db_utxo read s p = Some c"
  then show "\<not> IsSpent c" by (auto simp: db_inv_def)
next
  fix s m h assume i: "db_inv read s" and m: "child_ok (db_utxo read s) m" and h: "\<not> IsNull_blob h"
  define b0 where "b0 = [(KeyBestBlock, None), (KeyHeadBlocks, Some (ValHashes [h, CCoinsViewDB_GetBestBlock read s]))]"
  obtain d b where db: "db_batch_loop write full s b0 m = (d, b)" by force
  define s' where "s' = write d (b @ [(KeyHeadBlocks, None), (KeyBestBlock, Some (ValHash h))])"
  have "pending read s b0 = db_utxo read s"
    using pending_other [of b0 s "[]"] by (simp add: b0_def pending_utxo)
  then have "pending read d b = overlay (db_utxo read s) m" using db_batch_loop_ok [OF _ db] m by simp
  moreover have "db_utxo read s' = pending read d b"
    using pending_other [of "[(KeyHeadBlocks, None), (KeyBestBlock, Some (ValHash h))]" d b]
    by (simp add: s'_def pending_utxo [symmetric] pending_write)
  ultimately have u: "db_utxo read s' = overlay (db_utxo read s) m" by simp
  have "CCoinsViewDB_BatchWrite read write full s m h = Some s'"
    using i h db by (simp add: CCoinsViewDB_BatchWrite_def CCoinsViewDB_GetHeadBlocks_def db_inv_def b0_def s'_def Let_def)
  moreover have "db_inv read s'"
  proof -
    have "read s' KeyHeadBlocks = None" by (simp add: s'_def read_write)
    then show ?thesis using i unfolding db_inv_def u
      by (auto simp: overlay_def coin_opt_def split: option.splits if_splits)
  qed
  ultimately show "\<exists>s'. CCoinsViewDB_BatchWrite read write full s m h = Some s' \<and> db_inv read s' \<and>
      db_utxo read s' = overlay (db_utxo read s) m" using u by blast
qed

end

text \<open>A store kept in memory as a function, and the views over it.\<close>

definition mem_read :: "(db_key \<Rightarrow> db_value option) db_read" where
  "mem_read d k = d k"

definition mem_write :: "(db_key \<Rightarrow> db_value option) db_write" where
  "mem_write d b = fold (\<lambda>(k, v) d. d(k := v)) b d"

interpretation mem: kv_store mem_read mem_write
proof
  fix d b k show "mem_read (mem_write d b) k = (case map_of (rev b) k of Some v \<Rightarrow> v | None \<Rightarrow> mem_read d k)"
  proof (induction b rule: rev_induct)
    case (snoc x b)
    then show ?case by (cases x) (auto simp: mem_read_def mem_write_def)
  qed (simp add: mem_read_def mem_write_def)
qed

interpretation mem_db: coins_view "CCoinsViewDB_GetCoin mem_read" "CCoinsViewDB_BatchWrite mem_read mem_write (\<lambda>b. length b > 3)"
    "db_inv mem_read" "db_utxo mem_read"
  by (rule mem.db_is_view)

interpretation mem_cache: coins_view "GetCoin (CCoinsViewDB_GetCoin mem_read)" BatchWrite
    "cache_inv (db_inv mem_read) (db_utxo mem_read)" "cache_utxo (db_utxo mem_read)"
  by (rule mem_db.cache_is_view)

text \<open>A database with one coin.\<close>

definition demo_point :: COutPoint where
  "demo_point = \<lparr>op_hash = [7], op_n = 0\<rparr>"

definition demo_coin :: Coin where
  "demo_coin = \<lparr>out = \<lparr>nValue = 50, scriptPubKey = [0x51]\<rparr>, fCoinBase = False, coin_nHeight = 1\<rparr>"

definition demo_db :: "db_key \<Rightarrow> db_value option" where
  "demo_db = [KeyCoin demo_point \<mapsto> ValCoin demo_coin]"

lemma demo_db_view:
  "db_inv mem_read demo_db" "db_utxo mem_read demo_db = [demo_point \<mapsto> demo_coin]"
proof -
  show u: "db_utxo mem_read demo_db = [demo_point \<mapsto> demo_coin]"
    by (auto simp: db_utxo_def mem_read_def demo_db_def fun_eq_iff)
  show "db_inv mem_read demo_db"
    unfolding db_inv_def u by (auto simp: mem_read_def demo_db_def demo_coin_def IsSpent_def TxOut_IsNull_def split: if_splits)
qed

lemma cache_ctor_view:
  "vinv b \<Longrightarrow> cache_inv vinv utxo (CCoinsViewCache_ctor b)" "cache_utxo utxo (CCoinsViewCache_ctor b) = utxo b"
  by (simp_all add: cache_inv_def cache_utxo_def CCoinsViewCache_ctor_def)

section \<open>Properties\<close>

text \<open>
  C14: A cache implements the set of unspent outputs it stands for. Over any view that keeps its
  contract, \<open>GetCoin\<close>, \<open>HaveCoin\<close> and \<open>AccessCoin\<close> answer from the set and change nothing, \<open>Uncache\<close>
  changes nothing either, \<open>SpendCoin\<close> removes the output and returns it, or the entry of the cache when
  the set has none; \<open>AddCoin\<close> adds a coin (none for an unspendable script) provided that the caller
  asks for overwriting when the set may have one already, and refuses a spent coin or a coin that the
  cache has unless it may overwrite. All of them keep the invariant of the flags.
\<close>
theorem CCoinsViewCache_refines_set:
  assumes "coins_view get batch vinv utxo" and "cache_inv vinv utxo c"
  shows "(\<exists>c'. GetCoin get c p = (cache_utxo utxo c p, c') \<and> same_outputs vinv utxo c c') \<and>
    (\<exists>c'. HaveCoin get c p = (cache_utxo utxo c p \<noteq> None, c') \<and> same_outputs vinv utxo c c') \<and>
    (\<exists>x c'. AccessCoin get c p = (x, c') \<and> (if IsSpent x then None else Some x) = cache_utxo utxo c p \<and> same_outputs vinv utxo c c') \<and>
    same_outputs vinv utxo c (Uncache c p) \<and>
    (\<exists>c'. SpendCoin get c p =
         (if cache_utxo utxo c p \<noteq> None then cache_utxo utxo c p else map_option coin (map_of (cacheCoins c) p), c') \<and>
       cache_inv vinv utxo c' \<and> cache_utxo utxo c' = (cache_utxo utxo c)(p := None)) \<and>
    (\<not> IsSpent new \<and> (overwrite \<or> cache_utxo utxo c p = None) \<longrightarrow>
       (\<exists>c'. AddCoin c p new overwrite = Some c' \<and> cache_inv vinv utxo c' \<and>
         cache_utxo utxo c' = (if IsUnspendable (scriptPubKey (out new)) then cache_utxo utxo c else (cache_utxo utxo c)(p \<mapsto> new)))) \<and>
    (IsSpent new \<or> \<not> IsUnspendable (scriptPubKey (out new)) \<and> \<not> overwrite \<and> HaveCoinInCache c p \<longrightarrow> AddCoin c p new overwrite = None)"
proof (intro conjI impI)
  obtain r c' where g: "GetCoin get c p = (r, c')" by force
  show "\<exists>c'. GetCoin get c p = (cache_utxo utxo c p, c') \<and> same_outputs vinv utxo c c'"
    using coins_view.GetCoin_law [OF assms g] g by (auto simp: same_outputs_def)
next
  obtain r c' where g: "HaveCoin get c p = (r, c')" by force
  show "\<exists>c'. HaveCoin get c p = (cache_utxo utxo c p \<noteq> None, c') \<and> same_outputs vinv utxo c c'"
    using coins_view.HaveCoin_law [OF assms g] g by (auto simp: same_outputs_def)
next
  obtain x c' where g: "AccessCoin get c p = (x, c')" by force
  show "\<exists>x c'. AccessCoin get c p = (x, c') \<and> (if IsSpent x then None else Some x) = cache_utxo utxo c p \<and> same_outputs vinv utxo c c'"
    using coins_view.AccessCoin_law [OF assms g] g by (auto simp: same_outputs_def)
next
  show "same_outputs vinv utxo c (Uncache c p)"
    using coins_view.Uncache_law [OF assms] by (simp add: same_outputs_def)
next
  obtain r c' where s: "SpendCoin get c p = (r, c')" by force
  show "\<exists>c'. SpendCoin get c p =
         (if cache_utxo utxo c p \<noteq> None then cache_utxo utxo c p else map_option coin (map_of (cacheCoins c) p), c') \<and>
       cache_inv vinv utxo c' \<and> cache_utxo utxo c' = (cache_utxo utxo c)(p := None)"
    using coins_view.SpendCoin_law [OF assms s] coins_view.SpendCoin_result [OF assms s] s by auto
next
  assume "\<not> IsSpent new \<and> (overwrite \<or> cache_utxo utxo c p = None)"
  then show "\<exists>c'. AddCoin c p new overwrite = Some c' \<and> cache_inv vinv utxo c' \<and>
      cache_utxo utxo c' = (if IsUnspendable (scriptPubKey (out new)) then cache_utxo utxo c else (cache_utxo utxo c)(p \<mapsto> new))"
    using coins_view.AddCoin_law [OF assms, of new overwrite p] by auto
next
  assume "IsSpent new \<or> \<not> IsUnspendable (scriptPubKey (out new)) \<and> \<not> overwrite \<and> HaveCoinInCache c p"
  then show "AddCoin c p new overwrite = None" by (rule coins_view.AddCoin_refused [OF assms(1)])
qed

theorem CCoinsViewCache_refines_set_witness:
  "let get = CCoinsViewDB_GetCoin mem_read; utxo = db_utxo mem_read; c = CCoinsViewCache_ctor demo_db; new = demo_coin\<lparr>coin_nHeight := 2\<rparr> in
   fst (GetCoin get c demo_point) = Some demo_coin \<and> fst (HaveCoin get c demo_point) \<and>
   cache_utxo utxo (Uncache c demo_point) = [demo_point \<mapsto> demo_coin] \<and>
   fst (SpendCoin get c demo_point) = Some demo_coin \<and> cache_utxo utxo (snd (SpendCoin get c demo_point)) demo_point = None \<and>
   cache_utxo utxo (the (AddCoin c demo_point new True)) = [demo_point \<mapsto> new] \<and> AddCoin c demo_point Coin_null True = None"
proof -
  let ?get = "CCoinsViewDB_GetCoin mem_read" and ?c = "CCoinsViewCache_ctor demo_db" and ?new = "demo_coin\<lparr>coin_nHeight := 2\<rparr>"
  have u: "cache_utxo (db_utxo mem_read) ?c = [demo_point \<mapsto> demo_coin]"
    by (simp only: cache_ctor_view demo_db_view)
  have n: "\<not> IsSpent ?new" "\<not> IsUnspendable (scriptPubKey (out ?new))"
    by (simp_all add: demo_coin_def IsSpent_def TxOut_IsNull_def IsUnspendable_def MAX_SCRIPT_SIZE_def)
  note r = CCoinsViewCache_refines_set [OF mem_db.coins_view_axioms cache_ctor_view(1) [of "db_inv mem_read", OF demo_db_view(1)],
      of demo_point, unfolded u same_outputs_def]
  show ?thesis
    unfolding Let_def
  proof (intro conjI)
    show "fst (GetCoin ?get ?c demo_point) = Some demo_coin" "fst (HaveCoin ?get ?c demo_point)"
      "fst (SpendCoin ?get ?c demo_point) = Some demo_coin" "cache_utxo (db_utxo mem_read) (snd (SpendCoin ?get ?c demo_point)) demo_point = None"
      by (rule r [of ?new True, THEN conjE], elim conjE exE, simp)+
    show "cache_utxo (db_utxo mem_read) (Uncache ?c demo_point) = [demo_point \<mapsto> demo_coin]"
      using r [of ?new True] by (elim conjE)
    show "cache_utxo (db_utxo mem_read) (the (AddCoin ?c demo_point ?new True)) = [demo_point \<mapsto> ?new]"
      by (rule r [of ?new True, THEN conjE]) (use n in \<open>elim conjE, simp, elim exE conjE, simp\<close>)
    show "AddCoin ?c demo_point Coin_null True = None"
      by (rule r [of Coin_null True, THEN conjE]) (elim conjE, simp)
  qed
qed

text \<open>
  C15: The contract of a view carries over to every cache on top of it: what \<open>FRESH\<close> and \<open>DIRTY\<close>
  promise is enough for \<open>BatchWrite\<close> of a child to give the parent exactly the outputs of the child,
  without an exception, however many caches are stacked.
\<close>
theorem CCoinsViewCache_is_view:
  assumes "coins_view get batch vinv utxo"
  shows "coins_view (GetCoin get) BatchWrite (cache_inv vinv utxo) (cache_utxo utxo)"
  using assms by (rule coins_view.cache_is_view)

theorem CCoinsViewCache_is_view_witness:
  "coins_view (GetCoin (GetCoin (CCoinsViewDB_GetCoin mem_read))) BatchWrite
     (cache_inv (cache_inv (db_inv mem_read) (db_utxo mem_read)) (cache_utxo (db_utxo mem_read)))
     (cache_utxo (cache_utxo (db_utxo mem_read)))"
  by (rule CCoinsViewCache_is_view [OF mem_cache.coins_view_axioms])

text \<open>
  C16: \<open>Flush\<close> of a cache over a view that keeps its contract succeeds, leaves the cache empty, does
  not change the outputs the cache stands for, and makes them the outputs of the view below.
\<close>
theorem Flush_refines:
  assumes "coins_view get batch vinv utxo" and "cache_inv vinv utxo c" and "\<not> IsNull_blob (hashBlock c)"
  shows "\<exists>c'. Flush batch c = Some c' \<and> cache_inv vinv utxo c' \<and> cacheCoins c' = [] \<and>
    cache_utxo utxo c' = cache_utxo utxo c \<and> utxo (base c') = cache_utxo utxo c"
  using coins_view.Flush_law [OF assms] by blast

theorem Flush_refines_witness:
  "\<exists>c'. Flush (CCoinsViewDB_BatchWrite mem_read mem_write (\<lambda>b. length b > 3))
      (SetBestBlock (CCoinsViewCache_ctor demo_db) [1]) = Some c' \<and>
     db_utxo mem_read (base c') demo_point = Some demo_coin"
proof -
  let ?c = "SetBestBlock (CCoinsViewCache_ctor demo_db) [1]"
  have "cache_inv (db_inv mem_read) (db_utxo mem_read) ?c" "cache_utxo (db_utxo mem_read) ?c = [demo_point \<mapsto> demo_coin]"
    using demo_db_view by (simp_all add: cache_inv_def cache_utxo_def SetBestBlock_def CCoinsViewCache_ctor_def)
  moreover have "\<not> IsNull_blob (hashBlock ?c)" by (simp add: SetBestBlock_def IsNull_blob_def)
  ultimately show ?thesis using Flush_refines [OF mem_db.coins_view_axioms, of ?c] by auto
qed

end
