(* ===== verification/TxVerify.thy ===== *)
theory TxVerify
  imports Coins_View Chain Interpreter Transaction_Codec
begin

text \<open>
  The checks of transactions, \<^verbatim>\<open>consensus/tx_verify.cpp\<close>, with the validation state of
  \<^verbatim>\<open>consensus/validation.h\<close>. A check returns \<open>Inr\<close> when it passes; \<open>Inl\<close> carries the
  rejection it records in the state, or says that an exception or a failed assertion ended it.
\<close>

section \<open>Validation results\<close>

definition REJECT_INVALID :: u8 where "REJECT_INVALID = 0x10"
definition REJECT_OBSOLETE :: u8 where "REJECT_OBSOLETE = 0x11"

record CValidationState =
  nDoS :: int
  chRejectCode :: u8
  strRejectReason :: string
  corruptionPossible :: bool

datatype failure = Rejected CValidationState | Aborted

type_synonym 'a verdict = "failure + 'a"

definition DoS :: "int \<Rightarrow> u8 \<Rightarrow> string \<Rightarrow> bool \<Rightarrow> 'a verdict" where
  "DoS level code reason corruptionIn =
     Inl (Rejected \<lparr>nDoS = level, chRejectCode = code, strRejectReason = reason, corruptionPossible = corruptionIn\<rparr>)"

definition Invalid :: "u8 \<Rightarrow> string \<Rightarrow> 'a verdict" where
  "Invalid code reason = DoS 0 code reason False"

section \<open>Lock times\<close>

definition IsFinalTx :: "Transaction \<Rightarrow> int \<Rightarrow> int \<Rightarrow> bool" where
  "IsFinalTx tx nBlockHeight nBlockTime =
     (let lock = int (unat (nLockTime tx))
      in if nLockTime tx = 0 then True
         else if lock < (if lock < LOCKTIME_THRESHOLD then nBlockHeight else nBlockTime) then True
         else list_all (\<lambda>txin. nSequence txin = SEQUENCE_FINAL) (vin tx))"

text \<open>
  The loop of \<open>CalculateSequenceLocks\<close> over the inputs and the heights of the coins they spend. The
  result holds the locks and the updated heights; \<open>None\<close> is an invalid dereference.
\<close>

fun sequence_loop ::
  "block_store \<Rightarrow> ptr \<Rightarrow> TxIn list \<Rightarrow> int list \<Rightarrow> int \<Rightarrow> int \<Rightarrow> ((int \<times> int) \<times> int list) option" where
  "sequence_loop m block (txin # ins) (nCoinHeight # heights) nMinHeight nMinTime =
     (if nSequence txin AND SEQUENCE_LOCKTIME_DISABLE_FLAG \<noteq> 0
      then map_option (\<lambda>(locks, hs). (locks, 0 # hs)) (sequence_loop m block ins heights nMinHeight nMinTime)
      else if nSequence txin AND SEQUENCE_LOCKTIME_TYPE_FLAG \<noteq> 0
      then (case GetAncestor m block (max (nCoinHeight - 1) 0) of
              Some (Some a) \<Rightarrow>
                (case GetMedianTimePast m a of
                   None \<Rightarrow> None
                 | Some nCoinTime \<Rightarrow>
                     map_option (\<lambda>(locks, hs). (locks, nCoinHeight # hs))
                       (sequence_loop m block ins heights nMinHeight
                          (max nMinTime (nCoinTime + int (unat (push_bit SEQUENCE_LOCKTIME_GRANULARITY
                             (nSequence txin AND SEQUENCE_LOCKTIME_MASK))) - 1))))
            | _ \<Rightarrow> None)
      else map_option (\<lambda>(locks, hs). (locks, nCoinHeight # hs))
             (sequence_loop m block ins heights
                (max nMinHeight (nCoinHeight + int (unat (nSequence txin AND SEQUENCE_LOCKTIME_MASK)) - 1)) nMinTime))"
| "sequence_loop m block ins heights nMinHeight nMinTime = Some ((nMinHeight, nMinTime), heights)"

definition fEnforceBIP68 :: "Transaction \<Rightarrow> u32 \<Rightarrow> bool" where
  "fEnforceBIP68 tx flags \<longleftrightarrow> (word_of_int (tx_nVersion tx) :: u32) \<ge> 2 \<and> flags AND LOCKTIME_VERIFY_SEQUENCE \<noteq> 0"

definition CalculateSequenceLocks ::
  "block_store \<Rightarrow> Transaction \<Rightarrow> u32 \<Rightarrow> int list \<Rightarrow> ptr \<Rightarrow> ((int \<times> int) \<times> int list) option" where
  "CalculateSequenceLocks m tx flags prevHeights block =
     (if length prevHeights \<noteq> length (vin tx) then None
      else if \<not> fEnforceBIP68 tx flags then Some ((- 1, - 1), prevHeights)
      else sequence_loop m block (vin tx) prevHeights (- 1) (- 1))"

definition EvaluateSequenceLocks :: "block_store \<Rightarrow> CBlockIndex \<Rightarrow> int \<times> int \<Rightarrow> bool option" where
  "EvaluateSequenceLocks m block lockPair =
     (case pprev block of
        None \<Rightarrow> None
      | Some q \<Rightarrow> map_option (\<lambda>nBlockTime. \<not> (fst lockPair \<ge> nHeight block \<or> snd lockPair \<ge> nBlockTime))
                   (GetMedianTimePast m q))"

definition SequenceLocks :: "block_store \<Rightarrow> Transaction \<Rightarrow> u32 \<Rightarrow> int list \<Rightarrow> ptr \<Rightarrow> bool option" where
  "SequenceLocks m tx flags prevHeights block =
     (case (CalculateSequenceLocks m tx flags prevHeights block, m block) of
        (Some (lockPair, hs), Some bi) \<Rightarrow> EvaluateSequenceLocks m bi lockPair
      | _ \<Rightarrow> None)"

section \<open>Signature operations\<close>

definition GetLegacySigOpCount :: "Transaction \<Rightarrow> nat" where
  "GetLegacySigOpCount tx =
     sum_list (map (\<lambda>txin. GetSigOpCount (scriptSig txin) False) (vin tx)) +
     sum_list (map (\<lambda>txout. GetSigOpCount (scriptPubKey txout) False) (vout tx))"

fun p2sh_sigops :: "'s get_coin \<Rightarrow> TxIn list \<Rightarrow> nat \<Rightarrow> 's CCoinsViewCache \<Rightarrow> nat option \<times> 's CCoinsViewCache" where
  "p2sh_sigops get [] nSigOps inputs = (Some nSigOps, inputs)"
| "p2sh_sigops get (txin # ins) nSigOps inputs =
     (case AccessCoin get inputs (prevout txin) of
        (cn, inputs) \<Rightarrow>
          if IsSpent cn then (None, inputs)
          else p2sh_sigops get ins
                 (if IsPayToScriptHash (scriptPubKey (out cn))
                  then nSigOps + GetSigOpCount_P2SH (scriptPubKey (out cn)) (scriptSig txin) else nSigOps) inputs)"

definition GetP2SHSigOpCount :: "'s get_coin \<Rightarrow> Transaction \<Rightarrow> 's CCoinsViewCache \<Rightarrow> nat option \<times> 's CCoinsViewCache" where
  "GetP2SHSigOpCount get tx inputs = (if IsCoinBase tx then (Some 0, inputs) else p2sh_sigops get (vin tx) 0 inputs)"

fun witness_sigops ::
  "'s get_coin \<Rightarrow> u32 \<Rightarrow> TxIn list \<Rightarrow> nat \<Rightarrow> 's CCoinsViewCache \<Rightarrow> nat option \<times> 's CCoinsViewCache" where
  "witness_sigops get flags [] nSigOps inputs = (Some nSigOps, inputs)"
| "witness_sigops get flags (txin # ins) nSigOps inputs =
     (case AccessCoin get inputs (prevout txin) of
        (cn, inputs) \<Rightarrow>
          if IsSpent cn then (None, inputs)
          else (case CountWitnessSigOps (scriptSig txin) (scriptPubKey (out cn)) (scriptWitness txin) flags of
                  None \<Rightarrow> (None, inputs)
                | Some n \<Rightarrow> witness_sigops get flags ins (nSigOps + n) inputs))"

definition GetTransactionSigOpCost ::
  "'s get_coin \<Rightarrow> Transaction \<Rightarrow> 's CCoinsViewCache \<Rightarrow> u32 \<Rightarrow> nat option \<times> 's CCoinsViewCache" where
  "GetTransactionSigOpCost get tx inputs flags =
     (let nSigOps = GetLegacySigOpCount tx * WITNESS_SCALE_FACTOR
      in if IsCoinBase tx then (Some nSigOps, inputs)
         else
           (case (if has_flag flags SCRIPT_VERIFY_P2SH then GetP2SHSigOpCount get tx inputs else (Some 0, inputs)) of
              (None, inputs) \<Rightarrow> (None, inputs)
            | (Some p2sh, inputs) \<Rightarrow> witness_sigops get flags (vin tx) (nSigOps + p2sh * WITNESS_SCALE_FACTOR) inputs))"

section \<open>Checks\<close>

fun check_outputs :: "CAmount \<Rightarrow> TxOut list \<Rightarrow> unit verdict" where
  "check_outputs nValueOut [] = Inr ()"
| "check_outputs nValueOut (txout # outs) =
     (if nValue txout < 0 then DoS 100 REJECT_INVALID ''bad-txns-vout-negative'' False
      else if nValue txout > MAX_MONEY then DoS 100 REJECT_INVALID ''bad-txns-vout-toolarge'' False
      else
        let nValueOut = nValueOut + nValue txout
        in if \<not> MoneyRange nValueOut then DoS 100 REJECT_INVALID ''bad-txns-txouttotal-toolarge'' False
           else check_outputs nValueOut outs)"

fun has_duplicate :: "COutPoint list \<Rightarrow> TxIn list \<Rightarrow> bool" where
  "has_duplicate vInOutPoints [] = False"
| "has_duplicate vInOutPoints (txin # ins) =
     (prevout txin \<in> set vInOutPoints \<or> has_duplicate (prevout txin # vInOutPoints) ins)"

definition CheckTransaction :: "Transaction \<Rightarrow> bool \<Rightarrow> unit verdict" where
  "CheckTransaction tx fCheckDuplicateInputs =
     (if vin tx = [] then DoS 10 REJECT_INVALID ''bad-txns-vin-empty'' False
      else if vout tx = [] then DoS 10 REJECT_INVALID ''bad-txns-vout-empty'' False
      else if length (SerializeSegwitTx (PROTOCOL_VERSION OR SERIALIZE_TRANSACTION_NO_WITNESS) tx) * WITNESS_SCALE_FACTOR
                > MAX_BLOCK_WEIGHT
      then DoS 100 REJECT_INVALID ''bad-txns-oversize'' False
      else
        (case check_outputs 0 (vout tx) of
           Inl e \<Rightarrow> Inl e
         | Inr _ \<Rightarrow>
             if fCheckDuplicateInputs \<and> has_duplicate [] (vin tx)
             then DoS 100 REJECT_INVALID ''bad-txns-inputs-duplicate'' False
             else if IsCoinBase tx
             then (if length (scriptSig (vin tx ! 0)) < 2 \<or> length (scriptSig (vin tx ! 0)) > 100
                   then DoS 100 REJECT_INVALID ''bad-cb-length'' False else Inr ())
             else if list_ex (\<lambda>txin. COutPoint_IsNull (prevout txin)) (vin tx)
             then DoS 10 REJECT_INVALID ''bad-txns-prevout-null'' False
             else Inr ()))"

fun check_input_values ::
  "'s get_coin \<Rightarrow> int \<Rightarrow> CAmount \<Rightarrow> TxIn list \<Rightarrow> 's CCoinsViewCache \<Rightarrow> CAmount verdict \<times> 's CCoinsViewCache" where
  "check_input_values get nSpendHeight nValueIn [] inputs = (Inr nValueIn, inputs)"
| "check_input_values get nSpendHeight nValueIn (txin # ins) inputs =
     (case AccessCoin get inputs (prevout txin) of
        (cn, inputs) \<Rightarrow>
          if IsSpent cn then (Inl Aborted, inputs)
          else if fCoinBase cn \<and> nSpendHeight - int (coin_nHeight cn) < COINBASE_MATURITY
          then (Invalid REJECT_INVALID ''bad-txns-premature-spend-of-coinbase'', inputs)
          else
            let nValueIn = nValueIn + nValue (out cn)
            in if \<not> MoneyRange (nValue (out cn)) \<or> \<not> MoneyRange nValueIn
               then (DoS 100 REJECT_INVALID ''bad-txns-inputvalues-outofrange'' False, inputs)
               else check_input_values get nSpendHeight nValueIn ins inputs)"

text \<open>The result of a passed check is the fee, \<open>txfee\<close>.\<close>

definition CheckTxInputs ::
  "'s get_coin \<Rightarrow> Transaction \<Rightarrow> 's CCoinsViewCache \<Rightarrow> int \<Rightarrow> CAmount verdict \<times> 's CCoinsViewCache" where
  "CheckTxInputs get tx inputs nSpendHeight =
     (case HaveInputs get inputs tx of
        (False, inputs) \<Rightarrow> (DoS 100 REJECT_INVALID ''bad-txns-inputs-missingorspent'' False, inputs)
      | (True, inputs) \<Rightarrow>
          (case check_input_values get nSpendHeight 0 (vin tx) inputs of
             (Inl e, inputs) \<Rightarrow> (Inl e, inputs)
           | (Inr nValueIn, inputs) \<Rightarrow>
               (case GetValueOut tx of
                  None \<Rightarrow> (Inl Aborted, inputs)
                | Some value_out \<Rightarrow>
                    if nValueIn < value_out then (DoS 100 REJECT_INVALID ''bad-txns-in-belowout'' False, inputs)
                    else if \<not> MoneyRange (nValueIn - value_out)
                    then (DoS 100 REJECT_INVALID ''bad-txns-fee-outofrange'' False, inputs)
                    else (Inr (nValueIn - value_out), inputs))))"

section \<open>Spending\<close>

text \<open>\<open>UpdateCoins\<close> of \<^verbatim>\<open>validation.cpp\<close>; the result holds the undo data. \<open>None\<close> is a failed
  assertion or an exception.\<close>

fun spend_inputs :: "'s get_coin \<Rightarrow> TxIn list \<Rightarrow> 's CCoinsViewCache \<Rightarrow> (Coin list \<times> 's CCoinsViewCache) option" where
  "spend_inputs get [] inputs = Some ([], inputs)"
| "spend_inputs get (txin # ins) inputs =
     (case SpendCoin get inputs (prevout txin) of
        (None, inputs) \<Rightarrow> None
      | (Some undo, inputs) \<Rightarrow> map_option (\<lambda>(undos, inputs). (undo # undos, inputs)) (spend_inputs get ins inputs))"

definition UpdateCoins :: "'s get_coin \<Rightarrow> Transaction \<Rightarrow> 's CCoinsViewCache \<Rightarrow> nat \<Rightarrow> (Coin list \<times> 's CCoinsViewCache) option" where
  "UpdateCoins get tx inputs height =
     (case (if \<not> IsCoinBase tx then spend_inputs get (vin tx) inputs else Some ([], inputs)) of
        None \<Rightarrow> None
      | Some (undos, inputs) \<Rightarrow> map_option (\<lambda>inputs. (undos, inputs)) (AddCoins get inputs tx height False))"

end
