(* ===== verification/TxVerify_Props.thy ===== *)
theory TxVerify_Props
  imports TxVerify
begin

text \<open>
  What the checks of transactions guarantee for the set of unspent outputs: the total value never
  grows when duplicate inputs are refused, and it can grow when they are not.
\<close>

section \<open>The checks and the update on sets of outputs\<close>

definition in_value :: "utxo_set \<Rightarrow> TxIn \<Rightarrow> CAmount" where
  "in_value u txin = (case u (prevout txin) of None \<Rightarrow> 0 | Some c \<Rightarrow> nValue (out c))"

text \<open>The outputs of a transaction from index \<open>i\<close> on, added to a set; unspendable ones are dropped.\<close>

fun add_outputs :: "uint256 \<Rightarrow> bool \<Rightarrow> nat \<Rightarrow> nat \<Rightarrow> TxOut list \<Rightarrow> utxo_set \<Rightarrow> utxo_set" where
  "add_outputs txid cb height i [] u = u"
| "add_outputs txid cb height i (txout # outs) u =
     add_outputs txid cb height (i + 1) outs
       (if IsUnspendable (scriptPubKey txout) then u
        else u(\<lparr>op_hash = txid, op_n = of_nat i\<rparr> \<mapsto> \<lparr>out = txout, fCoinBase = cb, coin_nHeight = height\<rparr>))"

context coins_view
begin

lemma HaveInputs_loop_law:
  "cinv c \<Longrightarrow> HaveInputs_loop get ins c = (r, c') \<Longrightarrow>
   (r \<longleftrightarrow> (\<forall>txin \<in> set ins. cutxo c (prevout txin) \<noteq> None)) \<and> cinv c' \<and> cutxo c' = cutxo c"
proof (induction ins arbitrary: c)
  case (Cons txin ins)
  obtain h c1 where h: "HaveCoin get c (prevout txin) = (h, c1)" by force
  show ?case using HaveCoin_law [OF Cons.prems(1) h] Cons.IH [of c1] Cons.prems(2) h
    by (auto split: if_splits)
qed simp

lemma HaveInputs_law:
  "cinv c \<Longrightarrow> HaveInputs get c tx = (r, c') \<Longrightarrow>
   (r \<longleftrightarrow> IsCoinBase tx \<or> (\<forall>txin \<in> set (vin tx). cutxo c (prevout txin) \<noteq> None)) \<and> cinv c' \<and> cutxo c' = cutxo c"
  using HaveInputs_loop_law [of c "vin tx" r c'] by (auto simp: HaveInputs_def split: if_splits)

lemma check_input_values_law:
  "cinv c \<Longrightarrow> check_input_values get h v ins c = (r, c') \<Longrightarrow>
   cinv c' \<and> cutxo c' = cutxo c \<and>
   (case r of Inl _ \<Rightarrow> True
    | Inr w \<Rightarrow> (\<forall>txin \<in> set ins. cutxo c (prevout txin) \<noteq> None) \<and> w = v + sum_list (map (in_value (cutxo c)) ins))"
proof (induction ins arbitrary: c v)
  case (Cons txin ins)
  obtain x c1 where x: "AccessCoin get c (prevout txin) = (x, c1)" by force
  note l = AccessCoin_law [OF Cons.prems(1) x]
  show ?case
  proof (cases "IsSpent x")
    case True
    then show ?thesis using l Cons.prems(2) x by auto
  next
    case False
    then have u: "cutxo c (prevout txin) = Some x" using l by simp
    show ?thesis using l False Cons.prems(2) x Cons.IH [of c1 "v + nValue (out x)"] u
      by (auto simp: Let_def Invalid_def DoS_def in_value_def split: if_splits sum.splits)
  qed
qed auto

lemma spend_inputs_law:
  "cinv c \<Longrightarrow> distinct (map prevout ins) \<Longrightarrow> \<forall>txin \<in> set ins. cutxo c (prevout txin) \<noteq> None \<Longrightarrow>
   \<exists>c'. spend_inputs get ins c = Some (map (\<lambda>txin. the (cutxo c (prevout txin))) ins, c') \<and> cinv c' \<and>
     cutxo c' = (\<lambda>p. if p \<in> prevout ` set ins then None else cutxo c p)"
proof (induction ins arbitrary: c)
  case (Cons txin ins)
  obtain r c1 where r: "SpendCoin get c (prevout txin) = (r, c1)" by force
  note l = SpendCoin_law [OF Cons.prems(1) r]
  obtain x where x: "r = Some x" "cutxo c (prevout txin) = Some x"
    using l Cons.prems(3) by (auto split: option.splits if_splits)
  have ne: "prevout t \<noteq> prevout txin" if "t \<in> set ins" for t
  proof -
    have "prevout txin \<notin> prevout ` set ins" using Cons.prems(2) by simp
    then show ?thesis using that by (metis imageI)
  qed
  have "\<forall>t \<in> set ins. cutxo c1 (prevout t) \<noteq> None" "map (\<lambda>t. the (cutxo c1 (prevout t))) ins = map (\<lambda>t. the (cutxo c (prevout t))) ins"
    using Cons.prems(2,3) l ne by auto
  then obtain c' where c': "spend_inputs get ins c1 = Some (map (\<lambda>t. the (cutxo c (prevout t))) ins, c')" "cinv c'"
      "cutxo c' = (\<lambda>p. if p \<in> prevout ` set ins then None else cutxo c1 p)"
    using Cons.IH [of c1] Cons.prems(2) l by auto
  then show ?case using r x l by (auto simp: fun_eq_iff)
qed auto

lemma AddCoins_loop_law:
  "cinv c \<Longrightarrow> list_all (\<lambda>o'. \<not> TxOut_IsNull o') outs \<Longrightarrow> i + length outs \<le> 2 ^ 32 \<Longrightarrow>
   (\<And>j. \<not> cb \<Longrightarrow> i \<le> j \<Longrightarrow> j < i + length outs \<Longrightarrow> cutxo c \<lparr>op_hash = txid, op_n = of_nat j\<rparr> = None) \<Longrightarrow>
   \<exists>c'. AddCoins_loop get False cb txid h i outs c = Some c' \<and> cinv c' \<and> cutxo c' = add_outputs txid cb h i outs (cutxo c)"
proof (induction outs arbitrary: c i)
  case (Cons t outs)
  let ?p = "\<lparr>op_hash = txid, op_n = of_nat i\<rparr>" and ?n = "\<lparr>out = t, fCoinBase = cb, coin_nHeight = h\<rparr>"
  have "\<not> IsSpent ?n" using Cons.prems(2) by (simp add: IsSpent_def)
  then obtain c1 where c1: "AddCoin c ?p ?n cb = Some c1" "cinv c1"
      "cutxo c1 = (if IsUnspendable (scriptPubKey t) then cutxo c else (cutxo c)(?p \<mapsto> ?n))"
    using AddCoin_law [OF Cons.prems(1), of ?n cb ?p] Cons.prems(4) [of i] by auto
  have ne: "(of_nat j :: u32) \<noteq> of_nat i" if "i < j" "j < i + Suc (length outs)" for j
  proof -
    have "j < 2 ^ 32" "i < 2 ^ 32" using that Cons.prems(3) by simp_all
    then have "unat (of_nat j :: u32) = j" "unat (of_nat i :: u32) = i" by (simp_all add: unat_of_nat)
    then show ?thesis using that(1) by auto
  qed
  have "\<not> cb \<Longrightarrow> i + 1 \<le> j \<Longrightarrow> j < i + 1 + length outs \<Longrightarrow> cutxo c1 \<lparr>op_hash = txid, op_n = of_nat j\<rparr> = None" for j
    using Cons.prems(4) [of j] ne [of j] by (auto simp: c1(3))
  then obtain c' where "AddCoins_loop get False cb txid h (i + 1) outs c1 = Some c'" "cinv c'"
      "cutxo c' = add_outputs txid cb h (i + 1) outs (cutxo c1)"
    using Cons.IH [OF c1(2), of "i + 1"] Cons.prems(2,3) by auto
  then show ?case using c1 by (auto simp: Let_def)
qed simp

end

section \<open>Value\<close>

definition utxo_value :: "utxo_set \<Rightarrow> CAmount" where
  "utxo_value u = (\<Sum>p \<in> dom u. nValue (out (the (u p))))"

definition spendable_value :: "TxOut list \<Rightarrow> CAmount" where
  "spendable_value outs = sum_list (map (\<lambda>t. if IsUnspendable (scriptPubKey t) then 0 else nValue t) outs)"

lemma utxo_value_remove:
  assumes "finite (dom u)" and "S \<subseteq> dom u"
  shows "utxo_value (\<lambda>p. if p \<in> S then None else u p) = utxo_value u - (\<Sum>p \<in> S. nValue (out (the (u p))))"
proof -
  have d: "dom (\<lambda>p. if p \<in> S then None else u p) = dom u - S" by (auto split: if_splits)
  have "utxo_value (\<lambda>p. if p \<in> S then None else u p) = (\<Sum>p \<in> dom u - S. nValue (out (the (u p))))"
    unfolding utxo_value_def d by (rule sum.cong) auto
  then show ?thesis using sum_diff [OF assms, of "\<lambda>p. nValue (out (the (u p)))"] by (simp add: utxo_value_def)
qed

lemma utxo_value_add:
  assumes "finite (dom u)" and "u p = None"
  shows "utxo_value (u(p \<mapsto> x)) = utxo_value u + nValue (out x)"
proof -
  have "p \<notin> dom u" using assms(2) by auto
  moreover have "(\<Sum>q \<in> dom u. nValue (out (the ((u(p \<mapsto> x)) q)))) = (\<Sum>q \<in> dom u. nValue (out (the (u q))))"
    by (rule sum.cong) (use \<open>p \<notin> dom u\<close> in auto)
  ultimately show ?thesis using assms(1) by (simp add: utxo_value_def)
qed

lemma of_nat_u32_inj: "i < 2 ^ 32 \<Longrightarrow> j < 2 ^ 32 \<Longrightarrow> (of_nat i :: u32) = of_nat j \<longleftrightarrow> i = j"
proof -
  assume "i < 2 ^ 32" "j < 2 ^ 32"
  then have "unat (of_nat i :: u32) = i" "unat (of_nat j :: u32) = j" by (simp_all add: unat_of_nat)
  then show ?thesis by metis
qed

lemma add_outputs_value:
  "finite (dom u) \<Longrightarrow> i + length outs \<le> 2 ^ 32 \<Longrightarrow>
   (\<And>j. i \<le> j \<Longrightarrow> j < i + length outs \<Longrightarrow> u \<lparr>op_hash = txid, op_n = of_nat j\<rparr> = None) \<Longrightarrow>
   finite (dom (add_outputs txid cb h i outs u)) \<and>
   utxo_value (add_outputs txid cb h i outs u) = utxo_value u + spendable_value outs"
proof (induction outs arbitrary: i u)
  case (Cons t outs)
  define u1 where "u1 = (if IsUnspendable (scriptPubKey t) then u
    else u(\<lparr>op_hash = txid, op_n = of_nat i\<rparr> \<mapsto> \<lparr>out = t, fCoinBase = cb, coin_nHeight = h\<rparr>))"
  have "finite (dom u1)" using Cons.prems(1) by (simp add: u1_def)
  moreover have "u1 \<lparr>op_hash = txid, op_n = of_nat j\<rparr> = None" if "i + 1 \<le> j" "j < i + 1 + length outs" for j
    using Cons.prems(2) Cons.prems(3) [of j] that of_nat_u32_inj [of j i] by (auto simp: u1_def)
  moreover have "utxo_value u1 = utxo_value u + (if IsUnspendable (scriptPubKey t) then 0 else nValue t)"
    using utxo_value_add [OF Cons.prems(1) Cons.prems(3) [of i]] by (simp add: u1_def)
  ultimately show ?case using Cons.IH [of u1 "i + 1"] Cons.prems(2)
    by (simp add: u1_def [symmetric] spendable_value_def)
qed (simp add: spendable_value_def)

section \<open>What the checks guarantee\<close>

lemma check_outputs_Inr:
  "check_outputs v outs = Inr () \<Longrightarrow> 0 \<le> v \<Longrightarrow>
   list_all (\<lambda>t. MoneyRange (nValue t)) outs \<and> GetValueOut_loop v outs = Some (v + sum_list (map nValue outs))"
  by (induction v outs rule: check_outputs.induct)
    (auto simp: DoS_def Let_def MoneyRange_def not_less split: if_splits)

lemma has_duplicate_iff: "has_duplicate seen ins \<longleftrightarrow> \<not> (distinct (map prevout ins) \<and> set seen \<inter> prevout ` set ins = {})"
  by (induction ins arbitrary: seen) auto

lemma ser_txout_ge: "1 \<le> length (ser_txout t)"
  by (simp add: ser_txout_def ser_int64_def ser_writedata64_def)

lemma outputs_le_size: "length (vout tx) \<le> length (SerializeTransaction tx)"
proof -
  have "length outs \<le> length (concat (map ser_txout outs))" for outs
  proof (induction outs)
    case (Cons t outs)
    then show ?case using ser_txout_ge [of t] by simp
  qed simp
  from this [of "vout tx"] show ?thesis by (simp add: SerializeTransaction_def ser_vector_def)
qed

lemma no_witness_version: "\<not> fAllowWitness (PROTOCOL_VERSION OR SERIALIZE_TRANSACTION_NO_WITNESS)"
  by code_simp

lemma CheckTransaction_InrD:
  assumes "CheckTransaction tx dup = Inr ()"
  shows "vin tx \<noteq> []" "list_all (\<lambda>t. MoneyRange (nValue t)) (vout tx)" "length (vout tx) \<le> 1000000"
    "GetValueOut tx = Some (sum_list (map nValue (vout tx)))" "dup \<Longrightarrow> distinct (map prevout (vin tx))"
proof -
  note d = assms [unfolded CheckTransaction_def DoS_def]
  have o: "check_outputs 0 (vout tx) = Inr ()" using d by (auto split: if_splits sum.splits)
  show "vin tx \<noteq> []" using d by (auto split: if_splits)
  show "list_all (\<lambda>t. MoneyRange (nValue t)) (vout tx)" "GetValueOut tx = Some (sum_list (map nValue (vout tx)))"
    using check_outputs_Inr [OF o] by (simp_all add: GetValueOut_def)
  have "length (SerializeTransaction tx) * 4 \<le> 4000000"
    using d by (auto simp: SerializeSegwitTx_no_witness [OF no_witness_version] WITNESS_SCALE_FACTOR_def MAX_BLOCK_WEIGHT_def
        split: if_splits)
  then show "length (vout tx) \<le> 1000000" using outputs_le_size [of tx] by linarith
  show "dup \<Longrightarrow> distinct (map prevout (vin tx))" using d o by (auto simp: has_duplicate_iff split: if_splits)
qed

section \<open>Conservation of value\<close>

context coins_view
begin

lemma CheckTxInputs_law:
  assumes c: "cinv c" and r: "CheckTxInputs get tx c h = (Inr fee, c')" and nb: "\<not> IsCoinBase tx"
  shows "cinv c' \<and> cutxo c' = cutxo c \<and> (\<forall>txin \<in> set (vin tx). cutxo c (prevout txin) \<noteq> None) \<and>
    (\<exists>value_out. GetValueOut tx = Some value_out \<and> fee = sum_list (map (in_value (cutxo c)) (vin tx)) - value_out) \<and>
    MoneyRange fee"
proof -
  obtain hv c1 where hv: "HaveInputs get c tx = (hv, c1)" by force
  note h1 = HaveInputs_law [OF c hv]
  have hv_True: hv using r hv by (cases hv) (simp_all add: CheckTxInputs_def DoS_def)
  obtain w c2 where w: "check_input_values get h 0 (vin tx) c1 = (w, c2)" by force
  have c1: "cinv c1" using h1 by simp
  note h2 = check_input_values_law [OF c1 w]
  obtain v where v: "w = Inr v" using r hv hv_True w by (cases w) (simp_all add: CheckTxInputs_def)
  obtain vo where vo: "GetValueOut tx = Some vo" using r hv hv_True w v by (cases "GetValueOut tx") (simp_all add: CheckTxInputs_def)
  have "fee = v - vo" "c' = c2" "MoneyRange fee"
    using r hv hv_True w v vo by (auto simp: CheckTxInputs_def DoS_def split: if_splits)
  then show ?thesis using h1 h2 v vo by auto
qed

lemma UpdateCoins_law:
  assumes c: "cinv c" and ok: "CheckTransaction tx True = Inr ()" and nb: "\<not> IsCoinBase tx"
    and present: "\<forall>txin \<in> set (vin tx). cutxo c (prevout txin) \<noteq> None"
    and new: "\<And>n. cutxo c \<lparr>op_hash = ComputeHash tx, op_n = n\<rparr> = None"
  shows "\<exists>c'. UpdateCoins get tx c height = Some (map (\<lambda>txin. the (cutxo c (prevout txin))) (vin tx), c') \<and> cinv c' \<and>
    cutxo c' = add_outputs (ComputeHash tx) False height 0 (vout tx)
      (\<lambda>p. if p \<in> prevout ` set (vin tx) then None else cutxo c p)"
proof -
  note t = CheckTransaction_InrD [OF ok]
  obtain c1 where c1: "spend_inputs get (vin tx) c = Some (map (\<lambda>txin. the (cutxo c (prevout txin))) (vin tx), c1)"
      "cinv c1" "cutxo c1 = (\<lambda>p. if p \<in> prevout ` set (vin tx) then None else cutxo c p)"
    using spend_inputs_law [OF c t(5) [OF TrueI] present] by blast
  have nn: "list_all (\<lambda>o'. \<not> TxOut_IsNull o') (vout tx)"
    using t(2) by (auto simp: list_all_iff MoneyRange_def TxOut_IsNull_def)
  have len: "0 + length (vout tx) \<le> 2 ^ 32" using t(3) by simp
  have fresh: "cutxo c1 \<lparr>op_hash = ComputeHash tx, op_n = of_nat j\<rparr> = None" for j using new by (simp add: c1(3))
  obtain c2 where "AddCoins_loop get False False (ComputeHash tx) height 0 (vout tx) c1 = Some c2" "cinv c2"
      "cutxo c2 = add_outputs (ComputeHash tx) False height 0 (vout tx) (cutxo c1)"
    using AddCoins_loop_law [OF c1(2) nn len fresh, of False height] by blast
  then show ?thesis using c1 nb by (simp add: UpdateCoins_def AddCoins_def)
qed

lemma UpdateCoins_value:
  assumes c: "cinv c" and fin: "finite (dom (cutxo c))" and ok: "CheckTransaction tx True = Inr ()" and nb: "\<not> IsCoinBase tx"
    and r: "CheckTxInputs get tx c h = (Inr fee, c1)"
    and new: "\<And>n. cutxo c \<lparr>op_hash = ComputeHash tx, op_n = n\<rparr> = None"
  shows "\<exists>undo c2. UpdateCoins get tx c1 height = Some (undo, c2) \<and> cinv c2 \<and> finite (dom (cutxo c2)) \<and>
    utxo_value (cutxo c2) = utxo_value (cutxo c) - fee - (sum_list (map nValue (vout tx)) - spendable_value (vout tx))"
proof -
  note t = CheckTransaction_InrD [OF ok] and l = CheckTxInputs_law [OF c r nb]
  let ?S = "prevout ` set (vin tx)" and ?u = "cutxo c"
  let ?rest = "\<lambda>p. if p \<in> ?S then None else ?u p"
  obtain c2 where c2: "UpdateCoins get tx c1 height = Some (map (\<lambda>txin. the (?u (prevout txin))) (vin tx), c2)" "cinv c2"
      "cutxo c2 = add_outputs (ComputeHash tx) False height 0 (vout tx) ?rest"
  proof -
    have eq: "cutxo c1 = ?u" and inv1: "cinv c1" and pr: "\<forall>txin \<in> set (vin tx). cutxo c1 (prevout txin) \<noteq> None"
      using l by auto
    have n1: "cutxo c1 \<lparr>op_hash = ComputeHash tx, op_n = n\<rparr> = None" for n unfolding eq by (rule new)
    show thesis using UpdateCoins_law [OF inv1 ok nb pr n1, of height] that unfolding eq by blast
  qed
  have sub: "?S \<subseteq> dom ?u" using l by auto
  have "finite (dom ?rest)" using fin by (rule finite_subset [rotated]) (auto split: if_splits)
  then have fin2: "finite (dom (cutxo c2))" and
      v: "utxo_value (cutxo c2) = utxo_value ?rest + spendable_value (vout tx)"
    using add_outputs_value [of ?rest 0 "vout tx" "ComputeHash tx" False height] t(3) new by (auto simp: c2(3))
  have "sum_list (map (in_value ?u) (vin tx)) = (\<Sum>p \<in> ?S. nValue (out (the (?u p))))"
  proof -
    have "map (in_value ?u) (vin tx) = map (\<lambda>p. nValue (out (the (?u p)))) (map prevout (vin tx))"
      using l by (auto simp: in_value_def)
    then show ?thesis using t(5) [OF TrueI] by (simp only: sum_list_distinct_conv_sum_set set_map)
  qed
  then have "utxo_value ?rest = utxo_value ?u - sum_list (map (in_value ?u) (vin tx))"
    using utxo_value_remove [OF fin sub] by simp
  then show ?thesis using c2 v fin2 l t(4) by auto
qed

end

text \<open>
  C17: No transaction creates money. When a transaction other than a coinbase passes
  \<open>CheckTransaction\<close> with the test for duplicate inputs and \<open>CheckTxInputs\<close> on a cache over any
  view, and no coin of the same transaction is unspent, \<open>UpdateCoins\<close> succeeds, keeps the invariant
  of the cache, and lowers the total value of the unspent outputs by the fee and the value of the
  unspendable outputs.
\<close>
theorem UpdateCoins_conserves_value:
  assumes "coins_view get batch vinv utxo" and "cache_inv vinv utxo c" and "finite (dom (cache_utxo utxo c))"
    and "CheckTransaction tx True = Inr ()" and "\<not> IsCoinBase tx" and "CheckTxInputs get tx c h = (Inr fee, c1)"
    and "\<And>n. cache_utxo utxo c \<lparr>op_hash = ComputeHash tx, op_n = n\<rparr> = None"
  shows "\<exists>undo c2. UpdateCoins get tx c1 height = Some (undo, c2) \<and> cache_inv vinv utxo c2 \<and>
    utxo_value (cache_utxo utxo c2) + fee + (sum_list (map nValue (vout tx)) - spendable_value (vout tx)) =
      utxo_value (cache_utxo utxo c) \<and> 0 \<le> fee"
proof -
  have "0 \<le> fee" using coins_view.CheckTxInputs_law [OF assms(1,2,6,5)] by (simp add: MoneyRange_def)
  then show ?thesis using coins_view.UpdateCoins_value [OF assms(1-3,4,5,6,7), of height] by auto
qed

text \<open>A transaction that spends the coin of the database.\<close>

definition demo_spend :: Transaction where
  "demo_spend = \<lparr>vin = [\<lparr>prevout = demo_point, scriptSig = [], nSequence = 0, scriptWitness = []\<rparr>],
     vout = [\<lparr>nValue = 40, scriptPubKey = [0x51]\<rparr>], nLockTime = 0, tx_nVersion = 2\<rparr>"

lemma ComputeHash_length: "length (ComputeHash tx) = 32"
  using Hash1_fips [of "replicate 64 0" "SerializeTransaction tx"]
  by (simp add: ComputeHash_def SerializeHash_def CHashWriter_GetHash_def CHashWriter_write_def Hash1_def fips_sha256_length)

lemmas ser_defs = SerializeTransaction_def ser_vector_def ser_txin_def ser_txout_def ser_outpoint_def ser_bytes_def
  ser_int32_def ser_int64_def ser_writedata32_def ser_writedata64_def ser_writedata8_def WriteCompactSize_def

lemma demo_spend_size: "length (SerializeTransaction demo_spend) < 100"
  by (simp add: demo_spend_def demo_point_def ser_defs)

lemma demo_spend_checked:
  "CheckTransaction demo_spend True = Inr ()" "\<not> IsCoinBase demo_spend" "\<not> IsUnspendable [0x51]"
proof -
  show cb: "\<not> IsCoinBase demo_spend"
    by (simp add: IsCoinBase_def demo_spend_def demo_point_def COutPoint_IsNull_def IsNull_blob_def)
  show "\<not> IsUnspendable [0x51]" by code_simp
  have "\<not> length (SerializeTransaction demo_spend) * 4 > 4000000" using demo_spend_size by simp
  then show "CheckTransaction demo_spend True = Inr ()"
    using cb by (simp add: CheckTransaction_def SerializeSegwitTx_no_witness [OF no_witness_version] WITNESS_SCALE_FACTOR_def
        MAX_BLOCK_WEIGHT_def)
      (simp add: demo_spend_def MAX_MONEY_def COIN_def MoneyRange_def demo_point_def COutPoint_IsNull_def IsNull_blob_def)
qed

lemma demo_access:
  "FetchCoin (CCoinsViewDB_GetCoin mem_read) (CCoinsViewCache_ctor demo_db) demo_point =
    (Some \<lparr>coin = demo_coin, DIRTY = False, FRESH = False\<rparr>,
     \<lparr>base = demo_db, hashBlock = uint256_null, cacheCoins = [(demo_point, \<lparr>coin = demo_coin, DIRTY = False, FRESH = False\<rparr>)]\<rparr>)"
  "FetchCoin get \<lparr>base = demo_db, hashBlock = h, cacheCoins = [(demo_point, e)]\<rparr> demo_point =
    (Some e, \<lparr>base = demo_db, hashBlock = h, cacheCoins = [(demo_point, e)]\<rparr>)"
  by (simp_all add: FetchCoin_def CCoinsViewDB_GetCoin_def mem_read_def demo_db_def CCoinsViewCache_ctor_def Let_def
      demo_coin_def IsSpent_def TxOut_IsNull_def)

lemma demo_spend_inputs:
  "\<exists>c1. CheckTxInputs (CCoinsViewDB_GetCoin mem_read) demo_spend (CCoinsViewCache_ctor demo_db) 9 = (Inr 10, c1)"
  by (simp add: CheckTxInputs_def HaveInputs_def demo_spend_checked demo_spend_def HaveCoin_def AccessCoin_def demo_access
      demo_coin_def IsSpent_def TxOut_IsNull_def MoneyRange_def MAX_MONEY_def COIN_def GetValueOut_def)

theorem UpdateCoins_conserves_value_witness:
  "\<exists>undo c1 c2. UpdateCoins (CCoinsViewDB_GetCoin mem_read) demo_spend c1 2 = Some (undo, c2) \<and>
     utxo_value (cache_utxo (db_utxo mem_read) c2) + 10 = 50"
proof -
  obtain c1 where c1: "CheckTxInputs (CCoinsViewDB_GetCoin mem_read) demo_spend (CCoinsViewCache_ctor demo_db) 9 = (Inr 10, c1)"
    using demo_spend_inputs by blast
  have ne: "\<lparr>op_hash = ComputeHash demo_spend, op_n = n\<rparr> \<noteq> demo_point" for n
    using ComputeHash_length [of demo_spend] by (auto simp: demo_point_def)
  have "utxo_value [demo_point \<mapsto> demo_coin] = 50" by (simp add: utxo_value_def demo_coin_def)
  moreover have "sum_list (map nValue (vout demo_spend)) = spendable_value (vout demo_spend)"
    by (simp add: demo_spend_def spendable_value_def demo_spend_checked(3))
  moreover have "finite (dom (cache_utxo (db_utxo mem_read) (CCoinsViewCache_ctor demo_db)))"
    unfolding cache_ctor_view demo_db_view by simp
  moreover have "cache_utxo (db_utxo mem_read) (CCoinsViewCache_ctor demo_db) \<lparr>op_hash = ComputeHash demo_spend, op_n = n\<rparr> = None" for n
    unfolding cache_ctor_view demo_db_view using ne by simp
  ultimately show ?thesis
    using UpdateCoins_conserves_value [OF mem_db.coins_view_axioms cache_ctor_view(1) [of "db_inv mem_read", OF demo_db_view(1)] _
        demo_spend_checked(1,2) c1, of 2]
    unfolding cache_ctor_view demo_db_view by fastforce
qed

section \<open>Duplicate inputs\<close>

text \<open>Spending an output twice in one transaction, without the test for duplicate inputs.\<close>

definition demo_double :: Transaction where
  "demo_double = demo_spend\<lparr>vin := vin demo_spend @ vin demo_spend, vout := [\<lparr>nValue = 100, scriptPubKey = [0x51]\<rparr>]\<rparr>"

lemma demo_double_checked: "CheckTransaction demo_double False = Inr ()" "\<not> IsCoinBase demo_double"
proof -
  show cb: "\<not> IsCoinBase demo_double" by (simp add: IsCoinBase_def demo_double_def demo_spend_def)
  have "length (SerializeTransaction demo_double) < 200"
    by (simp add: demo_double_def demo_spend_def demo_point_def ser_defs)
  then have "\<not> length (SerializeTransaction demo_double) * 4 > 4000000" by simp
  then show "CheckTransaction demo_double False = Inr ()"
    using cb by (simp add: CheckTransaction_def SerializeSegwitTx_no_witness [OF no_witness_version] WITNESS_SCALE_FACTOR_def
        MAX_BLOCK_WEIGHT_def)
      (simp add: demo_double_def demo_spend_def MAX_MONEY_def COIN_def MoneyRange_def demo_point_def COutPoint_IsNull_def IsNull_blob_def)
qed

lemma demo_double_inputs:
  "CheckTxInputs (CCoinsViewDB_GetCoin mem_read) demo_double (CCoinsViewCache_ctor demo_db) 9 =
    (Inr 0, \<lparr>base = demo_db, hashBlock = uint256_null, cacheCoins = [(demo_point, \<lparr>coin = demo_coin, DIRTY = False, FRESH = False\<rparr>)]\<rparr>)"
  by (simp add: CheckTxInputs_def HaveInputs_def demo_double_checked demo_double_def demo_spend_def HaveCoin_def AccessCoin_def
      demo_access demo_coin_def IsSpent_def TxOut_IsNull_def MoneyRange_def MAX_MONEY_def COIN_def GetValueOut_def)


end
