(* ===== verification/Pow.thy ===== *)
theory Pow
  imports Chain_Views Block
begin

text \<open>
  Proof of work: the block reward and the difficulty of \<^verbatim>\<open>foodchain/trust.cpp\<close> and the test
  of a hash of \<^verbatim>\<open>pow.cpp\<close>. \<open>None\<close> is a failed assertion, an invalid dereference or a division
  by zero.
\<close>

text \<open>Both operands of the division are non-negative on every chain, where C++ rounds like \<open>div\<close>.\<close>

definition GetBlockSubsidy :: "int \<Rightarrow> Params \<Rightarrow> CAmount" where
  "GetBlockSubsidy height consensusParams =
     (let halvings = height div nSubsidyHalvingInterval consensusParams
      in if halvings \<ge> 64 then 0 else drop_bit (nat halvings) (50 * COIN))"

definition clamp_timespan :: "int \<Rightarrow> Params \<Rightarrow> int" where
  "clamp_timespan nActualTimespan params =
     (let nActualTimespan = (if nActualTimespan < nPowTargetTimespan params div 4 then nPowTargetTimespan params div 4
                             else nActualTimespan)
      in if nActualTimespan > nPowTargetTimespan params * 4 then nPowTargetTimespan params * 4 else nActualTimespan)"

definition bigger :: "base_uint \<Rightarrow> base_uint \<Rightarrow> bool" where
  "bigger a b \<longleftrightarrow> CompareTo a b > 0"

definition CalculateNextWorkRequired :: "CBlockIndex \<Rightarrow> int \<Rightarrow> Params \<Rightarrow> u32 option" where
  "CalculateNextWorkRequired pindexLast nFirstBlockTime params =
     (if fPowNoRetargeting params then Some (bi_nBits pindexLast)
      else
        let nActualTimespan = clamp_timespan (int (unat (bi_nTime pindexLast)) - nFirstBlockTime) params;
            bnPowLimit = UintToArith256 (powLimit params);
            bnNew = fst (SetCompact (bi_nBits pindexLast));
            fShift = (base_uint_bits bnNew > 235);
            bnNew = (if fShift then base_uint_shr bnNew 1 else bnNew);
            bnNew = base_uint_mul32 bnNew (word_of_int nActualTimespan)
        in (case base_uint_div bnNew (base_uint_of_u64 WIDTH256 (word_of_int (nPowTargetTimespan params))) of
              Inl e \<Rightarrow> None
            | Inr bnNew \<Rightarrow>
                let bnNew = (if fShift then base_uint_shl bnNew 1 else bnNew);
                    bnNew = (if bigger bnNew bnPowLimit then bnPowLimit else bnNew)
                in GetCompact bnNew False))"

text \<open>The last block without the special rule for minimum difficulty.\<close>

partial_function (option) last_non_special :: "block_store \<Rightarrow> Params \<Rightarrow> u32 \<Rightarrow> ptr \<Rightarrow> u32 option" where
  "last_non_special m params nProofOfWorkLimit p =
     (case m p of
        None \<Rightarrow> None
      | Some bi \<Rightarrow>
          (case pprev bi of
             None \<Rightarrow> Some (bi_nBits bi)
           | Some q \<Rightarrow>
               if nHeight bi mod DifficultyAdjustmentInterval params \<noteq> 0 \<and> bi_nBits bi = nProofOfWorkLimit
               then last_non_special m params nProofOfWorkLimit q
               else Some (bi_nBits bi)))"

text \<open>\<open>walk_back m i p\<close> follows \<open>pprev\<close> at most \<open>i\<close> times, until a null pointer.\<close>

fun walk_back :: "block_store \<Rightarrow> nat \<Rightarrow> ptr option \<Rightarrow> ptr option" where
  "walk_back m 0 p = p"
| "walk_back m (Suc i) None = None"
| "walk_back m (Suc i) (Some p) = (case m p of None \<Rightarrow> None | Some bi \<Rightarrow> walk_back m i (pprev bi))"

definition GetNextWorkRequired :: "block_store \<Rightarrow> ptr option \<Rightarrow> BlockHeader \<Rightarrow> Params \<Rightarrow> u32 option" where
  "GetNextWorkRequired m pindexLast pblock params =
     (case pindexLast of
        None \<Rightarrow> None
      | Some p \<Rightarrow>
          (case (m p, GetCompact (UintToArith256 (powLimit params)) False) of
             (Some bl, Some nProofOfWorkLimit) \<Rightarrow>
               if (nHeight bl + 1) mod DifficultyAdjustmentInterval params \<noteq> 0
               then if fPowAllowMinDifficultyBlocks params
                    then if GetBlockTime pblock > int (unat (bi_nTime bl)) + nPowTargetSpacing params * 2
                         then Some nProofOfWorkLimit
                         else last_non_special m params nProofOfWorkLimit p
                    else Some (bi_nBits bl)
               else
                 let blockstogoback = (if nHeight bl + 1 \<noteq> DifficultyAdjustmentInterval params
                                       then DifficultyAdjustmentInterval params
                                       else DifficultyAdjustmentInterval params - 1)
                 in (case walk_back m (nat blockstogoback) (Some p) of
                       None \<Rightarrow> None
                     | Some f \<Rightarrow>
                         (case m f of
                            None \<Rightarrow> None
                          | Some first \<Rightarrow> CalculateNextWorkRequired bl (int (unat (bi_nTime first))) params))
           | _ \<Rightarrow> None))"

definition CheckProofOfWork :: "uint256 \<Rightarrow> u32 \<Rightarrow> Params \<Rightarrow> bool" where
  "CheckProofOfWork hash bits params =
     (case SetCompact bits of (bnTarget, fNegative, fOverflow) \<Rightarrow>
        if fNegative \<or> EqualTo bnTarget 0 \<or> fOverflow \<or> bigger bnTarget (UintToArith256 (powLimit params)) then False
        else \<not> bigger (UintToArith256 hash) bnTarget)"

end
