(* ===== verification/Pow_Props.thy ===== *)
theory Pow_Props
  imports Pow Compact
begin

text \<open>
  Properties of the proof of work: the sum of all block rewards, the condition on a hash, the
  arithmetic of a retarget and its totality.
\<close>

section \<open>The reward\<close>

lemma drop_bit_double: "2 * drop_bit (Suc k) a \<le> drop_bit k (a :: int)"
proof -
  have "drop_bit (Suc k) a = drop_bit k a div 2"
    by (simp only: drop_bit_eq_div power_Suc2 zdiv_zmult2_eq zero_le_numeral)
  then show ?thesis by simp
qed

lemma halvings_sum: "(\<Sum>k < n. drop_bit k (a :: int)) + 2 * drop_bit n a \<le> 2 * a"
proof (induction n)
  case (Suc n)
  then show ?case using drop_bit_double [of n a] by simp
qed simp

lemma GetBlockSubsidy_period:
  assumes "nSubsidyHalvingInterval p = int m" and "j < m"
  shows "GetBlockSubsidy (int (m * k + j)) p \<le> drop_bit k (50 * COIN)" and "0 \<le> GetBlockSubsidy h p"
proof -
  have "(m * k + j) div m = k" using assms(2) by simp
  then have "int (m * k + j) div int m = int k" by (simp only: zdiv_int [symmetric])
  then show "GetBlockSubsidy (int (m * k + j)) p \<le> drop_bit k (50 * COIN)"
    using assms(1) by (simp add: GetBlockSubsidy_def Let_def COIN_def)
  show "0 \<le> GetBlockSubsidy h p" by (simp add: GetBlockSubsidy_def Let_def COIN_def)
qed

lemma sum_blocks: "(\<Sum>h < n * m :: nat. f h) = (\<Sum>k < n. \<Sum>j < m. (f (m * k + j) :: int))"
proof -
  have "(\<Sum>h = k * m ..< k * m + m. f h) = (\<Sum>j < m. f (m * k + j))" for k
    using sum.shift_bounds_nat_ivl [of f 0 "k * m" m] by (simp only: atLeast0LessThan add_0 add.commute mult.commute)
  then show ?thesis by (simp only: sum.nat_group [symmetric])
qed

lemma subsidy_total:
  assumes "nSubsidyHalvingInterval p = int m" and "0 < m"
  shows "(\<Sum>h < n. GetBlockSubsidy (int h) p) \<le> int m * (2 * (50 * COIN))"
proof -
  have "(\<Sum>h < n. GetBlockSubsidy (int h) p) \<le> (\<Sum>h < n * m. GetBlockSubsidy (int h) p)"
    by (rule sum_mono2) (use assms GetBlockSubsidy_period(2) [OF assms] in \<open>auto intro: less_le_trans\<close>)
  also have "\<dots> = (\<Sum>k < n. \<Sum>j < m. GetBlockSubsidy (int (m * k + j)) p)" by (rule sum_blocks)
  also have "\<dots> \<le> (\<Sum>k < n. \<Sum>j < m. drop_bit k (50 * COIN))"
    by (intro sum_mono GetBlockSubsidy_period(1) [OF assms(1)]) simp
  also have "\<dots> = int m * (\<Sum>k < n. drop_bit k (50 * COIN))" by (simp add: sum_distrib_left)
  also have "\<dots> \<le> int m * (2 * (50 * COIN))"
  proof (rule mult_left_mono)
    have "0 \<le> drop_bit n (50 * COIN)" by (simp add: COIN_def)
    then show "(\<Sum>k < n. drop_bit k (50 * COIN)) \<le> 2 * (50 * COIN)" using halvings_sum [where a = "50 * COIN" and n = n] by linarith
  qed simp
  finally show ?thesis .
qed

text \<open>
  C19: The rewards of all blocks of the main network together never exceed \<open>MAX_MONEY\<close>, however long
  the chain grows.
\<close>
theorem GetBlockSubsidy_total: "(\<Sum>h < n. GetBlockSubsidy (int h) main_params) \<le> MAX_MONEY"
  using subsidy_total [of main_params 210000 n] by (simp add: main_params_def MAX_MONEY_def COIN_def)

section \<open>Targets\<close>

lemma bigger_val: "length a = length b \<Longrightarrow> bigger a b \<longleftrightarrow> limbs_val a > limbs_val b"
  by (simp add: bigger_def CompareTo_val)

lemma UintToArith256_bound: "limbs_val (UintToArith256 a) < 2 ^ 256"
  using limbs_val_bound [of "UintToArith256 a"] by (simp only: UintToArith256_length LB_WIDTH256)

text \<open>
  \<open>CheckProofOfWork\<close> accepts a hash exactly when the compact target has no sign, is not zero, is
  at most the limit of the network, and is at least the hash as a number.
\<close>
theorem CheckProofOfWork_iff:
  assumes "length hash = 32" and "length (powLimit params) = 32"
  shows "CheckProofOfWork hash bits params \<longleftrightarrow>
    \<not> bit bits 23 \<and> 0 < compact_value bits \<and> compact_value bits \<le> le_nat (powLimit params) \<and> le_nat hash \<le> compact_value bits"
proof -
  obtain t n v where s: "SetCompact bits = (t, n, v)" by (metis prod_cases3)
  have len: "length t = WIDTH256" using SetCompact_length [of bits] s by simp
  have val: "limbs_val t = compact_value bits mod 2 ^ 256" using SetCompact_val [of bits] s by simp
  have ov: "v \<longleftrightarrow> 2 ^ 256 \<le> compact_value bits" using SetCompact_overflow [of bits] s by simp
  have ng: "n \<longleftrightarrow> bit bits 23 \<and> compact_value bits \<noteq> 0" using SetCompact_negative [of bits] s by simp
  have z: "EqualTo t 0 \<longleftrightarrow> limbs_val t = 0" using EqualTo_zero [of t] len by (simp add: WIDTH256_def)
  have lim: "limbs_val (UintToArith256 (powLimit params)) = le_nat (powLimit params)" "le_nat (powLimit params) < 2 ^ 256"
    using UintToArith256_val [OF assms(2)] UintToArith256_bound [of "powLimit params"] by simp_all
  have h: "limbs_val (UintToArith256 hash) = le_nat hash" using UintToArith256_val [OF assms(1)] .
  show ?thesis
  proof (cases v)
    case True
    then have "\<not> compact_value bits \<le> le_nat (powLimit params)" using ov lim(2) by linarith
    then show ?thesis using True by (simp add: CheckProofOfWork_def s)
  next
    case False
    then have "compact_value bits < 2 ^ 256" using ov by linarith
    then have v': "limbs_val t = compact_value bits" using val by simp
    show ?thesis
      by (auto simp: CheckProofOfWork_def s False ng z v' bigger_val len lim(1) h not_less)
  qed
qed

theorem CheckProofOfWork_iff_witness:
  "length (replicate 32 0 :: uint256) = 32 \<and> CheckProofOfWork (replicate 32 0) 0x1d00ffff main_params =
    (\<not> bit (0x1d00ffff :: u32) 23 \<and> 0 < compact_value 0x1d00ffff \<and> compact_value 0x1d00ffff \<le> le_nat (powLimit main_params) \<and>
     le_nat (replicate 32 0) \<le> compact_value 0x1d00ffff)"
  using CheckProofOfWork_iff [of "replicate 32 0" main_params "0x1d00ffff"] by (simp add: main_params_def)

section \<open>Retargeting\<close>

lemma unat_of_int_u32: "0 \<le> c \<Longrightarrow> c < 2 ^ 32 \<Longrightarrow> unat (word_of_int c :: u32) = nat c"
  by (simp add: unat_eq_nat_uint uint_word_of_int take_bit_int_eq_self)

lemma unat_of_int_u64: "0 \<le> c \<Longrightarrow> c < 2 ^ 64 \<Longrightarrow> unat (word_of_int c :: u64) = nat c"
  by (simp add: unat_eq_nat_uint uint_word_of_int take_bit_int_eq_self)

lemma clamp_bounds:
  assumes "0 < nPowTargetTimespan p"
  shows "nPowTargetTimespan p div 4 \<le> clamp_timespan t p" "clamp_timespan t p \<le> nPowTargetTimespan p * 4"
  using assms by (auto simp: clamp_timespan_def Let_def)

text \<open>The new target, as a number.\<close>

definition retarget :: "nat \<Rightarrow> int \<Rightarrow> Params \<Rightarrow> nat" where
  "retarget old t params =
     min (le_nat (powLimit params)) (old * nat (clamp_timespan t params) div nat (nPowTargetTimespan params))"

lemma CalculateNextWorkRequired_val:
  assumes re: "\<not> fPowNoRetargeting params" and lim: "length (powLimit params) = 32"
    and span: "0 < nPowTargetTimespan params" "nPowTargetTimespan params * 4 < 2 ^ 32"
    and old: "compact_value (bi_nBits bi) < 2 ^ 235"
    and nov: "compact_value (bi_nBits bi) * nat (nPowTargetTimespan params * 4) < 2 ^ 256"
  shows "\<exists>target. limbs_val target = retarget (compact_value (bi_nBits bi)) (int (unat (bi_nTime bi)) - t) params \<and>
    length target = WIDTH256 \<and> CalculateNextWorkRequired bi t params = GetCompact target False"
proof -
  define cl where "cl = clamp_timespan (int (unat (bi_nTime bi)) - t) params"
  define v where "v = compact_value (bi_nBits bi)"
  let ?b = "fst (SetCompact (bi_nBits bi))" and ?s = "nPowTargetTimespan params"
  have cl: "?s div 4 \<le> cl" "cl \<le> ?s * 4" unfolding cl_def by (rule clamp_bounds [OF span(1)])+
  then have cl0: "0 \<le> cl" using span(1) by linarith
  have "v < 2 ^ 256" unfolding v_def using old by (rule less_trans) simp
  then have bv: "limbs_val ?b = v" using SetCompact_val [of "bi_nBits bi"] by (simp add: v_def)
  have sh: "\<not> base_uint_bits ?b > 235" using old base_uint_bits_le [of ?b 235] bv by (simp add: v_def)
  have ucl: "unat (word_of_int cl :: u32) = nat cl" using cl0 cl(2) span(2) by (intro unat_of_int_u32) linarith+
  have us: "unat (word_of_int ?s :: u64) = nat ?s" using span by (intro unat_of_int_u64) simp_all
  have "v * nat cl \<le> v * nat (?s * 4)" using cl by (intro mult_le_mono2) simp
  then have "v * nat cl < 2 ^ 256" using nov unfolding v_def by (rule le_less_trans)
  then have mv: "limbs_val (base_uint_mul32 ?b (word_of_int cl)) = v * nat cl"
    by (simp add: base_uint_mul32_val bv ucl LB_WIDTH256)
  have ml: "length (base_uint_mul32 ?b (word_of_int cl)) = WIDTH256" by (simp add: base_uint_mul32_def base_uint_mul32_length)
  have dl: "length (base_uint_of_u64 WIDTH256 (word_of_int ?s)) = WIDTH256" by (simp add: base_uint_of_u64_length WIDTH256_def)
  obtain q where q: "base_uint_div (base_uint_mul32 ?b (word_of_int cl)) (base_uint_of_u64 WIDTH256 (word_of_int ?s)) = Inr q"
      "limbs_val q = v * nat cl div nat ?s" "length q = WIDTH256"
    using base_uint_div_val [of "base_uint_of_u64 WIDTH256 (word_of_int ?s)" "base_uint_mul32 ?b (word_of_int cl)"] span(1)
    by (auto simp: ml dl mv base_uint_of_u64_val us split: sum.splits)
  define target where "target = (if bigger q (UintToArith256 (powLimit params)) then UintToArith256 (powLimit params) else q)"
  have "limbs_val target = retarget v (int (unat (bi_nTime bi)) - t) params" "length target = WIDTH256"
    unfolding retarget_def cl_def [symmetric] target_def using q by (auto simp: bigger_val UintToArith256_val [OF lim])
  moreover have "CalculateNextWorkRequired bi t params = GetCompact target False"
    unfolding CalculateNextWorkRequired_def cl_def [symmetric] Let_def target_def using re sh q(1) by simp
  ultimately show ?thesis unfolding v_def by blast
qed

lemma retarget_bounds:
  assumes "0 < nPowTargetTimespan p"
  shows "retarget old t p \<le> le_nat (powLimit p)" "retarget old t p \<le> old * 4"
proof -
  have "nat (clamp_timespan t p) \<le> nat (nPowTargetTimespan p * 4)" using clamp_bounds(2) [OF assms] by (rule nat_mono)
  then have "old * nat (clamp_timespan t p) \<le> old * 4 * nat (nPowTargetTimespan p)"
    using assms by (simp add: nat_mult_distrib algebra_simps mult_le_mono2)
  then have "old * nat (clamp_timespan t p) div nat (nPowTargetTimespan p) \<le> old * 4 * nat (nPowTargetTimespan p) div nat (nPowTargetTimespan p)"
    by (rule div_le_mono)
  also have "\<dots> = old * 4" using assms by simp
  finally show "retarget old t p \<le> old * 4" by (simp add: retarget_def min.coboundedI2)
qed (simp add: retarget_def)

text \<open>
  away from overflow a retarget yields the previous target scaled by the timespan, clamped to a
  factor of four either way and to the limit of the network, with the bytes below the mantissa
  cleared. The result is positive in sign, never above the limit and never above four times the
  previous target.
\<close>
theorem CalculateNextWorkRequired_correct:
  assumes "\<not> fPowNoRetargeting params" and "length (powLimit params) = 32"
    and "0 < nPowTargetTimespan params" and "nPowTargetTimespan params * 4 < 2 ^ 32"
    and "compact_value (bi_nBits bi) < 2 ^ 235"
    and "compact_value (bi_nBits bi) * nat (nPowTargetTimespan params * 4) < 2 ^ 256"
  shows "\<exists>c k. CalculateNextWorkRequired bi t params = Some c \<and> \<not> bit c 23 \<and> k \<le> 30 \<and> 256 ^ k dvd compact_value c \<and>
    compact_value c \<le> retarget (compact_value (bi_nBits bi)) (int (unat (bi_nTime bi)) - t) params \<and>
    retarget (compact_value (bi_nBits bi)) (int (unat (bi_nTime bi)) - t) params < compact_value c + 256 ^ k \<and>
    compact_value c \<le> le_nat (powLimit params) \<and> compact_value c \<le> compact_value (bi_nBits bi) * 4"
proof -
  let ?r = "retarget (compact_value (bi_nBits bi)) (int (unat (bi_nTime bi)) - t) params"
  obtain target where t: "limbs_val target = ?r" "length target = WIDTH256"
      "CalculateNextWorkRequired bi t params = GetCompact target False"
    using CalculateNextWorkRequired_val [OF assms] by blast
  obtain c k where c: "GetCompact target False = Some c" "\<not> bit c 23" "compact_value c \<le> ?r"
      "?r < compact_value c + 256 ^ k" "256 ^ k dvd compact_value c" "k \<le> 30"
    using GetCompact_floor [OF t(2)] unfolding t(1) by blast
  have "compact_value c \<le> le_nat (powLimit params)" "compact_value c \<le> compact_value (bi_nBits bi) * 4"
    using c(3) retarget_bounds [OF assms(3)] by (meson order_trans)+
  then show ?thesis using t(3) c by metis
qed

lemma CalculateNextWorkRequired_Some:
  assumes "0 < nPowTargetTimespan params" "nPowTargetTimespan params < 2 ^ 63"
  shows "\<exists>c. CalculateNextWorkRequired bi t params = Some c"
proof (cases "fPowNoRetargeting params")
  case False
  let ?d = "base_uint_of_u64 WIDTH256 (word_of_int (nPowTargetTimespan params))"
  have us: "unat (word_of_int (nPowTargetTimespan params) :: u64) = nat (nPowTargetTimespan params)"
    using assms by (intro unat_of_int_u64) simp_all
  have q: "\<exists>q. base_uint_div a ?d = Inr q \<and> length q = WIDTH256" if "length a = WIDTH256" for a
    using base_uint_div_val [of ?d a] that assms(1)
    by (auto simp: base_uint_of_u64_length base_uint_of_u64_val us WIDTH256_def split: sum.splits)
  have g: "\<exists>c. GetCompact a False = Some c" if "length a = WIDTH256" for a using GetCompact_floor [OF that] by blast
  define b where "b = base_uint_mul32 (if base_uint_bits (fst (SetCompact (bi_nBits bi))) > 235 then base_uint_shr (fst (SetCompact (bi_nBits bi))) 1
                       else fst (SetCompact (bi_nBits bi))) (word_of_int (clamp_timespan (int (unat (bi_nTime bi)) - t) params))"
  have "length b = WIDTH256" by (simp add: b_def base_uint_mul32_def base_uint_mul32_length base_uint_shr_length)
  then obtain q where "base_uint_div b ?d = Inr q" "length q = WIDTH256" using q by blast
  then show ?thesis using False unfolding CalculateNextWorkRequired_def Let_def b_def [symmetric]
    by (auto intro!: g simp: base_uint_shl_length)
qed (simp add: CalculateNextWorkRequired_def)

lemma walk_back_nth_prev:
  "wf_store m \<Longrightarrow> m p = Some bi \<Longrightarrow> int i \<le> nHeight bi \<Longrightarrow> walk_back m i (Some p) = nth_prev m i p"
proof (induction i arbitrary: p bi)
  case (Suc i)
  have "wf_entry m bi" using Suc.prems by (blast dest: wf_storeD)
  then obtain q b where "pprev bi = Some q" "m q = Some b" "nHeight b = nHeight bi - 1"
    using Suc.prems(3) by (auto simp: wf_entry_def split: option.splits)
  then show ?case using Suc by simp
qed simp

lemma last_non_special_Some:
  "wf_store m \<Longrightarrow> m p = Some bi \<Longrightarrow> \<exists>c. last_non_special m params l p = Some c"
proof (induction "nat (nHeight bi)" arbitrary: p bi rule: less_induct)
  case less
  have e: "wf_entry m bi" using less.prems by (blast dest: wf_storeD)
  show ?case
  proof (cases "pprev bi")
    case None then show ?thesis using less.prems(2) by (subst last_non_special.simps) simp
  next
    case (Some q)
    then obtain b where b: "m q = Some b" "nHeight b = nHeight bi - 1" "0 < nHeight bi"
      using e wf_height [OF wf_storeD [OF less.prems(1)]] by (force simp: wf_entry_def split: option.splits)
    then have "\<exists>c. last_non_special m params l q = Some c" using less.hyps [of b q] less.prems(1) by simp
    then show ?thesis using less.prems(2) Some by (subst last_non_special.simps) simp
  qed
qed

text \<open>
  C20: the search for the next target always ends with a value: on a well-formed block index no
  assertion fails, neither the walk over minimum-difficulty blocks nor the walk bk over the
  retarget period leaves the chain, and nothing divides by zero.
\<close>
theorem GetNextWorkRequired_total:
  assumes "wf_store m" and "m p = Some bi"
    and "0 < nPowTargetTimespan params" and "nPowTargetTimespan params < 2 ^ 63" and "0 < DifficultyAdjustmentInterval params"
  shows "\<exists>c. GetNextWorkRequired m (Some p) pblock params = Some c"
proof -
  let ?D = "DifficultyAdjustmentInterval params"
  obtain l where l: "GetCompact (UintToArith256 (powLimit params)) False = Some l"
    using GetCompact_floor [of "UintToArith256 (powLimit params)"] by (auto simp: UintToArith256_length)
  show ?thesis
  proof (cases "(nHeight bi + 1) mod ?D = 0")
    case False
    then show ?thesis using last_non_special_Some [OF assms(1,2), of params l] assms(2) l by (simp add: GetNextWorkRequired_def)
  next
    case True
    define bk where "bk = nat (if nHeight bi + 1 \<noteq> ?D then ?D else ?D - 1)"
    have "0 \<le> nHeight bi" using wf_height [OF wf_storeD [OF assms(1,2)]] .
    moreover from True obtain k where "nHeight bi + 1 = ?D * k" by (metis dvd_def mod_eq_0_iff_dvd)
    ultimately have k: "nHeight bi + 1 = ?D * k" "0 < k" using assms(5) zero_less_mult_pos [of ?D k] by auto
    have "int bk \<le> nHeight bi"
    proof (cases "nHeight bi + 1 = ?D")
      case False
      then have "2 \<le> k" using k by (cases "k = 1") auto
      then have "?D * 2 \<le> ?D * k" using assms(5) by simp
      then have "?D \<le> nHeight bi" using k(1) assms(5) by linarith
      then show ?thesis using assms(5) by (simp add: bk_def False)
    qed (use assms(5) in \<open>simp add: bk_def\<close>)
    then obtain f b where "walk_back m bk (Some p) = Some f" "m f = Some b"
      using walk_back_nth_prev [OF assms(1,2), of bk] nth_prev_exists [OF assms(1,2), of bk] by auto
    then show ?thesis
      using True assms(2) l CalculateNextWorkRequired_Some [OF assms(3,4)] bk_def
      by (simp add: GetNextWorkRequired_def Let_def del: walk_back.simps split del: if_split)
  qed
qed

theorem CalculateNextWorkRequired_correct_witness:
  "\<not> fPowNoRetargeting main_params \<and>
   (\<exists>c. CalculateNextWorkRequired (CBlockIndex_null\<lparr>bi_nBits := 0x1b0404cb, bi_nTime := 1300000\<rparr>) 100000 main_params = Some c \<and>
      compact_value c \<le> compact_value 0x1b0404cb * 4)"
proof -
  have v: "compact_value 0x1b0404cb = 0x0404cb * 2 ^ 192" by (simp add: compact_value_def compact_size_def compact_mantissa_def)
  show ?thesis
    using CalculateNextWorkRequired_correct [of main_params "CBlockIndex_null\<lparr>bi_nBits := 0x1b0404cb, bi_nTime := 1300000\<rparr>" 100000]
    by (force simp: main_params_def v)
qed

theorem GetNextWorkRequired_total_witness:
  "wf_store demo_store \<and> (\<exists>c. GetNextWorkRequired demo_store (Some 2) BlockHeader_null main_params = Some c)"
  using GetNextWorkRequired_total [OF demo_store_wf demo_store_simps(3), of main_params BlockHeader_null] demo_store_wf
  by (simp add: main_params_def DifficultyAdjustmentInterval_def)

end
