(* ===== verification/VersionBits.thy ===== *)
theory VersionBits
  imports Chain_Views Params
begin

text \<open>
  Deployment of rule changes by version bits, \<^verbatim>\<open>versionbits.cpp\<close>: the abstract checker with its
  cache of states, and the checker of the version field. \<open>None\<close> is a failed assertion, an invalid
  dereference or a period that is not positive.
\<close>

unbundle bit_operations_syntax

section \<open>Model\<close>

datatype ThresholdState =
  THRESHOLD_DEFINED | THRESHOLD_STARTED | THRESHOLD_LOCKED_IN | THRESHOLD_ACTIVE | THRESHOLD_FAILED

type_synonym ThresholdConditionCache = "ptr option \<Rightarrow> ThresholdState option"

text \<open>The virtual methods of the abstract checker.\<close>

record AbstractThresholdConditionChecker =
  Condition :: "CBlockIndex \<Rightarrow> Params \<Rightarrow> bool"
  BeginTime :: "Params \<Rightarrow> int"
  EndTime :: "Params \<Rightarrow> int"
  Period :: "Params \<Rightarrow> int"
  Threshold :: "Params \<Rightarrow> int"

text \<open>The last block of the period before the one \<open>p\<close> belongs to; the inner \<open>None\<close> is before the genesis block.\<close>

definition period_parent :: "block_store \<Rightarrow> int \<Rightarrow> ptr \<Rightarrow> ptr option option" where
  "period_parent m nPeriod p =
     (case m p of
        None \<Rightarrow> None
      | Some bi \<Rightarrow> if nPeriod \<le> 0 then None else GetAncestor m p (nHeight bi - (nHeight bi + 1) mod nPeriod))"

text \<open>Walk backwards to a known state; the list is the vector \<open>vToCompute\<close> with its back first.\<close>

partial_function (option) state_walk ::
  "block_store \<Rightarrow> int \<Rightarrow> int \<Rightarrow> ThresholdConditionCache \<Rightarrow> ptr option \<Rightarrow> ptr list \<Rightarrow>
   (ThresholdConditionCache \<times> ptr option \<times> ptr list) option" where
  "state_walk m nTimeStart nPeriod cache pindexPrev vToCompute =
     (if cache pindexPrev \<noteq> None then Some (cache, pindexPrev, vToCompute)
      else case pindexPrev of
        None \<Rightarrow> Some (cache(pindexPrev \<mapsto> THRESHOLD_DEFINED), pindexPrev, vToCompute)
      | Some p \<Rightarrow>
          (case GetMedianTimePast m p of
             None \<Rightarrow> None
           | Some mtp \<Rightarrow>
               if mtp < nTimeStart then Some (cache(pindexPrev \<mapsto> THRESHOLD_DEFINED), pindexPrev, vToCompute)
               else case m p of
                 None \<Rightarrow> None
               | Some bi \<Rightarrow>
                   (case GetAncestor m p (nHeight bi - nPeriod) of
                      None \<Rightarrow> None
                    | Some a \<Rightarrow> state_walk m nTimeStart nPeriod cache a (p # vToCompute))))"

text \<open>The number of blocks that meet the condition among the \<open>n\<close> blocks that end with the given one.\<close>

fun count_condition :: "block_store \<Rightarrow> (CBlockIndex \<Rightarrow> bool) \<Rightarrow> nat \<Rightarrow> ptr option \<Rightarrow> int option" where
  "count_condition m cond 0 p = Some 0"
| "count_condition m cond (Suc i) None = None"
| "count_condition m cond (Suc i) (Some p) =
     (case m p of
        None \<Rightarrow> None
      | Some bi \<Rightarrow> map_option (\<lambda>n. (if cond bi then 1 else 0) + n) (count_condition m cond i (pprev bi)))"

definition next_state ::
  "block_store \<Rightarrow> AbstractThresholdConditionChecker \<Rightarrow> Params \<Rightarrow> ThresholdState \<Rightarrow> ptr \<Rightarrow> ThresholdState option" where
  "next_state m checker params state p =
     (case state of
        THRESHOLD_DEFINED \<Rightarrow>
          map_option (\<lambda>mtp. if mtp \<ge> EndTime checker params then THRESHOLD_FAILED
                            else if mtp \<ge> BeginTime checker params then THRESHOLD_STARTED else state)
            (GetMedianTimePast m p)
      | THRESHOLD_STARTED \<Rightarrow>
          (case GetMedianTimePast m p of
             None \<Rightarrow> None
           | Some mtp \<Rightarrow>
               if mtp \<ge> EndTime checker params then Some THRESHOLD_FAILED
               else map_option (\<lambda>count. if count \<ge> Threshold checker params then THRESHOLD_LOCKED_IN else state)
                      (count_condition m (\<lambda>bi. Condition checker bi params) (nat (Period checker params)) (Some p)))
      | THRESHOLD_LOCKED_IN \<Rightarrow> Some THRESHOLD_ACTIVE
      | THRESHOLD_FAILED \<Rightarrow> Some state
      | THRESHOLD_ACTIVE \<Rightarrow> Some state)"

fun state_forward ::
  "block_store \<Rightarrow> AbstractThresholdConditionChecker \<Rightarrow> Params \<Rightarrow> ThresholdState \<Rightarrow> ThresholdConditionCache \<Rightarrow> ptr list \<Rightarrow>
   (ThresholdState \<times> ThresholdConditionCache) option" where
  "state_forward m checker params state cache [] = Some (state, cache)"
| "state_forward m checker params state cache (p # vToCompute) =
     (case next_state m checker params state p of
        None \<Rightarrow> None
      | Some stateNext \<Rightarrow> state_forward m checker params stateNext (cache(Some p \<mapsto> stateNext)) vToCompute)"

definition GetStateFor ::
  "block_store \<Rightarrow> AbstractThresholdConditionChecker \<Rightarrow> ptr option \<Rightarrow> Params \<Rightarrow> ThresholdConditionCache \<Rightarrow>
   (ThresholdState \<times> ThresholdConditionCache) option" where
  "GetStateFor m checker pindexPrev params cache =
     (if BeginTime checker params = ALWAYS_ACTIVE then Some (THRESHOLD_ACTIVE, cache)
      else
        case (case pindexPrev of None \<Rightarrow> Some None | Some p \<Rightarrow> period_parent m (Period checker params) p) of
          None \<Rightarrow> None
        | Some start \<Rightarrow>
            (case state_walk m (BeginTime checker params) (Period checker params) cache start [] of
               None \<Rightarrow> None
             | Some (cache, pindexPrev, vToCompute) \<Rightarrow>
                 (case cache pindexPrev of
                    None \<Rightarrow> None
                  | Some state \<Rightarrow> state_forward m checker params state cache vToCompute)))"

record BIP9Stats =
  stats_period :: int
  stats_threshold :: int
  stats_elapsed :: int
  stats_count :: int
  stats_possible :: bool

text \<open>The blocks from the given one back to, and without, the one of height \<open>stop\<close>.\<close>

partial_function (option) stats_loop ::
  "block_store \<Rightarrow> (CBlockIndex \<Rightarrow> bool) \<Rightarrow> int \<Rightarrow> int \<Rightarrow> ptr option \<Rightarrow> int option" where
  "stats_loop m cond stop n currentIndex =
     (case currentIndex of
        None \<Rightarrow> None
      | Some p \<Rightarrow>
          (case m p of
             None \<Rightarrow> None
           | Some bi \<Rightarrow>
               if stop = nHeight bi then Some n
               else stats_loop m cond stop (if cond bi then n + 1 else n) (pprev bi)))"

definition GetStateStatisticsFor ::
  "block_store \<Rightarrow> AbstractThresholdConditionChecker \<Rightarrow> ptr option \<Rightarrow> Params \<Rightarrow> BIP9Stats option" where
  "GetStateStatisticsFor m checker pindex params =
     (let stats = \<lparr>stats_period = Period checker params, stats_threshold = Threshold checker params, stats_elapsed = 0, stats_count = 0, stats_possible = False\<rparr>
      in case pindex of
           None \<Rightarrow> Some stats
         | Some p \<Rightarrow>
             (case (m p, period_parent m (stats_period stats) p) of
                (Some bi, Some (Some e)) \<Rightarrow>
                  (case m e of
                     None \<Rightarrow> None
                   | Some be \<Rightarrow>
                       map_option
                         (\<lambda>n. stats\<lparr>stats_elapsed := nHeight bi - nHeight be, stats_count := n,
                                    stats_possible := (stats_period stats - stats_threshold stats \<ge> (nHeight bi - nHeight be) - n)\<rparr>)
                         (stats_loop m (\<lambda>bi. Condition checker bi params) (nHeight be) 0 (Some p)))
              | _ \<Rightarrow> None))"

partial_function (option) since_loop ::
  "block_store \<Rightarrow> AbstractThresholdConditionChecker \<Rightarrow> Params \<Rightarrow> ThresholdState \<Rightarrow> ThresholdConditionCache \<Rightarrow> ptr \<Rightarrow>
   (int \<times> ThresholdConditionCache) option" where
  "since_loop m checker params initialState cache p =
     (case m p of
        None \<Rightarrow> None
      | Some bi \<Rightarrow>
          (case GetAncestor m p (nHeight bi - Period checker params) of
             None \<Rightarrow> None
           | Some None \<Rightarrow> Some (nHeight bi + 1, cache)
           | Some (Some q) \<Rightarrow>
               (case GetStateFor m checker (Some q) params cache of
                  None \<Rightarrow> None
                | Some (state, cache) \<Rightarrow>
                    if state = initialState then since_loop m checker params initialState cache q
                    else Some (nHeight bi + 1, cache))))"

definition GetStateSinceHeightFor ::
  "block_store \<Rightarrow> AbstractThresholdConditionChecker \<Rightarrow> ptr option \<Rightarrow> Params \<Rightarrow> ThresholdConditionCache \<Rightarrow>
   (int \<times> ThresholdConditionCache) option" where
  "GetStateSinceHeightFor m checker pindexPrev params cache =
     (if BeginTime checker params = ALWAYS_ACTIVE then Some (0, cache)
      else case GetStateFor m checker pindexPrev params cache of
        None \<Rightarrow> None
      | Some (initialState, cache) \<Rightarrow>
          if initialState = THRESHOLD_DEFINED then Some (0, cache)
          else
            (case pindexPrev of
               None \<Rightarrow> None
             | Some p \<Rightarrow>
                 (case period_parent m (Period checker params) p of
                    Some (Some q) \<Rightarrow> since_loop m checker params initialState cache q
                  | _ \<Rightarrow> None)))"

text \<open>The masks are signed in the source; the model keeps their bit patterns.\<close>

definition VERSIONBITS_TOP_BITS :: u32 where "VERSIONBITS_TOP_BITS = 0x20000000"
definition VERSIONBITS_TOP_MASK :: u32 where "VERSIONBITS_TOP_MASK = 0xE0000000"

definition VersionBitsMask :: "Params \<Rightarrow> DeploymentPos \<Rightarrow> u32" where
  "VersionBitsMask params pos = push_bit (dep_bit (vDeployments params pos)) 1"

definition VersionBitsConditionChecker :: "DeploymentPos \<Rightarrow> AbstractThresholdConditionChecker" where
  "VersionBitsConditionChecker pos =
     \<lparr>Condition = \<lambda>bi params.
        (word_of_int (bi_nVersion bi) AND VERSIONBITS_TOP_MASK) = VERSIONBITS_TOP_BITS \<and>
        (word_of_int (bi_nVersion bi) AND VersionBitsMask params pos) \<noteq> 0,
      BeginTime = \<lambda>params. nStartTime (vDeployments params pos),
      EndTime = \<lambda>params. nTimeout (vDeployments params pos),
      Period = nMinerConfirmationWindow,
      Threshold = nRuleChangeActivationThreshold\<rparr>"

type_synonym VersionBitsCache = "DeploymentPos \<Rightarrow> ThresholdConditionCache"

definition VersionBitsState ::
  "block_store \<Rightarrow> ptr option \<Rightarrow> Params \<Rightarrow> DeploymentPos \<Rightarrow> VersionBitsCache \<Rightarrow> (ThresholdState \<times> VersionBitsCache) option" where
  "VersionBitsState m pindexPrev params pos caches =
     map_option (\<lambda>(state, c). (state, caches(pos := c)))
       (GetStateFor m (VersionBitsConditionChecker pos) pindexPrev params (caches pos))"

definition VersionBitsStatistics :: "block_store \<Rightarrow> ptr option \<Rightarrow> Params \<Rightarrow> DeploymentPos \<Rightarrow> BIP9Stats option" where
  "VersionBitsStatistics m pindexPrev params pos = GetStateStatisticsFor m (VersionBitsConditionChecker pos) pindexPrev params"

definition VersionBitsStateSinceHeight ::
  "block_store \<Rightarrow> ptr option \<Rightarrow> Params \<Rightarrow> DeploymentPos \<Rightarrow> VersionBitsCache \<Rightarrow> (int \<times> VersionBitsCache) option" where
  "VersionBitsStateSinceHeight m pindexPrev params pos caches =
     map_option (\<lambda>(h, c). (h, caches(pos := c)))
       (GetStateSinceHeightFor m (VersionBitsConditionChecker pos) pindexPrev params (caches pos))"

definition VersionBitsCache_Clear :: "VersionBitsCache \<Rightarrow> VersionBitsCache" where
  "VersionBitsCache_Clear caches = (\<lambda>d p. None)"

end
