(* ===== verification/VersionBits_Props.thy ===== *)
theory VersionBits_Props
  imports VersionBits
begin

text \<open>
  The deployment states of \<open>VersionBits\<close> against the state machine of BIP 9: the cached computation
  agrees with the machine, and an active rule stays active on every later block.
\<close>

section \<open>The reference state machine\<close>

text \<open>
  One period of the deployment, from the state of the last one: \<open>mtp\<close> is the median time past of the
  last block of the period and \<open>n\<close> the number of blocks in it that signal.
\<close>

inductive bip9_step :: "int \<Rightarrow> int \<Rightarrow> int \<Rightarrow> int \<Rightarrow> int \<Rightarrow> ThresholdState \<Rightarrow> ThresholdState \<Rightarrow> bool"
  for start timeout thr mtp n
where
  not_yet: "mtp < start \<Longrightarrow> mtp < timeout \<Longrightarrow> bip9_step start timeout thr mtp n THRESHOLD_DEFINED THRESHOLD_DEFINED"
| started: "start \<le> mtp \<Longrightarrow> mtp < timeout \<Longrightarrow> bip9_step start timeout thr mtp n THRESHOLD_DEFINED THRESHOLD_STARTED"
| expired: "timeout \<le> mtp \<Longrightarrow> s = THRESHOLD_DEFINED \<or> s = THRESHOLD_STARTED \<Longrightarrow>
    bip9_step start timeout thr mtp n s THRESHOLD_FAILED"
| too_few: "mtp < timeout \<Longrightarrow> n < thr \<Longrightarrow> bip9_step start timeout thr mtp n THRESHOLD_STARTED THRESHOLD_STARTED"
| enough: "mtp < timeout \<Longrightarrow> thr \<le> n \<Longrightarrow> bip9_step start timeout thr mtp n THRESHOLD_STARTED THRESHOLD_LOCKED_IN"
| activated: "bip9_step start timeout thr mtp n THRESHOLD_LOCKED_IN THRESHOLD_ACTIVE"
| active: "bip9_step start timeout thr mtp n THRESHOLD_ACTIVE THRESHOLD_ACTIVE"
| failed: "bip9_step start timeout thr mtp n THRESHOLD_FAILED THRESHOLD_FAILED"

inductive_cases bip9_stepE: "bip9_step start timeout thr mtp n s s'"
inductive_simps bip9_step_ACTIVE: "bip9_step start timeout thr mtp n THRESHOLD_ACTIVE s'"
inductive_simps bip9_step_DEFINED: "bip9_step start timeout thr mtp n THRESHOLD_DEFINED s'"

lemma bip9_step_fun: "bip9_step start timeout thr mtp n s s' \<Longrightarrow> bip9_step start timeout thr mtp n s s'' \<Longrightarrow> s' = s''"
  by (elim bip9_stepE) auto

text \<open>The last block of the previous period, for a block that ends a period.\<close>

definition prev_end :: "block_store \<Rightarrow> int \<Rightarrow> ptr \<Rightarrow> CBlockIndex \<Rightarrow> ptr option" where
  "prev_end m per p bi = (if nHeight bi < per then None else nth_prev m (nat per) p)"

text \<open>How many of the \<open>n\<close> blocks that end with \<open>p\<close> meet the condition.\<close>

definition signals :: "block_store \<Rightarrow> (CBlockIndex \<Rightarrow> bool) \<Rightarrow> nat \<Rightarrow> ptr \<Rightarrow> nat" where
  "signals m cond n p = card {i. i < n \<and> (\<exists>q b. nth_prev m i p = Some q \<and> m q = Some b \<and> cond b)}"

text \<open>The state that holds after the period that ends with a block; \<open>None\<close> is before the genesis block.\<close>

inductive bip9 :: "block_store \<Rightarrow> AbstractThresholdConditionChecker \<Rightarrow> Params \<Rightarrow> ptr option \<Rightarrow> ThresholdState \<Rightarrow> bool"
  for m c ps
where
  genesis: "bip9 m c ps None THRESHOLD_DEFINED"
| period: "m p = Some bi \<Longrightarrow> Period c ps dvd nHeight bi + 1 \<Longrightarrow> bip9 m c ps (prev_end m (Period c ps) p bi) s \<Longrightarrow>
    GetMedianTimePast m p = Some mtp \<Longrightarrow>
    bip9_step (BeginTime c ps) (EndTime c ps) (Threshold c ps) mtp
      (int (signals m (\<lambda>b. Condition c b ps) (nat (Period c ps)) p)) s s' \<Longrightarrow>
    bip9 m c ps (Some p) s'"

inductive_cases bip9_NoneE: "bip9 m c ps None s"
inductive_cases bip9_SomeE: "bip9 m c ps (Some p) s"

lemma bip9_fun: "bip9 m c ps x s \<Longrightarrow> bip9 m c ps x s' \<Longrightarrow> s = s'"
proof (induction arbitrary: s' rule: bip9.induct)
  case genesis then show ?case by (auto elim: bip9_NoneE)
next
  case (period p bi s mtp s1)
  from period.prems obtain u where u: "bip9 m c ps (prev_end m (Period c ps) p bi) u"
      "bip9_step (BeginTime c ps) (EndTime c ps) (Threshold c ps) mtp (int (signals m (\<lambda>b. Condition c b ps) (nat (Period c ps)) p)) u s'"
    using period.hyps by (elim bip9_SomeE) auto
  then show ?case using period.IH [OF u(1)] period.hyps(5) by (auto dest: bip9_step_fun)
qed

section \<open>The implementation\<close>

lemma median_times_Some: "wf_store m \<Longrightarrow> (\<And>q. p = Some q \<Longrightarrow> m q \<noteq> None) \<Longrightarrow> \<exists>ts. median_times m n p = Some ts"
proof (induction m n p rule: median_times.induct)
  case (3 m i p)
  then obtain bi where bi: "m p = Some bi" by auto
  have "m q \<noteq> None" if "pprev bi = Some q" for q
    using wf_storeD [OF 3(2) bi] that by (auto simp: wf_entry_def)
  then show ?case using 3(1) [OF bi] 3(2) bi by auto
qed auto

lemma GetMedianTimePast_Some: "wf_store m \<Longrightarrow> m p = Some bi \<Longrightarrow> \<exists>t. GetMedianTimePast m p = Some t"
  using median_times_Some [of m "Some p" nMedianTimeSpan] by (auto simp: GetMedianTimePast_def)

text \<open>The timestamp rule: every block is later than the median time past of its predecessor.\<close>

definition timely :: "block_store \<Rightarrow> bool" where
  "timely m \<longleftrightarrow> (\<forall>p bi q mtp. m p = Some bi \<longrightarrow> pprev bi = Some q \<longrightarrow> GetMedianTimePast m q = Some mtp \<longrightarrow>
     mtp < int (unat (bi_nTime bi)))"

lemma median_past_mono:
  assumes "wf_store m" and "timely m"
  shows "m p = Some bi \<Longrightarrow> nth_prev m n p = Some q \<Longrightarrow> GetMedianTimePast m p = Some t \<Longrightarrow>
    \<exists>u. GetMedianTimePast m q = Some u \<and> u \<le> t"
proof (induction n arbitrary: p bi t)
  case (Suc n)
  then obtain r where r: "pprev bi = Some r" "nth_prev m n r = Some q" by (auto split: option.splits)
  obtain br where br: "m r = Some br" using wf_storeD [OF assms(1) Suc.prems(1)] r(1) by (auto simp: wf_entry_def)
  obtain v where v: "GetMedianTimePast m r = Some v" using GetMedianTimePast_Some [OF assms(1) br] by blast
  have "v < int (unat (bi_nTime bi))" using assms(2) Suc.prems(1) r(1) v by (auto simp: timely_def)
  then have "v \<le> t" using GetMedianTimePast_step [OF Suc.prems(1) r(1) v] Suc.prems(3) by auto
  then show ?case using Suc.IH [OF br r(2) v] by auto
qed auto

lemma count_condition_signals:
  "wf_store m \<Longrightarrow> m p = Some bi \<Longrightarrow> int n \<le> nHeight bi + 1 \<Longrightarrow>
    count_condition m cond n (Some p) = Some (int (signals m cond n p))"
proof (induction n arbitrary: p bi)
  case (Suc n)
  let ?P = "\<lambda>p i. \<exists>q b. nth_prev m i p = Some q \<and> m q = Some b \<and> cond b"
  have "{i. i < Suc n \<and> ?P p i} = (if cond bi then {0} else {}) \<union> Suc ` {i. i < n \<and> ?P p (Suc i)}"
    using Suc.prems(2) by (auto simp: image_iff less_Suc_eq_0_disj split: if_splits option.splits)
  then have c: "signals m cond (Suc n) p = (if cond bi then 1 else 0) + card {i. i < n \<and> ?P p (Suc i)}"
    by (simp add: signals_def card_insert_if card_image del: nth_prev.simps)
  show ?case
  proof (cases n)
    case 0 then show ?thesis using Suc.prems(2) c by simp
  next
    case (Suc k)
    obtain r br where r: "pprev bi = Some r" "m r = Some br" "nHeight bi = nHeight br + 1"
      using wf_storeD [OF Suc.prems(1,2)] Suc.prems(3) Suc by (auto simp: wf_entry_def split: option.splits)
    then have "card {i. i < n \<and> ?P p (Suc i)} = signals m cond n r" using Suc.prems(2) by (simp add: signals_def)
    then show ?thesis using Suc.IH [OF Suc.prems(1) r(2)] Suc.prems r c by simp
  qed
qed (simp add: signals_def)

lemma next_state_step:
  assumes "wf_store m" and "m p = Some bi" and "0 < Period c ps" and "Period c ps \<le> nHeight bi + 1"
    and "GetMedianTimePast m p = Some mtp"
  shows "\<exists>s'. next_state m c ps s p = Some s' \<and>
    bip9_step (BeginTime c ps) (EndTime c ps) (Threshold c ps) mtp (int (signals m (\<lambda>b. Condition c b ps) (nat (Period c ps)) p)) s s'"
proof -
  have "count_condition m (\<lambda>b. Condition c b ps) (nat (Period c ps)) (Some p) =
      Some (int (signals m (\<lambda>b. Condition c b ps) (nat (Period c ps)) p))"
    using assms by (intro count_condition_signals) auto
  then show ?thesis using assms(5)
    by (cases s) (auto simp: next_state_def bip9_step.simps)
qed

text \<open>The outcome of a run depends on what the caller knows of the store, the deployment and the cache.\<close>

definition cache_ok :: "block_store \<Rightarrow> AbstractThresholdConditionChecker \<Rightarrow> Params \<Rightarrow> ThresholdConditionCache \<Rightarrow> bool" where
  "cache_ok m c ps cache \<longleftrightarrow> (\<forall>x s. cache x = Some s \<longrightarrow> bip9 m c ps x s)"

lemma cache_ok_upd: "cache_ok m c ps cache \<Longrightarrow> bip9 m c ps x s \<Longrightarrow> cache_ok m c ps (cache(x \<mapsto> s))"
  by (auto simp: cache_ok_def)

text \<open>The last block of a period, or no block.\<close>

definition ends_period :: "block_store \<Rightarrow> int \<Rightarrow> ptr option \<Rightarrow> bool" where
  "ends_period m per x = (case x of None \<Rightarrow> True | Some p \<Rightarrow> (\<exists>bi. m p = Some bi \<and> per dvd nHeight bi + 1))"

lemma prev_end_ancestor:
  assumes "wf_store m" and "m p = Some bi" and "0 < per" and "per dvd nHeight bi + 1"
  shows "GetAncestor m p (nHeight bi - per) = Some (prev_end m per p bi)" "ends_period m per (prev_end m per p bi)"
    "per \<le> nHeight bi + 1"
    "\<And>q. prev_end m per p bi = Some q \<Longrightarrow> \<exists>b. m q = Some b \<and> nHeight b = nHeight bi - per"
proof -
  have h: "0 \<le> nHeight bi" using assms by (blast intro: wf_height wf_storeD)
  then show "per \<le> nHeight bi + 1" using assms(3,4) by (auto dest: zdvd_imp_le)
  have *: "\<exists>b. m q = Some b \<and> nHeight b = nHeight bi - per" if "prev_end m per p bi = Some q" for q
    using that nth_prev_exists [OF assms(1,2), of "nat per"] assms(3) by (auto simp: prev_end_def split: if_splits)
  then show "\<And>q. prev_end m per p bi = Some q \<Longrightarrow> \<exists>b. m q = Some b \<and> nHeight b = nHeight bi - per" .
  show "GetAncestor m p (nHeight bi - per) = Some (prev_end m per p bi)"
    using GetAncestor_nth_prev [OF assms(1,2)] assms(3) by (auto simp: prev_end_def)
  have "per dvd nHeight bi - per + 1" using assms(4) dvd_diff [of per "nHeight bi + 1" per] by (simp add: algebra_simps)
  then show "ends_period m per (prev_end m per p bi)" using * by (auto simp: ends_period_def split: option.splits)
qed

definition rank :: "block_store \<Rightarrow> ptr option \<Rightarrow> nat" where
  "rank m x = (case x of None \<Rightarrow> 0 | Some p \<Rightarrow> Suc (nat (nHeight (the (m p)))))"

lemma prev_end_rank:
  assumes "wf_store m" and "m p = Some bi" and "0 < per" and "per dvd nHeight bi + 1"
  shows "rank m (prev_end m per p bi) < rank m (Some p)"
proof (cases "prev_end m per p bi")
  case (Some q)
  then have "per \<le> nHeight bi" by (auto simp: prev_end_def split: if_splits)
  then show ?thesis using prev_end_ancestor(4) [OF assms Some] Some assms(2,3) by (auto simp: rank_def)
qed (simp add: rank_def)

lemma early_is_defined:
  assumes wf: "wf_store m" "timely m" and per: "0 < Period c ps" and st: "BeginTime c ps \<le> EndTime c ps"
  shows "m p = Some bi \<Longrightarrow> Period c ps dvd nHeight bi + 1 \<Longrightarrow> GetMedianTimePast m p = Some t \<Longrightarrow> t < BeginTime c ps \<Longrightarrow>
    bip9 m c ps (Some p) THRESHOLD_DEFINED"
proof (induction "nat (nHeight bi)" arbitrary: p bi t rule: less_induct)
  case less
  let ?a = "prev_end m (Period c ps) p bi"
  have "bip9 m c ps ?a THRESHOLD_DEFINED"
  proof (cases ?a)
    case (Some q)
    obtain b where b: "m q = Some b" "nHeight b = nHeight bi - Period c ps"
      using prev_end_ancestor(4) [OF wf(1) less.prems(1) per less.prems(2) Some] by blast
    have n: "nth_prev m (nat (Period c ps)) p = Some q" using Some by (auto simp: prev_end_def split: if_splits)
    obtain u where u: "GetMedianTimePast m q = Some u" "u \<le> t" using median_past_mono [OF wf less.prems(1) n less.prems(3)] by blast
    have d: "Period c ps dvd nHeight b + 1"
      using prev_end_ancestor(2) [OF wf(1) less.prems(1) per less.prems(2)] Some b(1) by (simp add: ends_period_def)
    have "0 \<le> nHeight b" using wf(1) b(1) by (blast intro: wf_height wf_storeD)
    then show ?thesis using less.hyps [OF _ b(1) d u(1)] u(2) less.prems(4) b(2) per Some by auto
  qed (simp add: bip9.genesis)
  then show ?case using less.prems st by (auto intro!: bip9.period bip9_step.not_yet)
qed

lemma state_run:
  assumes wf: "wf_store m" "timely m" and per: "0 < Period c ps" and st: "BeginTime c ps \<le> EndTime c ps"
    and cache: "cache_ok m c ps cache"
  shows "ends_period m (Period c ps) x \<Longrightarrow>
    \<exists>cache' x' vs' s s' cache1. state_walk m (BeginTime c ps) (Period c ps) cache x vs = Some (cache', x', vs') \<and> cache' x' = Some s \<and>
      state_forward m c ps s cache' vs' = state_forward m c ps s' cache1 vs \<and> bip9 m c ps x s' \<and> cache_ok m c ps cache1"
proof (induction "rank m x" arbitrary: x vs rule: less_induct)
  case less
  let ?B = "BeginTime c ps" and ?P = "Period c ps"
  show ?case
  proof (cases "cache x")
    case (Some s)
    then show ?thesis using cache by (subst state_walk.simps) (auto simp: cache_ok_def)
  next
    case miss: None
    show ?thesis
    proof (cases x)
      case None
      then show ?thesis using miss cache by (subst state_walk.simps) (auto intro!: cache_ok_upd bip9.genesis exI)
    next
      case (Some p)
      obtain bi where bi: "m p = Some bi" "?P dvd nHeight bi + 1" using less.prems Some by (auto simp: ends_period_def)
      obtain t where t: "GetMedianTimePast m p = Some t" using GetMedianTimePast_Some [OF wf(1) bi(1)] by blast
      note anc = prev_end_ancestor [OF wf(1) bi(1) per bi(2)]
      show ?thesis
      proof (cases "t < ?B")
        case True
        then have "bip9 m c ps x THRESHOLD_DEFINED" using early_is_defined [OF wf per st bi t] Some by simp
        then show ?thesis using miss Some t True cache by (subst state_walk.simps) (auto intro!: cache_ok_upd exI)
      next
        case False
        let ?a = "prev_end m ?P p bi"
        have "rank m ?a < rank m x" using prev_end_rank [OF wf(1) bi(1) per bi(2)] Some by simp
        from less.hyps [OF this anc(2), of "p # vs"]
        obtain cache' x' vs' s s0 cache1 where r: "state_walk m ?B ?P cache ?a (p # vs) = Some (cache', x', vs')" "cache' x' = Some s"
            "state_forward m c ps s cache' vs' = state_forward m c ps s0 cache1 (p # vs)" "bip9 m c ps ?a s0" "cache_ok m c ps cache1"
          by blast
        obtain s1 where s1: "next_state m c ps s0 p = Some s1"
            "bip9_step ?B (EndTime c ps) (Threshold c ps) t (int (signals m (\<lambda>b. Condition c b ps) (nat ?P) p)) s0 s1"
          using next_state_step [OF wf(1) bi(1) per anc(3) t] by blast
        have b: "bip9 m c ps x s1" unfolding Some using bi r(4) t s1(2) by (rule bip9.period)
        have "state_walk m ?B ?P cache x vs = Some (cache', x', vs')"
          using miss Some t False bi(1) anc(1) r(1) by (subst state_walk.simps) simp
        then show ?thesis using r(2,3,5) s1(1) b Some by (auto intro!: cache_ok_upd exI)
      qed
    qed
  qed
qed

lemma nth_prev_height:
  assumes "wf_store m"
  shows "m p = Some bi \<Longrightarrow> nth_prev m n p = Some q \<Longrightarrow> \<exists>b. m q = Some b \<and> nHeight b = nHeight bi - int n"
proof (induction n arbitrary: p bi)
  case (Suc n)
  then obtain r where r: "pprev bi = Some r" "nth_prev m n r = Some q" by (auto split: option.splits)
  then obtain br where "m r = Some br" "nHeight bi = nHeight br + 1"
    using wf_storeD [OF assms Suc.prems(1)] by (auto simp: wf_entry_def)
  then show ?case using Suc.IH [OF _ r(2)] by auto
qed auto

text \<open>The last block of the period \<open>j\<close> on the branch of \<open>p\<close>, counting from one.\<close>

definition period_end :: "block_store \<Rightarrow> int \<Rightarrow> ptr \<Rightarrow> CBlockIndex \<Rightarrow> nat \<Rightarrow> ptr option" where
  "period_end m per p bi j = (if j = 0 then None else nth_prev m (nat (nHeight bi + 1 - int j * per)) p)"

lemma period_end_Suc:
  assumes "wf_store m" and "m p = Some bi" and "0 < per" and "int (Suc j) * per \<le> nHeight bi + 1"
  shows "\<exists>q b. period_end m per p bi (Suc j) = Some q \<and> m q = Some b \<and> nHeight b + 1 = int (Suc j) * per \<and>
    prev_end m per q b = period_end m per p bi j"
proof -
  have j: "0 \<le> int j * per" using assms(3) by simp
  obtain q b where q: "period_end m per p bi (Suc j) = Some q" "m q = Some b" "nHeight b + 1 = int (Suc j) * per"
  proof -
    have "int (Suc j) * per = int j * per + per" by (simp add: algebra_simps)
    then have "1 \<le> int (Suc j) * per" using j assms(3) by linarith
    then show thesis
      using that nth_prev_exists [OF assms(1,2), of "nat (nHeight bi + 1 - int (Suc j) * per)"] assms(4)
      by (force simp: period_end_def simp del: of_nat_Suc)
  qed
  have "prev_end m per q b = period_end m per p bi j"
  proof (cases "j = 0")
    case False
    then have "per \<le> int j * per" using assms(3) by simp
    moreover have "int (Suc j) * per = int j * per + per" by (simp add: algebra_simps)
    ultimately have nb: "\<not> nHeight b < per" using q(3) assms(3) by linarith
    have "nat (nHeight bi + 1 - int j * per) = nat (nHeight bi + 1 - int (Suc j) * per) + nat per"
      using assms(3,4) by (simp add: algebra_simps nat_add_distrib [symmetric])
    then have "period_end m per p bi j = nth_prev m (nat per) q"
      using q(1) False nth_prev_add [of m "nat (nHeight bi + 1 - int (Suc j) * per)" "nat per" p] by (simp add: period_end_def)
    then show ?thesis using nb by (simp add: prev_end_def)
  qed (use q in \<open>simp add: prev_end_def period_end_def\<close>)
  then show ?thesis using q by blast
qed

lemma period_end_ends:
  assumes "wf_store m" and "m p = Some bi" and "0 < per" and "int j * per \<le> nHeight bi + 1"
  shows "ends_period m per (period_end m per p bi j)"
proof (cases j)
  case (Suc k)
  then show ?thesis using period_end_Suc [OF assms(1-3), of k] assms(4) by (auto simp: ends_period_def)
qed (simp add: period_end_def ends_period_def)

lemma quotient_le: "0 < per \<Longrightarrow> 0 \<le> h \<Longrightarrow> int (nat ((h + 1) div per)) * per \<le> h + (1 :: int)"
proof -
  assume "0 < per" "0 \<le> h"
  then have "0 \<le> (h + 1) div per" "0 \<le> (h + 1) mod per" by (simp_all add: pos_imp_zdiv_nonneg_iff)
  moreover have "(h + 1) div per * per + (h + 1) mod per = h + 1" by (rule div_mult_mod_eq)
  ultimately have "(h + 1) div per * per \<le> h + 1" "0 \<le> (h + 1) div per" by linarith+
  then show ?thesis by simp
qed

lemma period_parent_end:
  assumes "wf_store m" and "m p = Some bi" and "0 < per"
  shows "period_parent m per p = Some (period_end m per p bi (nat ((nHeight bi + 1) div per)))"
proof -
  let ?k = "(nHeight bi + 1) div per"
  have h: "0 \<le> nHeight bi" using assms by (blast intro: wf_height wf_storeD)
  then have k: "0 \<le> ?k" using assms(3) by (simp add: pos_imp_zdiv_nonneg_iff)
  have md: "nHeight bi - (nHeight bi + 1) mod per = ?k * per - 1"
    using minus_mod_eq_div_mult [of "nHeight bi + 1" per] by linarith
  have "?k * per \<le> nHeight bi + 1" using quotient_le [OF assms(3) h] k by simp
  moreover have "?k * per - 1 < 0 \<longleftrightarrow> ?k = 0"
  proof -
    have "1 \<le> ?k * per" if "?k \<noteq> 0" using that k assms(3) mult_pos_pos [of ?k per] by linarith
    then show ?thesis by fastforce
  qed
  ultimately have "GetAncestor m p (?k * per - 1) = Some (period_end m per p bi (nat ?k))"
    using GetAncestor_nth_prev [OF assms(1,2), of "?k * per - 1"] k by (auto simp: period_end_def algebra_simps)
  then show ?thesis using assms(2,3) md by (simp add: period_parent_def)
qed

definition deployment_ok :: "block_store \<Rightarrow> AbstractThresholdConditionChecker \<Rightarrow> Params \<Rightarrow> bool" where
  "deployment_ok m c ps \<longleftrightarrow> wf_store m \<and> timely m \<and> 0 < Period c ps \<and> BeginTime c ps \<le> EndTime c ps \<and> BeginTime c ps \<noteq> ALWAYS_ACTIVE"

lemma GetStateFor_state:
  assumes "deployment_ok m c ps" and "cache_ok m c ps cache" and "m p = Some bi"
  shows "\<exists>s cache'. GetStateFor m c (Some p) ps cache = Some (s, cache') \<and> cache_ok m c ps cache' \<and>
    bip9 m c ps (period_end m (Period c ps) p bi (nat ((nHeight bi + 1) div Period c ps))) s"
proof -
  let ?x = "period_end m (Period c ps) p bi (nat ((nHeight bi + 1) div Period c ps))"
  have d: "wf_store m" "timely m" "0 < Period c ps" "BeginTime c ps \<le> EndTime c ps" "BeginTime c ps \<noteq> ALWAYS_ACTIVE"
    using assms(1) by (auto simp: deployment_ok_def)
  have "0 \<le> nHeight bi" using d(1) assms(3) by (blast intro: wf_height wf_storeD)
  then have "ends_period m (Period c ps) ?x" using period_end_ends [OF d(1) assms(3) d(3)] quotient_le [OF d(3)] by blast
  then obtain cache' x' vs' s s' cache1 where "state_walk m (BeginTime c ps) (Period c ps) cache ?x [] = Some (cache', x', vs')"
      "cache' x' = Some s" "state_forward m c ps s cache' vs' = state_forward m c ps s' cache1 []" "bip9 m c ps ?x s'" "cache_ok m c ps cache1"
    using state_run [OF d(1-4) assms(2), of ?x "[]"] by blast
  then show ?thesis using period_parent_end [OF d(1) assms(3) d(3)] d(5) by (auto simp: GetStateFor_def)
qed

lemma bip9_active_mono:
  assumes wf: "wf_store m" and p: "m p = Some bi" and per: "0 < Period c ps"
    and a: "bip9 m c ps (period_end m (Period c ps) p bi i) THRESHOLD_ACTIVE"
  shows "int (i + j) * Period c ps \<le> nHeight bi + 1 \<Longrightarrow> bip9 m c ps (period_end m (Period c ps) p bi (i + j)) THRESHOLD_ACTIVE"
proof (induction j)
  case (Suc j)
  obtain q b where q: "period_end m (Period c ps) p bi (Suc (i + j)) = Some q" "m q = Some b" "nHeight b + 1 = int (Suc (i + j)) * Period c ps"
      "prev_end m (Period c ps) q b = period_end m (Period c ps) p bi (i + j)"
    using period_end_Suc [OF wf p per, of "i + j"] Suc.prems by auto
  have "int (i + j) * Period c ps \<le> nHeight bi + 1" using Suc.prems per by (simp add: algebra_simps)
  then have prev: "bip9 m c ps (prev_end m (Period c ps) q b) THRESHOLD_ACTIVE" using Suc.IH q(4) by simp
  obtain t where t: "GetMedianTimePast m q = Some t" using GetMedianTimePast_Some [OF wf q(2)] by blast
  show ?case unfolding add_Suc_right q(1)
    by (rule bip9.period [OF q(2) _ prev t bip9_step.active]) (simp add: q(3))
qed (use a in simp)

text \<open>
  C23: The cached computation of a deployment state returns on every well-formed block index and
  agrees with the state machine of BIP 9 run from the genesis block one period at a time, whatever a
  consistent cache already holds, and it leaves the cache consistent. The early exit for blocks
  before the start time and the caching are therefore invisible.
\<close>
theorem GetStateFor_correct:
  assumes "deployment_ok m c ps" and "cache_ok m c ps cache" and "m p = Some bi"
  shows "\<exists>s cache'. GetStateFor m c (Some p) ps cache = Some (s, cache') \<and> cache_ok m c ps cache' \<and>
    bip9 m c ps (period_end m (Period c ps) p bi (nat ((nHeight bi + 1) div Period c ps))) s \<and>
    (\<forall>u. bip9 m c ps (period_end m (Period c ps) p bi (nat ((nHeight bi + 1) div Period c ps))) u = (u = s))"
  using GetStateFor_state [OF assms] bip9_fun by metis

text \<open>
  C24: An activated rule is never deactivated: once the state after a block is active, it is active
  after every descendant of the block, for every consistent cache.
\<close>
theorem active_forever:
  assumes "deployment_ok m c ps" and "cache_ok m c ps cache" and "cache_ok m c ps cache2"
    and "m p = Some bi" and "GetStateFor m c (Some p) ps cache = Some (THRESHOLD_ACTIVE, cache1)"
    and "m p' = Some bi'" and "nth_prev m n p' = Some p"
  shows "\<exists>cache'. GetStateFor m c (Some p') ps cache2 = Some (THRESHOLD_ACTIVE, cache')"
proof -
  have d: "wf_store m" "0 < Period c ps" using assms(1) by (auto simp: deployment_ok_def)
  define i where "i = nat ((nHeight bi + 1) div Period c ps)"
  define j where "j = nat ((nHeight bi' + 1) div Period c ps)"
  have h: "nHeight bi = nHeight bi' - int n" "0 \<le> nHeight bi" "0 \<le> nHeight bi'"
    using nth_prev_height [OF d(1) assms(6,7)] assms(4) wf_height [OF wf_storeD [OF d(1) assms(4)]] wf_height [OF wf_storeD [OF d(1) assms(6)]]
    by auto
  have q: "int i * Period c ps \<le> nHeight bi + 1" "int j * Period c ps \<le> nHeight bi' + 1"
    using quotient_le [OF d(2)] h by (auto simp: i_def j_def)
  have "bip9 m c ps (period_end m (Period c ps) p bi i) THRESHOLD_ACTIVE"
    using GetStateFor_state [OF assms(1,2,4)] assms(5) by (auto simp: i_def)
  moreover have "period_end m (Period c ps) p bi i = period_end m (Period c ps) p' bi' i"
  proof -
    have "nat (nHeight bi' + 1 - int i * Period c ps) = n + nat (nHeight bi + 1 - int i * Period c ps)"
      using q(1) h(1) by (simp add: nat_add_distrib)
    then show ?thesis using assms(7) by (simp add: period_end_def nth_prev_add)
  qed
  moreover have "i \<le> j" unfolding i_def j_def using h(1) d(2) by (intro nat_mono zdiv_mono1) auto
  ultimately have "bip9 m c ps (period_end m (Period c ps) p' bi' j) THRESHOLD_ACTIVE"
    using bip9_active_mono [OF d(1) assms(6) d(2), of i "j - i"] q(2) by simp
  then show ?thesis using GetStateFor_state [OF assms(1,3,6)] bip9_fun unfolding j_def by blast
qed


section \<open>A concrete run\<close>

text \<open>The demonstration store with one block more, and a window of one block.\<close>

definition demo_chain :: block_store where
  "demo_chain = demo_store(4 \<mapsto> demo_entry (Some 2) None 3 40)"

definition demo_window :: Params where
  "demo_window = main_params\<lparr>nMinerConfirmationWindow := 1, nRuleChangeActivationThreshold := 0,
     vDeployments := \<lambda>d. \<lparr>dep_bit = 28, nStartTime = 5, nTimeout = 1000\<rparr>\<rparr>"

abbreviation (input) demo_checker :: AbstractThresholdConditionChecker where
  "demo_checker \<equiv> VersionBitsConditionChecker DEPLOYMENT_CSV"

lemma demo_chain_simps:
  "demo_chain 0 = Some (demo_entry None None 0 10)" "demo_chain (Suc 0) = Some (demo_entry (Some 0) (Some 0) 1 20)"
  "demo_chain 2 = Some (demo_entry (Some 1) (Some 0) 2 30)" "demo_chain 3 = Some (demo_entry (Some 0) (Some 0) 1 25)"
  "demo_chain 4 = Some (demo_entry (Some 2) None 3 40)"
  by (simp_all add: demo_chain_def demo_store_simps)

lemma demo_chain_wf: "wf_store demo_chain"
  unfolding demo_chain_def
  by (rule wf_store_insert [OF demo_store_wf]) (simp_all add: demo_store_def wf_entry_def)

lemma demo_chain_cases:
  assumes "demo_chain p = Some bi"
  obtains "p = 0" "bi = demo_entry None None 0 10" | "p = 1" "bi = demo_entry (Some 0) (Some 0) 1 20"
    | "p = 2" "bi = demo_entry (Some 1) (Some 0) 2 30" | "p = 3" "bi = demo_entry (Some 0) (Some 0) 1 25"
    | "p = 4" "bi = demo_entry (Some 2) None 3 40"
  using assms by (auto simp: demo_chain_def demo_store_def split: if_splits)

lemma demo_chain_times:
  "median_times demo_chain (Suc (Suc (Suc (Suc n)))) (Some 0) = Some [10]"
  "median_times demo_chain (Suc (Suc (Suc (Suc n)))) (Some 1) = Some [20, 10]"
  "median_times demo_chain (Suc (Suc (Suc (Suc n)))) (Some 2) = Some [30, 20, 10]"
  by (simp_all add: demo_chain_simps)

lemma demo_chain_median:
  "GetMedianTimePast demo_chain 0 = Some 10" "GetMedianTimePast demo_chain (Suc 0) = Some 20" "GetMedianTimePast demo_chain 2 = Some 20"
proof -
  have n: "nMedianTimeSpan = Suc (Suc (Suc (Suc 7)))" by (simp add: nMedianTimeSpan_def)
  show "GetMedianTimePast demo_chain 0 = Some 10" "GetMedianTimePast demo_chain (Suc 0) = Some 20" "GetMedianTimePast demo_chain 2 = Some 20"
    unfolding GetMedianTimePast_def n demo_chain_times One_nat_def [symmetric] by simp_all
qed

lemma demo_timely: "timely demo_chain"
  unfolding timely_def by (intro allI impI, erule demo_chain_cases) (auto simp: demo_chain_median)

lemma demo_deployment: "deployment_ok demo_chain demo_checker demo_window"
  by (simp add: deployment_ok_def demo_chain_wf demo_timely VersionBitsConditionChecker_def demo_window_def ALWAYS_ACTIVE_def)

lemma demo_fields:
  "Period demo_checker demo_window = 1" "BeginTime demo_checker demo_window = 5" "EndTime demo_checker demo_window = 1000"
  "Threshold demo_checker demo_window = 0"
  by (simp_all add: VersionBitsConditionChecker_def demo_window_def)

lemma demo_active: "bip9 demo_chain demo_checker demo_window (Some 2) THRESHOLD_ACTIVE"
proof -
  note step = bip9.period [where m = demo_chain and c = demo_checker and ps = demo_window]
  have "bip9 demo_chain demo_checker demo_window (Some 0) THRESHOLD_STARTED"
    by (rule step [OF demo_chain_simps(1), of THRESHOLD_DEFINED 10])
      (auto simp: prev_end_def demo_fields demo_chain_median bip9.genesis intro: bip9_step.started)
  then have "bip9 demo_chain demo_checker demo_window (Some 1) THRESHOLD_LOCKED_IN"
    by (intro step [of 1 "demo_entry (Some 0) (Some 0) 1 20" THRESHOLD_STARTED 20])
      (auto simp: prev_end_def demo_fields demo_chain_median demo_chain_simps intro: bip9_step.enough)
  then show ?thesis
    by (intro step [of 2 "demo_entry (Some 1) (Some 0) 2 30" THRESHOLD_LOCKED_IN 20])
      (auto simp: prev_end_def demo_fields demo_chain_median demo_chain_simps intro: bip9_step.activated)
qed

lemma demo_cache: "cache_ok demo_chain demo_checker demo_window (\<lambda>x. None)"
  by (simp add: cache_ok_def)

lemma demo_end: "period_end demo_chain 1 2 (demo_entry (Some (Suc 0)) (Some 0) 2 30) 3 = Some 2"
  by (simp add: period_end_def)

theorem GetStateFor_correct_witness:
  "\<exists>cache'. GetStateFor demo_chain demo_checker (Some 2) demo_window (\<lambda>x. None) = Some (THRESHOLD_ACTIVE, cache')"
  using GetStateFor_correct [OF demo_deployment demo_cache demo_chain_simps(3)] demo_active
  by (auto simp: demo_fields demo_end)

theorem active_forever_witness:
  "\<exists>cache'. GetStateFor demo_chain demo_checker (Some 4) demo_window (\<lambda>x. None) = Some (THRESHOLD_ACTIVE, cache')"
proof -
  obtain cache1 where "GetStateFor demo_chain demo_checker (Some 2) demo_window (\<lambda>x. None) = Some (THRESHOLD_ACTIVE, cache1)"
    using GetStateFor_state [OF demo_deployment demo_cache demo_chain_simps(3)] demo_active bip9_fun
    by (auto simp: demo_fields demo_end)
  then show ?thesis
    by (rule active_forever [OF demo_deployment demo_cache demo_cache demo_chain_simps(3) _ demo_chain_simps(5), where n = 1])
      (simp add: demo_chain_simps)
qed

end
