(* ===== verification/Sighash.thy ===== *)
theory Sighash
  imports Interpreter Transaction
begin

text \<open>
  The signature hash of a transaction and the checker that gives the interpreter its view of the
  spending transaction: \<^verbatim>\<open>script/interpreter.cpp\<close> from \<open>CTransactionSignatureSerializer\<close> on, and
  the encoding of public keys in \<^verbatim>\<open>pubkey.h\<close>. The verification of a signature over the curve is
  the parameter \<open>verify\<close>, with key, hash and signature as arguments. A hash type is the bit pattern of
  an \<open>int\<close>. \<open>None\<close> is a failed assertion.
\<close>

unbundle bit_operations_syntax

section \<open>The legacy form\<close>

definition fAnyoneCanPay :: "u32 \<Rightarrow> bool" where
  "fAnyoneCanPay nHashType \<longleftrightarrow> nHashType AND ucast SIGHASH_ANYONECANPAY \<noteq> 0"

definition fHashSingle :: "u32 \<Rightarrow> bool" where
  "fHashSingle nHashType \<longleftrightarrow> nHashType AND 0x1f = ucast SIGHASH_SINGLE"

definition fHashNone :: "u32 \<Rightarrow> bool" where
  "fHashNone nHashType \<longleftrightarrow> nHashType AND 0x1f = ucast SIGHASH_NONE"

lemma GetOp_ok_length: "GetOp it = (True, opcode, vch, it') \<Longrightarrow> length it' < length it"
  by (cases it) (simp, metis GetOp_length list.distinct(1))

text \<open>The first loop of \<open>SerializeScriptCode\<close>.\<close>

function count_separators :: "bytes \<Rightarrow> nat" where
  "count_separators it =
     (case GetOp it of
        (ok, opcode, vch, it') \<Rightarrow>
          if ok then (if opcode = OP_CODESEPARATOR then 1 else 0) + count_separators it' else 0)"
  by pat_completeness auto
termination
  by (relation "measure length") (simp, metis GetOp_ok_length in_measure)

text \<open>
  The second loop: \<open>itBegin\<close> and \<open>it\<close> are the rests of the script from the two iterators on. The
  result holds the bytes written and both iterators behind the loop.
\<close>

function write_segments :: "bytes \<Rightarrow> bytes \<Rightarrow> bytes \<times> bytes \<times> bytes" where
  "write_segments itBegin it =
     (case GetOp it of
        (ok, opcode, vch, it') \<Rightarrow>
          if \<not> ok then ([], itBegin, it')
          else if opcode = OP_CODESEPARATOR
          then (case write_segments it' it' of
                  (w, r) \<Rightarrow> (take (length itBegin - length it' - 1) itBegin @ w, r))
          else write_segments itBegin it')"
  by pat_completeness auto
termination
  by (relation "measure (\<lambda>(itBegin, it). length it)") (simp_all, (metis GetOp_ok_length)+)

declare count_separators.simps [simp del] write_segments.simps [simp del]

definition SerializeScriptCode :: "bytes \<Rightarrow> bytes" where
  "SerializeScriptCode scriptCode =
     (case write_segments scriptCode scriptCode of
        (w, itBegin, it) \<Rightarrow>
          WriteCompactSize (of_nat (length scriptCode - count_separators scriptCode)) @ w @
          (if itBegin \<noteq> [] then take (length itBegin - length it) itBegin else []))"

definition SerializeInput :: "bytes \<Rightarrow> Transaction \<Rightarrow> nat \<Rightarrow> u32 \<Rightarrow> nat \<Rightarrow> bytes" where
  "SerializeInput scriptCode txTo nIn nHashType nInput =
     (let nInput = (if fAnyoneCanPay nHashType then nIn else nInput)
      in ser_outpoint (prevout (vin txTo ! nInput)) @
         (if nInput \<noteq> nIn then ser_bytes [] else SerializeScriptCode scriptCode) @
         (if nInput \<noteq> nIn \<and> (fHashSingle nHashType \<or> fHashNone nHashType) then ser_int32 0
          else ser_writedata32 (nSequence (vin txTo ! nInput))))"

definition SerializeOutput :: "Transaction \<Rightarrow> nat \<Rightarrow> u32 \<Rightarrow> nat \<Rightarrow> bytes" where
  "SerializeOutput txTo nIn nHashType nOutput =
     (if fHashSingle nHashType \<and> nOutput \<noteq> nIn then ser_txout TxOut_null else ser_txout (vout txTo ! nOutput))"

definition CTransactionSignatureSerializer :: "bytes \<Rightarrow> Transaction \<Rightarrow> nat \<Rightarrow> u32 \<Rightarrow> bytes" where
  "CTransactionSignatureSerializer scriptCode txTo nIn nHashType =
     (let nInputs = (if fAnyoneCanPay nHashType then 1 else length (vin txTo));
          nOutputs = (if fHashNone nHashType then 0 else if fHashSingle nHashType then nIn + 1 else length (vout txTo))
      in ser_int32 (tx_nVersion txTo) @
         WriteCompactSize (of_nat nInputs) @ concat (map (SerializeInput scriptCode txTo nIn nHashType) [0..<nInputs]) @
         WriteCompactSize (of_nat nOutputs) @ concat (map (SerializeOutput txTo nIn nHashType) [0..<nOutputs]) @
         ser_writedata32 (nLockTime txTo))"

section \<open>The witness form\<close>

definition hash_all :: "bytes list \<Rightarrow> uint256" where
  "hash_all items = CHashWriter_GetHash (foldl CHashWriter_write (CSHA256_ctor (replicate 64 0)) items)"

definition GetPrevoutHash :: "Transaction \<Rightarrow> uint256" where
  "GetPrevoutHash txTo = hash_all (map (\<lambda>txin. ser_outpoint (prevout txin)) (vin txTo))"

definition GetSequenceHash :: "Transaction \<Rightarrow> uint256" where
  "GetSequenceHash txTo = hash_all (map (\<lambda>txin. ser_writedata32 (nSequence txin)) (vin txTo))"

definition GetOutputsHash :: "Transaction \<Rightarrow> uint256" where
  "GetOutputsHash txTo = hash_all (map ser_txout (vout txTo))"

record PrecomputedTransactionData =
  hashPrevouts :: uint256
  hashSequence :: uint256
  hashOutputs :: uint256
  ready :: bool

definition PrecomputedTransactionData_ctor :: "Transaction \<Rightarrow> PrecomputedTransactionData" where
  "PrecomputedTransactionData_ctor txTo =
     (if HasWitness txTo
      then \<lparr>hashPrevouts = GetPrevoutHash txTo, hashSequence = GetSequenceHash txTo, hashOutputs = GetOutputsHash txTo, ready = True\<rparr>
      else \<lparr>hashPrevouts = uint256_null, hashSequence = uint256_null, hashOutputs = uint256_null, ready = False\<rparr>)"

definition SignatureHash_v0 ::
  "bytes \<Rightarrow> Transaction \<Rightarrow> nat \<Rightarrow> u32 \<Rightarrow> CAmount \<Rightarrow> PrecomputedTransactionData option \<Rightarrow> uint256" where
  "SignatureHash_v0 scriptCode txTo nIn nHashType amount cache =
     (let cached = (\<lambda>sel fresh. case cache of None \<Rightarrow> fresh | Some c \<Rightarrow> if ready c then sel c else fresh);
          hashPrevouts = (if \<not> fAnyoneCanPay nHashType then cached hashPrevouts (GetPrevoutHash txTo) else uint256_null);
          hashSequence = (if \<not> fAnyoneCanPay nHashType \<and> \<not> fHashSingle nHashType \<and> \<not> fHashNone nHashType
                          then cached hashSequence (GetSequenceHash txTo) else uint256_null);
          hashOutputs = (if \<not> fHashSingle nHashType \<and> \<not> fHashNone nHashType then cached hashOutputs (GetOutputsHash txTo)
                         else if fHashSingle nHashType \<and> nIn < length (vout txTo) then hash_all [ser_txout (vout txTo ! nIn)]
                         else uint256_null)
      in hash_all
           [ser_int32 (tx_nVersion txTo), hashPrevouts, hashSequence, ser_outpoint (prevout (vin txTo ! nIn)), ser_bytes scriptCode,
            ser_int64 amount, ser_writedata32 (nSequence (vin txTo ! nIn)), hashOutputs, ser_writedata32 (nLockTime txTo),
            ser_writedata32 nHashType])"

definition uint256_one :: uint256 where
  "uint256_one = 1 # replicate 31 0"

definition SignatureHash ::
  "bytes \<Rightarrow> Transaction \<Rightarrow> nat \<Rightarrow> u32 \<Rightarrow> CAmount \<Rightarrow> SigVersion \<Rightarrow> PrecomputedTransactionData option \<Rightarrow> uint256 option" where
  "SignatureHash scriptCode txTo nIn nHashType amount sigversion cache =
     (if nIn \<ge> length (vin txTo) then None
      else if sigversion = SIGVERSION_WITNESS_V0 then Some (SignatureHash_v0 scriptCode txTo nIn nHashType amount cache)
      else if fHashSingle nHashType \<and> nIn \<ge> length (vout txTo) then Some uint256_one
      else Some (hash_all [CTransactionSignatureSerializer scriptCode txTo nIn nHashType, ser_writedata32 nHashType]))"

section \<open>Public keys\<close>

definition GetLen :: "u8 \<Rightarrow> nat" where
  "GetLen chHeader =
     (if chHeader = 2 \<or> chHeader = 3 then 33 else if chHeader = 4 \<or> chHeader = 6 \<or> chHeader = 7 then 65 else 0)"

text \<open>A key is the array of 65 bytes; a shorter key leaves the rest as it was, here zero.\<close>

definition CPubKey :: "bytes \<Rightarrow> bytes" where
  "CPubKey b =
     (let len = (if b = [] then 0 else GetLen (b ! 0))
      in if len \<noteq> 0 \<and> len = length b then b @ replicate (65 - len) 0 else 0xff # replicate 64 0)"

definition CPubKey_size :: "bytes \<Rightarrow> nat" where
  "CPubKey_size vch = GetLen (vch ! 0)"

definition CPubKey_IsValid :: "bytes \<Rightarrow> bool" where
  "CPubKey_IsValid vch \<longleftrightarrow> CPubKey_size vch > 0"

section \<open>The checker of a transaction input\<close>

type_synonym curve_verify = "bytes \<Rightarrow> uint256 \<Rightarrow> bytes \<Rightarrow> bool"

definition tx_CheckSig ::
  "curve_verify \<Rightarrow> Transaction \<Rightarrow> nat \<Rightarrow> CAmount \<Rightarrow> PrecomputedTransactionData option \<Rightarrow> bytes \<Rightarrow> bytes \<Rightarrow> bytes \<Rightarrow> SigVersion \<Rightarrow>
   bool option" where
  "tx_CheckSig verify txTo nIn amount txdata vchSigIn vchPubKey scriptCode sigversion =
     (let pubkey = CPubKey vchPubKey
      in if \<not> CPubKey_IsValid pubkey then Some False
         else if vchSigIn = [] then Some False
         else map_option (\<lambda>sighash. verify (take (CPubKey_size pubkey) pubkey) sighash (butlast vchSigIn))
                (SignatureHash scriptCode txTo nIn (ucast (last vchSigIn)) amount sigversion txdata))"

definition tx_CheckLockTime :: "Transaction \<Rightarrow> nat \<Rightarrow> int \<Rightarrow> bool" where
  "tx_CheckLockTime txTo nIn nLock =
     (let txLock = int (unat (nLockTime txTo))
      in if \<not> (txLock < LOCKTIME_THRESHOLD \<and> nLock < LOCKTIME_THRESHOLD \<or> txLock \<ge> LOCKTIME_THRESHOLD \<and> nLock \<ge> LOCKTIME_THRESHOLD)
         then False
         else if nLock > txLock then False
         else nSequence (vin txTo ! nIn) \<noteq> SEQUENCE_FINAL)"

definition tx_CheckSequence :: "Transaction \<Rightarrow> nat \<Rightarrow> int \<Rightarrow> bool" where
  "tx_CheckSequence txTo nIn nSeq =
     (let txToSequence = nSequence (vin txTo ! nIn);
          nLockTimeMask = SEQUENCE_LOCKTIME_TYPE_FLAG OR SEQUENCE_LOCKTIME_MASK;
          txToSequenceMasked = int (unat (txToSequence AND nLockTimeMask));
          nSequenceMasked = nSeq AND int (unat nLockTimeMask);
          flag = int (unat SEQUENCE_LOCKTIME_TYPE_FLAG)
      in if (word_of_int (tx_nVersion txTo) :: u32) < 2 then False
         else if txToSequence AND SEQUENCE_LOCKTIME_DISABLE_FLAG \<noteq> 0 then False
         else if \<not> (txToSequenceMasked < flag \<and> nSequenceMasked < flag \<or> txToSequenceMasked \<ge> flag \<and> nSequenceMasked \<ge> flag) then False
         else \<not> nSequenceMasked > txToSequenceMasked)"

text \<open>The checker of an input of the transaction, where \<open>tx_CheckSig\<close> always has a value.\<close>

definition TransactionSignatureChecker ::
  "curve_verify \<Rightarrow> Transaction \<Rightarrow> nat \<Rightarrow> CAmount \<Rightarrow> PrecomputedTransactionData option \<Rightarrow> BaseSignatureChecker" where
  "TransactionSignatureChecker verify txTo nIn amount txdata =
     \<lparr>CheckSig = \<lambda>vchSig vchPubKey scriptCode sigversion.
        tx_CheckSig verify txTo nIn amount txdata vchSig vchPubKey scriptCode sigversion = Some True,
      CheckLockTime = tx_CheckLockTime txTo nIn,
      CheckSequence = tx_CheckSequence txTo nIn\<rparr>"

end
