(* ===== verification/Sighash_Props.thy ===== *)
theory Sighash_Props
  imports Sighash TxVerify Chain_Views
begin

text \<open>
  Properties of the signature hash and of the lock time opcodes: what a signature covers and what it
  leaves open, and that the absolute and relative locks a script demands are met by every block that
  may hold the spending transaction.
\<close>

section \<open>Lock times\<close>

lemma tx_CheckLockTime_final:
  assumes "tx_CheckLockTime tx i n" and "i < length (vin tx)" and "IsFinalTx tx height time" and "0 \<le> n"
  shows "n = 0 \<or> n < (if n < LOCKTIME_THRESHOLD then height else time)"
proof -
  let ?l = "int (unat (nLockTime tx))"
  have n: "n \<le> ?l" "n < LOCKTIME_THRESHOLD \<longleftrightarrow> ?l < LOCKTIME_THRESHOLD" and "nSequence (vin tx ! i) \<noteq> SEQUENCE_FINAL"
    using assms(1) by (auto simp: tx_CheckLockTime_def Let_def split: if_splits)
  then have "\<not> list_all (\<lambda>txin. nSequence txin = SEQUENCE_FINAL) (vin tx)" using assms(2) by (auto simp: list_all_length)
  then have "nLockTime tx = 0 \<or> ?l < (if ?l < LOCKTIME_THRESHOLD then height else time)"
    using assms(3) by (auto simp: IsFinalTx_def Let_def split: if_splits)
  then show ?thesis using n assms(4) by (auto split: if_splits)
qed

text \<open>
  C25: A coin locked by \<open>OP_CHECKLOCKTIMEVERIFY\<close> cannot be spent early: when the opcode succeeds for an
  input of a transaction and the transaction is final for a block, the height or the time of the block
  is above the number on the stack, whichever of the two the number denotes.
\<close>
theorem CheckLockTimeVerify_enforced:
  assumes "env_flag env SCRIPT_VERIFY_CHECKLOCKTIMEVERIFY"
    and "env_checker env = TransactionSignatureChecker verify tx i amount txdata" and "i < length (vin tx)"
    and "exec_checklocktimeverify env st = Inr st'" and "IsFinalTx tx height time"
  shows "\<exists>n. script_num env (st_stack st ! 0) 5 = Inr n \<and> 0 \<le> n \<and>
    (n = 0 \<or> n < (if n < LOCKTIME_THRESHOLD then height else time))"
proof -
  obtain n where n: "script_num env (st_stack st ! 0) 5 = Inr n" "0 \<le> n" "CheckLockTime (env_checker env) n"
    using assms(1,4) by (auto simp: exec_checklocktimeverify_def split: if_splits sum.splits)
  then have "tx_CheckLockTime tx i n" using assms(2) by (simp add: TransactionSignatureChecker_def)
  then show ?thesis using tx_CheckLockTime_final [OF _ assms(3,5)] n by blast
qed

section \<open>Relative lock times\<close>

text \<open>The locks \<open>h\<close> and \<open>t\<close> cover what the sequence number of an input asks for.\<close>

definition lock_covered :: "block_store \<Rightarrow> ptr \<Rightarrow> int \<Rightarrow> int \<Rightarrow> TxIn \<Rightarrow> int \<Rightarrow> bool" where
  "lock_covered m block h t txin coinHeight \<longleftrightarrow>
     nSequence txin AND SEQUENCE_LOCKTIME_DISABLE_FLAG \<noteq> 0 \<or>
     (if nSequence txin AND SEQUENCE_LOCKTIME_TYPE_FLAG \<noteq> 0
      then \<exists>a ct. GetAncestor m block (max (coinHeight - 1) 0) = Some (Some a) \<and> GetMedianTimePast m a = Some ct \<and>
        ct + int (unat (push_bit SEQUENCE_LOCKTIME_GRANULARITY (nSequence txin AND SEQUENCE_LOCKTIME_MASK))) - 1 \<le> t
      else coinHeight + int (unat (nSequence txin AND SEQUENCE_LOCKTIME_MASK)) - 1 \<le> h)"

lemma sequence_loop_locks:
  "sequence_loop m block ins hs minH minT = Some ((h, t), hs') \<Longrightarrow>
    minH \<le> h \<and> minT \<le> t \<and> list_all (\<lambda>(txin, ch). lock_covered m block h t txin ch) (zip ins hs)"
proof (induction m block ins hs minH minT arbitrary: h t hs' rule: sequence_loop.induct)
  case (1 m block txin ins ch heights minH minT)
  show ?case
  proof (cases "nSequence txin AND SEQUENCE_LOCKTIME_DISABLE_FLAG \<noteq> 0")
    case True
    then obtain hs2 where "sequence_loop m block ins heights minH minT = Some ((h, t), hs2)" using 1(4) by auto
    from 1(1) [OF True this] show ?thesis using True by (simp add: lock_covered_def)
  next
    case dis: False
    show ?thesis
    proof (cases "nSequence txin AND SEQUENCE_LOCKTIME_TYPE_FLAG \<noteq> 0")
      case True
      then obtain a ct hs2 where r: "GetAncestor m block (max (ch - 1) 0) = Some (Some a)" "GetMedianTimePast m a = Some ct"
        "sequence_loop m block ins heights minH
           (max minT (ct + int (unat (push_bit SEQUENCE_LOCKTIME_GRANULARITY (nSequence txin AND SEQUENCE_LOCKTIME_MASK))) - 1)) = Some ((h, t), hs2)"
        using 1(4) dis by (auto split: option.splits)
      from 1(2) [OF dis True r(1) refl r(2,3)] show ?thesis using True r(1,2) by (simp add: lock_covered_def)
    next
      case False
      then obtain hs2 where r: "sequence_loop m block ins heights
          (max minH (ch + int (unat (nSequence txin AND SEQUENCE_LOCKTIME_MASK)) - 1)) minT = Some ((h, t), hs2)"
        using 1(4) dis by auto
      from 1(3) [OF dis False r] show ?thesis using False by (simp add: lock_covered_def)
    qed
  qed
qed auto

text \<open>The masks split a sequence number into its type and its value.\<close>

lemma seq_mask_split: "(x :: int) AND 0x40ffff = (x AND 0x400000) + (x AND 0xffff)"
proof -
  have "(x AND 0x400000) AND (x AND 0xffff) = x AND (0x400000 AND 0xffff)" by (simp only: and.assoc and.left_commute and.left_idem)
  then have "(x AND 0x400000) + (x AND 0xffff) = (x AND 0x400000) OR (x AND 0xffff)" by (intro disjunctive_add_eq_or) simp
  also have "\<dots> = x AND (0x400000 OR 0xffff)" by (rule bit.conj_disj_distrib [symmetric])
  finally show ?thesis by simp
qed

lemma and_exp_if: "(x :: int) AND 2 ^ k = (if bit x k then 2 ^ k else 0)"
  by (rule bit_eqI) (auto simp: bit_and_iff bit_exp_iff)

lemma seq_type: "(x :: int) AND 0x400000 = (if bit x 22 then 0x400000 else 0)"
  using and_exp_if [of x 22] by simp

lemma seq_value: "0 \<le> (x :: int) AND 0xffff" "x AND 0xffff < 0x10000"
proof -
  have "x AND 0xffff = take_bit 16 x" by (simp add: take_bit_eq_mask mask_eq_exp_minus_1)
  then show "0 \<le> (x :: int) AND 0xffff" "x AND 0xffff < 0x10000" using take_bit_int_less_exp [of 16 x] by simp_all
qed

lemma seq_compare:
  fixes x y :: int
  assumes "x AND 0x40ffff < 0x400000 \<and> y AND 0x40ffff < 0x400000 \<or> 0x400000 \<le> x AND 0x40ffff \<and> 0x400000 \<le> y AND 0x40ffff"
    and "x AND 0x40ffff \<le> y AND 0x40ffff"
  shows "(x AND 0x400000 = 0) = (y AND 0x400000 = 0)" and "x AND 0xffff \<le> y AND 0xffff"
proof -
  have order: "p = q \<and> u \<le> v" if "0 \<le> u" "u < 0x10000" "0 \<le> v" "v < 0x10000" "tu = (if p then 0x400000 else 0) + u" "tv = (if q then 0x400000 else 0) + v"
    "tu < 0x400000 \<and> tv < 0x400000 \<or> 0x400000 \<le> tu \<and> 0x400000 \<le> tv" "tu \<le> tv" for u v tu tv :: int and p q
    using that by (cases p; cases q) auto
  have "bit x 22 = bit y 22 \<and> x AND 0xffff \<le> y AND 0xffff"
    by (rule order [OF seq_value [of x] seq_value [of y] _ _ assms]) (simp_all only: seq_mask_split seq_type)
  then show "(x AND 0x400000 = 0) = (y AND 0x400000 = 0)" and "x AND 0xffff \<le> y AND 0xffff" by (simp_all add: seq_type)
qed

lemma tx_CheckSequence_parts:
  assumes "tx_CheckSequence tx i n"
  shows "\<not> (word_of_int (tx_nVersion tx) :: u32) < 2" "nSequence (vin tx ! i) AND SEQUENCE_LOCKTIME_DISABLE_FLAG = 0"
    "(n AND 0x400000 = 0) = (nSequence (vin tx ! i) AND SEQUENCE_LOCKTIME_TYPE_FLAG = 0)"
    "n AND 0xffff \<le> int (unat (nSequence (vin tx ! i) AND SEQUENCE_LOCKTIME_MASK))"
proof -
  let ?s = "nSequence (vin tx ! i)" and ?M = "SEQUENCE_LOCKTIME_TYPE_FLAG OR SEQUENCE_LOCKTIME_MASK"
  have c: "uint SEQUENCE_LOCKTIME_TYPE_FLAG = 0x400000" "uint SEQUENCE_LOCKTIME_MASK = 0xffff" "uint ?M = 0x40ffff"
    by (simp_all add: SEQUENCE_LOCKTIME_TYPE_FLAG_def SEQUENCE_LOCKTIME_MASK_def)
  have u: "int (unat w) = uint w" for w :: u32 by simp
  show "\<not> (word_of_int (tx_nVersion tx) :: u32) < 2" "?s AND SEQUENCE_LOCKTIME_DISABLE_FLAG = 0"
    using assms by (auto simp only: tx_CheckSequence_def Let_def split: if_splits)
  have t: "n AND uint ?M < uint SEQUENCE_LOCKTIME_TYPE_FLAG \<and> uint (?s AND ?M) < uint SEQUENCE_LOCKTIME_TYPE_FLAG \<or>
    uint SEQUENCE_LOCKTIME_TYPE_FLAG \<le> n AND uint ?M \<and> uint SEQUENCE_LOCKTIME_TYPE_FLAG \<le> uint (?s AND ?M)"
    "n AND uint ?M \<le> uint (?s AND ?M)"
    using assms unfolding tx_CheckSequence_def Let_def u by (auto simp only: not_less split: if_splits)
  note * = t [unfolded uint_and c]
  have "?s AND SEQUENCE_LOCKTIME_TYPE_FLAG = 0 \<longleftrightarrow> uint ?s AND 0x400000 = 0" by (metis uint_0_iff uint_and c(1))
  then show "(n AND 0x400000 = 0) = (?s AND SEQUENCE_LOCKTIME_TYPE_FLAG = 0)" using seq_compare(1) [OF *] by simp
  show "n AND 0xffff \<le> int (unat (?s AND SEQUENCE_LOCKTIME_MASK))" using seq_compare(2) [OF *] unfolding u uint_and c .
qed

lemma seq_granularity:
  "int (unat (push_bit SEQUENCE_LOCKTIME_GRANULARITY (w AND SEQUENCE_LOCKTIME_MASK))) = 512 * int (unat (w AND SEQUENCE_LOCKTIME_MASK))"
proof -
  have "unat (w AND SEQUENCE_LOCKTIME_MASK) \<le> unat SEQUENCE_LOCKTIME_MASK" by (simp add: word_le_nat_alt [symmetric] word_and_le1)
  then have "unat (w AND SEQUENCE_LOCKTIME_MASK) < 2 ^ 16" by (simp add: SEQUENCE_LOCKTIME_MASK_def)
  then have "unat (w AND SEQUENCE_LOCKTIME_MASK) * 2 ^ 9 < 2 ^ 32" by simp
  then have "unat (push_bit 9 (w AND SEQUENCE_LOCKTIME_MASK)) = unat (w AND SEQUENCE_LOCKTIME_MASK) * 2 ^ 9"
    by (simp add: push_bit_eq_mult unat_word_ariths)
  then show ?thesis by (simp add: SEQUENCE_LOCKTIME_GRANULARITY_def)
qed

text \<open>
  C26: A coin locked by \<open>OP_CHECKSEQUENCEVERIFY\<close> cannot be spent before it is old enough: when the
  opcode succeeds for an input and the transaction meets its sequence locks in a block, the height of
  the block, or the median time past of its parent, exceeds that of the coin by at least the number on
  the stack, in blocks or in units of 512 seconds.
\<close>
theorem CheckSequenceVerify_enforced:
  assumes "env_flag env SCRIPT_VERIFY_CHECKSEQUENCEVERIFY"
    and "env_checker env = TransactionSignatureChecker verify tx i amount txdata" and "i < length (vin tx)"
    and "exec_checksequenceverify env st = Inr st'"
    and "SequenceLocks m tx flags prevHeights block = Some True" and "flags AND LOCKTIME_VERIFY_SEQUENCE \<noteq> 0" and "m block = Some bi"
  shows "\<exists>n. script_num env (st_stack st ! 0) 5 = Inr n \<and> 0 \<le> n \<and>
    (n AND SEQUENCE_DISABLE_FLAG_int \<noteq> 0 \<or>
     (if n AND 0x400000 = 0 then prevHeights ! i + (n AND 0xffff) \<le> nHeight bi
      else \<exists>a ct q t. GetAncestor m block (max (prevHeights ! i - 1) 0) = Some (Some a) \<and> GetMedianTimePast m a = Some ct \<and>
        pprev bi = Some q \<and> GetMedianTimePast m q = Some t \<and> ct + 512 * (n AND 0xffff) \<le> t))"
proof -
  obtain n where n: "script_num env (st_stack st ! 0) 5 = Inr n" "0 \<le> n"
      "n AND SEQUENCE_DISABLE_FLAG_int \<noteq> 0 \<or> CheckSequence (env_checker env) n"
    using assms(1,4) by (auto simp: exec_checksequenceverify_def split: if_splits sum.splits)
  show ?thesis
  proof (cases "n AND SEQUENCE_DISABLE_FLAG_int \<noteq> 0")
    case False
    then have "tx_CheckSequence tx i n" using n(3) assms(2) by (simp add: TransactionSignatureChecker_def)
    note seq = tx_CheckSequence_parts [OF this]
    obtain h t0 hs where l: "CalculateSequenceLocks m tx flags prevHeights block = Some ((h, t0), hs)"
        "EvaluateSequenceLocks m bi (h, t0) = Some True"
      using assms(5,7) by (auto simp: SequenceLocks_def split: option.splits prod.splits)
    have "fEnforceBIP68 tx flags" using seq(1) assms(6) by (simp add: fEnforceBIP68_def)
    then have "sequence_loop m block (vin tx) prevHeights (- 1) (- 1) = Some ((h, t0), hs)" "length prevHeights = length (vin tx)"
      using l(1) by (auto simp: CalculateSequenceLocks_def split: if_splits)
    then have cov: "lock_covered m block h t0 (vin tx ! i) (prevHeights ! i)"
      using sequence_loop_locks assms(3) by (fastforce simp: list_all_length)
    obtain q t where q: "pprev bi = Some q" "GetMedianTimePast m q = Some t" "h < nHeight bi" "t0 < t"
      using l(2) by (auto simp: EvaluateSequenceLocks_def split: option.splits)
    have "if n AND 0x400000 = 0 then prevHeights ! i + (n AND 0xffff) \<le> nHeight bi
      else \<exists>a ct. GetAncestor m block (max (prevHeights ! i - 1) 0) = Some (Some a) \<and> GetMedianTimePast m a = Some ct \<and> ct + 512 * (n AND 0xffff) \<le> t"
      using cov seq(2,4) q(3,4) unfolding lock_covered_def seq(3) seq_granularity by (auto split: if_splits)
    then show ?thesis using n(1,2) q(1,2) by (auto split: if_splits)
  qed (use n in blast)
qed

section \<open>What a signature covers\<close>

lemma foldl_Write_repr: "sha_repr st m \<Longrightarrow> sha_repr (foldl CHashWriter_write st items) (m @ concat items)"
proof (induction items arbitrary: st m)
  case (Cons x items)
  then show ?case using Cons.IH [OF Write_repr [OF Cons.prems, of x]] by (simp add: CHashWriter_write_def)
qed simp

lemma hash_all_fips: "hash_all items = fips_sha256 (fips_sha256 (concat items))"
  using foldl_Write_repr [OF repr_ctor [of "replicate 64 0"], of items]
  by (simp add: hash_all_def CHashWriter_GetHash_def CHash256_repr)

lemma hash_all_length: "length (hash_all items) = 32"
  by (simp add: hash_all_fips fips_sha256_length)

text \<open>The parts of a transaction a signature may cover: everything but the scripts and witnesses of the inputs.\<close>

definition unsigned_tx :: "Transaction \<Rightarrow> int \<times> COutPoint list \<times> u32 list \<times> TxOut list \<times> u32" where
  "unsigned_tx tx = (tx_nVersion tx, map prevout (vin tx), map nSequence (vin tx), vout tx, nLockTime tx)"

definition precomputed_ok :: "Transaction \<Rightarrow> PrecomputedTransactionData option \<Rightarrow> bool" where
  "precomputed_ok tx c \<longleftrightarrow> c = None \<or> c = Some (PrecomputedTransactionData_ctor tx)"

lemma unsigned_nth:
  assumes "unsigned_tx tx = unsigned_tx tx'"
  shows "length (vin tx) = length (vin tx')" "i < length (vin tx) \<Longrightarrow> prevout (vin tx ! i) = prevout (vin tx' ! i)"
    "i < length (vin tx) \<Longrightarrow> nSequence (vin tx ! i) = nSequence (vin tx' ! i)"
    "vout tx = vout tx'" "tx_nVersion tx = tx_nVersion tx'" "nLockTime tx = nLockTime tx'"
  using assms unfolding unsigned_tx_def prod.inject by (auto dest: map_eq_imp_length_eq, (metis (no_types) length_map nth_map)+)

lemma part_hashes:
  "GetPrevoutHash tx = hash_all (map ser_outpoint (map prevout (vin tx)))"
  "GetSequenceHash tx = hash_all (map ser_writedata32 (map nSequence (vin tx)))"
  by (simp_all add: GetPrevoutHash_def GetSequenceHash_def comp_def)

lemma SignatureHash_v0_cache: "precomputed_ok tx c \<Longrightarrow> SignatureHash_v0 sc tx i ht a c = SignatureHash_v0 sc tx i ht a None"
  by (auto simp: precomputed_ok_def SignatureHash_v0_def PrecomputedTransactionData_ctor_def Let_def)

lemma SignatureHash_v0_unsigned:
  assumes "unsigned_tx tx = unsigned_tx tx'" and "i < length (vin tx)"
  shows "SignatureHash_v0 sc tx i ht a None = SignatureHash_v0 sc tx' i ht a None"
proof -
  have "GetPrevoutHash tx = GetPrevoutHash tx'" "GetSequenceHash tx = GetSequenceHash tx'" "GetOutputsHash tx = GetOutputsHash tx'"
    using assms(1) unfolding part_hashes by (auto simp: unsigned_tx_def GetOutputsHash_def)
  then show ?thesis using unsigned_nth [OF assms(1)] assms(2) by (simp add: SignatureHash_v0_def)
qed

lemma legacy_unsigned:
  assumes "unsigned_tx tx = unsigned_tx tx'" and "i < length (vin tx)"
  shows "CTransactionSignatureSerializer sc tx i ht = CTransactionSignatureSerializer sc tx' i ht"
proof -
  note u = unsigned_nth [OF assms(1)]
  have "SerializeInput sc tx i ht k = SerializeInput sc tx' i ht k" if "k < (if fAnyoneCanPay ht then 1 else length (vin tx))" for k
    using u(1) u(2,3) [of i] u(2,3) [of k] that assms(2) by (auto simp: SerializeInput_def Let_def)
  moreover have "SerializeOutput tx i ht = SerializeOutput tx' i ht" using u(4) by (auto simp: SerializeOutput_def)
  ultimately show ?thesis using u(1,4,5,6)
    unfolding CTransactionSignatureSerializer_def Let_def by (auto intro!: arg_cong [where f = concat] cong: map_cong)
qed

text \<open>
  The signature hash ignores the scripts and the witnesses of the inputs, in both forms and for
  every hash type, and precomputed data never changes it. Signing one input therefore cannot
  invalidate the signature of another.
\<close>
theorem SignatureHash_unsigned:
  assumes "unsigned_tx tx = unsigned_tx tx'" and "precomputed_ok tx c" and "precomputed_ok tx' c'"
  shows "SignatureHash sc tx i ht a v c = SignatureHash sc tx' i ht a v c'"
  using SignatureHash_v0_unsigned [OF assms(1), of i] legacy_unsigned [OF assms(1), of i] unsigned_nth(1,4) [OF assms(1)]
    SignatureHash_v0_cache [OF assms(2)] SignatureHash_v0_cache [OF assms(3)]
  by (simp add: SignatureHash_def)

text \<open>The bytes that are hashed in the witness form for \<open>SIGHASH_ALL\<close>.\<close>

definition prevout_bytes :: "Transaction \<Rightarrow> bytes" where
  "prevout_bytes tx = concat (map ser_outpoint (map prevout (vin tx)))"

definition sequence_bytes :: "Transaction \<Rightarrow> bytes" where
  "sequence_bytes tx = concat (map ser_writedata32 (map nSequence (vin tx)))"

definition output_bytes :: "Transaction \<Rightarrow> bytes" where
  "output_bytes tx = concat (map ser_txout (vout tx))"

definition sighash_all_bytes :: "bytes \<Rightarrow> Transaction \<Rightarrow> nat \<Rightarrow> CAmount \<Rightarrow> bytes" where
  "sighash_all_bytes sc tx i a =
     ser_int32 (tx_nVersion tx) @ GetPrevoutHash tx @ GetSequenceHash tx @ ser_outpoint (prevout (vin tx ! i)) @ ser_bytes sc @
     ser_int64 a @ ser_writedata32 (nSequence (vin tx ! i)) @ GetOutputsHash tx @ ser_writedata32 (nLockTime tx) @
     ser_writedata32 (ucast SIGHASH_ALL)"

definition double_sha :: "bytes \<Rightarrow> bytes" where
  "double_sha b = fips_sha256 (fips_sha256 b)"

lemma sighash_all: "SignatureHash_v0 sc tx i (ucast SIGHASH_ALL) a None = double_sha (sighash_all_bytes sc tx i a)"
  by (simp add: SignatureHash_v0_def sighash_all_bytes_def fAnyoneCanPay_def fHashSingle_def fHashNone_def SIGHASH_ALL_def
      SIGHASH_ANYONECANPAY_def SIGHASH_SINGLE_def SIGHASH_NONE_def hash_all_fips double_sha_def)

lemma part_double_sha:
  "GetPrevoutHash tx = double_sha (prevout_bytes tx)" "GetSequenceHash tx = double_sha (sequence_bytes tx)"
  "GetOutputsHash tx = double_sha (output_bytes tx)"
  by (simp_all only: part_hashes GetOutputsHash_def hash_all_fips double_sha_def prevout_bytes_def sequence_bytes_def output_bytes_def)

lemma double_sha_length: "length (double_sha b) = 32"
  by (simp add: double_sha_def fips_sha256_length)

context readback begin

lemma concat_inj:
  assumes "\<And>x. valid x \<Longrightarrow> ser x \<noteq> []"
  shows "list_all valid xs \<Longrightarrow> list_all valid ys \<Longrightarrow> concat (map ser xs) = concat (map ser ys) \<Longrightarrow> xs = ys"
proof (induction xs arbitrary: ys)
  case Nil then show ?case using assms by (cases ys) auto
next
  case (Cons x xs)
  then obtain y ys' where y: "ys = y # ys'" using assms by (cases ys) auto
  then have "x = y \<and> concat (map ser xs) = concat (map ser ys')"
    using Cons.prems by (intro prefix_free) auto
  then show ?case using Cons y by simp
qed

end

lemma ser_nonempty: "ser_outpoint p \<noteq> []" "ser_writedata32 w \<noteq> []" "ser_txout t \<noteq> []"
  by (auto simp: ser_outpoint_def ser_txout_def ser_writedata32_def ser_int64_def ser_writedata64_def WriteLE32_def WriteLE64_def
      dest!: arg_cong [where f = length])

text \<open>The ranges of the C++ types, for the parts a signature covers.\<close>

definition signable :: "bytes \<Rightarrow> Transaction \<Rightarrow> nat \<Rightarrow> CAmount \<Rightarrow> bool" where
  "signable sc tx i a \<longleftrightarrow> i < length (vin tx) \<and> vec_ok (\<lambda>_. True) sc \<and> int64_range a \<and> int32_range (tx_nVersion tx) \<and>
     list_all outpoint_ok (map prevout (vin tx)) \<and> list_all txout_ok (vout tx)"

text \<open>The pairs of strings do not collide.\<close>

definition no_collision :: "(bytes \<times> bytes) list \<Rightarrow> bool" where
  "no_collision ps \<longleftrightarrow> list_all (\<lambda>(x, y). double_sha x = double_sha y \<longrightarrow> x = y) ps"

text \<open>
  C27: A signature of the witness form with \<open>SIGHASH_ALL\<close> covers the whole transaction: if two uses
  have the same signature hash and the strings hashed on the way do not collide, then they agree on
  the script, the amount, the input that is signed, and on the version, the inputs with their sequence
  numbers, the outputs and the lock time of the transaction.
\<close>
theorem SignatureHash_commits:
  assumes "signable sc tx i a" and "signable sc' tx' i' a'"
    and "SignatureHash sc tx i (ucast SIGHASH_ALL) a SIGVERSION_WITNESS_V0 None = SignatureHash sc' tx' i' (ucast SIGHASH_ALL) a' SIGVERSION_WITNESS_V0 None"
    and "no_collision [(sighash_all_bytes sc tx i a, sighash_all_bytes sc' tx' i' a'), (prevout_bytes tx, prevout_bytes tx'),
      (sequence_bytes tx, sequence_bytes tx'), (output_bytes tx, output_bytes tx')]"
  shows "sc = sc' \<and> a = a' \<and> prevout (vin tx ! i) = prevout (vin tx' ! i') \<and> unsigned_tx tx = unsigned_tx tx'"
proof -
  note ok = assms(1,2) [unfolded signable_def]
  have "sighash_all_bytes sc tx i a = sighash_all_bytes sc' tx' i' a'"
    using assms(3,4) ok by (simp add: SignatureHash_def sighash_all no_collision_def)
  then have v: "tx_nVersion tx = tx_nVersion tx'"
    and r1: "GetPrevoutHash tx @ GetSequenceHash tx @ ser_outpoint (prevout (vin tx ! i)) @ ser_bytes sc @
     ser_int64 a @ ser_writedata32 (nSequence (vin tx ! i)) @ GetOutputsHash tx @ ser_writedata32 (nLockTime tx) @ ser_writedata32 (ucast SIGHASH_ALL) =
     GetPrevoutHash tx' @ GetSequenceHash tx' @ ser_outpoint (prevout (vin tx' ! i')) @ ser_bytes sc' @
     ser_int64 a' @ ser_writedata32 (nSequence (vin tx' ! i')) @ GetOutputsHash tx' @ ser_writedata32 (nLockTime tx') @ ser_writedata32 (ucast SIGHASH_ALL)"
    unfolding sighash_all_bytes_def using i32.prefix_free ok by blast+
  then have p: "GetPrevoutHash tx = GetPrevoutHash tx'" and s: "GetSequenceHash tx = GetSequenceHash tx'"
    and r2: "ser_outpoint (prevout (vin tx ! i)) @ ser_bytes sc @ ser_int64 a @ ser_writedata32 (nSequence (vin tx ! i)) @ GetOutputsHash tx @
       ser_writedata32 (nLockTime tx) @ ser_writedata32 (ucast SIGHASH_ALL) =
     ser_outpoint (prevout (vin tx' ! i')) @ ser_bytes sc' @ ser_int64 a' @ ser_writedata32 (nSequence (vin tx' ! i')) @ GetOutputsHash tx' @
       ser_writedata32 (nLockTime tx') @ ser_writedata32 (ucast SIGHASH_ALL)"
    by (simp_all add: part_double_sha double_sha_length append_eq_append_conv)
  have "outpoint_ok (prevout (vin tx ! i))" "outpoint_ok (prevout (vin tx' ! i'))" using ok by (auto simp: list_all_length)
  note q = outpoint.prefix_free [OF this r2]
  note b = blob.prefix_free [OF _ _ conjunct2 [OF q]]
  have b': "sc = sc'" and r3: "ser_int64 a @ ser_writedata32 (nSequence (vin tx ! i)) @ GetOutputsHash tx @ ser_writedata32 (nLockTime tx) @ ser_writedata32 (ucast SIGHASH_ALL) =
     ser_int64 a' @ ser_writedata32 (nSequence (vin tx' ! i')) @ GetOutputsHash tx' @ ser_writedata32 (nLockTime tx') @ ser_writedata32 (ucast SIGHASH_ALL)"
    using b ok by auto
  have am: "a = a'" and r4: "ser_writedata32 (nSequence (vin tx ! i)) @ GetOutputsHash tx @ ser_writedata32 (nLockTime tx) @ ser_writedata32 (ucast SIGHASH_ALL) =
     ser_writedata32 (nSequence (vin tx' ! i')) @ GetOutputsHash tx' @ ser_writedata32 (nLockTime tx') @ ser_writedata32 (ucast SIGHASH_ALL)"
    using i64.prefix_free [OF _ _ r3] ok by auto
  have o: "GetOutputsHash tx = GetOutputsHash tx'"
    and r5: "ser_writedata32 (nLockTime tx) @ ser_writedata32 (ucast SIGHASH_ALL) = ser_writedata32 (nLockTime tx') @ ser_writedata32 (ucast SIGHASH_ALL)"
    using conjunct2 [OF u32.prefix_free [OF _ _ r4]] by (simp_all add: part_double_sha double_sha_length append_eq_append_conv)
  have l: "nLockTime tx = nLockTime tx'" using u32.prefix_free [OF _ _ r5] by simp
  have "prevout_bytes tx = prevout_bytes tx'" "sequence_bytes tx = sequence_bytes tx'" "output_bytes tx = output_bytes tx'"
    using p s o assms(4) by (auto simp: part_double_sha no_collision_def)
  then have "map prevout (vin tx) = map prevout (vin tx')" "map nSequence (vin tx) = map nSequence (vin tx')" "vout tx = vout tx'"
    unfolding prevout_bytes_def sequence_bytes_def output_bytes_def
    using outpoint.concat_inj [OF ser_nonempty(1)] u32.concat_inj [OF ser_nonempty(2)] txout.concat_inj [OF ser_nonempty(3)] ok
    by (simp_all add: list_all_iff)
  then show ?thesis using v b' am q l by (simp add: unsigned_tx_def)
qed


section \<open>Witnesses\<close>

definition demo_cltv_tx :: Transaction where
  "demo_cltv_tx = \<lparr>vin = [\<lparr>prevout = \<lparr>op_hash = replicate 32 0, op_n = 0\<rparr>, scriptSig = [], nSequence = 1, scriptWitness = []\<rparr>],
     vout = [], nLockTime = 100, tx_nVersion = 2\<rparr>"

definition demo_lock_env :: script_env where
  "demo_lock_env = \<lparr>env_flags = SCRIPT_VERIFY_CHECKLOCKTIMEVERIFY OR SCRIPT_VERIFY_CHECKSEQUENCEVERIFY, env_sigversion = SIGVERSION_BASE,
     env_checker = TransactionSignatureChecker (\<lambda>k h s. False) demo_cltv_tx 0 0 None,
     env_crypto = \<lparr>CRIPEMD160 = id, CSHA1 = id, CheckLowS = (\<lambda>s. True)\<rparr>\<rparr>"

definition demo_lock_state :: "bytes \<Rightarrow> eval_state" where
  "demo_lock_state n = \<lparr>st_stack = [n], st_altstack = [], st_vfExec = [], st_nOpCount = 0, st_pbegincodehash = []\<rparr>"

lemma demo_flags:
  "env_flag demo_lock_env SCRIPT_VERIFY_CHECKLOCKTIMEVERIFY" "env_flag demo_lock_env SCRIPT_VERIFY_CHECKSEQUENCEVERIFY"
  by (simp_all add: demo_lock_env_def SCRIPT_VERIFY_CHECKLOCKTIMEVERIFY_def SCRIPT_VERIFY_CHECKSEQUENCEVERIFY_def has_flag_def)

lemma demo_nums:
  "script_num demo_lock_env [100] 5 = Inr 100" "script_num demo_lock_env [1] 5 = Inr 1"
  by code_simp+

lemma demo_checks: "tx_CheckLockTime demo_cltv_tx 0 100" "tx_CheckSequence demo_cltv_tx 0 1" "IsFinalTx demo_cltv_tx 101 0"
  by (simp_all add: tx_CheckLockTime_def tx_CheckSequence_def IsFinalTx_def demo_cltv_tx_def LOCKTIME_THRESHOLD_def SEQUENCE_FINAL_def
      SEQUENCE_LOCKTIME_DISABLE_FLAG_def SEQUENCE_LOCKTIME_TYPE_FLAG_def SEQUENCE_LOCKTIME_MASK_def)

lemma demo_locks:
  "exec_checklocktimeverify demo_lock_env (demo_lock_state [100]) = Inr (demo_lock_state [100])"
  "exec_checksequenceverify demo_lock_env (demo_lock_state [1]) = Inr (demo_lock_state [1])"
  using demo_flags demo_nums demo_checks
  by (simp_all add: exec_checklocktimeverify_def exec_checksequenceverify_def demo_lock_state_def SEQUENCE_DISABLE_FLAG_int_def)
    (simp_all add: demo_lock_env_def TransactionSignatureChecker_def)

theorem CheckLockTimeVerify_enforced_witness:
  "\<exists>n. script_num demo_lock_env (st_stack (demo_lock_state [100]) ! 0) 5 = Inr n \<and> 0 \<le> n \<and>
    (n = 0 \<or> n < (if n < LOCKTIME_THRESHOLD then 101 else 0))"
  by (rule CheckLockTimeVerify_enforced [OF demo_flags(1) _ _ demo_locks(1) demo_checks(3)]) (simp_all add: demo_lock_env_def demo_cltv_tx_def)

lemma demo_sequence: "SequenceLocks demo_store demo_cltv_tx LOCKTIME_VERIFY_SEQUENCE [1] 2 = Some True"
proof -
  have "(1 :: u32) AND SEQUENCE_LOCKTIME_DISABLE_FLAG = 0" "(1 :: u32) AND SEQUENCE_LOCKTIME_TYPE_FLAG = 0"
    "(1 :: u32) AND SEQUENCE_LOCKTIME_MASK = 1"
    by (simp_all add: SEQUENCE_LOCKTIME_DISABLE_FLAG_def SEQUENCE_LOCKTIME_TYPE_FLAG_def SEQUENCE_LOCKTIME_MASK_def)
  then have "CalculateSequenceLocks demo_store demo_cltv_tx LOCKTIME_VERIFY_SEQUENCE [1] 2 = Some ((1, -1), [1])"
    by (simp add: CalculateSequenceLocks_def demo_cltv_tx_def fEnforceBIP68_def LOCKTIME_VERIFY_SEQUENCE_def)
  then show ?thesis using demo_median by (simp add: SequenceLocks_def EvaluateSequenceLocks_def demo_store_simps)
qed

theorem CheckSequenceVerify_enforced_witness: "[1 :: int] ! 0 + 1 \<le> nHeight (demo_entry (Some 1) (Some 0) 2 30)"
proof -
  have "(1 :: int) AND SEQUENCE_DISABLE_FLAG_int = 0" by (simp add: SEQUENCE_DISABLE_FLAG_int_def)
  then show ?thesis
    using CheckSequenceVerify_enforced [OF demo_flags(2) _ _ demo_locks(2) demo_sequence, where bi = "demo_entry (Some 1) (Some 0) 2 30" and i = 0 and verify = "\<lambda>k h s. False" and amount = 0 and txdata = None]
    by (auto simp: demo_lock_env_def demo_cltv_tx_def demo_store_simps demo_lock_state_def demo_nums [unfolded demo_lock_env_def demo_cltv_tx_def] LOCKTIME_VERIFY_SEQUENCE_def)
qed

definition demo_signed_tx :: Transaction where
  "demo_signed_tx = demo_cltv_tx\<lparr>vin := map (\<lambda>t. t\<lparr>scriptSig := [1, 2], scriptWitness := [[3]]\<rparr>) (vin demo_cltv_tx)\<rparr>"

theorem SignatureHash_unsigned_witness:
  "demo_signed_tx \<noteq> demo_cltv_tx \<and> SignatureHash [] demo_signed_tx 0 1 5 SIGVERSION_WITNESS_V0 (Some (PrecomputedTransactionData_ctor demo_signed_tx)) =
   SignatureHash [] demo_cltv_tx 0 1 5 SIGVERSION_WITNESS_V0 None"
  using SignatureHash_unsigned [of demo_signed_tx demo_cltv_tx "Some (PrecomputedTransactionData_ctor demo_signed_tx)" None "[]" 0 1 5 SIGVERSION_WITNESS_V0]
  by (simp add: demo_signed_tx_def demo_cltv_tx_def unsigned_tx_def precomputed_ok_def)

theorem SignatureHash_commits_witness:
  "signable [] demo_signed_tx 0 5 \<and> signable [] demo_cltv_tx 0 5 \<and> unsigned_tx demo_signed_tx = unsigned_tx demo_cltv_tx"
proof -
  have u: "unsigned_tx demo_signed_tx = unsigned_tx demo_cltv_tx" by (simp add: demo_signed_tx_def demo_cltv_tx_def unsigned_tx_def)
  have s: "signable [] demo_signed_tx 0 5" "signable [] demo_cltv_tx 0 5"
    by (simp_all add: signable_def demo_signed_tx_def demo_cltv_tx_def vec_ok_def int64_range_def int32_range_def outpoint_ok_def)
  have "SignatureHash [] demo_signed_tx 0 (ucast SIGHASH_ALL) 5 SIGVERSION_WITNESS_V0 None = SignatureHash [] demo_cltv_tx 0 (ucast SIGHASH_ALL) 5 SIGVERSION_WITNESS_V0 None"
    using SignatureHash_v0_unsigned [OF u] by (simp add: SignatureHash_def demo_signed_tx_def demo_cltv_tx_def)
  moreover have "no_collision [(sighash_all_bytes [] demo_signed_tx 0 5, sighash_all_bytes [] demo_cltv_tx 0 5),
      (prevout_bytes demo_signed_tx, prevout_bytes demo_cltv_tx), (sequence_bytes demo_signed_tx, sequence_bytes demo_cltv_tx),
      (output_bytes demo_signed_tx, output_bytes demo_cltv_tx)]"
    by (simp add: no_collision_def sighash_all_bytes_def part_hashes GetOutputsHash_def prevout_bytes_def sequence_bytes_def output_bytes_def
        demo_signed_tx_def demo_cltv_tx_def)
  ultimately show ?thesis using SignatureHash_commits [OF s] s by blast
qed

end
