(* ===== verification/BlockCheck.thy ===== *)
theory BlockCheck
  imports TxVerify VersionBits Pow Hex
begin

text \<open>
  The checks of blocks that need no coins, \<^verbatim>\<open>validation.cpp\<close>: the header, the block on its own,
  the witness commitment, and the checks against the previous headers. The cache of deployment states
  is a global of the source; a check that consults it takes the cache as a state and returns it
  updated, also when it rejects.
\<close>

unbundle bit_operations_syntax

section \<open>Checks with a state\<close>

type_synonym ('s, 'a) check = "'s \<Rightarrow> 'a verdict \<times> 's"

definition creturn :: "'a \<Rightarrow> ('s, 'a) check" where
  "creturn x s = (Inr x, s)"

definition cbind :: "('s, 'a) check \<Rightarrow> ('a \<Rightarrow> ('s, 'b) check) \<Rightarrow> ('s, 'b) check" where
  "cbind f g s = (case f s of (Inl e, s') \<Rightarrow> (Inl e, s') | (Inr x, s') \<Rightarrow> g x s')"

definition verdict :: "'a verdict \<Rightarrow> ('s, 'a) check" where
  "verdict v s = (v, s)"

text \<open>Reject when the condition holds.\<close>

definition reject_if :: "bool \<Rightarrow> unit verdict \<Rightarrow> ('s, unit) check" where
  "reject_if b v s = (if b then v else Inr (), s)"

text \<open>A computation that may fail an assertion.\<close>

definition expect :: "'a option \<Rightarrow> ('s, 'a) check" where
  "expect r s = (case r of None \<Rightarrow> Inl Aborted | Some x \<Rightarrow> Inr x, s)"

lemma cbind_InrE:
  assumes "cbind f g s = (Inr y, s'')"
  obtains x s' where "f s = (Inr x, s')" "g x s' = (Inr y, s'')"
  using assms by (auto simp: cbind_def split: prod.splits sum.splits)

lemma reject_if_Inr: "reject_if b v s = (Inr (), s') \<longleftrightarrow> s' = s \<and> (\<not> b \<or> v = Inr ())"
  by (auto simp: reject_if_def)

lemma expect_Inr: "expect r s = (Inr x, s') \<longleftrightarrow> s' = s \<and> r = Some x"
  by (auto simp: expect_def split: option.splits)

section \<open>The block on its own\<close>

definition CheckBlockHeader :: "BlockHeader \<Rightarrow> Params \<Rightarrow> bool \<Rightarrow> unit verdict" where
  "CheckBlockHeader block consensusParams fCheckPOW =
     (if fCheckPOW \<and> \<not> CheckProofOfWork (GetPoWHash block) (bh_nBits block) consensusParams
      then DoS 50 REJECT_INVALID ''high-hash'' False else Inr ())"

text \<open>The rejection of a transaction, recorded a second time for the block.\<close>

definition invalid_again :: "unit verdict \<Rightarrow> unit verdict" where
  "invalid_again v =
     (case v of Inl (Rejected st) \<Rightarrow> Inl (Rejected (st\<lparr>corruptionPossible := False\<rparr>)) | _ \<Rightarrow> v)"

fun check_transactions :: "Transaction list \<Rightarrow> unit verdict" where
  "check_transactions [] = Inr ()"
| "check_transactions (tx # txs) =
     (case CheckTransaction tx False of
        Inl e \<Rightarrow> invalid_again (Inl e)
      | Inr _ \<Rightarrow> check_transactions txs)"

text \<open>The block is the state: a passed check with both flags marks it as checked.\<close>

definition CheckBlock :: "Params \<Rightarrow> bool \<Rightarrow> bool \<Rightarrow> (Block, unit) check" where
  "CheckBlock consensusParams fCheckPOW fCheckMerkleRoot block =
     (if fChecked block then (Inr (), block)
      else
        cbind (verdict (CheckBlockHeader (header block) consensusParams fCheckPOW)) (\<lambda>_.
        cbind (if fCheckMerkleRoot
               then cbind (expect (BlockMerkleRoot block)) (\<lambda>(hashMerkleRoot2, mutated).
                    cbind (reject_if (hashMerkleRoot (header block) \<noteq> hashMerkleRoot2)
                             (DoS 100 REJECT_INVALID ''bad-txnmrklroot'' True)) (\<lambda>_.
                    reject_if mutated (DoS 100 REJECT_INVALID ''bad-txns-duplicate'' True)))
               else creturn ()) (\<lambda>_.
        cbind (reject_if (vtx block = [] \<or> length (vtx block) * WITNESS_SCALE_FACTOR > MAX_BLOCK_WEIGHT \<or>
                          length (ser_block (PROTOCOL_VERSION OR SERIALIZE_TRANSACTION_NO_WITNESS) block) * WITNESS_SCALE_FACTOR
                            > MAX_BLOCK_WEIGHT)
                 (DoS 100 REJECT_INVALID ''bad-blk-length'' False)) (\<lambda>_.
        cbind (reject_if (vtx block = [] \<or> \<not> IsCoinBase (vtx block ! 0))
                 (DoS 100 REJECT_INVALID ''bad-cb-missing'' False)) (\<lambda>_.
        cbind (reject_if (list_ex IsCoinBase (tl (vtx block)))
                 (DoS 100 REJECT_INVALID ''bad-cb-multiple'' False)) (\<lambda>_.
        cbind (verdict (check_transactions (vtx block))) (\<lambda>_.
        cbind (reject_if (int (sum_list (map GetLegacySigOpCount (vtx block)) * WITNESS_SCALE_FACTOR) > MAX_BLOCK_SIGOPS_COST)
                 (DoS 100 REJECT_INVALID ''bad-blk-sigops'' False)) (\<lambda>_.
        \<lambda>block. (Inr (), if fCheckPOW \<and> fCheckMerkleRoot then block\<lparr>fChecked := True\<rparr> else block)))))))) block)"

section \<open>Deployments\<close>

text \<open>Whether the state of a deployment is active after the given block.\<close>

definition deployment_active :: "block_store \<Rightarrow> Params \<Rightarrow> DeploymentPos \<Rightarrow> ptr option \<Rightarrow> (VersionBitsCache, bool) check" where
  "deployment_active m params pos pindexPrev caches =
     (case VersionBitsState m pindexPrev params pos caches of
        None \<Rightarrow> (Inl Aborted, caches)
      | Some (state, caches) \<Rightarrow> (Inr (state = THRESHOLD_ACTIVE), caches))"

definition IsWitnessEnabled :: "block_store \<Rightarrow> ptr option \<Rightarrow> Params \<Rightarrow> (VersionBitsCache, bool) check" where
  "IsWitnessEnabled m pindexPrev params = deployment_active m params DEPLOYMENT_SEGWIT pindexPrev"

definition ComputeBlockVersion :: "block_store \<Rightarrow> ptr option \<Rightarrow> Params \<Rightarrow> (VersionBitsCache, u32) check" where
  "ComputeBlockVersion m pindexPrev params =
     (let step = (\<lambda>pos nVersion caches.
            case VersionBitsState m pindexPrev params pos caches of
              None \<Rightarrow> (Inl Aborted, caches)
            | Some (state, caches) \<Rightarrow>
                (Inr (if state = THRESHOLD_LOCKED_IN \<or> state = THRESHOLD_STARTED
                      then nVersion OR VersionBitsMask params pos else nVersion), caches))
      in cbind (step DEPLOYMENT_TESTDUMMY VERSIONBITS_TOP_BITS) (\<lambda>v. cbind (step DEPLOYMENT_CSV v) (step DEPLOYMENT_SEGWIT)))"

definition SCRIPT_VERIFY_NONE :: u32 where "SCRIPT_VERIFY_NONE = 0"

definition GetBlockScriptFlags :: "block_store \<Rightarrow> CBlockIndex \<Rightarrow> Params \<Rightarrow> (VersionBitsCache, u32) check" where
  "GetBlockScriptFlags m pindex consensusparams =
     (let flags = SCRIPT_VERIFY_NONE;
          flags = (if nHeight pindex \<ge> BIP16Height consensusparams then flags OR SCRIPT_VERIFY_P2SH else flags);
          flags = (if nHeight pindex \<ge> BIP66Height consensusparams then flags OR SCRIPT_VERIFY_DERSIG else flags);
          flags = (if nHeight pindex \<ge> BIP65Height consensusparams then flags OR SCRIPT_VERIFY_CHECKLOCKTIMEVERIFY else flags)
      in cbind (deployment_active m consensusparams DEPLOYMENT_CSV (pprev pindex)) (\<lambda>csv.
         cbind (IsWitnessEnabled m (pprev pindex) consensusparams) (\<lambda>witness.
           let flags = (if csv then flags OR SCRIPT_VERIFY_CHECKSEQUENCEVERIFY else flags)
           in creturn (if witness then flags OR SCRIPT_VERIFY_WITNESS OR SCRIPT_VERIFY_NULLDUMMY else flags))))"

section \<open>The witness commitment\<close>

definition commitment_header :: bytes where
  "commitment_header = [of_nat OP_RETURN, 0x24, 0xaa, 0x21, 0xa9, 0xed]"

text \<open>\<open>None\<close> is the position \<open>-1\<close>; the last match counts.\<close>

definition GetWitnessCommitmentIndex :: "Block \<Rightarrow> nat option" where
  "GetWitnessCommitmentIndex block =
     (case vtx block of
        [] \<Rightarrow> None
      | coinbase # txs \<Rightarrow>
          foldl (\<lambda>commitpos p. let script = scriptPubKey (vout coinbase ! p)
                              in if length script \<ge> 38 \<and> take 6 script = commitment_header then Some p else commitpos)
            None [0..<length (vout coinbase)])"

definition UpdateUncommittedBlockStructures ::
  "block_store \<Rightarrow> Block \<Rightarrow> ptr option \<Rightarrow> Params \<Rightarrow> (VersionBitsCache, Block) check" where
  "UpdateUncommittedBlockStructures m block pindexPrev consensusParams =
     (if GetWitnessCommitmentIndex block = None then creturn block
      else cbind (IsWitnessEnabled m pindexPrev consensusParams) (\<lambda>witness.
        case vtx block of
          coinbase # txs \<Rightarrow>
            if witness \<and> \<not> HasWitness coinbase
            then (case vin coinbase of
                    [] \<Rightarrow> verdict (Inl Aborted)
                  | txin # ins \<Rightarrow>
                      creturn (block\<lparr>vtx := coinbase\<lparr>vin := txin\<lparr>scriptWitness := [replicate 32 0]\<rparr> # ins\<rparr> # txs\<rparr>))
            else creturn block
        | [] \<Rightarrow> creturn block))"

text \<open>The result holds the commitment and the changed block; \<open>Aborted\<close> without transactions.\<close>

definition GenerateCoinbaseCommitment ::
  "block_store \<Rightarrow> Block \<Rightarrow> ptr option \<Rightarrow> Params \<Rightarrow> (VersionBitsCache, bytes \<times> Block) check" where
  "GenerateCoinbaseCommitment m block pindexPrev consensusParams =
     (if nTimeout (vDeployments consensusParams DEPLOYMENT_SEGWIT) \<noteq> 0 \<and> GetWitnessCommitmentIndex block = None
      then cbind (expect (BlockWitnessMerkleRoot block)) (\<lambda>(witnessroot, mutated).
             let script = commitment_header @ merkle_hash witnessroot (replicate 32 0)
             in case vtx block of
                  [] \<Rightarrow> verdict (Inl Aborted)
                | coinbase # txs \<Rightarrow>
                    cbind (UpdateUncommittedBlockStructures m
                             (block\<lparr>vtx := coinbase\<lparr>vout := vout coinbase @ [\<lparr>nValue = 0, scriptPubKey = script\<rparr>]\<rparr> # txs\<rparr>)
                             pindexPrev consensusParams)
                      (\<lambda>block. creturn (script, block)))
      else cbind (UpdateUncommittedBlockStructures m block pindexPrev consensusParams) (\<lambda>block. creturn ([], block)))"

section \<open>The block after its predecessors\<close>

definition REJECT_CHECKPOINT :: u8 where "REJECT_CHECKPOINT = 0x43"
definition MAX_FUTURE_BLOCK_TIME :: int where "MAX_FUTURE_BLOCK_TIME = 2 * 60 * 60"

text \<open>The checkpoints in ascending order of height, and the map from hashes to the block index.\<close>

fun last_known :: "(uint256 \<Rightarrow> ptr option) \<Rightarrow> (int \<times> uint256) list \<Rightarrow> ptr option" where
  "last_known mapBlockIndex [] = None"
| "last_known mapBlockIndex ((h, hash) # rest) =
     (case mapBlockIndex hash of None \<Rightarrow> last_known mapBlockIndex rest | Some p \<Rightarrow> Some p)"

definition GetLastCheckpoint :: "(uint256 \<Rightarrow> ptr option) \<Rightarrow> (int \<times> uint256) list \<Rightarrow> ptr option" where
  "GetLastCheckpoint mapBlockIndex mapCheckpoints = last_known mapBlockIndex (rev mapCheckpoints)"

definition bad_version :: "int \<Rightarrow> string" where
  "bad_version v = ''bad-version(0x'' @ HexStr (WriteBE32 (word_of_int v)) @ '')''"

text \<open>\<open>pcheckpoint\<close> is the block index entry of the last checkpoint, when checkpoints are enabled.\<close>

definition ContextualCheckBlockHeader ::
  "block_store \<Rightarrow> BlockHeader \<Rightarrow> Params \<Rightarrow> CBlockIndex option \<Rightarrow> ptr \<Rightarrow> int \<Rightarrow> (VersionBitsCache, unit) check" where
  "ContextualCheckBlockHeader m block consensusParams pcheckpoint pindexPrev nAdjustedTime =
     (case m pindexPrev of
        None \<Rightarrow> verdict (Inl Aborted)
      | Some prev \<Rightarrow>
          let height = nHeight prev + 1
          in cbind (expect (GetNextWorkRequired m (Some pindexPrev) block consensusParams)) (\<lambda>bits.
             cbind (reject_if (bh_nBits block \<noteq> bits) (DoS 100 REJECT_INVALID ''bad-diffbits'' False)) (\<lambda>_.
             cbind (reject_if (case pcheckpoint of None \<Rightarrow> False | Some c \<Rightarrow> height < nHeight c)
                      (DoS 100 REJECT_CHECKPOINT ''bad-fork-prior-to-checkpoint'' False)) (\<lambda>_.
             cbind (expect (GetMedianTimePast m pindexPrev)) (\<lambda>mtp.
             cbind (reject_if (GetBlockTime block \<le> mtp) (Invalid REJECT_INVALID ''time-too-old'')) (\<lambda>_.
             cbind (reject_if (GetBlockTime block > nAdjustedTime + MAX_FUTURE_BLOCK_TIME) (Invalid REJECT_INVALID ''time-too-new'')) (\<lambda>_.
             cbind (reject_if (bh_nVersion block < 2 \<and> height \<ge> BIP34Height consensusParams \<or>
                               bh_nVersion block < 3 \<and> height \<ge> BIP66Height consensusParams \<or>
                               bh_nVersion block < 4 \<and> height \<ge> BIP65Height consensusParams)
                      (Invalid REJECT_OBSOLETE (bad_version (bh_nVersion block)))) (\<lambda>_.
             if bh_nVersion block < int (unat VERSIONBITS_TOP_BITS)
             then cbind (IsWitnessEnabled m (Some pindexPrev) consensusParams) (\<lambda>witness.
                    reject_if witness (Invalid REJECT_OBSOLETE (bad_version (bh_nVersion block))))
             else creturn ()))))))))"

text \<open>The commitment of a block under the witness rules; the result tells whether there is one.\<close>

definition check_commitment :: "Block \<Rightarrow> (VersionBitsCache, bool) check" where
  "check_commitment block =
     (case GetWitnessCommitmentIndex block of
        None \<Rightarrow> creturn False
      | Some commitpos \<Rightarrow>
          cbind (expect (BlockWitnessMerkleRoot block)) (\<lambda>(hashWitness, malleated).
            case vtx block of
              [] \<Rightarrow> verdict (Inl Aborted)
            | coinbase # txs \<Rightarrow>
                (case vin coinbase of
                   [] \<Rightarrow> verdict (Inl Aborted)
                 | txin # ins \<Rightarrow>
                     cbind (reject_if (length (scriptWitness txin) \<noteq> 1 \<or> length (scriptWitness txin ! 0) \<noteq> 32)
                              (DoS 100 REJECT_INVALID ''bad-witness-nonce-size'' True)) (\<lambda>_.
                     cbind (reject_if (merkle_hash hashWitness (scriptWitness txin ! 0) \<noteq>
                                       take 32 (drop 6 (scriptPubKey (vout coinbase ! commitpos))))
                              (DoS 100 REJECT_INVALID ''bad-witness-merkle-match'' True)) (\<lambda>_.
                     creturn True)))))"

definition ContextualCheckBlock :: "block_store \<Rightarrow> Block \<Rightarrow> Params \<Rightarrow> ptr option \<Rightarrow> (VersionBitsCache, unit) check" where
  "ContextualCheckBlock m block consensusParams pindexPrev =
     cbind (expect (case pindexPrev of None \<Rightarrow> Some 0 | Some p \<Rightarrow> map_option (\<lambda>bi. nHeight bi + 1) (m p))) (\<lambda>height.
     cbind (deployment_active m consensusParams DEPLOYMENT_CSV pindexPrev) (\<lambda>csv.
     cbind (expect (if csv then (case pindexPrev of None \<Rightarrow> None | Some p \<Rightarrow> GetMedianTimePast m p)
                    else Some (GetBlockTime (header block)))) (\<lambda>nLockTimeCutoff.
     cbind (reject_if (list_ex (\<lambda>tx. \<not> IsFinalTx tx height nLockTimeCutoff) (vtx block))
              (DoS 10 REJECT_INVALID ''bad-txns-nonfinal'' False)) (\<lambda>_.
     cbind (if height \<ge> BIP34Height consensusParams
            then (case vtx block of
                    [] \<Rightarrow> verdict (Inl Aborted)
                  | coinbase # txs \<Rightarrow>
                      (case vin coinbase of
                         [] \<Rightarrow> verdict (Inl Aborted)
                       | txin # ins \<Rightarrow>
                           let expected = push_int64 [] height
                           in reject_if (length (scriptSig txin) < length expected \<or> take (length expected) (scriptSig txin) \<noteq> expected)
                                (DoS 100 REJECT_INVALID ''bad-cb-height'' False)))
            else creturn ()) (\<lambda>_.
     cbind (deployment_active m consensusParams DEPLOYMENT_SEGWIT pindexPrev) (\<lambda>segwit.
     cbind (if segwit then check_commitment block else creturn False) (\<lambda>fHaveWitness.
     cbind (reject_if (\<not> fHaveWitness \<and> list_ex HasWitness (vtx block))
              (DoS 100 REJECT_INVALID ''unexpected-witness'' True)) (\<lambda>_.
     reject_if (GetBlockWeight block > MAX_BLOCK_WEIGHT) (DoS 100 REJECT_INVALID ''bad-blk-weight'' False)))))))))"

end
