(* ===== verification/Connect.thy ===== *)
theory Connect
  imports BlockCheck Sighash Script_Flags
begin

text \<open>
  Connecting a block to the set of unspent outputs and disconnecting it, \<^verbatim>\<open>validation.cpp\<close>: the script
  checks of the inputs, the loop of \<open>ConnectBlock\<close> over the transactions, the undo data and
  \<open>DisconnectBlock\<close>. The optional address, spent and timestamp indexes are switched off, as by default.
\<close>

unbundle bit_operations_syntax

section \<open>Script checks\<close>

definition ScriptErrorString :: "ScriptError \<Rightarrow> string" where
  "ScriptErrorString serror =
     (case serror of
         SCRIPT_ERR_OK \<Rightarrow> ''No error''
      | SCRIPT_ERR_EVAL_FALSE \<Rightarrow> ''Script evaluated without error but finished with a false/empty top stack element''
      | SCRIPT_ERR_VERIFY \<Rightarrow> ''Script failed an OP_VERIFY operation''
      | SCRIPT_ERR_EQUALVERIFY \<Rightarrow> ''Script failed an OP_EQUALVERIFY operation''
      | SCRIPT_ERR_CHECKMULTISIGVERIFY \<Rightarrow> ''Script failed an OP_CHECKMULTISIGVERIFY operation''
      | SCRIPT_ERR_CHECKSIGVERIFY \<Rightarrow> ''Script failed an OP_CHECKSIGVERIFY operation''
      | SCRIPT_ERR_NUMEQUALVERIFY \<Rightarrow> ''Script failed an OP_NUMEQUALVERIFY operation''
      | SCRIPT_ERR_SCRIPT_SIZE \<Rightarrow> ''Script is too big''
      | SCRIPT_ERR_PUSH_SIZE \<Rightarrow> ''Push value size limit exceeded''
      | SCRIPT_ERR_OP_COUNT \<Rightarrow> ''Operation limit exceeded''
      | SCRIPT_ERR_STACK_SIZE \<Rightarrow> ''Stack size limit exceeded''
      | SCRIPT_ERR_SIG_COUNT \<Rightarrow> ''Signature count negative or greater than pubkey count''
      | SCRIPT_ERR_PUBKEY_COUNT \<Rightarrow> ''Pubkey count negative or limit exceeded''
      | SCRIPT_ERR_BAD_OPCODE \<Rightarrow> ''Opcode missing or not understood''
      | SCRIPT_ERR_DISABLED_OPCODE \<Rightarrow> ''Attempted to use a disabled opcode''
      | SCRIPT_ERR_INVALID_STACK_OPERATION \<Rightarrow> ''Operation not valid with the current stack size''
      | SCRIPT_ERR_INVALID_ALTSTACK_OPERATION \<Rightarrow> ''Operation not valid with the current altstack size''
      | SCRIPT_ERR_OP_RETURN \<Rightarrow> ''OP_RETURN was encountered''
      | SCRIPT_ERR_UNBALANCED_CONDITIONAL \<Rightarrow> ''Invalid OP_IF construction''
      | SCRIPT_ERR_NEGATIVE_LOCKTIME \<Rightarrow> ''Negative locktime''
      | SCRIPT_ERR_UNSATISFIED_LOCKTIME \<Rightarrow> ''Locktime requirement not satisfied''
      | SCRIPT_ERR_SIG_HASHTYPE \<Rightarrow> ''Signature hash type missing or not understood''
      | SCRIPT_ERR_SIG_DER \<Rightarrow> ''Non-canonical DER signature''
      | SCRIPT_ERR_MINIMALDATA \<Rightarrow> ''Data push larger than necessary''
      | SCRIPT_ERR_SIG_PUSHONLY \<Rightarrow> ''Only non-push operators allowed in signatures''
      | SCRIPT_ERR_SIG_HIGH_S \<Rightarrow> ''Non-canonical signature: S value is unnecessarily high''
      | SCRIPT_ERR_SIG_NULLDUMMY \<Rightarrow> ''Dummy CHECKMULTISIG argument must be zero''
      | SCRIPT_ERR_MINIMALIF \<Rightarrow> ''OP_IF/NOTIF argument must be minimal''
      | SCRIPT_ERR_SIG_NULLFAIL \<Rightarrow> ''Signature must be zero for failed CHECK(MULTI)SIG operation''
      | SCRIPT_ERR_DISCOURAGE_UPGRADABLE_NOPS \<Rightarrow> ''NOPx reserved for soft-fork upgrades''
      | SCRIPT_ERR_DISCOURAGE_UPGRADABLE_WITNESS_PROGRAM \<Rightarrow> ''Witness version reserved for soft-fork upgrades''
      | SCRIPT_ERR_PUBKEYTYPE \<Rightarrow> ''Public key is neither compressed or uncompressed''
      | SCRIPT_ERR_CLEANSTACK \<Rightarrow> ''Extra items left on stack after execution''
      | SCRIPT_ERR_WITNESS_PROGRAM_WRONG_LENGTH \<Rightarrow> ''Witness program has incorrect length''
      | SCRIPT_ERR_WITNESS_PROGRAM_WITNESS_EMPTY \<Rightarrow> ''Witness program was passed an empty witness''
      | SCRIPT_ERR_WITNESS_PROGRAM_MISMATCH \<Rightarrow> ''Witness program hash mismatch''
      | SCRIPT_ERR_WITNESS_MALLEATED \<Rightarrow> ''Witness requires empty scriptSig''
      | SCRIPT_ERR_WITNESS_MALLEATED_P2SH \<Rightarrow> ''Witness requires only-redeemscript scriptSig''
      | SCRIPT_ERR_WITNESS_UNEXPECTED \<Rightarrow> ''Witness provided for non-witness script''
      | SCRIPT_ERR_WITNESS_PUBKEYTYPE \<Rightarrow> ''Using non-compressed keys in segwit''
      | SCRIPT_ERR_UNKNOWN_ERROR \<Rightarrow> ''unknown error'')"

text \<open>
  What the script checks use besides the transaction: the hash functions, the verification of a
  signature over the curve, cached or not, and the cache of executed scripts with its lookup and its
  insertion on a state \<open>'k\<close>. The cache may forget entries.
\<close>

record 'k script_services =
  sv_crypto :: crypto
  sv_verify :: curve_verify
  scriptExecutionCacheNonce :: uint256
  cache_contains :: "'k \<Rightarrow> uint256 \<Rightarrow> bool \<Rightarrow> bool \<times> 'k"
  cache_insert :: "'k \<Rightarrow> uint256 \<Rightarrow> 'k"

record CScriptCheck =
  m_tx_out :: TxOut
  ptxTo :: Transaction
  chk_nIn :: nat
  chk_nFlags :: u32
  chk_txdata :: PrecomputedTransactionData

definition CScriptCheck_run :: "'k script_services \<Rightarrow> CScriptCheck \<Rightarrow> unit exec" where
  "CScriptCheck_run sv chk =
     (let txin = vin (ptxTo chk) ! chk_nIn chk
      in VerifyScript (sv_crypto sv)
           (TransactionSignatureChecker (sv_verify sv) (ptxTo chk) (chk_nIn chk) (nValue (m_tx_out chk)) (Some (chk_txdata chk)))
           (chk_nFlags chk) (scriptSig txin) (scriptPubKey (m_tx_out chk)) (scriptWitness txin))"

definition REJECT_NONSTANDARD :: u8 where "REJECT_NONSTANDARD = 0x40"

definition STANDARD_NOT_MANDATORY_VERIFY_FLAGS :: u32 where
  "STANDARD_NOT_MANDATORY_VERIFY_FLAGS = STANDARD_SCRIPT_VERIFY_FLAGS AND NOT MANDATORY_SCRIPT_VERIFY_FLAGS"

definition hashCacheEntry :: "'k script_services \<Rightarrow> Transaction \<Rightarrow> u32 \<Rightarrow> uint256" where
  "hashCacheEntry sv tx flags =
     snd (CSHA256_Finalize (CSHA256_Write (CSHA256_Write (CSHA256_Write (CSHA256_ctor (replicate 64 0))
       (take 19 (scriptExecutionCacheNonce sv))) (GetWitnessHash tx)) (WriteLE32 flags)))"

text \<open>A check that runs at once and fails.\<close>

definition failed_check :: "'k script_services \<Rightarrow> CScriptCheck \<Rightarrow> ScriptError \<Rightarrow> 'a verdict" where
  "failed_check sv chk err =
     (let mandatory = DoS 100 REJECT_INVALID (''mandatory-script-verify-flag-failed ('' @ ScriptErrorString err @ '')'') False
      in if chk_nFlags chk AND STANDARD_NOT_MANDATORY_VERIFY_FLAGS \<noteq> 0
         then (case CScriptCheck_run sv (chk\<lparr>chk_nFlags := chk_nFlags chk AND NOT STANDARD_NOT_MANDATORY_VERIFY_FLAGS\<rparr>) of
                 Inr _ \<Rightarrow> Invalid REJECT_NONSTANDARD (''non-mandatory-script-verify-flag ('' @ ScriptErrorString err @ '')'')
               | Inl Abort \<Rightarrow> Inl Aborted
               | Inl (ScriptErr e) \<Rightarrow> mandatory)
         else mandatory)"

text \<open>The checks of the inputs with the given indices; with \<open>queue\<close> they are collected, not run.\<close>

fun check_scripts ::
  "'k script_services \<Rightarrow> 's get_coin \<Rightarrow> Transaction \<Rightarrow> u32 \<Rightarrow> PrecomputedTransactionData \<Rightarrow> bool \<Rightarrow> nat list \<Rightarrow>
   ('s CCoinsViewCache, CScriptCheck list) check" where
  "check_scripts sv get tx flags txdata queue [] inputs = (Inr [], inputs)"
| "check_scripts sv get tx flags txdata queue (i # is) inputs =
     (case AccessCoin get inputs (prevout (vin tx ! i)) of
        (cn, inputs) \<Rightarrow>
          if IsSpent cn then (Inl Aborted, inputs)
          else
            let chk = \<lparr>m_tx_out = out cn, ptxTo = tx, chk_nIn = i, chk_nFlags = flags, chk_txdata = txdata\<rparr>
            in if queue
               then cbind (check_scripts sv get tx flags txdata queue is) (\<lambda>chks. creturn (chk # chks)) inputs
               else (case CScriptCheck_run sv chk of
                       Inr _ \<Rightarrow> check_scripts sv get tx flags txdata queue is inputs
                     | Inl Abort \<Rightarrow> (Inl Aborted, inputs)
                     | Inl (ScriptErr err) \<Rightarrow> (failed_check sv chk err, inputs)))"

text \<open>The state holds the coins and the cache of executed scripts; the result holds the queued checks.\<close>

definition CheckInputs ::
  "'k script_services \<Rightarrow> 's get_coin \<Rightarrow> Transaction \<Rightarrow> bool \<Rightarrow> u32 \<Rightarrow> bool \<Rightarrow> PrecomputedTransactionData \<Rightarrow> bool \<Rightarrow>
   ('s CCoinsViewCache \<times> 'k, CScriptCheck list) check" where
  "CheckInputs sv get tx fScriptChecks flags cacheFullScriptStore txdata queue =
     (\<lambda>(inputs, k).
        if IsCoinBase tx \<or> \<not> fScriptChecks then (Inr [], (inputs, k))
        else
          (case cache_contains sv k (hashCacheEntry sv tx flags) (\<not> cacheFullScriptStore) of
             (True, k) \<Rightarrow> (Inr [], (inputs, k))
           | (False, k) \<Rightarrow>
               (case check_scripts sv get tx flags txdata queue [0..<length (vin tx)] inputs of
                  (Inl e, inputs) \<Rightarrow> (Inl e, (inputs, k))
                | (Inr chks, inputs) \<Rightarrow>
                    (Inr chks, (inputs, if cacheFullScriptStore \<and> \<not> queue then cache_insert sv k (hashCacheEntry sv tx flags) else k)))))"

section \<open>Connecting\<close>

text \<open>
  The constants of a run: the block index, the parameters, whether script checks run on other threads,
  and the writers of the undo file and of the transaction index.
\<close>

record 'k connect_env =
  ce_services :: "'k script_services"
  ce_store :: block_store
  ce_params :: Params
  hashGenesisBlock :: uint256
  ce_threads :: bool
  WriteUndoDataForBlock :: "Coin list list \<Rightarrow> CBlockIndex \<Rightarrow> CBlockIndex verdict"
  WriteTxIndexDataForBlock :: "Block \<Rightarrow> CBlockIndex \<Rightarrow> unit verdict"

record ('s, 'k) connect_state =
  cs_view :: "'s CCoinsViewCache"
  cs_scripts :: 'k
  cs_bits :: VersionBitsCache
  cs_block :: Block

definition on_view :: "('s CCoinsViewCache, 'a) check \<Rightarrow> (('s, 'k) connect_state, 'a) check" where
  "on_view f s = (case f (cs_view s) of (r, v) \<Rightarrow> (r, s\<lparr>cs_view := v\<rparr>))"

definition on_bits :: "(VersionBitsCache, 'a) check \<Rightarrow> (('s, 'k) connect_state, 'a) check" where
  "on_bits f s = (case f (cs_bits s) of (r, b) \<Rightarrow> (r, s\<lparr>cs_bits := b\<rparr>))"

definition on_block :: "(Block, 'a) check \<Rightarrow> (('s, 'k) connect_state, 'a) check" where
  "on_block f s = (case f (cs_block s) of (r, b) \<Rightarrow> (r, s\<lparr>cs_block := b\<rparr>))"

definition on_scripts :: "('s CCoinsViewCache \<times> 'k, 'a) check \<Rightarrow> (('s, 'k) connect_state, 'a) check" where
  "on_scripts f s = (case f (cs_view s, cs_scripts s) of (r, (v, k)) \<Rightarrow> (r, s\<lparr>cs_view := v, cs_scripts := k\<rparr>))"

text \<open>A function on the coins that always has a result, and one that may fail an assertion.\<close>

definition query :: "('s CCoinsViewCache \<Rightarrow> 'a \<times> 's CCoinsViewCache) \<Rightarrow> ('s CCoinsViewCache, 'a) check" where
  "query f v = (case f v of (x, v) \<Rightarrow> (Inr x, v))"

definition attempt :: "('s CCoinsViewCache \<Rightarrow> ('a \<times> 's CCoinsViewCache) option) \<Rightarrow> ('s CCoinsViewCache, 'a) check" where
  "attempt f v = (case f v of None \<Rightarrow> (Inl Aborted, v) | Some (x, v) \<Rightarrow> (Inr x, v))"

text \<open>Script checks may be skipped below the block that is assumed valid.\<close>

definition script_checks ::
  "block_store \<Rightarrow> (uint256 \<Rightarrow> ptr option) \<Rightarrow> uint256 \<Rightarrow> ptr \<Rightarrow> base_uint \<Rightarrow> Params \<Rightarrow> ptr \<Rightarrow> bool option" where
  "script_checks m mapBlockIndex hashAssumeValid pindexBestHeader minimumChainWork params pindex =
     (if IsNull_blob hashAssumeValid then Some True
      else case mapBlockIndex hashAssumeValid of
        None \<Rightarrow> Some True
      | Some it \<Rightarrow>
          (case m pindex of
             None \<Rightarrow> None
           | Some bi \<Rightarrow>
               (case GetAncestor m it (nHeight bi) of
                  None \<Rightarrow> None
                | Some a \<Rightarrow>
                    if a \<noteq> Some pindex then Some True
                    else
                      (case (GetAncestor m pindexBestHeader (nHeight bi), m pindexBestHeader) of
                         (Some b, Some best) \<Rightarrow>
                           if b = Some pindex \<and> CompareTo (ChainTrust best) minimumChainWork \<ge> 0
                           then map_option (\<lambda>t. t \<le> 60 * 60 * 24 * 7 * 2)
                                  (GetBlockProofEquivalentTime best bi best (nPowTargetSpacing params))
                           else Some True
                       | _ \<Rightarrow> None))))"

text \<open>Whether the coins hold one of the given outputs.\<close>

fun have_any :: "'s get_coin \<Rightarrow> COutPoint list \<Rightarrow> 's CCoinsViewCache \<Rightarrow> bool \<times> 's CCoinsViewCache" where
  "have_any get [] view = (False, view)"
| "have_any get (p # ps) view =
     (case HaveCoin get view p of (have, view) \<Rightarrow> if have then (True, view) else have_any get ps view)"

definition tx_outpoints :: "Transaction \<Rightarrow> COutPoint list" where
  "tx_outpoints tx = map (\<lambda>i. \<lparr>op_hash = ComputeHash tx, op_n = of_nat i\<rparr>) [0..<length (vout tx)]"

definition fEnforceBIP30 :: "block_store \<Rightarrow> CBlockIndex \<Rightarrow> Params \<Rightarrow> bool option" where
  "fEnforceBIP30 m pindex params =
     (case pprev pindex of
        None \<Rightarrow> None
      | Some p \<Rightarrow>
          (case GetAncestor m p (BIP34Height params) of
             None \<Rightarrow> None
           | Some None \<Rightarrow> Some True
           | Some (Some q) \<Rightarrow>
               (case m q of
                  None \<Rightarrow> None
                | Some bi \<Rightarrow> map_option (\<lambda>h. h \<noteq> BIP34Hash params) (phashBlock bi))))"

fun read_heights :: "'s get_coin \<Rightarrow> TxIn list \<Rightarrow> 's CCoinsViewCache \<Rightarrow> int list \<times> 's CCoinsViewCache" where
  "read_heights get [] view = ([], view)"
| "read_heights get (txin # ins) view =
     (case AccessCoin get view (prevout txin) of
        (cn, view) \<Rightarrow> (case read_heights get ins view of (hs, view) \<Rightarrow> (int (coin_nHeight cn) # hs, view)))"

record connect_acc =
  nFees :: CAmount
  nSigOpsCost :: nat
  queued :: "CScriptCheck list"
  vtxundo :: "Coin list list"

text \<open>The checks of one transaction that need its coins, before its scripts.\<close>

definition check_tx_inputs ::
  "'k connect_env \<Rightarrow> 's get_coin \<Rightarrow> ptr \<Rightarrow> CBlockIndex \<Rightarrow> u32 \<Rightarrow> Transaction \<Rightarrow> CAmount \<Rightarrow> (('s, 'k) connect_state, CAmount) check" where
  "check_tx_inputs env get pindex bi nLockTimeFlags tx fees =
     (if IsCoinBase tx then creturn fees
      else
        cbind (on_view (\<lambda>view. CheckTxInputs get tx view (nHeight bi))) (\<lambda>txfee.
        cbind (reject_if (\<not> MoneyRange (fees + txfee)) (DoS 100 REJECT_INVALID ''bad-txns-accumulated-fee-outofrange'' False)) (\<lambda>_.
        cbind (on_view (query (read_heights get (vin tx)))) (\<lambda>prevheights.
        cbind (expect (SequenceLocks (ce_store env) tx nLockTimeFlags prevheights pindex)) (\<lambda>locks_met.
        cbind (reject_if (\<not> locks_met) (DoS 100 REJECT_INVALID ''bad-txns-nonfinal'' False)) (\<lambda>_.
        creturn (fees + txfee)))))))"

text \<open>One round of the loop over the transactions; \<open>i\<close> is the position in the block.\<close>

definition connect_tx ::
  "'k connect_env \<Rightarrow> 's get_coin \<Rightarrow> ptr \<Rightarrow> CBlockIndex \<Rightarrow> u32 \<Rightarrow> u32 \<Rightarrow> bool \<Rightarrow> bool \<Rightarrow> nat \<Rightarrow> Transaction \<Rightarrow> connect_acc \<Rightarrow>
   (('s, 'k) connect_state, connect_acc) check" where
  "connect_tx env get pindex bi nLockTimeFlags flags fScriptChecks fJustCheck i tx acc =
     cbind (check_tx_inputs env get pindex bi nLockTimeFlags tx (nFees acc)) (\<lambda>fees.
     cbind (on_view (query (\<lambda>view. GetTransactionSigOpCost get tx view flags))) (\<lambda>cost.
     cbind (expect cost) (\<lambda>cost.
     cbind (reject_if (int (nSigOpsCost acc + cost) > MAX_BLOCK_SIGOPS_COST) (DoS 100 REJECT_INVALID ''bad-blk-sigops'' False)) (\<lambda>_.
     cbind (on_scripts (CheckInputs (ce_services env) get tx fScriptChecks flags fJustCheck (PrecomputedTransactionData_ctor tx)
              (ce_threads env))) (\<lambda>chks.
     cbind (on_view (attempt (\<lambda>view. UpdateCoins get tx view (nat (nHeight bi))))) (\<lambda>undo.
     creturn \<lparr>nFees = fees, nSigOpsCost = nSigOpsCost acc + cost, queued = queued acc @ chks,
              vtxundo = (if i = 0 then vtxundo acc else vtxundo acc @ [undo])\<rparr>))))))"

fun connect_loop ::
  "'k connect_env \<Rightarrow> 's get_coin \<Rightarrow> ptr \<Rightarrow> CBlockIndex \<Rightarrow> u32 \<Rightarrow> u32 \<Rightarrow> bool \<Rightarrow> bool \<Rightarrow> nat \<Rightarrow> Transaction list \<Rightarrow> connect_acc \<Rightarrow>
   (('s, 'k) connect_state, connect_acc) check" where
  "connect_loop env get pindex bi nLockTimeFlags flags fScriptChecks fJustCheck i [] acc = creturn acc"
| "connect_loop env get pindex bi nLockTimeFlags flags fScriptChecks fJustCheck i (tx # txs) acc =
     cbind (connect_tx env get pindex bi nLockTimeFlags flags fScriptChecks fJustCheck i tx acc)
       (connect_loop env get pindex bi nLockTimeFlags flags fScriptChecks fJustCheck (i + 1) txs)"

text \<open>The queue runs every check and reports whether all of them pass.\<close>

definition run_queue :: "'k script_services \<Rightarrow> CScriptCheck list \<Rightarrow> (('s, 'k) connect_state, unit) check" where
  "run_queue sv chks =
     (if list_ex (\<lambda>chk. CScriptCheck_run sv chk = Inl Abort) chks then verdict (Inl Aborted)
      else reject_if (list_ex (\<lambda>chk. CScriptCheck_run sv chk \<noteq> Inr ()) chks)
             (DoS 100 REJECT_INVALID ''block-validation-failed'' False))"

text \<open>What follows the checks when the block is really connected: files, index entry and best block.\<close>

definition finish_connect :: "'k connect_env \<Rightarrow> CBlockIndex \<Rightarrow> Coin list list \<Rightarrow> (('s, 'k) connect_state, CBlockIndex) check" where
  "finish_connect env bi blockundo s =
     (cbind (verdict (WriteUndoDataForBlock env blockundo bi)) (\<lambda>bi.
      cbind (expect (case IsValid bi BLOCK_VALID_SCRIPTS of
                       None \<Rightarrow> None
                     | Some True \<Rightarrow> Some bi
                     | Some False \<Rightarrow> map_option fst (RaiseValidity bi BLOCK_VALID_SCRIPTS))) (\<lambda>bi.
      cbind (verdict (WriteTxIndexDataForBlock env (cs_block s) bi)) (\<lambda>_.
      cbind (expect (phashBlock bi)) (\<lambda>hash s.
        (Inr bi, s\<lparr>cs_view := SetBestBlock (cs_view s) hash\<rparr>)))))) s"

text \<open>
  A block that is not the genesis block, once it is checked on its own: \<open>fScriptChecks\<close> is the outcome
  of \<open>script_checks\<close>. The result holds the undo data and the index entry.
\<close>

definition connect_transactions ::
  "'k connect_env \<Rightarrow> 's get_coin \<Rightarrow> ptr \<Rightarrow> CBlockIndex \<Rightarrow> bool option \<Rightarrow> bool \<Rightarrow> Transaction list \<Rightarrow>
   (('s, 'k) connect_state, Coin list list \<times> CBlockIndex) check" where
  "connect_transactions env get pindex bi fScriptChecks fJustCheck txs =
     (let params = ce_params env
      in cbind (expect fScriptChecks) (\<lambda>fScriptChecks.
         cbind (expect (fEnforceBIP30 (ce_store env) bi params)) (\<lambda>bip30.
         cbind (on_view (query (if bip30 then have_any get (concat (map tx_outpoints txs)) else Pair False))) (\<lambda>overwrites.
         cbind (reject_if overwrites (DoS 100 REJECT_INVALID ''bad-txns-BIP30'' False)) (\<lambda>_.
         cbind (on_bits (deployment_active (ce_store env) params DEPLOYMENT_CSV (pprev bi))) (\<lambda>csv.
         cbind (on_bits (GetBlockScriptFlags (ce_store env) bi params)) (\<lambda>flags.
         cbind (connect_loop env get pindex bi (if csv then LOCKTIME_VERIFY_SEQUENCE else 0) flags fScriptChecks fJustCheck 0
                  txs \<lparr>nFees = 0, nSigOpsCost = 0, queued = [], vtxundo = []\<rparr>) (\<lambda>acc.
         cbind (expect (GetValueOut (txs ! 0))) (\<lambda>value_out.
         cbind (reject_if (value_out > nFees acc + GetBlockSubsidy (nHeight bi) params)
                  (DoS 100 REJECT_INVALID ''bad-cb-amount'' False)) (\<lambda>_.
         cbind (run_queue (ce_services env) (queued acc)) (\<lambda>_.
         if fJustCheck then creturn (vtxundo acc, bi)
         else cbind (finish_connect env bi (vtxundo acc)) (\<lambda>bi. creturn (vtxundo acc, bi)))))))))))))"

text \<open>\<open>best\<close> reads the best block of the base view.\<close>

definition ConnectBlock ::
  "'k connect_env \<Rightarrow> 's get_coin \<Rightarrow> ('s \<Rightarrow> uint256) \<Rightarrow> ptr \<Rightarrow> bool option \<Rightarrow> bool \<Rightarrow>
   (('s, 'k) connect_state, Coin list list \<times> CBlockIndex) check" where
  "ConnectBlock env get best pindex fScriptChecks fJustCheck s =
     (case ce_store env pindex of
        None \<Rightarrow> (Inl Aborted, s)
      | Some bi \<Rightarrow>
          let block = cs_block s; hash = BlockHeader_GetHash (header block)
          in if phashBlock bi \<noteq> None \<and> phashBlock bi \<noteq> Some hash then (Inl Aborted, s)
             else
               cbind (on_block (CheckBlock (ce_params env) (\<not> fJustCheck) (\<not> fJustCheck))) (\<lambda>_.
               cbind (expect (case pprev bi of None \<Rightarrow> Some uint256_null
                              | Some q \<Rightarrow> (case ce_store env q of None \<Rightarrow> None | Some prev \<Rightarrow> phashBlock prev))) (\<lambda>hashPrev.
               cbind (on_view (query (GetBestBlock best))) (\<lambda>viewBest.
               cbind (if hashPrev \<noteq> viewBest then verdict (Inl Aborted) else creturn ()) (\<lambda>_.
               if hash = hashGenesisBlock env
               then (if fJustCheck then creturn ([], bi)
                     else cbind (expect (phashBlock bi)) (\<lambda>h s. (Inr ([], bi), s\<lparr>cs_view := SetBestBlock (cs_view s) h\<rparr>)))
               else connect_transactions env get pindex bi fScriptChecks fJustCheck (vtx block))))) s)"

section \<open>Disconnecting\<close>

datatype DisconnectResult = DISCONNECT_OK | DISCONNECT_UNCLEAN | DISCONNECT_FAILED

text \<open>The outer \<open>option\<close> is a failed assertion or an exception of the coins cache.\<close>

definition ApplyTxInUndo ::
  "'s get_coin \<Rightarrow> Coin \<Rightarrow> 's CCoinsViewCache \<Rightarrow> COutPoint \<Rightarrow> (DisconnectResult \<times> 's CCoinsViewCache) option" where
  "ApplyTxInUndo get undo view p =
     (case HaveCoin get view p of
        (have, view) \<Rightarrow>
          (case (if coin_nHeight undo = 0
                 then (case AccessByTxid get view (op_hash p) of
                         (alternate, view) \<Rightarrow>
                           (if IsSpent alternate then None
                            else Some (undo\<lparr>coin_nHeight := coin_nHeight alternate, fCoinBase := fCoinBase alternate\<rparr>), view))
                 else (Some undo, view)) of
             (None, view) \<Rightarrow> Some (DISCONNECT_FAILED, view)
           | (Some undo, view) \<Rightarrow>
               map_option (\<lambda>view. (if have then DISCONNECT_UNCLEAN else DISCONNECT_OK, view)) (AddCoin view p undo have)))"

text \<open>Spend the outputs of a transaction; the flag tells whether all of them are there and match.\<close>

fun remove_outputs ::
  "'s get_coin \<Rightarrow> uint256 \<Rightarrow> bool \<Rightarrow> nat \<Rightarrow> nat \<Rightarrow> TxOut list \<Rightarrow> bool \<Rightarrow> 's CCoinsViewCache \<Rightarrow> bool \<times> 's CCoinsViewCache" where
  "remove_outputs get hash is_coinbase height i [] fClean view = (fClean, view)"
| "remove_outputs get hash is_coinbase height i (txout # outs) fClean view =
     (if IsUnspendable (scriptPubKey txout) then remove_outputs get hash is_coinbase height (i + 1) outs fClean view
      else
        (case SpendCoin get view \<lparr>op_hash = hash, op_n = of_nat i\<rparr> of
           (cn, view) \<Rightarrow>
             remove_outputs get hash is_coinbase height (i + 1) outs
               (fClean \<and> cn = Some \<lparr>out = txout, fCoinBase = is_coinbase, coin_nHeight = height\<rparr>) view))"

text \<open>Restore the inputs, last first: the lists are in reverse order.\<close>

fun restore_inputs ::
  "'s get_coin \<Rightarrow> TxIn list \<Rightarrow> Coin list \<Rightarrow> bool \<Rightarrow> 's CCoinsViewCache \<Rightarrow> (bool option \<times> 's CCoinsViewCache) option" where
  "restore_inputs get (txin # ins) (undo # undos) fClean view =
     (case ApplyTxInUndo get undo view (prevout txin) of
        None \<Rightarrow> None
      | Some (res, view) \<Rightarrow>
          if res = DISCONNECT_FAILED then Some (None, view)
          else restore_inputs get ins undos (fClean \<and> res \<noteq> DISCONNECT_UNCLEAN) view)"
| "restore_inputs get ins undos fClean view = Some (Some fClean, view)"

definition disconnect_tx ::
  "'s get_coin \<Rightarrow> nat \<Rightarrow> Transaction \<Rightarrow> Coin list option \<Rightarrow> bool \<Rightarrow> 's CCoinsViewCache \<Rightarrow> (bool option \<times> 's CCoinsViewCache) option" where
  "disconnect_tx get height tx txundo fClean view =
     (case remove_outputs get (ComputeHash tx) (IsCoinBase tx) height 0 (vout tx) fClean view of
        (fClean, view) \<Rightarrow>
          (case txundo of
             None \<Rightarrow> Some (Some fClean, view)
           | Some undos \<Rightarrow>
               if length undos \<noteq> length (vin tx) then Some (None, view)
               else restore_inputs get (rev (vin tx)) (rev undos) fClean view))"

text \<open>The transactions with their undo data, last first.\<close>

fun disconnect_loop ::
  "'s get_coin \<Rightarrow> nat \<Rightarrow> (Transaction \<times> Coin list option) list \<Rightarrow> bool \<Rightarrow> 's CCoinsViewCache \<Rightarrow>
   (bool option \<times> 's CCoinsViewCache) option" where
  "disconnect_loop get height [] fClean view = Some (Some fClean, view)"
| "disconnect_loop get height ((tx, txundo) # txs) fClean view =
     (case disconnect_tx get height tx txundo fClean view of
        None \<Rightarrow> None
      | Some (None, view) \<Rightarrow> Some (None, view)
      | Some (Some fClean, view) \<Rightarrow> disconnect_loop get height txs fClean view)"

text \<open>\<open>blockUndo\<close> is what \<open>UndoReadFromDisk\<close> yields, if it succeeds.\<close>

definition DisconnectBlock ::
  "block_store \<Rightarrow> 's get_coin \<Rightarrow> Coin list list option \<Rightarrow> Block \<Rightarrow> CBlockIndex \<Rightarrow> 's CCoinsViewCache \<Rightarrow>
   (DisconnectResult \<times> 's CCoinsViewCache) option" where
  "DisconnectBlock m get blockUndo block pindex view =
     (case blockUndo of
        None \<Rightarrow> Some (DISCONNECT_FAILED, view)
      | Some undos \<Rightarrow>
          if length undos + 1 \<noteq> length (vtx block) then Some (DISCONNECT_FAILED, view)
          else
            (case disconnect_loop get (nat (nHeight pindex)) (rev (zip (vtx block) (None # map Some undos))) True view of
               None \<Rightarrow> None
             | Some (None, view) \<Rightarrow> Some (DISCONNECT_FAILED, view)
             | Some (Some fClean, view) \<Rightarrow>
                 (case pprev pindex of
                    None \<Rightarrow> None
                  | Some q \<Rightarrow>
                      (case m q of
                         None \<Rightarrow> None
                       | Some prev \<Rightarrow>
                           map_option (\<lambda>hash. (if fClean then DISCONNECT_OK else DISCONNECT_UNCLEAN, SetBestBlock view hash)) (phashBlock prev)))))"

end
