(* ===== verification/Ledger.thy ===== *)
theory Ledger
  imports TxVerify_Props
begin

text \<open>
  The ledger as an abstract machine on sets of unspent outputs: what a transaction and a block do to
  the set, what they leave as undo data, how the undo data takes the set back and how the total value
  changes. \<^verbatim>\<open>ConnectBlock\<close> and \<^verbatim>\<open>DisconnectBlock\<close> of \<open>Connect\<close> are shown to refine it.
\<close>

section \<open>The machine\<close>

text \<open>The coins a transaction creates, with their outpoints; unspendable outputs create none.\<close>

fun new_coins :: "uint256 \<Rightarrow> bool \<Rightarrow> nat \<Rightarrow> nat \<Rightarrow> TxOut list \<Rightarrow> (COutPoint \<times> Coin) list" where
  "new_coins txid cb height i [] = []"
| "new_coins txid cb height i (txout # outs) =
     (if IsUnspendable (scriptPubKey txout) then new_coins txid cb height (i + 1) outs
      else (\<lparr>op_hash = txid, op_n = of_nat i\<rparr>, \<lparr>out = txout, fCoinBase = cb, coin_nHeight = height\<rparr>)
           # new_coins txid cb height (i + 1) outs)"

definition tx_coins :: "nat \<Rightarrow> Transaction \<Rightarrow> (COutPoint \<times> Coin) list" where
  "tx_coins height tx = new_coins (ComputeHash tx) (IsCoinBase tx) height 0 (vout tx)"

definition created :: "Transaction \<Rightarrow> COutPoint list" where
  "created tx = map fst (tx_coins 0 tx)"

definition spent :: "Transaction \<Rightarrow> COutPoint list" where
  "spent tx = (if IsCoinBase tx then [] else map prevout (vin tx))"

definition tx_undo :: "utxo_set \<Rightarrow> Transaction \<Rightarrow> Coin list" where
  "tx_undo u tx = map (\<lambda>p. the (u p)) (spent tx)"

definition apply_tx :: "nat \<Rightarrow> Transaction \<Rightarrow> utxo_set \<Rightarrow> utxo_set" where
  "apply_tx height tx u = (u |` (- set (spent tx))) ++ map_of (tx_coins height tx)"

definition tx_fee :: "utxo_set \<Rightarrow> Transaction \<Rightarrow> CAmount" where
  "tx_fee u tx =
     (if IsCoinBase tx then 0 else sum_list (map (\<lambda>p. nValue (out (the (u p)))) (spent tx)) - sum_list (map nValue (vout tx)))"

text \<open>What is required of a transaction: its inputs exist and differ, what it creates is new.\<close>

definition tx_applies :: "utxo_set \<Rightarrow> Transaction \<Rightarrow> bool" where
  "tx_applies u tx \<longleftrightarrow> distinct (spent tx) \<and> set (spent tx) \<subseteq> dom u \<and> set (created tx) \<inter> dom u = {} \<and> length (vout tx) \<le> 2 ^ 32"

fun block_applies :: "nat \<Rightarrow> Transaction list \<Rightarrow> utxo_set \<Rightarrow> bool" where
  "block_applies height [] u = True"
| "block_applies height (tx # txs) u = (tx_applies u tx \<and> block_applies height txs (apply_tx height tx u))"

fun apply_block :: "nat \<Rightarrow> Transaction list \<Rightarrow> utxo_set \<Rightarrow> utxo_set" where
  "apply_block height [] u = u"
| "apply_block height (tx # txs) u = apply_block height txs (apply_tx height tx u)"

fun block_undo :: "nat \<Rightarrow> Transaction list \<Rightarrow> utxo_set \<Rightarrow> Coin list list" where
  "block_undo height [] u = []"
| "block_undo height (tx # txs) u = tx_undo u tx # block_undo height txs (apply_tx height tx u)"

fun block_fees :: "nat \<Rightarrow> Transaction list \<Rightarrow> utxo_set \<Rightarrow> CAmount" where
  "block_fees height [] u = 0"
| "block_fees height (tx # txs) u = tx_fee u tx + block_fees height txs (apply_tx height tx u)"

section \<open>Created coins\<close>

lemma new_coins_key: "p \<in> fst ` set (new_coins txid cb h i outs) \<Longrightarrow> \<exists>j. i \<le> j \<and> j < i + length outs \<and> p = \<lparr>op_hash = txid, op_n = of_nat j\<rparr>"
proof (induction outs arbitrary: i)
  case (Cons t outs)
  then consider "p = \<lparr>op_hash = txid, op_n = of_nat i\<rparr>" | "p \<in> fst ` set (new_coins txid cb h (i + 1) outs)"
    by (auto split: if_splits)
  then show ?case using Cons.IH [of "i + 1"] by cases (auto intro: Suc_leD)
qed simp

lemma new_coins_distinct: "i + length outs \<le> 2 ^ 32 \<Longrightarrow> distinct (map fst (new_coins txid cb h i outs))"
proof (induction outs arbitrary: i)
  case (Cons t outs)
  have "\<lparr>op_hash = txid, op_n = of_nat i\<rparr> \<notin> fst ` set (new_coins txid cb h (i + 1) outs)"
  proof
    assume "\<lparr>op_hash = txid, op_n = of_nat i\<rparr> \<in> fst ` set (new_coins txid cb h (i + 1) outs)"
    from new_coins_key [OF this] obtain j where "i + 1 \<le> j" "j < i + 1 + length outs" "(of_nat j :: u32) = of_nat i"
      by auto
    then show False using of_nat_u32_inj [of j i] Cons.prems by simp
  qed
  then show ?case using Cons.IH [of "i + 1"] Cons.prems by simp
qed simp

lemma new_coins_keys: "map fst (new_coins txid cb h i outs) = map fst (new_coins txid cb 0 i outs)"
  by (induction outs arbitrary: i) auto

lemma created_keys: "map fst (tx_coins h tx) = created tx"
  unfolding created_def tx_coins_def by (rule new_coins_keys)

lemma created_set: "fst ` set (tx_coins h tx) = set (created tx)"
  using arg_cong [OF created_keys [of h tx], of set] by simp

lemma created_distinct: "length (vout tx) \<le> 2 ^ 32 \<Longrightarrow> distinct (created tx)"
  unfolding created_def tx_coins_def by (rule new_coins_distinct) simp

lemma created_hash: "p \<in> set (created tx) \<Longrightarrow> \<exists>j < length (vout tx). p = \<lparr>op_hash = ComputeHash tx, op_n = of_nat j\<rparr>"
  using new_coins_key [of p "ComputeHash tx" "IsCoinBase tx" 0 0 "vout tx"] by (auto simp: created_def tx_coins_def)

lemma add_outputs_new_coins:
  "i + length outs \<le> 2 ^ 32 \<Longrightarrow> add_outputs txid cb h i outs u = u ++ map_of (new_coins txid cb h i outs)"
proof (induction outs arbitrary: i u)
  case (Cons t outs)
  let ?p = "\<lparr>op_hash = txid, op_n = of_nat i\<rparr>" and ?m = "map_of (new_coins txid cb h (i + 1) outs)"
  have "?m ?p = None" if "\<not> IsUnspendable (scriptPubKey t)"
    using new_coins_distinct [OF Cons.prems, of txid cb h] that by (simp add: map_of_eq_None_iff)
  then have "\<not> IsUnspendable (scriptPubKey t) \<Longrightarrow> u(?p \<mapsto> c) ++ ?m = u ++ map_of ((?p, c) # new_coins txid cb h (i + 1) outs)" for c
    by (auto simp: fun_eq_iff map_add_def split: option.splits)
  moreover have "add_outputs txid cb h (i + 1) outs v = v ++ ?m" for v using Cons.IH [of "i + 1" v] Cons.prems by simp
  ultimately show ?case by (simp del: map_of.simps)
qed simp

lemma dom_apply_tx: "dom (apply_tx h tx u) = (dom u - set (spent tx)) \<union> set (created tx)"
  by (auto simp: apply_tx_def dom_map_of_conv_image_fst created_set)

lemma finite_apply_tx: "finite (dom u) \<Longrightarrow> finite (dom (apply_tx h tx u))"
  by (simp add: dom_apply_tx)

text \<open>Distinct new outpoints within a block are enough for each transaction in turn.\<close>

lemma block_fresh_step:
  assumes "distinct (concat (map created (tx # txs)))" and "\<forall>t \<in> set (tx # txs). set (created t) \<inter> dom u = {}"
  shows "distinct (concat (map created txs)) \<and> (\<forall>t \<in> set txs. set (created t) \<inter> dom (apply_tx h tx u) = {})"
  using assms by (auto simp: dom_apply_tx)

section \<open>Value\<close>

lemma utxo_value_map_add:
  "finite (dom u) \<Longrightarrow> distinct (map fst cs) \<Longrightarrow> fst ` set cs \<inter> dom u = {} \<Longrightarrow>
   utxo_value (u ++ map_of cs) = utxo_value u + sum_list (map (\<lambda>(p, c). nValue (out c)) cs)"
proof (induction cs)
  case (Cons pc cs)
  obtain p c where pc: "pc = (p, c)" by force
  have "(u ++ map_of cs) p = None" using Cons.prems(2,3) pc
    by (simp add: map_of_eq_None_iff) (metis domIff)
  moreover have "finite (dom (u ++ map_of cs))" using Cons.prems(1) by (simp add: finite_dom_map_of)
  ultimately have "utxo_value ((u ++ map_of cs)(p \<mapsto> c)) = utxo_value (u ++ map_of cs) + nValue (out c)"
    by (intro utxo_value_add)
  moreover have "utxo_value (u ++ map_of cs) = utxo_value u + sum_list (map (\<lambda>(p, c). nValue (out c)) cs)"
    using Cons by simp
  moreover have "u ++ map_of (pc # cs) = (u ++ map_of cs)(p \<mapsto> c)" by (simp add: pc map_add_upd del: fun_upd_apply)
  ultimately show ?case by (simp only: pc) simp
qed simp

lemma new_coins_value: "sum_list (map (\<lambda>(p, c). nValue (out c)) (new_coins txid cb h i outs)) = spendable_value outs"
  by (induction outs arbitrary: i) (simp_all add: spendable_value_def)

lemma apply_tx_value:
  assumes "finite (dom u)" and "tx_applies u tx"
  shows "utxo_value (apply_tx h tx u) =
    utxo_value u - sum_list (map (\<lambda>p. nValue (out (the (u p)))) (spent tx)) + spendable_value (vout tx)"
proof -
  let ?r = "u |` (- set (spent tx))"
  have r: "?r = (\<lambda>p. if p \<in> set (spent tx) then None else u p)" by (auto simp: restrict_map_def)
  have "utxo_value ?r = utxo_value u - sum_list (map (\<lambda>p. nValue (out (the (u p)))) (spent tx))"
    using utxo_value_remove [OF assms(1), of "set (spent tx)"] assms(2)
    by (simp add: r tx_applies_def sum_list_distinct_conv_sum_set)
  moreover have "utxo_value (?r ++ map_of (tx_coins h tx)) = utxo_value ?r + spendable_value (vout tx)"
  proof -
    have "fst ` set (tx_coins h tx) \<inter> dom ?r = {}" using assms(2) by (auto simp: tx_applies_def created_set)
    moreover have "distinct (map fst (tx_coins h tx))"
      using assms(2) by (simp only: created_keys created_distinct tx_applies_def)
    moreover have "finite (dom ?r)" using assms(1) by simp
    ultimately show ?thesis using utxo_value_map_add new_coins_value by (simp add: tx_coins_def)
  qed
  ultimately show ?thesis by (simp add: apply_tx_def)
qed

lemma spendable_le: "list_all (\<lambda>t. MoneyRange (nValue t)) outs \<Longrightarrow> spendable_value outs \<le> sum_list (map nValue outs)"
  by (induction outs) (auto simp: spendable_value_def MoneyRange_def)

lemma apply_tx_value_le:
  assumes "finite (dom u)" and "tx_applies u tx" and "list_all (\<lambda>t. MoneyRange (nValue t)) (vout tx)"
  shows "utxo_value (apply_tx h tx u) \<le>
    utxo_value u - tx_fee u tx + (if IsCoinBase tx then sum_list (map nValue (vout tx)) else 0)"
  using apply_tx_value [OF assms(1,2), of h] spendable_le [OF assms(3)] by (simp add: tx_fee_def spent_def)

lemma apply_block_value_le:
  assumes "finite (dom u)" and "block_applies h txs u" and "\<forall>tx \<in> set txs. list_all (\<lambda>t. MoneyRange (nValue t)) (vout tx)"
  shows "utxo_value (apply_block h txs u) \<le>
    utxo_value u - block_fees h txs u + sum_list (map (\<lambda>tx. sum_list (map nValue (vout tx))) (filter IsCoinBase txs))"
  using assms
proof (induction txs arbitrary: u)
  case (Cons tx txs)
  have "utxo_value (apply_tx h tx u) \<le> utxo_value u - tx_fee u tx + (if IsCoinBase tx then sum_list (map nValue (vout tx)) else 0)"
    using apply_tx_value_le [of u tx h] Cons.prems by simp
  moreover have "utxo_value (apply_block h txs (apply_tx h tx u)) \<le> utxo_value (apply_tx h tx u) - block_fees h txs (apply_tx h tx u) +
      sum_list (map (\<lambda>tx. sum_list (map nValue (vout tx))) (filter IsCoinBase txs))"
    using Cons.IH [of "apply_tx h tx u"] finite_apply_tx [of u h tx] Cons.prems by simp
  ultimately show ?case by (cases "IsCoinBase tx") simp_all
qed simp

lemma finite_apply_block: "finite (dom u) \<Longrightarrow> finite (dom (apply_block h txs u))"
  by (induction txs arbitrary: u) (simp_all add: finite_apply_tx)

section \<open>Undoing\<close>

text \<open>Taking the created coins away and putting the spent ones back.\<close>

definition revert_tx :: "Transaction \<Rightarrow> Coin list \<Rightarrow> utxo_set \<Rightarrow> utxo_set" where
  "revert_tx tx undo u = (u |` (- set (created tx))) ++ map_of (zip (spent tx) undo)"

lemma revert_apply:
  assumes "tx_applies u tx"
  shows "revert_tx tx (tx_undo u tx) (apply_tx h tx u) = u"
proof
  fix p
  have z: "map_of (zip (spent tx) (tx_undo u tx)) p = (if p \<in> set (spent tx) then Some (the (u p)) else None)"
    by (simp add: tx_undo_def map_of_zip_map)
  have m: "map_of (tx_coins h tx) p = None" if "p \<notin> set (created tx)"
    using that by (simp add: map_of_eq_None_iff created_set)
  show "revert_tx tx (tx_undo u tx) (apply_tx h tx u) p = u p"
  proof (cases "p \<in> set (spent tx)")
    case True
    then show ?thesis using assms z by (auto simp: revert_tx_def map_add_def tx_applies_def)
  next
    case False
    moreover have "p \<in> set (created tx) \<Longrightarrow> u p = None" using assms by (auto simp: tx_applies_def)
    ultimately show ?thesis using z m by (auto simp: revert_tx_def map_add_def apply_tx_def restrict_map_def)
  qed
qed

fun revert_block :: "(Transaction \<times> Coin list) list \<Rightarrow> utxo_set \<Rightarrow> utxo_set" where
  "revert_block [] u = u"
| "revert_block ((tx, undo) # txs) u = revert_block txs (revert_tx tx undo u)"

lemma revert_block_append: "revert_block (xs @ ys) u = revert_block ys (revert_block xs u)"
  by (induction xs u rule: revert_block.induct) simp_all

lemma length_block_undo: "length (block_undo h txs u) = length txs"
  by (induction txs arbitrary: u) simp_all

lemma revert_apply_block:
  "block_applies h txs u \<Longrightarrow> revert_block (rev (zip txs (block_undo h txs u))) (apply_block h txs u) = u"
  by (induction txs arbitrary: u) (simp_all add: revert_block_append revert_apply)

section \<open>Well-formed sets\<close>

text \<open>Coins that can be restored: they have a value, a height and a script that can succeed.\<close>

definition restorable :: "Coin \<Rightarrow> bool" where
  "restorable c \<longleftrightarrow> \<not> IsSpent c \<and> coin_nHeight c > 0 \<and> \<not> IsUnspendable (scriptPubKey (out c))"

definition wf_utxo :: "utxo_set \<Rightarrow> bool" where
  "wf_utxo u \<longleftrightarrow> (\<forall>c \<in> ran u. restorable c)"

lemma new_coins_restorable:
  "h > 0 \<Longrightarrow> list_all (\<lambda>t. MoneyRange (nValue t)) outs \<Longrightarrow> (p, c) \<in> set (new_coins txid cb h i outs) \<Longrightarrow> restorable c"
  by (induction outs arbitrary: i) (auto simp: restorable_def IsSpent_def TxOut_IsNull_def MoneyRange_def split: if_splits)

lemma wf_apply_tx:
  assumes "wf_utxo u" and "h > 0" and "list_all (\<lambda>t. MoneyRange (nValue t)) (vout tx)"
  shows "wf_utxo (apply_tx h tx u)"
  unfolding wf_utxo_def
proof
  fix c
  assume "c \<in> ran (apply_tx h tx u)"
  then obtain p where "apply_tx h tx u p = Some c" by (auto simp: ran_def)
  then consider "(p, c) \<in> set (tx_coins h tx)" | "u p = Some c"
    by (auto simp: apply_tx_def map_add_Some_iff restrict_map_def dest: map_of_SomeD split: if_splits)
  then show "restorable c" using assms new_coins_restorable
    by cases (auto simp: tx_coins_def wf_utxo_def ran_def)
qed

end
