(* ===== verification/Connect_Refine.thy ===== *)
theory Connect_Refine
  imports Connect Ledger
begin

text \<open>
  Connecting and disconnecting a block on a cache over any view refine the ledger machine: readers keep
  the set of outputs, \<open>UpdateCoins\<close> carries out a transaction, the loop of \<open>ConnectBlock\<close> a block, and
  \<open>DisconnectBlock\<close> takes a block back.
\<close>

section \<open>Readers\<close>

context coins_view
begin

lemma p2sh_sigops_law:
  "cinv c \<Longrightarrow> p2sh_sigops get ins n c = (r, c') \<Longrightarrow> cinv c' \<and> cutxo c' = cutxo c"
proof (induction ins arbitrary: n c)
  case (Cons txin ins)
  obtain x c1 where x: "AccessCoin get c (prevout txin) = (x, c1)" by force
  show ?case
  proof (cases "IsSpent x")
    case False
    then show ?thesis using AccessCoin_law [OF Cons.prems(1) x] Cons.prems(2) x Cons.IH [of c1] by simp
  qed (use AccessCoin_law [OF Cons.prems(1) x] Cons.prems(2) x in simp)
qed simp

lemma witness_sigops_law:
  "cinv c \<Longrightarrow> witness_sigops get flags ins n c = (r, c') \<Longrightarrow> cinv c' \<and> cutxo c' = cutxo c"
proof (induction ins arbitrary: n c)
  case (Cons txin ins)
  obtain x c1 where x: "AccessCoin get c (prevout txin) = (x, c1)" by force
  show ?case
    using AccessCoin_law [OF Cons.prems(1) x] Cons.prems(2) x Cons.IH [of c1] by (auto split: if_splits option.splits)
qed simp

lemma GetTransactionSigOpCost_law:
  assumes "cinv c" and "GetTransactionSigOpCost get tx c flags = (r, c')"
  shows "cinv c' \<and> cutxo c' = cutxo c"
proof (cases "IsCoinBase tx")
  case False
  obtain n c1 where n: "(if has_flag flags SCRIPT_VERIFY_P2SH then GetP2SHSigOpCount get tx c else (Some 0, c)) = (n, c1)" by force
  have l: "cinv c1 \<and> cutxo c1 = cutxo c"
    using n assms(1) False p2sh_sigops_law [of c "vin tx" 0 n c1] by (auto simp: GetP2SHSigOpCount_def split: if_splits)
  show ?thesis
  proof (cases n)
    case None
    then show ?thesis using l n assms(2) False by (auto simp: GetTransactionSigOpCost_def Let_def)
  next
    case (Some k)
    then show ?thesis using l n assms(2) False
        witness_sigops_law [of c1 flags "vin tx" "GetLegacySigOpCount tx * WITNESS_SCALE_FACTOR + k * WITNESS_SCALE_FACTOR" r c']
      by (auto simp: GetTransactionSigOpCost_def Let_def)
  qed
qed (use assms in \<open>simp add: GetTransactionSigOpCost_def Let_def\<close>)

lemma read_heights_law:
  "cinv c \<Longrightarrow> read_heights get ins c = (r, c') \<Longrightarrow> cinv c' \<and> cutxo c' = cutxo c"
proof (induction ins arbitrary: c r)
  case (Cons txin ins)
  obtain x c1 where x: "AccessCoin get c (prevout txin) = (x, c1)" by force
  show ?case
    using AccessCoin_law [OF Cons.prems(1) x] Cons.prems(2) x Cons.IH [of c1] by (auto split: prod.splits)
qed simp

lemma check_scripts_law:
  "cinv c \<Longrightarrow> check_scripts sv get tx flags txdata queue is c = (r, c') \<Longrightarrow> cinv c' \<and> cutxo c' = cutxo c"
proof (induction "is" arbitrary: c r c')
  case (Cons i "is")
  obtain x c1 where x: "AccessCoin get c (prevout (vin tx ! i)) = (x, c1)" by force
  note l = AccessCoin_law [OF Cons.prems(1) x]
  show ?case
  proof (cases "IsSpent x")
    case False
    let ?chk = "\<lparr>m_tx_out = out x, ptxTo = tx, chk_nIn = i, chk_nFlags = flags, chk_txdata = txdata\<rparr>"
    obtain r1 c2 where r1: "check_scripts sv get tx flags txdata queue is c1 = (r1, c2)" by force
    have "c' = c1 \<or> c' = c2"
      using Cons.prems(2) x False r1
      by (auto simp: Let_def cbind_def creturn_def split: if_splits sum.splits exec_error.splits)
    then show ?thesis using l Cons.IH [OF _ r1] by auto
  qed (use l Cons.prems(2) x in simp)
qed simp

lemma CheckInputs_law:
  assumes "cinv c" and "CheckInputs sv get tx sc flags store txdata queue (c, k) = (r, (c', k'))"
  shows "cinv c' \<and> cutxo c' = cutxo c"
proof (cases "IsCoinBase tx \<or> \<not> sc")
  case False
  obtain b k1 where b: "cache_contains sv k (hashCacheEntry sv tx flags) (\<not> store) = (b, k1)" by force
  obtain r1 c1 where r1: "check_scripts sv get tx flags txdata queue [0..<length (vin tx)] c = (r1, c1)" by force
  have "c' = c \<or> c' = c1" using assms(2) False b r1 by (cases b; cases r1) (auto simp: CheckInputs_def)
  then show ?thesis using assms(1) check_scripts_law [OF assms(1) r1] by auto
qed (use assms in \<open>auto simp: CheckInputs_def\<close>)

lemma have_any_law:
  "cinv c \<Longrightarrow> have_any get ps c = (r, c') \<Longrightarrow> (r \<longleftrightarrow> (\<exists>p \<in> set ps. cutxo c p \<noteq> None)) \<and> cinv c' \<and> cutxo c' = cutxo c"
proof (induction ps arbitrary: c)
  case (Cons p ps)
  obtain h c1 where h: "HaveCoin get c p = (h, c1)" by force
  show ?case using HaveCoin_law [OF Cons.prems(1) h] Cons.IH [of c1] Cons.prems(2) h by (auto split: if_splits)
qed simp

lemma GetBestBlock_law:
  "cinv c \<Longrightarrow> GetBestBlock best c = (h, c') \<Longrightarrow> cinv c' \<and> cutxo c' = cutxo c \<and> h = hashBlock c'"
  by (auto simp: GetBestBlock_def Let_def cache_inv_def cache_utxo_def)

lemma SetBestBlock_law [simp]: "cinv (SetBestBlock c h) = cinv c" "cutxo (SetBestBlock c h) = cutxo c" "hashBlock (SetBestBlock c h) = h"
  by (simp_all add: SetBestBlock_def cache_inv_def cache_utxo_def)

end

section \<open>The update of the coins\<close>

context coins_view
begin

lemma AddCoins_new:
  "cinv c \<Longrightarrow> list_all (\<lambda>t. MoneyRange (nValue t)) outs \<Longrightarrow> i + length outs \<le> 2 ^ 32 \<Longrightarrow>
   fst ` set (new_coins txid cb h i outs) \<inter> dom (cutxo c) = {} \<Longrightarrow>
   \<exists>c'. AddCoins_loop get False cb txid h i outs c = Some c' \<and> cinv c' \<and> cutxo c' = cutxo c ++ map_of (new_coins txid cb h i outs)"
proof (induction outs arbitrary: c i)
  case (Cons t outs)
  let ?p = "\<lparr>op_hash = txid, op_n = of_nat i\<rparr>" and ?n = "\<lparr>out = t, fCoinBase = cb, coin_nHeight = h\<rparr>"
  let ?rest = "new_coins txid cb h (i + 1) outs"
  have ns: "\<not> IsSpent ?n" using Cons.prems(2) by (simp add: IsSpent_def TxOut_IsNull_def MoneyRange_def)
  have d: "distinct (map fst (new_coins txid cb h i (t # outs)))" by (rule new_coins_distinct) (rule Cons.prems(3))
  show ?case
  proof (cases "IsUnspendable (scriptPubKey t)")
    case True
    then have "AddCoin c ?p ?n cb = Some c" using ns by (simp add: AddCoin_def)
    then show ?thesis using True Cons.IH [of c "i + 1"] Cons.prems by simp
  next
    case False
    have fresh: "cutxo c ?p = None" using Cons.prems(4) False by auto
    obtain c1 where c1: "AddCoin c ?p ?n cb = Some c1" "cinv c1" "cutxo c1 = (cutxo c)(?p \<mapsto> ?n)"
      using AddCoin_law [OF Cons.prems(1) ns, of cb ?p] fresh False by auto
    have np: "?p \<notin> fst ` set ?rest" using d False by simp
    then have "fst ` set ?rest \<inter> dom (cutxo c1) = {}" using Cons.prems(4) False by (auto simp: c1(3))
    then obtain c' where c': "AddCoins_loop get False cb txid h (i + 1) outs c1 = Some c'" "cinv c'"
        "cutxo c' = cutxo c1 ++ map_of ?rest"
      using Cons.IH [OF c1(2), of "i + 1"] Cons.prems by auto
    have "map_of ?rest ?p = None" using np by (simp add: map_of_eq_None_iff)
    then have "cutxo c' = cutxo c ++ map_of (new_coins txid cb h i (t # outs))"
      using False by (auto simp: c' c1(3) fun_eq_iff map_add_def split: option.splits)
    then show ?thesis using c1 c' by (auto simp: Let_def)
  qed
qed simp

lemma UpdateCoins_refines:
  assumes c: "cinv c" and ok: "CheckTransaction tx False = Inr ()" and a: "tx_applies (cutxo c) tx"
  shows "\<exists>c'. UpdateCoins get tx c height = Some (tx_undo (cutxo c) tx, c') \<and> cinv c' \<and> cutxo c' = apply_tx height tx (cutxo c)"
proof -
  note t = CheckTransaction_InrD [OF ok]
  obtain c1 where c1: "(if \<not> IsCoinBase tx then spend_inputs get (vin tx) c else Some ([], c)) = Some (tx_undo (cutxo c) tx, c1)"
      "cinv c1" "cutxo c1 = cutxo c |` (- set (spent tx))"
  proof (cases "IsCoinBase tx")
    case True
    then show thesis using that [of c] c by (simp add: tx_undo_def spent_def restrict_map_def)
  next
    case False
    then have d: "distinct (map prevout (vin tx))" "\<forall>txin \<in> set (vin tx). cutxo c (prevout txin) \<noteq> None"
      using a by (auto simp: tx_applies_def spent_def)
    obtain c1 where "spend_inputs get (vin tx) c = Some (map (\<lambda>txin. the (cutxo c (prevout txin))) (vin tx), c1)" "cinv c1"
        "cutxo c1 = (\<lambda>p. if p \<in> prevout ` set (vin tx) then None else cutxo c p)"
      using spend_inputs_law [OF c d] by blast
    then show thesis using that [of c1] False by (auto simp: tx_undo_def spent_def restrict_map_def comp_def fun_eq_iff)
  qed
  have "fst ` set (new_coins (ComputeHash tx) (IsCoinBase tx) height 0 (vout tx)) \<inter> dom (cutxo c1) = {}"
    using a created_set [of height tx] by (auto simp: c1(3) tx_applies_def tx_coins_def)
  then obtain c2 where "AddCoins get c1 tx height False = Some c2" "cinv c2" "cutxo c2 = apply_tx height tx (cutxo c)"
    using AddCoins_new [OF c1(2) t(2), of 0 "ComputeHash tx" "IsCoinBase tx" height] t(3)
    by (auto simp: AddCoins_def apply_tx_def tx_coins_def c1(3))
  then show ?thesis using c1(1) by (simp add: UpdateCoins_def)
qed

end

section \<open>Connecting a transaction\<close>

lemma on_view_Inr: "on_view f s = (Inr x, s') \<longleftrightarrow> (\<exists>v. f (cs_view s) = (Inr x, v) \<and> s' = s\<lparr>cs_view := v\<rparr>)"
  by (auto simp: on_view_def split: prod.splits)

lemma on_bits_Inr: "on_bits f s = (Inr x, s') \<longleftrightarrow> (\<exists>b. f (cs_bits s) = (Inr x, b) \<and> s' = s\<lparr>cs_bits := b\<rparr>)"
  by (auto simp: on_bits_def split: prod.splits)

lemma on_block_Inr: "on_block f s = (Inr x, s') \<longleftrightarrow> (\<exists>b. f (cs_block s) = (Inr x, b) \<and> s' = s\<lparr>cs_block := b\<rparr>)"
  by (auto simp: on_block_def split: prod.splits)

lemma on_scripts_Inr:
  "on_scripts f s = (Inr x, s') \<longleftrightarrow> (\<exists>v k. f (cs_view s, cs_scripts s) = (Inr x, (v, k)) \<and> s' = s\<lparr>cs_view := v, cs_scripts := k\<rparr>)"
  by (auto simp: on_scripts_def split: prod.splits)

lemma query_Inr: "query f v = (Inr x, v') \<longleftrightarrow> f v = (x, v')"
  by (auto simp: query_def split: prod.splits)

lemma attempt_Inr: "attempt f v = (Inr x, v') \<longleftrightarrow> f v = Some (x, v')"
  by (auto simp: attempt_def split: option.splits prod.splits)

lemma creturn_Inr: "creturn y s = (Inr x, s') \<longleftrightarrow> x = y \<and> s' = s"
  by (auto simp: creturn_def)

lemma DoS_Inr [simp]: "DoS l c r k \<noteq> Inr x"
  by (simp add: DoS_def)

lemmas check_Inr = on_view_Inr on_bits_Inr on_block_Inr on_scripts_Inr query_Inr attempt_Inr creturn_Inr expect_Inr

lemma reject_InrD: "reject_if b (DoS l c r k) s = (Inr x, s') \<Longrightarrow> s' = s \<and> \<not> b"
  by (simp add: reject_if_def split: if_splits)

context coins_view
begin

lemma check_tx_inputs_law:
  assumes c: "cinv (cs_view s)" and ok: "CheckTransaction tx False = Inr ()"
    and r: "check_tx_inputs env get pindex bi fl tx fees s = (Inr fees', s')"
  shows "\<exists>v. s' = s\<lparr>cs_view := v\<rparr> \<and> cinv v \<and> cutxo v = cutxo (cs_view s) \<and> set (spent tx) \<subseteq> dom (cutxo (cs_view s)) \<and>
    fees' = fees + tx_fee (cutxo (cs_view s)) tx"
proof (cases "IsCoinBase tx")
  case True
  then show ?thesis using c r by (auto simp: check_tx_inputs_def creturn_Inr tx_fee_def spent_def intro!: exI [of _ "cs_view s"])
next
  case False
  let ?u = "cutxo (cs_view s)"
  from r False obtain fee v1 hs v2 where
      fee: "CheckTxInputs get tx (cs_view s) (nHeight bi) = (Inr fee, v1)" and hs: "read_heights get (vin tx) v1 = (hs, v2)"
      and s': "s' = s\<lparr>cs_view := v2\<rparr>" "fees' = fees + fee"
    by (fastforce simp: check_tx_inputs_def check_Inr elim!: cbind_InrE dest!: reject_InrD)
  note l = CheckTxInputs_law [OF c fee False]
  have "cinv v2 \<and> cutxo v2 = ?u" using l read_heights_law [OF _ hs] by auto
  moreover have "fee = tx_fee ?u tx"
  proof -
    have "map (in_value ?u) (vin tx) = map (\<lambda>p. nValue (out (the (?u p)))) (spent tx)"
      using l False by (auto simp: in_value_def spent_def)
    then show ?thesis using l False CheckTransaction_InrD(4) [OF ok] by (auto simp: tx_fee_def)
  qed
  ultimately show ?thesis using l False s' by (auto simp: spent_def)
qed

lemma connect_tx_refines:
  assumes c: "cinv (cs_view s)" and ok: "CheckTransaction tx False = Inr ()" and d: "distinct (spent tx)"
    and new: "set (created tx) \<inter> dom (cutxo (cs_view s)) = {}"
    and r: "connect_tx env get pindex bi fl flags sc jc i tx acc s = (Inr acc', s')"
  shows "tx_applies (cutxo (cs_view s)) tx \<and> cinv (cs_view s') \<and> cs_block s' = cs_block s \<and>
    cutxo (cs_view s') = apply_tx (nat (nHeight bi)) tx (cutxo (cs_view s)) \<and>
    nFees acc' = nFees acc + tx_fee (cutxo (cs_view s)) tx \<and>
    vtxundo acc' = vtxundo acc @ (if i = 0 then [] else [tx_undo (cutxo (cs_view s)) tx])"
proof -
  let ?u = "cutxo (cs_view s)"
  from r obtain s1 fees v2 v3 k3 cost chks undo v4 where
      r1: "check_tx_inputs env get pindex bi fl tx (nFees acc) s = (Inr fees, s1)" and
      r2: "GetTransactionSigOpCost get tx (cs_view s1) flags = (Some cost, v2)" and
      r3: "CheckInputs (ce_services env) get tx sc flags jc (PrecomputedTransactionData_ctor tx) (ce_threads env) (v2, cs_scripts s1) = (Inr chks, (v3, k3))" and
      r4: "UpdateCoins get tx v3 (nat (nHeight bi)) = Some (undo, v4)" and
      s': "s' = s1\<lparr>cs_view := v4, cs_scripts := k3\<rparr>" "nFees acc' = fees" "vtxundo acc' = vtxundo acc @ (if i = 0 then [] else [undo])"
    by (fastforce simp: connect_tx_def check_Inr elim!: cbind_InrE dest!: reject_InrD)
  obtain v1 where v1: "s1 = s\<lparr>cs_view := v1\<rparr>" "cinv v1" "cutxo v1 = ?u" "set (spent tx) \<subseteq> dom ?u" "fees = nFees acc + tx_fee ?u tx"
    using check_tx_inputs_law [OF c ok r1] by auto
  have v2: "cinv v2" "cutxo v2 = ?u" using GetTransactionSigOpCost_law [OF _ r2] v1 by auto
  have v3: "cinv v3" "cutxo v3 = ?u" using CheckInputs_law [OF v2(1) r3] v2 by auto
  have a: "tx_applies ?u tx" using d new v1(4) CheckTransaction_InrD(3) [OF ok] by (simp add: tx_applies_def)
  then show ?thesis using UpdateCoins_refines [OF v3(1) ok, of "nat (nHeight bi)"] v3(2) r4 s' v1 by auto
qed

lemma connect_loop_refines:
  assumes "cinv (cs_view s)" and "\<forall>tx \<in> set txs. CheckTransaction tx False = Inr () \<and> distinct (spent tx)"
    and "distinct (concat (map created txs))" and "\<forall>tx \<in> set txs. set (created tx) \<inter> dom (cutxo (cs_view s)) = {}"
    and "connect_loop env get pindex bi fl flags sc jc i txs acc s = (Inr acc', s')"
  shows "block_applies (nat (nHeight bi)) txs (cutxo (cs_view s)) \<and> cinv (cs_view s') \<and> cs_block s' = cs_block s \<and>
    cutxo (cs_view s') = apply_block (nat (nHeight bi)) txs (cutxo (cs_view s)) \<and>
    nFees acc' = nFees acc + block_fees (nat (nHeight bi)) txs (cutxo (cs_view s)) \<and>
    vtxundo acc' = vtxundo acc @ drop (if i = 0 then 1 else 0) (block_undo (nat (nHeight bi)) txs (cutxo (cs_view s)))"
  using assms
proof (induction txs arbitrary: s acc i)
  case Nil
  then show ?case by (simp add: creturn_Inr)
next
  case (Cons tx txs)
  let ?u = "cutxo (cs_view s)" and ?h = "nat (nHeight bi)"
  obtain acc1 s1 where r: "connect_tx env get pindex bi fl flags sc jc i tx acc s = (Inr acc1, s1)"
      "connect_loop env get pindex bi fl flags sc jc (i + 1) txs acc1 s1 = (Inr acc', s')"
    using Cons.prems(5) by (auto elim: cbind_InrE)
  have ok: "CheckTransaction tx False = Inr ()" "distinct (spent tx)" "set (created tx) \<inter> dom ?u = {}"
    using Cons.prems(2,4) by auto
  note l = connect_tx_refines [OF Cons.prems(1) ok r(1)]
  have f: "distinct (concat (map created txs)) \<and> (\<forall>t \<in> set txs. set (created t) \<inter> dom (cutxo (cs_view s1)) = {})"
    using block_fresh_step [OF Cons.prems(3,4), of ?h] l by simp
  have "\<forall>t \<in> set txs. CheckTransaction t False = Inr () \<and> distinct (spent t)" using Cons.prems(2) by simp
  from Cons.IH [OF _ this _ _ r(2)] show ?case using l f by auto
qed

end

section \<open>Connecting a block\<close>

lemma check_transactions_InrD: "check_transactions txs = Inr () \<Longrightarrow> \<forall>tx \<in> set txs. CheckTransaction tx False = Inr ()"
  by (induction txs) (auto simp: invalid_again_def Invalid_def split: sum.splits failure.splits)

lemma CheckBlock_InrD:
  assumes "CheckBlock params pow mrk block = (Inr x, block')" and "\<not> fChecked block"
  shows "vtx block' = vtx block \<and> (\<forall>tx \<in> set (vtx block). CheckTransaction tx False = Inr ()) \<and>
    length (vtx block) * WITNESS_SCALE_FACTOR \<le> MAX_BLOCK_WEIGHT \<and> (\<exists>cb txs. vtx block = cb # txs \<and> IsCoinBase cb \<and> (\<forall>tx \<in> set txs. \<not> IsCoinBase tx))"
proof -
  have r: "check_transactions (vtx block) = Inr () \<and> vtx block \<noteq> [] \<and> IsCoinBase (vtx block ! 0) \<and>
      \<not> list_ex IsCoinBase (tl (vtx block)) \<and> vtx block' = vtx block \<and> length (vtx block) * WITNESS_SCALE_FACTOR \<le> MAX_BLOCK_WEIGHT"
    using assms unfolding CheckBlock_def
    by (auto simp: check_Inr verdict_def split: if_splits prod.splits elim!: cbind_InrE dest!: reject_InrD)
  then have "\<forall>tx \<in> set (vtx block). CheckTransaction tx False = Inr ()" using check_transactions_InrD by blast
  then show ?thesis using r by (cases "vtx block") (auto simp: list_ex_iff simp del: check_transactions.simps)
qed

lemma finish_connect_law:
  assumes "finish_connect env bi undo s = (Inr bi', s')"
  shows "\<exists>h. s' = s\<lparr>cs_view := SetBestBlock (cs_view s) h\<rparr> \<and> phashBlock bi' = Some h"
  using assms unfolding finish_connect_def
  by (auto simp: check_Inr verdict_def split: if_splits option.splits elim!: cbind_InrE)

lemma run_queue_InrD: "run_queue sv chks s = (Inr x, s') \<Longrightarrow> s' = s \<and> (\<forall>chk \<in> set chks. CScriptCheck_run sv chk = Inr ())"
  by (auto simp: run_queue_def verdict_def reject_if_def list_ex_iff DoS_def split: if_splits)

lemma connect_end_InrD:
  assumes "(if jc then creturn (a, bi) else cbind (finish_connect env bi a) (\<lambda>bi. creturn (a, bi))) s = (Inr (undo, bi'), s')"
  shows "undo = a \<and> (s' = s \<or> (\<exists>h. s' = s\<lparr>cs_view := SetBestBlock (cs_view s) h\<rparr>))"
  using assms by (auto simp: creturn_Inr split: if_splits elim!: cbind_InrE dest!: finish_connect_law)

text \<open>The steps of a block that is connected.\<close>

lemma connect_transactions_InrE:
  assumes "connect_transactions env get pindex bi sc jc txs s = (Inr (undo, bi'), s')"
    and "fEnforceBIP30 (ce_store env) bi (ce_params env) = Some True"
  obtains v bits flags csv fsc acc s3 where
    "have_any get (concat (map tx_outpoints txs)) (cs_view s) = (False, v)"
    "connect_loop env get pindex bi (if csv then LOCKTIME_VERIFY_SEQUENCE else 0) flags fsc jc 0 txs
       \<lparr>nFees = 0, nSigOpsCost = 0, queued = [], vtxundo = []\<rparr> (s\<lparr>cs_view := v, cs_bits := bits\<rparr>) = (Inr acc, s3)"
    "the (GetValueOut (txs ! 0)) \<le> nFees acc + GetBlockSubsidy (nHeight bi) (ce_params env)"
    "undo = vtxundo acc" "s' = s3 \<or> (\<exists>h. s' = s3\<lparr>cs_view := SetBestBlock (cs_view s3) h\<rparr>)"
  using assms unfolding connect_transactions_def Let_def
  apply (elim cbind_InrE)
  apply (drule reject_InrD run_queue_InrD connect_end_InrD)+
  apply (simp only: check_Inr option.inject if_True)
  apply (elim exE conjE)
  apply (rule that, simp_all add: not_less)
  done

lemma ConnectBlock_InrE:
  assumes r: "ConnectBlock env get best pindex sc jc s = (Inr (undo, bi'), s')"
    and bi: "ce_store env pindex = Some bi" and ng: "BlockHeader_GetHash (header (cs_block s)) \<noteq> hashGenesisBlock env"
    and b30: "fEnforceBIP30 (ce_store env) bi (ce_params env) = Some True"
  obtains block' ph v q prev where
    "CheckBlock (ce_params env) (\<not> jc) (\<not> jc) (cs_block s) = (Inr (), block')"
    "pprev bi = Some q" "ce_store env q = Some prev" "phashBlock prev = Some ph"
    "GetBestBlock best (cs_view s) = (ph, v)"
    "connect_transactions env get pindex bi sc jc (vtx (cs_block s)) (s\<lparr>cs_block := block', cs_view := v\<rparr>) = (Inr (undo, bi'), s')"
proof -
  obtain q where q: "pprev bi = Some q" using b30 by (cases "pprev bi") (simp_all add: fEnforceBIP30_def)
  show thesis using r ng that
    by (auto simp: ConnectBlock_def bi q Let_def check_Inr verdict_def split: if_splits option.splits elim!: cbind_InrE)
qed

text \<open>
  The conditions under which a block is looked at below: it is not the genesis block, it has not been
  checked before, duplicate transactions are looked for, the block does not create an outpoint twice,
  and none of its transactions names an input twice, which \<open>CheckBlock\<close> does not check.
\<close>

definition regular_block :: "'k connect_env \<Rightarrow> CBlockIndex \<Rightarrow> Block \<Rightarrow> bool" where
  "regular_block env bi block \<longleftrightarrow>
     BlockHeader_GetHash (header block) \<noteq> hashGenesisBlock env \<and> \<not> fChecked block \<and>
     fEnforceBIP30 (ce_store env) bi (ce_params env) = Some True \<and>
     distinct (concat (map created (vtx block))) \<and> list_all (\<lambda>tx. distinct (spent tx)) (vtx block)"

lemma created_outpoints: "set (created tx) \<subseteq> set (tx_outpoints tx)"
  using created_hash by (fastforce simp: tx_outpoints_def)

context coins_view
begin

lemma ConnectBlock_law:
  assumes c: "cinv (cs_view s)" and bi: "ce_store env pindex = Some bi" and reg: "regular_block env bi (cs_block s)"
    and r: "ConnectBlock env get best pindex sc jc s = (Inr (undo, bi'), s')"
  shows "block_applies (nat (nHeight bi)) (vtx (cs_block s)) (cutxo (cs_view s)) \<and> cinv (cs_view s') \<and>
    cutxo (cs_view s') = apply_block (nat (nHeight bi)) (vtx (cs_block s)) (cutxo (cs_view s)) \<and>
    undo = tl (block_undo (nat (nHeight bi)) (vtx (cs_block s)) (cutxo (cs_view s))) \<and>
    (\<forall>tx \<in> set (vtx (cs_block s)). CheckTransaction tx False = Inr ()) \<and>
    length (vtx (cs_block s)) * WITNESS_SCALE_FACTOR \<le> MAX_BLOCK_WEIGHT \<and>
    (\<exists>cb txs. vtx (cs_block s) = cb # txs \<and> IsCoinBase cb \<and> (\<forall>tx \<in> set txs. \<not> IsCoinBase tx)) \<and>
    the (GetValueOut (vtx (cs_block s) ! 0)) \<le>
      block_fees (nat (nHeight bi)) (vtx (cs_block s)) (cutxo (cs_view s)) + GetBlockSubsidy (nHeight bi) (ce_params env) \<and>
    (\<exists>q prev. pprev bi = Some q \<and> ce_store env q = Some prev \<and> phashBlock prev = Some (fst (GetBestBlock best (cs_view s))))"
proof -
  let ?txs = "vtx (cs_block s)" and ?u = "cutxo (cs_view s)"
  have rb: "BlockHeader_GetHash (header (cs_block s)) \<noteq> hashGenesisBlock env" "\<not> fChecked (cs_block s)"
      "fEnforceBIP30 (ce_store env) bi (ce_params env) = Some True" "distinct (concat (map created ?txs))"
      "list_all (\<lambda>tx. distinct (spent tx)) ?txs"
    using reg by (simp_all add: regular_block_def)
  obtain block' ph v q prev where b: "CheckBlock (ce_params env) (\<not> jc) (\<not> jc) (cs_block s) = (Inr (), block')"
      "pprev bi = Some q" "ce_store env q = Some prev" "phashBlock prev = Some ph" "GetBestBlock best (cs_view s) = (ph, v)"
      "connect_transactions env get pindex bi sc jc ?txs (s\<lparr>cs_block := block', cs_view := v\<rparr>) = (Inr (undo, bi'), s')"
    by (rule ConnectBlock_InrE [OF r bi rb(1,3)])
  have v: "cinv v" "cutxo v = ?u" using GetBestBlock_law [OF c b(5)] by simp_all
  obtain v1 bits flags csv fsc acc s3 where t: "have_any get (concat (map tx_outpoints ?txs)) v = (False, v1)"
      "connect_loop env get pindex bi (if csv then LOCKTIME_VERIFY_SEQUENCE else 0) flags fsc jc 0 ?txs
         \<lparr>nFees = 0, nSigOpsCost = 0, queued = [], vtxundo = []\<rparr> (s\<lparr>cs_block := block', cs_view := v1, cs_bits := bits\<rparr>) = (Inr acc, s3)"
      "the (GetValueOut (?txs ! 0)) \<le> nFees acc + GetBlockSubsidy (nHeight bi) (ce_params env)" "undo = vtxundo acc"
      "s' = s3 \<or> (\<exists>h. s' = s3\<lparr>cs_view := SetBestBlock (cs_view s3) h\<rparr>)"
    by (rule connect_transactions_InrE [OF b(6) rb(3)]) simp
  have v1: "cinv v1" "cutxo v1 = ?u" "\<forall>p \<in> set (concat (map tx_outpoints ?txs)). ?u p = None"
    using have_any_law [OF v(1) t(1)] v(2) by auto
  note cb = CheckBlock_InrD [OF b(1) rb(2)]
  have new: "\<forall>tx \<in> set ?txs. set (created tx) \<inter> dom ?u = {}" using v1(3) created_outpoints by fastforce
  have ok: "\<forall>tx \<in> set ?txs. CheckTransaction tx False = Inr () \<and> distinct (spent tx)"
    using cb rb(5) by (simp add: list_all_iff)
  note l = connect_loop_refines [OF _ ok rb(4) _ t(2)]
  have cv: "cinv (cs_view s') = cinv (cs_view s3)" "cutxo (cs_view s') = cutxo (cs_view s3)" using t(5) by auto
  show ?thesis using l v1 new t(3,4) b(2-5) cb unfolding cv by (simp add: drop_Suc)
qed

end

section \<open>Disconnecting\<close>

lemma disconnect_loop_append:
  "disconnect_loop get h (xs @ ys) cl c =
    (case disconnect_loop get h xs cl c of
       Some (Some cl', c') \<Rightarrow> disconnect_loop get h ys cl' c'
     | r \<Rightarrow> r)"
  by (induction get h xs cl c rule: disconnect_loop.induct) (auto split: option.splits prod.splits)

lemma map_of_zip_rev:
  "distinct xs \<Longrightarrow> length xs = length ys \<Longrightarrow> map_of (zip (rev xs) (rev ys)) = map_of (zip xs ys)"
  by (rule map_of_inject_set [THEN iffD2]) (simp_all add: zip_rev rev_map [symmetric])

context coins_view
begin

lemma ApplyTxInUndo_law:
  assumes "cinv c" and "restorable undo" and "cutxo c p = None"
  shows "\<exists>c'. ApplyTxInUndo get undo c p = Some (DISCONNECT_OK, c') \<and> cinv c' \<and> cutxo c' = (cutxo c)(p \<mapsto> undo)"
proof -
  obtain h c1 where h: "HaveCoin get c p = (h, c1)" by force
  note l = HaveCoin_law [OF assms(1) h]
  obtain c2 where "AddCoin c1 p undo False = Some c2" "cinv c2" "cutxo c2 = (cutxo c)(p \<mapsto> undo)"
    using AddCoin_law [of c1 undo False p] l assms(2,3) by (auto simp: restorable_def)
  then show ?thesis using h l assms(2,3) by (auto simp: ApplyTxInUndo_def restorable_def)
qed

lemma remove_outputs_law:
  "cinv c \<Longrightarrow> i + length outs \<le> 2 ^ 32 \<Longrightarrow> map_of (new_coins txid cb h i outs) \<subseteq>\<^sub>m cutxo c \<Longrightarrow>
   \<exists>c'. remove_outputs get txid cb h i outs cl c = (cl, c') \<and> cinv c' \<and>
     cutxo c' = cutxo c |` (- fst ` set (new_coins txid cb h i outs))"
proof (induction outs arbitrary: i c)
  case Nil
  then show ?case by (simp add: restrict_map_def)
next
  case (Cons t outs)
  let ?p = "\<lparr>op_hash = txid, op_n = of_nat i\<rparr>" and ?n = "\<lparr>out = t, fCoinBase = cb, coin_nHeight = h\<rparr>"
  let ?rest = "new_coins txid cb h (i + 1) outs"
  show ?case
  proof (cases "IsUnspendable (scriptPubKey t)")
    case True
    then show ?thesis using Cons.IH [of c "i + 1"] Cons.prems by simp
  next
    case False
    obtain r c1 where r: "SpendCoin get c ?p = (r, c1)" by force
    note l = SpendCoin_law [OF Cons.prems(1) r]
    have "map_of (new_coins txid cb h i (t # outs)) ?p = Some ?n" using False by simp
    then have "cutxo c ?p = Some ?n" using Cons.prems(3) by (metis domI map_le_def)
    then have rn: "r = Some ?n" using l by (auto split: option.splits if_splits)
    have np: "?p \<notin> fst ` set ?rest" using new_coins_distinct [OF Cons.prems(2), of txid cb h] False by simp
    have "map_of ?rest \<subseteq>\<^sub>m cutxo c1"
      unfolding map_le_def
    proof
      fix q
      assume q: "q \<in> dom (map_of ?rest)"
      then have "q \<noteq> ?p" using np unfolding dom_map_of_conv_image_fst by metis
      moreover have "q \<in> dom (map_of (new_coins txid cb h i (t # outs)))" using q False by auto
      then have "map_of (new_coins txid cb h i (t # outs)) q = cutxo c q" using Cons.prems(3) unfolding map_le_def by blast
      ultimately show "map_of ?rest q = cutxo c1 q" using l False by simp
    qed
    from Cons.IH [OF conjunct1 [OF l] _ this] Cons.prems(2)
    obtain c' where "remove_outputs get txid cb h (i + 1) outs cl c1 = (cl, c')" "cinv c'"
        "cutxo c' = cutxo c1 |` (- fst ` set ?rest)"
      by auto
    then show ?thesis using r rn l False by (auto simp: restrict_map_def fun_eq_iff)
  qed
qed

lemma restore_inputs_law:
  "cinv c \<Longrightarrow> length ins = length undos \<Longrightarrow> distinct (map prevout ins) \<Longrightarrow> \<forall>txin \<in> set ins. cutxo c (prevout txin) = None \<Longrightarrow>
   \<forall>undo \<in> set undos. restorable undo \<Longrightarrow>
   \<exists>c'. restore_inputs get ins undos cl c = Some (Some cl, c') \<and> cinv c' \<and> cutxo c' = cutxo c ++ map_of (zip (map prevout ins) undos)"
proof (induction ins arbitrary: undos c)
  case (Cons txin ins)
  obtain undo undos' where u: "undos = undo # undos'" using Cons.prems(2) by (cases undos) auto
  obtain c1 where c1: "ApplyTxInUndo get undo c (prevout txin) = Some (DISCONNECT_OK, c1)" "cinv c1"
      "cutxo c1 = (cutxo c)(prevout txin \<mapsto> undo)"
    using ApplyTxInUndo_law [OF Cons.prems(1), of undo "prevout txin"] Cons.prems(4,5) u by auto
  have "\<forall>t \<in> set ins. cutxo c1 (prevout t) = None" using Cons.prems(3,4) by (auto simp: c1(3)) (metis image_eqI)
  then obtain c' where "restore_inputs get ins undos' cl c1 = Some (Some cl, c')" "cinv c'"
      "cutxo c' = cutxo c1 ++ map_of (zip (map prevout ins) undos')"
    using Cons.IH [OF c1(2), of undos'] Cons.prems(2,3,5) u by auto
  moreover have "map_of (zip (map prevout ins) undos') (prevout txin) = None"
    using Cons.prems(3) by (auto simp: map_of_eq_None_iff dest: set_zip_leftD)
  ultimately show ?case using c1 u by (auto simp: map_add_def fun_eq_iff split: option.splits)
qed simp

lemma disconnect_tx_law:
  assumes c: "cinv c" and u: "cutxo c = apply_tx h tx u" and a: "tx_applies u tx" and w: "wf_utxo u"
    and ud: "ud = Some (tx_undo u tx) \<and> \<not> IsCoinBase tx \<or> ud = None \<and> IsCoinBase tx"
  shows "\<exists>c'. disconnect_tx get h tx ud cl c = Some (Some cl, c') \<and> cinv c' \<and> cutxo c' = u"
proof -
  have "map_of (new_coins (ComputeHash tx) (IsCoinBase tx) h 0 (vout tx)) \<subseteq>\<^sub>m cutxo c"
    by (simp add: u apply_tx_def tx_coins_def)
  then obtain c1 where c1: "remove_outputs get (ComputeHash tx) (IsCoinBase tx) h 0 (vout tx) cl c = (cl, c1)" "cinv c1"
      "cutxo c1 = apply_tx h tx u |` (- set (created tx))"
    using remove_outputs_law [OF c, of 0 "vout tx" "ComputeHash tx" "IsCoinBase tx" h cl] a created_set [of h tx] u
    by (auto simp: tx_applies_def tx_coins_def)
  have rev: "cutxo c1 ++ map_of (zip (spent tx) (tx_undo u tx)) = u"
    using revert_apply [OF a, of h] by (simp add: revert_tx_def c1(3))
  show ?thesis
  proof (cases "IsCoinBase tx")
    case True
    then show ?thesis using ud c1 rev by (auto simp: disconnect_tx_def spent_def)
  next
    case False
    let ?ins = "rev (vin tx)" and ?undos = "rev (tx_undo u tx)"
    have sp: "spent tx = map prevout (vin tx)" using False by (simp add: spent_def)
    have len: "length (tx_undo u tx) = length (vin tx)" by (simp add: tx_undo_def sp)
    have "\<forall>p \<in> set (spent tx). cutxo c1 p = None"
      using a unfolding c1(3) apply_tx_def
      by (auto simp: restrict_map_def map_add_def map_of_eq_None_iff tx_applies_def created_set split: option.splits)
        (metis created_set map_of_eq_None_iff not_None_eq)
    then have none: "\<forall>txin \<in> set ?ins. cutxo c1 (prevout txin) = None" by (simp add: sp)
    have re: "\<forall>x \<in> set ?undos. restorable x" using a w by (fastforce simp: tx_undo_def wf_utxo_def tx_applies_def ran_def)
    have d: "distinct (map prevout ?ins)" using a by (simp add: tx_applies_def sp rev_map [symmetric])
    obtain c2 where "restore_inputs get ?ins ?undos cl c1 = Some (Some cl, c2)" "cinv c2"
        "cutxo c2 = cutxo c1 ++ map_of (zip (map prevout ?ins) ?undos)"
      using restore_inputs_law [OF c1(2) _ d none re, of cl] len by auto
    moreover have "map_of (zip (map prevout ?ins) ?undos) = map_of (zip (spent tx) (tx_undo u tx))"
      using map_of_zip_rev [of "spent tx" "tx_undo u tx"] a by (simp add: sp rev_map [symmetric] tx_applies_def len)
    ultimately show ?thesis using c1(1) ud False len rev by (auto simp: disconnect_tx_def)
  qed
qed

lemma disconnect_loop_law:
  assumes "cinv c" and "cutxo c = apply_block h txs u" and "block_applies h txs u" and "wf_utxo u" and "h > 0"
    and "\<forall>tx \<in> set txs. list_all (\<lambda>t. MoneyRange (nValue t)) (vout tx)"
    and "uds = map (\<lambda>(tx, undo). if IsCoinBase tx then None else Some undo) (zip txs (block_undo h txs u))"
  shows "\<exists>c'. disconnect_loop get h (rev (zip txs uds)) cl c = Some (Some cl, c') \<and> cinv c' \<and> cutxo c' = u"
  using assms
proof (induction txs arbitrary: u uds)
  case (Cons tx txs)
  let ?u = "apply_tx h tx u"
  obtain ud uds' where uds: "uds = ud # uds'" "ud = (if IsCoinBase tx then None else Some (tx_undo u tx))"
      "uds' = map (\<lambda>(tx, undo). if IsCoinBase tx then None else Some undo) (zip txs (block_undo h txs ?u))"
    using Cons.prems(7) by simp
  have "wf_utxo ?u" using wf_apply_tx [of u h tx] Cons.prems by simp
  then obtain c1 where c1: "disconnect_loop get h (rev (zip txs uds')) cl c = Some (Some cl, c1)" "cinv c1" "cutxo c1 = ?u"
    using Cons.IH [of ?u uds'] Cons.prems uds by auto
  obtain c2 where "disconnect_tx get h tx ud cl c1 = Some (Some cl, c2)" "cinv c2" "cutxo c2 = u"
    using disconnect_tx_law [OF c1(2,3), of ud cl] Cons.prems(3,4) uds(2) by (auto split: if_splits)
  then show ?case using c1 uds(1) by (simp add: disconnect_loop_append)
qed simp

end

end
