(* ===== verification/Connect_Props.thy ===== *)
theory Connect_Props
  imports Connect_Refine Pow_Props
begin

text \<open>
  What connecting guarantees: a block is carried out on the set of outputs, disconnecting it restores
  the set, and the supply never exceeds its cap.
\<close>

section \<open>Two blocks at height 1\<close>

text \<open>
  A block index with a genesis block and the entry of a block that is being assembled, on the main
  network. One block has a coinbase that pays the subsidy, the other has a coinbase with an
  unspendable output and a transaction that spends the coin of the database.
\<close>

definition demo_chain :: block_store where
  "demo_chain = [0 \<mapsto> (demo_entry None None 0 10)\<lparr>phashBlock := Some [7]\<rparr>, 1 \<mapsto> demo_entry (Some 0) (Some 0) 1 20]"

definition demo_env :: "unit connect_env" where
  "demo_env = \<lparr>ce_services = \<lparr>sv_crypto = \<lparr>CRIPEMD160 = \<lambda>v. replicate 20 7, CSHA1 = \<lambda>v. replicate 20 0, CheckLowS = \<lambda>_. True\<rparr>,
       sv_verify = \<lambda>_ _ _. False, scriptExecutionCacheNonce = [], cache_contains = \<lambda>k _ _. (False, k), cache_insert = \<lambda>k _. k\<rparr>,
     ce_store = demo_chain, ce_params = main_params, hashGenesisBlock = [], ce_threads = False,
     WriteUndoDataForBlock = \<lambda>_ bi. Inr bi, WriteTxIndexDataForBlock = \<lambda>_ _. Inr ()\<rparr>"

definition demo_coinbase :: "TxOut \<Rightarrow> Transaction" where
  "demo_coinbase t = \<lparr>vin = [\<lparr>prevout = COutPoint_null, scriptSig = [1, 1], nSequence = 0, scriptWitness = []\<rparr>],
     vout = [t], nLockTime = 0, tx_nVersion = 1\<rparr>"

definition demo_state :: "(db_key \<Rightarrow> db_value option) \<Rightarrow> Transaction list \<Rightarrow> (db_key \<Rightarrow> db_value option, unit) connect_state" where
  "demo_state db txs = \<lparr>cs_view = \<lparr>base = db, hashBlock = [7], cacheCoins = []\<rparr>, cs_scripts = (), cs_bits = \<lambda>_ _. None,
     cs_block = \<lparr>header = BlockHeader_null, vtx = txs, fChecked = False\<rparr>\<rparr>"

lemma connect_chain_simps:
  "demo_chain 0 = Some ((demo_entry None None 0 10)\<lparr>phashBlock := Some [7]\<rparr>)" "demo_chain (Suc 0) = Some (demo_entry (Some 0) (Some 0) 1 20)"
  "phashBlock (demo_entry p s h t) = None"
  by (simp_all add: demo_chain_def demo_entry_def CBlockIndex_null_def)

lemma demo_env_simps:
  "ce_store demo_env = demo_chain" "ce_params demo_env = main_params" "hashGenesisBlock demo_env = []" "ce_threads demo_env = False"
  by (simp_all add: demo_env_def)

lemma demo_subsidy: "GetBlockSubsidy 1 main_params = 50 * COIN"
  by (simp add: GetBlockSubsidy_def Let_def main_params_def)

lemma demo_bip30: "fEnforceBIP30 demo_chain (demo_entry (Some 0) (Some 0) 1 20) main_params = Some True"
  by (simp add: fEnforceBIP30_def GetAncestor_def connect_chain_simps main_params_def)

lemma demo_hash: "BlockHeader_GetHash h \<noteq> []"
proof -
  have "length (BlockHeader_GetHash h) = 32"
    using Hash1_fips [of "replicate 64 0" "ser_header h"]
    by (simp add: BlockHeader_GetHash_def SerializeHash_def CHashWriter_GetHash_def CHashWriter_write_def Hash1_def fips_sha256_length)
  then show ?thesis by auto
qed

definition no_state :: "VersionBitsCache \<Rightarrow> bool" where
  "no_state caches \<longleftrightarrow> (\<forall>pos. caches pos None = None \<or> caches pos None = Some THRESHOLD_DEFINED)"

lemma demo_inactive:
  assumes "no_state caches" and "pos \<noteq> DEPLOYMENT_TESTDUMMY"
  shows "\<exists>caches'. deployment_active demo_chain main_params pos (Some 0) caches = (Inr False, caches') \<and> no_state caches'"
proof -
  have "period_parent demo_chain 2016 0 = Some None"
    by (simp add: period_parent_def connect_chain_simps GetAncestor_def)
  moreover have "caches pos None = None \<or> caches pos None = Some THRESHOLD_DEFINED" using assms(1) by (simp add: no_state_def)
  ultimately have "\<exists>c. GetStateFor demo_chain (VersionBitsConditionChecker pos) (Some 0) main_params (caches pos) = Some (THRESHOLD_DEFINED, c) \<and>
      c None = Some THRESHOLD_DEFINED"
    using assms(2) by (cases pos) (auto simp: GetStateFor_def VersionBitsConditionChecker_def main_params_def
        main_deployments_def ALWAYS_ACTIVE_def state_walk.simps)
  then show ?thesis using assms(1) by (auto simp: deployment_active_def VersionBitsState_def no_state_def)
qed

lemma connect_flags: "no_state caches \<Longrightarrow> \<exists>caches'. GetBlockScriptFlags demo_chain (demo_entry (Some 0) (Some 0) 1 20) main_params caches = (Inr 0, caches')"
proof -
  assume n: "no_state caches"
  obtain c1 where c1: "deployment_active demo_chain main_params DEPLOYMENT_CSV (Some 0) caches = (Inr False, c1)" "no_state c1"
    using demo_inactive [OF n, of DEPLOYMENT_CSV] by auto
  obtain c2 where c2: "deployment_active demo_chain main_params DEPLOYMENT_SEGWIT (Some 0) c1 = (Inr False, c2)" "no_state c2"
    using demo_inactive [OF c1(2), of DEPLOYMENT_SEGWIT] by auto
  have "BIP16Height main_params = 173805" "BIP66Height main_params = 363725" "BIP65Height main_params = 388381"
    by (simp_all add: main_params_def)
  then show ?thesis using c1 c2
    by (simp add: GetBlockScriptFlags_def cbind_def IsWitnessEnabled_def creturn_def SCRIPT_VERIFY_NONE_def)
qed

lemma demo_sigops: "GetSigOpCount [1, 1] False = 0" "GetSigOpCount [0x51] False = 0" "GetSigOpCount [0x6a] False = 0" "GetSigOpCount [] False = 0"
  by code_simp+

lemma demo_coinbase_checked:
  assumes "MoneyRange (nValue t)" and "length (scriptPubKey t) = 1"
  shows "IsCoinBase (demo_coinbase t)" "CheckTransaction (demo_coinbase t) False = Inr ()" "length (SerializeTransaction (demo_coinbase t)) < 200"
proof -
  show cb: "IsCoinBase (demo_coinbase t)"
    by (simp add: IsCoinBase_def demo_coinbase_def COutPoint_IsNull_def COutPoint_null_def IsNull_blob_def uint256_null_def list_all_iff)
  show l: "length (SerializeTransaction (demo_coinbase t)) < 200"
    using assms(2) by (simp add: demo_coinbase_def ser_defs COutPoint_null_def uint256_null_def)
  then have "\<not> length (SerializeTransaction (demo_coinbase t)) * 4 > 4000000" by simp
  then show "CheckTransaction (demo_coinbase t) False = Inr ()"
    using cb assms by (simp add: CheckTransaction_def SerializeSegwitTx_no_witness [OF no_witness_version] WITNESS_SCALE_FACTOR_def
        MAX_BLOCK_WEIGHT_def) (simp add: demo_coinbase_def MoneyRange_def)
qed

lemma demo_block_checked:
  assumes "txs \<noteq> []" and "length txs \<le> 2" and "IsCoinBase (txs ! 0)" and "\<not> list_ex IsCoinBase (tl txs)"
    and "\<forall>tx \<in> set txs. CheckTransaction tx False = Inr () \<and> length (SerializeTransaction tx) < 200 \<and> GetLegacySigOpCount tx = 0"
  shows "CheckBlock main_params False False (cs_block (demo_state db txs)) = (Inr (), cs_block (demo_state db txs))"
proof -
  have "check_transactions txs = Inr ()" using assms(5) by (induction txs) auto
  moreover have "length (ser_block (PROTOCOL_VERSION OR SERIALIZE_TRANSACTION_NO_WITNESS) (cs_block (demo_state db txs))) < 1000"
  proof -
    have "length (concat (map SerializeTransaction txs)) \<le> 200 * length txs" using assms(5)
      by (induction txs) (auto simp: less_imp_le_nat add_mono)
    then have "length (concat (map SerializeTransaction txs)) \<le> 400" using assms(2) by linarith
    moreover have "length (WriteCompactSize (of_nat (length txs))) \<le> 9" by (simp add: WriteCompactSize_def Let_def ser_writedata8_def ser_writedata16_def ser_writedata32_def ser_writedata64_def)
    moreover have "length (ser_header BlockHeader_null) \<le> 100"
      by (simp add: ser_header_def BlockHeader_null_def ser_defs uint256_null_def)
    moreover have "SerializeSegwitTx (PROTOCOL_VERSION OR SERIALIZE_TRANSACTION_NO_WITNESS) = SerializeTransaction"
      by (rule ext) (rule SerializeSegwitTx_no_witness [OF no_witness_version])
    ultimately show ?thesis by (simp add: ser_block_def demo_state_def ser_vector_def)
  qed
  moreover have z: "sum_list (map GetLegacySigOpCount txs) = 0" using assms(5) by (induction txs) auto
  ultimately show ?thesis using assms(1-4)
    by (simp add: z CheckBlock_def demo_state_def CheckBlockHeader_def cbind_def verdict_def creturn_def reject_if_def WITNESS_SCALE_FACTOR_def
        MAX_BLOCK_WEIGHT_def MAX_BLOCK_SIGOPS_COST_def)
qed

text \<open>The block is connected when its loop succeeds and its coinbase claims no more than it may.\<close>

lemma demo_connects:
  assumes "CheckBlock main_params False False (cs_block (demo_state db txs)) = (Inr (), cs_block (demo_state db txs))"
    and "have_any get (concat (map tx_outpoints txs)) (cs_view (demo_state db txs)) = (False, cs_view (demo_state db txs))"
    and "GetValueOut (txs ! 0) = Some value"
    and "\<And>bits. \<exists>acc s'. connect_loop demo_env get 1 (demo_entry (Some 0) (Some 0) 1 20) 0 0 False True 0 txs
      \<lparr>nFees = 0, nSigOpsCost = 0, queued = [], vtxundo = []\<rparr> ((demo_state db txs)\<lparr>cs_bits := bits\<rparr>) = (Inr acc, s') \<and>
      value \<le> nFees acc + 50 * COIN \<and> queued acc = []"
  shows "\<exists>undo bi s'. ConnectBlock demo_env get best 1 (Some False) True (demo_state db txs) = (Inr (undo, bi), s')"
proof -
  obtain b1 where b1: "deployment_active demo_chain main_params DEPLOYMENT_CSV (Some 0) (\<lambda>_ _. None) = (Inr False, b1)" "no_state b1"
    using demo_inactive [of "\<lambda>_ _. None" DEPLOYMENT_CSV] by (auto simp: no_state_def)
  obtain b2 where b2: "GetBlockScriptFlags demo_chain (demo_entry (Some 0) (Some 0) 1 20) main_params b1 = (Inr 0, b2)"
    using connect_flags [OF b1(2)] by blast
  obtain acc s' where s': "connect_loop demo_env get (Suc 0) (demo_entry (Some 0) (Some 0) 1 20) 0 0 False True 0 txs
      \<lparr>nFees = 0, nSigOpsCost = 0, queued = [], vtxundo = []\<rparr> ((demo_state db txs)\<lparr>cs_bits := b2\<rparr>) = (Inr acc, s')"
      "value \<le> nFees acc + 50 * COIN" "queued acc = []"
    using assms(4) [of b2] by auto
  have "connect_transactions demo_env get (Suc 0) (demo_entry (Some 0) (Some 0) 1 20) (Some False) True txs (demo_state db txs) =
      (Inr (vtxundo acc, demo_entry (Some 0) (Some 0) 1 20), s')"
    using assms(2,3) b1(1) b2 s' demo_bip30
    by (simp add: connect_transactions_def demo_env_simps demo_subsidy cbind_def expect_def on_view_def query_def reject_if_def
        on_bits_def run_queue_def creturn_def demo_state_def)
  then show ?thesis using assms(1) demo_hash [of BlockHeader_null]
    by (simp add: ConnectBlock_def demo_env_simps connect_chain_simps Let_def cbind_def on_block_def expect_def on_view_def query_def GetBestBlock_def
        IsNull_blob_def creturn_def demo_state_def)
qed


text \<open>Coins of the database that are looked for.\<close>

lemma demo_missing: "db (KeyCoin p) = None \<Longrightarrow>
  HaveCoin (CCoinsViewDB_GetCoin mem_read) \<lparr>base = db, hashBlock = h, cacheCoins = []\<rparr> p = (False, \<lparr>base = db, hashBlock = h, cacheCoins = []\<rparr>)"
  by (simp add: HaveCoin_def FetchCoin_def CCoinsViewDB_GetCoin_def mem_read_def)

lemma demo_have_any: "\<forall>p \<in> set ps. db (KeyCoin p) = None \<Longrightarrow>
  have_any (CCoinsViewDB_GetCoin mem_read) ps \<lparr>base = db, hashBlock = h, cacheCoins = []\<rparr> = (False, \<lparr>base = db, hashBlock = h, cacheCoins = []\<rparr>)"
  by (induction ps) (simp_all add: demo_missing)

text \<open>The coinbase needs no inputs and no scripts.\<close>

lemma demo_connect_coinbase:
  assumes "IsCoinBase tx" and "GetLegacySigOpCount tx = 0" and "nSigOpsCost acc = 0" and "UpdateCoins get tx (cs_view s) 1 = Some (undo, v)"
  shows "connect_tx demo_env get 1 (demo_entry (Some 0) (Some 0) 1 20) 0 0 False True 0 tx acc s = (Inr acc, s\<lparr>cs_view := v\<rparr>)"
  using assms
  by (simp add: connect_tx_def check_tx_inputs_def cbind_def creturn_def on_view_def query_def GetTransactionSigOpCost_def
      expect_def reject_if_def on_scripts_def CheckInputs_def attempt_def MAX_BLOCK_SIGOPS_COST_def)

lemma CheckTransaction_weaken: "CheckTransaction tx True = Inr () \<Longrightarrow> CheckTransaction tx False = Inr ()"
  by (auto simp: CheckTransaction_def split: if_splits sum.splits)

text \<open>The spending transaction.\<close>

lemma demo_fetch:
  "FetchCoin (CCoinsViewDB_GetCoin mem_read) \<lparr>base = demo_db, hashBlock = h, cacheCoins = []\<rparr> demo_point =
    (Some \<lparr>coin = demo_coin, DIRTY = False, FRESH = False\<rparr>,
     \<lparr>base = demo_db, hashBlock = h, cacheCoins = [(demo_point, \<lparr>coin = demo_coin, DIRTY = False, FRESH = False\<rparr>)]\<rparr>)"
  by (simp add: FetchCoin_def CCoinsViewDB_GetCoin_def mem_read_def demo_db_def Let_def demo_coin_def IsSpent_def TxOut_IsNull_def)

lemma demo_cached: "cache_inv (db_inv mem_read) (db_utxo mem_read) \<lparr>base = demo_db, hashBlock = h, cacheCoins = []\<rparr>"
  "cache_utxo (db_utxo mem_read) \<lparr>base = demo_db, hashBlock = h, cacheCoins = []\<rparr> = [demo_point \<mapsto> demo_coin]"
  by (simp_all add: cache_inv_def cache_utxo_def demo_db_view)

lemma demo_mtp: "GetMedianTimePast demo_chain 0 = Some 10"
proof -
  have "median_times demo_chain (Suc (Suc n)) (Some 0) = Some [10]" for n by (simp add: connect_chain_simps)
  moreover have "nMedianTimeSpan = Suc (Suc 9)" by (simp add: nMedianTimeSpan_def)
  ultimately have "median_times demo_chain nMedianTimeSpan (Some 0) = Some [10]" by metis
  then show ?thesis by (simp add: GetMedianTimePast_def)
qed

lemma demo_connect_spend:
  assumes v: "cs_view s = \<lparr>base = demo_db, hashBlock = [7], cacheCoins = []\<rparr>" and acc: "nSigOpsCost acc = 0" "nFees acc = 0"
  shows "\<exists>acc' s'. connect_tx demo_env (CCoinsViewDB_GetCoin mem_read) 1 (demo_entry (Some 0) (Some 0) 1 20) 0 0 False True 1 demo_spend acc s =
    (Inr acc', s') \<and> nFees acc' = 10 \<and> queued acc' = queued acc"
proof -
  let ?get = "CCoinsViewDB_GetCoin mem_read"
  let ?v = "\<lparr>base = demo_db, hashBlock = [7], cacheCoins = [(demo_point, \<lparr>coin = demo_coin, DIRTY = False, FRESH = False\<rparr>)]\<rparr>"
  have i: "CheckTxInputs ?get demo_spend (cs_view s) 1 = (Inr 10, ?v)"
    by (simp add: v CheckTxInputs_def HaveInputs_def demo_spend_checked demo_spend_def HaveCoin_def AccessCoin_def demo_access demo_fetch
      demo_coin_def IsSpent_def TxOut_IsNull_def MoneyRange_def MAX_MONEY_def COIN_def GetValueOut_def)
  have c: "cache_inv (db_inv mem_read) (db_utxo mem_read) (cs_view s)" unfolding v by (rule demo_cached)
  note l = mem_db.CheckTxInputs_law [OF c i demo_spend_checked(2)]
  have u: "cache_utxo (db_utxo mem_read) ?v = [demo_point \<mapsto> demo_coin]" using l unfolding v demo_cached by simp
  have "AccessCoin ?get ?v demo_point = (demo_coin, ?v)" by (simp add: AccessCoin_def demo_access)
  then have rh: "read_heights ?get (vin demo_spend) ?v = ([1], ?v)" by (simp add: demo_spend_def demo_coin_def)
  have sq: "SequenceLocks demo_chain demo_spend 0 [1] 1 = Some True"
    by (simp add: SequenceLocks_def CalculateSequenceLocks_def fEnforceBIP68_def EvaluateSequenceLocks_def connect_chain_simps demo_mtp)
      (simp add: demo_spend_def)
  have lg: "GetLegacySigOpCount demo_spend = 0" by (simp add: GetLegacySigOpCount_def demo_spend_def demo_sigops)
  have so: "GetTransactionSigOpCost ?get demo_spend ?v 0 = (Some 0, ?v)"
    using lg demo_spend_checked(2) by (simp add: GetTransactionSigOpCost_def Let_def has_flag_def) 
      (simp add: demo_spend_def AccessCoin_def demo_access CountWitnessSigOps_def has_flag_def demo_coin_def IsSpent_def TxOut_IsNull_def)
  have ne: "\<lparr>op_hash = ComputeHash demo_spend, op_n = n\<rparr> \<noteq> demo_point" for n
    using ComputeHash_length [of demo_spend] by (auto simp: demo_point_def)
  have "CheckTransaction demo_spend False = Inr ()" using demo_spend_checked(1) by (rule CheckTransaction_weaken)
  moreover have "tx_applies [demo_point \<mapsto> demo_coin] demo_spend"
    using ne demo_spend_checked(2,3) by (auto simp: tx_applies_def spent_def created_def tx_coins_def demo_spend_def)
  ultimately obtain undo v' where up: "UpdateCoins ?get demo_spend ?v 1 = Some (undo, v')"
    using mem_db.UpdateCoins_refines [of ?v demo_spend 1] l u by auto
  show ?thesis
    using i rh sq so up acc demo_spend_checked(2)
    by (simp add: connect_tx_def check_tx_inputs_def demo_env_simps cbind_def creturn_def on_view_def query_def expect_def reject_if_def
      on_scripts_def CheckInputs_def attempt_def MAX_BLOCK_SIGOPS_COST_def MoneyRange_def MAX_MONEY_def COIN_def)
qed

text \<open>Both blocks are accepted.\<close>

definition demo_txs :: "Transaction list" where
  "demo_txs = [demo_coinbase \<lparr>nValue = 10, scriptPubKey = [0x6a]\<rparr>, demo_spend]"

definition demo_mint :: "Transaction list" where
  "demo_mint = [demo_coinbase \<lparr>nValue = 50 * COIN, scriptPubKey = [0x51]\<rparr>]"

lemma demo_unspendable: "IsUnspendable [0x6a]"
  by code_simp

lemma demo_coinbase_sigops: "GetLegacySigOpCount (demo_coinbase \<lparr>nValue = v, scriptPubKey = [0x6a]\<rparr>) = 0"
  "GetLegacySigOpCount (demo_coinbase \<lparr>nValue = v, scriptPubKey = [0x51]\<rparr>) = 0" "GetLegacySigOpCount demo_spend = 0"
  by (simp_all add: GetLegacySigOpCount_def demo_coinbase_def demo_spend_def demo_sigops)

lemma demo_txs_connect:
  "\<exists>undo bi s'. ConnectBlock demo_env (CCoinsViewDB_GetCoin mem_read) best 1 (Some False) True (demo_state demo_db demo_txs) = (Inr (undo, bi), s')"
proof -
  let ?get = "CCoinsViewDB_GetCoin mem_read" and ?cb = "demo_coinbase \<lparr>nValue = 10, scriptPubKey = [0x6a]\<rparr>"
  let ?bi = "demo_entry (Some 0) (Some 0) 1 20" and ?acc = "\<lparr>nFees = 0, nSigOpsCost = 0, queued = [], vtxundo = []\<rparr>"
  have r: "MoneyRange (nValue \<lparr>nValue = 10, scriptPubKey = [0x6a :: u8]\<rparr>)" by (simp add: MoneyRange_def MAX_MONEY_def COIN_def)
  note cb = demo_coinbase_checked [OF r]
  have chk: "CheckBlock main_params False False (cs_block (demo_state demo_db demo_txs)) = (Inr (), cs_block (demo_state demo_db demo_txs))"
    by (rule demo_block_checked)
      (use cb demo_spend_checked(2) CheckTransaction_weaken [OF demo_spend_checked(1)] demo_spend_size demo_coinbase_sigops in \<open>simp_all add: demo_txs_def\<close>)
  have ne: "\<lparr>op_hash = ComputeHash tx, op_n = n\<rparr> \<noteq> demo_point" for tx n
    using ComputeHash_length [of tx] by (auto simp: demo_point_def)
  then have "\<forall>p \<in> set (concat (map tx_outpoints demo_txs)). demo_db (KeyCoin p) = None" by (auto simp: demo_db_def tx_outpoints_def)
  then have h: "have_any ?get (concat (map tx_outpoints demo_txs)) (cs_view (demo_state demo_db demo_txs)) = (False, cs_view (demo_state demo_db demo_txs))"
    unfolding demo_state_def by (simp only: connect_state.simps demo_have_any)
  have up: "UpdateCoins ?get ?cb v 1 = Some ([], v)" for v
    using cb(1) by (simp add: UpdateCoins_def AddCoins_def demo_coinbase_def AddCoin_def demo_unspendable IsSpent_def TxOut_IsNull_def)
  have lp: "\<exists>acc s'. connect_loop demo_env ?get 1 ?bi 0 0 False True 0 demo_txs ?acc ((demo_state demo_db demo_txs)\<lparr>cs_bits := bits\<rparr>) =
      (Inr acc, s') \<and> 10 \<le> nFees acc + 50 * COIN \<and> queued acc = []" for bits
  proof -
    let ?s = "(demo_state demo_db demo_txs)\<lparr>cs_bits := bits\<rparr>"
    have "connect_tx demo_env ?get 1 ?bi 0 0 False True 0 ?cb ?acc ?s = (Inr ?acc, ?s)"
      using demo_connect_coinbase [OF cb(1) demo_coinbase_sigops(1) _ up, of ?acc ?s] by simp
    moreover obtain acc s' where "connect_tx demo_env ?get 1 ?bi 0 0 False True 1 demo_spend ?acc ?s = (Inr acc, s')" "nFees acc = 10" "queued acc = []"
      using demo_connect_spend [of ?s ?acc] by (auto simp: demo_state_def)
    ultimately show ?thesis by (simp add: demo_txs_def cbind_def creturn_def COIN_def)
  qed
  have "GetValueOut (demo_txs ! 0) = Some 10"
    using r by (simp add: demo_txs_def demo_coinbase_def GetValueOut_def)
  then show ?thesis by (rule demo_connects [OF chk h _ lp])
qed

lemma demo_mint_connect:
  "\<exists>undo bi s'. ConnectBlock demo_env (CCoinsViewDB_GetCoin mem_read) best 1 (Some False) True (demo_state Map.empty demo_mint) = (Inr (undo, bi), s')"
proof -
  let ?get = "CCoinsViewDB_GetCoin mem_read" and ?t = "\<lparr>nValue = 50 * COIN, scriptPubKey = [0x51]\<rparr>"
  let ?bi = "demo_entry (Some 0) (Some 0) 1 20" and ?acc = "\<lparr>nFees = 0, nSigOpsCost = 0, queued = [], vtxundo = []\<rparr>"
  have r: "MoneyRange (nValue ?t)" by (simp add: MoneyRange_def MAX_MONEY_def COIN_def)
  note cb = demo_coinbase_checked [OF r]
  have chk: "CheckBlock main_params False False (cs_block (demo_state Map.empty demo_mint)) = (Inr (), cs_block (demo_state Map.empty demo_mint))"
    by (rule demo_block_checked) (use cb demo_coinbase_sigops in \<open>simp_all add: demo_mint_def\<close>)
  have h: "have_any ?get (concat (map tx_outpoints demo_mint)) (cs_view (demo_state Map.empty demo_mint)) = (False, cs_view (demo_state Map.empty demo_mint))"
    unfolding demo_state_def by (simp add: demo_have_any)
  have up: "\<exists>v. UpdateCoins ?get (demo_coinbase ?t) (cs_view (demo_state Map.empty demo_mint)) 1 = Some ([], v)"
    using cb(1) r by (simp add: UpdateCoins_def AddCoins_def demo_coinbase_def AddCoin_def IsSpent_def TxOut_IsNull_def demo_state_def MoneyRange_def Let_def)
  have lp: "\<exists>acc s'. connect_loop demo_env ?get 1 ?bi 0 0 False True 0 demo_mint ?acc ((demo_state Map.empty demo_mint)\<lparr>cs_bits := bits\<rparr>) =
      (Inr acc, s') \<and> 50 * COIN \<le> nFees acc + 50 * COIN \<and> queued acc = []" for bits
  proof -
    let ?s = "(demo_state Map.empty demo_mint)\<lparr>cs_bits := bits\<rparr>"
    obtain v where "UpdateCoins ?get (demo_coinbase ?t) (cs_view ?s) 1 = Some ([], v)" using up by auto
    then have "connect_tx demo_env ?get 1 ?bi 0 0 False True 0 (demo_coinbase ?t) ?acc ?s = (Inr ?acc, ?s\<lparr>cs_view := v\<rparr>)"
      using demo_connect_coinbase [OF cb(1) demo_coinbase_sigops(2), of ?acc ?get ?s] by simp
    then show ?thesis by (simp add: demo_mint_def cbind_def creturn_def)
  qed
  have "GetValueOut (demo_mint ! 0) = Some (50 * COIN)"
    using r by (simp add: demo_mint_def demo_coinbase_def GetValueOut_def)
  then show ?thesis by (rule demo_connects [OF chk h _ lp])
qed

lemma demo_regular:
  "regular_block demo_env (demo_entry (Some 0) (Some 0) 1 20) (cs_block (demo_state demo_db demo_txs))"
  "regular_block demo_env (demo_entry (Some 0) (Some 0) 1 20) (cs_block (demo_state Map.empty demo_mint))"
  using demo_bip30 demo_hash [of BlockHeader_null]
  by (simp_all add: regular_block_def demo_env_simps demo_state_def demo_txs_def demo_mint_def created_def tx_coins_def spent_def
      demo_coinbase_def demo_spend_def demo_unspendable)

section \<open>What connecting guarantees\<close>

text \<open>
  C29: Connecting a block carries out its transactions on the set of unspent outputs. When
  \<open>ConnectBlock\<close> accepts a regular block on a cache over any view, the inputs of every transaction
  exist when it is reached, the outputs in the cache afterwards are those of the ledger machine, the
  undo data holds the spent coins of all transactions but the coinbase, and the cache stays valid.
\<close>
theorem ConnectBlock_refines:
  assumes "coins_view get batch vinv utxo" and "cache_inv vinv utxo (cs_view s)" and "ce_store env pindex = Some bi"
    and "regular_block env bi (cs_block s)" and "ConnectBlock env get best pindex sc jc s = (Inr (undo, bi'), s')"
  shows "block_applies (nat (nHeight bi)) (vtx (cs_block s)) (cache_utxo utxo (cs_view s)) \<and>
    cache_utxo utxo (cs_view s') = apply_block (nat (nHeight bi)) (vtx (cs_block s)) (cache_utxo utxo (cs_view s)) \<and>
    undo = tl (block_undo (nat (nHeight bi)) (vtx (cs_block s)) (cache_utxo utxo (cs_view s))) \<and> cache_inv vinv utxo (cs_view s')"
  using coins_view.ConnectBlock_law [OF assms] by simp

lemma demo_views:
  "cache_inv (db_inv mem_read) (db_utxo mem_read) (cs_view (demo_state demo_db txs))"
  "cache_utxo (db_utxo mem_read) (cs_view (demo_state demo_db txs)) = [demo_point \<mapsto> demo_coin]"
  by (simp_all add: demo_state_def demo_cached)

theorem ConnectBlock_refines_witness:
  "\<exists>undo bi s'. ConnectBlock demo_env (CCoinsViewDB_GetCoin mem_read) (\<lambda>_. []) 1 (Some False) True (demo_state demo_db demo_txs) = (Inr (undo, bi), s') \<and>
     cache_utxo (db_utxo mem_read) (cs_view s') = apply_block 1 demo_txs [demo_point \<mapsto> demo_coin] \<and> undo = [[demo_coin]]"
proof -
  obtain undo bi s' where r: "ConnectBlock demo_env (CCoinsViewDB_GetCoin mem_read) (\<lambda>_. []) 1 (Some False) True (demo_state demo_db demo_txs) = (Inr (undo, bi), s')"
    using demo_txs_connect by blast
  have s: "ce_store demo_env 1 = Some (demo_entry (Some 0) (Some 0) 1 20)" by (simp add: demo_env_simps connect_chain_simps)
  have e: "apply_tx 1 (demo_coinbase \<lparr>nValue = 10, scriptPubKey = [0x6a]\<rparr>) u = u" for u
    using demo_coinbase_checked(1) [of "\<lparr>nValue = 10, scriptPubKey = [0x6a]\<rparr>"]
    by (simp add: apply_tx_def spent_def tx_coins_def demo_unspendable MoneyRange_def MAX_MONEY_def COIN_def restrict_map_def)
      (simp add: demo_coinbase_def demo_unspendable)
  have "tl (block_undo 1 demo_txs [demo_point \<mapsto> demo_coin]) = [[demo_coin]]"
    using e demo_spend_checked(2) by (simp add: demo_txs_def tx_undo_def spent_def) (simp add: demo_spend_def)
  then show ?thesis
    using r ConnectBlock_refines [OF mem_db.coins_view_axioms demo_views(1) s demo_regular(1) r] unfolding demo_views(2)
    by (simp add: demo_state_def)
qed

context coins_view
begin

lemma DisconnectBlock_law:
  assumes c: "cinv (cs_view s)" and bi: "ce_store env pindex = Some bi" and reg: "regular_block env bi (cs_block s)"
    and r: "ConnectBlock env get best pindex sc jc s = (Inr (undo, bi'), s')" and wf: "wf_utxo (cutxo (cs_view s))"
    and h: "nHeight bi > 0" and v: "cinv v" and eq: "cutxo v = cutxo (cs_view s')"
  shows "\<exists>v'. DisconnectBlock (ce_store env) get (Some undo) (cs_block s) bi v = Some (DISCONNECT_OK, v') \<and>
    cinv v' \<and> cutxo v' = cutxo (cs_view s) \<and> hashBlock v' = fst (GetBestBlock best (cs_view s))"
proof -
  let ?h = "nat (nHeight bi)" and ?txs = "vtx (cs_block s)" and ?u = "cutxo (cs_view s)"
  note l = ConnectBlock_law [OF c bi reg r]
  obtain cb txs where txs: "?txs = cb # txs" "IsCoinBase cb" "\<forall>tx \<in> set txs. \<not> IsCoinBase tx" using l by blast
  obtain q prev where prev: "pprev bi = Some q" "ce_store env q = Some prev" "phashBlock prev = Some (fst (GetBestBlock best (cs_view s)))"
    using l by blast
  have undo: "undo = tl (block_undo ?h ?txs ?u)" using l by blast
  have rng: "\<forall>tx \<in> set ?txs. list_all (\<lambda>t. MoneyRange (nValue t)) (vout tx)" using l CheckTransaction_InrD(2) by blast
  have uds: "None # map Some undo = map (\<lambda>(tx, undo). if IsCoinBase tx then None else Some undo) (zip ?txs (block_undo ?h ?txs ?u))"
    using txs by (auto simp: undo length_block_undo intro!: nth_equalityI)
  have ap: "cutxo v = apply_block ?h ?txs ?u" "block_applies ?h ?txs ?u" "?h > 0" using l eq h by auto
  obtain v1 where "disconnect_loop get ?h (rev (zip ?txs (None # map Some undo))) True v = Some (Some True, v1)"
      "cinv v1" "cutxo v1 = ?u"
    using disconnect_loop_law [OF v ap(1,2) wf ap(3) rng uds, of True] by blast
  moreover have "length undo + 1 = length ?txs" using txs(1) by (simp add: undo length_block_undo)
  ultimately show ?thesis
    using prev by (auto simp: DisconnectBlock_def)
qed

end

text \<open>
  Disconnecting undoes connecting. When \<open>ConnectBlock\<close> accepted a regular block above the genesis
  block, \<open>DisconnectBlock\<close> with the undo data of that call succeeds cleanly on every cache that holds
  the outputs \<open>ConnectBlock\<close> left, restores the outputs from before and sets the best block back.
\<close>
theorem DisconnectBlock_restores:
  assumes "coins_view get batch vinv utxo" and "cache_inv vinv utxo (cs_view s)" and "ce_store env pindex = Some bi"
    and "regular_block env bi (cs_block s)" and "ConnectBlock env get best pindex sc jc s = (Inr (undo, bi'), s')"
    and "wf_utxo (cache_utxo utxo (cs_view s))" and "nHeight bi > 0"
    and "cache_inv vinv utxo v" and "cache_utxo utxo v = cache_utxo utxo (cs_view s')"
  shows "\<exists>v'. DisconnectBlock (ce_store env) get (Some undo) (cs_block s) bi v = Some (DISCONNECT_OK, v') \<and>
    cache_inv vinv utxo v' \<and> cache_utxo utxo v' = cache_utxo utxo (cs_view s) \<and>
    hashBlock v' = fst (GetBestBlock best (cs_view s))"
  using coins_view.DisconnectBlock_law [OF assms] by blast

theorem DisconnectBlock_restores_witness:
  "\<exists>undo bi s' v'. ConnectBlock demo_env (CCoinsViewDB_GetCoin mem_read) (\<lambda>_. []) 1 (Some False) True (demo_state demo_db demo_txs) = (Inr (undo, bi), s') \<and>
     DisconnectBlock demo_chain (CCoinsViewDB_GetCoin mem_read) (Some undo) (cs_block (demo_state demo_db demo_txs))
       (demo_entry (Some 0) (Some 0) 1 20) (cs_view s') = Some (DISCONNECT_OK, v') \<and>
     cache_utxo (db_utxo mem_read) v' = [demo_point \<mapsto> demo_coin] \<and> hashBlock v' = [7]"
proof -
  obtain undo bi s' where r: "ConnectBlock demo_env (CCoinsViewDB_GetCoin mem_read) (\<lambda>_. []) 1 (Some False) True (demo_state demo_db demo_txs) = (Inr (undo, bi), s')"
    using demo_txs_connect by blast
  have s: "ce_store demo_env 1 = Some (demo_entry (Some 0) (Some 0) 1 20)" by (simp add: demo_env_simps connect_chain_simps)
  have wf: "wf_utxo (cache_utxo (db_utxo mem_read) (cs_view (demo_state demo_db demo_txs)))"
    unfolding demo_views(2) using demo_spend_checked(3)
    by (simp add: wf_utxo_def restorable_def demo_coin_def IsSpent_def TxOut_IsNull_def)
  have inv: "cache_inv (db_inv mem_read) (db_utxo mem_read) (cs_view s')"
    using mem_db.ConnectBlock_law [OF demo_views(1) s demo_regular(1) r] by simp
  have best: "fst (GetBestBlock (\<lambda>_. []) (cs_view (demo_state demo_db demo_txs))) = [7]"
    by (simp add: demo_state_def GetBestBlock_def IsNull_blob_def)
  show ?thesis
    using r DisconnectBlock_restores [OF mem_db.coins_view_axioms demo_views(1) s demo_regular(1) r wf _ inv refl]
    unfolding demo_views(2) best demo_env_simps by auto
qed

section \<open>The supply\<close>

text \<open>
  A block creates no more than the subsidy: the fees its coinbase may claim are paid by its
  transactions.
\<close>

context coins_view
begin

lemma ConnectBlock_value:
  assumes "cinv (cs_view s)" and "ce_store env pindex = Some bi" and "regular_block env bi (cs_block s)"
    and "ConnectBlock env get best pindex sc jc s = (Inr (undo, bi'), s')" and fin: "finite (dom (cutxo (cs_view s)))"
  shows "finite (dom (cutxo (cs_view s'))) \<and>
    utxo_value (cutxo (cs_view s')) \<le> utxo_value (cutxo (cs_view s)) + GetBlockSubsidy (nHeight bi) (ce_params env)"
proof -
  let ?h = "nat (nHeight bi)" and ?txs = "vtx (cs_block s)" and ?u = "cutxo (cs_view s)"
  note l = ConnectBlock_law [OF assms(1-4)]
  obtain cb txs where txs: "?txs = cb # txs" "IsCoinBase cb" "\<forall>tx \<in> set txs. \<not> IsCoinBase tx" using l by blast
  have rng: "\<forall>tx \<in> set ?txs. list_all (\<lambda>t. MoneyRange (nValue t)) (vout tx)" using l CheckTransaction_InrD(2) by blast
  have "filter IsCoinBase ?txs = [cb]" using txs by (simp add: filter_False)
  then have "utxo_value (apply_block ?h ?txs ?u) \<le> utxo_value ?u - block_fees ?h ?txs ?u + sum_list (map nValue (vout cb))"
    using apply_block_value_le [OF fin _ rng, of ?h] l by simp
  moreover have "the (GetValueOut (?txs ! 0)) = sum_list (map nValue (vout cb))"
    using l txs(1) CheckTransaction_InrD(4) [of cb False] by simp
  ultimately show ?thesis using l finite_apply_block [OF fin, of ?h ?txs] by simp
qed

end

text \<open>
  A run of the node from an empty set of outputs: blocks are connected one after the other, at
  consecutive heights, and in between the cache may be flushed or replaced by another one that holds
  the same outputs.
\<close>

inductive connected ::
  "'k connect_env \<Rightarrow> 's get_coin \<Rightarrow> ('s \<Rightarrow> uint256) \<Rightarrow> ('s \<Rightarrow> bool) \<Rightarrow> ('s \<Rightarrow> utxo_set) \<Rightarrow> ('s, 'k) connect_state \<Rightarrow> nat \<Rightarrow> bool"
  for env get best vinv utxo where
  start: "cache_inv vinv utxo (cs_view s) \<Longrightarrow> cache_utxo utxo (cs_view s) = Map.empty \<Longrightarrow> connected env get best vinv utxo s 0"
| same: "connected env get best vinv utxo s n \<Longrightarrow> cache_inv vinv utxo v \<Longrightarrow> cache_utxo utxo v = cache_utxo utxo (cs_view s) \<Longrightarrow>
    connected env get best vinv utxo (s\<lparr>cs_view := v\<rparr>) n"
| connect: "connected env get best vinv utxo s n \<Longrightarrow> ce_store env pindex = Some bi \<Longrightarrow> nHeight bi = int (n + 1) \<Longrightarrow>
    regular_block env bi block \<Longrightarrow> ConnectBlock env get best pindex sc jc (s\<lparr>cs_block := block\<rparr>) = (Inr r, s') \<Longrightarrow>
    connected env get best vinv utxo s' (n + 1)"

context coins_view
begin

lemma connected_value:
  "connected env get best vinv utxo s n \<Longrightarrow>
   cinv (cs_view s) \<and> finite (dom (cutxo (cs_view s))) \<and>
   utxo_value (cutxo (cs_view s)) \<le> (\<Sum>h < n. GetBlockSubsidy (int (h + 1)) (ce_params env))"
proof (induction rule: connected.induct)
  case (connect s n pindex bi block sc jc r s')
  obtain undo bi' where r: "r = (undo, bi')" by force
  let ?s = "s\<lparr>cs_block := block\<rparr>"
  have "cinv (cs_view ?s)" "finite (dom (cutxo (cs_view ?s)))" "regular_block env bi (cs_block ?s)"
    using connect.IH connect.hyps by simp_all
  then show ?case
    using ConnectBlock_law [of ?s env pindex bi best sc jc undo bi' s'] ConnectBlock_value [of ?s env pindex bi best sc jc undo bi' s']
      connect.hyps connect.IH r by simp
qed (simp_all add: utxo_value_def)

end

text \<open>
  C28: The supply is capped. In every run of the main network that connects regular blocks at
  consecutive heights from an empty set, however long it is, the unspent outputs are worth at most
  \<open>MAX_MONEY\<close>.
\<close>
theorem supply_capped:
  assumes "coins_view get batch vinv utxo" and "ce_params env = main_params" and "connected env get best vinv utxo s n"
  shows "utxo_value (cache_utxo utxo (cs_view s)) \<le> MAX_MONEY"
proof -
  have "(\<Sum>h < n. GetBlockSubsidy (int (h + 1)) main_params) \<le> (\<Sum>h < n + 1. GetBlockSubsidy (int h) main_params)"
    using sum.lessThan_Suc_shift [of "\<lambda>h. GetBlockSubsidy (int h) main_params" n] GetBlockSubsidy_period(2) [of main_params 210000 0]
    by (simp add: main_params_def)
  then show ?thesis
    using coins_view.connected_value [OF assms(1,3)] assms(2) subsidy_total [of main_params 210000 "n + 1"]
    by (simp add: main_params_def MAX_MONEY_def COIN_def)
qed

theorem supply_capped_witness:
  "\<exists>s. connected demo_env (CCoinsViewDB_GetCoin mem_read) (\<lambda>_. []) (db_inv mem_read) (db_utxo mem_read) s 1 \<and>
     utxo_value (cache_utxo (db_utxo mem_read) (cs_view s)) \<le> 2100000000000000"
proof -
  let ?s = "demo_state Map.empty demo_mint"
  have c: "cache_inv (db_inv mem_read) (db_utxo mem_read) (cs_view ?s)" "cache_utxo (db_utxo mem_read) (cs_view ?s) = Map.empty"
    by (simp_all add: demo_state_def cache_inv_def cache_utxo_def db_inv_def db_utxo_def mem_read_def fun_eq_iff)
  obtain undo bi s' where r: "ConnectBlock demo_env (CCoinsViewDB_GetCoin mem_read) (\<lambda>_. []) 1 (Some False) True ?s = (Inr (undo, bi), s')"
    using demo_mint_connect by blast
  have "connected demo_env (CCoinsViewDB_GetCoin mem_read) (\<lambda>_. []) (db_inv mem_read) (db_utxo mem_read) s' (0 + 1)"
    by (rule connected.connect [OF connected.start [OF c], where pindex = 1 and bi = "demo_entry (Some 0) (Some 0) 1 20"
          and block = "cs_block ?s" and sc = "Some False" and jc = True and r = "(undo, bi)"])
      (use r demo_regular(2) in \<open>simp_all add: demo_env_simps connect_chain_simps\<close>)
  then show ?thesis
    using supply_capped [OF mem_db.coins_view_axioms demo_env_simps(2)] by (auto simp: MAX_MONEY_def COIN_def)
qed

end
