(* ===== verification/Compressor.thy ===== *)
theory Compressor
  imports Coins Sighash Serialize_Codec
begin

text \<open>
  The compact format of outputs in the coins database and in the undo files: \<^verbatim>\<open>compressor.cpp\<close> and
  \<^verbatim>\<open>compressor.h\<close>, the format of a coin in \<^verbatim>\<open>coins.h\<close> and of undo data in \<^verbatim>\<open>undo.h\<close>, and the
  undo files of \<^verbatim>\<open>undo.cpp\<close>. Parsing a point of the curve and writing it in full are arguments.
\<close>

unbundle bit_operations_syntax

section \<open>Scripts\<close>

text \<open>Whether the curve library parses a key, and the full form it writes for a parsed key.\<close>

record curve_keys =
  ec_pubkey_parse :: "bytes \<Rightarrow> bool"
  ec_pubkey_serialize :: "bytes \<Rightarrow> bytes"

definition IsFullyValid :: "curve_keys \<Rightarrow> bytes \<Rightarrow> bool" where
  "IsFullyValid ec key \<longleftrightarrow> CPubKey_IsValid key \<and> ec_pubkey_parse ec (take (CPubKey_size key) key)"

definition CPubKey_Decompress :: "curve_keys \<Rightarrow> bytes \<Rightarrow> bytes option" where
  "CPubKey_Decompress ec key =
     (if IsFullyValid ec key then Some (CPubKey (ec_pubkey_serialize ec (take (CPubKey_size key) key))) else None)"

definition IsToKeyID :: "bytes \<Rightarrow> bytes option" where
  "IsToKeyID script =
     (if length script = 25 \<and> unat (script ! 0) = OP_DUP \<and> unat (script ! 1) = OP_HASH160 \<and> script ! 2 = 20 \<and>
         unat (script ! 23) = OP_EQUALVERIFY \<and> unat (script ! 24) = OP_CHECKSIG
      then Some (take 20 (drop 3 script)) else None)"

definition IsToScriptID :: "bytes \<Rightarrow> bytes option" where
  "IsToScriptID script =
     (if length script = 23 \<and> unat (script ! 0) = OP_HASH160 \<and> script ! 1 = 20 \<and> unat (script ! 22) = OP_EQUAL
      then Some (take 20 (drop 2 script)) else None)"

definition IsToPubKey :: "curve_keys \<Rightarrow> bytes \<Rightarrow> bytes option" where
  "IsToPubKey ec script =
     (if length script = 35 \<and> script ! 0 = 33 \<and> unat (script ! 34) = OP_CHECKSIG \<and> (script ! 1 = 2 \<or> script ! 1 = 3)
      then Some (CPubKey (take 33 (drop 1 script)))
      else if length script = 67 \<and> script ! 0 = 65 \<and> unat (script ! 66) = OP_CHECKSIG \<and> script ! 1 = 4
      then (let pubkey = CPubKey (take 65 (drop 1 script)) in if IsFullyValid ec pubkey then Some pubkey else None)
      else None)"

definition Compress :: "curve_keys \<Rightarrow> bytes \<Rightarrow> bytes option" where
  "Compress ec script =
     (case IsToKeyID script of
        Some keyID \<Rightarrow> Some (0 # keyID)
      | None \<Rightarrow>
          (case IsToScriptID script of
             Some scriptID \<Rightarrow> Some (1 # scriptID)
           | None \<Rightarrow>
               (case IsToPubKey ec script of
                  None \<Rightarrow> None
                | Some pubkey \<Rightarrow>
                    if pubkey ! 0 = 2 \<or> pubkey ! 0 = 3 then Some (pubkey ! 0 # take 32 (drop 1 pubkey))
                    else if pubkey ! 0 = 4 then Some ((4 OR (pubkey ! 64 AND 1)) # take 32 (drop 1 pubkey))
                    else None)))"

definition GetSpecialSize :: "nat \<Rightarrow> nat" where
  "GetSpecialSize nSize = (if nSize = 0 \<or> nSize = 1 then 20 else if nSize \<in> {2, 3, 4, 5} then 32 else 0)"

text \<open>
  The result is \<open>None\<close> when the script is left as it is. The assertion that a full key has 65 bytes is
  about what the curve library writes.
\<close>

definition Decompress :: "curve_keys \<Rightarrow> nat \<Rightarrow> bytes \<Rightarrow> bytes option" where
  "Decompress ec nSize inp =
     (if nSize = 0 then Some ([of_nat OP_DUP, of_nat OP_HASH160, 20] @ take 20 inp @ [of_nat OP_EQUALVERIFY, of_nat OP_CHECKSIG])
      else if nSize = 1 then Some ([of_nat OP_HASH160, 20] @ take 20 inp @ [of_nat OP_EQUAL])
      else if nSize = 2 \<or> nSize = 3 then Some ([33, of_nat nSize] @ take 32 inp @ [of_nat OP_CHECKSIG])
      else if nSize = 4 \<or> nSize = 5
      then map_option (\<lambda>pubkey. [65] @ take 65 pubkey @ [of_nat OP_CHECKSIG])
             (CPubKey_Decompress ec (CPubKey (of_nat (nSize - 2) # take 32 inp)))
      else None)"

definition nSpecialScripts :: nat where "nSpecialScripts = 6"

definition ser_script :: "curve_keys \<Rightarrow> bytes \<Rightarrow> bytes" where
  "ser_script ec script =
     (case Compress ec script of
        Some compr \<Rightarrow> compr
      | None \<Rightarrow> WriteVarInt (length script + nSpecialScripts) @ script)"

text \<open>\<open>script\<close> is the script the object holds before it is read.\<close>

definition unser_script :: "curve_keys \<Rightarrow> bytes \<Rightarrow> bytes reader" where
  "unser_script ec script =
     rbind (ReadVarInt (2 ^ 32 - 1)) (\<lambda>nSize.
       if nSize < nSpecialScripts
       then rbind (read_bytes (GetSpecialSize nSize)) (\<lambda>vch.
              rreturn (case Decompress ec nSize vch of None \<Rightarrow> script | Some script \<Rightarrow> script))
       else if nSize - nSpecialScripts > MAX_SCRIPT_SIZE
       then rbind (read_bytes (nSize - nSpecialScripts)) (\<lambda>_. rreturn (script @ [of_nat OP_RETURN]))
       else read_bytes (nSize - nSpecialScripts))"

section \<open>Amounts\<close>

text \<open>Divide by ten while it is possible, at most nine times.\<close>

function strip_zeros :: "u64 \<Rightarrow> nat \<Rightarrow> u64 \<times> nat" where
  "strip_zeros n e = (if n mod 10 = 0 \<and> e < 9 then strip_zeros (n div 10) (e + 1) else (n, e))"
  by auto
termination
  by (relation "measure (\<lambda>(n, e). 9 - e)") auto

declare strip_zeros.simps [simp del]

text \<open>\<open>None\<close> is a failed assertion.\<close>

definition CompressAmount :: "u64 \<Rightarrow> u64 option" where
  "CompressAmount n =
     (if n = 0 then Some 0
      else case strip_zeros n 0 of
        (n, e) \<Rightarrow>
          if e < 9
          then (let d = n mod 10 in if d = 0 then None else Some (1 + (n div 10 * 9 + d - 1) * 10 + of_nat e))
          else Some (1 + (n - 1) * 10 + 9))"

fun scale_up :: "u64 \<Rightarrow> nat \<Rightarrow> u64" where
  "scale_up n 0 = n"
| "scale_up n (Suc e) = scale_up (n * 10) e"

definition DecompressAmount :: "u64 \<Rightarrow> u64" where
  "DecompressAmount x =
     (if x = 0 then 0
      else
        let x = x - 1; e = unat (x mod 10); x = x div 10
        in scale_up (if e < 9 then (x div 9) * 10 + (x mod 9 + 1) else x + 1) e)"

section \<open>Outputs, coins and undo data\<close>

text \<open>A writer that may fail an assertion.\<close>

definition ser_txout_compressed :: "curve_keys \<Rightarrow> TxOut \<Rightarrow> bytes option" where
  "ser_txout_compressed ec t =
     map_option (\<lambda>x. WriteVarInt (unat x) @ ser_script ec (scriptPubKey t)) (CompressAmount (word_of_int (nValue t)))"

definition unser_txout_compressed :: "curve_keys \<Rightarrow> bytes \<Rightarrow> TxOut reader" where
  "unser_txout_compressed ec script =
     rbind (ReadVarInt (2 ^ 64 - 1)) (\<lambda>x. rbind (unser_script ec script) (\<lambda>script.
       rreturn \<lparr>nValue = sint (DecompressAmount (of_nat x)), scriptPubKey = script\<rparr>))"

definition coin_code :: "Coin \<Rightarrow> nat" where
  "coin_code c = coin_nHeight c * 2 + (if fCoinBase c then 1 else 0)"

definition ser_coin :: "curve_keys \<Rightarrow> Coin \<Rightarrow> bytes option" where
  "ser_coin ec c =
     (if IsSpent c then None else map_option (\<lambda>t. WriteVarInt (coin_code c) @ t) (ser_txout_compressed ec (out c)))"

definition unser_coin :: "curve_keys \<Rightarrow> bytes \<Rightarrow> Coin reader" where
  "unser_coin ec script =
     rbind (ReadVarInt (2 ^ 32 - 1)) (\<lambda>code. rbind (unser_txout_compressed ec script) (\<lambda>t.
       rreturn \<lparr>out = t, fCoinBase = odd code, coin_nHeight = code div 2\<rparr>))"

text \<open>Undo data has a dummy byte after the height, unless the height is 0.\<close>

definition TxInUndoSerializer :: "curve_keys \<Rightarrow> Coin \<Rightarrow> bytes option" where
  "TxInUndoSerializer ec c =
     map_option (\<lambda>t. WriteVarInt (coin_code c) @ (if coin_nHeight c > 0 then [0] else []) @ t) (ser_txout_compressed ec (out c))"

definition TxInUndoDeserializer :: "curve_keys \<Rightarrow> Coin reader" where
  "TxInUndoDeserializer ec =
     rbind (ReadVarInt (2 ^ 32 - 1)) (\<lambda>nCode.
     rbind (if nCode div 2 > 0 then rbind (ReadVarInt (2 ^ 31 - 1)) (\<lambda>_. rreturn ()) else rreturn ()) (\<lambda>_.
     rbind (unser_txout_compressed ec []) (\<lambda>t.
       rreturn \<lparr>out = t, fCoinBase = odd nCode, coin_nHeight = nCode div 2\<rparr>)))"

definition MIN_TRANSACTION_INPUT_WEIGHT :: nat where
  "MIN_TRANSACTION_INPUT_WEIGHT =
     WITNESS_SCALE_FACTOR * length (ser_txin \<lparr>prevout = COutPoint_null, scriptSig = [], nSequence = SEQUENCE_FINAL, scriptWitness = []\<rparr>)"

definition MAX_INPUTS_PER_BLOCK :: nat where
  "MAX_INPUTS_PER_BLOCK = MAX_BLOCK_WEIGHT div MIN_TRANSACTION_INPUT_WEIGHT"

fun ser_all :: "('a \<Rightarrow> bytes option) \<Rightarrow> 'a list \<Rightarrow> bytes option" where
  "ser_all ser [] = Some []"
| "ser_all ser (x # xs) = (case ser x of None \<Rightarrow> None | Some b \<Rightarrow> map_option (\<lambda>bs. b @ bs) (ser_all ser xs))"

definition ser_txundo :: "curve_keys \<Rightarrow> Coin list \<Rightarrow> bytes option" where
  "ser_txundo ec vprevout =
     map_option (\<lambda>bs. WriteCompactSize (of_nat (length vprevout)) @ bs) (ser_all (TxInUndoSerializer ec) vprevout)"

definition unser_txundo :: "curve_keys \<Rightarrow> Coin list reader" where
  "unser_txundo ec =
     rbind ReadCompactSize (\<lambda>count.
       if unat count > MAX_INPUTS_PER_BLOCK then rfail SizeTooLarge else read_elems (TxInUndoDeserializer ec) (unat count))"

definition ser_blockundo :: "curve_keys \<Rightarrow> Coin list list \<Rightarrow> bytes option" where
  "ser_blockundo ec undo = map_option (\<lambda>bs. WriteCompactSize (of_nat (length undo)) @ bs) (ser_all (ser_txundo ec) undo)"

definition unser_blockundo :: "curve_keys \<Rightarrow> Coin list list reader" where
  "unser_blockundo ec = unser_vector (unser_txundo ec)"

section \<open>Undo files\<close>

text \<open>
  A file is its bytes. Writing at a position replaces what is there; the position of the record is
  the one after the header. The checksum covers the hash of the parent block and the data.
\<close>

definition write_at :: "bytes \<Rightarrow> nat \<Rightarrow> bytes \<Rightarrow> bytes" where
  "write_at file pos b = take pos file @ replicate (pos - length file) 0 @ b @ drop (pos + length b) file"

definition undo_checksum :: "uint256 \<Rightarrow> bytes \<Rightarrow> uint256" where
  "undo_checksum hashPrev b = CHashWriter_GetHash (CHashWriter_write (CHashWriter_write (CSHA256_ctor (replicate 64 0)) hashPrev) b)"

definition UndoWriteToDisk :: "curve_keys \<Rightarrow> bytes \<Rightarrow> uint256 \<Rightarrow> Coin list list \<Rightarrow> bytes \<Rightarrow> nat \<Rightarrow> (nat \<times> bytes) option" where
  "UndoWriteToDisk ec messageStart hashPrev blockundo file pos =
     map_option (\<lambda>b. (pos + length messageStart + 4,
         write_at file pos (messageStart @ ser_writedata32 (of_nat (length b)) @ b @ undo_checksum hashPrev b)))
       (ser_blockundo ec blockundo)"

text \<open>The reader hashes the bytes it has consumed, not what it would write again.\<close>

definition UndoReadFromDisk :: "curve_keys \<Rightarrow> uint256 \<Rightarrow> bytes \<Rightarrow> nat \<Rightarrow> Coin list list option" where
  "UndoReadFromDisk ec hashPrev file nPos =
     (case unser_blockundo ec (drop nPos file) of
        Inl _ \<Rightarrow> None
      | Inr (blockundo, rest) \<Rightarrow>
          (case read_bytes 32 rest of
             Inl _ \<Rightarrow> None
           | Inr (hashChecksum, _) \<Rightarrow>
               if hashChecksum \<noteq> undo_checksum hashPrev (take (length file - nPos - length rest) (drop nPos file)) then None
               else Some blockundo))"

end
