(* ===== verification/Compressor_Props.thy ===== *)
theory Compressor_Props
  imports Compressor Coins_View
begin

text \<open>
  The compact formats lose nothing: amounts, scripts, coins and undo data are read back, also from a
  file.
\<close>

unbundle bit_operations_syntax

section \<open>Amounts\<close>

lemma u64_small:
  assumes "a < 2 ^ 64"
  shows "unat (of_nat a :: u64) = a" "(of_nat a :: u64) div 10 = of_nat (a div 10)" "(of_nat a :: u64) mod 10 = of_nat (a mod 10)"
    "(of_nat a :: u64) div 9 = of_nat (a div 9)" "(of_nat a :: u64) mod 9 = of_nat (a mod 9)"
proof -
  have small: "b \<le> a \<Longrightarrow> unat (of_nat b :: u64) = b" for b using assms by (simp add: unat_of_nat)
  show u: "unat (of_nat a :: u64) = a" by (rule small) simp
  have d: "unat (of_nat (a div k) :: u64) = a div k" "unat (of_nat (a mod k) :: u64) = a mod k" for k
    by (rule small, simp)+
  show "(of_nat a :: u64) div 10 = of_nat (a div 10)" "(of_nat a :: u64) mod 10 = of_nat (a mod 10)"
    "(of_nat a :: u64) div 9 = of_nat (a div 9)" "(of_nat a :: u64) mod 9 = of_nat (a mod 9)"
    by (simp_all add: word_unat_eq_iff unat_div unat_mod u d)
qed

lemma strip_zeros_law:
  "strip_zeros n e = (m, e') \<Longrightarrow> e \<le> 9 \<Longrightarrow> e \<le> e' \<and> e' \<le> 9 \<and> unat n = unat m * 10 ^ (e' - e) \<and> (e' < 9 \<longrightarrow> unat m mod 10 \<noteq> 0)"
proof (induction n e rule: strip_zeros.induct)
  case (1 n e)
  have m: "unat (n mod 10) = unat n mod 10" "unat (n div 10) = unat n div 10" by (simp_all add: unat_mod unat_div)
  show ?case
  proof (cases "n mod 10 = 0 \<and> e < 9")
    case True
    then have s: "strip_zeros (n div 10) (e + 1) = (m, e')" using "1.prems"(1) by (subst (asm) strip_zeros.simps) simp
    have l: "e + 1 \<le> e' \<and> e' \<le> 9 \<and> unat (n div 10) = unat m * 10 ^ (e' - (e + 1)) \<and> (e' < 9 \<longrightarrow> unat m mod 10 \<noteq> 0)"
      using "1.IH" [OF True s] True by simp
    have "unat n mod 10 = 0" using True m(1) by (metis unat_0)
    then have "unat n = unat (n div 10) * 10" using m(2) div_mult_mod_eq [of "unat n" 10] by linarith
    moreover have "e' - e = Suc (e' - (e + 1))" using l by linarith
    ultimately show ?thesis using l by simp
  next
    case False
    then have "m = n" "e' = e" using "1.prems"(1) by (subst (asm) strip_zeros.simps, auto)+
    moreover have "unat n mod 10 \<noteq> 0" if "e < 9" using False that m(1) by (metis unat_eq_zero)
    ultimately show ?thesis using "1.prems"(2) by simp
  qed
qed

lemma scale_up_mult: "scale_up n e = n * 10 ^ e"
  by (induction e arbitrary: n) (simp_all add: mult.assoc)

lemma amount_code:
  assumes "M mod 10 \<noteq> 0"
  defines "Q \<equiv> M div 10 * 9 + M mod 10 - (1 :: nat)"
  shows "Q div 9 * 10 + (Q mod 9 + 1) = M" "Q \<le> M"
proof -
  have q: "Q = M mod 10 - 1 + M div 10 * 9" using assms(1) by (simp add: Q_def)
  have "M mod 10 - 1 < 9" using assms(1) mod_less_divisor [of 10 M] by linarith
  then have "Q div 9 = M div 10" "Q mod 9 = M mod 10 - 1" unfolding q by simp_all
  then show "Q div 9 * 10 + (Q mod 9 + 1) = M" using assms(1) div_mult_mod_eq [of M 10] by linarith
  have "M div 10 * 9 + M mod 10 \<le> M" using div_mult_mod_eq [of M 10] by linarith
  then show "Q \<le> M" by (simp add: Q_def)
qed

lemma CompressAmount_round:
  assumes n: "unat n \<le> 2 ^ 60"
  shows "\<exists>x. CompressAmount n = Some x \<and> DecompressAmount x = n"
proof (cases "n = 0")
  case False
  obtain m e where me: "strip_zeros n 0 = (m, e)" by force
  let ?M = "unat m"
  have l: "e \<le> 9" "unat n = ?M * 10 ^ e" "e < 9 \<Longrightarrow> ?M mod 10 \<noteq> 0" using strip_zeros_law [OF me] by simp_all
  have "?M \<le> unat n" using l(2) by simp
  then have M: "?M \<le> 2 ^ 60" using n by linarith
  have M0: "?M > 0" using False l(2) by (metis unat_eq_zero mult_0 neq0_conv)
  have mm: "m = of_nat ?M" by simp
  have nn: "n = m * 10 ^ e"
    using arg_cong [OF l(2), of "of_nat :: nat \<Rightarrow> u64"] by simp
  show ?thesis
  proof (cases "e < 9")
    case True
    let ?Q = "?M div 10 * 9 + ?M mod 10 - 1"
    let ?X = "1 + ?Q * 10 + e"
    note q = amount_code [OF l(3) [OF True]]
    have big: "?X < 2 ^ 64" using q(2) M True by simp
    have s: "?M < 2 ^ 64" "?Q < 2 ^ 64" "?X - 1 < 2 ^ 64" using M q(2) big by simp_all
    have "m mod 10 = of_nat (?M mod 10)" "m div 10 = of_nat (?M div 10)" using u64_small(2,3) [OF s(1)] by simp_all
    moreover have "unat (of_nat (?M mod 10) :: u64) = ?M mod 10" by (rule u64_small) simp
    ultimately have d: "m mod 10 \<noteq> 0" and Q: "m div 10 * 9 + m mod 10 - 1 = of_nat ?Q"
      using l(3) [OF True] by auto
    then have "CompressAmount n = Some (of_nat ?X)" using False me True by (simp add: CompressAmount_def Let_def)
    moreover have "DecompressAmount (of_nat ?X) = n"
    proof -
      have x: "(of_nat ?X :: u64) - 1 = of_nat (?X - 1)" by simp
      have dm: "(?X - 1) mod 10 = e" "(?X - 1) div 10 = ?Q" using True by simp_all
      have e: "unat (of_nat e :: u64) = e" using True by (intro u64_small) simp
      have "(of_nat ?X :: u64) \<noteq> 0" using u64_small(1) [OF big] by (metis Suc_eq_plus1_left add_Suc nat.simps(3) unat_0)
      moreover have "((of_nat ?X :: u64) - 1) mod 10 = of_nat e" "((of_nat ?X :: u64) - 1) div 10 = of_nat ?Q"
        unfolding x u64_small(2,3) [OF s(3)] dm by simp_all
      moreover have "(of_nat ?Q :: u64) div 9 * 10 + ((of_nat ?Q :: u64) mod 9 + 1) = m"
        unfolding u64_small(4,5) [OF s(2)] using arg_cong [OF q(1), of "of_nat :: nat \<Rightarrow> u64"] by (simp add: ac_simps)
      ultimately show ?thesis using True e by (simp add: DecompressAmount_def Let_def scale_up_mult nn)
    qed
    ultimately show ?thesis by blast
  next
    case e9: False
    let ?X = "1 + (?M - 1) * 10 + 9"
    have s: "?X < 2 ^ 64" "?X - 1 < 2 ^ 64" using M by simp_all
    have "CompressAmount n = Some (of_nat ?X)" using False me e9 M0 by (simp add: CompressAmount_def of_nat_diff)
    moreover have "DecompressAmount (of_nat ?X) = n"
    proof -
      have x: "(of_nat ?X :: u64) - 1 = of_nat (?X - 1)" by simp
      have dm: "(?X - 1) mod 10 = 9" "(?X - 1) div 10 = ?M - 1" by simp_all
      have "(of_nat ?X :: u64) \<noteq> 0" using u64_small(1) [OF s(1)] by (metis Suc_eq_plus1_left add_Suc nat.simps(3) unat_0)
      moreover have "((of_nat ?X :: u64) - 1) mod 10 = 9" "((of_nat ?X :: u64) - 1) div 10 = of_nat (?M - 1)"
        unfolding x u64_small(2,3) [OF s(2)] dm by simp_all
      ultimately show ?thesis using e9 l(1) M0 by (simp add: DecompressAmount_def Let_def scale_up_mult nn of_nat_diff)
    qed
    ultimately show ?thesis by blast
  qed
qed (simp add: CompressAmount_def DecompressAmount_def)

section \<open>Scripts\<close>

text \<open>What the curve library promises: a full key is recovered from its compressed form.\<close>

definition compressed :: "bytes \<Rightarrow> bytes" where
  "compressed key = (2 OR (key ! 64 AND 1)) # take 32 (drop 1 key)"

definition curve_ok :: "curve_keys \<Rightarrow> bool" where
  "curve_ok ec \<longleftrightarrow>
     (\<forall>key. length key = 65 \<longrightarrow> key ! 0 = 4 \<longrightarrow> ec_pubkey_parse ec key \<longrightarrow>
        ec_pubkey_parse ec (compressed key) \<and> ec_pubkey_serialize ec (compressed key) = key)"

lemma WriteVarInt_small: "n \<le> 127 \<Longrightarrow> WriteVarInt n = [of_nat n]"
  by (simp add: WriteVarInt_def WriteVarInt_digits.simps) 

lemma ReadVarInt_small:
  assumes "n < 6"
  shows "ReadVarInt (2 ^ 32 - 1) (of_nat n # s) = Inr (n, s)"
proof -
  have "n \<le> 2 ^ 32 - 1" using assms by simp
  from varint32.round [OF this, of s] WriteVarInt_small [of n] assms show ?thesis by simp
qed

lemma unser_special:
  assumes "n < 6" and "length b = GetSpecialSize n" and "Decompress ec n b = Some script"
  shows "unser_script ec old (of_nat n # b @ s) = Inr (script, s)"
proof -
  have "read_bytes (GetSpecialSize n) (b @ s) = Inr (b, s)" using assms(2) by (simp add: read_bytes_def)
  then show ?thesis using ReadVarInt_small [OF assms(1), of "b @ s"] assms(1,3)
    by (simp add: unser_script_def nSpecialScripts_def)
qed

lemma unat_eq_of_nat: "unat (w :: u8) = n \<Longrightarrow> w = of_nat n"
  by (metis of_nat_unat ucast_id)

lemma split_middle:
  assumes "length s = a + b + c"
  shows "s = take a s @ take b (drop a s) @ drop (a + b) s"
  by (metis append_take_drop_id drop_drop add.commute)

lemma take_nths: "3 \<le> length s \<Longrightarrow> take 3 s = [s ! 0, s ! 1, s ! 2]" "2 \<le> length s \<Longrightarrow> take 2 s = [s ! 0, s ! 1]"
  by (auto simp: numeral_eq_Suc Suc_le_length_iff)

lemma drop_nths: "length s = n + 1 \<Longrightarrow> drop n s = [s ! n]" "length s = n + 2 \<Longrightarrow> drop n s = [s ! n, s ! (n + 1)]"
  by (simp_all add: Cons_nth_drop_Suc [symmetric])

lemma key_id_round:
  assumes "IsToKeyID script = Some h"
  shows "length h = 20 \<and> Decompress ec 0 h = Some script"
proof -
  have c: "length script = 25" "script ! 0 = 0x76" "script ! 1 = 0xa9" "script ! 2 = 20" "script ! 23 = 0x88" "script ! 24 = 0xac"
      "h = take 20 (drop 3 script)"
    using assms by (auto simp: IsToKeyID_def split: if_splits dest!: unat_eq_of_nat)
  have "script = take 3 script @ take 20 (drop 3 script) @ drop 23 script" using split_middle [of script 3 20 2] c(1) by simp
  moreover have "take 3 script = [0x76, 0xa9, 20]" "drop 23 script = [0x88, 0xac]"
    using take_nths(1) [of script] drop_nths(2) [of script 23] c by simp_all
  ultimately show ?thesis using c by (simp add: Decompress_def)
qed

lemma script_id_round:
  assumes "IsToScriptID script = Some h"
  shows "length h = 20 \<and> Decompress ec 1 h = Some script"
proof -
  have c: "length script = 23" "script ! 0 = 0xa9" "script ! 1 = 20" "script ! 22 = 0x87" "h = take 20 (drop 2 script)"
    using assms by (auto simp: IsToScriptID_def split: if_splits dest!: unat_eq_of_nat)
  have "script = take 2 script @ take 20 (drop 2 script) @ drop 22 script" using split_middle [of script 2 20 1] c(1) by simp
  moreover have "take 2 script = [0xa9, 20]" "drop 22 script = [0x87]"
    using take_nths(2) [of script] drop_nths(1) [of script 22] c by simp_all
  ultimately show ?thesis using c by (simp add: Decompress_def)
qed

lemma short_key_round:
  assumes "length script = 35" and "script ! 0 = 33" and "script ! 34 = 0xac" and "script ! 1 = of_nat n" and "n = 2 \<or> n = 3"
  shows "Decompress ec n (take 32 (drop 2 script)) = Some script"
proof -
  have "script = take 2 script @ take 32 (drop 2 script) @ drop 34 script" using split_middle [of script 2 32 1] assms(1) by simp
  moreover have "take 2 script = [33, of_nat n]" "drop 34 script = [0xac]"
    using take_nths(2) [of script] drop_nths(1) [of script 34] assms by simp_all
  ultimately show ?thesis using assms(5) by (auto simp: Decompress_def)
qed

lemma parity_cases: "(w :: u8) AND 1 = 0 \<or> w AND 1 = 1"
  by (simp add: and_one_eq mod_2_eq_odd)

lemma CPubKey_short:
  assumes "length k = 33" and "k ! 0 = 2 \<or> k ! 0 = 3"
  shows "CPubKey_size (CPubKey k) = 33" "take 33 (CPubKey k) = k" "CPubKey_IsValid (CPubKey k)" "CPubKey k ! 0 = k ! 0"
proof -
  have "CPubKey k = k @ replicate 32 0" using assms by (auto simp: CPubKey_def GetLen_def Let_def)
  then show "take 33 (CPubKey k) = k" "CPubKey k ! 0 = k ! 0" "CPubKey_size (CPubKey k) = 33" "CPubKey_IsValid (CPubKey k)"
    using assms by (auto simp: CPubKey_size_def CPubKey_IsValid_def GetLen_def nth_append)
qed

lemma CPubKey_full:
  assumes "length k = 65" and "k ! 0 = 4"
  shows "CPubKey k = k" "CPubKey_size k = 65" "CPubKey_IsValid k"
proof -
  have "k \<noteq> []" using assms(1) by auto
  then show "CPubKey k = k" "CPubKey_size k = 65" "CPubKey_IsValid k"
    using assms by (simp_all add: CPubKey_def GetLen_def Let_def CPubKey_size_def CPubKey_IsValid_def)
qed

lemma full_key_round:
  assumes ec: "curve_ok ec" and "length script = 67" and "script ! 0 = 65" and "script ! 66 = 0xac" and "script ! 1 = 4"
    and valid: "ec_pubkey_parse ec (take 65 (drop 1 script))"
  defines "n \<equiv> 4 + unat (script ! 65 AND 1)"
  shows "(n = 4 \<or> n = 5) \<and> Decompress ec n (take 32 (drop 2 script)) = Some script"
proof -
  let ?k = "take 65 (drop 1 script)"
  have k: "length ?k = 65" "?k ! 0 = 4" "?k ! 64 = script ! 65" using assms(2,5) by simp_all
  have comp: "ec_pubkey_parse ec (compressed ?k)" "ec_pubkey_serialize ec (compressed ?k) = ?k"
    using ec k valid by (auto simp: curve_ok_def)
  obtain b where b: "script ! 65 AND 1 = b" "b = 0 \<or> b = 1" using parity_cases [of "script ! 65"] by metis
  have n: "n = 4 \<or> n = 5" "of_nat (n - 2) = 2 OR b" unfolding n_def b(1) using b(2) by auto
  have t: "take 32 (drop 1 ?k) = take 32 (drop 2 script)" by (simp add: drop_take numeral_2_eq_2)
  have ck: "compressed ?k = of_nat (n - 2) # take 32 (drop 2 script)"
    unfolding compressed_def k(3) b(1) n(2) t ..
  have len: "length (compressed ?k) = 33" "compressed ?k ! 0 = 2 \<or> compressed ?k ! 0 = 3"
    unfolding ck n(2) using assms(2) b(2) by auto
  note c = CPubKey_short [OF len]
  have dec: "CPubKey_Decompress ec (CPubKey (compressed ?k)) = Some ?k"
    using comp c CPubKey_full [OF k(1,2)] by (simp add: CPubKey_Decompress_def IsFullyValid_def)
  have "script = take 1 script @ ?k @ drop 66 script" using split_middle [of script 1 65 1] assms(2) by simp
  moreover have "take 1 script = [65]" "drop 66 script = [0xac]"
    using drop_nths(1) [of script 66] assms(2-4) by (simp_all add: take_Suc_conv_app_nth)
  ultimately have "[65] @ take 65 ?k @ [0xac] = script" using k(1) by simp
  moreover have "Decompress ec n (take 32 (drop 2 script)) = map_option (\<lambda>pubkey. [65] @ take 65 pubkey @ [of_nat OP_CHECKSIG]) (CPubKey_Decompress ec (CPubKey (compressed ?k)))"
    unfolding ck using n(1) by (auto simp: Decompress_def)
  ultimately show ?thesis using n(1) dec by simp
qed

text \<open>Every compressed script is a number below 6 and data that restores the script.\<close>

definition restores :: "curve_keys \<Rightarrow> bytes \<Rightarrow> bytes \<Rightarrow> bool" where
  "restores ec compr script \<longleftrightarrow>
     (\<exists>n b. compr = of_nat n # b \<and> n < 6 \<and> length b = GetSpecialSize n \<and> Decompress ec n b = Some script)"

lemma short_key_restores:
  assumes "IsToPubKey ec script = Some k" and "k ! 0 = 2 \<or> k ! 0 = 3"
  shows "restores ec (k ! 0 # take 32 (drop 1 k)) script"
proof -
  have c: "length script = 35" "script ! 0 = 33" "script ! 34 = 0xac" "script ! 1 = 2 \<or> script ! 1 = 3"
      "k = CPubKey (take 33 (drop 1 script))"
  proof -
    have "k ! 0 \<noteq> 4" using assms(2) by auto
    then have "\<not> (length script = 67 \<and> script ! 1 = 4 \<and> CPubKey (take 65 (drop 1 script)) = k)"
      using CPubKey_full(1) [of "take 65 (drop 1 script)"] by auto
    then show "length script = 35" "script ! 0 = 33" "script ! 34 = 0xac" "script ! 1 = 2 \<or> script ! 1 = 3"
        "k = CPubKey (take 33 (drop 1 script))"
      using assms(1) by (auto simp: IsToPubKey_def Let_def split: if_splits dest!: unat_eq_of_nat)
  qed
  obtain n where n: "script ! 1 = of_nat n" "n = 2 \<or> n = 3" using c(4) by (metis of_nat_numeral)
  have h: "length (take 33 (drop 1 script)) = 33" "take 33 (drop 1 script) ! 0 = 2 \<or> take 33 (drop 1 script) ! 0 = 3"
    using c(1,4) by auto
  note p = CPubKey_short [OF h, folded c(5)]
  have "take 32 (drop 1 k) = drop 1 (take 33 k)" by (simp add: drop_take)
  also have "\<dots> = take 32 (drop 2 script)" unfolding p(2) by (simp add: drop_take numeral_2_eq_2)
  finally have "k ! 0 # take 32 (drop 1 k) = of_nat n # take 32 (drop 2 script)" using p(4) c(1) n(1) by simp
  moreover have "length (take 32 (drop 2 script)) = 32" using c(1) by simp
  ultimately show ?thesis
    using short_key_round [OF c(1-3) n, of ec] n(2) unfolding restores_def by (intro exI [of _ n]) (auto simp: GetSpecialSize_def)
qed

lemma full_key_restores:
  assumes ec: "curve_ok ec" and "IsToPubKey ec script = Some k" and "k ! 0 = 4"
  shows "restores ec ((4 OR (k ! 64 AND 1)) # take 32 (drop 1 k)) script"
proof -
  have c: "length script = 67" "script ! 0 = 65" "script ! 66 = 0xac" "script ! 1 = 4" "k = CPubKey (take 65 (drop 1 script))" "IsFullyValid ec k"
  proof -
    have "\<not> (length script = 35 \<and> (script ! 1 = 2 \<or> script ! 1 = 3) \<and> CPubKey (take 33 (drop 1 script)) = k)"
      using CPubKey_short(4) [of "take 33 (drop 1 script)"] assms(3) by auto
    then show "length script = 67" "script ! 0 = 65" "script ! 66 = 0xac" "script ! 1 = 4" "k = CPubKey (take 65 (drop 1 script))" "IsFullyValid ec k"
      using assms(2) by (auto simp: IsToPubKey_def Let_def split: if_splits dest!: unat_eq_of_nat)
  qed
  have h: "length (take 65 (drop 1 script)) = 65" "take 65 (drop 1 script) ! 0 = 4" using c(1,4) by simp_all
  note p = CPubKey_full [OF h]
  have k: "k = take 65 (drop 1 script)" using c(5) p(1) by simp
  have valid: "ec_pubkey_parse ec (take 65 (drop 1 script))" using c(6) p(2) unfolding k IsFullyValid_def by simp
  obtain b where b: "script ! 65 AND 1 = b" "b = 0 \<or> b = 1" using parity_cases [of "script ! 65"] by metis
  have "k ! 64 = script ! 65" using c(1) by (simp add: k)
  then have "4 OR (k ! 64 AND 1) = of_nat (4 + unat (script ! 65 AND 1))" using b by auto
  moreover have "take 32 (drop 1 k) = take 32 (drop 2 script)" unfolding k by (simp add: drop_take numeral_2_eq_2)
  ultimately have e: "(4 OR (k ! 64 AND 1)) # take 32 (drop 1 k) = of_nat (4 + unat (script ! 65 AND 1)) # take 32 (drop 2 script)" by metis
  have "length (take 32 (drop 2 script)) = 32" using c(1) by simp
  then show ?thesis unfolding restores_def e using full_key_round [OF ec c(1-4) valid]
    by (intro exI [of _ "4 + unat (script ! 65 AND 1)"] exI [of _ "take 32 (drop 2 script)"]) (auto simp: GetSpecialSize_def)
qed

lemma Compress_restores:
  assumes "curve_ok ec" and "Compress ec script = Some compr"
  shows "restores ec compr script"
proof -
  have "restores ec (0 # h) script" if "IsToKeyID script = Some h" for h
    using key_id_round [OF that, of ec] unfolding restores_def by (intro exI [of _ 0] exI [of _ h]) (simp add: GetSpecialSize_def)
  moreover have "restores ec (1 # h) script" if "IsToScriptID script = Some h" for h
    using script_id_round [OF that, of ec] unfolding restores_def by (intro exI [of _ 1] exI [of _ h]) (simp add: GetSpecialSize_def)
  ultimately show ?thesis
    using assms(2) short_key_restores full_key_restores [OF assms(1)] by (auto simp: Compress_def split: option.splits if_splits)
qed

lemma unser_script_round:
  assumes ec: "curve_ok ec" and len: "length script \<le> MAX_SCRIPT_SIZE"
  shows "unser_script ec old (ser_script ec script @ s) = Inr (script, s)"
proof (cases "Compress ec script")
  case None
  have n: "length script + 6 \<le> 2 ^ 32 - 1" using len by (simp add: MAX_SCRIPT_SIZE_def)
  have r: "read_bytes (length script) (script @ s) = Inr (script, s)" by (simp add: read_bytes_def)
  show ?thesis
    unfolding ser_script_def None option.case nSpecialScripts_def append_assoc unser_script_def
    by (subst rbind_Inr [of "ReadVarInt (2 ^ 32 - 1)", OF varint32.round [OF n]]) (use len r in simp)
next
  case (Some compr)
  then obtain n b where "ser_script ec script = of_nat n # b" "n < 6" "length b = GetSpecialSize n" "Decompress ec n b = Some script"
    using Compress_restores [OF ec Some] by (auto simp: restores_def ser_script_def)
  then show ?thesis using unser_special [of n b ec script old s] by simp
qed

section \<open>Coins and undo data\<close>

definition valid_out :: "TxOut \<Rightarrow> bool" where
  "valid_out t \<longleftrightarrow> MoneyRange (nValue t) \<and> length (scriptPubKey t) \<le> MAX_SCRIPT_SIZE"

definition valid_coin :: "Coin \<Rightarrow> bool" where
  "valid_coin c \<longleftrightarrow> valid_out (out c) \<and> coin_nHeight c < 2 ^ 30"

lemma ser_txout_compressed_round:
  assumes ec: "curve_ok ec" and t: "valid_out t"
  shows "\<exists>b. ser_txout_compressed ec t = Some b \<and> (\<forall>s. unser_txout_compressed ec old (b @ s) = Inr (t, s))"
proof -
  have v: "0 \<le> nValue t" "nValue t \<le> 2 ^ 60" using t by (simp_all add: valid_out_def MoneyRange_def MAX_MONEY_def COIN_def)
  have u: "uint (word_of_int (nValue t) :: u64) = nValue t" using v by (simp add: uint_word_of_int)
  have sv: "sint (word_of_int (nValue t) :: u64) = nValue t" using v by (intro sint_word_of_int64) (simp add: int64_range_def)
  have "unat (word_of_int (nValue t) :: u64) = nat (nValue t)" using u by (metis nat_uint_eq)
  then have "unat (word_of_int (nValue t) :: u64) \<le> 2 ^ 60" using v(2) by simp
  then obtain x where x: "CompressAmount (word_of_int (nValue t)) = Some x" "DecompressAmount x = word_of_int (nValue t)"
    using CompressAmount_round by blast
  have n: "unat x \<le> 2 ^ 64 - 1" using unsigned_less [of x, where 'a = nat] by simp
  have "unser_txout_compressed ec old ((WriteVarInt (unat x) @ ser_script ec (scriptPubKey t)) @ s) = Inr (t, s)" for s
    unfolding unser_txout_compressed_def append_assoc
    apply (subst rbind_Inr [of "ReadVarInt (2 ^ 64 - 1)", OF varint64.round [OF n]])
    apply (subst rbind_Inr [of "unser_script ec old", OF unser_script_round [OF ec]])
    using t x sv by (simp_all add: valid_out_def)
  then show ?thesis using x(1) by (simp add: ser_txout_compressed_def)
qed

lemma coin_code_round: "odd (coin_code c) = fCoinBase c" "coin_code c div 2 = coin_nHeight c"
  by (simp_all add: coin_code_def)

lemma coin_code_bound: "valid_coin c \<Longrightarrow> coin_code c \<le> 2 ^ 32 - 1"
  by (simp add: valid_coin_def coin_code_def)

lemma coin_eq: "\<lparr>out = out c, fCoinBase = odd (coin_code c), coin_nHeight = coin_code c div 2\<rparr> = c"
  by (simp add: coin_code_round)

lemma ser_coin_round:
  assumes ec: "curve_ok ec" and c: "valid_coin c"
  shows "\<exists>b. ser_coin ec c = Some b \<and> (\<forall>s. unser_coin ec old (b @ s) = Inr (c, s))"
proof -
  have o: "valid_out (out c)" "\<not> IsSpent c"
    using c by (auto simp: valid_coin_def valid_out_def IsSpent_def TxOut_IsNull_def MoneyRange_def)
  obtain b where b: "ser_txout_compressed ec (out c) = Some b" "\<And>s. unser_txout_compressed ec old (b @ s) = Inr (out c, s)"
    using ser_txout_compressed_round [OF ec o(1)] by blast
  have "unser_coin ec old ((WriteVarInt (coin_code c) @ b) @ s) = Inr (c, s)" for s
    unfolding unser_coin_def append_assoc
    by (subst rbind_Inr [of "ReadVarInt (2 ^ 32 - 1)", OF varint32.round [OF coin_code_bound [OF c]]])
      (simp add: b(2) coin_eq)
  then show ?thesis using b(1) o(2) by (simp add: ser_coin_def)
qed

lemma read_zero: "ReadVarInt (2 ^ 31 - 1) (0 # s) = Inr (0, s)"
  by (simp add: ReadVarInt_def ReadVarInt_loop.simps)

lemma TxInUndo_round:
  assumes ec: "curve_ok ec" and c: "valid_coin c"
  shows "\<exists>b. TxInUndoSerializer ec c = Some b \<and> (\<forall>s. TxInUndoDeserializer ec (b @ s) = Inr (c, s))"
proof -
  have o: "valid_out (out c)" using c by (simp add: valid_coin_def)
  obtain b where b: "ser_txout_compressed ec (out c) = Some b" "\<And>s. unser_txout_compressed ec [] (b @ s) = Inr (out c, s)"
    using ser_txout_compressed_round [OF ec o] by blast
  let ?d = "if coin_nHeight c > 0 then [0 :: u8] else []"
  have d: "(if coin_code c div 2 > 0 then rbind (ReadVarInt (2 ^ 31 - 1)) (\<lambda>_. rreturn ()) else rreturn ()) (?d @ s) = Inr ((), s)" for s
    unfolding coin_code_round using rbind_Inr [of "ReadVarInt (2 ^ 31 - 1)", OF read_zero, of "\<lambda>_. rreturn ()" s] by auto
  have "TxInUndoDeserializer ec ((WriteVarInt (coin_code c) @ ?d @ b) @ s) = Inr (c, s)" for s
    unfolding TxInUndoDeserializer_def append_assoc
    apply (subst rbind_Inr [of "ReadVarInt (2 ^ 32 - 1)", OF varint32.round [OF coin_code_bound [OF c]]])
    apply (simp only: rbind_def [of "if _ then _ else _"] d sum.case prod.case)
    apply (simp add: b(2) coin_eq)
    done
  then show ?thesis using b(1) by (simp add: TxInUndoSerializer_def)
qed

text \<open>A list of elements each of which is written and read back.\<close>

lemma ser_all_round:
  assumes "\<forall>x \<in> set xs. \<exists>b. ser x = Some b \<and> (\<forall>s. unser (b @ s) = Inr (x, s))"
  shows "\<exists>b. ser_all ser xs = Some b \<and> (\<forall>s. read_elems unser (length xs) (b @ s) = Inr (xs, s))"
  using assms
proof (induction xs)
  case (Cons x xs)
  then obtain b bs where b: "ser x = Some b" "\<And>s. unser (b @ s) = Inr (x, s)"
      "ser_all ser xs = Some bs" "\<And>s. read_elems unser (length xs) (bs @ s) = Inr (xs, s)"
    by (metis list.set_intros(1,2))
  then show ?case by simp
qed simp

definition valid_txundo :: "Coin list \<Rightarrow> bool" where
  "valid_txundo undo \<longleftrightarrow> list_all valid_coin undo \<and> length undo \<le> MAX_INPUTS_PER_BLOCK"

definition valid_blockundo :: "Coin list list \<Rightarrow> bool" where
  "valid_blockundo undo \<longleftrightarrow> list_all valid_txundo undo \<and> length undo \<le> MAX_SIZE"

lemma MAX_INPUTS_value: "MAX_INPUTS_PER_BLOCK = 24390"
  by (simp add: MAX_INPUTS_PER_BLOCK_def MIN_TRANSACTION_INPUT_WEIGHT_def MAX_BLOCK_WEIGHT_def WITNESS_SCALE_FACTOR_def
      ser_txin_def ser_outpoint_def COutPoint_null_def uint256_null_def ser_bytes_def WriteCompactSize_def ser_writedata8_def ser_writedata32_def
      WriteLE32_def)

lemma txundo_round:
  assumes ec: "curve_ok ec" and u: "valid_txundo undo"
  shows "\<exists>b. ser_txundo ec undo = Some b \<and> (\<forall>s. unser_txundo ec (b @ s) = Inr (undo, s))"
proof -
  obtain b where b: "ser_all (TxInUndoSerializer ec) undo = Some b" "\<And>s. read_elems (TxInUndoDeserializer ec) (length undo) (b @ s) = Inr (undo, s)"
    using ser_all_round [of undo "TxInUndoSerializer ec" "TxInUndoDeserializer ec"] TxInUndo_round [OF ec] u
    by (auto simp: valid_txundo_def list_all_iff)
  have l: "length undo \<le> MAX_SIZE" "length undo \<le> MAX_INPUTS_PER_BLOCK" using u MAX_INPUTS_value by (auto simp: valid_txundo_def MAX_SIZE_def)
  note k = compact_ok_length [OF l(1)]
  have "unser_txundo ec ((WriteCompactSize (of_nat (length undo)) @ b) @ s) = Inr (undo, s)" for s
    unfolding unser_txundo_def append_assoc
    by (subst rbind_Inr [of ReadCompactSize, OF compact.round [OF conjunct1 [OF k]]]) (use k l b(2) in simp)
  then show ?thesis using b(1) by (simp add: ser_txundo_def)
qed

lemma blockundo_round:
  assumes ec: "curve_ok ec" and u: "valid_blockundo undo"
  shows "\<exists>b. ser_blockundo ec undo = Some b \<and> (\<forall>s. unser_blockundo ec (b @ s) = Inr (undo, s))"
proof -
  obtain b where b: "ser_all (ser_txundo ec) undo = Some b" "\<And>s. read_elems (unser_txundo ec) (length undo) (b @ s) = Inr (undo, s)"
    using ser_all_round [of undo "ser_txundo ec" "unser_txundo ec"] txundo_round [OF ec] u
    by (auto simp: valid_blockundo_def list_all_iff)
  have l: "length undo \<le> MAX_SIZE" using u by (simp add: valid_blockundo_def)
  note k = compact_ok_length [OF l]
  have "unser_blockundo ec ((WriteCompactSize (of_nat (length undo)) @ b) @ s) = Inr (undo, s)" for s
    unfolding unser_blockundo_def unser_vector_def append_assoc
    by (subst rbind_Inr [of ReadCompactSize, OF compact.round [OF conjunct1 [OF k]]]) (use k b(2) in simp)
  then show ?thesis using b(1) by (simp add: ser_blockundo_def)
qed

section \<open>Undo files\<close>

lemma undo_checksum_length: "length (undo_checksum h b) = 32"
  using CHash256_repr [OF Write_repr [OF Write_repr [OF repr_ctor]], of "replicate 64 0" h b]
  by (simp add: undo_checksum_def CHashWriter_GetHash_def CHashWriter_write_def fips_sha256_length)

lemma drop_write_at: "drop (pos + length a) (write_at file pos (a @ b)) = b @ drop (pos + length (a @ b)) file"
  by (simp add: write_at_def)

lemma undo_file_round:
  assumes ec: "curve_ok ec" and u: "valid_blockundo undo"
  shows "\<exists>nPos file'. UndoWriteToDisk ec messageStart h undo file pos = Some (nPos, file') \<and> UndoReadFromDisk ec h file' nPos = Some undo"
proof -
  obtain b where b: "ser_blockundo ec undo = Some b" "\<And>s. unser_blockundo ec (b @ s) = Inr (undo, s)"
    using blockundo_round [OF ec u] by blast
  let ?a = "messageStart @ ser_writedata32 (of_nat (length b))" and ?c = "b @ undo_checksum h b"
  let ?f = "write_at file pos (?a @ ?c)" and ?n = "pos + length messageStart + 4"
  have n: "?n = pos + length ?a" by (simp add: ser_writedata32_def WriteLE32_def)
  obtain rest where d: "drop ?n ?f = b @ undo_checksum h b @ rest" unfolding n drop_write_at by auto
  then have l: "length ?f - ?n = length (b @ undo_checksum h b @ rest)" by (metis length_drop)
  have "UndoReadFromDisk ec h ?f ?n = Some undo"
    unfolding UndoReadFromDisk_def d b(2) l using undo_checksum_length [of h b] by (simp add: read_bytes_def)
  then show ?thesis using b(1) by (simp add: UndoWriteToDisk_def)
qed

section \<open>Properties\<close>

text \<open>
  C22: Coins and undo data survive storage. If the curve library recovers a key from its compressed
  form, every coin with a valid amount and a script of legal size is read back from the compact
  format of the database, and the undo data of a block is read back from the file, with its checksum
  verified, wherever in the file it was written.
\<close>
theorem undo_file_roundtrip:
  assumes "curve_ok ec" and "valid_coin c" and "valid_blockundo undo"
  shows "(\<exists>b. ser_coin ec c = Some b \<and> unser_coin ec old (b @ s) = Inr (c, s)) \<and>
    (\<exists>nPos file'. UndoWriteToDisk ec messageStart h undo file pos = Some (nPos, file') \<and> UndoReadFromDisk ec h file' nPos = Some undo)"
  using ser_coin_round [OF assms(1,2), of old] undo_file_round [OF assms(1,3)] by blast

text \<open>A toy curve on which every compressed key is valid.\<close>

definition toy_curve :: curve_keys where
  "toy_curve = \<lparr>ec_pubkey_parse = (\<lambda>k. length k = 33 \<or> drop 33 k = replicate 31 0 @ [k ! 64 AND 1]),
     ec_pubkey_serialize = (\<lambda>k. 4 # drop 1 k @ replicate 31 0 @ [k ! 0 AND 1])\<rparr>"

lemma toy_curve_ok: "curve_ok toy_curve"
  unfolding curve_ok_def
proof (intro allI impI conjI)
  fix key :: bytes
  assume len: "length key = 65" and k0: "key ! 0 = 4" and p: "ec_pubkey_parse toy_curve key"
  show "ec_pubkey_parse toy_curve (compressed key)" using len by (simp add: toy_curve_def compressed_def)
  obtain b where b: "key ! 64 AND 1 = b" "b = 0 \<or> b = 1" using parity_cases [of "key ! 64"] by metis
  have d: "drop 33 key = replicate 31 0 @ [b]" using p len b(1) by (simp add: toy_curve_def)
  have "(2 OR b) AND 1 = b" using b(2) by auto
  then have "ec_pubkey_serialize toy_curve (compressed key) = 4 # take 32 (drop 1 key) @ drop 33 key"
    unfolding d by (simp add: toy_curve_def compressed_def b(1))
  also have "\<dots> = key"
  proof -
    have "key = take 1 key @ take 32 (drop 1 key) @ drop 33 key" using split_middle [of key 1 32 32] len by simp
    moreover have "take 1 key = [4]" using len k0 by (simp add: take_Suc_conv_app_nth)
    ultimately show ?thesis by simp
  qed
  finally show "ec_pubkey_serialize toy_curve (compressed key) = key" .
qed

theorem undo_file_roundtrip_witness:
  "\<exists>nPos file'. UndoWriteToDisk toy_curve [0xf9] [] [[demo_coin], []] [] 0 = Some (nPos, file') \<and>
     UndoReadFromDisk toy_curve [] file' nPos = Some [[demo_coin], []]"
proof -
  have "valid_coin demo_coin"
    by (simp add: valid_coin_def valid_out_def demo_coin_def MoneyRange_def MAX_MONEY_def COIN_def MAX_SCRIPT_SIZE_def)
  moreover from this have "valid_blockundo [[demo_coin], []]"
    by (simp add: valid_blockundo_def valid_txundo_def MAX_INPUTS_value MAX_SIZE_def)
  ultimately show ?thesis using undo_file_roundtrip [OF toy_curve_ok] by blast
qed

end
