(* ===== verification/Reorg.thy ===== *)
theory Reorg
  imports Connect_Props Compressor_Props
begin

text \<open>
  Between connecting and disconnecting a block its undo data lies in a file: what a connected block
  leaves as undo data can always be stored.
\<close>

section \<open>Undo data of a connected block\<close>

lemma ran_apply_tx: "c \<in> ran (apply_tx h tx u) \<Longrightarrow> c \<in> ran u \<or> (\<exists>p. (p, c) \<in> set (tx_coins h tx))"
  by (auto simp: ran_def apply_tx_def map_add_Some_iff restrict_map_def dest: map_of_SomeD split: if_splits)

lemma new_coins_valid:
  "h < 2 ^ 30 \<Longrightarrow> list_all (\<lambda>t. MoneyRange (nValue t)) outs \<Longrightarrow> (p, c) \<in> set (new_coins txid cb h i outs) \<Longrightarrow> valid_coin c"
  by (induction outs arbitrary: i) (auto simp: valid_coin_def valid_out_def IsUnspendable_def split: if_splits)

lemma apply_tx_valid:
  assumes "\<forall>c \<in> ran u. valid_coin c" and "h < 2 ^ 30" and "list_all (\<lambda>t. MoneyRange (nValue t)) (vout tx)"
  shows "\<forall>c \<in> ran (apply_tx h tx u). valid_coin c"
  using ran_apply_tx [of _ h tx u] new_coins_valid [OF assms(2,3)] assms(1) by (fastforce simp: tx_coins_def)

lemma block_undo_valid:
  assumes "block_applies h txs u" and "\<forall>c \<in> ran u. valid_coin c" and "h < 2 ^ 30"
    and "\<forall>tx \<in> set txs. list_all (\<lambda>t. MoneyRange (nValue t)) (vout tx) \<and> length (vin tx) \<le> n"
  shows "\<forall>undo \<in> set (block_undo h txs u). list_all valid_coin undo \<and> length undo \<le> n"
  using assms
proof (induction txs arbitrary: u)
  case (Cons tx txs)
  have "set (spent tx) \<subseteq> dom u" using Cons.prems(1) by (simp add: tx_applies_def)
  then have "list_all valid_coin (tx_undo u tx)"
    using Cons.prems(2) by (fastforce simp: tx_undo_def list_all_iff ran_def)
  moreover have "length (tx_undo u tx) \<le> n" using Cons.prems(4) by (simp add: tx_undo_def spent_def)
  moreover have "\<forall>c \<in> ran (apply_tx h tx u). valid_coin c" by (rule apply_tx_valid) (use Cons.prems in simp_all)
  ultimately show ?case using Cons.IH [of "apply_tx h tx u"] Cons.prems by simp
qed simp

context coins_view
begin

lemma ConnectBlock_undo_valid:
  assumes "cinv (cs_view s)" and "ce_store env pindex = Some bi" and "regular_block env bi (cs_block s)"
    and "ConnectBlock env get best pindex sc jc s = (Inr (undo, bi'), s')"
    and "\<forall>c \<in> ran (cutxo (cs_view s)). valid_coin c" and "nHeight bi < 2 ^ 30"
    and "\<forall>tx \<in> set (vtx (cs_block s)). length (vin tx) \<le> MAX_INPUTS_PER_BLOCK"
  shows "valid_blockundo undo"
proof -
  note l = ConnectBlock_law [OF assms(1-4)]
  let ?h = "nat (nHeight bi)" and ?txs = "vtx (cs_block s)" and ?u = "cutxo (cs_view s)"
  have "\<forall>undo \<in> set (block_undo ?h ?txs ?u). list_all valid_coin undo \<and> length undo \<le> MAX_INPUTS_PER_BLOCK"
    using l assms(5-7) CheckTransaction_InrD(2) by (intro block_undo_valid) auto
  then have "\<forall>x \<in> set undo. valid_txundo x" using l by (auto simp: valid_txundo_def dest: list.set_sel(2)) 
  moreover have "length undo \<le> MAX_SIZE"
    using l by (auto simp: length_block_undo MAX_SIZE_def WITNESS_SCALE_FACTOR_def MAX_BLOCK_WEIGHT_def)
  ultimately show ?thesis by (simp add: valid_blockundo_def list_all_iff)
qed

end

end
