(* ===== verification/Standard.thy ===== *)
theory Standard
  imports Compressor Script_Templates
begin

text \<open>
  \<^verbatim>\<open>src/src/script/standard.cpp\<close>: the recognition of the standard output scripts, and the scripts of
  destinations and keys.
\<close>

section \<open>Types of outputs\<close>

datatype txnouttype = TX_NONSTANDARD | TX_PUBKEY | TX_PUBKEYHASH | TX_SCRIPTHASH | TX_MULTISIG | TX_NULL_DATA
  | TX_WITNESS_V0_SCRIPTHASH | TX_WITNESS_V0_KEYHASH | TX_WITNESS_UNKNOWN

definition GetTxnOutputType :: "txnouttype \<Rightarrow> string" where
  "GetTxnOutputType t =
     (case t of
        TX_NONSTANDARD \<Rightarrow> ''nonstandard''
      | TX_PUBKEY \<Rightarrow> ''pubkey''
      | TX_PUBKEYHASH \<Rightarrow> ''pubkeyhash''
      | TX_SCRIPTHASH \<Rightarrow> ''scripthash''
      | TX_MULTISIG \<Rightarrow> ''multisig''
      | TX_NULL_DATA \<Rightarrow> ''nulldata''
      | TX_WITNESS_V0_KEYHASH \<Rightarrow> ''witness_v0_keyhash''
      | TX_WITNESS_V0_SCRIPTHASH \<Rightarrow> ''witness_v0_scripthash''
      | TX_WITNESS_UNKNOWN \<Rightarrow> ''witness_unknown'')"

section \<open>Templates\<close>

text \<open>The multimap iterates in the order of the types.\<close>

definition mTemplates :: "(txnouttype \<times> bytes) list" where
  "mTemplates =
     [(TX_PUBKEY, push_opcode (push_opcode [] OP_PUBKEY) OP_CHECKSIG),
      (TX_PUBKEYHASH, push_opcode (push_opcode (push_opcode (push_opcode (push_opcode [] OP_DUP) OP_HASH160)
         OP_PUBKEYHASH) OP_EQUALVERIFY) OP_CHECKSIG),
      (TX_MULTISIG, push_opcode (push_opcode (push_opcode (push_opcode [] OP_SMALLINTEGER) OP_PUBKEYS)
         OP_SMALLINTEGER) OP_CHECKMULTISIG)]"

text \<open>The loop over public keys: the solutions, and the opcode, the data and the iterator it ends at.\<close>

function take_pubkeys :: "nat \<Rightarrow> bytes \<Rightarrow> bytes \<Rightarrow> bytes list \<Rightarrow> bytes list \<times> nat \<times> bytes \<times> bytes" where
  "take_pubkeys opcode1 vch1 pc1 sols =
     (if 33 \<le> length vch1 \<and> length vch1 \<le> 65
      then let sols = sols @ [vch1]; (ok, opcode1, vch1, pc1') = GetOp pc1
           in if ok then take_pubkeys opcode1 vch1 pc1' sols else (sols, opcode1, vch1, pc1')
      else (sols, opcode1, vch1, pc1))"
  by pat_completeness auto
termination
  by (relation "measure (\<lambda>(op, vch, pc, sols). length pc)") (auto dest: GetOp_ok_shorter [OF sym])

declare take_pubkeys.simps [simp del]

text \<open>
  The comparison of one opcode: the solutions it adds, or \<open>None\<close> where the loop breaks. An opcode
  that \<open>DecodeOP_N\<close> would refuse does not reach it.
\<close>

definition match_op :: "nat \<Rightarrow> bytes \<Rightarrow> nat \<Rightarrow> bytes \<Rightarrow> bytes list option" where
  "match_op opcode1 vch1 opcode2 vch2 =
     (if opcode2 = OP_PUBKEY then if length vch1 < 33 \<or> length vch1 > 65 then None else Some [vch1]
      else if opcode2 = OP_PUBKEYHASH then if length vch1 \<noteq> 20 then None else Some [vch1]
      else if opcode2 = OP_SMALLINTEGER then
        if opcode1 = OP_0 \<or> (opcode1 \<ge> OP_1 \<and> opcode1 \<le> OP_16)
        then map_option (\<lambda>n. [[of_nat n]]) (DecodeOP_N opcode1) else None
      else if opcode1 \<noteq> opcode2 \<or> vch1 \<noteq> vch2 then None else Some [])"

text \<open>The comparison of a script with a template, whose iterators are \<open>pc1\<close> and \<open>pc2\<close>.\<close>

function match_template :: "bytes \<Rightarrow> bytes \<Rightarrow> bytes list \<Rightarrow> bytes list option" where
  "match_template pc1 pc2 sols =
     (if pc1 = [] \<and> pc2 = [] then Some sols
      else case GetOp pc1 of (ok1, opcode1, vch1, pc1') \<Rightarrow>
        if \<not> ok1 then None
        else case GetOp pc2 of (ok2, opcode2, vch2, pc2') \<Rightarrow>
          if \<not> ok2 then None
          else if opcode2 = OP_PUBKEYS then
            (case take_pubkeys opcode1 vch1 pc1' sols of (sols, opcode1, vch1, pc1'') \<Rightarrow>
               case GetOp pc2' of (ok3, opcode2, vch2, pc2'') \<Rightarrow>
                 if \<not> ok3 then None
                 else case match_op opcode1 vch1 opcode2 vch2 of
                   None \<Rightarrow> None
                 | Some new \<Rightarrow> match_template pc1'' pc2'' (sols @ new))
          else (case match_op opcode1 vch1 opcode2 vch2 of
                  None \<Rightarrow> None
                | Some new \<Rightarrow> match_template pc1' pc2' (sols @ new)))"
  by pat_completeness auto
termination
  by (relation "measure (\<lambda>(pc1, pc2, sols). length pc2)")
    (auto dest!: GetOp_ok_shorter [OF sym] dest: less_trans)

declare match_template.simps [simp del]

fun scan_templates :: "bytes \<Rightarrow> (txnouttype \<times> bytes) list \<Rightarrow> bool \<times> txnouttype \<times> bytes list" where
  "scan_templates script1 [] = (False, TX_NONSTANDARD, [])"
| "scan_templates script1 ((type, script2) # templates) =
     (case match_template script1 script2 [] of
        None \<Rightarrow> scan_templates script1 templates
      | Some vSolutions \<Rightarrow>
          (if type = TX_MULTISIG then
             let m = unat (hd (hd vSolutions)); n = unat (hd (last vSolutions))
             in \<not> (m < 1 \<or> n < 1 \<or> m > n \<or> length vSolutions - 2 \<noteq> n)
           else True, type, vSolutions))"

text \<open>
  The result of \<open>Solver\<close> with \<open>typeRet\<close> and \<open>vSolutionsRet\<close>. A malformed version 0 witness program
  leaves \<open>typeRet\<close> as the caller had it.
\<close>

definition Solver :: "bytes \<Rightarrow> txnouttype \<Rightarrow> bool \<times> txnouttype \<times> bytes list" where
  "Solver script typeRet =
     (if IsPayToScriptHash script then (True, TX_SCRIPTHASH, [take 20 (drop 2 script)])
      else case IsWitnessProgram script of
        Some (witnessversion, witnessprogram) \<Rightarrow>
          if witnessversion = 0 \<and> length witnessprogram = 20 then (True, TX_WITNESS_V0_KEYHASH, [witnessprogram])
          else if witnessversion = 0 \<and> length witnessprogram = 32 then (True, TX_WITNESS_V0_SCRIPTHASH, [witnessprogram])
          else if witnessversion \<noteq> 0 then (True, TX_WITNESS_UNKNOWN, [[of_nat witnessversion], witnessprogram])
          else (False, typeRet, [])
      | None \<Rightarrow>
          if length script \<ge> 1 \<and> unat (script ! 0) = OP_RETURN \<and> IsPushOnly (drop 1 script)
          then (True, TX_NULL_DATA, [])
          else scan_templates script mTemplates)"

section \<open>Destinations\<close>

datatype CTxDestination = CNoDestination | CKeyID uint160 | CScriptID uint160 | WitnessV0ScriptHash uint256
  | WitnessV0KeyHash uint160 | WitnessUnknown nat bytes

definition CPubKey_GetID :: "crypto \<Rightarrow> bytes \<Rightarrow> uint160" where
  "CPubKey_GetID cr key = CHash160 cr (take (CPubKey_size key) key)"

definition ExtractDestination :: "crypto \<Rightarrow> bytes \<Rightarrow> CTxDestination option" where
  "ExtractDestination cr script =
     (case Solver script TX_NONSTANDARD of (ok, whichType, vSolutions) \<Rightarrow>
        if \<not> ok then None
        else if whichType = TX_PUBKEY then
          let pubKey = CPubKey (vSolutions ! 0)
          in if CPubKey_IsValid pubKey then Some (CKeyID (CPubKey_GetID cr pubKey)) else None
        else if whichType = TX_PUBKEYHASH then Some (CKeyID (vSolutions ! 0))
        else if whichType = TX_SCRIPTHASH then Some (CScriptID (vSolutions ! 0))
        else if whichType = TX_WITNESS_V0_KEYHASH then Some (WitnessV0KeyHash (vSolutions ! 0))
        else if whichType = TX_WITNESS_V0_SCRIPTHASH then Some (WitnessV0ScriptHash (vSolutions ! 0))
        else if whichType = TX_WITNESS_UNKNOWN then Some (WitnessUnknown (unat (vSolutions ! 0 ! 0)) (vSolutions ! 1))
        else None)"

text \<open>The result holds \<open>typeRet\<close>, \<open>addressRet\<close> and \<open>nRequiredRet\<close>.\<close>

definition ExtractDestinations :: "crypto \<Rightarrow> bytes \<Rightarrow> (txnouttype \<times> CTxDestination list \<times> nat) option" where
  "ExtractDestinations cr script =
     (case Solver script TX_NONSTANDARD of (ok, typeRet, vSolutions) \<Rightarrow>
        if \<not> ok \<or> typeRet = TX_NULL_DATA then None
        else if typeRet = TX_MULTISIG then
          let keys = filter CPubKey_IsValid (map CPubKey (butlast (tl vSolutions)));
              addressRet = map (\<lambda>pubKey. CKeyID (CPubKey_GetID cr pubKey)) keys
          in if addressRet = [] then None else Some (typeRet, addressRet, unat (hd (hd vSolutions)))
        else map_option (\<lambda>address. (typeRet, [address], 1)) (ExtractDestination cr script))"

text \<open>\<open>None\<close> is the failed assertion of \<open>EncodeOP_N\<close>.\<close>

definition GetScriptForDestination :: "CTxDestination \<Rightarrow> bytes option" where
  "GetScriptForDestination dest =
     (case dest of
        CNoDestination \<Rightarrow> Some []
      | CKeyID keyID \<Rightarrow>
          Some (push_opcode (push_opcode (push_data (push_opcode (push_opcode [] OP_DUP) OP_HASH160) keyID) OP_EQUALVERIFY) OP_CHECKSIG)
      | CScriptID scriptID \<Rightarrow> Some (push_opcode (push_data (push_opcode [] OP_HASH160) scriptID) OP_EQUAL)
      | WitnessV0KeyHash h \<Rightarrow> Some (push_data (push_opcode [] OP_0) h)
      | WitnessV0ScriptHash h \<Rightarrow> Some (push_data (push_opcode [] OP_0) h)
      | WitnessUnknown version program \<Rightarrow>
          map_option (\<lambda>opcode. push_data (push_opcode [] opcode) program) (EncodeOP_N (int version)))"

definition GetScriptForRawPubKey :: "bytes \<Rightarrow> bytes" where
  "GetScriptForRawPubKey pubKey = push_opcode (push_data [] (take (CPubKey_size pubKey) pubKey)) OP_CHECKSIG"

definition GetScriptForMultisig :: "int \<Rightarrow> bytes list \<Rightarrow> bytes option" where
  "GetScriptForMultisig nRequired keys =
     (case EncodeOP_N nRequired of
        None \<Rightarrow> None
      | Some m \<Rightarrow>
          let script = fold (\<lambda>key script. push_data script (take (CPubKey_size key) key)) keys (push_opcode [] m)
          in map_option (\<lambda>n. push_opcode (push_opcode script n) OP_CHECKMULTISIG) (EncodeOP_N (int (length keys))))"

definition GetScriptForWitness :: "crypto \<Rightarrow> bytes \<Rightarrow> bytes option" where
  "GetScriptForWitness cr redeemscript =
     (case Solver redeemscript TX_NONSTANDARD of (ok, typ, vSolutions) \<Rightarrow>
        if ok \<and> typ = TX_PUBKEY then GetScriptForDestination (WitnessV0KeyHash (CHash160 cr (vSolutions ! 0)))
        else if ok \<and> typ = TX_PUBKEYHASH then GetScriptForDestination (WitnessV0KeyHash (vSolutions ! 0))
        else GetScriptForDestination (WitnessV0ScriptHash (sha256_of redeemscript)))"

definition IsValidDestination :: "CTxDestination \<Rightarrow> bool" where
  "IsValidDestination dest \<longleftrightarrow> dest \<noteq> CNoDestination"

end
