(* ===== verification/Standard_Props.thy ===== *)
theory Standard_Props
  imports Standard
begin

text \<open>
  The destinations and multisignature scripts that \<open>Solver\<close> recognises are those that the builders
  of \<^verbatim>\<open>standard.cpp\<close> produce.
\<close>

section \<open>Matching a template\<close>

lemma match_template_end: "match_template pc1 [] sols = Some r \<longleftrightarrow> pc1 = [] \<and> r = sols"
  by (subst match_template.simps) (auto split: prod.splits)

lemma match_template_step:
  assumes "GetOp pc2 = (True, opcode2, vch2, pc2')" and "opcode2 \<noteq> OP_PUBKEYS"
  shows "match_template pc1 pc2 sols = Some r \<longleftrightarrow>
    (\<exists>opcode1 vch1 pc1' new. GetOp pc1 = (True, opcode1, vch1, pc1') \<and> match_op opcode1 vch1 opcode2 vch2 = Some new \<and>
      match_template pc1' pc2' (sols @ new) = Some r)"
proof -
  have "pc2 \<noteq> []" using assms(1) by auto
  then show ?thesis using assms by (subst match_template.simps) (auto split: prod.splits option.splits)
qed

lemma match_template_keys:
  assumes "GetOp pc2 = (True, OP_PUBKEYS, vch2, pc2')" and "GetOp pc2' = (True, opcode2, vch3, pc2'')"
  shows "match_template pc1 pc2 sols = Some r \<longleftrightarrow>
    (\<exists>opcode1 vch1 pc1' sols' opcode1' vch1' pc1'' new. GetOp pc1 = (True, opcode1, vch1, pc1') \<and>
      take_pubkeys opcode1 vch1 pc1' sols = (sols', opcode1', vch1', pc1'') \<and>
      match_op opcode1' vch1' opcode2 vch3 = Some new \<and> match_template pc1'' pc2'' (sols' @ new) = Some r)"
proof -
  have "pc2 \<noteq> []" using assms(1) by auto
  then show ?thesis using assms by (subst match_template.simps) (auto split: prod.splits option.splits)
qed

lemma template_ops:
  "GetOp [0xfe, 0xac] = (True, OP_PUBKEY, [], [0xac])" "GetOp [0xac :: u8] = (True, OP_CHECKSIG, [], [])"
  "GetOp [0x76, 0xa9, 0xfd, 0x88, 0xac] = (True, OP_DUP, [], [0xa9, 0xfd, 0x88, 0xac])"
  "GetOp [0xa9, 0xfd, 0x88, 0xac] = (True, OP_HASH160, [], [0xfd, 0x88, 0xac])"
  "GetOp [0xfd, 0x88, 0xac] = (True, OP_PUBKEYHASH, [], [0x88, 0xac])"
  "GetOp [0x88, 0xac] = (True, OP_EQUALVERIFY, [], [0xac])"
  "GetOp [0xfa, 0xfb, 0xfa, 0xae] = (True, OP_SMALLINTEGER, [], [0xfb, 0xfa, 0xae])"
  "GetOp [0xfb, 0xfa, 0xae] = (True, OP_PUBKEYS, [], [0xfa, 0xae])"
  "GetOp [0xfa, 0xae] = (True, OP_SMALLINTEGER, [], [0xae])"
  "GetOp [0xae] = (True, OP_CHECKMULTISIG, [], [])"
  by (simp_all add: GetOp_def)

lemma mTemplates_bytes:
  "mTemplates = [(TX_PUBKEY, [0xfe, 0xac]), (TX_PUBKEYHASH, [0x76, 0xa9, 0xfd, 0x88, 0xac]), (TX_MULTISIG, [0xfa, 0xfb, 0xfa, 0xae])]"
  by (simp add: mTemplates_def push_opcode_def)

lemma match_op_iff:
  "match_op op1 v OP_PUBKEY w = Some new \<longleftrightarrow> 33 \<le> length v \<and> length v \<le> 65 \<and> new = [v]"
  "match_op op1 v OP_PUBKEYHASH w = Some new \<longleftrightarrow> length v = 20 \<and> new = [v]"
  "match_op op1 v OP_SMALLINTEGER w = Some new \<longleftrightarrow> (\<exists>n. DecodeOP_N op1 = Some n \<and> new = [[of_nat n]])"
  "op2 < OP_SMALLINTEGER \<Longrightarrow> match_op op1 v op2 w = Some new \<longleftrightarrow> op1 = op2 \<and> v = w \<and> new = []"
  by (auto simp: match_op_def DecodeOP_N_def)

lemma match_pubkey:
  "match_template script [0xfe, 0xac] [] = Some r \<longleftrightarrow>
    (\<exists>opcode key pc. GetOp script = (True, opcode, key, pc) \<and> GetOp pc = (True, OP_CHECKSIG, [], []) \<and>
      33 \<le> length key \<and> length key \<le> 65 \<and> r = [key])"
  by (simp add: match_template_step template_ops match_template_end match_op_iff) blast

lemma match_pubkeyhash:
  "match_template script [0x76, 0xa9, 0xfd, 0x88, 0xac] [] = Some r \<longleftrightarrow>
    (\<exists>pc1 pc2 opcode h pc3 pc4. GetOp script = (True, OP_DUP, [], pc1) \<and> GetOp pc1 = (True, OP_HASH160, [], pc2) \<and>
      GetOp pc2 = (True, opcode, h, pc3) \<and> GetOp pc3 = (True, OP_EQUALVERIFY, [], pc4) \<and>
      GetOp pc4 = (True, OP_CHECKSIG, [], []) \<and> length h = 20 \<and> r = [h])"
  by (simp add: match_template_step template_ops match_template_end match_op_iff) blast

lemma DecodeOP_N_Encode: "0 \<le> n \<Longrightarrow> n \<le> 16 \<Longrightarrow> \<exists>b. EncodeOP_N n = Some b \<and> DecodeOP_N b = Some (nat n) \<and>
    (b = OP_0 \<and> n = 0 \<or> OP_1 \<le> b \<and> b \<le> OP_16 \<and> b = OP_1 - 1 + nat n)"
  by (auto simp: EncodeOP_N_def DecodeOP_N_def)

lemma GetOp_byte: "OP_PUSHDATA4 < b \<Longrightarrow> b < 256 \<Longrightarrow> GetOp (of_nat b # pc) = (True, b, [], pc)"
  by (simp add: GetOp_opcode unat_of_nat)

section \<open>Destinations\<close>

definition destination_ok :: "CTxDestination \<Rightarrow> bool" where
  "destination_ok d =
     (case d of
        CNoDestination \<Rightarrow> False
      | CKeyID h \<Rightarrow> length h = 20
      | CScriptID h \<Rightarrow> length h = 20
      | WitnessV0ScriptHash h \<Rightarrow> length h = 32
      | WitnessV0KeyHash h \<Rightarrow> length h = 20
      | WitnessUnknown version program \<Rightarrow> 1 \<le> version \<and> version \<le> 16 \<and> 2 \<le> length program \<and> length program \<le> 40)"

lemma Solver_pubkeyhash:
  assumes "length h = 20"
  shows "Solver (p2pkh_script h) t = (True, TX_PUBKEYHASH, [h])"
proof -
  let ?s = "[0x76, 0xa9] @ (0x14 # h @ [0x88, 0xac :: u8])"
  have "GetOp ?s = (True, OP_DUP, [], [0xa9] @ (0x14 # h @ [0x88, 0xac]))"
    "GetOp ([0xa9] @ (0x14 # h @ [0x88, 0xac])) = (True, OP_HASH160, [], 0x14 # h @ [0x88, 0xac])"
    "GetOp (0x14 # h @ [0x88, 0xac]) = (True, 20, h, [0x88, 0xac])"
    using assms by (simp_all add: GetOp_opcode GetOp_direct)
  moreover from this have "match_template ?s [0xfe, 0xac] [] = None"
    by (simp add: match_pubkey not_Some_eq [symmetric] del: not_Some_eq)
  ultimately have "scan_templates ?s mTemplates = (True, TX_PUBKEYHASH, [h])"
    using assms match_pubkeyhash [of ?s "[h]"] template_ops(2,6) by (simp add: mTemplates_bytes)
  moreover have "\<not> IsPayToScriptHash ?s" "IsWitnessProgram ?s = None"
    using assms by (simp_all add: IsPayToScriptHash_def IsWitnessProgram_def)
  ultimately show ?thesis unfolding p2pkh_script_bytes [OF assms] by (simp add: Solver_def)
qed

lemma Solver_scripthash:
  "length h = 20 \<Longrightarrow> Solver (push_opcode (push_data (push_opcode [] OP_HASH160) h) OP_EQUAL) t = (True, TX_SCRIPTHASH, [h])"
  by (simp add: Solver_def push_opcode_def push_data_def IsPayToScriptHash_def nth_append)

lemma Solver_witness:
  assumes "EncodeOP_N (int version) = Some opcode" and "version \<le> 16" and "2 \<le> length program" and "length program \<le> 40"
  shows "Solver (push_data (push_opcode [] opcode) program) t =
    (if version = 0 \<and> length program = 20 then (True, TX_WITNESS_V0_KEYHASH, [program])
     else if version = 0 \<and> length program = 32 then (True, TX_WITNESS_V0_SCRIPTHASH, [program])
     else if version \<noteq> 0 then (True, TX_WITNESS_UNKNOWN, [[of_nat version], program])
     else (False, t, []))"
proof -
  let ?s = "push_data (push_opcode [] opcode) program"
  have s: "?s = of_nat opcode # of_nat (length program) # program"
    using assms(3,4) by (simp add: push_data_def push_opcode_def)
  have op: "DecodeOP_N opcode = Some version" "opcode = OP_0 \<or> OP_1 \<le> opcode \<and> opcode \<le> OP_16"
    using DecodeOP_N_Encode [of "int version"] assms(1,2) by auto
  then have "unat (of_nat opcode :: u8) = opcode" by (auto simp: unat_of_nat)
  then have "IsWitnessProgram ?s = Some (version, program)"
    using op assms(3,4) by (auto simp: s IsWitnessProgram_def unat_of_nat)
  moreover have "\<not> IsPayToScriptHash ?s"
    using op(2) \<open>unat (of_nat opcode) = opcode\<close> by (auto simp: s IsPayToScriptHash_def)
  ultimately show ?thesis by (simp add: Solver_def)
qed

lemma GetScriptForDestination_ok:
  assumes "destination_ok d"
  shows "\<exists>s. GetScriptForDestination d = Some s \<and> ExtractDestination cr s = Some d"
proof (cases d)
  case (CKeyID h)
  then show ?thesis using assms Solver_pubkeyhash [of h]
    by (simp add: GetScriptForDestination_def ExtractDestination_def destination_ok_def p2pkh_script_def)
next
  case (CScriptID h)
  then show ?thesis using assms Solver_scripthash [of h]
    by (simp add: GetScriptForDestination_def ExtractDestination_def destination_ok_def)
next
  case (WitnessV0ScriptHash h)
  then show ?thesis using assms Solver_witness [of 0 OP_0 h]
    by (simp add: GetScriptForDestination_def ExtractDestination_def destination_ok_def EncodeOP_N_def)
next
  case (WitnessV0KeyHash h)
  then show ?thesis using assms Solver_witness [of 0 OP_0 h]
    by (simp add: GetScriptForDestination_def ExtractDestination_def destination_ok_def EncodeOP_N_def)
next
  case (WitnessUnknown v p)
  then have v: "1 \<le> v" "v \<le> 16" "2 \<le> length p" "length p \<le> 40" using assms by (simp_all add: destination_ok_def)
  then obtain b where b: "EncodeOP_N (int v) = Some b" using DecodeOP_N_Encode [of "int v"] by auto
  then show ?thesis using Solver_witness [OF b v(2-4)] v WitnessUnknown
    by (simp add: GetScriptForDestination_def ExtractDestination_def unat_of_nat)
qed (use assms in \<open>simp add: destination_ok_def\<close>)

lemma scan_templates_type:
  "scan_templates script mTemplates = (True, type, sols) \<Longrightarrow>
     type = TX_PUBKEY \<or> type = TX_PUBKEYHASH \<and> (\<exists>h. sols = [h] \<and> length h = 20) \<or> type = TX_MULTISIG"
  using match_pubkeyhash [of script]
  by (auto simp: mTemplates_bytes Let_def split: option.splits if_splits)

lemma IsWitnessProgram_type:
  "IsWitnessProgram script = Some (version, program) \<Longrightarrow> version \<le> 16 \<and> 2 \<le> length program \<and> length program \<le> 40"
  by (auto simp: IsWitnessProgram_def DecodeOP_N_def split: if_splits)

definition solved_witness :: "bytes \<Rightarrow> txnouttype \<Rightarrow> bytes list \<Rightarrow> bool" where
  "solved_witness script type sols \<longleftrightarrow>
     (\<exists>version program. IsWitnessProgram script = Some (version, program) \<and>
        (type = TX_WITNESS_V0_KEYHASH \<and> length program = 20 \<and> sols = [program] \<or>
         type = TX_WITNESS_V0_SCRIPTHASH \<and> length program = 32 \<and> sols = [program] \<or>
         type = TX_WITNESS_UNKNOWN \<and> version \<noteq> 0 \<and> sols = [[of_nat version], program]))"

lemma Solver_cases:
  assumes "Solver script t = (True, type, sols)"
  obtains (p2sh) "length script = 23" "type = TX_SCRIPTHASH" "sols = [take 20 (drop 2 script)]"
    | (witness) "solved_witness script type sols"
    | (data) "type = TX_NULL_DATA"
    | (scan) "scan_templates script mTemplates = (True, type, sols)"
proof (cases "IsPayToScriptHash script")
  case True
  then show thesis using assms p2sh by (simp add: Solver_def IsPayToScriptHash_def)
next
  case no: False
  show thesis
  proof (cases "IsWitnessProgram script")
    case None
    then show thesis using assms no data scan by (simp add: Solver_def split: if_split_asm)
  next
    case (Some w)
    obtain version program where w: "w = (version, program)" by fastforce
    have "solved_witness script type sols"
      using assms no Some w by (simp add: Solver_def solved_witness_def split: if_split_asm)
    then show thesis by (rule witness)
  qed
qed

lemma ExtractDestination_type:
  assumes "\<And>v. length (CRIPEMD160 cr v) = 20" and "ExtractDestination cr script = Some d"
  shows "destination_ok d"
proof -
  obtain type sols where s: "Solver script TX_NONSTANDARD = (True, type, sols)"
    using assms(2) by (auto simp: ExtractDestination_def split: prod.splits if_splits)
  then show ?thesis
  proof (cases rule: Solver_cases)
    case p2sh
    then show ?thesis using assms(2) s by (auto simp: ExtractDestination_def destination_ok_def)
  next
    case witness
    then obtain version program where w: "IsWitnessProgram script = Some (version, program)"
      "type = TX_WITNESS_V0_KEYHASH \<and> length program = 20 \<and> sols = [program] \<or>
       type = TX_WITNESS_V0_SCRIPTHASH \<and> length program = 32 \<and> sols = [program] \<or>
       type = TX_WITNESS_UNKNOWN \<and> version \<noteq> 0 \<and> sols = [[of_nat version], program]"
      unfolding solved_witness_def by blast
    note IsWitnessProgram_type [OF w(1)]
    with w(2) show ?thesis using assms(2) s
      by (elim disjE) (auto simp: ExtractDestination_def destination_ok_def unat_of_nat)
  next
    case data
    then show ?thesis using assms(2) s by (simp add: ExtractDestination_def)
  next
    case scan
    show ?thesis using scan_templates_type [OF scan] assms s
      by (elim disjE) (auto simp: ExtractDestination_def destination_ok_def CPubKey_GetID_def CHash160_def Let_def split: if_split_asm)
  qed
qed

section \<open>Multisignature scripts\<close>

abbreviation key_bytes :: "bytes \<Rightarrow> bytes" where
  "key_bytes key \<equiv> take (CPubKey_size key) key"

definition key_ok :: "bytes \<Rightarrow> bool" where
  "key_ok key \<longleftrightarrow> length key = 65 \<and> CPubKey_IsValid key"

lemma key_size: "key_ok key \<Longrightarrow> CPubKey_size key = 33 \<or> CPubKey_size key = 65"
  by (auto simp: key_ok_def CPubKey_IsValid_def CPubKey_size_def GetLen_def split: if_splits)

lemma key_bytes_length: "key_ok key \<Longrightarrow> length (key_bytes key) = CPubKey_size key"
  using key_size [of key] by (auto simp: key_ok_def)

lemma GetOp_key: "key_ok key \<Longrightarrow> GetOp (push_data [] (key_bytes key) @ rest) = (True, push_opcode_for (key_bytes key), key_bytes key, rest)"
  using key_bytes_length [of key] key_size [of key] by (intro GetOp_push_data) auto

lemma take_pubkeys_keys:
  assumes "list_all key_ok keys" and "key_ok key" and "GetOp rest = (True, opcode2, [], rest')"
  shows "take_pubkeys opcode (key_bytes key) (concat (map (\<lambda>k. push_data [] (key_bytes k)) keys) @ rest) sols =
    (sols @ key_bytes key # map key_bytes keys, opcode2, [], rest')"
  using assms(1,2)
proof (induction keys arbitrary: key opcode sols)
  case Nil
  then have "33 \<le> length (key_bytes key)" "length (key_bytes key) \<le> 65" using key_bytes_length key_size by fastforce+
  then show ?case using assms(3) by (subst take_pubkeys.simps) (simp add: take_pubkeys.simps [of _ "[]"])
next
  case (Cons k keys)
  then have "33 \<le> length (key_bytes key)" "length (key_bytes key) \<le> 65" using key_bytes_length key_size by fastforce+
  then show ?case using Cons GetOp_key [of k] by (subst take_pubkeys.simps) simp
qed

lemma fold_push: "fold (\<lambda>k script. push_data script (f k)) keys script = script @ concat (map (\<lambda>k. push_data [] (f k)) keys)"
proof (induction keys arbitrary: script)
  case (Cons k keys)
  then show ?case by (simp add: push_data_append [of script])
qed simp

lemma match_multisig:
  assumes "list_all key_ok (key # keys)" and "DecodeOP_N m = Some m'" and "DecodeOP_N n = Some n'"
    and "OP_1 \<le> m" "m \<le> OP_16" "OP_1 \<le> n" "n \<le> OP_16"
  shows "match_template (of_nat m # concat (map (\<lambda>k. push_data [] (key_bytes k)) (key # keys)) @ [of_nat n, 0xae])
     [0xfa, 0xfb, 0xfa, 0xae] [] = Some ([of_nat m'] # map key_bytes (key # keys) @ [[of_nat n']])"
proof -
  let ?ks = "\<lambda>keys. concat (map (\<lambda>k. push_data [] (key_bytes k)) keys)"
  have g: "GetOp (of_nat m # ?ks (key # keys) @ [of_nat n, 0xae]) = (True, m, [], ?ks (key # keys) @ [of_nat n, 0xae])"
    "GetOp [of_nat n, 0xae] = (True, n, [], [0xae])"
    using assms(4-7) by (simp_all add: GetOp_byte)
  have k: "GetOp (?ks (key # keys) @ [of_nat n, 0xae]) =
      (True, push_opcode_for (key_bytes key), key_bytes key, ?ks keys @ [of_nat n, 0xae])"
    using GetOp_key [of key] assms(1) by simp
  have t: "take_pubkeys (push_opcode_for (key_bytes key)) (key_bytes key) (?ks keys @ [of_nat n, 0xae]) [[of_nat m']] =
      ([[of_nat m']] @ key_bytes key # map key_bytes keys, n, [], [0xae])"
    using assms(1) g(2) by (intro take_pubkeys_keys) simp_all
  have "match_template (?ks (key # keys) @ [of_nat n, 0xae]) [0xfb, 0xfa, 0xae] [[of_nat m']] =
      Some ([of_nat m'] # map key_bytes (key # keys) @ [[of_nat n']])"
    unfolding match_template_keys [OF template_ops(8,9)] k
    using t assms(3) by (simp add: match_op_iff match_template_step template_ops match_template_end)
  then show ?thesis
    using assms(2) by (simp add: match_template_step [OF template_ops(7)] g(1) match_op_iff del: list.map concat.simps)
qed

lemma multisig_first:
  assumes "key_ok key"
  shows "\<exists>rest. concat (map (\<lambda>k. push_data [] (key_bytes k)) (key # keys)) = of_nat (CPubKey_size key) # rest \<and>
     CPubKey_size key \<le> length rest"
  using key_bytes_length [OF assms] key_size [OF assms] by (auto simp: push_data_def)

lemma Solver_multisig:
  assumes "list_all key_ok keys" and "1 \<le> m" and "m \<le> length keys" and "length keys \<le> 16"
  shows "\<exists>s. GetScriptForMultisig (int m) keys = Some s \<and>
    Solver s t = (True, TX_MULTISIG, [of_nat m] # map key_bytes keys @ [[of_nat (length keys)]])"
proof -
  obtain key ks where keys: "keys = key # ks" using assms(2,3) by (cases keys) auto
  obtain a where a: "EncodeOP_N (int m) = Some a" "DecodeOP_N a = Some m" "OP_1 \<le> a" "a \<le> OP_16"
    using DecodeOP_N_Encode [of "int m"] assms(2-4) by auto
  obtain b where b: "EncodeOP_N (int (length keys)) = Some b" "DecodeOP_N b = Some (length keys)" "OP_1 \<le> b" "b \<le> OP_16"
    using DecodeOP_N_Encode [of "int (length keys)"] assms(2-4) by auto
  let ?c = "concat (map (\<lambda>k. push_data [] (key_bytes k)) keys)"
  let ?s = "of_nat a # ?c @ [of_nat b, 0xae]"
  have s: "GetScriptForMultisig (int m) keys = Some ?s"
    by (simp add: GetScriptForMultisig_def a b fold_push Let_def push_opcode_def)
  have ua: "unat (of_nat a :: u8) = a" using a(4) by (simp add: unat_of_nat)
  obtain rest where c: "?c = of_nat (CPubKey_size key) # rest" "CPubKey_size key \<le> length rest"
    using multisig_first [of key ks] assms(1) keys by auto
  have "unat (of_nat (CPubKey_size key) :: u8) = CPubKey_size key"
    using key_size [of key] assms(1) keys by (auto simp: unat_of_nat)
  then have w: "IsWitnessProgram ?s = None" using c by (simp add: IsWitnessProgram_def)
  have g: "GetOp ?s = (True, a, [], ?c @ [of_nat b, 0xae])" using a(3,4) by (simp add: GetOp_byte)
  have "match_template ?s [0xfe, 0xac] [] = None" "match_template ?s [0x76, 0xa9, 0xfd, 0x88, 0xac] [] = None"
    using a(4) by (simp_all add: match_pubkey match_pubkeyhash g not_Some_eq [symmetric] del: not_Some_eq)
  moreover have "match_template ?s [0xfa, 0xfb, 0xfa, 0xae] [] =
      Some ([of_nat m] # map key_bytes keys @ [[of_nat (length keys)]])"
    using match_multisig [of key ks a m b "length keys"] a b assms(1) keys by simp
  ultimately have "scan_templates ?s mTemplates = (True, TX_MULTISIG, [of_nat m] # map key_bytes keys @ [[of_nat (length keys)]])"
    using assms(2-4) by (auto simp: mTemplates_bytes unat_of_nat)
  moreover have "\<not> IsPayToScriptHash ?s" "unat (?s ! 0) \<noteq> OP_RETURN"
    using a(4) ua by (auto simp: IsPayToScriptHash_def)
  ultimately have "Solver ?s t = (True, TX_MULTISIG, [of_nat m] # map key_bytes keys @ [[of_nat (length keys)]])"
    using w by (simp add: Solver_def)
  then show ?thesis using s by blast
qed

lemma CPubKey_key_bytes:
  assumes "key_ok key"
  shows "CPubKey_IsValid (CPubKey (key_bytes key))" "CPubKey_GetID cr (CPubKey (key_bytes key)) = CPubKey_GetID cr key"
proof -
  have l: "length (key_bytes key) = CPubKey_size key" "CPubKey_size key \<noteq> 0" "key \<noteq> []"
    using key_bytes_length [OF assms] key_size [OF assms] assms by (auto simp: key_ok_def)
  then have k: "CPubKey (key_bytes key) = key_bytes key @ replicate (65 - CPubKey_size key) 0"
    by (auto simp: CPubKey_def CPubKey_size_def Let_def)
  have "CPubKey (key_bytes key) ! 0 = key ! 0" using l by (simp add: k nth_append)
  then have sz: "CPubKey_size (CPubKey (key_bytes key)) = CPubKey_size key" by (simp add: CPubKey_size_def)
  then show "CPubKey_IsValid (CPubKey (key_bytes key))" using l by (simp add: CPubKey_IsValid_def)
  show "CPubKey_GetID cr (CPubKey (key_bytes key)) = CPubKey_GetID cr key"
    unfolding CPubKey_GetID_def sz using l by (simp add: k)
qed

section \<open>Properties\<close>

text \<open>
  C30: Every well-formed destination has a script, and that script is recognised as this destination.
\<close>
theorem destination_roundtrip:
  assumes "destination_ok d"
  shows "\<exists>s. GetScriptForDestination d = Some s \<and> ExtractDestination cr s = Some d"
  by (rule GetScriptForDestination_ok [OF assms])

text \<open>A hash in place of RIPEMD-160.\<close>

abbreviation short_crypto :: crypto where
  "short_crypto \<equiv> \<lparr>CRIPEMD160 = \<lambda>v. replicate 20 7, CSHA1 = \<lambda>v. [], CheckLowS = \<lambda>_. True\<rparr>"

theorem destination_roundtrip_witness:
  "\<exists>s. GetScriptForDestination (WitnessUnknown 1 [7, 8]) = Some s \<and> ExtractDestination short_crypto s = Some (WitnessUnknown 1 [7, 8])"
  by (rule destination_roundtrip) (simp add: destination_ok_def)

text \<open>
  C31: Whatever script is given, a destination extracted from it is well formed: the hashes have
  their sizes, given that RIPEMD-160 returns 20 bytes, and an unknown witness program has a version
  from 1 to 16 and fits the array of 40 bytes. It is never the empty destination.
\<close>
theorem ExtractDestination_well_typed:
  assumes "\<And>v. length (CRIPEMD160 cr v) = 20" and "ExtractDestination cr script = Some d"
  shows "destination_ok d \<and> IsValidDestination d"
  using ExtractDestination_type [OF assms] by (auto simp: destination_ok_def IsValidDestination_def)

theorem ExtractDestination_well_typed_witness:
  "ExtractDestination short_crypto (p2pkh_script (replicate 20 1)) = Some (CKeyID (replicate 20 1)) \<and>
   destination_ok (CKeyID (replicate 20 1))"
proof -
  have "ExtractDestination short_crypto (p2pkh_script (replicate 20 1)) = Some (CKeyID (replicate 20 1))"
    using Solver_pubkeyhash [of "replicate 20 1"] by (simp add: ExtractDestination_def)
  then show ?thesis using ExtractDestination_well_typed [of short_crypto] by simp
qed

text \<open>
  The script of \<open>m\<close> signatures for up to 16 valid keys is recognised as a multisignature
  output with exactly these keys, and \<open>ExtractDestinations\<close> returns the identifiers of all keys in
  order and the number of signatures.
\<close>
theorem multisig_roundtrip:
  assumes "list_all key_ok keys" and "1 \<le> m" and "m \<le> length keys" and "length keys \<le> 16"
  shows "\<exists>s. GetScriptForMultisig (int m) keys = Some s \<and>
    Solver s t = (True, TX_MULTISIG, [of_nat m] # map key_bytes keys @ [[of_nat (length keys)]]) \<and>
    ExtractDestinations cr s = Some (TX_MULTISIG, map (\<lambda>key. CKeyID (CPubKey_GetID cr key)) keys, m)"
proof -
  obtain s where s: "GetScriptForMultisig (int m) keys = Some s" using Solver_multisig [OF assms] by blast
  have S: "Solver s t = (True, TX_MULTISIG, [of_nat m] # map key_bytes keys @ [[of_nat (length keys)]])" for t
    using Solver_multisig [OF assms, of t] s by auto
  have f: "filter CPubKey_IsValid (map CPubKey (map key_bytes keys)) = map CPubKey (map key_bytes keys)"
    using assms(1) CPubKey_key_bytes(1) by (auto simp: filter_id_conv list_all_iff)
  have m: "map (\<lambda>key. CKeyID (CPubKey_GetID cr key)) (map CPubKey (map key_bytes keys)) =
      map (\<lambda>key. CKeyID (CPubKey_GetID cr key)) keys"
    using assms(1) CPubKey_key_bytes(2) by (auto simp: list_all_iff)
  have b: "butlast (tl ([of_nat m] # map key_bytes keys @ [[of_nat (length keys)]])) = map key_bytes keys" by simp
  have "ExtractDestinations cr s = Some (TX_MULTISIG, map (\<lambda>key. CKeyID (CPubKey_GetID cr key)) keys, m)"
    unfolding ExtractDestinations_def S Let_def prod.case b f m
    using assms(2-4) by (auto simp: unat_of_nat)
  then show ?thesis using s S by blast
qed

theorem multisig_roundtrip_witness:
  "\<exists>s. GetScriptForMultisig 1 [2 # replicate 64 0, 4 # replicate 64 9] = Some s \<and>
    Solver s TX_NONSTANDARD = (True, TX_MULTISIG, [[1], 2 # replicate 32 0, 4 # replicate 64 9, [2]])"
  using multisig_roundtrip [of "[2 # replicate 64 0, 4 # replicate 64 9]" 1 TX_NONSTANDARD]
  by (auto simp: key_ok_def CPubKey_IsValid_def CPubKey_size_def GetLen_def)

end
