(* ===== verification/Bloom.thy ===== *)
theory Bloom
  imports Standard SipHash
begin

text \<open>
  \<^verbatim>\<open>src/src/bloom.h\<close> and \<^verbatim>\<open>src/src/bloom.cpp\<close>: the filter that a light client sets on a connection, and the
  rolling filter in which the node remembers what it has seen. The sizes that the constructors
  compute in floating point are arguments. \<open>None\<close> is a remainder by zero, for a filter without data.
\<close>

section \<open>The filter of a connection\<close>

record CBloomFilter =
  vData :: bytes
  isFull :: bool
  isEmpty :: bool
  nHashFuncs :: nat
  nTweak :: u32
  nFlags :: u8

abbreviation (input) BLOOM_UPDATE_ALL :: u8 where "BLOOM_UPDATE_ALL \<equiv> 1"
abbreviation (input) BLOOM_UPDATE_P2PUBKEY_ONLY :: u8 where "BLOOM_UPDATE_P2PUBKEY_ONLY \<equiv> 2"
abbreviation (input) BLOOM_UPDATE_MASK :: u8 where "BLOOM_UPDATE_MASK \<equiv> 3"

definition MAX_BLOOM_FILTER_SIZE :: nat where "MAX_BLOOM_FILTER_SIZE = 36000"
definition MAX_HASH_FUNCS :: nat where "MAX_HASH_FUNCS = 50"

definition CBloomFilter_default :: CBloomFilter where
  "CBloomFilter_default = \<lparr>vData = [], isFull = True, isEmpty = False, nHashFuncs = 0, nTweak = 0, nFlags = 0\<rparr>"

definition bloom_Hash :: "CBloomFilter \<Rightarrow> nat \<Rightarrow> bytes \<Rightarrow> nat option" where
  "bloom_Hash f nHashNum vDataToHash =
     (if vData f = [] then None
      else Some (unat (MurmurHash3 (of_nat nHashNum * 0xFBA4C795 + nTweak f) vDataToHash) mod (length (vData f) * 8)))"

fun bloom_insert_loop :: "CBloomFilter \<Rightarrow> nat list \<Rightarrow> bytes \<Rightarrow> CBloomFilter option" where
  "bloom_insert_loop f [] vKey = Some f"
| "bloom_insert_loop f (i # is') vKey =
     (case bloom_Hash f i vKey of
        None \<Rightarrow> None
      | Some nIndex \<Rightarrow>
          bloom_insert_loop
            (f\<lparr>vData := (vData f)[nIndex div 8 := vData f ! (nIndex div 8) OR push_bit (nIndex mod 8) 1]\<rparr>) is' vKey)"

definition bloom_insert :: "CBloomFilter \<Rightarrow> bytes \<Rightarrow> CBloomFilter option" where
  "bloom_insert f vKey =
     (if isFull f then Some f
      else map_option (\<lambda>f. f\<lparr>isEmpty := False\<rparr>) (bloom_insert_loop f [0..<nHashFuncs f] vKey))"

definition bloom_insert_outpoint :: "CBloomFilter \<Rightarrow> COutPoint \<Rightarrow> CBloomFilter option" where
  "bloom_insert_outpoint f outpoint = bloom_insert f (ser_outpoint outpoint)"

fun bloom_contains_loop :: "CBloomFilter \<Rightarrow> nat list \<Rightarrow> bytes \<Rightarrow> bool option" where
  "bloom_contains_loop f [] vKey = Some True"
| "bloom_contains_loop f (i # is') vKey =
     (case bloom_Hash f i vKey of
        None \<Rightarrow> None
      | Some nIndex \<Rightarrow>
          if vData f ! (nIndex div 8) AND push_bit (nIndex mod 8) 1 = 0 then Some False
          else bloom_contains_loop f is' vKey)"

definition bloom_contains :: "CBloomFilter \<Rightarrow> bytes \<Rightarrow> bool option" where
  "bloom_contains f vKey =
     (if isFull f then Some True else if isEmpty f then Some False
      else bloom_contains_loop f [0..<nHashFuncs f] vKey)"

definition bloom_contains_outpoint :: "CBloomFilter \<Rightarrow> COutPoint \<Rightarrow> bool option" where
  "bloom_contains_outpoint f outpoint = bloom_contains f (ser_outpoint outpoint)"

definition bloom_clear :: "CBloomFilter \<Rightarrow> CBloomFilter" where
  "bloom_clear f = f\<lparr>vData := replicate (length (vData f)) 0, isFull := False, isEmpty := True\<rparr>"

definition bloom_reset :: "CBloomFilter \<Rightarrow> u32 \<Rightarrow> CBloomFilter" where
  "bloom_reset f nNewTweak = (bloom_clear f)\<lparr>nTweak := nNewTweak\<rparr>"

definition IsWithinSizeConstraints :: "CBloomFilter \<Rightarrow> bool" where
  "IsWithinSizeConstraints f \<longleftrightarrow> length (vData f) \<le> MAX_BLOOM_FILTER_SIZE \<and> nHashFuncs f \<le> MAX_HASH_FUNCS"

definition UpdateEmptyFull :: "CBloomFilter \<Rightarrow> CBloomFilter" where
  "UpdateEmptyFull f = f\<lparr>isFull := list_all (\<lambda>b. b = 0xff) (vData f), isEmpty := list_all (\<lambda>b. b = 0) (vData f)\<rparr>"

section \<open>Relevant transactions\<close>

text \<open>The loop over the data that a script pushes: whether some of it is in the filter.\<close>

function script_match :: "CBloomFilter \<Rightarrow> bytes \<Rightarrow> bool option" where
  "script_match f pc =
     (if pc = [] then Some False
      else case GetOp pc of (ok, opcode, data, pc') \<Rightarrow>
        if \<not> ok then Some False
        else if data = [] then script_match f pc'
        else case bloom_contains f data of
          None \<Rightarrow> None
        | Some found \<Rightarrow> if found then Some True else script_match f pc')"
  by pat_completeness auto
termination
  by (relation "measure (\<lambda>(f, pc). length pc)") (auto dest: GetOp_ok_shorter [OF sym])

declare script_match.simps [simp del]

definition bloom_update :: "CBloomFilter \<Rightarrow> bytes \<Rightarrow> COutPoint \<Rightarrow> CBloomFilter option" where
  "bloom_update f script outpoint =
     (if nFlags f AND BLOOM_UPDATE_MASK = BLOOM_UPDATE_ALL then bloom_insert_outpoint f outpoint
      else if nFlags f AND BLOOM_UPDATE_MASK = BLOOM_UPDATE_P2PUBKEY_ONLY then
        (case Solver script TX_NONSTANDARD of (ok, type, vSolutions) \<Rightarrow>
           if ok \<and> (type = TX_PUBKEY \<or> type = TX_MULTISIG) then bloom_insert_outpoint f outpoint else Some f)
      else Some f)"

fun relevant_outputs :: "uint256 \<Rightarrow> nat \<Rightarrow> TxOut list \<Rightarrow> bool \<Rightarrow> CBloomFilter \<Rightarrow> (bool \<times> CBloomFilter) option" where
  "relevant_outputs hash i [] fFound f = Some (fFound, f)"
| "relevant_outputs hash i (txout # outs) fFound f =
     (case script_match f (scriptPubKey txout) of
        None \<Rightarrow> None
      | Some found \<Rightarrow>
          if found
          then (case bloom_update f (scriptPubKey txout) \<lparr>op_hash = hash, op_n = of_nat i\<rparr> of
                  None \<Rightarrow> None
                | Some f \<Rightarrow> relevant_outputs hash (i + 1) outs True f)
          else relevant_outputs hash (i + 1) outs fFound f)"

fun relevant_inputs :: "CBloomFilter \<Rightarrow> TxIn list \<Rightarrow> bool option" where
  "relevant_inputs f [] = Some False"
| "relevant_inputs f (txin # ins) =
     (case bloom_contains_outpoint f (prevout txin) of
        None \<Rightarrow> None
      | Some found \<Rightarrow>
          if found then Some True
          else case script_match f (scriptSig txin) of
            None \<Rightarrow> None
          | Some found \<Rightarrow> if found then Some True else relevant_inputs f ins)"

definition IsRelevantAndUpdate :: "CBloomFilter \<Rightarrow> Transaction \<Rightarrow> (bool \<times> CBloomFilter) option" where
  "IsRelevantAndUpdate f tx =
     (if isFull f then Some (True, f)
      else if isEmpty f then Some (False, f)
      else let hash = ComputeHash tx
           in case bloom_contains f hash of
                None \<Rightarrow> None
              | Some found \<Rightarrow>
                  (case relevant_outputs hash 0 (vout tx) found f of
                     None \<Rightarrow> None
                   | Some (fFound, f) \<Rightarrow>
                       if fFound then Some (True, f) else map_option (\<lambda>r. (r, f)) (relevant_inputs f (vin tx))))"

section \<open>The rolling filter\<close>

record CRollingBloomFilter =
  nEntriesPerGeneration :: nat
  nEntriesThisGeneration :: nat
  nGeneration :: nat
  rb_data :: "u64 list"
  rb_nTweak :: u32
  rb_nHashFuncs :: nat

text \<open>\<open>random\<close> is the number that \<open>reset\<close> draws.\<close>

definition rolling_reset :: "CRollingBloomFilter \<Rightarrow> u32 \<Rightarrow> CRollingBloomFilter" where
  "rolling_reset f random =
     f\<lparr>rb_nTweak := random, nEntriesThisGeneration := 0, nGeneration := 1, rb_data := replicate (length (rb_data f)) 0\<rparr>"

definition CRollingBloomFilter_ctor :: "nat \<Rightarrow> nat \<Rightarrow> nat \<Rightarrow> u32 \<Rightarrow> CRollingBloomFilter" where
  "CRollingBloomFilter_ctor nElements hashFuncs nFilterBits random =
     rolling_reset
       \<lparr>nEntriesPerGeneration = (nElements + 1) mod 2 ^ 32 div 2, nEntriesThisGeneration = 0, nGeneration = 0,
        rb_data = replicate ((nFilterBits + 63) mod 2 ^ 32 div 64 * 2) 0, rb_nTweak = 0, rb_nHashFuncs = hashFuncs\<rparr> random"

definition RollingBloomHash :: "nat \<Rightarrow> u32 \<Rightarrow> bytes \<Rightarrow> u32" where
  "RollingBloomHash nHashNum tweak vDataToHash = MurmurHash3 (of_nat nHashNum * 0xFBA4C795 + tweak) vDataToHash"

text \<open>The integer at \<open>pos & ~1\<close> and the one behind it, and the bit in them, for one hash.\<close>

definition rolling_slot :: "CRollingBloomFilter \<Rightarrow> nat \<Rightarrow> bytes \<Rightarrow> (nat \<times> nat) option" where
  "rolling_slot f n vKey =
     (let h = RollingBloomHash n (rb_nTweak f) vKey
      in if rb_data f = [] then None
         else Some (unat (drop_bit 6 h) mod length (rb_data f) div 2 * 2, unat (h AND 0x3F)))"

text \<open>Wiping a generation, by pairs of integers; an odd number of them would be read out of range.\<close>

fun rolling_wipe :: "u64 \<Rightarrow> u64 \<Rightarrow> u64 list \<Rightarrow> u64 list option" where
  "rolling_wipe mask1 mask2 (p1 # p2 # rest) =
     (let mask = (p1 XOR mask1) OR (p2 XOR mask2)
      in map_option (\<lambda>rest. (p1 AND mask) # (p2 AND mask) # rest) (rolling_wipe mask1 mask2 rest))"
| "rolling_wipe mask1 mask2 [] = Some []"
| "rolling_wipe mask1 mask2 [p1] = None"

definition rolling_next :: "CRollingBloomFilter \<Rightarrow> CRollingBloomFilter option" where
  "rolling_next f =
     (if nEntriesThisGeneration f = nEntriesPerGeneration f then
        let g = (if nGeneration f + 1 = 4 then 1 else nGeneration f + 1);
            nGenerationMask1 = 0 - of_nat (g mod 2);
            nGenerationMask2 = 0 - of_nat (g div 2)
        in map_option (\<lambda>d. f\<lparr>nEntriesThisGeneration := 0, nGeneration := g, rb_data := d\<rparr>)
             (rolling_wipe nGenerationMask1 nGenerationMask2 (rb_data f))
      else Some f)"

fun rolling_insert_loop :: "CRollingBloomFilter \<Rightarrow> nat list \<Rightarrow> bytes \<Rightarrow> CRollingBloomFilter option" where
  "rolling_insert_loop f [] vKey = Some f"
| "rolling_insert_loop f (n # ns) vKey =
     (case rolling_slot f n vKey of
        None \<Rightarrow> None
      | Some (pos, b) \<Rightarrow>
          let d = rb_data f;
              d = d[pos := d ! pos AND NOT (push_bit b 1) OR push_bit b (of_nat (nGeneration f mod 2))];
              d = d[pos + 1 := d ! (pos + 1) AND NOT (push_bit b 1) OR push_bit b (of_nat (nGeneration f div 2))]
          in rolling_insert_loop (f\<lparr>rb_data := d\<rparr>) ns vKey)"

definition rolling_insert :: "CRollingBloomFilter \<Rightarrow> bytes \<Rightarrow> CRollingBloomFilter option" where
  "rolling_insert f vKey =
     (case rolling_next f of
        None \<Rightarrow> None
      | Some f \<Rightarrow>
          rolling_insert_loop (f\<lparr>nEntriesThisGeneration := nEntriesThisGeneration f + 1\<rparr>) [0..<rb_nHashFuncs f] vKey)"

fun rolling_contains_loop :: "CRollingBloomFilter \<Rightarrow> nat list \<Rightarrow> bytes \<Rightarrow> bool option" where
  "rolling_contains_loop f [] vKey = Some True"
| "rolling_contains_loop f (n # ns) vKey =
     (case rolling_slot f n vKey of
        None \<Rightarrow> None
      | Some (pos, b) \<Rightarrow>
          if drop_bit b (rb_data f ! pos OR rb_data f ! (pos + 1)) AND 1 = 0 then Some False
          else rolling_contains_loop f ns vKey)"

definition rolling_contains :: "CRollingBloomFilter \<Rightarrow> bytes \<Rightarrow> bool option" where
  "rolling_contains f vKey = rolling_contains_loop f [0..<rb_nHashFuncs f] vKey"

end
