(* ===== verification/Bloom_Props.thy ===== *)
theory Bloom_Props
  imports Bloom
begin

text \<open>
  The filter of a connection has no false negatives and follows the outputs it matches, and the rolling
  filter remembers at least as many insertions as it was made for.
\<close>

section \<open>No false negatives\<close>

definition bit_at :: "bytes \<Rightarrow> nat \<Rightarrow> bool" where
  "bit_at v k = bit (v ! (k div 8)) (k mod 8)"

definition usable :: "CBloomFilter \<Rightarrow> bool" where
  "usable f \<longleftrightarrow> vData f \<noteq> [] \<or> isFull f"

lemma bloom_Hash_bound: "bloom_Hash f i key = Some k \<Longrightarrow> k < length (vData f) * 8"
  by (auto simp: bloom_Hash_def split: if_splits)

lemma bloom_Hash_Some: "vData f \<noteq> [] \<Longrightarrow> \<exists>k. bloom_Hash f i key = Some k"
  by (simp add: bloom_Hash_def)

lemma bloom_Hash_cong: "length v = length (vData f) \<Longrightarrow> bloom_Hash (f\<lparr>vData := v\<rparr>) i key = bloom_Hash f i key"
  by (cases "vData f"; cases v) (simp_all add: bloom_Hash_def)

lemma bit_at_set:
  assumes "n < length v * 8"
  shows "bit_at (v[n div 8 := v ! (n div 8) OR push_bit (n mod 8) 1]) k \<longleftrightarrow> bit_at v k \<or> k = n"
proof (cases "k div 8 = n div 8")
  case True
  have "n div 8 < length v" using assms by linarith
  moreover have "bit (push_bit (n mod 8) 1 :: u8) (k mod 8) \<longleftrightarrow> k mod 8 = n mod 8" by (auto simp: bit_exp_iff)
  moreover have "k mod 8 = n mod 8 \<longleftrightarrow> k = n" using True by (metis div_mult_mod_eq)
  ultimately show ?thesis using True by (simp add: bit_at_def bit_or_iff)
next
  case False
  then show ?thesis by (auto simp: bit_at_def)
qed

lemma bloom_test: "v ! (k div 8) AND 2 ^ (k mod 8) = 0 \<longleftrightarrow> \<not> bit_at v k"
  by (simp add: bit_at_def and_exp_eq_0_iff_not_bit)

lemma bloom_insert_loop_ok:
  "vData f \<noteq> [] \<Longrightarrow> \<exists>v. bloom_insert_loop f ns key = Some (f\<lparr>vData := v\<rparr>) \<and> length v = length (vData f) \<and>
     (\<forall>k. bit_at v k \<longleftrightarrow> bit_at (vData f) k \<or> (\<exists>i \<in> set ns. bloom_Hash f i key = Some k))"
proof (induction ns arbitrary: f)
  case (Cons i ns)
  obtain n where n: "bloom_Hash f i key = Some n" using bloom_Hash_Some [OF Cons.prems] by blast
  let ?u = "(vData f)[n div 8 := vData f ! (n div 8) OR push_bit (n mod 8) 1]"
  let ?g = "f\<lparr>vData := ?u\<rparr>"
  have "vData ?g \<noteq> []" using Cons.prems by simp
  from Cons.IH [OF this] obtain v where v: "bloom_insert_loop ?g ns key = Some (?g\<lparr>vData := v\<rparr>)" "length v = length ?u"
    "\<forall>k. bit_at v k \<longleftrightarrow> bit_at ?u k \<or> (\<exists>i \<in> set ns. bloom_Hash ?g i key = Some k)" by auto
  moreover have "bloom_Hash ?g j key = bloom_Hash f j key" for j by (rule bloom_Hash_cong) simp
  ultimately show ?case using n bit_at_set [OF bloom_Hash_bound [OF n]] by (intro exI [of _ v]) auto
qed (metis bloom_insert_loop.simps(1) CBloomFilter.surjective CBloomFilter.update_convs(1) empty_iff empty_set)

lemma bloom_contains_loop_ok:
  "vData f \<noteq> [] \<Longrightarrow>
     bloom_contains_loop f ns key = Some (\<forall>i \<in> set ns. \<forall>k. bloom_Hash f i key = Some k \<longrightarrow> bit_at (vData f) k)"
proof (induction ns)
  case (Cons i ns)
  obtain n where n: "bloom_Hash f i key = Some n" using bloom_Hash_Some [OF Cons.prems] by blast
  then show ?case using Cons by (auto simp: bloom_test)
qed simp

lemma bloom_contains_total: "usable f \<Longrightarrow> \<exists>b. bloom_contains f key = Some b"
  by (auto simp: usable_def bloom_contains_def bloom_contains_loop_ok)

text \<open>A later state of a filter: whatever it contained it still contains.\<close>

definition grows :: "CBloomFilter \<Rightarrow> CBloomFilter \<Rightarrow> bool" where
  "grows f f' \<longleftrightarrow> usable f' \<and> nFlags f' = nFlags f \<and>
     (\<forall>key. bloom_contains f key = Some True \<longrightarrow> bloom_contains f' key = Some True)"

lemma grows_refl: "usable f \<Longrightarrow> grows f f"
  by (simp add: grows_def)

lemma grows_trans: "grows f g \<Longrightarrow> grows g h \<Longrightarrow> grows f h"
  by (simp add: grows_def)

lemma bloom_insert_ok:
  assumes "usable f"
  shows "\<exists>f'. bloom_insert f key = Some f' \<and> bloom_contains f' key = Some True \<and> grows f f'"
proof (cases "isFull f")
  case True
  then show ?thesis using grows_refl [OF assms] by (simp add: bloom_insert_def bloom_contains_def)
next
  case False
  then have ne: "vData f \<noteq> []" using assms by (simp add: usable_def)
  obtain v where v: "bloom_insert_loop f [0..<nHashFuncs f] key = Some (f\<lparr>vData := v\<rparr>)" "length v = length (vData f)"
    "\<forall>k. bit_at v k \<longleftrightarrow> bit_at (vData f) k \<or> (\<exists>i \<in> set [0..<nHashFuncs f]. bloom_Hash f i key = Some k)"
    using bloom_insert_loop_ok [OF ne] by blast
  let ?g = "f\<lparr>vData := v, isEmpty := False\<rparr>"
  have "v \<noteq> []" using ne v(2) by auto
  have h: "bloom_Hash ?g i k = bloom_Hash f i k" for i k
    using ne v(2) \<open>v \<noteq> []\<close> by (simp add: bloom_Hash_def)
  with \<open>v \<noteq> []\<close> have c: "bloom_contains ?g k = Some (\<forall>i \<in> set [0..<nHashFuncs f]. \<forall>n. bloom_Hash f i k = Some n \<longrightarrow> bit_at v n)" for k
    using False by (simp add: bloom_contains_def bloom_contains_loop_ok)
  have "bloom_contains ?g key = Some True" using v(3) c [of key] by auto
  moreover have "bloom_contains ?g k = Some True" if "bloom_contains f k = Some True" for k
    using that False v(3) ne c [of k] by (auto simp: bloom_contains_def bloom_contains_loop_ok split: if_splits)
  ultimately have "grows f ?g" using \<open>v \<noteq> []\<close> by (simp add: grows_def usable_def)
  then show ?thesis using False v(1) \<open>bloom_contains ?g key = Some True\<close> by (simp add: bloom_insert_def)
qed

section \<open>Relevant transactions\<close>

text \<open>The data that a script pushes, up to the first opcode that cannot be read.\<close>

function script_pushes :: "bytes \<Rightarrow> bytes list" where
  "script_pushes pc =
     (if pc = [] then []
      else case GetOp pc of (ok, opcode, data, pc') \<Rightarrow> if ok then data # script_pushes pc' else [])"
  by pat_completeness auto
termination
  by (relation "measure length") (auto dest: GetOp_ok_shorter [OF sym])

declare script_pushes.simps [simp del]

lemma script_match_ok:
  "usable f \<Longrightarrow> script_match f pc = Some (\<exists>data \<in> set (script_pushes pc). data \<noteq> [] \<and> bloom_contains f data = Some True)"
proof (induction f pc rule: script_match.induct)
  case (1 f pc)
  show ?case
  proof (cases "pc = []")
    case False
    obtain ok opcode data pc' where g: "GetOp pc = (ok, opcode, data, pc')" by (metis prod_cases4)
    obtain b where b: "bloom_contains f data = Some b" using bloom_contains_total [OF 1(3)] by blast
    show ?thesis using False 1 g b
      by (subst script_match.simps, subst script_pushes.simps) (auto split: if_splits)
  qed (simp add: script_match.simps script_pushes.simps)
qed

lemma bloom_update_ok:
  assumes "usable f"
  shows "\<exists>f'. bloom_update f script p = Some f' \<and> grows f f' \<and>
    (nFlags f AND BLOOM_UPDATE_MASK = BLOOM_UPDATE_ALL \<longrightarrow> bloom_contains_outpoint f' p = Some True)"
  using bloom_insert_ok [OF assms, of "ser_outpoint p"] grows_refl [OF assms]
  by (auto simp: bloom_update_def bloom_insert_outpoint_def bloom_contains_outpoint_def split: prod.splits)

lemma relevant_outputs_ok:
  "usable f \<Longrightarrow> \<exists>r f'. relevant_outputs hash i outs found f = Some (r, f') \<and> grows f f' \<and> (found \<longrightarrow> r) \<and>
    (\<forall>j < length outs. (\<exists>data \<in> set (script_pushes (scriptPubKey (outs ! j))). data \<noteq> [] \<and> bloom_contains f data = Some True) \<longrightarrow>
       r \<and> (nFlags f AND BLOOM_UPDATE_MASK = BLOOM_UPDATE_ALL \<longrightarrow>
            bloom_contains_outpoint f' \<lparr>op_hash = hash, op_n = of_nat (i + j)\<rparr> = Some True))"
proof (induction outs arbitrary: i found f)
  case Nil
  then show ?case by (simp add: grows_refl)
next
  case (Cons out outs)
  define hit where "hit f out \<longleftrightarrow> (\<exists>data \<in> set (script_pushes (scriptPubKey out)). data \<noteq> [] \<and> bloom_contains f data = Some True)" for f and out :: TxOut
  have mono: "grows f g \<Longrightarrow> hit f out \<Longrightarrow> hit g out" for f g out unfolding hit_def grows_def by blast
  obtain g where g: "grows f g" "hit f out \<longrightarrow> bloom_update f (scriptPubKey out) \<lparr>op_hash = hash, op_n = of_nat i\<rparr> = Some g"
    "\<not> hit f out \<longrightarrow> g = f" "hit f out \<longrightarrow> nFlags f AND BLOOM_UPDATE_MASK = BLOOM_UPDATE_ALL \<longrightarrow>
       bloom_contains_outpoint g \<lparr>op_hash = hash, op_n = of_nat i\<rparr> = Some True"
    using bloom_update_ok [OF Cons.prems, of "scriptPubKey out" "\<lparr>op_hash = hash, op_n = of_nat i\<rparr>"] grows_refl [OF Cons.prems] by blast
  have "usable g" using g(1) by (simp add: grows_def)
  from Cons.IH [OF this, of "i + 1" "found \<or> hit f out"] obtain r f' where r: "relevant_outputs hash (i + 1) outs (found \<or> hit f out) g = Some (r, f')"
    "grows g f'" "found \<or> hit f out \<longrightarrow> r"
    "\<And>j. j < length outs \<Longrightarrow> hit g (outs ! j) \<Longrightarrow> r \<and> (nFlags g AND BLOOM_UPDATE_MASK = BLOOM_UPDATE_ALL \<longrightarrow>
            bloom_contains_outpoint f' \<lparr>op_hash = hash, op_n = of_nat (i + 1 + j)\<rparr> = Some True)"
    unfolding hit_def by blast
  have fl: "nFlags g = nFlags f" using g(1) by (simp add: grows_def)
  have "relevant_outputs hash i (out # outs) found f = Some (r, f')"
    using r(1) g(2,3) script_match_ok [OF Cons.prems, of "scriptPubKey out", folded hit_def] by (cases "hit f out") simp_all
  moreover have "r \<and> (nFlags f AND BLOOM_UPDATE_MASK = BLOOM_UPDATE_ALL \<longrightarrow>
      bloom_contains_outpoint f' \<lparr>op_hash = hash, op_n = of_nat (i + j)\<rparr> = Some True)"
    if "j < length (out # outs)" "hit f ((out # outs) ! j)" for j
  proof (cases j)
    case 0
    then show ?thesis using that g(4) r(2,3) by (auto simp: grows_def bloom_contains_outpoint_def)
  next
    case (Suc k)
    then show ?thesis using that r(4) [of k] mono [OF g(1)] fl by simp
  qed
  ultimately show ?case using grows_trans [OF g(1) r(2)] r(3) unfolding hit_def by blast
qed

lemma relevant_inputs_ok:
  "usable f \<Longrightarrow> txin \<in> set ins \<Longrightarrow> bloom_contains_outpoint f (prevout txin) = Some True \<Longrightarrow> relevant_inputs f ins = Some True"
proof (induction ins)
  case (Cons t ins)
  obtain b where b: "bloom_contains_outpoint f (prevout t) = Some b"
    using bloom_contains_total [OF Cons.prems(1)] by (auto simp: bloom_contains_outpoint_def)
  then show ?case using Cons script_match_ok [OF Cons.prems(1), of "scriptSig t"] by (cases b) auto
qed simp

lemma not_empty: "bloom_contains f key = Some True \<Longrightarrow> isFull f \<or> \<not> isEmpty f"
  by (auto simp: bloom_contains_def split: if_splits)

lemma IsRelevantAndUpdate_spend:
  assumes "usable f" and "bloom_contains_outpoint f (prevout txin) = Some True" and "txin \<in> set (vin tx)"
  shows "\<exists>f'. IsRelevantAndUpdate f tx = Some (True, f')"
proof -
  obtain b where b: "bloom_contains f (ComputeHash tx) = Some b" using bloom_contains_total [OF assms(1)] by blast
  obtain r f' where r: "relevant_outputs (ComputeHash tx) 0 (vout tx) b f = Some (r, f')" "grows f f'"
    using relevant_outputs_ok [OF assms(1)] by meson
  have "relevant_inputs f' (vin tx) = Some True"
    using r(2) assms(2,3) relevant_inputs_ok [of f' txin "vin tx"] by (simp add: grows_def bloom_contains_outpoint_def)
  then show ?thesis using b r not_empty assms(2)
    by (cases r) (auto simp: IsRelevantAndUpdate_def bloom_contains_outpoint_def)
qed

lemma IsRelevantAndUpdate_output:
  assumes "usable f" and "bloom_contains f data = Some True" and "i < length (vout tx)" and "data \<noteq> []"
    and "data \<in> set (script_pushes (scriptPubKey (vout tx ! i)))"
  shows "\<exists>f'. IsRelevantAndUpdate f tx = Some (True, f') \<and> grows f f' \<and>
    (nFlags f AND BLOOM_UPDATE_MASK = BLOOM_UPDATE_ALL \<longrightarrow>
       bloom_contains_outpoint f' \<lparr>op_hash = ComputeHash tx, op_n = of_nat i\<rparr> = Some True)"
proof (cases "isFull f")
  case True
  then show ?thesis using grows_refl [OF assms(1)]
    by (simp add: IsRelevantAndUpdate_def bloom_contains_outpoint_def bloom_contains_def)
next
  case False
  obtain b where b: "bloom_contains f (ComputeHash tx) = Some b" using bloom_contains_total [OF assms(1)] by blast
  have "\<exists>f'. relevant_outputs (ComputeHash tx) 0 (vout tx) b f = Some (True, f') \<and> grows f f' \<and>
      (nFlags f AND BLOOM_UPDATE_MASK = BLOOM_UPDATE_ALL \<longrightarrow>
         bloom_contains_outpoint f' \<lparr>op_hash = ComputeHash tx, op_n = of_nat i\<rparr> = Some True)"
    using relevant_outputs_ok [OF assms(1), of "ComputeHash tx" 0 "vout tx" b] assms(2-5) by fastforce
  then show ?thesis using b False not_empty [OF assms(2)] by (auto simp: IsRelevantAndUpdate_def)
qed

section \<open>The generations of the rolling filter\<close>

text \<open>The generation stored for bit \<open>b\<close> of the pair of integers at \<open>pos\<close>; 0 stands for none.\<close>

definition gval :: "u64 list \<Rightarrow> nat \<Rightarrow> nat \<Rightarrow> nat" where
  "gval d pos b = of_bool (bit (d ! pos) b) + 2 * of_bool (bit (d ! (pos + 1)) b)"

definition slot_ok :: "u64 list \<Rightarrow> nat \<Rightarrow> nat \<Rightarrow> bool" where
  "slot_ok d pos b \<longleftrightarrow> even pos \<and> pos + 1 < length d \<and> b < 64"

lemma gval_bits:
  assumes "1 \<le> g" and "g \<le> 3"
  shows "gval d pos b = g \<longleftrightarrow> bit (d ! pos) b = odd g \<and> bit (d ! (pos + 1)) b = (2 \<le> g)"
proof -
  have "g = 1 \<or> g = 2 \<or> g = 3" using assms by linarith
  then show ?thesis by (auto simp: gval_def)
qed

lemma generation_mask: "1 \<le> g \<Longrightarrow> g \<le> 3 \<Longrightarrow> b < 64 \<Longrightarrow> bit (0 - of_nat (g mod 2) :: u64) b = odd g \<and> bit (0 - of_nat (g div 2) :: u64) b = (2 \<le> g)"
proof -
  assume "1 \<le> g" "g \<le> 3" "b < 64"
  then have "g = 1 \<or> g = 2 \<or> g = 3" by linarith
  then show ?thesis using \<open>b < 64\<close> by (elim disjE) (simp_all add: bit_minus_1_iff)
qed

lemma rolling_wipe_ok:
  "even (length d) \<Longrightarrow> \<exists>d'. rolling_wipe m1 m2 d = Some d' \<and> length d' = length d \<and>
    (\<forall>pos b. slot_ok d pos b \<longrightarrow>
       (if bit (d ! pos) b = bit m1 b \<and> bit (d ! (pos + 1)) b = bit m2 b then \<not> bit (d' ! pos) b \<and> \<not> bit (d' ! (pos + 1)) b
        else bit (d' ! pos) b = bit (d ! pos) b \<and> bit (d' ! (pos + 1)) b = bit (d ! (pos + 1)) b))"
proof (induction m1 m2 d rule: rolling_wipe.induct)
  case (1 m1 m2 p1 p2 rest)
  let ?mask = "(p1 XOR m1) OR (p2 XOR m2)"
  obtain d' where d': "rolling_wipe m1 m2 rest = Some d'" "length d' = length rest"
    "\<And>pos b. slot_ok rest pos b \<Longrightarrow>
       (if bit (rest ! pos) b = bit m1 b \<and> bit (rest ! (pos + 1)) b = bit m2 b then \<not> bit (d' ! pos) b \<and> \<not> bit (d' ! (pos + 1)) b
        else bit (d' ! pos) b = bit (rest ! pos) b \<and> bit (d' ! (pos + 1)) b = bit (rest ! (pos + 1)) b)"
    using 1 by auto
  let ?e = "(p1 AND ?mask) # (p2 AND ?mask) # d'"
  have a: "if bit ((p1 # p2 # rest) ! pos) b = bit m1 b \<and> bit ((p1 # p2 # rest) ! (pos + 1)) b = bit m2 b
        then \<not> bit (?e ! pos) b \<and> \<not> bit (?e ! (pos + 1)) b
        else bit (?e ! pos) b = bit ((p1 # p2 # rest) ! pos) b \<and> bit (?e ! (pos + 1)) b = bit ((p1 # p2 # rest) ! (pos + 1)) b"
    if s: "slot_ok (p1 # p2 # rest) pos b" for pos b
  proof (cases "pos = 0")
    case True
    then show ?thesis by (auto simp: bit_and_iff bit_or_iff bit_xor_iff)
  next
    case False
    then obtain q where q: "pos = q + 2" "slot_ok rest q b"
      using s by (intro that [of "pos - 2"]) (auto simp: slot_ok_def elim: evenE)
    then show ?thesis using d'(3) [OF q(2)] by (auto split: if_split_asm)
  qed
  have e: "rolling_wipe m1 m2 (p1 # p2 # rest) = Some ?e" using d'(1) by (simp add: Let_def)
  have l: "length ?e = length (p1 # p2 # rest)" using d'(2) by simp
  show ?case by (intro exI [of _ ?e] conjI allI impI e l a)
qed (simp_all add: slot_ok_def)

lemma wipe_generation:
  assumes "even (length d)" and "1 \<le> g" and "g \<le> 3"
  shows "\<exists>d'. rolling_wipe (0 - of_nat (g mod 2)) (0 - of_nat (g div 2)) d = Some d' \<and> length d' = length d \<and>
    (\<forall>pos b. slot_ok d pos b \<longrightarrow> gval d' pos b = (if gval d pos b = g then 0 else gval d pos b))"
proof -
  obtain d' where d': "rolling_wipe (0 - of_nat (g mod 2)) (0 - of_nat (g div 2)) d = Some d'" "length d' = length d"
    "\<And>pos b. slot_ok d pos b \<Longrightarrow>
       (if bit (d ! pos) b = bit (0 - of_nat (g mod 2) :: u64) b \<and> bit (d ! (pos + 1)) b = bit (0 - of_nat (g div 2) :: u64) b
        then \<not> bit (d' ! pos) b \<and> \<not> bit (d' ! (pos + 1)) b
        else bit (d' ! pos) b = bit (d ! pos) b \<and> bit (d' ! (pos + 1)) b = bit (d ! (pos + 1)) b)"
    using rolling_wipe_ok [OF assms(1), of "0 - of_nat (g mod 2)" "0 - of_nat (g div 2)"] by blast
  have "gval d' pos b = (if gval d pos b = g then 0 else gval d pos b)" if s: "slot_ok d pos b" for pos b
  proof -
    have "b < 64" using s by (simp add: slot_ok_def)
    note m = generation_mask [OF assms(2,3) this]
    note w = d'(3) [OF s, unfolded m [THEN conjunct1] m [THEN conjunct2]]
    show ?thesis
    proof (cases "gval d pos b = g")
      case True
      then show ?thesis using w gval_bits [OF assms(2,3), of d pos b] by (simp add: gval_def [of d'])
    next
      case False
      then have "bit (d' ! pos) b = bit (d ! pos) b \<and> bit (d' ! (pos + 1)) b = bit (d ! (pos + 1)) b"
        using w gval_bits [OF assms(2,3), of d pos b] by presburger
      then show ?thesis using False by (simp add: gval_def)
    qed
  qed
  then show ?thesis using d'(1,2) by blast
qed

definition set_slot :: "u64 list \<Rightarrow> nat \<Rightarrow> nat \<Rightarrow> nat \<Rightarrow> u64 list" where
  "set_slot d g pos b =
     (let d = d[pos := d ! pos AND NOT (push_bit b 1) OR push_bit b (of_nat (g mod 2))]
      in d[pos + 1 := d ! (pos + 1) AND NOT (push_bit b 1) OR push_bit b (of_nat (g div 2))])"

lemma bit_replace: "b < 64 \<Longrightarrow> c < 64 \<Longrightarrow>
   bit (w AND NOT (push_bit b 1) OR push_bit b (of_bool v) :: u64) c \<longleftrightarrow> (if c = b then v else bit w c)"
  by (auto simp: bit_and_iff bit_or_iff bit_not_iff bit_push_bit_iff bit_1_iff bit_exp_iff)

lemma set_slot_ok:
  assumes "slot_ok d pos b" and "1 \<le> g" and "g \<le> 3"
  shows "length (set_slot d g pos b) = length d"
    "slot_ok d p c \<Longrightarrow> gval (set_slot d g pos b) p c = (if p = pos \<and> c = b then g else gval d p c)"
proof -
  show "length (set_slot d g pos b) = length d" by (simp add: set_slot_def Let_def)
  assume s: "slot_ok d p c"
  have g: "(of_nat (g mod 2) :: u64) = of_bool (odd g)" "(of_nat (g div 2) :: u64) = of_bool (2 \<le> g)"
  proof -
    have "g = 1 \<or> g = 2 \<or> g = 3" using assms by linarith
    then show "(of_nat (g mod 2) :: u64) = of_bool (odd g)" "(of_nat (g div 2) :: u64) = of_bool (2 \<le> g)" by auto
  qed
  have b: "b < 64" "c < 64" "pos < length d" "pos + 1 < length d" using assms(1) s by (auto simp: slot_ok_def)
  show "gval (set_slot d g pos b) p c = (if p = pos \<and> c = b then g else gval d p c)"
  proof (cases "p = pos")
    case True
    then have "bit (set_slot d g pos b ! p) c = (if c = b then odd g else bit (d ! p) c)"
      "bit (set_slot d g pos b ! (p + 1)) c = (if c = b then 2 \<le> g else bit (d ! (p + 1)) c)"
      unfolding set_slot_def Let_def g using b bit_replace [OF b(1,2)] by simp_all
    then show ?thesis using True gval_bits [OF assms(2,3), of "set_slot d g pos b" p c] by (auto simp: gval_def)
  next
    case False
    moreover from this have "p \<noteq> pos + 1" "p + 1 \<noteq> pos" using assms(1) s by (auto simp: slot_ok_def)
    ultimately show ?thesis by (simp add: set_slot_def Let_def gval_def)
  qed
qed

section \<open>What the rolling filter remembers\<close>

definition rolling_ok :: "CRollingBloomFilter \<Rightarrow> bool" where
  "rolling_ok f \<longleftrightarrow> rb_data f \<noteq> [] \<and> even (length (rb_data f)) \<and> 1 \<le> nGeneration f \<and> nGeneration f \<le> 3 \<and>
     1 \<le> nEntriesPerGeneration f \<and> nEntriesThisGeneration f \<le> nEntriesPerGeneration f"

text \<open>All bits of a key belong to generations of the set \<open>S\<close>.\<close>

definition held :: "CRollingBloomFilter \<Rightarrow> nat list \<Rightarrow> bytes \<Rightarrow> nat set \<Rightarrow> bool" where
  "held f ns key S \<longleftrightarrow> (\<forall>n \<in> set ns. \<exists>pos b. rolling_slot f n key = Some (pos, b) \<and> gval (rb_data f) pos b \<in> S)"

text \<open>The parameters of a filter that an insertion does not change.\<close>

definition same_shape :: "CRollingBloomFilter \<Rightarrow> CRollingBloomFilter \<Rightarrow> bool" where
  "same_shape f f' \<longleftrightarrow> length (rb_data f') = length (rb_data f) \<and> rb_nTweak f' = rb_nTweak f \<and>
     rb_nHashFuncs f' = rb_nHashFuncs f \<and> nEntriesPerGeneration f' = nEntriesPerGeneration f"

lemma rolling_slot_shape: "same_shape f f' \<Longrightarrow> rolling_slot f' n key = rolling_slot f n key"
  by (cases "rb_data f"; cases "rb_data f'") (simp_all add: same_shape_def rolling_slot_def Let_def)

lemma rolling_slot_ok:
  assumes "rb_data f \<noteq> []" and "even (length (rb_data f))"
  shows "\<exists>pos b. rolling_slot f n key = Some (pos, b) \<and> slot_ok (rb_data f) pos b"
proof -
  let ?h = "RollingBloomHash n (rb_nTweak f) key"
  define q where "q = unat (drop_bit 6 ?h) mod length (rb_data f)"
  obtain k where k: "length (rb_data f) = 2 * k" using assms(2) by (elim evenE)
  have "q < 2 * k" using assms(1) k unfolding q_def by (metis length_greater_0_conv mod_less_divisor)
  then have "q div 2 * 2 + 1 < 2 * k" by presburger
  moreover have "unat (?h AND 0x3F) < 64"
  proof -
    have "?h AND 0x3F \<le> 0x3F" by (rule word_and_le1)
    then have "unat (?h AND 0x3F) \<le> 63" by (simp add: word_le_nat_alt)
    then show ?thesis by simp
  qed
  ultimately show ?thesis using assms k by (simp add: rolling_slot_def Let_def slot_ok_def q_def)
qed

lemma rolling_contains_held:
  assumes "held f ns key S" and "0 \<notin> S" and "rb_data f \<noteq> []" and "even (length (rb_data f))"
  shows "rolling_contains_loop f ns key = Some True"
  using assms(1)
proof (induction ns)
  case (Cons n ns)
  then obtain pos b where s: "rolling_slot f n key = Some (pos, b)" "gval (rb_data f) pos b \<in> S" by (auto simp: held_def)
  have b: "b < 64" using rolling_slot_ok [OF assms(3,4), of n key] s(1) by (auto simp: slot_ok_def)
  have "gval (rb_data f) pos b \<noteq> 0" using s(2) assms(2) by metis
  then have "bit (rb_data f ! pos OR rb_data f ! (pos + 1)) b" by (auto simp: gval_def bit_or_iff)
  then have "drop_bit b (rb_data f ! pos OR rb_data f ! (pos + 1)) AND 1 \<noteq> 0"
    by (simp add: and_one_eq bit_iff_odd_drop_bit mod_2_eq_odd)
  then show ?case using s(1) Cons by (simp add: held_def)
qed simp

lemma rolling_insert_loop_ok:
  "rb_data f \<noteq> [] \<Longrightarrow> even (length (rb_data f)) \<Longrightarrow> 1 \<le> nGeneration f \<Longrightarrow> nGeneration f \<le> 3 \<Longrightarrow>
   \<exists>d. rolling_insert_loop f ns key = Some (f\<lparr>rb_data := d\<rparr>) \<and> length d = length (rb_data f) \<and>
     (\<forall>pos b. slot_ok d pos b \<longrightarrow> gval d pos b = nGeneration f \<or> gval d pos b = gval (rb_data f) pos b) \<and>
     (\<forall>n \<in> set ns. \<exists>pos b. rolling_slot f n key = Some (pos, b) \<and> gval d pos b = nGeneration f)"
proof (induction ns arbitrary: f)
  case Nil
  then show ?case by (intro exI [of _ "rb_data f"]) simp
next
  case (Cons n ns)
  let ?g = "nGeneration f"
  obtain pos b where s: "rolling_slot f n key = Some (pos, b)" "slot_ok (rb_data f) pos b"
    using rolling_slot_ok [OF Cons.prems(1,2)] by blast
  define e where "e = set_slot (rb_data f) ?g pos b"
  note e = set_slot_ok [OF s(2) Cons.prems(3,4), folded e_def]
  let ?f = "f\<lparr>rb_data := e\<rparr>"
  have sh: "same_shape f ?f" using e(1) by (simp add: same_shape_def)
  have "e \<noteq> []" using e(1) Cons.prems(1) by auto
  with Cons.IH [of ?f] Cons.prems e(1) obtain d where d: "rolling_insert_loop ?f ns key = Some (?f\<lparr>rb_data := d\<rparr>)"
    "length d = length e" "\<And>p c. slot_ok d p c \<Longrightarrow> gval d p c = ?g \<or> gval d p c = gval e p c"
    "\<And>m. m \<in> set ns \<Longrightarrow> \<exists>p c. rolling_slot ?f m key = Some (p, c) \<and> gval d p c = ?g" by auto
  have so: "slot_ok d p c = slot_ok (rb_data f) p c" for p c using d(2) e(1) by (simp add: slot_ok_def)
  have "rolling_insert_loop f (n # ns) key = Some (f\<lparr>rb_data := d\<rparr>)"
    using s(1) d(1) by (simp add: e_def set_slot_def Let_def)
  moreover have "gval d p c = ?g \<or> gval d p c = gval (rb_data f) p c" if "slot_ok d p c" for p c
    using d(3) [OF that] e(2) [of p c] that so by (auto split: if_splits)
  moreover have "\<exists>p c. rolling_slot f m key = Some (p, c) \<and> gval d p c = ?g" if "m \<in> set (n # ns)" for m
  proof (cases "m \<in> set ns")
    case True
    then show ?thesis using d(4) [of m] rolling_slot_shape [OF sh] by simp
  next
    case False
    then have "m = n" using that by simp
    moreover have "gval d pos b = ?g" using d(3) [of pos b] e(2) [OF s(2)] s(2) so by simp
    ultimately show ?thesis using s(1) by simp
  qed
  ultimately show ?case using d(2) e(1) by (intro exI [of _ d]) simp
qed

definition next_generation :: "nat \<Rightarrow> nat" where
  "next_generation g = (if g + 1 = 4 then 1 else g + 1)"

text \<open>Starting the next generation keeps every bit of the others.\<close>

lemma rolling_next_ok:
  assumes "rolling_ok f"
  shows "\<exists>f'. rolling_next f = Some f' \<and> same_shape f f' \<and> 1 \<le> nGeneration f' \<and> nGeneration f' \<le> 3 \<and>
     nEntriesThisGeneration f' < nEntriesPerGeneration f' \<and>
     (if nEntriesThisGeneration f = nEntriesPerGeneration f
      then nGeneration f' = next_generation (nGeneration f) \<and> nEntriesThisGeneration f' = 0 \<and>
        (\<forall>pos b. slot_ok (rb_data f) pos b \<longrightarrow> gval (rb_data f) pos b \<noteq> nGeneration f' \<longrightarrow>
           gval (rb_data f') pos b = gval (rb_data f) pos b)
      else f' = f)"
proof (cases "nEntriesThisGeneration f = nEntriesPerGeneration f")
  case True
  let ?g = "next_generation (nGeneration f)"
  have g: "1 \<le> ?g" "?g \<le> 3" "even (length (rb_data f))" using assms by (auto simp: rolling_ok_def next_generation_def)
  obtain d where d: "rolling_wipe (0 - of_nat (?g mod 2)) (0 - of_nat (?g div 2)) (rb_data f) = Some d" "length d = length (rb_data f)"
    "\<forall>pos b. slot_ok (rb_data f) pos b \<longrightarrow> gval d pos b = (if gval (rb_data f) pos b = ?g then 0 else gval (rb_data f) pos b)"
    using wipe_generation [OF g(3,1,2)] by blast
  let ?f = "f\<lparr>nEntriesThisGeneration := 0, nGeneration := ?g, rb_data := d\<rparr>"
  have "rolling_next f = Some ?f" using True d(1) by (simp add: rolling_next_def next_generation_def Let_def)
  then show ?thesis using True d(2,3) g assms by (intro exI [of _ ?f]) (simp add: same_shape_def rolling_ok_def)
next
  case False
  then show ?thesis using assms by (simp add: rolling_next_def same_shape_def rolling_ok_def)
qed

lemma rolling_insert_ok:
  assumes "rolling_ok f"
  shows "\<exists>f'. rolling_insert f key = Some f' \<and> rolling_ok f' \<and> same_shape f f' \<and>
    held f' [0..<rb_nHashFuncs f'] key {nGeneration f'} \<and> 1 \<le> nEntriesThisGeneration f' \<and>
    (if nEntriesThisGeneration f = nEntriesPerGeneration f
     then nGeneration f' = next_generation (nGeneration f) \<and> nEntriesThisGeneration f' = 1
     else nGeneration f' = nGeneration f \<and> nEntriesThisGeneration f' = nEntriesThisGeneration f + 1) \<and>
    (\<forall>k S. held f [0..<rb_nHashFuncs f] k S \<longrightarrow> next_generation (nGeneration f) \<notin> S \<or> nEntriesThisGeneration f \<noteq> nEntriesPerGeneration f \<longrightarrow>
       held f' [0..<rb_nHashFuncs f'] k (insert (nGeneration f') S))"
proof -
  obtain g where g: "rolling_next f = Some g" "same_shape f g" "1 \<le> nGeneration g" "nGeneration g \<le> 3"
    "nEntriesThisGeneration g < nEntriesPerGeneration g"
    "if nEntriesThisGeneration f = nEntriesPerGeneration f
      then nGeneration g = next_generation (nGeneration f) \<and> nEntriesThisGeneration g = 0 \<and>
        (\<forall>pos b. slot_ok (rb_data f) pos b \<longrightarrow> gval (rb_data f) pos b \<noteq> nGeneration g \<longrightarrow>
           gval (rb_data g) pos b = gval (rb_data f) pos b)
      else g = f"
    using rolling_next_ok [OF assms] by blast
  let ?g = "g\<lparr>nEntriesThisGeneration := nEntriesThisGeneration g + 1\<rparr>"
  have l: "length (rb_data g) = length (rb_data f)" using g(2) by (simp add: same_shape_def)
  have ok: "rb_data ?g \<noteq> []" "even (length (rb_data ?g))" using l assms by (auto simp: rolling_ok_def)
  obtain d where d: "rolling_insert_loop ?g [0..<rb_nHashFuncs g] key = Some (?g\<lparr>rb_data := d\<rparr>)" "length d = length (rb_data f)"
     "\<And>pos b. slot_ok d pos b \<Longrightarrow> gval d pos b = nGeneration g \<or> gval d pos b = gval (rb_data g) pos b"
     "\<And>n. n \<in> set [0..<rb_nHashFuncs g] \<Longrightarrow> \<exists>pos b. rolling_slot ?g n key = Some (pos, b) \<and> gval d pos b = nGeneration g"
    using rolling_insert_loop_ok [OF ok, of "[0..<rb_nHashFuncs g]" key] g(3,4) l by auto
  let ?f = "?g\<lparr>rb_data := d\<rparr>"
  have sh: "same_shape f ?f" "same_shape ?g ?f" using g(2) d(2) l by (simp_all add: same_shape_def)
  have 1: "held ?f [0..<rb_nHashFuncs ?f] key {nGeneration ?f}"
    using d(4) rolling_slot_shape [OF sh(2)] by (auto simp: held_def)
  have 2: "held ?f [0..<rb_nHashFuncs ?f] k (insert (nGeneration ?f) S)"
    if h: "held f [0..<rb_nHashFuncs f] k S" and S: "next_generation (nGeneration f) \<notin> S \<or> nEntriesThisGeneration f \<noteq> nEntriesPerGeneration f" for k S
    unfolding held_def
  proof
    fix n assume "n \<in> set [0..<rb_nHashFuncs ?f]"
    then have "n \<in> set [0..<rb_nHashFuncs f]" using g(2) by (simp add: same_shape_def)
    then obtain pos b where p: "rolling_slot f n k = Some (pos, b)" "gval (rb_data f) pos b \<in> S"
      using h unfolding held_def by blast
    have so: "slot_ok (rb_data f) pos b" using rolling_slot_ok [of f n k] assms p(1) by (auto simp: rolling_ok_def)
    then have "slot_ok d pos b" using d(2) by (simp add: slot_ok_def)
    moreover have "gval (rb_data g) pos b = gval (rb_data f) pos b" 
    proof (cases "nEntriesThisGeneration f = nEntriesPerGeneration f")
      case True
      then have "gval (rb_data f) pos b \<noteq> nGeneration g" using g(6) S p(2) by auto
      then show ?thesis using g(6) so True by simp
    next
      case False
      then show ?thesis using g(6) by simp
    qed
    ultimately have "gval d pos b \<in> insert (nGeneration g) S" using d(3) [of pos b] p(2) by auto
    then show "\<exists>pos b. rolling_slot ?f n k = Some (pos, b) \<and> gval (rb_data ?f) pos b \<in> insert (nGeneration ?f) S"
      using p(1) rolling_slot_shape [OF sh(1)] by simp
  qed
  have 3: "rolling_insert f key = Some ?f" using g(1) d(1) by (simp add: rolling_insert_def)
  have 4: "rolling_ok ?f" using ok d(2) l g(3-5) assms sh by (auto simp: rolling_ok_def same_shape_def)
  have 5: "if nEntriesThisGeneration f = nEntriesPerGeneration f
     then nGeneration ?f = next_generation (nGeneration f) \<and> nEntriesThisGeneration ?f = 1
     else nGeneration ?f = nGeneration f \<and> nEntriesThisGeneration ?f = nEntriesThisGeneration f + 1"
    using g(6) by (simp split: if_splits)
  have 6: "1 \<le> nEntriesThisGeneration ?f" by simp
  show ?thesis
    by (rule exI [of _ ?f], intro conjI, rule 3, rule 4, rule sh(1), rule 1, rule 6, rule 5, intro allI impI, rule 2)
qed

fun rolling_insert_all :: "CRollingBloomFilter \<Rightarrow> bytes list \<Rightarrow> CRollingBloomFilter option" where
  "rolling_insert_all f [] = Some f"
| "rolling_insert_all f (key # keys) =
     (case rolling_insert f key of None \<Rightarrow> None | Some f \<Rightarrow> rolling_insert_all f keys)"

lemma rolling_insert_all_append:
  "rolling_insert_all f (xs @ ys) = (case rolling_insert_all f xs of None \<Rightarrow> None | Some f \<Rightarrow> rolling_insert_all f ys)"
  by (induction xs arbitrary: f) (simp_all split: option.splits)

lemma rolling_insert_all_ok:
  "rolling_ok f \<Longrightarrow> \<exists>f'. rolling_insert_all f keys = Some f' \<and> rolling_ok f' \<and> same_shape f f'"
proof (induction keys arbitrary: f)
  case (Cons key keys)
  obtain g where g: "rolling_insert f key = Some g" "rolling_ok g" "same_shape f g" using rolling_insert_ok [OF Cons.prems] by blast
  then show ?case using Cons.IH [OF g(2)] by (auto simp: same_shape_def)
qed (simp add: same_shape_def)

text \<open>The generations since \<open>g\<close>, \<open>d\<close> changes later.\<close>

definition since :: "nat \<Rightarrow> nat \<Rightarrow> nat set" where
  "since g d = (\<lambda>i. (next_generation ^^ i) g) ` {..d}"

lemma since_Suc: "since g (Suc d) = insert ((next_generation ^^ Suc d) g) (since g d)"
  by (simp add: since_def atMost_Suc)

lemma since_fresh: "1 \<le> g \<Longrightarrow> g \<le> 3 \<Longrightarrow> d < 2 \<Longrightarrow> (next_generation ^^ Suc d) g \<notin> since g d"
proof -
  assume "1 \<le> g" "g \<le> 3" "d < 2"
  then have "(g = 1 \<or> g = 2 \<or> g = 3) \<and> (d = 0 \<or> d = 1)" by linarith
  moreover have "since g 0 = {g}" "since g 1 = {next_generation g, g}" using since_Suc [of g 0] by (simp_all add: since_def)
  ultimately show ?thesis by (elim conjE disjE) (simp_all add: next_generation_def)
qed

lemma since_positive: "1 \<le> g \<Longrightarrow> 0 \<notin> since g d"
proof -
  assume "1 \<le> g"
  then have "1 \<le> (next_generation ^^ i) g" for i by (induction i) (simp_all add: next_generation_def)
  then show ?thesis unfolding since_def by (metis imageE not_one_le_zero)
qed

lemma since_self: "(next_generation ^^ d) g \<in> since g d"
  by (auto simp: since_def)

lemma rolling_keeps:
  "rolling_ok f \<Longrightarrow> held f [0..<rb_nHashFuncs f] key (since g d) \<Longrightarrow> nGeneration f = (next_generation ^^ d) g \<Longrightarrow>
   d \<le> 2 \<Longrightarrow> 1 \<le> g \<Longrightarrow> g \<le> 3 \<Longrightarrow>
   d * nEntriesPerGeneration f + nEntriesThisGeneration f + length keys \<le> 3 * nEntriesPerGeneration f \<Longrightarrow>
   \<exists>f' d'. rolling_insert_all f keys = Some f' \<and> rolling_ok f' \<and> held f' [0..<rb_nHashFuncs f'] key (since g d')"
proof (induction keys arbitrary: f d)
  case (Cons k keys)
  let ?E = "nEntriesPerGeneration f"
  obtain f1 where f1: "rolling_insert f k = Some f1" "rolling_ok f1" "same_shape f f1"
    "if nEntriesThisGeneration f = ?E then nGeneration f1 = next_generation (nGeneration f) \<and> nEntriesThisGeneration f1 = 1
     else nGeneration f1 = nGeneration f \<and> nEntriesThisGeneration f1 = nEntriesThisGeneration f + 1"
    "\<And>k S. held f [0..<rb_nHashFuncs f] k S \<Longrightarrow> next_generation (nGeneration f) \<notin> S \<or> nEntriesThisGeneration f \<noteq> ?E \<Longrightarrow>
       held f1 [0..<rb_nHashFuncs f1] k (insert (nGeneration f1) S)"
    using rolling_insert_ok [OF Cons.prems(1)] by blast
  have E: "nEntriesPerGeneration f1 = ?E" "1 \<le> ?E" using f1(3) Cons.prems(1) by (simp_all add: same_shape_def rolling_ok_def)
  show ?case
  proof (cases "nEntriesThisGeneration f = ?E")
    case True
    have "d < 2"
    proof (rule ccontr)
      assume "\<not> d < 2"
      then have "d = 2" using Cons.prems(4) by simp
      then show False using Cons.prems(7) True by simp
    qed
    have "next_generation (nGeneration f) \<notin> since g d"
      using since_fresh [OF Cons.prems(5,6) \<open>d < 2\<close>] Cons.prems(3) by simp
    then have "held f1 [0..<rb_nHashFuncs f1] key (since g (Suc d))"
      using f1(5) [OF Cons.prems(2)] f1(4) True Cons.prems(3) by (simp add: since_Suc)
    moreover have "nGeneration f1 = (next_generation ^^ Suc d) g" "nEntriesThisGeneration f1 = 1"
      using f1(4) True Cons.prems(3) by simp_all
    moreover have "Suc d * nEntriesPerGeneration f1 + 1 + length keys \<le> 3 * nEntriesPerGeneration f1"
      using Cons.prems(7) True E by simp
    ultimately show ?thesis
      using Cons.IH [OF f1(2), of "Suc d"] \<open>d < 2\<close> Cons.prems(5,6) f1(1) by simp
  next
    case False
    have "held f1 [0..<rb_nHashFuncs f1] key (since g d)"
      using f1(5) [OF Cons.prems(2)] f1(4) False Cons.prems(3) since_self [of d g] by (simp add: insert_absorb)
    then show ?thesis
      using Cons.IH [OF f1(2), of d] f1(1,4) False Cons.prems E by simp
  qed
qed auto

section \<open>Properties\<close>

text \<open>
  A filter of a connection has no false negatives. Inserting a key into a filter that has data,
  or is marked full, returns a filter that contains the key and everything the old one contained;
  no step divides by the size of an empty filter.
\<close>
theorem bloom_insert_contains:
  assumes "usable f"
  shows "\<exists>f'. bloom_insert f key = Some f' \<and> usable f' \<and> bloom_contains f' key = Some True \<and>
    (\<forall>k. bloom_contains f k = Some True \<longrightarrow> bloom_contains f' k = Some True)"
  using bloom_insert_ok [OF assms, of key] by (auto simp: grows_def)

abbreviation small_filter :: CBloomFilter where
  "small_filter \<equiv> \<lparr>vData = [0, 0], isFull = False, isEmpty = True, nHashFuncs = 3, nTweak = 5, nFlags = 1\<rparr>"

theorem bloom_insert_contains_witness:
  "\<exists>f'. bloom_insert small_filter [1, 2] = Some f' \<and> bloom_contains f' [1, 2] = Some True"
  using bloom_insert_contains [of small_filter "[1, 2]"] by (auto simp: usable_def)



text \<open>
  C32: A rolling filter made for \<open>nElements\<close> keys never forgets a recent one: whatever was inserted
  before, a key is still contained after up to \<open>nElements\<close> further insertions.
\<close>
theorem rolling_remembers:
  assumes "0 < nElements" and "nElements < 2 ^ 32 - 1" and "0 < nFilterBits" and "nFilterBits < 2 ^ 32 - 63"
    and "length recent \<le> nElements"
  shows "\<exists>f. rolling_insert_all (CRollingBloomFilter_ctor nElements hashFuncs nFilterBits random) (earlier @ key # recent) = Some f \<and>
    rolling_contains f key = Some True"
proof -
  let ?f = "CRollingBloomFilter_ctor nElements hashFuncs nFilterBits random"
  have e: "(nElements + 1) mod 2 ^ 32 = nElements + 1" "(nFilterBits + 63) mod 2 ^ 32 = nFilterBits + 63"
    using assms(2,4) by (simp_all only: mod_less less_diff_conv)
  have "1 \<le> (nElements + 1) div 2" "0 < (nFilterBits + 63) div 64" using assms(1,3) by presburger+
  then have "rolling_ok ?f"
    unfolding CRollingBloomFilter_ctor_def e rolling_reset_def by (simp add: rolling_ok_def)
  then obtain f1 where f1: "rolling_insert_all ?f earlier = Some f1" "rolling_ok f1" "same_shape ?f f1"
    using rolling_insert_all_ok by blast
  obtain f2 where f2: "rolling_insert f1 key = Some f2" "rolling_ok f2" "same_shape f1 f2"
    "held f2 [0..<rb_nHashFuncs f2] key {nGeneration f2}" using rolling_insert_ok [OF f1(2)] by blast
  have E: "nEntriesPerGeneration f2 = (nElements + 1) div 2"
    using f1(3) f2(3) e by (simp add: same_shape_def CRollingBloomFilter_ctor_def rolling_reset_def)
  have g: "1 \<le> nGeneration f2" "nGeneration f2 \<le> 3" "nEntriesThisGeneration f2 \<le> nEntriesPerGeneration f2"
    using f2(2) by (simp_all add: rolling_ok_def)
  have "nElements \<le> 2 * ((nElements + 1) div 2)" by presburger
  then have "0 * nEntriesPerGeneration f2 + nEntriesThisGeneration f2 + length recent \<le> 3 * nEntriesPerGeneration f2"
    using g(3) assms(5) unfolding E by linarith
  moreover have "since (nGeneration f2) 0 = {nGeneration f2}" by (simp add: since_def)
  ultimately obtain f' d' where f': "rolling_insert_all f2 recent = Some f'" "rolling_ok f'"
    "held f' [0..<rb_nHashFuncs f'] key (since (nGeneration f2) d')"
    using rolling_keeps [OF f2(2), of key "nGeneration f2" 0 recent] f2(4) g by auto
  then have "rolling_contains f' key = Some True"
    using rolling_contains_held [OF f'(3) since_positive [OF g(1)]] by (simp add: rolling_contains_def rolling_ok_def)
  then show ?thesis using f1(1) f2(1) f'(1) by (simp add: rolling_insert_all_append)
qed

theorem rolling_remembers_witness:
  "\<exists>f. rolling_insert_all (CRollingBloomFilter_ctor 2 3 100 77) [[1], [2], [3], [4], [5]] = Some f \<and> rolling_contains f [3] = Some True"
  using rolling_remembers [of 2 100 "[[4], [5]]" 3 77 "[[1], [2]]" "[3]"] by simp

end
