(* ===== verification/PartialMerkle.thy ===== *)
theory PartialMerkle
  imports Block Bloom
begin

text \<open>
  \<^verbatim>\<open>src/src/merkleblock.h\<close> and \<^verbatim>\<open>src/src/merkleblock.cpp\<close>: partial Merkle trees, by which a node proves to a
  light client that some transactions are in a block. A tree is built from the transaction ids
  and a mask, sent with its flag bits packed into bytes, and read again by \<open>ExtractMatches\<close>.
\<close>

section \<open>The structure and its construction\<close>

record 'h CPartialMerkleTree =
  nTransactions :: nat
  vBits :: "bool list"
  vHash :: "'h list"
  fBad :: bool

abbreviation uint32 :: "nat \<Rightarrow> nat" where
  "uint32 n \<equiv> n mod 2 ^ 32"

definition CalcTreeWidth :: "nat \<Rightarrow> nat \<Rightarrow> nat" where
  "CalcTreeWidth n height = uint32 (n + 2 ^ height - 1) div 2 ^ height"

text \<open>The loop of the height. The shift of an \<open>int\<close> by 31 or more is undefined, and then the result is \<open>None\<close>.\<close>

function tree_height :: "nat \<Rightarrow> nat \<Rightarrow> nat option" where
  "tree_height n nHeight =
     (if nHeight \<ge> 31 then None
      else if CalcTreeWidth n nHeight > 1 then tree_height n (nHeight + 1) else Some nHeight)"
  by pat_completeness auto
termination
  by (relation "measure (\<lambda>(n, h). 31 - h)") auto

declare tree_height.simps [simp del]

primrec CalcHash :: "('h \<Rightarrow> 'h \<Rightarrow> 'h) \<Rightarrow> nat \<Rightarrow> nat \<Rightarrow> nat \<Rightarrow> 'h list \<Rightarrow> 'h option" where
  "CalcHash H n 0 pos vTxid = (if pos < length vTxid then Some (vTxid ! pos) else None)"
| "CalcHash H n (Suc height) pos vTxid =
     (if vTxid = [] then None
      else case CalcHash H n height (uint32 (pos * 2)) vTxid of
        None \<Rightarrow> None
      | Some left \<Rightarrow>
          if uint32 (pos * 2 + 1) < CalcTreeWidth n height
          then map_option (H left) (CalcHash H n height (uint32 (pos * 2 + 1)) vTxid)
          else Some (H left left))"

text \<open>Whether a transaction from \<open>p\<close> up to \<open>e\<close> is matched. A read past the mask is \<open>None\<close>.\<close>

function match_loop :: "nat \<Rightarrow> bool list \<Rightarrow> nat \<Rightarrow> nat \<Rightarrow> bool \<Rightarrow> bool option" where
  "match_loop n vMatch p e fParentOfMatch =
     (if p < e \<and> p < n
      then if p < length vMatch then match_loop n vMatch (p + 1) e (fParentOfMatch \<or> vMatch ! p) else None
      else Some fParentOfMatch)"
  by pat_completeness auto
termination
  by (relation "measure (\<lambda>(n, v, p, e, f). n - p)") auto

declare match_loop.simps [simp del]

fun TraverseAndBuild :: "('h \<Rightarrow> 'h \<Rightarrow> 'h) \<Rightarrow> nat \<Rightarrow> nat \<Rightarrow> 'h list \<Rightarrow> bool list \<Rightarrow> 'h CPartialMerkleTree \<Rightarrow> 'h CPartialMerkleTree option" where
  "TraverseAndBuild H height pos vTxid vMatch t =
     (case match_loop (nTransactions t) vMatch (uint32 (pos * 2 ^ height)) (uint32 (uint32 (pos + 1) * 2 ^ height)) False of
        None \<Rightarrow> None
      | Some fParentOfMatch \<Rightarrow>
          let t = t\<lparr>vBits := vBits t @ [fParentOfMatch]\<rparr>
          in if height = 0 \<or> \<not> fParentOfMatch
             then map_option (\<lambda>hash. t\<lparr>vHash := vHash t @ [hash]\<rparr>) (CalcHash H (nTransactions t) height pos vTxid)
             else case TraverseAndBuild H (height - 1) (uint32 (pos * 2)) vTxid vMatch t of
                    None \<Rightarrow> None
                  | Some t \<Rightarrow>
                      if uint32 (pos * 2 + 1) < CalcTreeWidth (nTransactions t) (height - 1)
                      then TraverseAndBuild H (height - 1) (uint32 (pos * 2 + 1)) vTxid vMatch t
                      else Some t)"

declare TraverseAndBuild.simps [simp del]

definition CPartialMerkleTree_ctor :: "('h \<Rightarrow> 'h \<Rightarrow> 'h) \<Rightarrow> 'h list \<Rightarrow> bool list \<Rightarrow> 'h CPartialMerkleTree option" where
  "CPartialMerkleTree_ctor H vTxid vMatch =
     (let t = \<lparr>nTransactions = uint32 (length vTxid), vBits = [], vHash = [], fBad = False\<rparr>
      in case tree_height (nTransactions t) 0 of
           None \<Rightarrow> None
         | Some nHeight \<Rightarrow> TraverseAndBuild H nHeight 0 vTxid vMatch t)"

definition CPartialMerkleTree_default :: "'h CPartialMerkleTree" where
  "CPartialMerkleTree_default = \<lparr>nTransactions = 0, vBits = [], vHash = [], fBad = True\<rparr>"

section \<open>Extraction\<close>

text \<open>The variables of a traversal: the reference arguments and the member \<open>fBad\<close>.\<close>

record 'h traversal =
  nBitsUsed :: nat
  nHashUsed :: nat
  tr_vMatch :: "'h list"
  tr_vnIndex :: "nat list"
  tr_fBad :: bool

definition use_hash :: "'h \<Rightarrow> 'h list \<Rightarrow> bool \<Rightarrow> nat \<Rightarrow> 'h traversal \<Rightarrow> 'h \<times> 'h traversal" where
  "use_hash null hashes matched pos st =
     (if nHashUsed st \<ge> length hashes then (null, st\<lparr>tr_fBad := True\<rparr>)
      else let hash = hashes ! nHashUsed st; st = st\<lparr>nHashUsed := nHashUsed st + 1\<rparr>
           in (hash, if matched then st\<lparr>tr_vMatch := tr_vMatch st @ [hash], tr_vnIndex := tr_vnIndex st @ [pos]\<rparr> else st))"

fun TraverseAndExtract ::
  "('h \<Rightarrow> 'h \<Rightarrow> 'h) \<Rightarrow> 'h \<Rightarrow> 'h CPartialMerkleTree \<Rightarrow> nat \<Rightarrow> nat \<Rightarrow> 'h traversal \<Rightarrow> 'h \<times> 'h traversal" where
  "TraverseAndExtract H null t height pos st =
     (if nBitsUsed st \<ge> length (vBits t) then (null, st\<lparr>tr_fBad := True\<rparr>)
      else let fParentOfMatch = vBits t ! nBitsUsed st; st = st\<lparr>nBitsUsed := nBitsUsed st + 1\<rparr>
           in if height = 0 \<or> \<not> fParentOfMatch
              then use_hash null (vHash t) (height = 0 \<and> fParentOfMatch) pos st
              else let (left, st) = TraverseAndExtract H null t (height - 1) (uint32 (pos * 2)) st
                   in if uint32 (pos * 2 + 1) < CalcTreeWidth (nTransactions t) (height - 1)
                      then let (right, st) = TraverseAndExtract H null t (height - 1) (uint32 (pos * 2 + 1)) st
                           in (H left right, if right = left then st\<lparr>tr_fBad := True\<rparr> else st)
                      else (H left left, st))"

declare TraverseAndExtract.simps [simp del]

text \<open>
  The result is the returned hash, \<open>vMatch\<close>, \<open>vnIndex\<close> and the tree, whose \<open>fBad\<close> may have been
  set. \<open>vMatch\<close> is cleared at the start; \<open>vnIndex\<close> is not.
\<close>

definition ExtractMatches ::
  "('h \<Rightarrow> 'h \<Rightarrow> 'h) \<Rightarrow> 'h \<Rightarrow> 'h CPartialMerkleTree \<Rightarrow> nat list \<Rightarrow> ('h \<times> 'h list \<times> nat list \<times> 'h CPartialMerkleTree) option" where
  "ExtractMatches H null t vnIndex =
     (if nTransactions t = 0 \<or> nTransactions t > MAX_BLOCK_WEIGHT div MIN_TRANSACTION_WEIGHT
         \<or> length (vHash t) > nTransactions t \<or> length (vBits t) < length (vHash t)
      then Some (null, [], vnIndex, t)
      else case tree_height (nTransactions t) 0 of
        None \<Rightarrow> None
      | Some nHeight \<Rightarrow>
          let (hashMerkleRoot, st) = TraverseAndExtract H null t nHeight 0
                \<lparr>nBitsUsed = 0, nHashUsed = 0, tr_vMatch = [], tr_vnIndex = vnIndex, tr_fBad = fBad t\<rparr>
          in Some (if tr_fBad st \<or> (nBitsUsed st + 7) div 8 \<noteq> (length (vBits t) + 7) div 8 \<or> nHashUsed st \<noteq> length (vHash t)
                   then null else hashMerkleRoot,
                   tr_vMatch st, tr_vnIndex st, t\<lparr>fBad := tr_fBad st\<rparr>))"

section \<open>The wire format\<close>

definition pack_bits :: "bool list \<Rightarrow> bytes" where
  "pack_bits bits =
     fold (\<lambda>p vBytes. vBytes[p div 8 := vBytes ! (p div 8) OR push_bit (p mod 8) (of_bool (bits ! p))])
       [0..<length bits] (replicate ((length bits + 7) div 8) 0)"

definition unpack_bits :: "bytes \<Rightarrow> bool list" where
  "unpack_bits vBytes = map (\<lambda>p. vBytes ! (p div 8) AND push_bit (p mod 8) 1 \<noteq> 0) [0..<length vBytes * 8]"

definition ser_partial_tree :: "uint256 CPartialMerkleTree \<Rightarrow> bytes" where
  "ser_partial_tree t =
     ser_writedata32 (of_nat (nTransactions t)) @ ser_vector id (vHash t) @ ser_bytes (pack_bits (vBits t))"

definition unser_partial_tree :: "uint256 CPartialMerkleTree reader" where
  "unser_partial_tree =
     rbind ser_readdata32 (\<lambda>n. rbind (unser_vector (read_bytes 32)) (\<lambda>hashes. rbind unser_bytes (\<lambda>vBytes.
       rreturn \<lparr>nTransactions = unat n, vBits = unpack_bits vBytes, vHash = hashes, fBad = False\<rparr>)))"

section \<open>Merkle blocks\<close>

record CMerkleBlock =
  mb_header :: BlockHeader
  mb_txn :: "uint256 CPartialMerkleTree"
  vMatchedTxn :: "(nat \<times> uint256) list"

text \<open>
  The loop over the transactions, from number \<open>i\<close>: \<open>vMatch\<close>, \<open>vHashes\<close>, \<open>vMatchedTxn\<close> and the
  filter, which matching may change. \<open>None\<close> in place of a filter or a set is a null pointer.
\<close>

fun match_txs :: "nat \<Rightarrow> Transaction list \<Rightarrow> CBloomFilter option \<Rightarrow> uint256 set option \<Rightarrow>
    (bool list \<times> uint256 list \<times> (nat \<times> uint256) list \<times> CBloomFilter option) option" where
  "match_txs i [] filt txids = Some ([], [], [], filt)"
| "match_txs i (tx # txs) filt txids =
     (let hash = ComputeHash tx;
          step = (if (case txids of None \<Rightarrow> False | Some ids \<Rightarrow> hash \<in> ids) then Some (True, [], filt)
                  else case filt of
                    None \<Rightarrow> Some (False, [], filt)
                  | Some f \<Rightarrow> map_option (\<lambda>(r, f). (r, if r then [(i, hash)] else [], Some f)) (IsRelevantAndUpdate f tx))
      in case step of
           None \<Rightarrow> None
         | Some (m, matched, filt) \<Rightarrow>
             map_option (\<lambda>(vMatch, vHashes, rest, filt). (m # vMatch, hash # vHashes, matched @ rest, filt))
               (match_txs (i + 1) txs filt txids))"

definition CMerkleBlock_ctor :: "Block \<Rightarrow> CBloomFilter option \<Rightarrow> uint256 set option \<Rightarrow> (CMerkleBlock \<times> CBloomFilter option) option" where
  "CMerkleBlock_ctor block filt txids =
     (case match_txs 0 (vtx block) filt txids of
        None \<Rightarrow> None
      | Some (vMatch, vHashes, matched, filt) \<Rightarrow>
          map_option (\<lambda>t. (\<lparr>mb_header = header block, mb_txn = t, vMatchedTxn = matched\<rparr>, filt))
            (CPartialMerkleTree_ctor merkle_hash vHashes vMatch))"

definition ser_merkle_block :: "CMerkleBlock \<Rightarrow> bytes" where
  "ser_merkle_block b = ser_header (mb_header b) @ ser_partial_tree (mb_txn b)"

definition unser_merkle_block :: "CMerkleBlock reader" where
  "unser_merkle_block = rbind unser_header (\<lambda>h. rbind unser_partial_tree (\<lambda>t.
     rreturn \<lparr>mb_header = h, mb_txn = t, vMatchedTxn = []\<rparr>))"

end
