(* ===== verification/PartialMerkle_Props.thy ===== *)
theory PartialMerkle_Props
  imports PartialMerkle Bloom_Props TxVerify_Props Sha256_Eval
begin

text \<open>
  A partial Merkle tree survives its wire format and gives back the matched transactions, for any filter
  of a client. A tree that lies about a block is refused, unless the hash has a collision or the tree
  lies about the height: inner nodes of the tree of a block can be passed off as transactions.
\<close>

section \<open>The complete tree\<close>

lemma CalcTreeWidth_level: "n < 2 ^ 30 \<Longrightarrow> h \<le> 30 \<Longrightarrow> CalcTreeWidth n h = level_size n h"
proof -
  assume "n < 2 ^ 30" "h \<le> 30"
  then have "(2 :: nat) ^ h \<le> 2 ^ 30" by (intro power_increasing) simp_all
  then have "n + 2 ^ h - 1 < 2 ^ 32" using \<open>n < 2 ^ 30\<close> by simp
  then show ?thesis by (simp add: CalcTreeWidth_def level_size_ceil)
qed

lemma tree_height_ok:
  "0 < n \<Longrightarrow> n < 2 ^ 30 \<Longrightarrow> h \<le> 30 \<Longrightarrow> \<forall>k < h. 2 \<le> level_size n k \<Longrightarrow>
    \<exists>L. tree_height n h = Some L \<and> L \<le> 30 \<and> level_size n L = 1 \<and> (\<forall>k < L. 2 \<le> level_size n k)"
proof (induction n h rule: tree_height.induct)
  case (1 n h)
  have w: "CalcTreeWidth n h = level_size n h" using 1 CalcTreeWidth_level by blast
  show ?case
  proof (cases "1 < level_size n h")
    case True
    have "h \<noteq> 30"
    proof
      assume "h = 30"
      then have "2 ^ 30 < n" using True level_size_ge2 [of n 30] by (simp only: Suc_1 [symmetric] Suc_le_eq One_nat_def)
      then show False using 1(3) by simp
    qed
    then have h: "h < 30" using "1.prems"(3) by simp
    have "\<forall>k < h + 1. 2 \<le> level_size n k" using "1.prems"(4) True by (auto simp: less_Suc_eq)
    then have "\<exists>L. tree_height n (h + 1) = Some L \<and> L \<le> 30 \<and> level_size n L = 1 \<and> (\<forall>k < L. 2 \<le> level_size n k)"
      using 1(1) "1.prems"(1,2) h True w by simp
    moreover have "tree_height n h = tree_height n (h + 1)" using h True w by (subst tree_height.simps) simp
    ultimately show ?thesis by simp
  next
    case False
    then have "level_size n h = 1" using level_size_pos [OF "1.prems"(1), of h] by simp
    moreover have "tree_height n h = Some h" using False w "1.prems"(3) by (subst tree_height.simps) simp
    ultimately show ?thesis using "1.prems" by blast
  qed
qed

lemma level_size_le: "level_size n h \<le> n"
  using level_size_mono [of n 0 h] by simp

lemma level_size_cover: "n \<le> level_size n h * 2 ^ h"
proof (induction h)
  case (Suc h)
  have "level_size n h \<le> 2 * level_size n (Suc h)" by simp
  then have "level_size n h * 2 ^ h \<le> 2 * level_size n (Suc h) * 2 ^ h" by (rule mult_le_mono1)
  with Suc have "n \<le> 2 * level_size n (Suc h) * 2 ^ h" by (rule le_trans)
  then show ?case by (simp only: power_Suc ac_simps)
qed simp

lemma level_size_under: "pos < level_size n h \<Longrightarrow> (pos + 1) * 2 ^ h < n + 2 ^ h"
proof -
  assume "pos < level_size n h"
  then have "pos + 1 \<le> (n + 2 ^ h - 1) div 2 ^ h" by (simp add: level_size_ceil)
  then have "(pos + 1) * 2 ^ h \<le> n + 2 ^ h - 1" by (simp only: less_eq_div_iff_mult_less_eq zero_less_power zero_less_numeral)
  then show ?thesis using zero_less_power [of "2 :: nat" h] by linarith
qed

lemma uint32_pos:
  assumes "n < 2 ^ 30" and "h \<le> 30" and "pos < level_size n h"
  shows "uint32 (pos * 2) = 2 * pos" "uint32 (pos * 2 + 1) = 2 * pos + 1"
    "uint32 (pos * 2 ^ h) = pos * 2 ^ h" "uint32 (uint32 (pos + 1) * 2 ^ h) = (pos + 1) * 2 ^ h"
proof -
  have p: "pos < 2 ^ 30" using assms level_size_le [of n h] by simp
  then show "uint32 (pos * 2) = 2 * pos" "uint32 (pos * 2 + 1) = 2 * pos + 1" by simp_all
  have "(2 :: nat) ^ h \<le> 2 ^ 30" using assms(2) by (intro power_increasing) simp_all
  then have b: "(pos + 1) * 2 ^ h < 2 ^ 32" using level_size_under [OF assms(3)] assms(1) by simp
  moreover have "pos * 2 ^ h \<le> (pos + 1) * 2 ^ h" by simp
  ultimately have "pos * 2 ^ h < 2 ^ 32" by (rule le_less_trans [rotated])
  then show "uint32 (pos * 2 ^ h) = pos * 2 ^ h" by simp
  have "uint32 (pos + 1) = pos + 1" using p by simp
  then show "uint32 (uint32 (pos + 1) * 2 ^ h) = (pos + 1) * 2 ^ h" using b by simp
qed

lemma level_size_child: "pos < level_size n (Suc h) \<Longrightarrow> 2 * pos < level_size n h"
  by simp

lemma CalcHash_node:
  assumes "length xs < 2 ^ 30"
  shows "h \<le> 30 \<Longrightarrow> pos < level_size (length xs) h \<Longrightarrow> CalcHash H (length xs) h pos xs = Some (tree_node H xs h pos)"
proof (induction h arbitrary: pos)
  case (Suc h)
  have c: "2 * pos < level_size (length xs) h" using Suc.prems(2) by (rule level_size_child)
  have w: "CalcTreeWidth (length xs) h = level_size (length xs) h" using CalcTreeWidth_level assms Suc.prems(1) by simp
  have "xs \<noteq> []" using c level_size_le [of "length xs" h] by auto
  then show ?case
    unfolding CalcHash.simps uint32_pos(1,2) [OF assms Suc.prems] w
    using Suc.IH [OF _ c] Suc.IH [of "2 * pos + 1"] Suc.prems(1) by simp
qed simp

lemma match_loop_ok:
  "length vMatch = n \<Longrightarrow> match_loop n vMatch p e f = Some (f \<or> filter ((!) vMatch) [p..<min e n] \<noteq> [])"
proof (induction n vMatch p e f rule: match_loop.induct)
  case (1 n vMatch p e f)
  show ?case
  proof (cases "p < e \<and> p < n")
    case True
    then have "[p..<min e n] = p # [p + 1..<min e n]" by (simp add: upt_conv_Cons)
    then show ?thesis using True 1 by (subst match_loop.simps) auto
  next
    case False
    then show ?thesis by (subst match_loop.simps) auto
  qed
qed

section \<open>What a tree holds\<close>

text \<open>The matched transactions below a node, and the bits and hashes that describe it.\<close>

definition node_hits :: "bool list \<Rightarrow> nat \<Rightarrow> nat \<Rightarrow> nat list" where
  "node_hits vMatch h pos = filter ((!) vMatch) [pos * 2 ^ h..<min ((pos + 1) * 2 ^ h) (length vMatch)]"

primrec node_bits :: "bool list \<Rightarrow> nat \<Rightarrow> nat \<Rightarrow> bool list" where
  "node_bits vMatch 0 pos = [vMatch ! pos]"
| "node_bits vMatch (Suc h) pos =
     (if node_hits vMatch (Suc h) pos = [] then [False]
      else True # node_bits vMatch h (2 * pos) @
        (if 2 * pos + 1 < level_size (length vMatch) h then node_bits vMatch h (2 * pos + 1) else []))"

primrec node_hashes :: "('h \<Rightarrow> 'h \<Rightarrow> 'h) \<Rightarrow> 'h list \<Rightarrow> bool list \<Rightarrow> nat \<Rightarrow> nat \<Rightarrow> 'h list" where
  "node_hashes H xs vMatch 0 pos = [xs ! pos]"
| "node_hashes H xs vMatch (Suc h) pos =
     (if node_hits vMatch (Suc h) pos = [] then [tree_node H xs (Suc h) pos]
      else node_hashes H xs vMatch h (2 * pos) @
        (if 2 * pos + 1 < level_size (length vMatch) h then node_hashes H xs vMatch h (2 * pos + 1) else []))"

lemma node_hits_leaf: "pos < length vMatch \<Longrightarrow> node_hits vMatch 0 pos = (if vMatch ! pos then [pos] else [])"
  by (simp add: node_hits_def)

lemma node_hits_split:
  "node_hits vMatch (Suc h) pos = node_hits vMatch h (2 * pos) @
     (if 2 * pos + 1 < level_size (length vMatch) h then node_hits vMatch h (2 * pos + 1) else [])"
proof -
  let ?n = "length vMatch"
  define a b c where "a = 2 * pos * 2 ^ h" and "b = (2 * pos + 1) * 2 ^ h" and "c = (2 * pos + 2) * 2 ^ h"
  have abc: "a \<le> b" "b \<le> c" by (simp_all add: a_def b_def c_def)
  have "[a..<min c ?n] = [a..<min b ?n] @ (if b < ?n then [b..<min c ?n] else [])"
    using abc upt_add_eq_append [of a b "min c ?n - b"] by (auto simp: min_def)
  moreover have "b < ?n \<longleftrightarrow> 2 * pos + 1 < level_size ?n h"
  proof
    assume "b < ?n"
    then have "(2 * pos + 1) * 2 ^ h < level_size ?n h * 2 ^ h" using level_size_cover [of ?n h] by (simp add: b_def)
    then show "2 * pos + 1 < level_size ?n h" by (simp only: mult_less_cancel2)
  next
    assume "2 * pos + 1 < level_size ?n h"
    then show "b < ?n" using level_size_under [of "2 * pos + 1" ?n h] by (simp add: b_def algebra_simps)
  qed
  moreover have "node_hits vMatch (Suc h) pos = filter ((!) vMatch) [a..<min c ?n]"
    by (simp add: node_hits_def a_def c_def algebra_simps)
  moreover have "node_hits vMatch h (2 * pos) = filter ((!) vMatch) [a..<min b ?n]"
    "node_hits vMatch h (2 * pos + 1) = filter ((!) vMatch) [b..<min c ?n]"
    by (simp_all add: node_hits_def a_def b_def c_def)
  ultimately show ?thesis by simp
qed

lemma TraverseAndBuild_ok:
  assumes "length xs < 2 ^ 30" and "length vMatch = length xs"
  shows "h \<le> 30 \<Longrightarrow> pos < level_size (length xs) h \<Longrightarrow> nTransactions t = length xs \<Longrightarrow>
    TraverseAndBuild H h pos xs vMatch t =
      Some (t\<lparr>vBits := vBits t @ node_bits vMatch h pos, vHash := vHash t @ node_hashes H xs vMatch h pos\<rparr>)"
proof (induction h arbitrary: pos t)
  case 0
  then show ?case using uint32_pos [OF assms(1) 0(1,2)] node_hits_leaf [of pos vMatch] assms(2)
    by (subst TraverseAndBuild.simps) (simp add: match_loop_ok node_hits_def)
next
  case (Suc h)
  note u = uint32_pos [OF assms(1) Suc.prems(1,2)]
  have c: "2 * pos < level_size (length xs) h" using Suc.prems(2) by (rule level_size_child)
  have w: "CalcTreeWidth (length xs) h = level_size (length xs) h" using CalcTreeWidth_level assms Suc.prems(1) by simp
  have m: "match_loop (length xs) vMatch (pos * 2 ^ Suc h) ((pos + 1) * 2 ^ Suc h) False =
      Some (node_hits vMatch (Suc h) pos \<noteq> [])"
    by (simp only: match_loop_ok [OF assms(2)] node_hits_def assms(2) simp_thms)
  show ?case
    unfolding TraverseAndBuild.simps [of H "Suc h"] u Suc.prems(3) m
    using Suc.IH [OF _ c] Suc.IH [of "2 * pos + 1"] Suc.prems(1,3) assms(2)
    by (simp add: w CalcHash_node [OF assms(1) Suc.prems(1,2)] del: CalcHash.simps tree_node.simps)
qed

section \<open>Extraction from a built tree\<close>

definition distinct_siblings :: "('h \<Rightarrow> 'h \<Rightarrow> 'h) \<Rightarrow> 'h list \<Rightarrow> bool" where
  "distinct_siblings H xs \<longleftrightarrow>
     (\<forall>h i. 2 * i + 1 < level_size (length xs) h \<longrightarrow> tree_node H xs h (2 * i) \<noteq> tree_node H xs h (2 * i + 1))"

lemma use_hash_ok:
  "vs = C @ hash # C' \<Longrightarrow> nHashUsed st = length C \<Longrightarrow>
    use_hash null vs m pos st = (hash, st\<lparr>nHashUsed := length C + 1,
      tr_vMatch := tr_vMatch st @ (if m then [hash] else []), tr_vnIndex := tr_vnIndex st @ (if m then [pos] else [])\<rparr>)"
  by (simp add: use_hash_def)

lemma TraverseAndExtract_node:
  assumes "n < 2 ^ 30" and "Suc h \<le> 30" and "pos < level_size n (Suc h)" and "nTransactions t = n"
    and "nBitsUsed st < length (vBits t)" and "vBits t ! nBitsUsed st"
  shows "TraverseAndExtract H null t (Suc h) pos st =
    (let (left, st) = TraverseAndExtract H null t h (2 * pos) (st\<lparr>nBitsUsed := nBitsUsed st + 1\<rparr>)
     in if 2 * pos + 1 < level_size n h then let (right, st) = TraverseAndExtract H null t h (2 * pos + 1) st
            in (H left right, if right = left then st\<lparr>tr_fBad := True\<rparr> else st)
        else (H left left, st))"
  unfolding TraverseAndExtract.simps [of H null t "Suc h"] diff_Suc_1 uint32_pos(1,2) [OF assms(1-3)]
  using assms CalcTreeWidth_level [of n h] by (simp add: Let_def)

lemma TraverseAndExtract_ok:
  assumes "length xs < 2 ^ 30" and "length vMatch = length xs" and "distinct_siblings H xs" and "nTransactions t = length xs"
  shows "h \<le> 30 \<Longrightarrow> pos < level_size (length xs) h \<Longrightarrow>
    vBits t = B @ node_bits vMatch h pos @ B' \<Longrightarrow> vHash t = C @ node_hashes H xs vMatch h pos @ C' \<Longrightarrow>
    nBitsUsed st = length B \<Longrightarrow> nHashUsed st = length C \<Longrightarrow>
    TraverseAndExtract H null t h pos st =
      (tree_node H xs h pos, st\<lparr>nBitsUsed := length (B @ node_bits vMatch h pos),
         nHashUsed := length (C @ node_hashes H xs vMatch h pos),
         tr_vMatch := tr_vMatch st @ map ((!) xs) (node_hits vMatch h pos),
         tr_vnIndex := tr_vnIndex st @ node_hits vMatch h pos\<rparr>)"
proof (induction h arbitrary: pos st B B' C C')
  case 0
  have "pos < length vMatch" using 0 assms(2) by simp
  then show ?case using 0 by (subst TraverseAndExtract.simps) (simp add: use_hash_ok node_hits_leaf)
next
  case (Suc h)
  have c: "2 * pos < level_size (length xs) h" using Suc.prems(2) by (rule level_size_child)
  have lt: "nBitsUsed st < length (vBits t)" "vBits t ! nBitsUsed st = (node_hits vMatch (Suc h) pos \<noteq> [])"
    using Suc.prems(3,5) by (auto simp: nth_append)
  show ?case
  proof (cases "node_hits vMatch (Suc h) pos = []")
    case True
    then show ?thesis using lt Suc.prems by (subst TraverseAndExtract.simps) (simp add: use_hash_ok)
  next
    case False
    define l r where "l = 2 * pos" and "r = (2 * pos + 1 < level_size (length xs) h)"
    define st1 where "st1 = st\<lparr>nBitsUsed := nBitsUsed st + 1\<rparr>"
    have ext: "TraverseAndExtract H null t (Suc h) pos st =
       (let (left, st) = TraverseAndExtract H null t h l st1
        in if r then let (right, st) = TraverseAndExtract H null t h (l + 1) st
                     in (H left right, if right = left then st\<lparr>tr_fBad := True\<rparr> else st)
           else (H left left, st))"
      unfolding l_def r_def st1_def
      by (rule TraverseAndExtract_node [OF assms(1) Suc.prems(1,2) assms(4) lt(1)]) (use lt False in simp)
    have bits: "vBits t = (B @ [True]) @ node_bits vMatch h l @ (if r then node_bits vMatch h (l + 1) else []) @ B'"
      and hs: "vHash t = C @ node_hashes H xs vMatch h l @ (if r then node_hashes H xs vMatch h (l + 1) else []) @ C'"
      using Suc.prems(3,4) False assms(2) by (simp_all add: l_def r_def)
    note left = Suc.IH [OF _ c [folded l_def] bits hs, of st1]
    define st2 where "st2 = st1\<lparr>nBitsUsed := length ((B @ [True]) @ node_bits vMatch h l),
         nHashUsed := length (C @ node_hashes H xs vMatch h l),
         tr_vMatch := tr_vMatch st1 @ map ((!) xs) (node_hits vMatch h l), tr_vnIndex := tr_vnIndex st1 @ node_hits vMatch h l\<rparr>"
    have "TraverseAndExtract H null t h l st1 = (tree_node H xs h l, st2)"
      using left Suc.prems(1,5,6) by (simp add: st1_def st2_def)
    note ext = ext [unfolded this]
    have hits: "node_hits vMatch (Suc h) pos = node_hits vMatch h l @ (if r then node_hits vMatch h (l + 1) else [])"
      by (simp add: node_hits_split l_def r_def assms(2))
    show ?thesis
    proof (cases r)
      case True
      have "TraverseAndExtract H null t h (l + 1) st2 = (tree_node H xs h (l + 1), st2\<lparr>
          nBitsUsed := length ((B @ [True] @ node_bits vMatch h l) @ node_bits vMatch h (l + 1)),
          nHashUsed := length ((C @ node_hashes H xs vMatch h l) @ node_hashes H xs vMatch h (l + 1)),
          tr_vMatch := tr_vMatch st2 @ map ((!) xs) (node_hits vMatch h (l + 1)),
          tr_vnIndex := tr_vnIndex st2 @ node_hits vMatch h (l + 1)\<rparr>)"
        using Suc.IH [of "l + 1" "B @ [True] @ node_bits vMatch h l" B' "C @ node_hashes H xs vMatch h l" C' st2]
          Suc.prems(1) True bits hs by (simp add: st2_def l_def r_def)
      moreover have "tree_node H xs h (l + 1) \<noteq> tree_node H xs h l"
        using assms(3) True unfolding distinct_siblings_def l_def r_def by metis
      ultimately show ?thesis using ext True False hits assms(2) by (auto simp: l_def r_def st1_def st2_def)
    next
      case r: False
      then show ?thesis using ext False hits assms(2) by (auto simp: l_def r_def st1_def st2_def)
    qed
  qed
qed

section \<open>Extraction from any tree\<close>

lemma TraverseAndExtract_bad: "TraverseAndExtract H null t h pos st = (a, st') \<Longrightarrow> tr_fBad st \<Longrightarrow> tr_fBad st'"
proof (induction h arbitrary: pos st a st')
  case 0
  then show ?case by (subst (asm) TraverseAndExtract.simps) (auto simp: use_hash_def Let_def split: if_splits)
next
  case (Suc h)
  have d: "Suc h - 1 = h" by simp
  show ?case using Suc.prems
    unfolding TraverseAndExtract.simps [of H null t "Suc h"] Let_def d
    by (auto simp: use_hash_def Let_def split: prod.splits if_splits dest: Suc.IH)
qed

text \<open>The pairs of hashes that a traversal combines, along the lines of \<open>TraverseAndExtract\<close>.\<close>

fun extract_pairs :: "('h \<Rightarrow> 'h \<Rightarrow> 'h) \<Rightarrow> 'h \<Rightarrow> 'h CPartialMerkleTree \<Rightarrow> nat \<Rightarrow> nat \<Rightarrow> 'h traversal \<Rightarrow> ('h \<times> 'h) list" where
  "extract_pairs H null t 0 pos st = []"
| "extract_pairs H null t (Suc h) pos st =
     (if nBitsUsed st \<ge> length (vBits t) \<or> \<not> vBits t ! nBitsUsed st then []
      else let st1 = st\<lparr>nBitsUsed := nBitsUsed st + 1\<rparr>;
               (left, st2) = TraverseAndExtract H null t h (2 * pos) st1
           in extract_pairs H null t h (2 * pos) st1 @
              (if 2 * pos + 1 < level_size (nTransactions t) h
               then (left, fst (TraverseAndExtract H null t h (2 * pos + 1) st2)) # extract_pairs H null t h (2 * pos + 1) st2
               else [(left, left)]))"

definition partial_tree_pairs :: "('h \<Rightarrow> 'h \<Rightarrow> 'h) \<Rightarrow> 'h \<Rightarrow> 'h CPartialMerkleTree \<Rightarrow> ('h \<times> 'h) list" where
  "partial_tree_pairs H null t =
     (case tree_height (nTransactions t) 0 of
        None \<Rightarrow> []
      | Some L \<Rightarrow> extract_pairs H null t L 0
          \<lparr>nBitsUsed = 0, nHashUsed = 0, tr_vMatch = [], tr_vnIndex = [], tr_fBad = fBad t\<rparr>)"

lemma level_pairs_subset:
  "2 \<le> level_size (length xs) h \<Longrightarrow> set (level_pairs ((merkle_level H ^^ h) xs)) \<subseteq> set (merkle_pairs H xs)"
proof (induction h arbitrary: xs)
  case 0
  then show ?case by (simp add: merkle_pairs_step)
next
  case (Suc h)
  have l: "2 \<le> length xs" using Suc.prems level_size_mono [of "length xs" 0 "Suc h"] by simp
  have "2 \<le> level_size (length (merkle_level H xs)) h"
    using Suc.prems level_iterate [of h H "merkle_level H xs"] level_iterate [of "Suc h" H xs]
    by (simp only: funpow_Suc_right o_apply) (metis length_map length_upt diff_zero)
  from Suc.IH [OF this] show ?case by (simp add: merkle_pairs_step [OF l] funpow_Suc_right del: funpow.simps) blast
qed

lemma node_pair:
  assumes "2 \<le> level_size (length xs) h" and "pos < level_size (length xs) (Suc h)"
  shows "(tree_node H xs h (2 * pos), tree_node H xs h (if 2 * pos + 1 < level_size (length xs) h then 2 * pos + 1 else 2 * pos))
    \<in> set (merkle_pairs H xs)"
  using level_pairs_nth [of pos "(merkle_level H ^^ h) xs"] level_pairs_subset [OF assms(1), of H] level_size_child [OF assms(2)]
  by (auto simp: level_iterate split: if_splits)

text \<open>What a traversal below a node gives when all it was told is true.\<close>

definition is_node :: "('h \<Rightarrow> 'h \<Rightarrow> 'h) \<Rightarrow> 'h list \<Rightarrow> 'h \<Rightarrow> bool" where
  "is_node H xs hash \<longleftrightarrow> (\<exists>h pos. pos < level_size (length xs) h \<and> hash = tree_node H xs h pos)"

definition true_part :: "('h \<Rightarrow> 'h \<Rightarrow> 'h) \<Rightarrow> 'h list \<Rightarrow> 'h list \<Rightarrow> nat \<Rightarrow> nat \<Rightarrow> 'h traversal \<Rightarrow> 'h traversal \<Rightarrow> bool" where
  "true_part H xs hashes lo hi st st' \<longleftrightarrow>
     (\<exists>ks. tr_vnIndex st' = tr_vnIndex st @ ks \<and> tr_vMatch st' = tr_vMatch st @ map ((!) xs) ks \<and>
        sorted_wrt (<) ks \<and> set ks \<subseteq> {lo..<min hi (length xs)}) \<and>
     (\<forall>i. nHashUsed st \<le> i \<and> i < nHashUsed st' \<longrightarrow> is_node H xs (hashes ! i))"

lemma true_part_join:
  assumes "true_part H xs hashes lo mid a b" and "true_part H xs hashes mid hi b c" and "lo \<le> mid" and "mid \<le> hi"
  shows "true_part H xs hashes lo hi a c"
proof -
  obtain ks where ks: "tr_vnIndex b = tr_vnIndex a @ ks" "tr_vMatch b = tr_vMatch a @ map ((!) xs) ks"
    "sorted_wrt (<) ks" "set ks \<subseteq> {lo..<min mid (length xs)}" using assms(1) unfolding true_part_def by blast
  obtain js where js: "tr_vnIndex c = tr_vnIndex b @ js" "tr_vMatch c = tr_vMatch b @ map ((!) xs) js"
    "sorted_wrt (<) js" "set js \<subseteq> {mid..<min hi (length xs)}" using assms(2) unfolding true_part_def by blast
  have "i < j" if "i \<in> set ks" "j \<in> set js" for i j
    using subsetD [OF ks(4) that(1)] subsetD [OF js(4) that(2)] by simp
  then have "sorted_wrt (<) (ks @ js)" using ks(3) js(3) by (simp add: sorted_wrt_append)
  moreover have "set (ks @ js) \<subseteq> {lo..<min hi (length xs)}" using ks(4) js(4) assms(3,4) by fastforce
  ultimately show ?thesis
    using ks(1,2) js(1,2) assms(1,2) unfolding true_part_def
    by (intro conjI exI [of _ "ks @ js"]) (auto simp: not_le [symmetric])
qed

lemma true_part_none:
  "tr_vnIndex st' = tr_vnIndex st \<Longrightarrow> tr_vMatch st' = tr_vMatch st \<Longrightarrow> nHashUsed st' \<le> Suc (nHashUsed st) \<Longrightarrow>
    is_node H xs (hashes ! nHashUsed st) \<Longrightarrow> true_part H xs hashes lo hi st st'"
  unfolding true_part_def by (auto simp: le_less_Suc_eq dest: le_antisym)

lemma true_part_bits: "true_part H xs hashes lo hi (st\<lparr>nBitsUsed := n\<rparr>) st' = true_part H xs hashes lo hi st st'"
  by (simp add: true_part_def)

text \<open>
  Whatever the bits, the hashes and the number of transactions are: if no two of the pairs collide
  and a traversal ends well and returns the true hash of the node, then what it matched are
  transactions at their true positions and the hashes it used are nodes of the true tree.
\<close>

lemma TraverseAndExtract_sound:
  assumes free: "no_collision H P" and sub: "set (merkle_pairs H xs) \<subseteq> P" and n: "nTransactions t < 2 ^ 30"
    and L: "L \<le> 30" "\<forall>k < L. 2 \<le> level_size (length xs) k"
  shows "h \<le> L \<Longrightarrow> pos < level_size (length xs) h \<Longrightarrow> pos < level_size (nTransactions t) h \<Longrightarrow>
    set (extract_pairs H null t h pos st) \<subseteq> P \<Longrightarrow>
    TraverseAndExtract H null t h pos st = (tree_node H xs h pos, st') \<Longrightarrow> \<not> tr_fBad st' \<Longrightarrow>
    true_part H xs (vHash t) (pos * 2 ^ h) ((pos + 1) * 2 ^ h) st st'"
proof (induction h arbitrary: pos st st')
  case 0
  have "is_node H xs (xs ! pos)" unfolding is_node_def using 0(2) by (intro exI [of _ 0] exI [of _ pos]) simp
  then show ?case using "0.prems"(2,5,6)
    by (subst (asm) TraverseAndExtract.simps)
      (auto simp: use_hash_def Let_def true_part_def le_less_Suc_eq split: if_splits dest: le_antisym)
next
  case (Suc h)
  have c: "2 * pos < level_size (length xs) h" "2 * pos < level_size (nTransactions t) h"
    using Suc.prems(2,3) level_size_child by blast+
  have h: "h \<le> L" "Suc h \<le> 30" "2 \<le> level_size (length xs) h" using Suc.prems(1) L by auto
  define st1 where "st1 = st\<lparr>nBitsUsed := nBitsUsed st + 1\<rparr>"
  have lt: "nBitsUsed st < length (vBits t)" using Suc.prems(5,6)
    by (subst (asm) TraverseAndExtract.simps) (auto split: if_splits)
  show ?case
  proof (cases "vBits t ! nBitsUsed st")
    case False
    then have u: "use_hash null (vHash t) False pos st1 = (tree_node H xs (Suc h) pos, st')"
      using Suc.prems(5) lt by (subst (asm) TraverseAndExtract.simps) (simp add: st1_def)
    have "is_node H xs (tree_node H xs (Suc h) pos)" unfolding is_node_def using Suc.prems(2) by blast
    then show ?thesis using u Suc.prems(6)
      by (intro true_part_none) (auto simp: use_hash_def st1_def Let_def simp del: tree_node.simps split: if_splits)
  next
    case True
    obtain a st2 where a: "TraverseAndExtract H null t h (2 * pos) st1 = (a, st2)" by fastforce
    obtain b st3 where b: "TraverseAndExtract H null t h (2 * pos + 1) st2 = (b, st3)" by fastforce
    let ?r = "2 * pos + 1 < level_size (nTransactions t) h"
    have ext: "(if ?r then (H a b, if b = a then st3\<lparr>tr_fBad := True\<rparr> else st3) else (H a a, st2)) = (tree_node H xs (Suc h) pos, st')"
      using TraverseAndExtract_node [OF n h(2) Suc.prems(3) refl lt True, of H null] Suc.prems(5) a b
      by (simp add: st1_def)
    have pairs: "set (extract_pairs H null t h (2 * pos) st1) \<subseteq> P" "(a, if ?r then b else a) \<in> P"
      "?r \<Longrightarrow> set (extract_pairs H null t h (2 * pos + 1) st2) \<subseteq> P"
      using Suc.prems(4) lt True a b by (auto simp: st1_def Let_def split: if_splits)
    have e: "H a (if ?r then b else a) = H (tree_node H xs h (2 * pos))
        (tree_node H xs h (if 2 * pos + 1 < level_size (length xs) h then 2 * pos + 1 else 2 * pos))"
      using ext by (auto split: if_splits)
    note ab = no_collisionD [OF free e pairs(2) subsetD [OF sub node_pair [OF h(3) Suc.prems(2)]]]
    have fin: "st' = (if ?r then st3 else st2)" "?r \<Longrightarrow> b \<noteq> a" using ext Suc.prems(6) by (auto split: if_splits)
    have good: "\<not> tr_fBad st2" using TraverseAndExtract_bad [OF b] fin Suc.prems(6) by (auto split: if_splits)
    have left: "true_part H xs (vHash t) (pos * 2 ^ Suc h) ((2 * pos + 1) * 2 ^ h) st1 st2"
      using Suc.IH [OF h(1) c pairs(1) _ good] a ab by (simp add: mult.assoc mult.left_commute)
    have right: "true_part H xs (vHash t) ((2 * pos + 1) * 2 ^ h) ((pos + 1) * 2 ^ Suc h) st2 st'"
    proof (cases ?r)
      case r: True
      then have "2 * pos + 1 < level_size (length xs) h" using ab fin(2) by (auto split: if_splits)
      then show ?thesis
        using Suc.IH [OF h(1) _ r pairs(3) _ Suc.prems(6)] r b ab fin(1) by (simp add: algebra_simps)
    next
      case False
      then show ?thesis using fin(1) by (auto simp: true_part_def)
    qed
    show ?thesis
      using true_part_join [OF left right] unfolding st1_def true_part_bits by simp
  qed
qed

section \<open>Sizes\<close>

lemma node_bits_length: "length (node_bits vMatch h pos) < 2 ^ Suc h"
proof (induction h arbitrary: pos)
  case (Suc h)
  have "(1 :: nat) < 2 ^ Suc (Suc h)" by (rule one_less_power) simp_all
  then show ?case using Suc.IH [of "2 * pos"] Suc.IH [of "2 * pos + 1"] by (auto simp del: power_Suc) (simp_all only: power_Suc [of _ "Suc h"])
qed simp

lemma node_bits_hashes: "length (node_hashes H xs vMatch h pos) \<le> length (node_bits vMatch h pos)"
  by (induction h arbitrary: pos) (simp_all add: add_mono le_SucI)

lemma node_hashes_length:
  "pos < level_size (length vMatch) h \<Longrightarrow>
     length (node_hashes H xs vMatch h pos) \<le> min ((pos + 1) * 2 ^ h) (length vMatch) - pos * 2 ^ h"
proof (induction h arbitrary: pos)
  case (Suc h)
  let ?n = "length vMatch"
  define m a where "m = (2 :: nat) ^ h" and "a = 2 * pos * 2 ^ h"
  have m: "0 < m" "pos * 2 ^ Suc h = a" "(pos + 1) * 2 ^ Suc h = a + m + m" "(2 * pos + 1) * 2 ^ h = a + m"
    "(2 * pos + 1 + 1) * 2 ^ h = a + m + m"
    by (simp_all add: m_def a_def algebra_simps)
  have c: "2 * pos < level_size ?n h" using Suc.prems by (rule level_size_child)
  have a: "a < ?n" using level_size_under [OF c] m(4) by (simp add: m_def)
  have l: "length (node_hashes H xs vMatch h (2 * pos)) \<le> min (a + m) ?n - a"
    using Suc.IH [OF c] by (simp only: m a_def [symmetric])
  show ?case
  proof (cases "node_hits vMatch (Suc h) pos = [] \<or> \<not> 2 * pos + 1 < level_size ?n h")
    case True
    then have "length (node_hashes H xs vMatch (Suc h) pos) \<le> max 1 (length (node_hashes H xs vMatch h (2 * pos)))" by auto
    then show ?thesis unfolding m using l a m(1) by linarith
  next
    case False
    then have r: "2 * pos + 1 < level_size ?n h" and e: "length (node_hashes H xs vMatch (Suc h) pos) =
       length (node_hashes H xs vMatch h (2 * pos)) + length (node_hashes H xs vMatch h (2 * pos + 1))" by simp_all
    have "length (node_hashes H xs vMatch h (2 * pos + 1)) \<le> min (a + m + m) ?n - (a + m)"
      using Suc.IH [OF r] by (simp only: m)
    moreover have "a + m < ?n" using level_size_under [OF r] unfolding m by (simp add: m_def)
    ultimately show ?thesis unfolding m e using l by linarith
  qed
qed simp

section \<open>The bits on the wire\<close>

lemma pack_fold:
  assumes "m = (length bits + 7) div 8"
  shows "k \<le> length bits \<Longrightarrow>
    v = fold (\<lambda>p v. v[p div 8 := v ! (p div 8) OR push_bit (p mod 8) (of_bool (bits ! p))]) [0..<k] (replicate m (0 :: u8)) \<Longrightarrow>
    length v = m \<and> (\<forall>j < m. \<forall>i < 8. bit (v ! j) i \<longleftrightarrow> 8 * j + i < k \<and> bits ! (8 * j + i))"
proof (induction k arbitrary: v)
  case (Suc k)
  define u where "u = fold (\<lambda>p v. v[p div 8 := v ! (p div 8) OR push_bit (p mod 8) (of_bool (bits ! p))]) [0..<k] (replicate m (0 :: u8))"
  have u: "length u = m" "\<And>j i. j < m \<Longrightarrow> i < 8 \<Longrightarrow> bit (u ! j) i \<longleftrightarrow> 8 * j + i < k \<and> bits ! (8 * j + i)"
    using Suc.IH [OF _ u_def] Suc.prems(1) by auto
  have v: "v = u[k div 8 := u ! (k div 8) OR push_bit (k mod 8) (of_bool (bits ! k))]"
    using Suc.prems(2) by (simp add: u_def)
  have "bit (v ! j) i \<longleftrightarrow> 8 * j + i < Suc k \<and> bits ! (8 * j + i)" if j: "j < m" and i: "i < 8" for j i
  proof (cases "j = k div 8")
    case True
    have "bit (push_bit (k mod 8) (of_bool (bits ! k)) :: u8) i \<longleftrightarrow> i = k mod 8 \<and> bits ! k"
      using i by (auto simp: bit_push_bit_iff bit_1_iff)
    then have "bit (v ! j) i \<longleftrightarrow> (8 * j + i < k \<and> bits ! (8 * j + i)) \<or> (i = k mod 8 \<and> bits ! k)"
      using True j u(1) u(2) [OF j i] by (simp add: v bit_or_iff)
    moreover have "i = k mod 8 \<longleftrightarrow> 8 * j + i = k" using True i by presburger
    ultimately show ?thesis by (auto simp: less_Suc_eq)
  next
    case False
    then have "8 * j + i \<noteq> k" using i by auto
    then show ?thesis using False u(2) [OF j i] by (auto simp: v less_Suc_eq)
  qed
  then show ?case using u(1) v by simp
qed simp

lemma unpack_pack: "unpack_bits (pack_bits bits) = bits @ replicate ((length bits + 7) div 8 * 8 - length bits) False"
proof (rule nth_equalityI)
  have f: "length (pack_bits bits) = (length bits + 7) div 8"
    "\<And>j i. j < (length bits + 7) div 8 \<Longrightarrow> i < 8 \<Longrightarrow> bit (pack_bits bits ! j) i \<longleftrightarrow> 8 * j + i < length bits \<and> bits ! (8 * j + i)"
    using pack_fold [OF refl order_refl pack_bits_def] by auto
  then show "length (unpack_bits (pack_bits bits)) = length (bits @ replicate ((length bits + 7) div 8 * 8 - length bits) False)"
    by (simp add: unpack_bits_def)
  fix p assume "p < length (unpack_bits (pack_bits bits))"
  then have p: "p < (length bits + 7) div 8 * 8" using f by (simp add: unpack_bits_def)
  then have "unpack_bits (pack_bits bits) ! p = bit (pack_bits bits ! (p div 8)) (p mod 8)"
    using f(1) by (simp add: unpack_bits_def push_bit_eq_mult and_exp_eq_0_iff_not_bit)
  also have "\<dots> \<longleftrightarrow> p < length bits \<and> bits ! p"
    using f(2) [of "p div 8" "p mod 8"] p by simp
  finally show "unpack_bits (pack_bits bits) ! p = (bits @ replicate ((length bits + 7) div 8 * 8 - length bits) False) ! p"
    using p by (simp add: nth_append)
qed

lemma pack_bits_length: "length (pack_bits bits) = (length bits + 7) div 8"
  using pack_fold [OF refl order_refl pack_bits_def] by auto

interpretation hashes: codec "ser_vector id" "unser_vector (read_bytes 32)" "vec_ok (\<lambda>b. length b = 32)"
  by (rule codec_vector [OF codec_read_bytes])

lemma partial_tree_round:
  assumes "nTransactions t < 2 ^ 32" and "vec_ok (\<lambda>b. length b = 32) (vHash t)" and "(length (vBits t) + 7) div 8 \<le> MAX_SIZE"
  shows "unser_partial_tree (ser_partial_tree t @ s) =
    Inr (t\<lparr>vBits := vBits t @ replicate ((length (vBits t) + 7) div 8 * 8 - length (vBits t)) False, fBad := False\<rparr>, s)"
proof -
  have "vec_ok (\<lambda>_. True) (pack_bits (vBits t))" using assms(3) by (simp add: vec_ok_def pack_bits_length list_all_iff)
  then show ?thesis using assms(1)
    by (simp add: unser_partial_tree_def ser_partial_tree_def u32.round hashes.round [OF assms(2)] blob.round unpack_pack unat_of_nat)
qed

section \<open>The whole way of a partial tree\<close>

lemma merkle_hash_length: "length (merkle_hash a b) = 32"
  using Hash2_fips [of "replicate 64 0" a b] by (simp add: merkle_hash_def fips_sha256_length)

lemma tree_node_length:
  assumes "\<forall>x \<in> set xs. length x = 32"
  shows "pos < level_size (length xs) h \<Longrightarrow> length (tree_node merkle_hash xs h pos) = 32"
  using assms by (cases h) (simp_all add: merkle_hash_length)

lemma node_hashes_32:
  assumes "\<forall>x \<in> set xs. length x = 32" and "length vMatch = length xs"
  shows "pos < level_size (length xs) h \<Longrightarrow> list_all (\<lambda>b. length b = 32) (node_hashes merkle_hash xs vMatch h pos)"
proof (induction h arbitrary: pos)
  case 0
  then show ?case using assms by simp
next
  case (Suc h)
  have "2 * pos < level_size (length xs) h" using Suc.prems by (rule level_size_child)
  then show ?case using Suc.IH [of "2 * pos"] Suc.IH [of "2 * pos + 1"] tree_node_length [OF assms(1) Suc.prems] assms(2)
    by (simp del: tree_node.simps)
qed

text \<open>A tree of at most 30 levels as the constructor makes it, with any padding of its bits.\<close>

lemma ctor_ok:
  assumes "xs \<noteq> []" and "length xs < 2 ^ 30" and "length vMatch = length xs"
  shows "\<exists>L. tree_height (length xs) 0 = Some L \<and> L \<le> 30 \<and> level_size (length xs) L = 1 \<and>
    (\<forall>k < L. 2 \<le> level_size (length xs) k) \<and>
    CPartialMerkleTree_ctor H xs vMatch =
      Some \<lparr>nTransactions = length xs, vBits = node_bits vMatch L 0, vHash = node_hashes H xs vMatch L 0, fBad = False\<rparr>"
proof -
  obtain L where L: "tree_height (length xs) 0 = Some L" "L \<le> 30" "level_size (length xs) L = 1" "\<forall>k < L. 2 \<le> level_size (length xs) k"
    using tree_height_ok [of "length xs" 0] assms(1,2) by auto
  moreover have "uint32 (length xs) = length xs" using assms(2) by simp
  ultimately show ?thesis
    using TraverseAndBuild_ok [OF assms(2,3) L(2), of 0] by (simp add: CPartialMerkleTree_ctor_def)
qed

lemma MAX_transactions: "MAX_BLOCK_WEIGHT div MIN_TRANSACTION_WEIGHT = 16666"
  by (simp add: MAX_BLOCK_WEIGHT_def MIN_TRANSACTION_WEIGHT_def WITNESS_SCALE_FACTOR_def)

lemma extract_ok:
  assumes "xs \<noteq> []" and "length xs \<le> MAX_BLOCK_WEIGHT div MIN_TRANSACTION_WEIGHT" and "length vMatch = length xs"
    and "distinct_siblings H xs" and "CPartialMerkleTree_ctor H xs vMatch = Some t" and "length pad < 8"
    and "(length (vBits t @ pad) + 7) div 8 = (length (vBits t) + 7) div 8"
  shows "ExtractMatches H null (t\<lparr>vBits := vBits t @ pad\<rparr>) [] =
    Some (merkle_root H null xs, map ((!) xs) (filter ((!) vMatch) [0..<length xs]), filter ((!) vMatch) [0..<length xs],
      t\<lparr>vBits := vBits t @ pad\<rparr>)"
proof -
  have n: "length xs < 2 ^ 30" using assms(2) by (simp add: MAX_transactions)
  obtain L where L: "tree_height (length xs) 0 = Some L" "L \<le> 30" "level_size (length xs) L = 1" "\<forall>k < L. 2 \<le> level_size (length xs) k"
    and t: "t = \<lparr>nTransactions = length xs, vBits = node_bits vMatch L 0, vHash = node_hashes H xs vMatch L 0, fBad = False\<rparr>"
    using ctor_ok [OF assms(1) n assms(3), of H] assms(5) by auto
  let ?t = "t\<lparr>vBits := vBits t @ pad\<rparr>"
  let ?st = "\<lparr>nBitsUsed = 0, nHashUsed = 0, tr_vMatch = [], tr_vnIndex = [], tr_fBad = fBad ?t\<rparr>"
  have pos: "0 < level_size (length xs) L" using L(3) by simp
  have "length xs \<le> 2 ^ L" using level_size_cover [of "length xs" L] L(3) by simp
  then have hits: "node_hits vMatch L 0 = filter ((!) vMatch) [0..<length xs]" using assms(3) by (simp add: node_hits_def)
  have ext: "TraverseAndExtract H null ?t L 0 ?st =
    (tree_node H xs L 0, ?st\<lparr>nBitsUsed := length (node_bits vMatch L 0), nHashUsed := length (node_hashes H xs vMatch L 0),
       tr_vMatch := map ((!) xs) (node_hits vMatch L 0), tr_vnIndex := node_hits vMatch L 0\<rparr>)"
    using TraverseAndExtract_ok [OF n assms(3,4), of ?t L 0 "[]" pad "[]" "[]" ?st null] L(2) pos by (simp add: t)
  have "length (node_hashes H xs vMatch L 0) \<le> length xs"
    using node_hashes_length [of 0 vMatch L H xs] pos assms(3) by simp
  moreover have "length (node_hashes H xs vMatch L 0) \<le> length (node_bits vMatch L 0) + length pad"
    using node_bits_hashes [of H xs vMatch L 0] by linarith
  ultimately show ?thesis
    unfolding ExtractMatches_def
    using assms(1,2,7) L(1) ext merkle_root_node [OF L(3,4), of H null] by (simp add: t hits)
qed

lemma partial_tree_delivered:
  assumes "xs \<noteq> []" and "length xs \<le> MAX_BLOCK_WEIGHT div MIN_TRANSACTION_WEIGHT" and "length vMatch = length xs"
    and "distinct_siblings merkle_hash xs" and "\<forall>x \<in> set xs. length x = 32"
  shows "\<exists>t t'. CPartialMerkleTree_ctor merkle_hash xs vMatch = Some t \<and>
    (\<forall>s. unser_partial_tree (ser_partial_tree t @ s) = Inr (t', s)) \<and>
    ExtractMatches merkle_hash null t' [] =
      Some (merkle_root merkle_hash null xs, map ((!) xs) (filter ((!) vMatch) [0..<length xs]), filter ((!) vMatch) [0..<length xs], t')"
proof -
  have n: "length xs < 2 ^ 30" "length xs \<le> 16666" using assms(2) by (simp_all add: MAX_transactions)
  obtain L where L: "level_size (length xs) L = 1" "\<forall>k < L. 2 \<le> level_size (length xs) k"
    and c: "CPartialMerkleTree_ctor merkle_hash xs vMatch =
      Some \<lparr>nTransactions = length xs, vBits = node_bits vMatch L 0, vHash = node_hashes merkle_hash xs vMatch L 0, fBad = False\<rparr>"
    using ctor_ok [OF assms(1) n(1) assms(3), of merkle_hash] by blast
  let ?t = "\<lparr>nTransactions = length xs, vBits = node_bits vMatch L 0, vHash = node_hashes merkle_hash xs vMatch L 0, fBad = False\<rparr>"
  define pad where "pad = replicate ((length (vBits ?t) + 7) div 8 * 8 - length (vBits ?t)) False"
  have "L \<le> 15"
  proof (rule ccontr)
    assume "\<not> L \<le> 15"
    then have "2 \<le> level_size (length xs) 15" using L(2) by simp
    then show False using level_size_ge2 [of "length xs" 15] n(2) by simp
  qed
  then have "(2 :: nat) ^ Suc L \<le> 2 ^ 16" by (intro power_increasing) simp_all
  then have b: "length (vBits ?t) \<le> 65536" using node_bits_length [of vMatch L 0] by simp
  have "length (node_hashes merkle_hash xs vMatch L 0) \<le> length xs"
    using node_hashes_length [of 0 vMatch L merkle_hash xs] L(1) assms(3) by simp
  then have "vec_ok (\<lambda>b. length b = 32) (vHash ?t)"
    using node_hashes_32 [OF assms(5,3), of 0 L] L(1) n(2) by (simp add: vec_ok_def MAX_SIZE_def)
  moreover have "(length (vBits ?t) + 7) div 8 \<le> MAX_SIZE" using b by (simp add: MAX_SIZE_def)
  ultimately have r: "unser_partial_tree (ser_partial_tree ?t @ s) = Inr (?t\<lparr>vBits := vBits ?t @ pad\<rparr>, s)" for s
    using partial_tree_round [of ?t s] n(1) by (simp add: pad_def)
  have p: "length (vBits ?t @ pad) = (length (vBits ?t) + 7) div 8 * 8" "length pad < 8"
    unfolding pad_def length_append length_replicate by presburger+
  have "(length (vBits ?t @ pad) + 7) div 8 = (length (vBits ?t) + 7) div 8" unfolding p by presburger
  from extract_ok [OF assms(1-4) c p(2) this, of null] show ?thesis using c r by blast
qed

section \<open>Serving a filtered block\<close>

text \<open>What the filter of a client asks for: its transactions, data in their outputs, and outpoints they spend.\<close>

definition client_wants :: "CBloomFilter \<Rightarrow> Transaction \<Rightarrow> bool" where
  "client_wants f tx \<longleftrightarrow>
     bloom_contains f (ComputeHash tx) = Some True \<or>
     (\<exists>i < length (vout tx). \<exists>data \<in> set (script_pushes (scriptPubKey (vout tx ! i))). data \<noteq> [] \<and> bloom_contains f data = Some True) \<or>
     (\<exists>txin \<in> set (vin tx). bloom_contains_outpoint f (prevout txin) = Some True)"

lemma relevant_inputs_total: "usable f \<Longrightarrow> \<exists>b. relevant_inputs f ins = Some b"
proof (induction ins)
  case (Cons t ins)
  obtain b where "bloom_contains_outpoint f (prevout t) = Some b"
    using bloom_contains_total [OF Cons.prems] by (auto simp: bloom_contains_outpoint_def)
  then show ?case using Cons script_match_ok [OF Cons.prems, of "scriptSig t"] by auto
qed auto

lemma IsRelevantAndUpdate_total:
  assumes "usable f"
  shows "\<exists>r f'. IsRelevantAndUpdate f tx = Some (r, f') \<and> grows f f'"
proof -
  obtain b where b: "bloom_contains f (ComputeHash tx) = Some b" using bloom_contains_total [OF assms] by blast
  obtain r f' where r: "relevant_outputs (ComputeHash tx) 0 (vout tx) b f = Some (r, f')" "grows f f'"
    using relevant_outputs_ok [OF assms] by meson
  have "usable f'" using r(2) by (simp add: grows_def)
  then obtain c where "relevant_inputs f' (vin tx) = Some c" using relevant_inputs_total by blast
  then show ?thesis using b r grows_refl [OF assms] by (auto simp: IsRelevantAndUpdate_def)
qed

lemma IsRelevantAndUpdate_wants:
  assumes "usable f" and "client_wants f tx"
  shows "\<exists>f'. IsRelevantAndUpdate f tx = Some (True, f')"
  using assms(2) unfolding client_wants_def
proof (elim disjE exE bexE conjE)
  assume h: "bloom_contains f (ComputeHash tx) = Some True"
  obtain f' where "relevant_outputs (ComputeHash tx) 0 (vout tx) True f = Some (True, f')"
    using relevant_outputs_ok [OF assms(1), of "ComputeHash tx" 0 "vout tx" True] by auto
  then show ?thesis using h not_empty [OF h] by (auto simp: IsRelevantAndUpdate_def)
next
  fix i data assume "i < length (vout tx)" "data \<in> set (script_pushes (scriptPubKey (vout tx ! i)))" "data \<noteq> []"
    "bloom_contains f data = Some True"
  then show ?thesis using IsRelevantAndUpdate_output [OF assms(1)] by blast
next
  fix txin assume "txin \<in> set (vin tx)" "bloom_contains_outpoint f (prevout txin) = Some True"
  then show ?thesis using IsRelevantAndUpdate_spend [OF assms(1)] by blast
qed

lemma client_wants_grows: "grows f f' \<Longrightarrow> client_wants f tx \<Longrightarrow> client_wants f' tx"
  unfolding client_wants_def grows_def bloom_contains_outpoint_def by blast

lemma match_txs_filter:
  "usable f \<Longrightarrow> \<exists>vMatch matched f'. match_txs i txs (Some f) txids = Some (vMatch, map ComputeHash txs, matched, Some f') \<and>
     length vMatch = length txs \<and> (\<forall>j < length txs. client_wants f (txs ! j) \<longrightarrow> vMatch ! j)"
proof (induction txs arbitrary: i f)
  case (Cons tx txs)
  let ?ids = "case txids of None \<Rightarrow> False | Some ids \<Rightarrow> ComputeHash tx \<in> ids"
  obtain r g where r: "IsRelevantAndUpdate f tx = Some (r, g)" "grows f g" using IsRelevantAndUpdate_total [OF Cons.prems] by blast
  define h where "h = (if ?ids then f else g)"
  have h: "usable h" "grows f h" using Cons.prems r(2) grows_refl by (auto simp: h_def grows_def)
  obtain vMatch matched f' where m: "match_txs (i + 1) txs (Some h) txids = Some (vMatch, map ComputeHash txs, matched, Some f')"
    "length vMatch = length txs" "\<forall>j < length txs. client_wants h (txs ! j) \<longrightarrow> vMatch ! j"
    using Cons.IH [OF h(1), of "i + 1"] by blast
  have "r" if "client_wants f tx" using IsRelevantAndUpdate_wants [OF Cons.prems that] r(1) by simp
  moreover have "\<exists>matched. match_txs i (tx # txs) (Some f) txids =
      Some ((?ids \<or> r) # vMatch, map ComputeHash (tx # txs), matched, Some f')"
    using m(1) r(1) by (cases ?ids) (simp_all add: h_def Let_def)
  moreover have "client_wants f (txs ! j) \<longrightarrow> vMatch ! j" if "j < length txs" for j
    using m(3) that client_wants_grows [OF h(2)] by blast
  ultimately show ?case using m(2) by (fastforce simp: less_Suc_eq_0_disj)
qed simp

lemma match_txs_ids:
  "\<exists>matched. match_txs i txs None (Some ids) = Some (map (\<lambda>tx. ComputeHash tx \<in> ids) txs, map ComputeHash txs, matched, None)"
proof (induction txs arbitrary: i)
  case (Cons tx txs)
  then obtain m where "match_txs (i + 1) txs None (Some ids) = Some (map (\<lambda>tx. ComputeHash tx \<in> ids) txs, map ComputeHash txs, m, None)" by blast
  then show ?case by (simp add: Let_def)
qed simp

text \<open>The hashes of a block that can be proved: enough for a tree, and siblings are never equal.\<close>

definition provable_block :: "Block \<Rightarrow> bool" where
  "provable_block block \<longleftrightarrow> header_ok (header block) \<and> vtx block \<noteq> [] \<and>
     length (vtx block) \<le> MAX_BLOCK_WEIGHT div MIN_TRANSACTION_WEIGHT \<and>
     distinct_siblings merkle_hash (map ComputeHash (vtx block))"

lemma merkle_block_round:
  assumes "provable_block block" and "length vMatch = length (vtx block)"
    and "match_txs 0 (vtx block) filt txids = Some (vMatch, map ComputeHash (vtx block), matched, filt')"
  shows "\<exists>mb mb' root mutated. CMerkleBlock_ctor block filt txids = Some (mb, filt') \<and>
    unser_merkle_block (ser_merkle_block mb @ s) = Inr (mb', s) \<and> mb_header mb' = header block \<and>
    BlockMerkleRoot block = Some (root, mutated) \<and>
    ExtractMatches merkle_hash uint256_null (mb_txn mb') [] =
      Some (root, map (\<lambda>i. ComputeHash (vtx block ! i)) (filter ((!) vMatch) [0..<length (vtx block)]),
        filter ((!) vMatch) [0..<length (vtx block)], mb_txn mb')"
proof -
  let ?xs = "map ComputeHash (vtx block)"
  have p: "?xs \<noteq> []" "length ?xs \<le> MAX_BLOCK_WEIGHT div MIN_TRANSACTION_WEIGHT" "length vMatch = length ?xs"
    "distinct_siblings merkle_hash ?xs" "\<forall>x \<in> set ?xs. length x = 32" "header_ok (header block)"
    using assms(1,2) by (auto simp: provable_block_def ComputeHash_length)
  obtain t t' where t: "CPartialMerkleTree_ctor merkle_hash ?xs vMatch = Some t"
    "\<And>s. unser_partial_tree (ser_partial_tree t @ s) = Inr (t', s)"
    "ExtractMatches merkle_hash uint256_null t' [] = Some (merkle_root merkle_hash uint256_null ?xs,
       map ((!) ?xs) (filter ((!) vMatch) [0..<length ?xs]), filter ((!) vMatch) [0..<length ?xs], t')"
    using partial_tree_delivered [OF p(1-5)] by blast
  have "map ((!) ?xs) (filter ((!) vMatch) [0..<length ?xs]) =
      map (\<lambda>i. ComputeHash (vtx block ! i)) (filter ((!) vMatch) [0..<length (vtx block)])" by auto
  moreover have "length ?xs \<le> 2 ^ 31" using p(2) by (simp add: MAX_transactions)
  then obtain mutated where "BlockMerkleRoot block = Some (merkle_root merkle_hash uint256_null ?xs, mutated)"
    using MerkleComputation_ok [of ?xs False "2 ^ 32 - 1" merkle_hash uint256_null]
    by (auto simp: BlockMerkleRoot_def ComputeMerkleRoot_def)
  ultimately show ?thesis
    using t assms(3) p(6) by (simp add: CMerkleBlock_ctor_def ser_merkle_block_def unser_merkle_block_def hdr.round)
qed

section \<open>Inner levels as transactions\<close>

lemma level_size_add: "level_size (level_size n k) h = level_size n (k + h)"
  by (induction h) simp_all

lemma tree_node_add:
  assumes "ys = (merkle_level H ^^ k) xs"
  shows "i < level_size (length xs) (k + h) \<Longrightarrow> tree_node H ys h i = tree_node H xs (k + h) i"
proof (induction h arbitrary: i)
  case 0
  then show ?case by (simp add: assms level_iterate)
next
  case (Suc h)
  have l: "level_size (length ys) h = level_size (length xs) (k + h)" by (simp add: assms level_iterate level_size_add)
  have "2 * i < level_size (length xs) (k + h)" using Suc.prems by simp
  then show ?case using Suc.IH [of "2 * i"] Suc.IH [of "2 * i + 1"] by (simp add: l)
qed

lemma distinct_siblings_level:
  assumes "distinct_siblings H xs"
  shows "distinct_siblings H ((merkle_level H ^^ k) xs)"
  unfolding distinct_siblings_def
proof (intro allI impI)
  fix h i assume "2 * i + 1 < level_size (length ((merkle_level H ^^ k) xs)) h"
  then have "2 * i + 1 < level_size (length xs) (k + h)" by (simp add: level_iterate level_size_add)
  then show "tree_node H ((merkle_level H ^^ k) xs) h (2 * i) \<noteq> tree_node H ((merkle_level H ^^ k) xs) h (2 * i + 1)"
    using assms tree_node_add [OF refl, of "2 * i" xs k h H] tree_node_add [OF refl, of "2 * i + 1" xs k h H]
    unfolding distinct_siblings_def by simp
qed

section \<open>Three transactions\<close>

definition spv_leaf :: "u8 \<Rightarrow> uint256" where "spv_leaf n = replicate 32 n"

lemma spv_leaf_bytes: "spv_leaf n = [n, n, n, n, n, n, n, n, n, n, n, n, n, n, n, n, n, n, n, n, n, n, n, n, n, n, n, n, n, n, n, n]"
  by (simp add: spv_leaf_def numeral_eq_Suc)

lemma merkle_hash_fips: "merkle_hash a b = fips_sha256 (fips_sha256 (a @ b))"
  by (simp add: merkle_hash_def Hash2_fips)

text \<open>The hashes of the tree over three given identifiers, computed.\<close>

definition spv_left :: uint256 where
  "spv_left = concat (map WriteBE32 [0x39ce20be, 0xde82c96b, 0x8908bec4, 0xa157b09c, 0x549b3db9, 0xb9b474b, 0xda9ae9b9, 0x30310b4])"

definition spv_right :: uint256 where
  "spv_right = concat (map WriteBE32 [0x643d4b7e, 0x3699d2b3, 0xd8c9374b, 0x3600bdf1, 0xf573b799, 0xd2a56886, 0x236551a0, 0x16b42ddf])"

definition spv_root :: uint256 where
  "spv_root = concat (map WriteBE32 [0x223e023f, 0xadf1f053, 0xdf269888, 0x71f893c8, 0x21c28edf, 0x77d64a95, 0x5e6c2a02, 0xd547bdac])"

lemma spv_words: "be_words (spv_left @ r) = [0x39ce20be, 0xde82c96b, 0x8908bec4, 0xa157b09c, 0x549b3db9, 0xb9b474b, 0xda9ae9b9, 0x30310b4] @ be_words r"
  "be_words (spv_right @ r) = [0x643d4b7e, 0x3699d2b3, 0xd8c9374b, 0x3600bdf1, 0xf573b799, 0xd2a56886, 0x236551a0, 0x16b42ddf] @ be_words r" "be_words (spv_root @ r) = [0x223e023f, 0xadf1f053, 0xdf269888, 0x71f893c8, 0x21c28edf, 0x77d64a95, 0x5e6c2a02, 0xd547bdac] @ be_words r"
  unfolding spv_left_def spv_right_def spv_root_def be_words_write by (rule refl)+

lemma spv_lengths: "length spv_left = 32" "length spv_right = 32" "length spv_root = 32"
  by (simp_all add: spv_left_def spv_right_def spv_root_def)

lemma spv_left_eq: "merkle_hash (spv_leaf 1) (spv_leaf 2) = spv_left"
proof -
  have w: "be_words ((spv_leaf 1) @ (spv_leaf 2)) = [0x1010101, 0x1010101, 0x1010101, 0x1010101, 0x1010101, 0x1010101, 0x1010101, 0x1010101, 0x2020202, 0x2020202, 0x2020202, 0x2020202, 0x2020202, 0x2020202, 0x2020202, 0x2020202]" by (simp add: spv_leaf_bytes ReadBE32_def)
  show ?thesis
    unfolding merkle_hash_fips spv_left_def spv_right_def
    by (rule sha256d_64, simp add: spv_leaf_def) (simp only: w append.simps bsha256d_def sha_eval)
qed

lemma spv_right_eq: "merkle_hash (spv_leaf 3) (spv_leaf 3) = spv_right"
proof -
  have w: "be_words ((spv_leaf 3) @ (spv_leaf 3)) = [0x3030303, 0x3030303, 0x3030303, 0x3030303, 0x3030303, 0x3030303, 0x3030303, 0x3030303, 0x3030303, 0x3030303, 0x3030303, 0x3030303, 0x3030303, 0x3030303, 0x3030303, 0x3030303]" by (simp add: spv_leaf_bytes ReadBE32_def)
  show ?thesis
    unfolding merkle_hash_fips spv_left_def spv_right_def
    by (rule sha256d_64, simp add: spv_leaf_def) (simp only: w append.simps bsha256d_def sha_eval)
qed

lemma spv_root_eq: "merkle_hash spv_left spv_right = spv_root"
proof -
  have w: "be_words (spv_left @ spv_right) = [0x39ce20be, 0xde82c96b, 0x8908bec4, 0xa157b09c, 0x549b3db9, 0xb9b474b, 0xda9ae9b9, 0x30310b4, 0x643d4b7e, 0x3699d2b3, 0xd8c9374b, 0x3600bdf1, 0xf573b799, 0xd2a56886, 0x236551a0, 0x16b42ddf]"
    using spv_words(1) [of spv_right] spv_words(2) [of "[]"] by simp
  show ?thesis
    unfolding merkle_hash_fips spv_root_def
    by (rule sha256d_64, simp add: spv_lengths) (simp only: w append.simps bsha256d_def sha_eval)
qed

lemma spv_distinct: "spv_left \<noteq> spv_right" "spv_left \<noteq> spv_root" "spv_right \<noteq> spv_root" "spv_root \<noteq> uint256_null"
proof -
  have "be_words uint256_null = [0, 0, 0, 0, 0, 0, 0, 0]" by (simp add: uint256_null_def ReadBE32_def numeral_eq_Suc)
  then show "spv_root \<noteq> uint256_null" using spv_words(3) [of "[]"] by auto
  show "spv_left \<noteq> spv_right" "spv_left \<noteq> spv_root" "spv_right \<noteq> spv_root"
    using spv_words [of "[]"] by auto
qed

section \<open>Properties\<close>

text \<open>
  C34: A block filtered for a client reaches it whole. Whatever filter the client has set, serving the
  block never fails, the message decodes to the header of the block and a partial tree, and
  \<open>ExtractMatches\<close> returns the Merkle root of the block with true identifiers at their positions,
  among them every transaction that the filter asks for.
\<close>
theorem merkle_block_filtered:
  assumes "provable_block block" and "usable f"
  shows "\<exists>mb f' mb' root mutated hits. CMerkleBlock_ctor block (Some f) None = Some (mb, Some f') \<and>
    unser_merkle_block (ser_merkle_block mb @ s) = Inr (mb', s) \<and> mb_header mb' = header block \<and>
    BlockMerkleRoot block = Some (root, mutated) \<and>
    ExtractMatches merkle_hash uint256_null (mb_txn mb') [] =
      Some (root, map (\<lambda>i. ComputeHash (vtx block ! i)) hits, hits, mb_txn mb') \<and>
    (\<forall>i < length (vtx block). client_wants f (vtx block ! i) \<longrightarrow> i \<in> set hits)"
proof -
  obtain vMatch matched f' where m: "match_txs 0 (vtx block) (Some f) None = Some (vMatch, map ComputeHash (vtx block), matched, Some f')"
     "length vMatch = length (vtx block)" "\<forall>j < length (vtx block). client_wants f (vtx block ! j) \<longrightarrow> vMatch ! j"
    using match_txs_filter [OF assms(2), of 0 "vtx block" None] by blast
  have "\<forall>i < length (vtx block). client_wants f (vtx block ! i) \<longrightarrow> i \<in> set (filter ((!) vMatch) [0..<length (vtx block)])"
    using m(3) by simp
  then show ?thesis using merkle_block_round [OF assms(1) m(2,1), of s] by blast
qed

text \<open>
  A block served for a set of identifiers is decoded to exactly the transactions of the block in
  the set, under the Merkle root of the block.
\<close>
theorem merkle_block_txids:
  assumes "provable_block block"
  shows "\<exists>mb mb' root mutated. CMerkleBlock_ctor block None (Some ids) = Some (mb, None) \<and>
    unser_merkle_block (ser_merkle_block mb @ s) = Inr (mb', s) \<and> mb_header mb' = header block \<and>
    BlockMerkleRoot block = Some (root, mutated) \<and>
    (let hits = filter (\<lambda>i. ComputeHash (vtx block ! i) \<in> ids) [0..<length (vtx block)]
     in ExtractMatches merkle_hash uint256_null (mb_txn mb') [] =
          Some (root, map (\<lambda>i. ComputeHash (vtx block ! i)) hits, hits, mb_txn mb'))"
proof -
  obtain matched where m: "match_txs 0 (vtx block) None (Some ids) =
      Some (map (\<lambda>tx. ComputeHash tx \<in> ids) (vtx block), map ComputeHash (vtx block), matched, None)"
    using match_txs_ids by blast
  have "filter ((!) (map (\<lambda>tx. ComputeHash tx \<in> ids) (vtx block))) [0..<length (vtx block)] =
      filter (\<lambda>i. ComputeHash (vtx block ! i) \<in> ids) [0..<length (vtx block)]"
    by (rule filter_cong) simp_all
  then show ?thesis using merkle_block_round [OF assms _ m, of s] by (simp add: Let_def)
qed

definition spv_tx :: Transaction where
  "spv_tx = \<lparr>vin = [], vout = [\<lparr>nValue = 0, scriptPubKey = [2, 8, 9]\<rparr>], nLockTime = 0, tx_nVersion = 1\<rparr>"

definition spv_block :: Block where
  "spv_block = \<lparr>header = BlockHeader_null, vtx = [spv_tx], fChecked = False\<rparr>"

lemma spv_provable: "provable_block spv_block"
proof -
  have l: "level_size 1 h = 1" for h by (induction h) simp_all
  have "distinct_siblings merkle_hash [ComputeHash spv_tx]"
    unfolding distinct_siblings_def by (simp add: l [unfolded One_nat_def])
  then show ?thesis
    by (simp add: provable_block_def spv_block_def header_ok_def BlockHeader_null_def int32_range_def uint256_null_def MAX_transactions)
qed

theorem merkle_block_txids_witness:
  "\<exists>mb. CMerkleBlock_ctor spv_block None (Some {ComputeHash spv_tx}) = Some (mb, None)"
  using merkle_block_txids [OF spv_provable, of "{ComputeHash spv_tx}"] by auto

theorem merkle_block_filtered_witness:
  "\<exists>f mb f' mb' root hits. bloom_contains f [8, 9] = Some True \<and> CMerkleBlock_ctor spv_block (Some f) None = Some (mb, Some f') \<and>
     ExtractMatches merkle_hash uint256_null (mb_txn (mb' :: CMerkleBlock)) [] = Some (root, map (\<lambda>i. ComputeHash (vtx spv_block ! i)) hits, hits, mb_txn mb') \<and>
     0 \<in> set hits"
proof -
  obtain f where f: "usable f" "bloom_contains f [8, 9] = Some True"
    using bloom_insert_ok [of "\<lparr>vData = [0, 0], isFull = False, isEmpty = True, nHashFuncs = 3, nTweak = 5, nFlags = 1\<rparr>" "[8, 9]"]
    by (auto simp: usable_def grows_def)
  have "script_pushes [2, 8, 9] = [[8, 9]]"
    by (simp add: script_pushes.simps GetOp_def GetOp_size_def Let_def)
  then have "client_wants f (vtx spv_block ! 0)" using f(2) by (auto simp: client_wants_def spv_block_def spv_tx_def)
  moreover have "0 < length (vtx spv_block)" by (simp add: spv_block_def)
  moreover obtain mb f' mb' root hits where m: "CMerkleBlock_ctor spv_block (Some f) None = Some (mb, Some f')"
    "ExtractMatches merkle_hash uint256_null (mb_txn (mb' :: CMerkleBlock)) [] = Some (root, map (\<lambda>i. ComputeHash (vtx spv_block ! i)) hits, hits, mb_txn mb')"
    "\<forall>i < length (vtx spv_block). client_wants f (vtx spv_block ! i) \<longrightarrow> i \<in> set hits"
    by (rule merkle_block_filtered [OF spv_provable f(1), of "[]", THEN exE]) (elim exE conjE, rule that, assumption+)
  ultimately have "0 \<in> set hits" by blast
  from f(2) m(1,2) this show ?thesis by (rule_tac x = f in exI, intro exI conjI)
qed

text \<open>
  C35: A partial Merkle tree that lies about a block breaks the hash, unless it lies about the height
  of the tree. Let a tree, whatever number of transactions, bits and hashes it holds, have the height
  of the tree of a block, and let \<open>ExtractMatches\<close> return the Merkle root of the block (which is not
  null). Then two different pairs of hashes, combined for the root of the block or by the traversal,
  have the same hash; or the identifiers returned are those of the block at the returned positions,
  which ascend, and every hash in the tree is a node of the tree of the block.
\<close>
theorem ExtractMatches_sound:
  assumes "xs \<noteq> []" and "length xs < 2 ^ 30" and "tree_height (nTransactions t) 0 = tree_height (length xs) 0"
    and "ExtractMatches H null t [] = Some (merkle_root H null xs, vMatch, vnIndex, t')" and "merkle_root H null xs \<noteq> null"
  shows "collision H (merkle_pairs H xs @ partial_tree_pairs H null t) \<or>
    vMatch = map ((!) xs) vnIndex \<and> sorted_wrt (<) vnIndex \<and> set vnIndex \<subseteq> {..<length xs} \<and> list_all (is_node H xs) (vHash t)"
proof (cases "collision H (merkle_pairs H xs @ partial_tree_pairs H null t)")
  case False
  let ?st = "\<lparr>nBitsUsed = 0, nHashUsed = 0, tr_vMatch = [], tr_vnIndex = [], tr_fBad = fBad t\<rparr>"
  let ?P = "set (merkle_pairs H xs @ partial_tree_pairs H null t)"
  have n: "0 < nTransactions t" "nTransactions t < 2 ^ 30"
    using assms(4,5) by (auto simp: ExtractMatches_def MAX_transactions split: if_splits)
  obtain L where L: "tree_height (length xs) 0 = Some L" "L \<le> 30" "level_size (length xs) L = 1" "\<forall>k < L. 2 \<le> level_size (length xs) k"
    using tree_height_ok [of "length xs" 0] assms(1,2) by auto
  have p: "0 < level_size (length xs) L" "0 < level_size (nTransactions t) L" using L(3) level_size_pos [OF n(1)] by simp_all
  obtain root st where st: "TraverseAndExtract H null t L 0 ?st = (root, st)" by fastforce
  have r: "root = tree_node H xs L 0" "\<not> tr_fBad st" "vMatch = tr_vMatch st" "vnIndex = tr_vnIndex st" "nHashUsed st = length (vHash t)"
    using assms(3-5) L(1) st merkle_root_node [OF L(3,4), of H null] by (auto simp: ExtractMatches_def split: if_splits)
  have "no_collision H ?P" using False by (simp add: collision_iff)
  moreover have "set (merkle_pairs H xs) \<subseteq> ?P" "set (extract_pairs H null t L 0 ?st) \<subseteq> ?P"
    using assms(3) L(1) by (simp_all add: partial_tree_pairs_def)
  ultimately have "true_part H xs (vHash t) (0 * 2 ^ L) ((0 + 1) * 2 ^ L) ?st st"
    using TraverseAndExtract_sound [OF _ _ n(2) L(2,4) order_refl p _ st [unfolded r(1)] r(2)] by blast
  then show ?thesis using r by (fastforce simp: true_part_def list_all_length)
qed simp

text \<open>A block of three transactions, and a tree that proves the last of them.\<close>

definition spv_txids :: "uint256 list" where
  "spv_txids = [spv_leaf 1, spv_leaf 2, spv_leaf 3]"

definition spv_tree :: "uint256 CPartialMerkleTree" where
  "spv_tree = \<lparr>nTransactions = 3, vBits = [True, False, True, True], vHash = [spv_left, spv_leaf 3], fBad = False\<rparr>"

lemma spv_sizes: "spv_txids \<noteq> []" "length spv_txids = 3" "nTransactions spv_tree = 3" "spv_txids ! 2 = spv_leaf 3"
  by (simp_all add: spv_txids_def spv_tree_def)

lemma spv_leaves: "spv_leaf 1 \<noteq> spv_leaf 2" "spv_leaf 1 \<noteq> spv_leaf 3" "spv_leaf 2 \<noteq> spv_leaf 3"
  by (simp_all add: spv_leaf_bytes)

lemma spv_merkle_root: "merkle_root merkle_hash null spv_txids = spv_root"
  by (simp add: spv_txids_def spv_left_eq spv_right_eq spv_root_eq)

lemma spv_pairs: "merkle_pairs merkle_hash spv_txids = [(spv_leaf 1, spv_leaf 2), (spv_leaf 3, spv_leaf 3), (spv_left, spv_right)]"
  by (simp add: spv_txids_def spv_left_eq spv_right_eq)

lemma spv_height: "tree_height 3 0 = Some 2" "tree_height 2 0 = Some 1"
  by (simp_all add: tree_height.simps CalcTreeWidth_def)

lemmas spv_traversal = TraverseAndExtract.simps use_hash_def Let_def CalcTreeWidth_def spv_right_eq spv_root_eq
  spv_distinct spv_distinct [symmetric]

lemma spv_extract: "ExtractMatches merkle_hash uint256_null spv_tree [] = Some (spv_root, [spv_leaf 3], [2], spv_tree)"
  by (simp add: ExtractMatches_def MAX_transactions spv_tree_def spv_height spv_traversal)

lemma spv_tree_pairs: "partial_tree_pairs merkle_hash uint256_null spv_tree = [(spv_left, spv_right), (spv_leaf 3, spv_leaf 3)]"
  by (simp add: partial_tree_pairs_def spv_tree_def spv_height [unfolded Suc_1 [symmetric]] spv_traversal)

theorem ExtractMatches_sound_witness:
  "ExtractMatches merkle_hash uint256_null spv_tree [] = Some (merkle_root merkle_hash uint256_null spv_txids, [spv_leaf 3], [2], spv_tree) \<and>
   \<not> collision merkle_hash (merkle_pairs merkle_hash spv_txids @ partial_tree_pairs merkle_hash uint256_null spv_tree) \<and>
   [spv_leaf 3] = map ((!) spv_txids) [2] \<and> list_all (is_node merkle_hash spv_txids) (vHash spv_tree)"
proof -
  have e: "ExtractMatches merkle_hash uint256_null spv_tree [] = Some (merkle_root merkle_hash uint256_null spv_txids, [spv_leaf 3], [2], spv_tree)"
    by (simp add: spv_extract spv_merkle_root)
  have n: "\<not> collision merkle_hash (merkle_pairs merkle_hash spv_txids @ partial_tree_pairs merkle_hash uint256_null spv_tree)"
    using spv_distinct
    by (auto simp: collision_def spv_tree_pairs spv_pairs hash_pair_def spv_left_eq spv_right_eq spv_root_eq)
  show ?thesis
    using ExtractMatches_sound [OF _ _ _ e] n e spv_distinct(4) by (simp add: spv_merkle_root spv_sizes)
qed

text \<open>
  C36: The number of transactions is not authenticated. Take any level above the transactions in the
  tree of a block without equal siblings, and any mask over it: the constructor makes a partial tree
  of its hashes that states as many transactions as the level has nodes, \<open>ExtractMatches\<close> accepts it
  with the Merkle root of the block, and returns the masked inner nodes as transaction identifiers.
\<close>
theorem ExtractMatches_inner_node:
  assumes "distinct_siblings H xs" and "xs \<noteq> []" and "length xs \<le> MAX_BLOCK_WEIGHT div MIN_TRANSACTION_WEIGHT"
    and "\<forall>j < k. 2 \<le> level_size (length xs) j" and "length vMatch = level_size (length xs) k"
  shows "\<exists>t. CPartialMerkleTree_ctor H ((merkle_level H ^^ k) xs) vMatch = Some t \<and> nTransactions t = level_size (length xs) k \<and>
    ExtractMatches H null t [] = Some (merkle_root H null xs, map (tree_node H xs k) (filter ((!) vMatch) [0..<level_size (length xs) k]),
      filter ((!) vMatch) [0..<level_size (length xs) k], t)"
proof -
  let ?ys = "(merkle_level H ^^ k) xs"
  have l: "length ?ys = level_size (length xs) k" by (simp add: level_iterate)
  have "0 < level_size (length xs) k" using level_size_pos assms(2) by simp
  then have ys: "?ys \<noteq> []" "length ?ys \<le> MAX_BLOCK_WEIGHT div MIN_TRANSACTION_WEIGHT" "length vMatch = length ?ys"
    using l assms(3,5) level_size_le [of "length xs" k] by auto
  have n: "length ?ys < 2 ^ 30" using ys(2) by (simp add: MAX_transactions)
  obtain t where t: "CPartialMerkleTree_ctor H ?ys vMatch = Some t" "nTransactions t = length ?ys"
    using ctor_ok [OF ys(1) n ys(3), of H] by auto
  have "map ((!) ?ys) (filter ((!) vMatch) [0..<length ?ys]) = map (tree_node H xs k) (filter ((!) vMatch) [0..<length ?ys])"
    using l by (simp add: level_iterate)
  then show ?thesis
    using extract_ok [OF ys distinct_siblings_level [OF assms(1)] t(1), of "[]" null] t l merkle_root_levels [OF assms(4), of H null] by auto
qed

lemma spv_levels: "distinct_siblings merkle_hash spv_txids"
proof -
  have z: "level_size 3 (Suc (Suc h)) = 1" for h by (induction h) simp_all
  have "tree_node merkle_hash spv_txids h (2 * i) \<noteq> tree_node merkle_hash spv_txids h (2 * i + 1)" if "2 * i + 1 < level_size 3 h" for h i
    using that z [of "h - 2"] spv_leaves spv_distinct(1)
    by (cases h; cases "h - 1") (auto simp: spv_txids_def spv_left_eq spv_right_eq)
  then show ?thesis by (simp add: distinct_siblings_def spv_sizes)
qed

theorem ExtractMatches_inner_node_witness:
  "\<exists>t. CPartialMerkleTree_ctor merkle_hash [spv_left, spv_right] [True, False] = Some t \<and> nTransactions t = 2 \<and>
     ExtractMatches merkle_hash uint256_null t [] = Some (merkle_root merkle_hash uint256_null spv_txids, [spv_left], [0], t)"
proof -
  have "(merkle_level merkle_hash ^^ 1) spv_txids = [spv_left, spv_right]" by (simp add: spv_txids_def spv_left_eq spv_right_eq)
  moreover have "tree_node merkle_hash spv_txids 1 0 = spv_left" by (simp add: spv_txids_def spv_left_eq)
  moreover have "level_size (length spv_txids) 1 = 2" by (simp add: spv_sizes)
  moreover have "filter ((!) [True, False]) [0..<2] = [0]" by (simp add: upt_rec)
  ultimately show ?thesis
    using ExtractMatches_inner_node [OF spv_levels, of 1 "[True, False]" uint256_null]
    by (simp add: spv_sizes MAX_transactions del: One_nat_def)
qed

end
