(* ===== verification/BlockFiles.thy ===== *)
theory BlockFiles
  imports Chain
begin

text \<open>
  \<^verbatim>\<open>src/src/validation.cpp\<close>: where blocks and undo data are put in the numbered files. The free
  disk space is an argument; locks, logging, flushing and the preallocation of file ranges are left
  out. \<open>None\<close> is a loop that does not end or a file number out of range.
\<close>

section \<open>Files\<close>

definition MAX_BLOCKFILE_SIZE :: u32 where "MAX_BLOCKFILE_SIZE = 0x8000000"
definition BLOCKFILE_CHUNK_SIZE :: u32 where "BLOCKFILE_CHUNK_SIZE = 0x1000000"
definition UNDOFILE_CHUNK_SIZE :: u32 where "UNDOFILE_CHUNK_SIZE = 0x100000"

record block_files =
  vinfoBlockFile :: "CBlockFileInfo list"
  nLastBlockFile :: nat
  setDirtyFileInfo :: "nat set"
  fCheckForPruning :: bool

definition grow :: "CBlockFileInfo list \<Rightarrow> nat \<Rightarrow> CBlockFileInfo list" where
  "grow v n = v @ replicate (n + 1 - length v) CBlockFileInfo_null"

partial_function (option) next_file :: "CBlockFileInfo list \<Rightarrow> u32 \<Rightarrow> nat \<Rightarrow> (CBlockFileInfo list \<times> nat) option" where
  [code]: "next_file v nAddSize n =
     (if nSize (v ! n) + nAddSize \<ge> MAX_BLOCKFILE_SIZE then next_file (grow v (n + 1)) nAddSize (n + 1) else Some (v, n))"

text \<open>Whether the chunks up to the new size can be allocated, and whether pruning is to be considered.\<close>

definition new_chunks :: "u32 \<Rightarrow> u32 \<Rightarrow> u32 \<Rightarrow> bool" where
  "new_chunks chunk old new \<longleftrightarrow> (new + chunk - 1) div chunk > (old + chunk - 1) div chunk"

definition chunk_bytes :: "u32 \<Rightarrow> u32 \<Rightarrow> u32 \<Rightarrow> u32" where
  "chunk_bytes chunk old new = (new + chunk - 1) div chunk * chunk - old"

text \<open>The result holds the returned value and the position.\<close>

definition FindBlockPos ::
  "(u32 \<Rightarrow> bool) \<Rightarrow> bool \<Rightarrow> CDiskBlockPos \<Rightarrow> u32 \<Rightarrow> u32 \<Rightarrow> u64 \<Rightarrow> bool \<Rightarrow> block_files \<Rightarrow> (bool \<times> CDiskBlockPos \<times> block_files) option" where
  "FindBlockPos CheckDiskSpace fPruneMode pos nAddSize height nTime fKnown fs =
     (let first = (if fKnown then nat (pos_nFile pos) else nLastBlockFile fs);
          v = (if length (vinfoBlockFile fs) \<le> first then grow (vinfoBlockFile fs) first else vinfoBlockFile fs)
      in case (if fKnown then Some (v, first) else next_file v nAddSize first) of
           None \<Rightarrow> None
         | Some (v, n) \<Rightarrow>
             (let pos = (if fKnown then pos else \<lparr>pos_nFile = int n, pos_nPos = nSize (v ! n)\<rparr>);
                  info = AddBlock (v ! n) height nTime;
                  info = info\<lparr>nSize := (if fKnown then max (pos_nPos pos + nAddSize) (nSize info) else nSize info + nAddSize)\<rparr>;
                  more = (\<not> fKnown \<and> new_chunks BLOCKFILE_CHUNK_SIZE (pos_nPos pos) (nSize info));
                  fs = fs\<lparr>vinfoBlockFile := v[n := info], nLastBlockFile := n, fCheckForPruning := fCheckForPruning fs \<or> more \<and> fPruneMode\<rparr>
              in if more \<and> \<not> CheckDiskSpace (chunk_bytes BLOCKFILE_CHUNK_SIZE (pos_nPos pos) (nSize info)) then Some (False, pos, fs)
                 else Some (True, pos, fs\<lparr>setDirtyFileInfo := insert n (setDirtyFileInfo fs)\<rparr>)))"

definition FindUndoPos ::
  "(u32 \<Rightarrow> bool) \<Rightarrow> bool \<Rightarrow> nat \<Rightarrow> u32 \<Rightarrow> block_files \<Rightarrow> (bool \<times> CDiskBlockPos \<times> block_files) option" where
  "FindUndoPos CheckDiskSpace fPruneMode n nAddSize fs =
     (if n \<ge> length (vinfoBlockFile fs) then None
      else
        let info = vinfoBlockFile fs ! n;
            pos = \<lparr>pos_nFile = int n, pos_nPos = nUndoSize info\<rparr>;
            nNewSize = nUndoSize info + nAddSize;
            more = new_chunks UNDOFILE_CHUNK_SIZE (pos_nPos pos) nNewSize;
            fs = fs\<lparr>vinfoBlockFile := (vinfoBlockFile fs)[n := info\<lparr>nUndoSize := nNewSize\<rparr>], setDirtyFileInfo := insert n (setDirtyFileInfo fs),
                    fCheckForPruning := fCheckForPruning fs \<or> more \<and> fPruneMode\<rparr>
        in Some (\<not> more \<or> CheckDiskSpace (chunk_bytes UNDOFILE_CHUNK_SIZE (pos_nPos pos) nNewSize), pos, fs))"

section \<open>Positions do not overlap\<close>

definition files_ok :: "block_files \<Rightarrow> bool" where
  "files_ok fs \<longleftrightarrow> (\<forall>i < length (vinfoBlockFile fs). nSize (vinfoBlockFile fs ! i) < MAX_BLOCKFILE_SIZE)"

text \<open>The size of a file, zero when there is no such file yet.\<close>

definition file_size :: "CBlockFileInfo list \<Rightarrow> nat \<Rightarrow> nat" where
  "file_size v i = (if i < length v then unat (nSize (v ! i)) else 0)"

lemma grow_nth: "i < length (grow v n) \<Longrightarrow> grow v n ! i = (if i < length v then v ! i else CBlockFileInfo_null)"
  by (auto simp: grow_def nth_append)

lemma grow_length: "length (grow v n) = max (length v) (n + 1)"
  by (auto simp: grow_def)

lemma grow_size [simp]: "file_size (grow v n) i = file_size v i"
  by (auto simp: file_size_def grow_nth grow_length CBlockFileInfo_null_def)

lemma file_size_update: "n < length v \<Longrightarrow> file_size (v[n := info]) = (file_size v)(n := unat (nSize info))"
  by (auto simp: file_size_def fun_eq_iff nth_list_update)

text \<open>The search ends: in the worst case at a new, empty file.\<close>

lemma next_file_found:
  assumes a: "nAddSize < MAX_BLOCKFILE_SIZE"
  shows "n < length v \<Longrightarrow> \<exists>v' k. next_file v nAddSize n = Some (v', k) \<and> k < length v' \<and>
    \<not> nSize (v' ! k) + nAddSize \<ge> MAX_BLOCKFILE_SIZE \<and> file_size v' = file_size v \<and> length v \<le> length v'"
proof (induction "length v - n" arbitrary: n v rule: less_induct)
  case less
  show ?case
  proof (cases "nSize (v ! n) + nAddSize \<ge> MAX_BLOCKFILE_SIZE")
    case False
    then show ?thesis using less.prems by (subst next_file.simps) auto
  next
    case True
    then have step: "next_file v nAddSize n = next_file (grow v (n + 1)) nAddSize (n + 1)" by (subst next_file.simps) simp
    have sz: "file_size (grow v (n + 1)) = file_size v" by (rule ext) simp
    show ?thesis
    proof (cases "n + 1 < length v")
      case lt: True
      then have "grow v (n + 1) = v" by (simp add: grow_def)
      then show ?thesis using less.hyps [of v "n + 1"] lt step by auto
    next
      case False
      then have new: "grow v (n + 1) ! (n + 1) = CBlockFileInfo_null" using grow_nth [of "n + 1" v "n + 1"] by (simp add: grow_length)
      then have "next_file (grow v (n + 1)) nAddSize (n + 1) = Some (grow v (n + 1), n + 1)"
        using a [folded not_le] by (subst next_file.simps) (simp add: CBlockFileInfo_null_def)
      then show ?thesis using step sz new a [folded not_le] by (auto simp: grow_length CBlockFileInfo_null_def)
    qed
  qed
qed

lemma no_wrap:
  assumes "a < MAX_BLOCKFILE_SIZE" and "b < MAX_BLOCKFILE_SIZE"
  shows "unat (a + b) = unat a + unat b"
proof -
  have "unat a < 2 ^ 27" "unat b < 2 ^ 27" using assms by (simp_all add: word_less_nat_alt MAX_BLOCKFILE_SIZE_def)
  then show ?thesis using unat_add_lem [of a b] by simp
qed

lemma AddBlock_size [simp]: "nSize (AddBlock info h t) = nSize info"
  by (simp add: AddBlock_def)

lemma if_Some_pair: "\<exists>r fs'. (if c then Some (x, pos, f) else Some (y, pos, g)) = Some (r, pos, fs') \<and> P fs'" if "P f" "P g"
  using that by auto

lemma FindBlockPos_shape:
  assumes "next_file (if length (vinfoBlockFile fs) \<le> nLastBlockFile fs then grow (vinfoBlockFile fs) (nLastBlockFile fs) else vinfoBlockFile fs)
    nAddSize (nLastBlockFile fs) = Some (v, n)"
  shows "\<exists>r fs'. FindBlockPos disk prune p nAddSize h t False fs = Some (r, \<lparr>pos_nFile = int n, pos_nPos = nSize (v ! n)\<rparr>, fs') \<and>
    vinfoBlockFile fs' = v[n := (AddBlock (v ! n) h t)\<lparr>nSize := nSize (v ! n) + nAddSize\<rparr>]"
  unfolding FindBlockPos_def Let_def if_False assms option.case prod.case AddBlock_size block_files.simps
  by (rule if_Some_pair) simp_all

lemma FindBlockPos_new:
  assumes ok: "files_ok fs" and a: "nAddSize < MAX_BLOCKFILE_SIZE"
  shows "\<exists>r pos fs' n. FindBlockPos disk prune p nAddSize h t False fs = Some (r, pos, fs') \<and> files_ok fs' \<and> pos_nFile pos = int n \<and>
    unat (pos_nPos pos) = file_size (vinfoBlockFile fs) n \<and>
    file_size (vinfoBlockFile fs') = (file_size (vinfoBlockFile fs))(n := unat (pos_nPos pos) + unat nAddSize) \<and>
    unat (pos_nPos pos) + unat nAddSize < unat MAX_BLOCKFILE_SIZE"
proof -
  let ?l = "nLastBlockFile fs" and ?v0 = "vinfoBlockFile fs"
  define v where "v = (if length ?v0 \<le> ?l then grow ?v0 ?l else ?v0)"
  have sv: "file_size v = file_size ?v0" by (rule ext) (simp add: v_def)
  have "?l < length v" by (simp add: v_def grow_length)
  then obtain v' n where v': "next_file v nAddSize ?l = Some (v', n)" "n < length v'" "\<not> nSize (v' ! n) + nAddSize \<ge> MAX_BLOCKFILE_SIZE"
      "file_size v' = file_size v" using next_file_found [OF a] by blast
  have bound: "file_size v' i < unat MAX_BLOCKFILE_SIZE" for i
    using ok sv v'(4) by (auto simp: file_size_def files_ok_def word_less_nat_alt MAX_BLOCKFILE_SIZE_def)
  have sn: "nSize (v' ! n) < MAX_BLOCKFILE_SIZE" using bound [of n] v'(2) by (simp add: file_size_def word_less_nat_alt)
  have nw: "unat (nSize (v' ! n) + nAddSize) = unat (nSize (v' ! n)) + unat nAddSize" by (rule no_wrap [OF sn a])
  have lt: "unat (nSize (v' ! n) + nAddSize) < unat MAX_BLOCKFILE_SIZE" using v'(3) by (simp add: word_less_nat_alt not_le)
  define info where "info = (AddBlock (v' ! n) h t)\<lparr>nSize := nSize (v' ! n) + nAddSize\<rparr>"
  have size': "file_size (v'[n := info]) = (file_size ?v0)(n := unat (nSize (v' ! n)) + unat nAddSize)"
    using file_size_update [OF v'(2), of info] v'(4) sv nw by (simp add: info_def)
  have ok': "nSize (v'[n := info] ! i) < MAX_BLOCKFILE_SIZE" if "i < length v'" for i
    using bound [of i] lt that v'(2) by (cases "i = n") (auto simp: info_def file_size_def word_less_nat_alt)
  have fsz: "file_size ?v0 n = unat (nSize (v' ! n))" using v'(2,4) sv by (metis file_size_def)
  obtain r fs' where "FindBlockPos disk prune p nAddSize h t False fs = Some (r, \<lparr>pos_nFile = int n, pos_nPos = nSize (v' ! n)\<rparr>, fs')"
      "vinfoBlockFile fs' = v'[n := info]"
    using FindBlockPos_shape [OF v'(1) [unfolded v_def], of disk prune p h t] by (auto simp: info_def)
  then show ?thesis using ok' size' fsz nw lt by (auto simp: files_ok_def intro!: exI [of _ n])
qed

text \<open>The ranges of a sequence of requests, each as file, start and end.\<close>

fun allocate :: "(u32 \<Rightarrow> bool) \<Rightarrow> bool \<Rightarrow> (u32 \<times> u32 \<times> u64) list \<Rightarrow> block_files \<Rightarrow> (int \<times> nat \<times> nat) list option" where
  "allocate disk prune [] fs = Some []"
| "allocate disk prune ((nAddSize, h, t) # reqs) fs =
     (case FindBlockPos disk prune CDiskBlockPos_null nAddSize h t False fs of
        None \<Rightarrow> None
      | Some (r, pos, fs) \<Rightarrow>
          map_option (Cons (pos_nFile pos, unat (pos_nPos pos), unat (pos_nPos pos) + unat nAddSize)) (allocate disk prune reqs fs))"

definition range_ok :: "CBlockFileInfo list \<Rightarrow> int \<times> nat \<times> nat \<Rightarrow> bool" where
  "range_ok v r \<longleftrightarrow> fst (snd r) \<le> snd (snd r) \<and> snd (snd r) < unat MAX_BLOCKFILE_SIZE \<and> (\<exists>n. fst r = int n \<and> file_size v n \<le> fst (snd r))"

text \<open>In the same file, the first range ends before the second starts.\<close>

definition apart :: "int \<times> nat \<times> nat \<Rightarrow> int \<times> nat \<times> nat \<Rightarrow> bool" where
  "apart r r' \<longleftrightarrow> fst r \<noteq> fst r' \<or> snd (snd r) \<le> fst (snd r')"

lemma range_ok_later:
  assumes "range_ok v' r" and v': "file_size v' = (file_size v)(n := x)" and "file_size v n \<le> x"
  shows "range_ok v r \<and> apart (int n, y, x) r"
proof -
  obtain k where k: "fst r = int k" "file_size v' k \<le> fst (snd r)" using assms(1) by (auto simp: range_ok_def)
  then have "file_size v k \<le> fst (snd r)" using v' assms(3) by (cases "k = n") auto
  moreover have "apart (int n, y, x) r" using k v' by (cases "k = n") (auto simp: apart_def)
  ultimately show ?thesis using assms(1) k(1) by (auto simp: range_ok_def)
qed

text \<open>
  C40: For any sequence of blocks smaller than the limit of a file, \<open>FindBlockPos\<close> always finds a position,
  whatever the sizes of the files so far; every range it gives out ends below the limit, without
  wrapping around the 32-bit sizes, and no two ranges of the same file overlap.\<close>

theorem FindBlockPos_disjoint:
  "files_ok fs \<Longrightarrow> \<forall>q\<in>set reqs. fst q < MAX_BLOCKFILE_SIZE \<Longrightarrow>
   \<exists>rs. allocate disk prune reqs fs = Some rs \<and> length rs = length reqs \<and> sorted_wrt apart rs \<and>
     (\<forall>r\<in>set rs. range_ok (vinfoBlockFile fs) r)"
proof (induction reqs arbitrary: fs)
  case (Cons q reqs)
  obtain a h t where q: "q = (a, h, t)" by (cases q)
  have a: "a < MAX_BLOCKFILE_SIZE" using Cons.prems(2) q by simp
  from FindBlockPos_new [OF Cons.prems(1) a, of disk prune CDiskBlockPos_null h t]
  obtain r pos fs' n where f: "FindBlockPos disk prune CDiskBlockPos_null a h t False fs = Some (r, pos, fs')" "files_ok fs'"
      "pos_nFile pos = int n" "unat (pos_nPos pos) = file_size (vinfoBlockFile fs) n"
      "file_size (vinfoBlockFile fs') = (file_size (vinfoBlockFile fs))(n := unat (pos_nPos pos) + unat a)"
      "unat (pos_nPos pos) + unat a < unat MAX_BLOCKFILE_SIZE" by blast
  obtain rs where rs: "allocate disk prune reqs fs' = Some rs" "length rs = length reqs" "sorted_wrt apart rs"
      "\<forall>r\<in>set rs. range_ok (vinfoBlockFile fs') r"
    using Cons.IH [OF f(2)] Cons.prems(2) by auto
  let ?r = "(int n, unat (pos_nPos pos), unat (pos_nPos pos) + unat a)"
  have "range_ok (vinfoBlockFile fs) x \<and> apart ?r x" if "x \<in> set rs" for x
    using range_ok_later [OF _ f(5)] rs(4) that f(4) by simp
  moreover have "range_ok (vinfoBlockFile fs) ?r" using f(4,6) by (simp add: range_ok_def)
  moreover have "allocate disk prune (q # reqs) fs = Some (?r # rs)" using q f(1,3) rs(1) by simp
  ultimately show ?case using rs(2,3) by (intro exI [of _ "?r # rs"]) simp
qed simp

definition no_files :: block_files where
  "no_files = \<lparr>vinfoBlockFile = [], nLastBlockFile = 0, setDirtyFileInfo = {}, fCheckForPruning = False\<rparr>"

theorem FindBlockPos_disjoint_witness:
  "\<exists>rs. allocate (\<lambda>_. True) False [(0x7000000, 1, 10), (0x2000000, 2, 20)] no_files = Some rs \<and> length rs = 2 \<and> sorted_wrt apart rs"
proof -
  have "files_ok no_files" by (simp add: files_ok_def no_files_def)
  then show ?thesis
    using FindBlockPos_disjoint [of no_files "[(0x7000000, 1, 10), (0x2000000, 2, 20)]" "\<lambda>_. True" False]
    by (auto simp: MAX_BLOCKFILE_SIZE_def)
qed

end
