(* ===== verification/ChainState.thy ===== *)
theory ChainState
  imports Chain_Tree BlockCheck
begin

text \<open>
  \<^verbatim>\<open>src/src/validation.cpp\<close>: the tree of block headers and the choice of the active chain. What
  connecting or disconnecting a block does to the coins, the memory pool and the disk is an argument:
  \<open>judge\<close> is the outcome of \<open>ConnectBlock\<close> for a block on top of its predecessor, which depends on
  the block and its ancestors only, and \<open>undoable\<close> is the success of \<open>DisconnectTip\<close>. \<open>None\<close> is a failed
  assertion, an invalid pointer or a loop that does not end. Locks, notifications, warnings, the
  memory pool, shutdown requests and the periodic writes to disk are left out.
\<close>

section \<open>The state\<close>

datatype connect_verdict = BlockAccepted | BlockInvalid bool | SystemError

text \<open>
  The hash map \<open>mapBlockIndex\<close> is an association list; the multimap \<open>mapBlocksUnlinked\<close> is the list of its
  pairs in the order of insertion; the sets are lists without repetition.
\<close>

record CChainState =
  block_index :: block_store
  mapBlockIndex :: "(uint256 \<times> ptr) list"
  setBlockIndexCandidates :: "ptr list"
  chainActive :: CChain
  mapBlocksUnlinked :: "(ptr option \<times> ptr) list"
  pindexBestInvalid :: "ptr option"
  pindexBestHeader :: "ptr option"
  nBlockSequenceId :: int
  nBlockReverseSequenceId :: int
  nLastPreciousChainwork :: base_uint
  g_failed_blocks :: "ptr list"
  setDirtyBlockIndex :: "ptr list"

definition set_insert :: "'a \<Rightarrow> 'a list \<Rightarrow> 'a list" where
  "set_insert x xs = (if x \<in> set xs then xs else xs @ [x])"

definition set_erase :: "'a \<Rightarrow> 'a list \<Rightarrow> 'a list" where
  "set_erase x xs = filter (\<lambda>y. y \<noteq> x) xs"

definition CBlockIndexWorkComparator :: "block_store \<Rightarrow> ptr \<Rightarrow> ptr \<Rightarrow> bool" where
  "CBlockIndexWorkComparator m pa pb =
     (case (m pa, m pb) of
        (Some a, Some b) \<Rightarrow>
          if CompareTo (ChainTrust a) (ChainTrust b) > 0 then False
          else if CompareTo (ChainTrust a) (ChainTrust b) < 0 then True
          else if nSequenceId a < nSequenceId b then False
          else if nSequenceId a > nSequenceId b then True
          else pa > pb
      | _ \<Rightarrow> False)"

text \<open>The last element of the ordered set of candidates.\<close>

fun best_candidate :: "block_store \<Rightarrow> ptr list \<Rightarrow> ptr option" where
  "best_candidate m [] = None"
| "best_candidate m (p # ps) =
     (case best_candidate m ps of
        None \<Rightarrow> Some p
      | Some q \<Rightarrow> Some (if CBlockIndexWorkComparator m q p then p else q))"

definition more_work :: "CBlockIndex \<Rightarrow> CBlockIndex \<Rightarrow> bool" where
  "more_work a b \<longleftrightarrow> CompareTo (ChainTrust a) (ChainTrust b) > 0"

text \<open>Whether \<open>a\<close> has more work than the block at \<open>q\<close>, or there is no such block.\<close>

definition beats :: "block_store \<Rightarrow> CBlockIndex \<Rightarrow> ptr option \<Rightarrow> bool" where
  "beats m a q = (case q of None \<Rightarrow> True | Some q \<Rightarrow> (case m q of None \<Rightarrow> False | Some b \<Rightarrow> more_work a b))"

section \<open>Invalid blocks\<close>

definition InvalidChainFound :: "CChainState \<Rightarrow> ptr \<Rightarrow> CChainState option" where
  "InvalidChainFound s pindexNew =
     (case block_index s pindexNew of
        None \<Rightarrow> None
      | Some bi \<Rightarrow>
          if Tip (chainActive s) = None then None
          else Some (if beats (block_index s) bi (pindexBestInvalid s) then s\<lparr>pindexBestInvalid := Some pindexNew\<rparr> else s))"

definition InvalidBlockFound :: "CChainState \<Rightarrow> ptr \<Rightarrow> bool \<Rightarrow> CChainState option" where
  "InvalidBlockFound s pindex corrupt =
     (if corrupt then Some s
      else case block_index s pindex of
        None \<Rightarrow> None
      | Some bi \<Rightarrow>
          InvalidChainFound
            (s\<lparr>block_index := (block_index s)(pindex \<mapsto> bi\<lparr>nStatus := nStatus bi OR BLOCK_FAILED_VALID\<rparr>),
               g_failed_blocks := set_insert pindex (g_failed_blocks s),
               setDirtyBlockIndex := set_insert pindex (setDirtyBlockIndex s),
               setBlockIndexCandidates := set_erase pindex (setBlockIndexCandidates s)\<rparr>) pindex)"

section \<open>The best candidate\<close>

text \<open>
  The walk from a candidate down to the active chain: the first block that failed or has no data,
  and whether it failed.
\<close>

partial_function (option) scan_path :: "block_store \<Rightarrow> CChain \<Rightarrow> ptr option \<Rightarrow> (ptr \<times> bool) option option" where
  [code]: "scan_path m c pindexTest =
     (case pindexTest of
        None \<Rightarrow> Some None
      | Some p \<Rightarrow>
          (case m p of
             None \<Rightarrow> None
           | Some bi \<Rightarrow>
               if Contains c bi p then Some None
               else if \<not> (nChainTx bi \<noteq> 0 \<or> nHeight bi = 0) then None
               else let fFailedChain = nStatus bi AND BLOCK_FAILED_MASK \<noteq> 0; fMissingData = nStatus bi AND BLOCK_HAVE_DATA = 0
                    in if fFailedChain \<or> fMissingData then Some (Some (p, fFailedChain)) else scan_path m c (pprev bi)))"

text \<open>Removing the blocks above \<open>pindexTest\<close> from the candidates.\<close>

partial_function (option) remove_chain :: "ptr \<Rightarrow> bool \<Rightarrow> ptr \<Rightarrow> CChainState \<Rightarrow> CChainState option" where
  [code]: "remove_chain pindexTest fFailedChain pindexFailed s =
     (if pindexFailed = pindexTest then Some s
      else case block_index s pindexFailed of
        None \<Rightarrow> None
      | Some bi \<Rightarrow>
          let s1 = (if fFailedChain
                    then s\<lparr>block_index := (block_index s)(pindexFailed \<mapsto> bi\<lparr>nStatus := nStatus bi OR BLOCK_FAILED_CHILD\<rparr>)\<rparr>
                    else s\<lparr>mapBlocksUnlinked := mapBlocksUnlinked s @ [(pprev bi, pindexFailed)]\<rparr>);
              s2 = s1\<lparr>setBlockIndexCandidates := set_erase pindexFailed (setBlockIndexCandidates s1)\<rparr>
          in (case pprev bi of None \<Rightarrow> None | Some q \<Rightarrow> remove_chain pindexTest fFailedChain q s2))"

definition drop_candidate :: "CChainState \<Rightarrow> ptr \<Rightarrow> ptr \<Rightarrow> bool \<Rightarrow> CChainState option" where
  "drop_candidate s pindexNew pindexTest fFailedChain =
     (case block_index s pindexNew of
        None \<Rightarrow> None
      | Some bi \<Rightarrow>
          let s1 = (if fFailedChain \<and> beats (block_index s) bi (pindexBestInvalid s)
                    then s\<lparr>pindexBestInvalid := Some pindexNew\<rparr> else s)
          in map_option (\<lambda>s. s\<lparr>setBlockIndexCandidates := set_erase pindexTest (setBlockIndexCandidates s)\<rparr>)
               (remove_chain pindexTest fFailedChain pindexNew s1))"

partial_function (option) FindMostWorkChain :: "CChainState \<Rightarrow> (ptr option \<times> CChainState) option" where
  [code]: "FindMostWorkChain s =
     (case best_candidate (block_index s) (setBlockIndexCandidates s) of
        None \<Rightarrow> Some (None, s)
      | Some pindexNew \<Rightarrow>
          (case scan_path (block_index s) (chainActive s) (Some pindexNew) of
             None \<Rightarrow> None
           | Some None \<Rightarrow> Some (Some pindexNew, s)
           | Some (Some (pindexTest, fFailedChain)) \<Rightarrow>
               (case drop_candidate s pindexNew pindexTest fFailedChain of
                  None \<Rightarrow> None
                | Some s \<Rightarrow> FindMostWorkChain s)))"

definition PruneBlockIndexCandidates :: "CChainState \<Rightarrow> CChainState option" where
  "PruneBlockIndexCandidates s =
     (case Tip (chainActive s) of
        None \<Rightarrow> None
      | Some tip \<Rightarrow>
          let cands = filter (\<lambda>p. \<not> CBlockIndexWorkComparator (block_index s) p tip) (setBlockIndexCandidates s)
          in if cands = [] then None else Some (s\<lparr>setBlockIndexCandidates := cands\<rparr>))"

section \<open>Steps of the active chain\<close>

definition DisconnectTip :: "(ptr \<Rightarrow> bool) \<Rightarrow> CChainState \<Rightarrow> (bool \<times> CChainState) option" where
  "DisconnectTip undoable s =
     (case Tip (chainActive s) of
        None \<Rightarrow> None
      | Some p \<Rightarrow>
          (case block_index s p of
             None \<Rightarrow> None
           | Some bi \<Rightarrow>
               if \<not> undoable p then Some (False, s)
               else map_option (\<lambda>c. (True, s\<lparr>chainActive := c\<rparr>)) (SetTip (block_index s) (chainActive s) (pprev bi))))"

definition ConnectTip :: "(ptr \<Rightarrow> connect_verdict) \<Rightarrow> CChainState \<Rightarrow> ptr \<Rightarrow> (connect_verdict \<times> CChainState) option" where
  "ConnectTip judge s pindexNew =
     (case block_index s pindexNew of
        None \<Rightarrow> None
      | Some bi \<Rightarrow>
          if pprev bi \<noteq> Tip (chainActive s) then None
          else (case judge pindexNew of
                  BlockAccepted \<Rightarrow>
                    map_option (\<lambda>c. (BlockAccepted, s\<lparr>chainActive := c\<rparr>)) (SetTip (block_index s) (chainActive s) (Some pindexNew))
                | BlockInvalid corruption \<Rightarrow>
                    map_option (\<lambda>s. (BlockInvalid corruption, s)) (InvalidBlockFound s pindexNew corruption)
                | SystemError \<Rightarrow> Some (SystemError, s)))"

partial_function (option) disconnect_to :: "(ptr \<Rightarrow> bool) \<Rightarrow> ptr option \<Rightarrow> CChainState \<Rightarrow> (bool \<times> CChainState) option" where
  [code]: "disconnect_to undoable pindexFork s =
     (if Tip (chainActive s) = None \<or> Tip (chainActive s) = pindexFork then Some (True, s)
      else case DisconnectTip undoable s of
        None \<Rightarrow> None
      | Some (ok, s) \<Rightarrow> if ok then disconnect_to undoable pindexFork s else Some (False, s))"

text \<open>The list \<open>vpindexToConnect\<close>, from the highest block down.\<close>

partial_function (option) to_connect :: "block_store \<Rightarrow> int \<Rightarrow> ptr option \<Rightarrow> ptr list \<Rightarrow> ptr list option" where
  [code]: "to_connect m height pindexIter acc =
     (case pindexIter of
        None \<Rightarrow> Some acc
      | Some p \<Rightarrow>
          (case m p of
             None \<Rightarrow> None
           | Some bi \<Rightarrow> if nHeight bi = height then Some acc else to_connect m height (pprev bi) (acc @ [p])))"

text \<open>How the loop over the blocks to connect ends: at the end of the list, early, at an invalid block or at a system error.\<close>

datatype batch_end = BatchAll | BatchBetter | BatchInvalid | BatchError

fun connect_blocks ::
  "(ptr \<Rightarrow> connect_verdict) \<Rightarrow> ptr option \<Rightarrow> ptr \<Rightarrow> ptr list \<Rightarrow> CChainState \<Rightarrow> (batch_end \<times> CChainState) option" where
  "connect_blocks judge pindexOldTip lowest [] s = Some (BatchAll, s)"
| "connect_blocks judge pindexOldTip lowest (p # ps) s =
     (case ConnectTip judge s p of
        None \<Rightarrow> None
      | Some (SystemError, s) \<Rightarrow> Some (BatchError, s)
      | Some (BlockInvalid corruption, s) \<Rightarrow>
          map_option (\<lambda>s. (BatchInvalid, s)) (if corruption then Some s else InvalidChainFound s lowest)
      | Some (BlockAccepted, s) \<Rightarrow>
          (case PruneBlockIndexCandidates s of
             None \<Rightarrow> None
           | Some s \<Rightarrow>
               (case block_index s p of
                  None \<Rightarrow> None
                | Some bi \<Rightarrow>
                    if beats (block_index s) bi pindexOldTip then Some (BatchBetter, s)
                    else connect_blocks judge pindexOldTip lowest ps s)))"

partial_function (option) connect_batches ::
  "(ptr \<Rightarrow> connect_verdict) \<Rightarrow> ptr \<Rightarrow> int \<Rightarrow> ptr option \<Rightarrow> int \<Rightarrow> CChainState \<Rightarrow> (batch_end \<times> CChainState) option" where
  [code]: "connect_batches judge pindexMostWork mostHeight pindexOldTip height s =
     (if height = mostHeight then Some (BatchAll, s)
      else let nTargetHeight = min (height + 32) mostHeight
           in case GetAncestor (block_index s) pindexMostWork nTargetHeight of
                None \<Rightarrow> None
              | Some pindexIter \<Rightarrow>
                  (case to_connect (block_index s) height pindexIter [] of
                     None \<Rightarrow> None
                   | Some vpindexToConnect \<Rightarrow>
                       (case connect_blocks judge pindexOldTip (last vpindexToConnect) (rev vpindexToConnect) s of
                          None \<Rightarrow> None
                        | Some (r, s) \<Rightarrow>
                            if r = BatchAll then connect_batches judge pindexMostWork mostHeight pindexOldTip nTargetHeight s
                            else Some (r, s))))"

text \<open>The result holds the returned value, \<open>fInvalidFound\<close> and the state.\<close>

definition ActivateBestChainStep ::
  "(ptr \<Rightarrow> connect_verdict) \<Rightarrow> (ptr \<Rightarrow> bool) \<Rightarrow> CChainState \<Rightarrow> ptr \<Rightarrow> (bool \<times> bool \<times> CChainState) option" where
  "ActivateBestChainStep judge undoable s pindexMostWork =
     (case (block_index s pindexMostWork, FindFork (block_index s) (chainActive s) (Some pindexMostWork)) of
        (Some most, Some pindexFork) \<Rightarrow>
          (case disconnect_to undoable pindexFork s of
             None \<Rightarrow> None
           | Some (ok, s1) \<Rightarrow>
               if \<not> ok then Some (False, False, s1)
               else (case (case pindexFork of None \<Rightarrow> Some (- 1) | Some q \<Rightarrow> map_option nHeight (block_index s1 q)) of
                       None \<Rightarrow> None
                     | Some height \<Rightarrow>
                         map_option (\<lambda>(r, s2). (r \<noteq> BatchError, r = BatchInvalid, s2))
                           (connect_batches judge pindexMostWork (nHeight most) (Tip (chainActive s)) height s1)))
      | _ \<Rightarrow> None)"

partial_function (option) activate_loop ::
  "(ptr \<Rightarrow> connect_verdict) \<Rightarrow> (ptr \<Rightarrow> bool) \<Rightarrow> ptr option \<Rightarrow> CChainState \<Rightarrow> (bool \<times> CChainState) option" where
  [code]: "activate_loop judge undoable pindexMostWork s =
     (case (case pindexMostWork of None \<Rightarrow> FindMostWorkChain s | Some p \<Rightarrow> Some (Some p, s)) of
        None \<Rightarrow> None
      | Some (None, s) \<Rightarrow> Some (True, s)
      | Some (Some most, s) \<Rightarrow>
          if Some most = Tip (chainActive s) then Some (True, s)
          else (case ActivateBestChainStep judge undoable s most of
                  None \<Rightarrow> None
                | Some (ok, fInvalidFound, s) \<Rightarrow>
                    if \<not> ok then Some (False, s)
                    else let next = (if fInvalidFound then None else Some most)
                         in if Tip (chainActive s) = next then Some (True, s) else activate_loop judge undoable next s))"

definition ActivateBestChain :: "(ptr \<Rightarrow> connect_verdict) \<Rightarrow> (ptr \<Rightarrow> bool) \<Rightarrow> CChainState \<Rightarrow> (bool \<times> CChainState) option" where
  "ActivateBestChain judge undoable s = activate_loop judge undoable None s"

end
