(* ===== verification/ChainState_Tree.thy ===== *)
theory ChainState_Tree
  imports ChainState
begin

text \<open>
  Ancestors in the block tree, the order of the candidates, the blocks a node can build on, and
  what marking blocks as failed leaves unchanged.
\<close>

section \<open>Ancestors\<close>

definition anc :: "block_store \<Rightarrow> ptr \<Rightarrow> ptr set" where
  "anc m p = {q. Some q \<in> set (chain_of m p)}"

lemma prev_entry:
  assumes "wf_store m" and "m p = Some bi" and "pprev bi = Some q"
  obtains b where "m q = Some b" "nHeight bi = nHeight b + 1" "0 \<le> nHeight b"
  using wf_storeD [OF assms(1,2)] assms(3) wf_storeD [OF assms(1)] wf_height
  by (fastforce simp: wf_entry_def)

lemma tree_induct:
  assumes wf: "wf_store m" and p: "m p = Some bi"
    and step: "\<And>p bi. m p = Some bi \<Longrightarrow> (\<And>q b. pprev bi = Some q \<Longrightarrow> m q = Some b \<Longrightarrow> P q) \<Longrightarrow> P p"
  shows "P p"
  using p
proof (induction "nat (nHeight bi)" arbitrary: p bi rule: less_induct)
  case less
  show ?case
  proof (rule step [OF less.prems])
    fix q b assume q: "pprev bi = Some q" "m q = Some b"
    obtain b' where "m q = Some b'" "nHeight bi = nHeight b' + 1" "0 \<le> nHeight b'"
      using prev_entry [OF wf less.prems q(1)] .
    then show "P q" using less.hyps [of b q] q by simp
  qed
qed

lemma anc_prev:
  assumes "wf_store m" and "m p = Some bi"
  shows "anc m p = insert p (case pprev bi of None \<Rightarrow> {} | Some q \<Rightarrow> anc m q)"
  using chain_of_prev [OF assms] by (auto simp: anc_def split: option.splits)

lemma anc_self: "wf_store m \<Longrightarrow> m p = Some bi \<Longrightarrow> p \<in> anc m p"
  by (simp add: anc_prev)

lemma anc_dom:
  assumes "wf_store m" and "m p = Some bi" and "q \<in> anc m p"
  obtains b where "m q = Some b" "nHeight b \<le> nHeight bi" "q = p \<or> nHeight b < nHeight bi"
proof -
  have "\<forall>bi. m p = Some bi \<longrightarrow> q \<in> anc m p \<longrightarrow> (\<exists>b. m q = Some b \<and> nHeight b \<le> nHeight bi \<and> (q = p \<or> nHeight b < nHeight bi))"
  proof (rule tree_induct [OF assms(1,2)])
    fix p bi assume p: "m p = Some bi"
      and IH: "\<And>r b. pprev bi = Some r \<Longrightarrow> m r = Some b \<Longrightarrow>
        \<forall>bi. m r = Some bi \<longrightarrow> q \<in> anc m r \<longrightarrow> (\<exists>b. m q = Some b \<and> nHeight b \<le> nHeight bi \<and> (q = r \<or> nHeight b < nHeight bi))"
    show "\<forall>bi. m p = Some bi \<longrightarrow> q \<in> anc m p \<longrightarrow> (\<exists>b. m q = Some b \<and> nHeight b \<le> nHeight bi \<and> (q = p \<or> nHeight b < nHeight bi))"
    proof (cases "pprev bi")
      case (Some r)
      then obtain b where "m r = Some b" "nHeight bi = nHeight b + 1" using prev_entry [OF assms(1) p] by blast
      then show ?thesis using IH [OF Some] p Some anc_prev [OF assms(1) p] by auto
    qed (use p anc_prev [OF assms(1) p] in auto)
  qed
  then show thesis using assms(2,3) that by blast
qed

lemma anc_trans:
  assumes "wf_store m" and "m p = Some bi" and "q \<in> anc m p" and "r \<in> anc m q"
  shows "r \<in> anc m p"
proof -
  have "q \<in> anc m p \<longrightarrow> r \<in> anc m p"
  proof (rule tree_induct [OF assms(1,2)])
    fix p bi assume p: "m p = Some bi" and IH: "\<And>s b. pprev bi = Some s \<Longrightarrow> m s = Some b \<Longrightarrow> q \<in> anc m s \<longrightarrow> r \<in> anc m s"
    show "q \<in> anc m p \<longrightarrow> r \<in> anc m p"
    proof (cases "pprev bi")
      case (Some s)
      then obtain b where "m s = Some b" using prev_entry [OF assms(1) p] by blast
      then show ?thesis using IH [OF Some] Some anc_prev [OF assms(1) p] assms(4) by auto
    qed (use anc_prev [OF assms(1) p] assms(4) in auto)
  qed
  then show ?thesis using assms(3) by blast
qed

lemma Contains_anc:
  assumes "wf_store m" and "m p = Some bi"
  shows "Contains (chain_of m t) bi p \<longleftrightarrow> p \<in> anc m t"
  using chain_ok_mem_iff [OF assms(1) chain_ok_chain_of assms(2)] by (simp add: anc_def)

lemma Tip_chain_of: "wf_store m \<Longrightarrow> m t = Some bt \<Longrightarrow> Tip (chain_of m t) = Some t"
  by (simp add: chain_of_prev Tip_def nth_append)

lemma SetTip_chain_of: "wf_store m \<Longrightarrow> m p = Some bi \<Longrightarrow> SetTip m (chain_of m t) (Some p) = Some (chain_of m p)"
  using SetTip_path [OF _ chain_ok_chain_of] by (simp add: chain_of_def)

lemma anc_nth_prev:
  assumes "wf_store m" and "m p = Some bi" and "q \<in> anc m p" and "m q = Some b"
  shows "nth_prev m (nat (nHeight bi - nHeight b)) p = Some q"
proof -
  have h: "0 \<le> nHeight bi" "0 \<le> nHeight b" using wf_height wf_storeD assms by blast+
  have "nHeight b \<le> nHeight bi" using anc_dom [OF assms(1-3)] assms(4) by force
  moreover have "chain_at (chain_of m p) (nHeight b) = Some q"
    using Contains_anc [OF assms(1,4)] assms(3) by (simp add: Contains_def)
  ultimately have "chain_path m (nat (nHeight bi)) p ! nat (nHeight b) = Some q"
    using assms(2) h by (simp add: chain_at_def chain_of_def split: if_splits)
  moreover have "nat (nHeight bi) - nat (nHeight b) = nat (nHeight bi - nHeight b)" using h by simp
  moreover have "nat (nHeight b) \<le> nat (nHeight bi)" using \<open>nHeight b \<le> nHeight bi\<close> by simp
  ultimately show ?thesis by (simp add: chain_path_nth)
qed

lemma nth_prev_anc:
  assumes "wf_store m" and "m p = Some bi" and "nth_prev m k p = Some q"
  shows "q \<in> anc m p"
  using assms(2,3)
proof (induction k arbitrary: p bi)
  case 0
  then show ?case using anc_self [OF assms(1)] by simp
next
  case (Suc k)
  then obtain r where r: "pprev bi = Some r" "nth_prev m k r = Some q" by (auto split: option.splits)
  then obtain b where "m r = Some b" using prev_entry [OF assms(1) Suc.prems(1)] by blast
  then show ?case using Suc.IH r anc_prev [OF assms(1) Suc.prems(1)] by auto
qed

section \<open>The order of the candidates\<close>

definition work :: "block_store \<Rightarrow> ptr \<Rightarrow> nat" where
  "work m p = limbs_val (ChainTrust (the (m p)))"

definition tree_inv :: "block_store \<Rightarrow> bool" where
  "tree_inv m \<longleftrightarrow> wf_store m \<and> finite (dom m) \<and>
     (\<forall>p q a b. m p = Some a \<and> m q = Some b \<and> pprev a = None \<and> pprev b = None \<longrightarrow> p = q) \<and>
     (\<forall>p a. m p = Some a \<longrightarrow> length (ChainTrust a) = 8) \<and>
     (\<forall>p q a b. m p = Some a \<and> pprev a = Some q \<and> m q = Some b \<longrightarrow>
        limbs_val (ChainTrust b) < limbs_val (ChainTrust a) \<and> (nChainTx a \<noteq> 0 \<longrightarrow> nChainTx b \<noteq> 0))"

lemma tree_invD:
  assumes "tree_inv m"
  shows tree_wf: "wf_store m"
    and tree_finite: "finite (dom m)"
    and tree_root: "m p = Some a \<Longrightarrow> m q = Some b \<Longrightarrow> pprev a = None \<Longrightarrow> pprev b = None \<Longrightarrow> p = q"
    and tree_trust: "m p = Some a \<Longrightarrow> length (ChainTrust a) = 8"
    and tree_work: "m p = Some a \<Longrightarrow> pprev a = Some q \<Longrightarrow> m q = Some b \<Longrightarrow> work m q < work m p"
    and tree_ChainTx: "m p = Some a \<Longrightarrow> pprev a = Some q \<Longrightarrow> m q = Some b \<Longrightarrow> nChainTx a \<noteq> 0 \<Longrightarrow> nChainTx b \<noteq> 0"
  using assms unfolding tree_inv_def work_def by (blast | force)+

lemma comparator_iff:
  assumes "tree_inv m" and "m p = Some a" and "m q = Some b"
  shows "CBlockIndexWorkComparator m p q \<longleftrightarrow>
    work m p < work m q \<or> work m p = work m q \<and> (nSequenceId b < nSequenceId a \<or> nSequenceId a = nSequenceId b \<and> q < p)"
  using tree_trust [OF assms(1,2)] tree_trust [OF assms(1,3)] assms(2,3)
  by (auto simp: CBlockIndexWorkComparator_def CompareTo_val work_def split: if_splits)

lemma comparator_irrefl: "tree_inv m \<Longrightarrow> m p = Some a \<Longrightarrow> \<not> CBlockIndexWorkComparator m p p"
  by (simp add: comparator_iff)

lemma comparator_trans:
  assumes "tree_inv m" and "m p = Some a" "m q = Some b" "m r = Some c"
    and "\<not> CBlockIndexWorkComparator m q p" "\<not> CBlockIndexWorkComparator m r q"
  shows "\<not> CBlockIndexWorkComparator m r p"
  using assms(5,6) comparator_iff [OF assms(1)] assms(2-4) by auto

lemma comparator_total:
  assumes "tree_inv m" and "m p = Some a" "m q = Some b"
    and "\<not> CBlockIndexWorkComparator m p q" "\<not> CBlockIndexWorkComparator m q p"
  shows "p = q"
  using assms(4,5) comparator_iff [OF assms(1)] assms(2,3) by auto

lemma comparator_asym:
  assumes "tree_inv m" and "m p = Some a" "m q = Some b" and "CBlockIndexWorkComparator m p q"
  shows "\<not> CBlockIndexWorkComparator m q p"
  using assms(4) comparator_iff [OF assms(1)] assms(2,3) by auto

lemma comparator_work:
  assumes "tree_inv m" and "m p = Some a" "m q = Some b" and "\<not> CBlockIndexWorkComparator m q p"
  shows "work m p \<le> work m q"
  using assms(4) comparator_iff [OF assms(1)] assms(2,3) by auto

lemma anc_work:
  assumes "tree_inv m" and "m p = Some a" and "q \<in> anc m p"
  shows "\<not> CBlockIndexWorkComparator m p q"
proof -
  note wf = tree_wf [OF assms(1)]
  have "q \<in> anc m p \<longrightarrow> \<not> CBlockIndexWorkComparator m p q"
  proof (rule tree_induct [OF wf assms(2)])
    fix p bi assume p: "m p = Some bi"
      and IH: "\<And>r b. pprev bi = Some r \<Longrightarrow> m r = Some b \<Longrightarrow> q \<in> anc m r \<longrightarrow> \<not> CBlockIndexWorkComparator m r q"
    show "q \<in> anc m p \<longrightarrow> \<not> CBlockIndexWorkComparator m p q"
    proof (cases "pprev bi")
      case None
      then show ?thesis using anc_prev [OF wf p] comparator_irrefl [OF assms(1) p] by simp
    next
      case (Some r)
      obtain b where b: "m r = Some b" using prev_entry [OF wf p Some] by blast
      have lt: "work m r < work m p" using tree_work [OF assms(1) p Some b] .
      show ?thesis
      proof
        assume q: "q \<in> anc m p"
        show "\<not> CBlockIndexWorkComparator m p q"
        proof (cases "q = p")
          case False
          then have q': "q \<in> anc m r" using q anc_prev [OF wf p] Some by simp
          obtain c where c: "m q = Some c" using anc_dom [OF wf b q'] by blast
          have "work m q \<le> work m r" using IH [OF Some b] q' comparator_work [OF assms(1) c b] by blast
          then show ?thesis using lt comparator_iff [OF assms(1) p c] by simp
        qed (use comparator_irrefl [OF assms(1) p] in simp)
      qed
    qed
  qed
  then show ?thesis using assms(3) by blast
qed

lemma best_candidate_max:
  assumes "tree_inv m"
  shows "set ps \<subseteq> dom m \<Longrightarrow> ps \<noteq> [] \<Longrightarrow>
    \<exists>b. best_candidate m ps = Some b \<and> b \<in> set ps \<and> (\<forall>p\<in>set ps. \<not> CBlockIndexWorkComparator m b p)"
proof (induction ps)
  case (Cons p ps)
  obtain bp where bp: "m p = Some bp" using Cons.prems by auto
  show ?case
  proof (cases "ps = []")
    case True
    then show ?thesis using comparator_irrefl [OF assms bp] by simp
  next
    case False
    then obtain q where q: "best_candidate m ps = Some q" "q \<in> set ps" "\<forall>p\<in>set ps. \<not> CBlockIndexWorkComparator m q p"
      using Cons by auto
    obtain bq where bq: "m q = Some bq" using q(2) Cons.prems by auto
    show ?thesis
    proof (cases "CBlockIndexWorkComparator m q p")
      case True
      have "\<not> CBlockIndexWorkComparator m p x" if x: "x \<in> set ps" for x
      proof -
        obtain bx where "m x = Some bx" using x Cons.prems by auto
        then show ?thesis using comparator_trans [OF assms _ bq bp] q(3) x comparator_asym [OF assms bq bp True] by blast
      qed
      then show ?thesis using q True comparator_irrefl [OF assms bp] by simp
    next
      case False
      then show ?thesis using q by auto
    qed
  qed
qed simp

section \<open>Valid chains\<close>

definition clean_entry :: "CBlockIndex \<Rightarrow> bool" where
  "clean_entry b \<longleftrightarrow> nStatus b AND BLOCK_FAILED_MASK = 0 \<and> nStatus b AND BLOCK_HAVE_DATA \<noteq> 0 \<and> nChainTx b \<noteq> 0"

definition clean_path :: "block_store \<Rightarrow> ptr \<Rightarrow> bool" where
  "clean_path m p \<longleftrightarrow> (\<forall>q\<in>anc m p. \<exists>b. m q = Some b \<and> clean_entry b)"

text \<open>The blocks a node can and may build on: data and validity all the way down.\<close>

definition good :: "(ptr \<Rightarrow> connect_verdict) \<Rightarrow> block_store \<Rightarrow> ptr \<Rightarrow> bool" where
  "good judge m p \<longleftrightarrow> m p \<noteq> None \<and> clean_path m p \<and> (\<forall>q\<in>anc m p. judge q = BlockAccepted)"

lemma good_entry: "good judge m p \<Longrightarrow> \<exists>b. m p = Some b"
  by (auto simp: good_def)

lemma good_anc:
  assumes "wf_store m" and "good judge m p" and "q \<in> anc m p"
  shows "good judge m q"
proof -
  obtain b where b: "m p = Some b" using good_entry [OF assms(2)] ..
  obtain bq where "m q = Some bq" using anc_dom [OF assms(1) b assms(3)] .
  moreover have "anc m q \<subseteq> anc m p" using anc_trans [OF assms(1) b assms(3)] by blast
  ultimately show ?thesis using assms(2) by (auto simp: good_def clean_path_def)
qed

lemma clean_path_anc:
  assumes "wf_store m" and "m p = Some b" and "clean_path m p" and "q \<in> anc m p"
  shows "clean_path m q"
  using assms anc_trans [OF assms(1,2,4)] by (auto simp: clean_path_def)

lemma good_extend:
  assumes "wf_store m" and "m p = Some b" and "pprev b = Some t" and "good judge m t" and "clean_entry b" and "judge p = BlockAccepted"
  shows "good judge m p"
  using assms anc_prev [OF assms(1,2)] by (auto simp: good_def clean_path_def)

section \<open>Stores with the same links\<close>

definition links :: "CBlockIndex \<Rightarrow> ptr option \<times> ptr option \<times> int" where
  "links b = (pprev b, pskip b, nHeight b)"

definition tree_eq :: "block_store \<Rightarrow> block_store \<Rightarrow> bool" where
  "tree_eq m m' \<longleftrightarrow> (\<forall>p. map_option links (m' p) = map_option links (m p))"

lemma tree_eq_Some:
  assumes "tree_eq m m'" and "m p = Some b"
  obtains b' where "m' p = Some b'" "pprev b' = pprev b" "pskip b' = pskip b" "nHeight b' = nHeight b"
proof -
  have "map_option links (m' p) = Some (links b)" using assms by (simp add: tree_eq_def)
  then show thesis using that by (auto simp: links_def)
qed

lemma tree_eq_None: "tree_eq m m' \<Longrightarrow> m' p = None \<longleftrightarrow> m p = None"
  unfolding tree_eq_def by (metis map_option_is_None)

lemma tree_eq_sym: "tree_eq m m' \<Longrightarrow> tree_eq m' m"
  by (simp add: tree_eq_def)

lemma tree_eq_nth_prev:
  assumes "tree_eq m m'"
  shows "nth_prev m' n p = nth_prev m n p"
proof (induction n arbitrary: p)
  case (Suc n)
  show ?case
  proof (cases "m p")
    case None
    then show ?thesis using tree_eq_None [OF assms, of p] by simp
  next
    case (Some b)
    obtain b' where "m' p = Some b'" "pprev b' = pprev b" by (rule tree_eq_Some [OF assms Some])
    then show ?thesis using Some Suc by (simp split: option.split)
  qed
qed simp

lemma tree_eq_chain_of:
  assumes "tree_eq m m'"
  shows "chain_of m' p = chain_of m p"
proof (cases "m p")
  case None
  then show ?thesis using tree_eq_None [OF assms, of p] by (simp add: chain_of_def)
next
  case (Some b)
  obtain b' where "m' p = Some b'" "nHeight b' = nHeight b" by (rule tree_eq_Some [OF assms Some])
  then show ?thesis using Some tree_eq_nth_prev [OF assms] by (simp add: chain_of_def chain_path_def)
qed

lemma tree_eq_anc: "tree_eq m m' \<Longrightarrow> anc m' p = anc m p"
  by (simp add: anc_def tree_eq_chain_of)

lemma tree_eq_wf:
  assumes e: "tree_eq m m'" and wf: "wf_store m"
  shows "wf_store m'"
  unfolding wf_store_def
proof (intro allI impI)
  fix p b' assume b': "m' p = Some b'"
  obtain b where b: "m p = Some b" "pprev b = pprev b'" "pskip b = pskip b'" "nHeight b = nHeight b'"
    by (rule tree_eq_Some [OF tree_eq_sym [OF e] b'])
  then have l: "pprev b' = pprev b" "pskip b' = pskip b" "nHeight b' = nHeight b" by simp_all
  note w = wf_storeD [OF wf b(1)]
  show "wf_entry m' b'"
  proof (cases "pprev b")
    case None
    then show ?thesis using w by (simp add: wf_entry_def l)
  next
    case (Some q)
    then obtain bq where bq: "m q = Some bq" "nHeight b = nHeight bq + 1" using w by (auto simp: wf_entry_def)
    obtain bq' where "m' q = Some bq'" "nHeight bq' = nHeight bq" by (rule tree_eq_Some [OF e bq(1)])
    then show ?thesis using w Some bq(2) by (simp add: wf_entry_def l tree_eq_nth_prev [OF e])
  qed
qed

section \<open>Marking blocks as failed\<close>

definition relabel :: "(ptr \<Rightarrow> connect_verdict) \<Rightarrow> block_store \<Rightarrow> block_store \<Rightarrow> bool" where
  "relabel judge m m' \<longleftrightarrow>
     (\<forall>p. case m p of
            None \<Rightarrow> m' p = None
          | Some b \<Rightarrow> \<exists>f. m' p = Some (b\<lparr>nStatus := nStatus b OR f\<rparr>) \<and> f AND BLOCK_FAILED_MASK = f \<and> (good judge m p \<longrightarrow> f = 0))"

lemma relabel_at: "relabel judge m m' \<Longrightarrow>
  case m p of None \<Rightarrow> m' p = None
  | Some b \<Rightarrow> \<exists>f. m' p = Some (b\<lparr>nStatus := nStatus b OR f\<rparr>) \<and> f AND BLOCK_FAILED_MASK = f \<and> (good judge m p \<longrightarrow> f = 0)"
  unfolding relabel_def by (rule spec)

lemma relabel_Some:
  assumes "relabel judge m m'" and "m p = Some b"
  obtains f where "m' p = Some (b\<lparr>nStatus := nStatus b OR f\<rparr>)" "f AND BLOCK_FAILED_MASK = f" "good judge m p \<longrightarrow> f = 0"
  using relabel_at [OF assms(1), of p] assms(2) that by (simp, elim exE conjE)

lemma relabel_None: "relabel judge m m' \<Longrightarrow> m' p = None \<longleftrightarrow> m p = None"
  using relabel_at [of judge m m' p] by (cases "m p") auto

lemma relabel_dom: "relabel judge m m' \<Longrightarrow> dom m' = dom m"
  using relabel_None by (simp add: dom_def)

lemma relabel_back:
  assumes "relabel judge m m'" and "m' p = Some b'"
  obtains b f where "m p = Some b" "b' = b\<lparr>nStatus := nStatus b OR f\<rparr>" "f AND BLOCK_FAILED_MASK = f" "good judge m p \<longrightarrow> f = 0"
  using relabel_at [OF assms(1), of p] assms(2) that by (cases "m p") auto

lemma relabel_tree_eq: "relabel judge m m' \<Longrightarrow> tree_eq m m'"
  unfolding tree_eq_def
proof (intro allI)
  fix p assume "relabel judge m m'"
  from relabel_at [OF this, of p] show "map_option links (m' p) = map_option links (m p)" by (cases "m p") (auto simp: links_def)
qed

lemmas relabel_nth_prev = tree_eq_nth_prev [OF relabel_tree_eq]
  and relabel_chain_of = tree_eq_chain_of [OF relabel_tree_eq]

lemma relabel_anc: "relabel judge m m' \<Longrightarrow> anc m' p = anc m p"
  by (simp add: anc_def relabel_chain_of)

lemma relabel_work: "relabel judge m m' \<Longrightarrow> work m' p = work m p"
  using relabel_at [of judge m m' p] by (cases "m p") (auto simp: work_def)

lemma comparator_None: "m p = None \<or> m q = None \<Longrightarrow> \<not> CBlockIndexWorkComparator m p q"
  unfolding CBlockIndexWorkComparator_def by (cases "m p"; cases "m q"; simp)

lemma comparator_status:
  "m p = Some a \<Longrightarrow> m q = Some b \<Longrightarrow> m' p = Some (a\<lparr>nStatus := x\<rparr>) \<Longrightarrow> m' q = Some (b\<lparr>nStatus := y\<rparr>) \<Longrightarrow>
   CBlockIndexWorkComparator m' p q = CBlockIndexWorkComparator m p q"
  unfolding CBlockIndexWorkComparator_def by simp

lemma relabel_comparator:
  assumes r: "relabel judge m m'"
  shows "CBlockIndexWorkComparator m' p q = CBlockIndexWorkComparator m p q"
proof (cases "m p = None \<or> m q = None")
  case True
  moreover from True have "m' p = None \<or> m' q = None" using relabel_None [OF r, of p] relabel_None [OF r, of q] by argo
  ultimately show ?thesis using comparator_None by blast
next
  case False
  then obtain a b where ab: "m p = Some a" "m q = Some b" by (cases "m p"; cases "m q") auto
  obtain f where f: "m' p = Some (a\<lparr>nStatus := nStatus a OR f\<rparr>)" by (rule relabel_Some [OF r ab(1)])
  obtain g where g: "m' q = Some (b\<lparr>nStatus := nStatus b OR g\<rparr>)" by (rule relabel_Some [OF r ab(2)])
  show ?thesis by (rule comparator_status [OF ab f g])
qed

lemma relabel_tree_inv:
  assumes r: "relabel judge m m'" and "tree_inv m"
  shows "tree_inv m'"
proof -
  have bk: "\<exists>b st. m p = Some b \<and> b' = b\<lparr>nStatus := st\<rparr>" if "m' p = Some b'" for p b'
    using relabel_back [OF r that] by blast
  have "wf_store m'" using tree_eq_wf [OF relabel_tree_eq [OF r] tree_wf [OF assms(2)]] .
  moreover have "finite (dom m')" using tree_finite [OF assms(2)] relabel_dom [OF r] by simp
  moreover have "p = q" if "m' p = Some a" "m' q = Some b" "pprev a = None" "pprev b = None" for p q a b
    using bk [OF that(1)] bk [OF that(2)] that(3,4) tree_root [OF assms(2)] by auto
  moreover have "length (ChainTrust a) = 8" if "m' p = Some a" for p a
    using bk [OF that] tree_trust [OF assms(2)] by auto
  moreover have "limbs_val (ChainTrust b) < limbs_val (ChainTrust a) \<and> (nChainTx a \<noteq> 0 \<longrightarrow> nChainTx b \<noteq> 0)"
    if "m' p = Some a" "pprev a = Some q" "m' q = Some b" for p q a b
    using bk [OF that(1)] bk [OF that(3)] that(2) tree_work [OF assms(2), of p] tree_ChainTx [OF assms(2), of p]
    by (auto simp: work_def)
  ultimately show ?thesis unfolding tree_inv_def by blast
qed

lemma or_failed_zero: "(a OR f) AND BLOCK_FAILED_MASK = 0 \<Longrightarrow> f AND BLOCK_FAILED_MASK = f \<Longrightarrow> f = (0::u32)"
  by (metis bit.conj_disj_distrib2 or_eq_0_iff)

lemma or_failed_data: "f AND BLOCK_FAILED_MASK = f \<Longrightarrow> (a OR f) AND BLOCK_HAVE_DATA = a AND (BLOCK_HAVE_DATA :: u32)"
proof -
  assume f: "f AND BLOCK_FAILED_MASK = f"
  have "f AND BLOCK_HAVE_DATA = f AND (BLOCK_FAILED_MASK AND BLOCK_HAVE_DATA)" using f by (metis and.assoc)
  also have "\<dots> = 0" by (simp add: BLOCK_FAILED_MASK_def BLOCK_FAILED_VALID_def BLOCK_FAILED_CHILD_def BLOCK_HAVE_DATA_def)
  finally show ?thesis by (simp add: bit.conj_disj_distrib2)
qed

lemma relabel_clean:
  assumes "relabel judge m m'" and "m' p = Some b'" and "clean_entry b'"
  shows "m p = Some b'"
proof -
  obtain b f where b: "m p = Some b" "b' = b\<lparr>nStatus := nStatus b OR f\<rparr>" "f AND BLOCK_FAILED_MASK = f"
    using relabel_back [OF assms(1,2)] .
  then have "f = 0" using assms(3) by (intro or_failed_zero [of "nStatus b" f]) (simp_all add: clean_entry_def)
  then show ?thesis using b by simp
qed

lemma relabel_keeps: "relabel judge m m' \<Longrightarrow> good judge m p \<Longrightarrow> m' p = m p"
  using relabel_at [of judge m m' p] good_entry [of judge m p] by auto

lemma relabel_good:
  assumes r: "relabel judge m m'" and "wf_store m"
  shows "good judge m' p = good judge m p"
proof
  assume "good judge m' p"
  then show "good judge m p"
    using relabel_clean [OF r] relabel_None [OF r] unfolding good_def clean_path_def relabel_anc [OF r] by metis
next
  assume g: "good judge m p"
  have "m' q = m q" if "q \<in> anc m p" for q using relabel_keeps [OF r good_anc [OF assms(2) g that]] by simp
  then show "good judge m' p"
    using g relabel_None [OF r] unfolding good_def clean_path_def relabel_anc [OF r] by metis
qed

lemma relabel_refl: "relabel judge m m"
  by (auto simp: relabel_def split: option.splits intro!: exI [of _ 0])

lemma relabel_trans:
  assumes a: "relabel judge m m'" and b: "relabel judge m' m''" and "wf_store m"
  shows "relabel judge m m''"
  unfolding relabel_def
proof
  fix p
  show "case m p of None \<Rightarrow> m'' p = None
    | Some b \<Rightarrow> \<exists>f. m'' p = Some (b\<lparr>nStatus := nStatus b OR f\<rparr>) \<and> f AND BLOCK_FAILED_MASK = f \<and> (good judge m p \<longrightarrow> f = 0)"
  proof (cases "m p")
    case None
    then show ?thesis using relabel_None [OF a, of p] relabel_None [OF b, of p] by simp
  next
    case (Some e)
    obtain f where f: "m' p = Some (e\<lparr>nStatus := nStatus e OR f\<rparr>)" "f AND BLOCK_FAILED_MASK = f" "good judge m p \<longrightarrow> f = 0"
      using relabel_Some [OF a Some] .
    obtain g where g: "m'' p = Some (e\<lparr>nStatus := (nStatus e OR f) OR g\<rparr>)" "g AND BLOCK_FAILED_MASK = g" "good judge m' p \<longrightarrow> g = 0"
      using relabel_at [OF b, of p] f(1) by auto
    have "(f OR g) AND BLOCK_FAILED_MASK = f OR g" using f(2) g(2) by (simp add: bit.conj_disj_distrib2)
    then show ?thesis using Some f(3) g relabel_good [OF a assms(3)] by (auto simp: or.assoc intro!: exI [of _ "f OR g"])
  qed
qed

text \<open>A mark on one block that is not on a good chain.\<close>

lemma relabel_mark:
  assumes "m p = Some b" and "\<not> good judge m p" and "f AND BLOCK_FAILED_MASK = f"
  shows "relabel judge m (m(p \<mapsto> b\<lparr>nStatus := nStatus b OR f\<rparr>))"
  unfolding relabel_def
proof
  fix q
  show "case m q of None \<Rightarrow> (m(p \<mapsto> b\<lparr>nStatus := nStatus b OR f\<rparr>)) q = None
    | Some e \<Rightarrow> \<exists>g. (m(p \<mapsto> b\<lparr>nStatus := nStatus b OR f\<rparr>)) q = Some (e\<lparr>nStatus := nStatus e OR g\<rparr>) \<and>
        g AND BLOCK_FAILED_MASK = g \<and> (good judge m q \<longrightarrow> g = 0)"
  proof (cases "q = p")
    case True
    then show ?thesis using assms by (auto intro: exI [of _ f])
  qed (auto split: option.splits intro: exI [of _ 0])
qed

definition unfailed :: "block_store \<Rightarrow> ptr set" where
  "unfailed m = {p. \<exists>b. m p = Some b \<and> nStatus b AND BLOCK_FAILED_MASK = 0}"

lemma relabel_unfailed: "relabel judge m m' \<Longrightarrow> unfailed m' \<subseteq> unfailed m"
  by (auto simp: unfailed_def bit.conj_disj_distrib2 or_eq_0_iff elim!: relabel_back)

lemma unfailed_finite: "tree_inv m \<Longrightarrow> finite (unfailed m)"
  using tree_finite [of m] by (auto simp: unfailed_def intro: rev_finite_subset)

lemma failed_flags [simp]:
  "BLOCK_FAILED_VALID AND BLOCK_FAILED_MASK = BLOCK_FAILED_VALID" "BLOCK_FAILED_CHILD AND BLOCK_FAILED_MASK = BLOCK_FAILED_CHILD"
  by (simp_all add: BLOCK_FAILED_MASK_def BLOCK_FAILED_VALID_def BLOCK_FAILED_CHILD_def)

end
