(* ===== verification/ChainState_Props.thy ===== *)
theory ChainState_Props
  imports ChainState_Tree
begin

text \<open>
  The choice of the active chain: the search for the best candidate, the steps that disconnect and
  connect blocks, and that \<open>ActivateBestChain\<close> ends on a chain no valid chain exceeds in work.
\<close>

section \<open>The invariant of the chain state\<close>

definition chain_inv :: "(ptr \<Rightarrow> connect_verdict) \<Rightarrow> ptr \<Rightarrow> CChainState \<Rightarrow> bool" where
  "chain_inv judge t s \<longleftrightarrow>
     tree_inv (block_index s) \<and> chainActive s = chain_of (block_index s) t \<and> good judge (block_index s) t \<and>
     (\<forall>p\<in>set (setBlockIndexCandidates s). \<exists>b. block_index s p = Some b \<and> nChainTx b \<noteq> 0)"

text \<open>Every good block that is not worse than the reference block \<open>r\<close>, itself good, is a candidate.\<close>

definition candidates_from :: "(ptr \<Rightarrow> connect_verdict) \<Rightarrow> ptr \<Rightarrow> CChainState \<Rightarrow> bool" where
  "candidates_from judge r s \<longleftrightarrow>
     good judge (block_index s) r \<and>
     (\<forall>b. good judge (block_index s) b \<and> \<not> CBlockIndexWorkComparator (block_index s) b r \<longrightarrow> b \<in> set (setBlockIndexCandidates s))"

lemma chain_invD:
  assumes "chain_inv judge t s"
  shows inv_tree: "tree_inv (block_index s)"
    and inv_wf: "wf_store (block_index s)"
    and inv_active: "chainActive s = chain_of (block_index s) t"
    and inv_good: "good judge (block_index s) t"
    and inv_cands: "p \<in> set (setBlockIndexCandidates s) \<Longrightarrow> \<exists>b. block_index s p = Some b \<and> nChainTx b \<noteq> 0"
  using assms tree_wf by (auto simp: chain_inv_def)

lemma inv_entry: "chain_inv judge t s \<Longrightarrow> \<exists>b. block_index s t = Some b"
  using inv_good good_entry by blast

lemma inv_Tip: "chain_inv judge t s \<Longrightarrow> Tip (chainActive s) = Some t"
  using inv_entry inv_active inv_wf Tip_chain_of by metis

lemma candidates_self:
  assumes "chain_inv judge t s" and "candidates_from judge r s"
  shows "r \<in> set (setBlockIndexCandidates s)"
proof -
  have "good judge (block_index s) r" using assms(2) by (simp add: candidates_from_def)
  moreover from this obtain b where "block_index s r = Some b" using good_entry by blast
  ultimately show ?thesis using assms(2) comparator_irrefl [OF inv_tree [OF assms(1)]] by (simp add: candidates_from_def)
qed

lemma clean_ChainTx:
  assumes "chain_inv judge t s" and "p \<in> set (setBlockIndexCandidates s)" and "q \<in> anc (block_index s) p"
  obtains b where "block_index s q = Some b" "nChainTx b \<noteq> 0"
proof -
  let ?m = "block_index s"
  note tree = inv_tree [OF assms(1)] and wf = inv_wf [OF assms(1)]
  obtain bp where bp: "?m p = Some bp" "nChainTx bp \<noteq> 0" using inv_cands [OF assms(1,2)] by blast
  have "\<forall>bp. ?m p = Some bp \<longrightarrow> nChainTx bp \<noteq> 0 \<longrightarrow> q \<in> anc ?m p \<longrightarrow> (\<exists>b. ?m q = Some b \<and> nChainTx b \<noteq> 0)"
  proof (rule tree_induct [OF wf bp(1)])
    fix p bi assume p: "?m p = Some bi"
      and IH: "\<And>r b. pprev bi = Some r \<Longrightarrow> ?m r = Some b \<Longrightarrow>
        \<forall>bp. ?m r = Some bp \<longrightarrow> nChainTx bp \<noteq> 0 \<longrightarrow> q \<in> anc ?m r \<longrightarrow> (\<exists>b. ?m q = Some b \<and> nChainTx b \<noteq> 0)"
    show "\<forall>bp. ?m p = Some bp \<longrightarrow> nChainTx bp \<noteq> 0 \<longrightarrow> q \<in> anc ?m p \<longrightarrow> (\<exists>b. ?m q = Some b \<and> nChainTx b \<noteq> 0)"
    proof (cases "pprev bi")
      case None
      then show ?thesis using p anc_prev [OF wf p] by auto
    next
      case (Some r)
      obtain b where b: "?m r = Some b" using prev_entry [OF wf p Some] .
      show ?thesis using IH [OF Some b] b p Some anc_prev [OF wf p] tree_ChainTx [OF tree p Some b] by auto
    qed
  qed
  then show thesis using bp assms(3) that by blast
qed

text \<open>Blocks with a known number of transactions on their chain have their data, unless files were pruned.\<close>

definition data_inv :: "block_store \<Rightarrow> bool" where
  "data_inv m \<longleftrightarrow> (\<forall>p b. m p = Some b \<and> nChainTx b \<noteq> 0 \<longrightarrow> nStatus b AND BLOCK_HAVE_DATA \<noteq> 0)"

lemma relabel_data:
  assumes r: "relabel judge m m'" and d: "data_inv m"
  shows "data_inv m'"
  unfolding data_inv_def
proof (intro allI impI, elim conjE)
  fix p b' assume b': "m' p = Some b'" "nChainTx b' \<noteq> 0"
  obtain b f where b: "m p = Some b" "b' = b\<lparr>nStatus := nStatus b OR f\<rparr>" "f AND BLOCK_FAILED_MASK = f"
    using relabel_back [OF r b'(1)] .
  then have "nStatus b AND BLOCK_HAVE_DATA \<noteq> 0" using d b'(2) by (auto simp: data_inv_def)
  then show "nStatus b' AND BLOCK_HAVE_DATA \<noteq> 0" using or_failed_data [OF b(3), of "nStatus b"] b(2) by simp
qed

text \<open>The maps of the state change only when data is missing.\<close>

definition same_maps :: "CChainState \<Rightarrow> CChainState \<Rightarrow> bool" where
  "same_maps s s' \<longleftrightarrow> mapBlockIndex s' = mapBlockIndex s \<and> (data_inv (block_index s) \<longrightarrow> mapBlocksUnlinked s' = mapBlocksUnlinked s)"

lemma same_maps_refl [simp]: "same_maps s s"
  by (simp add: same_maps_def)

lemma same_maps_trans:
  "relabel judge (block_index s) (block_index s') \<Longrightarrow> same_maps s s' \<Longrightarrow> same_maps s' s'' \<Longrightarrow> same_maps s s''"
  by (auto simp: same_maps_def dest: relabel_data)

text \<open>Marking bad blocks and dropping bad candidates keeps the invariants.\<close>

definition pruned :: "(ptr \<Rightarrow> connect_verdict) \<Rightarrow> CChainState \<Rightarrow> CChainState \<Rightarrow> bool" where
  "pruned judge s s' \<longleftrightarrow>
     relabel judge (block_index s) (block_index s') \<and> same_maps s s' \<and> chainActive s' = chainActive s \<and>
     set (setBlockIndexCandidates s') \<subseteq> set (setBlockIndexCandidates s) \<and>
     (\<forall>p \<in> set (setBlockIndexCandidates s). good judge (block_index s) p \<longrightarrow> p \<in> set (setBlockIndexCandidates s'))"

lemma pruned_inv:
  assumes p: "pruned judge s s'" and inv: "chain_inv judge t s"
  shows "chain_inv judge t s'"
proof -
  let ?m = "block_index s" and ?m' = "block_index s'"
  have r: "relabel judge ?m ?m'" and a: "chainActive s' = chainActive s"
    and c: "set (setBlockIndexCandidates s') \<subseteq> set (setBlockIndexCandidates s)" using p by (auto simp: pruned_def)
  have "\<exists>b. ?m' q = Some b \<and> nChainTx b \<noteq> 0" if q: "q \<in> set (setBlockIndexCandidates s')" for q
  proof -
    obtain b where "?m q = Some b" "nChainTx b \<noteq> 0" using inv_cands [OF inv] q c by blast
    then show ?thesis using relabel_at [OF r, of q] by auto
  qed
  then show ?thesis
    using relabel_tree_inv [OF r inv_tree [OF inv]] inv_active [OF inv] inv_good [OF inv] a
    by (simp add: chain_inv_def relabel_chain_of [OF r] relabel_good [OF r inv_wf [OF inv]])
qed

lemma pruned_candidates:
  assumes p: "pruned judge s s'" and inv: "chain_inv judge t s" and "candidates_from judge r s"
  shows "candidates_from judge r s'"
proof -
  have rl: "relabel judge (block_index s) (block_index s')" using p by (simp add: pruned_def)
  show ?thesis
    using assms(3) p unfolding candidates_from_def relabel_good [OF rl inv_wf [OF inv]] relabel_comparator [OF rl]
    by (auto simp: pruned_def)
qed

lemma pruned_trans:
  assumes "pruned judge s s'" and "pruned judge s' s''" and "wf_store (block_index s)"
  shows "pruned judge s s''"
proof -
  have r: "relabel judge (block_index s) (block_index s')" "relabel judge (block_index s') (block_index s'')"
    using assms by (auto simp: pruned_def)
  show ?thesis
    using assms relabel_trans [OF r assms(3)] relabel_good [OF r(1) assms(3)] same_maps_trans [OF r(1)] unfolding pruned_def by auto
qed

lemma pruned_refl: "pruned judge s s"
  by (simp add: pruned_def relabel_refl)

section \<open>The best candidate\<close>

lemma scan_path_result:
  assumes wf: "wf_store m" and p: "m p = Some bp" and tx: "\<forall>q b. q \<in> anc m p \<longrightarrow> m q = Some b \<longrightarrow> nChainTx b \<noteq> 0"
    and act: "clean_path m t" "m t = Some bt"
  shows "scan_path m (chain_of m t) (Some p) = Some None \<and> clean_path m p \<or>
    (\<exists>q f b. scan_path m (chain_of m t) (Some p) = Some (Some (q, f)) \<and> q \<in> anc m p \<and> m q = Some b \<and> \<not> clean_entry b \<and>
       (f \<longleftrightarrow> nStatus b AND BLOCK_FAILED_MASK \<noteq> 0))"
    (is "?P p")
proof -
  have "(\<forall>q b. q \<in> anc m p \<longrightarrow> m q = Some b \<longrightarrow> nChainTx b \<noteq> 0) \<longrightarrow> ?P p"
  proof (rule tree_induct [OF wf p])
    fix p bi assume p: "m p = Some bi"
      and IH: "\<And>r b. pprev bi = Some r \<Longrightarrow> m r = Some b \<Longrightarrow> (\<forall>q b. q \<in> anc m r \<longrightarrow> m q = Some b \<longrightarrow> nChainTx b \<noteq> 0) \<longrightarrow> ?P r"
    show "(\<forall>q b. q \<in> anc m p \<longrightarrow> m q = Some b \<longrightarrow> nChainTx b \<noteq> 0) \<longrightarrow> ?P p"
    proof
      assume tx: "\<forall>q b. q \<in> anc m p \<longrightarrow> m q = Some b \<longrightarrow> nChainTx b \<noteq> 0"
      have txp: "nChainTx bi \<noteq> 0" using tx anc_self [OF wf p] p by blast
      consider (active) "p \<in> anc m t" | (bad) "p \<notin> anc m t" "\<not> clean_entry bi" | (up) "p \<notin> anc m t" "clean_entry bi" by blast
      then show "?P p"
      proof cases
        case active
        then show ?thesis using clean_path_anc [OF wf act(2,1)] Contains_anc [OF wf p]
          by (subst (1) scan_path.simps) (simp add: p)
      next
        case bad
        then have "scan_path m (chain_of m t) (Some p) = Some (Some (p, nStatus bi AND BLOCK_FAILED_MASK \<noteq> 0))"
          using Contains_anc [OF wf p] txp by (subst scan_path.simps) (auto simp: p Let_def clean_entry_def)
        then show ?thesis using bad anc_self [OF wf p] p by blast
      next
        case up
        then have sc: "scan_path m (chain_of m t) (Some p) = scan_path m (chain_of m t) (pprev bi)"
          using Contains_anc [OF wf p] txp by (subst scan_path.simps) (auto simp: p Let_def clean_entry_def)
        show ?thesis
        proof (cases "pprev bi")
          case None
          then have "scan_path m (chain_of m t) (Some p) = Some None" unfolding sc by (subst scan_path.simps) simp
          moreover have "clean_path m p" using anc_prev [OF wf p] None p up by (simp add: clean_path_def)
          ultimately show ?thesis by blast
        next
          case (Some r)
          obtain b where b: "m r = Some b" using prev_entry [OF wf p Some] .
          have an: "anc m p = insert p (anc m r)" using anc_prev [OF wf p] Some by simp
          have "?P r" using IH [OF Some b] tx an by blast
          moreover have "clean_path m p" if "clean_path m r" using that an p up by (simp add: clean_path_def)
          ultimately show ?thesis unfolding sc Some an by blast
        qed
      qed
    qed
  qed
  then show ?thesis using tx by blast
qed

lemma not_good_unclean:
  assumes "q \<in> anc m p" and "m q = Some b" and "\<not> clean_entry b"
  shows "\<not> good judge m p"
  using assms unfolding good_def clean_path_def by force

lemma set_erase_set [simp]: "set (set_erase x xs) = set xs - {x}"
  by (auto simp: set_erase_def)

lemma pruned_erase:
  assumes "\<not> good judge (block_index s) p"
  shows "pruned judge s (s\<lparr>setBlockIndexCandidates := set_erase p (setBlockIndexCandidates s)\<rparr>)"
  using assms by (auto simp: pruned_def relabel_refl same_maps_def)

text \<open>One turn of the loop that removes a chain.\<close>

definition remove_step :: "bool \<Rightarrow> ptr \<Rightarrow> CBlockIndex \<Rightarrow> CChainState \<Rightarrow> CChainState" where
  "remove_step f p bi s =
     (let s1 = (if f then s\<lparr>block_index := (block_index s)(p \<mapsto> bi\<lparr>nStatus := nStatus bi OR BLOCK_FAILED_CHILD\<rparr>)\<rparr>
                else s\<lparr>mapBlocksUnlinked := mapBlocksUnlinked s @ [(pprev bi, p)]\<rparr>)
      in s1\<lparr>setBlockIndexCandidates := set_erase p (setBlockIndexCandidates s1)\<rparr>)"

lemma remove_chain_step:
  "p \<noteq> q \<Longrightarrow> block_index s p = Some bi \<Longrightarrow> pprev bi = Some r \<Longrightarrow>
   remove_chain q f p s = remove_chain q f r (remove_step f p bi s)"
  by (subst remove_chain.simps) (simp add: remove_step_def Let_def)

lemma pruned_remove_step:
  assumes "block_index s p = Some bi" and "\<not> good judge (block_index s) p" and "f \<or> \<not> data_inv (block_index s)"
  shows "pruned judge s (remove_step f p bi s)"
  using assms relabel_mark [of "block_index s" p bi judge BLOCK_FAILED_CHILD]
  by (auto simp: pruned_def remove_step_def Let_def relabel_refl same_maps_def)

lemma remove_step_erases: "p \<notin> set (setBlockIndexCandidates (remove_step f p bi s))"
  by (simp add: remove_step_def Let_def)

lemma remove_chain_pruned:
  "wf_store (block_index s) \<Longrightarrow> block_index s p = Some bp \<Longrightarrow> q \<in> anc (block_index s) p \<Longrightarrow>
   block_index s q = Some b \<Longrightarrow> \<not> clean_entry b \<Longrightarrow> tree_inv (block_index s) \<Longrightarrow> f \<or> \<not> data_inv (block_index s) \<Longrightarrow>
   \<exists>s'. remove_chain q f p s = Some s' \<and> pruned judge s s' \<and> (p \<noteq> q \<longrightarrow> p \<notin> set (setBlockIndexCandidates s'))"
proof (induction "nat (nHeight bp)" arbitrary: p bp b s rule: less_induct)
  case less
  let ?m = "block_index s"
  note wf = less.prems(1)
  have ng: "\<not> good judge ?m p" using not_good_unclean less.prems(3-5) .
  show ?case
  proof (cases "p = q")
    case True
    then show ?thesis using pruned_refl by (subst (1) remove_chain.simps) simp
  next
    case False
    then obtain r where r: "pprev bp = Some r" "q \<in> anc ?m r"
      using less.prems(3) anc_prev [OF wf less.prems(2)] by (auto split: option.splits)
    obtain br where br: "?m r = Some br" "nHeight bp = nHeight br + 1" "0 \<le> nHeight br"
      using prev_entry [OF wf less.prems(2) r(1)] .
    let ?s = "remove_step f p bp s"
    have pr: "pruned judge s ?s" using pruned_remove_step [OF less.prems(2) ng less.prems(7)] .
    then have rl: "relabel judge ?m (block_index ?s)" by (simp add: pruned_def)
    obtain br' where br': "block_index ?s r = Some br'" "nHeight br' = nHeight br"
      using relabel_at [OF rl, of r] br(1) by auto
    obtain b' where b': "block_index ?s q = Some b'"
      using relabel_at [OF rl, of q] less.prems(4) by auto
    have nb': "\<not> clean_entry b'" using relabel_clean [OF rl b'] less.prems(4,5) by auto
    have tree: "tree_inv (block_index ?s)" using relabel_tree_inv [OF rl less.prems(6)] .
    have di: "f \<or> \<not> data_inv (block_index ?s)" using less.prems(7) by (auto simp: remove_step_def Let_def)
    have "nat (nHeight br') < nat (nHeight bp)" using br br'(2) by simp
    from less.hyps [OF this tree_wf [OF tree] br'(1) _ b' nb' tree di]
    obtain s' where s': "remove_chain q f r ?s = Some s'" "pruned judge ?s s'" using r(2) relabel_anc [OF rl] by blast
    have "remove_chain q f p s = Some s'" using remove_chain_step [OF False less.prems(2) r(1)] s'(1) by simp
    moreover have "pruned judge s s'" using pruned_trans [OF pr s'(2) wf] .
    moreover have "p \<notin> set (setBlockIndexCandidates s')" using remove_step_erases s'(2) by (auto simp: pruned_def)
    ultimately show ?thesis by blast
  qed
qed

lemma drop_candidate_pruned:
  assumes inv: "tree_inv (block_index s)" and p: "block_index s p = Some bp" and q: "q \<in> anc (block_index s) p"
    and b: "block_index s q = Some b" "\<not> clean_entry b" and fd: "f \<or> \<not> data_inv (block_index s)" and c: "p \<in> set (setBlockIndexCandidates s)"
  shows "\<exists>s'. drop_candidate s p q f = Some s' \<and> pruned judge s s' \<and>
    card (set (setBlockIndexCandidates s')) < card (set (setBlockIndexCandidates s))"
proof -
  define s1 where "s1 = (if f \<and> beats (block_index s) bp (pindexBestInvalid s) then s\<lparr>pindexBestInvalid := Some p\<rparr> else s)"
  have s1: "block_index s1 = block_index s" "setBlockIndexCandidates s1 = setBlockIndexCandidates s" "chainActive s1 = chainActive s"
      "mapBlockIndex s1 = mapBlockIndex s" "mapBlocksUnlinked s1 = mapBlocksUnlinked s"
    by (simp_all add: s1_def)
  note wf = tree_wf [OF inv]
  from remove_chain_pruned [of s1 p bp q b f judge]
  obtain s2 where s2: "remove_chain q f p s1 = Some s2" "pruned judge s1 s2" "p \<noteq> q \<longrightarrow> p \<notin> set (setBlockIndexCandidates s2)"
    using wf p q b inv fd unfolding s1 by blast
  let ?s = "s2\<lparr>setBlockIndexCandidates := set_erase q (setBlockIndexCandidates s2)\<rparr>"
  have rl: "relabel judge (block_index s1) (block_index s2)" using s2(2) by (simp add: pruned_def)
  have "\<not> good judge (block_index s1) q" using not_good_unclean [OF anc_self [OF wf b(1)] b] by (simp add: s1)
  then have "\<not> good judge (block_index s2) q" using relabel_good [OF rl] wf by (simp add: s1)
  then have "pruned judge s1 ?s" using pruned_trans [OF s2(2) pruned_erase] wf s1(1) by simp
  then have pr: "pruned judge s ?s" by (simp add: pruned_def same_maps_def s1)
  have "p \<notin> set (setBlockIndexCandidates ?s)" using s2(3) by auto
  then have "set (setBlockIndexCandidates ?s) \<subset> set (setBlockIndexCandidates s)" using pr c by (auto simp: pruned_def)
  then have "card (set (setBlockIndexCandidates ?s)) < card (set (setBlockIndexCandidates s))" by (simp add: psubset_card_mono)
  moreover have "drop_candidate s p q f = Some ?s" using s2(1) p by (simp add: drop_candidate_def s1_def [symmetric] Let_def)
  ultimately show ?thesis using pr by blast
qed

text \<open>
  The search ends, keeps the invariants, and returns the best of the candidates that are left, whose
  chain has its data and no failed block.
\<close>

lemma FindMostWorkChain_best:
  "chain_inv judge t s \<Longrightarrow> candidates_from judge r s \<Longrightarrow>
   \<exists>p s'. FindMostWorkChain s = Some (Some p, s') \<and> pruned judge s s' \<and> p \<in> set (setBlockIndexCandidates s') \<and>
     clean_path (block_index s') p \<and> (\<forall>q\<in>set (setBlockIndexCandidates s'). \<not> CBlockIndexWorkComparator (block_index s') p q)"
proof (induction "card (set (setBlockIndexCandidates s))" arbitrary: s rule: less_induct)
  case less
  let ?m = "block_index s" and ?c = "setBlockIndexCandidates s"
  note inv = less.prems(1) and wf = inv_wf [OF less.prems(1)] and tree = inv_tree [OF less.prems(1)]
  have ne: "?c \<noteq> []" using candidates_self [OF less.prems] by auto
  have "set ?c \<subseteq> dom ?m" using inv_cands [OF inv] by blast
  then obtain p where p: "best_candidate ?m ?c = Some p" "p \<in> set ?c" "\<forall>q\<in>set ?c. \<not> CBlockIndexWorkComparator ?m p q"
    using best_candidate_max [OF tree _ ne] by blast
  obtain bp where bp: "?m p = Some bp" using inv_cands [OF inv p(2)] by blast
  obtain bt where bt: "?m t = Some bt" using inv_entry [OF inv] ..
  have tx: "\<forall>q b. q \<in> anc ?m p \<longrightarrow> ?m q = Some b \<longrightarrow> nChainTx b \<noteq> 0"
    using clean_ChainTx [OF inv p(2)] by (metis option.inject)
  have "clean_path ?m t" using inv_good [OF inv] by (simp add: good_def)
  from scan_path_result [OF wf bp tx this bt]
  show ?case
  proof (elim disjE exE conjE)
    assume "scan_path ?m (chain_of ?m t) (Some p) = Some None" "clean_path ?m p"
    then have "FindMostWorkChain s = Some (Some p, s)"
      using p(1) inv_active [OF inv] by (subst FindMostWorkChain.simps) simp
    then show ?thesis using p \<open>clean_path ?m p\<close> pruned_refl by blast
  next
    fix q f b
    assume sc: "scan_path ?m (chain_of ?m t) (Some p) = Some (Some (q, f))"
      and q: "q \<in> anc ?m p" "?m q = Some b" "\<not> clean_entry b" and f: "f = (nStatus b AND BLOCK_FAILED_MASK \<noteq> 0)"
    have fd: "f \<or> \<not> data_inv ?m" using f q tx by (auto simp: clean_entry_def data_inv_def)
    from drop_candidate_pruned [OF tree bp q fd p(2), of judge]
    obtain s' where s': "drop_candidate s p q f = Some s'" "pruned judge s s'" "card (set (setBlockIndexCandidates s')) < card (set ?c)"
      by blast
    have "FindMostWorkChain s = FindMostWorkChain s'"
      using p(1) inv_active [OF inv] sc s'(1) by (subst FindMostWorkChain.simps) simp
    moreover note less.hyps [OF s'(3) pruned_inv [OF s'(2) inv] pruned_candidates [OF s'(2) inv less.prems(2)]]
    ultimately show ?thesis using pruned_trans [OF s'(2) _ wf] by metis
  qed
qed

section \<open>Disconnecting and connecting blocks\<close>

lemma chain_inv_retip:
  assumes "chain_inv judge t s" and "good judge (block_index s) p"
  shows "chain_inv judge p (s\<lparr>chainActive := chain_of (block_index s) p\<rparr>)"
  using assms by (simp add: chain_inv_def)

lemma DisconnectTip_prev:
  assumes inv: "chain_inv judge t s" and "undoable t" and b: "block_index s t = Some b" "pprev b = Some q"
  shows "DisconnectTip undoable s = Some (True, s\<lparr>chainActive := chain_of (block_index s) q\<rparr>)"
proof -
  obtain bq where "block_index s q = Some bq" using prev_entry [OF inv_wf [OF inv] b] .
  then show ?thesis using assms(2) b inv_Tip [OF inv] inv_active [OF inv] SetTip_chain_of [OF inv_wf [OF inv]]
    by (simp add: DisconnectTip_def)
qed

lemma disconnect_to_fork:
  assumes und: "\<forall>p. undoable p"
  shows "chain_inv judge t s \<Longrightarrow> block_index s t = Some bt \<Longrightarrow> f \<in> anc (block_index s) t \<Longrightarrow>
    disconnect_to undoable (Some f) s = Some (True, s\<lparr>chainActive := chain_of (block_index s) f\<rparr>)"
proof (induction "nat (nHeight bt)" arbitrary: t bt s rule: less_induct)
  case less
  note inv = less.prems(1) and wf = inv_wf [OF less.prems(1)]
  show ?case
  proof (cases "f = t")
    case True
    then show ?thesis using inv_Tip [OF inv] inv_active [OF inv] by (subst disconnect_to.simps) simp
  next
    case False
    then obtain q where q: "pprev bt = Some q" "f \<in> anc (block_index s) q"
      using less.prems(3) anc_prev [OF wf less.prems(2)] by (auto split: option.splits)
    obtain bq where bq: "block_index s q = Some bq" "nHeight bt = nHeight bq + 1" "0 \<le> nHeight bq"
      using prev_entry [OF wf less.prems(2) q(1)] .
    have "q \<in> anc (block_index s) t" using anc_prev [OF wf less.prems(2)] q(1) anc_self [OF wf bq(1)] by simp
    then have inv': "chain_inv judge q (s\<lparr>chainActive := chain_of (block_index s) q\<rparr>)"
      using chain_inv_retip [OF inv good_anc [OF wf inv_good [OF inv]]] by simp
    have "disconnect_to undoable (Some f) (s\<lparr>chainActive := chain_of (block_index s) q\<rparr>)
      = Some (True, s\<lparr>chainActive := chain_of (block_index s) f\<rparr>)"
      using less.hyps [OF _ inv'] bq q(2) by simp
    then show ?thesis
      using False inv_Tip [OF inv] DisconnectTip_prev [OF inv _ less.prems(2) q(1)] und
      by (subst disconnect_to.simps) simp
  qed
qed

text \<open>A list of blocks each on top of the one before, the first on top of \<open>t\<close>.\<close>

fun linked :: "block_store \<Rightarrow> ptr \<Rightarrow> ptr list \<Rightarrow> bool" where
  "linked m t [] \<longleftrightarrow> True"
| "linked m t (p # ps) \<longleftrightarrow> (\<exists>b. m p = Some b \<and> pprev b = Some t) \<and> linked m p ps"

lemma linked_snoc: "linked m t (ps @ [p]) \<longleftrightarrow> linked m t ps \<and> (\<exists>b. m p = Some b \<and> pprev b = Some (last (t # ps)))"
  by (induction m t ps rule: linked.induct) auto

lemma to_connect_linked:
  assumes wf: "wf_store m"
  shows "m p = Some bp \<Longrightarrow> nth_prev m k p = Some t \<Longrightarrow> m t = Some bt \<Longrightarrow> nHeight bt = nHeight bp - int k \<Longrightarrow>
    \<exists>xs. to_connect m (nHeight bt) (Some p) acc = Some (acc @ xs) \<and> linked m t (rev xs) \<and> last (t # rev xs) = p \<and>
      set xs \<subseteq> anc m p \<and> length xs = k"
proof (induction k arbitrary: p bp acc)
  case 0
  then show ?case by (intro exI [of _ "[]"]) (subst to_connect.simps, simp)
next
  case (Suc k)
  obtain q where q: "pprev bp = Some q" "nth_prev m k q = Some t" using Suc.prems(1,2) by (auto split: option.splits)
  obtain bq where bq: "m q = Some bq" "nHeight bp = nHeight bq + 1" using prev_entry [OF wf Suc.prems(1) q(1)] .
  have "nHeight bt = nHeight bq - int k" using Suc.prems(4) bq(2) by simp
  from Suc.IH [OF bq(1) q(2) Suc.prems(3) this, of "acc @ [p]"]
  obtain xs where xs: "to_connect m (nHeight bt) (Some q) (acc @ [p]) = Some ((acc @ [p]) @ xs)" "linked m t (rev xs)"
    "last (t # rev xs) = q" "set xs \<subseteq> anc m q" "length xs = k" by blast
  have "to_connect m (nHeight bt) (Some p) acc = Some (acc @ p # xs)"
    using xs(1) q(1) Suc.prems(1,4) by (subst to_connect.simps) simp
  moreover have "linked m t (rev (p # xs))" using xs(2,3) q(1) Suc.prems(1) by (simp add: linked_snoc)
  ultimately show ?case using xs(4,5) anc_prev [OF wf Suc.prems(1)] q(1) by (intro exI [of _ "p # xs"]) auto
qed

lemma Prune_candidates:
  assumes inv: "chain_inv judge t s" and cf: "candidates_from judge r s"
  shows "\<exists>s' r'. PruneBlockIndexCandidates s = Some s' \<and> chain_inv judge t s' \<and> candidates_from judge r' s' \<and>
    block_index s' = block_index s \<and> same_maps s s' \<and> set (setBlockIndexCandidates s') \<subseteq> set (setBlockIndexCandidates s) \<and>
    (\<forall>x\<in>set (setBlockIndexCandidates s). \<not> CBlockIndexWorkComparator (block_index s) x t \<longrightarrow> x \<in> set (setBlockIndexCandidates s'))"
proof -
  let ?m = "block_index s"
  let ?c = "filter (\<lambda>p. \<not> CBlockIndexWorkComparator ?m p t) (setBlockIndexCandidates s)"
  let ?s = "s\<lparr>setBlockIndexCandidates := ?c\<rparr>"
  note tree = inv_tree [OF inv]
  obtain bt where bt: "?m t = Some bt" using inv_entry [OF inv] ..
  have gr: "good judge ?m r" using cf by (simp add: candidates_from_def)
  then obtain br where br: "?m r = Some br" using good_entry by blast
  define r' where "r' = (if CBlockIndexWorkComparator ?m r t then t else r)"
  have ge: "\<not> CBlockIndexWorkComparator ?m b r \<and> \<not> CBlockIndexWorkComparator ?m b t"
    if b: "good judge ?m b" "\<not> CBlockIndexWorkComparator ?m b r'" for b
  proof -
    obtain bb where bb: "?m b = Some bb" using good_entry [OF b(1)] ..
    show ?thesis
      using b(2) comparator_asym [OF tree br bt] comparator_trans [OF tree bt br bb] comparator_trans [OF tree br bt bb]
      unfolding r'_def by (cases "CBlockIndexWorkComparator ?m r t") auto
  qed
  have "good judge ?m r'" using gr inv_good [OF inv] by (simp add: r'_def)
  then have cf': "candidates_from judge r' ?s" using ge cf by (simp add: candidates_from_def)
  have inv': "chain_inv judge t ?s" using inv by (auto simp: chain_inv_def)
  have "r' \<in> set ?c" using candidates_self [OF inv' cf'] by simp
  then have "?c \<noteq> []" by (metis empty_iff empty_set)
  then have "PruneBlockIndexCandidates s = Some ?s" using inv_Tip [OF inv] by (simp add: PruneBlockIndexCandidates_def Let_def)
  then show ?thesis using inv' cf' by (intro exI [of _ ?s] exI [of _ r'] conjI) (auto simp: same_maps_def)
qed

lemma InvalidChainFound_pruned:
  assumes inv: "chain_inv judge t s" and "block_index s p = Some b"
  shows "\<exists>s'. InvalidChainFound s p = Some s' \<and> pruned judge s s' \<and> block_index s' = block_index s"
  using inv_Tip [OF inv] assms(2) by (auto simp: InvalidChainFound_def pruned_def relabel_refl same_maps_def)

lemma InvalidBlockFound_pruned:
  assumes inv: "chain_inv judge t s" and p: "block_index s p = Some b" and "clean_entry b" and ng: "\<not> good judge (block_index s) p"
  shows "\<exists>s'. InvalidBlockFound s p False = Some s' \<and> pruned judge s s' \<and> unfailed (block_index s') \<subset> unfailed (block_index s)"
proof -
  let ?b = "b\<lparr>nStatus := nStatus b OR BLOCK_FAILED_VALID\<rparr>"
  let ?s = "s\<lparr>block_index := (block_index s)(p \<mapsto> ?b), g_failed_blocks := set_insert p (g_failed_blocks s),
    setDirtyBlockIndex := set_insert p (setDirtyBlockIndex s), setBlockIndexCandidates := set_erase p (setBlockIndexCandidates s)\<rparr>"
  have rl: "relabel judge (block_index s) (block_index ?s)" using relabel_mark [OF p ng failed_flags(1)] by simp
  then have pr: "pruned judge s ?s" using ng by (auto simp: pruned_def same_maps_def)
  obtain s' where s': "InvalidChainFound ?s p = Some s'" "pruned judge ?s s'" "block_index s' = block_index ?s"
    using InvalidChainFound_pruned [OF pruned_inv [OF pr inv], of p ?b] by auto
  have "p \<in> unfailed (block_index s)" using p assms(3) by (simp add: unfailed_def clean_entry_def)
  moreover have "p \<notin> unfailed (block_index s')"
    using s'(3) by (simp add: unfailed_def BLOCK_FAILED_VALID_def BLOCK_FAILED_MASK_def BLOCK_FAILED_CHILD_def bit.conj_disj_distrib2 or_eq_0_iff)
  moreover have "unfailed (block_index s') \<subseteq> unfailed (block_index s)" using relabel_unfailed [OF rl] s'(3) by simp
  ultimately have "unfailed (block_index s') \<subset> unfailed (block_index s)" by blast
  moreover have "InvalidBlockFound s p False = Some s'" using s'(1) p by (simp add: InvalidBlockFound_def)
  ultimately show ?thesis using pruned_trans [OF pr s'(2) inv_wf [OF inv]] by blast
qed

text \<open>What a run of connections may do to the state, with the new tip and the reference block.\<close>

definition sound_verdicts :: "(ptr \<Rightarrow> connect_verdict) \<Rightarrow> bool" where
  "sound_verdicts judge \<longleftrightarrow> (\<forall>p. judge p = BlockAccepted \<or> judge p = BlockInvalid False)"

definition progress :: "(ptr \<Rightarrow> connect_verdict) \<Rightarrow> CChainState \<Rightarrow> CChainState \<Rightarrow> ptr \<Rightarrow> bool" where
  "progress judge s s' t \<longleftrightarrow>
     relabel judge (block_index s) (block_index s') \<and> same_maps s s' \<and> chain_inv judge t s' \<and> (\<exists>r. candidates_from judge r s')"

text \<open>
  The ways the connection of a list of blocks below \<open>most\<close> ends. Unless a block was found invalid, no
  status changed and the candidates not worse than \<open>most\<close> stayed.
\<close>

definition kept :: "CChainState \<Rightarrow> CChainState \<Rightarrow> ptr \<Rightarrow> bool" where
  "kept s s' most \<longleftrightarrow>
     block_index s' = block_index s \<and> same_maps s s' \<and> set (setBlockIndexCandidates s') \<subseteq> set (setBlockIndexCandidates s) \<and>
     (most \<in> set (setBlockIndexCandidates s) \<longrightarrow> most \<in> set (setBlockIndexCandidates s'))"

definition batch_result ::
  "(ptr \<Rightarrow> connect_verdict) \<Rightarrow> ptr \<Rightarrow> ptr \<Rightarrow> ptr list \<Rightarrow> CChainState \<Rightarrow> (batch_end \<times> CChainState) option \<Rightarrow> bool" where
  "batch_result judge most t ps s res \<longleftrightarrow>
     (\<exists>s'. res = Some (BatchAll, s') \<and> progress judge s s' (last (t # ps)) \<and> kept s s' most) \<or>
     (\<exists>s' p. res = Some (BatchBetter, s') \<and> progress judge s s' p \<and> p \<in> set ps \<and> kept s s' most) \<or>
     (\<exists>s' p. res = Some (BatchInvalid, s') \<and> progress judge s s' p \<and> unfailed (block_index s') \<subset> unfailed (block_index s))"

lemma ConnectTip_accept:
  assumes inv: "chain_inv judge t s" and b: "block_index s p = Some b" "pprev b = Some t" "clean_entry b" and j: "judge p = BlockAccepted"
  shows "ConnectTip judge s p = Some (BlockAccepted, s\<lparr>chainActive := chain_of (block_index s) p\<rparr>) \<and>
    chain_inv judge p (s\<lparr>chainActive := chain_of (block_index s) p\<rparr>)"
  using chain_inv_retip [OF inv good_extend [OF inv_wf [OF inv] b(1,2) inv_good [OF inv] b(3) j]]
    SetTip_chain_of [OF inv_wf [OF inv] b(1)] inv_Tip [OF inv] inv_active [OF inv] b j
  by (simp add: ConnectTip_def)

lemma ConnectTip_refuse:
  assumes inv: "chain_inv judge t s" and b: "block_index s p = Some b" "pprev b = Some t" "clean_entry b" and j: "judge p = BlockInvalid False"
  shows "\<exists>s'. ConnectTip judge s p = Some (BlockInvalid False, s') \<and> pruned judge s s' \<and>
    unfailed (block_index s') \<subset> unfailed (block_index s)"
proof -
  have "\<not> good judge (block_index s) p" using anc_self [OF inv_wf [OF inv] b(1)] j by (force simp: good_def)
  then obtain s' where "InvalidBlockFound s p False = Some s'" "pruned judge s s'" "unfailed (block_index s') \<subset> unfailed (block_index s)"
    using InvalidBlockFound_pruned [OF inv b(1,3)] by blast
  then show ?thesis using inv_Tip [OF inv] b j by (simp add: ConnectTip_def)
qed

lemma kept_trans: "kept s s' most \<Longrightarrow> kept s' s'' most \<Longrightarrow> kept s s'' most"
  by (auto simp: kept_def same_maps_def)

lemma batch_result_trans:
  assumes "kept s s' most" and "wf_store (block_index s)" and "batch_result judge most p ps s' res"
  shows "batch_result judge most t (p # ps) s res"
proof -
  have m: "block_index s' = block_index s" "same_maps s s'" using assms(1) by (simp_all add: kept_def)
  have pt: "progress judge s s'' x" if "progress judge s' s'' x" for s'' x
    using that m by (auto simp: progress_def same_maps_def)
  have l: "last (t # p # ps) = last (p # ps)" by simp
  have "x \<in> set (p # ps)" if "x \<in> set ps" for x using that by simp
  with assms(3) kept_trans [OF assms(1)] pt show ?thesis unfolding batch_result_def m(1) l by blast
qed

lemma connect_blocks_result:
  assumes sv: "sound_verdicts judge"
  shows "chain_inv judge t s \<Longrightarrow> candidates_from judge r s \<Longrightarrow> linked (block_index s) t ps \<Longrightarrow> block_index s most = Some bm \<Longrightarrow>
    set ps \<subseteq> anc (block_index s) most \<Longrightarrow> clean_path (block_index s) most \<Longrightarrow> block_index s lowest = Some bl \<Longrightarrow>
    old = Some ot \<and> block_index s ot = Some bo \<Longrightarrow>
    batch_result judge most t ps s (connect_blocks judge old lowest ps s)"
proof (induction ps arbitrary: t s r)
  case Nil
  then have "progress judge s s t" "kept s s most" by (auto simp: progress_def kept_def relabel_refl)
  then show ?case by (auto simp: batch_result_def)
next
  case (Cons p ps)
  let ?m = "block_index s"
  note inv = Cons.prems(1) and wf = inv_wf [OF Cons.prems(1)]
  obtain b where b: "?m p = Some b" "pprev b = Some t" using Cons.prems(3) by auto
  have pm: "p \<in> anc ?m most" using Cons.prems(5) by simp
  have cl: "clean_entry b" using Cons.prems(6) pm b(1) by (force simp: clean_path_def)
  consider (ok) "judge p = BlockAccepted" | (bad) "judge p = BlockInvalid False" using sv by (auto simp: sound_verdicts_def)
  then show ?case
  proof cases
    case ok
    let ?s1 = "s\<lparr>chainActive := chain_of ?m p\<rparr>"
    note acc = ConnectTip_accept [OF inv b cl ok]
    have cf: "candidates_from judge r ?s1" using Cons.prems(2) by (simp add: candidates_from_def)
    from Prune_candidates [OF conjunct2 [OF acc] cf]
    obtain s2 r2 where s2: "PruneBlockIndexCandidates ?s1 = Some s2" "chain_inv judge p s2" "candidates_from judge r2 s2"
      "block_index s2 = ?m" "same_maps s s2" "set (setBlockIndexCandidates s2) \<subseteq> set (setBlockIndexCandidates s)"
      "\<forall>x\<in>set (setBlockIndexCandidates s). \<not> CBlockIndexWorkComparator ?m x p \<longrightarrow> x \<in> set (setBlockIndexCandidates s2)"
      by (auto simp: same_maps_def)
    have k: "kept s s2 most" using s2(4-7) anc_work [OF inv_tree [OF inv] Cons.prems(4) pm] by (simp add: kept_def)
    have eq: "connect_blocks judge old lowest (p # ps) s =
      (if beats ?m b old then Some (BatchBetter, s2) else connect_blocks judge old lowest ps s2)"
      using acc s2(1,4) b(1) by simp
    show ?thesis
    proof (cases "beats ?m b old")
      case True
      moreover have "progress judge s s2 p" using s2 by (auto simp: progress_def relabel_refl)
      ultimately show ?thesis using eq k by (auto simp: batch_result_def)
    next
      case False
      have "batch_result judge most p ps s2 (connect_blocks judge old lowest ps s2)"
        by (rule Cons.IH [OF s2(2,3)]) (use Cons.prems(3-8) in \<open>auto simp: s2(4)\<close>)
      then show ?thesis using batch_result_trans [OF k wf] eq False by simp
    qed
  next
    case bad
    from ConnectTip_refuse [OF inv b cl bad]
    obtain s1 where s1: "ConnectTip judge s p = Some (BlockInvalid False, s1)" "pruned judge s s1" "unfailed (block_index s1) \<subset> unfailed ?m"
      by blast
    note inv1 = pruned_inv [OF s1(2) inv]
    have rl: "relabel judge ?m (block_index s1)" using s1(2) by (simp add: pruned_def)
    obtain bl' where "block_index s1 lowest = Some bl'" using relabel_at [OF rl, of lowest] Cons.prems(7) by auto
    from InvalidChainFound_pruned [OF inv1 this]
    obtain s2 where s2: "InvalidChainFound s1 lowest = Some s2" "pruned judge s1 s2" "block_index s2 = block_index s1" by blast
    have "same_maps s s2" using same_maps_trans [OF rl] s1(2) s2(2) by (auto simp: pruned_def)
    then have "progress judge s s2 t"
      using pruned_inv [OF s2(2) inv1] pruned_candidates [OF s2(2) inv1 pruned_candidates [OF s1(2) inv Cons.prems(2)]] rl s2(3)
      by (auto simp: progress_def)
    moreover have "connect_blocks judge old lowest (p # ps) s = Some (BatchInvalid, s2)" using s1(1) s2(1) by simp
    ultimately show ?thesis using s1(3) s2(3) by (auto simp: batch_result_def)
  qed
qed

text \<open>Batches of blocks up to \<open>most\<close>: they end at \<open>most\<close>, at a better tip above the start, or at an invalid block.\<close>

definition step_result ::
  "(ptr \<Rightarrow> connect_verdict) \<Rightarrow> ptr \<Rightarrow> ptr \<Rightarrow> CChainState \<Rightarrow> (batch_end \<times> CChainState) option \<Rightarrow> bool" where
  "step_result judge most t s res \<longleftrightarrow>
     (\<exists>r s' p. res = Some (r, s') \<and> r \<in> {BatchAll, BatchBetter} \<and> progress judge s s' p \<and> p \<in> anc (block_index s) most \<and>
        t \<in> anc (block_index s) p \<and> (t \<noteq> most \<longrightarrow> t \<noteq> p) \<and> kept s s' most) \<or>
     (\<exists>s' p. res = Some (BatchInvalid, s') \<and> progress judge s s' p \<and> unfailed (block_index s') \<subset> unfailed (block_index s))"

lemma linked_anc:
  "wf_store m \<Longrightarrow> m t = Some bt \<Longrightarrow> linked m t ps \<Longrightarrow> p \<in> set ps \<Longrightarrow> \<exists>b. m p = Some b \<and> nHeight bt < nHeight b \<and> t \<in> anc m p"
proof (induction ps arbitrary: t bt)
  case (Cons x ps)
  obtain bx where bx: "m x = Some bx" "pprev bx = Some t" using Cons.prems(3) by auto
  then have h: "nHeight bt < nHeight bx" "t \<in> anc m x"
    using prev_entry [OF Cons.prems(1) bx] Cons.prems(2) anc_prev [OF Cons.prems(1) bx(1)] anc_self [OF Cons.prems(1,2)] by force+
  show ?case
  proof (cases "p = x")
    case False
    then obtain b where "m p = Some b" "nHeight bx < nHeight b" "x \<in> anc m p" using Cons.IH [OF Cons.prems(1) bx(1)] Cons.prems(3,4) by auto
    then show ?thesis using h anc_trans [OF Cons.prems(1) _ _ h(2)] by force
  qed (use bx h in auto)
qed simp

lemma anc_height_eq:
  assumes "wf_store m" and "m p = Some b" and "q \<in> anc m p" and "m q = Some b'" and "nHeight b \<le> nHeight b'"
  shows "q = p"
  using anc_dom [OF assms(1-3)] assms(4,5) by force

lemma step_result_trans:
  assumes k: "kept s s' most" and wf: "wf_store (block_index s)" and t: "block_index s t = Some bt" and q: "block_index s q = Some bq"
    and tq: "t \<in> anc (block_index s) q" "nHeight bt < nHeight bq" and m: "block_index s most = Some bm"
    and r: "step_result judge most q s' res"
  shows "step_result judge most t s res"
proof -
  let ?m = "block_index s"
  have mm: "block_index s' = ?m" "same_maps s s'" using k by (simp_all add: kept_def)
  have pt: "progress judge s s'' x" if "progress judge s' s'' x" for s'' x
    using that mm by (auto simp: progress_def same_maps_def)
  have tp: "t \<in> anc ?m p \<and> t \<noteq> p" if x: "p \<in> anc ?m most" "q \<in> anc ?m p" for p
  proof -
    obtain bp where p: "?m p = Some bp" using anc_dom [OF wf m x(1)] by blast
    have "nHeight bq \<le> nHeight bp" using anc_dom [OF wf p x(2)] q by force
    then show ?thesis using anc_trans [OF wf p x(2) tq(1)] tq(2) p t by auto
  qed
  show ?thesis using r kept_trans [OF k] pt tp unfolding step_result_def mm(1) by blast
qed

lemma step_result_batch:
  assumes wf: "wf_store (block_index s)" and m: "block_index s most = Some bm" and t: "block_index s t = Some bt"
    and ps: "linked (block_index s) t ps" "set ps \<subseteq> anc (block_index s) most"
    and r: "batch_result judge most t ps s (Some (e, s'))" and "e \<noteq> BatchAll"
  shows "step_result judge most t s (Some (e, s'))"
proof -
  have tp: "t \<in> anc (block_index s) p \<and> t \<noteq> p \<and> p \<in> anc (block_index s) most" if "p \<in> set ps" for p
    using linked_anc [OF wf t ps(1) that] ps(2) that t by auto
  show ?thesis using r assms(7) tp unfolding batch_result_def step_result_def by blast
qed

lemma connect_batches_result:
  assumes sv: "sound_verdicts judge" and old: "old = Some ot"
  shows "chain_inv judge t s \<Longrightarrow> candidates_from judge r s \<Longrightarrow> block_index s most = Some bm \<Longrightarrow> block_index s t = Some bt \<Longrightarrow>
    t \<in> anc (block_index s) most \<Longrightarrow> clean_path (block_index s) most \<Longrightarrow> block_index s ot = Some bo \<Longrightarrow>
    step_result judge most t s (connect_batches judge most (nHeight bm) old (nHeight bt) s)"
proof (induction "nat (nHeight bm - nHeight bt)" arbitrary: t bt s r rule: less_induct)
  case less
  let ?m = "block_index s" and ?hm = "nHeight bm" and ?h = "nHeight bt"
  note inv = less.prems(1) and wf = inv_wf [OF less.prems(1)]
  show ?case
  proof (cases "?h = ?hm")
    case True
    have "t = most" using anc_height_eq [OF wf less.prems(3,5,4)] True by simp
    moreover have "progress judge s s t" "kept s s most" using less.prems(1,2) by (auto simp: progress_def kept_def relabel_refl)
    ultimately show ?thesis using True anc_self [OF wf less.prems(4)]
      by (subst connect_batches.simps) (auto simp: step_result_def)
  next
    case False
    have le: "?h < ?hm" using anc_dom [OF wf less.prems(3,5)] less.prems(4) False by force
    have h0: "0 \<le> ?h" using wf_height wf_storeD wf less.prems(4) by blast
    define target where "target = min (?h + 32) ?hm"
    have tg: "?h < target" "target \<le> ?hm" using le by (auto simp: target_def)
    obtain q bq where q: "nth_prev ?m (nat (?hm - target)) most = Some q" "?m q = Some bq" "nHeight bq = target"
      using nth_prev_exists [OF wf less.prems(3), of "nat (?hm - target)"] tg h0 by auto
    have qm: "q \<in> anc ?m most" using nth_prev_anc [OF wf less.prems(3) q(1)] .
    have ga: "GetAncestor ?m most target = Some (Some q)"
      using GetAncestor_nth_prev [OF wf less.prems(3)] q(1) tg h0 by simp
    have "nat (?hm - ?h) = nat (?hm - target) + nat (target - ?h)" using tg by simp
    then have tk: "nth_prev ?m (nat (target - ?h)) q = Some t"
      using anc_nth_prev [OF wf less.prems(3,5,4)] q(1) nth_prev_add [of ?m "nat (?hm - target)" "nat (target - ?h)" most] by simp
    obtain xs where xs: "to_connect ?m ?h (Some q) [] = Some xs" "linked ?m t (rev xs)" "last (t # rev xs) = q"
        "set xs \<subseteq> anc ?m q" "length xs = nat (target - ?h)"
      using to_connect_linked [OF wf q(2) tk less.prems(4), of "[]"] q(3) tg by auto
    have sub: "set (rev xs) \<subseteq> anc ?m most" using xs(4) anc_trans [OF wf less.prems(3) qm] by auto
    have ne: "xs \<noteq> []" using xs(5) tg by auto
    obtain bl where bl: "?m (last xs) = Some bl" using anc_dom [OF wf q(2)] xs(4) ne by (metis last_in_set subsetD)
    let ?res = "connect_blocks judge old (last xs) (rev xs) s"
    have br: "batch_result judge most t (rev xs) s ?res"
      using connect_blocks_result [OF sv inv less.prems(2) xs(2) less.prems(3) sub less.prems(6) bl] old less.prems(7) by blast
    then obtain e s' where e: "?res = Some (e, s')" by (auto simp: batch_result_def)
    have eq: "connect_batches judge most ?hm old ?h s =
      (if e = BatchAll then connect_batches judge most ?hm old target s' else Some (e, s'))"
      using False ga xs(1) e by (subst connect_batches.simps) (simp add: target_def [symmetric] Let_def)
    show ?thesis
    proof (cases "e = BatchAll")
      case True
      then have s': "progress judge s s' q" "kept s s' most" using br e xs(3) by (auto simp: batch_result_def)
      then have m': "block_index s' = ?m" by (simp add: kept_def)
      obtain r' where r': "chain_inv judge q s'" "candidates_from judge r' s'" using s'(1) by (auto simp: progress_def)
      have "step_result judge most q s' (connect_batches judge most ?hm old (nHeight bq) s')"
        by (rule less.hyps [OF _ r']) (use less.prems qm q tg m' in auto)
      then show ?thesis
        using step_result_trans [OF s'(2) wf less.prems(4) q(2) _ _ less.prems(3)] nth_prev_anc [OF wf q(2) tk] q(3) tg eq True by simp
    next
      case False
      then show ?thesis using step_result_batch [OF wf less.prems(3,4) xs(2) sub] br e eq by simp
    qed
  qed
qed

section \<open>One step towards the best chain\<close>

lemma root_anc:
  assumes wf: "wf_store m" and p: "m p = Some b"
  shows "\<exists>g bg. g \<in> anc m p \<and> m g = Some bg \<and> pprev bg = None"
proof (rule tree_induct [OF wf p])
  fix p bi assume p: "m p = Some bi"
    and IH: "\<And>q b. pprev bi = Some q \<Longrightarrow> m q = Some b \<Longrightarrow> \<exists>g bg. g \<in> anc m q \<and> m g = Some bg \<and> pprev bg = None"
  show "\<exists>g bg. g \<in> anc m p \<and> m g = Some bg \<and> pprev bg = None"
  proof (cases "pprev bi")
    case (Some q)
    obtain b where b: "m q = Some b" using prev_entry [OF wf p Some] .
    show ?thesis using IH [OF Some b] anc_prev [OF wf p] Some by auto
  qed (use p anc_self [OF wf p] in blast)
qed

lemma FindFork_anc:
  assumes tree: "tree_inv m" and t: "m t = Some bt" and p: "m p = Some bp"
  obtains f where "FindFork m (chain_of m t) (Some p) = Some (Some f)" "f \<in> anc m t" "f \<in> anc m p" "anc m f = anc m t \<inter> anc m p"
proof -
  note wf = tree_wf [OF tree]
  obtain r where r: "FindFork m (chain_of m t) (Some p) = Some r" "fork_point m (chain_of m t) (chain_of m p) r"
    using FindFork_fork [OF wf chain_ok_chain_of p] by blast
  obtain g where g: "g \<in> anc m t" "g \<in> anc m p" using root_anc [OF wf t] root_anc [OF wf p] tree_root [OF tree] by blast
  then obtain f where f: "r = Some f" using r(2) by (cases r) (auto simp: fork_point_def anc_def)
  have a: "anc m f = anc m t \<inter> anc m p" using r(2) f by (auto simp: fork_point_def anc_def)
  then have "chain_of m f \<noteq> []" using g by (auto simp: anc_def)
  then obtain bf where "m f = Some bf" by (auto simp: chain_of_def split: option.splits)
  then have "f \<in> anc m f" by (rule anc_self [OF wf])
  then show thesis using that r(1) f a by blast
qed

text \<open>How far the tip is on the way to \<open>most\<close>.\<close>

definition rank :: "block_store \<Rightarrow> ptr \<Rightarrow> ptr \<Rightarrow> nat" where
  "rank m most t = (if t \<in> anc m most then Suc (nat (nHeight (the (m t)))) else 0)"

lemma rank_le:
  assumes "wf_store m" and "m most = Some bm"
  shows "rank m most t \<le> Suc (nat (nHeight bm))"
proof (cases "t \<in> anc m most")
  case True
  then obtain b where "m t = Some b" "nHeight b \<le> nHeight bm" by (rule anc_dom [OF assms])
  then show ?thesis by (simp add: rank_def nat_mono)
qed (simp add: rank_def)

lemma rank_less:
  assumes wf: "wf_store m" and m: "m most = Some bm" and p: "p \<in> anc m most" and t: "t \<in> anc m p" "t \<noteq> p"
  shows "rank m most t < rank m most p"
proof -
  obtain bp where bp: "m p = Some bp" using anc_dom [OF wf m p] .
  obtain bt where bt: "m t = Some bt" "t = p \<or> nHeight bt < nHeight bp" using anc_dom [OF wf bp t(1)] .
  have "0 \<le> nHeight bt" using wf_height wf_storeD wf bt(1) by blast
  then show ?thesis using p bp bt t(2) by (simp add: rank_def)
qed

lemma ActivateBestChainStep_result:
  assumes sv: "sound_verdicts judge" and und: "\<forall>p. undoable p"
    and inv: "chain_inv judge t s" and cf: "candidates_from judge r s" and m: "block_index s most = Some bm"
    and cl: "clean_path (block_index s) most" and ne: "t \<noteq> most"
  shows "(\<exists>s' p. ActivateBestChainStep judge undoable s most = Some (True, False, s') \<and> progress judge s s' p \<and>
       p \<in> anc (block_index s) most \<and> kept s s' most \<and> rank (block_index s) most t < rank (block_index s) most p) \<or>
    (\<exists>s' p. ActivateBestChainStep judge undoable s most = Some (True, True, s') \<and> progress judge s s' p \<and>
       unfailed (block_index s') \<subset> unfailed (block_index s))"
proof -
  let ?m = "block_index s"
  note wf = inv_wf [OF inv]
  obtain bt where bt: "?m t = Some bt" using inv_entry [OF inv] ..
  obtain f where f: "FindFork ?m (chain_of ?m t) (Some most) = Some (Some f)" "f \<in> anc ?m t" "f \<in> anc ?m most"
    "anc ?m f = anc ?m t \<inter> anc ?m most" using FindFork_anc [OF inv_tree [OF inv] bt m] .
  obtain bf where bf: "?m f = Some bf" using anc_dom [OF wf bt f(2)] .
  let ?s1 = "s\<lparr>chainActive := chain_of ?m f\<rparr>"
  have inv1: "chain_inv judge f ?s1" using chain_inv_retip [OF inv good_anc [OF wf inv_good [OF inv] f(2)]] .
  have cf1: "candidates_from judge r ?s1" using cf by (simp add: candidates_from_def)
  let ?res = "connect_batches judge most (nHeight bm) (Some t) (nHeight bf) ?s1"
  have res: "step_result judge most f ?s1 ?res"
    using connect_batches_result [OF sv refl inv1 cf1, of most bm bf t bt] m bf bt f(3) cl by simp
  have eq: "ActivateBestChainStep judge undoable s most = map_option (\<lambda>(r, s2). (r \<noteq> BatchError, r = BatchInvalid, s2)) ?res"
    using m f(1) inv_active [OF inv] inv_Tip [OF inv] disconnect_to_fork [OF und inv bt f(2)] bf
    by (simp add: ActivateBestChainStep_def)
  have pr: "progress judge s s' p" if "progress judge ?s1 s' p" for s' p using that by (simp add: progress_def same_maps_def)
  have ke: "kept s s' most" if "kept ?s1 s' most" for s' using that by (simp add: kept_def same_maps_def)
  have rk: "rank ?m most t < rank ?m most p" if "p \<in> anc ?m most" "f \<in> anc ?m p" "f \<noteq> most \<longrightarrow> f \<noteq> p" for p
  proof (cases "t \<in> anc ?m most")
    case True
    then have "t \<in> anc ?m f" using f(4) anc_self [OF wf bt] by simp
    then obtain b where "?m t = Some b" "t = f \<or> nHeight b < nHeight bf" by (rule anc_dom [OF wf bf])
    moreover obtain b' where "?m f = Some b'" "nHeight b' \<le> nHeight bt" using f(2) by (rule anc_dom [OF wf bt])
    ultimately have "t = f" using bt bf by auto
    then show ?thesis using rank_less [OF wf m] that ne by blast
  next
    case False
    then show ?thesis using that(1) by (simp add: rank_def)
  qed
  from res show ?thesis unfolding step_result_def
  proof (elim disjE exE conjE)
    fix e s' p assume "?res = Some (e, s')" "e \<in> {BatchAll, BatchBetter}" "progress judge ?s1 s' p" "p \<in> anc (block_index ?s1) most"
      "f \<in> anc (block_index ?s1) p" "f \<noteq> most \<longrightarrow> f \<noteq> p" "kept ?s1 s' most"
    then show ?thesis using eq pr ke rk by (intro disjI1 exI [of _ s'] exI [of _ p]) auto
  next
    fix s' p assume "?res = Some (BatchInvalid, s')" "progress judge ?s1 s' p" "unfailed (block_index s') \<subset> unfailed (block_index ?s1)"
    then show ?thesis using eq pr by (intro disjI2 exI [of _ s'] exI [of _ p]) simp
  qed
qed

section \<open>The loop\<close>

text \<open>The state is settled on tip \<open>t\<close>: no good chain has more work.\<close>

definition settled :: "(ptr \<Rightarrow> connect_verdict) \<Rightarrow> ptr \<Rightarrow> CChainState \<Rightarrow> bool" where
  "settled judge t s \<longleftrightarrow> chain_inv judge t s \<and> candidates_from judge t s \<and>
     (\<forall>b. good judge (block_index s) b \<longrightarrow> work (block_index s) b \<le> work (block_index s) t)"

text \<open>The candidate the loop is working towards.\<close>

definition target :: "CChainState \<Rightarrow> ptr \<Rightarrow> bool" where
  "target s most \<longleftrightarrow> most \<in> set (setBlockIndexCandidates s) \<and> clean_path (block_index s) most \<and>
     (\<forall>q\<in>set (setBlockIndexCandidates s). \<not> CBlockIndexWorkComparator (block_index s) most q)"

text \<open>Only marks of failure and the lists of candidates and active blocks changed.\<close>

definition evolves :: "(ptr \<Rightarrow> connect_verdict) \<Rightarrow> CChainState \<Rightarrow> CChainState \<Rightarrow> bool" where
  "evolves judge s s' \<longleftrightarrow> relabel judge (block_index s) (block_index s') \<and> same_maps s s'"

lemma evolves_refl: "evolves judge s s"
  by (simp add: evolves_def relabel_refl)

lemma evolves_trans:
  "evolves judge s s' \<Longrightarrow> evolves judge s' s'' \<Longrightarrow> wf_store (block_index s) \<Longrightarrow> evolves judge s s''"
  unfolding evolves_def using relabel_trans same_maps_trans by blast

lemma pruned_evolves: "pruned judge s s' \<Longrightarrow> evolves judge s s'"
  by (simp add: pruned_def evolves_def)

lemma progress_evolves: "progress judge s s' t \<Longrightarrow> evolves judge s s'"
  by (simp add: progress_def evolves_def)

lemma target_kept: "target s most \<Longrightarrow> kept s s' most \<Longrightarrow> target s' most"
  by (auto simp: target_def kept_def)

lemma settled_target:
  assumes inv: "chain_inv judge t s" and cf: "candidates_from judge r s" and tg: "target s t"
  shows "settled judge t s"
proof -
  let ?m = "block_index s"
  note tree = inv_tree [OF inv]
  obtain bt where bt: "?m t = Some bt" using inv_entry [OF inv] ..
  have gr: "good judge ?m r" using cf by (simp add: candidates_from_def)
  obtain br where br: "?m r = Some br" using good_entry [OF gr] ..
  have rt: "\<not> CBlockIndexWorkComparator ?m t r" using tg candidates_self [OF inv cf] by (simp add: target_def)
  have max: "\<not> CBlockIndexWorkComparator ?m t b" if g: "good judge ?m b" for b
  proof
    assume lt: "CBlockIndexWorkComparator ?m t b"
    obtain bb where bb: "?m b = Some bb" using good_entry [OF g] ..
    have "\<not> CBlockIndexWorkComparator ?m b r"
      using comparator_trans [OF tree br bt bb rt comparator_asym [OF tree bt bb lt]] .
    then have "b \<in> set (setBlockIndexCandidates s)" using cf g by (simp add: candidates_from_def)
    then show False using tg lt by (simp add: target_def)
  qed
  have "b = t" if "good judge ?m b" "\<not> CBlockIndexWorkComparator ?m b t" for b
    using comparator_total [OF tree _ bt that(2) max [OF that(1)]] good_entry [OF that(1)] by blast
  then have "candidates_from judge t s" using tg inv_good [OF inv] by (auto simp: candidates_from_def target_def)
  moreover have "work ?m b \<le> work ?m t" if "good judge ?m b" for b
    using comparator_work [OF tree _ bt max [OF that]] good_entry [OF that] by blast
  ultimately show ?thesis using inv by (simp add: settled_def)
qed

lemma activate_loop_None:
  "FindMostWorkChain s = Some (Some most, s') \<Longrightarrow> activate_loop judge undoable None s = activate_loop judge undoable (Some most) s'"
  by (subst activate_loop.simps, subst (2) activate_loop.simps) simp

lemma activate_loop_step:
  assumes "Tip (chainActive s) = Some t" and "ActivateBestChainStep judge undoable s most = Some (True, i, s')" and "t \<noteq> most"
    and "Tip (chainActive s') = Some p"
  shows "activate_loop judge undoable (Some most) s =
    (if i then activate_loop judge undoable None s' else if p = most then Some (True, s') else activate_loop judge undoable (Some most) s')"
  using assms by (subst activate_loop.simps) (simp add: Let_def)

lemma activate_loop_settles:
  assumes sv: "sound_verdicts judge" and und: "\<forall>p. undoable p"
  shows "chain_inv judge t s \<Longrightarrow> candidates_from judge r s \<Longrightarrow> target s most \<Longrightarrow>
    \<exists>s' t'. activate_loop judge undoable (Some most) s = Some (True, s') \<and> settled judge t' s' \<and>
      evolves judge s s'"
proof (induction "(card (unfailed (block_index s)), Suc (nat (nHeight (the (block_index s most)))) - rank (block_index s) most t)"
    arbitrary: t s r most rule: wf_induct_rule [OF wf_lex_prod [OF wf_less wf_less]])
  case 1
  let ?m = "block_index s"
  note inv = "1.prems"(1) and wf = inv_wf [OF "1.prems"(1)]
  have cl: "clean_path ?m most" using "1.prems"(3) by (simp add: target_def)
  obtain bm where bm: "?m most = Some bm" using "1.prems"(3) inv_cands [OF inv] by (auto simp: target_def)
  show ?case
  proof (cases "t = most")
    case True
    have "activate_loop judge undoable (Some most) s = Some (True, s)"
      using inv_Tip [OF inv] True by (subst activate_loop.simps) simp
    then show ?thesis using settled_target [OF "1.prems"(1,2)] "1.prems"(3) True evolves_refl by blast
  next
    case False
    from ActivateBestChainStep_result [OF sv und "1.prems"(1,2) bm cl False]
    show ?thesis
    proof (elim disjE exE conjE)
      fix s' p
      assume st: "ActivateBestChainStep judge undoable s most = Some (True, False, s')" and pr: "progress judge s s' p"
        and p: "p \<in> anc ?m most" and ke: "kept s s' most" and rk: "rank ?m most t < rank ?m most p"
      obtain r' where inv': "chain_inv judge p s'" and cf': "candidates_from judge r' s'"
        using pr by (auto simp: progress_def)
      note ev = progress_evolves [OF pr]
      note eq = activate_loop_step [OF inv_Tip [OF inv] st False inv_Tip [OF inv']]
      have tg': "target s' most" using target_kept [OF "1.prems"(3) ke] .
      show ?thesis
      proof (cases "p = most")
        case True
        then show ?thesis using eq settled_target [OF inv' cf'] tg' ev by auto
      next
        case ne: False
        have mm: "block_index s' = ?m" using ke by (simp add: kept_def)
        have "Suc (nat (nHeight bm)) - rank ?m most p < Suc (nat (nHeight bm)) - rank ?m most t"
          using rk rank_le [OF wf bm, of p] by linarith
        then obtain s2 t2 where "activate_loop judge undoable (Some most) s' = Some (True, s2)" "settled judge t2 s2" "evolves judge s' s2"
          using "1.hyps" [OF _ inv' cf' tg'] by (auto simp: mm bm)
        then show ?thesis using eq ne evolves_trans [OF ev _ wf] by auto
      qed
    next
      fix s' p
      assume st: "ActivateBestChainStep judge undoable s most = Some (True, True, s')" and pr: "progress judge s s' p"
        and lt: "unfailed (block_index s') \<subset> unfailed ?m"
      obtain r' where inv': "chain_inv judge p s'" and cf': "candidates_from judge r' s'"
        using pr by (auto simp: progress_def)
      note ev = progress_evolves [OF pr]
      obtain q s2 where q: "FindMostWorkChain s' = Some (Some q, s2)" "pruned judge s' s2" "target s2 q"
        using FindMostWorkChain_best [OF inv' cf'] by (auto simp: target_def)
      note ev2 = evolves_trans [OF ev pruned_evolves [OF q(2)] wf]
      have rl2: "relabel judge (block_index s') (block_index s2)" using q(2) by (simp add: pruned_def)
      have "unfailed (block_index s2) \<subset> unfailed ?m" using lt relabel_unfailed [OF rl2] by blast
      then have "card (unfailed (block_index s2)) < card (unfailed ?m)"
        by (rule psubset_card_mono [OF unfailed_finite [OF inv_tree [OF inv]]])
      then obtain s3 t3 where "activate_loop judge undoable (Some q) s2 = Some (True, s3)" "settled judge t3 s3"
          "evolves judge s2 s3"
        using "1.hyps" [OF _ pruned_inv [OF q(2) inv'] pruned_candidates [OF q(2) inv' cf'] q(3)] by auto
      moreover have "activate_loop judge undoable (Some most) s = activate_loop judge undoable (Some q) s2"
        using activate_loop_step [OF inv_Tip [OF inv] st False inv_Tip [OF inv']] activate_loop_None [OF q(1)] by simp
      ultimately show ?thesis using evolves_trans [OF ev2 _ wf] by metis
    qed
  qed
qed

lemma ActivateBestChain_settles:
  assumes "sound_verdicts judge" and "\<forall>p. undoable p" and inv: "chain_inv judge t s" and cf: "candidates_from judge r s"
  shows "\<exists>s' t'. ActivateBestChain judge undoable s = Some (True, s') \<and> settled judge t' s' \<and>
    evolves judge s s'"
proof -
  obtain q s2 where q: "FindMostWorkChain s = Some (Some q, s2)" "pruned judge s s2" "target s2 q"
    using FindMostWorkChain_best [OF inv cf] by (auto simp: target_def)
  obtain s' t' where "activate_loop judge undoable (Some q) s2 = Some (True, s')" "settled judge t' s'"
      "evolves judge s2 s'"
    using activate_loop_settles [OF assms(1,2) pruned_inv [OF q(2) inv] pruned_candidates [OF q(2) inv cf] q(3)] by blast
  then show ?thesis using activate_loop_None [OF q(1)] evolves_trans [OF pruned_evolves [OF q(2)] _ inv_wf [OF inv]]
    unfolding ActivateBestChain_def by metis
qed

end
