(* ===== verification/BlockTree.thy ===== *)
theory BlockTree
  imports ChainState
begin

text \<open>
  \<^verbatim>\<open>src/src/validation.cpp\<close>: how headers and blocks enter the block tree, and the manual changes of
  the tree. The address of a new entry, the adjusted time, the position at which a block was stored
  and the verdict of each block are arguments. The cache of deployment states is threaded through the
  checks. \<open>None\<close>, or \<open>Aborted\<close> in a check, is a failed assertion, an invalid pointer
  or a system error.
\<close>

section \<open>New entries\<close>

definition CBlockIndex_of_header :: "BlockHeader \<Rightarrow> CBlockIndex" where
  "CBlockIndex_of_header block =
     CBlockIndex_null\<lparr>bi_nVersion := bh_nVersion block, bi_hashMerkleRoot := hashMerkleRoot block,
       bi_nTime := bh_nTime block, bi_nBits := bh_nBits block, bi_nNonce := bh_nNonce block\<rparr>"

text \<open>The fields a new entry takes from its predecessor, if that is known.\<close>

definition link_prev :: "block_store \<Rightarrow> ptr option \<Rightarrow> CBlockIndex \<Rightarrow> CBlockIndex option" where
  "link_prev m miPrev bi =
     (case miPrev of
        None \<Rightarrow> Some bi
      | Some q \<Rightarrow>
          (case m q of
             None \<Rightarrow> None
           | Some prev \<Rightarrow> BuildSkip m (bi\<lparr>pprev := Some q, nHeight := nHeight prev + 1\<rparr>)))"

definition accumulate :: "block_store \<Rightarrow> CBlockIndex \<Rightarrow> CBlockIndex option" where
  "accumulate m bi =
     (case (GetBlockProof bi, pprev bi) of
        (Some proof, None) \<Rightarrow>
          Some (bi\<lparr>nTimeMax := bi_nTime bi, ChainTrust := base_uint_add (base_uint_zero WIDTH256) proof\<rparr>)
      | (Some proof, Some q) \<Rightarrow>
          map_option (\<lambda>prev. bi\<lparr>nTimeMax := max (nTimeMax prev) (bi_nTime bi), ChainTrust := base_uint_add (ChainTrust prev) proof\<rparr>) (m q)
      | _ \<Rightarrow> None)"

definition AddToBlockIndex :: "ptr \<Rightarrow> CChainState \<Rightarrow> BlockHeader \<Rightarrow> (ptr \<times> CChainState) option" where
  "AddToBlockIndex fresh s block =
     (let hash = BlockHeader_GetHash block; m = block_index s
      in case map_of (mapBlockIndex s) hash of
           Some p \<Rightarrow> Some (p, s)
         | None \<Rightarrow>
             (let bi = (CBlockIndex_of_header block)\<lparr>nSequenceId := 0, phashBlock := Some hash\<rparr>;
                  index = (hash, fresh) # mapBlockIndex s
              in case link_prev m (map_of index (hashPrevBlock block)) bi of
                   None \<Rightarrow> None
                 | Some bi \<Rightarrow>
                     (case accumulate m bi of
                        None \<Rightarrow> None
                      | Some bi \<Rightarrow>
                          (case RaiseValidity bi BLOCK_VALID_TREE of
                             None \<Rightarrow> None
                           | Some (bi, changed) \<Rightarrow>
                               Some (fresh, s\<lparr>block_index := m(fresh \<mapsto> bi), mapBlockIndex := index,
                                 pindexBestHeader := (if beats m bi (pindexBestHeader s) then Some fresh else pindexBestHeader s),
                                 setDirtyBlockIndex := set_insert fresh (setDirtyBlockIndex s)\<rparr>)))))"

section \<open>Received blocks\<close>

text \<open>
  The queue of \<open>ReceivedBlockTransactions\<close>. A set ordered by the sequence number stays ordered because the
  entries that get a new number are not in it.
\<close>

partial_function (option) receive_queue :: "ptr list \<Rightarrow> CChainState \<Rightarrow> CChainState option" where
  [code]: "receive_queue queue s =
     (case queue of
        [] \<Rightarrow> Some s
      | pindex # rest \<Rightarrow>
          (case block_index s pindex of
             None \<Rightarrow> None
           | Some bi \<Rightarrow>
               (case (case pprev bi of None \<Rightarrow> Some 0 | Some q \<Rightarrow> map_option nChainTx (block_index s q)) of
                  None \<Rightarrow> None
                | Some before \<Rightarrow>
                    let m = (block_index s)(pindex \<mapsto> bi\<lparr>nChainTx := before + nTx bi, nSequenceId := nBlockSequenceId s\<rparr>);
                        worse = (case Tip (chainActive s) of None \<Rightarrow> False | Some tip \<Rightarrow> CBlockIndexWorkComparator m pindex tip);
                        cands = (if worse then setBlockIndexCandidates s else set_insert pindex (setBlockIndexCandidates s));
                        range = filter (\<lambda>e. fst e = Some pindex) (mapBlocksUnlinked s)
                    in receive_queue (rest @ map snd range)
                         (s\<lparr>block_index := m, nBlockSequenceId := nBlockSequenceId s + 1, setBlockIndexCandidates := cands,
                            mapBlocksUnlinked := filter (\<lambda>e. fst e \<noteq> Some pindex) (mapBlocksUnlinked s)\<rparr>))))"

text \<open>\<open>fWitness\<close> is the result of \<open>IsWitnessEnabled\<close> for the predecessor, \<open>count\<close> that of \<open>block.vtx.size()\<close>.\<close>

definition ReceivedBlockTransactions :: "u32 \<Rightarrow> bool \<Rightarrow> CDiskBlockPos \<Rightarrow> ptr \<Rightarrow> CChainState \<Rightarrow> CChainState option" where
  "ReceivedBlockTransactions count fWitness pos pindexNew s =
     (case block_index s pindexNew of
        None \<Rightarrow> None
      | Some bi \<Rightarrow>
          let status = nStatus bi OR BLOCK_HAVE_DATA;
              status = (if fWitness then status OR BLOCK_OPT_WITNESS else status);
              bi = bi\<lparr>nTx := count, nChainTx := 0, nFile := pos_nFile pos, nDataPos := pos_nPos pos, nUndoPos := 0, nStatus := status\<rparr>
          in (case RaiseValidity bi BLOCK_VALID_TRANSACTIONS of
                None \<Rightarrow> None
              | Some (bi, changed) \<Rightarrow>
                  let s = s\<lparr>block_index := (block_index s)(pindexNew \<mapsto> bi), setDirtyBlockIndex := set_insert pindexNew (setDirtyBlockIndex s)\<rparr>
                  in (case pprev bi of
                        None \<Rightarrow> receive_queue [pindexNew] s
                      | Some q \<Rightarrow>
                          (case block_index s q of
                             None \<Rightarrow> None
                           | Some prev \<Rightarrow>
                               if nChainTx prev \<noteq> 0 then receive_queue [pindexNew] s
                               else map_option (\<lambda>valid. if valid then s\<lparr>mapBlocksUnlinked := mapBlocksUnlinked s @ [(Some q, pindexNew)]\<rparr> else s)
                                      (IsValid prev BLOCK_VALID_TREE)))))"

section \<open>Accepting headers and blocks\<close>

record chain_params =
  consensus :: Params
  hashGenesisBlock :: uint256
  mapCheckpoints :: "(int \<times> uint256) list"
  fCheckpointsEnabled :: bool
  minimumChainWork :: base_uint

type_synonym node = "CChainState \<times> VersionBitsCache"

text \<open>The walk that marks the blocks between the predecessor and a failed block.\<close>

partial_function (option) mark_failed_children :: "ptr \<Rightarrow> ptr \<Rightarrow> CChainState \<Rightarrow> CChainState option" where
  [code]: "mark_failed_children failedit invalid_walk s =
     (if invalid_walk = failedit then Some s
      else case block_index s invalid_walk of
        None \<Rightarrow> None
      | Some bi \<Rightarrow>
          (case pprev bi of
             None \<Rightarrow> None
           | Some q \<Rightarrow>
               mark_failed_children failedit q
                 (s\<lparr>block_index := (block_index s)(invalid_walk \<mapsto> bi\<lparr>nStatus := nStatus bi OR BLOCK_FAILED_CHILD\<rparr>),
                    setDirtyBlockIndex := set_insert invalid_walk (setDirtyBlockIndex s)\<rparr>)))"

text \<open>The loop over \<open>g_failed_blocks\<close>, a set of pointers in ascending order; the result tells whether one is an ancestor.\<close>

fun failed_ancestor :: "ptr \<Rightarrow> ptr list \<Rightarrow> CChainState \<Rightarrow> (bool \<times> CChainState) option" where
  "failed_ancestor pindexPrev [] s = Some (False, s)"
| "failed_ancestor pindexPrev (failedit # rest) s =
     (case block_index s failedit of
        None \<Rightarrow> None
      | Some bi \<Rightarrow>
          (case GetAncestor (block_index s) pindexPrev (nHeight bi) of
             None \<Rightarrow> None
           | Some a \<Rightarrow>
               if a = Some failedit
               then (if nStatus bi AND BLOCK_FAILED_VALID = 0 then None
                     else map_option (\<lambda>s. (True, s)) (mark_failed_children failedit pindexPrev s))
               else failed_ancestor pindexPrev rest s))"

definition check_failed_ancestor :: "ptr \<Rightarrow> (CChainState, unit) check" where
  "check_failed_ancestor pindexPrev s =
     (case block_index s pindexPrev of
        None \<Rightarrow> (Inl Aborted, s)
      | Some prev \<Rightarrow>
          (case IsValid prev BLOCK_VALID_SCRIPTS of
             None \<Rightarrow> (Inl Aborted, s)
           | Some valid \<Rightarrow>
               if valid then (Inr (), s)
               else (case failed_ancestor pindexPrev (sort (g_failed_blocks s)) s of
                       None \<Rightarrow> (Inl Aborted, s)
                     | Some (found, s) \<Rightarrow> (if found then DoS 100 REJECT_INVALID ''bad-prevblk'' False else Inr (), s))))"

definition on_chain :: "(CChainState, 'a) check \<Rightarrow> (node, 'a) check" where
  "on_chain f = (\<lambda>(s, caches). case f s of (v, s) \<Rightarrow> (v, s, caches))"

definition on_caches :: "(CChainState \<Rightarrow> (VersionBitsCache, 'a) check) \<Rightarrow> (node, 'a) check" where
  "on_caches f = (\<lambda>(s, caches). case f s caches of (v, caches) \<Rightarrow> (v, s, caches))"

text \<open>The checks of a header that is not yet known and is not the genesis block.\<close>

definition check_new_header :: "chain_params \<Rightarrow> int \<Rightarrow> BlockHeader \<Rightarrow> (node, unit) check" where
  "check_new_header cp nAdjustedTime block =
     cbind (verdict (CheckBlockHeader block (consensus cp) True)) (\<lambda>_ n.
       case map_of (mapBlockIndex (fst n)) (hashPrevBlock block) of
         None \<Rightarrow> (DoS 10 0 ''prev-blk-not-found'' False, n)
       | Some pindexPrev \<Rightarrow>
           (case block_index (fst n) pindexPrev of
              None \<Rightarrow> (Inl Aborted, n)
            | Some prev \<Rightarrow>
                cbind (reject_if (nStatus prev AND BLOCK_FAILED_MASK \<noteq> 0) (DoS 100 REJECT_INVALID ''bad-prevblk'' False)) (\<lambda>_.
                cbind (on_caches (\<lambda>s.
                         let pcheckpoint = (if fCheckpointsEnabled cp
                               then Option.bind (GetLastCheckpoint (map_of (mapBlockIndex s)) (mapCheckpoints cp)) (block_index s) else None)
                         in ContextualCheckBlockHeader (block_index s) block (consensus cp) pcheckpoint pindexPrev nAdjustedTime)) (\<lambda>_.
                on_chain (check_failed_ancestor pindexPrev))) n))"

definition add_header :: "ptr \<Rightarrow> BlockHeader \<Rightarrow> (CChainState, ptr) check" where
  "add_header fresh block s =
     (case AddToBlockIndex fresh s block of None \<Rightarrow> (Inl Aborted, s) | Some (p, s) \<Rightarrow> (Inr p, s))"

definition AcceptBlockHeader :: "chain_params \<Rightarrow> int \<Rightarrow> ptr \<Rightarrow> BlockHeader \<Rightarrow> (node, ptr) check" where
  "AcceptBlockHeader cp nAdjustedTime fresh block n =
     (let hash = BlockHeader_GetHash block
      in if hash = hashGenesisBlock cp then on_chain (add_header fresh block) n
         else case map_of (mapBlockIndex (fst n)) hash of
           Some pindex \<Rightarrow>
             (case block_index (fst n) pindex of
                None \<Rightarrow> (Inl Aborted, n)
              | Some bi \<Rightarrow> (if nStatus bi AND BLOCK_FAILED_MASK \<noteq> 0 then Invalid 0 ''duplicate'' else Inr pindex, n))
         | None \<Rightarrow> cbind (check_new_header cp nAdjustedTime block) (\<lambda>_. on_chain (add_header fresh block)) n)"

definition MIN_BLOCKS_TO_KEEP :: int where "MIN_BLOCKS_TO_KEEP = 288"

text \<open>Whether a block is left unprocessed because it is not wanted.\<close>

definition unwanted :: "chain_params \<Rightarrow> CChainState \<Rightarrow> CBlockIndex \<Rightarrow> bool \<Rightarrow> bool" where
  "unwanted cp s bi fRequested \<longleftrightarrow>
     (let fHasMoreOrSameWork = (case Tip (chainActive s) of
            None \<Rightarrow> True
          | Some t \<Rightarrow> (case block_index s t of None \<Rightarrow> False | Some tip \<Rightarrow> CompareTo (ChainTrust bi) (ChainTrust tip) \<ge> 0));
          fTooFarAhead = nHeight bi > Height (chainActive s) + MIN_BLOCKS_TO_KEEP
      in nStatus bi AND BLOCK_HAVE_DATA \<noteq> 0 \<or>
         \<not> fRequested \<and> (nTx bi \<noteq> 0 \<or> \<not> fHasMoreOrSameWork \<or> fTooFarAhead \<or>
           CompareTo (ChainTrust bi) (minimumChainWork cp) < 0))"

definition check_received :: "chain_params \<Rightarrow> Block \<Rightarrow> ptr option \<Rightarrow> (node, unit) check" where
  "check_received cp block prev =
     cbind (verdict (fst (CheckBlock (consensus cp) True True block))) (\<lambda>_.
       on_caches (\<lambda>s. ContextualCheckBlock (block_index s) block (consensus cp) prev))"

definition mark_rejected :: "ptr \<Rightarrow> failure \<Rightarrow> CChainState \<Rightarrow> CChainState" where
  "mark_rejected pindex e s =
     (case (e, block_index s pindex) of
        (Rejected st, Some bi) \<Rightarrow>
          if corruptionPossible st then s
          else s\<lparr>block_index := (block_index s)(pindex \<mapsto> bi\<lparr>nStatus := nStatus bi OR BLOCK_FAILED_VALID\<rparr>),
                 setDirtyBlockIndex := set_insert pindex (setDirtyBlockIndex s)\<rparr>
      | _ \<Rightarrow> s)"

text \<open>\<open>blockPos\<close> is what \<open>SaveBlockToDisk\<close> returns, a null position when it fails.\<close>

definition AcceptBlock :: "chain_params \<Rightarrow> int \<Rightarrow> ptr \<Rightarrow> CDiskBlockPos \<Rightarrow> bool \<Rightarrow> Block \<Rightarrow> (node, ptr) check" where
  "AcceptBlock cp nAdjustedTime fresh blockPos fRequested block =
     cbind (AcceptBlockHeader cp nAdjustedTime fresh (header block)) (\<lambda>pindex n.
       case block_index (fst n) pindex of
         None \<Rightarrow> (Inl Aborted, n)
       | Some bi \<Rightarrow>
           if unwanted cp (fst n) bi fRequested then (Inr pindex, n)
           else (case check_received cp block (pprev bi) n of
                   (Inl e, s, caches) \<Rightarrow> (Inl e, mark_rejected pindex e s, caches)
                 | (Inr _, n) \<Rightarrow>
                     if CDiskBlockPos_IsNull blockPos then (Inl Aborted, n)
                     else cbind (on_caches (\<lambda>s. IsWitnessEnabled (block_index s) (pprev bi) (consensus cp))) (\<lambda>fWitness.
                          on_chain (\<lambda>s. case ReceivedBlockTransactions (of_nat (length (vtx block))) fWitness blockPos pindex s of
                              None \<Rightarrow> (Inl Aborted, s)
                            | Some s \<Rightarrow> (Inr pindex, s))) n))"

definition ProcessNewBlock ::
  "chain_params \<Rightarrow> (ptr \<Rightarrow> connect_verdict) \<Rightarrow> (ptr \<Rightarrow> bool) \<Rightarrow> int \<Rightarrow> ptr \<Rightarrow> CDiskBlockPos \<Rightarrow> bool \<Rightarrow> Block \<Rightarrow> node \<Rightarrow> (bool \<times> node) option" where
  "ProcessNewBlock cp judge undoable nAdjustedTime fresh blockPos fForceProcessing block n =
     (case (case CheckBlock (consensus cp) True True block of
              (Inl e, _) \<Rightarrow> (Inl e, n)
            | (Inr _, block) \<Rightarrow> AcceptBlock cp nAdjustedTime fresh blockPos fForceProcessing block n) of
        (Inl Aborted, n) \<Rightarrow> None
      | (Inl (Rejected _), n) \<Rightarrow> Some (False, n)
      | (Inr _, s, caches) \<Rightarrow>
          map_option (\<lambda>(ok, s). (ok, s, caches)) (ActivateBestChain judge undoable s))"

fun ProcessNewBlockHeaders :: "chain_params \<Rightarrow> int \<Rightarrow> (ptr \<times> BlockHeader) list \<Rightarrow> (node, ptr option) check" where
  "ProcessNewBlockHeaders cp nAdjustedTime [] = creturn None"
| "ProcessNewBlockHeaders cp nAdjustedTime ((fresh, h) # rest) =
     cbind (AcceptBlockHeader cp nAdjustedTime fresh h) (\<lambda>p.
     if rest = [] then creturn (Some p) else ProcessNewBlockHeaders cp nAdjustedTime rest)"

section \<open>The genesis block\<close>

definition CChainState_null :: CChainState where
  "CChainState_null =
     \<lparr>block_index = (\<lambda>_. None), mapBlockIndex = [], setBlockIndexCandidates = [], chainActive = [], mapBlocksUnlinked = [],
      pindexBestInvalid = None, pindexBestHeader = None, nBlockSequenceId = 1, nBlockReverseSequenceId = - 1,
      nLastPreciousChainwork = base_uint_zero WIDTH256, g_failed_blocks = [], setDirtyBlockIndex = []\<rparr>"

definition LoadGenesisBlock :: "Block \<Rightarrow> ptr \<Rightarrow> CDiskBlockPos \<Rightarrow> bool \<Rightarrow> CChainState \<Rightarrow> (bool \<times> CChainState) option" where
  "LoadGenesisBlock genesis fresh blockPos fWitness s =
     (if map_of (mapBlockIndex s) (BlockHeader_GetHash (header genesis)) \<noteq> None then Some (True, s)
      else if CDiskBlockPos_IsNull blockPos then Some (False, s)
      else case AddToBlockIndex fresh s (header genesis) of
        None \<Rightarrow> None
      | Some (pindex, s) \<Rightarrow>
          map_option (\<lambda>s. (True, s)) (ReceivedBlockTransactions (of_nat (length (vtx genesis))) fWitness blockPos pindex s))"

section \<open>Manual changes of the tree\<close>

partial_function (option) disconnect_while :: "(ptr \<Rightarrow> bool) \<Rightarrow> ptr \<Rightarrow> CBlockIndex \<Rightarrow> CChainState \<Rightarrow> (bool \<times> CChainState) option" where
  [code]: "disconnect_while undoable pindex bi s =
     (if \<not> Contains (chainActive s) bi pindex then Some (True, s)
      else case DisconnectTip undoable s of
        None \<Rightarrow> None
      | Some (ok, s) \<Rightarrow> if ok then disconnect_while undoable pindex bi s else Some (False, s))"

text \<open>Marking the disconnected blocks above \<open>pindex\<close>.\<close>

partial_function (option) mark_disconnected :: "ptr \<Rightarrow> ptr option \<Rightarrow> CChainState \<Rightarrow> CChainState option" where
  [code]: "mark_disconnected pindex invalid_walk_tip s =
     (if invalid_walk_tip = Some pindex then Some s
      else case invalid_walk_tip of
        None \<Rightarrow> None
      | Some p \<Rightarrow>
          (case block_index s p of
             None \<Rightarrow> None
           | Some bi \<Rightarrow>
               mark_disconnected pindex (pprev bi)
                 (s\<lparr>block_index := (block_index s)(p \<mapsto> bi\<lparr>nStatus := nStatus bi OR BLOCK_FAILED_CHILD\<rparr>),
                    setDirtyBlockIndex := set_insert p (setDirtyBlockIndex s),
                    setBlockIndexCandidates := set_erase p (setBlockIndexCandidates s)\<rparr>)))"

text \<open>Whether an entry has valid transactions, and the candidates that are not worse than the tip.\<close>

definition connectable :: "CBlockIndex \<Rightarrow> bool" where
  "connectable bi \<longleftrightarrow> IsValid bi BLOCK_VALID_TRANSACTIONS = Some True \<and> nChainTx bi \<noteq> 0"

definition readd_candidates :: "block_store \<Rightarrow> ptr \<Rightarrow> (uint256 \<times> ptr) list \<Rightarrow> ptr list \<Rightarrow> ptr list" where
  "readd_candidates m tip index cands =
     fold (\<lambda>(h, p) cs. case m p of
         None \<Rightarrow> cs
       | Some bi \<Rightarrow> if connectable bi \<and> \<not> CBlockIndexWorkComparator m p tip then set_insert p cs else cs) index cands"

definition InvalidateBlock :: "(ptr \<Rightarrow> bool) \<Rightarrow> ptr \<Rightarrow> CChainState \<Rightarrow> (bool \<times> CChainState) option" where
  "InvalidateBlock undoable pindex s =
     (case block_index s pindex of
        None \<Rightarrow> None
      | Some bi \<Rightarrow>
          (case disconnect_while undoable pindex bi s of
             None \<Rightarrow> None
           | Some (False, s1) \<Rightarrow> Some (False, s1)
           | Some (True, s1) \<Rightarrow>
               (case (if Contains (chainActive s) bi pindex then mark_disconnected pindex (Tip (chainActive s)) s1 else Some s1) of
                  None \<Rightarrow> None
                | Some s2 \<Rightarrow>
                    (case (block_index s2 pindex, Tip (chainActive s2)) of
                       (Some bi, Some tip) \<Rightarrow>
                         let m = (block_index s2)(pindex \<mapsto> bi\<lparr>nStatus := nStatus bi OR BLOCK_FAILED_VALID\<rparr>);
                             cands = set_erase pindex (setBlockIndexCandidates s2)
                         in map_option (\<lambda>s. (True, s))
                              (InvalidChainFound
                                (s2\<lparr>block_index := m, setDirtyBlockIndex := set_insert pindex (setDirtyBlockIndex s2),
                                    g_failed_blocks := set_insert pindex (g_failed_blocks s2),
                                    setBlockIndexCandidates := readd_candidates m tip (mapBlockIndex s2) cands\<rparr>) pindex)
                     | _ \<Rightarrow> None))))"

text \<open>One entry of the loop of \<open>ResetBlockFailureFlags\<close> over the block index.\<close>

definition reset_descendant :: "ptr \<Rightarrow> int \<Rightarrow> ptr \<Rightarrow> CChainState \<Rightarrow> CChainState option" where
  "reset_descendant pindex height p s =
     (case (block_index s p, GetAncestor (block_index s) p height, Tip (chainActive s)) of
        (Some bi, Some a, Some tip) \<Rightarrow>
          if nStatus bi AND BLOCK_FAILED_MASK \<noteq> 0 \<and> a = Some pindex
          then let bi = bi\<lparr>nStatus := nStatus bi AND NOT BLOCK_FAILED_MASK\<rparr>; m = (block_index s)(p \<mapsto> bi)
               in Some (s\<lparr>block_index := m, setDirtyBlockIndex := set_insert p (setDirtyBlockIndex s),
                    setBlockIndexCandidates := (if connectable bi \<and> CBlockIndexWorkComparator m tip p
                      then set_insert p (setBlockIndexCandidates s) else setBlockIndexCandidates s),
                    pindexBestInvalid := (if pindexBestInvalid s = Some p then None else pindexBestInvalid s),
                    g_failed_blocks := set_erase p (g_failed_blocks s)\<rparr>)
          else Some s
      | _ \<Rightarrow> None)"

fun reset_descendants :: "ptr \<Rightarrow> int \<Rightarrow> (uint256 \<times> ptr) list \<Rightarrow> CChainState \<Rightarrow> CChainState option" where
  "reset_descendants pindex height [] s = Some s"
| "reset_descendants pindex height ((h, p) # rest) s =
     (case reset_descendant pindex height p s of None \<Rightarrow> None | Some s \<Rightarrow> reset_descendants pindex height rest s)"

partial_function (option) reset_ancestors :: "ptr option \<Rightarrow> CChainState \<Rightarrow> CChainState option" where
  [code]: "reset_ancestors pindex s =
     (case pindex of
        None \<Rightarrow> Some s
      | Some p \<Rightarrow>
          (case block_index s p of
             None \<Rightarrow> None
           | Some bi \<Rightarrow>
               reset_ancestors (pprev bi)
                 (if nStatus bi AND BLOCK_FAILED_MASK \<noteq> 0
                  then s\<lparr>block_index := (block_index s)(p \<mapsto> bi\<lparr>nStatus := nStatus bi AND NOT BLOCK_FAILED_MASK\<rparr>),
                         setDirtyBlockIndex := set_insert p (setDirtyBlockIndex s)\<rparr>
                  else s)))"

definition ResetBlockFailureFlags :: "ptr \<Rightarrow> CChainState \<Rightarrow> CChainState option" where
  "ResetBlockFailureFlags pindex s =
     (case block_index s pindex of
        None \<Rightarrow> None
      | Some bi \<Rightarrow>
          (case reset_descendants pindex (nHeight bi) (mapBlockIndex s) s of
             None \<Rightarrow> None
           | Some s \<Rightarrow> reset_ancestors (Some pindex) s))"

definition PreciousBlock ::
  "(ptr \<Rightarrow> connect_verdict) \<Rightarrow> (ptr \<Rightarrow> bool) \<Rightarrow> ptr \<Rightarrow> CChainState \<Rightarrow> (bool \<times> CChainState) option" where
  "PreciousBlock judge undoable pindex s =
     (case (block_index s pindex, Option.bind (Tip (chainActive s)) (block_index s)) of
        (Some bi, Some tip) \<Rightarrow>
          if CompareTo (ChainTrust bi) (ChainTrust tip) < 0 then Some (True, s)
          else
            let reverse = (if CompareTo (ChainTrust tip) (nLastPreciousChainwork s) > 0 then - 1 else nBlockReverseSequenceId s);
                bi = bi\<lparr>nSequenceId := reverse\<rparr>;
                s = s\<lparr>nLastPreciousChainwork := ChainTrust tip,
                      setBlockIndexCandidates := set_erase pindex (setBlockIndexCandidates s),
                      block_index := (block_index s)(pindex \<mapsto> bi),
                      nBlockReverseSequenceId := (if reverse > - (2 ^ 31) then reverse - 1 else reverse)\<rparr>
            in (case (if connectable bi
                      then PruneBlockIndexCandidates (s\<lparr>setBlockIndexCandidates := set_insert pindex (setBlockIndexCandidates s)\<rparr>)
                      else Some s) of
                  None \<Rightarrow> None
                | Some s \<Rightarrow> ActivateBestChain judge undoable s)
      | _ \<Rightarrow> None)"

end
