(* ===== verification/BlockTree_Intake.thy ===== *)
theory BlockTree_Intake
  imports BlockTree ChainState_Props Chain_Views Pow_Props
begin

text \<open>
  New headers and received blocks in the block tree: blocks that wait for their predecessors, the
  counts of transactions, and that \<open>ReceivedBlockTransactions\<close> and \<open>AddToBlockIndex\<close> keep the
  invariant of a node.
\<close>

section \<open>Changing an entry that is on no good chain\<close>

text \<open>
  Entries whose chain is not complete have \<open>nChainTx = 0\<close>. Replacing such an entry by one with the same
  links and the same work changes neither the tree nor the goodness of any other block.
\<close>

definition touches :: "block_store \<Rightarrow> ptr \<Rightarrow> CBlockIndex \<Rightarrow> CBlockIndex \<Rightarrow> bool" where
  "touches m p b b' \<longleftrightarrow> m p = Some b \<and> nChainTx b = 0 \<and> links b' = links b \<and> ChainTrust b' = ChainTrust b"

lemma touch_tree_eq: "touches m p b b' \<Longrightarrow> tree_eq m (m(p \<mapsto> b'))"
  by (simp add: tree_eq_def touches_def)

lemmas touch_anc = tree_eq_anc [OF touch_tree_eq]
  and touch_chain_of = tree_eq_chain_of [OF touch_tree_eq]

lemma touch_pprev: "touches m p b b' \<Longrightarrow> pprev b' = pprev b"
  by (simp add: touches_def links_def)

lemma touch_work: "touches m p b b' \<Longrightarrow> work (m(p \<mapsto> b')) x = work m x"
  by (simp add: touches_def work_def)

lemma touch_tree_inv:
  assumes t: "touches m p b b'" and tree: "tree_inv m"
    and tx: "\<And>q. nChainTx b' \<noteq> 0 \<Longrightarrow> pprev b = Some q \<Longrightarrow> \<exists>bq. m q = Some bq \<and> nChainTx bq \<noteq> 0"
  shows "tree_inv (m(p \<mapsto> b'))"
proof -
  let ?m = "m(p \<mapsto> b')"
  have b: "m p = Some b" "nChainTx b = 0" "pprev b' = pprev b" "ChainTrust b' = ChainTrust b"
    using t touch_pprev [OF t] by (auto simp: touches_def)
  have e: "\<exists>a0. m x = Some a0 \<and> pprev a0 = pprev a \<and> ChainTrust a0 = ChainTrust a \<and> (x \<noteq> p \<longrightarrow> a0 = a)" if "?m x = Some a" for x a
    using that b by (cases "x = p") auto
  have "wf_store ?m" using tree_eq_wf [OF touch_tree_eq [OF t] tree_wf [OF tree]] .
  moreover have "finite (dom ?m)" using tree_finite [OF tree] by simp
  moreover have "x = y" if "?m x = Some a" "?m y = Some c" "pprev a = None" "pprev c = None" for x y a c
    using e [OF that(1)] e [OF that(2)] that(3,4) tree_root [OF tree] by metis
  moreover have "length (ChainTrust a) = 8" if "?m x = Some a" for x a
    using e [OF that] tree_trust [OF tree] by metis
  moreover have "limbs_val (ChainTrust c) < limbs_val (ChainTrust a) \<and> (nChainTx a \<noteq> 0 \<longrightarrow> nChainTx c \<noteq> 0)"
    if x: "?m x = Some a" "pprev a = Some y" "?m y = Some c" for x y a c
  proof -
    obtain a0 c0 where a0: "m x = Some a0" "pprev a0 = pprev a" "ChainTrust a0 = ChainTrust a" "x \<noteq> p \<longrightarrow> a0 = a"
      and c0: "m y = Some c0" "ChainTrust c0 = ChainTrust c" "y \<noteq> p \<longrightarrow> c0 = c" using e [OF x(1)] e [OF x(3)] by blast
    have "work m y < work m x" using tree_work [OF tree a0(1) _ c0(1)] a0(2) x(2) by simp
    moreover have "nChainTx c \<noteq> 0" if "nChainTx a \<noteq> 0"
    proof (cases "x = p")
      case True
      then have "y \<noteq> p" using \<open>work m y < work m x\<close> by auto
      then show ?thesis using tx [of y] True x b that c0 by auto
    next
      case False
      then have "nChainTx c0 \<noteq> 0" using tree_ChainTx [OF tree a0(1) _ c0(1)] a0(2,4) x(2) that by simp
      then show ?thesis using c0(1,3) b by (cases "y = p") auto
    qed
    ultimately show ?thesis using a0 c0 by (simp add: work_def)
  qed
  ultimately show ?thesis unfolding tree_inv_def by blast
qed

lemma good_not_touched: "touches m p b b' \<Longrightarrow> good judge m x \<Longrightarrow> p \<notin> anc m x"
  unfolding touches_def good_def clean_path_def clean_entry_def by force

text \<open>Above an incomplete block every block is incomplete.\<close>

lemma incomplete_above:
  assumes tree: "tree_inv m" and x: "m x = Some bx" and "p \<in> anc m x" "m p = Some b" "nChainTx b = 0"
  shows "nChainTx bx = 0"
proof -
  note wf = tree_wf [OF tree]
  have "\<forall>bx. m x = Some bx \<longrightarrow> p \<in> anc m x \<longrightarrow> nChainTx bx = 0"
  proof (rule tree_induct [OF wf x])
    fix y e assume y: "m y = Some e"
      and IH: "\<And>q c. pprev e = Some q \<Longrightarrow> m q = Some c \<Longrightarrow> \<forall>bx. m q = Some bx \<longrightarrow> p \<in> anc m q \<longrightarrow> nChainTx bx = 0"
    show "\<forall>bx. m y = Some bx \<longrightarrow> p \<in> anc m y \<longrightarrow> nChainTx bx = 0"
    proof (cases "pprev e")
      case None
      then show ?thesis using anc_prev [OF wf y] assms(4,5) by auto
    next
      case (Some q)
      obtain c where c: "m q = Some c" using prev_entry [OF wf y Some] .
      show ?thesis using IH [OF Some c] c y tree_ChainTx [OF tree y Some c] anc_prev [OF wf y] Some assms(4,5) by auto
    qed
  qed
  then show ?thesis using x assms(3) by blast
qed

text \<open>Only the changed block itself may become good.\<close>

lemma touch_good:
  assumes t: "touches m p b b'" and tree: "tree_inv m" and ne: "x \<noteq> p"
  shows "good judge (m(p \<mapsto> b')) x = good judge m x"
proof (cases "p \<in> anc m x")
  case False
  then have "(m(p \<mapsto> b')) q = m q" if "q \<in> anc m x" for q using that by auto
  then show ?thesis using ne unfolding good_def clean_path_def touch_anc [OF t] by simp
next
  case True
  then have "\<not> good judge m x" using good_not_touched [OF t] by blast
  moreover have "\<not> good judge (m(p \<mapsto> b')) x"
  proof
    assume g: "good judge (m(p \<mapsto> b')) x"
    then obtain bx where bx: "m x = Some bx" using ne by (auto simp: good_def)
    have "x \<in> anc m x" using anc_self [OF tree_wf [OF tree] bx] .
    then have "nChainTx bx \<noteq> 0" using g bx ne unfolding good_def clean_path_def touch_anc [OF t] clean_entry_def by fastforce
    then show False using incomplete_above [OF tree bx True] t by (simp add: touches_def)
  qed
  ultimately show ?thesis by simp
qed

lemma touch_comparator:
  "x \<noteq> p \<Longrightarrow> y \<noteq> p \<Longrightarrow> CBlockIndexWorkComparator (m(p \<mapsto> b')) x y = CBlockIndexWorkComparator m x y"
  by (simp add: CBlockIndexWorkComparator_def)

text \<open>The state after such a change, with the changed block among the candidates when it became good.\<close>

lemma touch_state:
  assumes t: "touches (block_index s) p b b'" and inv: "chain_inv judge tip s" and cf: "candidates_from judge tip s"
    and tx: "\<And>q. nChainTx b' \<noteq> 0 \<Longrightarrow> pprev b = Some q \<Longrightarrow> \<exists>bq. block_index s q = Some bq \<and> nChainTx bq \<noteq> 0"
    and s': "block_index s' = (block_index s)(p \<mapsto> b')" "chainActive s' = chainActive s"
    and c: "set (setBlockIndexCandidates s') = (if nChainTx b' \<noteq> 0 \<and> \<not> CBlockIndexWorkComparator (block_index s') p tip
      then insert p (set (setBlockIndexCandidates s)) else set (setBlockIndexCandidates s))"
  shows "chain_inv judge tip s' \<and> candidates_from judge tip s'"
proof -
  let ?m = "block_index s" and ?m' = "block_index s'"
  note tree = inv_tree [OF inv]
  have np: "tip \<noteq> p" using good_not_touched [OF t inv_good [OF inv]] anc_self [OF inv_wf [OF inv]] inv_entry [OF inv] by blast
  have tree': "tree_inv ?m'" unfolding s'(1) using touch_tree_inv [OF t tree tx] by blast
  have g: "good judge ?m' x = good judge ?m x" if "x \<noteq> p" for x unfolding s'(1) using touch_good [OF t tree that] .
  have nc: "p \<notin> set (setBlockIndexCandidates s)" using inv_cands [OF inv, of p] t by (auto simp: touches_def)
  have "\<exists>e. ?m' x = Some e \<and> nChainTx e \<noteq> 0" if "x \<in> set (setBlockIndexCandidates s')" for x
    using that c inv_cands [OF inv, of x] nc s'(1) by (cases "x = p") (auto split: if_splits)
  then have "chain_inv judge tip s'"
    using tree' g [OF np] inv_good [OF inv] inv_active [OF inv] touch_chain_of [OF t] s' by (simp add: chain_inv_def)
  moreover have "x \<in> set (setBlockIndexCandidates s')" if x: "good judge ?m' x" "\<not> CBlockIndexWorkComparator ?m' x tip" for x
  proof (cases "x = p")
    case True
    then have "nChainTx b' \<noteq> 0" using x(1) anc_self [OF tree_wf [OF tree']] s'(1) by (force simp: good_def clean_path_def clean_entry_def)
    then show ?thesis using True x(2) c by simp
  next
    case False
    then have "x \<in> set (setBlockIndexCandidates s)"
      using x g touch_comparator [OF False np] cf unfolding s'(1) by (simp add: candidates_from_def)
    then show ?thesis using c by (simp split: if_splits)
  qed
  ultimately show ?thesis using g [OF np] inv_good [OF inv] by (simp add: candidates_from_def)
qed

section \<open>Blocks waiting for their predecessors\<close>

definition tx_of :: "block_store \<Rightarrow> ptr \<Rightarrow> nat" where
  "tx_of m p = (case m p of None \<Rightarrow> 0 | Some b \<Rightarrow> unat (nTx b))"

definition path_tx :: "block_store \<Rightarrow> ptr \<Rightarrow> nat" where
  "path_tx m p = (\<Sum>q\<in>anc m p. tx_of m q)"

definition tx_total :: "block_store \<Rightarrow> nat" where
  "tx_total m = (\<Sum>q\<in>dom m. tx_of m q)"

definition have_data :: "CBlockIndex \<Rightarrow> bool" where
  "have_data b \<longleftrightarrow> nStatus b AND BLOCK_HAVE_DATA \<noteq> 0"

definition tree_valid :: "CBlockIndex \<Rightarrow> bool" where
  "tree_valid b \<longleftrightarrow> nStatus b AND BLOCK_VALID_MASK \<ge> BLOCK_VALID_TREE"

definition failed_on :: "block_store \<Rightarrow> ptr \<Rightarrow> bool" where
  "failed_on m p \<longleftrightarrow> (\<exists>a\<in>anc m p. \<exists>b. m a = Some b \<and> nStatus b AND BLOCK_FAILED_MASK \<noteq> 0)"

text \<open>
  What holds of the entries while the blocks of the queue wait to be processed: \<open>nChainTx\<close> counts the
  transactions of a complete chain, and a block with data whose chain is not complete is in the queue,
  in \<open>mapBlocksUnlinked\<close> under its predecessor, or above a failed block.
\<close>

definition entries_ok :: "ptr list \<Rightarrow> CChainState \<Rightarrow> bool" where
  "entries_ok Q s \<longleftrightarrow>
     (\<forall>p b. block_index s p = Some b \<longrightarrow>
        tree_valid b \<and> (have_data b \<longrightarrow> nTx b \<noteq> 0) \<and>
        (nChainTx b \<noteq> 0 \<longrightarrow> have_data b \<and> unat (nChainTx b) = path_tx (block_index s) p) \<and>
        (have_data b \<and> nChainTx b = 0 \<longrightarrow> p \<in> set Q \<or> (pprev b, p) \<in> set (mapBlocksUnlinked s) \<or> failed_on (block_index s) p))"

definition unlinked_ok :: "CChainState \<Rightarrow> bool" where
  "unlinked_ok s \<longleftrightarrow>
     (\<forall>q p. (q, p) \<in> set (mapBlocksUnlinked s) \<longrightarrow>
        (\<exists>b r br. block_index s p = Some b \<and> have_data b \<and> nChainTx b = 0 \<and> q = Some r \<and> pprev b = Some r \<and>
           block_index s r = Some br \<and> nChainTx br = 0))"

definition queue_ok :: "ptr list \<Rightarrow> CChainState \<Rightarrow> bool" where
  "queue_ok Q s \<longleftrightarrow>
     (\<forall>p\<in>set Q. \<exists>b. block_index s p = Some b \<and> have_data b \<and> nChainTx b = 0 \<and>
        (\<forall>r. pprev b = Some r \<longrightarrow> (\<exists>br. block_index s r = Some br \<and> nChainTx br \<noteq> 0)))"

definition intake_inv :: "ptr list \<Rightarrow> CChainState \<Rightarrow> bool" where
  "intake_inv Q s \<longleftrightarrow> entries_ok Q s \<and> unlinked_ok s \<and> queue_ok Q s \<and>
     distinct (Q @ map snd (mapBlocksUnlinked s)) \<and> tx_total (block_index s) < 2 ^ 32"

lemma anc_sub_dom: "wf_store m \<Longrightarrow> m p = Some b \<Longrightarrow> anc m p \<subseteq> dom m"
  using anc_dom by (metis domI subsetI)

lemma path_tx_le:
  assumes "tree_inv m" and "m p = Some b"
  shows "path_tx m p \<le> tx_total m"
  unfolding path_tx_def tx_total_def
  using anc_sub_dom [OF tree_wf [OF assms(1)] assms(2)] tree_finite [OF assms(1)] by (intro sum_mono2) auto

lemma path_tx_prev:
  assumes "tree_inv m" and p: "m p = Some b"
  shows "path_tx m p = (case pprev b of None \<Rightarrow> 0 | Some q \<Rightarrow> path_tx m q) + unat (nTx b)"
proof (cases "pprev b")
  case None
  then show ?thesis using anc_prev [OF tree_wf [OF assms(1)] p] p by (simp add: path_tx_def tx_of_def)
next
  case (Some q)
  note wf = tree_wf [OF assms(1)]
  obtain c where c: "m q = Some c" "nHeight b = nHeight c + 1" using prev_entry [OF wf p Some] .
  have "p \<notin> anc m q" using anc_dom [OF wf c(1), of p] p c(2) by force
  moreover have "finite (anc m q)" using anc_sub_dom [OF wf c(1)] tree_finite [OF assms(1)] finite_subset by blast
  ultimately show ?thesis using anc_prev [OF wf p] Some p by (simp add: path_tx_def tx_of_def)
qed

lemma unat_add_total: "unat a + unat b < 2 ^ 32 \<Longrightarrow> unat (a + b :: u32) = unat a + unat b"
  using unat_add_lem [of a b] by simp

lemma distinct_split:
  "distinct (xs @ map snd es) \<Longrightarrow> distinct (xs @ map snd (filter P es) @ map snd (filter (\<lambda>e. \<not> P e) es))"
  by (induction es) (auto simp: image_iff)

text \<open>One turn of the loop over the queue.\<close>

definition receive_step :: "ptr \<Rightarrow> CBlockIndex \<Rightarrow> u32 \<Rightarrow> CChainState \<Rightarrow> CChainState" where
  "receive_step p bi v s =
     (let m = (block_index s)(p \<mapsto> bi\<lparr>nChainTx := v, nSequenceId := nBlockSequenceId s\<rparr>);
          worse = (case Tip (chainActive s) of None \<Rightarrow> False | Some tip \<Rightarrow> CBlockIndexWorkComparator m p tip)
      in s\<lparr>block_index := m, nBlockSequenceId := nBlockSequenceId s + 1,
           setBlockIndexCandidates := (if worse then setBlockIndexCandidates s else set_insert p (setBlockIndexCandidates s)),
           mapBlocksUnlinked := filter (\<lambda>e. fst e \<noteq> Some p) (mapBlocksUnlinked s)\<rparr>)"

lemma set_insert_set [simp]: "set (set_insert x xs) = insert x (set xs)"
  by (auto simp: set_insert_def)

lemma receive_queue_Nil [simp]: "receive_queue [] s = Some s"
  by (subst receive_queue.simps) simp

lemma receive_queue_Cons:
  assumes "block_index s p = Some bi" and "(case pprev bi of None \<Rightarrow> Some 0 | Some q \<Rightarrow> map_option nChainTx (block_index s q)) = Some before"
  shows "receive_queue (p # rest) s =
    receive_queue (rest @ map snd (filter (\<lambda>e. fst e = Some p) (mapBlocksUnlinked s))) (receive_step p bi (before + nTx bi) s)"
  using assms by (subst receive_queue.simps) (simp add: receive_step_def Let_def)

text \<open>The count of a block whose predecessor is complete does not wrap around.\<close>

lemma queue_count:
  assumes tree: "tree_inv (block_index s)" and inv: "intake_inv (p # ps) s"
  obtains b before where "block_index s p = Some b" "have_data b" "nChainTx b = 0"
    "(case pprev b of None \<Rightarrow> Some 0 | Some q \<Rightarrow> map_option nChainTx (block_index s q)) = Some before"
    "before + nTx b \<noteq> 0" "unat (before + nTx b) = path_tx (block_index s) p"
    "\<And>r. pprev b = Some r \<Longrightarrow> \<exists>br. block_index s r = Some br \<and> nChainTx br \<noteq> 0"
proof -
  let ?m = "block_index s"
  obtain b where b: "?m p = Some b" "have_data b" "nChainTx b = 0"
      "\<And>r. pprev b = Some r \<Longrightarrow> \<exists>br. ?m r = Some br \<and> nChainTx br \<noteq> 0"
    using inv unfolding intake_inv_def queue_ok_def by (metis list.set_intros(1))
  have ok: "entries_ok (p # ps) s" using inv by (simp add: intake_inv_def)
  obtain before where bf: "(case pprev b of None \<Rightarrow> Some 0 | Some q \<Rightarrow> map_option nChainTx (?m q)) = Some before"
      "unat before = (case pprev b of None \<Rightarrow> 0 | Some q \<Rightarrow> path_tx ?m q)"
  proof (cases "pprev b")
    case (Some q)
    obtain c where c: "?m q = Some c" "nChainTx c \<noteq> 0" using b(4) [OF Some] by blast
    then have "unat (nChainTx c) = path_tx ?m q" using ok by (simp add: entries_ok_def)
    then show thesis using that [of "nChainTx c"] Some c by simp
  qed (use that [of 0] in simp)
  have sum: "unat before + unat (nTx b) = path_tx ?m p" using path_tx_prev [OF tree b(1)] bf(2) by simp
  have "path_tx ?m p < 2 ^ 32" using path_tx_le [OF tree b(1)] inv unfolding intake_inv_def by linarith
  then have un: "unat (before + nTx b) = path_tx ?m p" using unat_add_total [of before "nTx b"] sum by simp
  moreover have "nTx b \<noteq> 0" using ok b by (simp add: entries_ok_def)
  then have "path_tx ?m p \<noteq> 0" using sum by (metis add_is_0 unat_eq_zero)
  then have "before + nTx b \<noteq> 0" using un by auto
  ultimately show thesis using that b bf(1) by blast
qed

lemma receive_step_chain:
  assumes inv: "chain_inv judge tip s" and cf: "candidates_from judge tip s" and ii: "intake_inv (p # ps) s"
    and b: "block_index s p = Some b" "nChainTx b = 0" "v \<noteq> 0"
      "\<And>r. pprev b = Some r \<Longrightarrow> \<exists>br. block_index s r = Some br \<and> nChainTx br \<noteq> 0"
  shows "chain_inv judge tip (receive_step p b v s) \<and> candidates_from judge tip (receive_step p b v s)"
proof (rule touch_state [OF _ inv cf])
  let ?b = "b\<lparr>nChainTx := v, nSequenceId := nBlockSequenceId s\<rparr>"
  show "touches (block_index s) p b ?b" using b(1,2) by (simp add: touches_def links_def)
  show "\<exists>bq. block_index s q = Some bq \<and> nChainTx bq \<noteq> 0" if "nChainTx ?b \<noteq> 0" "pprev b = Some q" for q using b(4) that(2) by blast
  show "block_index (receive_step p b v s) = (block_index s)(p \<mapsto> ?b)" by (simp add: receive_step_def Let_def)
  show "chainActive (receive_step p b v s) = chainActive s" by (simp add: receive_step_def Let_def)
  show "set (setBlockIndexCandidates (receive_step p b v s)) =
    (if nChainTx ?b \<noteq> 0 \<and> \<not> CBlockIndexWorkComparator (block_index (receive_step p b v s)) p tip
     then insert p (set (setBlockIndexCandidates s)) else set (setBlockIndexCandidates s))"
    using b(3) inv_Tip [OF inv] by (auto simp: receive_step_def Let_def)
qed

abbreviation kids :: "CChainState \<Rightarrow> ptr \<Rightarrow> ptr list" where
  "kids s p \<equiv> map snd (filter (\<lambda>e. fst e = Some p) (mapBlocksUnlinked s))"

lemma receive_step_fields:
  "block_index (receive_step p b v s) = (block_index s)(p \<mapsto> b\<lparr>nChainTx := v, nSequenceId := nBlockSequenceId s\<rparr>)"
  "mapBlocksUnlinked (receive_step p b v s) = filter (\<lambda>e. fst e \<noteq> Some p) (mapBlocksUnlinked s)"
  by (simp_all add: receive_step_def Let_def)

text \<open>The counts of transactions and the failed blocks depend on the links, \<open>nTx\<close> and the status only.\<close>

lemma counts_eq:
  assumes "m p = Some b" and "links b' = links b" and "nTx b' = nTx b" and "nStatus b' = nStatus b"
  shows "path_tx (m(p \<mapsto> b')) x = path_tx m x" "tx_total (m(p \<mapsto> b')) = tx_total m" "failed_on (m(p \<mapsto> b')) x = failed_on m x"
proof -
  let ?m' = "m(p \<mapsto> b')"
  have te: "tree_eq m ?m'" using assms by (simp add: tree_eq_def)
  have tx: "tx_of ?m' = tx_of m" using assms by (auto simp: tx_of_def)
  have "dom ?m' = dom m" using assms(1) by auto
  then show "path_tx ?m' x = path_tx m x" "tx_total ?m' = tx_total m"
    by (simp_all add: path_tx_def tx_total_def tx tree_eq_anc [OF te])
  have "(\<exists>e. ?m' a = Some e \<and> nStatus e AND BLOCK_FAILED_MASK \<noteq> 0) = (\<exists>e. m a = Some e \<and> nStatus e AND BLOCK_FAILED_MASK \<noteq> 0)" for a
    using assms by auto
  then show "failed_on ?m' x = failed_on m x" unfolding failed_on_def tree_eq_anc [OF te] by presburger
qed

lemma receive_step_counts:
  assumes "block_index s p = Some b"
  shows "path_tx (block_index (receive_step p b v s)) x = path_tx (block_index s) x"
    "tx_total (block_index (receive_step p b v s)) = tx_total (block_index s)"
    "failed_on (block_index (receive_step p b v s)) x = failed_on (block_index s) x"
  unfolding receive_step_fields by (rule counts_eq [where b = b]; simp add: links_def assms)+

lemma receive_step_entries:
  assumes eo: "entries_ok (p # ps) s"
    and b: "block_index s p = Some b" "have_data b" "v \<noteq> 0" "unat v = path_tx (block_index s) p"
  shows "entries_ok (ps @ kids s p) (receive_step p b v s)"
  unfolding entries_ok_def receive_step_counts [OF b(1)]
proof (intro allI impI)
  fix x e assume x: "block_index (receive_step p b v s) x = Some e"
  show "tree_valid e \<and> (have_data e \<longrightarrow> nTx e \<noteq> 0) \<and> (nChainTx e \<noteq> 0 \<longrightarrow> have_data e \<and> unat (nChainTx e) = path_tx (block_index s) x) \<and>
    (have_data e \<and> nChainTx e = 0 \<longrightarrow> x \<in> set (ps @ kids s p) \<or>
       (pprev e, x) \<in> set (mapBlocksUnlinked (receive_step p b v s)) \<or> failed_on (block_index s) x)"
  proof (cases "x = p")
    case True
    then show ?thesis using x b eo by (auto simp: have_data_def tree_valid_def entries_ok_def receive_step_fields)
  next
    case False
    then have "block_index s x = Some e" using x by (simp add: receive_step_fields)
    note A = eo [unfolded entries_ok_def, rule_format, OF this]
    show ?thesis
    proof (intro conjI impI)
      assume "have_data e \<and> nChainTx e = 0"
      then consider "x \<in> set ps" | "(pprev e, x) \<in> set (mapBlocksUnlinked s)" | "failed_on (block_index s) x" using A False by auto
      then show "x \<in> set (ps @ kids s p) \<or> (pprev e, x) \<in> set (mapBlocksUnlinked (receive_step p b v s)) \<or> failed_on (block_index s) x"
      proof cases
        case 2
        then show ?thesis by (cases "pprev e = Some p") (auto simp: receive_step_fields image_iff intro: bexI)
      qed auto
    qed (use A in auto)
  qed
qed

lemma receive_step_unlinked:
  assumes uo: "unlinked_ok s" and pu: "\<And>q. (q, p) \<notin> set (mapBlocksUnlinked s)"
  shows "unlinked_ok (receive_step p b v s)"
  unfolding unlinked_ok_def receive_step_fields
proof (intro allI impI)
  let ?m' = "(block_index s)(p \<mapsto> b\<lparr>nChainTx := v, nSequenceId := nBlockSequenceId s\<rparr>)"
  fix q x assume "(q, x) \<in> set (filter (\<lambda>e. fst e \<noteq> Some p) (mapBlocksUnlinked s))"
  then have x: "(q, x) \<in> set (mapBlocksUnlinked s)" "q \<noteq> Some p" by auto
  then have "x \<noteq> p" using pu by auto
  with uo [unfolded unlinked_ok_def, rule_format, OF x(1)] x(2)
  show "\<exists>b r br. ?m' x = Some b \<and> have_data b \<and> nChainTx b = 0 \<and> q = Some r \<and> pprev b = Some r \<and> ?m' r = Some br \<and> nChainTx br = 0"
    by auto
qed

lemma receive_step_queue:
  assumes qo: "queue_ok (p # ps) s" and uo: "unlinked_ok s" and pu: "\<And>q. (q, p) \<notin> set (mapBlocksUnlinked s)" and "p \<notin> set ps" and v: "v \<noteq> 0"
  shows "queue_ok (ps @ kids s p) (receive_step p b v s)"
  unfolding queue_ok_def receive_step_fields
proof
  let ?m' = "(block_index s)(p \<mapsto> b\<lparr>nChainTx := v, nSequenceId := nBlockSequenceId s\<rparr>)"
  fix x assume x: "x \<in> set (ps @ kids s p)"
  then have ne: "x \<noteq> p" using assms(4) pu by auto
  from x consider "x \<in> set ps" | "(Some p, x) \<in> set (mapBlocksUnlinked s)" by auto
  then show "\<exists>b. ?m' x = Some b \<and> have_data b \<and> nChainTx b = 0 \<and> (\<forall>r. pprev b = Some r \<longrightarrow> (\<exists>br. ?m' r = Some br \<and> nChainTx br \<noteq> 0))"
  proof cases
    case 1
    then show ?thesis using qo ne v by (auto simp: queue_ok_def)
  next
    case 2
    with uo [unfolded unlinked_ok_def, rule_format, OF this] show ?thesis using ne v by auto
  qed
qed

lemma receive_step_intake:
  assumes ii: "intake_inv (p # ps) s"
    and b: "block_index s p = Some b" "have_data b" "nChainTx b = 0" "v \<noteq> 0" "unat v = path_tx (block_index s) p"
  shows "intake_inv (ps @ kids s p) (receive_step p b v s)"
proof -
  have di: "distinct ((p # ps) @ map snd (mapBlocksUnlinked s))" using ii by (simp add: intake_inv_def)
  have pu: "(q, p) \<notin> set (mapBlocksUnlinked s)" for q using di by force
  have "distinct ((ps @ kids s p) @ map snd (mapBlocksUnlinked (receive_step p b v s)))"
    using distinct_split [of ps "mapBlocksUnlinked s" "\<lambda>e. fst e = Some p"] di by (simp add: receive_step_fields)
  then show ?thesis
    using ii receive_step_entries [OF _ b(1,2,4,5), of ps] receive_step_unlinked [OF _ pu] receive_step_queue [OF _ _ pu _ b(4)] di
      receive_step_counts(2) [OF b(1)] by (simp add: intake_inv_def)
qed

text \<open>The loop ends and leaves no block behind.\<close>

lemma receive_queue_total:
  "chain_inv judge tip s \<Longrightarrow> candidates_from judge tip s \<Longrightarrow> intake_inv Q s \<Longrightarrow>
   \<exists>s'. receive_queue Q s = Some s' \<and> chain_inv judge tip s' \<and> candidates_from judge tip s' \<and> intake_inv [] s' \<and>
     tree_eq (block_index s) (block_index s') \<and> mapBlockIndex s' = mapBlockIndex s"
proof (induction "length Q + length (mapBlocksUnlinked s)" arbitrary: Q s rule: less_induct)
  case less
  show ?case
  proof (cases Q)
    case Nil
    then show ?thesis using less.prems by (simp add: tree_eq_def)
  next
    case (Cons p ps)
    note ii = less.prems(3) [unfolded Cons] and tree = inv_tree [OF less.prems(1)]
    obtain b before where b: "block_index s p = Some b" "have_data b" "nChainTx b = 0"
        "(case pprev b of None \<Rightarrow> Some 0 | Some q \<Rightarrow> map_option nChainTx (block_index s q)) = Some before"
        "before + nTx b \<noteq> 0" "unat (before + nTx b) = path_tx (block_index s) p"
        "\<And>r. pprev b = Some r \<Longrightarrow> \<exists>br. block_index s r = Some br \<and> nChainTx br \<noteq> 0"
      by (rule queue_count [OF tree ii]) blast
    let ?s = "receive_step p b (before + nTx b) s"
    let ?Q = "ps @ map snd (filter (\<lambda>e. fst e = Some p) (mapBlocksUnlinked s))"
    have "length ?Q + length (mapBlocksUnlinked ?s) < length Q + length (mapBlocksUnlinked s)"
      using sum_length_filter_compl [of "\<lambda>e. fst e = Some p" "mapBlocksUnlinked s"] by (simp add: Cons receive_step_def Let_def)
    moreover have "chain_inv judge tip ?s \<and> candidates_from judge tip ?s"
      using receive_step_chain [OF less.prems(1,2) ii b(1,3,5,7)] by blast
    moreover have "intake_inv ?Q ?s" using receive_step_intake [OF ii b(1-3,5,6)] .
    ultimately obtain s' where s': "receive_queue ?Q ?s = Some s'" "chain_inv judge tip s'" "candidates_from judge tip s'" "intake_inv [] s'"
        "tree_eq (block_index ?s) (block_index s')" "mapBlockIndex s' = mapBlockIndex ?s"
      using less.hyps [of ?Q ?s] by blast
    have "tree_eq (block_index s) (block_index ?s)" using b(1) by (simp add: tree_eq_def links_def receive_step_def Let_def)
    then have "tree_eq (block_index s) (block_index s')" using s'(5) by (simp add: tree_eq_def)
    moreover have "mapBlockIndex s' = mapBlockIndex s" using s'(6) by (simp add: receive_step_def Let_def)
    moreover have "receive_queue Q s = Some s'" using receive_queue_Cons [OF b(1,4)] s'(1) Cons by simp
    ultimately show ?thesis using s' by blast
  qed
qed

section \<open>Status bits\<close>

lemmas status_defs = BLOCK_VALID_MASK_def BLOCK_VALID_HEADER_def BLOCK_VALID_TREE_def BLOCK_VALID_TRANSACTIONS_def
  BLOCK_VALID_CHAIN_def BLOCK_VALID_SCRIPTS_def BLOCK_HAVE_DATA_def BLOCK_FAILED_MASK_def BLOCK_FAILED_VALID_def
  BLOCK_FAILED_CHILD_def BLOCK_OPT_WITNESS_def

lemma or_and_zero: "g AND h = 0 \<Longrightarrow> (a OR g) AND h = a AND (h :: u32)"
  by (simp add: bit.conj_disj_distrib2)

lemma and_not_and: "h AND NOT g = h \<Longrightarrow> (a AND NOT g) AND h = a AND (h :: u32)"
  by (metis and.assoc and.commute)

lemma RaiseValidity_status:
  assumes "nUpTo AND NOT BLOCK_VALID_MASK = 0" and "nUpTo AND BLOCK_HAVE_DATA = 0" "nUpTo AND BLOCK_FAILED_MASK = 0"
    "nUpTo AND BLOCK_VALID_MASK = nUpTo"
  obtains st c where "RaiseValidity b nUpTo = Some (b\<lparr>nStatus := st\<rparr>, c)"
    "st AND BLOCK_HAVE_DATA = nStatus b AND BLOCK_HAVE_DATA" "st AND BLOCK_FAILED_MASK = nStatus b AND BLOCK_FAILED_MASK"
    "st AND BLOCK_VALID_MASK = (if nStatus b AND BLOCK_FAILED_MASK = 0 \<and> nStatus b AND BLOCK_VALID_MASK < nUpTo
       then nUpTo else nStatus b AND BLOCK_VALID_MASK)"
proof (cases "nStatus b AND BLOCK_FAILED_MASK = 0 \<and> nStatus b AND BLOCK_VALID_MASK < nUpTo")
  case True
  let ?st = "(nStatus b AND NOT BLOCK_VALID_MASK) OR nUpTo"
  have "BLOCK_HAVE_DATA AND NOT BLOCK_VALID_MASK = BLOCK_HAVE_DATA" "BLOCK_FAILED_MASK AND NOT BLOCK_VALID_MASK = BLOCK_FAILED_MASK"
    by (simp_all add: status_defs)
  then have "?st AND BLOCK_HAVE_DATA = nStatus b AND BLOCK_HAVE_DATA" "?st AND BLOCK_FAILED_MASK = nStatus b AND BLOCK_FAILED_MASK"
    using assms(2,3) by (simp_all only: or_and_zero and_not_and)
  moreover have "?st AND BLOCK_VALID_MASK = nUpTo" using assms(4) by (simp add: bit.conj_disj_distrib2 and.assoc)
  ultimately show thesis using that [of ?st True] True assms(1) by (simp add: RaiseValidity_def)
next
  case False
  then show thesis using that [of "nStatus b" False] assms(1) by (auto simp: RaiseValidity_def)
qed

section \<open>Marking keeps the intake invariant\<close>

lemma mark_bits: "f AND BLOCK_FAILED_MASK = f \<Longrightarrow> (a OR f) AND BLOCK_VALID_MASK = a AND (BLOCK_VALID_MASK :: u32)"
proof (rule or_and_zero)
  assume f: "f AND BLOCK_FAILED_MASK = f"
  have "f AND BLOCK_VALID_MASK = f AND (BLOCK_FAILED_MASK AND BLOCK_VALID_MASK)" using f by (metis and.assoc)
  also have "\<dots> = 0" by (simp add: status_defs)
  finally show "f AND BLOCK_VALID_MASK = 0" .
qed

lemma relabel_entry:
  assumes "relabel judge m m'" and "m' p = Some b'"
  obtains b where "m p = Some b" "have_data b' = have_data b" "tree_valid b' = tree_valid b" "nTx b' = nTx b" "nChainTx b' = nChainTx b"
    "pprev b' = pprev b" "nStatus b AND BLOCK_FAILED_MASK \<noteq> 0 \<Longrightarrow> nStatus b' AND BLOCK_FAILED_MASK \<noteq> 0"
proof -
  obtain b f where b: "m p = Some b" "b' = b\<lparr>nStatus := nStatus b OR f\<rparr>" "f AND BLOCK_FAILED_MASK = f"
    using relabel_back [OF assms] .
  have "have_data b' = have_data b" using or_failed_data [OF b(3), of "nStatus b"] b(2) by (simp add: have_data_def)
  moreover have "tree_valid b' = tree_valid b" using mark_bits [OF b(3), of "nStatus b"] b(2) by (simp add: tree_valid_def)
  moreover have "nStatus b' AND BLOCK_FAILED_MASK \<noteq> 0" if "nStatus b AND BLOCK_FAILED_MASK \<noteq> 0"
    using that b(2) by (simp add: bit.conj_disj_distrib2 or_eq_0_iff)
  ultimately show thesis using that [of b] b by simp
qed

lemma relabel_sym_entry:
  assumes "relabel judge m m'" and "m p = Some b"
  obtains b' where "m' p = Some b'" "have_data b' = have_data b" "nTx b' = nTx b" "nChainTx b' = nChainTx b" "pprev b' = pprev b"
    "nStatus b AND BLOCK_FAILED_MASK \<noteq> 0 \<Longrightarrow> nStatus b' AND BLOCK_FAILED_MASK \<noteq> 0"
proof -
  obtain b' where b': "m' p = Some b'" using relabel_None [OF assms(1), of p] assms(2) by auto
  show thesis using relabel_entry [OF assms(1) b'] assms(2) that [OF b'] by (metis option.inject)
qed

lemma relabel_counts:
  assumes r: "relabel judge m m'"
  shows "path_tx m' p = path_tx m p" "tx_total m' = tx_total m" "failed_on m p \<Longrightarrow> failed_on m' p"
proof -
  have "tx_of m' q = tx_of m q" for q using relabel_at [OF r, of q] by (cases "m q") (auto simp: tx_of_def)
  then show "path_tx m' p = path_tx m p" "tx_total m' = tx_total m"
    by (simp_all add: path_tx_def tx_total_def relabel_anc [OF r] relabel_dom [OF r])
  show "failed_on m' p" if "failed_on m p"
    using that relabel_sym_entry [OF r] unfolding failed_on_def relabel_anc [OF r] by metis
qed

lemma intake_data: "intake_inv Q s \<Longrightarrow> data_inv (block_index s)"
  unfolding intake_inv_def entries_ok_def data_inv_def have_data_def by blast

lemma evolves_intake:
  assumes e: "evolves judge s s'" and ii: "intake_inv [] s"
  shows "intake_inv [] s'"
proof -
  have r: "relabel judge (block_index s) (block_index s')" using e by (simp add: evolves_def)
  have u: "mapBlocksUnlinked s' = mapBlocksUnlinked s" using e intake_data [OF ii] by (simp add: evolves_def same_maps_def)
  have eo: "entries_ok [] s" and uo: "unlinked_ok s" using ii by (auto simp: intake_inv_def)
  have "entries_ok [] s'"
    unfolding entries_ok_def u relabel_counts(1) [OF r]
  proof (intro allI impI)
    fix p b' assume "block_index s' p = Some b'"
    then obtain b where b: "block_index s p = Some b" "have_data b' = have_data b" "tree_valid b' = tree_valid b" "nTx b' = nTx b"
      "nChainTx b' = nChainTx b" "pprev b' = pprev b" by (rule relabel_entry [OF r])
    from eo [unfolded entries_ok_def, rule_format, OF b(1)]
    show "tree_valid b' \<and> (have_data b' \<longrightarrow> nTx b' \<noteq> 0) \<and>
      (nChainTx b' \<noteq> 0 \<longrightarrow> have_data b' \<and> unat (nChainTx b') = path_tx (block_index s) p) \<and>
      (have_data b' \<and> nChainTx b' = 0 \<longrightarrow> p \<in> set [] \<or> (pprev b', p) \<in> set (mapBlocksUnlinked s) \<or> failed_on (block_index s') p)"
      using b relabel_counts(3) [OF r, of p] by auto
  qed
  moreover have "unlinked_ok s'"
    unfolding unlinked_ok_def u
  proof (intro allI impI)
    fix q p assume "(q, p) \<in> set (mapBlocksUnlinked s)"
    from uo [unfolded unlinked_ok_def, rule_format, OF this]
    obtain b x bx where b: "block_index s p = Some b" "have_data b" "nChainTx b = 0" "q = Some x" "pprev b = Some x"
      "block_index s x = Some bx" "nChainTx bx = 0" by blast
    obtain b' where "block_index s' p = Some b'" "have_data b' = have_data b" "nChainTx b' = nChainTx b" "pprev b' = pprev b"
      by (rule relabel_sym_entry [OF r b(1)])
    moreover obtain bx' where "block_index s' x = Some bx'" "nChainTx bx' = nChainTx bx" by (rule relabel_sym_entry [OF r b(6)])
    ultimately show "\<exists>b r br. block_index s' p = Some b \<and> have_data b \<and> nChainTx b = 0 \<and> q = Some r \<and> pprev b = Some r \<and>
      block_index s' r = Some br \<and> nChainTx br = 0" using b by auto
  qed
  ultimately show ?thesis using ii u relabel_counts(2) [OF r] by (simp add: intake_inv_def queue_ok_def)
qed

section \<open>Receiving a block\<close>

text \<open>The entry as \<open>ReceivedBlockTransactions\<close> fills it.\<close>

lemma received_entry:
  fixes b :: CBlockIndex
  obtains b' c where
    "RaiseValidity (b\<lparr>nTx := count, nChainTx := 0, nFile := f, nDataPos := d, nUndoPos := 0,
       nStatus := (if w then (nStatus b OR BLOCK_HAVE_DATA) OR BLOCK_OPT_WITNESS else nStatus b OR BLOCK_HAVE_DATA)\<rparr>)
       BLOCK_VALID_TRANSACTIONS = Some (b', c)"
    "links b' = links b" "ChainTrust b' = ChainTrust b" "nTx b' = count" "nChainTx b' = 0" "have_data b'"
    "tree_valid b \<Longrightarrow> tree_valid b'" "nStatus b' AND BLOCK_FAILED_MASK = nStatus b AND BLOCK_FAILED_MASK"
proof -
  let ?st = "if w then (nStatus b OR BLOCK_HAVE_DATA) OR BLOCK_OPT_WITNESS else nStatus b OR BLOCK_HAVE_DATA"
  let ?b = "b\<lparr>nTx := count, nChainTx := 0, nFile := f, nDataPos := d, nUndoPos := 0, nStatus := ?st\<rparr>"
  have z: "BLOCK_OPT_WITNESS AND BLOCK_HAVE_DATA = 0" "BLOCK_OPT_WITNESS AND BLOCK_FAILED_MASK = 0" "BLOCK_HAVE_DATA AND BLOCK_FAILED_MASK = 0"
      "BLOCK_OPT_WITNESS AND BLOCK_VALID_MASK = 0" "BLOCK_HAVE_DATA AND BLOCK_VALID_MASK = 0"
    by (simp_all add: status_defs)
  have d: "?st AND BLOCK_HAVE_DATA \<noteq> 0"
    by (simp add: bit.conj_disj_distrib2 or_eq_0_iff) (simp add: status_defs)
  have fl: "?st AND BLOCK_FAILED_MASK = nStatus b AND BLOCK_FAILED_MASK" using z by (simp only: or_and_zero if_cancel split: if_split) simp
  have v: "?st AND BLOCK_VALID_MASK = nStatus b AND BLOCK_VALID_MASK" using z by (simp only: or_and_zero if_cancel split: if_split) simp
  obtain st c where st: "RaiseValidity ?b BLOCK_VALID_TRANSACTIONS = Some (?b\<lparr>nStatus := st\<rparr>, c)"
    "st AND BLOCK_HAVE_DATA = nStatus ?b AND BLOCK_HAVE_DATA" "st AND BLOCK_FAILED_MASK = nStatus ?b AND BLOCK_FAILED_MASK"
    "st AND BLOCK_VALID_MASK = (if nStatus ?b AND BLOCK_FAILED_MASK = 0 \<and> nStatus ?b AND BLOCK_VALID_MASK < BLOCK_VALID_TRANSACTIONS
       then BLOCK_VALID_TRANSACTIONS else nStatus ?b AND BLOCK_VALID_MASK)"
    by (rule RaiseValidity_status [of BLOCK_VALID_TRANSACTIONS ?b]) (simp_all add: status_defs)
  have "tree_valid (?b\<lparr>nStatus := st\<rparr>)" if "tree_valid b"
    using that st(4) v by (simp add: tree_valid_def) (simp add: BLOCK_VALID_TREE_def BLOCK_VALID_TRANSACTIONS_def)
  then show thesis using that [OF st(1)] st(2,3) d fl by (simp add: links_def have_data_def)
qed

lemma sum_update_le:
  assumes "finite D" and "p \<in> D" and "\<And>q. q \<noteq> p \<Longrightarrow> g q = f q"
  shows "sum g D \<le> sum f D + (g p :: nat)"
proof -
  have "sum g (D - {p}) = sum f (D - {p})" using assms(3) by (intro sum.cong) auto
  then show ?thesis using assms(1,2) sum.remove [of D p g] sum.remove [of D p f] by simp
qed

lemma received_state:
  assumes inv: "chain_inv judge tip s" and cf: "candidates_from judge tip s" and ii: "intake_inv [] s"
    and b: "block_index s p = Some b" "\<not> have_data b" and room: "tx_total (block_index s) + unat (nTx b') < 2 ^ 32"
    and b': "links b' = links b" "ChainTrust b' = ChainTrust b" "nTx b' \<noteq> 0" "nChainTx b' = 0" "have_data b'" "tree_valid b'"
      "nStatus b' AND BLOCK_FAILED_MASK = nStatus b AND BLOCK_FAILED_MASK"
    and s': "block_index s' = (block_index s)(p \<mapsto> b')" "chainActive s' = chainActive s"
      "setBlockIndexCandidates s' = setBlockIndexCandidates s" "mapBlocksUnlinked s' = mapBlocksUnlinked s"
  shows "chain_inv judge tip s' \<and> candidates_from judge tip s' \<and> entries_ok [p] s' \<and> unlinked_ok s' \<and>
    distinct ([p] @ map snd (mapBlocksUnlinked s')) \<and> tx_total (block_index s') < 2 ^ 32"
proof -
  let ?m = "block_index s" and ?m' = "block_index s'"
  note tree = inv_tree [OF inv]
  have eo: "entries_ok [] s" and uo: "unlinked_ok s" and di: "distinct (map snd (mapBlocksUnlinked s))"
    using ii by (auto simp: intake_inv_def)
  have b0: "nChainTx b = 0" using eo b unfolding entries_ok_def by blast
  have t: "touches ?m p b b'" using b b0 b' by (simp add: touches_def)
  have "chain_inv judge tip s' \<and> candidates_from judge tip s'"
    by (rule touch_state [OF t inv cf _ s'(1,2)]) (use b'(4) s'(3) in auto)
  moreover have pt: "path_tx ?m' x = path_tx ?m x" if "?m x = Some e" "nChainTx e \<noteq> 0" for x e
  proof -
    have "p \<notin> anc ?m x" using incomplete_above [OF tree that(1) _ b(1) b0] that(2) by blast
    then show ?thesis unfolding path_tx_def s'(1) touch_anc [OF t] by (intro sum.cong) (auto simp: tx_of_def)
  qed
  have fs: "(\<exists>e. ?m' a = Some e \<and> nStatus e AND BLOCK_FAILED_MASK \<noteq> 0) = (\<exists>e. ?m a = Some e \<and> nStatus e AND BLOCK_FAILED_MASK \<noteq> 0)" for a
    using b(1) b'(7) s'(1) by simp
  have fo: "failed_on ?m' x = failed_on ?m x" for x
    unfolding failed_on_def fs unfolding s'(1) touch_anc [OF t] ..
  have "entries_ok [p] s'"
    unfolding entries_ok_def s'(4) fo
  proof (intro allI impI)
    fix x e assume x: "?m' x = Some e"
    show "tree_valid e \<and> (have_data e \<longrightarrow> nTx e \<noteq> 0) \<and> (nChainTx e \<noteq> 0 \<longrightarrow> have_data e \<and> unat (nChainTx e) = path_tx ?m' x) \<and>
      (have_data e \<and> nChainTx e = 0 \<longrightarrow> x \<in> set [p] \<or> (pprev e, x) \<in> set (mapBlocksUnlinked s) \<or> failed_on ?m x)"
    proof (cases "x = p")
      case True
      then show ?thesis using x s'(1) b' by simp
    next
      case False
      then have e: "?m x = Some e" using x s'(1) by simp
      show ?thesis using eo [unfolded entries_ok_def, rule_format, OF e] pt [OF e] by auto
    qed
  qed
  moreover have pu: "(q, p) \<notin> set (mapBlocksUnlinked s)" for q
    using uo b unfolding unlinked_ok_def by (metis option.inject)
  moreover have "unlinked_ok s'"
    unfolding unlinked_ok_def s'(4)
  proof (intro allI impI)
    fix q x assume x: "(q, x) \<in> set (mapBlocksUnlinked s)"
    then have "x \<noteq> p" using pu by auto
    then show "\<exists>b r br. ?m' x = Some b \<and> have_data b \<and> nChainTx b = 0 \<and> q = Some r \<and> pprev b = Some r \<and> ?m' r = Some br \<and> nChainTx br = 0"
      using uo [unfolded unlinked_ok_def, rule_format, OF x] b'(4) s'(1) by auto
  qed
  moreover have "distinct ([p] @ map snd (mapBlocksUnlinked s'))" using di pu s'(4) by force
  moreover have "tx_total ?m' \<le> tx_total ?m + tx_of ?m' p"
    unfolding tx_total_def using sum_update_le [of "dom ?m" p "tx_of ?m'" "tx_of ?m"] tree_finite [OF tree] b(1) s'(1)
    by (simp add: tx_of_def insert_absorb domI)
  then have "tx_total ?m' < 2 ^ 32" using room s'(1) by (simp add: tx_of_def)
  ultimately show ?thesis by blast
qed

text \<open>The invariant of a node between two calls, with tip \<open>t\<close>.\<close>

definition node_inv :: "(ptr \<Rightarrow> connect_verdict) \<Rightarrow> ptr \<Rightarrow> CChainState \<Rightarrow> bool" where
  "node_inv judge t s \<longleftrightarrow> chain_inv judge t s \<and> candidates_from judge t s \<and> intake_inv [] s \<and>
     (\<forall>h p. map_of (mapBlockIndex s) h = Some p \<longrightarrow> block_index s p \<noteq> None)"

lemma node_invD:
  assumes "node_inv judge t s"
  shows node_chain: "chain_inv judge t s" and node_cands: "candidates_from judge t s" and node_intake: "intake_inv [] s"
    and node_map: "map_of (mapBlockIndex s) h = Some p \<Longrightarrow> \<exists>b. block_index s p = Some b"
  using assms by (auto simp: node_inv_def)

lemma received_queue_inv:
  assumes "entries_ok [p] s" "unlinked_ok s" "distinct ([p] @ map snd (mapBlocksUnlinked s))" "tx_total (block_index s) < 2 ^ 32"
    and "block_index s p = Some b" "have_data b" "nChainTx b = 0" "\<And>r. pprev b = Some r \<Longrightarrow> \<exists>br. block_index s r = Some br \<and> nChainTx br \<noteq> 0"
  shows "intake_inv [p] s"
  using assms by (simp add: intake_inv_def queue_ok_def)

lemma received_waits:
  assumes eo: "entries_ok [p] s" and uo: "unlinked_ok s" and "distinct ([p] @ map snd (mapBlocksUnlinked s))" "tx_total (block_index s) < 2 ^ 32"
    and b: "block_index s p = Some b" "have_data b" "nChainTx b = 0" "pprev b = Some q" and q: "block_index s q = Some bq" "nChainTx bq = 0"
    and u: "s' = (if v then s\<lparr>mapBlocksUnlinked := mapBlocksUnlinked s @ [(Some q, p)]\<rparr> else s)" and nv: "\<not> v \<Longrightarrow> failed_on (block_index s) p"
  shows "intake_inv [] s'"
proof -
  have m: "block_index s' = block_index s" using u by simp
  have "entries_ok [] s'"
    unfolding entries_ok_def m
  proof (intro allI impI)
    fix x e assume x: "block_index s x = Some e"
    note A = eo [unfolded entries_ok_def, rule_format, OF x]
    show "tree_valid e \<and> (have_data e \<longrightarrow> nTx e \<noteq> 0) \<and> (nChainTx e \<noteq> 0 \<longrightarrow> have_data e \<and> unat (nChainTx e) = path_tx (block_index s) x) \<and>
      (have_data e \<and> nChainTx e = 0 \<longrightarrow> x \<in> set [] \<or> (pprev e, x) \<in> set (mapBlocksUnlinked s') \<or> failed_on (block_index s) x)"
      using A u nv b(1,4) x by (cases v) auto
  qed
  moreover have "unlinked_ok s'" using uo u b q by (auto simp: unlinked_ok_def)
  moreover have "distinct (map snd (mapBlocksUnlinked s'))" using assms(3) u by auto
  ultimately show ?thesis using assms(4) m by (simp add: intake_inv_def queue_ok_def)
qed

lemma IsValid_tree: "tree_valid b \<Longrightarrow> IsValid b BLOCK_VALID_TREE = Some (nStatus b AND BLOCK_FAILED_MASK = 0)"
proof -
  have "BLOCK_VALID_TREE AND NOT BLOCK_VALID_MASK = 0" by (simp add: status_defs)
  then show "tree_valid b \<Longrightarrow> ?thesis" by (simp add: IsValid_def tree_valid_def)
qed

lemma ReceivedBlockTransactions_unfold:
  assumes "block_index s p = Some b"
    "RaiseValidity (b\<lparr>nTx := count, nChainTx := 0, nFile := pos_nFile pos, nDataPos := pos_nPos pos, nUndoPos := 0,
       nStatus := (if w then (nStatus b OR BLOCK_HAVE_DATA) OR BLOCK_OPT_WITNESS else nStatus b OR BLOCK_HAVE_DATA)\<rparr>)
       BLOCK_VALID_TRANSACTIONS = Some (b', c)"
    and s1: "s1 = s\<lparr>block_index := (block_index s)(p \<mapsto> b'), setDirtyBlockIndex := set_insert p (setDirtyBlockIndex s)\<rparr>"
  shows "ReceivedBlockTransactions count w pos p s =
    (case pprev b' of
       None \<Rightarrow> receive_queue [p] s1
     | Some q \<Rightarrow>
         (case block_index s1 q of
            None \<Rightarrow> None
          | Some prev \<Rightarrow>
              if nChainTx prev \<noteq> 0 then receive_queue [p] s1
              else map_option (\<lambda>valid. if valid then s1\<lparr>mapBlocksUnlinked := mapBlocksUnlinked s1 @ [(Some q, p)]\<rparr> else s1)
                     (IsValid prev BLOCK_VALID_TREE)))"
  unfolding ReceivedBlockTransactions_def Let_def s1 assms(1) option.case assms(2) prod.case ..

lemma ReceivedBlockTransactions_total:
  assumes inv: "node_inv judge t s" and b: "block_index s p = Some b" "\<not> have_data b"
    and count: "count \<noteq> 0" and room: "tx_total (block_index s) + unat count < 2 ^ 32"
  shows "\<exists>s'. ReceivedBlockTransactions count w pos p s = Some s' \<and> node_inv judge t s' \<and> mapBlockIndex s' = mapBlockIndex s"
proof -
  let ?m = "block_index s"
  note ch = node_chain [OF inv] and wf = inv_wf [OF node_chain [OF inv]]
  have tv: "tree_valid e" if "?m x = Some e" for x e using node_intake [OF inv] that unfolding intake_inv_def entries_ok_def by blast
  obtain b' c where b': "RaiseValidity (b\<lparr>nTx := count, nChainTx := 0, nFile := pos_nFile pos, nDataPos := pos_nPos pos, nUndoPos := 0,
       nStatus := (if w then (nStatus b OR BLOCK_HAVE_DATA) OR BLOCK_OPT_WITNESS else nStatus b OR BLOCK_HAVE_DATA)\<rparr>)
       BLOCK_VALID_TRANSACTIONS = Some (b', c)"
    "links b' = links b" "ChainTrust b' = ChainTrust b" "nTx b' = count" "nChainTx b' = 0" "have_data b'"
    "tree_valid b'" "nStatus b' AND BLOCK_FAILED_MASK = nStatus b AND BLOCK_FAILED_MASK"
    using received_entry [where b = b and count = count and f = "pos_nFile pos" and d = "pos_nPos pos" and w = w] tv [OF b(1)] by metis
  define s1 where "s1 = s\<lparr>block_index := ?m(p \<mapsto> b'), setDirtyBlockIndex := set_insert p (setDirtyBlockIndex s)\<rparr>"
  note unf = ReceivedBlockTransactions_unfold [OF b(1) b'(1) s1_def]
  have s1: "block_index s1 = ?m(p \<mapsto> b')" "chainActive s1 = chainActive s" "setBlockIndexCandidates s1 = setBlockIndexCandidates s"
    "mapBlocksUnlinked s1 = mapBlocksUnlinked s" "mapBlockIndex s1 = mapBlockIndex s" by (simp_all add: s1_def)
  have "tx_total ?m + unat (nTx b') < 2 ^ 32" "nTx b' \<noteq> 0" using room count b'(4) by auto
  from received_state [OF ch node_cands [OF inv] node_intake [OF inv] b this(1) b'(2,3) this(2) b'(5-8) s1(1-4)]
  have r: "chain_inv judge t s1" "candidates_from judge t s1" "entries_ok [p] s1" "unlinked_ok s1"
    "distinct ([p] @ map snd (mapBlocksUnlinked s1))" "tx_total (block_index s1) < 2 ^ 32" by blast+
  have p1: "block_index s1 p = Some b'" by (simp add: s1)
  have te: "tree_eq ?m (block_index s1)" using b(1) b'(2) by (simp add: tree_eq_def s1)
  have queue: "\<exists>s'. receive_queue [p] s1 = Some s' \<and> node_inv judge t s' \<and> mapBlockIndex s' = mapBlockIndex s"
    if q: "\<And>r. pprev b' = Some r \<Longrightarrow> \<exists>br. block_index s1 r = Some br \<and> nChainTx br \<noteq> 0"
  proof -
    obtain s' where s': "receive_queue [p] s1 = Some s'" "chain_inv judge t s'" "candidates_from judge t s'" "intake_inv [] s'"
        "tree_eq (block_index s1) (block_index s')" "mapBlockIndex s' = mapBlockIndex s1"
      using receive_queue_total [OF r(1,2) received_queue_inv [OF r(3-6) p1 b'(6,5) q]] by blast
    then show ?thesis using node_map [OF inv] s1(5) tree_eq_None [OF te] tree_eq_None [OF s'(5)] by (fastforce simp: node_inv_def)
  qed
  show ?thesis
  proof (cases "pprev b'")
    case None
    then have "ReceivedBlockTransactions count w pos p s = receive_queue [p] s1" using unf by simp
    then show ?thesis using queue None by simp
  next
    case (Some q)
    have wf1: "wf_store (block_index s1)" using tree_eq_wf [OF te wf] .
    obtain bq where bq: "block_index s1 q = Some bq" using prev_entry [OF wf1 p1 Some] .
    then have eq: "ReceivedBlockTransactions count w pos p s =
      (if nChainTx bq \<noteq> 0 then receive_queue [p] s1
       else map_option (\<lambda>valid. if valid then s1\<lparr>mapBlocksUnlinked := mapBlocksUnlinked s1 @ [(Some q, p)]\<rparr> else s1) (IsValid bq BLOCK_VALID_TREE))"
      using unf Some by simp
    show ?thesis
    proof (cases "nChainTx bq = 0")
      case False
      then show ?thesis using queue Some bq eq by simp
    next
      case True
      define v where "v \<longleftrightarrow> nStatus bq AND BLOCK_FAILED_MASK = 0"
      have "tree_valid bq" using r(3) bq unfolding entries_ok_def by blast
      then have v: "IsValid bq BLOCK_VALID_TREE = Some v" by (simp add: IsValid_tree v_def)
      define s2 where "s2 = (if v then s1\<lparr>mapBlocksUnlinked := mapBlocksUnlinked s1 @ [(Some q, p)]\<rparr> else s1)"
      have "q \<in> anc (block_index s1) p" using anc_prev [OF wf1 p1] Some anc_self [OF wf1 bq] by simp
      then have "\<not> v \<Longrightarrow> failed_on (block_index s1) p" using bq by (auto simp: failed_on_def v_def)
      then have "intake_inv [] s2" using received_waits [OF r(3-6) p1 b'(6,5) Some bq True s2_def] by blast
      moreover have "chain_inv judge t s2 \<and> candidates_from judge t s2" using r(1,2) by (simp add: s2_def chain_inv_def candidates_from_def)
      moreover have "ReceivedBlockTransactions count w pos p s = Some s2" using eq True v by (simp add: s2_def)
      moreover have "mapBlockIndex s2 = mapBlockIndex s" "block_index s2 = block_index s1" using s1(5) by (simp_all add: s2_def)
      ultimately show ?thesis using node_map [OF inv] tree_eq_None [OF te] by (fastforce simp: node_inv_def)
    qed
  qed
qed

section \<open>A new header\<close>

text \<open>A new entry on top of a known one, without data.\<close>

definition extends :: "block_store \<Rightarrow> ptr \<Rightarrow> CBlockIndex \<Rightarrow> ptr \<Rightarrow> bool" where
  "extends m p bi q \<longleftrightarrow>
     m p = None \<and> wf_entry m bi \<and> pprev bi = Some q \<and> length (ChainTrust bi) = 8 \<and>
     work m q < limbs_val (ChainTrust bi) \<and> nChainTx bi = 0 \<and> nTx bi = 0 \<and> \<not> have_data bi \<and> tree_valid bi"

lemma extend_chain_of:
  assumes "wf_store m" and "m p = None" and x: "m x = Some b"
  shows "chain_of (m(p \<mapsto> bi)) x = chain_of m x"
proof -
  have h: "0 \<le> nHeight b" using wf_height wf_storeD assms(1) x by blast
  have "nth_prev (m(p \<mapsto> bi)) k x = nth_prev m k x" if k: "k \<le> nat (nHeight b)" for k
  proof -
    have "int k \<le> nHeight b" using k h by linarith
    then obtain r where "nth_prev m k x = Some r" using nth_prev_exists [OF assms(1) x, of k] by auto
    then show ?thesis using nth_prev_upd [of m p, OF assms(2)] by simp
  qed
  moreover have "x \<noteq> p" using assms(2) x by auto
  ultimately show ?thesis using x by (simp add: chain_of_def chain_path_def)
qed

lemma extend_anc: "wf_store m \<Longrightarrow> m p = None \<Longrightarrow> m x = Some b \<Longrightarrow> anc (m(p \<mapsto> bi)) x = anc m x"
  by (simp add: anc_def extend_chain_of)

lemma extend_entry:
  assumes "wf_store m" and "m p = None" and "m x = Some b" and "q \<in> anc m x"
  shows "(m(p \<mapsto> bi)) q = m q"
  using anc_sub_dom [OF assms(1,3)] assms(2,4) by auto

lemma extend_tree_inv:
  assumes e: "extends m p bi q" and tree: "tree_inv m"
  shows "tree_inv (m(p \<mapsto> bi))"
proof -
  let ?m = "m(p \<mapsto> bi)"
  note wf = tree_wf [OF tree]
  have p: "m p = None" and pr: "pprev bi = Some q" using e by (auto simp: extends_def)
  have "wf_store ?m" using wf_store_insert [OF wf p] e by (simp add: extends_def)
  moreover have "finite (dom ?m)" using tree_finite [OF tree] by simp
  moreover have "x = y" if "?m x = Some a" "?m y = Some c" "pprev a = None" "pprev c = None" for x y a c
    using that pr tree_root [OF tree] by (auto split: if_splits)
  moreover have "length (ChainTrust a) = 8" if "?m x = Some a" for x a
    using that e tree_trust [OF tree] by (auto simp: extends_def split: if_splits)
  moreover have "limbs_val (ChainTrust c) < limbs_val (ChainTrust a) \<and> (nChainTx a \<noteq> 0 \<longrightarrow> nChainTx c \<noteq> 0)"
    if x: "?m x = Some a" "pprev a = Some y" "?m y = Some c" for x y a c
  proof (cases "x = p")
    case True
    obtain d where "m q = Some d" using e by (auto simp: extends_def wf_entry_def)
    then show ?thesis using True x e p by (auto simp: extends_def work_def split: if_splits)
  next
    case False
    then have a: "m x = Some a" using x(1) by simp
    obtain d where d: "m y = Some d" using prev_entry [OF wf a x(2)] .
    then have "d = c" using x(3) p by (auto split: if_splits)
    then show ?thesis using tree_work [OF tree a x(2) d] tree_ChainTx [OF tree a x(2) d] a d by (simp add: work_def)
  qed
  ultimately show ?thesis unfolding tree_inv_def by blast
qed

lemma extend_good:
  assumes e: "extends m p bi q" and tree: "tree_inv m"
  shows "good judge (m(p \<mapsto> bi)) x = good judge m x"
proof (cases "m x")
  case None
  have "\<not> good judge (m(p \<mapsto> bi)) p"
    using anc_self [OF tree_wf [OF extend_tree_inv [OF e tree]], of p bi] e
    by (force simp: good_def clean_path_def clean_entry_def extends_def)
  then show ?thesis using None by (cases "x = p") (auto simp: good_def)
next
  case (Some b)
  have p: "m p = None" using e by (simp add: extends_def)
  note an = extend_anc [OF tree_wf [OF tree] p Some] and en = extend_entry [OF tree_wf [OF tree] p Some]
  have "x \<noteq> p" using p Some by auto
  then show ?thesis unfolding good_def clean_path_def an using en Some by simp
qed

lemma extend_counts:
  assumes wf: "wf_store m" and e: "extends m p bi q" and f: "finite (dom m)"
  shows "m x = Some b \<Longrightarrow> path_tx (m(p \<mapsto> bi)) x = path_tx m x" "tx_total (m(p \<mapsto> bi)) = tx_total m"
    "m x = Some b \<Longrightarrow> failed_on (m(p \<mapsto> bi)) x = failed_on m x"
proof -
  have p: "m p = None" and tx: "nTx bi = 0" using e by (auto simp: extends_def)
  then have "tx_of (m(p \<mapsto> bi)) = tx_of m" by (auto simp: tx_of_def)
  then show "path_tx (m(p \<mapsto> bi)) x = path_tx m x" if "m x = Some b" using extend_anc [OF wf p that] by (simp add: path_tx_def)
  have "p \<notin> dom m" using p by auto
  then show "tx_total (m(p \<mapsto> bi)) = tx_total m"
    using \<open>tx_of (m(p \<mapsto> bi)) = tx_of m\<close> f p by (simp add: tx_total_def tx_of_def)
  show "failed_on (m(p \<mapsto> bi)) x = failed_on m x" if "m x = Some b"
    unfolding failed_on_def extend_anc [OF wf p that] using extend_entry [OF wf p that] by (metis (no_types, lifting))
qed

lemma extend_intake:
  assumes wf: "wf_store (block_index s)" and e: "extends (block_index s) p bi q" and f: "finite (dom (block_index s))" and ii: "intake_inv [] s"
    and s': "block_index s' = (block_index s)(p \<mapsto> bi)" "mapBlocksUnlinked s' = mapBlocksUnlinked s"
  shows "intake_inv [] s'"
proof -
  have p: "block_index s p = None" using e by (simp add: extends_def)
  have eo: "entries_ok [] s" and uo: "unlinked_ok s" using ii by (auto simp: intake_inv_def)
  have "entries_ok [] s'"
    unfolding entries_ok_def s'(2)
  proof (intro allI impI)
    fix x c assume x: "block_index s' x = Some c"
    show "tree_valid c \<and> (have_data c \<longrightarrow> nTx c \<noteq> 0) \<and> (nChainTx c \<noteq> 0 \<longrightarrow> have_data c \<and> unat (nChainTx c) = path_tx (block_index s') x) \<and>
      (have_data c \<and> nChainTx c = 0 \<longrightarrow> x \<in> set [] \<or> (pprev c, x) \<in> set (mapBlocksUnlinked s) \<or> failed_on (block_index s') x)"
    proof (cases "x = p")
      case True
      then show ?thesis using x s'(1) e by (simp add: extends_def)
    next
      case False
      then have c: "block_index s x = Some c" using x s'(1) by simp
      show ?thesis
        using eo [unfolded entries_ok_def, rule_format, OF c] extend_counts(1,3) [OF wf e f c] s'(1) by simp
    qed
  qed
  moreover have "unlinked_ok s'"
    unfolding unlinked_ok_def s'
  proof (intro allI impI)
    fix u x assume "(u, x) \<in> set (mapBlocksUnlinked s)"
    from uo [unfolded unlinked_ok_def, rule_format, OF this] p
    show "\<exists>b r br. ((block_index s)(p \<mapsto> bi)) x = Some b \<and> have_data b \<and> nChainTx b = 0 \<and> u = Some r \<and> pprev b = Some r \<and>
      ((block_index s)(p \<mapsto> bi)) r = Some br \<and> nChainTx br = 0" by fastforce
  qed
  ultimately show ?thesis using ii s' extend_counts(2) [OF wf e f] by (simp add: intake_inv_def queue_ok_def)
qed

lemma extend_state:
  assumes e: "extends (block_index s) p bi q" and inv: "node_inv judge t s"
    and s': "block_index s' = (block_index s)(p \<mapsto> bi)" "mapBlocksUnlinked s' = mapBlocksUnlinked s" "chainActive s' = chainActive s"
      "setBlockIndexCandidates s' = setBlockIndexCandidates s" "mapBlockIndex s' = (h, p) # mapBlockIndex s"
  shows "node_inv judge t s'"
proof -
  let ?m = "block_index s"
  note ch = node_chain [OF inv] and tree = inv_tree [OF node_chain [OF inv]]
  note wf = tree_wf [OF tree]
  have p: "?m p = None" using e by (simp add: extends_def)
  obtain bt where bt: "?m t = Some bt" using inv_entry [OF ch] ..
  have "\<exists>b. block_index s' x = Some b \<and> nChainTx b \<noteq> 0" if "x \<in> set (setBlockIndexCandidates s)" for x
    using inv_cands [OF ch that] p s'(1) by auto
  then have ch': "chain_inv judge t s'"
    using extend_tree_inv [OF e tree] inv_active [OF ch] inv_good [OF ch] extend_good [OF e tree] extend_chain_of [OF wf p bt] s'
    by (simp add: chain_inv_def)
  have "candidates_from judge t s'"
    unfolding candidates_from_def
  proof (intro conjI allI impI)
    show "good judge (block_index s') t" using inv_good [OF ch'] .
    fix b assume "good judge (block_index s') b \<and> \<not> CBlockIndexWorkComparator (block_index s') b t"
    then have g: "good judge (block_index s') b" and nl: "\<not> CBlockIndexWorkComparator (block_index s') b t" by simp_all
    have gb: "good judge ?m b" using g extend_good [OF e tree] s'(1) by simp
    then have "b \<noteq> p" "t \<noteq> p" using p bt good_entry [of judge ?m b] by auto
    then have "\<not> CBlockIndexWorkComparator ?m b t" using nl touch_comparator s'(1) by simp
    then show "b \<in> set (setBlockIndexCandidates s')" using node_cands [OF inv] gb s'(4) by (simp add: candidates_from_def)
  qed
  moreover have "intake_inv [] s'" using extend_intake [OF wf e tree_finite [OF tree] node_intake [OF inv] s'(1,2)] .
  moreover have "block_index s' x \<noteq> None" if "map_of (mapBlockIndex s') k = Some x" for k x
    using that node_map [OF inv] s'(1,5) by (auto split: if_splits)
  ultimately show ?thesis using ch' by (simp add: node_inv_def)
qed

text \<open>The work a header adds, by its compact target.\<close>

definition header_work :: "BlockHeader \<Rightarrow> nat" where
  "header_work h = (let t = compact_value (bh_nBits h)
     in if bit (bh_nBits h) 23 \<or> t = 0 \<or> 2 ^ 256 \<le> t then 0 else 2 ^ 256 div (t + 1))"

lemma header_work_pos:
  assumes "CheckProofOfWork hash (bh_nBits h) params"
  shows "0 < header_work h"
proof -
  obtain t n v where s: "SetCompact (bh_nBits h) = (t, n, v)" by (metis prod_cases3)
  let ?c = "compact_value (bh_nBits h)"
  have len: "length t = WIDTH256" using SetCompact_length [of "bh_nBits h"] s by simp
  have val: "limbs_val t = ?c mod 2 ^ 256" using SetCompact_val [of "bh_nBits h"] s by simp
  have acc: "\<not> n" "\<not> EqualTo t 0" "\<not> v" using assms s by (auto simp: CheckProofOfWork_def split: if_splits)
  have "limbs_val t \<noteq> 0" using acc(2) EqualTo_zero [of t] len by (simp add: WIDTH256_def)
  then have c0: "?c \<noteq> 0" using val by auto
  moreover have lt: "\<not> 2 ^ 256 \<le> ?c" using acc(3) SetCompact_overflow [of "bh_nBits h"] s by simp
  moreover have "\<not> bit (bh_nBits h) 23" using acc(1) SetCompact_negative [of "bh_nBits h"] s c0 by simp
  moreover have "0 < 2 ^ 256 div (?c + 1)" using lt by (subst div_greater_zero_iff) linarith
  ultimately show ?thesis unfolding header_work_def Let_def by (simp only: if_False simp_thms)
qed

lemma wf_entry_links: "links b' = links b \<Longrightarrow> wf_entry m b \<Longrightarrow> wf_entry m b'"
  unfolding wf_entry_def links_def by (cases "pprev b") auto

lemma link_prev_wf:
  assumes "wf_store m" and "m q = Some prev"
  obtains sk where "link_prev m (Some q) b = Some (b\<lparr>pprev := Some q, nHeight := nHeight prev + 1, pskip := Some sk\<rparr>)"
    "wf_entry m (b\<lparr>pprev := Some q, nHeight := nHeight prev + 1, pskip := Some sk\<rparr>)"
proof -
  let ?b = "b\<lparr>pprev := Some q, nHeight := nHeight prev + 1\<rparr>"
  obtain sk where "BuildSkip m ?b = Some (?b\<lparr>pskip := Some sk\<rparr>) \<and> wf_entry m (?b\<lparr>pskip := Some sk\<rparr>)"
    using BuildSkip_wf [OF assms, of ?b] by auto
  then show thesis using that [of sk] assms(2) by (simp add: link_prev_def)
qed

lemma accumulate_work:
  assumes q: "m q = Some prev" "length (ChainTrust prev) = 8" and b: "pprev b = Some q" "bi_nBits b = bh_nBits h"
    and room: "limbs_val (ChainTrust prev) + header_work h < 2 ^ 256"
  obtains w where "accumulate m b = Some (b\<lparr>nTimeMax := max (nTimeMax prev) (bi_nTime b), ChainTrust := w\<rparr>)"
    "length w = 8" "limbs_val w = limbs_val (ChainTrust prev) + header_work h"
proof -
  obtain x where x: "GetBlockProof b = Some x" "length x = WIDTH256" "limbs_val x = header_work h"
    using GetBlockProof_val [of b] b(2) unfolding header_work_def by metis
  let ?w = "base_uint_add (ChainTrust prev) x"
  have l: "length (ChainTrust prev) = length x" using q(2) x(2) by (simp add: WIDTH256_def)
  have "limbs_val ?w = (limbs_val (ChainTrust prev) + header_work h) mod 2 ^ 256"
    using base_uint_add_val [OF l] x(3) l x(2) by (simp only: LB_WIDTH256)
  then have "limbs_val ?w = limbs_val (ChainTrust prev) + header_work h" using mod_less [OF room] by (simp only:)
  moreover have "length ?w = 8" using l q(2) by simp
  ultimately show thesis using that [of ?w] x(1) b(1) q(1) by (simp add: accumulate_def)
qed

lemma AddToBlockIndex_new:
  assumes inv: "node_inv judge t s" and fresh: "block_index s p = None"
    and new: "map_of (mapBlockIndex s) (BlockHeader_GetHash h) = None"
    and prev: "map_of (mapBlockIndex s) (hashPrevBlock h) = Some q"
    and pos: "0 < header_work h" and room: "work (block_index s) q + header_work h < 2 ^ 256"
  shows "\<exists>s' bi. AddToBlockIndex p s h = Some (p, s') \<and> node_inv judge t s' \<and> mapBlockIndex s' = (BlockHeader_GetHash h, p) # mapBlockIndex s \<and>
    block_index s' = (block_index s)(p \<mapsto> bi) \<and> extends (block_index s) p bi q"
proof -
  let ?m = "block_index s"
  note tree = inv_tree [OF node_chain [OF inv]]
  note wf = tree_wf [OF tree]
  obtain bq where q: "?m q = Some bq" using node_map [OF inv prev] ..
  have "hashPrevBlock h \<noteq> BlockHeader_GetHash h" using new prev by auto
  then have lk: "map_of ((BlockHeader_GetHash h, p) # mapBlockIndex s) (hashPrevBlock h) = Some q" using prev by simp
  let ?b0 = "(CBlockIndex_of_header h)\<lparr>nSequenceId := 0, phashBlock := Some (BlockHeader_GetHash h)\<rparr>"
  obtain sk where sk: "link_prev ?m (Some q) ?b0 = Some (?b0\<lparr>pprev := Some q, nHeight := nHeight bq + 1, pskip := Some sk\<rparr>)"
      "wf_entry ?m (?b0\<lparr>pprev := Some q, nHeight := nHeight bq + 1, pskip := Some sk\<rparr>)" by (rule link_prev_wf [OF wf q])
  define b1 where "b1 = ?b0\<lparr>pprev := Some q, nHeight := nHeight bq + 1, pskip := Some sk\<rparr>"
  have b1: "pprev b1 = Some q" "bi_nBits b1 = bh_nBits h" by (simp_all add: b1_def CBlockIndex_of_header_def)
  have rm: "limbs_val (ChainTrust bq) + header_work h < 2 ^ 256" using room q by (simp add: work_def)
  obtain w where w: "accumulate ?m b1 = Some (b1\<lparr>nTimeMax := max (nTimeMax bq) (bi_nTime b1), ChainTrust := w\<rparr>)"
      "length w = 8" "limbs_val w = limbs_val (ChainTrust bq) + header_work h"
    by (rule accumulate_work [of ?m q bq b1 h, OF q tree_trust [OF tree q] b1 rm])
  define b2 where "b2 = b1\<lparr>nTimeMax := max (nTimeMax bq) (bi_nTime b1), ChainTrust := w\<rparr>"
  have s0: "nStatus b2 = 0" by (simp add: b2_def b1_def CBlockIndex_of_header_def CBlockIndex_null_def)
  obtain st c where st: "RaiseValidity b2 BLOCK_VALID_TREE = Some (b2\<lparr>nStatus := st\<rparr>, c)" "st AND BLOCK_HAVE_DATA = nStatus b2 AND BLOCK_HAVE_DATA"
      "st AND BLOCK_VALID_MASK = (if nStatus b2 AND BLOCK_FAILED_MASK = 0 \<and> nStatus b2 AND BLOCK_VALID_MASK < BLOCK_VALID_TREE
         then BLOCK_VALID_TREE else nStatus b2 AND BLOCK_VALID_MASK)"
    by (rule RaiseValidity_status [of BLOCK_VALID_TREE b2]) (simp_all add: status_defs)
  let ?bi = "b2\<lparr>nStatus := st\<rparr>"
  have "st AND BLOCK_VALID_MASK = BLOCK_VALID_TREE" using st(3) s0 by (simp add: BLOCK_VALID_TREE_def)
  moreover have "wf_entry ?m ?bi" using wf_entry_links [OF _ sk(2), of ?bi] by (simp add: links_def b2_def b1_def)
  ultimately have ext: "extends ?m p ?bi q"
    using fresh w(2,3) pos q st(2) s0
    by (auto simp: extends_def b2_def b1_def CBlockIndex_of_header_def CBlockIndex_null_def work_def have_data_def tree_valid_def)
  define s' where "s' = s\<lparr>block_index := ?m(p \<mapsto> ?bi), mapBlockIndex := (BlockHeader_GetHash h, p) # mapBlockIndex s,
    pindexBestHeader := (if beats ?m ?bi (pindexBestHeader s) then Some p else pindexBestHeader s),
    setDirtyBlockIndex := set_insert p (setDirtyBlockIndex s)\<rparr>"
  have "AddToBlockIndex p s h = Some (p, s')"
    unfolding AddToBlockIndex_def Let_def new option.case lk sk(1) b1_def [symmetric] w(1) b2_def [symmetric] st(1) prod.case s'_def ..
  moreover have "node_inv judge t s'" by (rule extend_state [OF ext inv]) (simp_all add: s'_def)
  ultimately show ?thesis using ext by (intro exI [of _ s'] exI [of _ ?bi]) (simp add: s'_def)
qed

end
