(* ===== verification/BlockTree_Props.thy ===== *)
theory BlockTree_Props
  imports BlockTree_Intake
begin

text \<open>
  The node as a whole: accepting headers and blocks, the states that can be reached from the genesis
  block, and that the active chain is always a best one; invalidating a block, and what happens when
  data may be corrupted.
\<close>

section \<open>Accepting a header\<close>

lemma pruned_node:
  assumes p: "pruned judge s s'" and inv: "node_inv judge t s"
  shows "node_inv judge t s'"
proof -
  have r: "relabel judge (block_index s) (block_index s')" and m: "mapBlockIndex s' = mapBlockIndex s"
    using p by (auto simp: pruned_def same_maps_def)
  show ?thesis
    using pruned_inv [OF p node_chain [OF inv]] pruned_candidates [OF p node_chain [OF inv] node_cands [OF inv]]
      evolves_intake [OF pruned_evolves [OF p] node_intake [OF inv]] node_map [OF inv] relabel_None [OF r] m
    by (fastforce simp: node_inv_def)
qed

text \<open>A mark on a block that is not good changes nothing else.\<close>

lemma pruned_mark:
  assumes "block_index s p = Some b" and "\<not> good judge (block_index s) p" and "f AND BLOCK_FAILED_MASK = f"
    and "block_index s' = (block_index s)(p \<mapsto> b\<lparr>nStatus := nStatus b OR f\<rparr>)" "mapBlockIndex s' = mapBlockIndex s"
      "mapBlocksUnlinked s' = mapBlocksUnlinked s" "chainActive s' = chainActive s" "setBlockIndexCandidates s' = setBlockIndexCandidates s"
  shows "pruned judge s s'"
  using relabel_mark [OF assms(1-3)] assms(4-8) by (simp add: pruned_def same_maps_def)

lemma mark_failed_children_pruned:
  "wf_store (block_index s) \<Longrightarrow> block_index s p = Some bp \<Longrightarrow> f \<in> anc (block_index s) p \<Longrightarrow>
   block_index s f = Some bf \<Longrightarrow> \<not> clean_entry bf \<Longrightarrow> \<exists>s'. mark_failed_children f p s = Some s' \<and> pruned judge s s'"
proof (induction "nat (nHeight bp)" arbitrary: p bp bf s rule: less_induct)
  case less
  note wf = less.prems(1)
  have ng: "\<not> good judge (block_index s) p" using not_good_unclean less.prems(3-5) .
  show ?case
  proof (cases "p = f")
    case True
    then show ?thesis using pruned_refl by (subst (1) mark_failed_children.simps) simp
  next
    case False
    then obtain r where r: "pprev bp = Some r" "f \<in> anc (block_index s) r"
      using less.prems(3) anc_prev [OF wf less.prems(2)] by (auto split: option.splits)
    obtain br where br: "block_index s r = Some br" "nHeight bp = nHeight br + 1" "0 \<le> nHeight br"
      using prev_entry [OF wf less.prems(2) r(1)] .
    define s1 where "s1 = s\<lparr>block_index := (block_index s)(p \<mapsto> bp\<lparr>nStatus := nStatus bp OR BLOCK_FAILED_CHILD\<rparr>),
      setDirtyBlockIndex := set_insert p (setDirtyBlockIndex s)\<rparr>"
    have pr: "pruned judge s s1" by (rule pruned_mark [OF less.prems(2) ng failed_flags(2)]) (simp_all add: s1_def)
    then have rl: "relabel judge (block_index s) (block_index s1)" by (simp add: pruned_def)
    have wf1: "wf_store (block_index s1)" using tree_eq_wf [OF relabel_tree_eq [OF rl] wf] .
    obtain br' where br': "block_index s1 r = Some br'" "nHeight br' = nHeight br" using relabel_at [OF rl, of r] br(1) by auto
    obtain b' where b': "block_index s1 f = Some b'" using relabel_at [OF rl, of f] less.prems(4) by auto
    have "\<not> clean_entry b'" using relabel_clean [OF rl b'] less.prems(4,5) by auto
    moreover have "nat (nHeight br') < nat (nHeight bp)" using br br'(2) by simp
    ultimately obtain s' where s': "mark_failed_children f r s1 = Some s'" "pruned judge s1 s'"
      using less.hyps [OF _ wf1 br'(1) _ b'] r(2) relabel_anc [OF rl] by blast
    moreover have "mark_failed_children f p s = mark_failed_children f r s1"
      using False less.prems(2) r(1) by (subst mark_failed_children.simps) (simp add: s1_def)
    ultimately show ?thesis using pruned_trans [OF pr s'(2) wf] by auto
  qed
qed

lemma failed_valid_mask: "a AND BLOCK_FAILED_VALID \<noteq> 0 \<Longrightarrow> a AND BLOCK_FAILED_MASK \<noteq> (0::u32)"
  by (simp add: BLOCK_FAILED_MASK_def bit.conj_disj_distrib or_eq_0_iff)

lemma failed_ancestor_result:
  "wf_store (block_index s) \<Longrightarrow> block_index s q = Some bq \<Longrightarrow> failed_ancestor q fs s = Some (found, s') \<Longrightarrow>
   pruned judge s s' \<and> (\<not> found \<longrightarrow> s' = s)"
proof (induction fs)
  case Nil
  then show ?case using pruned_refl by simp
next
  case (Cons f fs)
  obtain bf a where f: "block_index s f = Some bf" "GetAncestor (block_index s) q (nHeight bf) = Some a"
    using Cons.prems(3) by (auto split: option.splits)
  show ?case
  proof (cases "a = Some f")
    case False
    then show ?thesis using Cons f by simp
  next
    case True
    then have "nth_prev (block_index s) (nat (nHeight bq - nHeight bf)) q = Some f"
      using GetAncestor_nth_prev [OF Cons.prems(1,2)] f(2) by (auto split: if_splits)
    then have an: "f \<in> anc (block_index s) q" by (rule nth_prev_anc [OF Cons.prems(1,2)])
    have fv: "nStatus bf AND BLOCK_FAILED_VALID \<noteq> 0" using Cons.prems(3) f True by (auto split: if_splits)
    then have "\<not> clean_entry bf" using failed_valid_mask by (auto simp: clean_entry_def)
    then obtain s2 where "mark_failed_children f q s = Some s2" "pruned judge s s2"
      using mark_failed_children_pruned [OF Cons.prems(1,2) an f(1)] by blast
    then show ?thesis using Cons.prems(3) f True fv by auto
  qed
qed

lemma check_failed_ancestor_result:
  assumes "wf_store (block_index s)" and "check_failed_ancestor q s = (v, s')" and "v \<noteq> Inl Aborted"
  shows "pruned judge s s' \<and> (v = Inr () \<longrightarrow> s' = s)"
proof -
  obtain bq valid where q: "block_index s q = Some bq" "IsValid bq BLOCK_VALID_SCRIPTS = Some valid"
    using assms(2,3) by (auto simp: check_failed_ancestor_def split: option.splits)
  show ?thesis
  proof (cases valid)
    case True
    then show ?thesis using assms(2) q pruned_refl by (auto simp: check_failed_ancestor_def)
  next
    case False
    then obtain found s2 where r: "failed_ancestor q (sort (g_failed_blocks s)) s = Some (found, s2)"
      using assms(2,3) q by (cases "failed_ancestor q (sort (g_failed_blocks s)) s") (auto simp: check_failed_ancestor_def)
    then show ?thesis
      using assms(2) q False failed_ancestor_result [OF assms(1) q(1) r, of judge]
      by (auto simp: check_failed_ancestor_def DoS_def split: if_splits)
  qed
qed

lemma cbind_result:
  assumes "cbind f g s = (v, s'')"
  obtains (stop) e where "f s = (Inl e, s'')" "v = Inl e" | (go) x s' where "f s = (Inr x, s')" "g x s' = (v, s'')"
  using assms by (cases "f s") (auto simp: cbind_def split: sum.splits)

lemma check_new_header_result:
  assumes wf: "wf_store (block_index s)" and res: "check_new_header cp time h (s, c) = (v, s', c')" and na: "v \<noteq> Inl Aborted"
  shows "pruned judge s s' \<and> (v = Inr () \<longrightarrow> s' = s \<and> CheckProofOfWork (GetPoWHash h) (bh_nBits h) (consensus cp) \<and>
    map_of (mapBlockIndex s) (hashPrevBlock h) \<noteq> None)"
proof -
  have same: "pruned judge s s' \<and> (v = Inr () \<longrightarrow> s' = s \<and> CheckProofOfWork (GetPoWHash h) (bh_nBits h) (consensus cp) \<and>
    map_of (mapBlockIndex s) (hashPrevBlock h) \<noteq> None)" if "s' = s" "\<exists>e. v = Inl e" using that pruned_refl by auto
  from res [unfolded check_new_header_def] show ?thesis
  proof (cases rule: cbind_result)
    case (stop e)
    then show ?thesis using same by (simp add: verdict_def)
  next
    case (go x n)
    then have n: "n = (s, c)" and pow: "CheckProofOfWork (GetPoWHash h) (bh_nBits h) (consensus cp)"
      by (auto simp: verdict_def CheckBlockHeader_def DoS_def split: if_splits)
    show ?thesis
    proof (cases "map_of (mapBlockIndex s) (hashPrevBlock h)")
      case None
      then show ?thesis using same go(2) n by (auto simp: DoS_def)
    next
      case (Some q)
      obtain bq where bq: "block_index s q = Some bq" using go(2) n Some na by (cases "block_index s q") auto
      note g = go(2) [unfolded n fst_conv Some option.case bq]
      from g show ?thesis
      proof (cases rule: cbind_result)
        case (stop e)
        then show ?thesis using same by (simp add: reject_if_def)
      next
        case step: (go x2 n2)
        then have n2: "n2 = (s, c)" by (simp add: reject_if_def)
        from step(2) [unfolded n2] show ?thesis
        proof (cases rule: cbind_result)
          case (stop e)
          then show ?thesis using same by (auto simp: on_caches_def split: prod.splits)
        next
          case last: (go x3 n3)
          then obtain c3 where "n3 = (s, c3)" by (auto simp: on_caches_def split: prod.splits)
          then have "check_failed_ancestor q s = (v, s')" using last(2) by (auto simp: on_chain_def split: prod.splits)
          then show ?thesis using check_failed_ancestor_result [OF wf _ na, of q s' judge] pow Some by simp
        qed
      qed
    qed
  qed
qed

definition genesis_known :: "chain_params \<Rightarrow> CChainState \<Rightarrow> bool" where
  "genesis_known cp s \<longleftrightarrow> map_of (mapBlockIndex s) (hashGenesisBlock cp) \<noteq> None"

text \<open>The address of a new entry is free and the total work fits its type.\<close>

definition header_room :: "CChainState \<Rightarrow> ptr \<Rightarrow> BlockHeader \<Rightarrow> bool" where
  "header_room s fresh h \<longleftrightarrow> block_index s fresh = None \<and>
     (\<forall>q. map_of (mapBlockIndex s) (hashPrevBlock h) = Some q \<longrightarrow> work (block_index s) q + header_work h < 2 ^ 256)"

text \<open>No block became good and no good block lost or gained work.\<close>

definition same_good :: "(ptr \<Rightarrow> connect_verdict) \<Rightarrow> CChainState \<Rightarrow> CChainState \<Rightarrow> bool" where
  "same_good judge s s' \<longleftrightarrow> (\<forall>b. good judge (block_index s') b = good judge (block_index s) b) \<and>
     (\<forall>b. good judge (block_index s) b \<longrightarrow> work (block_index s') b = work (block_index s) b)"

lemma same_good_refl: "same_good judge s s"
  by (simp add: same_good_def)

lemma same_good_trans:
  "same_good judge s s' \<Longrightarrow> same_good judge s' s'' \<Longrightarrow> same_good judge s s''"
  by (simp add: same_good_def)

lemma pruned_same_good:
  assumes "pruned judge s s'" and "wf_store (block_index s)"
  shows "same_good judge s s'"
proof -
  have "relabel judge (block_index s) (block_index s')" using assms(1) by (simp add: pruned_def)
  then show ?thesis using relabel_good [OF _ assms(2)] relabel_work by (simp add: same_good_def)
qed

lemma extend_same_good:
  assumes e: "extends (block_index s) p bi q" and "tree_inv (block_index s)" and m: "block_index s' = (block_index s)(p \<mapsto> bi)"
  shows "same_good judge s s'"
proof -
  have "work (block_index s') b = work (block_index s) b" if "good judge (block_index s) b" for b
  proof -
    have "b \<noteq> p" using e good_entry [OF that] by (auto simp: extends_def)
    then show ?thesis by (simp add: work_def m)
  qed
  then show ?thesis using extend_good [OF assms(1,2)] by (simp add: same_good_def m)
qed

lemma AcceptBlockHeader_result:
  assumes inv: "node_inv judge t s" and gk: "genesis_known cp s" and room: "header_room s fresh h"
    and res: "AcceptBlockHeader cp time fresh h (s, c) = (v, s', c')" and na: "v \<noteq> Inl Aborted"
  shows "node_inv judge t s' \<and> genesis_known cp s' \<and> tx_total (block_index s') = tx_total (block_index s) \<and>
    (\<forall>p. v = Inr p \<longrightarrow> (\<exists>b. block_index s' p = Some b)) \<and> same_good judge s s'"
proof -
  let ?h = "BlockHeader_GetHash h"
  note wf = inv_wf [OF node_chain [OF inv]]
  have known: ?thesis if "s' = s" "\<And>p. v = Inr p \<Longrightarrow> \<exists>b. block_index s p = Some b" using that inv gk same_good_refl by simp
  show ?thesis
  proof (cases "?h = hashGenesisBlock cp \<or> map_of (mapBlockIndex s) ?h \<noteq> None")
    case True
    then obtain p where p: "map_of (mapBlockIndex s) ?h = Some p" using gk by (auto simp: genesis_known_def)
    obtain b where "block_index s p = Some b" using node_map [OF inv p] ..
    then show ?thesis
      using res p known by (auto simp: AcceptBlockHeader_def Let_def on_chain_def add_header_def AddToBlockIndex_def Invalid_def DoS_def split: if_splits)
  next
    case False
    then have new: "map_of (mapBlockIndex s) ?h = None" and ng: "?h \<noteq> hashGenesisBlock cp" by auto
    have "cbind (check_new_header cp time h) (\<lambda>_. on_chain (add_header fresh h)) (s, c) = (v, s', c')"
      using res new ng by (simp add: AcceptBlockHeader_def Let_def)
    then show ?thesis
    proof (cases rule: cbind_result)
      case (stop e)
      have pr: "pruned judge s s'" using check_new_header_result [OF wf stop(1), of judge] na stop(2) by blast
      then have "relabel judge (block_index s) (block_index s')" "mapBlockIndex s' = mapBlockIndex s" by (auto simp: pruned_def same_maps_def)
      then show ?thesis using pruned_node [OF pr inv] gk relabel_counts(2) stop(2) pruned_same_good [OF pr wf] by (simp add: genesis_known_def)
    next
      case (go x n)
      obtain s1 c1 where n: "n = (s1, c1)" by fastforce
      from check_new_header_result [OF wf go(1) [unfolded n], of judge]
      have s1: "s1 = s" "CheckProofOfWork (GetPoWHash h) (bh_nBits h) (consensus cp)" "map_of (mapBlockIndex s) (hashPrevBlock h) \<noteq> None" by auto
      then obtain q where q: "map_of (mapBlockIndex s) (hashPrevBlock h) = Some q" by auto
      from AddToBlockIndex_new [OF inv _ new q header_work_pos [OF s1(2)], of fresh]
      obtain s2 bi where s2: "AddToBlockIndex fresh s h = Some (fresh, s2)" "node_inv judge t s2"
          "mapBlockIndex s2 = (?h, fresh) # mapBlockIndex s" "block_index s2 = (block_index s)(fresh \<mapsto> bi)" "extends (block_index s) fresh bi q"
        using room q by (auto simp: header_room_def)
      have "s' = s2" "v = Inr fresh" using go(2) n s1(1) s2(1) by (auto simp: on_chain_def add_header_def)
      moreover have "tx_total (block_index s2) = tx_total (block_index s)"
        using extend_counts(2) [OF wf s2(5) tree_finite [OF inv_tree [OF node_chain [OF inv]]]] s2(4) by simp
      ultimately show ?thesis using s2 gk extend_same_good [OF s2(5) inv_tree [OF node_chain [OF inv]] s2(4)] by (simp add: genesis_known_def)
    qed
  qed
qed

section \<open>Accepting a block\<close>

lemma mark_rejected_pruned:
  assumes "block_index s p = Some b" and "wf_store (block_index s)" and "\<not> have_data b"
  shows "pruned judge s (mark_rejected p e s)"
proof (cases "\<exists>st. e = Rejected st \<and> \<not> corruptionPossible st")
  case True
  have "\<not> clean_entry b" using assms(3) by (simp add: clean_entry_def have_data_def)
  then have "\<not> good judge (block_index s) p" using not_good_unclean [OF anc_self [OF assms(2,1)] assms(1)] by blast
  then show ?thesis using True assms(1) by (intro pruned_mark [OF assms(1) _ failed_flags(1)]) (auto simp: mark_rejected_def)
next
  case False
  then have "mark_rejected p e s = s" using assms(1) by (cases e) (auto simp: mark_rejected_def)
  then show ?thesis using pruned_refl by simp
qed

lemma check_received_state: "check_received cp block prev (s, c) = (v, s', c') \<Longrightarrow> s' = s"
  unfolding check_received_def by (erule cbind_result) (auto simp: verdict_def on_caches_def split: prod.splits)

lemma AcceptBlock_result:
  assumes inv: "node_inv judge t s" and gk: "genesis_known cp s" and room: "header_room s fresh (header block)"
    and vt: "0 < length (vtx block)" and total: "tx_total (block_index s) + length (vtx block) < 2 ^ 32"
    and res: "AcceptBlock cp time fresh pos req block (s, c) = (v, s', c')" and na: "v \<noteq> Inl Aborted"
  shows "node_inv judge t s' \<and> genesis_known cp s' \<and> ((\<exists>e. v = Inl e) \<longrightarrow> same_good judge s s')"
  using res unfolding AcceptBlock_def
proof (cases rule: cbind_result)
  case (stop e)
  then show ?thesis using AcceptBlockHeader_result [OF inv gk room stop(1)] na by simp
next
  case (go p n)
  obtain s1 c1 where n: "n = (s1, c1)" by fastforce
  from AcceptBlockHeader_result [OF inv gk room go(1) [unfolded n]]
  obtain b where h: "node_inv judge t s1" "genesis_known cp s1" "tx_total (block_index s1) = tx_total (block_index s)" "block_index s1 p = Some b"
      "same_good judge s s1" by auto
  note wf1 = inv_wf [OF node_chain [OF h(1)]]
  note g = go(2) [unfolded n fst_conv h(4) option.case]
  show ?thesis
  proof (cases "unwanted cp s1 b req")
    case True
    then show ?thesis using g h by auto
  next
    case False
    then have nd: "\<not> have_data b" by (auto simp: unwanted_def have_data_def Let_def)
    obtain v2 s2 c2 where cr: "check_received cp block (pprev b) (s1, c1) = (v2, s2, c2)" by (metis prod_cases3)
    have s2: "s2 = s1" using check_received_state [OF cr] .
    show ?thesis
    proof (cases v2)
      case (Inl e)
      have pr: "pruned judge s1 (mark_rejected p e s1)" by (rule mark_rejected_pruned [OF h(4) wf1 nd])
      moreover have "s' = mark_rejected p e s1" using g cr Inl False s2 by simp
      ultimately show ?thesis
        using pruned_node [OF pr h(1)] h(2) same_good_trans [OF h(5) pruned_same_good [OF pr wf1]]
        by (auto simp: pruned_def same_maps_def genesis_known_def)
    next
      case (Inr u)
      have "\<not> CDiskBlockPos_IsNull pos" using g cr Inr False na by (auto split: if_splits)
      then have "cbind (on_caches (\<lambda>s. IsWitnessEnabled (block_index s) (pprev b) (consensus cp))) (\<lambda>fWitness.
          on_chain (\<lambda>s. case ReceivedBlockTransactions (of_nat (length (vtx block))) fWitness pos p s of
            None \<Rightarrow> (Inl Aborted, s) | Some s \<Rightarrow> (Inr p, s))) (s1, c2) = (v, s', c')" using g cr Inr False s2 by simp
      then show ?thesis
      proof (cases rule: cbind_result)
        case (stop e)
        then show ?thesis using h(1,2,5) by (auto simp: on_caches_def split: prod.splits)
      next
        case fin: (go w n2)
        then obtain c3 where n2: "n2 = (s1, c3)" by (auto simp: on_caches_def split: prod.splits)
        have lt: "length (vtx block) < 2 ^ 32" using total by linarith
        then have "unat (of_nat (length (vtx block)) :: u32) = length (vtx block)" by (simp add: unat_of_nat)
        then obtain s3 where s3: "ReceivedBlockTransactions (of_nat (length (vtx block))) w pos p s1 = Some s3" "node_inv judge t s3"
            "mapBlockIndex s3 = mapBlockIndex s1"
          using ReceivedBlockTransactions_total [OF h(1,4) nd, of "of_nat (length (vtx block))" w pos] vt total h(3)
          by (metis less_numeral_extra(3) unat_0)
        then have "s' = s3" using fin(2) n2 by (simp add: on_chain_def)
        moreover have "v = Inr p" using fin(2) n2 s3(1) by (simp add: on_chain_def)
        ultimately show ?thesis using s3 h(2) by (simp add: genesis_known_def)
      qed
    qed
  qed
qed

section \<open>The genesis block\<close>

text \<open>A store with a single complete block.\<close>

definition single :: "CBlockIndex \<Rightarrow> bool" where
  "single b \<longleftrightarrow> pprev b = None \<and> pskip b = None \<and> nHeight b = 0 \<and> length (ChainTrust b) = 8 \<and> nChainTx b = nTx b \<and> clean_entry b \<and> tree_valid b"

lemma single_anc: "single b \<Longrightarrow> anc [g \<mapsto> b] g = {g}"
  by (auto simp: single_def anc_def chain_of_def chain_path_def)

lemma single_chain_of: "single b \<Longrightarrow> chain_of [g \<mapsto> b] g = [Some g]"
  by (simp add: single_def chain_of_def chain_path_def)

lemma single_tree: "single b \<Longrightarrow> tree_inv [g \<mapsto> b]"
  by (auto simp: single_def tree_inv_def wf_store_def wf_entry_def split: if_splits)

lemma single_good: "single b \<Longrightarrow> judge g = BlockAccepted \<Longrightarrow> good judge [g \<mapsto> b] g"
  by (simp add: good_def clean_path_def single_anc) (simp add: single_def)

lemma single_node:
  assumes b: "single b" and j: "judge g = BlockAccepted"
    and s: "block_index s = [g \<mapsto> b]" "chainActive s = [Some g]" "setBlockIndexCandidates s = [g]" "mapBlocksUnlinked s = []" "mapBlockIndex s = [(h, g)]"
  shows "node_inv judge g s"
proof -
  have cl: "clean_entry b" using b by (simp add: single_def)
  have ch: "chain_inv judge g s"
    using single_tree [OF b] single_good [of b judge g, OF b j] single_chain_of [OF b] cl by (simp add: chain_inv_def s clean_entry_def)
  have cf: "candidates_from judge g s"
    using single_good [of b judge g, OF b j] by (auto simp: candidates_from_def s good_def split: if_splits)
  have "path_tx [g \<mapsto> b] g = unat (nTx b)" by (simp add: path_tx_def single_anc [OF b] tx_of_def)
  moreover have lt: "unat (nTx b) < 4294967296" by (rule order_less_le_trans [OF unsigned_less]) simp
  ultimately have "intake_inv [] s"
    using b cl lt by (auto simp: intake_inv_def entries_ok_def unlinked_ok_def queue_ok_def s single_def clean_entry_def have_data_def
      tx_total_def tx_of_def split: if_splits)
  then show ?thesis using ch cf by (auto simp: node_inv_def s split: if_splits)
qed

text \<open>The first activation connects the genesis block.\<close>

lemma ActivateBestChain_single:
  assumes b: "single b" and j: "judge g = BlockAccepted"
    and s: "block_index s = [g \<mapsto> b]" "chainActive s = []" "setBlockIndexCandidates s = [g]"
  shows "ActivateBestChain judge undoable s = Some (True, s\<lparr>chainActive := [Some g], setBlockIndexCandidates := [g]\<rparr>)"
proof -
  note tree = single_tree [OF b, of g]
  note wf = tree_wf [OF tree]
  have bb: "pprev b = None" "nHeight b = 0" "nChainTx b \<noteq> 0" "nStatus b AND BLOCK_FAILED_MASK = 0" "nStatus b AND BLOCK_HAVE_DATA \<noteq> 0"
    using b by (auto simp: single_def clean_entry_def)
  have m: "block_index s g = Some b" by (simp add: s)
  have "scan_path (block_index s) [] (Some g) = Some None"
    using bb m by (subst scan_path.simps, simp add: Contains_def chain_at_def Let_def) (subst scan_path.simps, simp)
  then have f: "FindMostWorkChain s = Some (Some g, s)"
    by (subst FindMostWorkChain.simps) (simp add: s(2,3))
  have fork: "FindFork (block_index s) [] (Some g) = Some None"
    using bb m by (simp add: FindFork_def Height_def GetAncestor_def)
  have dis: "disconnect_to undoable None s = Some (True, s)" by (subst disconnect_to.simps) (simp add: s(2) Tip_def)
  let ?s1 = "s\<lparr>chainActive := [Some g]\<rparr>" and ?s2 = "s\<lparr>chainActive := [Some g], setBlockIndexCandidates := [g]\<rparr>"
  have "SetTip (block_index s) [] (Some g) = Some [Some g]"
    using SetTip_path [OF wf, of "[]" g b] bb(2) by (simp add: s(1) chain_ok_def chain_path_def)
  then have ct: "ConnectTip judge s g = Some (BlockAccepted, ?s1)"
    using m bb(1) j by (simp add: ConnectTip_def s(2) Tip_def)
  have pr: "PruneBlockIndexCandidates ?s1 = Some ?s2"
    using comparator_irrefl [OF tree, of g b] by (simp add: PruneBlockIndexCandidates_def Tip_def s(1,3))
  have ga: "GetAncestor (block_index s) g 0 = Some (Some g)"
    using GetAncestor_nth_prev [OF wf, of g b 0] bb(2) by (simp add: s(1))
  have tc: "to_connect (block_index s) (- 1) (Some g) [] = Some [g]"
    using m bb by (subst to_connect.simps, simp) (subst to_connect.simps, simp)
  have cb: "connect_batches judge g 0 None (- 1) s = Some (BatchBetter, ?s2)"
    using ga tc ct pr m by (subst connect_batches.simps) (simp add: Let_def beats_def)
  have st: "ActivateBestChainStep judge undoable s g = Some (True, False, ?s2)"
    using m fork dis cb bb(2) by (simp add: ActivateBestChainStep_def s(2) Tip_def)
  show ?thesis
    unfolding ActivateBestChain_def by (subst activate_loop.simps) (simp add: f st s(2) Tip_def Let_def)
qed

lemma AddToBlockIndex_genesis:
  assumes ne: "hashPrevBlock h \<noteq> BlockHeader_GetHash h"
  shows "\<exists>s bi. AddToBlockIndex g CChainState_null h = Some (g, s) \<and> block_index s = [g \<mapsto> bi] \<and> chainActive s = [] \<and>
    setBlockIndexCandidates s = [] \<and> mapBlocksUnlinked s = [] \<and> mapBlockIndex s = [(BlockHeader_GetHash h, g)] \<and>
    links bi = (None, None, 0) \<and> length (ChainTrust bi) = 8 \<and> nChainTx bi = 0 \<and> tree_valid bi \<and> nStatus bi AND BLOCK_FAILED_MASK = 0"
proof -
  let ?b0 = "(CBlockIndex_of_header h)\<lparr>nSequenceId := 0, phashBlock := Some (BlockHeader_GetHash h)\<rparr>"
  have lk: "map_of [(BlockHeader_GetHash h, g)] (hashPrevBlock h) = None" using ne by simp
  obtain x where x: "GetBlockProof ?b0 = Some x" "length x = WIDTH256" using GetBlockProof_val [of ?b0] by blast
  define b2 where "b2 = ?b0\<lparr>nTimeMax := bi_nTime ?b0, ChainTrust := base_uint_add (base_uint_zero WIDTH256) x\<rparr>"
  have ac: "accumulate (\<lambda>_. None) ?b0 = Some b2"
    using x(1) by (simp add: accumulate_def b2_def CBlockIndex_of_header_def CBlockIndex_null_def)
  have b2: "nStatus b2 = 0" "links b2 = (None, None, 0)" "nChainTx b2 = 0" "length (ChainTrust b2) = 8"
    using x(2) by (simp_all add: b2_def CBlockIndex_of_header_def CBlockIndex_null_def links_def base_uint_zero_def WIDTH256_def)
  obtain st c where st: "RaiseValidity b2 BLOCK_VALID_TREE = Some (b2\<lparr>nStatus := st\<rparr>, c)" "st AND BLOCK_FAILED_MASK = nStatus b2 AND BLOCK_FAILED_MASK"
      "st AND BLOCK_VALID_MASK = (if nStatus b2 AND BLOCK_FAILED_MASK = 0 \<and> nStatus b2 AND BLOCK_VALID_MASK < BLOCK_VALID_TREE
         then BLOCK_VALID_TREE else nStatus b2 AND BLOCK_VALID_MASK)"
    by (rule RaiseValidity_status [of BLOCK_VALID_TREE b2]) (simp_all add: status_defs)
  have tv: "tree_valid (b2\<lparr>nStatus := st\<rparr>)" using st(3) b2(1) by (simp add: tree_valid_def BLOCK_VALID_TREE_def)
  have "AddToBlockIndex g CChainState_null h = Some (g, CChainState_null\<lparr>block_index := [g \<mapsto> b2\<lparr>nStatus := st\<rparr>],
      mapBlockIndex := [(BlockHeader_GetHash h, g)], pindexBestHeader := Some g, setDirtyBlockIndex := [g]\<rparr>)"
    using ac st(1) lk
    by (simp add: AddToBlockIndex_def CChainState_null_def Let_def link_prev_def beats_def set_insert_def)
  then show ?thesis using b2 tv st(2) by (auto simp: CChainState_null_def links_def)
qed

lemma LoadGenesisBlock_single:
  assumes ne: "hashPrevBlock (header genesis) \<noteq> BlockHeader_GetHash (header genesis)" and pos: "\<not> CDiskBlockPos_IsNull pos"
    and vt: "0 < length (vtx genesis)" "length (vtx genesis) < 2 ^ 32"
  shows "\<exists>s b. LoadGenesisBlock genesis g pos w CChainState_null = Some (True, s) \<and> single b \<and> block_index s = [g \<mapsto> b] \<and>
    chainActive s = [] \<and> setBlockIndexCandidates s = [g] \<and> mapBlocksUnlinked s = [] \<and>
    mapBlockIndex s = [(BlockHeader_GetHash (header genesis), g)] \<and> nTx b = of_nat (length (vtx genesis))"
proof -
  let ?n = "of_nat (length (vtx genesis)) :: u32"
  obtain s b where s: "AddToBlockIndex g CChainState_null (header genesis) = Some (g, s)" "block_index s = [g \<mapsto> b]" "chainActive s = []"
      "setBlockIndexCandidates s = []" "mapBlocksUnlinked s = []" "mapBlockIndex s = [(BlockHeader_GetHash (header genesis), g)]"
    and b: "links b = (None, None, 0)" "length (ChainTrust b) = 8" "nChainTx b = 0" "tree_valid b" "nStatus b AND BLOCK_FAILED_MASK = 0"
    using AddToBlockIndex_genesis [OF ne, of g] by blast
  have mg: "block_index s g = Some b" by (simp add: s(2))
  obtain b' c where b': "RaiseValidity (b\<lparr>nTx := ?n, nChainTx := 0, nFile := pos_nFile pos, nDataPos := pos_nPos pos, nUndoPos := 0,
       nStatus := (if w then (nStatus b OR BLOCK_HAVE_DATA) OR BLOCK_OPT_WITNESS else nStatus b OR BLOCK_HAVE_DATA)\<rparr>)
       BLOCK_VALID_TRANSACTIONS = Some (b', c)"
    "links b' = links b" "ChainTrust b' = ChainTrust b" "nTx b' = ?n" "nChainTx b' = 0" "have_data b'"
    "tree_valid b'" "nStatus b' AND BLOCK_FAILED_MASK = nStatus b AND BLOCK_FAILED_MASK"
    using received_entry [where b = b and count = ?n and f = "pos_nFile pos" and d = "pos_nPos pos" and w = w] b(4) by metis
  define s1 where "s1 = s\<lparr>block_index := (block_index s)(g \<mapsto> b'), setDirtyBlockIndex := set_insert g (setDirtyBlockIndex s)\<rparr>"
  have pp: "pprev b' = None" using b'(2) b(1) by (simp add: links_def)
  have "ReceivedBlockTransactions ?n w pos g s = receive_queue [g] s1"
    using ReceivedBlockTransactions_unfold [OF mg b'(1) s1_def] pp by simp
  also have "\<dots> = Some (receive_step g b' (0 + nTx b') s1)"
    using receive_queue_Cons [of s1 g b' 0 "[]"] pp by (simp add: s1_def s(5))
  finally have r: "ReceivedBlockTransactions ?n w pos g s = Some (receive_step g b' (0 + nTx b') s1)" .
  let ?b = "b'\<lparr>nChainTx := nTx b', nSequenceId := nBlockSequenceId s1\<rparr>"
  have "unat ?n = length (vtx genesis)" using vt(2) by (simp add: unat_of_nat)
  then have "?n \<noteq> 0" using vt(1) by auto
  then have "single ?b" using b b' by (auto simp: single_def links_def clean_entry_def have_data_def tree_valid_def)
  moreover have "LoadGenesisBlock genesis g pos w CChainState_null = Some (True, receive_step g b' (0 + nTx b') s1)"
    using s(1) r pos by (simp add: LoadGenesisBlock_def CChainState_null_def)
  ultimately show ?thesis
    by (intro exI [of _ "receive_step g b' (0 + nTx b') s1"] exI [of _ ?b])
      (simp add: receive_step_def Let_def s1_def s Tip_def set_insert_def b'(4))
qed

section \<open>Complete branches\<close>

text \<open>A branch whose blocks all have their data, are accepted by the consensus rules and are not marked as failed.\<close>

definition valid_branch :: "(ptr \<Rightarrow> connect_verdict) \<Rightarrow> block_store \<Rightarrow> ptr \<Rightarrow> bool" where
  "valid_branch judge m p \<longleftrightarrow> m p \<noteq> None \<and>
     (\<forall>q\<in>anc m p. judge q = BlockAccepted \<and> (\<exists>b. m q = Some b \<and> have_data b \<and> nStatus b AND BLOCK_FAILED_MASK = 0))"

lemma complete_ChainTx:
  assumes ii: "intake_inv [] s" and wf: "wf_store (block_index s)" and p: "block_index s p = Some b"
    and ok: "\<forall>q\<in>anc (block_index s) p. \<exists>b. block_index s q = Some b \<and> have_data b \<and> nStatus b AND BLOCK_FAILED_MASK = 0"
  shows "nChainTx b \<noteq> 0"
proof -
  let ?m = "block_index s"
  have eo: "entries_ok [] s" and uo: "unlinked_ok s" using ii by (auto simp: intake_inv_def)
  have "\<forall>b. ?m p = Some b \<longrightarrow> (\<forall>q\<in>anc ?m p. \<exists>b. ?m q = Some b \<and> have_data b \<and> nStatus b AND BLOCK_FAILED_MASK = 0) \<longrightarrow> nChainTx b \<noteq> 0"
  proof (rule tree_induct [OF wf p])
    fix p e assume p: "?m p = Some e"
      and IH: "\<And>q b. pprev e = Some q \<Longrightarrow> ?m q = Some b \<Longrightarrow>
        \<forall>b. ?m q = Some b \<longrightarrow> (\<forall>q\<in>anc ?m q. \<exists>b. ?m q = Some b \<and> have_data b \<and> nStatus b AND BLOCK_FAILED_MASK = 0) \<longrightarrow> nChainTx b \<noteq> 0"
    show "\<forall>b. ?m p = Some b \<longrightarrow> (\<forall>q\<in>anc ?m p. \<exists>b. ?m q = Some b \<and> have_data b \<and> nStatus b AND BLOCK_FAILED_MASK = 0) \<longrightarrow> nChainTx b \<noteq> 0"
    proof (intro allI impI notI)
      fix b assume "?m p = Some b" and ok: "\<forall>q\<in>anc ?m p. \<exists>b. ?m q = Some b \<and> have_data b \<and> nStatus b AND BLOCK_FAILED_MASK = 0" and z: "nChainTx b = 0"
      then have b: "b = e" using p by simp
      have "have_data e" using ok anc_self [OF wf p] p by force
      moreover have "\<not> failed_on ?m p" using ok unfolding failed_on_def by force
      ultimately have "(pprev e, p) \<in> set (mapBlocksUnlinked s)" using eo [unfolded entries_ok_def, rule_format, OF p] z b by simp
      from uo [unfolded unlinked_ok_def, rule_format, OF this]
      obtain q bq where q: "pprev e = Some q" "?m q = Some bq" "nChainTx bq = 0" by auto
      have "anc ?m q \<subseteq> anc ?m p" using anc_prev [OF wf p] q(1) by auto
      then show False using IH [OF q(1,2)] q(2,3) ok by blast
    qed
  qed
  then show ?thesis using p ok by blast
qed

lemma valid_branch_good:
  assumes ii: "intake_inv [] s" and wf: "wf_store (block_index s)" and v: "valid_branch judge (block_index s) p"
  shows "good judge (block_index s) p"
proof -
  let ?m = "block_index s"
  obtain b where b: "?m p = Some b" using v by (auto simp: valid_branch_def)
  have "\<exists>e. ?m q = Some e \<and> clean_entry e" if q: "q \<in> anc ?m p" for q
  proof -
    obtain e where e: "?m q = Some e" "have_data e" "nStatus e AND BLOCK_FAILED_MASK = 0" using v q by (auto simp: valid_branch_def)
    have "nChainTx e \<noteq> 0"
      by (rule complete_ChainTx [OF ii wf e(1)]) (use v anc_trans [OF wf b q] in \<open>auto simp: valid_branch_def\<close>)
    then show ?thesis using e by (auto simp: clean_entry_def have_data_def)
  qed
  then show ?thesis using v b by (simp add: good_def clean_path_def valid_branch_def)
qed

text \<open>The tip of the active chain has at least the work of every valid branch, and its own branch is valid.\<close>

definition follows_best :: "(ptr \<Rightarrow> connect_verdict) \<Rightarrow> CChainState \<Rightarrow> bool" where
  "follows_best judge s \<longleftrightarrow>
     (\<exists>t. chainActive s = chain_of (block_index s) t \<and> Tip (chainActive s) = Some t \<and> valid_branch judge (block_index s) t \<and>
        (\<forall>b. valid_branch judge (block_index s) b \<longrightarrow> work (block_index s) b \<le> work (block_index s) t))"

lemma good_valid_branch: "good judge m p \<Longrightarrow> valid_branch judge m p"
  by (force simp: good_def valid_branch_def clean_path_def clean_entry_def have_data_def)

lemma settled_follows:
  assumes st: "settled judge t s" and ii: "intake_inv [] s"
  shows "follows_best judge s"
proof -
  have inv: "chain_inv judge t s" using st by (simp add: settled_def)
  show ?thesis
    using st inv_active [OF inv] inv_Tip [OF inv] good_valid_branch [OF inv_good [OF inv]] valid_branch_good [OF ii inv_wf [OF inv]]
    unfolding follows_best_def settled_def by blast
qed

lemma ActivateBestChain_node:
  assumes "sound_verdicts judge" and "\<forall>p. undoable p" and inv: "node_inv judge t s"
  shows "\<exists>s' t'. ActivateBestChain judge undoable s = Some (True, s') \<and> node_inv judge t' s' \<and> settled judge t' s' \<and>
    mapBlockIndex s' = mapBlockIndex s"
proof -
  obtain s' t' where s': "ActivateBestChain judge undoable s = Some (True, s')" "settled judge t' s'" "evolves judge s s'"
    using ActivateBestChain_settles [OF assms(1,2) node_chain [OF inv] node_cands [OF inv]] by blast
  have r: "relabel judge (block_index s) (block_index s')" and m: "mapBlockIndex s' = mapBlockIndex s"
    using s'(3) by (auto simp: evolves_def same_maps_def)
  have ii: "intake_inv [] s'" using evolves_intake [OF s'(3) node_intake [OF inv]] .
  have "node_inv judge t' s'" using s'(2) ii node_map [OF inv] relabel_None [OF r] m by (fastforce simp: node_inv_def settled_def)
  then show ?thesis using s'(1,2) m by blast
qed

section \<open>Reachable states\<close>

inductive reachable :: "chain_params \<Rightarrow> (ptr \<Rightarrow> connect_verdict) \<Rightarrow> (ptr \<Rightarrow> bool) \<Rightarrow> node \<Rightarrow> bool"
  for cp judge undoable where
  reach_start:
    "LoadGenesisBlock genesis g pos w CChainState_null = Some (True, s0) \<Longrightarrow> ActivateBestChain judge undoable s0 = Some (True, s) \<Longrightarrow>
     BlockHeader_GetHash (header genesis) = hashGenesisBlock cp \<Longrightarrow> hashPrevBlock (header genesis) \<noteq> hashGenesisBlock cp \<Longrightarrow>
     \<not> CDiskBlockPos_IsNull pos \<Longrightarrow> 0 < length (vtx genesis) \<Longrightarrow> length (vtx genesis) < 2 ^ 32 \<Longrightarrow> judge g = BlockAccepted \<Longrightarrow>
     reachable cp judge undoable (s, caches)"
| reach_header:
    "reachable cp judge undoable (s, c) \<Longrightarrow> header_room s fresh h \<Longrightarrow>
     AcceptBlockHeader cp time fresh h (s, c) = (v, n) \<Longrightarrow> v \<noteq> Inl Aborted \<Longrightarrow> reachable cp judge undoable n"
| reach_block:
    "reachable cp judge undoable (s, c) \<Longrightarrow> header_room s fresh (header block) \<Longrightarrow> vtx block \<noteq> [] \<Longrightarrow>
     tx_total (block_index s) + length (vtx block) < 2 ^ 32 \<Longrightarrow>
     ProcessNewBlock cp judge undoable time fresh pos force block (s, c) = Some (ok, n) \<Longrightarrow> reachable cp judge undoable n"

text \<open>A check of a block changes neither its header nor its transactions.\<close>

definition keeps :: "(Block, 'a) check \<Rightarrow> bool" where
  "keeps f \<longleftrightarrow> (\<forall>b. header (snd (f b)) = header b \<and> vtx (snd (f b)) = vtx b)"

lemma keeps_cbind: "keeps f \<Longrightarrow> (\<And>x. keeps (g x)) \<Longrightarrow> keeps (cbind f g)"
  unfolding keeps_def cbind_def by (simp split: prod.splits sum.splits) (metis snd_conv)

lemma keeps_basic: "keeps (verdict v)" "keeps (expect r)" "keeps (reject_if b u)" "keeps (creturn x)"
  "keeps (\<lambda>block. (Inr (), if c then block\<lparr>fChecked := True\<rparr> else block))"
  by (simp_all add: keeps_def verdict_def expect_def reject_if_def creturn_def)

lemma keeps_if: "keeps f \<Longrightarrow> keeps g \<Longrightarrow> keeps (if c then f else g)"
  by simp

lemma keeps_apply: "keeps f \<Longrightarrow> f b = (v, b') \<Longrightarrow> header b' = header b \<and> vtx b' = vtx b"
  unfolding keeps_def by (metis snd_conv)

lemma CheckBlock_keeps:
  assumes "CheckBlock params pow root block = (v, block')"
  shows "header block' = header block \<and> vtx block' = vtx block"
proof (cases "fChecked block")
  case False
  then show ?thesis
    using assms unfolding CheckBlock_def
    by (simp only: if_False) (erule keeps_apply [rotated], intro keeps_cbind keeps_if keeps_basic, auto intro: keeps_cbind keeps_basic)
qed (use assms in \<open>simp add: CheckBlock_def\<close>)

lemma ProcessNewBlock_unfold:
  assumes "ProcessNewBlock cp judge undoable time fresh pos force block (s, c) = Some (ok, n)"
  obtains (checked) e where "CheckBlock (consensus cp) True True block = (Inl e, snd (CheckBlock (consensus cp) True True block))" "ok = False" "n = (s, c)"
  | (rejected) u block' e where "CheckBlock (consensus cp) True True block = (Inr u, block')"
      "AcceptBlock cp time fresh pos force block' (s, c) = (Inl (Rejected e), n)" "ok = False"
  | (accepted) u block' p s1 c1 s2 where "CheckBlock (consensus cp) True True block = (Inr u, block')"
      "AcceptBlock cp time fresh pos force block' (s, c) = (Inr p, s1, c1)" "ActivateBestChain judge undoable s1 = Some (ok, s2)" "n = (s2, c1)"
proof -
  obtain v block' where cb: "CheckBlock (consensus cp) True True block = (v, block')" by fastforce
  show thesis
  proof (cases v)
    case (Inl e)
    then show thesis using assms cb checked [of e] by (cases e) (auto simp: ProcessNewBlock_def)
  next
    case (Inr u)
    obtain v2 s1 c1 where ab: "AcceptBlock cp time fresh pos force block' (s, c) = (v2, s1, c1)" by (metis prod_cases3)
    show thesis
    proof (cases v2)
      case inl: (Inl e)
      then show thesis using assms cb Inr ab rejected by (cases e) (auto simp: ProcessNewBlock_def)
    next
      case inr: (Inr p)
      then show thesis using assms cb Inr ab accepted by (auto simp: ProcessNewBlock_def)
    qed
  qed
qed

lemma settled_same_good:
  assumes st: "settled judge t s" and inv: "node_inv judge t s'" and sg: "same_good judge s s'"
  shows "settled judge t s'"
  using assms inv_good [OF node_chain [OF inv]] unfolding settled_def node_inv_def same_good_def by metis

lemma settled_single:
  assumes "node_inv judge g s" and "block_index s = [g \<mapsto> b]"
  shows "settled judge g s"
  using assms by (auto simp: settled_def node_inv_def good_def split: if_splits)

definition at_rest :: "chain_params \<Rightarrow> (ptr \<Rightarrow> connect_verdict) \<Rightarrow> CChainState \<Rightarrow> bool" where
  "at_rest cp judge s \<longleftrightarrow> (\<exists>t. node_inv judge t s \<and> settled judge t s) \<and> genesis_known cp s"

lemma ProcessNewBlock_at_rest:
  assumes sv: "sound_verdicts judge" and und: "\<forall>p. undoable p" and rest: "at_rest cp judge s" and room: "header_room s fresh (header block)"
    and vt: "vtx block \<noteq> []" "tx_total (block_index s) + length (vtx block) < 2 ^ 32"
    and res: "ProcessNewBlock cp judge undoable time fresh pos force block (s, c) = Some (ok, n)"
  shows "at_rest cp judge (fst n)"
proof -
  obtain t where t: "node_inv judge t s" "genesis_known cp s" "settled judge t s" using rest by (auto simp: at_rest_def)
  from res show ?thesis
  proof (cases rule: ProcessNewBlock_unfold)
    case checked
    then show ?thesis using rest by simp
  next
    case (rejected u block' e)
    note cb = CheckBlock_keeps [OF rejected(1)]
    obtain s' c' where n: "n = (s', c')" by fastforce
    have "node_inv judge t s' \<and> genesis_known cp s' \<and> same_good judge s s'"
      using AcceptBlock_result [OF t(1,2) _ _ _ rejected(2) [unfolded n]] room vt cb by auto
    then show ?thesis using settled_same_good [OF t(3)] n by (auto simp: at_rest_def)
  next
    case (accepted u block' p s1 c1 s2)
    note cb = CheckBlock_keeps [OF accepted(1)]
    have "node_inv judge t s1 \<and> genesis_known cp s1"
      using AcceptBlock_result [OF t(1,2) _ _ _ accepted(2)] room vt cb by auto
    then show ?thesis
      using ActivateBestChain_node [OF sv und, of t s1] accepted(3,4) by (auto simp: at_rest_def genesis_known_def)
  qed
qed

lemma reachable_at_rest:
  assumes sv: "sound_verdicts judge" and und: "\<forall>p. undoable p"
  shows "reachable cp judge undoable n \<Longrightarrow> at_rest cp judge (fst n)"
proof (induction rule: reachable.induct)
  case (reach_start genesis g pos w s0 s caches)
  obtain b where b: "single b" "block_index s0 = [g \<mapsto> b]" "chainActive s0 = []" "setBlockIndexCandidates s0 = [g]" "mapBlocksUnlinked s0 = []"
      "mapBlockIndex s0 = [(hashGenesisBlock cp, g)]"
    using LoadGenesisBlock_single [of genesis pos g w] reach_start by auto
  have s: "s = s0\<lparr>chainActive := [Some g], setBlockIndexCandidates := [g]\<rparr>"
    using ActivateBestChain_single [of b judge g s0, OF b(1) reach_start.hyps(8) b(2-4)] reach_start.hyps(2) by simp
  have "node_inv judge g s" by (rule single_node [of b judge g, OF b(1) reach_start.hyps(8)]) (simp_all add: s b)
  then show ?case using settled_single [of judge g s b] by (auto simp: at_rest_def genesis_known_def s b)
next
  case (reach_header s c fresh h time v n)
  then obtain t where t: "node_inv judge t s" "genesis_known cp s" "settled judge t s" by (auto simp: at_rest_def)
  obtain s' c' where n: "n = (s', c')" by fastforce
  from AcceptBlockHeader_result [OF t(1,2) reach_header.hyps(2) reach_header.hyps(3) [unfolded n] reach_header.hyps(4)]
  show ?case using settled_same_good [OF t(3)] n by (auto simp: at_rest_def)
next
  case (reach_block s c fresh block time pos force ok n)
  then show ?case using ProcessNewBlock_at_rest [OF sv und, of cp s fresh block time pos force c ok n] by simp
qed

section \<open>The active chain of a running node\<close>

text \<open>
  C37: A node that starts from the genesis block and is then given headers and blocks in any order, with any
  outcome of their checks, is always on a best chain: its active chain is the chain of its tip, every
  block on it has its data, is accepted by the consensus rules and is not marked as failed, and no other
  such branch the node has received completely has more work. The verdicts are assumed to be
  deterministic and without system errors, and the work and the transaction counts to fit their types.\<close>

theorem reachable_follows_best:
  assumes "reachable cp judge undoable (s, caches)" and "sound_verdicts judge" and "\<forall>p. undoable p"
  shows "follows_best judge s"
proof -
  obtain t where "node_inv judge t s" "settled judge t s"
    using reachable_at_rest [OF assms(2,3,1)] by (auto simp: at_rest_def)
  then show ?thesis using settled_follows node_intake by blast
qed


section \<open>A concrete node\<close>

text \<open>A genesis block that refers to no predecessor and has passed its checks.\<close>

definition demo_genesis :: Block where
  "demo_genesis = demo_block\<lparr>header := BlockHeader_null\<lparr>hashPrevBlock := []\<rparr>, fChecked := True\<rparr>"

definition demo_cp :: chain_params where
  "demo_cp = \<lparr>consensus = main_params, hashGenesisBlock = BlockHeader_GetHash (header demo_genesis), mapCheckpoints = [], fCheckpointsEnabled = False,
     minimumChainWork = base_uint_zero WIDTH256\<rparr>"

definition demo_pos :: CDiskBlockPos where "demo_pos = \<lparr>pos_nFile = 0, pos_nPos = 8\<rparr>"

abbreviation all_accepted :: "ptr \<Rightarrow> connect_verdict" where "all_accepted \<equiv> (\<lambda>_. BlockAccepted)"

lemma header_hash_length: "length (BlockHeader_GetHash h) = 32"
  using Hash1_fips [of "replicate 64 0" "ser_header h"]
  by (simp add: BlockHeader_GetHash_def SerializeHash_def CHashWriter_GetHash_def CHashWriter_write_def Hash1_def fips_sha256_length)

lemma demo_genesis_prev: "hashPrevBlock (header demo_genesis) \<noteq> BlockHeader_GetHash (header demo_genesis)"
proof
  assume "hashPrevBlock (header demo_genesis) = BlockHeader_GetHash (header demo_genesis)"
  then have "length (hashPrevBlock (header demo_genesis)) = 32" using header_hash_length by metis
  then show False by (simp add: demo_genesis_def)
qed

lemma demo_vtx: "length (vtx demo_genesis) = 2" "fChecked demo_genesis"
  by (simp_all add: demo_genesis_def demo_block_def)

lemma demo_reachable:
  "\<exists>s b. reachable demo_cp all_accepted (\<lambda>_. True) (s, caches) \<and> block_index s = [0 \<mapsto> b] \<and> have_data b \<and> unat (nTx b) = 2 \<and>
     mapBlockIndex s = [(hashGenesisBlock demo_cp, 0)]"
proof -
  have pos: "\<not> CDiskBlockPos_IsNull demo_pos" by (simp add: demo_pos_def CDiskBlockPos_IsNull_def)
  obtain s b where s: "LoadGenesisBlock demo_genesis 0 demo_pos False CChainState_null = Some (True, s)" "single b" "block_index s = [0 \<mapsto> b]"
      "chainActive s = []" "setBlockIndexCandidates s = [0]" "mapBlocksUnlinked s = []" "mapBlockIndex s = [(BlockHeader_GetHash (header demo_genesis), 0)]"
      "nTx b = 2"
    using LoadGenesisBlock_single [OF demo_genesis_prev pos, of 0 False] demo_vtx(1) by auto
  let ?s = "s\<lparr>chainActive := [Some 0], setBlockIndexCandidates := [0]\<rparr>"
  have "ActivateBestChain all_accepted (\<lambda>_. True) s = Some (True, ?s)"
    by (rule ActivateBestChain_single [of b all_accepted 0, OF s(2) _ s(3-5)]) simp
  then have "reachable demo_cp all_accepted (\<lambda>_. True) (?s, caches)"
    by (rule reach_start [OF s(1)]) (use pos demo_genesis_prev demo_vtx in \<open>auto simp: demo_cp_def\<close>)
  moreover have "have_data b" using s(2) by (simp add: single_def clean_entry_def have_data_def)
  ultimately show ?thesis using s(3,7,8) by (intro exI [of _ ?s] exI [of _ b]) (simp add: demo_cp_def)
qed

theorem reachable_follows_best_witness:
  "\<exists>s. reachable demo_cp all_accepted (\<lambda>_. True) (s, (\<lambda>_ _. None)) \<and> follows_best all_accepted s"
proof -
  obtain s where s: "reachable demo_cp all_accepted (\<lambda>_. True) (s, (\<lambda>_ _. None))" using demo_reachable by blast
  then show ?thesis using reachable_follows_best [OF s] by (auto simp: sound_verdicts_def)
qed


section \<open>Invalidating a block of the active chain\<close>

lemma disconnect_while_prev:
  assumes und: "\<forall>p. undoable p"
  shows "chain_inv judge t s \<Longrightarrow> block_index s t = Some bt \<Longrightarrow> p \<in> anc (block_index s) t \<Longrightarrow> block_index s p = Some b \<Longrightarrow> pprev b = Some q \<Longrightarrow>
    disconnect_while undoable p b s = Some (True, s\<lparr>chainActive := chain_of (block_index s) q\<rparr>)"
proof (induction "nat (nHeight bt)" arbitrary: t bt s rule: less_induct)
  case less
  note inv = less.prems(1) and wf = inv_wf [OF less.prems(1)]
  have ct: "Contains (chainActive s) b p" using Contains_anc [OF wf less.prems(4)] less.prems(3) inv_active [OF inv] by simp
  obtain bq where bq: "block_index s q = Some bq" "nHeight b = nHeight bq + 1" using prev_entry [OF wf less.prems(4,5)] .
  show ?case
  proof (cases "p = t")
    case True
    then have "DisconnectTip undoable s = Some (True, s\<lparr>chainActive := chain_of (block_index s) q\<rparr>)"
      using DisconnectTip_prev [OF inv _ less.prems(4) [unfolded True] less.prems(5)] und by simp
    moreover have "p \<notin> anc (block_index s) q" using anc_dom [OF wf bq(1), of p] less.prems(4) bq(2) by force
    then have "\<not> Contains (chain_of (block_index s) q) b p" using Contains_anc [OF wf less.prems(4)] by simp
    ultimately show ?thesis using ct by (subst disconnect_while.simps, simp) (subst disconnect_while.simps, simp)
  next
    case False
    then obtain r where r: "pprev bt = Some r" "p \<in> anc (block_index s) r"
      using less.prems(3) anc_prev [OF wf less.prems(2)] by (auto split: option.splits)
    obtain br where br: "block_index s r = Some br" "nHeight bt = nHeight br + 1" "0 \<le> nHeight br" using prev_entry [OF wf less.prems(2) r(1)] .
    have "r \<in> anc (block_index s) t" using anc_prev [OF wf less.prems(2)] r(1) anc_self [OF wf br(1)] by simp
    then have inv': "chain_inv judge r (s\<lparr>chainActive := chain_of (block_index s) r\<rparr>)"
      using chain_inv_retip [OF inv good_anc [OF wf inv_good [OF inv]]] by simp
    have "disconnect_while undoable p b (s\<lparr>chainActive := chain_of (block_index s) r\<rparr>) = Some (True, s\<lparr>chainActive := chain_of (block_index s) q\<rparr>)"
      using less.hyps [OF _ inv'] br r(2) less.prems(4,5) by simp
    then show ?thesis using ct DisconnectTip_prev [OF inv _ less.prems(2) r(1)] und by (subst disconnect_while.simps) simp
  qed
qed

lemma mark_disconnected_total:
  "wf_store (block_index s) \<Longrightarrow> block_index s t = Some bt \<Longrightarrow> p \<in> anc (block_index s) t \<Longrightarrow>
   \<exists>s'. mark_disconnected p (Some t) s = Some s' \<and> tree_eq (block_index s) (block_index s') \<and> chainActive s' = chainActive s \<and>
     mapBlockIndex s' = mapBlockIndex s"
proof (induction "nat (nHeight bt)" arbitrary: t bt s rule: less_induct)
  case less
  note wf = less.prems(1)
  show ?case
  proof (cases "t = p")
    case True
    then show ?thesis by (subst (1) mark_disconnected.simps) (simp add: tree_eq_def)
  next
    case False
    then obtain r where r: "pprev bt = Some r" "p \<in> anc (block_index s) r"
      using less.prems(3) anc_prev [OF wf less.prems(2)] by (auto split: option.splits)
    obtain br where br: "block_index s r = Some br" "nHeight bt = nHeight br + 1" "0 \<le> nHeight br" using prev_entry [OF wf less.prems(2) r(1)] .
    define s1 where "s1 = s\<lparr>block_index := (block_index s)(t \<mapsto> bt\<lparr>nStatus := nStatus bt OR BLOCK_FAILED_CHILD\<rparr>),
      setDirtyBlockIndex := set_insert t (setDirtyBlockIndex s), setBlockIndexCandidates := set_erase t (setBlockIndexCandidates s)\<rparr>"
    have te: "tree_eq (block_index s) (block_index s1)" using less.prems(2) by (simp add: tree_eq_def s1_def links_def)
    obtain br' where br': "block_index s1 r = Some br'" "nHeight br' = nHeight br" by (rule tree_eq_Some [OF te br(1)])
    have "nat (nHeight br') < nat (nHeight bt)" using br br'(2) by simp
    from less.hyps [OF this tree_eq_wf [OF te wf] br'(1)]
    obtain s' where s': "mark_disconnected p (Some r) s1 = Some s'" "tree_eq (block_index s1) (block_index s')" "chainActive s' = chainActive s1"
        "mapBlockIndex s' = mapBlockIndex s1" using r(2) tree_eq_anc [OF te] by auto
    have "mark_disconnected p (Some t) s = Some s'"
      using False less.prems(2) r(1) s'(1) by (subst mark_disconnected.simps) (simp add: s1_def)
    then show ?thesis using s' te by (simp add: tree_eq_def s1_def)
  qed
qed

lemma readd_candidates_not:
  "p \<notin> set cs \<Longrightarrow> m p = Some b \<Longrightarrow> \<not> connectable b \<Longrightarrow> p \<notin> set (readd_candidates m tip index cs)"
  unfolding readd_candidates_def
  by (rule fold_invariant [where Q = "\<lambda>_. True" and P = "\<lambda>cs. p \<notin> set cs"]) (auto split: option.splits prod.splits)

text \<open>
  The block is off the active chain, which now ends in its predecessor, it is marked as invalid, and it is
  not a candidate any more.
\<close>

lemma InvalidateBlock_leaves:
  assumes und: "\<forall>p. undoable p" and inv: "chain_inv judge t s" and p: "p \<in> anc (block_index s) t" "block_index s p = Some b" "pprev b = Some q"
  shows "\<exists>s' b'. InvalidateBlock undoable p s = Some (True, s') \<and> chainActive s' = chain_of (block_index s) q \<and>
    block_index s' p = Some b' \<and> nStatus b' AND BLOCK_FAILED_VALID \<noteq> 0 \<and> p \<notin> set (setBlockIndexCandidates s')"
proof -
  let ?m = "block_index s"
  note wf = inv_wf [OF inv]
  obtain bt where bt: "?m t = Some bt" using inv_entry [OF inv] ..
  obtain bq where bq: "?m q = Some bq" using prev_entry [OF wf p(2,3)] .
  let ?s1 = "s\<lparr>chainActive := chain_of ?m q\<rparr>"
  have d: "disconnect_while undoable p b s = Some (True, ?s1)" using disconnect_while_prev [OF und inv bt p] .
  have c: "Contains (chainActive s) b p" using Contains_anc [OF wf p(2)] p(1) inv_active [OF inv] by simp
  obtain s2 where s2: "mark_disconnected p (Some t) ?s1 = Some s2" "tree_eq ?m (block_index s2)" "chainActive s2 = chain_of ?m q"
    using mark_disconnected_total [of ?s1 t bt p] wf bt p(1) by auto
  obtain b2 where b2: "block_index s2 p = Some b2" by (rule tree_eq_Some [OF s2(2) p(2)])
  let ?b3 = "b2\<lparr>nStatus := nStatus b2 OR BLOCK_FAILED_VALID\<rparr>"
  let ?m3 = "(block_index s2)(p \<mapsto> ?b3)"
  define s3 where "s3 = s2\<lparr>block_index := ?m3, setDirtyBlockIndex := set_insert p (setDirtyBlockIndex s2),
    g_failed_blocks := set_insert p (g_failed_blocks s2),
    setBlockIndexCandidates := readd_candidates ?m3 q (mapBlockIndex s2) (set_erase p (setBlockIndexCandidates s2))\<rparr>"
  have tip: "Tip (chain_of ?m q) = Some q" using Tip_chain_of [OF wf bq] .
  obtain s4 where s4: "InvalidChainFound s3 p = Some s4" "block_index s4 = ?m3" "chainActive s4 = chain_of ?m q"
      "setBlockIndexCandidates s4 = setBlockIndexCandidates s3"
    using tip s2(3) by (auto simp: InvalidChainFound_def s3_def)
  have fl: "nStatus ?b3 AND BLOCK_FAILED_VALID \<noteq> 0"
    by (simp add: bit.conj_disj_distrib2 or_eq_0_iff) (simp add: BLOCK_FAILED_VALID_def)
  then have "nStatus ?b3 AND BLOCK_FAILED_MASK \<noteq> 0" by (rule failed_valid_mask)
  then have "\<not> connectable ?b3" by (auto simp: connectable_def IsValid_def)
  then have "p \<notin> set (setBlockIndexCandidates s4)"
    using readd_candidates_not [of p "set_erase p (setBlockIndexCandidates s2)" ?m3 ?b3] s4(4) by (simp add: s3_def)
  moreover have "InvalidateBlock undoable p s = Some (True, s4)"
    using p(2) d c inv_Tip [OF inv] s2 b2 tip s4(1) by (simp add: InvalidateBlock_def Let_def s3_def)
  ultimately show ?thesis using s4 fl by auto
qed

section \<open>Possible corruption\<close>

text \<open>An invalid block whose corruption is possible leaves the state as it is.\<close>

lemma corrupt_step:
  assumes inv: "chain_inv judge t s" and p: "block_index s p = Some b" "pprev b = Some t" and j: "judge p = BlockInvalid True"
  shows "ActivateBestChainStep judge undoable s p = Some (True, True, s)"
proof -
  let ?m = "block_index s"
  note wf = inv_wf [OF inv] and tree = inv_tree [OF inv]
  obtain bt where bt: "?m t = Some bt" "nHeight b = nHeight bt + 1" "0 \<le> nHeight bt" using prev_entry [OF wf p] .
  obtain f where f: "FindFork ?m (chain_of ?m t) (Some p) = Some (Some f)" "f \<in> anc ?m t" "anc ?m f = anc ?m t \<inter> anc ?m p"
    using FindFork_anc [OF tree bt(1) p(1)] by blast
  have "t \<in> anc ?m f" using f(3) anc_self [OF wf bt(1)] anc_prev [OF wf p(1)] p(2) by simp
  moreover obtain bf where bf: "?m f = Some bf" "nHeight bf \<le> nHeight bt" using f(2) by (rule anc_dom [OF wf bt(1)])
  ultimately have ft: "f = t" using anc_height_eq [OF wf bf(1) _ bt(1)] by simp
  have dis: "disconnect_to undoable (Some t) s = Some (True, s)" using inv_Tip [OF inv] by (subst disconnect_to.simps) simp
  have tg: "min (nHeight bt + 32) (nHeight b) = nHeight b" using bt(2) by simp
  have ga: "GetAncestor ?m p (nHeight b) = Some (Some p)" using GetAncestor_nth_prev [OF wf p(1), of "nHeight b"] bt by simp
  have tc: "to_connect ?m (nHeight bt) (Some p) [] = Some [p]"
    using p bt by (subst to_connect.simps, simp) (subst to_connect.simps, simp)
  have ct: "ConnectTip judge s p = Some (BlockInvalid True, s)" using p inv_Tip [OF inv] j by (simp add: ConnectTip_def InvalidBlockFound_def)
  have "connect_batches judge p (nHeight b) (Some t) (nHeight bt) s = Some (BatchInvalid, s)"
    using bt(2) tg ga tc ct by (subst connect_batches.simps) (simp add: Let_def)
  then show ?thesis using p(1) f(1) ft inv_active [OF inv] inv_Tip [OF inv] dis bt(1) by (simp add: ActivateBestChainStep_def)
qed

text \<open>
  C39: When the best candidate extends the tip and connecting it fails in a way that may be due to corrupted
  data, \<open>ActivateBestChain\<close> does not return: each turn of its loop finds the same candidate, fails in the
  same way and leaves the state unchanged, since \<open>InvalidBlockFound\<close> marks nothing.\<close>

theorem ActivateBestChain_corrupt_loops:
  assumes "chain_inv judge t s" and "block_index s p = Some b" and "pprev b = Some t" and "judge p = BlockInvalid True"
    and "FindMostWorkChain s = Some (Some p, s)"
  shows "ActivateBestChainStep judge undoable s p = Some (True, True, s) \<and> ActivateBestChain judge undoable s = None"
proof
  show st: "ActivateBestChainStep judge undoable s p = Some (True, True, s)" by (rule corrupt_step [OF assms(1-4)])
  have tip: "Tip (chainActive s) = Some t" by (rule inv_Tip [OF assms(1)])
  have ne: "t \<noteq> p" using tree_work [OF inv_tree [OF assms(1)] assms(2,3)] inv_entry [OF assms(1)] by auto
  have loops: "\<not> (j = judge \<and> u = undoable \<and> mo = None \<and> s' = s)" if "activate_loop j u mo s' = Some y" for j u mo s' y
    using that
    apply (rule activate_loop.raw_induct [where P = "\<lambda>j u mo s' y. \<not> (j = judge \<and> u = undoable \<and> mo = None \<and> s' = s)", rotated])
    subgoal premises prems for f j u mo s' y
    proof
      assume "j = judge \<and> u = undoable \<and> mo = None \<and> s' = s"
      then have "f judge undoable None s = Some y" using prems(2) assms(5) st tip ne by (simp add: Let_def)
      then show False using prems(1) by blast
    qed
    done
  show "ActivateBestChain judge undoable s = None" unfolding ActivateBestChain_def using loops by (metis not_Some_eq)
qed

text \<open>A chain of two blocks of which only the first is active.\<close>

definition pair_genesis :: CBlockIndex where
  "pair_genesis = CBlockIndex_null\<lparr>nStatus := 11, nTx := 1, nChainTx := 1, ChainTrust := [1, 0, 0, 0, 0, 0, 0, 0]\<rparr>"

definition pair_child :: CBlockIndex where
  "pair_child = CBlockIndex_null\<lparr>pprev := Some 0, pskip := Some 0, nHeight := 1, nStatus := 11, nTx := 1, nChainTx := 2,
     ChainTrust := [2, 0, 0, 0, 0, 0, 0, 0], nSequenceId := 1\<rparr>"

definition pair_state :: CChainState where
  "pair_state = CChainState_null\<lparr>block_index := [0 \<mapsto> pair_genesis, 1 \<mapsto> pair_child], setBlockIndexCandidates := [0, 1], chainActive := [Some 0]\<rparr>"

definition pair_judge :: "ptr \<Rightarrow> connect_verdict" where
  "pair_judge p = (if p = 1 then BlockInvalid True else BlockAccepted)"

lemma pair_chain_of: "chain_of [0 \<mapsto> pair_genesis, 1 \<mapsto> pair_child] 0 = [Some 0]"
  by (simp add: chain_of_def chain_path_def pair_genesis_def CBlockIndex_null_def)

lemma pair_inv: "chain_inv pair_judge 0 pair_state"
proof -
  let ?m = "[0 \<mapsto> pair_genesis, Suc 0 \<mapsto> pair_child]"
  have "tree_inv ?m"
    by (auto simp: tree_inv_def wf_store_def wf_entry_def pair_genesis_def pair_child_def CBlockIndex_null_def GetSkipHeight_def
        split: if_splits)
  moreover have "anc ?m 0 = {0}" using pair_chain_of by (simp add: anc_def)
  then have "good pair_judge ?m 0"
    by (simp add: good_def clean_path_def pair_judge_def clean_entry_def pair_genesis_def status_defs)
  ultimately show ?thesis
    using pair_chain_of by (simp add: chain_inv_def pair_state_def) (simp add: pair_genesis_def pair_child_def)
qed

lemma pair_scan: "scan_path [0 \<mapsto> pair_genesis, 1 \<mapsto> pair_child] [Some 0] (Some 1) = Some None"
  by (subst scan_path.simps, simp add: pair_child_def Contains_def chain_at_def status_defs CBlockIndex_null_def)
    (subst scan_path.simps, simp add: pair_genesis_def Contains_def chain_at_def CBlockIndex_null_def)

lemma pair_most: "FindMostWorkChain pair_state = Some (Some 1, pair_state)"
proof -
  have "best_candidate [0 \<mapsto> pair_genesis, 1 \<mapsto> pair_child] [0, 1] = Some 1"
    by (simp add: CBlockIndexWorkComparator_def pair_genesis_def pair_child_def CompareTo_def)
  then show ?thesis using pair_scan by (subst FindMostWorkChain.simps) (simp add: pair_state_def)
qed

theorem ActivateBestChain_corrupt_loops_witness:
  "ActivateBestChainStep pair_judge (\<lambda>_. True) pair_state 1 = Some (True, True, pair_state) \<and>
   ActivateBestChain pair_judge (\<lambda>_. True) pair_state = None"
proof (rule ActivateBestChain_corrupt_loops [OF pair_inv _ _ _ pair_most])
  show "block_index pair_state 1 = Some pair_child" by (simp add: pair_state_def)
  show "pprev pair_child = Some 0" by (simp add: pair_child_def)
  show "pair_judge 1 = BlockInvalid True" by (simp add: pair_judge_def)
qed

end
