(* ===== verification/Spec2Isabelle.thy ===== *)
theory Spec2Isabelle
  imports Prelude Arith_Uint256 Compact Bytes Sha256 SipHash Merkle Script Interpreter Script_Flags
    Script_Limits Script_Templates Chain Chain_Tree Chain_Views Hex Params Serialize Serialize_Codec
    Transaction Transaction_Codec Block Coins Coins_View TxVerify TxVerify_Props Pow Pow_Props
    VersionBits VersionBits_Props Sighash Sighash_Props BlockCheck Connect
    Ledger Connect_Refine Connect_Props Compressor Compressor_Props Reorg
    Standard Standard_Props Bloom Bloom_Props PartialMerkle PartialMerkle_Props BlockFiles
    ChainState ChainState_Tree ChainState_Props BlockTree BlockTree_Intake BlockTree_Props
begin

text \<open>
  A model of the consensus core of the node under \<^verbatim>\<open>src/src\<close>, for the default brand
  \<^verbatim>\<open>BRAND_foodchain\<close> (proof of work with double SHA-256, no stake, no money supply index), with
  the theorems that make its parts correct.

  \<^bold>\<open>The program.\<close> A node receives headers and blocks (\<^verbatim>\<open>validation.cpp\<close>: \<open>ProcessNewBlockHeaders\<close>,
  \<open>ProcessNewBlock\<close>). A header is checked on its own and against its ancestors (\<^verbatim>\<open>pow.cpp\<close>,
  \<^verbatim>\<open>versionbits.cpp\<close>) and enters the tree of block index entries (\<^verbatim>\<open>chain.h\<close>); a block is checked
  without coins (\<open>CheckBlock\<close>, \<open>ContextualCheckBlock\<close>, \<^verbatim>\<open>consensus/merkle.cpp\<close>), stored in a
  numbered file and becomes a candidate when it and its ancestors are complete. \<open>ActivateBestChain\<close>
  moves the active chain to the candidate with most work, disconnecting and connecting blocks.
  Connecting a block (\<open>ConnectBlock\<close>) runs the scripts of every input (\<^verbatim>\<open>script/interpreter.cpp\<close>)
  and moves coins in a stack of caches above a database (\<^verbatim>\<open>coins.cpp\<close>, \<^verbatim>\<open>txdb.cpp\<close>); what it
  spends is kept in an undo file (\<^verbatim>\<open>undo.cpp\<close>, \<^verbatim>\<open>compressor.cpp\<close>) from which \<open>DisconnectBlock\<close>
  restores it. Light clients get filtered blocks (\<^verbatim>\<open>bloom.cpp\<close>, \<^verbatim>\<open>merkleblock.cpp\<close>).

  \<^bold>\<open>Conventions.\<close> A machine integer whose wrap-around the code can meet is a word; an amount is an
  \<open>int\<close> with the 64-bit range checks written out. Hashes and scripts are byte lists. A pointer to a
  block index entry is an address in a store \<open>ptr \<Rightarrow> CBlockIndex option\<close>. \<open>None\<close> is an assertion that
  fails, an invalid pointer, an index out of range or a loop that does not end; an error the code
  reports is a value of a sum type. Loops over a structure recurse on it; loops that follow pointers
  or retry are \<open>partial_function (option)\<close>, so no fuel is chosen anywhere in them, and that they
  return is a theorem (\<open>GetAncestor_correct\<close>, \<open>GetStateFor_correct\<close>, \<open>ProcessNewBlock_returns\<close>).
  Hash functions other than SHA-256 and SipHash, the elliptic curve, the stored files' environment
  and the key-value store are arguments of the definitions; what is used of them is a hypothesis
  or a locale that is interpreted on a concrete instance.

  \<^bold>\<open>The theories.\<close>
  \<^item> \<open>Prelude\<close>: types, collections and lemmas on lists, options and words. \<open>Bytes\<close>, \<open>Hex\<close>:
    \<^verbatim>\<open>crypto/common.h\<close>, \<^verbatim>\<open>uintBIG.h\<close>, the hexadecimal text of \<^verbatim>\<open>utilstrencodings.cpp\<close>.
  \<^item> \<open>Arith_Uint256\<close>, \<open>Compact\<close>: \<^verbatim>\<open>arith_uint256\<close>; every operator of the limb array is the
    arithmetic on the value modulo its width, division included, and the compact form of targets.
  \<^item> \<open>Sha256\<close>, \<open>SipHash\<close>: \<^verbatim>\<open>crypto/sha256.cpp\<close> (any split of the input over \<open>Write\<close> gives the
    hash of the whole message) and the table hashes of \<^verbatim>\<open>hash.cpp\<close>.
  \<^item> \<open>Merkle\<close>: the streaming computation of \<^verbatim>\<open>consensus/merkle.cpp\<close> is the recursive root and
    branch, reports duplicated lists, and the root binds the list otherwise.
  \<^item> \<open>Serialize\<close>, \<open>Serialize_Codec\<close>, \<open>Transaction\<close>, \<open>Transaction_Codec\<close>, \<open>Block\<close>:
    \<^verbatim>\<open>serialize.h\<close>, \<^verbatim>\<open>primitives/\<close>; the locale \<open>codec\<close> composes round trips of the wire format.
  \<^item> \<open>Script\<close>, \<open>Interpreter\<close>, \<open>Script_Flags\<close>, \<open>Script_Limits\<close>, \<open>Script_Templates\<close>, \<open>Sighash\<close>,
    \<open>Sighash_Props\<close>: \<^verbatim>\<open>script/script.h\<close>, \<^verbatim>\<open>script/interpreter.cpp\<close>; all opcodes and both signature
    versions. Limits on stack and operations hold in every state, no script makes the interpreter
    read outside its stacks, added flags only forbid (soft forks), lock times are enforced, and the
    witness signature hash commits to the transaction.
  \<^item> \<open>Standard\<close>, \<open>Standard_Props\<close>: \<^verbatim>\<open>script/standard.cpp\<close>, round trips of destinations.
  \<^item> \<open>Chain\<close>, \<open>Chain_Tree\<close>, \<open>Chain_Views\<close>: \<^verbatim>\<open>chain.h\<close>, \<^verbatim>\<open>chain.cpp\<close>; skip lists, forks, median times
    and proofs. \<open>Params\<close>, \<open>Pow\<close>, \<open>Pow_Props\<close>, \<open>VersionBits\<close>, \<open>VersionBits_Props\<close>: \<^verbatim>\<open>foodchain/params.cpp\<close>,
    \<^verbatim>\<open>pow.cpp\<close>, the subsidy, and \<^verbatim>\<open>versionbits.cpp\<close> with its cache against the state machine.
  \<^item> \<open>Coins\<close>, \<open>Coins_View\<close>: \<^verbatim>\<open>coins.cpp\<close>, \<^verbatim>\<open>txdb.cpp\<close>; the locale \<open>coins_view\<close> is what a cache relies
    on below it, a cache above a view is a view again, and the database is one over a \<open>kv_store\<close>.
  \<^item> \<open>TxVerify\<close>, \<open>TxVerify_Props\<close>, \<open>BlockCheck\<close>, \<open>Connect\<close>: \<^verbatim>\<open>consensus/tx_verify.cpp\<close> and the checks,
    \<open>CheckInputs\<close>, \<open>ConnectBlock\<close> and \<open>DisconnectBlock\<close> of \<^verbatim>\<open>validation.cpp\<close>. \<open>Ledger\<close> is the abstract
    machine of unspent outputs; \<open>Connect_Refine\<close> and \<open>Connect_Props\<close> show that connecting a block
    refines it and that the outputs never exceed \<open>MAX_MONEY\<close>. \<open>Compressor\<close>, \<open>Compressor_Props\<close>, \<open>Reorg\<close>:
    the compact formats, the undo file, and what a reorganisation restores.
  \<^item> \<open>BlockFiles\<close>: positions in the block files. \<open>ChainState\<close>, \<open>ChainState_Tree\<close>, \<open>ChainState_Props\<close>:
    candidates, the search for the best chain and its activation. \<open>BlockTree\<close>, \<open>BlockTree_Intake\<close>,
    \<open>BlockTree_Props\<close>: headers, blocks, invalidation; the step relation \<open>reachable\<close> of a node and its
    invariant, that the node is on a valid chain no complete valid branch exceeds.
  \<^item> \<open>Bloom\<close>, \<open>Bloom_Props\<close>, \<open>PartialMerkle\<close>, \<open>PartialMerkle_Props\<close>: filters and filtered blocks, from
    the serving node to what the client extracts.

  \<^bold>\<open>Simplifications.\<close> The writers of undo data and of the transaction index are arguments of
  \<open>ConnectBlock\<close>, and undo files are byte lists with no opening or flushing. A script check that runs
  into an abort makes the whole queue \<open>Aborted\<close>. Chain selection takes the verdict of \<open>ConnectBlock\<close>
  and the success of \<open>DisconnectTip\<close> per block as arguments, so that both levels are proved
  separately; its theorems assume that chain work and transaction counts fit their types. The
  floating point sizes of filters are arguments.

  \<^bold>\<open>Not modelled.\<close> Loading the block index from its database, pruning, and the consistency check of
  the block index; the optional address, spent and timestamp indexes (\<^verbatim>\<open>index.cpp\<close>, off by default);
  assembler and SIMD variants of SHA-256; RIPEMD-160, SHA-1, SHA-512, HMAC, AES, ChaCha20, the
  \<^verbatim>\<open>sph\<close> hashes and scrypt; libsecp256k1, LevelDB and UniValue, which the sources only call; keys, wallet,
  fee estimation, mining, the peer-to-peer protocol and its address book, RPC, REST, ZMQ, Tor, HTTP and
  the Qt interface; threads, locks, the scheduler and program start; the other brands and proof of stake.
\<close>

section \<open>Properties that span components\<close>

text \<open>
  C21: A reorganisation through the undo file loses nothing. When \<open>ConnectBlock\<close> accepted a regular
  block above the genesis block on a cache whose coins can be stored, its undo data can be written to
  the undo file at any position, and \<open>DisconnectBlock\<close> with what \<open>UndoReadFromDisk\<close> reads back from
  there succeeds cleanly on every cache that holds the outputs \<open>ConnectBlock\<close> left and restores the
  outputs and the best block from before.
\<close>
theorem reorganisation_restores:
  assumes "coins_view get batch vinv utxo" and "cache_inv vinv utxo (cs_view s)" and "ce_store env pindex = Some bi"
    and "regular_block env bi (cs_block s)" and "ConnectBlock env get best pindex sc jc s = (Inr (undo, bi'), s')"
    and "wf_utxo (cache_utxo utxo (cs_view s))" and "nHeight bi > 0"
    and "cache_inv vinv utxo v" and "cache_utxo utxo v = cache_utxo utxo (cs_view s')"
    and "\<forall>c \<in> ran (cache_utxo utxo (cs_view s)). valid_coin c" and "nHeight bi < 2 ^ 30"
    and "\<forall>tx \<in> set (vtx (cs_block s)). length (vin tx) \<le> MAX_INPUTS_PER_BLOCK" and "curve_ok ec"
  shows "\<exists>nPos file' v'. UndoWriteToDisk ec messageStart hashPrev undo file pos = Some (nPos, file') \<and>
    DisconnectBlock (ce_store env) get (UndoReadFromDisk ec hashPrev file' nPos) (cs_block s) bi v = Some (DISCONNECT_OK, v') \<and>
    cache_utxo utxo v' = cache_utxo utxo (cs_view s) \<and> hashBlock v' = fst (GetBestBlock best (cs_view s))"
proof -
  have "valid_blockundo undo" using coins_view.ConnectBlock_undo_valid [OF assms(1-5,10-12)] .
  then obtain nPos file' where "UndoWriteToDisk ec messageStart hashPrev undo file pos = Some (nPos, file')"
      "UndoReadFromDisk ec hashPrev file' nPos = Some undo"
    using undo_file_round [OF assms(13)] by blast
  then show ?thesis using coins_view.DisconnectBlock_law [OF assms(1-9)] by metis
qed

theorem reorganisation_restores_witness:
  "\<exists>undo bi s' nPos file' v'.
     ConnectBlock demo_env (CCoinsViewDB_GetCoin mem_read) (\<lambda>_. []) 1 (Some False) True (demo_state demo_db demo_txs) = (Inr (undo, bi), s') \<and>
     UndoWriteToDisk toy_curve [0xf9] [7] undo [] 0 = Some (nPos, file') \<and>
     DisconnectBlock demo_chain (CCoinsViewDB_GetCoin mem_read) (UndoReadFromDisk toy_curve [7] file' nPos)
       (cs_block (demo_state demo_db demo_txs)) (demo_entry (Some 0) (Some 0) 1 20) (cs_view s') = Some (DISCONNECT_OK, v') \<and>
     cache_utxo (db_utxo mem_read) v' = [demo_point \<mapsto> demo_coin]"
proof -
  obtain undo bi s' where r: "ConnectBlock demo_env (CCoinsViewDB_GetCoin mem_read) (\<lambda>_. []) 1 (Some False) True (demo_state demo_db demo_txs) = (Inr (undo, bi), s')"
    using demo_txs_connect by blast
  have s: "ce_store demo_env 1 = Some (demo_entry (Some 0) (Some 0) 1 20)" by (simp add: demo_env_simps connect_chain_simps)
  have wf: "wf_utxo (cache_utxo (db_utxo mem_read) (cs_view (demo_state demo_db demo_txs)))"
    unfolding demo_views(2) using demo_spend_checked(3)
    by (simp add: wf_utxo_def restorable_def demo_coin_def IsSpent_def TxOut_IsNull_def)
  have inv: "cache_inv (db_inv mem_read) (db_utxo mem_read) (cs_view s')"
    using mem_db.ConnectBlock_law [OF demo_views(1) s demo_regular(1) r] by simp
  have coins: "\<forall>c \<in> ran (cache_utxo (db_utxo mem_read) (cs_view (demo_state demo_db demo_txs))). valid_coin c"
    unfolding demo_views(2)
    by (simp add: valid_coin_def valid_out_def demo_coin_def MoneyRange_def MAX_MONEY_def COIN_def MAX_SCRIPT_SIZE_def)
  have ins: "\<forall>tx \<in> set (vtx (cs_block (demo_state demo_db demo_txs))). length (vin tx) \<le> MAX_INPUTS_PER_BLOCK"
    by (simp add: demo_state_def demo_txs_def demo_coinbase_def demo_spend_def MAX_INPUTS_value)
  show ?thesis
    using r reorganisation_restores [OF mem_db.coins_view_axioms demo_views(1) s demo_regular(1) r wf _ inv refl coins _ ins toy_curve_ok]
    unfolding demo_views(2) demo_env_simps by fastforce
qed

end
